(* ===== verification/Prelude.thy ===== *)
theory Prelude
  imports Main "HOL-Library.Word" "HOL-Library.Monad_Syntax"
begin

text \<open>
  Shared conventions of the development.

  A Rust computation that may panic (a failed \<open>assert!\<close>, an \<open>expect\<close>, a slice index out of
  range, a checked integer overflow) is a value of an option type: \<open>None\<close> is the panic and
  \<open>Some r\<close> the normal result. The sequencing of such computations is the option monad of
  \<open>HOL-Library.Monad_Syntax\<close>. Integer overflow is checked, as in the repository's \<open>release-safe\<close>
  profile and in its test profile.

  Typed indices (\<open>newtype_index!\<close>, a \<open>NonZero<u32>\<close> holding the index plus one) are natural
  numbers; the places where the code can overflow the index type keep the check.
\<close>

named_theorems panic_defs \<open>definitions of the checked primitives\<close>
named_theorems monad_elims \<open>what a successful checked computation says about its steps\<close>
named_theorems opcode_defs \<open>definitions of the EVM opcode bytes\<close>

type_synonym u8 = "8 word"
type_synonym u16 = "16 word"
type_synonym u32 = "32 word"
type_synonym u64 = "64 word"
type_synonym u256 = "256 word"

subsection \<open>Checked primitives\<close>

definition rust_assert :: "bool \<Rightarrow> unit option" where [panic_defs]:
  "rust_assert b = (if b then Some () else None)"

definition checked_sub :: "nat \<Rightarrow> nat \<Rightarrow> nat option" where [panic_defs]:
  "checked_sub a b = (if b \<le> a then Some (a - b) else None)"

definition checked_add_u32 :: "nat \<Rightarrow> nat \<Rightarrow> nat option" where [panic_defs]:
  "checked_add_u32 a b = (if a + b < 2 ^ 32 then Some (a + b) else None)"

definition slice_get :: "'a list \<Rightarrow> nat \<Rightarrow> 'a option" where [panic_defs]:
  "slice_get xs i = (if i < length xs then Some (xs ! i) else None)"

definition slice_range :: "'a list \<Rightarrow> nat \<Rightarrow> nat \<Rightarrow> 'a list option" where [panic_defs]:
  "slice_range xs a b = (if a \<le> b \<and> b \<le> length xs then Some (take (b - a) (drop a xs)) else None)"

definition slice_set :: "'a list \<Rightarrow> nat \<Rightarrow> 'a \<Rightarrow> 'a list option" where [panic_defs]:
  "slice_set xs i x = (if i < length xs then Some (xs[i := x]) else None)"

text \<open>The largest index of an index type is \<open>u32::MAX - 1\<close>.\<close>

definition idx_limit :: nat where
  "idx_limit = 2 ^ 32 - 1"

lemmas [monad_elims] = bind_eq_Some_conv Let_def

lemma rust_assert_True [simp]: "b \<Longrightarrow> rust_assert b = Some ()"
  by (simp add: rust_assert_def)

lemma rust_assert_False [simp]: "\<not> b \<Longrightarrow> rust_assert b = None"
  by (simp add: rust_assert_def)

lemma rust_assert_None [simp]: "rust_assert b = None \<longleftrightarrow> \<not> b"
  by (simp add: rust_assert_def)

lemma rust_assert_Some [monad_elims]: "rust_assert b = Some u \<longleftrightarrow> b"
  by (simp add: rust_assert_def)

lemma checked_sub_in [simp]: "b \<le> a \<Longrightarrow> checked_sub a b = Some (a - b)"
  by (simp add: checked_sub_def)

lemma checked_sub_None [simp]: "checked_sub a b = None \<longleftrightarrow> a < b"
  by (auto simp: checked_sub_def)

lemma checked_sub_Some [monad_elims]: "checked_sub a b = Some c \<longleftrightarrow> b \<le> a \<and> c = a - b"
  by (auto simp: checked_sub_def)

lemma slice_get_in [simp]: "i < length xs \<Longrightarrow> slice_get xs i = Some (xs ! i)"
  by (simp add: slice_get_def)

lemma slice_get_None [simp]: "slice_get xs i = None \<longleftrightarrow> length xs \<le> i"
  by (auto simp: slice_get_def)

lemma slice_get_Some [monad_elims]: "slice_get xs i = Some x \<longleftrightarrow> i < length xs \<and> x = xs ! i"
  by (auto simp: slice_get_def)

lemma slice_range_in [simp]:
  "a \<le> b \<Longrightarrow> b \<le> length xs \<Longrightarrow> slice_range xs a b = Some (take (b - a) (drop a xs))"
  by (simp add: slice_range_def)

lemma slice_range_Some [monad_elims]:
  "slice_range xs a b = Some ys \<longleftrightarrow> a \<le> b \<and> b \<le> length xs \<and> ys = take (b - a) (drop a xs)"
  by (auto simp: slice_range_def)

lemma slice_set_in [simp]: "i < length xs \<Longrightarrow> slice_set xs i x = Some (xs[i := x])"
  by (simp add: slice_set_def)

lemma slice_set_Some [monad_elims]:
  "slice_set xs i x = Some ys \<longleftrightarrow> i < length xs \<and> ys = xs[i := x]"
  by (auto simp: slice_set_def)

lemma checked_add_u32_in [simp]: "a + b < 2 ^ 32 \<Longrightarrow> checked_add_u32 a b = Some (a + b)"
  by (simp add: checked_add_u32_def)

lemma checked_add_u32_Some [monad_elims]:
  "checked_add_u32 a b = Some c \<longleftrightarrow> a + b < 2 ^ 32 \<and> c = a + b"
  by (auto simp: checked_add_u32_def)

subsection \<open>First match, as \<open>Iterator::position\<close> and \<open>find_map\<close>\<close>

fun position :: "('a \<Rightarrow> bool) \<Rightarrow> 'a list \<Rightarrow> nat option" where
  "position P [] = None"
| "position P (x # xs) = (if P x then Some 0 else map_option Suc (position P xs))"

fun find_map :: "('a \<Rightarrow> 'b option) \<Rightarrow> 'a list \<Rightarrow> 'b option" where
  "find_map f [] = None"
| "find_map f (x # xs) = (case f x of Some y \<Rightarrow> Some y | None \<Rightarrow> find_map f xs)"

lemma position_SomeD:
  "position P xs = Some i \<Longrightarrow> i < length xs \<and> P (xs ! i) \<and> (\<forall>j<i. \<not> P (xs ! j))"
proof (induction xs arbitrary: i)
  case (Cons x xs)
  show ?case
  proof (cases "P x")
    case False
    with Cons.prems obtain k where k: "position P xs = Some k" "i = Suc k" by auto
    from Cons.IH [OF k(1)] False show ?thesis
      unfolding k(2) by (auto simp: less_Suc_eq_0_disj)
  qed (use Cons.prems in auto)
qed simp

lemma position_None [simp]: "position P xs = None \<longleftrightarrow> (\<forall>x\<in>set xs. \<not> P x)"
  by (induction xs) auto

lemma find_map_SomeD: "find_map f xs = Some y \<Longrightarrow> \<exists>x\<in>set xs. f x = Some y"
  by (induction xs) (auto split: option.splits)

lemma find_map_None [simp]: "find_map f xs = None \<longleftrightarrow> (\<forall>x\<in>set xs. f x = None)"
  by (induction xs) (auto split: option.splits)

text \<open>\<open>Iterator::filter\<close> and folds with a closure that may panic.\<close>

fun filter_opt :: "('a \<Rightarrow> bool option) \<Rightarrow> 'a list \<Rightarrow> 'a list option" where
  "filter_opt f [] = Some []"
| "filter_opt f (x # xs) = do {
     keep \<leftarrow> f x;
     rest \<leftarrow> filter_opt f xs;
     Some (if keep then x # rest else rest)
   }"

fun fold_opt :: "('a \<Rightarrow> 's \<Rightarrow> 's option) \<Rightarrow> 'a list \<Rightarrow> 's \<Rightarrow> 's option" where
  "fold_opt f [] s = Some s"
| "fold_opt f (x # xs) s = Option.bind (f x s) (fold_opt f xs)"

lemma filter_opt_total: "(\<And>x. x \<in> set xs \<Longrightarrow> f x = Some (P x)) \<Longrightarrow> filter_opt f xs = Some (filter P xs)"
  by (induction xs) auto

lemma fold_opt_append: "fold_opt f (xs @ ys) s = Option.bind (fold_opt f xs s) (fold_opt f ys)"
  by (induction xs arbitrary: s) (auto split: Option.bind_split)

text \<open>An invariant kept by every step is kept by the fold.\<close>

lemma fold_opt_invariant:
  assumes "fold_opt f xs s = Some t" "I s"
    and "\<And>x s t. x \<in> set xs \<Longrightarrow> I s \<Longrightarrow> f x s = Some t \<Longrightarrow> I t"
  shows "I t"
  using assms by (induction xs arbitrary: s) (auto simp: bind_eq_Some_conv)

subsection \<open>Growth of a \<open>Vec\<close>\<close>

text \<open>
  The capacity of a \<open>Vec\<close> after a reallocation is not specified beyond being large enough, so it
  is a parameter: \<open>grow c n\<close> is the capacity the allocator gives to a vector of capacity \<open>c\<close> that
  needs room for \<open>n\<close> elements. The locale states the documented guarantee of \<open>Vec::reserve\<close>.
\<close>

definition vec_reserve :: "(nat \<Rightarrow> nat \<Rightarrow> nat) \<Rightarrow> nat \<Rightarrow> nat \<Rightarrow> nat \<Rightarrow> nat" where
  "vec_reserve grow cap len additional =
     (if len + additional \<le> cap then cap else grow cap (len + additional))"

locale vec_growth =
  fixes grow :: "nat \<Rightarrow> nat \<Rightarrow> nat"
  assumes grow_enough: "n \<le> grow c n"
begin

lemma vec_reserve_enough: "len + additional \<le> vec_reserve grow cap len additional"
  by (simp add: vec_reserve_def grow_enough)

end

text \<open>Amortised doubling, the growth of the standard library's vector.\<close>

definition doubling :: "nat \<Rightarrow> nat \<Rightarrow> nat" where
  "doubling c n = max 4 (max (2 * c) n)"

interpretation doubling_growth: vec_growth doubling
  by unfold_locales (simp add: doubling_def)

end
