(* ===== verification/Indices.thy ===== *)
theory Indices
  imports Prelude
begin

text \<open>
  Typed indices, spans and the loop limiter of \<open>plankc/crates/plank-core/src\<close> (\<open>index.rs\<close>,
  \<open>span.rs\<close>, \<open>lib.rs\<close>). \<open>newtype_index!\<close> keeps an index as a non-zero 32-bit word holding the
  index plus one; the first part models that representation and shows that the index operations
  are those on natural numbers below \<open>idx_limit\<close>, which is how the other theories use them.
\<close>

subsection \<open>The representation\<close>

definition raw_new :: "u32 \<Rightarrow> u32 option" where
  "raw_new x = (let r = x + 1 in if r = 0 then None else Some r)"

definition raw_try_new :: "u32 \<Rightarrow> u32 option" where
  "raw_try_new x = (let r = x + 1 in if r \<noteq> 0 then Some r else None)"

definition raw_get :: "u32 \<Rightarrow> u32" where
  "raw_get r = r - 1"

definition raw_checked_add :: "u32 \<Rightarrow> u32 \<Rightarrow> u32 option" where
  "raw_checked_add r b = (if unat r + unat b < 2 ^ 32 then Some (r + b) else None)"

definition raw_add :: "u32 \<Rightarrow> u32 \<Rightarrow> u32 option" where
  "raw_add r b = (let a = raw_get r in if unat a + unat b < 2 ^ 32 then raw_new (a + b) else None)"

definition raw_sub_idx :: "u32 \<Rightarrow> u32 \<Rightarrow> u32 option" where
  "raw_sub_idx r s = (let a = raw_get r; b = raw_get s in if b \<le> a then Some (a - b) else None)"

definition raw_sub :: "u32 \<Rightarrow> u32 \<Rightarrow> u32 option" where
  "raw_sub r b = (let a = raw_get r in if b \<le> a then raw_new (a - b) else None)"

definition raw_try_from :: "nat \<Rightarrow> u32 option" where
  "raw_try_from n = (if n > idx_limit - 1 then None else Some (of_nat n + 1))"

text \<open>The natural number an index stands for, and the operations on those numbers.\<close>

definition raw_idx :: "u32 \<Rightarrow> nat" where
  "raw_idx r = unat (raw_get r)"

definition idx_add :: "nat \<Rightarrow> nat \<Rightarrow> nat option" where
  "idx_add i b = (if i + b < idx_limit then Some (i + b) else None)"

definition idx_sub :: "nat \<Rightarrow> nat \<Rightarrow> nat option" where
  "idx_sub i j = (if j \<le> i then Some (i - j) else None)"

lemma idx_add_in [simp]: "i + b < idx_limit \<Longrightarrow> idx_add i b = Some (i + b)"
  by (simp add: idx_add_def)

lemma idx_add_Some [monad_elims]: "idx_add i b = Some k \<longleftrightarrow> i + b < idx_limit \<and> k = i + b"
  by (auto simp: idx_add_def)

lemma idx_sub_Some [monad_elims]: "idx_sub i j = Some k \<longleftrightarrow> j \<le> i \<and> k = i - j"
  by (auto simp: idx_sub_def)

lemma unat_less_32: "unat (x :: u32) < 2 ^ 32"
  using unsigned_less [of x] by simp

lemma unat_Suc32: "x + 1 \<noteq> 0 \<Longrightarrow> unat (x + 1 :: u32) = Suc (unat x)"
  using unatSuc [of x] by (simp add: add.commute)

lemma raw_new_cases: "raw_new x = (if unat x < idx_limit then Some (x + 1) else None)"
proof (cases "x + 1 = 0")
  case True
  then have "x = - 1" by (simp add: eq_neg_iff_add_eq_0)
  moreover have "unat (- 1 :: u32) = 2 ^ 32 - 1" by (simp add: unsigned_minus_1_eq_mask mask_eq_exp_minus_1)
  ultimately show ?thesis unfolding raw_new_def idx_limit_def by simp
next
  case False
  have "unat (x + 1) < 2 ^ 32" using unsigned_less [of "x + 1"] by simp
  with unat_Suc32 [OF False] False show ?thesis by (simp add: raw_new_def idx_limit_def)
qed

lemma raw_get_new: "raw_new x = Some r \<Longrightarrow> raw_get r = x \<and> r \<noteq> 0"
  by (auto simp: raw_new_def raw_get_def Let_def split: if_splits)

lemma raw_idx_less: "r \<noteq> 0 \<Longrightarrow> raw_idx r < idx_limit"
proof -
  assume r: "r \<noteq> 0"
  then have "Suc (unat (r - 1)) = unat r" using unat_Suc32 [of "r - 1"] by simp
  with unat_less_32 [of r] show ?thesis by (simp add: raw_idx_def raw_get_def idx_limit_def)
qed

lemma raw_add_idx:
  assumes r: "r \<noteq> 0"
  shows "map_option raw_idx (raw_add r b) = idx_add (raw_idx r) (unat b)"
proof (cases "raw_idx r + unat b < 2 ^ 32")
  case True
  then have "unat (raw_get r + b) = raw_idx r + unat b"
    by (simp add: raw_idx_def unat_add_lem [symmetric])
  moreover have "raw_get (raw_get r + b + 1) = raw_get r + b" by (simp add: raw_get_def)
  ultimately show ?thesis using True
    by (auto simp: raw_add_def raw_idx_def raw_new_cases idx_add_def Let_def)
next
  case False
  then show ?thesis by (auto simp: raw_add_def raw_idx_def idx_add_def idx_limit_def)
qed

lemma raw_sub_idx_idx: "map_option unat (raw_sub_idx r s) = idx_sub (raw_idx r) (raw_idx s)"
  by (auto simp: raw_sub_idx_def raw_idx_def idx_sub_def word_le_nat_alt unat_sub)

lemma raw_try_from_idx:
  "raw_try_from n = (if n < idx_limit then Some (of_nat n + 1) else None)"
  by (auto simp: raw_try_from_def idx_limit_def)

lemma raw_idx_try_from: "raw_try_from n = Some r \<Longrightarrow> raw_idx r = n \<and> r \<noteq> 0"
proof -
  assume r: "raw_try_from n = Some r"
  then have n: "n < idx_limit" and r': "r = of_nat n + 1"
    by (auto simp: raw_try_from_idx split: if_splits)
  have "unat (of_nat n :: u32) = n" using n by (simp add: idx_limit_def unat_of_nat)
  with n r' raw_new_cases [of "of_nat n"] raw_get_new [of "of_nat n" r] show ?thesis
    by (simp add: raw_idx_def)
qed

subsection \<open>Spans\<close>

text \<open>The iterator over a half-open span, from the front and from the back.\<close>

definition span_next :: "nat \<times> nat \<Rightarrow> (nat \<times> (nat \<times> nat)) option" where
  "span_next s = (if fst s \<ge> snd s then None else Some (fst s, (fst s + 1, snd s)))"

definition span_next_back :: "nat \<times> nat \<Rightarrow> (nat \<times> (nat \<times> nat)) option" where
  "span_next_back s = (if fst s \<ge> snd s then None else Some (snd s - 1, (fst s, snd s - 1)))"

function span_collect :: "nat \<times> nat \<Rightarrow> nat list" where
  "span_collect s = (case span_next s of None \<Rightarrow> [] | Some (x, s') \<Rightarrow> x # span_collect s')"
  by auto
termination by (relation "measure (\<lambda>s. snd s - fst s)") (auto simp: span_next_def split: if_splits)

function span_collect_rev :: "nat \<times> nat \<Rightarrow> nat list" where
  "span_collect_rev s = (case span_next_back s of None \<Rightarrow> [] | Some (x, s') \<Rightarrow> x # span_collect_rev s')"
  by auto
termination
  by (relation "measure (\<lambda>s. snd s - fst s)") (auto simp: span_next_back_def split: if_splits)

declare span_collect.simps [simp del] span_collect_rev.simps [simp del]

lemma span_collect_upt: "span_collect (a, b) = [a..<b]"
proof (induction "b - a" arbitrary: a)
  case 0
  then show ?case by (simp add: span_collect.simps span_next_def)
next
  case (Suc n)
  from Suc.hyps(2) have "a < b" by simp
  with Suc.hyps(1) [of "Suc a"] Suc.hyps(2) show ?case
    by (subst span_collect.simps) (simp add: span_next_def upt_conv_Cons)
qed

lemma span_collect_rev_upt: "span_collect_rev (a, b) = rev [a..<b]"
proof (induction "b - a" arbitrary: b)
  case 0
  then show ?case by (simp add: span_collect_rev.simps span_next_back_def)
next
  case (Suc n)
  from Suc.hyps(2) obtain c where b: "b = Suc c" "a \<le> c" by (cases b) auto
  with Suc.hyps(1) [of c] Suc.hyps(2) show ?case
    by (subst span_collect_rev.simps) (simp add: span_next_back_def)
qed

subsection \<open>The loop limiter\<close>

record loop_limit =
  ll_count :: nat
  ll_max :: nat

definition ll_with_max :: "nat \<Rightarrow> loop_limit" where
  "ll_with_max m = \<lparr>ll_count = 0, ll_max = m\<rparr>"

definition ll_tick :: "loop_limit \<Rightarrow> loop_limit option" where
  "ll_tick l = do {
     c \<leftarrow> checked_add_u32 (ll_count l) 1;
     rust_assert (c \<le> ll_max l);
     Some (l\<lparr>ll_count := c\<rparr>)
   }"

text \<open>The ticks that are left.\<close>

definition ll_left :: "loop_limit \<Rightarrow> nat" where
  "ll_left l = ll_max l - ll_count l"

lemma ll_tick_left: "ll_left l > 0 \<Longrightarrow> ll_max l < 2 ^ 32 \<Longrightarrow>
    \<exists>l'. ll_tick l = Some l' \<and> ll_left l' = ll_left l - 1 \<and> ll_max l' = ll_max l"
  by (auto simp: ll_tick_def ll_left_def)

lemma ll_tick_Some:
  "ll_tick l = Some l' \<Longrightarrow> ll_count l < ll_max l \<and> ll_left l = Suc (ll_left l') \<and> ll_max l' = ll_max l"
  by (auto simp: ll_tick_def ll_left_def monad_elims)

subsection \<open>Properties\<close>

text \<open>
  C40: the non-zero \<open>u32\<close> encoding of indices refines plain numbers. Encoding
  succeeds exactly below the limit and decodes to the same number, a stored index is always below
  the limit, and on stored indices the sum with a \<open>u32\<close> and the difference panic exactly when the
  plain operation does and otherwise give the same number.
\<close>

theorem raw_index_refines:
  assumes "r \<noteq> 0"
  shows "map_option raw_idx (raw_try_from n) = (if n < idx_limit then Some n else None) \<and>
         raw_idx r < idx_limit \<and>
         map_option raw_idx (raw_add r b) = idx_add (raw_idx r) (unat b) \<and>
         map_option unat (raw_sub_idx r s) = idx_sub (raw_idx r) (raw_idx s)"
proof -
  have "map_option raw_idx (raw_try_from n) = (if n < idx_limit then Some n else None)"
    using raw_idx_try_from [of n] by (auto simp: raw_try_from_idx)
  with raw_idx_less [OF assms] raw_add_idx [OF assms] raw_sub_idx_idx show ?thesis by blast
qed

theorem raw_index_refines_witness: "map_option raw_idx (raw_add 5 7) = Some 11"
  using raw_index_refines [of 5 0 7 0] by (simp add: raw_idx_def raw_get_def idx_limit_def)

text \<open>
  The span iterators, driven until they stop, yield every index of the half-open
  span once, in increasing order from the front and in decreasing order from the back; an empty or
  reversed span yields nothing.
\<close>

theorem span_iterates: "span_collect (a, b) = [a..<b] \<and> span_collect_rev (a, b) = rev [a..<b]"
  by (simp add: span_collect_upt span_collect_rev_upt)

end
