(* ===== verification/Opcodes.thy ===== *)
theory Opcodes
  imports Indices
begin

text \<open>
  The EVM opcodes of the assembler (\<open>plankc/sir/crates/assembler/src/op.rs\<close>) and the disassembly
  of an op section (\<open>fmt_ops\<close> of \<open>display.rs\<close>). Each constant is a definition of its own; the match
  of \<open>name\<close> is the table of its arms, searched in order.
\<close>

definition op_STOP :: u8 where [opcode_defs]: "op_STOP = 0x00"
definition op_ADD :: u8 where [opcode_defs]: "op_ADD = 0x01"
definition op_MUL :: u8 where [opcode_defs]: "op_MUL = 0x02"
definition op_SUB :: u8 where [opcode_defs]: "op_SUB = 0x03"
definition op_DIV :: u8 where [opcode_defs]: "op_DIV = 0x04"
definition op_SDIV :: u8 where [opcode_defs]: "op_SDIV = 0x05"
definition op_MOD :: u8 where [opcode_defs]: "op_MOD = 0x06"
definition op_SMOD :: u8 where [opcode_defs]: "op_SMOD = 0x07"
definition op_ADDMOD :: u8 where [opcode_defs]: "op_ADDMOD = 0x08"
definition op_MULMOD :: u8 where [opcode_defs]: "op_MULMOD = 0x09"
definition op_EXP :: u8 where [opcode_defs]: "op_EXP = 0x0A"
definition op_SIGNEXTEND :: u8 where [opcode_defs]: "op_SIGNEXTEND = 0x0B"
definition op_LT :: u8 where [opcode_defs]: "op_LT = 0x10"
definition op_GT :: u8 where [opcode_defs]: "op_GT = 0x11"
definition op_SLT :: u8 where [opcode_defs]: "op_SLT = 0x12"
definition op_SGT :: u8 where [opcode_defs]: "op_SGT = 0x13"
definition op_EQ :: u8 where [opcode_defs]: "op_EQ = 0x14"
definition op_ISZERO :: u8 where [opcode_defs]: "op_ISZERO = 0x15"
definition op_AND :: u8 where [opcode_defs]: "op_AND = 0x16"
definition op_OR :: u8 where [opcode_defs]: "op_OR = 0x17"
definition op_XOR :: u8 where [opcode_defs]: "op_XOR = 0x18"
definition op_NOT :: u8 where [opcode_defs]: "op_NOT = 0x19"
definition op_BYTE :: u8 where [opcode_defs]: "op_BYTE = 0x1A"
definition op_SHL :: u8 where [opcode_defs]: "op_SHL = 0x1B"
definition op_SHR :: u8 where [opcode_defs]: "op_SHR = 0x1C"
definition op_SAR :: u8 where [opcode_defs]: "op_SAR = 0x1D"
definition op_CLZ :: u8 where [opcode_defs]: "op_CLZ = 0x1E"
definition op_KECCAK256 :: u8 where [opcode_defs]: "op_KECCAK256 = 0x20"
definition op_ADDRESS :: u8 where [opcode_defs]: "op_ADDRESS = 0x30"
definition op_BALANCE :: u8 where [opcode_defs]: "op_BALANCE = 0x31"
definition op_ORIGIN :: u8 where [opcode_defs]: "op_ORIGIN = 0x32"
definition op_CALLER :: u8 where [opcode_defs]: "op_CALLER = 0x33"
definition op_CALLVALUE :: u8 where [opcode_defs]: "op_CALLVALUE = 0x34"
definition op_CALLDATALOAD :: u8 where [opcode_defs]: "op_CALLDATALOAD = 0x35"
definition op_CALLDATASIZE :: u8 where [opcode_defs]: "op_CALLDATASIZE = 0x36"
definition op_CALLDATACOPY :: u8 where [opcode_defs]: "op_CALLDATACOPY = 0x37"
definition op_CODESIZE :: u8 where [opcode_defs]: "op_CODESIZE = 0x38"
definition op_CODECOPY :: u8 where [opcode_defs]: "op_CODECOPY = 0x39"
definition op_GASPRICE :: u8 where [opcode_defs]: "op_GASPRICE = 0x3A"
definition op_EXTCODESIZE :: u8 where [opcode_defs]: "op_EXTCODESIZE = 0x3B"
definition op_EXTCODECOPY :: u8 where [opcode_defs]: "op_EXTCODECOPY = 0x3C"
definition op_RETURNDATASIZE :: u8 where [opcode_defs]: "op_RETURNDATASIZE = 0x3D"
definition op_RETURNDATACOPY :: u8 where [opcode_defs]: "op_RETURNDATACOPY = 0x3E"
definition op_EXTCODEHASH :: u8 where [opcode_defs]: "op_EXTCODEHASH = 0x3F"
definition op_BLOCKHASH :: u8 where [opcode_defs]: "op_BLOCKHASH = 0x40"
definition op_COINBASE :: u8 where [opcode_defs]: "op_COINBASE = 0x41"
definition op_TIMESTAMP :: u8 where [opcode_defs]: "op_TIMESTAMP = 0x42"
definition op_NUMBER :: u8 where [opcode_defs]: "op_NUMBER = 0x43"
definition op_PREVRANDAO :: u8 where [opcode_defs]: "op_PREVRANDAO = 0x44"
definition op_GASLIMIT :: u8 where [opcode_defs]: "op_GASLIMIT = 0x45"
definition op_CHAINID :: u8 where [opcode_defs]: "op_CHAINID = 0x46"
definition op_SELFBALANCE :: u8 where [opcode_defs]: "op_SELFBALANCE = 0x47"
definition op_BASEFEE :: u8 where [opcode_defs]: "op_BASEFEE = 0x48"
definition op_BLOBHASH :: u8 where [opcode_defs]: "op_BLOBHASH = 0x49"
definition op_BLOBBASEFEE :: u8 where [opcode_defs]: "op_BLOBBASEFEE = 0x4A"
definition op_POP :: u8 where [opcode_defs]: "op_POP = 0x50"
definition op_MLOAD :: u8 where [opcode_defs]: "op_MLOAD = 0x51"
definition op_MSTORE :: u8 where [opcode_defs]: "op_MSTORE = 0x52"
definition op_MSTORE8 :: u8 where [opcode_defs]: "op_MSTORE8 = 0x53"
definition op_SLOAD :: u8 where [opcode_defs]: "op_SLOAD = 0x54"
definition op_SSTORE :: u8 where [opcode_defs]: "op_SSTORE = 0x55"
definition op_JUMP :: u8 where [opcode_defs]: "op_JUMP = 0x56"
definition op_JUMPI :: u8 where [opcode_defs]: "op_JUMPI = 0x57"
definition op_PC :: u8 where [opcode_defs]: "op_PC = 0x58"
definition op_MSIZE :: u8 where [opcode_defs]: "op_MSIZE = 0x59"
definition op_GAS :: u8 where [opcode_defs]: "op_GAS = 0x5A"
definition op_JUMPDEST :: u8 where [opcode_defs]: "op_JUMPDEST = 0x5B"
definition op_TLOAD :: u8 where [opcode_defs]: "op_TLOAD = 0x5C"
definition op_TSTORE :: u8 where [opcode_defs]: "op_TSTORE = 0x5D"
definition op_MCOPY :: u8 where [opcode_defs]: "op_MCOPY = 0x5E"
definition op_PUSH0 :: u8 where [opcode_defs]: "op_PUSH0 = 0x5F"
definition op_PUSH1 :: u8 where [opcode_defs]: "op_PUSH1 = 0x60"
definition op_PUSH2 :: u8 where [opcode_defs]: "op_PUSH2 = 0x61"
definition op_PUSH3 :: u8 where [opcode_defs]: "op_PUSH3 = 0x62"
definition op_PUSH4 :: u8 where [opcode_defs]: "op_PUSH4 = 0x63"
definition op_PUSH5 :: u8 where [opcode_defs]: "op_PUSH5 = 0x64"
definition op_PUSH6 :: u8 where [opcode_defs]: "op_PUSH6 = 0x65"
definition op_PUSH7 :: u8 where [opcode_defs]: "op_PUSH7 = 0x66"
definition op_PUSH8 :: u8 where [opcode_defs]: "op_PUSH8 = 0x67"
definition op_PUSH9 :: u8 where [opcode_defs]: "op_PUSH9 = 0x68"
definition op_PUSH10 :: u8 where [opcode_defs]: "op_PUSH10 = 0x69"
definition op_PUSH11 :: u8 where [opcode_defs]: "op_PUSH11 = 0x6A"
definition op_PUSH12 :: u8 where [opcode_defs]: "op_PUSH12 = 0x6B"
definition op_PUSH13 :: u8 where [opcode_defs]: "op_PUSH13 = 0x6C"
definition op_PUSH14 :: u8 where [opcode_defs]: "op_PUSH14 = 0x6D"
definition op_PUSH15 :: u8 where [opcode_defs]: "op_PUSH15 = 0x6E"
definition op_PUSH16 :: u8 where [opcode_defs]: "op_PUSH16 = 0x6F"
definition op_PUSH17 :: u8 where [opcode_defs]: "op_PUSH17 = 0x70"
definition op_PUSH18 :: u8 where [opcode_defs]: "op_PUSH18 = 0x71"
definition op_PUSH19 :: u8 where [opcode_defs]: "op_PUSH19 = 0x72"
definition op_PUSH20 :: u8 where [opcode_defs]: "op_PUSH20 = 0x73"
definition op_PUSH21 :: u8 where [opcode_defs]: "op_PUSH21 = 0x74"
definition op_PUSH22 :: u8 where [opcode_defs]: "op_PUSH22 = 0x75"
definition op_PUSH23 :: u8 where [opcode_defs]: "op_PUSH23 = 0x76"
definition op_PUSH24 :: u8 where [opcode_defs]: "op_PUSH24 = 0x77"
definition op_PUSH25 :: u8 where [opcode_defs]: "op_PUSH25 = 0x78"
definition op_PUSH26 :: u8 where [opcode_defs]: "op_PUSH26 = 0x79"
definition op_PUSH27 :: u8 where [opcode_defs]: "op_PUSH27 = 0x7A"
definition op_PUSH28 :: u8 where [opcode_defs]: "op_PUSH28 = 0x7B"
definition op_PUSH29 :: u8 where [opcode_defs]: "op_PUSH29 = 0x7C"
definition op_PUSH30 :: u8 where [opcode_defs]: "op_PUSH30 = 0x7D"
definition op_PUSH31 :: u8 where [opcode_defs]: "op_PUSH31 = 0x7E"
definition op_PUSH32 :: u8 where [opcode_defs]: "op_PUSH32 = 0x7F"
definition op_DUP1 :: u8 where [opcode_defs]: "op_DUP1 = 0x80"
definition op_DUP2 :: u8 where [opcode_defs]: "op_DUP2 = 0x81"
definition op_DUP3 :: u8 where [opcode_defs]: "op_DUP3 = 0x82"
definition op_DUP4 :: u8 where [opcode_defs]: "op_DUP4 = 0x83"
definition op_DUP5 :: u8 where [opcode_defs]: "op_DUP5 = 0x84"
definition op_DUP6 :: u8 where [opcode_defs]: "op_DUP6 = 0x85"
definition op_DUP7 :: u8 where [opcode_defs]: "op_DUP7 = 0x86"
definition op_DUP8 :: u8 where [opcode_defs]: "op_DUP8 = 0x87"
definition op_DUP9 :: u8 where [opcode_defs]: "op_DUP9 = 0x88"
definition op_DUP10 :: u8 where [opcode_defs]: "op_DUP10 = 0x89"
definition op_DUP11 :: u8 where [opcode_defs]: "op_DUP11 = 0x8A"
definition op_DUP12 :: u8 where [opcode_defs]: "op_DUP12 = 0x8B"
definition op_DUP13 :: u8 where [opcode_defs]: "op_DUP13 = 0x8C"
definition op_DUP14 :: u8 where [opcode_defs]: "op_DUP14 = 0x8D"
definition op_DUP15 :: u8 where [opcode_defs]: "op_DUP15 = 0x8E"
definition op_DUP16 :: u8 where [opcode_defs]: "op_DUP16 = 0x8F"
definition op_SWAP1 :: u8 where [opcode_defs]: "op_SWAP1 = 0x90"
definition op_SWAP2 :: u8 where [opcode_defs]: "op_SWAP2 = 0x91"
definition op_SWAP3 :: u8 where [opcode_defs]: "op_SWAP3 = 0x92"
definition op_SWAP4 :: u8 where [opcode_defs]: "op_SWAP4 = 0x93"
definition op_SWAP5 :: u8 where [opcode_defs]: "op_SWAP5 = 0x94"
definition op_SWAP6 :: u8 where [opcode_defs]: "op_SWAP6 = 0x95"
definition op_SWAP7 :: u8 where [opcode_defs]: "op_SWAP7 = 0x96"
definition op_SWAP8 :: u8 where [opcode_defs]: "op_SWAP8 = 0x97"
definition op_SWAP9 :: u8 where [opcode_defs]: "op_SWAP9 = 0x98"
definition op_SWAP10 :: u8 where [opcode_defs]: "op_SWAP10 = 0x99"
definition op_SWAP11 :: u8 where [opcode_defs]: "op_SWAP11 = 0x9A"
definition op_SWAP12 :: u8 where [opcode_defs]: "op_SWAP12 = 0x9B"
definition op_SWAP13 :: u8 where [opcode_defs]: "op_SWAP13 = 0x9C"
definition op_SWAP14 :: u8 where [opcode_defs]: "op_SWAP14 = 0x9D"
definition op_SWAP15 :: u8 where [opcode_defs]: "op_SWAP15 = 0x9E"
definition op_SWAP16 :: u8 where [opcode_defs]: "op_SWAP16 = 0x9F"
definition op_LOG0 :: u8 where [opcode_defs]: "op_LOG0 = 0xA0"
definition op_LOG1 :: u8 where [opcode_defs]: "op_LOG1 = 0xA1"
definition op_LOG2 :: u8 where [opcode_defs]: "op_LOG2 = 0xA2"
definition op_LOG3 :: u8 where [opcode_defs]: "op_LOG3 = 0xA3"
definition op_LOG4 :: u8 where [opcode_defs]: "op_LOG4 = 0xA4"
definition op_CREATE :: u8 where [opcode_defs]: "op_CREATE = 0xF0"
definition op_CALL :: u8 where [opcode_defs]: "op_CALL = 0xF1"
definition op_CALLCODE :: u8 where [opcode_defs]: "op_CALLCODE = 0xF2"
definition op_RETURN :: u8 where [opcode_defs]: "op_RETURN = 0xF3"
definition op_DELEGATECALL :: u8 where [opcode_defs]: "op_DELEGATECALL = 0xF4"
definition op_CREATE2 :: u8 where [opcode_defs]: "op_CREATE2 = 0xF5"
definition op_STATICCALL :: u8 where [opcode_defs]: "op_STATICCALL = 0xFA"
definition op_REVERT :: u8 where [opcode_defs]: "op_REVERT = 0xFD"
definition op_INVALID :: u8 where [opcode_defs]: "op_INVALID = 0xFE"
definition op_SELFDESTRUCT :: u8 where [opcode_defs]: "op_SELFDESTRUCT = 0xFF"

definition op_names :: "(u8 \<times> string) list" where
  "op_names = [(op_STOP, ''STOP''), (op_ADD, ''ADD''), (op_MUL, ''MUL''), (op_SUB, ''SUB''),
    (op_DIV, ''DIV''), (op_SDIV, ''SDIV''), (op_MOD, ''MOD''), (op_SMOD, ''SMOD''),
    (op_ADDMOD, ''ADDMOD''), (op_MULMOD, ''MULMOD''), (op_EXP, ''EXP''), (op_SIGNEXTEND, ''SIGNEXTEND''),
    (op_LT, ''LT''), (op_GT, ''GT''), (op_SLT, ''SLT''), (op_SGT, ''SGT''),
    (op_EQ, ''EQ''), (op_ISZERO, ''ISZERO''), (op_AND, ''AND''), (op_OR, ''OR''),
    (op_XOR, ''XOR''), (op_NOT, ''NOT''), (op_BYTE, ''BYTE''), (op_SHL, ''SHL''),
    (op_SHR, ''SHR''), (op_SAR, ''SAR''), (op_CLZ, ''CLZ''), (op_KECCAK256, ''KECCAK256''),
    (op_ADDRESS, ''ADDRESS''), (op_BALANCE, ''BALANCE''), (op_ORIGIN, ''ORIGIN''), (op_CALLER, ''CALLER''),
    (op_CALLVALUE, ''CALLVALUE''), (op_CALLDATALOAD, ''CALLDATALOAD''), (op_CALLDATASIZE, ''CALLDATASIZE''), (op_CALLDATACOPY, ''CALLDATACOPY''),
    (op_CODESIZE, ''CODESIZE''), (op_CODECOPY, ''CODECOPY''), (op_GASPRICE, ''GASPRICE''), (op_EXTCODESIZE, ''EXTCODESIZE''),
    (op_EXTCODECOPY, ''EXTCODECOPY''), (op_RETURNDATASIZE, ''RETURNDATASIZE''), (op_RETURNDATACOPY, ''RETURNDATACOPY''), (op_EXTCODEHASH, ''EXTCODEHASH''),
    (op_BLOCKHASH, ''BLOCKHASH''), (op_COINBASE, ''COINBASE''), (op_TIMESTAMP, ''TIMESTAMP''), (op_NUMBER, ''NUMBER''),
    (op_PREVRANDAO, ''PREVRANDAO''), (op_GASLIMIT, ''GASLIMIT''), (op_CHAINID, ''CHAINID''), (op_SELFBALANCE, ''SELFBALANCE''),
    (op_BASEFEE, ''BASEFEE''), (op_BLOBHASH, ''BLOBHASH''), (op_BLOBBASEFEE, ''BLOBBASEFEE''), (op_POP, ''POP''),
    (op_MLOAD, ''MLOAD''), (op_MSTORE, ''MSTORE''), (op_MSTORE8, ''MSTORE8''), (op_SLOAD, ''SLOAD''),
    (op_SSTORE, ''SSTORE''), (op_JUMP, ''JUMP''), (op_JUMPI, ''JUMPI''), (op_PC, ''PC''),
    (op_MSIZE, ''MSIZE''), (op_GAS, ''GAS''), (op_JUMPDEST, ''JUMPDEST''), (op_TLOAD, ''TLOAD''),
    (op_TSTORE, ''TSTORE''), (op_MCOPY, ''MCOPY''), (op_PUSH0, ''PUSH0''), (op_PUSH1, ''PUSH1''),
    (op_PUSH2, ''PUSH2''), (op_PUSH3, ''PUSH3''), (op_PUSH4, ''PUSH4''), (op_PUSH5, ''PUSH5''),
    (op_PUSH6, ''PUSH6''), (op_PUSH7, ''PUSH7''), (op_PUSH8, ''PUSH8''), (op_PUSH9, ''PUSH9''),
    (op_PUSH10, ''PUSH10''), (op_PUSH11, ''PUSH11''), (op_PUSH12, ''PUSH12''), (op_PUSH13, ''PUSH13''),
    (op_PUSH14, ''PUSH14''), (op_PUSH15, ''PUSH15''), (op_PUSH16, ''PUSH16''), (op_PUSH17, ''PUSH17''),
    (op_PUSH18, ''PUSH18''), (op_PUSH19, ''PUSH19''), (op_PUSH20, ''PUSH20''), (op_PUSH21, ''PUSH21''),
    (op_PUSH22, ''PUSH22''), (op_PUSH23, ''PUSH23''), (op_PUSH24, ''PUSH24''), (op_PUSH25, ''PUSH25''),
    (op_PUSH26, ''PUSH26''), (op_PUSH27, ''PUSH27''), (op_PUSH28, ''PUSH28''), (op_PUSH29, ''PUSH29''),
    (op_PUSH30, ''PUSH30''), (op_PUSH31, ''PUSH31''), (op_PUSH32, ''PUSH32''), (op_DUP1, ''DUP1''),
    (op_DUP2, ''DUP2''), (op_DUP3, ''DUP3''), (op_DUP4, ''DUP4''), (op_DUP5, ''DUP5''),
    (op_DUP6, ''DUP6''), (op_DUP7, ''DUP7''), (op_DUP8, ''DUP8''), (op_DUP9, ''DUP9''),
    (op_DUP10, ''DUP10''), (op_DUP11, ''DUP11''), (op_DUP12, ''DUP12''), (op_DUP13, ''DUP13''),
    (op_DUP14, ''DUP14''), (op_DUP15, ''DUP15''), (op_DUP16, ''DUP16''), (op_SWAP1, ''SWAP1''),
    (op_SWAP2, ''SWAP2''), (op_SWAP3, ''SWAP3''), (op_SWAP4, ''SWAP4''), (op_SWAP5, ''SWAP5''),
    (op_SWAP6, ''SWAP6''), (op_SWAP7, ''SWAP7''), (op_SWAP8, ''SWAP8''), (op_SWAP9, ''SWAP9''),
    (op_SWAP10, ''SWAP10''), (op_SWAP11, ''SWAP11''), (op_SWAP12, ''SWAP12''), (op_SWAP13, ''SWAP13''),
    (op_SWAP14, ''SWAP14''), (op_SWAP15, ''SWAP15''), (op_SWAP16, ''SWAP16''), (op_LOG0, ''LOG0''),
    (op_LOG1, ''LOG1''), (op_LOG2, ''LOG2''), (op_LOG3, ''LOG3''), (op_LOG4, ''LOG4''),
    (op_CREATE, ''CREATE''), (op_CALL, ''CALL''), (op_CALLCODE, ''CALLCODE''), (op_RETURN, ''RETURN''),
    (op_DELEGATECALL, ''DELEGATECALL''), (op_CREATE2, ''CREATE2''), (op_STATICCALL, ''STATICCALL''), (op_REVERT, ''REVERT''),
    (op_INVALID, ''INVALID''), (op_SELFDESTRUCT, ''SELFDESTRUCT'')]"

definition op_name :: "u8 \<Rightarrow> string" where
  "op_name opcode = (case map_of op_names opcode of Some s \<Rightarrow> s | None \<Rightarrow> ''UNKNOWN'')"

definition op_push_size :: "u8 \<Rightarrow> nat option" where
  "op_push_size opcode =
     (if op_PUSH1 \<le> opcode \<and> opcode \<le> op_PUSH32 then Some (unat (opcode - op_PUSH1 + 1)) else None)"

lemma push_size_iff: "op_push_size b = Some n \<longleftrightarrow> 1 \<le> n \<and> n \<le> 32 \<and> unat b = unat op_PUSH0 + n"
proof -
  have "unat (b - 0x5F) = unat b - 0x5F" if "0x60 \<le> unat b"
    using that by (simp add: unat_sub word_le_nat_alt)
  then show ?thesis
    by (auto simp: op_push_size_def opcode_defs word_le_nat_alt)
qed

lemma push_size_None: "op_push_size b = None \<longleftrightarrow> unat b < 0x60 \<or> 0x7F < unat b"
  by (auto simp: op_push_size_def opcode_defs word_le_nat_alt)

subsection \<open>Disassembly\<close>

text \<open>Text output: two hexadecimal digits of a byte, and one line per instruction.\<close>

definition hex_digit :: "nat \<Rightarrow> char" where
  "hex_digit n = ''0123456789abcdef'' ! n"

definition hex_byte :: "u8 \<Rightarrow> string" where
  "hex_byte b = [hex_digit (unat b div 16), hex_digit (unat b mod 16)]"

definition newline :: string where
  "newline = [CHR 0x0A]"

function fmt_ops :: "u8 list \<Rightarrow> string" where
  "fmt_ops ops = (case ops of [] \<Rightarrow> [] | opcode # rest \<Rightarrow>
     (case op_push_size opcode of
        Some push_size \<Rightarrow>
          (let imm = take push_size rest
           in ''  '' @ op_name opcode @ '' 0x'' @ concat (map hex_byte imm) @
              (if length imm < push_size then '' (truncated)'' else []) @ newline @
              fmt_ops (drop push_size rest))
      | None \<Rightarrow> ''  '' @ op_name opcode @ newline @ fmt_ops rest))"
  by auto
termination by (relation "measure length") auto

declare fmt_ops.simps [simp del]

text \<open>A complete instruction: an opcode with as many immediate bytes as it takes.\<close>

type_synonym instr = "u8 \<times> u8 list"

definition instr_ok :: "instr \<Rightarrow> bool" where
  "instr_ok i \<longleftrightarrow> length (snd i) = (case op_push_size (fst i) of Some n \<Rightarrow> n | None \<Rightarrow> 0)"

definition instr_bytes :: "instr \<Rightarrow> u8 list" where
  "instr_bytes i = fst i # snd i"

definition instr_line :: "instr \<Rightarrow> string" where
  "instr_line i = ''  '' @ op_name (fst i) @
     (if op_push_size (fst i) = None then [] else '' 0x'' @ concat (map hex_byte (snd i))) @ newline"

lemma fmt_ops_instr: "instr_ok i \<Longrightarrow> fmt_ops (instr_bytes i @ rest) = instr_line i @ fmt_ops rest"
  by (subst fmt_ops.simps) (auto simp: instr_ok_def instr_bytes_def instr_line_def split: option.splits)

lemma fmt_ops_instrs:
  "\<forall>i\<in>set is. instr_ok i \<Longrightarrow> fmt_ops (concat (map instr_bytes is)) = concat (map instr_line is)"
proof (induction "is")
  case Nil
  show ?case by (simp add: fmt_ops.simps)
next
  case (Cons i "is")
  then show ?case by (simp add: fmt_ops_instr)
qed

subsection \<open>Properties\<close>

text \<open>
  The disassembler is in step with the instructions. On the bytes of any
  sequence of instructions, each a push with its whole immediate or an opcode without one, it
  prints one line for each instruction in order, and never takes an immediate byte for an opcode.
\<close>

theorem disassembly_lines:
  assumes "\<forall>i\<in>set instrs. instr_ok i"
  shows "fmt_ops (concat (map instr_bytes instrs)) = concat (map instr_line instrs)"
  using assms by (rule fmt_ops_instrs)

theorem disassembly_lines_witness:
  "fmt_ops [op_PUSH1, op_ADD, op_ADD] = ''  PUSH1 0x01'' @ newline @ ''  ADD'' @ newline"
  using disassembly_lines [of "[(op_PUSH1, [op_ADD]), (op_ADD, [])]"]
  by (simp add: instr_ok_def instr_bytes_def instr_line_def op_push_size_def opcode_defs word_le_nat_alt op_name_def op_names_def
      hex_byte_def hex_digit_def)

end
