(* ===== verification/U256.thy ===== *)
theory U256
  imports Prelude "HOL-Library.Signed_Division"
begin

text \<open>
  The 256-bit integer library the sources use (\<open>alloy_primitives::{U256, I256}\<close>, not part of the
  repository). A \<open>U256\<close> is a 256-bit word and its plain operators are those of words. The
  operations with an algorithm of their own are fields of \<open>u256_lib\<close>, and \<open>u256_law\<close> states what
  their documentation says of them; \<open>u256_ref\<close> is one library that satisfies it.
\<close>

record u256_lib =
  u_leading_zeros :: "u256 \<Rightarrow> nat"
  u_to_le_bytes :: "u256 \<Rightarrow> u8 list"
  u_wrapping_pow :: "u256 \<Rightarrow> u256 \<Rightarrow> u256"
  i_wrapping_div :: "u256 \<Rightarrow> u256 \<Rightarrow> u256"
  i_checked_rem :: "u256 \<Rightarrow> u256 \<Rightarrow> u256 option"
  i_asr :: "u256 \<Rightarrow> nat \<Rightarrow> u256"
  u_from_limbs :: "u64 list \<Rightarrow> u256"

text \<open>The number of bits needed to write a number down.\<close>

fun bit_length :: "nat \<Rightarrow> nat" where
  "bit_length n = (if n = 0 then 0 else Suc (bit_length (n div 2)))"

declare bit_length.simps [simp del]

lemma bit_length_0 [simp]: "bit_length 0 = 0"
  by (simp add: bit_length.simps)

lemma bit_length_le: "bit_length n \<le> k \<longleftrightarrow> n < 2 ^ k"
proof (induction n arbitrary: k rule: bit_length.induct)
  case (1 n)
  show ?case
  proof (cases "n = 0")
    case False
    show ?thesis
    proof (cases k)
      case (Suc j)
      with 1 [OF False, of j] False show ?thesis
        by (subst bit_length.simps) (simp add: less_mult_imp_div_less div_less_iff_less_mult mult.commute)
    qed (use False in \<open>simp add: bit_length.simps\<close>)
  qed simp
qed

lemma bit_length_lower: "n \<noteq> 0 \<Longrightarrow> 2 ^ (bit_length n - 1) \<le> n"
  using bit_length_le [of n "bit_length n - 1"] by (cases "bit_length n") (auto simp: bit_length.simps not_less)

definition le_bytes_of :: "nat \<Rightarrow> u256 \<Rightarrow> u8 list" where
  "le_bytes_of k v = map (\<lambda>i. of_nat (unat v div 256 ^ i)) [0..<k]"

text \<open>The number a list of limbs of \<open>w\<close> bits stands for, the least significant one first.\<close>

fun limbs_value :: "nat \<Rightarrow> 'a::len word list \<Rightarrow> nat" where
  "limbs_value w [] = 0"
| "limbs_value w (x # xs) = unat x + 2 ^ w * limbs_value w xs"

lemma limbs_value_append:
  "limbs_value w (xs @ ys) = limbs_value w xs + 2 ^ (w * length xs) * limbs_value w ys"
  by (induction xs) (simp_all add: power_add algebra_simps)

lemma limbs_value_less:
  "limbs_value LENGTH('a::len) (xs :: 'a word list) < 2 ^ (LENGTH('a) * length xs)"
proof (induction xs)
  case (Cons x xs)
  have "unat x < 2 ^ LENGTH('a)" using unsigned_less [of x, where 'a = nat] by simp
  moreover have "limbs_value LENGTH('a) xs + 1 \<le> 2 ^ (LENGTH('a) * length xs)" using Cons by simp
  then have "2 ^ LENGTH('a) * (limbs_value LENGTH('a) xs + 1) \<le> 2 ^ LENGTH('a) * 2 ^ (LENGTH('a) * length xs)"
    by (rule mult_le_mono2)
  ultimately have "unat x + 2 ^ LENGTH('a) * limbs_value LENGTH('a) xs <
      2 ^ LENGTH('a) * 2 ^ (LENGTH('a) * length xs)"
    by (simp only: distrib_left mult_1_right)
  then show ?case by (simp add: power_add)
qed simp

definition i256_min :: u256 where
  "i256_min = 2 ^ 255"

definition u256_law :: "u256_lib \<Rightarrow> bool" where
  "u256_law L \<longleftrightarrow>
     (\<forall>v. u_leading_zeros L v = 256 - bit_length (unat v)) \<and>
     (\<forall>v. u_to_le_bytes L v = le_bytes_of 32 v) \<and>
     (\<forall>b e. u_wrapping_pow L b e = b ^ unat e) \<and>
     (\<forall>a b. b \<noteq> 0 \<longrightarrow> i_wrapping_div L a b = word_of_int (sint a sdiv sint b)) \<and>
     (\<forall>a b. i_checked_rem L a b =
        (if b = 0 \<or> a = i256_min \<and> b = - 1 then None else Some (word_of_int (sint a smod sint b)))) \<and>
     (\<forall>a n. i_asr L a n = word_of_int (sint a div 2 ^ n)) \<and>
     (\<forall>ls. length ls = 4 \<longrightarrow> unat (u_from_limbs L ls) = limbs_value 64 ls)"

definition u256_ref :: u256_lib where
  "u256_ref = \<lparr>
     u_leading_zeros = (\<lambda>v. 256 - bit_length (unat v)),
     u_to_le_bytes = le_bytes_of 32,
     u_wrapping_pow = (\<lambda>b e. b ^ unat e),
     i_wrapping_div = (\<lambda>a b. word_of_int (sint a sdiv sint b)),
     i_checked_rem = (\<lambda>a b. if b = 0 \<or> a = i256_min \<and> b = - 1 then None else Some (word_of_int (sint a smod sint b))),
     i_asr = (\<lambda>a n. word_of_int (sint a div 2 ^ n)),
     u_from_limbs = (\<lambda>ls. of_nat (limbs_value 64 ls))\<rparr>"

lemma u256_ref_law: "u256_law u256_ref"
proof -
  have "limbs_value 64 ls < 2 ^ 256" if "length ls = 4" for ls :: "u64 list"
    using limbs_value_less [of ls] that by simp
  then show ?thesis by (simp add: u256_law_def u256_ref_def unat_of_nat)
qed

end
