(* ===== verification/Assembler.thy ===== *)
theory Assembler
  imports Opcodes U256
begin

text \<open>
  The two-pass assembler (\<open>plankc/sir/crates/assembler/src/lib.rs\<close>): sections of code and data
  with marks and references to marks, whose sizes depend on the offsets they refer to. Offsets are
  the values of the code's \<open>u32\<close>s and their additions are checked. The vector of mark offsets is
  kept as long as its capacity, so its growth is a parameter.
\<close>

datatype ref_size = S1 | S2 | S3 | S4

fun ref_size_num :: "ref_size \<Rightarrow> nat" where
  "ref_size_num S1 = 1"
| "ref_size_num S2 = 2"
| "ref_size_num S3 = 3"
| "ref_size_num S4 = 4"

instantiation ref_size :: linorder
begin

definition less_eq_ref_size :: "ref_size \<Rightarrow> ref_size \<Rightarrow> bool" where
  "a \<le> b \<longleftrightarrow> ref_size_num a \<le> ref_size_num b"

definition less_ref_size :: "ref_size \<Rightarrow> ref_size \<Rightarrow> bool" where
  "a < b \<longleftrightarrow> ref_size_num a < ref_size_num b"

instance
proof
  fix a b :: ref_size
  show "a \<le> b \<Longrightarrow> b \<le> a \<Longrightarrow> a = b"
    by (cases a; cases b) (simp_all add: less_eq_ref_size_def)
qed (auto simp: less_eq_ref_size_def less_ref_size_def)

end

record direct_mark_ref =
  dm_id :: nat
  dm_set_size :: "ref_size option"
  dm_pushed :: bool

type_synonym span = "nat \<times> nat"

datatype stored_section =
    StMark nat
  | StOps span
  | StData span
  | StDirectMarkRef direct_mark_ref
  | UnsizedPushedDeltaRef span
  | Size1PushedDeltaRef span
  | Size2PushedDeltaRef span
  | Size3PushedDeltaRef span
  | Size4PushedDeltaRef span
  | UnsizedRawDeltaRef span
  | Size1RawDeltaRef span
  | Size2RawDeltaRef span
  | Size3RawDeltaRef span
  | Size4RawDeltaRef span

datatype mark_reference =
    Direct nat
  | Delta span

record asm_reference =
  ar_mark_ref :: mark_reference
  ar_set_size :: "ref_size option"
  ar_pushed :: bool

datatype asm_section =
    Mark nat
  | Ops span
  | Data span
  | MarkRef asm_reference

definition ar_new_direct :: "nat \<Rightarrow> asm_reference" where
  "ar_new_direct i = \<lparr>ar_mark_ref = Direct i, ar_set_size = None, ar_pushed = True\<rparr>"

definition ar_new_delta :: "nat \<Rightarrow> nat \<Rightarrow> asm_reference" where
  "ar_new_delta a b = \<lparr>ar_mark_ref = Delta (a, b), ar_set_size = None, ar_pushed = True\<rparr>"

definition ar_pushed_ref :: "mark_reference \<Rightarrow> asm_reference" where
  "ar_pushed_ref r = \<lparr>ar_mark_ref = r, ar_set_size = None, ar_pushed = True\<rparr>"

definition bytes_to_hold :: "nat \<Rightarrow> ref_size" where
  "bytes_to_hold offset =
     (if offset \<le> 0xff then S1 else if offset \<le> 0xffff then S2 else if offset \<le> 0xffffff then S3 else S4)"

definition sec_delta_ref :: "span \<Rightarrow> bool \<Rightarrow> ref_size option \<Rightarrow> asm_section" where
  "sec_delta_ref delta_span pushed set_size =
     MarkRef \<lparr>ar_mark_ref = Delta delta_span, ar_set_size = set_size, ar_pushed = pushed\<rparr>"

fun sec_of_stored :: "stored_section \<Rightarrow> asm_section" where
  "sec_of_stored (StMark i) = Mark i"
| "sec_of_stored (StOps s) = Ops s"
| "sec_of_stored (StData s) = Data s"
| "sec_of_stored (StDirectMarkRef r) =
     MarkRef \<lparr>ar_mark_ref = Direct (dm_id r), ar_set_size = dm_set_size r, ar_pushed = dm_pushed r\<rparr>"
| "sec_of_stored (UnsizedPushedDeltaRef s) = sec_delta_ref s True None"
| "sec_of_stored (Size1PushedDeltaRef s) = sec_delta_ref s True (Some S1)"
| "sec_of_stored (Size2PushedDeltaRef s) = sec_delta_ref s True (Some S2)"
| "sec_of_stored (Size3PushedDeltaRef s) = sec_delta_ref s True (Some S3)"
| "sec_of_stored (Size4PushedDeltaRef s) = sec_delta_ref s True (Some S4)"
| "sec_of_stored (UnsizedRawDeltaRef s) = sec_delta_ref s False None"
| "sec_of_stored (Size1RawDeltaRef s) = sec_delta_ref s False (Some S1)"
| "sec_of_stored (Size2RawDeltaRef s) = sec_delta_ref s False (Some S2)"
| "sec_of_stored (Size3RawDeltaRef s) = sec_delta_ref s False (Some S3)"
| "sec_of_stored (Size4RawDeltaRef s) = sec_delta_ref s False (Some S4)"

definition sec_min_compiled_size :: "asm_section \<Rightarrow> nat option" where
  "sec_min_compiled_size sec = (case sec of
     Mark _ \<Rightarrow> Some 0
   | Ops s \<Rightarrow> idx_sub (snd s) (fst s)
   | Data s \<Rightarrow> idx_sub (snd s) (fst s)
   | MarkRef r \<Rightarrow> Some (case ar_set_size r of
       Some sz \<Rightarrow> (if ar_pushed r then ref_size_num sz + 1 else ref_size_num sz)
     | None \<Rightarrow> 1))"

text \<open>
  The outer option is a panic (an unknown mark), the inner one the code's \<open>None\<close>: the size that
  was set is too small.
\<close>

definition ref_value :: "mark_reference \<Rightarrow> nat list \<Rightarrow> nat option" where
  "ref_value r mark_map = (case r of
     Direct i \<Rightarrow> slice_get mark_map i
   | Delta s \<Rightarrow> do {
       e \<leftarrow> slice_get mark_map (snd s);
       b \<leftarrow> slice_get mark_map (fst s);
       Some (e - b)
     })"

definition ref_compiled_size :: "asm_reference \<Rightarrow> nat \<Rightarrow> nat option" where
  "ref_compiled_size r v =
     (let sz = bytes_to_hold v in
      case ar_set_size r of
        Some set_size \<Rightarrow>
          (if set_size < sz then None
           else if ar_pushed r then Some (ref_size_num set_size + 1) else Some (ref_size_num set_size))
      | None \<Rightarrow>
          (if ar_pushed r then (if v = 0 then Some 1 else Some (1 + ref_size_num sz))
           else Some (ref_size_num sz)))"

definition sec_compiled_size :: "asm_section \<Rightarrow> nat list \<Rightarrow> nat option option" where
  "sec_compiled_size sec mark_map = (case sec of
     Mark _ \<Rightarrow> Some (Some 0)
   | Ops s \<Rightarrow> map_option Some (idx_sub (snd s) (fst s))
   | Data s \<Rightarrow> map_option Some (idx_sub (snd s) (fst s))
   | MarkRef r \<Rightarrow> map_option (ref_compiled_size r) (ref_value (ar_mark_ref r) mark_map))"

record assembler =
  asm_bytes :: "u8 list"
  asm_sections :: "stored_section list"

definition asm_empty :: assembler where
  "asm_empty = \<lparr>asm_bytes = [], asm_sections = []\<rparr>"

definition asm_clear :: "assembler \<Rightarrow> assembler" where
  "asm_clear a = a\<lparr>asm_bytes := [], asm_sections := []\<rparr>"

definition asm_iter_sections :: "assembler \<Rightarrow> asm_section list" where
  "asm_iter_sections a = map sec_of_stored (asm_sections a)"

definition asm_push_section :: "stored_section \<Rightarrow> assembler \<Rightarrow> assembler" where
  "asm_push_section sec a = a\<lparr>asm_sections := asm_sections a @ [sec]\<rparr>"

definition asm_push_mark :: "nat \<Rightarrow> assembler \<Rightarrow> assembler" where
  "asm_push_mark i a = asm_push_section (StMark i) a"

text \<open>\<open>IndexVec::len_idx\<close> and \<open>push\<close> on the bytes.\<close>

definition asm_len_idx :: "assembler \<Rightarrow> nat option" where
  "asm_len_idx a = do {
     rust_assert (length (asm_bytes a) < idx_limit);
     Some (length (asm_bytes a))
   }"

definition asm_push_raw :: "u8 \<Rightarrow> assembler \<Rightarrow> assembler option" where
  "asm_push_raw b a = do {
     _ \<leftarrow> asm_len_idx a;
     Some (a\<lparr>asm_bytes := asm_bytes a @ [b]\<rparr>)
   }"

definition asm_last :: "assembler \<Rightarrow> stored_section option" where
  "asm_last a = (if asm_sections a = [] then None else Some (last (asm_sections a)))"

definition asm_set_last :: "stored_section \<Rightarrow> assembler \<Rightarrow> assembler" where
  "asm_set_last sec a = a\<lparr>asm_sections := butlast (asm_sections a) @ [sec]\<rparr>"

definition asm_push_op_byte :: "u8 \<Rightarrow> assembler \<Rightarrow> assembler option" where
  "asm_push_op_byte b a = (case asm_last a of
     Some (StOps s) \<Rightarrow> do {
       len \<leftarrow> asm_len_idx a;
       rust_assert (snd s = len);
       a \<leftarrow> asm_push_raw b a;
       new_end \<leftarrow> asm_len_idx a;
       Some (asm_set_last (StOps (fst s, new_end)) a)
     }
   | _ \<Rightarrow> do {
       start \<leftarrow> asm_len_idx a;
       a \<leftarrow> asm_push_raw b a;
       new_end \<leftarrow> asm_len_idx a;
       Some (asm_push_section (StOps (start, new_end)) a)
     })"

definition asm_push_swap :: "nat \<Rightarrow> assembler \<Rightarrow> assembler option" where
  "asm_push_swap depth a = do {
     opcode \<leftarrow> (if depth = 0 then None
                else slice_get [op_SWAP1, op_SWAP2, op_SWAP3, op_SWAP4, op_SWAP5, op_SWAP6, op_SWAP7,
                  op_SWAP8, op_SWAP9, op_SWAP10, op_SWAP11, op_SWAP12, op_SWAP13, op_SWAP14,
                  op_SWAP15, op_SWAP16] (depth - 1));
     asm_push_op_byte opcode a
   }"

definition asm_push_dup :: "nat \<Rightarrow> assembler \<Rightarrow> assembler option" where
  "asm_push_dup depth a = do {
     opcode \<leftarrow> slice_get [op_DUP1, op_DUP2, op_DUP3, op_DUP4, op_DUP5, op_DUP6, op_DUP7, op_DUP8,
                  op_DUP9, op_DUP10, op_DUP11, op_DUP12, op_DUP13, op_DUP14, op_DUP15, op_DUP16] depth;
     asm_push_op_byte opcode a
   }"

definition asm_push_exchange :: "nat \<Rightarrow> nat \<Rightarrow> assembler \<Rightarrow> assembler option" where
  "asm_push_exchange n m a = do {
     rust_assert (n \<noteq> m);
     if n = 0 then asm_push_swap m a
     else if m = 0 then asm_push_swap n a
     else do {
       a \<leftarrow> asm_push_swap n a;
       a \<leftarrow> asm_push_swap m a;
       asm_push_swap n a
     }
   }"

definition asm_push_minimal_u256 :: "u256_lib \<Rightarrow> u256 \<Rightarrow> assembler \<Rightarrow> assembler option" where
  "asm_push_minimal_u256 L v a =
     (if v = 0 then asm_push_op_byte op_PUSH0 a
      else do {
        push_size \<leftarrow> checked_sub 32 (u_leading_zeros L v div 8);
        rust_assert (push_size \<le> 255);
        rust_assert (unat op_PUSH1 + push_size < 2 ^ 8);
        p \<leftarrow> checked_sub (unat op_PUSH1 + push_size) 1;
        rust_assert (unat op_PUSH1 \<le> p \<and> p \<le> unat op_PUSH32);
        a \<leftarrow> asm_push_op_byte (of_nat p) a;
        bytes \<leftarrow> slice_range (u_to_le_bytes L v) 0 push_size;
        fold_opt asm_push_op_byte (rev bytes) a
      })"

definition asm_push_minimal_u64 :: "u256_lib \<Rightarrow> u64 \<Rightarrow> assembler \<Rightarrow> assembler option" where
  "asm_push_minimal_u64 L v a = asm_push_minimal_u256 L (ucast v) a"

definition asm_push_minimal_u32 :: "u256_lib \<Rightarrow> u32 \<Rightarrow> assembler \<Rightarrow> assembler option" where
  "asm_push_minimal_u32 L v a = asm_push_minimal_u256 L (ucast v) a"

definition asm_push_data :: "u8 list \<Rightarrow> assembler \<Rightarrow> assembler option" where
  "asm_push_data bs a = (case asm_last a of
     Some (StData s) \<Rightarrow> do {
       len \<leftarrow> asm_len_idx a;
       rust_assert (snd s = len);
       let a = a\<lparr>asm_bytes := asm_bytes a @ bs\<rparr>;
       new_end \<leftarrow> asm_len_idx a;
       Some (asm_set_last (StData (fst s, new_end)) a)
     }
   | _ \<Rightarrow> do {
       start \<leftarrow> asm_len_idx a;
       let a = a\<lparr>asm_bytes := asm_bytes a @ bs\<rparr>;
       new_end \<leftarrow> asm_len_idx a;
       Some (asm_push_section (StData (start, new_end)) a)
     })"

definition stored_of_ref :: "asm_reference \<Rightarrow> stored_section" where
  "stored_of_ref r = (case ar_mark_ref r of
     Direct i \<Rightarrow> StDirectMarkRef \<lparr>dm_id = i, dm_set_size = ar_set_size r, dm_pushed = ar_pushed r\<rparr>
   | Delta s \<Rightarrow>
       (if ar_pushed r then
          (case ar_set_size r of
             None \<Rightarrow> UnsizedPushedDeltaRef s
           | Some S1 \<Rightarrow> Size1PushedDeltaRef s
           | Some S2 \<Rightarrow> Size2PushedDeltaRef s
           | Some S3 \<Rightarrow> Size3PushedDeltaRef s
           | Some S4 \<Rightarrow> Size4PushedDeltaRef s)
        else
          (case ar_set_size r of
             None \<Rightarrow> UnsizedRawDeltaRef s
           | Some S1 \<Rightarrow> Size1RawDeltaRef s
           | Some S2 \<Rightarrow> Size2RawDeltaRef s
           | Some S3 \<Rightarrow> Size3RawDeltaRef s
           | Some S4 \<Rightarrow> Size4RawDeltaRef s)))"

definition asm_push_reference :: "asm_reference \<Rightarrow> assembler \<Rightarrow> assembler" where
  "asm_push_reference r a = asm_push_section (stored_of_ref r) a"

subsection \<open>Assembling\<close>

datatype assemble_error = RefHasTooSmallSetSize nat

definition max_convergence_iters :: nat where
  "max_convergence_iters = 1024"

definition assumed_mark_count :: nat where
  "assumed_mark_count = 128"

text \<open>The vector of mark offsets, with its capacity.\<close>

record mark_map =
  mm_offsets :: "nat list"
  mm_capacity :: nat

definition mm_new :: "(nat \<Rightarrow> nat \<Rightarrow> nat) \<Rightarrow> nat \<Rightarrow> mark_map" where
  "mm_new grow n = \<lparr>mm_offsets = replicate n 0, mm_capacity = vec_reserve grow 0 0 n\<rparr>"

definition mm_resize :: "nat \<Rightarrow> mark_map \<Rightarrow> mark_map" where
  "mm_resize n m = m\<lparr>mm_offsets := take n (mm_offsets m) @ replicate (n - length (mm_offsets m)) 0\<rparr>"

definition mm_set :: "nat \<Rightarrow> nat \<Rightarrow> mark_map \<Rightarrow> mark_map option" where
  "mm_set i v m = map_option (\<lambda>xs. m\<lparr>mm_offsets := xs\<rparr>) (slice_set (mm_offsets m) i v)"

definition init_mark :: "(nat \<Rightarrow> nat \<Rightarrow> nat) \<Rightarrow> asm_section \<Rightarrow> nat \<times> mark_map \<Rightarrow> (nat \<times> mark_map) option" where
  "init_mark grow sec st = (case st of (min_size, m) \<Rightarrow> do {
     m \<leftarrow> (case sec of
        Mark i \<Rightarrow>
          (let size_for_id = i + 1;
               additional = size_for_id - length (mm_offsets m);
               cap = vec_reserve grow (mm_capacity m) (length (mm_offsets m)) additional
           in mm_set i min_size (mm_resize cap (m\<lparr>mm_capacity := cap\<rparr>)))
      | _ \<Rightarrow> Some m);
     sz \<leftarrow> sec_min_compiled_size sec;
     min_size \<leftarrow> checked_add_u32 min_size sz;
     Some (min_size, m)
   })"

datatype 'a asm_result = Assembled 'a | AsmFailed assemble_error

text \<open>
  One iteration over the sections: section number, code offset, offsets and whether nothing has
  changed so far.
\<close>

fun converge_pass ::
    "asm_section list \<Rightarrow> nat \<Rightarrow> nat \<Rightarrow> mark_map \<Rightarrow> bool \<Rightarrow> (bool \<times> mark_map) asm_result option" where
  "converge_pass [] i offset m converged = Some (Assembled (converged, m))"
| "converge_pass (sec # secs) i offset m converged = do {
     (m, converged) \<leftarrow> (case sec of
        Mark k \<Rightarrow> do {
          prev \<leftarrow> slice_get (mm_offsets m) k;
          if prev \<noteq> offset then map_option (\<lambda>m. (m, False)) (mm_set k offset m)
          else Some (m, converged)
        }
      | _ \<Rightarrow> Some (m, converged));
     sz \<leftarrow> sec_compiled_size sec (mm_offsets m);
     (case sz of
        None \<Rightarrow> Some (AsmFailed (RefHasTooSmallSetSize i))
      | Some n \<Rightarrow> do {
          offset \<leftarrow> checked_add_u32 offset n;
          converge_pass secs (i + 1) offset m converged
        })
   }"

fun converge_iters :: "nat \<Rightarrow> asm_section list \<Rightarrow> mark_map \<Rightarrow> mark_map asm_result option" where
  "converge_iters 0 secs m = None"
| "converge_iters (Suc n) secs m = do {
     r \<leftarrow> converge_pass secs 0 0 m True;
     (case r of
        AsmFailed e \<Rightarrow> Some (AsmFailed e)
      | Assembled (converged, m) \<Rightarrow>
          if converged then Some (Assembled m) else converge_iters n secs m)
   }"

definition converge_mark_offsets ::
    "(nat \<Rightarrow> nat \<Rightarrow> nat) \<Rightarrow> asm_section list \<Rightarrow> mark_map \<Rightarrow> mark_map asm_result option" where
  "converge_mark_offsets grow secs m = do {
     (_, m) \<leftarrow> fold_opt (init_mark grow) secs (0, m);
     converge_iters max_convergence_iters secs m
   }"

definition emit_value :: "nat \<Rightarrow> nat \<Rightarrow> u8 list" where
  "emit_value k v = map (\<lambda>i. of_nat (v div 256 ^ i)) (rev [0..<k])"

definition emit_ref :: "asm_reference \<Rightarrow> nat list \<Rightarrow> u8 list option" where
  "emit_ref r mark_map = do {
     v \<leftarrow> (case ar_mark_ref r of
        Direct i \<Rightarrow> slice_get mark_map i
      | Delta s \<Rightarrow> do {
          e \<leftarrow> slice_get mark_map (snd s);
          b \<leftarrow> slice_get mark_map (fst s);
          checked_sub e b
        });
     if v = 0 \<and> ar_set_size r = None \<and> ar_pushed r then Some [op_PUSH0]
     else do {
       let sz = bytes_to_hold v;
       rust_assert (case ar_set_size r of None \<Rightarrow> True | Some set_size \<Rightarrow> set_size \<ge> sz);
       let sz = (case ar_set_size r of None \<Rightarrow> sz | Some set_size \<Rightarrow> set_size);
       Some ((if ar_pushed r then [op_PUSH1 + of_nat (ref_size_num sz) - 1] else []) @
             emit_value (ref_size_num sz) v)
     }
   }"

definition emit_section :: "u8 list \<Rightarrow> nat list \<Rightarrow> asm_section \<Rightarrow> u8 list option" where
  "emit_section bytes mark_map sec = (case sec of
     Mark _ \<Rightarrow> Some []
   | Ops s \<Rightarrow> slice_range bytes (fst s) (snd s)
   | Data s \<Rightarrow> slice_range bytes (fst s) (snd s)
   | MarkRef r \<Rightarrow> emit_ref r mark_map)"

definition asm_assemble ::
    "(nat \<Rightarrow> nat \<Rightarrow> nat) \<Rightarrow> assembler \<Rightarrow> nat option \<Rightarrow> u8 list \<Rightarrow> (u8 list \<times> nat list) asm_result option" where
  "asm_assemble grow a mark_id_count_hint out = do {
     let secs = asm_iter_sections a;
     let m = mm_new grow (case mark_id_count_hint of None \<Rightarrow> assumed_mark_count | Some n \<Rightarrow> n);
     r \<leftarrow> converge_mark_offsets grow secs m;
     (case r of
        AsmFailed e \<Rightarrow> Some (AsmFailed e)
      | Assembled m \<Rightarrow> do {
          out \<leftarrow> fold_opt (\<lambda>sec out. map_option (\<lambda>bs. out @ bs)
                            (emit_section (asm_bytes a) (mm_offsets m) sec)) secs out;
          Some (Assembled (out, mm_offsets m))
        })
   }"

subsection \<open>Offsets after convergence\<close>

lemma converge_pass_False:
  "converge_pass secs i off m False = Some (Assembled (c, m')) \<Longrightarrow> \<not> c"
proof (induction secs arbitrary: i off m)
  case (Cons sec secs)
  from Cons.prems show ?case
    by (auto simp: bind_eq_Some_conv split: asm_section.splits option.splits if_splits dest: Cons.IH)
qed simp

text \<open>The compiled sizes of the sections under the given offsets.\<close>

definition sizes_ok :: "asm_section list \<Rightarrow> nat list \<Rightarrow> nat list \<Rightarrow> bool" where
  "sizes_ok secs offs ns \<longleftrightarrow> list_all2 (\<lambda>sec n. sec_compiled_size sec offs = Some (Some n)) secs ns"

definition marks_ok :: "asm_section list \<Rightarrow> nat list \<Rightarrow> nat \<Rightarrow> nat list \<Rightarrow> bool" where
  "marks_ok secs offs off ns \<longleftrightarrow>
     (\<forall>j<length secs. \<forall>k. secs ! j = Mark k \<longrightarrow>
        k < length offs \<and> offs ! k = off + sum_list (take j ns))"

lemma marks_ok_Cons:
  "marks_ok (sec # secs) offs off (n # ns) \<longleftrightarrow>
     (\<forall>k. sec = Mark k \<longrightarrow> k < length offs \<and> offs ! k = off) \<and> marks_ok secs offs (off + n) ns"
  by (auto simp: marks_ok_def All_less_Suc2 add.assoc)

lemma converge_pass_fixed:
  "converge_pass secs i off m c = Some (Assembled (True, m')) \<Longrightarrow>
     c \<and> m' = m \<and> (\<exists>ns. sizes_ok secs (mm_offsets m) ns \<and> marks_ok secs (mm_offsets m) off ns)"
proof (induction secs arbitrary: i off c)
  case Nil
  then show ?case by (auto simp: sizes_ok_def marks_ok_def)
next
  case (Cons sec secs)
  have same: "\<exists>n. sec_compiled_size sec (mm_offsets m) = Some (Some n) \<and>
      converge_pass secs (i + 1) (off + n) m c = Some (Assembled (True, m')) \<and>
      (\<forall>k. sec = Mark k \<longrightarrow> k < length (mm_offsets m) \<and> mm_offsets m ! k = off)"
    using Cons.prems
    by (auto simp: monad_elims mm_set_def split: asm_section.splits option.splits if_splits
        dest: converge_pass_False)
  then obtain n where n: "sec_compiled_size sec (mm_offsets m) = Some (Some n)"
    "converge_pass secs (i + 1) (off + n) m c = Some (Assembled (True, m'))"
    "\<forall>k. sec = Mark k \<longrightarrow> k < length (mm_offsets m) \<and> mm_offsets m ! k = off" by blast
  from Cons.IH [OF n(2)] obtain ns where "c" "m' = m" "sizes_ok secs (mm_offsets m) ns"
    "marks_ok secs (mm_offsets m) (off + n) ns" by blast
  with n show ?case by (auto simp: sizes_ok_def marks_ok_Cons intro!: exI [of _ "n # ns"])
qed

lemma converge_iters_fixed:
  "converge_iters n secs m = Some (Assembled m') \<Longrightarrow>
     \<exists>ns. sizes_ok secs (mm_offsets m') ns \<and> marks_ok secs (mm_offsets m') 0 ns"
proof (induction n arbitrary: m)
  case (Suc n)
  from Suc.prems obtain r where r: "converge_pass secs 0 0 m True = Some r"
    by (auto simp: monad_elims)
  with Suc.prems obtain c m1 where p: "converge_pass secs 0 0 m True = Some (Assembled (c, m1))"
    and rest: "(if c then Some (Assembled m1) else converge_iters n secs m1) = Some (Assembled m')"
    by (cases r) auto
  show ?case
  proof (cases c)
    case True
    with rest converge_pass_fixed [of secs 0 0 m True m1] p show ?thesis by auto
  next
    case False
    with rest Suc.IH show ?thesis by simp
  qed
qed simp

subsection \<open>Emission\<close>

lemma ref_size_num_le: "set_size < (x :: ref_size) \<longleftrightarrow> ref_size_num set_size < ref_size_num x"
  by (simp add: less_ref_size_def)

lemma length_emit_value [simp]: "length (emit_value k v) = k"
  by (simp add: emit_value_def)

lemma emit_ref_length:
  assumes "emit_ref r offs = Some bs" "sec_compiled_size (MarkRef r) offs = Some (Some n)"
  shows "length bs = n"
  using assms
  by (cases "ar_mark_ref r")
    (auto simp: emit_ref_def sec_compiled_size_def ref_value_def ref_compiled_size_def monad_elims
      split: option.splits if_splits)

lemma emit_section_length:
  assumes "emit_section bytes offs sec = Some bs" "sec_compiled_size sec offs = Some (Some n)"
  shows "length bs = n"
  using assms emit_ref_length
  by (cases sec) (auto simp: emit_section_def sec_compiled_size_def monad_elims min_def)

definition chunks_ok :: "u8 list \<Rightarrow> nat list \<Rightarrow> asm_section list \<Rightarrow> u8 list list \<Rightarrow> bool" where
  "chunks_ok bytes offs secs cs \<longleftrightarrow> list_all2 (\<lambda>sec c. emit_section bytes offs sec = Some c) secs cs"

lemma fold_emit:
  "fold_opt (\<lambda>sec out. map_option (\<lambda>bs. out @ bs) (emit_section bytes offs sec)) secs out = Some out' \<Longrightarrow>
     \<exists>cs. chunks_ok bytes offs secs cs \<and> out' = out @ concat cs"
proof (induction secs arbitrary: out)
  case Nil
  then show ?case by (simp add: chunks_ok_def)
next
  case (Cons sec secs)
  from Cons.prems obtain c where c: "emit_section bytes offs sec = Some c"
    and rest: "fold_opt (\<lambda>sec out. map_option (\<lambda>bs. out @ bs) (emit_section bytes offs sec)) secs (out @ c) = Some out'"
    by (auto simp: monad_elims)
  from Cons.IH [OF rest] obtain cs where "chunks_ok bytes offs secs cs" "out' = (out @ c) @ concat cs" by blast
  with c show ?case by (auto simp: chunks_ok_def intro!: exI [of _ "c # cs"])
qed

lemma chunk_sizes:
  assumes "chunks_ok bytes offs secs cs" "sizes_ok secs offs ns"
  shows "map length cs = ns"
proof (rule nth_equalityI)
  show "length (map length cs) = length ns"
    using assms unfolding chunks_ok_def sizes_ok_def by (metis length_map list_all2_lengthD)
  fix i assume "i < length (map length cs)"
  then show "map length cs ! i = ns ! i"
    using assms emit_section_length [of bytes offs "secs ! i" "cs ! i" "ns ! i"]
    by (simp add: chunks_ok_def sizes_ok_def list_all2_conv_all_nth)
qed

text \<open>
  What a successful assembly is: the output is the chunks of the sections in order, and the offset
  of every mark is the number of bytes emitted before it.
\<close>

lemma asm_assemble_result:
  assumes "asm_assemble grow a hint out = Some (Assembled (out', offs))"
  shows "\<exists>cs. chunks_ok (asm_bytes a) offs (asm_iter_sections a) cs \<and> out' = out @ concat cs \<and>
           (\<forall>j<length cs. \<forall>k. asm_iter_sections a ! j = Mark k \<longrightarrow>
              k < length offs \<and> offs ! k = length (concat (take j cs)))"
proof -
  let ?secs = "asm_iter_sections a"
  from assms obtain r where r: "converge_mark_offsets grow ?secs
      (mm_new grow (case hint of None \<Rightarrow> assumed_mark_count | Some n \<Rightarrow> n)) = Some r"
    unfolding asm_assemble_def Let_def by (auto simp only: bind_eq_Some_conv)
  with assms obtain m where m: "converge_mark_offsets grow ?secs
      (mm_new grow (case hint of None \<Rightarrow> assumed_mark_count | Some n \<Rightarrow> n)) = Some (Assembled m)"
    and e: "fold_opt (\<lambda>sec out. map_option (\<lambda>bs. out @ bs)
              (emit_section (asm_bytes a) (mm_offsets m) sec)) ?secs out = Some out'"
    and offs: "offs = mm_offsets m"
    unfolding asm_assemble_def Let_def r
    by (cases r) (auto simp only: bind_eq_Some_conv bind.bind_lunit asm_result.case prod.inject
        option.inject asm_result.inject asm_result.distinct)
  from m obtain m0 m1 where "converge_iters max_convergence_iters ?secs m1 = Some (Assembled m)"
    unfolding converge_mark_offsets_def by (auto simp only: bind_eq_Some_conv split: prod.splits)
  from converge_iters_fixed [OF this] obtain ns where ns: "sizes_ok ?secs offs ns" "marks_ok ?secs offs 0 ns"
    unfolding offs by blast
  from fold_emit [OF e] obtain cs where cs: "chunks_ok (asm_bytes a) offs ?secs cs" "out' = out @ concat cs"
    unfolding offs by blast
  have lens: "map length cs = ns" by (rule chunk_sizes [OF cs(1) ns(1)])
  have "length ?secs = length cs" using cs(1) unfolding chunks_ok_def by (rule list_all2_lengthD)
  moreover have "length (concat (take j cs)) = sum_list (take j ns)" for j
    by (simp add: length_concat take_map flip: lens)
  ultimately have "\<forall>j<length cs. \<forall>k. ?secs ! j = Mark k \<longrightarrow>
      k < length offs \<and> offs ! k = length (concat (take j cs))"
    using ns(2) by (simp add: marks_ok_def)
  with cs show ?thesis by blast
qed

subsection \<open>Big-endian values\<close>

definition be_value :: "u8 list \<Rightarrow> nat" where
  "be_value bs = foldl (\<lambda>acc b. acc * 256 + unat b) 0 bs"

lemma be_value_snoc [simp]: "be_value (bs @ [b]) = be_value bs * 256 + unat b"
  by (simp add: be_value_def)

lemma emit_value_Suc: "emit_value (Suc k) v = emit_value k (v div 256) @ [of_nat v]"
proof -
  have "rev [0..<Suc k] = map Suc (rev [0..<k]) @ [0]"
  proof -
    have "[0..<Suc k] = 0 # map Suc [0..<k]" by (simp add: map_Suc_upt upt_conv_Cons del: upt_Suc)
    then show ?thesis by (simp only: rev.simps(2) rev_map)
  qed
  then show ?thesis by (simp add: emit_value_def comp_def div_mult2_eq)
qed

lemma be_value_emit: "be_value (emit_value k v) = v mod 256 ^ k"
proof (induction k arbitrary: v)
  case 0
  show ?case by (simp add: emit_value_def be_value_def)
next
  case (Suc k)
  have "v mod 256 ^ Suc k = (v div 256 mod 256 ^ k) * 256 + v mod 256"
    by (simp add: mod_mult2_eq mult.commute)
  then show ?case by (simp add: emit_value_Suc Suc unat_of_nat)
qed

lemma bytes_to_hold_fits: "v < 2 ^ 32 \<Longrightarrow> v < 256 ^ ref_size_num (bytes_to_hold v)"
  by (simp add: bytes_to_hold_def)

lemma bytes_to_hold_minimal: "v < 256 ^ k \<Longrightarrow> 0 < k \<Longrightarrow> ref_size_num (bytes_to_hold v) \<le> k"
proof -
  assume v: "v < 256 ^ k" and k: "0 < k"
  show ?thesis
  proof (rule ccontr)
    assume "\<not> ?thesis"
    then have "k = 1 \<or> k = 2 \<or> k = 3"
      using k by (auto simp: bytes_to_hold_def split: if_splits)
    with v \<open>\<not> ?thesis\<close> show False by (auto simp: bytes_to_hold_def split: if_splits)
  qed
qed

subsection \<open>References decode to the value they refer to\<close>

definition offs_u32 :: "nat list \<Rightarrow> bool" where
  "offs_u32 offs \<longleftrightarrow> (\<forall>x\<in>set offs. x < 2 ^ 32)"

lemma offs_u32_nth: "offs_u32 offs \<Longrightarrow> i < length offs \<Longrightarrow> offs ! i < 4294967296"
  by (simp add: offs_u32_def)

lemma offs_u32_diff: "offs_u32 offs \<Longrightarrow> i < length offs \<Longrightarrow> offs ! i - x < 4294967296"
  using offs_u32_nth [of offs i] by simp

lemma init_marks_u32:
  "fold_opt (init_mark grow) secs (n, m) = Some (n', m') \<Longrightarrow> offs_u32 (mm_offsets m) \<Longrightarrow> n < 2 ^ 32 \<Longrightarrow>
     offs_u32 (mm_offsets m')"
proof (induction secs arbitrary: n m)
  case (Cons sec secs)
  from Cons.prems(1) obtain n1 m1 where one: "init_mark grow sec (n, m) = Some (n1, m1)"
    and rest: "fold_opt (init_mark grow) secs (n1, m1) = Some (n', m')"
    by (auto simp: bind_eq_Some_conv)
  have "n1 < 2 ^ 32" using one
    by (auto simp: init_mark_def monad_elims)
  moreover have "offs_u32 (mm_offsets m1)"
    using one Cons.prems(2,3)
    by (auto simp: init_mark_def monad_elims mm_set_def mm_resize_def offs_u32_def
        split: asm_section.splits dest!: in_set_takeD subsetD [OF set_update_subset_insert])
  ultimately show ?case using Cons.IH [OF rest] by simp
qed simp

lemma converge_pass_u32:
  "converge_pass secs i off m c = Some (Assembled (c', m')) \<Longrightarrow> offs_u32 (mm_offsets m) \<Longrightarrow> off < 2 ^ 32 \<Longrightarrow>
     offs_u32 (mm_offsets m')"
proof (induction secs arbitrary: i off m c)
  case (Cons sec secs)
  from Cons.prems(1) obtain m1 c1 n where one: "(case sec of
        Mark k \<Rightarrow> do {
          prev \<leftarrow> slice_get (mm_offsets m) k;
          if prev \<noteq> off then map_option (\<lambda>m. (m, False)) (mm_set k off m)
          else Some (m, c)
        }
      | _ \<Rightarrow> Some (m, c)) = Some (m1, c1)"
    and rest: "converge_pass secs (i + 1) (off + n) m1 c1 = Some (Assembled (c', m'))" "off + n < 2 ^ 32"
    by (auto simp: monad_elims split: option.splits)
  have "offs_u32 (mm_offsets m1)"
    using one Cons.prems(2,3)
    by (auto simp: monad_elims mm_set_def offs_u32_def split: asm_section.splits if_splits
        dest!: subsetD [OF set_update_subset_insert])
  with Cons.IH [OF rest(1)] rest(2) show ?case by simp
qed simp

lemma converge_iters_u32:
  "converge_iters n secs m = Some (Assembled m') \<Longrightarrow> offs_u32 (mm_offsets m) \<Longrightarrow> offs_u32 (mm_offsets m')"
proof (induction n arbitrary: m)
  case (Suc n)
  from Suc.prems obtain r where r: "converge_pass secs 0 0 m True = Some r"
    by (auto simp: monad_elims)
  with Suc.prems obtain c m1 where p: "converge_pass secs 0 0 m True = Some (Assembled (c, m1))"
    and rest: "(if c then Some (Assembled m1) else converge_iters n secs m1) = Some (Assembled m')"
    by (cases r) auto
  have "offs_u32 (mm_offsets m1)" using converge_pass_u32 [OF p Suc.prems(2)] by simp
  with rest Suc.IH show ?case by (auto split: if_splits)
qed simp

lemma asm_assemble_u32:
  assumes "asm_assemble grow a hint out = Some (Assembled (out', offs))"
  shows "offs_u32 offs"
proof -
  let ?secs = "asm_iter_sections a"
  let ?m = "mm_new grow (case hint of None \<Rightarrow> assumed_mark_count | Some n \<Rightarrow> n)"
  from assms obtain r where r: "converge_mark_offsets grow ?secs ?m = Some r"
    unfolding asm_assemble_def Let_def by (auto simp only: bind_eq_Some_conv)
  with assms obtain m where m: "converge_mark_offsets grow ?secs ?m = Some (Assembled m)"
    and offs: "offs = mm_offsets m"
    unfolding asm_assemble_def Let_def r
    by (cases r) (auto simp only: bind_eq_Some_conv bind.bind_lunit asm_result.case prod.inject
        option.inject asm_result.inject asm_result.distinct)
  from m obtain m0 m1 where init: "fold_opt (init_mark grow) ?secs (0, ?m) = Some (m0, m1)"
    and iters: "converge_iters max_convergence_iters ?secs m1 = Some (Assembled m)"
    unfolding converge_mark_offsets_def by (auto simp only: bind_eq_Some_conv split: prod.splits)
  have "offs_u32 (mm_offsets m1)"
    using init_marks_u32 [OF init] by (simp add: mm_new_def offs_u32_def)
  from converge_iters_u32 [OF iters this] show ?thesis by (simp add: offs)
qed

definition push_of :: "nat \<Rightarrow> u8 list \<Rightarrow> bool" where
  "push_of v bs \<longleftrightarrow> (\<exists>opcode imm. bs = opcode # imm \<and> be_value imm = v \<and>
     (if imm = [] then opcode = op_PUSH0 else op_push_size opcode = Some (length imm)))"

lemma push_opcode_size: "op_push_size (op_PUSH1 + of_nat (ref_size_num x) - 1) = Some (ref_size_num x)"
  by (cases x) (simp_all add: op_push_size_def opcode_defs)

lemma emit_ref_value:
  assumes "emit_ref r offs = Some bs" "offs_u32 offs"
  obtains v where "ref_value (ar_mark_ref r) offs = Some v" "v < 2 ^ 32"
    "if ar_pushed r then push_of v bs else be_value bs = v"
    "ar_set_size r = None \<Longrightarrow> \<forall>k. v < 256 ^ k \<longrightarrow> length bs \<le> (if ar_pushed r then k + 1 else max k 1)"
    "\<forall>b e. ar_mark_ref r = Delta (b, e) \<longrightarrow> offs ! b \<le> offs ! e"
proof -
  from assms obtain v where v: "ref_value (ar_mark_ref r) offs = Some v" "v < 2 ^ 32"
    "\<forall>b e. ar_mark_ref r = Delta (b, e) \<longrightarrow> offs ! b \<le> offs ! e"
    and emit: "(if v = 0 \<and> ar_set_size r = None \<and> ar_pushed r then Some [op_PUSH0]
     else do {
       let sz = bytes_to_hold v;
       rust_assert (case ar_set_size r of None \<Rightarrow> True | Some set_size \<Rightarrow> set_size \<ge> sz);
       let sz = (case ar_set_size r of None \<Rightarrow> sz | Some set_size \<Rightarrow> set_size);
       Some ((if ar_pushed r then [op_PUSH1 + of_nat (ref_size_num sz) - 1] else []) @
             emit_value (ref_size_num sz) v)
     }) = Some bs"
    by (cases "ar_mark_ref r")
      (auto simp: emit_ref_def ref_value_def monad_elims offs_u32_nth offs_u32_diff
        split del: if_split)
  show ?thesis
  proof (cases "v = 0 \<and> ar_set_size r = None \<and> ar_pushed r")
    case True
    with emit have bs: "bs = [op_PUSH0]" by simp
    with True have "push_of v bs" by (simp add: push_of_def be_value_def)
    with True v bs show ?thesis by (intro that [of v]) auto
  next
    case False
    define sz where "sz = (case ar_set_size r of None \<Rightarrow> bytes_to_hold v | Some set_size \<Rightarrow> set_size)"
    from False emit have big: "bytes_to_hold v \<le> sz"
      and bs: "bs = (if ar_pushed r then [op_PUSH1 + of_nat (ref_size_num sz) - 1] else []) @
             emit_value (ref_size_num sz) v"
      by (auto simp: sz_def Let_def monad_elims split: option.splits)
    have "v < 256 ^ ref_size_num sz"
      using bytes_to_hold_fits [OF v(2)] big
      by (meson less_eq_ref_size_def less_le_trans one_le_numeral power_increasing)
    then have val: "be_value (emit_value (ref_size_num sz) v) = v" by (simp add: be_value_emit)
    have pos: "0 < ref_size_num sz" by (cases sz) simp_all
    then have ne: "emit_value (ref_size_num sz) v \<noteq> []" by (metis length_emit_value length_greater_0_conv)
    have "if ar_pushed r then push_of v bs else be_value bs = v"
      using val ne by (auto simp: bs push_of_def push_opcode_size)
    moreover have "length bs \<le> (if ar_pushed r then k + 1 else max k 1)"
      if "ar_set_size r = None" "v < 256 ^ k" for k
    proof -
      have sz: "sz = bytes_to_hold v" using that by (simp add: sz_def)
      show ?thesis
      proof (cases "k = 0")
        case True
        with that False have "v = 0" "\<not> ar_pushed r" by auto
        then show ?thesis by (simp add: bs sz bytes_to_hold_def)
      next
        case k: False
        with bytes_to_hold_minimal [OF that(2)] show ?thesis by (simp add: bs sz)
      qed
    qed
    ultimately show ?thesis using v by (intro that [of v]) auto
  qed
qed

subsection \<open>What the push operations add\<close>

text \<open>The content of an assembler: its sections with their bytes instead of spans.\<close>

datatype asm_item = IMark nat | IOps "u8 list" | IData "u8 list" | IRef asm_reference

definition span_bytes :: "u8 list \<Rightarrow> span \<Rightarrow> u8 list" where
  "span_bytes bytes s = take (snd s - fst s) (drop (fst s) bytes)"

fun item_of :: "u8 list \<Rightarrow> asm_section \<Rightarrow> asm_item" where
  "item_of bytes (Mark i) = IMark i"
| "item_of bytes (Ops s) = IOps (span_bytes bytes s)"
| "item_of bytes (Data s) = IData (span_bytes bytes s)"
| "item_of bytes (MarkRef r) = IRef r"

definition asm_items :: "assembler \<Rightarrow> asm_item list" where
  "asm_items a = map (item_of (asm_bytes a)) (asm_iter_sections a)"

fun sec_span :: "asm_section \<Rightarrow> span option" where
  "sec_span (Ops s) = Some s"
| "sec_span (Data s) = Some s"
| "sec_span _ = None"

text \<open>Spans are inside the bytes, and an open section at the end ends with them.\<close>

definition asm_inv :: "assembler \<Rightarrow> bool" where
  "asm_inv a \<longleftrightarrow> length (asm_bytes a) < idx_limit \<and>
     (\<forall>sec\<in>set (asm_iter_sections a). \<forall>s. sec_span sec = Some s \<longrightarrow>
        fst s \<le> snd s \<and> snd s \<le> length (asm_bytes a)) \<and>
     (\<forall>s. asm_iter_sections a \<noteq> [] \<and> sec_span (last (asm_iter_sections a)) = Some s \<longrightarrow>
        snd s = length (asm_bytes a))"

text \<open>Adding bytes to the content: to the last section when it is of the right kind.\<close>

definition add_ops :: "u8 list \<Rightarrow> asm_item list \<Rightarrow> asm_item list" where
  "add_ops bs xs =
     (if xs = [] then [IOps bs]
      else case last xs of IOps ys \<Rightarrow> butlast xs @ [IOps (ys @ bs)] | _ \<Rightarrow> xs @ [IOps bs])"

definition add_data :: "u8 list \<Rightarrow> asm_item list \<Rightarrow> asm_item list" where
  "add_data bs xs =
     (if xs = [] then [IData bs]
      else case last xs of IData ys \<Rightarrow> butlast xs @ [IData (ys @ bs)] | _ \<Rightarrow> xs @ [IData bs])"

lemma add_ops_add_ops: "add_ops cs (add_ops bs xs) = add_ops (bs @ cs) xs"
  by (simp add: add_ops_def split: asm_item.split)

lemma span_bytes_append: "snd s \<le> length bytes \<Longrightarrow> span_bytes (bytes @ cs) s = span_bytes bytes s"
  by (cases "fst s \<le> snd s") (auto simp: span_bytes_def)

lemma item_of_append:
  "(\<And>s. sec_span sec = Some s \<Longrightarrow> snd s \<le> length bytes) \<Longrightarrow> item_of (bytes @ cs) sec = item_of bytes sec"
  by (cases sec) (simp_all add: span_bytes_append)

lemma asm_items_append:
  "asm_inv a \<Longrightarrow> map (item_of (asm_bytes a @ cs)) (asm_iter_sections a) = asm_items a"
  by (auto simp: asm_items_def asm_inv_def intro!: item_of_append)

text \<open>The two cases of a push: a new section, and extending the last one.\<close>

lemma asm_inv_new_section:
  assumes inv: "asm_inv a" and sec: "sec_of_stored st = Ops s \<or> sec_of_stored st = Data s"
    and s: "s = (length (asm_bytes a), length (asm_bytes a) + length bs)"
    and room: "length (asm_bytes a) + length bs < idx_limit"
    and a': "a' = a\<lparr>asm_bytes := asm_bytes a @ bs, asm_sections := asm_sections a @ [st]\<rparr>"
  shows "asm_inv a' \<and> asm_items a' = asm_items a @ [item_of (asm_bytes a @ bs) (sec_of_stored st)]"
proof -
  have secs: "asm_iter_sections a' = asm_iter_sections a @ [sec_of_stored st]"
    by (simp add: asm_iter_sections_def a')
  have bytes': "asm_bytes a' = asm_bytes a @ bs" by (simp add: a')
  have span: "sec_span (sec_of_stored st) = Some s" using sec by auto
  have old: "fst t \<le> snd t \<and> snd t \<le> length (asm_bytes a)"
    if "sec \<in> set (asm_iter_sections a)" "sec_span sec = Some t" for sec t
    using inv that unfolding asm_inv_def by blast
  have "asm_inv a'"
    using old span room by (fastforce simp: asm_inv_def secs bytes' s)
  moreover have "asm_items a' = asm_items a @ [item_of (asm_bytes a @ bs) (sec_of_stored st)]"
    using asm_items_append [OF inv, of bs] by (simp add: asm_items_def secs) (simp add: a')
  ultimately show ?thesis by simp
qed

lemma asm_inv_extend:
  assumes inv: "asm_inv a" and ne: "asm_sections a \<noteq> []"
    and last_sec: "sec_of_stored (last (asm_sections a)) = k s" and k: "k = Ops \<or> k = Data"
    and st: "sec_of_stored st = k (fst s, length (asm_bytes a) + length bs)"
    and room: "length (asm_bytes a) + length bs < idx_limit"
    and a': "a' = a\<lparr>asm_bytes := asm_bytes a @ bs, asm_sections := butlast (asm_sections a) @ [st]\<rparr>"
  shows "asm_inv a' \<and> asm_items a' = butlast (asm_items a) @
           [item_of (asm_bytes a @ bs) (k (fst s, length (asm_bytes a) + length bs))] \<and>
         asm_items a \<noteq> [] \<and> last (asm_items a) = item_of (asm_bytes a) (k s) \<and>
         span_bytes (asm_bytes a @ bs) (fst s, length (asm_bytes a) + length bs) =
           span_bytes (asm_bytes a) s @ bs \<and> snd s = length (asm_bytes a)"
proof -
  obtain ss where ss: "asm_sections a = ss @ [last (asm_sections a)]"
    using ne by (metis append_butlast_last_id)
  have secs: "asm_iter_sections a = map sec_of_stored ss @ [k s]"
    unfolding asm_iter_sections_def by (subst ss) (simp add: last_sec)
  have "butlast (asm_sections a) = ss" by (subst ss) (rule butlast_snoc)
  then have secs': "asm_iter_sections a' = map sec_of_stored ss @ [k (fst s, length (asm_bytes a) + length bs)]"
    by (simp add: asm_iter_sections_def a' st)
  have bytes': "asm_bytes a' = asm_bytes a @ bs" by (simp add: a')
  have span: "sec_span (k t) = Some t" for t using k by auto
  have s: "fst s \<le> snd s" "snd s = length (asm_bytes a)"
    using inv span [of s] unfolding asm_inv_def secs by (cases s; simp)+
  have old: "fst t \<le> snd t \<and> snd t \<le> length (asm_bytes a)"
    if "sec \<in> set (map sec_of_stored ss)" "sec_span sec = Some t" for sec t
    using inv that unfolding asm_inv_def secs by (metis UnI1 set_append)
  have "asm_inv a'"
    using old room s span by (fastforce simp: asm_inv_def secs' bytes')
  moreover have "map (item_of (asm_bytes a @ bs)) (map sec_of_stored ss) = map (item_of (asm_bytes a)) (map sec_of_stored ss)"
    using old by (intro map_cong item_of_append) auto
  then have "asm_items a' = butlast (asm_items a) @
      [item_of (asm_bytes a @ bs) (k (fst s, length (asm_bytes a) + length bs))]"
    by (simp add: asm_items_def secs secs' butlast_append) (simp add: a')
  moreover have "asm_items a \<noteq> [] \<and> last (asm_items a) = item_of (asm_bytes a) (k s)"
    by (simp add: asm_items_def secs)
  ultimately show ?thesis using s by (auto simp: span_bytes_def)
qed

lemma asm_len_idx_in [simp]: "length (asm_bytes a) < idx_limit \<Longrightarrow> asm_len_idx a = Some (length (asm_bytes a))"
  by (simp add: asm_len_idx_def)

lemma asm_push_raw_in [simp]:
  "length (asm_bytes a) < idx_limit \<Longrightarrow> asm_push_raw b a = Some (a\<lparr>asm_bytes := asm_bytes a @ [b]\<rparr>)"
  by (simp add: asm_push_raw_def)

lemma sec_of_stored_Ops: "sec_of_stored st = Ops s \<longleftrightarrow> st = StOps s"
  by (cases st) (auto simp: sec_delta_ref_def)

lemma sec_of_stored_Data: "sec_of_stored st = Data s \<longleftrightarrow> st = StData s"
  by (cases st) (auto simp: sec_delta_ref_def)

lemma last_items:
  "asm_sections a \<noteq> [] \<Longrightarrow> asm_items a \<noteq> [] \<and>
     last (asm_items a) = item_of (asm_bytes a) (sec_of_stored (last (asm_sections a)))"
  by (simp add: asm_items_def asm_iter_sections_def last_map)

lemma asm_push_op_byte_spec:
  assumes inv: "asm_inv a" and room: "length (asm_bytes a) + 1 < idx_limit"
  shows "\<exists>a'. asm_push_op_byte b a = Some a' \<and> asm_inv a' \<and> asm_items a' = add_ops [b] (asm_items a) \<and>
              length (asm_bytes a') = length (asm_bytes a) + 1"
proof (cases "\<exists>s. asm_sections a \<noteq> [] \<and> last (asm_sections a) = StOps s")
  case True
  then obtain s where s: "asm_sections a \<noteq> []" "last (asm_sections a) = StOps s" by blast
  let ?n = "length (asm_bytes a)"
  define a' where "a' = a\<lparr>asm_bytes := asm_bytes a @ [b],
      asm_sections := butlast (asm_sections a) @ [StOps (fst s, ?n + 1)]\<rparr>"
  from asm_inv_extend [OF inv s(1), of Ops s "StOps (fst s, ?n + 1)" "[b]" a'] s(2) room
  have ext: "asm_inv a'" "asm_items a' = butlast (asm_items a) @ [IOps (span_bytes (asm_bytes a) s @ [b])]"
    "asm_items a \<noteq> []" "last (asm_items a) = IOps (span_bytes (asm_bytes a) s)" "snd s = ?n"
    by (simp_all add: a'_def)
  have "asm_push_op_byte b a = Some a'"
    using s room ext(5) by (simp add: asm_push_op_byte_def asm_last_def asm_set_last_def a'_def)
  with ext show ?thesis by (simp add: add_ops_def a'_def)
next
  case False
  let ?n = "length (asm_bytes a)"
  define a' where "a' = a\<lparr>asm_bytes := asm_bytes a @ [b], asm_sections := asm_sections a @ [StOps (?n, ?n + 1)]\<rparr>"
  from asm_inv_new_section [OF inv, of "StOps (?n, ?n + 1)" "(?n, ?n + 1)" "[b]" a'] room
  have new: "asm_inv a'" "asm_items a' = asm_items a @ [IOps [b]]"
    by (simp_all add: a'_def span_bytes_def)
  have "asm_push_op_byte b a = Some a'"
    using False room
    by (auto simp: asm_push_op_byte_def asm_last_def asm_push_section_def a'_def split: stored_section.split)
  moreover have "add_ops [b] (asm_items a) = asm_items a @ [IOps [b]]"
  proof (cases "asm_sections a = []")
    case True
    then show ?thesis by (simp add: add_ops_def asm_items_def asm_iter_sections_def)
  next
    case ne: False
    from last_items [OF ne] False ne show ?thesis
      by (auto simp: add_ops_def sec_of_stored_Ops split: asm_item.split elim!: item_of.elims)
  qed
  ultimately show ?thesis using new by (simp add: a'_def)
qed

lemma fold_push_op_byte:
  "asm_inv a \<Longrightarrow> bs \<noteq> [] \<Longrightarrow> length (asm_bytes a) + length bs < idx_limit \<Longrightarrow>
     \<exists>a'. fold_opt asm_push_op_byte bs a = Some a' \<and> asm_inv a' \<and> asm_items a' = add_ops bs (asm_items a) \<and>
          length (asm_bytes a') = length (asm_bytes a) + length bs"
proof (induction bs arbitrary: a)
  case (Cons b bs)
  from Cons.prems asm_push_op_byte_spec [of a b] obtain a1 where a1: "asm_push_op_byte b a = Some a1"
    "asm_inv a1" "asm_items a1 = add_ops [b] (asm_items a)" "length (asm_bytes a1) = length (asm_bytes a) + 1"
    by auto
  show ?case
  proof (cases "bs = []")
    case True
    with a1 show ?thesis by simp
  next
    case False
    from Cons.IH [OF a1(2) False] Cons.prems(3) a1 show ?thesis by (auto simp: add_ops_add_ops)
  qed
qed simp

lemma asm_push_data_spec:
  assumes inv: "asm_inv a" and room: "length (asm_bytes a) + length bs < idx_limit"
  shows "\<exists>a'. asm_push_data bs a = Some a' \<and> asm_inv a' \<and> asm_items a' = add_data bs (asm_items a) \<and>
              length (asm_bytes a') = length (asm_bytes a) + length bs"
proof (cases "\<exists>s. asm_sections a \<noteq> [] \<and> last (asm_sections a) = StData s")
  case True
  then obtain s where s: "asm_sections a \<noteq> []" "last (asm_sections a) = StData s" by blast
  let ?n = "length (asm_bytes a)"
  define a' where "a' = a\<lparr>asm_bytes := asm_bytes a @ bs,
      asm_sections := butlast (asm_sections a) @ [StData (fst s, ?n + length bs)]\<rparr>"
  from asm_inv_extend [OF inv s(1), of Data s "StData (fst s, ?n + length bs)" bs a'] s(2) room
  have ext: "asm_inv a'" "asm_items a' = butlast (asm_items a) @ [IData (span_bytes (asm_bytes a) s @ bs)]"
    "asm_items a \<noteq> []" "last (asm_items a) = IData (span_bytes (asm_bytes a) s)" "snd s = ?n"
    by (simp_all add: a'_def)
  have "asm_push_data bs a = Some a'"
    using s room ext(5) by (simp add: asm_push_data_def asm_last_def asm_set_last_def a'_def)
  with ext show ?thesis by (simp add: add_data_def a'_def)
next
  case False
  let ?n = "length (asm_bytes a)"
  define a' where "a' = a\<lparr>asm_bytes := asm_bytes a @ bs,
      asm_sections := asm_sections a @ [StData (?n, ?n + length bs)]\<rparr>"
  from asm_inv_new_section [OF inv, of "StData (?n, ?n + length bs)" "(?n, ?n + length bs)" bs a'] room
  have new: "asm_inv a'" "asm_items a' = asm_items a @ [IData bs]"
    by (simp_all add: a'_def span_bytes_def)
  have "asm_push_data bs a = Some a'"
    using False room
    by (auto simp: asm_push_data_def asm_last_def asm_push_section_def a'_def split: stored_section.split)
  moreover have "add_data bs (asm_items a) = asm_items a @ [IData bs]"
  proof (cases "asm_sections a = []")
    case True
    then show ?thesis by (simp add: add_data_def asm_items_def asm_iter_sections_def)
  next
    case ne: False
    from last_items [OF ne] False ne show ?thesis
      by (auto simp: add_data_def sec_of_stored_Data split: asm_item.split elim!: item_of.elims)
  qed
  ultimately show ?thesis using new by (simp add: a'_def)
qed

text \<open>A reference is stored in a compact form that gives the same reference back.\<close>

lemma sec_of_stored_ref: "sec_of_stored (stored_of_ref r) = MarkRef r"
  by (cases r; cases "ar_mark_ref r"; cases "ar_set_size r"; cases "ar_pushed r")
    (auto simp: stored_of_ref_def sec_delta_ref_def split: ref_size.split)

lemma asm_push_reference_spec:
  "asm_inv a \<Longrightarrow> asm_inv (asm_push_reference r a) \<and>
     asm_items (asm_push_reference r a) = asm_items a @ [IRef r]"
  by (auto simp: asm_inv_def asm_push_reference_def asm_push_section_def asm_items_def
      asm_iter_sections_def sec_of_stored_ref)

lemma asm_push_mark_spec:
  "asm_inv a \<Longrightarrow> asm_inv (asm_push_mark i a) \<and> asm_items (asm_push_mark i a) = asm_items a @ [IMark i]"
  by (auto simp: asm_inv_def asm_push_mark_def asm_push_section_def asm_items_def asm_iter_sections_def)

subsection \<open>Minimal pushes\<close>

lemma bit_length_256: "bit_length (unat (v :: u256)) \<le> 256"
  using unsigned_less [of v] by (simp add: bit_length_le)

lemma emit_value_le_bytes: "n \<le> k \<Longrightarrow> rev (take n (le_bytes_of k v)) = emit_value n (unat v)"
  by (simp add: le_bytes_of_def emit_value_def take_map rev_map)

text \<open>A non-zero value of at most \<open>n\<close> bytes, and not fewer.\<close>

definition byte_length :: "nat \<Rightarrow> nat" where
  "byte_length v = (bit_length v + 7) div 8"

lemma byte_length_le: "byte_length v \<le> n \<longleftrightarrow> v < 256 ^ n"
proof -
  have "byte_length v \<le> n \<longleftrightarrow> bit_length v \<le> 8 * n" by (auto simp: byte_length_def)
  also have "\<dots> \<longleftrightarrow> v < 256 ^ n" by (simp add: bit_length_le power_mult)
  finally show ?thesis .
qed

lemma byte_length_pos: "v \<noteq> 0 \<Longrightarrow> 0 < byte_length v"
  using byte_length_le [of v 0] by simp

lemma byte_length_lz:
  fixes bl :: nat
  assumes "bl \<le> 256"
  shows "32 - (256 - bl) div 8 = (bl + 7) div 8"
proof -
  define q where "q = (256 - bl) div 8"
  define r where "r = (256 - bl) mod 8"
  have x: "256 - bl = 8 * q + r" "r < 8" by (simp_all add: q_def r_def)
  with assms have "bl + 7 = 8 * (32 - q) + (7 - r)" by auto
  moreover have "7 - r < 8" by simp
  ultimately have "(bl + 7) div 8 = 32 - q" by simp
  then show ?thesis by (simp add: q_def)
qed

lemma asm_push_minimal_u256_spec:
  assumes law: "u256_law L" and inv: "asm_inv a" and room: "length (asm_bytes a) + 33 < idx_limit"
  shows "\<exists>a' bs. asm_push_minimal_u256 L v a = Some a' \<and> asm_inv a' \<and>
           asm_items a' = add_ops bs (asm_items a) \<and> push_of (unat v) bs \<and>
           (\<forall>k. unat v < 256 ^ k \<longrightarrow> length bs \<le> k + 1)"
proof (cases "v = 0")
  case True
  have "push_of 0 [op_PUSH0]" by (simp add: push_of_def be_value_def)
  with asm_push_op_byte_spec [OF inv, of op_PUSH0] room True show ?thesis
    by (auto simp: asm_push_minimal_u256_def intro!: exI [of _ "[op_PUSH0]"])
next
  case False
  let ?n = "byte_length (unat v)"
  have "unat v \<noteq> 0" using False by (simp add: unat_0_iff)
  then have n0: "0 < ?n" by (rule byte_length_pos)
  have n32: "?n \<le> 32" using unsigned_less [of v] by (simp add: byte_length_le)
  have lz: "u_leading_zeros L v = 256 - bit_length (unat v)" and le: "u_to_le_bytes L v = le_bytes_of 32 v"
    using law by (simp_all add: u256_law_def)
  have size: "checked_sub 32 (u_leading_zeros L v div 8) = Some ?n"
    using byte_length_lz [OF bit_length_256 [of v]] by (simp add: lz byte_length_def)
  let ?op = "of_nat (95 + ?n) :: u8"
  let ?imm = "emit_value ?n (unat v)"
  have op: "op_push_size ?op = Some ?n"
  proof -
    have "unat ?op = (95 + ?n) mod 256" by (simp only: unat_of_nat) simp
    with n0 n32 show ?thesis by (subst push_size_iff) (simp add: op_PUSH0_def)
  qed
  have bytes: "slice_range (u_to_le_bytes L v) 0 ?n = Some (take ?n (le_bytes_of 32 v))"
    using n32 by (simp add: le le_bytes_of_def)
  have cs: "unat op_PUSH1 = 96" "unat op_PUSH32 = 127" by (simp_all add: opcode_defs)
  have p: "checked_sub (96 + ?n) 1 = Some (95 + ?n)" by (simp add: checked_sub_def)
  have run: "asm_push_minimal_u256 L v a = fold_opt asm_push_op_byte (?op # ?imm) a"
    using False n0 n32
    by (simp add: asm_push_minimal_u256_def size p bytes cs emit_value_le_bytes del: of_nat_add)
  obtain a' where a': "fold_opt asm_push_op_byte (?op # ?imm) a = Some a'" "asm_inv a'"
    "asm_items a' = add_ops (?op # ?imm) (asm_items a)"
    using fold_push_op_byte [OF inv, of "?op # ?imm"] room n32 by auto
  have "unat v < 256 ^ ?n" by (simp flip: byte_length_le)
  then have "push_of (unat v) (?op # ?imm)"
  proof -
    have "?imm \<noteq> []" using n0 by (metis length_emit_value length_greater_0_conv)
    with \<open>unat v < 256 ^ ?n\<close> op show ?thesis by (simp add: push_of_def be_value_emit)
  qed
  moreover have "length (?op # ?imm) \<le> k + 1" if "unat v < 256 ^ k" for k
    using that by (simp flip: byte_length_le)
  ultimately show ?thesis using a' run by auto
qed

subsection \<open>Convergence\<close>

text \<open>
  Assembling returns within the iteration limit for the assemblies of direct references: sizes
  only grow from one iteration to the next, and when none has grown the offsets are stable. A delta
  may shrink when its start moves; only deltas of a fixed size would fit the argument.
\<close>

definition ref_sz :: "asm_reference \<Rightarrow> nat \<Rightarrow> nat" where
  "ref_sz r v = (case ar_set_size r of
     Some z \<Rightarrow> ref_size_num z + (if ar_pushed r then 1 else 0)
   | None \<Rightarrow> (if ar_pushed r then (if v = 0 then 1 else 1 + ref_size_num (bytes_to_hold v))
             else ref_size_num (bytes_to_hold v)))"

definition sec_sz :: "asm_section \<Rightarrow> nat list \<Rightarrow> nat" where
  "sec_sz sec offs = (case sec of
     Mark _ \<Rightarrow> 0
   | Ops s \<Rightarrow> snd s - fst s
   | Data s \<Rightarrow> snd s - fst s
   | MarkRef r \<Rightarrow> ref_sz r (case ar_mark_ref r of Direct i \<Rightarrow> offs ! i | Delta _ \<Rightarrow> 0))"

definition sec_fine :: "nat \<Rightarrow> asm_section \<Rightarrow> bool" where
  "sec_fine n sec = (case sec of
     Mark i \<Rightarrow> i < n
   | Ops s \<Rightarrow> fst s \<le> snd s
   | Data s \<Rightarrow> fst s \<le> snd s
   | MarkRef r \<Rightarrow> (case ar_mark_ref r of
       Direct i \<Rightarrow> i < n
     | Delta s \<Rightarrow> fst s < n \<and> snd s < n \<and> ar_set_size r \<noteq> None))"

definition sec_max :: "asm_section \<Rightarrow> nat" where
  "sec_max sec = (case sec of
     MarkRef r \<Rightarrow> (if ar_set_size r = None then 5 else ref_sz r 0)
   | _ \<Rightarrow> sec_sz sec [])"

definition sec_min :: "asm_section \<Rightarrow> nat" where
  "sec_min sec = (case sec of
     MarkRef r \<Rightarrow> (if ar_set_size r = None then 1 else ref_sz r 0)
   | _ \<Rightarrow> sec_sz sec [])"

definition offs_le :: "nat list \<Rightarrow> nat list \<Rightarrow> bool" where
  "offs_le xs ys \<longleftrightarrow> list_all2 (\<le>) xs ys"

lemma ref_size_num_range: "1 \<le> ref_size_num z \<and> ref_size_num z \<le> 4"
  by (cases z) simp_all

lemma ref_size_num_le5 [simp]: "ref_size_num z \<le> 5"
  by (cases z) simp_all

lemma bytes_to_hold_mono: "v \<le> w \<Longrightarrow> ref_size_num (bytes_to_hold v) \<le> ref_size_num (bytes_to_hold w)"
  by (auto simp: bytes_to_hold_def)

lemma ref_sz_mono: "v \<le> w \<Longrightarrow> ref_sz r v \<le> ref_sz r w"
  using bytes_to_hold_mono [of v w] ref_size_num_range
  by (auto simp: ref_sz_def split: option.split)

lemma sec_sz_mono: "sec_fine (length offs) sec \<Longrightarrow> offs_le offs offs' \<Longrightarrow> sec_sz sec offs \<le> sec_sz sec offs'"
  by (auto simp: sec_sz_def sec_fine_def offs_le_def list_all2_conv_all_nth
      split: asm_section.splits mark_reference.splits intro!: ref_sz_mono)

lemma sec_sz_bounds: "sec_min sec \<le> sec_sz sec offs \<and> sec_sz sec offs \<le> sec_max sec"
  using ref_size_num_range
  by (auto simp: sec_min_def sec_max_def sec_sz_def ref_sz_def le_SucI
      split: asm_section.splits option.splits mark_reference.splits)

lemma sec_compiled_size_fine:
  "sec_fine (length offs) sec \<Longrightarrow>
     sec_compiled_size sec offs = Some None \<or> sec_compiled_size sec offs = Some (Some (sec_sz sec offs))"
  by (cases sec; cases "ar_mark_ref (case sec of MarkRef r \<Rightarrow> r)")
    (auto simp: sec_compiled_size_def sec_fine_def sec_sz_def ref_value_def ref_compiled_size_def
      ref_sz_def idx_sub_def Let_def split: option.splits)

lemma sec_min_compiled_size_fine: "sec_fine n sec \<Longrightarrow> sec_min_compiled_size sec = Some (sec_min sec)"
  by (auto simp: sec_min_compiled_size_def sec_min_def sec_fine_def sec_sz_def ref_sz_def idx_sub_def
      split: asm_section.splits option.splits)


text \<open>The marks a section list defines, and what one pass does to them.\<close>

fun mark_of :: "asm_section \<Rightarrow> nat list" where
  "mark_of (Mark i) = [i]"
| "mark_of _ = []"

definition marks :: "asm_section list \<Rightarrow> nat list" where
  "marks secs = concat (map mark_of secs)"

lemma marks_simps [simp]: "marks [] = []" "marks (sec # secs) = mark_of sec @ marks secs"
  by (simp_all add: marks_def)

lemma mark_in_marks: "j < length secs \<Longrightarrow> secs ! j = Mark k \<Longrightarrow> k \<in> set (marks secs)"
  by (force simp: marks_def in_set_conv_nth [of _ secs] intro: nth_mem)

lemma offs_le_refl [simp]: "offs_le xs xs"
  by (simp add: offs_le_def list_all2_refl)

lemma offs_le_trans: "offs_le xs ys \<Longrightarrow> offs_le ys zs \<Longrightarrow> offs_le xs zs"
  unfolding offs_le_def by (rule list_all2_trans [of "(\<le>)" "(\<le>)" "(\<le>)"]) auto

lemma offs_le_length: "offs_le xs ys \<Longrightarrow> length ys = length xs"
  by (simp add: offs_le_def list_all2_lengthD)

lemma offs_le_update: "k < length xs \<Longrightarrow> xs ! k \<le> v \<Longrightarrow> offs_le xs (xs[k := v])"
  by (auto simp: offs_le_def list_all2_conv_all_nth nth_list_update)

text \<open>
  One pass, started with offsets at least those of the previous pass: \<open>ns0\<close> are the sizes the
  previous pass used, \<open>ns\<close> the sizes of this one.
\<close>

definition sizes_below :: "nat list \<Rightarrow> asm_section list \<Rightarrow> nat list \<Rightarrow> bool" where
  "sizes_below ns secs offs \<longleftrightarrow> list_all2 (\<lambda>n sec. n \<le> sec_sz sec offs) ns secs"

lemma sizes_below_mono:
  "sizes_below ns secs offs \<Longrightarrow> offs_le offs offs' \<Longrightarrow> \<forall>sec\<in>set secs. sec_fine (length offs) sec \<Longrightarrow>
     sizes_below ns secs offs'"
proof -
  assume a: "sizes_below ns secs offs" "offs_le offs offs'" "\<forall>sec\<in>set secs. sec_fine (length offs) sec"
  have "ns ! i \<le> sec_sz (secs ! i) offs'" if i: "i < length secs" for i
  proof -
    have "ns ! i \<le> sec_sz (secs ! i) offs" using a(1) i by (simp add: sizes_below_def list_all2_conv_all_nth)
    also have "\<dots> \<le> sec_sz (secs ! i) offs'" using a(2,3) i by (simp add: sec_sz_mono)
    finally show ?thesis .
  qed
  with a(1) show ?thesis by (simp add: sizes_below_def list_all2_conv_all_nth)
qed

lemma converge_pass_grows:
  assumes "\<forall>sec\<in>set secs. sec_fine (length (mm_offsets m)) sec" "distinct (marks secs)"
    and "sizes_below ns0 secs (mm_offsets m)" "marks_ok secs (mm_offsets m) off0 ns0" "off0 \<le> off"
    and "off + sum_list (map sec_max secs) < 2 ^ 32"
  shows "(\<exists>e. converge_pass secs i off m c = Some (AsmFailed e)) \<or>
         (\<exists>c' m' ns. converge_pass secs i off m c = Some (Assembled (c', m')) \<and>
            offs_le (mm_offsets m) (mm_offsets m') \<and> list_all2 (\<le>) ns0 ns \<and>
            sizes_below ns secs (mm_offsets m') \<and> marks_ok secs (mm_offsets m') off ns \<and>
            (\<forall>i. i \<notin> set (marks secs) \<longrightarrow> mm_offsets m' ! i = mm_offsets m ! i) \<and>
            (off = off0 \<and> ns = ns0 \<and> c \<longrightarrow> c'))"
  using assms
proof (induction secs arbitrary: i off0 off m c ns0)
  case Nil
  then show ?case by (auto simp: sizes_below_def marks_ok_def)
next
  case (Cons sec secs)
  from Cons.prems(3) obtain n0 ns1 where ns0: "ns0 = n0 # ns1" "n0 \<le> sec_sz sec (mm_offsets m)"
    "sizes_below ns1 secs (mm_offsets m)"
    by (auto simp: sizes_below_def list_all2_Cons2)
  have fine: "sec_fine (length (mm_offsets m)) sec" using Cons.prems(1) by simp
  define m1 where "m1 = (case sec of Mark k \<Rightarrow> m\<lparr>mm_offsets := (mm_offsets m)[k := off]\<rparr> | _ \<Rightarrow> m)"
  define c1 where "c1 = (case sec of Mark k \<Rightarrow> (if mm_offsets m ! k \<noteq> off then False else c) | _ \<Rightarrow> c)"
  have here: "\<forall>k. sec = Mark k \<longrightarrow> k < length (mm_offsets m) \<and> mm_offsets m ! k = off0"
    and later: "marks_ok secs (mm_offsets m) (off0 + n0) ns1"
    using Cons.prems(4) by (simp_all add: ns0 marks_ok_Cons)
  have step: "(case sec of
        Mark k \<Rightarrow> do {
          prev \<leftarrow> slice_get (mm_offsets m) k;
          if prev \<noteq> off then map_option (\<lambda>m. (m, False)) (mm_set k off m)
          else Some (m, c)
        }
      | _ \<Rightarrow> Some (m, c)) = Some (m1, c1)"
    using here by (auto simp: m1_def c1_def mm_set_def split: asm_section.split)
  have le1: "offs_le (mm_offsets m) (mm_offsets m1)"
    using here Cons.prems(5) by (auto simp: m1_def offs_le_update split: asm_section.split)
  have other: "mm_offsets m1 ! j = mm_offsets m ! j" if "j \<notin> set (mark_of sec)" for j
    using that by (auto simp: m1_def split: asm_section.splits)
  note len1 = offs_le_length [OF le1]
  have fine1: "\<forall>s\<in>set secs. sec_fine (length (mm_offsets m1)) s" "sec_fine (length (mm_offsets m1)) sec"
    using Cons.prems(1) by (simp_all add: len1)
  let ?n = "sec_sz sec (mm_offsets m1)"
  have n0n: "n0 \<le> ?n" using ns0(2) sec_sz_mono [OF fine le1] by simp
  from sec_compiled_size_fine [OF fine1(2)] show ?case
  proof
    assume "sec_compiled_size sec (mm_offsets m1) = Some None"
    with step show ?thesis by simp
  next
    assume size: "sec_compiled_size sec (mm_offsets m1) = Some (Some ?n)"
    have max: "off + ?n + sum_list (map sec_max secs) < 2 ^ 32"
      using Cons.prems(6) sec_sz_bounds [of sec "mm_offsets m1"] by simp
    then have run: "converge_pass (sec # secs) i off m c = converge_pass secs (i + 1) (off + ?n) m1 c1"
      using step size by simp
    have dist: "distinct (marks secs)" "set (mark_of sec) \<inter> set (marks secs) = {}"
      using Cons.prems(2) by simp_all
    have "mm_offsets m1 ! k = mm_offsets m ! k" if "j < length secs" "secs ! j = Mark k" for j k
      using other dist(2) mark_in_marks [OF that] by blast
    then have later1: "marks_ok secs (mm_offsets m1) (off0 + n0) ns1"
      using later by (auto simp: marks_ok_def len1)
    have below1: "sizes_below ns1 secs (mm_offsets m1)"
      using sizes_below_mono [OF ns0(3) le1] Cons.prems(1) by simp
    have "off0 + n0 \<le> off + ?n" using n0n Cons.prems(5) by simp
    from Cons.IH [OF fine1(1) dist(1) below1 later1 this max, of "i + 1" c1]
    consider (failed) e where "converge_pass secs (i + 1) (off + ?n) m1 c1 = Some (AsmFailed e)"
      | (passed) c' m' ns where "converge_pass secs (i + 1) (off + ?n) m1 c1 = Some (Assembled (c', m'))"
          "offs_le (mm_offsets m1) (mm_offsets m')" "list_all2 (\<le>) ns1 ns"
          "sizes_below ns secs (mm_offsets m')" "marks_ok secs (mm_offsets m') (off + ?n) ns"
          "\<forall>i. i \<notin> set (marks secs) \<longrightarrow> mm_offsets m' ! i = mm_offsets m1 ! i"
          "off + ?n = off0 + n0 \<and> ns = ns1 \<and> c1 \<longrightarrow> c'"
      by blast
    then show ?thesis
    proof cases
      case failed
      with run show ?thesis by auto
    next
      case passed
      have le: "offs_le (mm_offsets m) (mm_offsets m')" using le1 passed(2) by (rule offs_le_trans)
      have "sizes_below (?n # ns) (sec # secs) (mm_offsets m')"
        using passed(4) sec_sz_mono [OF fine1(2) passed(2)] by (simp add: sizes_below_def)
      moreover have "marks_ok (sec # secs) (mm_offsets m') off (?n # ns)"
      proof -
        have "k < length (mm_offsets m') \<and> mm_offsets m' ! k = off" if sec: "sec = Mark k" for k
        proof -
          have k: "k < length (mm_offsets m)" "k \<notin> set (marks secs)" using here sec dist(2) by auto
          then have "mm_offsets m' ! k = mm_offsets m1 ! k" using passed(6) by blast
          with k sec offs_le_length [OF le] show ?thesis by (simp add: m1_def)
        qed
        with passed(5) show ?thesis by (simp add: marks_ok_Cons)
      qed
      moreover have "\<forall>i. i \<notin> set (marks (sec # secs)) \<longrightarrow> mm_offsets m' ! i = mm_offsets m ! i"
        using passed(6) other by auto
      moreover have "off = off0 \<and> ?n # ns = ns0 \<and> c \<longrightarrow> c'"
        using passed(7) here by (auto simp: ns0 c1_def split: asm_section.split)
      moreover have "list_all2 (\<le>) ns0 (?n # ns)" using passed(3) n0n by (simp add: ns0)
      moreover have "converge_pass (sec # secs) i off m c = Some (Assembled (c', m'))"
        using run passed(1) by simp
      ultimately show ?thesis using le by - (intro disjI2 exI conjI, assumption+)
    qed
  qed
qed

lemma list_all2_le_sum: "list_all2 (\<le>) xs ys \<Longrightarrow> sum_list xs \<le> sum_list (ys :: nat list)"
  by (induction rule: list_all2_induct) auto

lemma list_all2_le_eq: "list_all2 (\<le>) xs ys \<Longrightarrow> sum_list ys \<le> sum_list (xs :: nat list) \<Longrightarrow> ys = xs"
proof (induction rule: list_all2_induct)
  case (Cons x xs y ys)
  then show ?case using list_all2_le_sum [OF Cons.hyps(2)] by simp
qed simp

lemma sizes_below_max: "sizes_below ns secs offs \<Longrightarrow> sum_list ns \<le> sum_list (map sec_max secs)"
  unfolding sizes_below_def
proof (induction rule: list_all2_induct)
  case (Cons n ns sec secs)
  then show ?case using sec_sz_bounds [of sec offs] by simp
qed simp

lemma converge_iters_returns:
  assumes "\<forall>sec\<in>set secs. sec_fine (length (mm_offsets m)) sec" "distinct (marks secs)"
    and "sizes_below ns0 secs (mm_offsets m)" "marks_ok secs (mm_offsets m) 0 ns0"
    and "sum_list (map sec_max secs) < 2 ^ 32"
    and "sum_list (map sec_max secs) < sum_list ns0 + n"
  shows "\<exists>r. converge_iters n secs m = Some r"
  using assms
proof (induction n arbitrary: m ns0)
  case 0
  then show ?case using sizes_below_max [OF 0(3)] by simp
next
  case (Suc n)
  from converge_pass_grows [OF Suc.prems(1-4) order_refl, of 0 True] Suc.prems(5)
  consider (failed) e where "converge_pass secs 0 0 m True = Some (AsmFailed e)"
    | (passed) c' m' ns where "converge_pass secs 0 0 m True = Some (Assembled (c', m'))"
        "offs_le (mm_offsets m) (mm_offsets m')" "list_all2 (\<le>) ns0 ns"
        "sizes_below ns secs (mm_offsets m')" "marks_ok secs (mm_offsets m') 0 ns" "ns = ns0 \<longrightarrow> c'"
    by auto
  then show ?case
  proof cases
    case failed
    then show ?thesis by simp
  next
    case passed
    show ?thesis
    proof (cases c')
      case True
      with passed(1) show ?thesis by simp
    next
      case False
      then have "ns \<noteq> ns0" using passed(6) by blast
      then have "sum_list ns0 < sum_list ns"
        using list_all2_le_eq [OF passed(3)] by (meson not_le)
      moreover have "\<forall>sec\<in>set secs. sec_fine (length (mm_offsets m')) sec"
        using Suc.prems(1) offs_le_length [OF passed(2)] by simp
      ultimately have "\<exists>r. converge_iters n secs m' = Some r"
        using Suc.IH [OF _ Suc.prems(2) passed(4,5) Suc.prems(5)] Suc.prems(6) by simp
      with passed(1) False show ?thesis by simp
    qed
  qed
qed


text \<open>The first loop gives every mark the smallest offset it can have.\<close>

lemma init_marks_spec:
  assumes grow: "vec_growth grow"
    and "\<forall>sec\<in>set secs. sec_min_compiled_size sec = Some (sec_min sec)" "distinct (marks secs)"
    and "n + sum_list (map sec_min secs) < 2 ^ 32" "length (mm_offsets m) \<le> mm_capacity m"
  shows "\<exists>m'. fold_opt (init_mark grow) secs (n, m) = Some (n + sum_list (map sec_min secs), m') \<and>
           length (mm_offsets m) \<le> length (mm_offsets m') \<and> marks_ok secs (mm_offsets m') n (map sec_min secs) \<and>
           (\<forall>i<length (mm_offsets m). i \<notin> set (marks secs) \<longrightarrow> mm_offsets m' ! i = mm_offsets m ! i)"
  using assms(2-)
proof (induction secs arbitrary: n m)
  case Nil
  then show ?case by (auto simp: marks_ok_def)
next
  case (Cons sec secs)
  have "\<exists>m1. init_mark grow sec (n, m) = Some (n + sec_min sec, m1) \<and>
          length (mm_offsets m) \<le> length (mm_offsets m1) \<and> length (mm_offsets m1) \<le> mm_capacity m1 \<and>
          (\<forall>k. sec = Mark k \<longrightarrow> k < length (mm_offsets m1) \<and> mm_offsets m1 ! k = n) \<and>
          (\<forall>i<length (mm_offsets m). i \<notin> set (mark_of sec) \<longrightarrow> mm_offsets m1 ! i = mm_offsets m ! i)"
  proof (cases "\<exists>k. sec = Mark k")
    case True
    then obtain k where k: "sec = Mark k" by blast
    define cap where "cap = vec_reserve grow (mm_capacity m) (length (mm_offsets m)) (k + 1 - length (mm_offsets m))"
    have cap: "length (mm_offsets m) \<le> cap" "k < cap"
      using vec_growth.vec_reserve_enough [OF grow, of "length (mm_offsets m)"
          "k + 1 - length (mm_offsets m)" "mm_capacity m"]
      by (auto simp: cap_def)
    let ?m1 = "m\<lparr>mm_capacity := cap,
      mm_offsets := (mm_offsets m @ replicate (cap - length (mm_offsets m)) 0)[k := n]\<rparr>"
    have "init_mark grow sec (n, m) = Some (n + sec_min sec, ?m1)"
      using Cons.prems(1,3) cap
      by (simp add: k init_mark_def cap_def [symmetric] Let_def mm_set_def mm_resize_def del: One_nat_def)
    with cap k show ?thesis by (auto simp: nth_append nth_list_update)
  next
    case False
    then have "mark_of sec = []" by (cases sec) simp_all
    have "init_mark grow sec (n, m) = Some (n + sec_min sec, m)"
      using False Cons.prems(1,3) by (simp add: init_mark_def split: asm_section.split)
    with False Cons.prems(4) show ?thesis by blast
  qed
  then obtain m1 where m1: "init_mark grow sec (n, m) = Some (n + sec_min sec, m1)"
    "length (mm_offsets m) \<le> length (mm_offsets m1)" "length (mm_offsets m1) \<le> mm_capacity m1"
    "\<forall>k. sec = Mark k \<longrightarrow> k < length (mm_offsets m1) \<and> mm_offsets m1 ! k = n"
    "\<forall>i<length (mm_offsets m). i \<notin> set (mark_of sec) \<longrightarrow> mm_offsets m1 ! i = mm_offsets m ! i"
    by blast
  from Cons.IH [of "n + sec_min sec" m1] Cons.prems m1(3) obtain m' where
    m': "fold_opt (init_mark grow) secs (n + sec_min sec, m1) = Some (n + sec_min sec + sum_list (map sec_min secs), m')"
    "length (mm_offsets m1) \<le> length (mm_offsets m')"
    "marks_ok secs (mm_offsets m') (n + sec_min sec) (map sec_min secs)"
    "\<forall>i<length (mm_offsets m1). i \<notin> set (marks secs) \<longrightarrow> mm_offsets m' ! i = mm_offsets m1 ! i"
    by (auto simp: add.assoc)
  have "k < length (mm_offsets m') \<and> mm_offsets m' ! k = n" if "sec = Mark k" for k
    using m1(4) m'(2,4) that Cons.prems(2) by auto
  with m' m1 show ?case by (simp add: marks_ok_Cons add.assoc)
qed

text \<open>The references that \<open>converge_iters_returns\<close> allows, and how many of them have no fixed size.\<close>

definition sec_direct :: "nat set \<Rightarrow> asm_section \<Rightarrow> bool" where
  "sec_direct defined sec = (case sec of
     Mark _ \<Rightarrow> True
   | Ops s \<Rightarrow> fst s \<le> snd s
   | Data s \<Rightarrow> fst s \<le> snd s
   | MarkRef r \<Rightarrow> (case ar_mark_ref r of Direct i \<Rightarrow> i \<in> defined | Delta _ \<Rightarrow> False))"

definition secs_direct :: "asm_section list \<Rightarrow> bool" where
  "secs_direct secs \<longleftrightarrow> distinct (marks secs) \<and> (\<forall>sec\<in>set secs. sec_direct (set (marks secs)) sec)"

fun is_unsized_ref :: "asm_section \<Rightarrow> bool" where
  "is_unsized_ref (MarkRef r) = (ar_set_size r = None)"
| "is_unsized_ref _ = False"

lemma sec_max_min: "sec_max sec = sec_min sec + (if is_unsized_ref sec then 4 else 0)"
  by (cases sec) (simp_all add: sec_max_def sec_min_def)

lemma sum_max_min:
  "sum_list (map sec_max secs) = sum_list (map sec_min secs) + 4 * length (filter is_unsized_ref secs)"
  by (induction secs) (simp_all add: sec_max_min)

lemma converge_mark_offsets_returns:
  assumes grow: "vec_growth grow" and direct: "secs_direct secs"
    and few: "length (filter is_unsized_ref secs) \<le> 255"
    and small: "sum_list (map sec_max secs) < 2 ^ 32"
  shows "\<exists>r. converge_mark_offsets grow secs (mm_new grow k) = Some r"
proof -
  have mins: "\<forall>sec\<in>set secs. sec_min_compiled_size sec = Some (sec_min sec)"
  proof
    fix sec assume "sec \<in> set secs"
    with direct have "sec_direct (set (marks secs)) sec" by (simp add: secs_direct_def)
    then show "sec_min_compiled_size sec = Some (sec_min sec)"
      by (cases sec) (auto simp: sec_direct_def sec_min_compiled_size_def sec_min_def sec_sz_def ref_sz_def
          idx_sub_def split: option.splits)
  qed
  have cap: "length (mm_offsets (mm_new grow k)) \<le> mm_capacity (mm_new grow k)"
    using vec_growth.vec_reserve_enough [OF grow, of 0 k 0] by (simp add: mm_new_def)
  have dist: "distinct (marks secs)" using direct by (simp add: secs_direct_def)
  have "0 + sum_list (map sec_min secs) < 2 ^ 32" using small by (simp add: sum_max_min)
  from init_marks_spec [OF grow mins dist this cap] obtain m where
    m: "fold_opt (init_mark grow) secs (0, mm_new grow k) = Some (sum_list (map sec_min secs), m)"
    "marks_ok secs (mm_offsets m) 0 (map sec_min secs)" by auto
  have inside: "i < length (mm_offsets m)" if i: "i \<in> set (marks secs)" for i
  proof -
    from i obtain sec where sec: "sec \<in> set secs" "i \<in> set (mark_of sec)" by (auto simp: marks_def)
    have "sec = Mark i" using sec(2) by (cases sec) simp_all
    with sec(1) obtain j where "j < length secs" "secs ! j = Mark i" by (metis in_set_conv_nth)
    with m(2) show ?thesis by (simp add: marks_ok_def)
  qed
  have "\<forall>sec\<in>set secs. sec_fine (length (mm_offsets m)) sec"
  proof
    fix sec assume sec: "sec \<in> set secs"
    have "i < length (mm_offsets m)" if "sec = Mark i" for i
      using inside [of i] sec that by (force simp: marks_def)
    moreover have "sec_direct (set (marks secs)) sec" using direct sec by (simp add: secs_direct_def)
    ultimately show "sec_fine (length (mm_offsets m)) sec"
      using inside by (cases sec) (auto simp: sec_direct_def sec_fine_def split: mark_reference.splits)
  qed
  moreover have "sizes_below (map sec_min secs) secs (mm_offsets m)"
    using sec_sz_bounds by (simp add: sizes_below_def list_all2_conv_all_nth)
  moreover have "sum_list (map sec_max secs) < sum_list (map sec_min secs) + max_convergence_iters"
    using few by (simp add: sum_max_min max_convergence_iters_def)
  ultimately have "\<exists>r. converge_iters max_convergence_iters secs m = Some r"
    using converge_iters_returns dist m(2) small by blast
  with m(1) show ?thesis by (simp add: converge_mark_offsets_def)
qed


lemma asm_inv_span:
  "asm_inv a \<Longrightarrow> sec \<in> set (asm_iter_sections a) \<Longrightarrow> sec_span sec = Some s \<Longrightarrow>
     fst s \<le> snd s \<and> snd s \<le> length (asm_bytes a)"
  unfolding asm_inv_def by blast

lemma emit_section_returns:
  assumes inv: "asm_inv a" and sec: "sec \<in> set (asm_iter_sections a)"
    and size: "sec_compiled_size sec offs = Some (Some n)"
    and direct: "\<And>r. sec = MarkRef r \<Longrightarrow> \<exists>i. ar_mark_ref r = Direct i"
  shows "\<exists>bs. emit_section (asm_bytes a) offs sec = Some bs"
proof (cases sec)
  case (MarkRef r)
  with direct obtain i where i: "ar_mark_ref r = Direct i" by blast
  with size MarkRef obtain v where v: "slice_get offs i = Some v" "ref_compiled_size r v = Some n"
    by (auto simp: sec_compiled_size_def ref_value_def)
  have fits: "case ar_set_size r of None \<Rightarrow> True | Some z \<Rightarrow> z \<ge> bytes_to_hold v"
    using v(2) by (cases "ar_set_size r") (auto simp: ref_compiled_size_def Let_def not_less split: if_splits)
  show ?thesis
    unfolding MarkRef emit_section_def emit_ref_def by (simp add: i v(1) fits Let_def)
next
  case (Ops s)
  then have "sec_span sec = Some s" by simp
  note asm_inv_span [OF inv sec this]
  with Ops show ?thesis by (simp add: emit_section_def)
next
  case (Data s)
  then have "sec_span sec = Some s" by simp
  note asm_inv_span [OF inv sec this]
  with Data show ?thesis by (simp add: emit_section_def)
qed (simp add: emit_section_def)

lemma fold_emit_returns:
  "\<forall>sec\<in>set secs. \<exists>bs. emit_section bytes offs sec = Some bs \<Longrightarrow>
     \<exists>out'. fold_opt (\<lambda>sec out. map_option (\<lambda>bs. out @ bs) (emit_section bytes offs sec)) secs out = Some out'"
  by (induction secs arbitrary: out) fastforce+

lemma asm_assemble_returns:
  assumes grow: "vec_growth grow" and inv: "asm_inv a" and direct: "secs_direct (asm_iter_sections a)"
    and few: "length (filter is_unsized_ref (asm_iter_sections a)) \<le> 255"
    and small: "sum_list (map sec_max (asm_iter_sections a)) < 2 ^ 32"
  shows "\<exists>r. asm_assemble grow a hint out = Some r"
proof -
  let ?secs = "asm_iter_sections a"
  let ?m = "mm_new grow (case hint of None \<Rightarrow> assumed_mark_count | Some n \<Rightarrow> n)"
  from converge_mark_offsets_returns [OF grow direct few small] obtain r where
    r: "converge_mark_offsets grow ?secs ?m = Some r" by blast
  show ?thesis
  proof (cases r)
    case (AsmFailed e)
    with r show ?thesis by (simp add: asm_assemble_def Let_def)
  next
    case (Assembled m)
    with r obtain m0 m1 where "converge_iters max_convergence_iters ?secs m1 = Some (Assembled m)"
      unfolding converge_mark_offsets_def by (auto simp only: bind_eq_Some_conv split: prod.splits)
    from converge_iters_fixed [OF this] obtain ns where "sizes_ok ?secs (mm_offsets m) ns" by blast
    then have size: "\<exists>n. sec_compiled_size sec (mm_offsets m) = Some (Some n)" if "sec \<in> set ?secs" for sec
      using that unfolding sizes_ok_def list_all2_conv_all_nth in_set_conv_nth by blast
    have "\<exists>i. ar_mark_ref r = Direct i" if "MarkRef r \<in> set ?secs" for r
    proof -
      have "sec_direct (set (marks ?secs)) (MarkRef r)" using direct that by (simp add: secs_direct_def)
      then show ?thesis by (cases "ar_mark_ref r") (simp_all add: sec_direct_def)
    qed
    then have "\<forall>sec\<in>set ?secs. \<exists>bs. emit_section (asm_bytes a) (mm_offsets m) sec = Some bs"
      using size emit_section_returns [OF inv] by blast
    from fold_emit_returns [OF this] obtain out' where "fold_opt (\<lambda>sec out. map_option (\<lambda>bs. out @ bs)
        (emit_section (asm_bytes a) (mm_offsets m) sec)) ?secs out = Some out'" by blast
    with r Assembled show ?thesis by (simp add: asm_assemble_def Let_def)
  qed
qed

lemma converge_iters_numeral:
  "converge_iters (numeral k) secs m = do {
     r \<leftarrow> converge_pass secs 0 0 m True;
     (case r of
        AsmFailed e \<Rightarrow> Some (AsmFailed e)
      | Assembled (converged, m) \<Rightarrow>
          if converged then Some (Assembled m) else converge_iters (pred_numeral k) secs m)
   }"
  by (simp add: numeral_eq_Suc)

text \<open>
  What the chunk \<open>c\<close> of a section must be, at position \<open>pos\<close> of the code and for the final offsets.
\<close>

fun section_emitted :: "u8 list \<Rightarrow> nat list \<Rightarrow> nat \<Rightarrow> asm_section \<Rightarrow> u8 list \<Rightarrow> bool" where
  "section_emitted bytes offs pos (Mark k) c = (c = [] \<and> k < length offs \<and> offs ! k = pos)"
| "section_emitted bytes offs pos (Ops s) c = (slice_range bytes (fst s) (snd s) = Some c)"
| "section_emitted bytes offs pos (Data s) c = (slice_range bytes (fst s) (snd s) = Some c)"
| "section_emitted bytes offs pos (MarkRef r) c = (case ref_value (ar_mark_ref r) offs of
     None \<Rightarrow> False
   | Some v \<Rightarrow> (if ar_pushed r then push_of v c else be_value c = v) \<and>
       (ar_set_size r = None \<longrightarrow> (\<forall>k. v < 256 ^ k \<longrightarrow> length c \<le> (if ar_pushed r then k + 1 else max k 1))))"

lemma emit_section_right:
  assumes "emit_section bytes offs sec = Some c" "offs_u32 offs" "\<And>k. sec = Mark k \<Longrightarrow> k < length offs \<and> offs ! k = pos"
  shows "section_emitted bytes offs pos sec c"
proof (cases sec)
  case (MarkRef r)
  with assms(1) have "emit_ref r offs = Some c" by (simp add: emit_section_def)
  obtain v where v: "ref_value (ar_mark_ref r) offs = Some v"
    "if ar_pushed r then push_of v c else be_value c = v"
    "ar_set_size r = None \<Longrightarrow> \<forall>k. v < 256 ^ k \<longrightarrow> length c \<le> (if ar_pushed r then k + 1 else max k 1)"
    by (rule emit_ref_value [OF \<open>emit_ref r offs = Some c\<close> assms(2)]) (rule that)
  show ?thesis unfolding MarkRef section_emitted.simps v(1) option.case by (intro conjI impI v(2) v(3))
qed (use assms in \<open>auto simp: emit_section_def\<close>)

subsection \<open>Properties\<close>

text \<open>
  C4: the assembled code is right once the offsets have converged. When
  \<open>assemble\<close> returns code, it is the output so far followed by one chunk for each section in order,
  every mark's offset is the position of its section in the code, operation and data sections are
  copied, and a reference decodes to the offset (or the difference of offsets) it refers to: as the
  immediate of a push with that many bytes, or raw in big-endian order,
  in no more bytes than the value needs unless a size was set.
\<close>

theorem assembled_code_correct:
  assumes run: "asm_assemble grow a hint out = Some (Assembled (code, offs))"
  shows "\<exists>cs. length cs = length (asm_iter_sections a) \<and> code = out @ concat cs \<and>
    (\<forall>j<length cs. section_emitted (asm_bytes a) offs (length (concat (take j cs))) (asm_iter_sections a ! j) (cs ! j))"
proof -
  from asm_assemble_result [OF run] obtain cs where cs: "chunks_ok (asm_bytes a) offs (asm_iter_sections a) cs"
    "code = out @ concat cs"
    "\<And>j k. j < length cs \<Longrightarrow> asm_iter_sections a ! j = Mark k \<Longrightarrow>
       k < length offs \<and> offs ! k = length (concat (take j cs))" by blast
  have "section_emitted (asm_bytes a) offs (length (concat (take j cs))) (asm_iter_sections a ! j) (cs ! j)"
    if j: "j < length cs" for j
  proof (rule emit_section_right [OF _ asm_assemble_u32 [OF run] cs(3) [OF j]])
    show "emit_section (asm_bytes a) offs (asm_iter_sections a ! j) = Some (cs ! j)"
      using cs(1) j by (auto simp: chunks_ok_def list_all2_conv_all_nth)
  qed
  moreover have "length cs = length (asm_iter_sections a)"
    using cs(1) by (simp add: chunks_ok_def list_all2_conv_all_nth)
  ultimately show ?thesis using cs(2) by blast
qed

text \<open>A push of the position of a jump destination, then the destination.\<close>

definition jump_asm :: assembler where
  "jump_asm = \<lparr>asm_bytes = [op_JUMPDEST],
     asm_sections = [StDirectMarkRef \<lparr>dm_id = 0, dm_set_size = None, dm_pushed = True\<rparr>, StMark 0, StOps (0, 1)]\<rparr>"

lemma jump_asm_code: "asm_assemble doubling jump_asm (Some 1) [] = Some (Assembled ([op_PUSH1, 2, op_JUMPDEST], [2, 0, 0, 0]))"
  by (simp add: asm_assemble_def jump_asm_def asm_iter_sections_def mm_new_def vec_reserve_def doubling_def
      converge_mark_offsets_def init_mark_def mm_resize_def mm_set_def sec_min_compiled_size_def
      max_convergence_iters_def converge_iters_numeral sec_compiled_size_def ref_value_def ref_compiled_size_def
      bytes_to_hold_def emit_section_def emit_ref_def emit_value_def checked_add_u32_def idx_sub_def slice_set_def numeral_3_eq_3)

theorem assembled_code_correct_witness:
  "asm_assemble doubling jump_asm (Some 1) [] = Some (Assembled ([op_PUSH1, 2, op_JUMPDEST], [2, 0, 0, 0])) \<and>
   (\<exists>cs. [op_PUSH1, 2, op_JUMPDEST] = concat cs \<and> length cs = 3 \<and> push_of 2 (cs ! 0))"
proof -
  from assembled_code_correct [OF jump_asm_code] obtain cs where cs: "length cs = 3"
    "[op_PUSH1, 2, op_JUMPDEST] = concat cs" "push_of 2 (cs ! 0)"
    by (force simp: jump_asm_def asm_iter_sections_def ref_value_def All_less_Suc2 numeral_3_eq_3)
  with jump_asm_code show ?thesis by blast
qed

text \<open>
  C23: assembling terminates and does not panic. When every referenced mark is
  pushed once, the references are direct, at most 255 of them have no set size and the code stays
  below \<open>2 ^ 32\<close> bytes even with every reference at its largest, the fixed point is reached within
  the 1024 iterations the code allows.
\<close>

theorem assembler_returns:
  assumes "\<forall>c n. n \<le> grow c n" and "asm_inv a" and "secs_direct (asm_iter_sections a)"
    and "length (filter is_unsized_ref (asm_iter_sections a)) \<le> 255"
    and "sum_list (map sec_max (asm_iter_sections a)) < 2 ^ 32"
  shows "\<exists>r. asm_assemble grow a hint out = Some r"
proof (rule asm_assemble_returns [OF _ assms(2-)])
  show "vec_growth grow" by unfold_locales (use assms(1) in blast)
qed

theorem assembler_returns_witness: "\<exists>r. asm_assemble doubling jump_asm None [] = Some r"
proof (rule assembler_returns)
  show "\<forall>c n. n \<le> doubling c n" by (simp add: doubling_growth.grow_enough)
qed (simp_all add: jump_asm_def asm_inv_def asm_iter_sections_def secs_direct_def sec_max_def sec_direct_def sec_sz_def ref_sz_def idx_limit_def)

text \<open>
  The section encoding refines plain content. Pushing an opcode, data, a
  reference or a mark never panics while the bytes stay below the index limit, keeps every span
  inside the bytes, and extends the content by exactly what was pushed: bytes join the last section
  when it is of their kind and open a new one otherwise.
\<close>

theorem assembler_content:
  assumes "asm_inv a" and "length (asm_bytes a) + length bs + 1 < idx_limit"
  shows "(\<exists>a'. asm_push_op_byte b a = Some a' \<and> asm_inv a' \<and> asm_items a' = add_ops [b] (asm_items a)) \<and>
         (\<exists>a'. asm_push_data bs a = Some a' \<and> asm_inv a' \<and> asm_items a' = add_data bs (asm_items a)) \<and>
         asm_inv (asm_push_reference r a) \<and> asm_items (asm_push_reference r a) = asm_items a @ [IRef r] \<and>
         asm_inv (asm_push_mark i a) \<and> asm_items (asm_push_mark i a) = asm_items a @ [IMark i]"
  using asm_push_op_byte_spec [OF assms(1), of b] asm_push_data_spec [OF assms(1), of bs]
    asm_push_reference_spec [OF assms(1), of r] asm_push_mark_spec [OF assms(1), of i] assms(2)
  by auto

theorem assembler_content_witness:
  "\<exists>a. asm_push_data [1, 2] asm_empty = Some a \<and> asm_items a = [IData [1, 2]]"
proof -
  have "asm_inv asm_empty" "asm_items asm_empty = []"
    by (simp_all add: asm_inv_def asm_empty_def asm_iter_sections_def asm_items_def idx_limit_def)
  with assembler_content [of asm_empty "[1, 2]" 0 undefined 0] show ?thesis
    by (auto simp: add_data_def asm_empty_def idx_limit_def)
qed

text \<open>
  C27: pushing a constant emits one push instruction whose immediate is
  the constant in big-endian order, and no shorter one holds it: \<open>PUSH0\<close> for zero, and otherwise
  the number of bytes of the value, for every 256-bit value.
\<close>

theorem constants_pushed_minimally:
  assumes "u256_law L" and "asm_inv a" and "length (asm_bytes a) + 33 < idx_limit"
  shows "\<exists>a' bs. asm_push_minimal_u256 L v a = Some a' \<and> asm_inv a' \<and>
           asm_items a' = add_ops bs (asm_items a) \<and> push_of (unat v) bs \<and>
           (\<forall>k. unat v < 256 ^ k \<longrightarrow> length bs \<le> k + 1)"
  using assms by (rule asm_push_minimal_u256_spec)

theorem constants_pushed_minimally_witness:
  "\<exists>a' bs. asm_push_minimal_u256 u256_ref 0x1234 asm_empty = Some a' \<and> asm_items a' = [IOps bs] \<and>
     push_of 0x1234 bs \<and> length bs \<le> 3"
proof -
  have "asm_inv asm_empty" "asm_items asm_empty = []" "length (asm_bytes asm_empty) + 33 < idx_limit"
    by (simp_all add: asm_inv_def asm_empty_def asm_iter_sections_def asm_items_def idx_limit_def)
  with constants_pushed_minimally [OF u256_ref_law, of asm_empty "0x1234"] show ?thesis
    by (force simp: add_ops_def dest: spec [where x = 2])
qed

end
