(* ===== verification/Index_Tables.thy ===== *)
theory Index_Tables
  imports Prelude
begin

text \<open>
  The other index-keyed containers of \<open>plankc/crates/plank-core/src\<close>: \<open>DenseIndexMap\<close>
  (\<open>dense_index_map.rs\<close>, a vector of optional values that grows on insertion), \<open>IndexVec::push\<close>
  (\<open>index_vec/mod.rs\<close>), \<open>ListOfLists\<close> (\<open>list_of_lists.rs\<close>, all the lists in one vector with the
  start of each) and \<open>BytesInterner\<close> (\<open>intern.rs\<close>, built on \<open>ListOfLists\<close> and on hashbrown's
  \<open>HashTable\<close>, which is a parameter here).
\<close>

subsection \<open>Dense index maps\<close>

type_synonym 'v dense_map = "'v option list"

definition dim_new :: "'v dense_map" where
  "dim_new = []"

definition dim_get :: "'v dense_map \<Rightarrow> nat \<Rightarrow> 'v option" where
  "dim_get m key = (case slice_get m key of None \<Rightarrow> None | Some slot \<Rightarrow> slot)"

definition dim_contains :: "'v dense_map \<Rightarrow> nat \<Rightarrow> bool" where
  "dim_contains m key = (dim_get m key \<noteq> None)"

definition dim_ensure_size :: "'v dense_map \<Rightarrow> nat \<Rightarrow> 'v dense_map" where
  "dim_ensure_size m key =
     (if length m \<le> key then m @ replicate (key + 1 - length m) None else m)"

definition dim_insert :: "'v dense_map \<Rightarrow> nat \<Rightarrow> 'v \<Rightarrow> ('v option \<times> 'v dense_map) option" where
  "dim_insert m key value =
     (let m = dim_ensure_size m key
      in do {
           prev \<leftarrow> slice_get m key;
           m' \<leftarrow> slice_set m key (Some value);
           Some (prev, m')
         })"

definition dim_insert_no_prev :: "'v dense_map \<Rightarrow> nat \<Rightarrow> 'v \<Rightarrow> 'v dense_map option" where
  "dim_insert_no_prev m key value = do {
     (prev, m') \<leftarrow> dim_insert m key value;
     rust_assert (prev = None);
     Some m'
   }"

definition dim_get_or_insert_with ::
    "'v dense_map \<Rightarrow> nat \<Rightarrow> (unit \<Rightarrow> 'v) \<Rightarrow> ('v \<times> 'v dense_map) option" where
  "dim_get_or_insert_with m key mk =
     (let m = dim_ensure_size m key
      in do {
           slot \<leftarrow> slice_get m key;
           (case slot of
              Some value \<Rightarrow> Some (value, m)
            | None \<Rightarrow> do {
                m' \<leftarrow> slice_set m key (Some (mk ()));
                Some (mk (), m')
              })
         })"

definition dim_remove :: "'v dense_map \<Rightarrow> nat \<Rightarrow> ('v option \<times> 'v dense_map) option" where
  "dim_remove m key =
     (if length m \<le> key then Some (None, m)
      else do {
        entry \<leftarrow> slice_get m key;
        m' \<leftarrow> slice_set m key None;
        Some (entry, m')
      })"

definition dim_iter :: "'v dense_map \<Rightarrow> (nat \<times> 'v) list" where
  "dim_iter m = List.map_filter (\<lambda>(i, slot). map_option (Pair i) slot) (enumerate 0 m)"

lemma dim_get_ensure_size [simp]: "dim_get (dim_ensure_size m key) k = dim_get m k"
  by (auto simp: dim_get_def dim_ensure_size_def slice_get_def nth_append)

lemma length_dim_ensure_size [simp]: "length (dim_ensure_size m key) = max (length m) (Suc key)"
  by (auto simp: dim_ensure_size_def)

lemma dim_get_update:
  "key < length m \<Longrightarrow> dim_get (m[key := v]) = (dim_get m)(key := v)"
  by (auto simp: dim_get_def slice_get_def nth_list_update)

lemma dim_insert_spec:
  "\<exists>m'. dim_insert m key v = Some (dim_get m key, m') \<and> dim_get m' = (dim_get m)(key \<mapsto> v)"
proof -
  have "slice_get (dim_ensure_size m key) key = Some (dim_get m key)"
    by (metis dim_get_def dim_get_ensure_size length_dim_ensure_size lessI less_max_iff_disj
        option.simps(5) slice_get_def)
  then show ?thesis
    by (auto simp: dim_insert_def Let_def slice_set_def dim_get_update)
qed

lemma dim_remove_spec:
  "\<exists>m'. dim_remove m key = Some (dim_get m key, m') \<and> dim_get m' = (dim_get m)(key := None)"
proof (cases "length m \<le> key")
  case True
  then have "dim_get m key = None" by (simp add: dim_get_def slice_get_def)
  with True show ?thesis by (auto simp: dim_remove_def)
next
  case False
  then have "slice_get m key = Some (m ! key)" "m ! key = dim_get m key"
    by (simp_all add: dim_get_def slice_get_def)
  with False show ?thesis by (auto simp: dim_remove_def slice_set_def dim_get_update)
qed

lemma dim_get_or_insert_with_spec:
  "\<exists>m'. dim_get_or_insert_with m key f =
          Some (case dim_get m key of Some v \<Rightarrow> v | None \<Rightarrow> f (), m') \<and>
        dim_get m' = (case dim_get m key of Some _ \<Rightarrow> dim_get m | None \<Rightarrow> (dim_get m)(key \<mapsto> f ()))"
proof -
  have "slice_get (dim_ensure_size m key) key = Some (dim_get m key)"
    by (metis dim_get_def dim_get_ensure_size length_dim_ensure_size lessI less_max_iff_disj
        option.simps(5) slice_get_def)
  moreover have "dim_get (dim_ensure_size m key) = dim_get m" by (rule ext) simp
  ultimately show ?thesis
    by (auto simp: dim_get_or_insert_with_def Let_def slice_set_def dim_get_update
        split: option.splits)
qed

lemma dim_iter_spec: "(k, v) \<in> set (dim_iter m) \<longleftrightarrow> dim_get m k = Some v"
proof -
  have "(k, v) \<in> set (dim_iter m) \<longleftrightarrow> (k, Some v) \<in> set (enumerate 0 m)"
    by (force simp: dim_iter_def List.map_filter_def)
  then show ?thesis
    by (auto simp: dim_get_def slice_get_def in_set_enumerate_eq split: if_splits)
qed

text \<open>The interface of a map from indices, as its clients use it.\<close>

locale index_map =
  fixes lookup :: "'m \<Rightarrow> nat \<Rightarrow> 'v option"
    and put :: "'m \<Rightarrow> nat \<Rightarrow> 'v \<Rightarrow> ('v option \<times> 'm) option"
    and del :: "'m \<Rightarrow> nat \<Rightarrow> ('v option \<times> 'm) option"
  assumes insert_law: "\<exists>m'. put m k v = Some (lookup m k, m') \<and> lookup m' = (lookup m)(k \<mapsto> v)"
    and remove_law: "\<exists>m'. del m k = Some (lookup m k, m') \<and> lookup m' = (lookup m)(k := None)"
begin

fun insert_all :: "(nat \<times> 'v) list \<Rightarrow> 'm \<Rightarrow> 'm option" where
  "insert_all [] m = Some m"
| "insert_all ((k, v) # kvs) m = Option.bind (put m k v) (\<lambda>(_, m'). insert_all kvs m')"

lemma insert_all_lookup:
  "\<exists>m'. insert_all kvs m = Some m' \<and> lookup m' = lookup m ++ map_of (rev kvs)"
proof (induction kvs arbitrary: m)
  case (Cons kv kvs)
  obtain k v where kv: "kv = (k, v)" by (cases kv)
  obtain n where n: "put m k v = Some (lookup m k, n)" "lookup n = (lookup m)(k \<mapsto> v)"
    using insert_law by blast
  moreover obtain m' where "insert_all kvs n = Some m'" "lookup m' = lookup n ++ map_of (rev kvs)"
    using Cons.IH by blast
  ultimately show ?case
    by (intro exI [of _ m']) (simp add: kv map_add_def fun_eq_iff split: option.split)
qed simp

lemma insert_then_remove:
  "put m k v = Some (p, m') \<Longrightarrow> del m' k = Some (q, m'') \<Longrightarrow>
     q = Some v \<and> lookup m'' = (lookup m)(k := None)"
  using insert_law [of m k v] remove_law [of m' k] by auto

end

interpretation dense_map: index_map dim_get dim_insert dim_remove
  by unfold_locales (rule dim_insert_spec dim_remove_spec)+

subsection \<open>\<open>IndexVec::push\<close> and \<open>next_idx\<close>\<close>

definition iv_push :: "'a list \<Rightarrow> 'a \<Rightarrow> (nat \<times> 'a list) option" where
  "iv_push xs x = do {
     rust_assert (length xs < idx_limit);
     Some (length xs, xs @ [x])
   }"

definition iv_len_idx :: "'a list \<Rightarrow> nat option" where
  "iv_len_idx xs = do {
     rust_assert (length xs < idx_limit);
     Some (length xs)
   }"

subsection \<open>Properties\<close>

text \<open>
  C39: \<open>DenseIndexMap\<close> refines a finite map. \<open>insert\<close> and \<open>remove\<close> never fail, return
  the previous value and update exactly one key; \<open>get_or_insert_with\<close> returns the present value or
  stores the new one; iteration lists exactly the entries of the map.
\<close>

theorem dense_map_refines:
  "(\<exists>m'. dim_insert m k v = Some (dim_get m k, m') \<and> dim_get m' = (dim_get m)(k \<mapsto> v)) \<and>
   (\<exists>m'. dim_remove m k = Some (dim_get m k, m') \<and> dim_get m' = (dim_get m)(k := None)) \<and>
   (\<exists>m' w. dim_get_or_insert_with m k mk = Some (w, m') \<and>
      w = (case dim_get m k of Some u \<Rightarrow> u | None \<Rightarrow> mk ()) \<and> dim_get m' = (dim_get m)(k \<mapsto> w)) \<and>
   set (dim_iter m) = {(j, u). dim_get m j = Some u}"
proof -
  have "\<exists>m' w. dim_get_or_insert_with m k mk = Some (w, m') \<and>
      w = (case dim_get m k of Some u \<Rightarrow> u | None \<Rightarrow> mk ()) \<and> dim_get m' = (dim_get m)(k \<mapsto> w)"
    using dim_get_or_insert_with_spec [of m k mk]
    by (cases "dim_get m k") (auto simp: fun_upd_idem)
  moreover have "set (dim_iter m) = {(j, u). dim_get m j = Some u}"
    using dim_iter_spec [of _ _ m] by auto
  ultimately show ?thesis
    using dense_map.insert_law [of m k v] dense_map.remove_law [of m k] by blast
qed

end
