(* ===== verification/List_Stores.thy ===== *)
theory List_Stores
  imports Index_Tables
begin

text \<open>
  \<open>ListOfLists\<close> (\<open>plankc/crates/plank-core/src/list_of_lists.rs\<close>), a vector of lists kept in one
  vector of values with a vector of start positions, and \<open>BytesInterner\<close>
  (\<open>plankc/crates/plank-core/src/intern.rs\<close>), which stores every distinct byte string once in a
  \<open>ListOfLists\<close> and finds it again through a hash table. The abstraction \<open>lol_lists\<close> is the list of
  lists a \<open>ListOfLists\<close> stands for; the locale \<open>list_store\<close> is what its clients rely on.
\<close>

record 'a list_of_lists =
  lol_starts :: "nat list"
  lol_values :: "'a list"

definition lol_new :: "'a list_of_lists" where
  "lol_new = \<lparr>lol_starts = [], lol_values = []\<rparr>"

text \<open>\<open>Idx::checked_add(index, 1)\<close> works on the raw \<open>NonZero<u32>\<close>, the index plus one.\<close>

definition idx_checked_add :: "nat \<Rightarrow> nat \<Rightarrow> nat option" where
  "idx_checked_add i b = (if i + 1 + b < 2 ^ 32 then Some (i + b) else None)"

definition lol_values_end :: "'a list_of_lists \<Rightarrow> nat \<Rightarrow> nat" where
  "lol_values_end l index =
     (case Option.bind (idx_checked_add index 1) (slice_get (lol_starts l)) of
        Some stop \<Rightarrow> stop
      | None \<Rightarrow> length (lol_values l))"

definition lol_is_empty :: "'a list_of_lists \<Rightarrow> bool" where
  "lol_is_empty l = (length (lol_starts l) = 0)"

definition lol_len :: "'a list_of_lists \<Rightarrow> nat" where
  "lol_len l = length (lol_starts l)"

text \<open>
  The closure given to \<open>push_with\<close> sees the new list only (through \<open>push\<close> and \<open>current\<close>), so it
  is a function from the empty list to the finished one, which may panic.
\<close>

definition lol_push_with ::
    "'a list_of_lists \<Rightarrow> ('a list \<Rightarrow> 'a list option) \<Rightarrow> (nat \<times> 'a list_of_lists) option" where
  "lol_push_with l f =
     (let start = length (lol_values l)
      in do {
           rust_assert (start < 2 ^ 32);
           new \<leftarrow> f [];
           let values = lol_values l @ new;
           (idx, starts) \<leftarrow> iv_push (lol_starts l) start;
           rust_assert (length values < 2 ^ 32);
           Some (idx, \<lparr>lol_starts = starts, lol_values = values\<rparr>)
         })"

definition lol_push_iter :: "'a list_of_lists \<Rightarrow> 'a list \<Rightarrow> (nat \<times> 'a list_of_lists) option" where
  "lol_push_iter l xs = lol_push_with l (\<lambda>list. Some (fold (\<lambda>element list. list @ [element]) xs list))"

definition lol_push_copy_slice :: "'a list_of_lists \<Rightarrow> 'a list \<Rightarrow> (nat \<times> 'a list_of_lists) option" where
  "lol_push_copy_slice l xs = lol_push_iter l xs"

definition lol_iter :: "'a list_of_lists \<Rightarrow> 'a list option list" where
  "lol_iter l =
     (let ends = drop 1 (lol_starts l) @ [length (lol_values l)]
      in map (\<lambda>(start, stop). slice_range (lol_values l) start stop) (zip (lol_starts l) ends))"

definition lol_get :: "'a list_of_lists \<Rightarrow> nat \<Rightarrow> 'a list option option" where
  "lol_get l index =
     (case slice_get (lol_starts l) index of
        None \<Rightarrow> Some None
      | Some start \<Rightarrow> map_option Some (slice_range (lol_values l) start (lol_values_end l index)))"

definition lol_index :: "'a list_of_lists \<Rightarrow> nat \<Rightarrow> 'a list option" where
  "lol_index l index = do {
     start \<leftarrow> slice_get (lol_starts l) index;
     slice_range (lol_values l) start (lol_values_end l index)
   }"

definition lol_pop :: "'a list_of_lists \<Rightarrow> 'a list option \<times> 'a list_of_lists" where
  "lol_pop l =
     (case lol_starts l of
        [] \<Rightarrow> (None, l)
      | _ \<Rightarrow> let start = last (lol_starts l)
             in (Some (drop start (lol_values l)),
                 \<lparr>lol_starts = butlast (lol_starts l), lol_values = take start (lol_values l)\<rparr>))"

definition lol_push_from_within ::
    "'a list_of_lists \<Rightarrow> nat \<Rightarrow> nat \<Rightarrow> nat \<Rightarrow> (nat \<times> 'a list_of_lists) option" where
  "lol_push_from_within l source start stop = do {
     source_start \<leftarrow> slice_get (lol_starts l) source;
     let new_start = length (lol_values l);
     new \<leftarrow> slice_range (lol_values l) (source_start + start) (source_start + stop);
     rust_assert (new_start < 2 ^ 32);
     (idx, starts) \<leftarrow> iv_push (lol_starts l) new_start;
     Some (idx, \<lparr>lol_starts = starts, lol_values = lol_values l @ new\<rparr>)
   }"

subsection \<open>Invariant and abstraction\<close>

definition lol_inv :: "'a list_of_lists \<Rightarrow> bool" where
  "lol_inv l \<longleftrightarrow>
     sorted (lol_starts l) \<and> (\<forall>s\<in>set (lol_starts l). s \<le> length (lol_values l)) \<and>
     (case lol_starts l of [] \<Rightarrow> lol_values l = [] | s # _ \<Rightarrow> s = 0) \<and>
     length (lol_starts l) \<le> idx_limit"

definition lol_bounds :: "'a list_of_lists \<Rightarrow> nat list" where
  "lol_bounds l = lol_starts l @ [length (lol_values l)]"

definition lol_lists :: "'a list_of_lists \<Rightarrow> 'a list list" where
  "lol_lists l =
     map (\<lambda>i. take (lol_bounds l ! Suc i - lol_bounds l ! i) (drop (lol_bounds l ! i) (lol_values l)))
         [0..<length (lol_starts l)]"

lemma length_lol_lists [simp]: "length (lol_lists l) = length (lol_starts l)"
  by (simp add: lol_lists_def)

lemma lol_inv_new [simp]: "lol_inv lol_new"
  by (simp add: lol_inv_def lol_new_def)

lemma lol_lists_new [simp]: "lol_lists lol_new = []"
  by (simp add: lol_lists_def lol_new_def)

lemma sorted_lol_bounds: "lol_inv l \<Longrightarrow> sorted (lol_bounds l)"
  by (auto simp: lol_inv_def lol_bounds_def sorted_append)

lemma lol_bounds_mono:
  "lol_inv l \<Longrightarrow> i < length (lol_starts l) \<Longrightarrow>
     lol_bounds l ! i \<le> lol_bounds l ! Suc i \<and> lol_bounds l ! Suc i \<le> length (lol_values l)"
  using sorted_lol_bounds [of l]
  by (auto simp: sorted_iff_nth_mono lol_bounds_def nth_append lol_inv_def not_less less_Suc_eq
      intro!: sorted_nth_mono)

lemma lol_values_end_bounds:
  assumes "lol_inv l" "i < length (lol_starts l)"
  shows "lol_values_end l i = lol_bounds l ! Suc i"
proof -
  have "i + 2 < 2 ^ 32 \<or> Suc i = length (lol_starts l)"
    using assms by (auto simp: lol_inv_def idx_limit_def)
  then show ?thesis
    using assms(2)
    by (auto simp: lol_values_end_def idx_checked_add_def lol_bounds_def nth_append slice_get_def)
qed

lemma lol_index_spec:
  assumes "lol_inv l"
  shows "lol_index l i = slice_get (lol_lists l) i"
proof (cases "i < length (lol_starts l)")
  case True
  then have "lol_starts l ! i = lol_bounds l ! i" by (simp add: lol_bounds_def nth_append)
  with True lol_bounds_mono [OF assms True] show ?thesis
    by (simp add: lol_index_def lol_values_end_bounds [OF assms True] lol_lists_def)
next
  case False
  then show ?thesis by (simp add: lol_index_def slice_get_def)
qed

lemma lol_get_spec:
  assumes "lol_inv l"
  shows "lol_get l i = Some (slice_get (lol_lists l) i)"
  using lol_index_spec [OF assms, of i]
  by (auto simp: lol_get_def lol_index_def slice_get_def split: if_splits)

text \<open>Appending a segment at the end of the values.\<close>

definition lol_extend :: "'a list_of_lists \<Rightarrow> 'a list \<Rightarrow> 'a list_of_lists" where
  "lol_extend l new =
     \<lparr>lol_starts = lol_starts l @ [length (lol_values l)], lol_values = lol_values l @ new\<rparr>"

lemma lol_inv_extend: "lol_inv l \<Longrightarrow> length (lol_starts l) < idx_limit \<Longrightarrow> lol_inv (lol_extend l new)"
  by (auto simp: lol_inv_def lol_extend_def sorted_append split: list.splits)

lemma lol_lists_extend:
  assumes "lol_inv l"
  shows "lol_lists (lol_extend l new) = lol_lists l @ [new]"
proof -
  let ?n = "length (lol_starts l)" and ?l' = "lol_extend l new"
  have len: "length (lol_starts ?l') = Suc ?n" by (simp add: lol_extend_def)
  have old: "lol_bounds ?l' ! i = lol_bounds l ! i" if "i \<le> ?n" for i
    using that by (auto simp: lol_bounds_def lol_extend_def nth_append)
  have vals: "lol_values ?l' = lol_values l @ new" by (simp add: lol_extend_def)
  have last: "lol_bounds ?l' ! Suc ?n = length (lol_values l) + length new"
    by (simp add: lol_bounds_def lol_extend_def nth_append)
  have bound_n: "lol_bounds l ! ?n = length (lol_values l)"
    by (simp add: lol_bounds_def)
  have "take (lol_bounds ?l' ! Suc i - lol_bounds ?l' ! i) (drop (lol_bounds ?l' ! i) (lol_values ?l')) =
        take (lol_bounds l ! Suc i - lol_bounds l ! i) (drop (lol_bounds l ! i) (lol_values l))"
    if "i < ?n" for i
    using that lol_bounds_mono [OF assms that] by (simp add: old vals)
  then show ?thesis
    using old [of ?n] last bound_n by (simp add: lol_lists_def len vals)
qed

lemma lol_push_with_eq:
  "lol_push_with l f =
     (case f [] of
        None \<Rightarrow> None
      | Some new \<Rightarrow>
          if length (lol_values l) + length new < 2 ^ 32 \<and> length (lol_starts l) < idx_limit
          then Some (length (lol_starts l), lol_extend l new) else None)"
  by (auto simp: lol_push_with_def iv_push_def lol_extend_def Let_def rust_assert_def
      split: option.splits)

lemma lol_push_with_spec:
  assumes "lol_inv l" "lol_push_with l f = Some (i, l')"
  shows "\<exists>new. f [] = Some new \<and> i = length (lol_lists l) \<and> lol_lists l' = lol_lists l @ [new] \<and> lol_inv l'"
  using assms by (auto simp: lol_push_with_eq lol_lists_extend lol_inv_extend split: option.splits if_splits)

lemma fold_snoc: "fold (\<lambda>x ys. ys @ [x]) xs ys = ys @ xs"
  by (induction xs arbitrary: ys) auto

lemma lol_push_copy_slice_spec:
  assumes "lol_inv l" "lol_push_copy_slice l xs = Some (i, l')"
  shows "i = length (lol_lists l) \<and> lol_lists l' = lol_lists l @ [xs] \<and> lol_inv l'"
  using lol_push_with_spec [OF assms(1)] assms(2)
  by (fastforce simp: lol_push_copy_slice_def lol_push_iter_def fold_snoc)

lemma lol_push_from_within_spec:
  assumes "lol_inv l" "lol_push_from_within l source start stop = Some (i, l')"
    and sub: "lol_index l source = Some xs" "slice_range xs start stop = Some new"
  shows "i = length (lol_lists l) \<and> lol_lists l' = lol_lists l @ [new] \<and> lol_inv l'"
proof -
  from sub(1) have src: "source < length (lol_starts l)" and xs: "xs = lol_lists l ! source"
    by (simp_all add: lol_index_spec [OF assms(1)] monad_elims)
  let ?s = "lol_starts l ! source"
  have "lol_bounds l ! source = ?s" using src by (simp add: lol_bounds_def nth_append)
  with src lol_bounds_mono [OF assms(1) src]
  have "xs = take (lol_bounds l ! Suc source - ?s) (drop ?s (lol_values l))"
    and le: "?s \<le> lol_bounds l ! Suc source" "lol_bounds l ! Suc source \<le> length (lol_values l)"
    by (simp_all add: xs lol_lists_def)
  moreover from this have "length xs = lol_bounds l ! Suc source - ?s" by simp
  moreover from sub(2) have "start \<le> stop" "stop \<le> length xs" "new = take (stop - start) (drop start xs)"
    by (simp_all add: monad_elims)
  ultimately have new: "new = take (stop - start) (drop (?s + start) (lol_values l))"
    by (simp add: drop_take add.commute min_absorb1)
  from assms(2) src new have "i = length (lol_starts l)" "l' = lol_extend l new"
    "length (lol_starts l) < idx_limit"
    by (auto simp: lol_push_from_within_def monad_elims iv_push_def lol_extend_def)
  then show ?thesis
    by (simp add: lol_lists_extend lol_inv_extend assms(1))
qed

lemma lol_iter_spec: "lol_inv l \<Longrightarrow> lol_iter l = map Some (lol_lists l)"
proof (rule nth_equalityI)
  assume inv: "lol_inv l"
  show "length (lol_iter l) = length (map Some (lol_lists l))"
    by (simp add: lol_iter_def Let_def)
  fix i assume "i < length (lol_iter l)"
  then have i: "i < length (lol_starts l)" by (simp add: lol_iter_def Let_def)
  then have "(drop 1 (lol_starts l) @ [length (lol_values l)]) ! i = lol_bounds l ! Suc i"
    "lol_starts l ! i = lol_bounds l ! i"
    by (auto simp: lol_bounds_def nth_append)
  with i lol_bounds_mono [OF inv i]
  show "lol_iter l ! i = map Some (lol_lists l) ! i"
    by (simp add: lol_iter_def Let_def lol_lists_def)
qed

lemma lol_pop_spec:
  assumes "lol_inv l"
  shows "case lol_pop l of
           (None, l') \<Rightarrow> lol_lists l = [] \<and> l' = l
         | (Some xs, l') \<Rightarrow> lol_lists l = lol_lists l' @ [xs] \<and> lol_inv l'"
proof (cases "lol_starts l = []")
  case True
  then show ?thesis by (simp add: lol_pop_def lol_lists_def)
next
  case False
  define l' where "l' = \<lparr>lol_starts = butlast (lol_starts l),
    lol_values = take (last (lol_starts l)) (lol_values l)\<rparr>"
  let ?xs = "drop (last (lol_starts l)) (lol_values l)"
  have pop: "lol_pop l = (Some ?xs, l')"
    using False by (auto simp: lol_pop_def l'_def Let_def split: list.splits)
  obtain ss s where ss: "lol_starts l = ss @ [s]" using False by (metis rev_exhaust)
  have s: "s \<le> length (lol_values l)" "\<forall>x\<in>set ss. x \<le> s"
    using assms ss by (auto simp: lol_inv_def sorted_append)
  have inv: "lol_inv l'"
    using assms s by (auto simp: lol_inv_def l'_def ss sorted_append min_def split: list.splits)
  have "l = lol_extend l' ?xs"
    by (rule list_of_lists.equality) (use s ss in \<open>simp_all add: lol_extend_def l'_def\<close>)
  then have "lol_lists l = lol_lists l' @ [?xs]"
    using lol_lists_extend [OF inv, of ?xs] by simp
  with pop inv show ?thesis by simp
qed

subsection \<open>The interface of a list store\<close>

locale list_store =
  fixes index :: "'s \<Rightarrow> nat \<Rightarrow> 'a list option"
    and push :: "'s \<Rightarrow> 'a list \<Rightarrow> (nat \<times> 's) option"
    and lists :: "'s \<Rightarrow> 'a list list"
    and invar :: "'s \<Rightarrow> bool"
  assumes index_law: "invar l \<Longrightarrow> index l i = slice_get (lists l) i"
    and push_law: "invar l \<Longrightarrow> push l xs = Some (i, l') \<Longrightarrow>
                     i = length (lists l) \<and> lists l' = lists l @ [xs] \<and> invar l'"
begin

lemma index_push_new: "invar l \<Longrightarrow> push l xs = Some (i, l') \<Longrightarrow> index l' i = Some xs"
  using push_law [of l xs i l'] by (simp add: index_law)

lemma index_push_old:
  "invar l \<Longrightarrow> push l xs = Some (i, l') \<Longrightarrow> index l j = Some ys \<Longrightarrow> index l' j = Some ys"
  using push_law [of l xs i l'] by (auto simp: index_law nth_append monad_elims)

lemma index_less: "invar l \<Longrightarrow> index l j = Some ys \<longleftrightarrow> j < length (lists l) \<and> ys = lists l ! j"
  by (simp add: index_law monad_elims)

end

interpretation lol: list_store lol_index lol_push_copy_slice lol_lists lol_inv
  by unfold_locales (fact lol_index_spec, fact lol_push_copy_slice_spec)

subsection \<open>The byte-string interner\<close>

text \<open>
  hashbrown's \<open>HashTable\<close> and the hasher are third-party code and parameters of the model: a
  table of type \<open>'t\<close> with a search (the first entry of the given hash that satisfies the
  predicate, as \<open>HashTable::entry\<close>) and an insertion into the vacant entry. \<open>table_law\<close> is the
  documented behaviour: the table is a set of entries, the search returns one of those with the
  given hash that satisfies the predicate and returns none only if there is none.
\<close>

record 't table_ops =
  tbl_new :: 't
  tbl_find :: "'t \<Rightarrow> u64 \<Rightarrow> (nat \<Rightarrow> bool) \<Rightarrow> nat option"
  tbl_insert :: "'t \<Rightarrow> u64 \<Rightarrow> nat \<Rightarrow> 't"

definition table_law :: "'t table_ops \<Rightarrow> ('t \<Rightarrow> (u64 \<times> nat) set) \<Rightarrow> bool" where
  "table_law T entries \<longleftrightarrow>
     entries (tbl_new T) = {} \<and>
     (\<forall>t h i. entries (tbl_insert T t h i) = insert (h, i) (entries t)) \<and>
     (\<forall>t h P i. tbl_find T t h P = Some i \<longrightarrow> (h, i) \<in> entries t \<and> P i) \<and>
     (\<forall>t h P. tbl_find T t h P = None \<longrightarrow> (\<forall>i. (h, i) \<in> entries t \<longrightarrow> \<not> P i))"

lemma table_law_Some:
  "table_law T entries \<Longrightarrow> tbl_find T t h P = Some i \<Longrightarrow> (h, i) \<in> entries t \<and> P i"
  unfolding table_law_def by blast

lemma table_law_None:
  "table_law T entries \<Longrightarrow> tbl_find T t h P = None \<Longrightarrow> (h, i) \<in> entries t \<Longrightarrow> \<not> P i"
  unfolding table_law_def by blast

record 't bytes_interner =
  bi_bytes :: "u8 list_of_lists"
  bi_table :: 't

definition bi_new :: "'t table_ops \<Rightarrow> 't bytes_interner" where
  "bi_new T = \<lparr>bi_bytes = lol_new, bi_table = tbl_new T\<rparr>"

definition bi_index :: "'t bytes_interner \<Rightarrow> nat \<Rightarrow> u8 list option" where
  "bi_index b i = lol_index (bi_bytes b) i"

definition bi_intern ::
    "'t table_ops \<Rightarrow> (u8 list \<Rightarrow> u64) \<Rightarrow> 't bytes_interner \<Rightarrow> u8 list \<Rightarrow>
     (nat \<times> 't bytes_interner) option" where
  "bi_intern T hash b bytes =
     (case tbl_find T (bi_table b) (hash bytes) (\<lambda>i. lol_index (bi_bytes b) i = Some bytes) of
        Some i \<Rightarrow> Some (i, b)
      | None \<Rightarrow> do {
          (new_index, store) \<leftarrow> lol_push_copy_slice (bi_bytes b) bytes;
          Some (new_index,
                \<lparr>bi_bytes = store, bi_table = tbl_insert T (bi_table b) (hash bytes) new_index\<rparr>)
        })"

definition bi_intern_subslice ::
    "'t table_ops \<Rightarrow> (u8 list \<Rightarrow> u64) \<Rightarrow> 't bytes_interner \<Rightarrow> nat \<Rightarrow> nat \<Rightarrow> nat \<Rightarrow>
     (nat \<times> 't bytes_interner) option" where
  "bi_intern_subslice T hash b source start stop = do {
     src \<leftarrow> lol_index (bi_bytes b) source;
     bytes \<leftarrow> slice_range src start stop;
     (case tbl_find T (bi_table b) (hash bytes) (\<lambda>i. lol_index (bi_bytes b) i = Some bytes) of
        Some i \<Rightarrow> Some (i, b)
      | None \<Rightarrow> do {
          (new_index, store) \<leftarrow> lol_push_from_within (bi_bytes b) source start stop;
          Some (new_index,
                \<lparr>bi_bytes = store, bi_table = tbl_insert T (bi_table b) (hash bytes) new_index\<rparr>)
        })
   }"

text \<open>
  The invariant: the table holds exactly the stored strings, each under its hash, and no string is
  stored twice.
\<close>

definition bi_inv ::
    "('t \<Rightarrow> (u64 \<times> nat) set) \<Rightarrow> (u8 list \<Rightarrow> u64) \<Rightarrow> 't bytes_interner \<Rightarrow> bool" where
  "bi_inv entries hash b \<longleftrightarrow>
     lol_inv (bi_bytes b) \<and> distinct (lol_lists (bi_bytes b)) \<and>
     entries (bi_table b) = {(hash (lol_lists (bi_bytes b) ! i), i) | i. i < length (lol_lists (bi_bytes b))}"

lemma bi_inv_new: "table_law T entries \<Longrightarrow> bi_inv entries hash (bi_new T)"
  by (simp add: bi_inv_def bi_new_def table_law_def)

lemma bi_find_Some:
  assumes "table_law T entries" "bi_inv entries hash b"
    "tbl_find T (bi_table b) (hash bytes) (\<lambda>i. lol_index (bi_bytes b) i = Some bytes) = Some i"
  shows "bi_index b i = Some bytes"
  using table_law_Some [OF assms(1,3)] by (simp add: bi_index_def)

lemma bi_find_None:
  assumes "table_law T entries" "bi_inv entries hash b"
    "tbl_find T (bi_table b) (hash bytes) (\<lambda>i. lol_index (bi_bytes b) i = Some bytes) = None"
  shows "bytes \<notin> set (lol_lists (bi_bytes b))"
proof
  assume "bytes \<in> set (lol_lists (bi_bytes b))"
  then obtain i where i: "i < length (lol_lists (bi_bytes b))" "bytes = lol_lists (bi_bytes b) ! i"
    by (auto simp: in_set_conv_nth)
  then have "(hash bytes, i) \<in> entries (bi_table b)" "lol_index (bi_bytes b) i = Some bytes"
    using assms(2) by (auto simp: bi_inv_def lol_index_spec)
  with table_law_None [OF assms(1,3)] show False by blast
qed

text \<open>Both ways of adding a string extend the store and the table alike.\<close>

lemma bi_inv_extend:
  assumes T: "table_law T entries" and inv: "bi_inv entries hash b"
    and new: "bytes \<notin> set (lol_lists (bi_bytes b))"
    and store: "lol_lists store = lol_lists (bi_bytes b) @ [bytes]" "lol_inv store"
    and i: "i = length (lol_lists (bi_bytes b))"
  shows "bi_inv entries hash
           \<lparr>bi_bytes = store, bi_table = tbl_insert T (bi_table b) (hash bytes) i\<rparr>"
proof -
  let ?ls = "lol_lists (bi_bytes b)"
  have "entries (tbl_insert T (bi_table b) (hash bytes) i) = insert (hash bytes, i) (entries (bi_table b))"
    using T by (simp add: table_law_def)
  also have "\<dots> = {(hash ((?ls @ [bytes]) ! j), j) | j. j < Suc (length ?ls)}"
    using inv i by (auto simp: bi_inv_def nth_append less_Suc_eq)
  finally show ?thesis
    using inv new store by (simp add: bi_inv_def del: length_lol_lists)
qed

lemma bi_step:
  assumes T: "table_law T entries" and inv: "bi_inv entries hash b"
    and step: "bi_intern T hash b bytes = Some (i, b') \<or>
      (\<exists>src. lol_index (bi_bytes b) source = Some src \<and> slice_range src start stop = Some bytes \<and>
             bi_intern_subslice T hash b source start stop = Some (i, b'))"
  shows "bi_inv entries hash b' \<and> bi_index b' i = Some bytes \<and>
         (\<exists>more. lol_lists (bi_bytes b') = lol_lists (bi_bytes b) @ more)"
proof (cases "tbl_find T (bi_table b) (hash bytes) (\<lambda>i. lol_index (bi_bytes b) i = Some bytes)")
  case (Some j)
  with step have "i = j" "b' = b"
    by (auto simp: bi_intern_def bi_intern_subslice_def)
  with bi_find_Some [OF T inv Some] inv show ?thesis by simp
next
  case None
  note new = bi_find_None [OF T inv None]
  have inv_l: "lol_inv (bi_bytes b)" using inv by (simp add: bi_inv_def)
  from step None obtain store where push:
      "lol_push_copy_slice (bi_bytes b) bytes = Some (i, store) \<or>
       (\<exists>src. lol_index (bi_bytes b) source = Some src \<and> slice_range src start stop = Some bytes \<and>
              lol_push_from_within (bi_bytes b) source start stop = Some (i, store))"
    and b': "b' = \<lparr>bi_bytes = store, bi_table = tbl_insert T (bi_table b) (hash bytes) i\<rparr>"
    by (auto simp: bi_intern_def bi_intern_subslice_def bind_eq_Some_conv)
  from push have "i = length (lol_lists (bi_bytes b)) \<and>
      lol_lists store = lol_lists (bi_bytes b) @ [bytes] \<and> lol_inv store"
    using lol_push_copy_slice_spec [OF inv_l] lol_push_from_within_spec [OF inv_l] by blast
  then show ?thesis
    using bi_inv_extend [OF T inv new, of store i] b'
    by (auto simp: bi_index_def lol_index_spec nth_append simp del: length_lol_lists)
qed

subsection \<open>Properties\<close>

text \<open>
  C37: a list pushed into a \<open>ListOfLists\<close> is read back under the index the push
  returned, every list stored before keeps its index and content, and popping returns the list that
  was pushed last and restores the store.
\<close>

theorem list_store_roundtrip:
  assumes inv: "lol_inv l" and push: "lol_push_copy_slice l xs = Some (i, l')"
  shows "lol_index l' i = Some xs \<and>
         (\<forall>j ys. lol_index l j = Some ys \<longrightarrow> lol_index l' j = Some ys \<and> j \<noteq> i) \<and>
         (\<exists>l''. lol_pop l' = (Some xs, l'') \<and> lol_lists l'' = lol_lists l)"
proof -
  have spec: "i = length (lol_lists l)" "lol_lists l' = lol_lists l @ [xs]" "lol_inv l'"
    using lol_push_copy_slice_spec [OF inv push] by simp_all
  have "j \<noteq> i" if "lol_index l j = Some ys" for j ys
    using that spec(1) by (auto simp: lol_index_spec [OF inv] monad_elims)
  moreover have "\<exists>l''. lol_pop l' = (Some xs, l'') \<and> lol_lists l'' = lol_lists l"
    using lol_pop_spec [OF spec(3)] spec(2) by (auto split: prod.splits option.splits)
  ultimately show ?thesis
    using lol.index_push_new [OF inv push] lol.index_push_old [OF inv push] by blast
qed

theorem list_store_roundtrip_witness:
  "\<exists>i l'. lol_push_copy_slice lol_new [3 :: nat, 4] = Some (i, l') \<and> lol_index l' i = Some [3, 4]"
proof -
  have "\<exists>i l'. lol_push_copy_slice lol_new [3 :: nat, 4] = Some (i, l')"
    by (simp add: lol_push_copy_slice_def lol_push_iter_def lol_push_with_eq lol_new_def idx_limit_def)
  then obtain i l' where "lol_push_copy_slice lol_new [3 :: nat, 4] = Some (i, l')" by blast
  with list_store_roundtrip [OF lol_inv_new this] show ?thesis by blast
qed

text \<open>
  C36: interning is injective and stable. For a table that keeps its documented
  behaviour, two strings get the same index exactly when they are equal, both are read back from
  it, and no index given out earlier changes its meaning.
\<close>

theorem interner_injective:
  assumes T: "table_law T entries" and inv: "bi_inv entries hash b"
    and first: "bi_intern T hash b s = Some (i, b1)" and second: "bi_intern T hash b1 s' = Some (j, b2)"
  shows "(i = j \<longleftrightarrow> s = s') \<and> bi_index b2 i = Some s \<and> bi_index b2 j = Some s' \<and>
         (\<forall>k t. bi_index b k = Some t \<longrightarrow> bi_index b2 k = Some t)"
proof -
  from bi_step [OF T inv disjI1 [OF first]] obtain m1 where
    s1: "bi_inv entries hash b1" "bi_index b1 i = Some s" "lol_lists (bi_bytes b1) = lol_lists (bi_bytes b) @ m1"
    by blast
  from bi_step [OF T s1(1) disjI1 [OF second]] obtain m2 where
    s2: "bi_inv entries hash b2" "bi_index b2 j = Some s'" "lol_lists (bi_bytes b2) = lol_lists (bi_bytes b1) @ m2"
    by blast
  have idx: "bi_index c k = slice_get (lol_lists (bi_bytes c)) k" if "bi_inv entries hash c" for c k
    using that by (simp add: bi_index_def bi_inv_def lol_index_spec)
  have old: "bi_index b2 k = Some t" if "bi_index b1 k = Some t" for k t
    using that s2(3) by (auto simp: idx [OF s1(1)] idx [OF s2(1)] monad_elims nth_append simp del: length_lol_lists)
  moreover have "bi_index b1 k = Some t" if "bi_index b k = Some t" for k t
    using that s1(3) by (auto simp: idx [OF s1(1)] idx [OF inv] monad_elims nth_append simp del: length_lol_lists)
  moreover have "i = j" if "s = s'"
    using old [OF s1(2)] s2(1,2) that nth_eq_iff_index_eq [of "lol_lists (bi_bytes b2)" i j]
    by (auto simp: idx [OF s2(1)] monad_elims bi_inv_def simp del: length_lol_lists)
  moreover have "s = s'" if "i = j"
    using old [OF s1(2)] s2(2) that by simp
  ultimately show ?thesis using s1(2) s2(2) by blast
qed

text \<open>A table kept as the list of its entries, for the witness.\<close>

definition list_table :: "(u64 \<times> nat) list table_ops" where
  "list_table = \<lparr>tbl_new = [],
     tbl_find = (\<lambda>t h P. map_option snd (find (\<lambda>(h', i). h' = h \<and> P i) t)),
     tbl_insert = (\<lambda>t h i. (h, i) # t)\<rparr>"

lemma list_table_law: "table_law list_table set"
  by (auto simp: table_law_def list_table_def find_None_iff find_Some_iff in_set_conv_nth)

theorem interner_injective_witness:
  "\<exists>i j b1 b2. bi_intern list_table (\<lambda>_. 0) (bi_new list_table) [1] = Some (i, b1) \<and>
     bi_intern list_table (\<lambda>_. 0) b1 [2] = Some (j, b2) \<and> i \<noteq> j"
proof -
  have "\<exists>i j b1 b2. bi_intern list_table (\<lambda>_. 0) (bi_new list_table) [1] = Some (i, b1) \<and>
     bi_intern list_table (\<lambda>_. 0) b1 [2] = Some (j, b2)"
    by (simp add: bi_intern_def list_table_def bi_new_def lol_push_copy_slice_def lol_push_iter_def
        lol_push_with_eq lol_new_def idx_limit_def lol_extend_def lol_index_def lol_values_end_def idx_checked_add_def)
  then obtain i j b1 b2 where run: "bi_intern list_table (\<lambda>_. 0) (bi_new list_table) [1] = Some (i, b1)"
    "bi_intern list_table (\<lambda>_. 0) b1 [2] = Some (j, b2)" by blast
  with interner_injective [OF list_table_law bi_inv_new [OF list_table_law] run] show ?thesis by auto
qed

end
