(* ===== verification/Big_Ints.thy ===== *)
theory Big_Ints
  imports List_Stores U256
begin

unbundle bit_operations_syntax

text \<open>
  Number literals (\<open>plankc/crates/plank-core/src/bigint.rs\<close>): the parsers that turn the digits of a
  literal into little-endian 32-bit limbs kept in a \<open>ListOfLists\<close>, and the conversion of limbs to
  a 256-bit integer. Strings are their bytes; a byte the code panics on is the step \<open>Bad\<close>.
\<close>

datatype digit_step = Digit u32 | Skip | Bad

definition strip_leading :: "u8 list \<Rightarrow> u8 list" where
  "strip_leading s =
     drop (case position (\<lambda>c. c \<noteq> 0x30 \<and> c \<noteq> 0x5F) s of Some i \<Rightarrow> i | None \<Rightarrow> length s) s"

definition nibble_of :: "u8 \<Rightarrow> digit_step" where
  "nibble_of c =
     (if 0x30 \<le> c \<and> c \<le> 0x39 then Digit (ucast (c - 0x30))
      else if 0x61 \<le> c \<and> c \<le> 0x66 then Digit (ucast (c - 0x61 + 10))
      else if 0x41 \<le> c \<and> c \<le> 0x46 then Digit (ucast (c - 0x41 + 10))
      else if c = 0x5F then Skip
      else Bad)"

definition bit_of :: "u8 \<Rightarrow> digit_step" where
  "bit_of c =
     (if c = 0x30 then Digit 0 else if c = 0x31 then Digit 1 else if c = 0x5F then Skip else Bad)"

definition decimal_of :: "u8 \<Rightarrow> digit_step" where
  "decimal_of c =
     (if 0x30 \<le> c \<and> c \<le> 0x39 then Digit (ucast (c - 0x30)) else if c = 0x5F then Skip else Bad)"

text \<open>
  The loop that the hexadecimal and the binary parser share, over the digits from the least
  significant one: \<open>width\<close> bits a digit, \<open>per_limb\<close> digits a limb. The state is the position in
  the current limb, that limb and the limbs pushed so far.
\<close>

definition limb_step :: "nat \<Rightarrow> nat \<Rightarrow> (u8 \<Rightarrow> digit_step) \<Rightarrow> u8 \<Rightarrow> nat \<times> u32 \<times> u32 list \<Rightarrow> (nat \<times> u32 \<times> u32 list) option" where
  "limb_step width per_limb digit c st = (case st of (i, limb, limbs) \<Rightarrow>
     (case digit c of
        Bad \<Rightarrow> None
      | Skip \<Rightarrow> Some (i, limb, limbs)
      | Digit d \<Rightarrow>
          (let limb = limb OR push_bit (i * width) d; i = (i + 1) mod per_limb
           in if i = 0 then Some (i, 0, limbs @ [limb]) else Some (i, limb, limbs))))"

definition push_limbs :: "nat \<Rightarrow> nat \<Rightarrow> (u8 \<Rightarrow> digit_step) \<Rightarrow> u8 list \<Rightarrow> u32 list \<Rightarrow> u32 list option" where
  "push_limbs width per_limb digit s pushed = do {
     (i, limb, limbs) \<leftarrow> fold_opt (limb_step width per_limb digit) (rev (strip_leading s)) (0, 0, pushed);
     Some (if i > 0 \<and> limb \<noteq> 0 then limbs @ [limb] else limbs)
   }"

definition from_radix16_in :: "u8 list \<Rightarrow> u32 list_of_lists \<Rightarrow> (nat \<times> u32 list_of_lists) option" where
  "from_radix16_in s limb_storage = lol_push_with limb_storage (push_limbs 4 8 nibble_of s)"

definition from_radix2_in :: "u8 list \<Rightarrow> u32 list_of_lists \<Rightarrow> (nat \<times> u32 list_of_lists) option" where
  "from_radix2_in s limb_storage = lol_push_with limb_storage (push_limbs 1 32 bit_of s)"

text \<open>One limb of \<open>mul_add_over_limbs\<close>; the sum of the two carries is checked.\<close>

fun mul_add_over_limbs :: "u32 list \<Rightarrow> u32 \<Rightarrow> u32 \<Rightarrow> (u32 list \<times> u32) option" where
  "mul_add_over_limbs [] mul carry = Some ([], carry)"
| "mul_add_over_limbs (limb # limbs) mul carry =
     (let res = (ucast limb :: u64) * ucast mul;
          new_limb = (ucast res :: u32) + carry;
          carry_add = (if unat (ucast res :: u32) + unat carry \<ge> 2 ^ 32 then 1 else 0);
          hi = (ucast (drop_bit 32 res) :: u32)
      in do {
           rust_assert (unat hi + unat (carry_add :: u32) < 2 ^ 32);
           (rest, carry) \<leftarrow> mul_add_over_limbs limbs mul (hi + carry_add);
           Some (new_limb # rest, carry)
         })"

definition decimal_step :: "u8 \<Rightarrow> u32 list \<Rightarrow> u32 list option" where
  "decimal_step c current = (case decimal_of c of
     Bad \<Rightarrow> None
   | Skip \<Rightarrow> Some current
   | Digit dig \<Rightarrow> do {
       (current, carry) \<leftarrow> mul_add_over_limbs current 10 dig;
       Some (if carry > 0 then current @ [carry] else current)
     })"

definition from_radix10_in :: "u8 list \<Rightarrow> u32 list_of_lists \<Rightarrow> (nat \<times> u32 list_of_lists) option" where
  "from_radix10_in s limb_storage = lol_push_with limb_storage (fold_opt decimal_step (strip_leading s))"

text \<open>
  \<open>as_chunks::<2>\<close>, its remainder padded, zipped with the four words of the result.
\<close>

fun limb_pairs :: "u32 list \<Rightarrow> (u32 \<times> u32) list" where
  "limb_pairs [] = []"
| "limb_pairs [lo] = [(lo, 0)]"
| "limb_pairs (lo # hi # rest) = (lo, hi) # limb_pairs rest"

fun fill_limbs :: "(u32 \<times> u32) list \<Rightarrow> u64 list \<Rightarrow> u64 list" where
  "fill_limbs ((lo, hi) # ps) (_ # ws) = (push_bit 32 (ucast hi) OR ucast lo) # fill_limbs ps ws"
| "fill_limbs _ ws = ws"

definition limbs_to_u256 :: "u256_lib \<Rightarrow> u32 list \<Rightarrow> u256 option" where
  "limbs_to_u256 L limbs =
     (if list_ex (\<lambda>limb. limb \<noteq> 0) (drop 8 limbs) then None
      else Some (u_from_limbs L (fill_limbs (limb_pairs limbs) (replicate 4 0))))"

subsection \<open>The number a literal stands for\<close>

fun digit_vals :: "(u8 \<Rightarrow> digit_step) \<Rightarrow> u8 list \<Rightarrow> nat list option" where
  "digit_vals f [] = Some []"
| "digit_vals f (c # cs) = (case f c of
     Bad \<Rightarrow> None
   | Skip \<Rightarrow> digit_vals f cs
   | Digit d \<Rightarrow> map_option (Cons (unat d)) (digit_vals f cs))"

definition radix_value :: "nat \<Rightarrow> nat list \<Rightarrow> nat" where
  "radix_value b ds = fold (\<lambda>d v. v * b + d) ds 0"

fun le_value :: "nat \<Rightarrow> nat list \<Rightarrow> nat" where
  "le_value b [] = 0"
| "le_value b (d # ds) = d + b * le_value b ds"

definition limbs_canonical :: "u32 list \<Rightarrow> bool" where
  "limbs_canonical limbs \<longleftrightarrow> limbs = [] \<or> last limbs \<noteq> 0"

lemma le_value_append: "le_value b (xs @ ys) = le_value b xs + b ^ length xs * le_value b ys"
  by (induction xs) (simp_all add: algebra_simps)

lemma radix_value_append: "radix_value b (xs @ [d]) = radix_value b xs * b + d"
  by (simp add: radix_value_def)

lemma radix_value_rev: "radix_value b ds = le_value b (rev ds)"
  by (induction ds rule: rev_induct) (simp_all add: radix_value_append radix_value_def algebra_simps)

lemma digit_vals_append:
  "digit_vals f (xs @ ys) =
     Option.bind (digit_vals f xs) (\<lambda>a. Option.bind (digit_vals f ys) (\<lambda>b. Some (a @ b)))"
  by (induction xs) (auto split: digit_step.split Option.bind_split simp: map_option_case)

lemma digit_vals_rev: "digit_vals f (rev xs) = map_option rev (digit_vals f xs)"
  by (induction xs) (auto simp: digit_vals_append split: digit_step.split Option.bind_split)

lemma digit_vals_length: "digit_vals f s = Some ds \<Longrightarrow> length ds \<le> length s"
  by (induction s arbitrary: ds) (fastforce split: digit_step.splits)+

text \<open>Leading zeros and underscores change nothing.\<close>

lemma drop_position:
  "drop (case position P s of Some i \<Rightarrow> i | None \<Rightarrow> length s) s = dropWhile (\<lambda>c. \<not> P c) s"
proof (induction s)
  case (Cons c s)
  then show ?case by (cases "position P s") (auto simp del: position_None)
qed simp

lemma strip_leading_dropWhile: "strip_leading s = dropWhile (\<lambda>c. c = 0x30 \<or> c = 0x5F) s"
  unfolding strip_leading_def drop_position by simp

lemma radix_value_zero: "radix_value b (0 # ds) = radix_value b ds"
  by (simp add: radix_value_def)

lemma digit_vals_strip:
  assumes "f 0x30 = Digit 0" "f 0x5F = Skip"
  shows "rel_option (\<lambda>ds es. radix_value b ds = radix_value b es) (digit_vals f s) (digit_vals f (strip_leading s))"
  unfolding strip_leading_dropWhile
proof (induction s)
  case (Cons c s)
  consider "c = 0x30" | "c = 0x5F" | "c \<noteq> 0x30" "c \<noteq> 0x5F" by blast
  then show ?case
  proof cases
    case 1
    with Cons assms show ?thesis
      by (cases "digit_vals f s"; cases "digit_vals f (dropWhile (\<lambda>c. c = 0x30 \<or> c = 0x5F) s)")
        (auto simp: radix_value_zero)
  next
    case 2
    with Cons assms show ?thesis by simp
  next
    case 3
    then show ?thesis by (simp add: option.rel_refl)
  qed
qed simp

subsection \<open>The power-of-two loop\<close>

definition limbs_state :: "nat \<Rightarrow> nat \<Rightarrow> nat list \<Rightarrow> nat \<times> u32 \<times> u32 list \<Rightarrow> bool" where
  "limbs_state width per_limb ds st = (case st of (i, limb, limbs) \<Rightarrow>
     i = length ds mod per_limb \<and> length limbs = length ds div per_limb \<and>
     unat limb < 2 ^ (i * width) \<and>
     le_value (2 ^ width) ds = limbs_value 32 limbs + 2 ^ (32 * length limbs) * unat limb)"

lemma nat_or_shift: "x < 2 ^ n \<Longrightarrow> x OR push_bit n y = x + 2 ^ n * (y :: nat)"
proof -
  assume x: "x < 2 ^ n"
  have "take_bit n x AND push_bit n y = 0"
    by (rule bit_eqI) (simp add: bit_and_iff bit_push_bit_iff bit_take_bit_iff)
  with x have "x AND push_bit n y = 0" by (simp add: take_bit_nat_eq_self)
  then show ?thesis by (simp add: disjunctive_add_eq_or [symmetric] push_bit_eq_mult mult.commute)
qed

lemma unat_or_shift:
  assumes "unat (limb :: u32) < 2 ^ n" "unat d < 2 ^ k" "n + k \<le> 32"
  shows "unat (limb OR push_bit n d) = unat limb + 2 ^ n * unat d"
    and "unat (limb OR push_bit n d) < 2 ^ (n + k)"
proof -
  have "2 ^ n * unat d < 2 ^ n * 2 ^ k" using assms(2) by simp
  then have d: "2 ^ n * unat d < 2 ^ (n + k)" by (simp add: power_add)
  also have "\<dots> \<le> 2 ^ 32" using assms(3) by (rule power_increasing) simp
  finally have "unat (push_bit n d) = push_bit n (unat d)"
    using unsigned_push_bit_eq [of n d, where 'a = nat]
    by (simp add: take_bit_nat_eq_self push_bit_eq_mult mult.commute)
  then show eq: "unat (limb OR push_bit n d) = unat limb + 2 ^ n * unat d"
    by (simp add: unsigned_or_eq nat_or_shift [OF assms(1)])
  have "2 ^ n * (unat d + 1) \<le> 2 ^ n * 2 ^ k" using assms(2) by (intro mult_le_mono2) simp
  with assms(1) show "unat (limb OR push_bit n d) < 2 ^ (n + k)"
    by (simp add: eq power_add algebra_simps)
qed

lemma limb_step_state:
  assumes st: "limbs_state width per_limb ds st" and pos: "0 < per_limb" "width * per_limb = 32"
    and d: "digit c = Digit d" "unat d < 2 ^ width"
  shows "\<exists>st'. limb_step width per_limb digit c st = Some st' \<and> limbs_state width per_limb (ds @ [unat d]) st'"
proof -
  obtain i limb limbs where eq: "st = (i, limb, limbs)" by (cases st)
  let ?l = "limb OR push_bit (i * width) d"
  from st have i: "i = length ds mod per_limb" and len: "length limbs = length ds div per_limb"
    and limb: "unat limb < 2 ^ (i * width)"
    and val: "le_value (2 ^ width) ds = limbs_value 32 limbs + 2 ^ (32 * length limbs) * unat limb"
    unfolding limbs_state_def eq prod.case by blast+
  have "i < per_limb" using pos(1) i by simp
  then have "(i + 1) * width \<le> per_limb * width" by (intro mult_le_mono1) simp
  then have room: "i * width + width \<le> 32" using pos(2) by (simp add: mult.commute)
  note l = unat_or_shift [OF limb d(2) room]
  have n: "length ds = per_limb * length limbs + i" using i len by simp
  have "(2 ^ width) ^ length ds = (2 :: nat) ^ (32 * length limbs + i * width)"
    by (simp only: power_mult [symmetric] n pos(2) [symmetric] distrib_left mult.assoc mult.commute [of i])
  then have val': "le_value (2 ^ width) (ds @ [unat d]) = limbs_value 32 limbs + 2 ^ (32 * length limbs) * unat ?l"
    by (simp add: le_value_append val l(1) power_add algebra_simps)
  show ?thesis
  proof (cases "i + 1 = per_limb")
    case True
    then have "(length ds + 1) mod per_limb = 0" "(length ds + 1) div per_limb = length limbs + 1"
      using i len by (simp_all add: mod_Suc div_Suc)
    with True d(1) val' show ?thesis
      by (simp add: eq limb_step_def Let_def limbs_state_def limbs_value_append)
  next
    case False
    with \<open>i < per_limb\<close> have i': "i + 1 < per_limb" by simp
    then have "(length ds + 1) mod per_limb = i + 1" "(length ds + 1) div per_limb = length limbs"
      using i len by (simp_all add: mod_Suc div_Suc)
    with i' d(1) val' l(2) show ?thesis
      by (simp add: eq limb_step_def Let_def limbs_state_def add.commute)
  qed
qed

lemma limb_loop_state:
  assumes "limbs_state width per_limb es st" "0 < per_limb" "width * per_limb = 32"
    and "digit_vals digit cs = Some ds" "\<And>c d. digit c = Digit d \<Longrightarrow> unat d < 2 ^ width"
  shows "\<exists>st'. fold_opt (limb_step width per_limb digit) cs st = Some st' \<and>
               limbs_state width per_limb (es @ ds) st'"
  using assms(1,4)
proof (induction cs arbitrary: es ds st)
  case (Cons c cs)
  show ?case
  proof (cases "digit c")
    case (Digit d)
    from Cons.prems(2) Digit obtain ds' where ds': "digit_vals digit cs = Some ds'" "ds = unat d # ds'"
      by (auto simp: map_option_case split: option.splits)
    from limb_step_state [where digit = digit and c = c, OF Cons.prems(1) assms(2,3) Digit assms(5) [OF Digit]] obtain st1
      where "limb_step width per_limb digit c st = Some st1" "limbs_state width per_limb (es @ [unat d]) st1"
      by blast
    with Cons.IH [OF this(2) ds'(1)] ds'(2) show ?thesis by auto
  next
    case Skip
    obtain i limb limbs where "st = (i, limb, limbs)" by (cases st)
    with Cons Skip show ?thesis by (auto simp: limb_step_def)
  next
    case Bad
    with Cons.prems show ?thesis by simp
  qed
qed simp

lemma limb_loop_bad:
  "digit_vals digit cs = None \<Longrightarrow> fold_opt (limb_step width per_limb digit) cs st = None"
proof (induction cs arbitrary: st)
  case (Cons c cs)
  obtain i limb limbs where "st = (i, limb, limbs)" by (cases st)
  with Cons show ?case
    by (cases "digit c") (auto simp: limb_step_def Let_def split: option.splits)
qed simp

text \<open>A number with enough digits does not fit into fewer limbs.\<close>

lemma le_value_lower: "ds \<noteq> [] \<Longrightarrow> last ds \<noteq> 0 \<Longrightarrow> b ^ (length ds - 1) \<le> le_value b ds"
proof (induction ds rule: rev_induct)
  case (snoc d ds)
  then have "b ^ length ds * 1 \<le> b ^ length ds * d" by (intro mult_le_mono2) simp
  then have "b ^ length ds \<le> b ^ length ds * d" by (simp only: mult_1_right)
  also have "\<dots> \<le> le_value b (ds @ [d])" by (simp add: le_value_append)
  finally show ?case by simp
qed simp

lemma limbs_canonical_value:
  assumes "limbs \<noteq> [] \<Longrightarrow> 2 ^ (32 * (length limbs - 1)) \<le> limbs_value 32 (limbs :: u32 list)"
  shows "limbs_canonical limbs"
proof (cases limbs rule: rev_cases)
  case (snoc xs x)
  have "limbs_value 32 xs < 2 ^ (32 * length xs)" using limbs_value_less [of xs] by simp
  with assms snoc have "x \<noteq> 0" by (auto simp: limbs_value_append)
  with snoc show ?thesis by (simp add: limbs_canonical_def)
qed (simp add: limbs_canonical_def)

subsection \<open>What the parsers store\<close>

text \<open>What a table of digits has to satisfy: zero and the underscore are what \<open>strip_leading\<close> drops.\<close>

definition digit_table :: "(u8 \<Rightarrow> digit_step) \<Rightarrow> nat \<Rightarrow> bool" where
  "digit_table f b \<longleftrightarrow> f 0x30 = Digit 0 \<and> f 0x5F = Skip \<and>
     (\<forall>c. f c = Digit 0 \<longrightarrow> c = 0x30) \<and> (\<forall>c. f c = Skip \<longrightarrow> c = 0x5F) \<and>
     (\<forall>c d. f c = Digit d \<longrightarrow> unat d < b)"

lemma stripped_digits:
  assumes "digit_table f b" "digit_vals f s = Some ds"
  obtains es where "digit_vals f (strip_leading s) = Some es" "radix_value b ds = radix_value b es"
    "es \<noteq> [] \<Longrightarrow> hd es \<noteq> 0" "length es \<le> length s"
proof -
  have f: "f 0x30 = Digit 0" "f 0x5F = Skip" using assms(1) by (simp_all add: digit_table_def)
  from digit_vals_strip [of f b s, OF f] assms(2) obtain es
    where es: "digit_vals f (strip_leading s) = Some es" "radix_value b ds = radix_value b es"
    by (auto simp: option_rel_Some1)
  have "es \<noteq> [] \<Longrightarrow> hd es \<noteq> 0"
  proof (cases "strip_leading s")
    case (Cons c cs)
    then have c: "c \<noteq> 0x30" "c \<noteq> 0x5F"
      using hd_dropWhile [of "\<lambda>c. c = 0x30 \<or> c = 0x5F" s] by (auto simp: strip_leading_dropWhile)
    then obtain d where d: "f c = Digit d" "d \<noteq> 0"
      using assms(1) es(1) Cons by (cases "f c") (auto simp: digit_table_def)
    with es(1) Cons show ?thesis by (auto simp: unat_eq_zero unat_gt_0 map_option_case split: option.splits)
  qed (use es(1) in simp)
  moreover have "length (strip_leading s) \<le> length s" by (simp add: strip_leading_dropWhile length_dropWhile_le)
  then have "length es \<le> length s" using digit_vals_length [OF es(1)] by simp
  ultimately show thesis using es that by blast
qed

lemma push_limbs_spec:
  assumes table: "digit_table digit (2 ^ width)" and w: "0 < per_limb" "width * per_limb = 32"
    and ds: "digit_vals digit s = Some ds"
  shows "\<exists>limbs. push_limbs width per_limb digit s [] = Some limbs \<and>
           limbs_value 32 limbs = radix_value (2 ^ width) ds \<and> limbs_canonical limbs \<and> length limbs \<le> length s"
proof -
  obtain es where es: "digit_vals digit (strip_leading s) = Some es" "radix_value (2 ^ width) ds = radix_value (2 ^ width) es"
    "es \<noteq> [] \<Longrightarrow> hd es \<noteq> 0" "length es \<le> length s"
    using stripped_digits [OF table ds] by blast
  have "limbs_state width per_limb [] (0, 0, [])" using w by (simp add: limbs_state_def)
  from limb_loop_state [OF this w, of digit "rev (strip_leading s)" "rev es"] es(1) table
  obtain i limb limbs where loop: "fold_opt (limb_step width per_limb digit) (rev (strip_leading s)) (0, 0, []) = Some (i, limb, limbs)"
    and st: "limbs_state width per_limb (rev es) (i, limb, limbs)"
    by (auto simp: digit_vals_rev digit_table_def)
  let ?n = "length es" and ?r = "if i > 0 \<and> limb \<noteq> 0 then limbs @ [limb] else limbs"
  from st have i: "i = ?n mod per_limb" and len: "length limbs = ?n div per_limb"
    and limb: "unat limb < 2 ^ (i * width)"
    and val: "le_value (2 ^ width) (rev es) = limbs_value 32 limbs + 2 ^ (32 * length limbs) * unat limb"
    unfolding limbs_state_def prod.case length_rev by blast+
  have n: "?n = per_limb * length limbs + i" using i len by simp
  have v: "limbs_value 32 ?r = le_value (2 ^ width) (rev es)"
    using val limb by (auto simp: limbs_value_append unat_eq_zero)
  have below: "per_limb * (length ?r - 1) \<le> ?n - 1"
  proof (cases "i = 0")
    case True
    with n have "?n = per_limb * length limbs" by simp
    with True w(1) show ?thesis by (cases "length limbs") auto
  next
    case False
    then have "length ?r - 1 \<le> length limbs" by auto
    then have "per_limb * (length ?r - 1) \<le> per_limb * length limbs" by (rule mult_le_mono2)
    with n False show ?thesis by linarith
  qed
  have canon: "limbs_canonical ?r"
  proof (rule limbs_canonical_value)
    assume "?r \<noteq> []"
    then have "es \<noteq> []" using v by (cases es) (use st in \<open>auto simp: limbs_state_def split: if_splits\<close>)
    then have "(2 ^ width) ^ (?n - 1) \<le> limbs_value 32 ?r"
      using le_value_lower [of "rev es" "2 ^ width"] es(3) v by (simp add: last_rev)
    moreover have "32 * (length ?r - 1) \<le> width * (?n - 1)"
      using mult_le_mono2 [OF below, of width] w(2) by (simp add: mult.assoc [symmetric])
    then have "(2 :: nat) ^ (32 * (length ?r - 1)) \<le> 2 ^ (width * (?n - 1))"
      by (rule power_increasing) simp
    ultimately show "2 ^ (32 * (length ?r - 1)) \<le> limbs_value 32 ?r"
      by (simp add: power_mult)
  qed
  have "length ?r \<le> ?n"
  proof (cases "i = 0")
    case True
    with len show ?thesis by simp
  next
    case False
    have "1 * length limbs \<le> per_limb * length limbs" using w(1) by (intro mult_le_mono1) simp
    moreover have "length ?r \<le> length limbs + 1" by simp
    ultimately show ?thesis using n False by linarith
  qed
  then have "length ?r \<le> length s" using es(4) by simp
  moreover have "push_limbs width per_limb digit s [] = Some ?r" by (simp add: push_limbs_def loop)
  ultimately show ?thesis using canon v es(2) by (auto simp: radix_value_rev)
qed

subsection \<open>Decimal literals\<close>

lemma unat_ucast_32_64: "unat (ucast (x :: u32) :: u64) = unat x"
  using unsigned_less [of x, where 'a = nat] by (simp add: unsigned_ucast_eq take_bit_nat_eq_self)

lemma unat_less_pow32: "unat (x :: u32) < 2 ^ 32"
  using unsigned_less [of x, where 'a = nat] by simp

lemma mul_add_spec:
  "\<exists>limbs' carry'. mul_add_over_limbs limbs mul carry = Some (limbs', carry') \<and>
     length limbs' = length limbs \<and>
     limbs_value 32 limbs' + 2 ^ (32 * length limbs) * unat carry' = limbs_value 32 limbs * unat mul + unat carry"
proof (induction limbs arbitrary: carry)
  case (Cons limb limbs)
  define res :: u64 where "res = ucast limb * ucast mul"
  define hi :: u32 where "hi = ucast (drop_bit 32 res)"
  define lo :: u32 where "lo = ucast res"
  have bound: "unat limb * unat mul \<le> (2 ^ 32 - 1) * (2 ^ 32 - 1)"
    using unat_less_pow32 [of limb] unat_less_pow32 [of mul] by (intro mult_le_mono) auto
  then have res: "unat res = unat limb * unat mul"
    by (simp add: res_def unat_word_ariths unat_ucast_32_64)
  have lo: "unat lo = unat res mod 2 ^ 32"
    by (simp add: lo_def unsigned_ucast_eq take_bit_eq_mod)
  have "unat res div 2 ^ 32 \<le> ((2 ^ 32 - 1) * (2 ^ 32 - 1)) div 2 ^ 32"
    unfolding res using bound by (rule div_le_mono)
  also have "\<dots> = 2 ^ 32 - 2" by simp
  finally have small: "unat res div 2 ^ 32 \<le> 2 ^ 32 - 2" .
  have "unat (drop_bit 32 res) = unat res div 2 ^ 32"
    using unsigned_drop_bit_eq [of 32 res, where 'a = nat] unsigned_less [of res, where 'a = nat]
    by (simp add: take_bit_nat_eq_self drop_bit_eq_div)
  with small have hi: "unat hi = unat res div 2 ^ 32"
    by (simp add: hi_def unsigned_ucast_eq take_bit_nat_eq_self)
  define over where "over = (2 ^ 32 \<le> unat lo + unat carry)"
  define ca :: u32 where "ca = (if over then 1 else 0)"
  have ok: "unat hi + unat ca < 2 ^ 32" using small by (simp add: hi ca_def)
  then have hc: "unat (hi + ca) = unat hi + unat ca"
    by (simp add: unat_add_lem [THEN iffD1])
  have nl: "unat (lo + carry) + 2 ^ 32 * unat ca = unat lo + unat carry"
    using unat_less_pow32 [of lo] unat_less_pow32 [of carry]
    by (auto simp: ca_def over_def unat_word_ariths mod_if)
  from Cons [of "hi + ca"] obtain limbs' carry' where r: "mul_add_over_limbs limbs mul (hi + ca) = Some (limbs', carry')"
    "length limbs' = length limbs"
    "limbs_value 32 limbs' + 2 ^ (32 * length limbs) * unat carry' = limbs_value 32 limbs * unat mul + unat (hi + ca)"
    by blast
  have run: "mul_add_over_limbs (limb # limbs) mul carry = Some ((lo + carry) # limbs', carry')"
  proof -
    have "mul_add_over_limbs (limb # limbs) mul carry =
        do {
          rust_assert (unat hi + unat ca < 2 ^ 32);
          (rest, c) \<leftarrow> mul_add_over_limbs limbs mul (hi + ca);
          Some ((lo + carry) # rest, c)
        }"
      unfolding mul_add_over_limbs.simps Let_def res_def hi_def lo_def ca_def over_def ..
    then show ?thesis by (simp only: r(1) rust_assert_True [OF ok] Option.bind.simps prod.case)
  qed
  have "limbs_value 32 ((lo + carry) # limbs') + 2 ^ (32 * length (limb # limbs)) * unat carry' =
      unat (lo + carry) + 2 ^ 32 * (limbs_value 32 limbs' + 2 ^ (32 * length limbs) * unat carry')"
    by (simp add: power_add algebra_simps)
  also have "\<dots> = unat (lo + carry) + 2 ^ 32 * unat ca + 2 ^ 32 * unat hi + 2 ^ 32 * (limbs_value 32 limbs * unat mul)"
    by (simp only: r(3) hc distrib_left)
  also have "\<dots> = unat carry + (unat lo + 2 ^ 32 * unat hi) + 2 ^ 32 * (limbs_value 32 limbs * unat mul)"
    using nl by linarith
  also have "unat lo + 2 ^ 32 * unat hi = unat limb * unat mul"
    by (simp only: lo hi res [symmetric] mod_mult_div_eq)
  finally have "limbs_value 32 ((lo + carry) # limbs') + 2 ^ (32 * length (limb # limbs)) * unat carry' =
      limbs_value 32 (limb # limbs) * unat mul + unat carry"
    by (simp add: algebra_simps)
  moreover have "length ((lo + carry) # limbs') = length (limb # limbs)" by (simp add: r(2))
  ultimately show ?case using run by blast
qed simp

lemma decimal_step_spec:
  assumes canon: "limbs_canonical limbs" and d: "decimal_of c = Digit d"
  shows "\<exists>limbs'. decimal_step c limbs = Some limbs' \<and> limbs_canonical limbs' \<and>
           limbs_value 32 limbs' = limbs_value 32 limbs * 10 + unat d \<and> length limbs' \<le> length limbs + 1"
proof -
  from mul_add_spec [of limbs 10 d] obtain new carry where r: "mul_add_over_limbs limbs 10 d = Some (new, carry)"
    "length new = length limbs" and
    val: "limbs_value 32 new + 2 ^ (32 * length limbs) * unat carry = limbs_value 32 limbs * 10 + unat d"
    by auto
  let ?r = "if carry > 0 then new @ [carry] else new"
  have v: "limbs_value 32 ?r = limbs_value 32 limbs * 10 + unat d"
    using val r(2) by (auto simp: limbs_value_append word_gt_0)
  have "limbs_canonical ?r"
  proof (cases "carry > 0")
    case True
    then show ?thesis by (simp add: limbs_canonical_def word_gt_0)
  next
    case False
    show ?thesis
    proof (rule limbs_canonical_value)
      assume "?r \<noteq> []"
      with False r(2) have "limbs \<noteq> []" by auto
      with canon have "last limbs \<noteq> 0" "limbs = butlast limbs @ [last limbs]"
        by (simp_all add: limbs_canonical_def)
      then have "limbs_value 32 limbs =
          limbs_value 32 (butlast limbs) + 2 ^ (32 * (length limbs - 1)) * unat (last limbs)" "0 < unat (last limbs)"
        using limbs_value_append [of 32 "butlast limbs" "[last limbs]"] by (simp_all add: unat_gt_0)
      then have "2 ^ (32 * (length limbs - 1)) * 1 \<le> limbs_value 32 limbs"
        by (simp only: mult_le_mono2 trans_le_add2 Suc_leI One_nat_def)
      with v False r(2) show "2 ^ (32 * (length ?r - 1)) \<le> limbs_value 32 ?r" by simp
    qed
  qed
  with v r show ?thesis by (simp add: decimal_step_def d)
qed

lemma decimal_loop:
  "limbs_canonical limbs \<Longrightarrow> digit_vals decimal_of cs = Some ds \<Longrightarrow>
   \<exists>limbs'. fold_opt decimal_step cs limbs = Some limbs' \<and> limbs_canonical limbs' \<and>
     limbs_value 32 limbs' = fold (\<lambda>d v. v * 10 + d) ds (limbs_value 32 limbs) \<and>
     length limbs' \<le> length limbs + length ds"
proof (induction cs arbitrary: limbs ds)
  case (Cons c cs)
  show ?case
  proof (cases "decimal_of c")
    case (Digit d)
    from Cons.prems(2) Digit obtain ds' where ds': "digit_vals decimal_of cs = Some ds'" "ds = unat d # ds'"
      by (auto simp: map_option_case split: option.splits)
    from decimal_step_spec [OF Cons.prems(1) Digit] obtain limbs1 where
      step: "decimal_step c limbs = Some limbs1" "limbs_canonical limbs1"
      "limbs_value 32 limbs1 = limbs_value 32 limbs * 10 + unat d" "length limbs1 \<le> length limbs + 1"
      by blast
    from Cons.IH [OF step(2) ds'(1)] obtain limbs' where "fold_opt decimal_step cs limbs1 = Some limbs'"
      "limbs_canonical limbs'" "limbs_value 32 limbs' = fold (\<lambda>d v. v * 10 + d) ds' (limbs_value 32 limbs1)"
      "length limbs' \<le> length limbs1 + length ds'"
      by blast
    with step ds'(2) show ?thesis by simp
  next
    case Skip
    with Cons show ?thesis by (auto simp: decimal_step_def)
  next
    case Bad
    with Cons.prems show ?thesis by simp
  qed
qed simp

text \<open>The tables of the three parsers, checked byte by byte.\<close>

definition table_ok :: "(u8 \<Rightarrow> digit_step) \<Rightarrow> nat \<Rightarrow> u8 \<Rightarrow> bool" where
  "table_ok f b c = (case f c of
     Bad \<Rightarrow> True
   | Skip \<Rightarrow> c = 0x5F
   | Digit d \<Rightarrow> unat d < b \<and> (d = 0 \<longrightarrow> c = 0x30))"

lemma all_bytes:
  assumes "list_all (\<lambda>n. P (of_nat n :: u8)) [0..<256]"
  shows "P c"
proof -
  have "unat c < 256" using unsigned_less [of c, where 'a = nat] by simp
  with assms have "P (of_nat (unat c))" unfolding list_all_iff by (auto dest: bspec [where x = "unat c"])
  then show ?thesis by simp
qed

lemma digit_table_bytes:
  assumes "f 0x30 = Digit 0" "f 0x5F = Skip" "list_all (\<lambda>n. table_ok f b (of_nat n)) [0..<256]"
  shows "digit_table f b"
proof -
  have ok: "table_ok f b c" for c using all_bytes [OF assms(3)] .
  have "f c = Digit d \<Longrightarrow> unat d < b \<and> (d = 0 \<longrightarrow> c = 0x30)" for c d
    using ok [of c] by (simp add: table_ok_def)
  moreover have "f c = Skip \<Longrightarrow> c = 0x5F" for c
    using ok [of c] by (simp add: table_ok_def)
  ultimately show ?thesis using assms(1,2) unfolding digit_table_def by blast
qed

lemma decimal_table: "digit_table decimal_of 10"
  by (rule digit_table_bytes) (simp add: decimal_of_def, simp add: decimal_of_def, code_simp)

lemma bit_table: "digit_table bit_of (2 ^ 1)"
  by (rule digit_table_bytes) (simp add: bit_of_def, simp add: bit_of_def, code_simp)

lemma nibble_table: "digit_table nibble_of (2 ^ 4)"
  by (rule digit_table_bytes) (simp add: nibble_of_def, simp add: nibble_of_def, code_simp)

text \<open>The closures of the three parsers.\<close>

definition literal_spec :: "(u8 list \<Rightarrow> u32 list_of_lists \<Rightarrow> (nat \<times> u32 list_of_lists) option) \<Rightarrow> nat \<Rightarrow> (u8 \<Rightarrow> digit_step) \<Rightarrow> bool" where
  "literal_spec parse b digit \<longleftrightarrow> (\<forall>s l ds.
     lol_inv l \<longrightarrow> digit_vals digit s = Some ds \<longrightarrow>
     length (lol_values l) + length s < 2 ^ 32 \<longrightarrow> length (lol_starts l) < idx_limit \<longrightarrow>
     (\<exists>limbs l'. parse s l = Some (length (lol_lists l), l') \<and> lol_inv l' \<and>
        lol_lists l' = lol_lists l @ [limbs] \<and> limbs_value 32 limbs = radix_value b ds \<and> limbs_canonical limbs))"

lemma literal_specI:
  fixes parse :: "u8 list \<Rightarrow> u32 list_of_lists \<Rightarrow> (nat \<times> u32 list_of_lists) option"
  assumes "\<And>s l. parse s l = lol_push_with l (closure s)"
    and "\<And>s ds. digit_vals digit s = Some ds \<Longrightarrow>
      \<exists>limbs. closure s [] = Some limbs \<and> limbs_value 32 limbs = radix_value b ds \<and>
        limbs_canonical limbs \<and> length limbs \<le> length s"
  shows "literal_spec parse b digit"
  unfolding literal_spec_def
proof (intro allI impI)
  fix s and l :: "u32 list_of_lists" and ds
  assume l: "lol_inv l" "length (lol_values l) + length s < 2 ^ 32" "length (lol_starts l) < idx_limit"
    and "digit_vals digit s = Some ds"
  with assms(2) obtain limbs where limbs: "closure s [] = Some limbs" "limbs_value 32 limbs = radix_value b ds"
    "limbs_canonical limbs" "length limbs \<le> length s" by blast
  with l have "parse s l = Some (length (lol_lists l), lol_extend l limbs)"
    by (simp add: assms(1) lol_push_with_eq)
  with limbs l show "\<exists>limbs l'. parse s l = Some (length (lol_lists l), l') \<and> lol_inv l' \<and>
        lol_lists l' = lol_lists l @ [limbs] \<and> limbs_value 32 limbs = radix_value b ds \<and> limbs_canonical limbs"
    by (auto simp: lol_lists_extend lol_inv_extend)
qed

lemma from_radix16_spec: "literal_spec from_radix16_in 16 nibble_of"
  by (rule literal_specI [OF from_radix16_in_def]) (use push_limbs_spec [OF nibble_table, of 8] in simp)

lemma from_radix2_spec: "literal_spec from_radix2_in 2 bit_of"
  by (rule literal_specI [OF from_radix2_in_def]) (use push_limbs_spec [OF bit_table, of 32] in simp)

lemma from_radix10_spec: "literal_spec from_radix10_in 10 decimal_of"
proof (rule literal_specI [OF from_radix10_in_def])
  fix s ds assume "digit_vals decimal_of s = Some ds"
  then obtain es where es: "digit_vals decimal_of (strip_leading s) = Some es"
    "radix_value 10 ds = radix_value 10 es" "length es \<le> length s"
    using stripped_digits [OF decimal_table] by blast
  from decimal_loop [of "[]", OF _ es(1)] es(2,3)
  show "\<exists>limbs. fold_opt decimal_step (strip_leading s) [] = Some limbs \<and>
      limbs_value 32 limbs = radix_value 10 ds \<and> limbs_canonical limbs \<and> length limbs \<le> length s"
    by (auto simp: limbs_canonical_def radix_value_def)
qed

subsection \<open>Limbs as a 256-bit integer\<close>

lemma unat_limb_pair:
  "unat (push_bit 32 (ucast (hi :: u32)) OR ucast (lo :: u32) :: u64) = unat lo + 2 ^ 32 * unat hi"
proof -
  have "2 ^ 32 * unat hi < 2 ^ 64" using unat_less_pow32 [of hi] by simp
  then have "unat (push_bit 32 (ucast hi) :: u64) = push_bit 32 (unat hi)"
    using unsigned_push_bit_eq [of 32 "ucast hi :: u64", where 'a = nat]
    by (simp add: take_bit_nat_eq_self push_bit_eq_mult mult.commute unat_ucast_32_64)
  then show ?thesis
    using nat_or_shift [OF unat_less_pow32 [of lo], of "unat hi"]
    by (simp add: unsigned_or_eq unat_ucast_32_64 or.commute)
qed

lemma fill_limbs_value:
  "limbs_value 64 (fill_limbs (limb_pairs limbs) (replicate k 0)) = limbs_value 32 (take (2 * k) limbs) \<and>
   length (fill_limbs (limb_pairs limbs) (replicate k 0)) = k"
proof (induction limbs arbitrary: k rule: limb_pairs.induct)
  case 1
  show ?case by (induction k) simp_all
next
  case (2 lo)
  have z: "limbs_value 64 (replicate n (0 :: u64)) = 0" for n by (induction n) simp_all
  show ?case
    by (cases k) (simp_all add: z unat_limb_pair [of 0, simplified])
next
  case (3 lo hi rest)
  show ?case
  proof (cases k)
    case (Suc j)
    with 3 [of j] show ?thesis by (simp add: unat_limb_pair algebra_simps)
  qed simp
qed

lemma limbs_value_eq_0: "limbs_value w xs = 0 \<longleftrightarrow> (\<forall>x\<in>set xs. x = 0)"
  by (induction xs) (auto simp: unat_eq_zero)

lemma limbs_to_u256_spec:
  assumes "u256_law L"
  shows "case limbs_to_u256 L limbs of
           None \<Rightarrow> 2 ^ 256 \<le> limbs_value 32 limbs
         | Some v \<Rightarrow> unat v = limbs_value 32 limbs"
proof -
  have split: "limbs_value 32 limbs = limbs_value 32 (take 8 limbs) + 2 ^ (32 * length (take 8 limbs)) * limbs_value 32 (drop 8 limbs)"
    using limbs_value_append [of 32 "take 8 limbs" "drop 8 limbs"] by simp
  show ?thesis
  proof (cases "list_ex (\<lambda>limb. limb \<noteq> 0) (drop 8 limbs)")
    case True
    then have "limbs_value 32 (drop 8 limbs) \<noteq> 0" "length (take 8 limbs) = 8"
      by (auto simp: limbs_value_eq_0 list_ex_iff) (cases "8 \<le> length limbs"; simp)
    then have "2 ^ (32 * length (take 8 limbs)) * 1 \<le> 2 ^ (32 * length (take 8 limbs)) * limbs_value 32 (drop 8 limbs)"
      by (intro mult_le_mono2) simp
    with split \<open>length (take 8 limbs) = 8\<close> True show ?thesis by (simp add: limbs_to_u256_def)
  next
    case False
    then have "limbs_value 32 (drop 8 limbs) = 0" by (auto simp: limbs_value_eq_0 list_ex_iff)
    with split False assms fill_limbs_value [of limbs 4] show ?thesis
      by (simp add: limbs_to_u256_def u256_law_def)
  qed
qed

subsection \<open>Properties\<close>

text \<open>
  C28: number literals are read exactly, whatever their length. In hexadecimal, binary
  and decimal, a string of digits and underscores is stored under a fresh index as limbs that hold
  the number the digits write down, without leading zero limbs, and the numbers stored before keep
  their place.
\<close>

theorem literals_parse:
  assumes radix: "(parse, b, digit) \<in> {(from_radix16_in, 16, nibble_of), (from_radix2_in, 2, bit_of),
                                       (from_radix10_in, 10, decimal_of)}"
    and inv: "lol_inv l" and digits: "digit_vals digit s = Some ds"
    and room: "length (lol_values l) + length s < 2 ^ 32" "length (lol_starts l) < idx_limit"
  shows "\<exists>limbs l'. parse s l = Some (length (lol_lists l), l') \<and> lol_inv l' \<and>
           lol_lists l' = lol_lists l @ [limbs] \<and> limbs_value 32 limbs = radix_value b ds \<and>
           limbs_canonical limbs"
proof -
  have "literal_spec parse b digit"
    using radix from_radix16_spec from_radix2_spec from_radix10_spec by auto
  with inv digits room show ?thesis unfolding literal_spec_def by blast
qed

theorem literals_parse_witness:
  "\<exists>limbs l'. from_radix16_in [0x46, 0x5F, 0x31] lol_new = Some (0, l') \<and> lol_lists l' = [limbs] \<and>
     limbs_value 32 limbs = 0xF1"
proof -
  have ds: "digit_vals nibble_of [0x46, 0x5F, 0x31] = Some [15, 1]" by (simp add: nibble_of_def)
  have "\<exists>limbs l'. from_radix16_in [0x46, 0x5F, 0x31] lol_new = Some (length (lol_lists (lol_new :: u32 list_of_lists)), l') \<and>
      lol_inv l' \<and> lol_lists l' = lol_lists lol_new @ [limbs] \<and>
      limbs_value 32 limbs = radix_value 16 [15, 1] \<and> limbs_canonical limbs"
    by (rule literals_parse [OF _ lol_inv_new ds]) (simp_all add: lol_new_def idx_limit_def)
  then show ?thesis by (auto simp: radix_value_def)
qed

text \<open>
  C37: \<open>limbs_to_u256\<close> succeeds exactly on the numbers that fit 256 bits and
  then gives that number.
\<close>

theorem limbs_to_u256_exact:
  assumes "u256_law L"
  shows "map_option unat (limbs_to_u256 L limbs) =
    (if limbs_value 32 limbs < 2 ^ 256 then Some (limbs_value 32 limbs) else None)"
proof (cases "limbs_to_u256 L limbs")
  case None
  with limbs_to_u256_spec [OF assms, of limbs] show ?thesis by simp
next
  case (Some v)
  with limbs_to_u256_spec [OF assms, of limbs] unsigned_less [of v, where 'a = nat] show ?thesis by simp
qed

theorem limbs_to_u256_exact_witness:
  "map_option unat (limbs_to_u256 u256_ref [7, 1]) = Some (2 ^ 32 + 7) \<and>
   limbs_to_u256 u256_ref [0, 0, 0, 0, 0, 0, 0, 0, 1] = None"
  using limbs_to_u256_exact [OF u256_ref_law, of "[7, 1]"]
    limbs_to_u256_exact [OF u256_ref_law, of "[0, 0, 0, 0, 0, 0, 0, 0, 1]"] by simp

end
