(* ===== verification/Bit_Sets.thy ===== *)
theory Bit_Sets
  imports Prelude
begin

text \<open>
  Sets of indices kept as bits of a vector of machine words, the representation shared by
  \<open>DenseIndexSet\<close> (words of 64 bits) and by \<open>OpSet\<close> / \<open>OpSetMut\<close> (words of 8 bits). The
  operations below are polymorphic in the word length; \<open>bits_of\<close> is the set of indices a vector
  stands for. The locale \<open>index_set\<close> states what a client of such a set relies on.
\<close>

unbundle bit_operations_syntax

subsection \<open>The set a vector of words stands for\<close>

definition bit_at :: "'a::len word list \<Rightarrow> nat \<Rightarrow> bool" where
  "bit_at ws i \<longleftrightarrow> i div LENGTH('a) < length ws \<and> bit (ws ! (i div LENGTH('a))) (i mod LENGTH('a))"

definition bits_of :: "'a::len word list \<Rightarrow> nat set" where
  "bits_of ws = {i. bit_at ws i}"

lemma mem_bits_of [simp]: "i \<in> bits_of ws \<longleftrightarrow> bit_at ws i"
  by (simp add: bits_of_def)

lemma bit_at_less: "bit_at (ws :: 'a::len word list) i \<Longrightarrow> i < length ws * LENGTH('a)"
  by (auto simp: bit_at_def less_mult_imp_div_less div_less_iff_less_mult)

lemma finite_bits_of [simp]: "finite (bits_of (ws :: 'a::len word list))"
  by (rule finite_subset [of _ "{..<length ws * LENGTH('a)}"]) (auto dest: bit_at_less)

text \<open>The single-bit mask \<open>1 << shift\<close> tested and set by the operations.\<close>

definition bit_mask :: "nat \<Rightarrow> 'a::len word" where
  "bit_mask s = push_bit s 1"

lemma bit_bit_mask [simp]: "bit (bit_mask s :: 'a::len word) n \<longleftrightarrow> n = s \<and> s < LENGTH('a)"
  by (auto simp: bit_mask_def bit_exp_iff)

lemma and_bit_mask_eq_0: "(w AND bit_mask s = (0 :: 'a::len word)) \<longleftrightarrow> \<not> bit w s \<or> LENGTH('a) \<le> s"
proof -
  have "w AND bit_mask s = 0 \<longleftrightarrow> (\<forall>n. \<not> bit (w AND bit_mask s) n)"
    by (auto simp: bit_eq_iff dest: bit_imp_le_length)
  also have "\<dots> \<longleftrightarrow> \<not> bit w s \<or> LENGTH('a) \<le> s"
    by (auto simp: bit_and_iff not_le dest: bit_imp_le_length)
  finally show ?thesis .
qed

lemma bit_or_bit_mask [simp]:
  "bit (w OR bit_mask s :: 'a::len word) n \<longleftrightarrow> bit w n \<or> (n = s \<and> s < LENGTH('a))"
  by (auto simp: bit_or_iff)

lemma bit_and_not_bit_mask [simp]:
  "bit (w AND NOT (bit_mask s) :: 'a::len word) n \<longleftrightarrow> bit w n \<and> n \<noteq> s"
  by (auto simp: bit_and_iff bit_not_iff dest: bit_imp_le_length)

subsection \<open>Reading, setting and clearing one bit of a vector\<close>

definition words_contains :: "'a::len word list \<Rightarrow> nat \<Rightarrow> bool" where
  "words_contains ws i =
     (ws ! (i div LENGTH('a)) AND bit_mask (i mod LENGTH('a)) \<noteq> 0)"

definition words_set :: "'a::len word list \<Rightarrow> nat \<Rightarrow> 'a word list" where
  "words_set ws i = ws[i div LENGTH('a) := ws ! (i div LENGTH('a)) OR bit_mask (i mod LENGTH('a))]"

definition words_clear :: "'a::len word list \<Rightarrow> nat \<Rightarrow> 'a word list" where
  "words_clear ws i =
     ws[i div LENGTH('a) := ws ! (i div LENGTH('a)) AND NOT (bit_mask (i mod LENGTH('a)))]"

lemma words_contains_iff:
  "i div LENGTH('a) < length ws \<Longrightarrow> words_contains (ws :: 'a::len word list) i \<longleftrightarrow> bit_at ws i"
  by (simp add: words_contains_def bit_at_def and_bit_mask_eq_0 not_le)

lemma div_mod_index_eq: "i = j \<longleftrightarrow> i div d = j div d \<and> i mod d = j mod (d :: nat)"
  by (metis div_mult_mod_eq)

lemma bits_of_words_set:
  "i div LENGTH('a) < length ws \<Longrightarrow> bits_of (words_set (ws :: 'a::len word list) i) = insert i (bits_of ws)"
  by (auto simp: words_set_def bit_at_def nth_list_update
      div_mod_index_eq [of _ i "LENGTH('a)"] split: if_splits)

lemma bits_of_words_clear:
  "i div LENGTH('a) < length ws \<Longrightarrow> bits_of (words_clear (ws :: 'a::len word list) i) = bits_of ws - {i}"
  by (auto simp: words_clear_def bit_at_def nth_list_update
      div_mod_index_eq [of _ i "LENGTH('a)"] split: if_splits)

lemma length_words_set [simp]: "length (words_set ws i) = length ws"
  by (simp add: words_set_def)

lemma length_words_clear [simp]: "length (words_clear ws i) = length ws"
  by (simp add: words_clear_def)

lemma bits_of_append_zeros [simp]: "bits_of (ws @ replicate n 0) = bits_of (ws :: 'a::len word list)"
  by (auto simp: bit_at_def nth_append split: if_splits)

lemma bits_of_zeros [simp]: "bits_of (replicate n (0 :: 'a::len word)) = {}"
  by (auto simp: bit_at_def)

lemma bits_of_Nil [simp]: "bits_of ([] :: 'a::len word list) = {}"
  by (auto simp: bit_at_def)

subsection \<open>Counting bits: \<open>count_ones\<close>\<close>

definition count_ones :: "'a::len word \<Rightarrow> nat" where
  "count_ones w = length (filter (bit w) [0..<LENGTH('a)])"

lemma count_ones_card: "count_ones (w :: 'a::len word) = card {i. bit w i}"
proof -
  have "{i. bit w i} = set (filter (bit w) [0..<LENGTH('a)])"
    by (auto dest: bit_imp_le_length)
  then have "card {i. bit w i} = card (set (filter (bit w) [0..<LENGTH('a)]))" by (rule arg_cong)
  then show ?thesis
    by (simp add: count_ones_def distinct_card del: set_filter)
qed

lemma bits_of_Cons:
  "bits_of (w # ws :: 'a::len word list) = {i. bit w i} \<union> (\<lambda>i. i + LENGTH('a)) ` bits_of ws"
proof -
  have "bit_at (w # ws) i \<longleftrightarrow> bit w i \<or> (\<exists>j. bit_at ws j \<and> i = j + LENGTH('a))" for i
  proof (cases "i < LENGTH('a)")
    case True
    then show ?thesis by (auto simp: bit_at_def)
  next
    case False
    then obtain j where j: "i = j + LENGTH('a)" by (metis add.commute le_iff_add not_less)
    with False show ?thesis by (auto simp: bit_at_def div_add_self2 dest: bit_imp_le_length)
  qed
  then show ?thesis by (fastforce simp: bits_of_def)
qed

lemma sum_count_ones:
  "sum_list (map count_ones (ws :: 'a::len word list)) = card (bits_of ws)"
proof (induction ws)
  case (Cons w ws)
  have "{i. bit w i} \<inter> (\<lambda>i. i + LENGTH('a)) ` bits_of ws = {}"
    by (auto dest: bit_imp_le_length)
  moreover have "finite {i. bit w i}"
    by (rule finite_subset [of _ "{..<LENGTH('a)}"]) (auto dest: bit_imp_le_length)
  ultimately show ?case
    by (simp add: bits_of_Cons card_Un_disjoint card_image Cons.IH [symmetric] count_ones_card)
qed simp

subsection \<open>The interface of an index set\<close>

text \<open>
  What the traversals and the scheduler need of a set of indices: an empty set, a membership test
  and an insertion that may panic outside of the indices the set supports.
\<close>

locale index_set =
  fixes empty :: "'s"
    and contains :: "'s \<Rightarrow> nat \<Rightarrow> bool"
    and add :: "'s \<Rightarrow> nat \<Rightarrow> 's option"
    and elems :: "'s \<Rightarrow> nat set"
    and supported :: "'s \<Rightarrow> nat set"
    and invar :: "'s \<Rightarrow> bool"
  assumes invar_empty: "invar empty"
    and elems_empty: "elems empty = {}"
    and contains_iff: "invar s \<Longrightarrow> i \<in> supported s \<Longrightarrow> contains s i \<longleftrightarrow> i \<in> elems s"
    and add_total: "invar s \<Longrightarrow> i \<in> supported s \<Longrightarrow> \<exists>s'. add s i = Some s'"
    and add_elems: "invar s \<Longrightarrow> add s i = Some s' \<Longrightarrow> elems s' = insert i (elems s)"
    and add_invar: "invar s \<Longrightarrow> add s i = Some s' \<Longrightarrow> invar s'"
    and add_supported: "invar s \<Longrightarrow> add s i = Some s' \<Longrightarrow> supported s' = supported s"
begin

text \<open>Inserting a list of supported indices one after the other.\<close>

fun add_all :: "nat list \<Rightarrow> 's \<Rightarrow> 's option" where
  "add_all [] s = Some s"
| "add_all (i # is) s = Option.bind (add s i) (add_all is)"

lemma add_all_elems:
  "invar s \<Longrightarrow> set is \<subseteq> supported s \<Longrightarrow>
     \<exists>s'. add_all is s = Some s' \<and> invar s' \<and> elems s' = elems s \<union> set is"
proof (induction "is" arbitrary: s)
  case (Cons i "is")
  from Cons.prems obtain t where t: "add s i = Some t" using add_total by fastforce
  with Cons.prems Cons.IH [of t] show ?case
    by (auto simp: add_elems add_invar add_supported)
qed simp

lemma contains_after_add:
  "invar s \<Longrightarrow> add s i = Some s' \<Longrightarrow> j \<in> supported s \<Longrightarrow>
     contains s' j \<longleftrightarrow> j = i \<or> contains s j"
  by (simp add: contains_iff add_elems add_invar add_supported)

end

end
