(* ===== verification/Op_Kinds.thy ===== *)
theory Op_Kinds
  imports Opcodes
begin

text \<open>
  The operation kinds of the intermediate representation
  (\<open>plankc/sir/crates/data/src/operation/mod.rs\<close>): the enumeration \<open>OperationKind\<close> that
  \<open>define_operations!\<close> generates with its table of mnemonics and its parser, and the
  classifications of the kinds the passes and the backends rely on.
\<close>

datatype (plugins only:) operation_kind =
  OpAdd | OpMul | OpSub | OpDiv | OpSDiv | OpMod | OpSMod | OpAddMod | OpMulMod | OpExp |
  OpSignExtend | OpLt | OpGt | OpSLt | OpSGt | OpEq | OpIsZero | OpAnd | OpOr | OpXor | OpNot |
  OpByte | OpShl | OpShr | OpSar | OpClz | OpKeccak256 | OpAddress | OpBalance | OpOrigin |
  OpCaller | OpCallValue | OpCallDataLoad | OpCallDataSize | OpCallDataCopy | OpCodeSize |
  OpCodeCopy | OpGasPrice | OpExtCodeSize | OpExtCodeCopy | OpReturnDataSize |
  OpReturnDataCopy | OpExtCodeHash | OpGas | OpBlockHash | OpCoinbase | OpTimestamp |
  OpNumber | OpDifficulty | OpGasLimit | OpChainId | OpSelfBalance | OpBaseFee | OpBlobHash |
  OpBlobBaseFee | OpSLoad | OpSStore | OpTLoad | OpTStore | OpLog0 | OpLog1 | OpLog2 | OpLog3 |
  OpLog4 | OpCreate | OpCreate2 | OpCall | OpCallCode | OpDelegateCall | OpStaticCall |
  OpReturn | OpStop | OpRevert | OpInvalid | OpSelfDestruct | OpDynamicAllocZeroed |
  OpDynamicAllocAnyBytes | OpAcquireFreePointer | OpStaticAllocZeroed | OpStaticAllocAnyBytes |
  OpMemoryCopy | OpMemoryLoad | OpMemoryStore | OpSetCopy | OpSetSmallConst | OpSetLargeConst |
  OpSetDataOffset | OpNoop | OpInternalCall | OpInternalCallNever | OpRuntimeStartOffset |
  OpInitEndOffset | OpRuntimeLength

definition operation_kinds :: "operation_kind list" where
  "operation_kinds = [
     OpAdd, OpMul, OpSub, OpDiv, OpSDiv, OpMod, OpSMod, OpAddMod, OpMulMod, OpExp,
     OpSignExtend, OpLt, OpGt, OpSLt, OpSGt, OpEq, OpIsZero, OpAnd, OpOr, OpXor, OpNot, OpByte,
     OpShl, OpShr, OpSar, OpClz, OpKeccak256, OpAddress, OpBalance, OpOrigin, OpCaller,
     OpCallValue, OpCallDataLoad, OpCallDataSize, OpCallDataCopy, OpCodeSize, OpCodeCopy,
     OpGasPrice, OpExtCodeSize, OpExtCodeCopy, OpReturnDataSize, OpReturnDataCopy,
     OpExtCodeHash, OpGas, OpBlockHash, OpCoinbase, OpTimestamp, OpNumber, OpDifficulty,
     OpGasLimit, OpChainId, OpSelfBalance, OpBaseFee, OpBlobHash, OpBlobBaseFee, OpSLoad,
     OpSStore, OpTLoad, OpTStore, OpLog0, OpLog1, OpLog2, OpLog3, OpLog4, OpCreate, OpCreate2,
     OpCall, OpCallCode, OpDelegateCall, OpStaticCall, OpReturn, OpStop, OpRevert, OpInvalid,
     OpSelfDestruct, OpDynamicAllocZeroed, OpDynamicAllocAnyBytes, OpAcquireFreePointer,
     OpStaticAllocZeroed, OpStaticAllocAnyBytes, OpMemoryCopy, OpMemoryLoad, OpMemoryStore,
     OpSetCopy, OpSetSmallConst, OpSetLargeConst, OpSetDataOffset, OpNoop, OpInternalCall,
     OpInternalCallNever, OpRuntimeStartOffset, OpInitEndOffset, OpRuntimeLength]"

definition op_mnemonics :: "string list" where
  "op_mnemonics = [
     ''add'', ''mul'', ''sub'', ''div'', ''sdiv'', ''mod'', ''smod'', ''addmod'', ''mulmod'',
     ''exp'', ''signextend'', ''lt'', ''gt'', ''slt'', ''sgt'', ''eq'', ''iszero'', ''and'',
     ''or'', ''xor'', ''not'', ''byte'', ''shl'', ''shr'', ''sar'', ''clz'', ''keccak256'',
     ''address'', ''balance'', ''origin'', ''caller'', ''callvalue'', ''calldataload'',
     ''calldatasize'', ''calldatacopy'', ''codesize'', ''codecopy'', ''gasprice'',
     ''extcodesize'', ''extcodecopy'', ''returndatasize'', ''returndatacopy'', ''extcodehash'',
     ''gas'', ''blockhash'', ''coinbase'', ''timestamp'', ''number'', ''difficulty'',
     ''gaslimit'', ''chainid'', ''selfbalance'', ''basefee'', ''blobhash'', ''blobbasefee'',
     ''sload'', ''sstore'', ''tload'', ''tstore'', ''log0'', ''log1'', ''log2'', ''log3'',
     ''log4'', ''create'', ''create2'', ''call'', ''callcode'', ''delegatecall'',
     ''staticcall'', ''return'', ''stop'', ''revert'', ''invalid'', ''selfdestruct'',
     ''malloc'', ''mallocany'', ''freeptr'', ''salloc'', ''sallocany'', ''mcopy'', ''mload'',
     ''mstore'', ''copy'', ''const'', ''large_const'', ''data_offset'', ''noop'', ''icall'',
     ''icall_never'', ''runtime_start_offset'', ''init_end_offset'', ''runtime_length'']"

text \<open>The discriminant of a kind, its position in the declaration.\<close>

primrec kind_index :: "operation_kind \<Rightarrow> nat" where
  "kind_index OpAdd = 0"
| "kind_index OpMul = 1"
| "kind_index OpSub = 2"
| "kind_index OpDiv = 3"
| "kind_index OpSDiv = 4"
| "kind_index OpMod = 5"
| "kind_index OpSMod = 6"
| "kind_index OpAddMod = 7"
| "kind_index OpMulMod = 8"
| "kind_index OpExp = 9"
| "kind_index OpSignExtend = 10"
| "kind_index OpLt = 11"
| "kind_index OpGt = 12"
| "kind_index OpSLt = 13"
| "kind_index OpSGt = 14"
| "kind_index OpEq = 15"
| "kind_index OpIsZero = 16"
| "kind_index OpAnd = 17"
| "kind_index OpOr = 18"
| "kind_index OpXor = 19"
| "kind_index OpNot = 20"
| "kind_index OpByte = 21"
| "kind_index OpShl = 22"
| "kind_index OpShr = 23"
| "kind_index OpSar = 24"
| "kind_index OpClz = 25"
| "kind_index OpKeccak256 = 26"
| "kind_index OpAddress = 27"
| "kind_index OpBalance = 28"
| "kind_index OpOrigin = 29"
| "kind_index OpCaller = 30"
| "kind_index OpCallValue = 31"
| "kind_index OpCallDataLoad = 32"
| "kind_index OpCallDataSize = 33"
| "kind_index OpCallDataCopy = 34"
| "kind_index OpCodeSize = 35"
| "kind_index OpCodeCopy = 36"
| "kind_index OpGasPrice = 37"
| "kind_index OpExtCodeSize = 38"
| "kind_index OpExtCodeCopy = 39"
| "kind_index OpReturnDataSize = 40"
| "kind_index OpReturnDataCopy = 41"
| "kind_index OpExtCodeHash = 42"
| "kind_index OpGas = 43"
| "kind_index OpBlockHash = 44"
| "kind_index OpCoinbase = 45"
| "kind_index OpTimestamp = 46"
| "kind_index OpNumber = 47"
| "kind_index OpDifficulty = 48"
| "kind_index OpGasLimit = 49"
| "kind_index OpChainId = 50"
| "kind_index OpSelfBalance = 51"
| "kind_index OpBaseFee = 52"
| "kind_index OpBlobHash = 53"
| "kind_index OpBlobBaseFee = 54"
| "kind_index OpSLoad = 55"
| "kind_index OpSStore = 56"
| "kind_index OpTLoad = 57"
| "kind_index OpTStore = 58"
| "kind_index OpLog0 = 59"
| "kind_index OpLog1 = 60"
| "kind_index OpLog2 = 61"
| "kind_index OpLog3 = 62"
| "kind_index OpLog4 = 63"
| "kind_index OpCreate = 64"
| "kind_index OpCreate2 = 65"
| "kind_index OpCall = 66"
| "kind_index OpCallCode = 67"
| "kind_index OpDelegateCall = 68"
| "kind_index OpStaticCall = 69"
| "kind_index OpReturn = 70"
| "kind_index OpStop = 71"
| "kind_index OpRevert = 72"
| "kind_index OpInvalid = 73"
| "kind_index OpSelfDestruct = 74"
| "kind_index OpDynamicAllocZeroed = 75"
| "kind_index OpDynamicAllocAnyBytes = 76"
| "kind_index OpAcquireFreePointer = 77"
| "kind_index OpStaticAllocZeroed = 78"
| "kind_index OpStaticAllocAnyBytes = 79"
| "kind_index OpMemoryCopy = 80"
| "kind_index OpMemoryLoad = 81"
| "kind_index OpMemoryStore = 82"
| "kind_index OpSetCopy = 83"
| "kind_index OpSetSmallConst = 84"
| "kind_index OpSetLargeConst = 85"
| "kind_index OpSetDataOffset = 86"
| "kind_index OpNoop = 87"
| "kind_index OpInternalCall = 88"
| "kind_index OpInternalCallNever = 89"
| "kind_index OpRuntimeStartOffset = 90"
| "kind_index OpInitEndOffset = 91"
| "kind_index OpRuntimeLength = 92"

definition mnemonic :: "operation_kind \<Rightarrow> string option" where
  "mnemonic k = slice_get op_mnemonics (kind_index k)"

text \<open>The arms of the generated \<open>from_str\<close> are the mnemonics in the order of the declaration.\<close>

definition kind_from_str :: "string \<Rightarrow> operation_kind option" where
  "kind_from_str s = map_of (zip op_mnemonics operation_kinds) s"

primrec flip :: "operation_kind \<Rightarrow> operation_kind option" where
  "flip OpAdd = Some OpAdd"
| "flip OpMul = Some OpMul"
| "flip OpAnd = Some OpAnd"
| "flip OpOr = Some OpOr"
| "flip OpXor = Some OpXor"
| "flip OpEq = Some OpEq"
| "flip OpAddMod = Some OpAddMod"
| "flip OpMulMod = Some OpMulMod"
| "flip OpLt = Some OpGt"
| "flip OpGt = Some OpLt"
| "flip OpSLt = Some OpSGt"
| "flip OpSGt = Some OpSLt"
| "flip OpSub = None"
| "flip OpDiv = None"
| "flip OpSDiv = None"
| "flip OpMod = None"
| "flip OpSMod = None"
| "flip OpExp = None"
| "flip OpSignExtend = None"
| "flip OpIsZero = None"
| "flip OpNot = None"
| "flip OpByte = None"
| "flip OpShl = None"
| "flip OpShr = None"
| "flip OpSar = None"
| "flip OpClz = None"
| "flip OpKeccak256 = None"
| "flip OpAddress = None"
| "flip OpBalance = None"
| "flip OpOrigin = None"
| "flip OpCaller = None"
| "flip OpCallValue = None"
| "flip OpCallDataLoad = None"
| "flip OpCallDataSize = None"
| "flip OpCallDataCopy = None"
| "flip OpCodeSize = None"
| "flip OpCodeCopy = None"
| "flip OpGasPrice = None"
| "flip OpExtCodeSize = None"
| "flip OpExtCodeCopy = None"
| "flip OpReturnDataSize = None"
| "flip OpReturnDataCopy = None"
| "flip OpExtCodeHash = None"
| "flip OpGas = None"
| "flip OpBlockHash = None"
| "flip OpCoinbase = None"
| "flip OpTimestamp = None"
| "flip OpNumber = None"
| "flip OpDifficulty = None"
| "flip OpGasLimit = None"
| "flip OpChainId = None"
| "flip OpSelfBalance = None"
| "flip OpBaseFee = None"
| "flip OpBlobHash = None"
| "flip OpBlobBaseFee = None"
| "flip OpSLoad = None"
| "flip OpSStore = None"
| "flip OpTLoad = None"
| "flip OpTStore = None"
| "flip OpLog0 = None"
| "flip OpLog1 = None"
| "flip OpLog2 = None"
| "flip OpLog3 = None"
| "flip OpLog4 = None"
| "flip OpCreate = None"
| "flip OpCreate2 = None"
| "flip OpCall = None"
| "flip OpCallCode = None"
| "flip OpDelegateCall = None"
| "flip OpStaticCall = None"
| "flip OpReturn = None"
| "flip OpStop = None"
| "flip OpRevert = None"
| "flip OpInvalid = None"
| "flip OpSelfDestruct = None"
| "flip OpDynamicAllocZeroed = None"
| "flip OpDynamicAllocAnyBytes = None"
| "flip OpAcquireFreePointer = None"
| "flip OpStaticAllocZeroed = None"
| "flip OpStaticAllocAnyBytes = None"
| "flip OpMemoryCopy = None"
| "flip OpMemoryLoad = None"
| "flip OpMemoryStore = None"
| "flip OpSetCopy = None"
| "flip OpSetSmallConst = None"
| "flip OpSetLargeConst = None"
| "flip OpSetDataOffset = None"
| "flip OpNoop = None"
| "flip OpInternalCall = None"
| "flip OpInternalCallNever = None"
| "flip OpRuntimeStartOffset = None"
| "flip OpInitEndOffset = None"
| "flip OpRuntimeLength = None"

definition flippable :: "operation_kind \<Rightarrow> bool" where
  "flippable k = (flip k \<noteq> None)"

primrec as_literal_evm_op :: "operation_kind \<Rightarrow> u8 option" where
  "as_literal_evm_op OpDynamicAllocZeroed = None"
| "as_literal_evm_op OpDynamicAllocAnyBytes = None"
| "as_literal_evm_op OpAcquireFreePointer = None"
| "as_literal_evm_op OpStaticAllocZeroed = None"
| "as_literal_evm_op OpStaticAllocAnyBytes = None"
| "as_literal_evm_op OpMemoryLoad = None"
| "as_literal_evm_op OpMemoryStore = None"
| "as_literal_evm_op OpSetCopy = None"
| "as_literal_evm_op OpSetSmallConst = None"
| "as_literal_evm_op OpSetLargeConst = None"
| "as_literal_evm_op OpSetDataOffset = None"
| "as_literal_evm_op OpNoop = None"
| "as_literal_evm_op OpInternalCall = None"
| "as_literal_evm_op OpInternalCallNever = None"
| "as_literal_evm_op OpRuntimeStartOffset = None"
| "as_literal_evm_op OpInitEndOffset = None"
| "as_literal_evm_op OpRuntimeLength = None"
| "as_literal_evm_op OpAdd = Some op_ADD"
| "as_literal_evm_op OpMul = Some op_MUL"
| "as_literal_evm_op OpSub = Some op_SUB"
| "as_literal_evm_op OpDiv = Some op_DIV"
| "as_literal_evm_op OpSDiv = Some op_SDIV"
| "as_literal_evm_op OpMod = Some op_MOD"
| "as_literal_evm_op OpSMod = Some op_SMOD"
| "as_literal_evm_op OpAddMod = Some op_ADDMOD"
| "as_literal_evm_op OpMulMod = Some op_MULMOD"
| "as_literal_evm_op OpExp = Some op_EXP"
| "as_literal_evm_op OpSignExtend = Some op_SIGNEXTEND"
| "as_literal_evm_op OpLt = Some op_LT"
| "as_literal_evm_op OpGt = Some op_GT"
| "as_literal_evm_op OpSLt = Some op_SLT"
| "as_literal_evm_op OpSGt = Some op_SGT"
| "as_literal_evm_op OpEq = Some op_EQ"
| "as_literal_evm_op OpIsZero = Some op_ISZERO"
| "as_literal_evm_op OpAnd = Some op_AND"
| "as_literal_evm_op OpOr = Some op_OR"
| "as_literal_evm_op OpXor = Some op_XOR"
| "as_literal_evm_op OpNot = Some op_NOT"
| "as_literal_evm_op OpByte = Some op_BYTE"
| "as_literal_evm_op OpShl = Some op_SHL"
| "as_literal_evm_op OpShr = Some op_SHR"
| "as_literal_evm_op OpSar = Some op_SAR"
| "as_literal_evm_op OpClz = Some op_CLZ"
| "as_literal_evm_op OpKeccak256 = Some op_KECCAK256"
| "as_literal_evm_op OpAddress = Some op_ADDRESS"
| "as_literal_evm_op OpBalance = Some op_BALANCE"
| "as_literal_evm_op OpOrigin = Some op_ORIGIN"
| "as_literal_evm_op OpCaller = Some op_CALLER"
| "as_literal_evm_op OpCallValue = Some op_CALLVALUE"
| "as_literal_evm_op OpCallDataLoad = Some op_CALLDATALOAD"
| "as_literal_evm_op OpCallDataSize = Some op_CALLDATASIZE"
| "as_literal_evm_op OpCallDataCopy = Some op_CALLDATACOPY"
| "as_literal_evm_op OpCodeSize = Some op_CODESIZE"
| "as_literal_evm_op OpCodeCopy = Some op_CODECOPY"
| "as_literal_evm_op OpGasPrice = Some op_GASPRICE"
| "as_literal_evm_op OpExtCodeSize = Some op_EXTCODESIZE"
| "as_literal_evm_op OpExtCodeCopy = Some op_EXTCODECOPY"
| "as_literal_evm_op OpReturnDataSize = Some op_RETURNDATASIZE"
| "as_literal_evm_op OpReturnDataCopy = Some op_RETURNDATACOPY"
| "as_literal_evm_op OpExtCodeHash = Some op_EXTCODEHASH"
| "as_literal_evm_op OpGas = Some op_GAS"
| "as_literal_evm_op OpBlockHash = Some op_BLOCKHASH"
| "as_literal_evm_op OpCoinbase = Some op_COINBASE"
| "as_literal_evm_op OpTimestamp = Some op_TIMESTAMP"
| "as_literal_evm_op OpNumber = Some op_NUMBER"
| "as_literal_evm_op OpDifficulty = Some op_PREVRANDAO"
| "as_literal_evm_op OpGasLimit = Some op_GASLIMIT"
| "as_literal_evm_op OpChainId = Some op_CHAINID"
| "as_literal_evm_op OpSelfBalance = Some op_SELFBALANCE"
| "as_literal_evm_op OpBaseFee = Some op_BASEFEE"
| "as_literal_evm_op OpBlobHash = Some op_BLOBHASH"
| "as_literal_evm_op OpBlobBaseFee = Some op_BLOBBASEFEE"
| "as_literal_evm_op OpSLoad = Some op_SLOAD"
| "as_literal_evm_op OpSStore = Some op_SSTORE"
| "as_literal_evm_op OpTLoad = Some op_TLOAD"
| "as_literal_evm_op OpTStore = Some op_TSTORE"
| "as_literal_evm_op OpLog0 = Some op_LOG0"
| "as_literal_evm_op OpLog1 = Some op_LOG1"
| "as_literal_evm_op OpLog2 = Some op_LOG2"
| "as_literal_evm_op OpLog3 = Some op_LOG3"
| "as_literal_evm_op OpLog4 = Some op_LOG4"
| "as_literal_evm_op OpCreate = Some op_CREATE"
| "as_literal_evm_op OpCreate2 = Some op_CREATE2"
| "as_literal_evm_op OpCall = Some op_CALL"
| "as_literal_evm_op OpCallCode = Some op_CALLCODE"
| "as_literal_evm_op OpDelegateCall = Some op_DELEGATECALL"
| "as_literal_evm_op OpStaticCall = Some op_STATICCALL"
| "as_literal_evm_op OpReturn = Some op_RETURN"
| "as_literal_evm_op OpStop = Some op_STOP"
| "as_literal_evm_op OpRevert = Some op_REVERT"
| "as_literal_evm_op OpInvalid = Some op_INVALID"
| "as_literal_evm_op OpSelfDestruct = Some op_SELFDESTRUCT"
| "as_literal_evm_op OpMemoryCopy = Some op_MCOPY"

definition is_terminating :: "operation_kind \<Rightarrow> bool" where
  "is_terminating k = (k \<in> {OpReturn, OpStop, OpRevert, OpInvalid, OpSelfDestruct, OpInternalCallNever})"

primrec is_removable_when_unused :: "operation_kind \<Rightarrow> bool" where
  "is_removable_when_unused OpAdd = True"
| "is_removable_when_unused OpMul = True"
| "is_removable_when_unused OpSub = True"
| "is_removable_when_unused OpDiv = True"
| "is_removable_when_unused OpSDiv = True"
| "is_removable_when_unused OpMod = True"
| "is_removable_when_unused OpSMod = True"
| "is_removable_when_unused OpAddMod = True"
| "is_removable_when_unused OpMulMod = True"
| "is_removable_when_unused OpExp = True"
| "is_removable_when_unused OpSignExtend = True"
| "is_removable_when_unused OpLt = True"
| "is_removable_when_unused OpGt = True"
| "is_removable_when_unused OpSLt = True"
| "is_removable_when_unused OpSGt = True"
| "is_removable_when_unused OpEq = True"
| "is_removable_when_unused OpIsZero = True"
| "is_removable_when_unused OpAnd = True"
| "is_removable_when_unused OpOr = True"
| "is_removable_when_unused OpXor = True"
| "is_removable_when_unused OpNot = True"
| "is_removable_when_unused OpByte = True"
| "is_removable_when_unused OpShl = True"
| "is_removable_when_unused OpShr = True"
| "is_removable_when_unused OpSar = True"
| "is_removable_when_unused OpClz = True"
| "is_removable_when_unused OpKeccak256 = True"
| "is_removable_when_unused OpAddress = True"
| "is_removable_when_unused OpBalance = True"
| "is_removable_when_unused OpOrigin = True"
| "is_removable_when_unused OpCaller = True"
| "is_removable_when_unused OpCallValue = True"
| "is_removable_when_unused OpCallDataLoad = True"
| "is_removable_when_unused OpCallDataSize = True"
| "is_removable_when_unused OpCodeSize = True"
| "is_removable_when_unused OpGasPrice = True"
| "is_removable_when_unused OpExtCodeSize = True"
| "is_removable_when_unused OpReturnDataSize = True"
| "is_removable_when_unused OpExtCodeHash = True"
| "is_removable_when_unused OpBlockHash = True"
| "is_removable_when_unused OpCoinbase = True"
| "is_removable_when_unused OpTimestamp = True"
| "is_removable_when_unused OpNumber = True"
| "is_removable_when_unused OpDifficulty = True"
| "is_removable_when_unused OpGasLimit = True"
| "is_removable_when_unused OpChainId = True"
| "is_removable_when_unused OpSelfBalance = True"
| "is_removable_when_unused OpBaseFee = True"
| "is_removable_when_unused OpBlobHash = True"
| "is_removable_when_unused OpBlobBaseFee = True"
| "is_removable_when_unused OpSLoad = True"
| "is_removable_when_unused OpTLoad = True"
| "is_removable_when_unused OpDynamicAllocZeroed = True"
| "is_removable_when_unused OpDynamicAllocAnyBytes = True"
| "is_removable_when_unused OpAcquireFreePointer = True"
| "is_removable_when_unused OpStaticAllocZeroed = True"
| "is_removable_when_unused OpStaticAllocAnyBytes = True"
| "is_removable_when_unused OpMemoryLoad = True"
| "is_removable_when_unused OpSetCopy = True"
| "is_removable_when_unused OpSetSmallConst = True"
| "is_removable_when_unused OpSetLargeConst = True"
| "is_removable_when_unused OpSetDataOffset = True"
| "is_removable_when_unused OpNoop = True"
| "is_removable_when_unused OpRuntimeStartOffset = True"
| "is_removable_when_unused OpInitEndOffset = True"
| "is_removable_when_unused OpRuntimeLength = True"
| "is_removable_when_unused OpSStore = False"
| "is_removable_when_unused OpTStore = False"
| "is_removable_when_unused OpLog0 = False"
| "is_removable_when_unused OpLog1 = False"
| "is_removable_when_unused OpLog2 = False"
| "is_removable_when_unused OpLog3 = False"
| "is_removable_when_unused OpLog4 = False"
| "is_removable_when_unused OpCall = False"
| "is_removable_when_unused OpCallCode = False"
| "is_removable_when_unused OpDelegateCall = False"
| "is_removable_when_unused OpStaticCall = False"
| "is_removable_when_unused OpCreate = False"
| "is_removable_when_unused OpCreate2 = False"
| "is_removable_when_unused OpReturn = False"
| "is_removable_when_unused OpStop = False"
| "is_removable_when_unused OpRevert = False"
| "is_removable_when_unused OpInvalid = False"
| "is_removable_when_unused OpSelfDestruct = False"
| "is_removable_when_unused OpMemoryCopy = False"
| "is_removable_when_unused OpMemoryStore = False"
| "is_removable_when_unused OpCallDataCopy = False"
| "is_removable_when_unused OpCodeCopy = False"
| "is_removable_when_unused OpExtCodeCopy = False"
| "is_removable_when_unused OpReturnDataCopy = False"
| "is_removable_when_unused OpInternalCall = False"
| "is_removable_when_unused OpInternalCallNever = False"
| "is_removable_when_unused OpGas = False"

text \<open>
  The operand counts (inputs, outputs) that the declaration gives a kind through its data type
  (\<open>InlineOperands<I, O>\<close>, \<open>AllocatedIns<I, O>\<close>, \<open>()\<close>); the kinds with data of their own have none.
\<close>

primrec declared_arity :: "operation_kind \<Rightarrow> (nat \<times> nat) option" where
  "declared_arity OpAdd = Some (2, 1)"
| "declared_arity OpMul = Some (2, 1)"
| "declared_arity OpSub = Some (2, 1)"
| "declared_arity OpDiv = Some (2, 1)"
| "declared_arity OpSDiv = Some (2, 1)"
| "declared_arity OpMod = Some (2, 1)"
| "declared_arity OpSMod = Some (2, 1)"
| "declared_arity OpAddMod = Some (3, 1)"
| "declared_arity OpMulMod = Some (3, 1)"
| "declared_arity OpExp = Some (2, 1)"
| "declared_arity OpSignExtend = Some (2, 1)"
| "declared_arity OpLt = Some (2, 1)"
| "declared_arity OpGt = Some (2, 1)"
| "declared_arity OpSLt = Some (2, 1)"
| "declared_arity OpSGt = Some (2, 1)"
| "declared_arity OpEq = Some (2, 1)"
| "declared_arity OpIsZero = Some (1, 1)"
| "declared_arity OpAnd = Some (2, 1)"
| "declared_arity OpOr = Some (2, 1)"
| "declared_arity OpXor = Some (2, 1)"
| "declared_arity OpNot = Some (1, 1)"
| "declared_arity OpByte = Some (2, 1)"
| "declared_arity OpShl = Some (2, 1)"
| "declared_arity OpShr = Some (2, 1)"
| "declared_arity OpSar = Some (2, 1)"
| "declared_arity OpClz = Some (1, 1)"
| "declared_arity OpKeccak256 = Some (2, 1)"
| "declared_arity OpAddress = Some (0, 1)"
| "declared_arity OpBalance = Some (1, 1)"
| "declared_arity OpOrigin = Some (0, 1)"
| "declared_arity OpCaller = Some (0, 1)"
| "declared_arity OpCallValue = Some (0, 1)"
| "declared_arity OpCallDataLoad = Some (1, 1)"
| "declared_arity OpCallDataSize = Some (0, 1)"
| "declared_arity OpCallDataCopy = Some (3, 0)"
| "declared_arity OpCodeSize = Some (0, 1)"
| "declared_arity OpCodeCopy = Some (3, 0)"
| "declared_arity OpGasPrice = Some (0, 1)"
| "declared_arity OpExtCodeSize = Some (1, 1)"
| "declared_arity OpExtCodeCopy = Some (4, 0)"
| "declared_arity OpReturnDataSize = Some (0, 1)"
| "declared_arity OpReturnDataCopy = Some (3, 0)"
| "declared_arity OpExtCodeHash = Some (1, 1)"
| "declared_arity OpGas = Some (0, 1)"
| "declared_arity OpBlockHash = Some (1, 1)"
| "declared_arity OpCoinbase = Some (0, 1)"
| "declared_arity OpTimestamp = Some (0, 1)"
| "declared_arity OpNumber = Some (0, 1)"
| "declared_arity OpDifficulty = Some (0, 1)"
| "declared_arity OpGasLimit = Some (0, 1)"
| "declared_arity OpChainId = Some (0, 1)"
| "declared_arity OpSelfBalance = Some (0, 1)"
| "declared_arity OpBaseFee = Some (0, 1)"
| "declared_arity OpBlobHash = Some (1, 1)"
| "declared_arity OpBlobBaseFee = Some (0, 1)"
| "declared_arity OpSLoad = Some (1, 1)"
| "declared_arity OpSStore = Some (2, 0)"
| "declared_arity OpTLoad = Some (1, 1)"
| "declared_arity OpTStore = Some (2, 0)"
| "declared_arity OpLog0 = Some (2, 0)"
| "declared_arity OpLog1 = Some (3, 0)"
| "declared_arity OpLog2 = Some (4, 0)"
| "declared_arity OpLog3 = Some (5, 0)"
| "declared_arity OpLog4 = Some (6, 0)"
| "declared_arity OpCreate = Some (3, 1)"
| "declared_arity OpCreate2 = Some (4, 1)"
| "declared_arity OpCall = Some (7, 1)"
| "declared_arity OpCallCode = Some (7, 1)"
| "declared_arity OpDelegateCall = Some (6, 1)"
| "declared_arity OpStaticCall = Some (6, 1)"
| "declared_arity OpReturn = Some (2, 0)"
| "declared_arity OpStop = Some (0, 0)"
| "declared_arity OpRevert = Some (2, 0)"
| "declared_arity OpInvalid = Some (0, 0)"
| "declared_arity OpSelfDestruct = Some (1, 0)"
| "declared_arity OpDynamicAllocZeroed = Some (1, 1)"
| "declared_arity OpDynamicAllocAnyBytes = Some (1, 1)"
| "declared_arity OpAcquireFreePointer = Some (0, 1)"
| "declared_arity OpStaticAllocZeroed = None"
| "declared_arity OpStaticAllocAnyBytes = None"
| "declared_arity OpMemoryCopy = Some (3, 0)"
| "declared_arity OpMemoryLoad = None"
| "declared_arity OpMemoryStore = None"
| "declared_arity OpSetCopy = Some (1, 1)"
| "declared_arity OpSetSmallConst = None"
| "declared_arity OpSetLargeConst = None"
| "declared_arity OpSetDataOffset = None"
| "declared_arity OpNoop = Some (0, 0)"
| "declared_arity OpInternalCall = None"
| "declared_arity OpInternalCallNever = None"
| "declared_arity OpRuntimeStartOffset = Some (0, 1)"
| "declared_arity OpInitEndOffset = Some (0, 1)"
| "declared_arity OpRuntimeLength = Some (0, 1)"

subsection \<open>Facts about the tables\<close>

lemma operation_kinds_complete: "k \<in> set operation_kinds"
  by (cases k) (simp_all add: operation_kinds_def)

lemma kind_index_range: "map kind_index operation_kinds = [0..<93]"
  by (simp add: operation_kinds_def upt_conv_Cons)

lemma distinct_mnemonics: "distinct op_mnemonics"
  by (simp add: op_mnemonics_def)

lemma length_mnemonics: "length op_mnemonics = 93" "length operation_kinds = 93"
  by (simp_all add: op_mnemonics_def operation_kinds_def)

lemma kind_index_bound: "kind_index k < 93"
proof -
  have "kind_index k \<in> set (map kind_index operation_kinds)"
    using operation_kinds_complete by auto
  then show ?thesis by (simp add: kind_index_range)
qed

lemma nth_kind_index: "operation_kinds ! kind_index k = k"
proof -
  obtain i where i: "i < 93" "operation_kinds ! i = k"
    using operation_kinds_complete [of k] by (auto simp: in_set_conv_nth length_mnemonics)
  have "map kind_index operation_kinds ! i = i" using i by (simp add: kind_index_range)
  with i have "kind_index k = i" by (simp add: length_mnemonics)
  with i show ?thesis by simp
qed

lemma kind_index_inject: "kind_index a = kind_index b \<longleftrightarrow> a = b"
  by (metis nth_kind_index)

lemma kind_from_str_mnemonic:
  "\<exists>s. mnemonic k = Some s \<and> kind_from_str s = Some k"
proof -
  let ?i = "kind_index k"
  have i: "?i < length op_mnemonics" "?i < length operation_kinds"
    by (simp_all add: kind_index_bound length_mnemonics)
  then have "(op_mnemonics ! ?i, operation_kinds ! ?i) \<in> set (zip op_mnemonics operation_kinds)"
    by (metis in_set_zip fst_conv snd_conv)
  then have "map_of (zip op_mnemonics operation_kinds) (op_mnemonics ! ?i) = Some k"
    by (simp add: nth_kind_index map_of_is_SomeI distinct_mnemonics length_mnemonics)
  with i show ?thesis by (simp add: mnemonic_def kind_from_str_def)
qed

lemma mnemonic_kind_from_str:
  assumes "kind_from_str s = Some k"
  shows "mnemonic k = Some s"
proof -
  from assms have "(s, k) \<in> set (zip op_mnemonics operation_kinds)"
    by (auto simp: kind_from_str_def dest: map_of_SomeD)
  then obtain i where i: "i < 93" "op_mnemonics ! i = s" "operation_kinds ! i = k"
    by (auto simp: in_set_zip length_mnemonics)
  have "map kind_index operation_kinds ! i = i" using i by (simp add: kind_index_range)
  with i have "kind_index k = i" by (simp add: length_mnemonics)
  with i show ?thesis by (simp add: mnemonic_def length_mnemonics)
qed

lemma flip_involutive: "flip k = Some k' \<Longrightarrow> flip k' = Some k"
  by (cases k) auto

lemma flip_arity: "flip k = Some k' \<Longrightarrow> declared_arity k' = declared_arity k"
  by (cases k) auto

lemma flip_evm_op: "flip k = Some k' \<Longrightarrow> as_literal_evm_op k' \<noteq> None"
  by (cases k) auto

text \<open>The opcodes of the kinds with a literal opcode are pairwise different.\<close>

lemma distinct_literal_ops: "distinct (filter (\<lambda>b. b \<noteq> None) (map as_literal_evm_op operation_kinds))"
  by (simp add: operation_kinds_def opcode_defs)

lemma as_literal_evm_op_inject:
  assumes "as_literal_evm_op a = Some b" "as_literal_evm_op a' = Some b"
  shows "a = a'"
proof -
  have "inj_on as_literal_evm_op (set (filter (\<lambda>k. as_literal_evm_op k \<noteq> None) operation_kinds))"
    using distinct_literal_ops by (simp add: filter_map o_def distinct_map del: set_filter)
  with assms operation_kinds_complete show ?thesis by (auto simp: inj_on_def)
qed

subsection \<open>Properties\<close>

text \<open>
  Every operation kind has a mnemonic, and parsing gives a kind back exactly
  for its own mnemonic; no other string is accepted.
\<close>

theorem mnemonic_roundtrip:
  "(\<exists>s. mnemonic k = Some s) \<and> (kind_from_str s = Some k) = (mnemonic k = Some s)"
proof -
  obtain t where t: "mnemonic k = Some t" "kind_from_str t = Some k"
    using kind_from_str_mnemonic [of k] by blast
  then have "(kind_from_str s = Some k) = (mnemonic k = Some s)"
    using mnemonic_kind_from_str [of s k] by (metis option.inject)
  with t(1) show ?thesis by blast
qed

text \<open>
  Flipping is an involution on the flippable kinds and keeps the declared
  numbers of inputs and outputs, and no two kinds stand for the same EVM opcode.
\<close>

theorem flip_involution:
  "(flip k = Some k') = (flip k' = Some k) \<and>
   (case flip k of None \<Rightarrow> True | Some f \<Rightarrow> declared_arity f = declared_arity k \<and> as_literal_evm_op f \<noteq> None) \<and>
   (as_literal_evm_op k = None \<or> (as_literal_evm_op k = as_literal_evm_op k') = (k = k'))"
proof -
  have "(flip k = Some k') = (flip k' = Some k)" using flip_involutive by blast
  moreover have "case flip k of None \<Rightarrow> True | Some f \<Rightarrow> declared_arity f = declared_arity k \<and> as_literal_evm_op f \<noteq> None"
    using flip_arity [of k] flip_evm_op [of k] by (cases "flip k") simp_all
  moreover have "as_literal_evm_op k = None \<or> (as_literal_evm_op k = as_literal_evm_op k') = (k = k')"
    using as_literal_evm_op_inject [of k _ k'] by (cases "as_literal_evm_op k") auto
  ultimately show ?thesis by blast
qed

end
