(* ===== verification/Sir_Program.thy ===== *)
theory Sir_Program
  imports Op_Kinds Indices List_Stores
begin

text \<open>
  The program store of the intermediate representation
  (\<open>plankc/sir/crates/data/src/lib.rs\<close>, \<open>view.rs\<close>, \<open>operation/op_data.rs\<close> and the dispatch
  of \<open>operation/mod.rs\<close>). Blocks, operations, operand lists and switch tables live in index vectors of
  one record; blocks and operations refer to them by spans of indices. Reading a span or an entry out
  of range is a panic, \<open>None\<close>.

  The variants of \<open>Operation\<close> carry one of eleven data structs. \<open>op_shape\<close> is the table of
  \<open>define_operations!\<close> from variant to struct, with the constant generics \<open>INS\<close> and \<open>OUTS\<close>, and an
  operation is its kind with a value of its struct.
\<close>

type_synonym span = "nat \<times> nat"

definition span_len :: "span \<Rightarrow> nat option" where
  "span_len s = idx_sub (snd s) (fst s)"

definition span_is_empty :: "span \<Rightarrow> bool" where
  "span_is_empty s = (fst s = snd s)"

definition span_indices :: "span \<Rightarrow> nat list" where
  "span_indices s = [fst s..<snd s]"

definition read_span :: "'a list \<Rightarrow> span \<Rightarrow> 'a list option" where
  "read_span xs s = slice_range xs (fst s) (snd s)"

lemma span_indices_collect: "span_indices s = span_collect s"
  by (cases s) (simp add: span_indices_def span_collect_upt)

subsection \<open>The data of operations\<close>

datatype data_shape =
    UnitShape
  | InlineShape nat nat
  | AllocatedShape nat nat
  | StaticAllocShape
  | MemoryLoadShape
  | MemoryStoreShape
  | SmallConstShape
  | LargeConstShape
  | DataOffsetShape
  | CallShape
  | CallNeverShape

primrec op_shape :: "operation_kind \<Rightarrow> data_shape" where
  "op_shape OpAdd = InlineShape 2 1"
| "op_shape OpMul = InlineShape 2 1"
| "op_shape OpSub = InlineShape 2 1"
| "op_shape OpDiv = InlineShape 2 1"
| "op_shape OpSDiv = InlineShape 2 1"
| "op_shape OpMod = InlineShape 2 1"
| "op_shape OpSMod = InlineShape 2 1"
| "op_shape OpAddMod = AllocatedShape 3 1"
| "op_shape OpMulMod = AllocatedShape 3 1"
| "op_shape OpExp = InlineShape 2 1"
| "op_shape OpSignExtend = InlineShape 2 1"
| "op_shape OpLt = InlineShape 2 1"
| "op_shape OpGt = InlineShape 2 1"
| "op_shape OpSLt = InlineShape 2 1"
| "op_shape OpSGt = InlineShape 2 1"
| "op_shape OpEq = InlineShape 2 1"
| "op_shape OpIsZero = InlineShape 1 1"
| "op_shape OpAnd = InlineShape 2 1"
| "op_shape OpOr = InlineShape 2 1"
| "op_shape OpXor = InlineShape 2 1"
| "op_shape OpNot = InlineShape 1 1"
| "op_shape OpByte = InlineShape 2 1"
| "op_shape OpShl = InlineShape 2 1"
| "op_shape OpShr = InlineShape 2 1"
| "op_shape OpSar = InlineShape 2 1"
| "op_shape OpClz = InlineShape 1 1"
| "op_shape OpKeccak256 = InlineShape 2 1"
| "op_shape OpAddress = InlineShape 0 1"
| "op_shape OpBalance = InlineShape 1 1"
| "op_shape OpOrigin = InlineShape 0 1"
| "op_shape OpCaller = InlineShape 0 1"
| "op_shape OpCallValue = InlineShape 0 1"
| "op_shape OpCallDataLoad = InlineShape 1 1"
| "op_shape OpCallDataSize = InlineShape 0 1"
| "op_shape OpCallDataCopy = InlineShape 3 0"
| "op_shape OpCodeSize = InlineShape 0 1"
| "op_shape OpCodeCopy = InlineShape 3 0"
| "op_shape OpGasPrice = InlineShape 0 1"
| "op_shape OpExtCodeSize = InlineShape 1 1"
| "op_shape OpExtCodeCopy = AllocatedShape 4 0"
| "op_shape OpReturnDataSize = InlineShape 0 1"
| "op_shape OpReturnDataCopy = InlineShape 3 0"
| "op_shape OpExtCodeHash = InlineShape 1 1"
| "op_shape OpGas = InlineShape 0 1"
| "op_shape OpBlockHash = InlineShape 1 1"
| "op_shape OpCoinbase = InlineShape 0 1"
| "op_shape OpTimestamp = InlineShape 0 1"
| "op_shape OpNumber = InlineShape 0 1"
| "op_shape OpDifficulty = InlineShape 0 1"
| "op_shape OpGasLimit = InlineShape 0 1"
| "op_shape OpChainId = InlineShape 0 1"
| "op_shape OpSelfBalance = InlineShape 0 1"
| "op_shape OpBaseFee = InlineShape 0 1"
| "op_shape OpBlobHash = InlineShape 1 1"
| "op_shape OpBlobBaseFee = InlineShape 0 1"
| "op_shape OpSLoad = InlineShape 1 1"
| "op_shape OpSStore = InlineShape 2 0"
| "op_shape OpTLoad = InlineShape 1 1"
| "op_shape OpTStore = InlineShape 2 0"
| "op_shape OpLog0 = InlineShape 2 0"
| "op_shape OpLog1 = InlineShape 3 0"
| "op_shape OpLog2 = AllocatedShape 4 0"
| "op_shape OpLog3 = AllocatedShape 5 0"
| "op_shape OpLog4 = AllocatedShape 6 0"
| "op_shape OpCreate = AllocatedShape 3 1"
| "op_shape OpCreate2 = AllocatedShape 4 1"
| "op_shape OpCall = AllocatedShape 7 1"
| "op_shape OpCallCode = AllocatedShape 7 1"
| "op_shape OpDelegateCall = AllocatedShape 6 1"
| "op_shape OpStaticCall = AllocatedShape 6 1"
| "op_shape OpReturn = InlineShape 2 0"
| "op_shape OpStop = UnitShape"
| "op_shape OpRevert = InlineShape 2 0"
| "op_shape OpInvalid = UnitShape"
| "op_shape OpSelfDestruct = InlineShape 1 0"
| "op_shape OpDynamicAllocZeroed = InlineShape 1 1"
| "op_shape OpDynamicAllocAnyBytes = InlineShape 1 1"
| "op_shape OpAcquireFreePointer = InlineShape 0 1"
| "op_shape OpStaticAllocZeroed = StaticAllocShape"
| "op_shape OpStaticAllocAnyBytes = StaticAllocShape"
| "op_shape OpMemoryCopy = InlineShape 3 0"
| "op_shape OpMemoryLoad = MemoryLoadShape"
| "op_shape OpMemoryStore = MemoryStoreShape"
| "op_shape OpSetCopy = InlineShape 1 1"
| "op_shape OpSetSmallConst = SmallConstShape"
| "op_shape OpSetLargeConst = LargeConstShape"
| "op_shape OpSetDataOffset = DataOffsetShape"
| "op_shape OpNoop = UnitShape"
| "op_shape OpInternalCall = CallShape"
| "op_shape OpInternalCallNever = CallNeverShape"
| "op_shape OpRuntimeStartOffset = InlineShape 0 1"
| "op_shape OpInitEndOffset = InlineShape 0 1"
| "op_shape OpRuntimeLength = InlineShape 0 1"

text \<open>\<open>IRMemoryIOByteSize\<close>, an enumeration of the sizes 1 to 32 held as its discriminant.\<close>

type_synonym memory_io_size = nat

definition memory_io_size_try_from :: "nat \<Rightarrow> memory_io_size option" where
  "memory_io_size_try_from x = (if x \<in> {1..32} then Some x else None)"

definition memory_io_size_bits :: "memory_io_size \<Rightarrow> nat" where
  "memory_io_size_bits sz = sz * 8"

datatype op_data =
    UnitData
  | InlineOperands "nat list" "nat list"
  | AllocatedIns nat nat "nat list"
  | StaticAllocData nat nat nat
  | MemoryLoadData nat nat memory_io_size
  | MemoryStoreData "nat list" memory_io_size
  | SetSmallConstData nat nat
  | SetLargeConstData nat nat
  | SetDataOffsetData nat nat
  | InternalCallData nat nat nat
  | InternalCallNeverData nat span

text \<open>
  The fields are in the order of the structs: \<open>ins\<close>, \<open>outs\<close>; \<open>INS\<close>, \<open>ins_start\<close>, \<open>outs\<close>; \<open>size\<close>,
  \<open>ptr_out\<close>, \<open>alloc_id\<close>; \<open>out\<close>, \<open>ptr\<close>, \<open>size\<close>; \<open>ins\<close>, \<open>size\<close>; \<open>sets\<close>, \<open>value\<close> (twice);
  \<open>sets\<close>, \<open>segment_id\<close>; \<open>function\<close>, \<open>ins_start\<close>, \<open>outs_start\<close>; \<open>function\<close>, \<open>inputs\<close>.
\<close>

datatype operation = Operation (opn_kind: operation_kind) (opn_data: op_data)

text \<open>What the type system guarantees: the data of a variant has the variant's struct.\<close>

primrec shape_ok :: "op_data \<Rightarrow> data_shape \<Rightarrow> bool" where
  "shape_ok UnitData sh = (sh = UnitShape)"
| "shape_ok (InlineOperands ins outs) sh = (sh = InlineShape (length ins) (length outs))"
| "shape_ok (AllocatedIns count s outs) sh = (sh = AllocatedShape count (length outs))"
| "shape_ok (StaticAllocData sz p a) sh = (sh = StaticAllocShape \<and> sz < 2 ^ 32)"
| "shape_ok (MemoryLoadData a b sz) sh = (sh = MemoryLoadShape \<and> sz \<in> {1..32})"
| "shape_ok (MemoryStoreData ins sz) sh = (sh = MemoryStoreShape \<and> length ins = 2 \<and> sz \<in> {1..32})"
| "shape_ok (SetSmallConstData a v) sh = (sh = SmallConstShape \<and> v < 2 ^ 32)"
| "shape_ok (SetLargeConstData a c) sh = (sh = LargeConstShape)"
| "shape_ok (SetDataOffsetData a i) sh = (sh = DataOffsetShape)"
| "shape_ok (InternalCallData f a b) sh = (sh = CallShape)"
| "shape_ok (InternalCallNeverData f i) sh = (sh = CallNeverShape)"

definition op_typed :: "operation \<Rightarrow> bool" where
  "op_typed op = shape_ok (opn_data op) (op_shape (opn_kind op))"

subsection \<open>Functions, blocks and control\<close>

text \<open>\<open>ReturnKind\<close> is a \<open>u32\<close> whose largest value stands for a function that never returns.\<close>

type_synonym return_kind = nat

definition rk_never :: return_kind where
  "rk_never = 2 ^ 32 - 1"

definition rk_is_never :: "return_kind \<Rightarrow> bool" where
  "rk_is_never r = (r = rk_never)"

definition rk_count :: "return_kind \<Rightarrow> nat option" where
  "rk_count r = (if rk_is_never r then None else Some r)"

definition rk_values :: "nat \<Rightarrow> return_kind option" where
  "rk_values count = do { rust_assert (count \<noteq> rk_never); Some count }"

record fn_def =
  fn_entry :: nat
  fn_return_kind :: return_kind
  fn_source :: "nat option"

record branch =
  br_condition :: nat
  br_non_zero_target :: nat
  br_zero_target :: nat

record switch =
  sw_condition :: nat
  sw_fallback :: "nat option"
  sw_cases :: nat

record cases_table =
  cs_values_start :: nat
  cs_targets_start :: nat
  cs_count :: nat

datatype control =
    LastOpTerminates
  | InternalReturn
  | ContinuesTo nat
  | Branches branch
  | Switches switch

record basic_block =
  bb_inputs :: span
  bb_outputs :: span
  bb_operations :: span
  bb_control :: control

definition bb_implied_fn_out :: "basic_block \<Rightarrow> nat option option" where
  "bb_implied_fn_out bb =
     (case bb_control bb of
        InternalReturn \<Rightarrow> map_option Some (span_len (bb_outputs bb))
      | _ \<Rightarrow> Some None)"

record ir_program =
  ir_init_entry :: nat
  ir_main_entry :: "nat option"
  ir_functions :: "fn_def list"
  ir_blocks :: "basic_block list"
  ir_operations :: "operation list"
  ir_data_segments :: "u8 list_of_lists"
  ir_locals :: "nat list"
  ir_large_consts :: "u256 list"
  ir_cases :: "cases_table list"
  ir_cases_bb_ids :: "nat list"
  ir_next_free_local :: nat
  ir_next_static_alloc :: nat

definition ir_default :: ir_program where
  "ir_default = \<lparr>ir_init_entry = 0, ir_main_entry = None, ir_functions = [], ir_blocks = [],
     ir_operations = [], ir_data_segments = lol_new, ir_locals = [], ir_large_consts = [],
     ir_cases = [], ir_cases_bb_ids = [], ir_next_free_local = 0, ir_next_static_alloc = 0\<rparr>"

definition fn_get_inputs :: "fn_def \<Rightarrow> basic_block list \<Rightarrow> nat option" where
  "fn_get_inputs f blocks = do {
     entry \<leftarrow> slice_get blocks (fn_entry f);
     span_len (bb_inputs entry)
   }"

subsection \<open>Switch tables and outgoing edges\<close>

definition cs_get_values :: "cases_table \<Rightarrow> ir_program \<Rightarrow> u256 list option" where
  "cs_get_values c ir = do {
     stop \<leftarrow> idx_add (cs_values_start c) (cs_count c);
     slice_range (ir_large_consts ir) (cs_values_start c) stop
   }"

definition cs_get_bb_ids :: "cases_table \<Rightarrow> ir_program \<Rightarrow> nat list option" where
  "cs_get_bb_ids c ir = do {
     stop \<leftarrow> idx_add (cs_targets_start c) (cs_count c);
     slice_range (ir_cases_bb_ids ir) (cs_targets_start c) stop
   }"

definition cs_target_indices :: "cases_table \<Rightarrow> span option" where
  "cs_target_indices c = do {
     stop \<leftarrow> idx_add (cs_targets_start c) (cs_count c);
     Some (cs_targets_start c, stop)
   }"

text \<open>\<open>CasesIter\<close>: \<open>next\<close> on the two slices, and the pairs it yields until it is exhausted.\<close>

fun cases_iter_next :: "u256 list \<times> nat list \<Rightarrow> ((u256 \<times> nat) \<times> (u256 list \<times> nat list)) option" where
  "cases_iter_next (v # vs, t # ts) = Some ((v, t), (vs, ts))"
| "cases_iter_next _ = None"

function cases_iter_collect :: "u256 list \<times> nat list \<Rightarrow> (u256 \<times> nat) list" where
  "cases_iter_collect it =
     (case cases_iter_next it of None \<Rightarrow> [] | Some (x, it') \<Rightarrow> x # cases_iter_collect it')"
  by pat_completeness auto
termination
  by (relation "measure (\<lambda>it. length (fst it))") (auto elim: cases_iter_next.elims)

declare cases_iter_collect.simps [simp del]

lemma cases_iter_collect_zip: "cases_iter_collect (vs, ts) = zip vs ts"
proof (induction vs arbitrary: ts)
  case Nil
  then show ?case by (simp add: cases_iter_collect.simps)
next
  case (Cons v vs)
  then show ?case by (cases ts) (simp_all add: cases_iter_collect.simps [of "(v # vs, _)"])
qed

definition cs_iter :: "cases_table \<Rightarrow> ir_program \<Rightarrow> (u256 \<times> nat) list option" where
  "cs_iter c ir = do {
     vs \<leftarrow> cs_get_values c ir;
     ts \<leftarrow> cs_get_bb_ids c ir;
     Some (cases_iter_collect (vs, ts))
   }"

text \<open>
  \<open>OutgoingConnectionsIter\<close> holds a list and one extra connection that comes after it.
\<close>

record outgoing_iter =
  oc_extra :: "nat option"
  oc_list :: "nat list"

definition oc_empty :: outgoing_iter where
  "oc_empty = \<lparr>oc_extra = None, oc_list = []\<rparr>"

definition oc_new :: "nat list \<Rightarrow> nat option \<Rightarrow> outgoing_iter" where
  "oc_new xs extra = \<lparr>oc_extra = extra, oc_list = xs\<rparr>"

definition oc_from_list :: "nat list \<Rightarrow> outgoing_iter" where
  "oc_from_list xs = oc_new xs None"

definition oc_next :: "outgoing_iter \<Rightarrow> nat option \<times> outgoing_iter" where
  "oc_next it = (case oc_list it of
       bb # rest \<Rightarrow> (Some bb, it\<lparr>oc_list := rest\<rparr>)
     | [] \<Rightarrow> (oc_extra it, it\<lparr>oc_extra := None\<rparr>))"

definition oc_size :: "outgoing_iter \<Rightarrow> nat" where
  "oc_size it = length (oc_list it) + (case oc_extra it of None \<Rightarrow> 0 | Some _ \<Rightarrow> 1)"

function oc_collect :: "outgoing_iter \<Rightarrow> nat list" where
  "oc_collect it = (case oc_next it of (None, _) \<Rightarrow> [] | (Some bb, it') \<Rightarrow> bb # oc_collect it')"
  by pat_completeness auto
termination
  by (relation "measure oc_size")
    (auto simp: oc_next_def oc_size_def split: list.splits option.splits dest: sym)

declare oc_collect.simps [simp del]

lemma oc_collect_eq:
  "oc_collect \<lparr>oc_extra = e, oc_list = xs\<rparr> = xs @ (case e of None \<Rightarrow> [] | Some b \<Rightarrow> [b])"
proof (induction xs)
  case Nil
  then show ?case
    by (cases e) (simp_all add: oc_collect.simps oc_next_def)
next
  case (Cons x xs)
  then show ?case
    by (subst oc_collect.simps) (simp add: oc_next_def)
qed

definition ctl_iter_outgoing :: "control \<Rightarrow> ir_program \<Rightarrow> outgoing_iter option" where
  "ctl_iter_outgoing ctl ir =
     (case ctl of
        LastOpTerminates \<Rightarrow> Some oc_empty
      | InternalReturn \<Rightarrow> Some oc_empty
      | ContinuesTo bb \<Rightarrow> Some (oc_from_list [bb])
      | Branches b \<Rightarrow> Some (oc_new [br_zero_target b] (Some (br_non_zero_target b)))
      | Switches s \<Rightarrow> do {
          c \<leftarrow> slice_get (ir_cases ir) (sw_cases s);
          targets \<leftarrow> cs_get_bb_ids c ir;
          Some (oc_new targets (sw_fallback s))
        })"

definition ctl_outgoing :: "control \<Rightarrow> ir_program \<Rightarrow> nat list option" where
  "ctl_outgoing ctl ir = map_option oc_collect (ctl_iter_outgoing ctl ir)"

lemma ctl_outgoing_simps [simp]:
  "ctl_outgoing LastOpTerminates ir = Some []"
  "ctl_outgoing InternalReturn ir = Some []"
  "ctl_outgoing (ContinuesTo b) ir = Some [b]"
  "ctl_outgoing (Branches br) ir = Some [br_zero_target br, br_non_zero_target br]"
  "ctl_outgoing (Switches s) ir = do {
     c \<leftarrow> slice_get (ir_cases ir) (sw_cases s);
     targets \<leftarrow> cs_get_bb_ids c ir;
     Some (targets @ (case sw_fallback s of None \<Rightarrow> [] | Some b \<Rightarrow> [b]))
   }"
  by (simp_all add: ctl_outgoing_def ctl_iter_outgoing_def oc_empty_def oc_from_list_def oc_new_def
      oc_collect_eq map_option_bind comp_def)


subsection \<open>Operands of an operation\<close>

definition icall_inputs_span :: "nat \<Rightarrow> nat \<Rightarrow> span" where
  "icall_inputs_span ins_start outs_start = (ins_start, outs_start)"

text \<open>\<open>outputs_span\<close> reaches \<open>unreachable!\<close> for a target that never returns.\<close>

definition icall_outputs_span :: "nat \<Rightarrow> nat \<Rightarrow> fn_def list \<Rightarrow> span option" where
  "icall_outputs_span function outs_start functions = do {
     f \<leftarrow> slice_get functions function;
     output_count \<leftarrow> rk_count (fn_return_kind f);
     stop \<leftarrow> idx_add outs_start output_count;
     Some (outs_start, stop)
   }"

definition allocated_inputs_span :: "nat \<Rightarrow> nat \<Rightarrow> span option" where
  "allocated_inputs_span count ins_start = do {
     stop \<leftarrow> idx_add ins_start count;
     Some (ins_start, stop)
   }"

text \<open>
  \<open>InlineOpData\<close>, the operands of a struct that holds them itself; one dictionary per implementation.
  \<open>ins_mut\<close> and \<open>outs_mut\<close> return a mutable slice. They are modelled by the effect of a caller that
  overwrites the slice \<open>xs\<close> by \<open>f xs\<close> of the same length.
\<close>

record inline_op_data =
  iod_ins :: "nat list"
  iod_outs :: "nat list"
  iod_ins_mut :: "(nat list \<Rightarrow> nat list) \<Rightarrow> op_data"
  iod_outs_mut :: "(nat list \<Rightarrow> nat list) \<Rightarrow> op_data"

definition unit_inline :: "inline_op_data" where
  "unit_inline =
     \<lparr>iod_ins = [], iod_outs = [],
      iod_ins_mut = (\<lambda>f. UnitData),
      iod_outs_mut = (\<lambda>f. UnitData)\<rparr>"

definition operands_inline :: "nat list \<Rightarrow> nat list \<Rightarrow> inline_op_data" where
  "operands_inline ins outs =
     \<lparr>iod_ins = ins, iod_outs = outs,
      iod_ins_mut = (\<lambda>f. InlineOperands (f ins) outs),
      iod_outs_mut = (\<lambda>f. InlineOperands ins (f outs))\<rparr>"

definition static_alloc_inline :: "nat \<Rightarrow> nat \<Rightarrow> nat \<Rightarrow> inline_op_data" where
  "static_alloc_inline sz ptr_out alloc_id =
     \<lparr>iod_ins = [], iod_outs = [ptr_out],
      iod_ins_mut = (\<lambda>f. StaticAllocData sz ptr_out alloc_id),
      iod_outs_mut = (\<lambda>f. StaticAllocData sz (hd (f [ptr_out])) alloc_id)\<rparr>"

definition memory_load_inline :: "nat \<Rightarrow> nat \<Rightarrow> memory_io_size \<Rightarrow> inline_op_data" where
  "memory_load_inline out ptr sz =
     \<lparr>iod_ins = [ptr], iod_outs = [out],
      iod_ins_mut = (\<lambda>f. MemoryLoadData out (hd (f [ptr])) sz),
      iod_outs_mut = (\<lambda>f. MemoryLoadData (hd (f [out])) ptr sz)\<rparr>"

definition memory_store_inline :: "nat list \<Rightarrow> memory_io_size \<Rightarrow> inline_op_data" where
  "memory_store_inline ins sz =
     \<lparr>iod_ins = ins, iod_outs = [],
      iod_ins_mut = (\<lambda>f. MemoryStoreData (f ins) sz),
      iod_outs_mut = (\<lambda>f. MemoryStoreData ins sz)\<rparr>"

definition small_const_inline :: "nat \<Rightarrow> nat \<Rightarrow> inline_op_data" where
  "small_const_inline sets value =
     \<lparr>iod_ins = [], iod_outs = [sets],
      iod_ins_mut = (\<lambda>f. SetSmallConstData sets value),
      iod_outs_mut = (\<lambda>f. SetSmallConstData (hd (f [sets])) value)\<rparr>"

definition large_const_inline :: "nat \<Rightarrow> nat \<Rightarrow> inline_op_data" where
  "large_const_inline sets value =
     \<lparr>iod_ins = [], iod_outs = [sets],
      iod_ins_mut = (\<lambda>f. SetLargeConstData sets value),
      iod_outs_mut = (\<lambda>f. SetLargeConstData (hd (f [sets])) value)\<rparr>"

definition data_offset_inline :: "nat \<Rightarrow> nat \<Rightarrow> inline_op_data" where
  "data_offset_inline sets segment_id =
     \<lparr>iod_ins = [], iod_outs = [sets],
      iod_ins_mut = (\<lambda>f. SetDataOffsetData sets segment_id),
      iod_outs_mut = (\<lambda>f. SetDataOffsetData (hd (f [sets])) segment_id)\<rparr>"

lemmas inline_defs = unit_inline_def operands_inline_def static_alloc_inline_def memory_load_inline_def
  memory_store_inline_def small_const_inline_def large_const_inline_def data_offset_inline_def

declare inline_defs [simp]

definition ai_inputs :: "nat \<Rightarrow> nat \<Rightarrow> nat list \<Rightarrow> nat list option" where
  "ai_inputs count ins_start locals = slice_range locals ins_start (ins_start + count)"

definition icall_inputs :: "nat \<Rightarrow> nat \<Rightarrow> nat list \<Rightarrow> nat list option" where
  "icall_inputs ins_start outs_start locals = read_span locals (icall_inputs_span ins_start outs_start)"

definition icall_outputs :: "nat \<Rightarrow> nat \<Rightarrow> nat list \<Rightarrow> fn_def list \<Rightarrow> nat list option" where
  "icall_outputs function outs_start locals functions = do {
     s \<leftarrow> icall_outputs_span function outs_start functions;
     read_span locals s
   }"

definition icall_never_inputs :: "span \<Rightarrow> nat list \<Rightarrow> nat list option" where
  "icall_never_inputs inputs locals = read_span locals inputs"

text \<open>The dispatch over the variants; the structs with inline operands answer directly.\<close>

fun data_inputs :: "op_data \<Rightarrow> nat list \<Rightarrow> nat list option" where
  "data_inputs UnitData locals = Some (iod_ins unit_inline)"
| "data_inputs (InlineOperands ins outs) locals = Some (iod_ins (operands_inline ins outs))"
| "data_inputs (AllocatedIns count ins_start outs) locals =
     ai_inputs count ins_start locals"
| "data_inputs (StaticAllocData sz ptr_out alloc_id) locals = Some (iod_ins (static_alloc_inline sz ptr_out alloc_id))"
| "data_inputs (MemoryLoadData out ptr sz) locals = Some (iod_ins (memory_load_inline out ptr sz))"
| "data_inputs (MemoryStoreData ins sz) locals = Some (iod_ins (memory_store_inline ins sz))"
| "data_inputs (SetSmallConstData sets value) locals = Some (iod_ins (small_const_inline sets value))"
| "data_inputs (SetLargeConstData sets value) locals = Some (iod_ins (large_const_inline sets value))"
| "data_inputs (SetDataOffsetData sets segment_id) locals = Some (iod_ins (data_offset_inline sets segment_id))"
| "data_inputs (InternalCallData function ins_start outs_start) locals =
     icall_inputs ins_start outs_start locals"
| "data_inputs (InternalCallNeverData function inputs) locals = icall_never_inputs inputs locals"

fun data_outputs :: "op_data \<Rightarrow> nat list \<Rightarrow> fn_def list \<Rightarrow> nat list option" where
  "data_outputs UnitData locals functions = Some (iod_outs unit_inline)"
| "data_outputs (InlineOperands ins outs) locals functions = Some (iod_outs (operands_inline ins outs))"
| "data_outputs (AllocatedIns count ins_start outs) locals functions = Some outs"
| "data_outputs (StaticAllocData sz ptr_out alloc_id) locals functions = Some (iod_outs (static_alloc_inline sz ptr_out alloc_id))"
| "data_outputs (MemoryLoadData out ptr sz) locals functions = Some (iod_outs (memory_load_inline out ptr sz))"
| "data_outputs (MemoryStoreData ins sz) locals functions = Some (iod_outs (memory_store_inline ins sz))"
| "data_outputs (SetSmallConstData sets value) locals functions = Some (iod_outs (small_const_inline sets value))"
| "data_outputs (SetLargeConstData sets value) locals functions = Some (iod_outs (large_const_inline sets value))"
| "data_outputs (SetDataOffsetData sets segment_id) locals functions = Some (iod_outs (data_offset_inline sets segment_id))"
| "data_outputs (InternalCallData function ins_start outs_start) locals functions =
     icall_outputs function outs_start locals functions"
| "data_outputs (InternalCallNeverData function inputs) locals functions = Some []"

definition op_inputs :: "operation \<Rightarrow> ir_program \<Rightarrow> nat list option" where
  "op_inputs op ir = data_inputs (opn_data op) (ir_locals ir)"

definition op_outputs :: "operation \<Rightarrow> ir_program \<Rightarrow> nat list option" where
  "op_outputs op ir = data_outputs (opn_data op) (ir_locals ir) (ir_functions ir)"

text \<open>The same for a slice of the vector of locals.\<close>

definition write_span :: "('a list \<Rightarrow> 'a list) \<Rightarrow> 'a list \<Rightarrow> span \<Rightarrow> 'a list option" where
  "write_span f xs s = do {
     old \<leftarrow> slice_range xs (fst s) (snd s);
     Some (take (fst s) xs @ f old @ drop (snd s) xs)
   }"

definition ai_inputs_mut ::
    "(nat list \<Rightarrow> nat list) \<Rightarrow> nat \<Rightarrow> nat \<Rightarrow> nat list \<Rightarrow> nat list option" where
  "ai_inputs_mut f count ins_start locals = do {
     s \<leftarrow> allocated_inputs_span count ins_start;
     write_span f locals s
   }"

definition icall_inputs_mut ::
    "(nat list \<Rightarrow> nat list) \<Rightarrow> nat \<Rightarrow> nat \<Rightarrow> nat list \<Rightarrow> nat list option" where
  "icall_inputs_mut f ins_start outs_start locals =
     write_span f locals (icall_inputs_span ins_start outs_start)"

definition icall_outputs_mut ::
    "(nat list \<Rightarrow> nat list) \<Rightarrow> nat \<Rightarrow> nat \<Rightarrow> nat list \<Rightarrow> fn_def list \<Rightarrow> nat list option" where
  "icall_outputs_mut f function outs_start locals functions = do {
     s \<leftarrow> icall_outputs_span function outs_start functions;
     write_span f locals s
   }"

definition icall_never_inputs_mut ::
    "(nat list \<Rightarrow> nat list) \<Rightarrow> span \<Rightarrow> nat list \<Rightarrow> nat list option" where
  "icall_never_inputs_mut f inputs locals = write_span f locals inputs"

fun data_inputs_mut ::
    "(nat list \<Rightarrow> nat list) \<Rightarrow> op_data \<Rightarrow> nat list \<Rightarrow> (op_data \<times> nat list) option" where
  "data_inputs_mut f UnitData locals =
     Some (iod_ins_mut unit_inline f, locals)"
| "data_inputs_mut f (InlineOperands ins outs) locals =
     Some (iod_ins_mut (operands_inline ins outs) f, locals)"
| "data_inputs_mut f (AllocatedIns count ins_start outs) locals = do {
     locals' \<leftarrow> ai_inputs_mut f count ins_start locals;
     Some (AllocatedIns count ins_start outs, locals')
   }"
| "data_inputs_mut f (StaticAllocData sz ptr_out alloc_id) locals =
     Some (iod_ins_mut (static_alloc_inline sz ptr_out alloc_id) f, locals)"
| "data_inputs_mut f (MemoryLoadData out ptr sz) locals =
     Some (iod_ins_mut (memory_load_inline out ptr sz) f, locals)"
| "data_inputs_mut f (MemoryStoreData ins sz) locals =
     Some (iod_ins_mut (memory_store_inline ins sz) f, locals)"
| "data_inputs_mut f (SetSmallConstData sets value) locals =
     Some (iod_ins_mut (small_const_inline sets value) f, locals)"
| "data_inputs_mut f (SetLargeConstData sets value) locals =
     Some (iod_ins_mut (large_const_inline sets value) f, locals)"
| "data_inputs_mut f (SetDataOffsetData sets segment_id) locals =
     Some (iod_ins_mut (data_offset_inline sets segment_id) f, locals)"
| "data_inputs_mut f (InternalCallData function ins_start outs_start) locals = do {
     locals' \<leftarrow> icall_inputs_mut f ins_start outs_start locals;
     Some (InternalCallData function ins_start outs_start, locals')
   }"
| "data_inputs_mut f (InternalCallNeverData function inputs) locals = do {
     locals' \<leftarrow> icall_never_inputs_mut f inputs locals;
     Some (InternalCallNeverData function inputs, locals')
   }"

fun data_outputs_mut :: "(nat list \<Rightarrow> nat list) \<Rightarrow> op_data \<Rightarrow> nat list \<Rightarrow> fn_def list \<Rightarrow>
    (op_data \<times> nat list) option" where
  "data_outputs_mut f UnitData locals functions =
     Some (iod_outs_mut unit_inline f, locals)"
| "data_outputs_mut f (InlineOperands ins outs) locals functions =
     Some (iod_outs_mut (operands_inline ins outs) f, locals)"
| "data_outputs_mut f (AllocatedIns count ins_start outs) locals functions =
     Some (AllocatedIns count ins_start (f outs), locals)"
| "data_outputs_mut f (StaticAllocData sz ptr_out alloc_id) locals functions =
     Some (iod_outs_mut (static_alloc_inline sz ptr_out alloc_id) f, locals)"
| "data_outputs_mut f (MemoryLoadData out ptr sz) locals functions =
     Some (iod_outs_mut (memory_load_inline out ptr sz) f, locals)"
| "data_outputs_mut f (MemoryStoreData ins sz) locals functions =
     Some (iod_outs_mut (memory_store_inline ins sz) f, locals)"
| "data_outputs_mut f (SetSmallConstData sets value) locals functions =
     Some (iod_outs_mut (small_const_inline sets value) f, locals)"
| "data_outputs_mut f (SetLargeConstData sets value) locals functions =
     Some (iod_outs_mut (large_const_inline sets value) f, locals)"
| "data_outputs_mut f (SetDataOffsetData sets segment_id) locals functions =
     Some (iod_outs_mut (data_offset_inline sets segment_id) f, locals)"
| "data_outputs_mut f (InternalCallData function ins_start outs_start) locals functions = do {
     locals' \<leftarrow> icall_outputs_mut f function outs_start locals functions;
     Some (InternalCallData function ins_start outs_start, locals')
   }"
| "data_outputs_mut f (InternalCallNeverData function inputs) locals functions =
     Some (InternalCallNeverData function inputs, locals)"

text \<open>The spans of an operation's operands in the vector of locals.\<close>

definition ai_allocated_spans :: "nat \<Rightarrow> nat \<Rightarrow> (span option \<times> span option) option" where
  "ai_allocated_spans count ins_start = do {
     s \<leftarrow> allocated_inputs_span count ins_start;
     Some (Some s, None)
   }"

definition icall_allocated_spans ::
    "nat \<Rightarrow> nat \<Rightarrow> nat \<Rightarrow> fn_def list \<Rightarrow> (span option \<times> span option) option" where
  "icall_allocated_spans function ins_start outs_start functions = do {
     s \<leftarrow> icall_outputs_span function outs_start functions;
     Some (Some (icall_inputs_span ins_start outs_start), Some s)
   }"

definition icall_never_allocated_spans :: "span \<Rightarrow> (span option \<times> span option) option" where
  "icall_never_allocated_spans inputs = Some (Some inputs, None)"

fun data_allocated_spans :: "op_data \<Rightarrow> fn_def list \<Rightarrow> (span option \<times> span option) option" where
  "data_allocated_spans (AllocatedIns count ins_start outs) functions =
     ai_allocated_spans count ins_start"
| "data_allocated_spans (InternalCallData function ins_start outs_start) functions =
     icall_allocated_spans function ins_start outs_start functions"
| "data_allocated_spans (InternalCallNeverData function inputs) functions =
     icall_never_allocated_spans inputs"
| "data_allocated_spans _ functions = Some (None, None)"

definition op_allocated_spans :: "operation \<Rightarrow> ir_program \<Rightarrow> (span option \<times> span option) option" where
  "op_allocated_spans op ir = data_allocated_spans (opn_data op) (ir_functions ir)"

text \<open>
  \<open>clone_allocated\<close> re-points the operands at the copies a closure makes; the closure threads the state
  it captures.
\<close>

definition ai_clone_allocated ::
    "nat \<Rightarrow> nat \<Rightarrow> (span \<Rightarrow> 's \<Rightarrow> (nat \<times> 's) option) \<Rightarrow> 's \<Rightarrow> (nat \<times> 's) option" where
  "ai_clone_allocated count ins_start clone_span st = do {
     s \<leftarrow> allocated_inputs_span count ins_start;
     clone_span s st
   }"

definition icall_clone_allocated :: "nat \<Rightarrow> nat \<Rightarrow> nat \<Rightarrow> fn_def list \<Rightarrow>
    (span \<Rightarrow> 's \<Rightarrow> (nat \<times> 's) option) \<Rightarrow> 's \<Rightarrow> ((nat \<times> nat) \<times> 's) option" where
  "icall_clone_allocated function ins_start outs_start functions clone_span st = do {
     input_count \<leftarrow> idx_sub outs_start ins_start;
     os \<leftarrow> icall_outputs_span function outs_start functions;
     let old_operands = (ins_start, snd os);
     (ins_start, st) \<leftarrow> clone_span old_operands st;
     outs_start \<leftarrow> idx_add ins_start input_count;
     Some ((ins_start, outs_start), st)
   }"

definition icall_never_clone_allocated ::
    "span \<Rightarrow> (span \<Rightarrow> 's \<Rightarrow> (nat \<times> 's) option) \<Rightarrow> 's \<Rightarrow> (span \<times> 's) option" where
  "icall_never_clone_allocated inputs clone_span st = do {
     input_count \<leftarrow> idx_sub (snd inputs) (fst inputs);
     (start, st) \<leftarrow> clone_span inputs st;
     stop \<leftarrow> idx_add start input_count;
     Some ((start, stop), st)
   }"

fun data_clone_allocated :: "op_data \<Rightarrow> fn_def list \<Rightarrow> (span \<Rightarrow> 's \<Rightarrow> (nat \<times> 's) option) \<Rightarrow> 's \<Rightarrow>
    (op_data \<times> 's) option" where
  "data_clone_allocated (AllocatedIns count ins_start outs) functions clone_span st = do {
     (start, st) \<leftarrow> ai_clone_allocated count ins_start clone_span st;
     Some (AllocatedIns count start outs, st)
   }"
| "data_clone_allocated (InternalCallData function ins_start outs_start) functions clone_span st = do {
     ((ins', outs'), st) \<leftarrow> icall_clone_allocated function ins_start outs_start functions clone_span st;
     Some (InternalCallData function ins' outs', st)
   }"
| "data_clone_allocated (InternalCallNeverData function inputs) functions clone_span st = do {
     (inputs', st) \<leftarrow> icall_never_clone_allocated inputs clone_span st;
     Some (InternalCallNeverData function inputs', st)
   }"
| "data_clone_allocated d functions clone_span st = Some (d, st)"

lemmas operand_defs = ai_inputs_def icall_inputs_def icall_outputs_def icall_never_inputs_def
  ai_inputs_mut_def icall_inputs_mut_def icall_outputs_mut_def icall_never_inputs_mut_def
  ai_allocated_spans_def icall_allocated_spans_def icall_never_allocated_spans_def
  ai_clone_allocated_def icall_clone_allocated_def icall_never_clone_allocated_def

declare operand_defs [simp]

definition clone_span_into :: "nat list \<Rightarrow> span \<Rightarrow> nat list \<Rightarrow> (nat \<times> nat list) option" where
  "clone_span_into source s destination = do {
     start \<leftarrow> iv_len_idx destination;
     copied \<leftarrow> read_span source s;
     Some (start, destination @ copied)
   }"

definition clone_operation_into ::
    "ir_program \<Rightarrow> nat \<Rightarrow> ir_program \<Rightarrow> (operation \<times> ir_program) option" where
  "clone_operation_into ir operation destination = do {
     op \<leftarrow> slice_get (ir_operations ir) operation;
     (d, locals) \<leftarrow> data_clone_allocated (opn_data op) (ir_functions ir)
                      (clone_span_into (ir_locals ir)) (ir_locals destination);
     Some (Operation (opn_kind op) d, destination\<lparr>ir_locals := locals\<rparr>)
   }"

definition clone_operation :: "ir_program \<Rightarrow> nat \<Rightarrow> (nat \<times> ir_program) option" where
  "clone_operation ir operation = do {
     op \<leftarrow> slice_get (ir_operations ir) operation;
     (d, locals) \<leftarrow> data_clone_allocated (opn_data op) (ir_functions ir)
                      (\<lambda>s locals. clone_span_into locals s locals) (ir_locals ir);
     (idx, operations) \<leftarrow> iv_push (ir_operations ir) (Operation (opn_kind op) d);
     Some (idx, ir\<lparr>ir_locals := locals, ir_operations := operations\<rparr>)
   }"

subsection \<open>Views\<close>

definition bv_inputs :: "ir_program \<Rightarrow> nat \<Rightarrow> nat list option" where
  "bv_inputs ir b = do {
     bb \<leftarrow> slice_get (ir_blocks ir) b;
     read_span (ir_locals ir) (bb_inputs bb)
   }"

definition bv_outputs :: "ir_program \<Rightarrow> nat \<Rightarrow> nat list option" where
  "bv_outputs ir b = do {
     bb \<leftarrow> slice_get (ir_blocks ir) b;
     read_span (ir_locals ir) (bb_outputs bb)
   }"

definition bv_operations :: "ir_program \<Rightarrow> nat \<Rightarrow> nat list option" where
  "bv_operations ir b = do {
     bb \<leftarrow> slice_get (ir_blocks ir) b;
     Some (span_indices (bb_operations bb))
   }"

definition bv_successors :: "ir_program \<Rightarrow> nat \<Rightarrow> nat list option" where
  "bv_successors ir b = do {
     bb \<leftarrow> slice_get (ir_blocks ir) b;
     ctl_outgoing (bb_control bb) ir
   }"

definition ov_inputs :: "ir_program \<Rightarrow> nat \<Rightarrow> nat list option" where
  "ov_inputs ir i = do {
     op \<leftarrow> slice_get (ir_operations ir) i;
     op_inputs op ir
   }"

definition ov_outputs :: "ir_program \<Rightarrow> nat \<Rightarrow> nat list option" where
  "ov_outputs ir i = do {
     op \<leftarrow> slice_get (ir_operations ir) i;
     op_outputs op ir
   }"

definition fv_entry :: "ir_program \<Rightarrow> nat \<Rightarrow> nat option" where
  "fv_entry ir f = map_option fn_entry (slice_get (ir_functions ir) f)"

definition fv_num_inputs :: "ir_program \<Rightarrow> nat \<Rightarrow> nat option" where
  "fv_num_inputs ir f = do {
     fn \<leftarrow> slice_get (ir_functions ir) f;
     fn_get_inputs fn (ir_blocks ir)
   }"

definition fv_return_kind :: "ir_program \<Rightarrow> nat \<Rightarrow> return_kind option" where
  "fv_return_kind ir f = map_option fn_return_kind (slice_get (ir_functions ir) f)"

record switch_view =
  sv_condition :: nat
  sv_fallback :: "nat option"
  sv_cases_id :: nat
  sv_cases :: cases_table

datatype control_view =
    LastOpTerminatesView
  | InternalReturnView
  | ContinuesToView nat
  | BranchesView nat nat nat
  | SwitchView switch_view

definition cv_from_control :: "control \<Rightarrow> ir_program \<Rightarrow> control_view option" where
  "cv_from_control ctl ir =
     (case ctl of
        LastOpTerminates \<Rightarrow> Some LastOpTerminatesView
      | InternalReturn \<Rightarrow> Some InternalReturnView
      | ContinuesTo bb \<Rightarrow> Some (ContinuesToView bb)
      | Branches b \<Rightarrow> Some (BranchesView (br_condition b) (br_non_zero_target b) (br_zero_target b))
      | Switches s \<Rightarrow> do {
          c \<leftarrow> slice_get (ir_cases ir) (sw_cases s);
          Some (SwitchView \<lparr>sv_condition = sw_condition s, sv_fallback = sw_fallback s,
                            sv_cases_id = sw_cases s, sv_cases = c\<rparr>)
        })"

definition bv_control :: "ir_program \<Rightarrow> nat \<Rightarrow> control_view option" where
  "bv_control ir b = do {
     bb \<leftarrow> slice_get (ir_blocks ir) b;
     cv_from_control (bb_control bb) ir
   }"

definition sv_value_ids :: "switch_view \<Rightarrow> nat list option" where
  "sv_value_ids sv = do {
     _ \<leftarrow> (if cs_count (sv_cases sv) = 0 then Some 0
           else idx_add (cs_values_start (sv_cases sv)) (cs_count (sv_cases sv) - 1));
     Some (map (\<lambda>i. cs_values_start (sv_cases sv) + i) [0..<cs_count (sv_cases sv)])
   }"


subsection \<open>Reading and writing operands\<close>

lemma read_span_append: "read_span xs s = Some ys \<Longrightarrow> read_span (xs @ zs) s = Some ys"
  by (auto simp: read_span_def slice_range_def split: if_splits)

lemma slice_range_append: "slice_range xs a b = Some ys \<Longrightarrow> slice_range (xs @ zs) a b = Some ys"
  by (auto simp: slice_range_def split: if_splits)

lemma data_inputs_append:
  "data_inputs d locals = Some xs \<Longrightarrow> data_inputs d (locals @ zs) = Some xs"
  by (cases d) (simp_all add: read_span_append slice_range_append)

lemma data_outputs_append:
  "data_outputs d locals fs = Some xs \<Longrightarrow> data_outputs d (locals @ zs) fs = Some xs"
  by (cases d) (auto simp: bind_eq_Some_conv read_span_append)

lemma read_span_copied:
  assumes "o1 \<le> a" "a \<le> b" "b \<le> c" "c \<le> length source"
  shows "read_span (dst @ take (c - o1) (drop o1 source)) (length dst + (a - o1), length dst + (b - o1)) =
      read_span source (a, b)"
proof -
  have "take (b - a) (drop (a - o1) (take (c - o1) (drop o1 source))) = take (b - a) (drop a source)"
    using assms by (simp add: drop_take min_def)
  moreover have "length dst + (a - o1) \<le> length dst + (b - o1)" "b - o1 \<le> c - o1"
    using assms by simp_all
  ultimately show ?thesis
    using assms by (simp add: read_span_def slice_range_def)
qed

text \<open>
  What \<open>clone_allocated\<close> relies on: the closure appends a copy of the span it is given to the
  destination and returns where the copy starts.
\<close>

locale span_cloner =
  fixes clone_span :: "span \<Rightarrow> 's \<Rightarrow> (nat \<times> 's) option"
    and source :: "'s \<Rightarrow> nat list"
    and destination :: "'s \<Rightarrow> nat list"
  assumes clone_span_law: "clone_span s st = Some (start, st') \<Longrightarrow>
      fst s \<le> snd s \<and> snd s \<le> length (source st) \<and> start = length (destination st) \<and>
      destination st' = destination st @ take (snd s - fst s) (drop (fst s) (source st))"
begin

lemma clone_span_reads:
  assumes "clone_span s st = Some (start, st')" "fst s \<le> a" "a \<le> b" "b \<le> snd s"
  shows "read_span (destination st') (start + (a - fst s), start + (b - fst s)) =
      read_span (source st) (a, b)"
  using clone_span_law [OF assms(1)] assms(2-4)
    read_span_copied [of "fst s" a b "snd s" "source st" "destination st"] by simp

lemma clone_allocated_inputs:
  assumes "data_clone_allocated d fs clone_span st = Some (d', st')"
  shows "data_inputs d' (destination st') = data_inputs d (source st)"
proof (cases d)
  case (AllocatedIns count ins_start outs)
  with assms obtain start where cl: "clone_span (ins_start, ins_start + count) st = Some (start, st')"
    and d': "d' = AllocatedIns count start outs"
    by (auto simp: monad_elims allocated_inputs_span_def)
  from clone_span_reads [OF cl, of ins_start "ins_start + count"] AllocatedIns d' show ?thesis
    by (simp add: read_span_def)
next
  case (InternalCallData f a b)
  with assms obtain os start where os: "icall_outputs_span f b fs = Some os" and le: "a \<le> b"
    and cl: "clone_span (a, snd os) st = Some (start, st')"
    and d': "d' = InternalCallData f start (start + (b - a))"
    by (auto simp: monad_elims)
  from os have "b \<le> snd os" by (auto simp: icall_outputs_span_def monad_elims)
  with clone_span_reads [OF cl, of a b] le InternalCallData d' show ?thesis
    by (simp add: icall_inputs_span_def)
next
  case (InternalCallNeverData f i)
  with assms obtain start where le: "fst i \<le> snd i" and cl: "clone_span i st = Some (start, st')"
    and d': "d' = InternalCallNeverData f (start, start + (snd i - fst i))"
    by (auto simp: monad_elims)
  from clone_span_reads [OF cl, of "fst i" "snd i"] le InternalCallNeverData d' show ?thesis
    by simp
qed (use assms in auto)

lemma clone_allocated_outputs:
  assumes "data_clone_allocated d fs clone_span st = Some (d', st')"
    and "length (destination st') < idx_limit"
  shows "data_outputs d' (destination st') fs = data_outputs d (source st) fs"
proof (cases d)
  case (InternalCallData f a b)
  with assms obtain n start where n: "icall_outputs_span f b fs = Some (b, b + n)" and le: "a \<le> b"
    and cl: "clone_span (a, b + n) st = Some (start, st')"
    and d': "d' = InternalCallData f start (start + (b - a))"
    by (auto simp: monad_elims icall_outputs_span_def)
  from clone_span_law [OF cl] have "length (destination st') = start + (b + n - a)"
    by (auto simp: min_def)
  with assms(2) le have "start + (b - a) + n < idx_limit" by simp
  moreover from clone_span_reads [OF cl, of b "b + n"] le
  have "read_span (destination st') (start + (b - a), start + (b - a) + n) = read_span (source st) (b, b + n)"
    by (simp add: algebra_simps)
  ultimately show ?thesis
    using n InternalCallData d' by (auto simp: icall_outputs_span_def monad_elims)
qed (use assms in \<open>auto simp: monad_elims\<close>)

lemma clone_allocated_shape:
  "data_clone_allocated d fs clone_span st = Some (d', st') \<Longrightarrow>
     shape_ok d' sh = shape_ok d sh"
  by (cases d) (auto simp: monad_elims)

lemma clone_allocated_appends:
  "data_clone_allocated d fs clone_span st = Some (d', st') \<Longrightarrow>
     (\<exists>ws. destination st' = destination st @ ws) \<or> st' = st"
  by (cases d) (auto simp: monad_elims dest!: clone_span_law)

lemma clone_allocated_fresh:
  assumes "data_clone_allocated d fs clone_span st = Some (d', st')"
    and "data_inputs_mut g d' (destination st') = Some (d'', locals)"
    and "\<And>xs. length (g xs) = length xs"
  shows "take (length (destination st)) locals = take (length (destination st)) (destination st')"
  using assms
  by (cases d) (auto simp: monad_elims write_span_def allocated_inputs_span_def icall_inputs_span_def
      slice_range_def split: if_splits dest!: clone_span_law)

end

interpretation clone_into: span_cloner "clone_span_into source" "\<lambda>_. source" "\<lambda>dst. dst"
  for source
  by unfold_locales (auto simp: clone_span_into_def iv_len_idx_def read_span_def monad_elims)

interpretation clone_within: span_cloner "\<lambda>s locals. clone_span_into locals s locals" "\<lambda>l. l" "\<lambda>l. l"
  by unfold_locales (auto simp: clone_span_into_def iv_len_idx_def read_span_def monad_elims)


lemmas clone_defs = clone_operation_def clone_operation_into_def op_inputs_def op_outputs_def
  ov_inputs_def ov_outputs_def op_typed_def iv_push_def

lemma clone_operation_parts:
  assumes "clone_operation ir i = Some (j, ir')"
  obtains op d where "slice_get (ir_operations ir) i = Some op"
    "data_clone_allocated (opn_data op) (ir_functions ir)
       (\<lambda>s locals. clone_span_into locals s locals) (ir_locals ir) = Some (d, ir_locals ir')"
    "j = length (ir_operations ir)" "ir_functions ir' = ir_functions ir"
    "ir_operations ir' = ir_operations ir @ [Operation (opn_kind op) d]"
  using assms by (auto simp: clone_operation_def iv_push_def monad_elims)

lemma clone_grows:
  assumes "clone_operation ir i = Some (j, ir')"
  shows "\<exists>ws. ir_locals ir' = ir_locals ir @ ws"
proof -
  obtain op d where "data_clone_allocated (opn_data op) (ir_functions ir)
       (\<lambda>s locals. clone_span_into locals s locals) (ir_locals ir) = Some (d, ir_locals ir')"
    using assms by (rule clone_operation_parts)
  from clone_within.clone_allocated_appends [OF this] show ?thesis by auto
qed

lemma clone_operation_facts:
  assumes "clone_operation ir i = Some (j, ir')"
    and "length (ir_locals ir') < idx_limit"
  shows "j = length (ir_operations ir)"
    and "\<exists>op d. slice_get (ir_operations ir) i = Some op \<and>
           ir_operations ir' = ir_operations ir @ [Operation (opn_kind op) d] \<and>
           op_typed (Operation (opn_kind op) d) = op_typed op"
    and "ov_inputs ir' j = ov_inputs ir i" and "ov_outputs ir' j = ov_outputs ir i"
    and "ov_inputs ir k = Some xs \<Longrightarrow> ov_inputs ir' k = Some xs"
    and "ov_outputs ir k = Some xs \<Longrightarrow> ov_outputs ir' k = Some xs"
    and "data_inputs_mut g (opn_data (ir_operations ir' ! j)) (ir_locals ir') = Some (d'', locals) \<Longrightarrow>
      (\<And>xs. length (g xs) = length xs) \<Longrightarrow> ov_inputs ir k = Some xs \<Longrightarrow>
      ov_inputs (ir'\<lparr>ir_locals := locals\<rparr>) k = Some xs"
proof -
  obtain op d where op: "slice_get (ir_operations ir) i = Some op"
    and cl: "data_clone_allocated (opn_data op) (ir_functions ir)
       (\<lambda>s locals. clone_span_into locals s locals) (ir_locals ir) = Some (d, ir_locals ir')"
    and j: "j = length (ir_operations ir)" and fs: "ir_functions ir' = ir_functions ir"
    and ops: "ir_operations ir' = ir_operations ir @ [Operation (opn_kind op) d]"
    using assms(1) by (rule clone_operation_parts)
  obtain ws where ws: "ir_locals ir' = ir_locals ir @ ws" using clone_grows [OF assms(1)] ..
  show "j = length (ir_operations ir)" by fact
  show "\<exists>op d. slice_get (ir_operations ir) i = Some op \<and>
           ir_operations ir' = ir_operations ir @ [Operation (opn_kind op) d] \<and>
           op_typed (Operation (opn_kind op) d) = op_typed op"
    using op ops clone_within.clone_allocated_shape [OF cl] by (auto simp: op_typed_def)
  show "ov_inputs ir' j = ov_inputs ir i"
    using clone_within.clone_allocated_inputs [OF cl] op ops j by (simp add: clone_defs)
  show "ov_outputs ir' j = ov_outputs ir i"
    using clone_within.clone_allocated_outputs [OF cl assms(2)] op ops j fs by (simp add: clone_defs)
  show "ov_inputs ir k = Some xs \<Longrightarrow> ov_inputs ir' k = Some xs"
    by (auto simp: clone_defs ops ws monad_elims nth_append data_inputs_append)
  show "ov_outputs ir k = Some xs \<Longrightarrow> ov_outputs ir' k = Some xs"
    by (auto simp: clone_defs ops ws fs monad_elims nth_append data_outputs_append)
  assume w: "data_inputs_mut g (opn_data (ir_operations ir' ! j)) (ir_locals ir') = Some (d'', locals)"
    and g: "\<And>xs. length (g xs) = length xs" and k: "ov_inputs ir k = Some xs"
  from w ops j have "data_inputs_mut g d (ir_locals ir') = Some (d'', locals)" by simp
  from clone_within.clone_allocated_fresh [OF cl this g] ws
  have "take (length (ir_locals ir)) locals = ir_locals ir" by simp
  then obtain zs where "locals = ir_locals ir @ zs" by (metis append_take_drop_id)
  with k show "ov_inputs (ir'\<lparr>ir_locals := locals\<rparr>) k = Some xs"
    by (auto simp: clone_defs ops monad_elims nth_append data_inputs_append)
qed

definition sample_program :: ir_program where
  "sample_program = ir_default\<lparr>ir_locals := [0, 1, 2],
     ir_operations := [Operation OpAddMod (AllocatedIns 3 0 [3])]\<rparr>"

subsection \<open>Properties\<close>



end
