(* ===== verification/Permute.thy ===== *)
theory Permute
  imports Prelude
begin

text \<open>
  The search for a sequence of swaps that brings the most values of the stack to where an operation
  wants them (\<open>plankc/sir/crates/stack-scheduling/src/greedy_intra_op_scheduler/permute.rs\<close>). The
  search explores sequences of swaps depth first, keeps the best one and stops after a number of
  complete sequences. The recursion carries a depth bound; \<open>best_permute_returns\<close> shows that three
  times the length of the stack is enough and that nothing panics.
\<close>

subsection \<open>Positions\<close>

datatype value_loc = LocTail | LocHead nat

definition is_head_and_eq :: "value_loc \<Rightarrow> nat \<Rightarrow> bool" where
  "is_head_and_eq loc v = (loc = LocHead v)"

definition is_tail :: "value_loc \<Rightarrow> bool" where
  "is_tail loc = (loc = LocTail)"

definition target_loc :: "nat list \<Rightarrow> nat \<Rightarrow> value_loc" where
  "target_loc target i = (if i < length target then LocHead (target ! i) else LocTail)"

definition loc_preserved :: "nat list \<Rightarrow> value_loc \<Rightarrow> bool" where
  "loc_preserved to_preserve loc = (case loc of LocHead v \<Rightarrow> v \<in> set to_preserve | LocTail \<Rightarrow> False)"

subsection \<open>The search\<close>

record search =
  se_best :: "nat \<times> nat list"
  se_budget :: nat

text \<open>
  The loops return early when the budget is used up: the flag says whether to go on. The outer
  option is the panic.
\<close>

fun each_while :: "('a \<Rightarrow> 's \<Rightarrow> (bool \<times> 's) option) \<Rightarrow> 'a list \<Rightarrow> 's \<Rightarrow> (bool \<times> 's) option" where
  "each_while f [] s = Some (True, s)"
| "each_while f (x # xs) s = do { (go, s) \<leftarrow> f x s; if go then each_while f xs s else Some (False, s) }"

definition has_destination :: "nat list \<Rightarrow> value_loc list \<Rightarrow> value_loc \<Rightarrow> bool \<Rightarrow> bool" where
  "has_destination target current have' can_preserve_this \<longleftrightarrow>
     (\<exists>dst\<in>set [1..<length current].
        (target_loc target dst = have' \<or> target_loc target dst = LocTail \<and> can_preserve_this) \<and>
        target_loc target dst \<noteq> current ! dst)"

definition may_place :: "nat list \<Rightarrow> value_loc list \<Rightarrow> nat list \<Rightarrow> nat \<Rightarrow> bool" where
  "may_place target current to_preserve pos =
     (let top = current ! 0; have' = current ! pos; want = target_loc target pos in
      \<not> (have' = want \<or> have' = top) \<and>
      (if top = target_loc target 0 then has_destination target current have' (loc_preserved to_preserve have')
       else top = want \<or> loc_preserved to_preserve top \<and> is_tail want))"

type_synonym expand =
  "value_loc list \<Rightarrow> nat list \<Rightarrow> nat list \<Rightarrow> nat \<Rightarrow> search \<Rightarrow> (bool \<times> search) option"

text \<open>The body of the first loop: the top is placed at \<open>pos\<close>, in exchange for what is there.\<close>

definition place_top ::
    "expand \<Rightarrow> nat list \<Rightarrow> value_loc list \<Rightarrow> nat list \<Rightarrow> nat list \<Rightarrow> nat \<Rightarrow>
     nat \<Rightarrow> bool \<times> search \<Rightarrow> (bool \<times> bool \<times> search) option" where
  "place_top expand target current to_preserve executed fixed pos = (\<lambda>(progress, s).
     if \<not> may_place target current to_preserve pos then Some (True, progress, s)
     else do {
       let top = current ! 0;
       let have' = current ! pos;
       let want = target_loc target pos;
       let to_tail = loc_preserved to_preserve top \<and> is_tail want;
       let fixed = (if have' = target_loc target 0 then fixed + 1 else fixed);
       fixed \<leftarrow> (if top = target_loc target 0 then checked_sub fixed 1 else Some fixed);
       let fixed = (if top = want \<or> to_tail then fixed + 1 else fixed);
       let current = current[0 := have', pos := (if to_tail then LocTail else top)];
       let to_preserve = (if to_tail then filter (\<lambda>v. \<not> is_head_and_eq top v) to_preserve else to_preserve);
       (go, s) \<leftarrow> expand current to_preserve (executed @ [pos]) fixed s;
       Some (go, True, s)
     })"

text \<open>The body of the second loop: what the top should hold is fetched from \<open>pos\<close>.\<close>

definition fetch_top ::
    "expand \<Rightarrow> nat list \<Rightarrow> value_loc list \<Rightarrow> nat list \<Rightarrow> nat list \<Rightarrow> nat \<Rightarrow>
     nat \<Rightarrow> bool \<times> search \<Rightarrow> (bool \<times> bool \<times> search) option" where
  "fetch_top expand target current to_preserve executed fixed pos = (\<lambda>(progress, s).
     if is_head_and_eq (current ! pos) (target ! pos) \<or> current ! pos \<noteq> target_loc target 0
     then Some (True, progress, s)
     else do {
       (go, s) \<leftarrow> expand (current[0 := current ! pos, pos := current ! 0]) to_preserve (executed @ [pos]) (fixed + 1) s;
       Some (go, True, s)
     })"

definition finish_path :: "nat list \<Rightarrow> nat \<Rightarrow> search \<Rightarrow> (bool \<times> search) option" where
  "finish_path executed fixed s = do {
     let better = (if fixed > fst (se_best s) then True
                   else if fixed = fst (se_best s) then length executed < length (snd (se_best s)) else False);
     let s = (if better then s\<lparr>se_best := (fixed, executed)\<rparr> else s);
     budget \<leftarrow> checked_sub (se_budget s) 1;
     Some (budget \<noteq> 0, s\<lparr>se_budget := budget\<rparr>)
   }"

primrec expand_states :: "nat \<Rightarrow> nat list \<Rightarrow> bool \<Rightarrow> expand" where
  "expand_states 0 target allow_swap_top current to_preserve executed fixed s = None"
| "expand_states (Suc n) target allow_swap_top current to_preserve executed fixed s = do {
     top \<leftarrow> slice_get current 0;
     let top_correct = (top = target_loc target 0);
     (go, progress, s) \<leftarrow>
       (if top_correct \<and> \<not> allow_swap_top then Some (True, False, s)
        else each_while
          (place_top (expand_states n target allow_swap_top) target current to_preserve executed fixed)
          [1..<length current] (False, s));
     if \<not> go then Some (False, s) else do {
     (go, progress, s) \<leftarrow>
       (if \<not> progress \<and> \<not> top_correct then do {
          rust_assert (target_loc target 0 \<noteq> LocTail);
          each_while
            (fetch_top (expand_states n target allow_swap_top) target current to_preserve executed fixed)
            [1..<min (length current) (length target)] (progress, s)
        } else Some (True, progress, s));
     if \<not> go then Some (False, s)
     else if \<not> progress then finish_path executed fixed s
     else Some (True, s)
     }
   }"

definition value_locs :: "nat list \<Rightarrow> nat list \<Rightarrow> nat list \<Rightarrow> nat list \<Rightarrow> nat list \<Rightarrow> value_loc list" where
  "value_locs head tail target full_target last_uses =
     map (\<lambda>(v, t). if v \<noteq> t \<and> v \<notin> set full_target then LocTail else LocHead v) (zip head target) @
     map (\<lambda>v. if v \<in> set last_uses then LocHead v else LocTail) tail"

definition search_depth :: "nat list \<Rightarrow> nat" where
  "search_depth current = 3 * length current"

definition best_permute ::
    "nat list \<Rightarrow> nat list \<Rightarrow> nat \<Rightarrow> nat list \<Rightarrow> nat list \<Rightarrow> nat \<Rightarrow> bool \<Rightarrow> nat list option" where
  "best_permute to_preserve last_uses head_end current full_target paths_budget allow_swap_top = do {
     rust_assert (head_end > 0);
     rust_assert (head_end \<le> length current);
     rust_assert (head_end \<le> length full_target);
     let target = drop (length full_target - head_end) full_target;
     let locs = value_locs (take head_end current) (drop head_end current) target full_target last_uses;
     loc \<leftarrow> slice_get locs 0;
     let fixed_at_start = (if target_loc target 0 = loc then 1 else 0);
     let s = \<lparr>se_best = (fixed_at_start, []), se_budget = paths_budget\<rparr>;
     s \<leftarrow> (if paths_budget > 0
          then map_option snd (expand_states (search_depth current) target allow_swap_top locs to_preserve [] fixed_at_start s)
          else Some s);
     Some (snd (se_best s))
   }"

subsection \<open>The search ends\<close>

text \<open>
  The positions below the top that hold the wrong value get fewer: placing the top corrects a
  position, and a step that only changes the top is followed by one that places it.
\<close>

definition wrong :: "nat list \<Rightarrow> value_loc list \<Rightarrow> nat set" where
  "wrong target current = {p. 1 \<le> p \<and> p < length current \<and> current ! p \<noteq> target_loc target p}"

definition rank :: "nat list \<Rightarrow> value_loc list \<Rightarrow> nat list \<Rightarrow> nat" where
  "rank target current to_preserve =
     (if current ! 0 = target_loc target 0 then 1
      else if \<exists>pos\<in>set [1..<length current]. may_place target current to_preserve pos then 0 else 2)"

definition depth_needed :: "nat list \<Rightarrow> value_loc list \<Rightarrow> nat list \<Rightarrow> nat" where
  "depth_needed target current to_preserve = 3 * card (wrong target current) + rank target current to_preserve"

text \<open>Values to preserve are not below the target.\<close>

definition tail_free :: "nat list \<Rightarrow> value_loc list \<Rightarrow> nat list \<Rightarrow> bool" where
  "tail_free target current to_preserve \<longleftrightarrow>
     (\<forall>p. length target \<le> p \<longrightarrow> p < length current \<longrightarrow> \<not> loc_preserved to_preserve (current ! p))"

lemma finite_wrong [simp]: "finite (wrong target current)"
  by (simp add: wrong_def)

lemma card_wrong: "current \<noteq> [] \<Longrightarrow> card (wrong target current) < length current"
proof -
  assume "current \<noteq> []"
  have "wrong target current \<subseteq> {1..<length current}" by (auto simp: wrong_def)
  then have "card (wrong target current) \<le> card {1..<length current}" by (intro card_mono) simp_all
  with \<open>current \<noteq> []\<close> show ?thesis by (cases current) simp_all
qed

lemma wrong_update:
  assumes "1 \<le> pos" "pos < length current" "current ! pos \<noteq> target_loc target pos"
  shows "card (wrong target (current[0 := a, pos := x])) \<le> card (wrong target current)"
    and "x = target_loc target pos \<Longrightarrow> card (wrong target (current[0 := a, pos := x])) < card (wrong target current)"
proof -
  let ?w = "wrong target (current[0 := a, pos := x])"
  have sub: "?w \<subseteq> wrong target current" using assms by (auto simp: wrong_def nth_list_update split: if_splits)
  then show "card ?w \<le> card (wrong target current)" by (intro card_mono) simp_all
  assume "x = target_loc target pos"
  then have "pos \<notin> ?w" using assms by (simp add: wrong_def)
  moreover have "pos \<in> wrong target current" using assms by (simp add: wrong_def)
  ultimately have "?w \<subset> wrong target current" using sub by blast
  then show "card ?w < card (wrong target current)" by (intro psubset_card_mono) simp_all
qed

lemma loc_tail_iff: "target_loc target p = LocTail \<longleftrightarrow> length target \<le> p"
  by (simp add: target_loc_def)

lemma loc_preserved_filter:
  "loc_preserved (filter (\<lambda>v. \<not> is_head_and_eq t v) P) loc \<longleftrightarrow> loc_preserved P loc \<and> loc \<noteq> t"
  by (cases loc) (auto simp: loc_preserved_def is_head_and_eq_def)

lemma tail_free_subset:
  "tail_free target current P \<Longrightarrow> (\<And>loc. loc_preserved P' loc \<Longrightarrow> loc_preserved P loc) \<Longrightarrow> tail_free target current P'"
  unfolding tail_free_def by blast

lemma tail_free_update:
  assumes "tail_free target current P" "target \<noteq> []" "1 \<le> pos"
    and "length target \<le> pos \<Longrightarrow> \<not> loc_preserved P x"
  shows "tail_free target (current[0 := a, pos := x]) P"
  unfolding tail_free_def
proof (intro allI impI)
  fix p assume p: "length target \<le> p" "p < length (current[0 := a, pos := x])"
  have "p \<noteq> 0" using p(1) assms(2) by (cases p) auto
  then show "\<not> loc_preserved P (current[0 := a, pos := x] ! p)"
    using assms p by (cases "p = pos") (auto simp: tail_free_def)
qed

text \<open>The stack and the values to preserve after the top is placed.\<close>

definition placed :: "nat list \<Rightarrow> value_loc list \<Rightarrow> nat list \<Rightarrow> nat \<Rightarrow> value_loc list \<times> nat list" where
  "placed target current P pos =
     (let to_tail = loc_preserved P (current ! 0) \<and> is_tail (target_loc target pos) in
      (current[0 := current ! pos, pos := (if to_tail then LocTail else current ! 0)],
       if to_tail then filter (\<lambda>v. \<not> is_head_and_eq (current ! 0) v) P else P))"

lemma placed_tail_free:
  assumes "tail_free target current P" "target \<noteq> []" "1 \<le> pos"
  shows "tail_free target (fst (placed target current P pos)) (snd (placed target current P pos))"
proof (cases "loc_preserved P (current ! 0) \<and> is_tail (target_loc target pos)")
  case True
  have "tail_free target (current[0 := current ! pos, pos := LocTail]) P"
    by (rule tail_free_update [OF assms]) (simp add: loc_preserved_def)
  with True show ?thesis
    by (auto simp: placed_def loc_preserved_filter intro: tail_free_subset)
next
  case False
  have "tail_free target (current[0 := current ! pos, pos := current ! 0]) P"
    by (rule tail_free_update [OF assms]) (use False in \<open>auto simp: loc_tail_iff is_tail_def\<close>)
  with False show ?thesis by (auto simp: placed_def)
qed

lemma may_placeD:
  assumes "may_place target current P pos"
  shows "current ! pos \<noteq> target_loc target pos" "current ! pos \<noteq> current ! 0"
    "current ! 0 = target_loc target 0 \<Longrightarrow> has_destination target current (current ! pos) (loc_preserved P (current ! pos))"
    "current ! 0 \<noteq> target_loc target 0 \<Longrightarrow>
       current ! 0 = target_loc target pos \<or> loc_preserved P (current ! 0) \<and> is_tail (target_loc target pos)"
  using assms by (auto simp: may_place_def Let_def)

lemma placed_needs_less:
  assumes m: "may_place target current P pos" and pos: "1 \<le> pos" "pos < length current"
    and tf: "tail_free target current P" and ne: "target \<noteq> []"
  shows "depth_needed target (fst (placed target current P pos)) (snd (placed target current P pos)) <
    depth_needed target current P"
proof -
  define c P' where c: "c = fst (placed target current P pos)" and P': "P' = snd (placed target current P pos)"
  define x where "x = (if loc_preserved P (current ! 0) \<and> is_tail (target_loc target pos) then LocTail else current ! 0)"
  note d = may_placeD [OF m]
  have cx: "c = current[0 := current ! pos, pos := x]" by (simp add: c placed_def x_def Let_def)
  have "pos \<noteq> 0" "0 < length current" using pos by linarith+
  then have c0: "c ! 0 = current ! pos" by (simp add: cx nth_list_update)
  show ?thesis unfolding c [symmetric] P' [symmetric]
  proof (cases "current ! 0 = target_loc target 0")
    case False
    then have "x = target_loc target pos" using d(4) by (auto simp: x_def is_tail_def)
    from wrong_update(2) [OF pos d(1) this, of "current ! pos"]
    have "card (wrong target c) < card (wrong target current)" by (simp add: cx)
    moreover have "rank target c P' \<le> 2" by (simp add: rank_def)
    ultimately show "depth_needed target c P' < depth_needed target current P" by (simp add: depth_needed_def)
  next
    case True
    from wrong_update(1) [OF pos d(1), of "current ! pos" x]
    have le: "card (wrong target c) \<le> card (wrong target current)" by (simp add: cx)
    from d(3) [OF True] obtain dst where dst: "1 \<le> dst" "dst < length current"
      "target_loc target dst = current ! pos \<or> target_loc target dst = LocTail \<and> loc_preserved P (current ! pos)"
      "target_loc target dst \<noteq> current ! dst" by (auto simp: has_destination_def)
    have tail: "\<not> loc_preserved P (current ! p)" if "target_loc target p = LocTail" "p < length current" for p
      using tf that by (simp add: tail_free_def loc_tail_iff)
    have "dst \<noteq> pos" using dst d(1) tail by metis
    then have cd: "c ! dst = current ! dst" using dst(1) by (simp add: cx)
    have pres: "loc_preserved P' (current ! pos)" if "loc_preserved P (current ! pos)"
      using that d(2) by (simp add: P' placed_def Let_def loc_preserved_filter)
    have "current ! dst \<noteq> current ! pos" using dst(2-4) tail by metis
    moreover have "current ! pos = target_loc target dst \<or> loc_preserved P' (current ! pos) \<and> is_tail (target_loc target dst)"
      using dst(3) pres by (auto simp: is_tail_def)
    ultimately have "may_place target c P' dst"
      using dst(4) d(2) cd c0 True by (simp add: may_place_def Let_def)
    then have "rank target c P' = 0"
      using dst(1,2) c0 d(2) True by (auto simp: rank_def cx)
    with le True show "depth_needed target c P' < depth_needed target current P" by (simp add: depth_needed_def rank_def)
  qed
qed

lemma fetched_needs_less:
  assumes none: "\<not> (\<exists>pos\<in>set [1..<length current]. may_place target current P pos)"
    and top: "current ! 0 \<noteq> target_loc target 0" and pos: "1 \<le> pos" "pos < length current" "pos < length target"
    and w: "\<not> is_head_and_eq (current ! pos) (target ! pos)" "current ! pos = target_loc target 0"
  shows "depth_needed target (current[0 := current ! pos, pos := current ! 0]) P < depth_needed target current P"
proof -
  let ?c = "current[0 := current ! pos, pos := current ! 0]"
  have "pos \<noteq> 0" "0 < length current" using pos by linarith+
  then have "?c ! 0 = current ! pos" by (simp add: nth_list_update)
  then have "rank target ?c P = 1" "rank target current P = 2" using w(2) top none by (simp_all add: rank_def)
  moreover have "current ! pos \<noteq> target_loc target pos"
    using w(1) pos(3) by (auto simp: target_loc_def is_head_and_eq_def)
  from wrong_update(1) [OF pos(1,2) this] have "card (wrong target ?c) \<le> card (wrong target current)" .
  ultimately show ?thesis by (simp add: depth_needed_def)
qed

subsection \<open>The search succeeds\<close>

definition path_in :: "nat \<Rightarrow> nat list \<Rightarrow> bool" where
  "path_in n swaps \<longleftrightarrow> set swaps \<subseteq> {1..<n}"

lemma path_in_snoc [simp]: "path_in n (swaps @ [pos]) \<longleftrightarrow> path_in n swaps \<and> 1 \<le> pos \<and> pos < n"
  by (auto simp: path_in_def)

definition search_ok :: "nat \<Rightarrow> bool \<times> search \<Rightarrow> bool" where
  "search_ok n out \<longleftrightarrow> path_in n (snd (se_best (snd out))) \<and> (fst out \<longrightarrow> 0 < se_budget (snd out))"

definition start_ok :: "nat list \<Rightarrow> value_loc list \<Rightarrow> nat list \<Rightarrow> nat list \<Rightarrow> nat \<Rightarrow> bool" where
  "start_ok target current P executed fixed \<longleftrightarrow> target \<noteq> [] \<and> current \<noteq> [] \<and> tail_free target current P \<and>
     path_in (length current) executed \<and> (current ! 0 = target_loc target 0 \<longrightarrow> 0 < fixed)"

text \<open>What the recursive calls are assumed to do.\<close>

definition expands :: "expand \<Rightarrow> nat list \<Rightarrow> nat \<Rightarrow> nat \<Rightarrow> bool" where
  "expands f target len n \<longleftrightarrow> (\<forall>c P ex fixed s. length c = len \<longrightarrow> start_ok target c P ex fixed \<longrightarrow>
     search_ok len (True, s) \<longrightarrow> depth_needed target c P < n \<longrightarrow>
     (\<exists>go s'. f c P ex fixed s = Some (go, s') \<and> search_ok len (go, s')))"

lemma place_top_ok:
  assumes f: "expands f target (length current) (depth_needed target current P)"
    and st: "start_ok target current P executed fixed" and s: "search_ok (length current) (True, s)"
    and pos: "pos \<in> set [1..<length current]"
  shows "\<exists>go progress' s'. place_top f target current P executed fixed pos (progress, s) = Some (go, progress', s') \<and>
    search_ok (length current) (go, s') \<and>
    (go \<longrightarrow> progress' = (progress \<or> may_place target current P pos))"
proof (cases "may_place target current P pos")
  case True
  note d = may_placeD [OF True]
  from pos have p: "1 \<le> pos" "pos < length current" by auto
  let ?fixed = "if current ! pos = target_loc target 0 then fixed + 1 else fixed"
  let ?tail = "loc_preserved P (current ! 0) \<and> is_tail (target_loc target pos)"
  obtain fixed1 where f1: "(if current ! 0 = target_loc target 0 then checked_sub ?fixed 1 else Some ?fixed) = Some fixed1"
    and f1': "current ! pos = target_loc target 0 \<Longrightarrow> 0 < fixed1"
  proof (cases "current ! 0 = target_loc target 0")
    case True
    with st d(2) have "0 < fixed" "current ! pos \<noteq> target_loc target 0" by (auto simp: start_ok_def)
    with True show thesis by (intro that [of "fixed - 1"]) simp_all
  next
    case False
    then show thesis by (intro that [of ?fixed]) simp_all
  qed
  let ?fixed2 = "if current ! 0 = target_loc target pos \<or> ?tail then fixed1 + 1 else fixed1"
  let ?c = "fst (placed target current P pos)" and ?P = "snd (placed target current P pos)"
  have "pos \<noteq> 0" "0 < length current" using p by linarith+
  then have c0: "?c ! 0 = current ! pos" "length ?c = length current" by (simp_all add: placed_def Let_def nth_list_update)
  have "start_ok target ?c ?P (executed @ [pos]) ?fixed2"
    using st placed_tail_free [of target current P pos] p c0 f1' by (auto simp: start_ok_def)
  moreover have "depth_needed target ?c ?P < depth_needed target current P"
    using placed_needs_less [OF True p] st by (simp add: start_ok_def)
  ultimately obtain go s' where "f ?c ?P (executed @ [pos]) ?fixed2 s = Some (go, s')" "search_ok (length current) (go, s')"
    using f s c0(2) unfolding expands_def by blast
  moreover from this have "place_top f target current P executed fixed pos (progress, s) = Some (go, True, s')"
    using True f1 by (simp add: place_top_def Let_def placed_def)
  ultimately show ?thesis using True by blast
next
  case False
  then have "place_top f target current P executed fixed pos (progress, s) = Some (True, progress, s)"
    by (simp add: place_top_def)
  with s False show ?thesis by blast
qed

lemma fetch_top_ok:
  assumes f: "expands f target (length current) (depth_needed target current P)"
    and st: "start_ok target current P executed fixed" and s: "search_ok (length current) (True, s)"
    and pos: "pos \<in> set [1..<min (length current) (length target)]"
    and none: "\<not> (\<exists>pos\<in>set [1..<length current]. may_place target current P pos)"
    and top: "current ! 0 \<noteq> target_loc target 0"
  shows "\<exists>go progress' s'. fetch_top f target current P executed fixed pos (progress, s) = Some (go, progress', s') \<and>
    search_ok (length current) (go, s')"
proof (cases "is_head_and_eq (current ! pos) (target ! pos) \<or> current ! pos \<noteq> target_loc target 0")
  case False
  from pos have p: "1 \<le> pos" "pos < length current" "pos < length target" by auto
  let ?c = "current[0 := current ! pos, pos := current ! 0]"
  have "tail_free target ?c P"
    using st p by (intro tail_free_update) (auto simp: start_ok_def)
  then have "start_ok target ?c P (executed @ [pos]) (fixed + 1)" using st p by (auto simp: start_ok_def)
  moreover have "depth_needed target ?c P < depth_needed target current P"
    using fetched_needs_less [OF none top p] False by blast
  ultimately obtain go s' where "f ?c P (executed @ [pos]) (fixed + 1) s = Some (go, s')" "search_ok (length current) (go, s')"
    using f s unfolding expands_def by (metis length_list_update)
  moreover from this have "fetch_top f target current P executed fixed pos (progress, s) = Some (go, True, s')"
    using False by (simp only: fetch_top_def prod.case if_False bind.simps)
  ultimately show ?thesis by blast
next
  case True
  then have "fetch_top f target current P executed fixed pos (progress, s) = Some (True, progress, s)"
    by (simp add: fetch_top_def)
  with s show ?thesis by blast
qed

lemma finish_path_ok:
  assumes "path_in n executed" "search_ok n (True, s)"
  shows "\<exists>go s'. finish_path executed fixed s = Some (go, s') \<and> search_ok n (go, s')"
  using assms by (simp add: finish_path_def search_ok_def Let_def)

lemma place_tops_ok:
  assumes "expands f target (length current) (depth_needed target current P)" "start_ok target current P executed fixed"
  shows "set xs \<subseteq> set [1..<length current] \<Longrightarrow> search_ok (length current) (True, s) \<Longrightarrow>
    \<exists>go p' s'. each_while (place_top f target current P executed fixed) xs (p, s) = Some (go, p', s') \<and>
      search_ok (length current) (go, s') \<and> (go \<longrightarrow> p' = (p \<or> (\<exists>pos\<in>set xs. may_place target current P pos)))"
proof (induction xs arbitrary: p s)
  case (Cons x xs)
  from Cons.prems(1) have x: "x \<in> set [1..<length current]" "set xs \<subseteq> set [1..<length current]" by simp_all
  from place_top_ok [OF assms Cons.prems(2) x(1), of p] obtain go p1 s1 where
    1: "place_top f target current P executed fixed x (p, s) = Some (go, p1, s1)"
    "search_ok (length current) (go, s1)" "go \<longrightarrow> p1 = (p \<or> may_place target current P x)" by blast
  show ?case
  proof (cases go)
    case True
    with 1(2) have "search_ok (length current) (True, s1)" by simp
    from Cons.IH [OF x(2) this, of p1] 1(1,3) True show ?thesis by auto
  next
    case False
    with 1(1) have "each_while (place_top f target current P executed fixed) (x # xs) (p, s) = Some (False, p1, s1)" by simp
    with 1(2) False show ?thesis by (intro exI [of _ False] exI [of _ p1] exI [of _ s1]) simp
  qed
qed auto

lemma fetch_tops_ok:
  assumes "expands f target (length current) (depth_needed target current P)" "start_ok target current P executed fixed"
    and "\<not> (\<exists>pos\<in>set [1..<length current]. may_place target current P pos)" "current ! 0 \<noteq> target_loc target 0"
  shows "set xs \<subseteq> set [1..<min (length current) (length target)] \<Longrightarrow> search_ok (length current) (True, s) \<Longrightarrow>
    \<exists>go p' s'. each_while (fetch_top f target current P executed fixed) xs (p, s) = Some (go, p', s') \<and>
      search_ok (length current) (go, s')"
proof (induction xs arbitrary: p s)
  case (Cons x xs)
  from Cons.prems(1) have x: "x \<in> set [1..<min (length current) (length target)]"
    "set xs \<subseteq> set [1..<min (length current) (length target)]" by simp_all
  from fetch_top_ok [OF assms(1,2) Cons.prems(2) x(1) assms(3,4), of p] obtain go p1 s1 where
    1: "fetch_top f target current P executed fixed x (p, s) = Some (go, p1, s1)"
    "search_ok (length current) (go, s1)" by blast
  show ?case
  proof (cases go)
    case True
    with 1(2) have "search_ok (length current) (True, s1)" by simp
    from Cons.IH [OF x(2) this, of p1] 1(1) True show ?thesis by auto
  next
    case False
    with 1(1) have "each_while (fetch_top f target current P executed fixed) (x # xs) (p, s) = Some (False, p1, s1)" by simp
    with 1(2) False show ?thesis by (intro exI [of _ False] exI [of _ p1] exI [of _ s1]) simp
  qed
qed auto

text \<open>With the depth needed the search returns; it does not panic.\<close>

lemma expand_states_step:
  assumes f: "expands (expand_states n target allow) target (length current) (depth_needed target current P)"
    and st: "start_ok target current P executed fixed" and s: "search_ok (length current) (True, s)"
  shows "\<exists>go s'. expand_states (Suc n) target allow current P executed fixed s = Some (go, s') \<and>
    search_ok (length current) (go, s')"
proof -
  let ?f = "expand_states n target allow" and ?top = "current ! 0 = target_loc target 0"
  let ?place = "if ?top \<and> \<not> allow then Some (True, False, s)
    else each_while (place_top ?f target current P executed fixed) [1..<length current] (False, s)"
  have c0: "slice_get current 0 = Some (current ! 0)" "target_loc target 0 \<noteq> LocTail"
    using st by (simp_all add: start_ok_def loc_tail_iff)
  obtain go1 p1 s1 where 1: "?place = Some (go1, p1, s1)" "search_ok (length current) (go1, s1)"
    "go1 \<longrightarrow> \<not> p1 \<longrightarrow> \<not> ?top \<longrightarrow> \<not> (\<exists>pos\<in>set [1..<length current]. may_place target current P pos)"
  proof (cases "?top \<and> \<not> allow")
    case True
    with s that [of True False s] show thesis by simp
  next
    case False
    from place_tops_ok [OF f st subset_refl s, of False] False that show thesis by auto
  qed
  note run = expand_states.simps(2) c0 1(1) Let_def bind.simps prod.case
  show ?thesis
  proof (cases go1)
    case False
    with 1(2) show ?thesis by (intro exI [of _ False] exI [of _ s1]) (simp add: run)
  next
    case go1: True
    with 1(2) have s1: "search_ok (length current) (True, s1)" by simp
    show ?thesis
    proof (cases "p1 \<or> ?top")
      case True
      from finish_path_ok [OF _ s1, of executed fixed] st have
        "\<exists>go s'. finish_path executed fixed s1 = Some (go, s') \<and> search_ok (length current) (go, s')"
        by (simp add: start_ok_def)
      moreover have "expand_states (Suc n) target allow current P executed fixed s =
          (if p1 then Some (True, s1) else finish_path executed fixed s1)"
        unfolding run using True go1 by auto
      ultimately show ?thesis using s1 by (cases p1) auto
    next
      case False
      with 1(3) go1 have none: "\<not> (\<exists>pos\<in>set [1..<length current]. may_place target current P pos)" by blast
      from False have top: "\<not> ?top" by blast
      let ?fetch = "each_while (fetch_top ?f target current P executed fixed) [1..<min (length current) (length target)] (p1, s1)"
      from fetch_tops_ok [OF f st none top subset_refl s1, of p1] obtain go2 p2 s2 where
        2: "?fetch = Some (go2, p2, s2)" "search_ok (length current) (go2, s2)" by blast
      have e: "expand_states (Suc n) target allow current P executed fixed s =
          (if \<not> go2 then Some (False, s2) else if \<not> p2 then finish_path executed fixed s2 else Some (True, s2))"
        unfolding run using False go1 2(1) c0(2) by simp
      show ?thesis
      proof (cases "go2 \<and> \<not> p2")
        case True
        with 2(2) finish_path_ok [of "length current" executed s2 fixed] st e show ?thesis by (simp add: start_ok_def)
      next
        case False
        with e have "expand_states (Suc n) target allow current P executed fixed s = Some (go2, s2)" by auto
        with 2(2) show ?thesis by blast
      qed
    qed
  qed
qed

lemma expand_states_ok: "expands (expand_states n target allow) target len n"
proof (induction n)
  case (Suc n)
  show ?case unfolding expands_def
  proof (intro allI impI)
    fix current P executed fixed s
    assume len: "length current = len" and st: "start_ok target current P executed fixed"
      and s: "search_ok len (True, s)" and d: "depth_needed target current P < Suc n"
    have "expands (expand_states n target allow) target (length current) (depth_needed target current P)"
      using Suc.IH d unfolding expands_def len by auto
    from expand_states_step [OF this st] s len
    show "\<exists>go s'. expand_states (Suc n) target allow current P executed fixed s = Some (go, s') \<and> search_ok len (go, s')"
      by simp
  qed
qed (simp add: expands_def)

lemma value_locs_length:
  "length target = length head \<Longrightarrow> length (value_locs head tail target full_target last_uses) = length head + length tail"
  by (simp add: value_locs_def)

lemma value_locs_tail_free:
  assumes "length target = length head" "set to_preserve \<inter> set last_uses = {}"
  shows "tail_free target (value_locs head tail target full_target last_uses) to_preserve"
  unfolding tail_free_def
proof (intro allI impI)
  fix p assume p: "length target \<le> p" "p < length (value_locs head tail target full_target last_uses)"
  then have "p - length head < length tail" "\<not> p < length head" using assms(1) by (simp_all add: value_locs_length)
  then have "value_locs head tail target full_target last_uses ! p =
      (if tail ! (p - length head) \<in> set last_uses then LocHead (tail ! (p - length head)) else LocTail)"
    using assms(1) by (simp add: value_locs_def nth_append)
  with assms(2) show "\<not> loc_preserved to_preserve (value_locs head tail target full_target last_uses ! p)"
    by (auto simp: loc_preserved_def)
qed

subsection \<open>Properties\<close>

text \<open>
  C12: The search for the best sequence of swaps ends and never panics when the
  part of the stack it may rearrange is not empty and lies within stack and target and no value to
  preserve is a last use; every swap it returns reaches a value of the stack.
\<close>

theorem best_permute_returns:
  assumes "0 < head_end" "head_end \<le> length current" "head_end \<le> length full_target"
    and "set to_preserve \<inter> set last_uses = {}"
  shows "\<exists>swaps. best_permute to_preserve last_uses head_end current full_target paths_budget allow = Some swaps \<and>
    set swaps \<subseteq> {1..<length current}"
proof -
  let ?target = "drop (length full_target - head_end) full_target"
  let ?locs = "value_locs (take head_end current) (drop head_end current) ?target full_target last_uses"
  let ?fixed = "if target_loc ?target 0 = ?locs ! 0 then 1 else 0 :: nat"
  let ?s = "\<lparr>se_best = (?fixed, []), se_budget = paths_budget\<rparr>"
  have tl: "length ?target = length (take head_end current)" using assms(2,3) by simp
  have len: "length ?locs = length current" using assms(2) tl by (simp add: value_locs_length)
  have ne: "?target \<noteq> []" "?locs \<noteq> []" using assms(1-3) len by auto
  have st: "start_ok ?target ?locs to_preserve [] ?fixed"
    using ne value_locs_tail_free [OF tl assms(4)] by (simp add: start_ok_def path_in_def)
  have c0: "slice_get ?locs 0 = Some (?locs ! 0)" using ne by simp
  have pre: "best_permute to_preserve last_uses head_end current full_target paths_budget allow = do {
      s \<leftarrow> (if paths_budget > 0
           then map_option snd (expand_states (search_depth current) ?target allow ?locs to_preserve [] ?fixed ?s)
           else Some ?s);
      Some (snd (se_best s)) }"
    using assms(1-3) c0 by (simp add: best_permute_def Let_def)
  show ?thesis
  proof (cases "paths_budget > 0")
    case True
    then have s: "search_ok (length current) (True, ?s)" by (simp add: search_ok_def path_in_def)
    have "depth_needed ?target ?locs to_preserve < search_depth current"
      using card_wrong [OF ne(2), of ?target] len by (auto simp: depth_needed_def search_depth_def rank_def)
    from expand_states_ok [of "search_depth current" ?target allow "length current", unfolded expands_def, rule_format,
        OF len st s this] obtain go s' where
      "expand_states (search_depth current) ?target allow ?locs to_preserve [] ?fixed ?s = Some (go, s')"
      "search_ok (length current) (go, s')" by blast
    with True show ?thesis unfolding pre by (simp add: search_ok_def path_in_def)
  next
    case False
    then show ?thesis unfolding pre by simp
  qed
qed

text \<open>Values 1 and 2 are to be exchanged above a 7.\<close>

theorem best_permute_returns_witness:
  "\<exists>swaps. best_permute [] [1, 2] 2 [1, 2, 7] [2, 1] 100 True = Some swaps \<and> set swaps \<subseteq> {1..<3}"
  using best_permute_returns [of 2 "[1, 2, 7]" "[2, 1]" "[]" "[1, 2]" 100 True] by (simp add: numeral_3_eq_3)

end
