(* ===== verification/Op_Sets.thy ===== *)
theory Op_Sets
  imports Bit_Sets
begin

text \<open>
  \<open>OpSet\<close> and \<open>OpSetMut\<close> of \<open>plankc/sir/crates/stack-scheduling/src/op_graph/mod.rs\<close>: a set of
  operations of a graph with a fixed number of operations, kept as bits of a slice of bytes
  (\<open>BitsetWord = u8\<close>). Both views are one record here; the mutable one is passed and returned.
\<close>

record op_set =
  os_words :: "u8 list"
  os_total :: nat

definition word_bits :: nat where
  "word_bits = 8"

definition words_for :: "nat \<Rightarrow> nat" where
  "words_for n = (n + word_bits - 1) div word_bits"

definition os_new :: "u8 list \<Rightarrow> nat \<Rightarrow> op_set option" where
  "os_new ws total_ops = do {
     rust_assert (length ws = words_for total_ops);
     Some \<lparr>os_words = ws, os_total = total_ops\<rparr>
   }"

definition os_count_members :: "op_set \<Rightarrow> nat" where
  "os_count_members s = sum_list (map count_ones (os_words s))"

definition os_intersect_count :: "op_set \<Rightarrow> op_set \<Rightarrow> nat" where
  "os_intersect_count s t =
     sum_list (map (\<lambda>(x, y). count_ones (x AND y)) (zip (os_words s) (os_words t)))"

definition os_is_super :: "op_set \<Rightarrow> op_set \<Rightarrow> bool" where
  "os_is_super s t = list_all (\<lambda>(x, y). x AND y = y) (zip (os_words s) (os_words t))"

definition os_contains :: "op_set \<Rightarrow> nat \<Rightarrow> bool option" where
  "os_contains s i =
     (let word_idx = i div word_bits; word_shift = i mod word_bits
      in do {
           w \<leftarrow> slice_get (os_words s) word_idx;
           Some (w AND bit_mask word_shift \<noteq> 0)
         })"

definition os_iter :: "op_set \<Rightarrow> nat list option" where
  "os_iter s = filter_opt (os_contains s) [0..<os_total s]"

definition os_clear :: "op_set \<Rightarrow> op_set" where
  "os_clear s = s\<lparr>os_words := replicate (length (os_words s)) 0\<rparr>"

definition os_add :: "op_set \<Rightarrow> nat \<Rightarrow> op_set option" where
  "os_add s i = do {
     rust_assert (i < os_total s);
     let word_idx = i div word_bits;
     let word_shift = i mod word_bits;
     w \<leftarrow> slice_get (os_words s) word_idx;
     ws \<leftarrow> slice_set (os_words s) word_idx (w OR bit_mask word_shift);
     Some (s\<lparr>os_words := ws\<rparr>)
   }"

subsection \<open>Refinement to sets of naturals\<close>

definition os_elems :: "op_set \<Rightarrow> nat set" where
  "os_elems s = bits_of (os_words s)"

definition os_inv :: "op_set \<Rightarrow> bool" where
  "os_inv s \<longleftrightarrow> length (os_words s) = words_for (os_total s) \<and> os_elems s \<subseteq> {..<os_total s}"

definition os_empty :: "nat \<Rightarrow> op_set" where
  "os_empty total_ops = \<lparr>os_words = replicate (words_for total_ops) 0, os_total = total_ops\<rparr>"

lemma words_for_enough: "i < n \<Longrightarrow> i div 8 < words_for n"
  by (simp add: words_for_def word_bits_def div_less_iff_less_mult)

lemma words_for_bound: "m < words_for n * 8 \<Longrightarrow> m < n + 8"
  by (simp add: words_for_def word_bits_def)

lemma os_empty_simps [simp]:
  "os_inv (os_empty n)" "os_elems (os_empty n) = {}" "os_total (os_empty n) = n"
  "os_elems (os_clear s) = {}" "os_total (os_clear s) = os_total s"
  by (simp_all add: os_inv_def os_empty_def os_elems_def os_clear_def)

lemma os_inv_clear [simp]: "os_inv s \<Longrightarrow> os_inv (os_clear s)"
  by (simp add: os_inv_def os_clear_def os_elems_def)

lemma finite_os_elems [simp]: "finite (os_elems s)"
  by (simp add: os_elems_def)

lemma os_contains_spec: "os_inv s \<Longrightarrow> i < os_total s \<Longrightarrow> os_contains s i = Some (i \<in> os_elems s)"
  using words_contains_iff [of i "os_words s"] words_for_enough [of i "os_total s"]
  by (simp add: os_contains_def word_bits_def os_inv_def os_elems_def words_contains_def)

lemma os_iter_spec:
  assumes "os_inv s"
  shows "os_iter s = Some (filter (\<lambda>i. i \<in> os_elems s) [0..<os_total s])"
  unfolding os_iter_def by (rule filter_opt_total) (simp add: os_contains_spec assms)

lemma os_iter_set: "os_inv s \<Longrightarrow> os_iter s = Some xs \<Longrightarrow> set xs = os_elems s \<and> sorted xs \<and> distinct xs"
  by (auto simp: os_iter_spec os_inv_def sorted_wrt_filter)

lemma os_add_spec:
  assumes "os_inv s" "i < os_total s"
  shows "\<exists>s'. os_add s i = Some s' \<and> os_elems s' = insert i (os_elems s) \<and> os_inv s' \<and>
              os_total s' = os_total s"
proof -
  have len: "i div 8 < length (os_words s)"
    using assms words_for_enough by (simp add: os_inv_def)
  define s' where "s' = s\<lparr>os_words := words_set (os_words s) i\<rparr>"
  have "os_add s i = Some s'"
    using assms len by (simp add: os_add_def word_bits_def s'_def words_set_def Let_def)
  moreover have "os_elems s' = insert i (os_elems s)"
    using bits_of_words_set [of i "os_words s"] len by (simp add: os_elems_def s'_def)
  ultimately show ?thesis
    using assms by (auto simp: os_inv_def s'_def)
qed

lemma os_count_members_spec: "os_count_members s = card (os_elems s)"
  by (simp add: os_count_members_def os_elems_def sum_count_ones)

lemma bits_of_zip_and:
  "bits_of (map (\<lambda>(x, y). x AND y) (zip ws vs)) = bits_of ws \<inter> bits_of (vs :: 'a::len word list)"
  by (auto simp: bit_at_def bit_and_iff)

lemma os_intersect_count_spec: "os_intersect_count s t = card (os_elems s \<inter> os_elems t)"
  unfolding os_elems_def bits_of_zip_and [symmetric] sum_count_ones [symmetric]
  by (simp add: os_intersect_count_def comp_def split_def)

lemma and_eq_iff_bits: "x AND y = y \<longleftrightarrow> (\<forall>n. bit y n \<longrightarrow> bit (x :: 'a::len word) n)"
  by (metis bit_and_iff bit_word_eqI)

lemma os_is_super_spec:
  assumes "length (os_words s) = length (os_words t)"
  shows "os_is_super s t \<longleftrightarrow> os_elems t \<subseteq> os_elems s"
proof -
  have "os_is_super s t \<longleftrightarrow>
      (\<forall>k<length (os_words t). \<forall>n. bit (os_words t ! k) n \<longrightarrow> bit (os_words s ! k) n)"
    using assms
    by (auto simp: os_is_super_def list_all_length and_eq_iff_bits)
  also have "\<dots> \<longleftrightarrow> os_elems t \<subseteq> os_elems s"
  proof
    assume sub: "os_elems t \<subseteq> os_elems s"
    show "\<forall>k<length (os_words t). \<forall>n. bit (os_words t ! k) n \<longrightarrow> bit (os_words s ! k) n"
    proof (intro allI impI)
      fix k n assume k: "k < length (os_words t)" and b: "bit (os_words t ! k) n"
      then have n: "n < 8" by (auto dest: bit_imp_le_length)
      with k b have "k * 8 + n \<in> os_elems t" by (simp add: os_elems_def bit_at_def)
      with sub have "k * 8 + n \<in> os_elems s" by blast
      with n show "bit (os_words s ! k) n" by (simp add: os_elems_def bit_at_def)
    qed
  qed (auto simp: os_elems_def bit_at_def assms)
  finally show ?thesis .
qed

text \<open>The set as a provider of the index-set interface, for a graph of \<open>n\<close> operations.\<close>

interpretation op_set: index_set "os_empty n" "\<lambda>s i. os_contains s i = Some True" os_add os_elems
  "\<lambda>s. {..<os_total s}" os_inv for n
proof unfold_locales
  fix s i s'
  assume inv: "os_inv s"
  show "i \<in> {..<os_total s} \<Longrightarrow> (os_contains s i = Some True) = (i \<in> os_elems s)"
    using inv by (simp add: os_contains_spec)
  show "i \<in> {..<os_total s} \<Longrightarrow> \<exists>s'. os_add s i = Some s'"
    using os_add_spec [OF inv] by blast
  assume add: "os_add s i = Some s'"
  then have "i < os_total s" by (simp add: os_add_def monad_elims)
  with os_add_spec [OF inv this] add
  show "os_elems s' = insert i (os_elems s)" "os_inv s'" "{..<os_total s'} = {..<os_total s}" by auto
qed simp_all

subsection \<open>Properties\<close>

text \<open>
  An operation set over \<open>u8\<close> words is a set of operation ids. Adding an id below
  the number of operations succeeds and adds exactly it, membership and iteration never read out
  of range, iteration is increasing, and the counts and the superset test computed word by word are
  the cardinalities and the inclusion of the sets.
\<close>

theorem op_set_refines:
  assumes inv: "os_inv s" "os_inv t" "os_total t = os_total s" and i: "i < os_total s"
  shows "(\<exists>s'. os_add s i = Some s' \<and> os_elems s' = insert i (os_elems s) \<and> os_inv s' \<and> os_total s' = os_total s) \<and>
         os_contains s i = Some (i \<in> os_elems s) \<and>
         (\<exists>xs. os_iter s = Some xs \<and> set xs = os_elems s \<and> sorted_wrt (<) xs) \<and>
         os_count_members s = card (os_elems s) \<and>
         os_intersect_count s t = card (os_elems s \<inter> os_elems t) \<and>
         os_is_super s t = (os_elems t \<subseteq> os_elems s)"
proof -
  have "length (os_words s) = length (os_words t)" using inv by (simp add: os_inv_def)
  moreover have "\<exists>xs. os_iter s = Some xs \<and> set xs = os_elems s \<and> sorted_wrt (<) xs"
    using os_iter_spec [OF inv(1)] os_iter_set [OF inv(1)] by (auto simp: strict_sorted_iff)
  ultimately show ?thesis
    using os_add_spec [OF inv(1) i] os_contains_spec [OF inv(1) i] os_is_super_spec
    by (simp add: os_count_members_spec os_intersect_count_spec)
qed

theorem op_set_refines_witness: "\<exists>s. os_add (os_empty 20) 9 = Some s \<and> os_elems s = {9}"
  using op_set_refines [of "os_empty 20" "os_empty 20" 9] by auto

end
