(* ===== verification/Op_Graph.thy ===== *)
theory Op_Graph
  imports Op_Sets Index_Tables
begin

text \<open>
  The operation graph of a basic block (\<open>plankc/sir/crates/stack-scheduling/src/op_graph/mod.rs\<close>)
  and its builder (\<open>op_graph/builder.rs\<close>). A graph keeps the inputs and outputs of all operations
  in one arena of values, and the predecessors of each operation and the consumers of each value
  as bit sets. The builder's phases are types in the code; here they are the order in which its
  operations are called, and \<open>gb_op\<close> composes them the way every client does.
\<close>

datatype op_node_kind = Flippable nat | RetDestPush nat | Normal nat

record stored_op =
  so_start :: nat
  so_input_count :: nat
  so_kind :: op_node_kind

record op_graph =
  og_total_ops :: nat
  og_total_values :: nat
  og_inputs_end :: nat
  og_end_stack_start :: nat
  og_values_arena :: "nat list"
  og_operations :: "stored_op list"
  og_bit_sets :: "u8 list"

record op_view =
  ov_inputs :: "nat list"
  ov_outputs :: "nat list"
  ov_predecessors :: op_set
  ov_kind :: op_node_kind

definition og_op_ids :: "op_graph \<Rightarrow> nat list" where
  "og_op_ids g = [0..<length (og_operations g)]"

definition og_input_values :: "op_graph \<Rightarrow> nat list" where
  "og_input_values g = [0..<og_inputs_end g]"

definition og_is_input :: "op_graph \<Rightarrow> nat \<Rightarrow> bool" where
  "og_is_input g v = (v < og_inputs_end g)"

definition og_output_values :: "op_graph \<Rightarrow> nat list option" where
  "og_output_values g = slice_range (og_values_arena g) (og_end_stack_start g) (length (og_values_arena g))"

definition og_words_per_set :: "op_graph \<Rightarrow> nat" where
  "og_words_per_set g = words_for (og_total_ops g)"

definition og_get_bit_set :: "op_graph \<Rightarrow> nat \<Rightarrow> op_set option" where
  "og_get_bit_set g idx = do {
     let w = og_words_per_set g;
     rest \<leftarrow> slice_range (og_bit_sets g) (w * idx) (length (og_bit_sets g));
     ws \<leftarrow> slice_range rest 0 w;
     Some \<lparr>os_words = ws, os_total = og_total_ops g\<rparr>
   }"

definition og_get_predecessors :: "op_graph \<Rightarrow> nat \<Rightarrow> op_set option" where
  "og_get_predecessors g i = og_get_bit_set g i"

definition og_get_consumers :: "op_graph \<Rightarrow> nat \<Rightarrow> op_set option" where
  "og_get_consumers g v = og_get_bit_set g (og_total_ops g + v)"

definition og_uses_remaining :: "op_graph \<Rightarrow> op_set \<Rightarrow> nat \<Rightarrow> nat option" where
  "og_uses_remaining g completed v = do {
     consumers \<leftarrow> og_get_consumers g v;
     outputs \<leftarrow> og_output_values g;
     let total_uses = os_count_members consumers + (if v \<in> set outputs then 1 else 0);
     checked_sub total_uses (os_intersect_count consumers completed)
   }"

definition og_is_last_use :: "op_graph \<Rightarrow> op_set \<Rightarrow> nat \<Rightarrow> bool option" where
  "og_is_last_use g completed v = map_option (\<lambda>n. n = 1) (og_uses_remaining g completed v)"

definition og_get_op :: "op_graph \<Rightarrow> nat \<Rightarrow> op_view option" where
  "og_get_op g i = do {
     stored \<leftarrow> slice_get (og_operations g) i;
     let op_values_end = (case slice_get (og_operations g) (i + 1) of
                            Some stored_next \<Rightarrow> so_start stored_next
                          | None \<Rightarrow> og_end_stack_start g);
     op_values \<leftarrow> slice_range (og_values_arena g) (so_start stored) op_values_end;
     ins \<leftarrow> slice_range op_values 0 (so_input_count stored);
     outs \<leftarrow> slice_range op_values (so_input_count stored) (length op_values);
     preds \<leftarrow> og_get_predecessors g i;
     Some \<lparr>ov_inputs = ins, ov_outputs = outs, ov_predecessors = preds, ov_kind = so_kind stored\<rparr>
   }"

subsection \<open>The builder\<close>

record graph_storage =
  gs_op_predecessors :: "u8 list list"
  gs_operations :: "stored_op list"
  gs_values :: "(nat option \<times> u8 list) list"
  gs_values_arena :: "nat list"

definition gs_empty :: graph_storage where
  "gs_empty = \<lparr>gs_op_predecessors = [], gs_operations = [], gs_values = [], gs_values_arena = []\<rparr>"

definition add_to_set :: "u8 list \<Rightarrow> nat \<Rightarrow> u8 list option" where
  "add_to_set s i =
     (let word_idx = i div word_bits; shift = i mod word_bits;
          s = (if length s \<le> word_idx then s @ replicate (word_idx + 1 - length s) 0 else s)
      in do {
           w \<leftarrow> slice_get s word_idx;
           slice_set s word_idx (w OR bit_mask shift)
         })"

definition copy_bitset :: "u8 list \<Rightarrow> u8 list \<Rightarrow> u8 list option" where
  "copy_bitset dst src = do {
     rust_assert (length src \<le> length dst);
     Some (src @ drop (length src) dst)
   }"

definition gb_push_input_value :: "graph_storage \<Rightarrow> (nat \<times> graph_storage) option" where
  "gb_push_input_value g = do {
     (v, vs) \<leftarrow> iv_push (gs_values g) (None, []);
     Some (v, g\<lparr>gs_values := vs\<rparr>)
   }"

definition gb_begin_op :: "op_node_kind \<Rightarrow> graph_storage \<Rightarrow> (nat \<times> graph_storage) option" where
  "gb_begin_op kind g = do {
     start \<leftarrow> iv_len_idx (gs_values_arena g);
     (i, ops) \<leftarrow> iv_push (gs_operations g) \<lparr>so_start = start, so_input_count = 0, so_kind = kind\<rparr>;
     (j, preds) \<leftarrow> iv_push (gs_op_predecessors g) [];
     rust_assert (i = j);
     Some (i, g\<lparr>gs_operations := ops, gs_op_predecessors := preds\<rparr>)
   }"

definition gb_add_predecessor :: "nat \<Rightarrow> nat \<Rightarrow> graph_storage \<Rightarrow> graph_storage option" where
  "gb_add_predecessor i pred g = do {
     s \<leftarrow> slice_get (gs_op_predecessors g) i;
     s' \<leftarrow> add_to_set s pred;
     preds \<leftarrow> slice_set (gs_op_predecessors g) i s';
     Some (g\<lparr>gs_op_predecessors := preds\<rparr>)
   }"

definition gb_add_input :: "nat \<Rightarrow> nat \<Rightarrow> graph_storage \<Rightarrow> graph_storage option" where
  "gb_add_input i v g = do {
     (_, arena) \<leftarrow> iv_push (gs_values_arena g) v;
     stored \<leftarrow> slice_get (gs_operations g) i;
     n \<leftarrow> checked_add_u32 (so_input_count stored) 1;
     ops \<leftarrow> slice_set (gs_operations g) i (stored\<lparr>so_input_count := n\<rparr>);
     (maybe_source, consumers) \<leftarrow> slice_get (gs_values g) v;
     consumers' \<leftarrow> add_to_set consumers i;
     vals \<leftarrow> slice_set (gs_values g) v (maybe_source, consumers');
     let g = g\<lparr>gs_values_arena := arena, gs_operations := ops, gs_values := vals\<rparr>;
     (case maybe_source of
        None \<Rightarrow> Some g
      | Some src \<Rightarrow> gb_add_predecessor i src g)
   }"

definition gb_add_output :: "nat \<Rightarrow> graph_storage \<Rightarrow> (nat \<times> graph_storage) option" where
  "gb_add_output i g = do {
     (v, vals) \<leftarrow> iv_push (gs_values g) (Some i, []);
     (_, arena) \<leftarrow> iv_push (gs_values_arena g) v;
     Some (v, g\<lparr>gs_values := vals, gs_values_arena := arena\<rparr>)
   }"

definition gb_push_end_stack_value :: "nat \<Rightarrow> graph_storage \<Rightarrow> graph_storage option" where
  "gb_push_end_stack_value v g = do {
     (_, arena) \<leftarrow> iv_push (gs_values_arena g) v;
     Some (g\<lparr>gs_values_arena := arena\<rparr>)
   }"

text \<open>
  \<open>finish\<close>: all bit sets are copied one after the other into a zeroed arena, each into its own
  \<open>words_per_set\<close> words; copying segment by segment builds the concatenation.
\<close>

definition gb_finish :: "nat \<Rightarrow> nat \<Rightarrow> graph_storage \<Rightarrow> op_graph option" where
  "gb_finish inputs_end end_stack_start g = do {
     rust_assert (length (gs_operations g) = length (gs_op_predecessors g));
     let total_ops = length (gs_operations g);
     let total_values = length (gs_values g);
     let words_per_set = words_for total_ops;
     let zeroes = replicate words_per_set (0 :: u8);
     preds \<leftarrow> fold_opt (\<lambda>s acc. map_option (\<lambda>seg. acc @ seg) (copy_bitset zeroes s))
                (gs_op_predecessors g) [];
     bits \<leftarrow> fold_opt (\<lambda>s acc. map_option (\<lambda>seg. acc @ seg) (copy_bitset zeroes s))
                (map snd (gs_values g)) preds;
     rust_assert (total_ops < 2 ^ 32);
     rust_assert (total_values < 2 ^ 32);
     Some \<lparr>og_total_ops = total_ops, og_total_values = total_values, og_inputs_end = inputs_end,
           og_end_stack_start = end_stack_start, og_values_arena = gs_values_arena g,
           og_operations = gs_operations g, og_bit_sets = bits\<rparr>
   }"

text \<open>One whole operation, as the graph builders add it.\<close>

fun gb_outputs :: "nat \<Rightarrow> nat \<Rightarrow> graph_storage \<Rightarrow> (nat list \<times> graph_storage) option" where
  "gb_outputs i 0 g = Some ([], g)"
| "gb_outputs i (Suc n) g = do {
     (v, g) \<leftarrow> gb_add_output i g;
     (vs, g) \<leftarrow> gb_outputs i n g;
     Some (v # vs, g)
   }"

definition gb_op ::
    "op_node_kind \<Rightarrow> nat list \<Rightarrow> nat list \<Rightarrow> nat \<Rightarrow> graph_storage \<Rightarrow> (nat list \<times> graph_storage) option" where
  "gb_op kind preds ins n_outs g = do {
     (i, g) \<leftarrow> gb_begin_op kind g;
     g \<leftarrow> fold_opt (gb_add_predecessor i) preds g;
     g \<leftarrow> fold_opt (gb_add_input i) ins g;
     gb_outputs i n_outs g
   }"

subsection \<open>What a storage stands for\<close>

text \<open>
  The abstract content of a graph: the operations in order, each with its inputs, outputs and
  predecessors as plain lists and sets. \<open>gs_rep g ops n\<close> says that the storage \<open>g\<close> holds \<open>n\<close>
  input values and the operations \<open>ops\<close>.
\<close>

record abs_op =
  ao_kind :: op_node_kind
  ao_ins :: "nat list"
  ao_outs :: "nat list"
  ao_preds :: "nat set"

definition ao_vals :: "abs_op \<Rightarrow> nat list" where
  "ao_vals a = ao_ins a @ ao_outs a"

definition ops_arena :: "abs_op list \<Rightarrow> nat list" where
  "ops_arena ops = concat (map ao_vals ops)"

definition stored_ok :: "abs_op list \<Rightarrow> stored_op list \<Rightarrow> bool" where
  "stored_ok ops st \<longleftrightarrow> length st = length ops \<and>
     (\<forall>i<length ops. st ! i = \<lparr>so_start = length (ops_arena (take i ops)),
                              so_input_count = length (ao_ins (ops ! i)), so_kind = ao_kind (ops ! i)\<rparr>)"

definition preds_ok :: "abs_op list \<Rightarrow> u8 list list \<Rightarrow> bool" where
  "preds_ok ops ps \<longleftrightarrow> length ps = length ops \<and>
     (\<forall>i<length ops. bits_of (ps ! i) = ao_preds (ops ! i) \<and> length (ps ! i) \<le> words_for (length ops))"

definition producers :: "abs_op list \<Rightarrow> nat \<Rightarrow> nat set" where
  "producers ops v = {i. i < length ops \<and> v \<in> set (ao_outs (ops ! i))}"

definition consumers_of :: "abs_op list \<Rightarrow> nat \<Rightarrow> nat set" where
  "consumers_of ops v = {i. i < length ops \<and> v \<in> set (ao_ins (ops ! i))}"

definition value_ok :: "abs_op list \<Rightarrow> nat \<Rightarrow> nat \<Rightarrow> nat option \<times> u8 list \<Rightarrow> bool" where
  "value_ok ops n v e \<longleftrightarrow>
     (fst e = None \<longleftrightarrow> v < n) \<and> set_option (fst e) = producers ops v \<and>
     bits_of (snd e) = consumers_of ops v \<and> length (snd e) \<le> words_for (length ops)"

definition values_ok :: "abs_op list \<Rightarrow> nat \<Rightarrow> (nat option \<times> u8 list) list \<Rightarrow> bool" where
  "values_ok ops n vs \<longleftrightarrow> n \<le> length vs \<and> (\<forall>v<length vs. value_ok ops n v (vs ! v)) \<and>
     (\<forall>a\<in>set ops. set (ao_vals a) \<subseteq> {..<length vs})"

definition gs_rep :: "graph_storage \<Rightarrow> abs_op list \<Rightarrow> nat \<Rightarrow> bool" where
  "gs_rep g ops n \<longleftrightarrow>
     gs_values_arena g = ops_arena ops \<and> stored_ok ops (gs_operations g) \<and>
     preds_ok ops (gs_op_predecessors g) \<and> values_ok ops n (gs_values g)"

lemma ops_arena_simps [simp]:
  "ops_arena [] = []" "ops_arena (xs @ ys) = ops_arena xs @ ops_arena ys" "ops_arena [a] = ao_vals a"
  by (simp_all add: ops_arena_def)

lemma producers_snoc [simp]:
  "producers (ops @ [a]) v = producers ops v \<union> (if v \<in> set (ao_outs a) then {length ops} else {})"
  by (auto simp: producers_def nth_append less_Suc_eq)

lemma consumers_of_snoc [simp]:
  "consumers_of (ops @ [a]) v = consumers_of ops v \<union> (if v \<in> set (ao_ins a) then {length ops} else {})"
  by (auto simp: consumers_of_def nth_append less_Suc_eq)

lemma producers_Nil [simp]: "producers [] v = {}" "consumers_of [] v = {}"
  by (simp_all add: producers_def consumers_of_def)

lemma words_for_mono: "m \<le> n \<Longrightarrow> words_for m \<le> words_for n"
  by (simp add: words_for_def word_bits_def div_le_mono)

lemma words_for_Suc: "i < n \<Longrightarrow> Suc (i div 8) \<le> words_for n"
  using words_for_enough [of i n] by simp

lemma add_to_set_spec:
  "\<exists>s'. add_to_set s i = Some s' \<and> bits_of s' = insert i (bits_of s) \<and>
        length s' = max (length s) (Suc (i div 8))"
proof -
  define t where "t = (if length s \<le> i div 8 then s @ replicate (i div 8 + 1 - length s) 0 else s)"
  have len: "i div 8 < length t" "length t = max (length s) (Suc (i div 8))"
    and bits: "bits_of t = bits_of s"
    by (auto simp: t_def)
  have "add_to_set s i = Some (words_set t i)"
    using len by (simp add: add_to_set_def word_bits_def t_def [symmetric] Let_def words_set_def)
  with len bits bits_of_words_set [of i t] show ?thesis by simp
qed

lemma gs_rep_empty: "gs_rep gs_empty [] 0"
  by (simp add: gs_rep_def gs_empty_def stored_ok_def preds_ok_def values_ok_def)

lemma gs_rep_push_input:
  assumes "gs_rep g [] n" "gb_push_input_value g = Some (v, g')" "length (gs_values g) = n"
  shows "gs_rep g' [] (Suc n) \<and> v = n \<and> length (gs_values g') = Suc n"
  using assms
  by (auto simp: gb_push_input_value_def iv_push_def monad_elims gs_rep_def values_ok_def value_ok_def
      nth_append less_Suc_eq simp del: mem_bits_of)

lemma gs_rep_begin_op:
  assumes rep: "gs_rep g ops n" and begin_op: "gb_begin_op kind g = Some (i, g')"
  shows "i = length ops \<and> gs_values g' = gs_values g \<and>
         gs_rep g' (ops @ [\<lparr>ao_kind = kind, ao_ins = [], ao_outs = [], ao_preds = {}\<rparr>]) n"
proof -
  let ?a = "\<lparr>ao_kind = kind, ao_ins = [], ao_outs = [], ao_preds = {}\<rparr>"
  let ?s = "\<lparr>so_start = length (gs_values_arena g), so_input_count = 0, so_kind = kind\<rparr>"
  have i: "i = length (gs_operations g)"
    and g': "g' = g\<lparr>gs_operations := gs_operations g @ [?s],
                     gs_op_predecessors := gs_op_predecessors g @ [[]]\<rparr>"
    using begin_op by (auto simp: gb_begin_op_def iv_len_idx_def iv_push_def monad_elims)
  have "stored_ok (ops @ [?a]) (gs_operations g @ [?s])"
    using rep by (auto simp: gs_rep_def stored_ok_def nth_append less_Suc_eq)
  moreover have "preds_ok (ops @ [?a]) (gs_op_predecessors g @ [[]])"
    using rep words_for_mono [of "length ops" "Suc (length ops)"]
    by (auto simp: gs_rep_def preds_ok_def nth_append less_Suc_eq intro: le_trans)
  moreover have "values_ok (ops @ [?a]) n (gs_values g)"
    using rep words_for_mono [of "length ops" "Suc (length ops)"]
    by (auto simp: gs_rep_def values_ok_def value_ok_def ao_vals_def intro: le_trans)
  moreover have "length (gs_operations g) = length ops" "ao_vals ?a = []"
    using rep by (simp_all add: gs_rep_def stored_ok_def ao_vals_def)
  ultimately show ?thesis
    using rep i g' by (simp add: gs_rep_def)
qed

lemma gs_rep_add_predecessor:
  assumes rep: "gs_rep g (ops @ [a]) n" and add: "gb_add_predecessor (length ops) p g = Some g'"
    and p: "p \<le> length ops"
  shows "gs_rep g' (ops @ [a\<lparr>ao_preds := insert p (ao_preds a)\<rparr>]) n \<and> gs_values g' = gs_values g"
proof -
  let ?a = "a\<lparr>ao_preds := insert p (ao_preds a)\<rparr>" and ?i = "length ops"
  obtain s' where s': "add_to_set (gs_op_predecessors g ! ?i) p = Some s'"
      "bits_of s' = insert p (bits_of (gs_op_predecessors g ! ?i))"
      "length s' = max (length (gs_op_predecessors g ! ?i)) (Suc (p div 8))"
    using add_to_set_spec by blast
  with add have g': "g' = g\<lparr>gs_op_predecessors := (gs_op_predecessors g)[?i := s']\<rparr>"
    and len: "?i < length (gs_op_predecessors g)"
    by (auto simp: gb_add_predecessor_def monad_elims)
  have "preds_ok (ops @ [?a]) ((gs_op_predecessors g)[?i := s'])"
    using rep s' len words_for_Suc [of p "Suc ?i", OF le_imp_less_Suc [OF p]]
    by (auto simp: gs_rep_def preds_ok_def nth_append less_Suc_eq nth_list_update)
  moreover have "stored_ok (ops @ [?a]) (gs_operations g)"
    using rep by (auto simp: gs_rep_def stored_ok_def nth_append less_Suc_eq)
  moreover have "values_ok (ops @ [?a]) n (gs_values g)"
    using rep by (simp add: gs_rep_def values_ok_def value_ok_def ao_vals_def)
  ultimately show ?thesis
    using rep g' by (simp add: gs_rep_def ao_vals_def)
qed

text \<open>The value table after operation \<open>i\<close> takes \<open>v\<close> as an input.\<close>

lemma values_ok_input:
  assumes ok: "values_ok (ops @ [a]) n vs" and v: "v < length vs"
    and s': "bits_of s' = insert (length ops) (bits_of (snd (vs ! v)))"
      "length s' \<le> words_for (Suc (length ops))"
  shows "values_ok (ops @ [a\<lparr>ao_ins := ao_ins a @ [v]\<rparr>]) n (vs[v := (fst (vs ! v), s')])"
proof -
  have "value_ok (ops @ [a\<lparr>ao_ins := ao_ins a @ [v]\<rparr>]) n w (vs[v := (fst (vs ! v), s')] ! w)"
    if w: "w < length vs" for w
  proof -
    have old: "value_ok (ops @ [a]) n w (vs ! w)" using ok w by (simp add: values_ok_def)
    show ?thesis
    proof (cases "w = v")
      case True
      with old s' v show ?thesis by (auto simp: value_ok_def simp del: mem_bits_of)
    next
      case False
      with old show ?thesis by (simp add: value_ok_def)
    qed
  qed
  with ok v show ?thesis by (simp add: values_ok_def ao_vals_def)
qed

lemma gs_rep_add_input:
  assumes rep: "gs_rep g (ops @ [a]) n" and outs: "ao_outs a = []"
    and add: "gb_add_input (length ops) v g = Some g'"
  shows "v < length (gs_values g) \<and> length (gs_values g') = length (gs_values g) \<and>
         (\<forall>w<length (gs_values g). fst (gs_values g' ! w) = fst (gs_values g ! w)) \<and>
         gs_rep g' (ops @ [a\<lparr>ao_ins := ao_ins a @ [v],
                            ao_preds := set_option (fst (gs_values g ! v)) \<union> ao_preds a\<rparr>]) n"
proof -
  let ?i = "length ops" and ?src = "fst (gs_values g ! v)"
  let ?a = "a\<lparr>ao_ins := ao_ins a @ [v]\<rparr>"
  obtain s' where s': "add_to_set (snd (gs_values g ! v)) ?i = Some s'"
      "bits_of s' = insert ?i (bits_of (snd (gs_values g ! v)))"
      "length s' = max (length (snd (gs_values g ! v))) (Suc (?i div 8))"
    using add_to_set_spec by blast
  define h where "h = g\<lparr>gs_values_arena := gs_values_arena g @ [v],
     gs_operations := (gs_operations g)[?i := (gs_operations g ! ?i)
       \<lparr>so_input_count := Suc (so_input_count (gs_operations g ! ?i))\<rparr>],
     gs_values := (gs_values g)[v := (?src, s')]\<rparr>"
  from add s'(1) have v: "v < length (gs_values g)"
    and i: "?i < length (gs_operations g)"
    and step: "(case ?src of None \<Rightarrow> Some h | Some p \<Rightarrow> gb_add_predecessor ?i p h) = Some g'"
    by (auto simp: gb_add_input_def iv_push_def monad_elims h_def split: prod.splits option.splits)
  have vals: "values_ok (ops @ [a]) n (gs_values g)" using rep by (simp add: gs_rep_def)
  then have val: "value_ok (ops @ [a]) n v (gs_values g ! v)" using v by (simp add: values_ok_def)
  have s_len: "length s' \<le> words_for (Suc ?i)"
    using s'(3) val words_for_Suc [of ?i "Suc ?i"] by (simp add: value_ok_def)
  have "stored_ok (ops @ [?a]) (gs_operations h)"
    using rep outs i by (auto simp: gs_rep_def stored_ok_def h_def nth_append less_Suc_eq nth_list_update)
  moreover have "preds_ok (ops @ [?a]) (gs_op_predecessors h)"
    using rep by (auto simp: gs_rep_def preds_ok_def h_def nth_append less_Suc_eq simp del: mem_bits_of)
  moreover have "values_ok (ops @ [?a]) n (gs_values h)"
    using values_ok_input [OF vals v s'(2) s_len] by (simp add: h_def)
  ultimately have rep_h: "gs_rep h (ops @ [?a]) n"
    using rep outs by (simp add: gs_rep_def h_def ao_vals_def)
  have vals_h: "length (gs_values h) = length (gs_values g)"
    "\<forall>w<length (gs_values g). fst (gs_values h ! w) = fst (gs_values g ! w)"
    using v by (auto simp: h_def nth_list_update)
  show ?thesis
  proof (cases ?src)
    case None
    with step rep_h vals_h v show ?thesis by simp
  next
    case (Some p)
    have "set_option ?src = producers (ops @ [a]) v" using val by (simp add: value_ok_def)
    with Some have "p \<in> producers ops v" using outs by auto
    then have p: "p \<le> ?i" by (simp add: producers_def)
    have add_p: "gb_add_predecessor ?i p h = Some g'" using step Some by simp
    from gs_rep_add_predecessor [OF rep_h add_p p] vals_h v Some show ?thesis by simp
  qed
qed

lemma gs_rep_add_output:
  assumes rep: "gs_rep g (ops @ [a]) n" and add: "gb_add_output (length ops) g = Some (v, g')"
  shows "v = length (gs_values g) \<and> length (gs_values g') = Suc (length (gs_values g)) \<and>
         gs_rep g' (ops @ [a\<lparr>ao_outs := ao_outs a @ [v]\<rparr>]) n"
proof -
  let ?i = "length ops" and ?a = "a\<lparr>ao_outs := ao_outs a @ [v]\<rparr>"
  have v: "v = length (gs_values g)"
    and g': "g' = g\<lparr>gs_values := gs_values g @ [(Some ?i, [])],
                     gs_values_arena := gs_values_arena g @ [v]\<rparr>"
    using add by (auto simp: gb_add_output_def iv_push_def monad_elims)
  have vals: "values_ok (ops @ [a]) n (gs_values g)" using rep by (simp add: gs_rep_def)
  have fresh: "v \<notin> set (ao_vals b)" if "b \<in> set (ops @ [a])" for b
    using vals that v unfolding values_ok_def by blast
  have none: "producers (ops @ [a]) v = {}" "consumers_of (ops @ [a]) v = {}"
    using fresh by (fastforce simp: producers_def consumers_of_def ao_vals_def nth_append split: if_splits)+
  have "value_ok (ops @ [?a]) n w ((gs_values g @ [(Some ?i, [])]) ! w)" if "w < Suc v" for w
  proof (cases "w = v")
    case True
    with none vals v show ?thesis
      by (auto simp: value_ok_def values_ok_def split: if_splits simp del: mem_bits_of)
  next
    case False
    with that v have "w < length (gs_values g)" by simp
    with vals have "value_ok (ops @ [a]) n w (gs_values g ! w)" by (simp add: values_ok_def)
    with False that v show ?thesis by (auto simp: value_ok_def nth_append simp del: mem_bits_of)
  qed
  then have "values_ok (ops @ [?a]) n (gs_values g')"
    using vals v by (fastforce simp: g' values_ok_def ao_vals_def)
  moreover have "stored_ok (ops @ [?a]) (gs_operations g')"
    using rep by (auto simp: g' gs_rep_def stored_ok_def nth_append less_Suc_eq)
  moreover have "preds_ok (ops @ [?a]) (gs_op_predecessors g')"
    using rep by (auto simp: g' gs_rep_def preds_ok_def nth_append less_Suc_eq simp del: mem_bits_of)
  ultimately show ?thesis
    using rep v by (simp add: gs_rep_def g' ao_vals_def)
qed

text \<open>Where the storage says a value comes from.\<close>

definition source_of :: "graph_storage \<Rightarrow> nat \<Rightarrow> nat option" where
  "source_of g v = fst (gs_values g ! v)"

definition sources_of :: "graph_storage \<Rightarrow> nat list \<Rightarrow> nat set" where
  "sources_of g ins = {p. \<exists>v\<in>set ins. source_of g v = Some p}"

lemma gs_rep_add_predecessors:
  "gs_rep g (ops @ [a]) n \<Longrightarrow> fold_opt (gb_add_predecessor (length ops)) ps g = Some g' \<Longrightarrow>
     \<forall>p\<in>set ps. p \<le> length ops \<Longrightarrow>
     gs_rep g' (ops @ [a\<lparr>ao_preds := set ps \<union> ao_preds a\<rparr>]) n \<and> gs_values g' = gs_values g"
proof (induction ps arbitrary: g a)
  case (Cons p ps)
  then obtain h where h: "gb_add_predecessor (length ops) p g = Some h"
    and rest: "fold_opt (gb_add_predecessor (length ops)) ps h = Some g'"
    by (auto simp: monad_elims)
  from gs_rep_add_predecessor [OF Cons.prems(1) h] Cons.prems(3)
  have "gs_rep h (ops @ [a\<lparr>ao_preds := insert p (ao_preds a)\<rparr>]) n" "gs_values h = gs_values g"
    by simp_all
  with Cons.IH [OF this(1) rest] Cons.prems(3) show ?case by simp
qed simp

lemma gs_rep_add_inputs:
  "gs_rep g (ops @ [a]) n \<Longrightarrow> ao_outs a = [] \<Longrightarrow>
     fold_opt (gb_add_input (length ops)) vs g = Some g' \<Longrightarrow>
     set vs \<subseteq> {..<length (gs_values g)} \<and> length (gs_values g') = length (gs_values g) \<and>
     gs_rep g' (ops @ [a\<lparr>ao_ins := ao_ins a @ vs, ao_preds := sources_of g vs \<union> ao_preds a\<rparr>]) n"
proof (induction vs arbitrary: g a)
  case (Cons v vs)
  from Cons.prems(3) obtain h where h: "gb_add_input (length ops) v g = Some h"
    and rest: "fold_opt (gb_add_input (length ops)) vs h = Some g'"
    by (auto simp: monad_elims)
  let ?a = "a\<lparr>ao_ins := ao_ins a @ [v], ao_preds := set_option (source_of g v) \<union> ao_preds a\<rparr>"
  note step = gs_rep_add_input [OF Cons.prems(1,2) h]
  then have rep_h: "gs_rep h (ops @ [?a]) n" by (simp add: source_of_def)
  have outs: "ao_outs ?a = []" using Cons.prems(2) by simp
  note IH = Cons.IH [OF rep_h outs rest]
  have "source_of h w = source_of g w" if "w \<in> set vs" for w
    using IH step that by (auto simp: source_of_def)
  then have "sources_of h vs \<union> set_option (source_of g v) = sources_of g (v # vs)"
    by (auto simp: sources_of_def)
  with IH step show ?case by (simp add: Un_assoc [symmetric])
qed (simp add: sources_of_def)

lemma gs_rep_add_outputs:
  "gs_rep g (ops @ [a]) n \<Longrightarrow> gb_outputs (length ops) k g = Some (vs, g') \<Longrightarrow>
     vs = [length (gs_values g)..<length (gs_values g) + k] \<and>
     length (gs_values g') = length (gs_values g) + k \<and>
     gs_rep g' (ops @ [a\<lparr>ao_outs := ao_outs a @ vs\<rparr>]) n"
proof (induction k arbitrary: g a vs)
  case (Suc k)
  then obtain v h ws where h: "gb_add_output (length ops) g = Some (v, h)"
    and rest: "gb_outputs (length ops) k h = Some (ws, g')" and vs: "vs = v # ws"
    by (auto simp: monad_elims split: prod.splits)
  from gs_rep_add_output [OF Suc.prems(1) h]
  have rep_h: "gs_rep h (ops @ [a\<lparr>ao_outs := ao_outs a @ [v]\<rparr>]) n"
    and v: "v = length (gs_values g)" "length (gs_values h) = Suc (length (gs_values g))"
    by blast+
  have "[v..<v + Suc k] = v # [Suc v..<Suc v + k]" by (simp add: upt_rec)
  moreover note IH = Suc.IH [OF rep_h rest]
  have "gs_rep g' (ops @ [a\<lparr>ao_outs := ao_outs a @ v # ws\<rparr>]) n"
    using conjunct2 [OF conjunct2 [OF IH]] by simp
  moreover have "ws = [Suc v..<Suc v + k]" "length (gs_values g') = Suc v + k"
    using IH v by simp_all
  ultimately show ?case using v(1) vs by auto
qed simp

text \<open>A whole operation appends exactly itself to what the storage stands for.\<close>

lemma gs_rep_op:
  assumes rep: "gs_rep g ops n" and op: "gb_op kind preds ins k g = Some (vs, g')"
    and preds: "\<forall>p\<in>set preds. p < length ops"
  shows "set ins \<subseteq> {..<length (gs_values g)} \<and>
         vs = [length (gs_values g)..<length (gs_values g) + k] \<and>
         length (gs_values g') = length (gs_values g) + k \<and>
         gs_rep g' (ops @ [\<lparr>ao_kind = kind, ao_ins = ins, ao_outs = vs,
                           ao_preds = sources_of g ins \<union> set preds\<rparr>]) n"
proof -
  from op obtain i g1 g2 g3 where g1: "gb_begin_op kind g = Some (i, g1)"
    and g2: "fold_opt (gb_add_predecessor i) preds g1 = Some g2"
    and g3: "fold_opt (gb_add_input i) ins g2 = Some g3"
    and g4: "gb_outputs i k g3 = Some (vs, g')"
    by (auto simp: gb_op_def monad_elims split: prod.splits)
  from gs_rep_begin_op [OF rep g1] have i: "i = length ops" and v1: "gs_values g1 = gs_values g"
    and r1: "gs_rep g1 (ops @ [\<lparr>ao_kind = kind, ao_ins = [], ao_outs = [], ao_preds = {}\<rparr>]) n"
    by simp_all
  have "\<forall>p\<in>set preds. p \<le> length ops" using preds by auto
  with gs_rep_add_predecessors [OF r1 g2 [unfolded i]] v1
  have r2: "gs_rep g2 (ops @ [\<lparr>ao_kind = kind, ao_ins = [], ao_outs = [], ao_preds = set preds\<rparr>]) n"
    and v2: "gs_values g2 = gs_values g" by auto
  from gs_rep_add_inputs [OF r2 _ g3 [unfolded i]] v2
  have r3: "gs_rep g3 (ops @ [\<lparr>ao_kind = kind, ao_ins = ins, ao_outs = [],
                              ao_preds = sources_of g2 ins \<union> set preds\<rparr>]) n"
    and v3: "length (gs_values g3) = length (gs_values g)" "set ins \<subseteq> {..<length (gs_values g)}"
    by auto
  have "sources_of g2 ins = sources_of g ins" by (simp add: sources_of_def source_of_def v2)
  with gs_rep_add_outputs [OF r3 g4 [unfolded i]] v3 show ?thesis by auto
qed

lemma gs_rep_preds_less:
  assumes "gs_rep g ops n" "v < length (gs_values g)" "source_of g v = Some p"
  shows "p < length ops \<and> v \<in> set (ao_outs (ops ! p))"
proof -
  have "value_ok ops n v (gs_values g ! v)" using assms(1,2) by (simp add: gs_rep_def values_ok_def)
  then have "p \<in> producers ops v" using assms(3) by (auto simp: value_ok_def source_of_def)
  then show ?thesis by (simp add: producers_def)
qed

subsection \<open>Finishing\<close>

lemma fold_copy_bitset:
  assumes "\<forall>s\<in>set ss. length s \<le> w"
  shows "fold_opt (\<lambda>s acc. map_option (\<lambda>seg. acc @ seg) (copy_bitset (replicate w 0) s)) ss acc =
         Some (acc @ concat (map (\<lambda>s. s @ replicate (w - length s) 0) ss))"
  using assms by (induction ss arbitrary: acc) (auto simp: copy_bitset_def)

lemma nth_segment:
  "\<forall>s\<in>set ss. length s = w \<Longrightarrow> i < length ss \<Longrightarrow> take w (drop (w * i) (concat ss)) = ss ! i"
proof (induction ss arbitrary: i)
  case (Cons s ss)
  then show ?case by (cases i) auto
qed simp

lemma length_concat_same: "\<forall>s\<in>set ss. length s = w \<Longrightarrow> length (concat ss) = w * length ss"
  by (induction ss) auto

lemma fold_push_end_stack:
  "fold_opt gb_push_end_stack_value vs g = Some g' \<Longrightarrow>
     g' = g\<lparr>gs_values_arena := gs_values_arena g @ vs\<rparr>"
proof (induction vs arbitrary: g)
  case (Cons v vs)
  then obtain h where h: "gb_push_end_stack_value v g = Some h"
    and rest: "fold_opt gb_push_end_stack_value vs h = Some g'" by (auto simp: monad_elims)
  have "h = g\<lparr>gs_values_arena := gs_values_arena g @ [v]\<rparr>"
    using h by (auto simp: gb_push_end_stack_value_def iv_push_def monad_elims)
  with Cons.IH [OF rest] show ?case by simp
qed simp

text \<open>
  A whole graph, phase by phase: the input values, the operations (kind, explicit predecessors,
  inputs, number of outputs), then the values of the end stack.
\<close>

type_synonym op_spec = "op_node_kind \<times> nat list \<times> nat list \<times> nat"

fun gb_inputs :: "nat \<Rightarrow> graph_storage \<Rightarrow> graph_storage option" where
  "gb_inputs 0 g = Some g"
| "gb_inputs (Suc k) g = Option.bind (gb_push_input_value g) (\<lambda>(_, g). gb_inputs k g)"

definition gb_op_of :: "op_spec \<Rightarrow> graph_storage \<Rightarrow> graph_storage option" where
  "gb_op_of s g = (case s of (kind, preds, ins, k) \<Rightarrow> map_option snd (gb_op kind preds ins k g))"

definition gb_graph :: "nat \<Rightarrow> op_spec list \<Rightarrow> nat list \<Rightarrow> op_graph option" where
  "gb_graph n specs ends = do {
     g \<leftarrow> gb_inputs n gs_empty;
     inputs_end \<leftarrow> iv_len_idx (gs_values g);
     g \<leftarrow> fold_opt gb_op_of specs g;
     end_stack_start \<leftarrow> iv_len_idx (gs_values_arena g);
     g \<leftarrow> fold_opt gb_push_end_stack_value ends g;
     gb_finish inputs_end end_stack_start g
   }"

text \<open>
  What the graph is meant to hold: the operations in the order they were added, each with fresh
  consecutive outputs and with its explicit predecessors and the producers of its inputs.
\<close>

definition data_preds :: "abs_op list \<Rightarrow> nat list \<Rightarrow> nat set" where
  "data_preds ops ins = (\<Union>v\<in>set ins. producers ops v)"

fun spec_ops :: "abs_op list \<Rightarrow> nat \<Rightarrow> op_spec list \<Rightarrow> abs_op list" where
  "spec_ops ops m [] = ops"
| "spec_ops ops m ((kind, preds, ins, k) # specs) =
     spec_ops (ops @ [\<lparr>ao_kind = kind, ao_ins = ins, ao_outs = [m..<m + k],
                      ao_preds = data_preds ops ins \<union> set preds\<rparr>]) (m + k) specs"

fun preds_earlier :: "nat \<Rightarrow> op_spec list \<Rightarrow> bool" where
  "preds_earlier i [] = True"
| "preds_earlier i ((kind, preds, ins, k) # specs) = ((\<forall>p\<in>set preds. p < i) \<and> preds_earlier (Suc i) specs)"

definition og_holds :: "op_graph \<Rightarrow> nat \<Rightarrow> abs_op list \<Rightarrow> nat list \<Rightarrow> bool" where
  "og_holds G n ops ends \<longleftrightarrow>
     og_op_ids G = [0..<length ops] \<and> og_input_values G = [0..<n] \<and> og_output_values G = Some ends \<and>
     og_total_ops G = length ops \<and>
     (\<forall>i<length ops. \<exists>v. og_get_op G i = Some v \<and> ov_inputs v = ao_ins (ops ! i) \<and>
        ov_outputs v = ao_outs (ops ! i) \<and> ov_kind v = ao_kind (ops ! i) \<and>
        os_elems (ov_predecessors v) = ao_preds (ops ! i) \<and> os_inv (ov_predecessors v) \<and>
        os_total (ov_predecessors v) = length ops) \<and>
     (\<forall>v<og_total_values G. \<exists>s. og_get_consumers G v = Some s \<and> os_elems s = consumers_of ops v \<and>
        os_inv s \<and> os_total s = length ops)"

lemma gb_inputs_rep:
  "gb_inputs k g = Some g' \<Longrightarrow> gs_rep g [] m \<Longrightarrow> length (gs_values g) = m \<Longrightarrow>
     gs_rep g' [] (m + k) \<and> length (gs_values g') = m + k"
proof (induction k arbitrary: g m)
  case (Suc k)
  from Suc.prems(1) obtain v h where h: "gb_push_input_value g = Some (v, h)" "gb_inputs k h = Some g'"
    by (auto simp: monad_elims)
  from gs_rep_push_input [OF Suc.prems(2) h(1) Suc.prems(3)] Suc.IH [OF h(2), of "Suc m"]
  show ?case by simp
qed simp

lemma sources_of_rep:
  assumes "gs_rep g ops n" "set ins \<subseteq> {..<length (gs_values g)}"
  shows "sources_of g ins = data_preds ops ins"
proof -
  have "set_option (source_of g v) = producers ops v" if "v \<in> set ins" for v
    using assms that by (auto simp: gs_rep_def values_ok_def value_ok_def source_of_def)
  then show ?thesis by (fastforce simp: sources_of_def data_preds_def)
qed

lemma gb_ops_rep:
  "fold_opt gb_op_of specs g = Some g' \<Longrightarrow> gs_rep g ops n \<Longrightarrow> length (gs_values g) = m \<Longrightarrow>
     preds_earlier (length ops) specs \<Longrightarrow> gs_rep g' (spec_ops ops m specs) n"
proof (induction specs arbitrary: g ops m)
  case (Cons s specs)
  obtain kind preds ins k where s: "s = (kind, preds, ins, k)" by (cases s)
  from Cons.prems(1) s obtain vs h where h: "gb_op kind preds ins k g = Some (vs, h)"
    and rest: "fold_opt gb_op_of specs h = Some g'"
    by (auto simp: gb_op_of_def [of "(kind, preds, ins, k)"] monad_elims)
  have "\<forall>p\<in>set preds. p < length ops" using Cons.prems(4) s by simp
  from gs_rep_op [OF Cons.prems(2) h this]
  have ins: "set ins \<subseteq> {..<length (gs_values g)}" and vs: "vs = [m..<m + k]"
    and len: "length (gs_values h) = m + k"
    and rep: "gs_rep h (ops @ [\<lparr>ao_kind = kind, ao_ins = ins, ao_outs = vs,
                               ao_preds = sources_of g ins \<union> set preds\<rparr>]) n"
    using Cons.prems(3) by auto
  show ?case
    using Cons.IH [OF rest rep len] Cons.prems(4) s vs sources_of_rep [OF Cons.prems(2) ins] by simp
qed simp

text \<open>The segments of the bit set arena.\<close>

definition padded :: "nat \<Rightarrow> u8 list list \<Rightarrow> u8 list list" where
  "padded w ss = map (\<lambda>s. s @ replicate (w - length s) 0) ss"

lemma og_get_bit_set_segment:
  assumes bits: "og_bit_sets G = concat (padded (words_for (og_total_ops G)) ss)"
    and len: "\<forall>s\<in>set ss. length s \<le> words_for (og_total_ops G)" and i: "i < length ss"
    and inside: "bits_of (ss ! i) \<subseteq> {..<og_total_ops G}"
  shows "\<exists>s. og_get_bit_set G i = Some s \<and> os_elems s = bits_of (ss ! i) \<and> os_inv s \<and>
             os_total s = og_total_ops G"
proof -
  let ?w = "words_for (og_total_ops G)" and ?t = "padded (words_for (og_total_ops G)) ss"
  have same: "\<forall>s\<in>set ?t. length s = ?w" and t_len: "length ?t = length ss"
    using len by (auto simp: padded_def)
  then have total: "length (og_bit_sets G) = ?w * length ss"
    by (simp add: bits length_concat_same [of ?t ?w])
  have "?w * i + ?w \<le> ?w * length ss" using i mult_le_mono2 [of "Suc i" "length ss" ?w] by simp
  then have "?w * i \<le> ?w * length ss" "?w \<le> ?w * length ss - ?w * i" by linarith+
  with total have "og_get_bit_set G i = Some \<lparr>os_words = take ?w (drop (?w * i) (og_bit_sets G)),
      os_total = og_total_ops G\<rparr>"
    by (simp add: og_get_bit_set_def og_words_per_set_def Let_def)
  moreover have "take ?w (drop (?w * i) (og_bit_sets G)) = ss ! i @ replicate (?w - length (ss ! i)) 0"
    using nth_segment [OF same, of i] i by (simp add: bits padded_def)
  ultimately show ?thesis
    using inside len i by (auto simp: os_inv_def os_elems_def)
qed

lemma gb_finish_bits:
  assumes "gb_finish n e g = Some G"
    and ok: "stored_ok ops (gs_operations g)" "preds_ok ops (gs_op_predecessors g)"
      "values_ok ops k (gs_values g)"
  shows "og_total_ops G = length ops \<and> og_total_values G = length (gs_values g) \<and>
         og_inputs_end G = n \<and> og_end_stack_start G = e \<and>
         og_values_arena G = gs_values_arena g \<and> og_operations G = gs_operations g \<and>
         og_bit_sets G = concat (padded (words_for (length ops)) (gs_op_predecessors g @ map snd (gs_values g)))"
proof -
  let ?ss = "gs_op_predecessors g @ map snd (gs_values g)"
  have len: "length (gs_operations g) = length ops"
    using ok by (simp add: stored_ok_def)
  have "\<forall>s\<in>set (gs_op_predecessors g). length s \<le> words_for (length ops)"
    "\<forall>s\<in>set (map snd (gs_values g)). length s \<le> words_for (length ops)"
    using ok by (auto simp: preds_ok_def values_ok_def value_ok_def in_set_conv_nth)
      (metis snd_conv)
  with assms(1) len show ?thesis
    by (auto simp: gb_finish_def monad_elims fold_copy_bitset padded_def)
qed

lemma length_ops_arena_take:
  "i < length ops \<Longrightarrow>
     length (ops_arena (take (Suc i) ops)) = length (ops_arena (take i ops)) + length (ao_vals (ops ! i))"
  by (simp add: take_Suc_conv_app_nth)

lemma ops_arena_split:
  "i < length ops \<Longrightarrow> ops_arena ops = ops_arena (take i ops) @ ao_vals (ops ! i) @ ops_arena (drop (Suc i) ops)"
  by (metis append.assoc id_take_nth_drop ops_arena_simps(2,3) append_Cons append_Nil)

lemma og_get_op_view:
  assumes st: "stored_ok ops (og_operations G)" and arena: "og_values_arena G = ops_arena ops @ ends"
    and e: "og_end_stack_start G = length (ops_arena ops)"
    and p: "og_get_predecessors G i = Some p" and i: "i < length ops"
  shows "og_get_op G i = Some \<lparr>ov_inputs = ao_ins (ops ! i), ov_outputs = ao_outs (ops ! i),
                               ov_predecessors = p, ov_kind = ao_kind (ops ! i)\<rparr>"
proof -
  let ?st = "og_operations G" and ?a = "length (ops_arena (take i ops))"
  have stored: "slice_get ?st i = Some \<lparr>so_start = ?a, so_input_count = length (ao_ins (ops ! i)),
                                       so_kind = ao_kind (ops ! i)\<rparr>"
    using st i by (simp add: stored_ok_def)
  have stop: "(case slice_get ?st (i + 1) of Some s \<Rightarrow> so_start s | None \<Rightarrow> og_end_stack_start G)
              = ?a + length (ao_vals (ops ! i))"
  proof (cases "i + 1 < length ops")
    case True
    with st have "slice_get ?st (i + 1) = Some (?st ! (i + 1))"
      "so_start (?st ! (i + 1)) = length (ops_arena (take (Suc i) ops))"
      by (simp_all add: stored_ok_def)
    with i show ?thesis by (simp add: length_ops_arena_take)
  next
    case False
    with i have "Suc i = length ops" by simp
    with st e length_ops_arena_take [OF i] show ?thesis by (simp add: stored_ok_def slice_get_def)
  qed
  have vals: "slice_range (og_values_arena G) ?a (?a + length (ao_vals (ops ! i))) = Some (ao_vals (ops ! i))"
    using ops_arena_split [OF i] by (simp add: arena)
  show ?thesis
    unfolding og_get_op_def stored stop Let_def
    by (simp add: vals p stop [unfolded One_nat_def] del: One_nat_def) (simp add: ao_vals_def)
qed

lemma spec_ops_length [simp]: "length (spec_ops ops m specs) = length ops + length specs"
  by (induction ops m specs rule: spec_ops.induct) auto

lemma spec_ops_preds_earlier:
  "preds_earlier (length ops) specs \<Longrightarrow> \<forall>j<length ops. ao_preds (ops ! j) \<subseteq> {..<j} \<Longrightarrow>
     i < length ops + length specs \<Longrightarrow> ao_preds (spec_ops ops m specs ! i) \<subseteq> {..<i}"
proof (induction ops m specs rule: spec_ops.induct)
  case (2 ops m kind preds ins k specs)
  have "data_preds ops ins \<subseteq> {..<length ops}" by (auto simp: data_preds_def producers_def)
  with 2 show ?case by (auto simp: nth_append less_Suc_eq)
qed simp

lemma spec_ops_preds_less:
  "preds_earlier 0 specs \<Longrightarrow> i < length specs \<Longrightarrow> ao_preds (spec_ops [] n specs ! i) \<subseteq> {..<length specs}"
  using spec_ops_preds_earlier [of "[]" specs i n] by fastforce

text \<open>
  The graph that \<open>finish\<close> returns holds exactly the operations that were added: every operation
  reads back its kind, inputs and outputs, its predecessors are the explicit ones and the
  producers of its inputs, and the consumers of every value are the operations reading it.
\<close>

lemma gb_graph_holds:
  assumes graph: "gb_graph n specs ends = Some G" and earlier: "preds_earlier 0 specs"
  shows "og_holds G n (spec_ops [] n specs) ends"
proof -
  let ?ops = "spec_ops [] n specs"
  from graph obtain g0 m g1 e g2 where g0: "gb_inputs n gs_empty = Some g0"
    and m: "iv_len_idx (gs_values g0) = Some m" and g1: "fold_opt gb_op_of specs g0 = Some g1"
    and e: "iv_len_idx (gs_values_arena g1) = Some e"
    and g2: "fold_opt gb_push_end_stack_value ends g1 = Some g2"
    and G: "gb_finish m e g2 = Some G"
    by (auto simp: gb_graph_def monad_elims)
  from gb_inputs_rep [OF g0 gs_rep_empty] have r0: "gs_rep g0 [] n" "length (gs_values g0) = n"
    by (simp_all add: gs_empty_def)
  from gb_ops_rep [OF g1 r0] earlier have r1: "gs_rep g1 ?ops n" by simp
  from fold_push_end_stack [OF g2] have g2': "g2 = g1\<lparr>gs_values_arena := gs_values_arena g1 @ ends\<rparr>" .
  have me: "m = n" "e = length (ops_arena ?ops)"
    using m e r0 r1 by (auto simp: iv_len_idx_def monad_elims gs_rep_def)
  have ok: "stored_ok ?ops (gs_operations g2)" "preds_ok ?ops (gs_op_predecessors g2)"
    "values_ok ?ops n (gs_values g2)" and arena: "gs_values_arena g2 = ops_arena ?ops @ ends"
    using r1 by (simp_all add: g2' gs_rep_def)
  note fin = gb_finish_bits [OF G ok, unfolded me]
  let ?ss = "gs_op_predecessors g2 @ map snd (gs_values g2)"
  have short: "\<forall>s\<in>set ?ss. length s \<le> words_for (og_total_ops G)"
    using ok fin by (auto simp: preds_ok_def values_ok_def value_ok_def in_set_conv_nth) (metis snd_conv)
  have bits: "og_bit_sets G = concat (padded (words_for (og_total_ops G)) ?ss)" using fin by simp
  have len: "length (gs_op_predecessors g2) = length ?ops" using ok by (simp add: preds_ok_def)
  have preds: "\<exists>s. og_get_predecessors G i = Some s \<and> os_elems s = ao_preds (?ops ! i) \<and> os_inv s \<and>
                  os_total s = length ?ops" if i: "i < length ?ops" for i
  proof -
    have el: "bits_of (?ss ! i) = ao_preds (?ops ! i)"
      using ok(2) i by (simp add: preds_ok_def nth_append)
    moreover have "bits_of (?ss ! i) \<subseteq> {..<og_total_ops G}"
      unfolding el using fin i spec_ops_preds_less [OF earlier, of i n] by simp
    ultimately show ?thesis
      using og_get_bit_set_segment [OF bits short, of i] i len fin by (simp add: og_get_predecessors_def)
  qed
  have cons: "\<exists>s. og_get_consumers G v = Some s \<and> os_elems s = consumers_of ?ops v \<and> os_inv s \<and>
                 os_total s = length ?ops" if v: "v < og_total_values G" for v
  proof -
    have el: "bits_of (?ss ! (length ?ops + v)) = consumers_of ?ops v"
      using ok(3) v len fin by (simp add: values_ok_def value_ok_def nth_append)
    moreover have "bits_of (?ss ! (length ?ops + v)) \<subseteq> {..<og_total_ops G}"
      unfolding el using fin by (auto simp: consumers_of_def)
    ultimately show ?thesis
      using og_get_bit_set_segment [OF bits short, of "length ?ops + v"] v len fin
      by (simp add: og_get_consumers_def)
  qed
  have view: "og_get_op G i = Some \<lparr>ov_inputs = ao_ins (?ops ! i), ov_outputs = ao_outs (?ops ! i),
      ov_predecessors = p, ov_kind = ao_kind (?ops ! i)\<rparr>"
    if "og_get_predecessors G i = Some p" "i < length ?ops" for i p
    using og_get_op_view [of ?ops G ends i p] that ok fin arena by simp
  have "\<exists>v. og_get_op G i = Some v \<and> ov_inputs v = ao_ins (?ops ! i) \<and>
        ov_outputs v = ao_outs (?ops ! i) \<and> ov_kind v = ao_kind (?ops ! i) \<and>
        os_elems (ov_predecessors v) = ao_preds (?ops ! i) \<and> os_inv (ov_predecessors v) \<and>
        os_total (ov_predecessors v) = length ?ops" if "i < length ?ops" for i
    using preds [OF that] view [OF _ that] by (metis op_view.select_convs)
  then show ?thesis
    using cons fin ok arena
    by (simp add: og_holds_def og_op_ids_def og_input_values_def og_output_values_def stored_ok_def)
qed

text \<open>
  A value's remaining uses: its consumers that are not completed, plus one when it must be on the
  end stack. The subtraction never underflows.
\<close>

lemma og_uses_remaining_spec:
  assumes holds: "og_holds G n ops ends" and v: "v < og_total_values G"
    and "os_inv completed" "os_total completed = length ops"
  shows "og_uses_remaining G completed v =
         Some (card (consumers_of ops v - os_elems completed) + (if v \<in> set ends then 1 else 0))"
proof -
  obtain s where s: "og_get_consumers G v = Some s" "os_elems s = consumers_of ops v"
    using holds v by (auto simp: og_holds_def)
  have outs: "og_output_values G = Some ends" using holds by (simp add: og_holds_def)
  have "finite (consumers_of ops v)" by (simp add: consumers_of_def)
  then have "card (consumers_of ops v - os_elems completed) =
             card (consumers_of ops v) - card (consumers_of ops v \<inter> os_elems completed)"
    "card (consumers_of ops v \<inter> os_elems completed) \<le> card (consumers_of ops v)"
    by (simp_all add: card_Diff_subset_Int card_mono)
  then show ?thesis
    by (simp add: og_uses_remaining_def s outs os_count_members_spec os_intersect_count_spec)
qed

subsection \<open>When the builder succeeds\<close>

text \<open>
  The sizes that decide whether a builder call is in range: the operations and their predecessor
  sets, the values, the arena; every source is an operation and no input count exceeds the arena.
\<close>

definition gs_sized :: "graph_storage \<Rightarrow> nat \<Rightarrow> nat \<Rightarrow> nat \<Rightarrow> bool" where
  "gs_sized g n_ops n_values n_arena \<longleftrightarrow>
     length (gs_operations g) = n_ops \<and> length (gs_op_predecessors g) = n_ops \<and>
     length (gs_values g) = n_values \<and> length (gs_values_arena g) = n_arena \<and>
     (\<forall>e\<in>set (gs_values g). \<forall>p\<in>set_option (fst e). p < n_ops) \<and>
     (\<forall>st\<in>set (gs_operations g). so_input_count st \<le> n_arena)"

lemma begin_op_returns:
  assumes "gs_sized g n m a" "n < idx_limit" "a < idx_limit"
  shows "\<exists>g'. gb_begin_op kind g = Some (n, g') \<and> gs_sized g' (Suc n) m a"
  using assms
  by (fastforce simp: gb_begin_op_def iv_len_idx_def iv_push_def gs_sized_def monad_elims)

lemma add_predecessor_returns:
  assumes "gs_sized g n m a" "i < n"
  shows "\<exists>g'. gb_add_predecessor i p g = Some g' \<and> gs_sized g' n m a"
  using assms add_to_set_spec [of "gs_op_predecessors g ! i" p]
  by (auto simp: gb_add_predecessor_def gs_sized_def slice_get_def slice_set_def)

lemma add_predecessors_returns:
  "gs_sized g n m a \<Longrightarrow> i < n \<Longrightarrow>
     \<exists>g'. fold_opt (gb_add_predecessor i) ps g = Some g' \<and> gs_sized g' n m a"
proof (induction ps arbitrary: g)
  case (Cons p ps)
  from add_predecessor_returns [OF Cons.prems, of p] obtain h where
    "gb_add_predecessor i p g = Some h" "gs_sized h n m a" by blast
  with Cons.IH [of h] Cons.prems(2) show ?case by simp
qed simp

lemma add_input_returns:
  assumes sized: "gs_sized g n m a" and i: "i < n" and v: "v < m" and a: "a < idx_limit"
  shows "\<exists>g'. gb_add_input i v g = Some g' \<and> gs_sized g' n m (Suc a)"
proof -
  obtain src c where e: "gs_values g ! v = (src, c)" by fastforce
  obtain c' where c': "add_to_set c i = Some c'" using add_to_set_spec by blast
  have mem: "(src, c) \<in> set (gs_values g)" using e v sized by (metis gs_sized_def nth_mem)
  let ?st = "gs_operations g ! i"
  have st: "?st \<in> set (gs_operations g)" using i sized by (simp add: gs_sized_def)
  define h where "h = g\<lparr>gs_values_arena := gs_values_arena g @ [v],
    gs_operations := (gs_operations g)[i := ?st\<lparr>so_input_count := Suc (so_input_count ?st)\<rparr>],
    gs_values := (gs_values g)[v := (src, c')]\<rparr>"
  have h: "gs_sized h n m (Suc a)"
    using sized mem st unfolding gs_sized_def h_def
    by (auto dest!: set_update_subset_insert [THEN subsetD] intro: le_SucI)
  have "so_input_count ?st < idx_limit" using sized st a by (fastforce simp: gs_sized_def)
  then have "gb_add_input i v g = (case src of None \<Rightarrow> Some h | Some p \<Rightarrow> gb_add_predecessor i p h)"
    using sized i v a e c'
    by (simp add: gb_add_input_def iv_push_def gs_sized_def slice_get_def slice_set_def checked_add_u32_def
        idx_limit_def h_def cong: option.case_cong)
  with h add_predecessor_returns [OF h i] show ?thesis by (cases src) auto
qed

lemma add_inputs_returns:
  "gs_sized g n m a \<Longrightarrow> i < n \<Longrightarrow> set vs \<subseteq> {..<m} \<Longrightarrow> a + length vs \<le> idx_limit \<Longrightarrow>
     \<exists>g'. fold_opt (gb_add_input i) vs g = Some g' \<and> gs_sized g' n m (a + length vs)"
proof (induction vs arbitrary: g a)
  case (Cons v vs)
  from Cons.prems add_input_returns [OF Cons.prems(1,2), of v]
  obtain h where h: "gb_add_input i v g = Some h" "gs_sized h n m (Suc a)" by auto
  from Cons.IH [OF h(2)] Cons.prems h(1) show ?case by auto
qed simp

lemma outputs_return:
  "gs_sized g n m a \<Longrightarrow> i < n \<Longrightarrow> m + k \<le> idx_limit \<Longrightarrow> a + k \<le> idx_limit \<Longrightarrow>
     \<exists>vs g'. gb_outputs i k g = Some (vs, g') \<and> gs_sized g' n (m + k) (a + k)"
proof (induction k arbitrary: g m a)
  case (Suc k)
  define h where "h = g\<lparr>gs_values := gs_values g @ [(Some i, [])], gs_values_arena := gs_values_arena g @ [m]\<rparr>"
  have h: "gb_add_output i g = Some (m, h)" "gs_sized h n (Suc m) (Suc a)"
    using Suc.prems by (auto simp: gb_add_output_def iv_push_def h_def gs_sized_def intro: le_SucI)
  from Suc.IH [OF h(2)] Suc.prems h(1) show ?case by auto
qed simp

text \<open>An operation takes values that exist; \<open>spec_sizes\<close> adds up what a block needs.\<close>

fun specs_in_range :: "nat \<Rightarrow> op_spec list \<Rightarrow> bool" where
  "specs_in_range m [] = True"
| "specs_in_range m ((kind, preds, ins, k) # specs) =
     (set ins \<subseteq> {..<m} \<and> specs_in_range (m + k) specs)"

fun specs_values :: "op_spec list \<Rightarrow> nat" where
  "specs_values [] = 0"
| "specs_values ((kind, preds, ins, k) # specs) = k + specs_values specs"

fun specs_arena :: "op_spec list \<Rightarrow> nat" where
  "specs_arena [] = 0"
| "specs_arena ((kind, preds, ins, k) # specs) = length ins + k + specs_arena specs"

lemma op_returns:
  assumes "gs_sized g n m a" "n < idx_limit" "set ins \<subseteq> {..<m}" "m + k \<le> idx_limit"
    "a + length ins + k \<le> idx_limit" "a < idx_limit"
  shows "\<exists>vs g'. gb_op kind preds ins k g = Some (vs, g') \<and> gs_sized g' (Suc n) (m + k) (a + length ins + k)"
proof -
  obtain g1 where g1: "gb_begin_op kind g = Some (n, g1)" "gs_sized g1 (Suc n) m a"
    using begin_op_returns [OF assms(1,2,6)] by blast
  obtain g2 where g2: "fold_opt (gb_add_predecessor n) preds g1 = Some g2" "gs_sized g2 (Suc n) m a"
    using add_predecessors_returns [OF g1(2)] by blast
  obtain g3 where g3: "fold_opt (gb_add_input n) ins g2 = Some g3" "gs_sized g3 (Suc n) m (a + length ins)"
    using add_inputs_returns [OF g2(2), of n ins] assms by auto
  from outputs_return [OF g3(2), of n k] assms g1 g2 g3 show ?thesis by (auto simp: gb_op_def)
qed

lemma ops_return:
  "gs_sized g n m a \<Longrightarrow> specs_in_range m specs \<Longrightarrow> n + length specs \<le> idx_limit \<Longrightarrow>
     m + specs_values specs \<le> idx_limit \<Longrightarrow> a + specs_arena specs < idx_limit \<Longrightarrow>
     \<exists>g'. fold_opt gb_op_of specs g = Some g' \<and>
          gs_sized g' (n + length specs) (m + specs_values specs) (a + specs_arena specs)"
proof (induction specs arbitrary: g n m a)
  case (Cons s specs)
  obtain kind preds ins k where s: "s = (kind, preds, ins, k)" by (cases s)
  from Cons.prems s obtain vs h where h: "gb_op kind preds ins k g = Some (vs, h)"
    "gs_sized h (Suc n) (m + k) (a + length ins + k)"
    using op_returns [OF Cons.prems(1), of ins k kind preds] by auto
  have "n + length (s # specs) = Suc n + length specs" "m + specs_values (s # specs) = m + k + specs_values specs"
    "a + specs_arena (s # specs) = a + length ins + k + specs_arena specs"
    by (simp_all add: s)
  with Cons.IH [OF h(2)] Cons.prems h(1) show ?case
    by (simp add: s gb_op_of_def [of "(kind, preds, ins, k)"] add.assoc)
qed simp

lemma inputs_return:
  "gs_sized g 0 m 0 \<Longrightarrow> m + k \<le> idx_limit \<Longrightarrow> \<exists>g'. gb_inputs k g = Some g' \<and> gs_sized g' 0 (m + k) 0"
proof (induction k arbitrary: g m)
  case (Suc k)
  define h where "h = g\<lparr>gs_values := gs_values g @ [(None, [])]\<rparr>"
  have "gb_push_input_value g = Some (m, h)" "gs_sized h 0 (Suc m) 0"
    using Suc.prems by (auto simp: gb_push_input_value_def iv_push_def h_def gs_sized_def)
  with Suc.IH [of h "Suc m"] Suc.prems show ?case by auto
qed simp

lemma push_end_stack_returns:
  "length (gs_values_arena g) + length vs \<le> idx_limit \<Longrightarrow>
     fold_opt gb_push_end_stack_value vs g = Some (g\<lparr>gs_values_arena := gs_values_arena g @ vs\<rparr>)"
  by (induction vs arbitrary: g) (simp_all add: gb_push_end_stack_value_def iv_push_def)

lemma finish_returns:
  assumes "gs_rep g ops n" "gs_sized g k m a" "k < 2 ^ 32" "m < 2 ^ 32"
  shows "\<exists>G. gb_finish i e (g\<lparr>gs_values_arena := arena\<rparr>) = Some G"
proof -
  have len: "\<forall>s\<in>set (gs_op_predecessors g). length s \<le> words_for (length ops)"
    "\<forall>s\<in>set (map snd (gs_values g)). length s \<le> words_for (length ops)" "length ops = k"
    using assms(1,2)
    by (auto simp: gs_rep_def preds_ok_def values_ok_def value_ok_def stored_ok_def gs_sized_def in_set_conv_nth)
      (metis snd_conv)
  from assms(2-4) show ?thesis
    by (simp add: gb_finish_def gs_sized_def Let_def fold_copy_bitset [OF len(1)] fold_copy_bitset [OF len(2)] len(3) [symmetric])
qed

lemma gb_graph_returns:
  assumes range: "specs_in_range n specs" and earlier: "preds_earlier 0 specs"
    and ops: "length specs \<le> idx_limit" and vals: "n + specs_values specs < idx_limit"
    and arena: "specs_arena specs + length ends < idx_limit"
  shows "\<exists>G. gb_graph n specs ends = Some G"
proof -
  have "gs_sized gs_empty 0 0 0" by (simp add: gs_sized_def gs_empty_def)
  from inputs_return [OF this, of n] vals obtain g0 where
    g0: "gb_inputs n gs_empty = Some g0" "gs_sized g0 0 n 0" by auto
  have rep0: "gs_rep g0 [] n" "length (gs_values g0) = n"
    using gb_inputs_rep [OF g0(1) gs_rep_empty] by (simp_all add: gs_empty_def)
  from ops_return [OF g0(2) range] assms obtain g1 where g1: "fold_opt gb_op_of specs g0 = Some g1"
    "gs_sized g1 (length specs) (n + specs_values specs) (specs_arena specs)" by auto
  have rep1: "gs_rep g1 (spec_ops [] n specs) n"
    by (rule gb_ops_rep [OF g1(1) rep0(1,2)]) (use earlier in simp)
  have "length (gs_values_arena g1) = specs_arena specs" "length (gs_values g0) < idx_limit"
    using g1(2) rep0(2) vals by (simp_all add: gs_sized_def)
  with g0(1) g1(1) push_end_stack_returns [of g1 ends] arena finish_returns [OF rep1 g1(2)] vals ops
  show ?thesis by (simp add: gb_graph_def iv_len_idx_def idx_limit_def)
qed

lemma gb_ops_values:
  "fold_opt gb_op_of specs g = Some g' \<Longrightarrow> gs_rep g ops n \<Longrightarrow> preds_earlier (length ops) specs \<Longrightarrow>
     length (gs_values g') = length (gs_values g) + specs_values specs"
proof (induction specs arbitrary: g ops)
  case (Cons s specs)
  obtain kind preds ins k where s: "s = (kind, preds, ins, k)" by (cases s)
  from Cons.prems(1) s obtain vs h where h: "gb_op kind preds ins k g = Some (vs, h)"
    and rest: "fold_opt gb_op_of specs h = Some g'"
    by (auto simp: gb_op_of_def [of "(kind, preds, ins, k)"] monad_elims)
  have "\<forall>p\<in>set preds. p < length ops" using Cons.prems(3) s by simp
  from gs_rep_op [OF Cons.prems(2) h this] Cons.IH [OF rest] Cons.prems(3) s show ?case by fastforce
qed simp

lemma gb_graph_values:
  assumes "gb_graph n specs ends = Some G" "preds_earlier 0 specs"
  shows "og_total_values G = n + specs_values specs"
proof -
  from assms(1) obtain g0 m g1 e g2 where g0: "gb_inputs n gs_empty = Some g0"
    and g1: "fold_opt gb_op_of specs g0 = Some g1" and g2: "fold_opt gb_push_end_stack_value ends g1 = Some g2"
    and G: "gb_finish m e g2 = Some G"
    by (auto simp: gb_graph_def monad_elims)
  have "og_total_values G = length (gs_values g2)" using G by (auto simp: gb_finish_def monad_elims)
  moreover have "gs_rep g0 [] n \<and> length (gs_values g0) = n"
    using gb_inputs_rep [OF g0 gs_rep_empty] by (simp add: gs_empty_def)
  ultimately show ?thesis
    using gb_ops_values [OF g1, of "[]" n] fold_push_end_stack [OF g2] assms(2) by simp
qed

subsection \<open>Properties\<close>

text \<open>
  C22: what is built into an operation graph is read back from it. For operations
  given in order, each with explicit predecessors that come earlier, the finished graph lists the
  same inputs, outputs and kinds at each operation id, its predecessor sets are the explicit ones
  together with the producers of the inputs, its consumer sets are the users of each value, and its
  end stack is the one pushed; the packed bit sets and arenas are never read out of range.
\<close>

theorem graph_roundtrip:
  assumes "gb_graph n specs ends = Some G" and "preds_earlier 0 specs"
  shows "og_holds G n (spec_ops [] n specs) ends"
  using assms by (rule gb_graph_holds)


text \<open>
  C35: the number of uses a value has left is the number of its consumers that
  are not completed, and one more when it is on the end stack; the subtraction never underflows.
\<close>

theorem uses_remaining_counts:
  assumes "gb_graph n specs ends = Some G" and "preds_earlier 0 specs" and "v < og_total_values G"
    and "os_inv completed" and "os_total completed = length specs"
  shows "og_uses_remaining G completed v =
    Some (card (consumers_of (spec_ops [] n specs) v - os_elems completed) + (if v \<in> set ends then 1 else 0))"
  using assms by (intro og_uses_remaining_spec [OF gb_graph_holds]) simp_all

text \<open>Two operations: the first doubles the input, the second consumes both values.\<close>

definition sample_specs :: "op_spec list" where
  "sample_specs = [(Normal 0, [], [0, 0], 1), (Normal 1, [0], [1, 0], 0)]"


lemma sample_built: "\<exists>G. gb_graph 1 sample_specs [1] = Some G"
  by (rule gb_graph_returns) (simp_all add: sample_specs_def idx_limit_def)

lemma sample_ops:
  "spec_ops [] 1 sample_specs =
     [\<lparr>ao_kind = Normal 0, ao_ins = [0, 0], ao_outs = [1], ao_preds = {}\<rparr>,
      \<lparr>ao_kind = Normal 1, ao_ins = [1, 0], ao_outs = [], ao_preds = {0}\<rparr>]"
  by (auto simp: sample_specs_def data_preds_def producers_def)

theorem graph_roundtrip_witness:
  "\<exists>G v. gb_graph 1 sample_specs [1] = Some G \<and> og_get_op G 1 = Some v \<and> ov_inputs v = [1, 0] \<and>
     os_elems (ov_predecessors v) = {0}"
proof -
  obtain G where G: "gb_graph 1 sample_specs [1] = Some G" using sample_built by blast
  with graph_roundtrip [OF G] show ?thesis
    unfolding og_holds_def sample_ops by (force simp: sample_specs_def)
qed

theorem uses_remaining_counts_witness:
  "\<exists>G. gb_graph 1 sample_specs [1] = Some G \<and> og_uses_remaining G (os_empty 2) 1 = Some 2"
proof -
  obtain G where G: "gb_graph 1 sample_specs [1] = Some G" using sample_built by blast
  have "og_total_values G = 2" using gb_graph_values [OF G] by (simp add: sample_specs_def)
  then have "og_uses_remaining G (os_empty 2) 1 = Some (card (consumers_of (spec_ops [] 1 sample_specs) 1) + 1)"
    using uses_remaining_counts [OF G, of 1 "os_empty 2"] by (simp add: sample_specs_def)
  moreover have "consumers_of (spec_ops [] 1 sample_specs) 1 = {1}"
    unfolding sample_ops by (auto simp: consumers_of_def less_Suc_eq)
  ultimately show ?thesis using G by simp
qed

end
