(* ===== verification/Evm_Stack.thy ===== *)
theory Evm_Stack
  imports Op_Graph Indices "HOL-Library.Multiset"
begin

text \<open>
  The symbolic EVM stack of the scheduler (\<open>EvmStack\<close> of
  \<open>plankc/sir/crates/stack-scheduling/src/stack.rs\<close>): an array of 1024 value ids whose last
  \<open>stack_len\<close> elements are the stack, top first. \<open>es_fifo\<close> is that suffix; every operation is
  characterised by what it does to it, and the locale \<open>evm_lifo\<close> states the contract the tracked
  stack and the schedulers rely on.
\<close>

definition max_stack_length :: nat where
  "max_stack_length = 1024"

record evm_stack =
  es_raw :: "nat list"
  es_len :: nat

definition es_new :: evm_stack where
  "es_new = \<lparr>es_raw = replicate max_stack_length 0, es_len = 0\<rparr>"

definition es_is_empty :: "evm_stack \<Rightarrow> bool" where
  "es_is_empty s = (es_len s = 0)"

definition es_from_fifo :: "nat list \<Rightarrow> evm_stack option" where
  "es_from_fifo vs = do {
     rust_assert (length vs \<le> max_stack_length);
     Some (es_new\<lparr>es_raw := take (max_stack_length - length vs) (es_raw es_new) @ vs,
                  es_len := length vs\<rparr>)
   }"

definition es_fifo :: "evm_stack \<Rightarrow> nat list" where
  "es_fifo s = drop (max_stack_length - es_len s) (es_raw s)"

definition es_pop :: "evm_stack \<Rightarrow> nat option \<times> evm_stack" where
  "es_pop s = (if es_len s = 0 then (None, s)
               else (Some (es_raw s ! (max_stack_length - es_len s)), s\<lparr>es_len := es_len s - 1\<rparr>))"

definition es_push :: "nat \<Rightarrow> evm_stack \<Rightarrow> evm_stack option" where
  "es_push v s = do {
     rust_assert (\<not> max_stack_length \<le> es_len s);
     raw \<leftarrow> slice_set (es_raw s) (max_stack_length - es_len s - 1) v;
     Some (s\<lparr>es_raw := raw, es_len := es_len s + 1\<rparr>)
   }"

definition es_duplicate :: "nat \<Rightarrow> evm_stack \<Rightarrow> evm_stack option" where
  "es_duplicate d s = do {
     v \<leftarrow> slice_get (es_fifo s) d;
     es_push v s
   }"

definition es_exchange :: "nat \<Rightarrow> nat \<Rightarrow> evm_stack \<Rightarrow> evm_stack option" where
  "es_exchange n m s = do {
     let base = max_stack_length - es_len s;
     x \<leftarrow> slice_get (es_fifo s) n;
     y \<leftarrow> slice_get (es_fifo s) m;
     Some (s\<lparr>es_raw := (es_raw s)[base + n := y, base + m := x]\<rparr>)
   }"

definition es_swap_with_top :: "nat \<Rightarrow> evm_stack \<Rightarrow> evm_stack option" where
  "es_swap_with_top d s = es_exchange 0 d s"

definition es_get_by_depth :: "nat \<Rightarrow> evm_stack \<Rightarrow> nat option" where
  "es_get_by_depth d s = slice_get (es_fifo s) d"

definition es_count :: "nat \<Rightarrow> evm_stack \<Rightarrow> nat" where
  "es_count v s = length (filter (\<lambda>x. x = v) (es_fifo s))"

definition es_find_first :: "nat \<Rightarrow> evm_stack \<Rightarrow> nat option" where
  "es_find_first v s = position (\<lambda>x. x = v) (es_fifo s)"

definition es_top :: "evm_stack \<Rightarrow> nat option" where
  "es_top s = (case es_fifo s of [] \<Rightarrow> None | v # _ \<Rightarrow> Some v)"

definition es_inv :: "evm_stack \<Rightarrow> bool" where
  "es_inv s \<longleftrightarrow> length (es_raw s) = max_stack_length \<and> es_len s \<le> max_stack_length"

text \<open>Exchanging two elements of a list.\<close>

definition list_swap :: "nat \<Rightarrow> nat \<Rightarrow> 'a list \<Rightarrow> 'a list" where
  "list_swap n m xs = xs[n := xs ! m, m := xs ! n]"

lemma length_list_swap [simp]: "length (list_swap n m xs) = length xs"
  by (simp add: list_swap_def)

lemma nth_list_swap:
  "n < length xs \<Longrightarrow> m < length xs \<Longrightarrow> i < length xs \<Longrightarrow>
     list_swap n m xs ! i = xs ! (if i = n then m else if i = m then n else i)"
  by (auto simp: list_swap_def nth_list_update)

lemma mset_list_swap: "n < length xs \<Longrightarrow> m < length xs \<Longrightarrow> mset (list_swap n m xs) = mset xs"
  by (simp add: list_swap_def mset_swap)

lemma map_list_swap: "n < length xs \<Longrightarrow> m < length xs \<Longrightarrow> map f (list_swap n m xs) = list_swap n m (map f xs)"
  by (simp add: list_swap_def map_update)

lemma es_len_fifo [simp]: "es_inv s \<Longrightarrow> length (es_fifo s) = es_len s"
  by (simp add: es_inv_def es_fifo_def)

lemma es_new_spec [simp]: "es_inv es_new" "es_fifo es_new = []"
  by (simp_all add: es_new_def es_inv_def es_fifo_def)

lemma es_is_empty_iff: "es_inv s \<Longrightarrow> es_is_empty s \<longleftrightarrow> es_fifo s = []"
  by (simp add: es_is_empty_def flip: length_0_conv)

lemma es_from_fifo_spec:
  "length vs \<le> max_stack_length \<Longrightarrow> \<exists>s. es_from_fifo vs = Some s \<and> es_inv s \<and> es_fifo s = vs"
  by (simp add: es_from_fifo_def es_new_def es_inv_def es_fifo_def)

lemma es_from_fifo_None: "es_from_fifo vs = None \<longleftrightarrow> max_stack_length < length vs"
  by (cases "length vs \<le> max_stack_length") (auto simp: es_from_fifo_def)

lemma es_pop_spec:
  assumes "es_inv s"
  shows "case es_fifo s of
           [] \<Rightarrow> es_pop s = (None, s)
         | v # vs \<Rightarrow> \<exists>s'. es_pop s = (Some v, s') \<and> es_inv s' \<and> es_fifo s' = vs"
proof (cases "es_len s")
  case 0
  with assms have "es_fifo s = []" by (simp flip: length_0_conv)
  with 0 show ?thesis by (simp add: es_pop_def)
next
  case (Suc k)
  let ?b = "max_stack_length - es_len s"
  have b: "?b < length (es_raw s)" "max_stack_length - k = Suc ?b"
    using assms Suc by (auto simp: es_inv_def)
  then have "es_fifo s = es_raw s ! ?b # drop (Suc ?b) (es_raw s)"
    by (simp add: es_fifo_def Cons_nth_drop_Suc)
  moreover have "es_inv (s\<lparr>es_len := k\<rparr>)" "es_fifo (s\<lparr>es_len := k\<rparr>) = drop (Suc ?b) (es_raw s)"
    using assms Suc b by (auto simp: es_inv_def es_fifo_def)
  ultimately show ?thesis using Suc by (simp add: es_pop_def)
qed

lemma es_push_spec:
  assumes "es_inv s" "es_len s < max_stack_length"
  shows "\<exists>s'. es_push v s = Some s' \<and> es_inv s' \<and> es_fifo s' = v # es_fifo s"
proof -
  let ?b = "max_stack_length - es_len s - 1"
  have b: "?b < length (es_raw s)" "max_stack_length - es_len s = Suc ?b"
    using assms by (auto simp: es_inv_def)
  then have "drop ?b ((es_raw s)[?b := v]) = v # drop (Suc ?b) (es_raw s)"
    by (simp add: drop_update_swap flip: Cons_nth_drop_Suc)
  with assms b show ?thesis by (simp add: es_push_def es_inv_def es_fifo_def)
qed

lemma es_push_None: "es_inv s \<Longrightarrow> es_push v s = None \<longleftrightarrow> es_len s = max_stack_length"
proof -
  assume inv: "es_inv s"
  then have "es_len s = max_stack_length \<or> es_len s < max_stack_length" by (auto simp: es_inv_def)
  with es_push_spec [OF inv, of v] show ?thesis by (auto simp: es_push_def)
qed

lemma es_push_SomeD:
  "es_inv s \<Longrightarrow> es_push v s = Some s' \<Longrightarrow>
     es_inv s' \<and> es_fifo s' = v # es_fifo s \<and> es_len s < max_stack_length"
  using es_push_spec [of s v] es_push_None [of s v] by (cases "es_len s < max_stack_length") (auto simp: es_inv_def)

lemma es_exchange_spec:
  assumes inv: "es_inv s" and nm: "n < es_len s" "m < es_len s"
  shows "\<exists>s'. es_exchange n m s = Some s' \<and> es_inv s' \<and> es_fifo s' = list_swap n m (es_fifo s)"
proof -
  let ?b = "max_stack_length - es_len s"
  have b: "?b + n < length (es_raw s)" "?b + m < length (es_raw s)" "?b \<le> length (es_raw s)"
    using inv nm by (auto simp: es_inv_def)
  have "drop ?b ((es_raw s)[?b + n := y, ?b + m := x]) = (drop ?b (es_raw s))[n := y, m := x]" for x y
    by (simp add: drop_update_swap)
  then show ?thesis
    using inv nm b by (simp add: es_exchange_def list_swap_def es_inv_def es_fifo_def Let_def add.commute)
qed

lemma es_exchange_None: "es_inv s \<Longrightarrow> es_exchange n m s = None \<longleftrightarrow> es_len s \<le> n \<or> es_len s \<le> m"
  using es_exchange_spec [of s n m] by (auto simp: es_exchange_def Let_def slice_get_def)

lemma es_exchange_SomeD:
  "es_inv s \<Longrightarrow> es_exchange n m s = Some s' \<Longrightarrow>
     es_inv s' \<and> es_fifo s' = list_swap n m (es_fifo s) \<and> n < es_len s \<and> m < es_len s"
  using es_exchange_spec [of s n m] es_exchange_None [of s n m]
  by (cases "n < es_len s \<and> m < es_len s") auto

lemma es_duplicate_SomeD:
  "es_inv s \<Longrightarrow> es_duplicate d s = Some s' \<Longrightarrow>
     es_inv s' \<and> es_fifo s' = es_fifo s ! d # es_fifo s \<and> d < length (es_fifo s) \<and> es_len s < max_stack_length"
  using es_push_SomeD [of s "es_fifo s ! d" s'] by (simp add: es_duplicate_def bind_eq_Some_conv slice_get_Some)

lemma es_duplicate_spec:
  "es_inv s \<Longrightarrow> d < length (es_fifo s) \<Longrightarrow> es_len s < max_stack_length \<Longrightarrow>
     \<exists>s'. es_duplicate d s = Some s' \<and> es_inv s' \<and> es_fifo s' = es_fifo s ! d # es_fifo s"
  using es_push_spec [of s "es_fifo s ! d"] by (simp add: es_duplicate_def)

subsection \<open>The contract\<close>

text \<open>
  A bounded stack seen through its list of values: what the tracked stack relies on. A pop that
  returns nothing means the stack is empty, a push fails exactly when it is full.
\<close>

locale evm_lifo =
  fixes inv :: "'s \<Rightarrow> bool" and vals :: "'s \<Rightarrow> nat list" and capacity :: nat
    and pop :: "'s \<Rightarrow> nat option \<times> 's" and push :: "nat \<Rightarrow> 's \<Rightarrow> 's option"
    and exchange :: "nat \<Rightarrow> nat \<Rightarrow> 's \<Rightarrow> 's option"
  assumes vals_bound: "inv s \<Longrightarrow> length (vals s) \<le> capacity"
    and pop_empty: "inv s \<Longrightarrow> vals s = [] \<Longrightarrow> pop s = (None, s)"
    and pop_top: "inv s \<Longrightarrow> vals s = v # vs \<Longrightarrow> \<exists>s'. pop s = (Some v, s') \<and> inv s' \<and> vals s' = vs"
    and push_room: "inv s \<Longrightarrow> length (vals s) < capacity \<Longrightarrow>
                    \<exists>s'. push v s = Some s' \<and> inv s' \<and> vals s' = v # vals s"
    and push_full: "inv s \<Longrightarrow> length (vals s) = capacity \<Longrightarrow> push v s = None"
    and exchange_in: "inv s \<Longrightarrow> n < length (vals s) \<Longrightarrow> m < length (vals s) \<Longrightarrow>
                      \<exists>s'. exchange n m s = Some s' \<and> inv s' \<and> vals s' = list_swap n m (vals s)"
begin

fun push_all :: "nat list \<Rightarrow> 's \<Rightarrow> 's option" where
  "push_all [] s = Some s"
| "push_all (v # vs) s = Option.bind (push v s) (push_all vs)"

fun pop_n :: "nat \<Rightarrow> 's \<Rightarrow> (nat list \<times> 's) option" where
  "pop_n 0 s = Some ([], s)"
| "pop_n (Suc k) s = (case pop s of
     (None, _) \<Rightarrow> None
   | (Some v, s') \<Rightarrow> map_option (\<lambda>(vs, t). (v # vs, t)) (pop_n k s'))"

lemma push_all_vals:
  "inv s \<Longrightarrow> length vs + length (vals s) \<le> capacity \<Longrightarrow>
     \<exists>t. push_all vs s = Some t \<and> inv t \<and> vals t = rev vs @ vals s"
proof (induction vs arbitrary: s)
  case (Cons v vs)
  then obtain s' where s': "push v s = Some s'" "inv s'" "vals s' = v # vals s"
    using push_room [of s v] by auto
  with Cons.IH [of s'] Cons.prems(2) show ?case by auto
qed simp

lemma pop_n_vals:
  "inv s \<Longrightarrow> k \<le> length (vals s) \<Longrightarrow>
     \<exists>t. pop_n k s = Some (take k (vals s), t) \<and> inv t \<and> vals t = drop k (vals s)"
proof (induction k arbitrary: s)
  case (Suc k)
  then obtain v vs where v: "vals s = v # vs" by (cases "vals s") auto
  from pop_top [OF Suc.prems(1) v] obtain s' where s': "pop s = (Some v, s')" "inv s'" "vals s' = vs"
    by blast
  with Suc.IH [of s'] Suc.prems(2) v show ?case by auto
qed simp

text \<open>Pushing values and popping as many gives them back, and leaves the stack's values alone.\<close>

lemma pop_pushed:
  assumes "inv s" "length vs + length (vals s) \<le> capacity" "push_all vs s = Some t"
  shows "\<exists>u. pop_n (length vs) t = Some (rev vs, u) \<and> vals u = vals s"
proof -
  from push_all_vals [OF assms(1,2)] assms(3) have t: "inv t" "vals t = rev vs @ vals s" by auto
  with pop_n_vals [OF t(1), of "length vs"] show ?thesis by auto
qed

text \<open>An exchange moves values but neither loses nor invents one.\<close>

lemma exchange_mset:
  "inv s \<Longrightarrow> n < length (vals s) \<Longrightarrow> m < length (vals s) \<Longrightarrow> exchange n m s = Some s' \<Longrightarrow>
     mset (vals s') = mset (vals s)"
  using exchange_in [of s n m] by (auto simp: mset_list_swap)

end

interpretation evm: evm_lifo es_inv es_fifo max_stack_length es_pop es_push es_exchange
proof
  show "es_inv s \<Longrightarrow> length (es_fifo s) \<le> max_stack_length" for s by (simp add: es_inv_def)
  show "es_inv s \<Longrightarrow> es_fifo s = [] \<Longrightarrow> es_pop s = (None, s)" for s
    using es_pop_spec [of s] by simp
  show "es_inv s \<Longrightarrow> es_fifo s = v # vs \<Longrightarrow>
      \<exists>s'. es_pop s = (Some v, s') \<and> es_inv s' \<and> es_fifo s' = vs" for s v vs
    using es_pop_spec [of s] by simp
  show "es_inv s \<Longrightarrow> length (es_fifo s) < max_stack_length \<Longrightarrow>
      \<exists>s'. es_push v s = Some s' \<and> es_inv s' \<and> es_fifo s' = v # es_fifo s" for s v
    by (simp add: es_push_spec)
  show "es_inv s \<Longrightarrow> length (es_fifo s) = max_stack_length \<Longrightarrow> es_push v s = None" for s v
    by (simp add: es_push_None)
  show "es_inv s \<Longrightarrow> n < length (es_fifo s) \<Longrightarrow> m < length (es_fifo s) \<Longrightarrow>
      \<exists>s'. es_exchange n m s = Some s' \<and> es_inv s' \<and> es_fifo s' = list_swap n m (es_fifo s)" for s n m
    by (simp add: es_exchange_spec)
qed

lemma push_all_fold: "evm.push_all vs s = fold_opt es_push vs s"
  by (induction vs arbitrary: s) (auto intro!: arg_cong2 [where f = Option.bind])

subsection \<open>Properties\<close>

text \<open>
  The fixed array of the EVM stack behaves as a bounded stack. Any values that
  fit above the present ones can be pushed, a pop takes the value pushed last and fails only on the
  empty stack, and pushing fails exactly on a stack of 1024 values.
\<close>

theorem evm_stack_lifo:
  assumes inv: "es_inv s" and room: "length vs + length (es_fifo s) \<le> max_stack_length"
  shows "(\<exists>t. fold_opt es_push vs s = Some t \<and> es_inv t \<and> es_fifo t = rev vs @ es_fifo s) \<and>
         (es_push v s = None) = (length (es_fifo s) = max_stack_length) \<and>
         (case es_fifo s of
            [] \<Rightarrow> es_pop s = (None, s)
          | w # ws \<Rightarrow> \<exists>u. es_pop s = (Some w, u) \<and> es_inv u \<and> es_fifo u = ws)"
  using evm.push_all_vals [OF inv room] es_push_None [OF inv, of v] es_pop_spec [OF inv] inv
  by (simp add: push_all_fold)

theorem evm_stack_lifo_witness:
  "\<exists>s t. es_from_fifo [1, 2] = Some s \<and> fold_opt es_push [3, 4] s = Some t \<and> es_fifo t = [4, 3, 1, 2]"
proof -
  obtain s where s: "es_from_fifo [1, 2] = Some s" "es_inv s" "es_fifo s = [1, 2]"
    using es_from_fifo_spec [of "[1, 2]"] by (auto simp: max_stack_length_def)
  with evm_stack_lifo [OF s(2), of "[3, 4]"] show ?thesis by (auto simp: max_stack_length_def)
qed

text \<open>
  Exchanging two positions of the stack succeeds exactly when both exist,
  swaps exactly those two values and keeps the collection of values on the stack.
\<close>

theorem evm_stack_exchange:
  assumes inv: "es_inv s"
  shows "case es_exchange n m s of
           None \<Rightarrow> length (es_fifo s) \<le> max n m
         | Some t \<Rightarrow> max n m < length (es_fifo s) \<and> es_inv t \<and> mset (es_fifo t) = mset (es_fifo s) \<and>
             es_fifo t = (es_fifo s)[n := es_fifo s ! m, m := es_fifo s ! n]"
proof (cases "es_exchange n m s")
  case None
  with es_exchange_None [OF inv, of n m] inv show ?thesis by (auto simp: max_def)
next
  case (Some t)
  with es_exchange_SomeD [OF inv Some] evm.exchange_mset [OF inv _ _ Some] inv show ?thesis
    by (simp add: list_swap_def)
qed

theorem evm_stack_exchange_witness:
  "\<exists>s t. es_from_fifo [1, 2, 3] = Some s \<and> es_exchange 0 2 s = Some t \<and> es_fifo t = [3, 2, 1]"
proof -
  obtain s where s: "es_from_fifo [1, 2, 3] = Some s" "es_inv s" "es_fifo s = [1, 2, 3]"
    using es_from_fifo_spec [of "[1, 2, 3]"] by (auto simp: max_stack_length_def)
  with evm_stack_exchange [OF s(2), of 0 2] show ?thesis
    by (cases "es_exchange 0 2 s") (auto simp: numeral_2_eq_2)
qed

end
