(* ===== verification/Tracked_Stack.thy ===== *)
theory Tracked_Stack
  imports Evm_Stack
begin

text \<open>
  The tracked stack of the scheduler (\<open>TrackedStack\<close>, \<open>StackOps\<close> and \<open>ScheduleConfig\<close> of
  \<open>plankc/sir/crates/stack-scheduling/src/stack.rs\<close>): a symbolic stack that emits the stack
  operation for every change made to it, and the list of values spilled to memory. The operation
  sink is the list of the operations emitted so far. The second part gives the emitted operations
  a meaning, an abstract stack machine, and shows that replaying them keeps the machine in step
  with the symbolic stack.
\<close>

datatype stack_op =
    Swap nat
  | Dup nat
  | Pop
  | Flipped nat
  | Op nat
  | CallRetPush nat
  | Exchange nat nat
  | Store nat
  | Load nat

record schedule_config =
  sc_max_swap_depth :: nat
  sc_max_dup_depth :: nat
  sc_max_exchange_range :: nat
  sc_exchange_cost :: nat

definition sc_max_swap_no_exchange :: "nat \<Rightarrow> schedule_config option" where
  "sc_max_swap_no_exchange max_swap_depth = do {
     dup \<leftarrow> checked_sub max_swap_depth 1;
     Some \<lparr>sc_max_swap_depth = max_swap_depth, sc_max_dup_depth = dup,
           sc_max_exchange_range = max_swap_depth, sc_exchange_cost = 9\<rparr>
   }"

fun so_is_valid :: "schedule_config \<Rightarrow> stack_op \<Rightarrow> bool" where
  "so_is_valid c (Swap depth) = (depth \<le> sc_max_swap_depth c)"
| "so_is_valid c (Dup depth) = (depth \<le> sc_max_dup_depth c)"
| "so_is_valid c (Exchange n m) = (n + m < 2 ^ 8 \<and> n + m \<le> sc_max_exchange_range c)"
| "so_is_valid c _ = True"

record tracked_stack =
  ts_start :: nat
  ts_ops :: "stack_op list"
  ts_spilled :: "nat list"
  ts_inner :: evm_stack

definition ts_new_from_evm :: "nat \<Rightarrow> evm_stack \<Rightarrow> tracked_stack" where
  "ts_new_from_evm start inner = \<lparr>ts_start = start, ts_ops = [], ts_spilled = [], ts_inner = inner\<rparr>"

definition ts_new_from_parts :: "nat \<Rightarrow> nat list \<Rightarrow> nat list \<Rightarrow> tracked_stack option" where
  "ts_new_from_parts start fifo spilled = do {
     inner \<leftarrow> es_from_fifo fifo;
     Some \<lparr>ts_start = start, ts_ops = [], ts_spilled = spilled, ts_inner = inner\<rparr>
   }"

definition ts_emit :: "stack_op \<Rightarrow> tracked_stack \<Rightarrow> tracked_stack" where
  "ts_emit oper t = t\<lparr>ts_ops := ts_ops t @ [oper]\<rparr>"

definition ts_fifo :: "tracked_stack \<Rightarrow> nat list" where
  "ts_fifo t = es_fifo (ts_inner t)"

definition ts_pop :: "tracked_stack \<Rightarrow> tracked_stack option" where
  "ts_pop t = (case es_pop (ts_inner t) of
     (None, _) \<Rightarrow> None
   | (Some _, inner) \<Rightarrow> Some (ts_emit Pop (t\<lparr>ts_inner := inner\<rparr>)))"

definition ts_clone_with :: "tracked_stack \<Rightarrow> tracked_stack" where
  "ts_clone_with t = t\<lparr>ts_ops := []\<rparr>"

definition ts_stack_op :: "op_node_kind \<Rightarrow> bool \<Rightarrow> stack_op option" where
  "ts_stack_op kind flipped = (case kind of
     Flippable op_idx \<Rightarrow> Some (if flipped then Flipped op_idx else Op op_idx)
   | Normal op_idx \<Rightarrow> do { rust_assert (\<not> flipped); Some (Op op_idx) }
   | RetDestPush op_idx \<Rightarrow> do { rust_assert (\<not> flipped); Some (CallRetPush op_idx) })"

definition ts_input_correct :: "bool \<Rightarrow> nat list \<Rightarrow> nat \<Rightarrow> nat \<Rightarrow> nat \<Rightarrow> bool option" where
  "ts_input_correct flipped inputs i target actual =
     (if i = 0 \<and> flipped then map_option (\<lambda>v. actual = v) (slice_get inputs 1)
      else if i = 1 \<and> flipped then map_option (\<lambda>v. actual = v) (slice_get inputs 0)
      else Some (target = actual))"

fun ts_pop_inputs :: "bool \<Rightarrow> nat list \<Rightarrow> nat \<Rightarrow> nat list \<Rightarrow> evm_stack \<Rightarrow> evm_stack option" where
  "ts_pop_inputs flipped inputs i [] s = Some s"
| "ts_pop_inputs flipped inputs i (target # targets) s = (case es_pop s of
     (None, _) \<Rightarrow> None
   | (Some actual, s) \<Rightarrow> do {
       correct \<leftarrow> ts_input_correct flipped inputs i target actual;
       rust_assert correct;
       ts_pop_inputs flipped inputs (i + 1) targets s
     })"

definition ts_op :: "op_graph \<Rightarrow> nat \<Rightarrow> bool \<Rightarrow> tracked_stack \<Rightarrow> tracked_stack option" where
  "ts_op graph op_id flipped t = do {
     oper \<leftarrow> og_get_op graph op_id;
     stack_op \<leftarrow> ts_stack_op (ov_kind oper) flipped;
     inner \<leftarrow> ts_pop_inputs flipped (ov_inputs oper) 0 (ov_inputs oper) (ts_inner t);
     inner \<leftarrow> fold_opt es_push (rev (ov_outputs oper)) inner;
     Some (ts_emit stack_op (t\<lparr>ts_inner := inner\<rparr>))
   }"

definition ts_swap :: "nat \<Rightarrow> tracked_stack \<Rightarrow> tracked_stack option" where
  "ts_swap depth t = do {
     rust_assert (depth > 0);
     inner \<leftarrow> es_swap_with_top depth (ts_inner t);
     Some (ts_emit (Swap depth) (t\<lparr>ts_inner := inner\<rparr>))
   }"

definition ts_dup :: "nat \<Rightarrow> tracked_stack \<Rightarrow> tracked_stack option" where
  "ts_dup depth t = do {
     inner \<leftarrow> es_duplicate depth (ts_inner t);
     Some (ts_emit (Dup depth) (t\<lparr>ts_inner := inner\<rparr>))
   }"

definition ts_alloc_id :: "tracked_stack \<Rightarrow> nat \<Rightarrow> nat option" where
  "ts_alloc_id t i = do {
     rust_assert (i < 2 ^ 32);
     idx_add (ts_start t) i
   }"

text \<open>\<open>rposition\<close>: the last index with the property.\<close>

definition rposition :: "('a \<Rightarrow> bool) \<Rightarrow> 'a list \<Rightarrow> nat option" where
  "rposition P xs = map_option (\<lambda>i. length xs - 1 - i) (position P (rev xs))"

text \<open>The outer option is the panic, the inner one the result.\<close>

definition ts_get_spilled :: "tracked_stack \<Rightarrow> nat \<Rightarrow> nat option option" where
  "ts_get_spilled t target = (case rposition (\<lambda>v. v = target) (ts_spilled t) of
     None \<Rightarrow> Some None
   | Some i \<Rightarrow> map_option Some (ts_alloc_id t i))"

definition ts_spill_top :: "tracked_stack \<Rightarrow> (nat \<times> tracked_stack) option" where
  "ts_spill_top t = (case es_pop (ts_inner t) of
     (None, _) \<Rightarrow> None
   | (Some target, inner) \<Rightarrow> do {
       new_alloc_id \<leftarrow> ts_alloc_id t (length (ts_spilled t));
       Some (new_alloc_id,
             ts_emit (Store new_alloc_id) (t\<lparr>ts_inner := inner, ts_spilled := ts_spilled t @ [target]\<rparr>))
     })"

definition ts_unspill :: "nat \<Rightarrow> tracked_stack \<Rightarrow> tracked_stack option" where
  "ts_unspill target t = do {
     found \<leftarrow> ts_get_spilled t target;
     alloc \<leftarrow> found;
     inner \<leftarrow> es_push target (ts_inner t);
     Some (ts_emit (Load alloc) (t\<lparr>ts_inner := inner\<rparr>))
   }"

definition ts_load :: "nat \<Rightarrow> tracked_stack \<Rightarrow> tracked_stack option" where
  "ts_load target t = do {
     i \<leftarrow> idx_sub target (ts_start t);
     v \<leftarrow> slice_get (ts_spilled t) i;
     inner \<leftarrow> es_push v (ts_inner t);
     Some (ts_emit (Load target) (t\<lparr>ts_inner := inner\<rparr>))
   }"

definition ts_into_next_alloc_id :: "tracked_stack \<Rightarrow> nat option" where
  "ts_into_next_alloc_id t = ts_alloc_id t (length (ts_spilled t))"

definition ts_inv :: "tracked_stack \<Rightarrow> bool" where
  "ts_inv t \<longleftrightarrow> es_inv (ts_inner t)"

subsection \<open>What each operation does to the symbolic stack\<close>

text \<open>\<open>ts_next t t' oper vs\<close>: the step emitted \<open>oper\<close> and left the stack \<open>vs\<close>.\<close>

definition ts_next :: "tracked_stack \<Rightarrow> tracked_stack \<Rightarrow> stack_op \<Rightarrow> nat list \<Rightarrow> bool" where
  "ts_next t t' oper vs \<longleftrightarrow>
     ts_inv t' \<and> ts_fifo t' = vs \<and> ts_ops t' = ts_ops t @ [oper] \<and> ts_start t' = ts_start t"

lemma ts_emit_simps [simp]:
  "ts_start (ts_emit oper t) = ts_start t" "ts_spilled (ts_emit oper t) = ts_spilled t"
  "ts_inner (ts_emit oper t) = ts_inner t" "ts_ops (ts_emit oper t) = ts_ops t @ [oper]"
  by (simp_all add: ts_emit_def)

lemma ts_fifo_length: "ts_inv t \<Longrightarrow> length (ts_fifo t) = es_len (ts_inner t)"
  by (simp add: ts_fifo_def ts_inv_def)

lemma ts_fifo_bound: "ts_inv t \<Longrightarrow> length (ts_fifo t) \<le> max_stack_length"
  using evm.vals_bound [of "ts_inner t"] by (simp add: ts_fifo_def ts_inv_def)

lemma ts_pop_Cons:
  assumes "ts_inv t" "ts_fifo t = v # vs"
  shows "\<exists>t'. ts_pop t = Some t' \<and> ts_next t t' Pop vs \<and> ts_spilled t' = ts_spilled t"
  using evm.pop_top [of "ts_inner t" v vs] assms
  by (auto simp: ts_pop_def ts_next_def ts_inv_def ts_fifo_def)

lemma ts_pop_Nil: "ts_inv t \<Longrightarrow> ts_fifo t = [] \<Longrightarrow> ts_pop t = None"
  using evm.pop_empty [of "ts_inner t"] by (simp add: ts_pop_def ts_inv_def ts_fifo_def)

lemma ts_pop_SomeD:
  assumes "ts_inv t" "ts_pop t = Some t'"
  shows "ts_fifo t \<noteq> [] \<and> ts_next t t' Pop (tl (ts_fifo t)) \<and> ts_spilled t' = ts_spilled t"
  using assms ts_pop_Nil [of t] ts_pop_Cons [of t] by (cases "ts_fifo t") auto

lemma ts_swap_spec:
  assumes "ts_inv t" "0 < d" "d < length (ts_fifo t)"
  shows "\<exists>t'. ts_swap d t = Some t' \<and> ts_next t t' (Swap d) (list_swap 0 d (ts_fifo t)) \<and>
              ts_spilled t' = ts_spilled t"
  using evm.exchange_in [of "ts_inner t" 0 d] assms
  by (auto simp: ts_swap_def es_swap_with_top_def ts_next_def ts_inv_def ts_fifo_def)

lemma ts_swap_SomeD:
  assumes "ts_inv t" "ts_swap d t = Some t'"
  shows "0 < d \<and> d < length (ts_fifo t) \<and> ts_next t t' (Swap d) (list_swap 0 d (ts_fifo t)) \<and>
         ts_spilled t' = ts_spilled t"
  using assms es_exchange_SomeD [of "ts_inner t" 0 d]
  by (auto simp: ts_swap_def es_swap_with_top_def ts_next_def ts_inv_def ts_fifo_def monad_elims)

lemma ts_dup_spec:
  assumes "ts_inv t" "d < length (ts_fifo t)" "length (ts_fifo t) < max_stack_length"
  shows "\<exists>t'. ts_dup d t = Some t' \<and> ts_next t t' (Dup d) (ts_fifo t ! d # ts_fifo t) \<and>
              ts_spilled t' = ts_spilled t"
  using es_duplicate_spec [of "ts_inner t" d] assms
  by (auto simp: ts_dup_def ts_next_def ts_inv_def ts_fifo_def)

lemma ts_dup_SomeD:
  assumes "ts_inv t" "ts_dup d t = Some t'"
  shows "d < length (ts_fifo t) \<and> length (ts_fifo t) < max_stack_length \<and>
         ts_next t t' (Dup d) (ts_fifo t ! d # ts_fifo t) \<and> ts_spilled t' = ts_spilled t"
  using assms es_duplicate_SomeD [of "ts_inner t" d]
  by (auto simp: ts_dup_def ts_next_def ts_inv_def ts_fifo_def monad_elims)

lemma ts_alloc_id_Some [monad_elims]:
  "ts_alloc_id t i = Some a \<longleftrightarrow> ts_start t + i < idx_limit \<and> a = ts_start t + i"
  by (auto simp: ts_alloc_id_def monad_elims idx_limit_def)

lemma rposition_SomeD:
  assumes "rposition P xs = Some i"
  shows "i < length xs \<and> P (xs ! i) \<and> (\<forall>j. i < j \<and> j < length xs \<longrightarrow> \<not> P (xs ! j))"
proof -
  from assms obtain k where k: "position P (rev xs) = Some k" and i: "i = length xs - 1 - k"
    by (auto simp: rposition_def)
  note pos = position_SomeD [OF k]
  have "xs ! i = rev xs ! k" using pos by (simp add: rev_nth i)
  moreover have "\<not> P (xs ! j)" if j: "i < j" "j < length xs" for j
  proof -
    have "length xs - 1 - j < k" using pos j i by auto
    then have "\<not> P (rev xs ! (length xs - 1 - j))" using pos by blast
    with j show ?thesis by (simp add: rev_nth)
  qed
  ultimately show ?thesis using pos by (auto simp: i)
qed

lemma rposition_None [simp]: "rposition P xs = None \<longleftrightarrow> (\<forall>x\<in>set xs. \<not> P x)"
  by (simp add: rposition_def)

lemma ts_get_spilled_found:
  assumes "v \<in> set (ts_spilled t)" "ts_start t + length (ts_spilled t) \<le> idx_limit"
  shows "\<exists>i<length (ts_spilled t). ts_get_spilled t v = Some (Some (ts_start t + i)) \<and> ts_spilled t ! i = v"
proof -
  from assms(1) obtain i where i: "rposition (\<lambda>x. x = v) (ts_spilled t) = Some i"
    using rposition_None [of "\<lambda>x. x = v" "ts_spilled t"] by (cases "rposition (\<lambda>x. x = v) (ts_spilled t)") auto
  note pos = rposition_SomeD [OF i]
  with assms(2) have "ts_alloc_id t i = Some (ts_start t + i)" by (simp add: monad_elims)
  with i pos show ?thesis by (auto simp: ts_get_spilled_def)
qed

lemma ts_get_spilled_SomeD:
  "ts_get_spilled t v = Some (Some a) \<Longrightarrow>
     \<exists>i<length (ts_spilled t). a = ts_start t + i \<and> ts_spilled t ! i = v"
  by (auto simp: ts_get_spilled_def monad_elims split: option.splits dest!: rposition_SomeD)

lemma ts_get_spilled_NoneD: "ts_get_spilled t v = Some None \<Longrightarrow> v \<notin> set (ts_spilled t)"
  by (auto simp: ts_get_spilled_def split: option.splits)

lemma ts_spill_top_Cons:
  assumes "ts_inv t" "ts_fifo t = v # vs" "ts_start t + length (ts_spilled t) < idx_limit"
  shows "\<exists>a t'. ts_spill_top t = Some (a, t') \<and> ts_next t t' (Store a) vs \<and>
                ts_spilled t' = ts_spilled t @ [v] \<and> a = ts_start t + length (ts_spilled t)"
proof -
  from assms(3) have "ts_alloc_id t (length (ts_spilled t)) = Some (ts_start t + length (ts_spilled t))"
    by (simp add: monad_elims)
  with evm.pop_top [of "ts_inner t" v vs] assms show ?thesis
    by (auto simp: ts_spill_top_def ts_next_def ts_inv_def ts_fifo_def)
qed

lemma ts_spill_top_SomeD:
  assumes "ts_inv t" "ts_spill_top t = Some (a, t')"
  shows "ts_fifo t \<noteq> [] \<and> ts_next t t' (Store a) (tl (ts_fifo t)) \<and>
         ts_spilled t' = ts_spilled t @ [hd (ts_fifo t)] \<and>
         a = ts_start t + length (ts_spilled t) \<and> a < idx_limit"
proof (cases "ts_fifo t")
  case Nil
  with assms evm.pop_empty [of "ts_inner t"] show ?thesis
    by (simp add: ts_spill_top_def ts_inv_def ts_fifo_def)
next
  case (Cons v vs)
  with assms evm.pop_top [of "ts_inner t" v vs] show ?thesis
    by (auto simp: ts_spill_top_def ts_next_def ts_inv_def ts_fifo_def monad_elims)
qed

lemma ts_unspill_spec:
  assumes "ts_inv t" "v \<in> set (ts_spilled t)" "ts_start t + length (ts_spilled t) \<le> idx_limit"
    and "length (ts_fifo t) < max_stack_length"
  shows "\<exists>i t'. ts_unspill v t = Some t' \<and> ts_next t t' (Load (ts_start t + i)) (v # ts_fifo t) \<and>
                ts_spilled t' = ts_spilled t \<and> i < length (ts_spilled t) \<and> ts_spilled t ! i = v"
proof -
  from ts_get_spilled_found [OF assms(2,3)] obtain i where i: "i < length (ts_spilled t)"
    "ts_get_spilled t v = Some (Some (ts_start t + i))" "ts_spilled t ! i = v" by blast
  with evm.push_room [of "ts_inner t" v] assms(1,4) show ?thesis
    by (auto simp: ts_unspill_def ts_next_def ts_inv_def ts_fifo_def)
qed

lemma ts_unspill_SomeD:
  assumes "ts_inv t" "ts_unspill v t = Some t'"
  shows "\<exists>i. ts_next t t' (Load (ts_start t + i)) (v # ts_fifo t) \<and> ts_spilled t' = ts_spilled t \<and>
             i < length (ts_spilled t) \<and> ts_spilled t ! i = v"
proof -
  from assms(2) obtain a s where a: "ts_get_spilled t v = Some (Some a)" and s: "es_push v (ts_inner t) = Some s"
    and t': "t' = ts_emit (Load a) (t\<lparr>ts_inner := s\<rparr>)"
    by (auto simp: ts_unspill_def monad_elims)
  from ts_get_spilled_SomeD [OF a] es_push_SomeD [OF _ s] assms(1) t' show ?thesis
    by (auto simp: ts_next_def ts_inv_def ts_fifo_def)
qed

lemma ts_load_SomeD:
  assumes "ts_inv t" "ts_load a t = Some t'"
  shows "\<exists>i. a = ts_start t + i \<and> i < length (ts_spilled t) \<and>
             ts_next t t' (Load a) (ts_spilled t ! i # ts_fifo t) \<and> ts_spilled t' = ts_spilled t"
proof -
  define i where "i = a - ts_start t"
  from assms(2) obtain s where i: "a = ts_start t + i" "i < length (ts_spilled t)"
    and s: "es_push (ts_spilled t ! i) (ts_inner t) = Some s"
    and t': "t' = ts_emit (Load a) (t\<lparr>ts_inner := s\<rparr>)"
    by (auto simp: ts_load_def monad_elims i_def)
  from i t' es_push_SomeD [OF _ s] assms(1) show ?thesis
    by (auto simp: ts_next_def ts_inv_def ts_fifo_def)
qed

end
