(* ===== verification/Stack_Machine.thy ===== *)
theory Stack_Machine
  imports Tracked_Stack
begin

text \<open>
  The meaning of the emitted stack operations: a machine with a stack of values and a memory of
  spill slots. What the operations of the program compute is a parameter; a flipped operation is
  the same operation applied to its first two operands in the opposite order. The simulation
  theorem says that replaying what a tracked stack emitted keeps the machine in step with it.
\<close>

record 'v op_meaning =
  om_arity :: "nat \<Rightarrow> nat"
  om_result :: "nat \<Rightarrow> 'v list \<Rightarrow> 'v list"
  om_return :: "nat \<Rightarrow> 'v"

type_synonym 'v machine = "'v list \<times> (nat \<Rightarrow> 'v)"

fun flip_args :: "'a list \<Rightarrow> 'a list" where
  "flip_args (x # y # zs) = y # x # zs"
| "flip_args xs = xs"

text \<open>An operation takes its operands off the stack and leaves its results, first on top.\<close>

definition m_apply :: "nat \<Rightarrow> ('v list \<Rightarrow> 'v list) \<Rightarrow> 'v machine \<Rightarrow> 'v machine option" where
  "m_apply n f st = (case st of (s, m) \<Rightarrow>
     do {
       rust_assert (n \<le> length s);
       let s' = f (take n s) @ drop n s;
       rust_assert (length s' \<le> max_stack_length);
       Some (s', m)
     })"

definition m_push :: "'v \<Rightarrow> 'v machine \<Rightarrow> 'v machine option" where
  "m_push v st = m_apply 0 (\<lambda>_. [v]) st"

fun m_step :: "'v op_meaning \<Rightarrow> stack_op \<Rightarrow> 'v machine \<Rightarrow> 'v machine option" where
  "m_step M (Swap d) (s, m) =
     (if 0 < d \<and> d < length s then Some (list_swap 0 d s, m) else None)"
| "m_step M (Dup d) (s, m) = (if d < length s then m_push (s ! d) (s, m) else None)"
| "m_step M Pop (s, m) = (case s of [] \<Rightarrow> None | v # vs \<Rightarrow> Some (vs, m))"
| "m_step M (Flipped k) st = m_apply (om_arity M k) (\<lambda>xs. om_result M k (flip_args xs)) st"
| "m_step M (Op k) st = m_apply (om_arity M k) (om_result M k) st"
| "m_step M (CallRetPush k) st = m_push (om_return M k) st"
| "m_step M (Exchange i j) (s, m) =
     (if i < length s \<and> j < length s then Some (list_swap i j s, m) else None)"
| "m_step M (Store a) (s, m) = (case s of [] \<Rightarrow> None | v # vs \<Rightarrow> Some (vs, m(a := v)))"
| "m_step M (Load a) (s, m) = m_push (m a) (s, m)"

definition m_exec :: "'v op_meaning \<Rightarrow> stack_op list \<Rightarrow> 'v machine \<Rightarrow> 'v machine option" where
  "m_exec M opers st = fold_opt (m_step M) opers st"

lemma m_exec_append:
  "m_exec M (xs @ ys) st = Option.bind (m_exec M xs st) (m_exec M ys)"
proof -
  have "m_exec M ys = fold_opt (m_step M) ys" by (rule ext) (simp add: m_exec_def)
  then show ?thesis by (simp add: m_exec_def fold_opt_append)
qed

lemma m_exec_Nil [simp]: "m_exec M [] st = Some st"
  by (simp add: m_exec_def)

lemma m_exec_snoc: "m_exec M (xs @ [x]) st = Option.bind (m_exec M xs st) (m_step M x)"
  by (simp add: m_exec_append) (cases "m_exec M xs st"; simp add: m_exec_def split: Option.bind_split)

text \<open>
  The tracked stack \<open>t\<close> is in step: replaying what it emitted from the machine state \<open>st0\<close> gives
  the values of its symbolic stack, each spilled value is in its slot, and no other slot changed.
  \<open>val\<close> is the value of each value id.
\<close>

definition slots_of :: "tracked_stack \<Rightarrow> nat set" where
  "slots_of t = {ts_start t..<ts_start t + length (ts_spilled t)}"

definition ts_sim :: "'v op_meaning \<Rightarrow> (nat \<Rightarrow> 'v) \<Rightarrow> 'v machine \<Rightarrow> tracked_stack \<Rightarrow> bool" where
  "ts_sim M val st0 t \<longleftrightarrow> ts_inv t \<and>
     (\<exists>m. m_exec M (ts_ops t) st0 = Some (map val (ts_fifo t), m) \<and>
          (\<forall>i<length (ts_spilled t). m (ts_start t + i) = val (ts_spilled t ! i)) \<and>
          (\<forall>a. a \<notin> slots_of t \<longrightarrow> m a = snd st0 a))"

lemma ts_sim_inv: "ts_sim M val st0 t \<Longrightarrow> ts_inv t"
  by (simp add: ts_sim_def)

text \<open>A step that emits one operation and does not touch memory.\<close>

lemma ts_sim_step:
  assumes sim: "ts_sim M val st0 t" and step: "ts_next t t' oper vs" and sp: "ts_spilled t' = ts_spilled t"
    and m: "\<And>m. (\<forall>i<length (ts_spilled t). m (ts_start t + i) = val (ts_spilled t ! i)) \<Longrightarrow>
                 m_step M oper (map val (ts_fifo t), m) = Some (map val vs, m)"
  shows "ts_sim M val st0 t'"
proof -
  from sim obtain m where run: "m_exec M (ts_ops t) st0 = Some (map val (ts_fifo t), m)"
    and mem: "\<forall>i<length (ts_spilled t). m (ts_start t + i) = val (ts_spilled t ! i)"
      "\<forall>a. a \<notin> slots_of t \<longrightarrow> m a = snd st0 a"
    by (auto simp: ts_sim_def)
  from step run assms(4) [OF mem(1)]
  have "m_exec M (ts_ops t') st0 = Some (map val (ts_fifo t'), m)"
    by (simp add: ts_next_def m_exec_snoc)
  with step sp mem show ?thesis by (auto simp: ts_sim_def ts_next_def slots_of_def)
qed

lemma ts_next_bound: "ts_next t t' oper vs \<Longrightarrow> length vs \<le> max_stack_length"
  using ts_fifo_bound [of t'] by (auto simp: ts_next_def)

lemma ts_sim_pop: "ts_sim M val st0 t \<Longrightarrow> ts_pop t = Some t' \<Longrightarrow> ts_sim M val st0 t'"
  using ts_pop_SomeD [of t t']
  by (intro ts_sim_step [of M val st0 t t' Pop "tl (ts_fifo t)"])
    (auto simp: ts_sim_inv neq_Nil_conv)

lemma m_step_swap:
  "0 < d \<Longrightarrow> d < length xs \<Longrightarrow> m_step M (Swap d) (map f xs, m) = Some (map f (list_swap 0 d xs), m)"
  using map_list_swap [of 0 xs d f] by (cases xs) simp_all

lemma ts_sim_swap: "ts_sim M val st0 t \<Longrightarrow> ts_swap d t = Some t' \<Longrightarrow> ts_sim M val st0 t'"
  using ts_swap_SomeD [of t d t']
  by (intro ts_sim_step [of M val st0 t t' "Swap d" "list_swap 0 d (ts_fifo t)"])
    (auto simp: ts_sim_inv m_step_swap simp del: m_step.simps)

lemma ts_sim_dup: "ts_sim M val st0 t \<Longrightarrow> ts_dup d t = Some t' \<Longrightarrow> ts_sim M val st0 t'"
  using ts_dup_SomeD [of t d t']
  by (intro ts_sim_step [of M val st0 t t' "Dup d" "ts_fifo t ! d # ts_fifo t"])
    (auto simp: ts_sim_inv m_push_def m_apply_def)

lemma ts_sim_load:
  assumes "ts_sim M val st0 t" "ts_next t t' (Load (ts_start t + i)) (v # ts_fifo t)"
    "i < length (ts_spilled t)" "ts_spilled t ! i = v" "ts_spilled t' = ts_spilled t"
  shows "ts_sim M val st0 t'"
  using assms ts_next_bound [OF assms(2)]
  by (intro ts_sim_step [OF assms(1,2)]) (auto simp: m_push_def m_apply_def)

lemma ts_sim_unspill: "ts_sim M val st0 t \<Longrightarrow> ts_unspill v t = Some t' \<Longrightarrow> ts_sim M val st0 t'"
  using ts_unspill_SomeD [of t v t'] ts_sim_load [of M val st0 t t'] by (auto simp: ts_sim_inv)

lemma ts_sim_load_slot: "ts_sim M val st0 t \<Longrightarrow> ts_load a t = Some t' \<Longrightarrow> ts_sim M val st0 t'"
  using ts_load_SomeD [of t a t'] ts_sim_load [of M val st0 t t'] by (auto simp: ts_sim_inv)

lemma ts_sim_spill_top:
  assumes sim: "ts_sim M val st0 t" and spill: "ts_spill_top t = Some (a, t')"
  shows "ts_sim M val st0 t'"
proof -
  from sim obtain m where run: "m_exec M (ts_ops t) st0 = Some (map val (ts_fifo t), m)"
    and mem: "\<forall>i<length (ts_spilled t). m (ts_start t + i) = val (ts_spilled t ! i)"
      "\<forall>a. a \<notin> slots_of t \<longrightarrow> m a = snd st0 a"
    by (auto simp: ts_sim_def)
  from ts_spill_top_SomeD [OF ts_sim_inv [OF sim] spill]
  obtain v vs where v: "ts_fifo t = v # vs" and step: "ts_next t t' (Store a) vs"
    and sp: "ts_spilled t' = ts_spilled t @ [v]" and a: "a = ts_start t + length (ts_spilled t)"
    by (auto simp: neq_Nil_conv)
  have "m_exec M (ts_ops t') st0 = Some (map val (ts_fifo t'), m(a := val v))"
    using step run v by (simp add: ts_next_def m_exec_snoc)
  moreover have "\<forall>i<length (ts_spilled t'). (m(a := val v)) (ts_start t' + i) = val (ts_spilled t' ! i)"
    using mem(1) step by (auto simp: sp a ts_next_def nth_append less_Suc_eq)
  moreover have "\<forall>b. b \<notin> slots_of t' \<longrightarrow> (m(a := val v)) b = snd st0 b"
    using mem(2) step by (auto simp: sp a ts_next_def slots_of_def)
  ultimately show ?thesis
    using step unfolding ts_sim_def ts_next_def by blast
qed

subsection \<open>Operations of the graph\<close>

text \<open>
  The valuation agrees with the graph: the outputs of every operation are what the operation
  computes from the values of its inputs.
\<close>

definition op_consistent :: "'v op_meaning \<Rightarrow> (nat \<Rightarrow> 'v) \<Rightarrow> op_view \<Rightarrow> bool" where
  "op_consistent M val v = (case ov_kind v of
     RetDestPush k \<Rightarrow> ov_inputs v = [] \<and> map val (ov_outputs v) = [om_return M k]
   | Normal k \<Rightarrow> om_arity M k = length (ov_inputs v) \<and>
                 map val (ov_outputs v) = om_result M k (map val (ov_inputs v))
   | Flippable k \<Rightarrow> om_arity M k = length (ov_inputs v) \<and>
                    map val (ov_outputs v) = om_result M k (map val (ov_inputs v)))"

definition graph_consistent :: "'v op_meaning \<Rightarrow> (nat \<Rightarrow> 'v) \<Rightarrow> op_graph \<Rightarrow> bool" where
  "graph_consistent M val G \<longleftrightarrow>
     (\<forall>i<length (og_operations G). \<forall>v. og_get_op G i = Some v \<longrightarrow> op_consistent M val v)"

text \<open>The operands the check accepts: the inputs in order, the first two exchanged when flipped.\<close>

lemma ts_pop_inputs_straight:
  "es_inv s \<Longrightarrow> ts_pop_inputs False inputs i targets s = Some s' \<Longrightarrow>
     es_inv s' \<and> es_fifo s = targets @ es_fifo s'"
proof (induction targets arbitrary: i s)
  case (Cons v vs)
  show ?case
  proof (cases "es_fifo s")
    case Nil
    with evm.pop_empty [OF Cons.prems(1)] Cons.prems(2) show ?thesis by simp
  next
    case (Cons w ws)
    with evm.pop_top [OF Cons.prems(1) Cons] obtain u where u: "es_pop s = (Some w, u)" "es_inv u" "es_fifo u = ws"
      by blast
    with Cons.prems(2) have "v = w" "ts_pop_inputs False inputs (i + 1) vs u = Some s'"
      by (auto simp: ts_input_correct_def monad_elims)
    with Cons.IH [OF u(2)] u Cons show ?thesis by auto
  qed
qed simp

lemma ts_pop_inputs_flipped_tail:
  "es_inv s \<Longrightarrow> 2 \<le> i \<Longrightarrow>
     ts_pop_inputs True inputs i targets s = ts_pop_inputs False inputs i targets s"
proof (induction targets arbitrary: i s)
  case (Cons v vs)
  show ?case
  proof (cases "es_fifo s")
    case Nil
    with evm.pop_empty [OF Cons.prems(1)] show ?thesis by simp
  next
    case (Cons w ws)
    with evm.pop_top [OF Cons.prems(1) Cons] obtain u where "es_pop s = (Some w, u)" "es_inv u" by blast
    with Cons.IH [of u "i + 1"] Cons.prems show ?thesis by (simp add: ts_input_correct_def)
  qed
qed simp

lemma es_pop_SomeD:
  "es_inv s \<Longrightarrow> es_pop s = (Some v, u) \<Longrightarrow> es_inv u \<and> es_fifo s = v # es_fifo u"
  using es_pop_spec [of s] by (cases "es_fifo s") auto

lemma ts_pop_inputs_flipped:
  assumes inv: "es_inv s" and run: "ts_pop_inputs True inputs 0 inputs s = Some s'"
  shows "es_inv s' \<and> es_fifo s = flip_args inputs @ es_fifo s'"
proof (cases inputs rule: flip_args.cases)
  case (1 x y zs)
  from run obtain v s1 where p1: "es_pop s = (Some v, s1)" "v = y"
    and r1: "ts_pop_inputs True inputs (Suc 0) (y # zs) s1 = Some s'"
    by (auto simp: 1 ts_input_correct_def monad_elims split: prod.splits option.splits)
  from r1 obtain w s2 where p2: "es_pop s1 = (Some w, s2)" "w = x"
    and r2: "ts_pop_inputs True inputs (Suc (Suc 0)) zs s2 = Some s'"
    by (auto simp: 1 ts_input_correct_def monad_elims split: prod.splits option.splits)
  from es_pop_SomeD [OF inv p1(1)] have i1: "es_inv s1" "es_fifo s = v # es_fifo s1" by auto
  from es_pop_SomeD [OF i1(1) p2(1)] have i2: "es_inv s2" "es_fifo s1 = w # es_fifo s2" by auto
  from r2 ts_pop_inputs_flipped_tail [OF i2(1)] have "ts_pop_inputs False inputs (Suc (Suc 0)) zs s2 = Some s'"
    by simp
  from ts_pop_inputs_straight [OF i2(1) this] i1 i2 p1 p2 show ?thesis by (simp add: 1)
qed (use run inv in \<open>auto simp: ts_input_correct_def monad_elims split: prod.splits option.splits\<close>)

lemma fold_es_push:
  "es_inv s \<Longrightarrow> fold_opt es_push vs s = Some s' \<Longrightarrow> es_inv s' \<and> es_fifo s' = rev vs @ es_fifo s"
proof (induction vs arbitrary: s)
  case (Cons v vs)
  then obtain u where u: "es_push v s = Some u" and rest: "fold_opt es_push vs u = Some s'"
    by (auto simp: monad_elims)
  from es_push_SomeD [OF Cons.prems(1) u] Cons.IH [OF _ rest] show ?case by auto
qed simp

text \<open>What a successful \<open>op\<close> did: it found its operands on top and left its outputs.\<close>

lemma ts_op_SomeD:
  assumes inv: "ts_inv t" and run: "ts_op G i flipped t = Some t'"
  obtains v oper rest where "og_get_op G i = Some v" "ts_stack_op (ov_kind v) flipped = Some oper"
    "ts_fifo t = (if flipped then flip_args (ov_inputs v) else ov_inputs v) @ rest"
    "ts_next t t' oper (ov_outputs v @ rest)" "ts_spilled t' = ts_spilled t"
proof -
  from run obtain v oper s1 s2 where v: "og_get_op G i = Some v"
    and oper: "ts_stack_op (ov_kind v) flipped = Some oper"
    and s1: "ts_pop_inputs flipped (ov_inputs v) 0 (ov_inputs v) (ts_inner t) = Some s1"
    and s2: "fold_opt es_push (rev (ov_outputs v)) s1 = Some s2"
    and t': "t' = ts_emit oper (t\<lparr>ts_inner := s2\<rparr>)"
    by (auto simp: ts_op_def monad_elims)
  have inv0: "es_inv (ts_inner t)" using inv by (simp add: ts_inv_def)
  have s1': "es_inv s1 \<and> es_fifo (ts_inner t) =
      (if flipped then flip_args (ov_inputs v) else ov_inputs v) @ es_fifo s1"
  proof (cases flipped)
    case True
    with ts_pop_inputs_flipped [OF inv0, of "ov_inputs v" s1] s1 show ?thesis by simp
  next
    case False
    with ts_pop_inputs_straight [OF inv0, of "ov_inputs v" 0 "ov_inputs v" s1] s1 show ?thesis by simp
  qed
  then have "es_inv s2 \<and> es_fifo s2 = ov_outputs v @ es_fifo s1"
    using fold_es_push [OF _ s2] by simp
  then have "ts_next t t' oper (ov_outputs v @ es_fifo s1)" "ts_spilled t' = ts_spilled t"
    by (simp_all add: t' ts_next_def ts_inv_def ts_fifo_def)
  with s1' show ?thesis by (intro that [OF v oper, of "es_fifo s1"]) (simp_all add: ts_fifo_def)
qed

lemma flip_args_twice [simp]: "flip_args (flip_args xs) = xs"
  by (induction xs rule: flip_args.induct) auto

lemma length_flip_args [simp]: "length (flip_args xs) = length xs"
  by (induction xs rule: flip_args.induct) auto

lemma map_flip_args: "map f (flip_args xs) = flip_args (map f xs)"
  by (induction xs rule: flip_args.induct) auto

lemma ts_sim_op:
  assumes sim: "ts_sim M val st0 t" and graph: "graph_consistent M val G"
    and run: "ts_op G i flipped t = Some t'"
  shows "ts_sim M val st0 t'"
proof (rule ts_op_SomeD [OF ts_sim_inv [OF sim] run])
  fix v oper rest
  assume v: "og_get_op G i = Some v" and oper: "ts_stack_op (ov_kind v) flipped = Some oper"
    and before: "ts_fifo t = (if flipped then flip_args (ov_inputs v) else ov_inputs v) @ rest"
    and after: "ts_next t t' oper (ov_outputs v @ rest)" and sp: "ts_spilled t' = ts_spilled t"
  have "i < length (og_operations G)" using v by (auto simp: og_get_op_def monad_elims)
  with graph v have cons: "op_consistent M val v" by (simp add: graph_consistent_def)
  have len: "length (ov_outputs v) + length rest \<le> max_stack_length"
    using ts_next_bound [OF after] by simp
  show ?thesis
  proof (rule ts_sim_step [OF sim after sp])
    fix m
    show "m_step M oper (map val (ts_fifo t), m) = Some (map val (ov_outputs v @ rest), m)"
      using oper cons before len
      by (cases "ov_kind v"; cases flipped)
        (auto simp: ts_stack_op_def op_consistent_def m_apply_def m_push_def map_flip_args monad_elims
          dest!: arg_cong [where f = length])
  qed
qed

text \<open>The start: nothing emitted, nothing spilled.\<close>

lemma ts_sim_start:
  "es_inv s \<Longrightarrow> fst st0 = map val (es_fifo s) \<Longrightarrow> ts_sim M val st0 (ts_new_from_evm a s)"
  by (cases st0) (auto simp: ts_sim_def ts_new_from_evm_def ts_inv_def ts_fifo_def slots_of_def)

subsection \<open>When an operation is accepted\<close>

lemma ts_pop_inputs_straight_returns:
  "es_inv s \<Longrightarrow> es_fifo s = targets @ rest \<Longrightarrow>
     \<exists>u. ts_pop_inputs False inputs i targets s = Some u \<and> es_inv u \<and> es_fifo u = rest"
proof (induction targets arbitrary: i s)
  case (Cons v vs)
  then obtain u where u: "es_pop s = (Some v, u)" "es_inv u" "es_fifo u = vs @ rest"
    using evm.pop_top [OF Cons.prems(1), of v "vs @ rest"] by auto
  with Cons.IH [of u "i + 1"] show ?case by (simp add: ts_input_correct_def)
qed simp

lemma ts_pop_inputs_flipped_returns:
  assumes inv: "es_inv s" and two: "length inputs \<noteq> 1" and top: "es_fifo s = flip_args inputs @ rest"
  shows "\<exists>u. ts_pop_inputs True inputs 0 inputs s = Some u \<and> es_inv u \<and> es_fifo u = rest"
proof (cases inputs rule: flip_args.cases)
  case (1 x y zs)
  obtain s1 where s1: "es_pop s = (Some y, s1)" "es_inv s1" "es_fifo s1 = x # zs @ rest"
    using evm.pop_top [OF inv, of y "x # zs @ rest"] top 1 by auto
  obtain s2 where s2: "es_pop s1 = (Some x, s2)" "es_inv s2" "es_fifo s2 = zs @ rest"
    using evm.pop_top [OF s1(2,3)] by auto
  from ts_pop_inputs_straight_returns [OF s2(2,3)] ts_pop_inputs_flipped_tail [OF s2(2)]
  obtain u where "ts_pop_inputs True inputs (Suc (Suc 0)) zs s2 = Some u" "es_inv u" "es_fifo u = rest"
    by (metis le_refl numeral_2_eq_2)
  with s1(1) s2(1) 1 show ?thesis by (simp add: ts_input_correct_def)
qed (use inv two top in auto)

lemma ts_pop_inputs_flipped_two:
  "ts_pop_inputs True inputs 0 inputs s = Some u \<Longrightarrow> length inputs \<noteq> 1"
  by (cases inputs rule: flip_args.cases)
    (auto simp: ts_input_correct_def monad_elims split: prod.splits option.splits)

lemma ts_op_returns:
  assumes inv: "ts_inv t" and v: "og_get_op G i = Some v" and oper: "ts_stack_op (ov_kind v) flipped = Some oper"
    and two: "flipped \<Longrightarrow> length (ov_inputs v) \<noteq> 1"
    and top: "ts_fifo t = (if flipped then flip_args (ov_inputs v) else ov_inputs v) @ rest"
    and room: "length (ov_outputs v) + length rest \<le> max_stack_length"
  shows "\<exists>t'. ts_op G i flipped t = Some t'"
proof -
  have inner: "es_inv (ts_inner t)" "es_fifo (ts_inner t) = ts_fifo t" using inv by (simp_all add: ts_inv_def ts_fifo_def)
  obtain s1 where s1: "ts_pop_inputs flipped (ov_inputs v) 0 (ov_inputs v) (ts_inner t) = Some s1"
    "es_inv s1" "es_fifo s1 = rest"
    using ts_pop_inputs_straight_returns [OF inner(1), of "ov_inputs v" rest]
      ts_pop_inputs_flipped_returns [OF inner(1) two] top inner(2)
    by (cases flipped) auto
  have "\<exists>s2. fold_opt es_push (rev (ov_outputs v)) s1 = Some s2"
    using evm.push_all_vals [OF s1(2), of "rev (ov_outputs v)"] s1(3) room by (auto simp: push_all_fold)
  with v oper s1(1) show ?thesis by (auto simp: ts_op_def)
qed

lemma ts_op_two: "ts_op G i True t = Some t' \<Longrightarrow> og_get_op G i = Some v \<Longrightarrow> length (ov_inputs v) \<noteq> 1"
  by (auto simp: ts_op_def monad_elims dest: ts_pop_inputs_flipped_two)

subsection \<open>Properties\<close>

text \<open>
  C5: scheduling an operation is sound. When the tracked stack accepts an
  operation of a graph whose values agree with what its operations compute, flipped or not,
  replaying everything emitted so far from the start state gives exactly the values of the symbolic
  stack, with every spilled value in its memory slot and every other slot unchanged.
\<close>

theorem scheduled_op_simulates:
  assumes "ts_sim M val st0 t" and "graph_consistent M val G" and "ts_op G i flipped t = Some t'"
  shows "ts_inv t' \<and> (\<exists>m. m_exec M (ts_ops t') st0 = Some (map val (ts_fifo t'), m) \<and>
          (\<forall>i<length (ts_spilled t'). m (ts_start t' + i) = val (ts_spilled t' ! i)) \<and>
          (\<forall>a. a \<notin> slots_of t' \<longrightarrow> m a = snd st0 a))"
  using ts_sim_op [OF assms] by (simp add: ts_sim_def)

text \<open>
  The tracked stack accepts an operation exactly when it can be executed
  there: it exists, its operands in order (or with the first two exchanged, only for a flippable
  operation) are on top, and its results fit. Otherwise \<open>op\<close> panics.
\<close>

theorem scheduled_op_accepts:
  assumes "ts_inv t"
  shows "(ts_op G i flipped t = None) = (\<nexists>v rest. og_get_op G i = Some v \<and>
     ts_stack_op (ov_kind v) flipped \<noteq> None \<and> (\<not> flipped \<or> length (ov_inputs v) \<noteq> 1) \<and>
     ts_fifo t = (if flipped then flip_args (ov_inputs v) else ov_inputs v) @ rest \<and>
     length (ov_outputs v) + length rest \<le> max_stack_length)"
proof (cases "ts_op G i flipped t")
  case None
  with ts_op_returns [OF assms, of G i _ flipped] show ?thesis by fastforce
next
  case (Some t')
  from ts_op_SomeD [OF assms Some] obtain v oper rest where v: "og_get_op G i = Some v"
    "ts_stack_op (ov_kind v) flipped = Some oper"
    "ts_fifo t = (if flipped then flip_args (ov_inputs v) else ov_inputs v) @ rest"
    "ts_next t t' oper (ov_outputs v @ rest)" by blast
  moreover have "\<not> flipped \<or> length (ov_inputs v) \<noteq> 1" using ts_op_two [of G i t t' v] Some v(1) by (cases flipped) auto
  moreover have "length (ov_outputs v) + length rest \<le> max_stack_length" using ts_next_bound [OF v(4)] by simp
  ultimately show ?thesis using Some by auto
qed

text \<open>
  A graph with one flippable operation on two inputs, under the meaning that subtracts.
\<close>

definition sub_specs :: "op_spec list" where
  "sub_specs = [(Flippable 0, [], [0, 1], 1)]"

definition sub_meaning :: "int op_meaning" where
  "sub_meaning = \<lparr>om_arity = (\<lambda>_. 2), om_result = (\<lambda>_ vs. [hd vs - hd (tl vs)]), om_return = (\<lambda>_. 0)\<rparr>"

lemma sub_graph:
  obtains G v where "gb_graph 2 sub_specs [2] = Some G" "og_get_op G 0 = Some v" "ov_inputs v = [0, 1]"
    "ov_outputs v = [2]" "ov_kind v = Flippable 0" "\<And>i u. og_get_op G i = Some u \<Longrightarrow> i = 0 \<and> u = v"
proof -
  obtain G where G: "gb_graph 2 sub_specs [2] = Some G"
    using gb_graph_returns [of 2 sub_specs "[2]"] by (auto simp: sub_specs_def idx_limit_def)
  have h: "og_holds G 2 (spec_ops [] 2 sub_specs) [2]" by (rule gb_graph_holds [OF G]) (simp add: sub_specs_def)
  then obtain v where v: "og_get_op G 0 = Some v" "ov_inputs v = [0, 1]" "ov_outputs v = [2]" "ov_kind v = Flippable 0"
    by (auto simp: og_holds_def sub_specs_def)
  have "length [0..<length (og_operations G)] = 1"
    using h unfolding og_holds_def og_op_ids_def by (simp only: length_upt) (simp add: sub_specs_def)
  then have "length (og_operations G) = 1" by simp
  then have "i = 0 \<and> u = v" if "og_get_op G i = Some u" for i u
    using that v(1) by (auto simp: og_get_op_def monad_elims less_Suc_eq)
  with G v that show ?thesis by blast
qed

lemma sub_start:
  obtains t where "ts_inv t" "ts_fifo t = [1, 0]" "ts_sim sub_meaning ((!) [10, 4, 6]) ([4, 10], \<lambda>_. 0) t"
proof -
  obtain s where s: "es_inv s" "es_fifo s = [1, 0]"
    using es_from_fifo_spec [of "[1, 0]"] by (auto simp: max_stack_length_def)
  then have "ts_sim sub_meaning ((!) [10, 4, 6]) ([4, 10], \<lambda>_. 0) (ts_new_from_evm 0 s)"
    by (intro ts_sim_start) simp_all
  moreover have "ts_fifo (ts_new_from_evm 0 s) = [1, 0]" using s by (simp add: ts_fifo_def ts_new_from_evm_def)
  ultimately show ?thesis using that ts_sim_inv by blast
qed

theorem scheduled_op_accepts_witness:
  "\<exists>G t t'. gb_graph 2 sub_specs [2] = Some G \<and> ts_fifo t = [1, 0] \<and> ts_op G 0 True t = Some t' \<and>
     ts_op G 0 False t = None"
proof (rule sub_graph)
  fix G v
  assume G: "gb_graph 2 sub_specs [2] = Some G" "og_get_op G 0 = Some v" "ov_inputs v = [0, 1]"
    "ov_outputs v = [2]" "ov_kind v = Flippable 0"
  obtain t where t: "ts_inv t" "ts_fifo t = [1, 0]" by (rule sub_start)
  have "ts_op G 0 False t = None" "ts_op G 0 True t \<noteq> None"
    using scheduled_op_accepts [OF t(1), of G 0] G t(2) by (simp_all add: ts_stack_op_def max_stack_length_def)
  with G(1) t(2) show ?thesis by blast
qed

theorem scheduled_op_simulates_witness:
  "\<exists>G t t' m. gb_graph 2 sub_specs [2] = Some G \<and> ts_fifo t = [1, 0] \<and> ts_op G 0 True t = Some t' \<and>
     m_exec sub_meaning (ts_ops t') ([4, 10], \<lambda>_. 0) = Some ([6], m)"
proof (rule sub_graph)
  fix G v
  assume G: "gb_graph 2 sub_specs [2] = Some G" "og_get_op G 0 = Some v" "ov_inputs v = [0, 1]"
    "ov_outputs v = [2]" "ov_kind v = Flippable 0" "\<And>i u. og_get_op G i = Some u \<Longrightarrow> i = 0 \<and> u = v"
  obtain t where t: "ts_inv t" "ts_fifo t = [1, 0]" "ts_sim sub_meaning ((!) [10, 4, 6]) ([4, 10], \<lambda>_. 0) t"
    by (rule sub_start)
  have cons: "graph_consistent sub_meaning ((!) [10, 4, 6]) G"
  proof -
    have "op_consistent sub_meaning ((!) [10, 4, 6]) v"
      using G(3-5) by (simp add: op_consistent_def sub_meaning_def)
    with G(6) show ?thesis unfolding graph_consistent_def by blast
  qed
  obtain t' where t': "ts_op G 0 True t = Some t'"
    using ts_op_returns [OF t(1) G(2), of True "Flipped 0" "[]"] G(3-5) t(2)
    by (auto simp: ts_stack_op_def max_stack_length_def)
  have "ts_fifo t' = [2]"
  proof (rule ts_op_SomeD [OF t(1) t'])
    fix w oper rest
    assume "og_get_op G 0 = Some w" "ts_fifo t = (if True then flip_args (ov_inputs w) else ov_inputs w) @ rest"
      and next': "ts_next t t' oper (ov_outputs w @ rest)"
    with G(2-4) t(2) have "ov_outputs w @ rest = [2]" by simp
    with next' show ?thesis by (simp add: ts_next_def)
  qed
  with scheduled_op_simulates [OF t(3) cons t'] G(1) t(2) t' show ?thesis by (auto simp: numeral_2_eq_2)
qed

end
