(* ===== verification/Shuffler.thy ===== *)
theory Shuffler
  imports Stack_Machine
begin

text \<open>
  The greedy stack shuffler (\<open>greedy_shuffler/mod.rs\<close> and \<open>indices.rs\<close> of
  \<open>plankc/sir/crates/stack-scheduling/src\<close>), which rearranges a tracked stack into a target
  stack. Depths from the top and positions from the bottom are natural numbers; the conversions
  and slices keep the panics of the code. An operation that may do nothing returns whether it
  did something (\<open>stepped\<close>).
\<close>

record shuffler =
  sh_complete :: nat
  sh_current :: tracked_stack
  sh_target :: "nat list"
  sh_max_swap :: nat
  sh_max_dup :: nat

definition sh_limit :: nat where
  "sh_limit = 100000"

subsection \<open>Positions and slices\<close>

definition bottom_to_depth :: "nat list \<Rightarrow> nat \<Rightarrow> nat option" where
  "bottom_to_depth stack b = do {
     d \<leftarrow> checked_sub (length stack) b;
     checked_sub d 1
   }"

definition at_bottom :: "nat list \<Rightarrow> nat \<Rightarrow> nat option" where
  "at_bottom stack b = do { d \<leftarrow> bottom_to_depth stack b; slice_get stack d }"

definition above_bottom :: "nat list \<Rightarrow> nat \<Rightarrow> nat list option" where
  "above_bottom stack b = do { d \<leftarrow> bottom_to_depth stack b; slice_range stack 0 d }"

definition down_to_bottom :: "nat list \<Rightarrow> nat \<Rightarrow> nat list option" where
  "down_to_bottom stack b = do { d \<leftarrow> bottom_to_depth stack b; slice_range stack 0 (d + 1) }"

definition above_depth :: "nat list \<Rightarrow> nat \<Rightarrow> nat list option" where
  "above_depth stack d = slice_range stack 0 d"

definition sh_fifo :: "shuffler \<Rightarrow> nat list" where
  "sh_fifo s = ts_fifo (sh_current s)"

definition sh_target_to :: "shuffler \<Rightarrow> nat \<Rightarrow> nat option" where
  "sh_target_to s i = bottom_to_depth (sh_target s) i"

definition sh_current_to :: "shuffler \<Rightarrow> nat \<Rightarrow> nat option" where
  "sh_current_to s i = bottom_to_depth (sh_fifo s) i"

definition sh_to_current :: "shuffler \<Rightarrow> nat \<Rightarrow> nat option" where
  "sh_to_current s i = bottom_to_depth (sh_fifo s) i"

definition sh_swap :: "nat \<Rightarrow> shuffler \<Rightarrow> shuffler option" where
  "sh_swap i s =
     (if i = 0 then Some s
      else do {
        rust_assert (i \<le> sh_max_swap s);
        rust_assert (i < 2 ^ 8);
        t \<leftarrow> ts_swap i (sh_current s);
        Some (s\<lparr>sh_current := t\<rparr>)
      })"

definition sh_dup :: "nat \<Rightarrow> shuffler \<Rightarrow> shuffler option" where
  "sh_dup i s = do {
     rust_assert (i \<le> sh_max_dup s);
     rust_assert (i < 2 ^ 8);
     t \<leftarrow> ts_dup i (sh_current s);
     Some (s\<lparr>sh_current := t\<rparr>)
   }"

definition sh_pop :: "shuffler \<Rightarrow> shuffler option" where
  "sh_pop s = map_option (\<lambda>t. s\<lparr>sh_current := t\<rparr>) (ts_pop (sh_current s))"

definition sh_spill_top :: "shuffler \<Rightarrow> shuffler option" where
  "sh_spill_top s = map_option (\<lambda>(_, t). s\<lparr>sh_current := t\<rparr>) (ts_spill_top (sh_current s))"

definition sh_unspill :: "nat \<Rightarrow> shuffler \<Rightarrow> shuffler option" where
  "sh_unspill v s = map_option (\<lambda>t. s\<lparr>sh_current := t\<rparr>) (ts_unspill v (sh_current s))"

text \<open>The part of a stack from the top down to a position, empty when the stack ends below it.\<close>

definition pairwise_part :: "nat list \<Rightarrow> nat \<Rightarrow> nat list option" where
  "pairwise_part stack start =
     (if stack = [] then Some []
      else do {
        highest \<leftarrow> bottom_to_depth stack 0;
        if highest < start then Some [] else down_to_bottom stack start
      })"

definition sh_iter_pairwise :: "shuffler \<Rightarrow> nat \<Rightarrow> (nat \<times> nat \<times> nat) list option" where
  "sh_iter_pairwise s start = do {
     current \<leftarrow> pairwise_part (sh_fifo s) start;
     target \<leftarrow> pairwise_part (sh_target s) start;
     let n = min (length current) (length target);
     Some (zip (rev current) (zip (rev target) [start..<start + n]))
   }"

subsection \<open>The operations\<close>

fun sh_newly_complete :: "shuffler \<Rightarrow> (nat \<times> nat \<times> nat) list \<Rightarrow> nat option" where
  "sh_newly_complete s [] = Some 0"
| "sh_newly_complete s ((current, target, i) # rest) =
     (if current \<noteq> target then Some 0
      else do {
        target_above \<leftarrow> above_bottom (sh_target s) i;
        another_copy_missing \<leftarrow>
          (if target \<in> set target_above
           then map_option (\<lambda>above. target \<notin> set above) (above_bottom (sh_fifo s) i)
           else Some False);
        if another_copy_missing then Some 0 else map_option Suc (sh_newly_complete s rest)
      })"

definition sh_update_complete :: "shuffler \<Rightarrow> shuffler option" where
  "sh_update_complete s = do {
     pairs \<leftarrow> sh_iter_pairwise s (sh_complete s);
     n \<leftarrow> sh_newly_complete s pairs;
     Some (s\<lparr>sh_complete := sh_complete s + n\<rparr>)
   }"

definition sh_is_unneeded :: "shuffler \<Rightarrow> nat \<Rightarrow> bool option" where
  "sh_is_unneeded s v =
     (if length (sh_target s) = sh_complete s then Some True
      else map_option (\<lambda>needed. v \<notin> set needed) (down_to_bottom (sh_target s) (sh_complete s)))"

definition sh_pop_when :: "(shuffler \<Rightarrow> nat \<Rightarrow> bool option) \<Rightarrow> shuffler \<Rightarrow> (bool \<times> shuffler) option" where
  "sh_pop_when test s = do {
     top \<leftarrow> slice_get (sh_fifo s) 0;
     b \<leftarrow> test s top;
     if b then map_option (\<lambda>s. (True, s)) (sh_pop s) else Some (False, s)
   }"

definition sh_pop_unneeded :: "shuffler \<Rightarrow> (bool \<times> shuffler) option" where
  "sh_pop_unneeded s = sh_pop_when sh_is_unneeded s"

definition sh_max_search_depth :: "shuffler \<Rightarrow> nat option" where
  "sh_max_search_depth s = do {
     first_incomplete \<leftarrow> sh_to_current s (sh_complete s);
     deepest \<leftarrow> checked_sub (length (sh_fifo s)) 1;
     Some (min (min (sh_max_swap s) first_incomplete) deepest)
   }"

definition sh_swap_to_correct_position :: "shuffler \<Rightarrow> (bool \<times> shuffler) option" where
  "sh_swap_to_correct_position s =
     (if length (sh_fifo s) \<le> sh_complete s then Some (False, s)
      else do {
        top \<leftarrow> slice_get (sh_fifo s) 0;
        depth \<leftarrow> sh_max_search_depth s;
        start \<leftarrow> sh_current_to s depth;
        pairs \<leftarrow> sh_iter_pairwise s start;
        (case find_map (\<lambda>(current, target, i). if current \<noteq> top \<and> target = top then Some i else None) pairs of
           None \<Rightarrow> Some (False, s)
         | Some idx \<Rightarrow> do {
             d \<leftarrow> sh_to_current s idx;
             s \<leftarrow> sh_swap d s;
             Some (True, s)
           })
      })"

definition count_value :: "nat \<Rightarrow> nat list \<Rightarrow> nat" where
  "count_value v xs = length (filter (\<lambda>x. x = v) xs)"

definition sh_is_extra :: "shuffler \<Rightarrow> nat \<Rightarrow> bool option" where
  "sh_is_extra s v = do {
     target \<leftarrow> down_to_bottom (sh_target s) (sh_complete s);
     current \<leftarrow> down_to_bottom (sh_fifo s) (sh_complete s);
     Some (count_value v current > count_value v target)
   }"

definition sh_pop_extra :: "shuffler \<Rightarrow> (bool \<times> shuffler) option" where
  "sh_pop_extra s = sh_pop_when sh_is_extra s"

text \<open>\<open>find_map\<close> with a closure that may panic, over values numbered from a start position.\<close>

fun sh_find_extra :: "shuffler \<Rightarrow> nat \<Rightarrow> nat list \<Rightarrow> nat option option" where
  "sh_find_extra s idx [] = Some None"
| "sh_find_extra s idx (v # vs) = do {
     extra \<leftarrow> sh_is_extra s v;
     if extra then Some (Some idx) else sh_find_extra s (idx + 1) vs
   }"

definition sh_swap_and_pop_extra :: "shuffler \<Rightarrow> (bool \<times> shuffler) option" where
  "sh_swap_and_pop_extra s =
     (if sh_fifo s = [] then Some (False, s)
      else do {
        depth \<leftarrow> sh_max_search_depth s;
        idx \<leftarrow> sh_current_to s depth;
        window \<leftarrow> down_to_bottom (sh_fifo s) idx;
        swap_idx \<leftarrow> sh_find_extra s idx (rev window);
        (case swap_idx of
           None \<Rightarrow> Some (False, s)
         | Some i \<Rightarrow> do {
             d \<leftarrow> sh_to_current s i;
             s \<leftarrow> sh_swap d s;
             s \<leftarrow> sh_pop s;
             Some (True, s)
           })
      })"

definition sh_is_duplicate :: "shuffler \<Rightarrow> nat \<Rightarrow> bool option" where
  "sh_is_duplicate s v = do {
     current \<leftarrow> down_to_bottom (sh_fifo s) (sh_complete s);
     Some (count_value v current \<ge> 2)
   }"

definition sh_pop_duplicate :: "shuffler \<Rightarrow> (bool \<times> shuffler) option" where
  "sh_pop_duplicate s = sh_pop_when sh_is_duplicate s"

definition sh_find_exchange :: "(nat \<times> nat \<times> nat) list \<Rightarrow> (nat \<times> nat) option" where
  "sh_find_exchange pairs =
     find_map (\<lambda>(current, target, dest_idx).
       if current = target then None
       else do {
         src_idx \<leftarrow> find_map (\<lambda>(src, target_at_src, src_idx).
                      if src \<noteq> target_at_src \<and> src = target then Some src_idx else None) pairs;
         Some (src_idx, dest_idx)
       }) pairs"

definition sh_exchange_via_top :: "shuffler \<Rightarrow> (bool \<times> shuffler) option" where
  "sh_exchange_via_top s =
     (if sh_fifo s = [] then Some (False, s)
      else do {
        depth \<leftarrow> sh_max_search_depth s;
        start \<leftarrow> sh_current_to s depth;
        pairs \<leftarrow> sh_iter_pairwise s start;
        (case sh_find_exchange pairs of
           None \<Rightarrow> Some (False, s)
         | Some (src_idx, dst_idx) \<Rightarrow> do {
             src \<leftarrow> sh_to_current s src_idx;
             dst \<leftarrow> sh_to_current s dst_idx;
             s \<leftarrow> sh_swap src s;
             s \<leftarrow> sh_swap dst s;
             Some (True, s)
           })
      })"

definition sh_can_push :: "shuffler \<Rightarrow> bool option" where
  "sh_can_push s =
     (if length (sh_fifo s) \<le> sh_max_swap s then Some True
      else do {
        horizon \<leftarrow> sh_current_to s (sh_max_swap s);
        v \<leftarrow> at_bottom (sh_target s) horizon;
        current \<leftarrow> at_bottom (sh_fifo s) horizon;
        if current \<noteq> v then Some False
        else do {
          target_above \<leftarrow> above_bottom (sh_target s) horizon;
          if v \<in> set target_above then do {
            above \<leftarrow> above_bottom (sh_fifo s) horizon;
            if v \<in> set above then Some True
            else map_option (\<lambda>found. found \<noteq> None) (ts_get_spilled (sh_current s) v)
          }
          else Some True
        }
      })"

definition sh_unspill_unavailable_horizon :: "shuffler \<Rightarrow> (bool \<times> shuffler) option" where
  "sh_unspill_unavailable_horizon s =
     (if length (sh_fifo s) < sh_max_swap s then Some (False, s)
      else do {
        d \<leftarrow> checked_sub (sh_max_swap s) 1;
        horizon \<leftarrow> sh_current_to s d;
        target \<leftarrow> at_bottom (sh_target s) horizon;
        current \<leftarrow> at_bottom (sh_fifo s) horizon;
        unavailable \<leftarrow>
          (if target \<noteq> current
           then map_option (\<lambda>above. target \<notin> set above) (above_depth (sh_fifo s) (sh_max_swap s))
           else Some False);
        if unavailable then map_option (\<lambda>s. (True, s)) (sh_unspill target s) else Some (False, s)
      })"

text \<open>The copies of a value among the depths \<open>0\<close> to \<open>n - 1\<close>, and the depth of the first one.\<close>

fun sh_copies :: "nat list \<Rightarrow> nat \<Rightarrow> nat list \<Rightarrow> nat \<Rightarrow> nat option \<Rightarrow> (nat \<times> nat option) option" where
  "sh_copies stack v [] copies dup_idx = Some (copies, dup_idx)"
| "sh_copies stack v (i # is) copies dup_idx = do {
     x \<leftarrow> slice_get stack i;
     if x = v
     then sh_copies stack v is (copies + 1) (case dup_idx of Some j \<Rightarrow> Some j | None \<Rightarrow> Some i)
     else sh_copies stack v is copies dup_idx
   }"

fun sh_find_dup :: "shuffler \<Rightarrow> nat \<Rightarrow> (nat \<times> nat \<times> nat) list \<Rightarrow> nat option option" where
  "sh_find_dup s search_depth [] = Some None"
| "sh_find_dup s search_depth ((_, target, _) # rest) = do {
     target_part \<leftarrow> down_to_bottom (sh_target s) search_depth;
     let required_copies = count_value target target_part;
     last_depth \<leftarrow> sh_to_current s search_depth;
     (available_copies, dup_idx) \<leftarrow> sh_copies (sh_fifo s) target (span_collect (0, last_depth + 1)) 0 None;
     (case dup_idx of
        Some i \<Rightarrow> if available_copies < required_copies then Some (Some i)
                  else sh_find_dup s search_depth rest
      | None \<Rightarrow> sh_find_dup s search_depth rest)
   }"

definition sh_dup_needed :: "shuffler \<Rightarrow> (bool \<times> shuffler) option" where
  "sh_dup_needed s =
     (if sh_fifo s = [] then Some (False, s)
      else do {
        deepest \<leftarrow> checked_sub (length (sh_fifo s)) 1;
        search_depth \<leftarrow> sh_current_to s (min (sh_max_dup s) deepest);
        pairs \<leftarrow> sh_iter_pairwise s search_depth;
        dup_idx \<leftarrow> sh_find_dup s search_depth pairs;
        (case dup_idx of
           None \<Rightarrow> Some (False, s)
         | Some i \<Rightarrow> map_option (\<lambda>s. (True, s)) (sh_dup i s))
      })"

fun sh_unspill_first :: "shuffler \<Rightarrow> nat \<Rightarrow> nat list \<Rightarrow> (bool \<times> shuffler) option" where
  "sh_unspill_first s n [] = Some (False, s)"
| "sh_unspill_first s n (v # vs) = do {
     window \<leftarrow> above_depth (sh_fifo s) n;
     if v \<notin> set window then map_option (\<lambda>s. (True, s)) (sh_unspill v s)
     else sh_unspill_first s n vs
   }"

definition sh_unspill_needed :: "shuffler \<Rightarrow> (bool \<times> shuffler) option" where
  "sh_unspill_needed s = do {
     let max_dup_depth_exclusive = min (sh_max_dup s + 1) (length (sh_fifo s));
     needed \<leftarrow> down_to_bottom (sh_target s) (sh_complete s);
     sh_unspill_first s max_dup_depth_exclusive (rev needed)
   }"

subsection \<open>The loops\<close>

definition sh_or ::
    "(shuffler \<Rightarrow> (bool \<times> shuffler) option) \<Rightarrow> (shuffler \<Rightarrow> (bool \<times> shuffler) option) \<Rightarrow>
     shuffler \<Rightarrow> (bool \<times> shuffler) option" where
  "sh_or f g s = do {
     (stepped, s) \<leftarrow> f s;
     if stepped then Some (True, s) else g s
   }"

definition sh_shrink_needed :: "shuffler \<Rightarrow> bool option" where
  "sh_shrink_needed s = do {
     need_access_length \<leftarrow> checked_sub (length (sh_fifo s)) (sh_complete s);
     Some (sh_max_swap s + 1 < need_access_length)
   }"

definition sh_shrink_step :: "shuffler \<Rightarrow> shuffler option" where
  "sh_shrink_step s = do {
     (stepped, s) \<leftarrow> sh_or sh_pop_unneeded
                      (sh_or sh_swap_to_correct_position
                        (sh_or sh_pop_extra (sh_or sh_swap_and_pop_extra sh_pop_duplicate))) s;
     s \<leftarrow> (if stepped then Some s else sh_spill_top s);
     sh_update_complete s
   }"

function sh_shrink_loop :: "loop_limit \<Rightarrow> shuffler \<Rightarrow> shuffler option" where
  "sh_shrink_loop limit s = do {
     needed \<leftarrow> sh_shrink_needed s;
     if needed then do {
       limit \<leftarrow> ll_tick limit;
       s \<leftarrow> sh_shrink_step s;
       sh_shrink_loop limit s
     } else Some s
   }"
  by auto
termination by (relation "measure (\<lambda>(l, s). ll_left l)") (auto dest: ll_tick_Some)

definition sh_grow_step :: "shuffler \<Rightarrow> shuffler option" where
  "sh_grow_step s = do {
     (stepped, s) \<leftarrow>
       (if length (sh_fifo s) > sh_complete s
        then sh_or sh_pop_unneeded
               (sh_or sh_swap_to_correct_position (sh_or sh_exchange_via_top sh_pop_extra)) s
        else Some (False, s));
     s \<leftarrow>
       (if stepped then Some s
        else do {
          can_push \<leftarrow> sh_can_push s;
          if can_push then do {
            (pushed, s) \<leftarrow> sh_or sh_unspill_unavailable_horizon (sh_or sh_dup_needed sh_unspill_needed) s;
            rust_assert pushed;
            Some s
          }
          else sh_spill_top s
        });
     sh_update_complete s
   }"

function sh_grow_loop :: "loop_limit \<Rightarrow> shuffler \<Rightarrow> shuffler option" where
  "sh_grow_loop limit s =
     (if sh_complete s < length (sh_target s) then do {
        limit \<leftarrow> ll_tick limit;
        s \<leftarrow> sh_grow_step s;
        sh_grow_loop limit s
      } else Some s)"
  by auto
termination by (relation "measure (\<lambda>(l, s). ll_left l)") (auto dest: ll_tick_Some)

definition sh_len :: "shuffler \<Rightarrow> nat" where
  "sh_len s = es_len (ts_inner (sh_current s))"

lemma sh_pop_len: "sh_pop s = Some s' \<Longrightarrow> sh_len s' < sh_len s"
  by (auto simp: sh_pop_def ts_pop_def sh_len_def es_pop_def split: option.splits if_splits)

function sh_cleanup :: "shuffler \<Rightarrow> shuffler option" where
  "sh_cleanup s =
     (if sh_len s > length (sh_target s) then do { s \<leftarrow> sh_pop s; sh_cleanup s } else Some s)"
  by auto
termination by (relation "measure sh_len") (auto dest: sh_pop_len)

declare sh_shrink_loop.simps [simp del] sh_grow_loop.simps [simp del] sh_cleanup.simps [simp del]

definition sh_run :: "schedule_config \<Rightarrow> tracked_stack \<Rightarrow> nat list \<Rightarrow> tracked_stack option" where
  "sh_run config current target = do {
     let s = \<lparr>sh_complete = 0, sh_current = current, sh_target = target,
              sh_max_swap = sc_max_swap_depth config, sh_max_dup = sc_max_dup_depth config\<rparr>;
     s \<leftarrow> sh_update_complete s;
     s \<leftarrow> sh_shrink_loop (ll_with_max sh_limit) s;
     s \<leftarrow> sh_grow_loop (ll_with_max sh_limit) s;
     s \<leftarrow> sh_cleanup s;
     Some (sh_current s)
   }"

definition shuffle :: "schedule_config \<Rightarrow> tracked_stack \<Rightarrow> op_graph \<Rightarrow> tracked_stack option" where
  "shuffle config current graph = do {
     target \<leftarrow> og_output_values graph;
     sh_run config current target
   }"

subsection \<open>Stacks from the bottom up\<close>

text \<open>
  Positions from the bottom do not move when the top changes, so the proofs read both stacks from
  the bottom up.
\<close>

definition sh_cur :: "shuffler \<Rightarrow> nat list" where
  "sh_cur s = rev (sh_fifo s)"

definition sh_tgt :: "shuffler \<Rightarrow> nat list" where
  "sh_tgt s = rev (sh_target s)"

definition sh_spilled :: "shuffler \<Rightarrow> nat list" where
  "sh_spilled s = ts_spilled (sh_current s)"

definition pairs_from :: "nat list \<Rightarrow> nat list \<Rightarrow> nat \<Rightarrow> (nat \<times> nat \<times> nat) list" where
  "pairs_from C T start = map (\<lambda>i. (C ! i, T ! i, i)) [start..<min (length C) (length T)]"

lemma length_sh_cur [simp]: "length (sh_fifo s) = length (sh_cur s)" "length (sh_target s) = length (sh_tgt s)"
  by (simp_all add: sh_cur_def sh_tgt_def)

lemma sh_fifo_cur: "sh_fifo s = rev (sh_cur s)" "sh_target s = rev (sh_tgt s)"
  by (simp_all add: sh_cur_def sh_tgt_def)

lemma bottom_to_depth_eq:
  "bottom_to_depth stack b = (if b < length stack then Some (length stack - b - 1) else None)"
  by (auto simp: bottom_to_depth_def checked_sub_def)

lemma at_bottom_eq: "at_bottom (rev xs) b = (if b < length xs then Some (xs ! b) else None)"
  by (simp add: at_bottom_def bottom_to_depth_eq rev_nth)

lemma above_bottom_eq:
  "above_bottom (rev xs) b = (if b < length xs then Some (rev (drop (Suc b) xs)) else None)"
  by (auto simp: above_bottom_def bottom_to_depth_eq rev_drop)

lemma down_to_bottom_eq:
  "down_to_bottom (rev xs) b = (if b < length xs then Some (rev (drop b xs)) else None)"
  by (auto simp: down_to_bottom_def bottom_to_depth_eq rev_drop Suc_diff_Suc)

lemma pairwise_part_eq: "pairwise_part (rev xs) start = Some (rev (drop start xs))"
  by (cases xs) (auto simp: pairwise_part_def bottom_to_depth_eq down_to_bottom_eq simp del: rev.simps)

lemma sh_iter_pairwise_eq: "sh_iter_pairwise s start = Some (pairs_from (sh_cur s) (sh_tgt s) start)"
proof -
  let ?C = "sh_cur s" and ?T = "sh_tgt s"
  have "zip (drop start ?C) (zip (drop start ?T) [start..<start + min (length ?C - start) (length ?T - start)])
        = pairs_from ?C ?T start"
    by (rule nth_equalityI) (auto simp: pairs_from_def less_diff_conv add.commute)
  then show ?thesis
    by (simp add: sh_iter_pairwise_def sh_fifo_cur pairwise_part_eq)
qed

lemma sh_current_to_eq:
  "sh_current_to s i = (if i < length (sh_cur s) then Some (length (sh_cur s) - i - 1) else None)"
  "sh_to_current s i = (if i < length (sh_cur s) then Some (length (sh_cur s) - i - 1) else None)"
  by (simp_all add: sh_current_to_def sh_to_current_def bottom_to_depth_eq)

lemma count_value_count: "count_value v xs = count (mset xs) v"
  by (induction xs) (auto simp: count_value_def)

lemmas sh_positions = sh_fifo_cur at_bottom_eq above_bottom_eq down_to_bottom_eq sh_iter_pairwise_eq
  sh_current_to_eq count_value_count

subsection \<open>Moves\<close>

text \<open>The changes a shuffler makes to the tracked stack.\<close>

inductive ts_move :: "nat \<Rightarrow> nat \<Rightarrow> tracked_stack \<Rightarrow> tracked_stack \<Rightarrow> bool" for ms md where
  move_pop: "ts_pop t = Some t' \<Longrightarrow> ts_move ms md t t'"
| move_swap: "d \<le> ms \<Longrightarrow> ts_swap d t = Some t' \<Longrightarrow> ts_move ms md t t'"
| move_dup: "d \<le> md \<Longrightarrow> ts_dup d t = Some t' \<Longrightarrow> ts_move ms md t t'"
| move_spill: "ts_spill_top t = Some (a, t') \<Longrightarrow> ts_move ms md t t'"
| move_unspill: "ts_unspill v t = Some t' \<Longrightarrow> ts_move ms md t t'"

definition ts_moves :: "nat \<Rightarrow> nat \<Rightarrow> tracked_stack \<Rightarrow> tracked_stack \<Rightarrow> bool" where
  "ts_moves ms md = (ts_move ms md)\<^sup>*\<^sup>*"

lemma ts_moves_refl [simp]: "ts_moves ms md t t"
  by (simp add: ts_moves_def)

lemma ts_moves_trans: "ts_moves ms md t u \<Longrightarrow> ts_moves ms md u w \<Longrightarrow> ts_moves ms md t w"
  by (simp add: ts_moves_def)

lemma ts_moves_step: "ts_move ms md t u \<Longrightarrow> ts_moves ms md t u"
  by (simp add: ts_moves_def)

lemma ts_moves_sim: "ts_moves ms md t t' \<Longrightarrow> ts_sim M val st0 t \<Longrightarrow> ts_sim M val st0 t'"
  unfolding ts_moves_def
proof (induction rule: rtranclp_induct)
  case (step t u)
  from step.hyps(2) step.IH [OF step.prems] show ?case
    by cases (auto intro: ts_sim_pop ts_sim_swap ts_sim_dup ts_sim_spill_top ts_sim_unspill)
qed

lemma ts_move_valid:
  assumes "ts_inv t" "ts_move (sc_max_swap_depth c) (sc_max_dup_depth c) t t'"
  shows "ts_inv t' \<and> (\<exists>oper. ts_ops t' = ts_ops t @ [oper] \<and> so_is_valid c oper)"
  using assms(2)
proof cases
  case move_pop
  from ts_pop_SomeD [OF assms(1) this] show ?thesis by (auto simp: ts_next_def)
next
  case (move_swap d)
  from ts_swap_SomeD [OF assms(1) move_swap(2)] move_swap(1) show ?thesis by (auto simp: ts_next_def)
next
  case (move_dup d)
  from ts_dup_SomeD [OF assms(1) move_dup(2)] move_dup(1) show ?thesis by (auto simp: ts_next_def)
next
  case (move_spill a)
  from ts_spill_top_SomeD [OF assms(1) this] show ?thesis by (auto simp: ts_next_def)
next
  case (move_unspill v)
  from ts_unspill_SomeD [OF assms(1) this] show ?thesis by (auto simp: ts_next_def)
qed

lemma ts_moves_valid:
  "ts_moves (sc_max_swap_depth c) (sc_max_dup_depth c) t t' \<Longrightarrow> ts_inv t \<Longrightarrow>
     ts_inv t' \<and> (\<exists>new. ts_ops t' = ts_ops t @ new \<and> list_all (so_is_valid c) new)"
  unfolding ts_moves_def
proof (induction rule: rtranclp_induct)
  case (step t u)
  from step.IH [OF step.prems] ts_move_valid [OF _ step.hyps(2)] show ?case by fastforce
qed simp

text \<open>\<open>sh_to s s' C sp\<close>: the shuffler moved to the stack \<open>C\<close> and the spilled values \<open>sp\<close>.\<close>

definition sh_ok :: "shuffler \<Rightarrow> bool" where
  "sh_ok s \<longleftrightarrow> ts_inv (sh_current s)"

definition sh_same :: "shuffler \<Rightarrow> shuffler \<Rightarrow> bool" where
  "sh_same s s' \<longleftrightarrow> sh_ok s' \<and> sh_target s' = sh_target s \<and>
     sh_max_swap s' = sh_max_swap s \<and> sh_max_dup s' = sh_max_dup s \<and>
     ts_start (sh_current s') = ts_start (sh_current s) \<and>
     ts_moves (sh_max_swap s) (sh_max_dup s) (sh_current s) (sh_current s')"

definition sh_to :: "shuffler \<Rightarrow> shuffler \<Rightarrow> nat list \<Rightarrow> nat list \<Rightarrow> bool" where
  "sh_to s s' C sp \<longleftrightarrow> sh_same s s' \<and> sh_complete s' = sh_complete s \<and> sh_cur s' = C \<and> sh_spilled s' = sp"

lemma sh_same_refl [simp]: "sh_ok s \<Longrightarrow> sh_same s s"
  by (simp add: sh_same_def)

lemma sh_same_trans: "sh_same s t \<Longrightarrow> sh_same t u \<Longrightarrow> sh_same s u"
  by (auto simp: sh_same_def intro: ts_moves_trans)

lemma sh_to_trans: "sh_to s t C sp \<Longrightarrow> sh_to t u C' sp' \<Longrightarrow> sh_to s u C' sp'"
  by (auto simp: sh_to_def intro: sh_same_trans)

lemma sh_to_refl: "sh_ok s \<Longrightarrow> sh_to s s (sh_cur s) (sh_spilled s)"
  by (simp add: sh_to_def)

lemma sh_to_ok: "sh_to s s' C sp \<Longrightarrow> sh_ok s'"
  by (simp add: sh_to_def sh_same_def)

lemma sh_pop_SomeD:
  assumes "sh_ok s" "sh_pop s = Some s'"
  shows "sh_cur s \<noteq> [] \<and> sh_to s s' (butlast (sh_cur s)) (sh_spilled s)"
proof -
  from assms(2) obtain t where t: "ts_pop (sh_current s) = Some t" and s': "s' = s\<lparr>sh_current := t\<rparr>"
    by (auto simp: sh_pop_def)
  from ts_pop_SomeD [OF _ t] assms(1) ts_moves_step [OF move_pop [OF t]] show ?thesis
    by (auto simp: sh_ok_def sh_to_def sh_same_def s' ts_next_def sh_cur_def sh_fifo_def sh_spilled_def
        butlast_rev)
qed

lemma sh_pop_spec:
  assumes "sh_ok s" "sh_cur s \<noteq> []"
  shows "\<exists>s'. sh_pop s = Some s' \<and> sh_to s s' (butlast (sh_cur s)) (sh_spilled s)"
proof -
  obtain v vs where "ts_fifo (sh_current s) = v # vs"
    using assms(2) by (auto simp: sh_cur_def sh_fifo_def neq_Nil_conv)
  with ts_pop_Cons [of "sh_current s" v vs] assms(1) obtain s' where "sh_pop s = Some s'"
    by (auto simp: sh_ok_def sh_pop_def)
  with sh_pop_SomeD [OF assms(1)] show ?thesis by blast
qed

lemma list_swap_rev:
  "n < length xs \<Longrightarrow> m < length xs \<Longrightarrow>
     list_swap (length xs - 1 - n) (length xs - 1 - m) (rev xs) = rev (list_swap n m xs)"
  by (rule nth_equalityI) (auto simp: nth_list_swap rev_nth)

text \<open>Swapping with the top, in positions from the bottom.\<close>

lemma sh_swap_SomeD:
  assumes ok: "sh_ok s" and run: "sh_swap d s = Some s'" and d: "d < length (sh_cur s)"
  shows "(d = 0 \<or> d \<le> sh_max_swap s) \<and>
         sh_to s s' (list_swap (length (sh_cur s) - 1) (length (sh_cur s) - 1 - d) (sh_cur s)) (sh_spilled s)"
proof (cases "d = 0")
  case True
  with run have "s' = s" by (simp add: sh_swap_def)
  with ok True show ?thesis by (simp add: sh_to_refl list_swap_def)
next
  case False
  with run obtain t where t: "ts_swap d (sh_current s) = Some t" and s': "s' = s\<lparr>sh_current := t\<rparr>"
    and le: "d \<le> sh_max_swap s"
    by (auto simp: sh_swap_def monad_elims)
  have len: "length (ts_fifo (sh_current s)) = length (sh_cur s)" by (simp add: sh_cur_def sh_fifo_def)
  have "rev (list_swap 0 d (sh_fifo s)) = list_swap (length (sh_cur s) - 1) (length (sh_cur s) - 1 - d) (sh_cur s)"
    using list_swap_rev [of 0 "sh_fifo s" d] d by (cases "sh_fifo s") (auto simp: sh_cur_def)
  with ts_swap_SomeD [OF _ t] ok ts_moves_step [OF move_swap [OF le t]] le show ?thesis
    by (auto simp: sh_ok_def sh_to_def sh_same_def s' ts_next_def sh_cur_def sh_fifo_def sh_spilled_def)
qed

lemma sh_swap_spec:
  assumes ok: "sh_ok s" and d: "d < length (sh_cur s)" "d \<le> sh_max_swap s" "d < 2 ^ 8"
  shows "\<exists>s'. sh_swap d s = Some s' \<and>
         sh_to s s' (list_swap (length (sh_cur s) - 1) (length (sh_cur s) - 1 - d) (sh_cur s)) (sh_spilled s)"
proof -
  have "\<exists>s'. sh_swap d s = Some s'"
    using ts_swap_spec [of "sh_current s" d] ok d
    by (auto simp: sh_swap_def sh_ok_def sh_cur_def sh_fifo_def)
  with sh_swap_SomeD [OF ok _ d(1)] show ?thesis by blast
qed

lemma sh_dup_SomeD:
  assumes ok: "sh_ok s" and run: "sh_dup d s = Some s'"
  shows "d < length (sh_cur s) \<and>
         sh_to s s' (sh_cur s @ [sh_cur s ! (length (sh_cur s) - 1 - d)]) (sh_spilled s)"
proof -
  from run obtain t where t: "ts_dup d (sh_current s) = Some t" and s': "s' = s\<lparr>sh_current := t\<rparr>"
    and le: "d \<le> sh_max_dup s"
    by (auto simp: sh_dup_def monad_elims)
  from ts_dup_SomeD [OF _ t] ok ts_moves_step [OF move_dup [OF le t]] show ?thesis
    by (auto simp: sh_ok_def sh_to_def sh_same_def s' ts_next_def sh_cur_def sh_fifo_def sh_spilled_def rev_nth)
qed

lemma sh_dup_spec:
  assumes ok: "sh_ok s" and d: "d < length (sh_cur s)" "d \<le> sh_max_dup s" "d < 2 ^ 8"
    and room: "length (sh_cur s) < max_stack_length"
  shows "\<exists>s'. sh_dup d s = Some s' \<and>
         sh_to s s' (sh_cur s @ [sh_cur s ! (length (sh_cur s) - 1 - d)]) (sh_spilled s)"
proof -
  have "\<exists>s'. sh_dup d s = Some s'"
    using ts_dup_spec [of "sh_current s" d] ok d room
    by (auto simp: sh_dup_def sh_ok_def sh_cur_def sh_fifo_def)
  with sh_dup_SomeD [OF ok] show ?thesis by blast
qed

lemma sh_spill_top_SomeD:
  assumes ok: "sh_ok s" and run: "sh_spill_top s = Some s'"
  shows "sh_cur s \<noteq> [] \<and> sh_to s s' (butlast (sh_cur s)) (sh_spilled s @ [last (sh_cur s)])"
proof -
  from run obtain a t where t: "ts_spill_top (sh_current s) = Some (a, t)" and s': "s' = s\<lparr>sh_current := t\<rparr>"
    by (auto simp: sh_spill_top_def)
  from ts_spill_top_SomeD [OF _ t] ok ts_moves_step [OF move_spill [OF t]] show ?thesis
    by (auto simp: sh_ok_def sh_to_def sh_same_def s' ts_next_def sh_cur_def sh_fifo_def sh_spilled_def
        butlast_rev last_rev)
qed

lemma sh_unspill_SomeD:
  assumes ok: "sh_ok s" and run: "sh_unspill v s = Some s'"
  shows "sh_to s s' (sh_cur s @ [v]) (sh_spilled s)"
proof -
  from run obtain t where t: "ts_unspill v (sh_current s) = Some t" and s': "s' = s\<lparr>sh_current := t\<rparr>"
    by (auto simp: sh_unspill_def)
  from ts_unspill_SomeD [OF _ t] ok ts_moves_step [OF move_unspill [OF t]] show ?thesis
    by (auto simp: sh_ok_def sh_to_def sh_same_def s' ts_next_def sh_cur_def sh_fifo_def sh_spilled_def)
qed

lemma sh_unspill_spec:
  assumes ok: "sh_ok s" and v: "v \<in> set (sh_spilled s)"
    and room: "length (sh_cur s) < max_stack_length"
    and ids: "ts_start (sh_current s) + length (sh_spilled s) \<le> idx_limit"
  shows "\<exists>s'. sh_unspill v s = Some s' \<and> sh_to s s' (sh_cur s @ [v]) (sh_spilled s)"
proof -
  have "\<exists>s'. sh_unspill v s = Some s'"
    using ts_unspill_spec [of "sh_current s" v] ok v room ids
    by (auto simp: sh_unspill_def sh_ok_def sh_cur_def sh_fifo_def sh_spilled_def)
  with sh_unspill_SomeD [OF ok] show ?thesis by blast
qed

subsection \<open>The invariant\<close>

text \<open>
  The lowest \<open>sh_complete\<close> positions agree with the target, and every value that the rest of the
  target needs is in the rest of the stack or spilled.
\<close>

definition sh_inv :: "shuffler \<Rightarrow> bool" where
  "sh_inv s \<longleftrightarrow> sh_ok s \<and> sh_max_swap s < 2 ^ 8 \<and> sh_max_dup s < 2 ^ 8 \<and>
     sh_complete s \<le> length (sh_cur s) \<and> sh_complete s \<le> length (sh_tgt s) \<and>
     take (sh_complete s) (sh_cur s) = take (sh_complete s) (sh_tgt s) \<and>
     set (drop (sh_complete s) (sh_tgt s)) \<subseteq> set (drop (sh_complete s) (sh_cur s)) \<union> set (sh_spilled s)"

text \<open>Something of the stack is not complete: there is a top to work with.\<close>

definition sh_open :: "shuffler \<Rightarrow> bool" where
  "sh_open s \<longleftrightarrow> sh_inv s \<and> sh_complete s < length (sh_cur s)"

lemma sh_inv_ok: "sh_inv s \<Longrightarrow> sh_ok s"
  by (simp add: sh_inv_def)

lemma sh_open_inv: "sh_open s \<Longrightarrow> sh_inv s"
  by (simp add: sh_open_def)

lemma sh_inv_to:
  assumes "sh_inv s" "sh_to s s' C sp" "sh_complete s \<le> length C"
    and "take (sh_complete s) C = take (sh_complete s) (sh_cur s)"
    and "set (drop (sh_complete s) (sh_tgt s)) \<subseteq> set (drop (sh_complete s) C) \<union> set sp"
  shows "sh_inv s' \<and> sh_same s s'"
proof -
  have same: "sh_same s s'" "sh_complete s' = sh_complete s" "sh_cur s' = C" "sh_spilled s' = sp"
    using assms(2) by (auto simp: sh_to_def)
  moreover have "sh_ok s'" "sh_tgt s' = sh_tgt s" "sh_max_swap s' = sh_max_swap s" "sh_max_dup s' = sh_max_dup s"
    using same(1) by (simp_all add: sh_same_def sh_tgt_def)
  ultimately show ?thesis
    using assms(1,3-5) by (simp add: sh_inv_def)
qed

lemma sh_top: "sh_open s \<Longrightarrow> slice_get (sh_fifo s) 0 = Some (last (sh_cur s))"
  by (cases "sh_cur s" rule: rev_cases) (simp_all add: sh_open_def sh_fifo_cur slice_get_def)

lemma drop_butlast_last:
  "k < length xs \<Longrightarrow> drop k xs = drop k (butlast xs) @ [last xs]"
  by (cases xs rule: rev_cases) simp_all

text \<open>Popping a value that is not needed, that there are two of, or that is spilled.\<close>

lemma sh_inv_pop:
  assumes op: "sh_open s" and to: "sh_to s s' (butlast (sh_cur s)) sp" and sp: "set (sh_spilled s) \<subseteq> set sp"
    and free: "last (sh_cur s) \<notin> set (drop (sh_complete s) (sh_tgt s)) \<or> last (sh_cur s) \<in> set sp \<or>
               2 \<le> count (mset (drop (sh_complete s) (sh_cur s))) (last (sh_cur s))"
  shows "sh_inv s' \<and> sh_same s s'"
proof (rule sh_inv_to [OF sh_open_inv [OF op] to])
  let ?c = "sh_complete s" and ?C = "sh_cur s"
  have len: "?c < length ?C" using op by (simp add: sh_open_def)
  then show "?c \<le> length (butlast ?C)" by simp
  show "take ?c (butlast ?C) = take ?c ?C" using len by (simp add: butlast_conv_take)
  have split: "drop ?c ?C = drop ?c (butlast ?C) @ [last ?C]" using len by (rule drop_butlast_last)
  have "last ?C \<in> set (drop ?c (butlast ?C))" if "2 \<le> count (mset (drop ?c ?C)) (last ?C)"
  proof -
    have "0 < count (mset (drop ?c (butlast ?C))) (last ?C)" using that by (simp add: split)
    then show ?thesis by (metis count_greater_zero_iff set_mset_mset)
  qed
  moreover have "set (drop ?c (sh_tgt s)) \<subseteq> insert (last ?C) (set (drop ?c (butlast ?C))) \<union> set (sh_spilled s)"
    using op by (auto simp: sh_open_def sh_inv_def split)
  ultimately show "set (drop ?c (sh_tgt s)) \<subseteq> set (drop ?c (butlast ?C)) \<union> set sp"
    using free sp by auto
qed

text \<open>Swapping positions that are not complete.\<close>

lemma list_swap_low:
  "k \<le> i \<Longrightarrow> k \<le> j \<Longrightarrow> i < length xs \<Longrightarrow> j < length xs \<Longrightarrow>
     take k (list_swap i j xs) = take k xs \<and> mset (drop k (list_swap i j xs)) = mset (drop k xs)"
proof -
  assume b: "k \<le> i" "k \<le> j" "i < length xs" "j < length xs"
  then have low: "take k (list_swap i j xs) = take k xs" by (simp add: list_swap_def)
  have "mset (take k xs) + mset (drop k (list_swap i j xs)) = mset (list_swap i j xs)"
    by (metis append_take_drop_id low mset_append)
  also have "\<dots> = mset (take k xs) + mset (drop k xs)"
    using b by (metis append_take_drop_id mset_append mset_list_swap)
  finally show ?thesis using low by simp
qed

lemma sh_inv_swap:
  assumes op: "sh_open s" and to: "sh_to s s' C sp" and sp: "sp = sh_spilled s"
    and len: "length C = length (sh_cur s)"
    and low: "take (sh_complete s) C = take (sh_complete s) (sh_cur s)"
    and same: "mset (drop (sh_complete s) C) = mset (drop (sh_complete s) (sh_cur s))"
  shows "sh_inv s' \<and> sh_same s s'"
proof -
  have "set (drop (sh_complete s) C) = set (drop (sh_complete s) (sh_cur s))"
    using same by (metis set_mset_mset)
  with op len low sp show ?thesis
    by (intro sh_inv_to [OF sh_open_inv [OF op] to]) (auto simp: sh_open_def sh_inv_def)
qed

subsection \<open>What each test and operation does\<close>

lemma sh_is_unneeded_eq:
  "sh_inv s \<Longrightarrow> sh_is_unneeded s v = Some (v \<notin> set (drop (sh_complete s) (sh_tgt s)))"
  by (auto simp: sh_is_unneeded_def sh_positions sh_inv_def)

definition sh_extra :: "shuffler \<Rightarrow> nat \<Rightarrow> bool" where
  "sh_extra s v \<longleftrightarrow> count (mset (drop (sh_complete s) (sh_tgt s))) v
                   < count (mset (drop (sh_complete s) (sh_cur s))) v"

lemma sh_is_extra_eq:
  "sh_open s \<Longrightarrow> sh_complete s < length (sh_tgt s) \<Longrightarrow> sh_is_extra s v = Some (sh_extra s v)"
  by (simp add: sh_is_extra_def sh_positions sh_open_def sh_extra_def)

lemma sh_is_duplicate_eq:
  "sh_open s \<Longrightarrow> sh_is_duplicate s v = Some (2 \<le> count (mset (drop (sh_complete s) (sh_cur s))) v)"
  by (simp add: sh_is_duplicate_def sh_positions sh_open_def)

lemma sh_extra_free:
  "sh_extra s v \<Longrightarrow> v \<notin> set (drop (sh_complete s) (sh_tgt s)) \<or>
     2 \<le> count (mset (drop (sh_complete s) (sh_cur s))) v"
proof -
  assume ex: "sh_extra s v"
  have "0 < count (mset (drop (sh_complete s) (sh_tgt s))) v" if "v \<in> set (drop (sh_complete s) (sh_tgt s))"
    using that by (metis count_greater_zero_iff set_mset_mset)
  with ex show ?thesis unfolding sh_extra_def by fastforce
qed

text \<open>The outcome of an operation that pops the top when a test holds.\<close>

lemma sh_pop_when_outcome:
  assumes op: "sh_open s" and test: "test s (last (sh_cur s)) = Some b"
  shows "if b then \<exists>s'. sh_pop_when test s = Some (True, s') \<and> sh_to s s' (butlast (sh_cur s)) (sh_spilled s)
         else sh_pop_when test s = Some (False, s)"
proof -
  have "sh_cur s \<noteq> []" using op by (auto simp: sh_open_def)
  with sh_pop_spec [of s] op sh_top [OF op] test show ?thesis
    by (auto simp: sh_pop_when_def sh_open_def sh_inv_def)
qed

text \<open>How deep the shuffler looks for a swap, and the position from the bottom it reaches.\<close>

definition sh_search :: "shuffler \<Rightarrow> nat" where
  "sh_search s = min (sh_max_swap s) (length (sh_cur s) - Suc (sh_complete s))"

definition sh_reach :: "shuffler \<Rightarrow> nat" where
  "sh_reach s = length (sh_cur s) - 1 - sh_search s"

lemma sh_max_search_depth_eq: "sh_open s \<Longrightarrow> sh_max_search_depth s = Some (sh_search s)"
  by (auto simp: sh_max_search_depth_def sh_positions sh_open_def sh_search_def min_def)

lemma sh_reach_le: "sh_open s \<Longrightarrow> sh_complete s \<le> sh_reach s \<and> sh_reach s < length (sh_cur s)"
  by (auto simp: sh_reach_def sh_search_def sh_open_def)

lemma sh_reach_swap: "sh_reach s \<le> i \<Longrightarrow> length (sh_cur s) - 1 - i \<le> sh_max_swap s"
  by (auto simp: sh_reach_def sh_search_def)

lemma sh_current_to_reach: "sh_open s \<Longrightarrow> sh_current_to s (sh_search s) = Some (sh_reach s)"
  by (auto simp: sh_positions sh_reach_def sh_search_def sh_open_def)

lemma sh_swap_reach:
  assumes op: "sh_open s" and i: "sh_reach s \<le> i" "i < length (sh_cur s)"
  shows "\<exists>d s'. sh_to_current s i = Some d \<and> sh_swap d s = Some s' \<and>
                sh_to s s' (list_swap (length (sh_cur s) - 1) i (sh_cur s)) (sh_spilled s)"
proof -
  let ?d = "length (sh_cur s) - 1 - i"
  have "?d \<le> sh_max_swap s" using i(1) by (rule sh_reach_swap)
  moreover have "?d < 2 ^ 8" using calculation op by (simp add: sh_open_def sh_inv_def)
  moreover have "?d < length (sh_cur s)" "length (sh_cur s) - 1 - ?d = i" using i by auto
  ultimately show ?thesis
    using sh_swap_spec [of s ?d] op i by (auto simp: sh_open_def sh_inv_def sh_positions)
qed

lemma find_map_NoneD: "find_map f xs = None \<Longrightarrow> x \<in> set xs \<Longrightarrow> f x = None"
  by simp

lemma in_pairs_from:
  "(x, y, i) \<in> set (pairs_from C T k) \<longleftrightarrow>
     k \<le> i \<and> i < length C \<and> i < length T \<and> x = C ! i \<and> y = T ! i"
  by (auto simp: pairs_from_def)

text \<open>Swapping the top to a position in reach that wants it and does not have it.\<close>

definition wants_top :: "shuffler \<Rightarrow> nat \<Rightarrow> bool" where
  "wants_top s i \<longleftrightarrow> sh_reach s \<le> i \<and> i < length (sh_cur s) \<and> i < length (sh_tgt s) \<and>
     sh_cur s ! i \<noteq> last (sh_cur s) \<and> sh_tgt s ! i = last (sh_cur s)"

lemma sh_swap_to_correct_position_outcome:
  assumes op: "sh_open s"
  shows "(sh_swap_to_correct_position s = Some (False, s) \<and> (\<forall>i. \<not> wants_top s i)) \<or>
         (\<exists>i s'. sh_swap_to_correct_position s = Some (True, s') \<and> wants_top s i \<and>
                 sh_to s s' (list_swap (length (sh_cur s) - 1) i (sh_cur s)) (sh_spilled s))"
proof -
  let ?top = "last (sh_cur s)"
  let ?f = "\<lambda>(current, target, i). if current \<noteq> ?top \<and> target = ?top then Some i else None"
  let ?r = "find_map ?f (pairs_from (sh_cur s) (sh_tgt s) (sh_reach s))"
  have run: "sh_swap_to_correct_position s = (case ?r of None \<Rightarrow> Some (False, s)
      | Some idx \<Rightarrow> do { d \<leftarrow> sh_to_current s idx; s \<leftarrow> sh_swap d s; Some (True, s) })"
  proof -
    have "sh_complete s < length (sh_cur s)" using op by (simp add: sh_open_def)
    then show ?thesis
      by (simp add: sh_swap_to_correct_position_def sh_top [OF op] sh_max_search_depth_eq [OF op]
          sh_current_to_reach [OF op] sh_iter_pairwise_eq)
  qed
  show ?thesis
  proof (cases ?r)
    case None
    have "\<not> wants_top s i" for i
    proof
      assume w: "wants_top s i"
      then have "(sh_cur s ! i, sh_tgt s ! i, i) \<in> set (pairs_from (sh_cur s) (sh_tgt s) (sh_reach s))"
        by (simp add: in_pairs_from wants_top_def)
      from find_map_NoneD [OF None this] w show False by (simp add: wants_top_def)
    qed
    then show ?thesis unfolding run None by simp
  next
    case (Some i)
    from find_map_SomeD [OF this] have w: "wants_top s i"
      by (auto simp: in_pairs_from wants_top_def split: if_splits)
    with sh_swap_reach [OF op, of i] run Some show ?thesis
      by (auto simp: wants_top_def)
  qed
qed

text \<open>Swapping an extra value in reach to the top and popping it.\<close>

lemma sh_find_extra_eq:
  assumes "sh_open s" "sh_complete s < length (sh_tgt s)"
  shows "sh_find_extra s k vs = Some (map_option (\<lambda>i. k + i) (position (sh_extra s) vs))"
proof (induction vs arbitrary: k)
  case (Cons v vs)
  then show ?case using assms by (cases "position (sh_extra s) vs") (auto simp: sh_is_extra_eq)
qed simp

lemma sh_swap_and_pop_extra_outcome:
  assumes op: "sh_open s" and t: "sh_complete s < length (sh_tgt s)"
  shows "(sh_swap_and_pop_extra s = Some (False, s) \<and>
            (\<forall>i. sh_reach s \<le> i \<and> i < length (sh_cur s) \<longrightarrow> \<not> sh_extra s (sh_cur s ! i))) \<or>
         (\<exists>i s'. sh_swap_and_pop_extra s = Some (True, s') \<and> sh_reach s \<le> i \<and> i < length (sh_cur s) \<and>
                 sh_extra s (sh_cur s ! i) \<and>
                 sh_to s s' (butlast (list_swap (length (sh_cur s) - 1) i (sh_cur s))) (sh_spilled s))"
proof -
  let ?C = "sh_cur s" and ?r = "sh_reach s"
  let ?p = "position (sh_extra s) (drop ?r ?C)"
  have reach: "?r < length ?C" using sh_reach_le [OF op] by simp
  have ne: "sh_fifo s \<noteq> []" using reach by (auto simp: sh_fifo_cur)
  have down: "down_to_bottom (sh_fifo s) ?r = Some (rev (drop ?r ?C))" using reach by (simp add: sh_positions)
  have run: "sh_swap_and_pop_extra s = (case map_option (\<lambda>i. ?r + i) ?p of None \<Rightarrow> Some (False, s)
      | Some i \<Rightarrow> do { d \<leftarrow> sh_to_current s i; s \<leftarrow> sh_swap d s; s \<leftarrow> sh_pop s; Some (True, s) })"
    using ne by (simp add: sh_swap_and_pop_extra_def sh_max_search_depth_eq [OF op]
        sh_current_to_reach [OF op] down sh_find_extra_eq [OF op t])
  show ?thesis
  proof (cases ?p)
    case None
    have "\<not> sh_extra s (?C ! i)" if "?r \<le> i" "i < length ?C" for i
    proof -
      have "drop ?r ?C ! (i - ?r) \<in> set (drop ?r ?C)" using that by (intro nth_mem) simp
      with None that show ?thesis by simp
    qed
    then show ?thesis unfolding run None by simp
  next
    case (Some k)
    note pos = position_SomeD [OF Some]
    let ?i = "?r + k"
    have i: "?r \<le> ?i" "?i < length ?C" "sh_extra s (?C ! ?i)" using pos by auto
    from sh_swap_reach [OF op i(1,2)] obtain d s1 where s1: "sh_to_current s ?i = Some d"
      "sh_swap d s = Some s1" "sh_to s s1 (list_swap (length ?C - 1) ?i ?C) (sh_spilled s)" by blast
    have "sh_ok s1" "sh_cur s1 \<noteq> []" using s1(3) reach
      by (auto simp: sh_to_def sh_same_def simp flip: length_greater_0_conv)
    from sh_pop_spec [OF this] obtain s2 where s2: "sh_pop s1 = Some s2"
      "sh_to s1 s2 (butlast (sh_cur s1)) (sh_spilled s1)" by blast
    have "sh_to s s2 (butlast (list_swap (length ?C - 1) ?i ?C)) (sh_spilled s)"
      using sh_to_trans [OF s1(3) s2(2)] s1(3) by (simp add: sh_to_def)
    moreover have "sh_swap_and_pop_extra s = Some (True, s2)" using run Some s1 s2 by simp
    ultimately show ?thesis using i by blast
  qed
qed

text \<open>Exchanging two wrong positions through the top so that one of them becomes right.\<close>

definition exchangeable :: "shuffler \<Rightarrow> nat \<Rightarrow> nat \<Rightarrow> bool" where
  "exchangeable s src dst \<longleftrightarrow>
     sh_reach s \<le> src \<and> src < length (sh_cur s) \<and> src < length (sh_tgt s) \<and>
     sh_reach s \<le> dst \<and> dst < length (sh_cur s) \<and> dst < length (sh_tgt s) \<and>
     sh_cur s ! src \<noteq> sh_tgt s ! src \<and> sh_cur s ! dst \<noteq> sh_tgt s ! dst \<and> sh_cur s ! src = sh_tgt s ! dst"

lemma sh_find_exchange_SomeD:
  assumes "sh_find_exchange (pairs_from (sh_cur s) (sh_tgt s) (sh_reach s)) = Some (src, dst)"
  shows "exchangeable s src dst"
proof -
  let ?ps = "pairs_from (sh_cur s) (sh_tgt s) (sh_reach s)"
  from find_map_SomeD [OF assms [unfolded sh_find_exchange_def]] obtain c t where
    d: "(c, t, dst) \<in> set ?ps" "c \<noteq> t" and
    s: "find_map (\<lambda>(x, y, i). if x \<noteq> y \<and> x = t then Some i else None) ?ps = Some src"
    by (auto simp: monad_elims split: if_splits)
  from find_map_SomeD [OF s] d show ?thesis
    by (auto simp: in_pairs_from exchangeable_def split: if_splits)
qed

lemma sh_find_exchange_None:
  assumes "sh_find_exchange (pairs_from (sh_cur s) (sh_tgt s) (sh_reach s)) = None"
  shows "\<not> exchangeable s src dst"
proof
  let ?ps = "pairs_from (sh_cur s) (sh_tgt s) (sh_reach s)"
  assume e: "exchangeable s src dst"
  let ?f = "\<lambda>(x, y, i). if x \<noteq> y \<and> x = sh_tgt s ! dst then Some i else None"
  let ?src = "(sh_cur s ! src, sh_tgt s ! src, src)" and ?dst = "(sh_cur s ! dst, sh_tgt s ! dst, dst)"
  have mem: "?dst \<in> set ?ps" "?src \<in> set ?ps" using e by (auto simp: in_pairs_from exchangeable_def)
  have "?f ?src = Some src" using e by (simp add: exchangeable_def)
  with find_map_NoneD [of ?f ?ps, OF _ mem(2)] obtain j where "find_map ?f ?ps = Some j" by fastforce
  with e find_map_NoneD [OF assms [unfolded sh_find_exchange_def] mem(1)] show False
    by (simp add: exchangeable_def)
qed

lemma sh_exchange_via_top_outcome:
  assumes op: "sh_open s"
  shows "(sh_exchange_via_top s = Some (False, s) \<and> (\<forall>src dst. \<not> exchangeable s src dst)) \<or>
         (\<exists>src dst s'. sh_exchange_via_top s = Some (True, s') \<and> exchangeable s src dst \<and>
            sh_to s s' (list_swap (length (sh_cur s) - 1) dst
                         (list_swap (length (sh_cur s) - 1) src (sh_cur s))) (sh_spilled s))"
proof -
  let ?C = "sh_cur s" and ?r = "sh_find_exchange (pairs_from (sh_cur s) (sh_tgt s) (sh_reach s))"
  have reach: "sh_reach s < length ?C" using sh_reach_le [OF op] by simp
  have ne: "sh_fifo s \<noteq> []" using reach by (auto simp: sh_fifo_cur)
  have run: "sh_exchange_via_top s = (case ?r of None \<Rightarrow> Some (False, s)
      | Some (src_idx, dst_idx) \<Rightarrow> do { src \<leftarrow> sh_to_current s src_idx; dst \<leftarrow> sh_to_current s dst_idx;
                                     s \<leftarrow> sh_swap src s; s \<leftarrow> sh_swap dst s; Some (True, s) })"
    using ne by (simp add: sh_exchange_via_top_def sh_max_search_depth_eq [OF op]
        sh_current_to_reach [OF op] sh_iter_pairwise_eq)
  show ?thesis
  proof (cases ?r)
    case None
    with run sh_find_exchange_None show ?thesis by simp
  next
    case (Some p)
    obtain src dst where p: "p = (src, dst)" by (cases p)
    with Some have e: "exchangeable s src dst" by (simp add: sh_find_exchange_SomeD)
    from e sh_swap_reach [OF op, of src] obtain d1 s1 where s1: "sh_to_current s src = Some d1"
      "sh_swap d1 s = Some s1" "sh_to s s1 (list_swap (length ?C - 1) src ?C) (sh_spilled s)"
      by (auto simp: exchangeable_def)
    have op1: "sh_open s1"
      using sh_inv_swap [OF op s1(3) refl] list_swap_low [of "sh_complete s" "length ?C - 1" src ?C]
        e sh_reach_le [OF op] s1(3) op
      by (auto simp: exchangeable_def sh_open_def sh_to_def)
    have same: "length (sh_cur s1) = length ?C" "sh_reach s1 = sh_reach s"
      using s1(3) by (auto simp: sh_to_def sh_same_def sh_reach_def sh_search_def)
    from e sh_swap_reach [OF op1, of dst] obtain d2 s2 where s2: "sh_to_current s1 dst = Some d2"
      "sh_swap d2 s1 = Some s2" "sh_to s1 s2 (list_swap (length ?C - 1) dst (sh_cur s1)) (sh_spilled s1)"
      by (auto simp: exchangeable_def same)
    have "sh_to_current s dst = Some d2"
      using s2(1) unfolding sh_current_to_eq same by simp
    moreover have "sh_to s s2 (list_swap (length ?C - 1) dst (list_swap (length ?C - 1) src ?C)) (sh_spilled s)"
      using sh_to_trans [OF s1(3) s2(3)] s1(3) by (simp add: sh_to_def)
    ultimately show ?thesis using e s1 s2 Some p run by auto
  qed
qed

subsection \<open>Advancing the complete part\<close>

text \<open>A position is settled when it is right and no copy above it is missing.\<close>

definition settled :: "nat list \<Rightarrow> nat list \<Rightarrow> nat \<Rightarrow> bool" where
  "settled C T i \<longleftrightarrow> C ! i = T ! i \<and> (T ! i \<in> set (drop (Suc i) T) \<longrightarrow> T ! i \<in> set (drop (Suc i) C))"

definition newly :: "shuffler \<Rightarrow> nat" where
  "newly s = length (takeWhile (settled (sh_cur s) (sh_tgt s))
                      [sh_complete s..<min (length (sh_cur s)) (length (sh_tgt s))])"

lemma sh_newly_complete_eq:
  "\<forall>i\<in>set is. i < length (sh_cur s) \<and> i < length (sh_tgt s) \<Longrightarrow>
     sh_newly_complete s (map (\<lambda>i. (sh_cur s ! i, sh_tgt s ! i, i)) is) =
     Some (length (takeWhile (settled (sh_cur s) (sh_tgt s)) is))"
  by (induction "is") (auto simp: sh_positions settled_def)

lemma sh_update_complete_eq:
  "sh_update_complete s = Some (s\<lparr>sh_complete := sh_complete s + newly s\<rparr>)"
  by (simp add: sh_update_complete_def sh_iter_pairwise_eq pairs_from_def sh_newly_complete_eq newly_def)

lemma takeWhile_upt:
  "n \<le> length (takeWhile P [a..<b]) \<Longrightarrow> i < n \<Longrightarrow> P (a + i) \<and> a + i < b"
proof -
  assume n: "n \<le> length (takeWhile P [a..<b])" and i: "i < n"
  then have len: "i < length (takeWhile P [a..<b])" by simp
  then have "takeWhile P [a..<b] ! i = [a..<b] ! i" by (rule takeWhile_nth)
  moreover have "takeWhile P [a..<b] ! i \<in> set (takeWhile P [a..<b])" using len by (rule nth_mem)
  moreover have "i < length [a..<b]" using len length_takeWhile_le [of P "[a..<b]"] by linarith
  ultimately show ?thesis by (auto dest: set_takeWhileD)
qed

lemma settled_steps:
  assumes "take c C = take c T" "set (drop c T) \<subseteq> set (drop c C) \<union> S" "c \<le> length C" "c \<le> length T"
    and "\<And>i. i < n \<Longrightarrow> settled C T (c + i) \<and> c + i < length C \<and> c + i < length T"
  shows "take (c + n) C = take (c + n) T \<and> set (drop (c + n) T) \<subseteq> set (drop (c + n) C) \<union> S \<and>
         c + n \<le> length C \<and> c + n \<le> length T"
  using assms(5)
proof (induction n)
  case 0
  with assms show ?case by simp
next
  case (Suc n)
  let ?k = "c + n"
  from Suc have IH: "take ?k C = take ?k T" "set (drop ?k T) \<subseteq> set (drop ?k C) \<union> S" by simp_all
  from Suc.prems [of n] have k: "settled C T ?k" "?k < length C" "?k < length T" by simp_all
  have "take (Suc ?k) C = take (Suc ?k) T"
    using IH k by (simp add: take_Suc_conv_app_nth settled_def)
  moreover have "v \<in> set (drop (Suc ?k) C) \<union> S" if v: "v \<in> set (drop (Suc ?k) T)" for v
  proof (cases "v = T ! ?k")
    case True
    with k v show ?thesis by (simp add: settled_def)
  next
    case False
    have "set (drop ?k T) = insert (T ! ?k) (set (drop (Suc ?k) T))"
      "set (drop ?k C) = insert (C ! ?k) (set (drop (Suc ?k) C))"
      using k by (simp_all flip: Cons_nth_drop_Suc)
    with IH v k False show ?thesis by (auto simp: settled_def)
  qed
  ultimately show ?case using k by (auto simp: Suc_le_eq)
qed

lemma newly_settled:
  "i < newly s \<Longrightarrow> settled (sh_cur s) (sh_tgt s) (sh_complete s + i) \<and>
     sh_complete s + i < length (sh_cur s) \<and> sh_complete s + i < length (sh_tgt s)"
  unfolding newly_def
  using takeWhile_upt [OF order_refl, of i "settled (sh_cur s) (sh_tgt s)" "sh_complete s"
      "min (length (sh_cur s)) (length (sh_tgt s))"] by auto

text \<open>After an update the first incomplete position, if both stacks have one, is not settled.\<close>

lemma newly_stops:
  assumes "sh_complete s + newly s < min (length (sh_cur s)) (length (sh_tgt s))"
  shows "\<not> settled (sh_cur s) (sh_tgt s) (sh_complete s + newly s)"
proof -
  let ?P = "settled (sh_cur s) (sh_tgt s)" and ?xs = "[sh_complete s..<min (length (sh_cur s)) (length (sh_tgt s))]"
  have n: "length (takeWhile ?P ?xs) = newly s" by (simp add: newly_def)
  have i: "newly s < length ?xs" using assms by auto
  with n have "length (takeWhile ?P ?xs) < length ?xs" by simp
  from nth_length_takeWhile [OF this] have "\<not> ?P (?xs ! newly s)" by (simp only: n not_False_eq_True)
  moreover have "?xs ! newly s = sh_complete s + newly s" using assms by (rule nth_upt)
  ultimately show ?thesis by (simp only: not_False_eq_True)
qed

lemma sh_update_keeps:
  assumes inv: "sh_inv s" and s': "sh_update_complete s = Some s'"
  shows "sh_inv s' \<and> sh_same s s' \<and> sh_cur s' = sh_cur s \<and> sh_spilled s' = sh_spilled s"
proof -
  have s'': "s' = s\<lparr>sh_complete := sh_complete s + newly s\<rparr>" using s' by (simp add: sh_update_complete_eq)
  have cur: "sh_cur s' = sh_cur s" "sh_tgt s' = sh_tgt s" "sh_spilled s' = sh_spilled s"
    by (simp_all add: s'' sh_cur_def sh_fifo_def sh_tgt_def sh_spilled_def)
  have "sh_same s s'" using inv by (simp add: s'' sh_same_def sh_inv_def sh_ok_def)
  moreover have "sh_inv s'"
    using inv settled_steps [of "sh_complete s" "sh_cur s" "sh_tgt s" "set (sh_spilled s)" "newly s"]
      newly_settled [of _ s]
    unfolding sh_inv_def cur by (simp add: s'' sh_ok_def)
  ultimately show ?thesis using cur by simp
qed

subsection \<open>Shrinking\<close>

text \<open>
  Shrinking never runs into the loop limit: every iteration either removes a value from the stack
  or puts one below the top in its place, so twice the length of the stack plus the number of
  misplaced positions below the top decreases.
\<close>

definition misplaced :: "nat list \<Rightarrow> nat list \<Rightarrow> nat set" where
  "misplaced C T = {i. i < length C - 1 \<and> \<not> (i < length T \<and> C ! i = T ! i)}"

definition sh_shrink_measure :: "shuffler \<Rightarrow> nat" where
  "sh_shrink_measure s = 2 * length (sh_cur s) + card (misplaced (sh_cur s) (sh_tgt s))"

definition sh_room :: "shuffler \<Rightarrow> bool" where
  "sh_room s \<longleftrightarrow> ts_start (sh_current s) + length (sh_spilled s) + length (sh_cur s) \<le> idx_limit"

lemma finite_misplaced [simp]: "finite (misplaced C T)"
  by (simp add: misplaced_def)

lemma card_misplaced: "card (misplaced C T) \<le> length C"
proof -
  have "misplaced C T \<subseteq> {..<length C}" by (auto simp: misplaced_def)
  from card_mono [OF _ this] show ?thesis by simp
qed

lemma misplaced_butlast: "card (misplaced (butlast C) T) \<le> card (misplaced C T)"
  by (rule card_mono) (auto simp: misplaced_def nth_butlast)

lemma misplaced_swap:
  assumes "i < length C - 1" "i < length T" "C ! i \<noteq> T ! i" "last C = T ! i"
  shows "card (misplaced (list_swap (length C - 1) i C) T) < card (misplaced C T)"
proof -
  have C: "C \<noteq> []" using assms(1) by auto
  have "misplaced (list_swap (length C - 1) i C) T \<subseteq> misplaced C T - {i}"
    using assms C by (auto simp: misplaced_def nth_list_swap last_conv_nth split: if_splits)
  moreover have "i \<in> misplaced C T" using assms by (simp add: misplaced_def)
  ultimately show ?thesis by (meson card_Diff1_less card_mono finite_Diff finite_misplaced le_less_trans)
qed

lemma misplaced_swap_pop:
  assumes "i < length C"
  shows "card (misplaced (butlast (list_swap (length C - 1) i C)) T) \<le> Suc (card (misplaced C T))"
proof -
  have "misplaced (butlast (list_swap (length C - 1) i C)) T \<subseteq> insert i (misplaced C T)"
    using assms by (auto simp: misplaced_def nth_list_swap nth_butlast split: if_splits)
  then have "card (misplaced (butlast (list_swap (length C - 1) i C)) T) \<le> card (insert i (misplaced C T))"
    by (intro card_mono) simp_all
  also have "\<dots> \<le> Suc (card (misplaced C T))" by (rule card_insert_le_m1) simp_all
  finally show ?thesis .
qed

text \<open>One move of the shrink loop, before the complete part is updated.\<close>

definition sh_shrunk :: "shuffler \<Rightarrow> shuffler \<Rightarrow> bool" where
  "sh_shrunk s s' \<longleftrightarrow> sh_inv s' \<and> sh_same s s' \<and> sh_shrink_measure s' < sh_shrink_measure s \<and>
     (sh_room s \<longrightarrow> sh_room s')"

lemma sh_shrunk_pop:
  assumes "sh_open s" "sh_to s s' (butlast (sh_cur s)) (sh_spilled s)"
    and "last (sh_cur s) \<notin> set (drop (sh_complete s) (sh_tgt s)) \<or>
         2 \<le> count (mset (drop (sh_complete s) (sh_cur s))) (last (sh_cur s))"
  shows "sh_shrunk s s'"
proof -
  have "sh_tgt s' = sh_tgt s" "sh_cur s' = butlast (sh_cur s)" "sh_spilled s' = sh_spilled s"
    "sh_cur s \<noteq> []" "ts_start (sh_current s') = ts_start (sh_current s)"
    using assms(1,2) by (auto simp: sh_to_def sh_same_def sh_tgt_def sh_open_def)
  with misplaced_butlast [of "sh_cur s" "sh_tgt s"] sh_inv_pop [OF assms(1,2) order_refl] assms(3)
  show ?thesis
    by (cases "sh_cur s" rule: rev_cases) (auto simp: sh_shrunk_def sh_shrink_measure_def sh_room_def)
qed

lemma sh_shrunk_spill:
  assumes "sh_open s" "sh_to s s' (butlast (sh_cur s)) (sh_spilled s @ [last (sh_cur s)])"
  shows "sh_shrunk s s'"
proof -
  have "sh_tgt s' = sh_tgt s" "sh_cur s' = butlast (sh_cur s)" "sh_spilled s' = sh_spilled s @ [last (sh_cur s)]"
    "sh_cur s \<noteq> []" "ts_start (sh_current s') = ts_start (sh_current s)"
    using assms by (auto simp: sh_to_def sh_same_def sh_tgt_def sh_open_def)
  with misplaced_butlast [of "sh_cur s" "sh_tgt s"] sh_inv_pop [OF assms]
  show ?thesis
    by (cases "sh_cur s" rule: rev_cases) (auto simp: sh_shrunk_def sh_shrink_measure_def sh_room_def)
qed

lemma sh_shrunk_swap:
  assumes op: "sh_open s" and w: "wants_top s i"
    and to: "sh_to s s' (list_swap (length (sh_cur s) - 1) i (sh_cur s)) (sh_spilled s)"
  shows "sh_shrunk s s'"
proof -
  let ?C = "sh_cur s" and ?C' = "list_swap (length (sh_cur s) - 1) i (sh_cur s)"
  have C: "?C \<noteq> []" using op by (auto simp: sh_open_def)
  have i: "sh_complete s \<le> i" "i < length ?C" using w sh_reach_le [OF op] by (auto simp: wants_top_def)
  have "i \<noteq> length ?C - 1" using w C by (auto simp: wants_top_def last_conv_nth)
  with i have i': "i < length ?C - 1" by simp
  from list_swap_low [of "sh_complete s" "length ?C - 1" i ?C] i i' op
  have "take (sh_complete s) ?C' = take (sh_complete s) ?C \<and>
        mset (drop (sh_complete s) ?C') = mset (drop (sh_complete s) ?C)" by simp
  then have "sh_inv s' \<and> sh_same s s'" using sh_inv_swap [OF op to refl] by simp
  moreover have "card (misplaced ?C' (sh_tgt s)) < card (misplaced ?C (sh_tgt s))"
    using w i' by (intro misplaced_swap) (auto simp: wants_top_def)
  moreover have "sh_tgt s' = sh_tgt s" "sh_cur s' = ?C'" "sh_spilled s' = sh_spilled s"
    "ts_start (sh_current s') = ts_start (sh_current s)"
    using to by (auto simp: sh_to_def sh_same_def sh_tgt_def)
  ultimately show ?thesis by (simp add: sh_shrunk_def sh_shrink_measure_def sh_room_def)
qed

lemma sh_shrunk_swap_pop:
  assumes op: "sh_open s" and i: "sh_reach s \<le> i" "i < length (sh_cur s)" and ex: "sh_extra s (sh_cur s ! i)"
    and to: "sh_to s s' (butlast (list_swap (length (sh_cur s) - 1) i (sh_cur s))) (sh_spilled s)"
  shows "sh_shrunk s s'"
proof -
  let ?C = "sh_cur s" and ?c = "sh_complete s" and ?C' = "list_swap (length (sh_cur s) - 1) i (sh_cur s)"
  have C: "?c < length ?C" using op by (simp add: sh_open_def)
  have low: "?c \<le> i" using i sh_reach_le [OF op] by simp
  from list_swap_low [of ?c "length ?C - 1" i ?C] C low i(2)
  have sw: "take ?c ?C' = take ?c ?C" "mset (drop ?c ?C') = mset (drop ?c ?C)" by auto
  have last: "last ?C' = ?C ! i"
  proof -
    have "?C' \<noteq> []" using C by (auto simp flip: length_greater_0_conv)
    then show ?thesis using C i(2) by (simp add: last_conv_nth nth_list_swap)
  qed
  have split: "drop ?c ?C' = drop ?c (butlast ?C') @ [?C ! i]"
    using drop_butlast_last [of ?c ?C'] C last by simp
  have "set (drop ?c (sh_tgt s)) \<subseteq> set (drop ?c (butlast ?C')) \<union> set (sh_spilled s)"
  proof
    fix v assume v: "v \<in> set (drop ?c (sh_tgt s))"
    have same: "set (drop ?c ?C') = set (drop ?c ?C)" using sw(2) by (metis set_mset_mset)
    show "v \<in> set (drop ?c (butlast ?C')) \<union> set (sh_spilled s)"
    proof (cases "v = ?C ! i")
      case True
      with sh_extra_free [OF ex] v have "2 \<le> count (mset (drop ?c ?C')) v" by (auto simp: sw(2) simp del: One_nat_def)
      moreover have "count (mset (drop ?c ?C')) v = Suc (count (mset (drop ?c (butlast ?C'))) v)"
        by (subst split) (simp add: True)
      ultimately have "0 < count (mset (drop ?c (butlast ?C'))) v" by simp
      then show ?thesis by (metis UnI1 count_greater_zero_iff set_mset_mset)
    next
      case False
      have "v \<in> set (drop ?c ?C') \<union> set (sh_spilled s)"
        using op v unfolding same by (auto simp: sh_open_def sh_inv_def)
      with False show ?thesis by (subst (asm) split) simp
    qed
  qed
  moreover have "take ?c (butlast ?C') = take ?c ?C" using sw(1) C by (simp add: butlast_conv_take)
  ultimately have "sh_inv s' \<and> sh_same s s'"
    using sh_inv_to [OF sh_open_inv [OF op] to] C by simp
  moreover have "card (misplaced (butlast ?C') (sh_tgt s)) \<le> Suc (card (misplaced ?C (sh_tgt s)))"
    using i(2) by (rule misplaced_swap_pop)
  moreover have "sh_tgt s' = sh_tgt s" "sh_cur s' = butlast ?C'" "sh_spilled s' = sh_spilled s"
    "ts_start (sh_current s') = ts_start (sh_current s)"
    using to by (auto simp: sh_to_def sh_same_def sh_tgt_def)
  ultimately show ?thesis using C by (auto simp: sh_shrunk_def sh_shrink_measure_def sh_room_def)
qed

text \<open>Alternatives: the first that steps decides.\<close>

definition sh_tries ::
    "(shuffler \<Rightarrow> (bool \<times> shuffler) option) \<Rightarrow> shuffler \<Rightarrow> bool \<Rightarrow> (shuffler \<Rightarrow> bool) \<Rightarrow> bool" where
  "sh_tries f s Q R \<longleftrightarrow> (f s = Some (False, s) \<and> Q) \<or> (\<exists>s'. f s = Some (True, s') \<and> R s')"

lemma sh_or_tries:
  "sh_tries f s Q R \<Longrightarrow> (Q \<Longrightarrow> sh_tries g s Q' R) \<Longrightarrow> sh_tries (sh_or f g) s (Q \<and> Q') R"
  by (auto simp: sh_tries_def sh_or_def)

lemma sh_pop_unneeded_outcome:
  assumes op: "sh_open s"
  shows "(sh_pop_unneeded s = Some (False, s) \<and> last (sh_cur s) \<in> set (drop (sh_complete s) (sh_tgt s))) \<or>
         (\<exists>s'. sh_pop_unneeded s = Some (True, s') \<and> sh_to s s' (butlast (sh_cur s)) (sh_spilled s) \<and>
               last (sh_cur s) \<notin> set (drop (sh_complete s) (sh_tgt s)))"
  using sh_pop_when_outcome [of s sh_is_unneeded, OF op sh_is_unneeded_eq [OF sh_open_inv [OF op]]]
  by (auto simp: sh_pop_unneeded_def split: if_splits)

lemma sh_pop_extra_outcome:
  assumes op: "sh_open s" and t: "sh_complete s < length (sh_tgt s)"
  shows "(sh_pop_extra s = Some (False, s) \<and> \<not> sh_extra s (last (sh_cur s))) \<or>
         (\<exists>s'. sh_pop_extra s = Some (True, s') \<and> sh_to s s' (butlast (sh_cur s)) (sh_spilled s) \<and>
               sh_extra s (last (sh_cur s)))"
  using sh_pop_when_outcome [of s sh_is_extra, OF op sh_is_extra_eq [OF op t]]
  by (auto simp: sh_pop_extra_def split: if_splits)

lemma sh_pop_duplicate_outcome:
  assumes op: "sh_open s"
  shows "(sh_pop_duplicate s = Some (False, s) \<and> True) \<or>
         (\<exists>s'. sh_pop_duplicate s = Some (True, s') \<and> sh_to s s' (butlast (sh_cur s)) (sh_spilled s) \<and>
               2 \<le> count (mset (drop (sh_complete s) (sh_cur s))) (last (sh_cur s)))"
  using sh_pop_when_outcome [of s sh_is_duplicate, OF op sh_is_duplicate_eq [OF op]]
  by (auto simp: sh_pop_duplicate_def split: if_splits)

lemma nonempty_drop: "x \<in> set (drop k xs) \<Longrightarrow> k < length xs"
  by (rule ccontr) simp

lemma sh_shrink_alternatives:
  assumes op: "sh_open s"
  shows "\<exists>Q. sh_tries (sh_or sh_pop_unneeded (sh_or sh_swap_to_correct_position
                    (sh_or sh_pop_extra (sh_or sh_swap_and_pop_extra sh_pop_duplicate)))) s Q (sh_shrunk s)"
proof -
  let ?t = "last (sh_cur s) \<in> set (drop (sh_complete s) (sh_tgt s))"
  have 1: "sh_tries sh_pop_unneeded s ?t (sh_shrunk s)"
    using sh_pop_unneeded_outcome [OF op] sh_shrunk_pop [OF op] unfolding sh_tries_def by blast
  have 2: "sh_tries sh_swap_to_correct_position s True (sh_shrunk s)"
    using sh_swap_to_correct_position_outcome [OF op] sh_shrunk_swap [OF op] unfolding sh_tries_def by blast
  have 3: "sh_tries sh_pop_extra s True (sh_shrunk s)" if ?t
    using sh_pop_extra_outcome [OF op nonempty_drop [OF that]] sh_shrunk_pop [OF op] sh_extra_free
    unfolding sh_tries_def by blast
  have 4: "sh_tries sh_swap_and_pop_extra s True (sh_shrunk s)" if ?t
    using sh_swap_and_pop_extra_outcome [OF op nonempty_drop [OF that]] sh_shrunk_swap_pop [OF op]
    unfolding sh_tries_def by blast
  have 5: "sh_tries sh_pop_duplicate s True (sh_shrunk s)"
    using sh_pop_duplicate_outcome [OF op] sh_shrunk_pop [OF op] unfolding sh_tries_def by blast
  show ?thesis
    by (rule exI, rule sh_or_tries [OF 1], rule sh_or_tries [OF 2], rule sh_or_tries [OF 3], assumption,
        rule sh_or_tries [OF 4], assumption, rule 5)
qed

lemma sh_shrunk_update:
  assumes "sh_shrunk s s1" "sh_update_complete s1 = Some s2"
  shows "sh_shrunk s s2"
proof -
  from assms(1) have inv: "sh_inv s1" by (simp add: sh_shrunk_def)
  from sh_update_keeps [OF inv assms(2)] have k: "sh_inv s2" "sh_same s1 s2" "sh_cur s2 = sh_cur s1"
    "sh_spilled s2 = sh_spilled s1" by simp_all
  moreover have "sh_tgt s2 = sh_tgt s1" "ts_start (sh_current s2) = ts_start (sh_current s1)"
    using k(2) by (simp_all add: sh_same_def sh_tgt_def)
  ultimately show ?thesis
    using assms(1) by (auto simp: sh_shrunk_def sh_shrink_measure_def sh_room_def intro: sh_same_trans)
qed

lemma sh_shrink_step_ok:
  assumes op: "sh_open s" and room: "sh_room s"
  shows "\<exists>s'. sh_shrink_step s = Some s' \<and> sh_shrunk s s'"
proof -
  have "\<exists>s1. (do { (stepped, s) \<leftarrow> sh_or sh_pop_unneeded (sh_or sh_swap_to_correct_position
             (sh_or sh_pop_extra (sh_or sh_swap_and_pop_extra sh_pop_duplicate))) s;
           if stepped then Some s else sh_spill_top s }) = Some s1 \<and> sh_shrunk s s1"
  proof (cases "\<exists>s'. sh_spill_top s = Some s'")
    case True
    then obtain s' where s': "sh_spill_top s = Some s'" by blast
    from sh_spill_top_SomeD [OF sh_inv_ok [OF sh_open_inv [OF op]] s'] sh_shrunk_spill [OF op]
    have "sh_shrunk s s'" by blast
    with s' sh_shrink_alternatives [OF op] show ?thesis by (auto simp: sh_tries_def)
  next
    case False
    obtain v vs where "ts_fifo (sh_current s) = v # vs"
      using op by (cases "ts_fifo (sh_current s)") (auto simp: sh_open_def sh_cur_def sh_fifo_def)
    moreover have "ts_start (sh_current s) + length (sh_spilled s) < idx_limit"
      using room op by (simp add: sh_room_def sh_open_def)
    ultimately have False
      using ts_spill_top_Cons [of "sh_current s" v vs] False op
      by (auto simp: sh_open_def sh_inv_def sh_ok_def sh_spilled_def sh_spill_top_def)
    then show ?thesis ..
  qed
  then obtain s1 where s1: "(do { (stepped, s) \<leftarrow> sh_or sh_pop_unneeded (sh_or sh_swap_to_correct_position
             (sh_or sh_pop_extra (sh_or sh_swap_and_pop_extra sh_pop_duplicate))) s;
           if stepped then Some s else sh_spill_top s }) = Some s1" "sh_shrunk s s1" by blast
  have "sh_shrink_step s = sh_update_complete s1"
    using s1(1) by (auto simp: sh_shrink_step_def bind_eq_Some_conv split: prod.splits)
  with sh_shrunk_update [OF s1(2)] sh_update_complete_eq [of s1] show ?thesis by auto
qed

lemma sh_shrink_loop_ok:
  "sh_inv s \<Longrightarrow> sh_room s \<Longrightarrow> sh_shrink_measure s \<le> ll_left l \<Longrightarrow> ll_max l < 2 ^ 32 \<Longrightarrow>
     \<exists>s'. sh_shrink_loop l s = Some s' \<and> sh_inv s' \<and> sh_same s s' \<and> sh_room s' \<and>
          length (sh_cur s') \<le> sh_complete s' + sh_max_swap s' + 1 \<and>
          sh_shrink_measure s' \<le> sh_shrink_measure s"
proof (induction "sh_shrink_measure s" arbitrary: s l rule: less_induct)
  case less
  have c: "sh_complete s \<le> length (sh_cur s)" using less.prems by (simp add: sh_inv_def)
  show ?case
  proof (cases "sh_max_swap s + 1 < length (sh_cur s) - sh_complete s")
    case False
    then have "sh_shrink_loop l s = Some s"
      using c by (subst sh_shrink_loop.simps) (simp add: sh_shrink_needed_def)
    with less.prems False show ?thesis by (auto simp: sh_inv_def)
  next
    case True
    then have op: "sh_open s" using less.prems by (simp add: sh_open_def)
    from sh_shrink_step_ok [OF op less.prems(2)] obtain t where
      t: "sh_shrink_step s = Some t" "sh_inv t" "sh_same s t" "sh_room t"
        "sh_shrink_measure t < sh_shrink_measure s"
      using less.prems(2) by (auto simp: sh_shrunk_def)
    have left: "0 < ll_left l" "sh_shrink_measure t \<le> ll_left l - 1" using t(5) less.prems(3) by linarith+
    from ll_tick_left [OF left(1) less.prems(4)] obtain l' where
      l': "ll_tick l = Some l'" "ll_left l' = ll_left l - 1" "ll_max l' = ll_max l" by blast
    have "sh_shrink_loop l s = sh_shrink_loop l' t"
      using c True t(1) l'(1) by (subst sh_shrink_loop.simps) (simp add: sh_shrink_needed_def)
    moreover from less.hyps [OF t(5,2,4), of l'] left(2) l' less.prems(4)
    obtain s' where "sh_shrink_loop l' t = Some s'" "sh_inv s'" "sh_same t s'" "sh_room s'"
      "length (sh_cur s') \<le> sh_complete s' + sh_max_swap s' + 1"
      "sh_shrink_measure s' \<le> sh_shrink_measure t" by auto
    ultimately show ?thesis using t(3,5) by (auto intro: sh_same_trans)
  qed
qed

subsection \<open>Growing\<close>

text \<open>Pushing a value keeps the invariant; so does every operation of the grow loop.\<close>

definition sh_moved :: "shuffler \<Rightarrow> shuffler \<Rightarrow> bool" where
  "sh_moved s s' \<longleftrightarrow> sh_inv s' \<and> sh_same s s'"

lemma sh_moved_refl: "sh_inv s \<Longrightarrow> sh_moved s s"
  by (simp add: sh_moved_def sh_inv_def)

lemma sh_moved_trans: "sh_moved s t \<Longrightarrow> sh_moved t u \<Longrightarrow> sh_moved s u"
  by (auto simp: sh_moved_def intro: sh_same_trans)

lemma sh_shrunk_moved: "sh_shrunk s s' \<Longrightarrow> sh_moved s s'"
  by (simp add: sh_shrunk_def sh_moved_def)

lemma sh_moved_push:
  "sh_inv s \<Longrightarrow> sh_to s s' (sh_cur s @ [v]) (sh_spilled s) \<Longrightarrow> sh_moved s s'"
  using sh_inv_to [of s s' "sh_cur s @ [v]" "sh_spilled s"] by (auto simp: sh_moved_def sh_inv_def)

lemma exchangeable_distinct: "exchangeable s src dst \<Longrightarrow> src \<noteq> dst"
  by (auto simp: exchangeable_def)

lemma sh_moved_exchange:
  assumes op: "sh_open s" and e: "exchangeable s src dst"
    and to: "sh_to s s' (list_swap (length (sh_cur s) - 1) dst
                          (list_swap (length (sh_cur s) - 1) src (sh_cur s))) (sh_spilled s)"
  shows "sh_moved s s'"
proof -
  let ?C = "sh_cur s" and ?c = "sh_complete s" and ?C1 = "list_swap (length (sh_cur s) - 1) src (sh_cur s)"
  have b: "?c \<le> src" "src < length ?C" "?c \<le> dst" "dst < length ?C" "?c \<le> length ?C - 1" "length ?C - 1 < length ?C"
    using e sh_reach_le [OF op] op by (auto simp: exchangeable_def sh_open_def)
  from list_swap_low [OF b(5,1,6,2)] have 1: "take ?c ?C1 = take ?c ?C" "mset (drop ?c ?C1) = mset (drop ?c ?C)"
    by simp_all
  from list_swap_low [OF b(5,3), of ?C1] b 1
  have "take ?c (list_swap (length ?C - 1) dst ?C1) = take ?c ?C"
    "mset (drop ?c (list_swap (length ?C - 1) dst ?C1)) = mset (drop ?c ?C)" by simp_all
  from sh_inv_swap [OF op to refl _ this] show ?thesis by (simp add: sh_moved_def)
qed

lemma sh_unspill_pushes:
  "sh_inv s \<Longrightarrow> sh_unspill v s = Some s' \<Longrightarrow> sh_moved s s'"
  using sh_unspill_SomeD [of s v s'] sh_moved_push [of s s' v] by (simp add: sh_inv_ok)

lemma sh_unspill_first_moved:
  "sh_inv s \<Longrightarrow> sh_unspill_first s n vs = Some (b, s') \<Longrightarrow> sh_moved s s'"
  by (induction vs) (auto simp: monad_elims sh_moved_refl sh_unspill_pushes split: if_splits)

lemma sh_unspill_needed_moved: "sh_inv s \<Longrightarrow> sh_unspill_needed s = Some (b, s') \<Longrightarrow> sh_moved s s'"
  by (auto simp: sh_unspill_needed_def monad_elims sh_unspill_first_moved)

lemma sh_unspill_unavailable_horizon_moved:
  "sh_inv s \<Longrightarrow> sh_unspill_unavailable_horizon s = Some (b, s') \<Longrightarrow> sh_moved s s'"
  by (auto simp: sh_unspill_unavailable_horizon_def monad_elims sh_moved_refl sh_unspill_pushes split: if_splits)

lemma sh_dup_needed_moved: "sh_inv s \<Longrightarrow> sh_dup_needed s = Some (b, s') \<Longrightarrow> sh_moved s s'"
proof -
  assume inv: "sh_inv s" and run: "sh_dup_needed s = Some (b, s')"
  then consider "s' = s" | i where "sh_dup i s = Some s'"
    by (auto simp: sh_dup_needed_def monad_elims split: if_splits option.splits)
  then show ?thesis
  proof cases
    case (2 i)
    from sh_dup_SomeD [OF sh_inv_ok [OF inv] this] sh_moved_push [OF inv] show ?thesis by blast
  qed (simp add: sh_moved_refl inv)
qed

lemma sh_or_moved:
  assumes "\<And>s b s'. sh_inv s \<Longrightarrow> f s = Some (b, s') \<Longrightarrow> sh_moved s s'"
    and "\<And>s b s'. sh_inv s \<Longrightarrow> g s = Some (b, s') \<Longrightarrow> sh_moved s s'"
    and "sh_inv s" "sh_or f g s = Some (b, s')"
  shows "sh_moved s s'"
proof -
  from assms(4) obtain b1 s1 where f: "f s = Some (b1, s1)"
    and rest: "(if b1 then Some (True, s1) else g s1) = Some (b, s')"
    by (auto simp: sh_or_def bind_eq_Some_conv)
  have m: "sh_moved s s1" using assms(1) [OF assms(3) f] .
  then have "sh_inv s1" by (simp add: sh_moved_def)
  with assms(2) rest m show ?thesis by (auto split: if_splits intro: sh_moved_trans)
qed

lemma sh_push_moved:
  "sh_inv s \<Longrightarrow>
     sh_or sh_unspill_unavailable_horizon (sh_or sh_dup_needed sh_unspill_needed) s = Some (b, s') \<Longrightarrow>
     sh_moved s s'"
  by (rule sh_or_moved [OF sh_unspill_unavailable_horizon_moved
        sh_or_moved [OF sh_dup_needed_moved sh_unspill_needed_moved]])

text \<open>What the swapping and popping alternatives of the grow loop leave when none applies.\<close>

definition sh_stuck :: "shuffler \<Rightarrow> bool" where
  "sh_stuck s \<longleftrightarrow> (\<forall>i. \<not> wants_top s i) \<and> (\<forall>src dst. \<not> exchangeable s src dst) \<and>
     \<not> sh_extra s (last (sh_cur s))"

text \<open>One of the outcomes of those alternatives.\<close>

definition sh_rearranged :: "shuffler \<Rightarrow> shuffler \<Rightarrow> bool" where
  "sh_rearranged s s' \<longleftrightarrow>
     (sh_to s s' (butlast (sh_cur s)) (sh_spilled s) \<and>
        (last (sh_cur s) \<notin> set (drop (sh_complete s) (sh_tgt s)) \<or> sh_extra s (last (sh_cur s)))) \<or>
     (\<exists>i. wants_top s i \<and> sh_to s s' (list_swap (length (sh_cur s) - 1) i (sh_cur s)) (sh_spilled s)) \<or>
     (\<exists>src dst. exchangeable s src dst \<and>
        sh_to s s' (list_swap (length (sh_cur s) - 1) dst
                     (list_swap (length (sh_cur s) - 1) src (sh_cur s))) (sh_spilled s))"

lemma sh_rearranged_moved: "sh_open s \<Longrightarrow> sh_rearranged s s' \<Longrightarrow> sh_moved s s'"
  unfolding sh_rearranged_def
  using sh_shrunk_pop [of s s'] sh_shrunk_swap [of s _ s'] sh_moved_exchange [of s _ _ s']
    sh_extra_free [of s] sh_shrunk_moved [of s s'] by blast

lemma sh_grow_alternatives:
  assumes op: "sh_open s" and t: "sh_complete s < length (sh_tgt s)"
  shows "sh_tries (sh_or sh_pop_unneeded (sh_or sh_swap_to_correct_position
           (sh_or sh_exchange_via_top sh_pop_extra))) s (sh_stuck s) (sh_rearranged s)"
proof -
  let ?R = "sh_rearranged s"
  have 1: "sh_tries sh_pop_unneeded s True ?R"
    using sh_pop_unneeded_outcome [OF op] unfolding sh_tries_def sh_rearranged_def by blast
  have 2: "sh_tries sh_swap_to_correct_position s (\<forall>i. \<not> wants_top s i) ?R"
    using sh_swap_to_correct_position_outcome [OF op] unfolding sh_tries_def sh_rearranged_def by blast
  have 3: "sh_tries sh_exchange_via_top s (\<forall>src dst. \<not> exchangeable s src dst) ?R"
    using sh_exchange_via_top_outcome [OF op] unfolding sh_tries_def sh_rearranged_def by blast
  have 4: "sh_tries sh_pop_extra s (\<not> sh_extra s (last (sh_cur s))) ?R"
    using sh_pop_extra_outcome [OF op t] unfolding sh_tries_def sh_rearranged_def by blast
  from sh_or_tries [OF 1 sh_or_tries [OF 2 sh_or_tries [OF 3 4]]] show ?thesis
    by (simp add: sh_stuck_def)
qed

text \<open>When nothing can be pushed, the top is not complete, so spilling it is safe.\<close>

lemma sh_can_push_False:
  assumes inv: "sh_inv s" and no: "sh_can_push s = Some False"
  shows "sh_open s"
proof (rule ccontr)
  assume "\<not> sh_open s"
  then have "\<not> sh_complete s < length (sh_cur s)" using inv by (simp add: sh_open_def)
  moreover have "sh_complete s \<le> length (sh_cur s)" using inv by (simp only: sh_inv_def)
  ultimately have c: "sh_complete s = length (sh_cur s)" by linarith
  let ?C = "sh_cur s" and ?T = "sh_tgt s" and ?h = "length (sh_cur s) - sh_max_swap s - 1"
  have low: "take (length ?C) ?T = ?C" "length ?C \<le> length ?T" "set (drop (length ?C) ?T) \<subseteq> set (sh_spilled s)"
    using inv unfolding sh_inv_def c by simp_all
  have long: "sh_max_swap s < length ?C"
  proof (rule ccontr)
    assume "\<not> sh_max_swap s < length ?C"
    then have "sh_can_push s = Some True" by (simp add: sh_can_push_def)
    with no show False by simp
  qed
  have h: "?h < length ?C" "?h < length ?T" using long low(2) by auto
  have eq: "?C ! ?h = ?T ! ?h" using nth_take [OF h(1), of ?T] low(1) by simp
  define h where "h = ?h"
  note hs = h [folded h_def] eq [folded h_def]
  have hor: "sh_current_to s (sh_max_swap s) = Some h" using long by (simp add: sh_current_to_eq h_def)
  have "at_bottom (sh_target s) h = Some (?T ! h)" "at_bottom (sh_fifo s) h = Some (?T ! h)"
    "above_bottom (sh_target s) h = Some (rev (drop (Suc h) ?T))"
    "above_bottom (sh_fifo s) h = Some (rev (drop (Suc h) ?C))"
    using hs by (simp_all add: sh_positions)
  with long have can: "sh_can_push s = (if ?T ! h \<in> set (drop (Suc h) ?T) then
      (if ?T ! h \<in> set (drop (Suc h) ?C) then Some True
       else map_option (\<lambda>found. found \<noteq> None) (ts_get_spilled (sh_current s) (?T ! h))) else Some True)"
    by (simp add: sh_can_push_def hor)
  have above: "?T ! h \<in> set (drop (Suc h) ?T)" "?T ! h \<notin> set (drop (Suc h) ?C)"
    using no unfolding can by (simp_all split: if_splits)
  have sp: "ts_get_spilled (sh_current s) (?T ! h) = Some None"
    using no above by (simp add: can)
  have "drop (Suc h) ?T = drop (Suc h) (take (length ?C) ?T @ drop (length ?C) ?T)" by simp
  also have "\<dots> = drop (Suc h) ?C @ drop (length ?C) ?T" using low(1) hs(1) by simp
  finally have "drop (Suc h) ?T = drop (Suc h) ?C @ drop (length ?C) ?T" .
  with above have "?T ! h \<in> set (sh_spilled s)" using low(3) by auto
  with ts_get_spilled_NoneD [OF sp] show False by (simp add: sh_spilled_def)
qed

lemma sh_grow_step_moved:
  assumes inv: "sh_inv s" and t: "sh_complete s < length (sh_tgt s)" and run: "sh_grow_step s = Some s'"
  shows "sh_moved s s'"
proof -
  from run obtain b s1 s2 where alts: "(if length (sh_fifo s) > sh_complete s
        then sh_or sh_pop_unneeded (sh_or sh_swap_to_correct_position (sh_or sh_exchange_via_top sh_pop_extra)) s
        else Some (False, s)) = Some (b, s1)"
    and push: "(if b then Some s1 else do {
          can_push \<leftarrow> sh_can_push s1;
          if can_push then do {
            (pushed, s) \<leftarrow> sh_or sh_unspill_unavailable_horizon (sh_or sh_dup_needed sh_unspill_needed) s1;
            rust_assert pushed;
            Some s
          } else sh_spill_top s1 }) = Some s2"
    and upd: "sh_update_complete s2 = Some s'"
    by (auto simp: sh_grow_step_def bind_eq_Some_conv)
  have 1: "sh_moved s s1"
  proof (cases "sh_complete s < length (sh_cur s)")
    case True
    then have op: "sh_open s" using inv by (simp add: sh_open_def)
    from sh_grow_alternatives [OF op t] alts True sh_rearranged_moved [OF op] sh_moved_refl [OF inv] show ?thesis
      by (auto simp: sh_tries_def)
  next
    case False
    with alts sh_moved_refl [OF inv] show ?thesis by simp
  qed
  then have inv1: "sh_inv s1" by (simp add: sh_moved_def)
  have 2: "sh_moved s1 s2"
  proof (cases "b")
    case True
    with push sh_moved_refl [OF inv1] show ?thesis by simp
  next
    case False
    with push obtain cp where cp: "sh_can_push s1 = Some cp" by (auto simp: bind_eq_Some_conv)
    show ?thesis
    proof (cases cp)
      case True
      with False push cp sh_push_moved [OF inv1] show ?thesis by (auto simp: bind_eq_Some_conv)
    next
      case no: False
      have op: "sh_open s1" using sh_can_push_False [OF inv1] cp no by simp
      have spill: "sh_spill_top s1 = Some s2" using push cp no False by simp
      from sh_spill_top_SomeD [OF sh_inv_ok [OF inv1] spill] sh_shrunk_spill [OF op] sh_shrunk_moved
      show ?thesis by blast
    qed
  qed
  then have "sh_inv s2" by (simp add: sh_moved_def)
  from sh_update_keeps [OF this upd] have "sh_moved s2 s'" by (simp add: sh_moved_def)
  with 1 2 show ?thesis by (blast intro: sh_moved_trans)
qed

lemma sh_moved_tgt: "sh_moved s s' \<Longrightarrow> sh_tgt s' = sh_tgt s"
  by (simp add: sh_moved_def sh_same_def sh_tgt_def)

lemma sh_grow_loop_moved:
  "sh_inv s \<Longrightarrow> sh_grow_loop l s = Some s' \<Longrightarrow>
     sh_moved s s' \<and> sh_complete s' = length (sh_tgt s')"
proof (induction l s rule: sh_grow_loop.induct)
  case (1 l s)
  show ?case
  proof (cases "sh_complete s < length (sh_tgt s)")
    case False
    with 1 have "s' = s" by (subst (asm) sh_grow_loop.simps) simp
    moreover have "sh_complete s = length (sh_tgt s)" using "1.prems"(1) False by (simp add: sh_inv_def)
    ultimately show ?thesis using sh_moved_refl [OF "1.prems"(1)] by simp
  next
    case True
    with 1 obtain l' t where l': "ll_tick l = Some l'" and t: "sh_grow_step s = Some t"
      and rest: "sh_grow_loop l' t = Some s'"
      by (subst (asm) (3) sh_grow_loop.simps) (auto simp: bind_eq_Some_conv)
    have m: "sh_moved s t" using sh_grow_step_moved [OF "1.prems"(1) True t] .
    with "1.IH" [OF _ l' t] True rest show ?thesis by (auto simp: sh_moved_def intro: sh_same_trans)
  qed
qed

subsection \<open>Cleaning up\<close>

lemma sh_len_cur: "sh_ok s \<Longrightarrow> sh_len s = length (sh_cur s)"
  by (simp add: sh_len_def sh_ok_def sh_cur_def sh_fifo_def ts_fifo_length)

lemma sh_cleanup_ok:
  "sh_ok s \<Longrightarrow> take (length (sh_tgt s)) (sh_cur s) = sh_tgt s \<Longrightarrow>
     \<exists>s'. sh_cleanup s = Some s' \<and> sh_same s s' \<and> sh_cur s' = sh_tgt s"
proof (induction "sh_len s" arbitrary: s rule: less_induct)
  case less
  note len = sh_len_cur [OF less.prems(1)]
  show ?case
  proof (cases "length (sh_tgt s) < sh_len s")
    case False
    with less.prems len have "sh_cur s = sh_tgt s" by simp
    moreover have "sh_cleanup s = Some s" using False by (subst sh_cleanup.simps) simp
    ultimately show ?thesis using less.prems(1) by simp
  next
    case True
    then have "sh_cur s \<noteq> []" using len by auto
    from sh_pop_spec [OF less.prems(1) this] obtain t where
      t: "sh_pop s = Some t" "sh_to s t (butlast (sh_cur s)) (sh_spilled s)" by blast
    then have t': "sh_ok t" "sh_tgt t = sh_tgt s" "sh_cur t = butlast (sh_cur s)" "sh_same s t"
      by (auto simp: sh_to_def sh_same_def sh_tgt_def)
    have "length (sh_tgt s) \<le> length (sh_cur s) - 1" using True len by simp
    then have "take (length (sh_tgt t)) (sh_cur t) = sh_tgt t"
      using less.prems(2) t' by (simp add: butlast_conv_take min_def)
    from less.hyps [OF sh_pop_len [OF t(1)] t'(1) this] obtain s' where
      s': "sh_cleanup t = Some s'" "sh_same t s'" "sh_cur s' = sh_tgt t" by blast
    have "sh_cleanup s = sh_cleanup t" using True t(1) by (subst sh_cleanup.simps) simp
    with s' t' show ?thesis by (auto intro: sh_same_trans)
  qed
qed

subsection \<open>The whole shuffler\<close>

definition sh_start :: "schedule_config \<Rightarrow> tracked_stack \<Rightarrow> nat list \<Rightarrow> shuffler" where
  "sh_start config current target = \<lparr>sh_complete = 0, sh_current = current, sh_target = target,
     sh_max_swap = sc_max_swap_depth config, sh_max_dup = sc_max_dup_depth config\<rparr>"

definition config_u8 :: "schedule_config \<Rightarrow> bool" where
  "config_u8 c \<longleftrightarrow> sc_max_swap_depth c < 2 ^ 8 \<and> sc_max_dup_depth c < 2 ^ 8"

text \<open>What the shuffler is called with: every target value is on the stack or spilled.\<close>

definition sh_ready :: "schedule_config \<Rightarrow> tracked_stack \<Rightarrow> nat list \<Rightarrow> bool" where
  "sh_ready config current target \<longleftrightarrow> ts_inv current \<and> config_u8 config \<and>
     set target \<subseteq> set (ts_fifo current) \<union> set (ts_spilled current) \<and>
     ts_start current + length (ts_spilled current) + length (ts_fifo current) \<le> idx_limit"

lemma sh_start_inv:
  assumes "sh_ready config current target"
  shows "sh_inv (sh_start config current target) \<and> sh_room (sh_start config current target)"
  using assms
  by (auto simp: sh_ready_def sh_start_def sh_inv_def sh_room_def sh_ok_def sh_cur_def sh_tgt_def
      sh_fifo_def sh_spilled_def config_u8_def)

text \<open>Up to the grow loop the shuffler always succeeds.\<close>

lemma sh_shrink_phase:
  assumes ready: "sh_ready config current target"
  shows "\<exists>s0 s1. sh_update_complete (sh_start config current target) = Some s0 \<and>
           sh_shrink_loop (ll_with_max sh_limit) s0 = Some s1 \<and>
           sh_moved (sh_start config current target) s1 \<and>
           length (sh_cur s1) \<le> sh_complete s1 + sh_max_swap s1 + 1"
proof -
  let ?s = "sh_start config current target"
  from sh_start_inv [OF ready] have inv: "sh_inv ?s" "sh_room ?s" by simp_all
  obtain s0 where s0: "sh_update_complete ?s = Some s0" by (simp add: sh_update_complete_eq)
  from sh_update_keeps [OF inv(1) s0] have k: "sh_inv s0" "sh_same ?s s0" "sh_cur s0 = sh_cur ?s"
    "sh_spilled s0 = sh_spilled ?s" by simp_all
  have room: "sh_room s0" using inv(2) k by (simp add: sh_room_def sh_same_def)
  have "sh_cur s0 = rev (ts_fifo current)" using k(3) by (simp add: sh_start_def sh_cur_def sh_fifo_def)
  then have "length (sh_cur s0) \<le> 1024"
    using ts_fifo_bound [of current] ready by (simp add: sh_ready_def max_stack_length_def)
  moreover have "card (misplaced (sh_cur s0) (sh_tgt s0)) \<le> length (sh_cur s0)" by (rule card_misplaced)
  ultimately have "sh_shrink_measure s0 \<le> ll_left (ll_with_max sh_limit)"
    by (simp add: sh_shrink_measure_def ll_left_def ll_with_max_def sh_limit_def)
  from sh_shrink_loop_ok [OF k(1) room this] obtain s1 where
    "sh_shrink_loop (ll_with_max sh_limit) s0 = Some s1" "sh_inv s1" "sh_same s0 s1"
    "length (sh_cur s1) \<le> sh_complete s1 + sh_max_swap s1 + 1"
    by (auto simp: ll_with_max_def sh_limit_def)
  with s0 k(2) show ?thesis by (auto simp: sh_moved_def intro: sh_same_trans)
qed

lemma sh_run_start:
  "sh_run config current target = do {
     s \<leftarrow> sh_update_complete (sh_start config current target);
     s \<leftarrow> sh_shrink_loop (ll_with_max sh_limit) s;
     s \<leftarrow> sh_grow_loop (ll_with_max sh_limit) s;
     s \<leftarrow> sh_cleanup s;
     Some (sh_current s)
   }"
  by (simp add: sh_run_def sh_start_def)

lemma sh_finish:
  assumes "sh_moved (sh_start config current target) s" "sh_complete s = length (sh_tgt s)"
  shows "\<exists>s'. sh_cleanup s = Some s' \<and> ts_fifo (sh_current s') = target \<and>
              ts_moves (sc_max_swap_depth config) (sc_max_dup_depth config) current (sh_current s')"
proof -
  have inv: "sh_inv s" and same: "sh_same (sh_start config current target) s"
    using assms(1) by (simp_all add: sh_moved_def)
  have "take (length (sh_tgt s)) (sh_cur s) = sh_tgt s" using inv assms(2) by (simp add: sh_inv_def)
  from sh_cleanup_ok [OF sh_inv_ok [OF inv] this] obtain s' where
    s': "sh_cleanup s = Some s'" "sh_same s s'" "sh_cur s' = sh_tgt s" by blast
  from sh_same_trans [OF same s'(2)] s'(3) sh_moved_tgt [OF assms(1)] s'(1) show ?thesis
    by (auto simp: sh_same_def sh_start_def sh_cur_def sh_tgt_def sh_fifo_def)
qed

text \<open>When the shuffler returns, the stack is the target and only moves were made.\<close>

lemma sh_run_result:
  assumes ready: "sh_ready config current target" and run: "sh_run config current target = Some t"
  shows "ts_fifo t = target \<and>
         ts_moves (sc_max_swap_depth config) (sc_max_dup_depth config) current t"
proof -
  from sh_shrink_phase [OF ready] obtain s0 s1 where
    s1: "sh_update_complete (sh_start config current target) = Some s0"
      "sh_shrink_loop (ll_with_max sh_limit) s0 = Some s1"
      "sh_moved (sh_start config current target) s1" by blast
  from run s1(1,2) obtain s2 s3 where s2: "sh_grow_loop (ll_with_max sh_limit) s1 = Some s2"
    and s3: "sh_cleanup s2 = Some s3" "t = sh_current s3"
    by (auto simp: sh_run_start bind_eq_Some_conv)
  have "sh_inv s1" using s1(3) by (simp add: sh_moved_def)
  from sh_grow_loop_moved [OF this s2] have "sh_moved s1 s2" "sh_complete s2 = length (sh_tgt s2)" by simp_all
  with sh_finish [OF sh_moved_trans [OF s1(3)]] s3 show ?thesis by fastforce
qed

subsection \<open>When everything is in reach, growing terminates\<close>

text \<open>
  The values missing from the stack and the values it has too many of, with multiplicity. Every
  iteration of the grow loop removes an extra value, adds a missing one, or puts one in its place.
\<close>

definition missing_count :: "nat list \<Rightarrow> nat list \<Rightarrow> nat" where
  "missing_count C T = size (mset T - mset C)"

definition extra_count :: "nat list \<Rightarrow> nat list \<Rightarrow> nat" where
  "extra_count C T = size (mset C - mset T)"

definition top_wrong :: "nat list \<Rightarrow> nat list \<Rightarrow> nat" where
  "top_wrong C T = (if C \<noteq> [] \<and> \<not> (length C - 1 < length T \<and> last C = T ! (length C - 1)) then 1 else 0)"

definition grow_measure :: "nat list \<Rightarrow> nat list \<Rightarrow> nat" where
  "grow_measure C T = 4 * (missing_count C T + extra_count C T) + 2 * card (misplaced C T) + top_wrong C T"

lemma top_wrong_le: "top_wrong C T \<le> 1"
  by (simp add: top_wrong_def)

lemma grow_pop:
  assumes "C \<noteq> []" "count (mset T) (last C) < count (mset C) (last C)"
  shows "grow_measure (butlast C) T < grow_measure C T \<and> extra_count (butlast C) T < extra_count C T"
proof -
  obtain D v where C: "C = D @ [v]" using assms(1) by (cases C rule: rev_cases) auto
  have cnt: "count (mset T) v \<le> count (mset D) v" using assms(2) by (simp add: C)
  have "mset T - mset C = mset T - mset D"
    using cnt by (intro multiset_eqI) (auto simp: C)
  moreover have "mset C - mset T = add_mset v (mset D - mset T)"
    using cnt by (intro multiset_eqI) (auto simp: C)
  moreover have "card (misplaced D T) \<le> card (misplaced C T)"
    using misplaced_butlast [of C T] by (simp add: C)
  ultimately show ?thesis
    using top_wrong_le [of D T]
    by (simp add: grow_measure_def missing_count_def extra_count_def C)
qed

lemma misplaced_push: "card (misplaced (C @ [v]) T) \<le> Suc (card (misplaced C T))"
proof -
  have "misplaced (C @ [v]) T \<subseteq> insert (length C - 1) (misplaced C T)"
    by (auto simp: misplaced_def nth_append)
  then have "card (misplaced (C @ [v]) T) \<le> card (insert (length C - 1) (misplaced C T))"
    by (intro card_mono) simp_all
  also have "\<dots> \<le> Suc (card (misplaced C T))" by (rule card_insert_le_m1) simp_all
  finally show ?thesis .
qed

lemma grow_push:
  assumes "count (mset C) v < count (mset T) v"
  shows "grow_measure (C @ [v]) T < grow_measure C T \<and> extra_count (C @ [v]) T = extra_count C T"
proof -
  have "mset T - mset C = add_mset v (mset T - mset (C @ [v]))"
    using assms by (intro multiset_eqI) auto
  moreover have "mset (C @ [v]) - mset T = mset C - mset T"
    using assms by (intro multiset_eqI) auto
  ultimately show ?thesis
    using misplaced_push [of C v T] top_wrong_le [of "C @ [v]" T]
    by (simp add: grow_measure_def missing_count_def extra_count_def)
qed

lemma counts_swap:
  assumes "i < length C" "j < length C"
  shows "missing_count (list_swap i j C) T = missing_count C T" "extra_count (list_swap i j C) T = extra_count C T"
  using assms by (simp_all add: missing_count_def extra_count_def mset_list_swap)

lemma grow_swap:
  assumes "i < length C - 1" "i < length T" "C ! i \<noteq> T ! i" "last C = T ! i"
  shows "grow_measure (list_swap (length C - 1) i C) T < grow_measure C T"
proof -
  have "length C - 1 < length C" "i < length C" using assms(1) by linarith+
  from counts_swap [OF this] misplaced_swap [OF assms] top_wrong_le [of "list_swap (length C - 1) i C" T]
  show ?thesis by (simp add: grow_measure_def)
qed

text \<open>The exchange of two wrong positions through the top.\<close>

lemma grow_exchange:
  assumes b: "src < length C" "src < length T" "dst < length C" "dst < length T"
    and w: "C ! src \<noteq> T ! src" "C ! dst \<noteq> T ! dst" "C ! src = T ! dst"
  shows "grow_measure (list_swap (length C - 1) dst (list_swap (length C - 1) src C)) T < grow_measure C T"
proof -
  define t where "t = length C - 1"
  let ?C2 = "list_swap t dst (list_swap t src C)"
  have t: "t < length C" "src \<le> t" "dst \<le> t" using b by (auto simp: t_def)
  have ne: "src \<noteq> dst" using w by auto
  have counts: "missing_count ?C2 T = missing_count C T" "extra_count ?C2 T = extra_count C T"
    using t b by (simp_all add: counts_swap)
  have nth2: "?C2 ! i = C ! (let j = (if i = t then dst else if i = dst then t else i)
                            in if j = t then src else if j = src then t else j)" if "i < length C" for i
    using that t b by (simp add: nth_list_swap Let_def)
  have "C \<noteq> []" using t(1) by auto
  then have last: "C \<noteq> []" "last C = C ! t" by (simp_all add: t_def last_conv_nth)
  show ?thesis
  proof (cases "dst = t")
    case True
    then have src: "src < t" using ne t by simp
    have "misplaced ?C2 T \<subseteq> misplaced C T"
    proof
      fix x assume x: "x \<in> misplaced ?C2 T"
      then have x': "x < t" "\<not> (x < length T \<and> ?C2 ! x = T ! x)" by (simp_all add: misplaced_def t_def)
      have "x < length C" using x'(1) t(1) by linarith
      show "x \<in> misplaced C T"
      proof (cases "x = src")
        case True
        with src w show ?thesis by (simp add: misplaced_def t_def)
      next
        case False
        have "?C2 ! x = C ! x" using nth2 [OF \<open>x < length C\<close>] \<open>dst = t\<close> False x' by (simp add: Let_def)
        with x' show ?thesis by (simp add: misplaced_def t_def)
      qed
    qed
    then have "card (misplaced ?C2 T) \<le> card (misplaced C T)" by (intro card_mono) simp_all
    moreover have "top_wrong C T = 1" using True w b last by (simp add: top_wrong_def t_def)
    moreover have "top_wrong ?C2 T = 0"
    proof -
      have "?C2 \<noteq> []" using last(1) by (simp flip: length_greater_0_conv)
      then have "last ?C2 = ?C2 ! t" by (simp add: last_conv_nth t_def)
      also have "\<dots> = C ! src" using nth2 [OF t(1)] True src by (simp add: Let_def)
      finally have "last ?C2 = T ! t" using w True by simp
      moreover have "length ?C2 - 1 = t" by (simp add: t_def)
      ultimately show ?thesis using True b unfolding top_wrong_def by simp
    qed
    ultimately show ?thesis using counts unfolding grow_measure_def t_def [symmetric] by simp
  next
    case False
    then have dst: "dst < t" using t by simp
    have "misplaced ?C2 T \<subseteq> misplaced C T - {dst}"
    proof
      fix x assume x: "x \<in> misplaced ?C2 T"
      then have x': "x < t" "\<not> (x < length T \<and> ?C2 ! x = T ! x)" by (simp_all add: misplaced_def t_def)
      have xC: "x < length C" using x'(1) t(1) by linarith
      have "?C2 ! dst = T ! dst" using nth2 [OF b(3)] dst w by (simp add: Let_def)
      then have "x \<noteq> dst" using x'(2) b by auto
      show "x \<in> misplaced C T - {dst}"
      proof (cases "x = src")
        case True
        with w x' \<open>x \<noteq> dst\<close> show ?thesis by (simp add: misplaced_def t_def)
      next
        case False
        have "?C2 ! x = C ! x" using nth2 [OF xC] \<open>x \<noteq> dst\<close> False x'(1) by (simp add: Let_def)
        with x' \<open>x \<noteq> dst\<close> show ?thesis by (simp add: misplaced_def t_def)
      qed
    qed
    moreover have "dst \<in> misplaced C T" using dst w by (simp add: misplaced_def t_def)
    ultimately have "card (misplaced ?C2 T) < card (misplaced C T)"
      by (meson card_Diff1_less card_mono finite_Diff finite_misplaced le_less_trans)
    with counts top_wrong_le [of ?C2 T] show ?thesis unfolding grow_measure_def t_def [symmetric] by simp
  qed
qed

lemma grow_measure_bound: "grow_measure C T \<le> 6 * length C + 4 * length T + 1"
proof -
  have "missing_count C T \<le> length T" "extra_count C T \<le> length C"
    unfolding missing_count_def extra_count_def by (metis diff_subset_eq_self size_mset size_mset_mono)+
  with card_misplaced [of C T] top_wrong_le [of C T] show ?thesis by (simp add: grow_measure_def)
qed

lemma length_extra: "length C \<le> length T + extra_count C T"
proof -
  have "size (mset C) \<le> size (mset T + (mset C - mset T))"
    by (intro size_mset_mono mset_subset_eqI) simp
  then show ?thesis by (simp add: extra_count_def)
qed

subsection \<open>Progress\<close>

text \<open>The two stacks agree below the complete position, so counting can leave that part out.\<close>

lemma count_drop:
  "take c C = take c T \<Longrightarrow>
     count (mset C) v < count (mset T) v \<longleftrightarrow> count (mset (drop c C)) v < count (mset (drop c T)) v"
proof -
  assume t: "take c C = take c T"
  have "count (mset xs) v = count (mset (take c xs)) v + count (mset (drop c xs)) v" for xs :: "'a list"
    by (metis append_take_drop_id count_union mset_append)
  then show ?thesis using t by (metis add_less_cancel_left)
qed

lemma count_drop_card: "count (mset (drop c xs)) v = card {i. c \<le> i \<and> i < length xs \<and> xs ! i = v}"
proof (induction xs rule: rev_induct)
  case (snoc x xs)
  have *: "{i. c \<le> i \<and> i < length (xs @ [x]) \<and> (xs @ [x]) ! i = v} =
        {i. c \<le> i \<and> i < length xs \<and> xs ! i = v} \<union> (if c \<le> length xs \<and> x = v then {length xs} else {})"
    by (auto simp: nth_append less_Suc_eq)
  show ?case
  proof (cases "c \<le> length xs")
    case True
    then show ?thesis unfolding * using snoc by (subst card_Un_disjoint) auto
  next
    case False
    then have "{i. c \<le> i \<and> i < length xs \<and> xs ! i = v} = {}" by auto
    with False show ?thesis unfolding * by simp
  qed
qed simp

text \<open>
  If every target value is on the stack, none of those wanted below the top's height is missing,
  and no rearrangement applies, then the stack is settled: nothing more to do.
\<close>

lemma stack_covers:
  assumes all: "set T \<subseteq> set C"
    and low: "\<And>i. i < length C \<Longrightarrow> i < length T \<Longrightarrow> count (mset T) (T ! i) \<le> count (mset C) (T ! i)"
  shows "mset T \<subseteq># mset C"
proof (rule ccontr)
  assume "\<not> mset T \<subseteq># mset C"
  then obtain v where v: "count (mset C) v < count (mset T) v" by (auto simp: subseteq_mset_def not_le)
  then have "v \<in> set T" by (metis count_eq_zero_iff gr_implies_not0 set_mset_mset)
  with all have vC: "v \<in> set C" by auto
  let ?P = "take (length C) T"
  have notin: "w \<noteq> v" if "w \<in> set ?P" for w
    using that v low by (fastforce simp: in_set_conv_nth)
  have short: "length C < length T"
  proof (rule ccontr)
    assume "\<not> length C < length T"
    then have "v \<in> set ?P" using \<open>v \<in> set T\<close> by simp
    with notin show False by blast
  qed
  have "mset ?P \<subseteq># mset C"
  proof (rule mset_subset_eqI)
    fix w
    show "count (mset ?P) w \<le> count (mset C) w"
    proof (cases "w \<in> set ?P")
      case True
      then have "count (mset T) w \<le> count (mset C) w" using low by (auto simp: in_set_conv_nth)
      moreover have "count (mset ?P) w \<le> count (mset T) w"
        by (metis append_take_drop_id count_union le_add1 mset_append)
      ultimately show ?thesis by simp
    next
      case False
      then have "count (mset ?P) w = 0" by (metis count_eq_zero_iff set_mset_mset)
      then show ?thesis by linarith
    qed
  qed
  moreover have "size (mset ?P) = size (mset C)" using short by simp
  ultimately have "mset ?P = mset C" by (metis mset_subset_size nat_neq_iff subset_mset.le_imp_less_or_eq)
  then have "set ?P = set C" by (metis set_mset_mset)
  with vC notin show False by blast
qed


text \<open>Everything is in reach: the length of the stack stays below the swap depth.\<close>

definition sh_near :: "shuffler \<Rightarrow> bool" where
  "sh_near s \<longleftrightarrow>
     length (sh_tgt s) + extra_count (sh_cur s) (sh_tgt s) < sh_max_swap s \<and>
     length (sh_tgt s) + extra_count (sh_cur s) (sh_tgt s) \<le> sh_max_dup s + 1 \<and>
     ts_start (sh_current s) + length (sh_spilled s) \<le> idx_limit"

lemma sh_near_length:
  "sh_near s \<Longrightarrow> length (sh_cur s) < sh_max_swap s \<and> length (sh_cur s) \<le> sh_max_dup s + 1"
  using length_extra [of "sh_cur s" "sh_tgt s"] by (simp add: sh_near_def)

lemma sh_near_reach: "sh_near s \<Longrightarrow> sh_open s \<Longrightarrow> sh_reach s = sh_complete s"
proof -
  assume "sh_near s" "sh_open s"
  then have "length (sh_cur s) - Suc (sh_complete s) \<le> sh_max_swap s" "sh_complete s < length (sh_cur s)"
    using sh_near_length [of s] by (auto simp: sh_open_def)
  then show ?thesis by (simp add: sh_reach_def sh_search_def min_def)
qed

text \<open>After an update the first incomplete position is not settled.\<close>

definition sh_stopped :: "shuffler \<Rightarrow> bool" where
  "sh_stopped s \<longleftrightarrow>
     (sh_complete s < length (sh_cur s) \<and> sh_complete s < length (sh_tgt s) \<longrightarrow>
        \<not> settled (sh_cur s) (sh_tgt s) (sh_complete s))"

lemma sh_update_stopped: "sh_update_complete s = Some s' \<Longrightarrow> sh_stopped s'"
proof -
  assume "sh_update_complete s = Some s'"
  then have s': "s' = s\<lparr>sh_complete := sh_complete s + newly s\<rparr>" by (simp add: sh_update_complete_eq)
  have "sh_cur s' = sh_cur s" "sh_tgt s' = sh_tgt s" by (simp_all add: s' sh_cur_def sh_fifo_def sh_tgt_def)
  with newly_stops [of s] show ?thesis by (simp add: sh_stopped_def s')
qed

lemma sh_progress:
  assumes inv: "sh_inv s" and near: "sh_near s" and stop: "sh_stopped s"
    and t: "sh_complete s < length (sh_tgt s)" and stuck: "sh_open s \<Longrightarrow> sh_stuck s"
    and all: "set (drop (sh_complete s) (sh_tgt s)) \<subseteq> set (sh_cur s)"
    and low: "\<And>i. i < length (sh_cur s) \<Longrightarrow> i < length (sh_tgt s) \<Longrightarrow>
                count (mset (sh_tgt s)) (sh_tgt s ! i) \<le> count (mset (sh_cur s)) (sh_tgt s ! i)"
  shows False
proof -
  let ?C = "sh_cur s" and ?T = "sh_tgt s" and ?c = "sh_complete s"
  have eq: "take ?c ?C = take ?c ?T" and cC: "?c \<le> length ?C" using inv by (simp_all only: sh_inv_def)
  have "set (take ?c ?T) \<subseteq> set ?C" by (metis eq set_take_subset)
  with all have "set ?T \<subseteq> set ?C" by (metis append_take_drop_id le_sup_iff set_append)
  from stack_covers [OF this low] have sub: "mset ?T \<subseteq># mset ?C" by blast
  from size_mset_mono [OF this] have len: "length ?T \<le> length ?C" by simp
  then have op: "sh_open s" using inv t by (simp add: sh_open_def)
  note st = stuck [OF op] and reach = sh_near_reach [OF near op]
  have top: "last ?C = ?C ! (length ?C - 1)" using len t by (intro last_conv_nth) auto
  have same: "length ?C = length ?T"
  proof (rule ccontr)
    assume "length ?C \<noteq> length ?T"
    with len have longer: "length ?T < length ?C" by simp
    let ?A = "{i. ?c \<le> i \<and> i < length ?T \<and> ?T ! i = last ?C}"
    let ?B = "{i. ?c \<le> i \<and> i < length ?C \<and> ?C ! i = last ?C}"
    have "?A \<subseteq> ?B - {length ?C - 1}"
      using st longer by (auto simp: sh_stuck_def wants_top_def reach)
    moreover have "length ?C - 1 \<in> ?B" using t longer top by auto
    moreover have "finite ?B" by simp
    ultimately have "card ?A < card ?B"
      by (meson card_Diff1_less card_mono finite_Diff le_less_trans)
    then have "sh_extra s (last ?C)" by (simp add: sh_extra_def count_drop_card)
    with st show False by (simp add: sh_stuck_def)
  qed
  have "mset ?T = mset ?C"
    using sub same by (metis mset_subset_size nat_neq_iff size_mset subset_mset.le_imp_less_or_eq)
  then have cnt: "mset (drop ?c ?T) = mset (drop ?c ?C)"
    by (metis add_left_cancel append_take_drop_id eq mset_append)
  have c: "?c < length ?C" using t same by simp
  have "\<not> settled ?C ?T ?c" using stop t c by (simp add: sh_stopped_def)
  moreover have "settled ?C ?T ?c" if right: "?C ! ?c = ?T ! ?c"
  proof -
    have "drop ?c ?T = ?T ! ?c # drop (Suc ?c) ?T" "drop ?c ?C = ?C ! ?c # drop (Suc ?c) ?C"
      using t c by (simp_all add: Cons_nth_drop_Suc)
    with cnt right have "mset (drop (Suc ?c) ?T) = mset (drop (Suc ?c) ?C)" by simp
    then have "set (drop (Suc ?c) ?T) = set (drop (Suc ?c) ?C)" by (metis set_mset_mset)
    with right show ?thesis by (simp add: settled_def)
  qed
  ultimately have wrong: "?C ! ?c \<noteq> ?T ! ?c" by blast
  let ?A = "{i. ?c \<le> i \<and> i < length ?C \<and> ?C ! i = ?T ! ?c}"
  let ?B = "{i. ?c \<le> i \<and> i < length ?T \<and> ?T ! i = ?T ! ?c}"
  have "card ?A = card ?B" using arg_cong [OF cnt, of "\<lambda>m. count m (?T ! ?c)"]
    by (simp add: count_drop_card)
  moreover have "?c \<in> ?B" "?c \<notin> ?A" using t wrong by auto
  ultimately have "\<not> ?A \<subseteq> ?B" using card_subset_eq [of ?B ?A] by auto
  then obtain i where "?c \<le> i" "i < length ?C" "?C ! i = ?T ! ?c" "?T ! i \<noteq> ?T ! ?c" using same by auto
  then have "exchangeable s i ?c" using c t wrong same by (simp add: exchangeable_def reach)
  with st show False by (simp add: sh_stuck_def)
qed

text \<open>What the pushing operations do when everything is in reach.\<close>

lemma sh_copies_eq:
  "sh_copies xs v [k..<length xs] n idx =
     Some (n + count (mset (drop k xs)) v,
           case idx of Some j \<Rightarrow> Some j | None \<Rightarrow> map_option ((+) k) (position (\<lambda>x. x = v) (drop k xs)))"
proof (induction "length xs - k" arbitrary: k n idx)
  case 0
  then show ?case by (auto split: option.splits)
next
  case (Suc m)
  then have k: "k < length xs" by simp
  have "drop k xs = xs ! k # drop (Suc k) xs" using k by (simp add: Cons_nth_drop_Suc)
  moreover have "[k..<length xs] = k # [Suc k..<length xs]" using k by (simp add: upt_conv_Cons)
  moreover have "m = length xs - Suc k" using Suc by simp
  note IH = Suc.hyps(1) [OF this]
  ultimately show ?case
    using k by (auto simp: IH option.map_comp comp_def fun_eq_iff split: option.splits intro!: option.map_cong)
qed

lemma sh_find_dup_outcome:
  assumes C: "0 < length (sh_cur s)" and ps: "\<forall>p\<in>set ps. \<exists>i<length (sh_tgt s). fst (snd p) = sh_tgt s ! i"
    and T: "0 < length (sh_tgt s)"
  shows "(sh_find_dup s 0 ps = Some None \<and>
            (\<forall>p\<in>set ps. fst (snd p) \<in> set (sh_cur s) \<longrightarrow>
               count (mset (sh_tgt s)) (fst (snd p)) \<le> count (mset (sh_cur s)) (fst (snd p)))) \<or>
         (\<exists>d<length (sh_cur s). sh_find_dup s 0 ps = Some (Some d) \<and>
            count (mset (sh_cur s)) (sh_fifo s ! d) < count (mset (sh_tgt s)) (sh_fifo s ! d))"
  using ps
proof (induction ps)
  case (Cons p ps)
  obtain x v i where p: "p = (x, v, i)" by (cases p)
  have last_depth: "sh_to_current s 0 = Some (length (sh_cur s) - 1)" using C by (simp add: sh_positions)
  have "span_collect (0, length (sh_cur s) - 1 + 1) = [0..<length (sh_fifo s)]"
    using C by (simp add: span_collect_upt)
  moreover have "mset (sh_fifo s) = mset (sh_cur s)" "set (sh_fifo s) = set (sh_cur s)"
    by (simp_all add: sh_cur_def)
  ultimately have copies: "sh_copies (sh_fifo s) v (span_collect (0, length (sh_cur s) - 1 + 1)) 0 None =
      Some (count (mset (sh_cur s)) v, position (\<lambda>x. x = v) (sh_fifo s))"
    using sh_copies_eq [of "sh_fifo s" v 0 0 None] by (simp add: option.map_ident_strong)
  have tgt: "down_to_bottom (sh_target s) 0 = Some (sh_target s)" using T by (simp add: sh_positions)
  have req: "count_value v (sh_target s) = count (mset (sh_tgt s)) v"
    by (simp add: count_value_count sh_tgt_def)
  have run: "sh_find_dup s 0 (p # ps) = (case position (\<lambda>x. x = v) (sh_fifo s) of
      Some d \<Rightarrow> if count (mset (sh_cur s)) v < count (mset (sh_tgt s)) v then Some (Some d)
                else sh_find_dup s 0 ps
    | None \<Rightarrow> sh_find_dup s 0 ps)"
    by (cases "position (\<lambda>x. x = v) (sh_fifo s)")
      (simp_all add: p tgt last_depth copies req del: One_nat_def position_None)
  show ?case
  proof (cases "position (\<lambda>x. x = v) (sh_fifo s)")
    case None
    then have "v \<notin> set (sh_cur s)" by (auto simp: sh_cur_def)
    moreover have "sh_find_dup s 0 (p # ps) = sh_find_dup s 0 ps" using run unfolding None by (simp only: option.case)
    ultimately show ?thesis using Cons.IH Cons.prems unfolding p by auto
  next
    case (Some d)
    from position_SomeD [OF this] have d: "d < length (sh_cur s)" "sh_fifo s ! d = v" by simp_all
    have run': "sh_find_dup s 0 (p # ps) = (if count (mset (sh_cur s)) v < count (mset (sh_tgt s)) v
        then Some (Some d) else sh_find_dup s 0 ps)" using run unfolding Some by (simp only: option.case)
    show ?thesis
    proof (cases "count (mset (sh_cur s)) v < count (mset (sh_tgt s)) v")
      case True
      with run' d show ?thesis by auto
    next
      case False
      with run' Cons.IH Cons.prems show ?thesis unfolding p by (auto simp: not_less)
    qed
  qed
qed simp


text \<open>One iteration: the outcome of pushing, and the measure it decreases.\<close>

definition sh_grown :: "shuffler \<Rightarrow> shuffler \<Rightarrow> bool" where
  "sh_grown s s' \<longleftrightarrow> sh_moved s s' \<and> sh_near s' \<and>
     grow_measure (sh_cur s') (sh_tgt s') < grow_measure (sh_cur s) (sh_tgt s)"

lemma sh_grown_push:
  assumes inv: "sh_inv s" and near: "sh_near s" and to: "sh_to s s' (sh_cur s @ [v]) (sh_spilled s)"
    and v: "count (mset (sh_cur s)) v < count (mset (sh_tgt s)) v"
  shows "sh_grown s s'"
proof -
  have "sh_tgt s' = sh_tgt s" "sh_cur s' = sh_cur s @ [v]" "sh_spilled s' = sh_spilled s"
    "ts_start (sh_current s') = ts_start (sh_current s)" "sh_max_swap s' = sh_max_swap s"
    "sh_max_dup s' = sh_max_dup s"
    using to by (auto simp: sh_to_def sh_same_def sh_tgt_def)
  with near sh_moved_push [OF inv to] grow_push [OF v] show ?thesis
    by (simp add: sh_grown_def sh_near_def)
qed

lemma sh_dup_needed_outcome:
  assumes inv: "sh_inv s" and near: "sh_near s" and T: "0 < length (sh_tgt s)"
  shows "sh_tries sh_dup_needed s
           (\<forall>i. i < length (sh_cur s) \<longrightarrow> i < length (sh_tgt s) \<longrightarrow> sh_tgt s ! i \<in> set (sh_cur s) \<longrightarrow>
              count (mset (sh_tgt s)) (sh_tgt s ! i) \<le> count (mset (sh_cur s)) (sh_tgt s ! i))
           (sh_grown s)"
proof (cases "sh_cur s = []")
  case True
  then show ?thesis by (simp add: sh_tries_def sh_dup_needed_def sh_fifo_cur)
next
  case False
  then have C: "0 < length (sh_cur s)" by simp
  have bounds: "length (sh_cur s) \<le> sh_max_dup s + 1" "length (sh_cur s) < sh_max_swap s"
    using sh_near_length [OF near] by simp_all
  let ?ps = "pairs_from (sh_cur s) (sh_tgt s) 0"
  have run: "sh_dup_needed s = Option.bind (sh_find_dup s 0 ?ps) (\<lambda>r. case r of None \<Rightarrow> Some (False, s)
      | Some i \<Rightarrow> map_option (\<lambda>s. (True, s)) (sh_dup i s))"
  proof -
    have "min (sh_max_dup s) (length (sh_cur s) - 1) = length (sh_cur s) - 1" using bounds by simp
    moreover have "sh_current_to s (length (sh_cur s) - 1) = Some 0" using C by (simp add: sh_positions)
    moreover have "checked_sub (length (sh_fifo s)) 1 = Some (length (sh_cur s) - 1)" "sh_fifo s \<noteq> []"
      using C by (simp_all add: sh_fifo_cur(1) Suc_leI)
    ultimately show ?thesis
      by (simp add: sh_dup_needed_def sh_iter_pairwise_eq del: One_nat_def length_sh_cur)
  qed
  have ps: "\<forall>p\<in>set ?ps. \<exists>i<length (sh_tgt s). fst (snd p) = sh_tgt s ! i"
    by (auto simp: pairs_from_def)
  from sh_find_dup_outcome [OF C ps T] show ?thesis
  proof (elim disjE exE conjE)
    assume "sh_find_dup s 0 ?ps = Some None"
      and low: "\<forall>p\<in>set ?ps. fst (snd p) \<in> set (sh_cur s) \<longrightarrow>
        count (mset (sh_tgt s)) (fst (snd p)) \<le> count (mset (sh_cur s)) (fst (snd p))"
    then show ?thesis using run by (auto simp: sh_tries_def pairs_from_def)
  next
    fix d assume d: "d < length (sh_cur s)" "sh_find_dup s 0 ?ps = Some (Some d)"
      "count (mset (sh_cur s)) (sh_fifo s ! d) < count (mset (sh_tgt s)) (sh_fifo s ! d)"
    have "d \<le> sh_max_dup s" "d < 2 ^ 8" "length (sh_cur s) < max_stack_length"
      using d(1) bounds inv by (auto simp: sh_inv_def max_stack_length_def)
    from sh_dup_spec [OF sh_inv_ok [OF inv] d(1) this] obtain s' where s': "sh_dup d s = Some s'"
      "sh_to s s' (sh_cur s @ [sh_cur s ! (length (sh_cur s) - 1 - d)]) (sh_spilled s)" by blast
    have "sh_fifo s ! d = sh_cur s ! (length (sh_cur s) - 1 - d)"
      using d(1) by (simp add: sh_fifo_cur rev_nth)
    with sh_grown_push [OF inv near s'(2)] d(2,3) s'(1) run show ?thesis by (auto simp: sh_tries_def)
  qed
qed

lemma sh_unspill_first_outcome:
  assumes inv: "sh_inv s" and near: "sh_near s"
    and vs: "set vs \<subseteq> set (drop (sh_complete s) (sh_tgt s))" and n: "n = length (sh_fifo s)"
  shows "sh_tries (\<lambda>s. sh_unspill_first s n vs) s (set vs \<subseteq> set (sh_cur s)) (sh_grown s)"
  using vs
proof (induction vs)
  case Nil
  show ?case by (simp add: sh_tries_def)
next
  case (Cons v vs)
  have window: "above_depth (sh_fifo s) n = Some (sh_fifo s)" by (simp add: above_depth_def n)
  have set_eq: "set (sh_fifo s) = set (sh_cur s)" by (simp add: sh_cur_def)
  show ?case
  proof (cases "v \<in> set (sh_cur s)")
    case True
    with Cons window set_eq show ?thesis by (auto simp: sh_tries_def)
  next
    case False
    have "v \<in> set (drop (sh_complete s) (sh_tgt s))" using Cons.prems by simp
    moreover have "set (drop (sh_complete s) (sh_tgt s)) \<subseteq>
        set (drop (sh_complete s) (sh_cur s)) \<union> set (sh_spilled s)" using inv by (simp only: sh_inv_def)
    moreover have "v \<notin> set (drop (sh_complete s) (sh_cur s))" using False by (metis in_set_dropD)
    ultimately have sp: "v \<in> set (sh_spilled s)" by blast
    have vT: "v \<in> set (sh_tgt s)" using Cons.prems by (metis in_set_dropD list.set_intros(1) subsetD)
    have "length (sh_cur s) < max_stack_length"
      using sh_near_length [OF near] inv by (auto simp: sh_inv_def max_stack_length_def)
    from sh_unspill_spec [OF sh_inv_ok [OF inv] sp this] near obtain s' where
      s': "sh_unspill v s = Some s'" "sh_to s s' (sh_cur s @ [v]) (sh_spilled s)"
      by (auto simp: sh_near_def)
    have "count (mset (sh_cur s)) v < count (mset (sh_tgt s)) v"
      using False vT by (metis count_eq_zero_iff count_greater_zero_iff set_mset_mset)
    from sh_grown_push [OF inv near s'(2) this] s'(1) False window set_eq show ?thesis
      by (auto simp: sh_tries_def)
  qed
qed

lemma sh_unspill_needed_outcome:
  assumes inv: "sh_inv s" and near: "sh_near s" and t: "sh_complete s < length (sh_tgt s)"
  shows "sh_tries sh_unspill_needed s (set (drop (sh_complete s) (sh_tgt s)) \<subseteq> set (sh_cur s)) (sh_grown s)"
proof -
  have n: "min (sh_max_dup s + 1) (length (sh_fifo s)) = length (sh_fifo s)"
    using sh_near_length [OF near] by simp
  have "sh_unspill_needed s = sh_unspill_first s (length (sh_fifo s)) (drop (sh_complete s) (sh_tgt s))"
    using t by (simp add: sh_unspill_needed_def sh_positions Let_def n [unfolded sh_fifo_cur] del: One_nat_def)
      (simp add: n [simplified] sh_fifo_cur)
  with sh_unspill_first_outcome [OF inv near order_refl refl] show ?thesis
    by (simp add: sh_tries_def)
qed


lemma sh_grown_rearranged:
  assumes op: "sh_open s" and near: "sh_near s" and r: "sh_rearranged s s'"
  shows "sh_grown s s'"
proof -
  let ?C = "sh_cur s" and ?T = "sh_tgt s" and ?c = "sh_complete s" and ?n = "length (sh_cur s)"
  have m: "sh_moved s s'" using sh_rearranged_moved [OF op r] .
  have C: "?C \<noteq> []" "?c < ?n" and inv: "sh_inv s" using op by (auto simp: sh_open_def)
  have eq: "take ?c ?C = take ?c ?T" using inv by (simp only: sh_inv_def)
  have same: "sh_tgt s' = ?T" "sh_max_swap s' = sh_max_swap s" "sh_max_dup s' = sh_max_dup s"
    "ts_start (sh_current s') = ts_start (sh_current s)"
    using m by (simp_all add: sh_moved_def sh_same_def sh_tgt_def)
  have "grow_measure (sh_cur s') ?T < grow_measure ?C ?T \<and>
        extra_count (sh_cur s') ?T \<le> extra_count ?C ?T \<and> sh_spilled s' = sh_spilled s"
    using r unfolding sh_rearranged_def
  proof (elim disjE exE conjE)
    assume to: "sh_to s s' (butlast ?C) (sh_spilled s)" and free: "last ?C \<notin> set (drop ?c ?T)"
    have "last ?C \<in> set (drop ?c ?C)" using C(2) by (simp add: drop_butlast_last)
    with free have "count (mset (drop ?c ?T)) (last ?C) < count (mset (drop ?c ?C)) (last ?C)"
      by (metis count_eq_zero_iff count_greater_zero_iff set_mset_mset)
    with grow_pop [OF C(1), of ?T] count_drop [OF eq [symmetric], of "last ?C"] to show ?thesis
      by (simp add: sh_to_def)
  next
    assume to: "sh_to s s' (butlast ?C) (sh_spilled s)" and ex: "sh_extra s (last ?C)"
    with grow_pop [OF C(1), of ?T] count_drop [OF eq [symmetric], of "last ?C"] to show ?thesis
      by (simp add: sh_to_def sh_extra_def)
  next
    fix i assume w: "wants_top s i" and to: "sh_to s s' (list_swap (?n - 1) i ?C) (sh_spilled s)"
    have "i \<noteq> ?n - 1" using w C by (auto simp: wants_top_def last_conv_nth)
    with w have i: "i < ?n - 1" "i < ?n" by (auto simp: wants_top_def)
    have "grow_measure (list_swap (?n - 1) i ?C) ?T < grow_measure ?C ?T"
      using w i by (intro grow_swap) (auto simp: wants_top_def)
    with counts_swap(2) [of "?n - 1" ?C i ?T] i C to show ?thesis by (simp add: sh_to_def)
  next
    fix src dst assume e: "exchangeable s src dst"
      and to: "sh_to s s' (list_swap (?n - 1) dst (list_swap (?n - 1) src ?C)) (sh_spilled s)"
    have "grow_measure (list_swap (?n - 1) dst (list_swap (?n - 1) src ?C)) ?T < grow_measure ?C ?T"
      using e by (intro grow_exchange) (auto simp: exchangeable_def)
    moreover have "extra_count (list_swap (?n - 1) dst (list_swap (?n - 1) src ?C)) ?T = extra_count ?C ?T"
      using e C by (simp add: counts_swap exchangeable_def)
    ultimately show ?thesis using to by (simp add: sh_to_def)
  qed
  with m near same show ?thesis by (auto simp: sh_grown_def sh_near_def)
qed

lemma sh_grown_update:
  assumes "sh_grown s s1" "sh_update_complete s1 = Some s2"
  shows "sh_grown s s2 \<and> sh_stopped s2"
proof -
  from assms(1) have inv: "sh_inv s1" by (simp add: sh_grown_def sh_moved_def)
  from sh_update_keeps [OF inv assms(2)] have k: "sh_inv s2" "sh_same s1 s2" "sh_cur s2 = sh_cur s1"
    "sh_spilled s2 = sh_spilled s1" by simp_all
  moreover have "sh_tgt s2 = sh_tgt s1" "ts_start (sh_current s2) = ts_start (sh_current s1)"
    "sh_max_swap s2 = sh_max_swap s1" "sh_max_dup s2 = sh_max_dup s1"
    using k(2) by (simp_all add: sh_same_def sh_tgt_def)
  moreover have "sh_moved s s2" using assms(1) k by (auto simp: sh_grown_def sh_moved_def intro: sh_same_trans)
  ultimately show ?thesis
    using assms(1) sh_update_stopped [OF assms(2)] by (simp add: sh_grown_def sh_near_def)
qed

lemma sh_grow_step_ok:
  assumes inv: "sh_inv s" and near: "sh_near s" and stop: "sh_stopped s"
    and t: "sh_complete s < length (sh_tgt s)"
  shows "\<exists>s'. sh_grow_step s = Some s' \<and> sh_grown s s' \<and> sh_stopped s'"
proof -
  have T: "0 < length (sh_tgt s)" using t by linarith
  let ?alts = "sh_or sh_pop_unneeded (sh_or sh_swap_to_correct_position (sh_or sh_exchange_via_top sh_pop_extra))"
  let ?push = "sh_or sh_unspill_unavailable_horizon (sh_or sh_dup_needed sh_unspill_needed)"
  have push_ok: "\<exists>s1. ?push s = Some (True, s1) \<and> sh_grown s s1" if stuck: "sh_open s \<Longrightarrow> sh_stuck s"
  proof -
    have hor: "sh_tries sh_unspill_unavailable_horizon s True (sh_grown s)"
      using sh_near_length [OF near] by (simp add: sh_tries_def sh_unspill_unavailable_horizon_def)
    note none = sh_or_tries [OF hor sh_or_tries [OF sh_dup_needed_outcome [OF inv near T]
          sh_unspill_needed_outcome [OF inv near t]]]
    have "\<not> (\<forall>i. i < length (sh_cur s) \<longrightarrow> i < length (sh_tgt s) \<longrightarrow> sh_tgt s ! i \<in> set (sh_cur s) \<longrightarrow>
              count (mset (sh_tgt s)) (sh_tgt s ! i) \<le> count (mset (sh_cur s)) (sh_tgt s ! i)) \<or>
          \<not> set (drop (sh_complete s) (sh_tgt s)) \<subseteq> set (sh_cur s)"
    proof (rule ccontr)
      assume "\<not> ?thesis"
      then have low: "\<And>i. i < length (sh_cur s) \<Longrightarrow> i < length (sh_tgt s) \<Longrightarrow> sh_tgt s ! i \<in> set (sh_cur s) \<Longrightarrow>
              count (mset (sh_tgt s)) (sh_tgt s ! i) \<le> count (mset (sh_cur s)) (sh_tgt s ! i)"
        and all: "set (drop (sh_complete s) (sh_tgt s)) \<subseteq> set (sh_cur s)" by auto
      have "set (take (sh_complete s) (sh_tgt s)) \<subseteq> set (sh_cur s)"
        using inv unfolding sh_inv_def by (metis set_take_subset)
      with all have "set (sh_tgt s) \<subseteq> set (sh_cur s)" by (metis append_take_drop_id le_sup_iff set_append)
      with low have "\<And>i. i < length (sh_cur s) \<Longrightarrow> i < length (sh_tgt s) \<Longrightarrow>
              count (mset (sh_tgt s)) (sh_tgt s ! i) \<le> count (mset (sh_cur s)) (sh_tgt s ! i)"
        by (meson nth_mem subsetD)
      from sh_progress [OF inv near stop t stuck all this] show False by blast
    qed
    with none show ?thesis unfolding sh_tries_def by blast
  qed
  have "\<exists>s1. (do {
       (stepped, s) \<leftarrow> (if length (sh_fifo s) > sh_complete s then ?alts s else Some (False, s));
       (if stepped then Some s
        else do {
          can_push \<leftarrow> sh_can_push s;
          if can_push then do { (pushed, s) \<leftarrow> ?push s; rust_assert pushed; Some s }
          else sh_spill_top s })}) = Some s1 \<and> sh_grown s s1"
  proof -
    have can: "sh_can_push s = Some True" using sh_near_length [OF near] by (simp add: sh_can_push_def)
    show ?thesis
    proof (cases "sh_open s")
      case True
      then have c: "sh_complete s < length (sh_fifo s)" by (simp add: sh_open_def)
      from sh_grow_alternatives [OF True t] show ?thesis
        unfolding sh_tries_def
      proof (elim disjE exE conjE)
        assume a: "?alts s = Some (False, s)" and "sh_stuck s"
        with push_ok obtain s1 where "?push s = Some (True, s1)" "sh_grown s s1" by blast
        with a c can show ?thesis by simp
      next
        fix s' assume a: "?alts s = Some (True, s')" and r: "sh_rearranged s s'"
        with c sh_grown_rearranged [OF True near r] show ?thesis by simp
      qed
    next
      case False
      with inv have "\<not> sh_complete s < length (sh_fifo s)" by (simp add: sh_open_def)
      moreover from False push_ok obtain s1 where "?push s = Some (True, s1)" "sh_grown s s1" by blast
      ultimately show ?thesis using can by simp
    qed
  qed
  then obtain s1 where s1: "(do {
       (stepped, s) \<leftarrow> (if length (sh_fifo s) > sh_complete s then ?alts s else Some (False, s));
       (if stepped then Some s
        else do {
          can_push \<leftarrow> sh_can_push s;
          if can_push then do { (pushed, s) \<leftarrow> ?push s; rust_assert pushed; Some s }
          else sh_spill_top s })}) = Some s1" "sh_grown s s1" by blast
  have "sh_grow_step s = sh_update_complete s1"
    using s1(1) unfolding sh_grow_step_def by (auto simp: bind_eq_Some_conv split: prod.splits)
  with sh_grown_update [OF s1(2)] sh_update_complete_eq [of s1] show ?thesis by auto
qed

lemma sh_grow_loop_ok:
  "sh_inv s \<Longrightarrow> sh_near s \<Longrightarrow> sh_stopped s \<Longrightarrow> grow_measure (sh_cur s) (sh_tgt s) \<le> ll_left l \<Longrightarrow>
     ll_max l < 2 ^ 32 \<Longrightarrow> \<exists>s'. sh_grow_loop l s = Some s'"
proof (induction "grow_measure (sh_cur s) (sh_tgt s)" arbitrary: s l rule: less_induct)
  case less
  show ?case
  proof (cases "sh_complete s < length (sh_tgt s)")
    case False
    then show ?thesis by (subst sh_grow_loop.simps) simp
  next
    case True
    from sh_grow_step_ok [OF less.prems(1-3) True] obtain t where t: "sh_grow_step s = Some t"
      "sh_grown s t" "sh_stopped t" by blast
    then have t': "sh_inv t" "sh_near t"
      and dec: "grow_measure (sh_cur t) (sh_tgt t) < grow_measure (sh_cur s) (sh_tgt s)"
      by (simp_all add: sh_grown_def sh_moved_def)
    have left: "0 < ll_left l" "grow_measure (sh_cur t) (sh_tgt t) \<le> ll_left l - 1"
      using dec less.prems(4) by linarith+
    from ll_tick_left [OF left(1) less.prems(5)] obtain l' where
      l': "ll_tick l = Some l'" "ll_left l' = ll_left l - 1" "ll_max l' = ll_max l" by blast
    have "sh_grow_loop l s = sh_grow_loop l' t"
      using True t(1) l'(1) by (subst sh_grow_loop.simps) simp
    with less.hyps [OF dec t' t(3), of l'] left(2) l' less.prems(5) show ?thesis by simp
  qed
qed

text \<open>
  Total correctness when the stack and the target together stay below the swap and dup depths:
  the shuffler returns, without a panic and within the loop limit.
\<close>

lemma sh_run_returns:
  assumes ready: "sh_ready config current target"
    and near: "length (ts_fifo current) + length target < sc_max_swap_depth config"
      "length (ts_fifo current) + length target \<le> sc_max_dup_depth config + 1"
  shows "\<exists>t. sh_run config current target = Some t"
proof -
  let ?s = "sh_start config current target"
  have inv: "sh_inv ?s" using sh_start_inv [OF ready] by simp
  have C: "sh_cur ?s = rev (ts_fifo current)" "sh_tgt ?s = rev target" "sh_complete ?s = 0"
    "sh_max_swap ?s = sc_max_swap_depth config" "sh_max_dup ?s = sc_max_dup_depth config"
    "sh_spilled ?s = ts_spilled current" "sh_current ?s = current"
    by (simp_all add: sh_start_def sh_cur_def sh_tgt_def sh_fifo_def sh_spilled_def)
  have ex: "extra_count (sh_cur ?s) (sh_tgt ?s) \<le> length (sh_cur ?s)"
    unfolding extra_count_def by (metis diff_subset_eq_self size_mset size_mset_mono)
  have near0: "sh_near ?s" using near ready ex by (auto simp: sh_near_def C sh_ready_def)
  obtain s0 where s0: "sh_update_complete ?s = Some s0" by (simp add: sh_update_complete_eq)
  from sh_update_keeps [OF inv s0] have k: "sh_inv s0" "sh_same ?s s0" "sh_cur s0 = sh_cur ?s"
    "sh_spilled s0 = sh_spilled ?s" by simp_all
  then have same: "sh_tgt s0 = sh_tgt ?s" "sh_max_swap s0 = sh_max_swap ?s" "sh_max_dup s0 = sh_max_dup ?s"
    "ts_start (sh_current s0) = ts_start (sh_current ?s)" by (simp_all add: sh_same_def sh_tgt_def)
  have near1: "sh_near s0" using near0 k same by (simp add: sh_near_def)
  have le: "sh_complete s0 \<le> length (sh_cur s0)" using k(1) by (simp only: sh_inv_def)
  have "\<not> sh_max_swap s0 + 1 < length (sh_cur s0) - sh_complete s0"
    using sh_near_length [OF near1] by linarith
  with le have shrink: "sh_shrink_loop (ll_with_max sh_limit) s0 = Some s0"
    by (subst sh_shrink_loop.simps) (simp add: sh_shrink_needed_def)
  have "sh_max_swap s0 < 256" using k(1) by (simp add: sh_inv_def)
  then have "grow_measure (sh_cur s0) (sh_tgt s0) \<le> ll_left (ll_with_max sh_limit)"
    using grow_measure_bound [of "sh_cur s0" "sh_tgt s0"] near
    by (simp add: ll_left_def ll_with_max_def sh_limit_def k(3) same C)
  from sh_grow_loop_ok [OF k(1) near1 sh_update_stopped [OF s0] this] obtain s2 where
    s2: "sh_grow_loop (ll_with_max sh_limit) s0 = Some s2" by (auto simp: ll_with_max_def sh_limit_def)
  from sh_grow_loop_moved [OF k(1) s2] k(1,2) have
    "sh_moved ?s s2" "sh_complete s2 = length (sh_tgt s2)"
    by (auto simp: sh_moved_def intro: sh_same_trans)
  from sh_finish [OF this] obtain s3 where "sh_cleanup s2 = Some s3" by blast
  with s0 shrink s2 show ?thesis by (simp add: sh_run_start)
qed

subsection \<open>Properties\<close>

text \<open>
  C1: the stack shuffler is sound. Whenever \<open>run\<close> returns for a start stack that
  holds (or has spilled) every value the target needs, the stack it leaves is exactly the target,
  the operations it emitted are valid for the configured depths, and replaying them on a machine
  gives the values of the target with every spilled value in its slot and no other slot changed.
\<close>

theorem shuffle_replays:
  assumes ready: "sh_ready config current target" and run: "sh_run config current target = Some t"
    and sim: "ts_sim M val st0 current"
  shows "ts_fifo t = target \<and>
    (\<exists>new. ts_ops t = ts_ops current @ new \<and> list_all (so_is_valid config) new) \<and>
    (\<exists>m. m_exec M (ts_ops t) st0 = Some (map val target, m) \<and>
         (\<forall>i<length (ts_spilled t). m (ts_start t + i) = val (ts_spilled t ! i)) \<and>
         (\<forall>a. a \<notin> slots_of t \<longrightarrow> m a = snd st0 a))"
proof -
  from sh_run_result [OF ready run] have moves: "ts_fifo t = target"
    "ts_moves (sc_max_swap_depth config) (sc_max_dup_depth config) current t" by simp_all
  have "ts_inv current" using ready by (simp add: sh_ready_def)
  with ts_moves_valid [OF moves(2)] ts_moves_sim [OF moves(2) sim] moves(1) show ?thesis
    by (auto simp: ts_sim_def)
qed

text \<open>
  C6: the shuffler terminates without panicking when the two stacks together are
  within reach of the swaps and dups: its loops stay within the limit of iterations, and no value
  is ever out of reach.
\<close>

theorem shuffle_returns:
  assumes "sh_ready config current target"
    and "length (ts_fifo current) + length target < sc_max_swap_depth config"
    and "length (ts_fifo current) + length target \<le> sc_max_dup_depth config + 1"
  shows "\<exists>t. sh_run config current target = Some t"
  using assms by (rule sh_run_returns)

text \<open>The depths of the EVM, and a start stack of three values.\<close>

definition evm_config :: schedule_config where
  "evm_config = \<lparr>sc_max_swap_depth = 16, sc_max_dup_depth = 15, sc_max_exchange_range = 0, sc_exchange_cost = 9\<rparr>"

lemma sample_start:
  obtains t where "ts_sim M val (map val [1, 2, 3], mem) t" "ts_fifo t = [1, 2, 3]" "sh_ready evm_config t [3, 1, 3]"
proof -
  obtain s where s: "es_inv s" "es_fifo s = [1, 2, 3]"
    using es_from_fifo_spec [of "[1, 2, 3]"] by (auto simp: max_stack_length_def)
  let ?t = "ts_new_from_evm 0 s"
  have t: "ts_fifo ?t = [1, 2, 3]" "ts_spilled ?t = []" "ts_start ?t = 0"
    using s by (simp_all add: ts_fifo_def ts_new_from_evm_def)
  have "ts_sim M val (map val [1, 2, 3], mem) ?t" using s by (intro ts_sim_start) simp_all
  moreover from ts_sim_inv [OF this] t have "sh_ready evm_config ?t [3, 1, 3]"
    by (auto simp: sh_ready_def evm_config_def config_u8_def idx_limit_def)
  ultimately show ?thesis using that t(1) by blast
qed

theorem shuffle_returns_witness:
  "\<exists>c t. ts_fifo c = [1, 2, 3] \<and> sh_run evm_config c [3, 1, 3] = Some t"
proof -
  obtain c :: tracked_stack where c: "ts_fifo c = [1, 2, 3]" "sh_ready evm_config c [3, 1, 3]"
    using sample_start [of undefined "\<lambda>n. n" undefined] by metis
  with shuffle_returns [OF c(2)] show ?thesis by (auto simp: evm_config_def)
qed

theorem shuffle_replays_witness:
  "\<exists>c t m. ts_fifo c = [1, 2, 3] \<and> sh_run evm_config c [3, 1, 3] = Some t \<and> ts_fifo t = [3, 1, 3] \<and>
     m_exec sub_meaning (ts_ops t) ([10, 20, 30 :: int], \<lambda>_. 0) = Some ([30, 10, 30], m)"
proof -
  obtain c where c: "ts_sim sub_meaning ((!) [0, 10, 20, 30]) (map ((!) [0, 10, 20, 30]) [1, 2, 3], \<lambda>_. 0) c"
    "ts_fifo c = [1, 2, 3]" "sh_ready evm_config c [3, 1, 3]"
    by (rule sample_start)
  moreover obtain t where "sh_run evm_config c [3, 1, 3] = Some t"
    using sh_run_returns [OF c(3)] c(2) by (auto simp: evm_config_def)
  ultimately show ?thesis using shuffle_replays [OF c(3) _ c(1)] by (auto simp: numeral_3_eq_3 numeral_2_eq_2)
qed

end
