(* ===== verification/Greedy_Scheduler.thy ===== *)
theory Greedy_Scheduler
  imports Permute Shuffler
begin

text \<open>
  Scheduling one operation
  (\<open>plankc/sir/crates/stack-scheduling/src/greedy_intra_op_scheduler/mod.rs\<close>): the operands are brought
  to the top of the stack by swaps, dups, spills and loads, and the operation is emitted. The last
  uses of values that are on the stack are consumed, all other operands are copied.
\<close>

subsection \<open>The operand preparer\<close>

definition schedule_max_steps :: nat where
  "schedule_max_steps = 100000"

definition permute_paths_budget :: nat where
  "permute_paths_budget = 100"

definition only_contains_unique :: "nat list \<Rightarrow> bool" where
  "only_contains_unique vs = list_all (\<lambda>i. vs ! i \<notin> set (drop (i + 1) vs)) [0..<length vs]"

record preparer =
  gp_head :: nat
  gp_stack :: tracked_stack
  gp_to_preserve :: "nat list"
  gp_to_push :: "nat list"

text \<open>The fields that do not change: the configuration, the operands wanted and the last uses.\<close>

record prep_task =
  pt_config :: schedule_config
  pt_target :: "nat list"
  pt_last_uses :: "nat list"

text \<open>\<open>Ok\<close> with a status, or the error that sends the caller back to \<open>progress\<close>.\<close>

datatype prep_status = PrepComplete | PrepNotDone | PrepGoBack

abbreviation gp_fifo :: "preparer \<Rightarrow> nat list" where
  "gp_fifo p \<equiv> ts_fifo (gp_stack p)"

text \<open>\<open>Vec::swap_remove\<close>.\<close>

definition swap_remove :: "nat \<Rightarrow> 'a list \<Rightarrow> 'a list" where
  "swap_remove i xs = (if i = length xs - 1 then butlast xs else (butlast xs)[i := last xs])"

definition remove_at :: "nat \<Rightarrow> 'a list \<Rightarrow> 'a list" where
  "remove_at i xs = take i xs @ drop (i + 1) xs"

definition gp_is_complete :: "prep_task \<Rightarrow> preparer \<Rightarrow> bool" where
  "gp_is_complete k p \<longleftrightarrow> gp_head p = length (pt_target k) \<and>
     list_all (\<lambda>(x, y). x = y) (zip (gp_fifo p) (pt_target k))"

definition gp_spill_top :: "prep_task \<Rightarrow> preparer \<Rightarrow> preparer option" where
  "gp_spill_top k p = do {
     item \<leftarrow> es_top (ts_inner (gp_stack p));
     spilled \<leftarrow> ts_get_spilled (gp_stack p) item;
     stack \<leftarrow> (case spilled of
                Some _ \<Rightarrow> ts_pop (gp_stack p)
              | None \<Rightarrow> map_option snd (ts_spill_top (gp_stack p)));
     let p = p\<lparr>gp_stack := stack\<rparr>;
     let (shrinking_tail, p) =
       (if gp_head p > 0 \<and> item \<in> set (pt_target k) then
          (case position (\<lambda>v. v = item) (gp_to_preserve p) of
             Some pi \<Rightarrow> (True, p\<lparr>gp_to_preserve := swap_remove pi (gp_to_preserve p)\<rparr>)
           | None \<Rightarrow> (False, p\<lparr>gp_to_push := gp_to_push p @ [item], gp_head := gp_head p - 1\<rparr>))
        else (True, p));
     if shrinking_tail \<and> gp_head p > 0 then do {
       promoted \<leftarrow> slice_get (gp_fifo p) (gp_head p - 1);
       Some (if promoted \<notin> set (pt_last_uses k) \<and> promoted \<in> set (pt_target k)
             then p\<lparr>gp_to_preserve := gp_to_preserve p @ [promoted]\<rparr> else p)
     } else Some p
   }"

primrec gp_spill_tops :: "prep_task \<Rightarrow> nat \<Rightarrow> preparer \<Rightarrow> preparer option" where
  "gp_spill_tops k 0 p = Some p"
| "gp_spill_tops k (Suc n) p = Option.bind (gp_spill_top k p) (gp_spill_tops k n)"

text \<open>Whether the swap was made; if not, everything above was spilled.\<close>

definition gp_try_swap :: "prep_task \<Rightarrow> nat \<Rightarrow> preparer \<Rightarrow> (bool \<times> preparer) option" where
  "gp_try_swap k depth p =
     (if depth < 2 ^ 8 \<and> depth \<le> sc_max_swap_depth (pt_config k) then do {
        item \<leftarrow> es_top (ts_inner (gp_stack p));
        let p = (if gp_head p \<le> depth then
                   (case position (\<lambda>v. v = item) (gp_to_preserve p) of
                      Some pi \<Rightarrow> p\<lparr>gp_to_preserve := swap_remove pi (gp_to_preserve p)\<rparr>
                    | None \<Rightarrow> p)
                 else p);
        stack \<leftarrow> ts_swap depth (gp_stack p);
        Some (True, p\<lparr>gp_stack := stack\<rparr>)
      } else do {
        p \<leftarrow> gp_spill_tops k (depth + 1) p;
        Some (False, p)
      })"

definition gp_grow_head :: "preparer \<Rightarrow> preparer option" where
  "gp_grow_head p = do {
     rust_assert (gp_head p + 1 < 2 ^ 16);
     Some (p\<lparr>gp_head := gp_head p + 1\<rparr>)
   }"

definition gp_try_push :: "prep_task \<Rightarrow> nat \<Rightarrow> preparer \<Rightarrow> (bool \<times> preparer) option" where
  "gp_try_push k item p =
     (let max_dup = sc_max_dup_depth (pt_config k); found = es_find_first item (ts_inner (gp_stack p)) in
      (case (case found of Some depth \<Rightarrow> if depth \<le> max_dup then Some depth else None | None \<Rightarrow> None) of
         Some pos \<Rightarrow> do {
           stack \<leftarrow> ts_dup (pos mod 2 ^ 8) (gp_stack p);
           p \<leftarrow> gp_grow_head (p\<lparr>gp_stack := stack\<rparr>);
           Some (True, p)
         }
       | None \<Rightarrow> do {
           spilled \<leftarrow> ts_get_spilled (gp_stack p) item;
           (case spilled of
              Some alloc \<Rightarrow> do {
                stack \<leftarrow> ts_load alloc (gp_stack p);
                p \<leftarrow> gp_grow_head (p\<lparr>gp_stack := stack\<rparr>);
                Some (True, p)
              }
            | None \<Rightarrow> do {
                depth \<leftarrow> found;
                total_to_spill \<leftarrow> checked_sub depth max_dup;
                p \<leftarrow> gp_spill_tops k total_to_spill p;
                stack \<leftarrow> ts_dup max_dup (gp_stack p);
                p \<leftarrow> gp_grow_head (p\<lparr>gp_stack := stack\<rparr>);
                Some (False, p)
              })
         }))"

text \<open>The key of a value to push: where the target still lacks it, searched from the end.\<close>

fun lacking_at :: "prep_task \<Rightarrow> preparer \<Rightarrow> nat \<Rightarrow> nat \<Rightarrow> nat list \<Rightarrow> nat option" where
  "lacking_at k p depth_delta item [] = None"
| "lacking_at k p depth_delta item (i # is) = do {
     want \<leftarrow> slice_get (pt_target k) i;
     missing \<leftarrow> (if depth_delta \<le> i then map_option (\<lambda>v. v \<noteq> want) (slice_get (gp_fifo p) (i - depth_delta))
                else Some True);
     if missing \<and> want = item then Some i else lacking_at k p depth_delta item is
   }"

definition push_key :: "prep_task \<Rightarrow> preparer \<Rightarrow> nat \<Rightarrow> nat option" where
  "push_key k p item =
     (if item \<in> set (gp_to_preserve p) then Some (length (pt_target k))
      else do {
        depth_delta \<leftarrow> checked_sub (length (pt_target k)) (gp_head p);
        lacking_at k p depth_delta item (rev [0..<length (pt_target k)])
      })"

text \<open>\<open>Iterator::max_by_key\<close>: the last index with the largest key.\<close>

fun max_key_from :: "('a \<Rightarrow> nat option) \<Rightarrow> nat \<Rightarrow> 'a list \<Rightarrow> nat \<times> nat \<Rightarrow> (nat \<times> nat) option" where
  "max_key_from key i [] best = Some best"
| "max_key_from key i (x # xs) best = do {
     n \<leftarrow> key x;
     max_key_from key (i + 1) xs (if snd best \<le> n then (i, n) else best)
   }"

definition max_by_key :: "('a \<Rightarrow> nat option) \<Rightarrow> 'a list \<Rightarrow> nat option" where
  "max_by_key key xs =
     (case xs of
        [] \<Rightarrow> None
      | x # xs \<Rightarrow> do { n \<leftarrow> key x; map_option fst (max_key_from key 1 xs (0, n)) })"

definition gp_push_next_single_best :: "prep_task \<Rightarrow> preparer \<Rightarrow> (bool \<times> preparer) option" where
  "gp_push_next_single_best k p = do {
     i \<leftarrow> max_by_key (push_key k p) (gp_to_push p);
     item \<leftarrow> slice_get (gp_to_push p) i;
     gp_try_push k item (p\<lparr>gp_to_push := swap_remove i (gp_to_push p)\<rparr>)
   }"

fun gp_swap_all :: "prep_task \<Rightarrow> nat list \<Rightarrow> preparer \<Rightarrow> (bool \<times> preparer) option" where
  "gp_swap_all k [] p = Some (True, p)"
| "gp_swap_all k (d # ds) p = do {
     (ok, p) \<leftarrow> gp_try_swap k d p;
     if ok then gp_swap_all k ds p else Some (False, p)
   }"

definition gp_best_permute :: "prep_task \<Rightarrow> preparer \<Rightarrow> bool \<Rightarrow> nat list option" where
  "gp_best_permute k p allow_swap_top =
     best_permute (gp_to_preserve p) (pt_last_uses k) (gp_head p) (gp_fifo p) (pt_target k)
       permute_paths_budget allow_swap_top"

definition gp_swap_next_best :: "prep_task \<Rightarrow> preparer \<Rightarrow> (bool option \<times> preparer) option" where
  "gp_swap_next_best k p = do {
     swaps \<leftarrow> gp_best_permute k p False;
     if swaps = [] then Some (Some False, p)
     else do {
       (ok, p) \<leftarrow> gp_swap_all k swaps p;
       Some (if ok then Some True else None, p)
     }
   }"

definition gp_permute_until_complete :: "prep_task \<Rightarrow> preparer \<Rightarrow> (prep_status \<times> preparer) option" where
  "gp_permute_until_complete k p = do {
     rust_assert (gp_head p = length (pt_target k));
     swaps \<leftarrow> gp_best_permute k p True;
     (ok, p) \<leftarrow> gp_swap_all k swaps p;
     Some (if ok then PrepComplete else PrepGoBack, p)
   }"

definition gp_progress :: "prep_task \<Rightarrow> preparer \<Rightarrow> (prep_status \<times> preparer) option" where
  "gp_progress k p = do {
     rust_assert (gp_head p \<le> length (gp_fifo p));
     if gp_is_complete k p then Some (PrepComplete, p)
     else do {
       top_wrong \<leftarrow> (if gp_head p > 0 then do {
           have' \<leftarrow> slice_get (gp_fifo p) 0;
           i \<leftarrow> checked_sub (length (pt_target k)) (gp_head p);
           want \<leftarrow> slice_get (pt_target k) i;
           Some (have' \<noteq> want)
         } else Some False);
       (permuted, p) \<leftarrow> (if top_wrong then gp_swap_next_best k p else Some (Some False, p));
       (case permuted of
          None \<Rightarrow> Some (PrepGoBack, p)
        | Some True \<Rightarrow> Some (PrepNotDone, p)
        | Some False \<Rightarrow> do {
            left \<leftarrow> checked_sub (length (pt_target k)) (gp_head p);
            if left = 0 then gp_permute_until_complete k p
            else do {
              (ok, p) \<leftarrow> gp_push_next_single_best k p;
              Some (if ok then PrepNotDone else PrepGoBack, p)
            }
          })
     }
   }"

definition drop_last_uses :: "nat list \<Rightarrow> nat list \<Rightarrow> nat list option" where
  "drop_last_uses last_uses to_push =
     fold_opt (\<lambda>v vs. do { i \<leftarrow> position (\<lambda>w. w = v) vs; Some (remove_at i vs) }) last_uses to_push"

definition gp_new :: "nat \<Rightarrow> prep_task \<Rightarrow> tracked_stack \<Rightarrow> preparer option" where
  "gp_new head k stack = do {
     values \<leftarrow> slice_range (ts_fifo stack) 0 head;
     let to_preserve = filter (\<lambda>v. v \<in> set (pt_target k) \<and> v \<notin> set (pt_last_uses k)) values;
     to_push \<leftarrow> drop_last_uses (pt_last_uses k) (pt_target k);
     Some \<lparr>gp_head = head, gp_stack = stack, gp_to_preserve = to_preserve, gp_to_push = rev to_push\<rparr>
   }"

text \<open>The steps of \<open>greedy_schedule_op\<close>; running out of them is the panic at its end.\<close>

primrec prepare_loop :: "nat \<Rightarrow> prep_task \<Rightarrow> preparer \<Rightarrow> preparer option" where
  "prepare_loop 0 k p = None"
| "prepare_loop (Suc n) k p = do {
     (status, p) \<leftarrow> gp_progress k p;
     if status = PrepComplete then Some p else prepare_loop n k p
   }"

definition last_uses_on_stack :: "op_graph \<Rightarrow> op_set \<Rightarrow> nat list \<Rightarrow> nat list \<Rightarrow> nat list option" where
  "last_uses_on_stack graph completed inputs vs =
     filter_opt (\<lambda>v. do { is_last \<leftarrow> og_is_last_use graph completed v; Some (is_last \<and> v \<in> set inputs) }) vs"

definition greedy_schedule_op ::
    "schedule_config \<Rightarrow> op_graph \<Rightarrow> nat \<Rightarrow> op_set \<Rightarrow> tracked_stack \<Rightarrow> tracked_stack option" where
  "greedy_schedule_op config graph op_id completed stack = do {
     rust_assert (only_contains_unique (ts_fifo stack));
     oper \<leftarrow> og_get_op graph op_id;
     last_uses \<leftarrow> last_uses_on_stack graph completed (ov_inputs oper) (ts_fifo stack);
     let head = length last_uses;
     rust_assert (head < 2 ^ 16);
     let k = \<lparr>pt_config = config, pt_target = ov_inputs oper, pt_last_uses = last_uses\<rparr>;
     p \<leftarrow> gp_new head k stack;
     p \<leftarrow> prepare_loop schedule_max_steps k p;
     ts_op graph op_id False (gp_stack p)
   }"

subsection \<open>What a step may do\<close>

lemma swap_remove_mset:
  assumes "i < length xs"
  shows "add_mset (xs ! i) (mset (swap_remove i xs)) = mset xs"
proof (cases "i = length xs - 1")
  case True
  with assms have "xs = butlast xs @ [xs ! i]" using append_butlast_last_id [of xs] by (cases xs) (auto simp: last_conv_nth)
  then have "mset xs = mset (butlast xs) + {#xs ! i#}" by (metis mset_append mset_single_iff_right)
  with True show ?thesis by (simp add: swap_remove_def)
next
  case False
  with assms have i: "i < length (butlast xs)" and ne: "xs \<noteq> []" by auto
  have "mset xs = mset (butlast xs) + {#last xs#}" using ne by (metis append_butlast_last_id mset_append mset_single_iff_right)
  moreover have "mset ((butlast xs)[i := last xs]) = add_mset (last xs) (mset (butlast xs) - {#butlast xs ! i#})"
    using i by (simp add: mset_update)
  moreover have "butlast xs ! i = xs ! i" using i by (simp add: nth_butlast)
  moreover have "xs ! i \<in># mset (butlast xs)" using i nth_mem [OF i] calculation(3) by simp
  ultimately show ?thesis using False by (simp add: swap_remove_def)
qed

lemma swap_remove_length: "i < length xs \<Longrightarrow> length (swap_remove i xs) + 1 = length xs"
  by (simp add: swap_remove_def)

text \<open>
  \<open>gp_keeps p p'\<close>: the stack moved by swaps, dups, pops, spills and loads only; every value has as
  many copies on the stack and to be pushed as before, or it is spilled; no value is spilled twice.
\<close>

definition gp_avail :: "preparer \<Rightarrow> nat \<Rightarrow> nat" where
  "gp_avail p v = count (mset (gp_fifo p)) v + count (mset (gp_to_push p)) v"

definition gp_sum :: "preparer \<Rightarrow> nat" where
  "gp_sum p = gp_head p + length (gp_to_push p)"

definition ts_clean :: "tracked_stack \<Rightarrow> bool" where
  "ts_clean t \<longleftrightarrow> ts_inv t \<and> distinct (ts_spilled t)"

definition gp_keeps :: "prep_task \<Rightarrow> preparer \<Rightarrow> preparer \<Rightarrow> bool" where
  "gp_keeps k p p' \<longleftrightarrow>
     ts_moves (sc_max_swap_depth (pt_config k)) (sc_max_dup_depth (pt_config k)) (gp_stack p) (gp_stack p') \<and>
     ts_clean (gp_stack p') \<and> set (gp_fifo p') \<subseteq> set (gp_fifo p) \<union> set (ts_spilled (gp_stack p)) \<and>
     set (ts_spilled (gp_stack p)) \<subseteq> set (ts_spilled (gp_stack p')) \<and>
     set (ts_spilled (gp_stack p')) \<subseteq> set (gp_fifo p) \<union> set (ts_spilled (gp_stack p)) \<and>
     (\<forall>v. v \<in> set (ts_spilled (gp_stack p')) \<or> gp_avail p v \<le> gp_avail p' v)"

lemma gp_keeps_refl: "ts_clean (gp_stack p) \<Longrightarrow> gp_keeps k p p"
  by (simp add: gp_keeps_def)

lemma gp_keeps_trans:
  assumes a: "gp_keeps k p q" and b: "gp_keeps k q r"
  shows "gp_keeps k p r"
proof -
  note A = a [unfolded gp_keeps_def] and B = b [unfolded gp_keeps_def]
  have "v \<in> set (ts_spilled (gp_stack r)) \<or> gp_avail p v \<le> gp_avail r v" for v
  proof (cases "v \<in> set (ts_spilled (gp_stack q))")
    case True
    with B show ?thesis by blast
  next
    case False
    with A have "gp_avail p v \<le> gp_avail q v" by blast
    with B show ?thesis by (meson le_trans)
  qed
  moreover have "ts_moves (sc_max_swap_depth (pt_config k)) (sc_max_dup_depth (pt_config k)) (gp_stack p) (gp_stack r)"
    using A B ts_moves_trans by blast
  moreover have "set (gp_fifo r) \<subseteq> set (gp_fifo p) \<union> set (ts_spilled (gp_stack p))"
    "set (ts_spilled (gp_stack r)) \<subseteq> set (gp_fifo p) \<union> set (ts_spilled (gp_stack p))"
    "set (ts_spilled (gp_stack p)) \<subseteq> set (ts_spilled (gp_stack r))" using A B by blast+
  ultimately show ?thesis using B unfolding gp_keeps_def by blast
qed

lemma es_top_fifo: "es_top s = Some v \<longleftrightarrow> (\<exists>vs. es_fifo s = v # vs)"
  by (auto simp: es_top_def split: list.split)

text \<open>Popping the top when it is spilled already, spilling it otherwise.\<close>

definition ts_shed :: "tracked_stack \<Rightarrow> tracked_stack option" where
  "ts_shed t = do {
     item \<leftarrow> es_top (ts_inner t);
     spilled \<leftarrow> ts_get_spilled t item;
     (case spilled of Some _ \<Rightarrow> ts_pop t | None \<Rightarrow> map_option snd (ts_spill_top t))
   }"

lemma ts_shed_spec:
  assumes clean: "ts_clean t" and run: "ts_shed t = Some t'"
  obtains v vs where "ts_fifo t = v # vs" "ts_fifo t' = vs" "ts_clean t'" "set (ts_spilled t') = insert v (set (ts_spilled t))"
    "\<And>ms md. ts_moves ms md t t'"
proof -
  from run obtain v sp where v: "es_top (ts_inner t) = Some v" and sp: "ts_get_spilled t v = Some sp"
    and t': "(case sp of Some _ \<Rightarrow> ts_pop t | None \<Rightarrow> map_option snd (ts_spill_top t)) = Some t'"
    by (auto simp: ts_shed_def bind_eq_Some_conv)
  from v obtain vs where f: "ts_fifo t = v # vs" by (auto simp: es_top_fifo ts_fifo_def)
  have inv: "ts_inv t" "distinct (ts_spilled t)" using clean by (simp_all add: ts_clean_def)
  show thesis
  proof (cases sp)
    case (Some a)
    with t' have p: "ts_pop t = Some t'" by simp
    from ts_pop_SomeD [OF inv(1) p] f have "ts_inv t'" "ts_fifo t' = vs" "ts_spilled t' = ts_spilled t"
      by (auto simp: ts_next_def)
    moreover from sp Some have "v \<in> set (ts_spilled t)" by (auto dest!: ts_get_spilled_SomeD)
    moreover have "ts_moves ms md t t'" for ms md using ts_moves_step [OF move_pop [OF p]] .
    ultimately show thesis using inv(2) by (intro that [OF f]) (auto simp: ts_clean_def)
  next
    case None
    with t' obtain a where p: "ts_spill_top t = Some (a, t')" by auto
    from ts_spill_top_SomeD [OF inv(1) p] f have "ts_inv t'" "ts_fifo t' = vs" "ts_spilled t' = ts_spilled t @ [v]"
      by (auto simp: ts_next_def)
    moreover from sp None have "v \<notin> set (ts_spilled t)" using ts_get_spilled_NoneD by blast
    moreover have "ts_moves ms md t t'" for ms md using ts_moves_step [OF move_spill [OF p]] .
    ultimately show thesis using inv(2) by (intro that [OF f]) (auto simp: ts_clean_def)
  qed
qed

lemma gp_spill_top_shed:
  assumes "gp_spill_top k p = Some p'"
  obtains t' where "ts_shed (gp_stack p) = Some t'" "gp_stack p' = t'" "gp_sum p' = gp_sum p"
    "\<And>v. count (mset (gp_to_push p)) v \<le> count (mset (gp_to_push p')) v"
proof -
  from assms obtain item sp stack where v: "es_top (ts_inner (gp_stack p)) = Some item"
    and sp: "ts_get_spilled (gp_stack p) item = Some sp"
    and stack: "(case sp of Some _ \<Rightarrow> ts_pop (gp_stack p) | None \<Rightarrow> map_option snd (ts_spill_top (gp_stack p))) = Some stack"
    by (auto simp: gp_spill_top_def bind_eq_Some_conv)
  then have shed: "ts_shed (gp_stack p) = Some stack" by (simp add: ts_shed_def)
  have p': "gp_stack p' = stack \<and> gp_sum p' = gp_sum p \<and>
      (gp_to_push p' = gp_to_push p \<or> gp_to_push p' = gp_to_push p @ [item])"
    using assms v sp stack
    by (auto simp: gp_spill_top_def bind_eq_Some_conv Let_def gp_sum_def split: if_splits option.splits)
  then have "count (mset (gp_to_push p)) v \<le> count (mset (gp_to_push p')) v" for v by auto
  with shed p' show thesis by (intro that [of stack]) simp_all
qed

lemma gp_spill_top_keeps:
  assumes run: "gp_spill_top k p = Some p'" and clean: "ts_clean (gp_stack p)"
  shows "gp_keeps k p p' \<and> gp_sum p' = gp_sum p \<and> gp_fifo p' = tl (gp_fifo p) \<and> gp_fifo p \<noteq> []"
proof -
  from gp_spill_top_shed [OF run] obtain t' where t': "ts_shed (gp_stack p) = Some t'" "gp_stack p' = t'" "gp_sum p' = gp_sum p"
    "\<And>v. count (mset (gp_to_push p)) v \<le> count (mset (gp_to_push p')) v" by metis
  from ts_shed_spec [OF clean t'(1)] obtain v vs where s: "gp_fifo p = v # vs" "ts_fifo t' = vs" "ts_clean t'"
    "set (ts_spilled t') = insert v (set (ts_spilled (gp_stack p)))" "\<And>ms md. ts_moves ms md (gp_stack p) t'" by metis
  have "w \<in> set (ts_spilled t') \<or> gp_avail p w \<le> gp_avail p' w" for w
  proof (cases "w = v")
    case False
    then show ?thesis using t'(2,4) s(1,2) by (simp add: gp_avail_def add_mono)
  qed (use s(4) in simp)
  with s t' show ?thesis by (auto simp: gp_keeps_def)
qed

lemma gp_spill_tops_keeps:
  "gp_spill_tops k n p = Some p' \<Longrightarrow> ts_clean (gp_stack p) \<Longrightarrow>
     gp_keeps k p p' \<and> gp_sum p' = gp_sum p \<and> gp_fifo p' = drop n (gp_fifo p) \<and> n \<le> length (gp_fifo p)"
proof (induction n arbitrary: p)
  case (Suc n)
  then obtain q where q: "gp_spill_top k p = Some q" "gp_spill_tops k n q = Some p'" by (auto simp: bind_eq_Some_conv)
  from gp_spill_top_keeps [OF q(1) Suc.prems(2)] have k1: "gp_keeps k p q" "gp_sum q = gp_sum p"
    "gp_fifo q = tl (gp_fifo p)" "gp_fifo p \<noteq> []" by blast+
  then have "ts_clean (gp_stack q)" by (simp add: gp_keeps_def)
  from Suc.IH [OF q(2) this] have k2: "gp_keeps k q p'" "gp_sum p' = gp_sum q" "gp_fifo p' = drop n (gp_fifo q)"
    "n \<le> length (gp_fifo q)" by blast+
  have "drop n (tl (gp_fifo p)) = drop (Suc n) (gp_fifo p)" by (simp add: drop_Suc)
  moreover have "Suc n \<le> length (gp_fifo p)" using k1(3,4) k2(4) by (cases "gp_fifo p") simp_all
  ultimately show ?case using gp_keeps_trans [OF k1(1) k2(1)] k1(2,3) k2(2,3) by simp
qed (simp add: gp_keeps_refl)

lemma gp_try_swap_keeps:
  assumes run: "gp_try_swap k d p = Some (ok, p')" and clean: "ts_clean (gp_stack p)"
  shows "gp_keeps k p p' \<and> gp_sum p' = gp_sum p \<and> (ok \<longrightarrow> gp_head p' = gp_head p)"
proof (cases "d < 2 ^ 8 \<and> d \<le> sc_max_swap_depth (pt_config k)")
  case True
  with run obtain stack where s: "ts_swap d (gp_stack p) = Some stack" "gp_stack p' = stack" "ok"
    "gp_head p' = gp_head p" "gp_to_push p' = gp_to_push p"
    by (auto simp: gp_try_swap_def bind_eq_Some_conv Let_def split: if_splits option.splits)
  have inv: "ts_inv (gp_stack p)" using clean by (simp add: ts_clean_def)
  from ts_swap_SomeD [OF inv s(1)] have sw: "0 < d" "d < length (gp_fifo p)" "ts_inv stack"
    "ts_fifo stack = list_swap 0 d (gp_fifo p)" "ts_spilled stack = ts_spilled (gp_stack p)"
    by (auto simp: ts_next_def)
  have "0 < length (gp_fifo p)" using sw(2) by linarith
  from mset_list_swap [OF this sw(2)] have m: "mset (ts_fifo stack) = mset (gp_fifo p)" using sw(4) by simp
  then have "set (ts_fifo stack) = set (gp_fifo p)" by (metis set_mset_mset)
  moreover have "gp_avail p' v = gp_avail p v" for v using m s(2,5) by (simp add: gp_avail_def)
  moreover have "ts_moves (sc_max_swap_depth (pt_config k)) (sc_max_dup_depth (pt_config k)) (gp_stack p) stack"
    by (rule ts_moves_step [OF move_swap [OF _ s(1)]]) (use True in simp)
  ultimately show ?thesis using s sw clean by (simp add: gp_keeps_def ts_clean_def gp_sum_def)
next
  case False
  then have e: "gp_try_swap k d p = do { p \<leftarrow> gp_spill_tops k (d + 1) p; Some (False, p) }"
    unfolding gp_try_swap_def by (simp only: if_False)
  from run [unfolded e] have "gp_spill_tops k (d + 1) p = Some p'" "\<not> ok" by (auto simp del: gp_spill_tops.simps simp: bind_eq_Some_conv)
  from gp_spill_tops_keeps [OF this(1) clean] this(2) show ?thesis by blast
qed

lemma gp_swap_all_keeps:
  "gp_swap_all k ds p = Some (ok, p') \<Longrightarrow> ts_clean (gp_stack p) \<Longrightarrow>
     gp_keeps k p p' \<and> gp_sum p' = gp_sum p \<and> (ok \<longrightarrow> gp_head p' = gp_head p)"
proof (induction ds arbitrary: p)
  case (Cons d ds)
  from Cons.prems(1) obtain ok1 q where q: "gp_try_swap k d p = Some (ok1, q)"
    "(if ok1 then gp_swap_all k ds q else Some (False, q)) = Some (ok, p')" by (auto simp: bind_eq_Some_conv)
  note k1 = gp_try_swap_keeps [OF q(1) Cons.prems(2)]
  show ?case
  proof (cases ok1)
    case True
    from k1 have "ts_clean (gp_stack q)" by (simp add: gp_keeps_def)
    from Cons.IH [OF _ this] q(2) True k1 gp_keeps_trans [of k p q p'] show ?thesis by simp
  qed (use q(2) k1 in simp)
qed (simp add: gp_keeps_refl)

lemma ts_load_moves:
  assumes inv: "ts_inv t" and sp: "ts_get_spilled t v = Some (Some a)" and run: "ts_load a t = Some t'"
  shows "ts_moves ms md t t' \<and> ts_inv t' \<and> ts_fifo t' = v # ts_fifo t \<and> ts_spilled t' = ts_spilled t \<and> v \<in> set (ts_spilled t)"
proof -
  from ts_get_spilled_SomeD [OF sp] obtain i where i: "i < length (ts_spilled t)" "a = ts_start t + i" "ts_spilled t ! i = v" by blast
  from ts_load_SomeD [OF inv run] obtain j where j: "a = ts_start t + j"
    "ts_next t t' (Load a) (ts_spilled t ! j # ts_fifo t)" "ts_spilled t' = ts_spilled t" by blast
  with i have "j = i" by simp
  have "ts_unspill v t = Some t'"
    using run sp i by (auto simp: ts_load_def ts_unspill_def bind_eq_Some_conv monad_elims)
  from ts_moves_step [OF move_unspill [OF this]] j i \<open>j = i\<close> show ?thesis by (auto simp: ts_next_def)
qed

text \<open>A push adds a copy of the value to what is kept.\<close>

definition gp_pushed :: "prep_task \<Rightarrow> nat \<Rightarrow> preparer \<Rightarrow> preparer \<Rightarrow> bool" where
  "gp_pushed k v p p' \<longleftrightarrow> gp_keeps k p p' \<and> gp_sum p' = gp_sum p + 1 \<and>
     (v \<in> set (ts_spilled (gp_stack p')) \<or> gp_avail p v < gp_avail p' v)"

lemma gp_pushedI:
  assumes q: "gp_keeps k p q" "gp_sum q = gp_sum p"
    and stack: "gp_stack p' = t" "gp_to_push p' = gp_to_push q" "gp_head p' = gp_head q + 1"
    and t: "ts_moves (sc_max_swap_depth (pt_config k)) (sc_max_dup_depth (pt_config k)) (gp_stack q) t" "ts_inv t"
      "ts_fifo t = v # gp_fifo q" "ts_spilled t = ts_spilled (gp_stack q)"
    and v: "v \<in> set (gp_fifo q) \<union> set (ts_spilled (gp_stack q))"
  shows "gp_pushed k v p p'"
proof -
  have av: "gp_avail p' w = gp_avail q w + (if w = v then 1 else 0)" for w
    using stack t(3) by (simp add: gp_avail_def)
  have clean: "ts_clean t" using q(1) t by (simp add: gp_keeps_def ts_clean_def)
  have "gp_keeps k q p'" using stack(1) t v clean av by (auto simp: gp_keeps_def)
  from gp_keeps_trans [OF q(1) this] have "gp_keeps k p p'" .
  moreover have "v \<in> set (ts_spilled (gp_stack p')) \<or> gp_avail p v < gp_avail p' v"
    using q(1) av [of v] stack(1) t(4) by (auto simp: gp_keeps_def)
  moreover have "gp_sum p' = gp_sum p + 1" using q(2) stack by (simp add: gp_sum_def)
  ultimately show ?thesis by (simp add: gp_pushed_def)
qed

lemma gp_grow_head_Some:
  "gp_grow_head p = Some p' \<longleftrightarrow> gp_head p + 1 < 2 ^ 16 \<and> p' = p\<lparr>gp_head := gp_head p + 1\<rparr>"
  by (auto simp: gp_grow_head_def bind_eq_Some_conv rust_assert_def)

lemma find_first_fifo:
  "es_find_first v (ts_inner t) = Some d \<Longrightarrow> d < length (ts_fifo t) \<and> ts_fifo t ! d = v"
  using position_SomeD [of "\<lambda>x. x = v" "ts_fifo t" d] by (simp add: es_find_first_def ts_fifo_def)

lemma gp_dup_pushed:
  assumes q: "gp_keeps k p q" "gp_sum q = gp_sum p" and d: "d \<le> sc_max_dup_depth (pt_config k)"
    and dup: "ts_dup d (gp_stack q) = Some t" and at: "gp_fifo q ! d = v"
    and p': "gp_grow_head (q\<lparr>gp_stack := t\<rparr>) = Some p'"
  shows "gp_pushed k v p p'"
proof -
  have "ts_inv (gp_stack q)" using q(1) by (simp add: gp_keeps_def ts_clean_def)
  from ts_dup_SomeD [OF this dup] at have s: "d < length (gp_fifo q)" "ts_inv t" "ts_fifo t = v # gp_fifo q"
    "ts_spilled t = ts_spilled (gp_stack q)" by (auto simp: ts_next_def)
  have "v \<in> set (gp_fifo q)" using s(1) at by auto
  with p' show ?thesis
    by (intro gp_pushedI [OF q _ _ _ ts_moves_step [OF move_dup [OF d dup]] s(2-4)]) (auto simp: gp_grow_head_Some)
qed

lemma gp_try_push_keeps:
  assumes run: "gp_try_push k v p = Some (ok, p')" and clean: "ts_clean (gp_stack p)" and cfg: "config_u8 (pt_config k)"
  shows "gp_pushed k v p p'"
proof -
  let ?md = "sc_max_dup_depth (pt_config k)" and ?found = "es_find_first v (ts_inner (gp_stack p))"
  let ?near = "case ?found of Some depth \<Rightarrow> if depth \<le> ?md then Some depth else None | None \<Rightarrow> None"
  note refl = gp_keeps_refl [OF clean, of k]
  show ?thesis
  proof (cases ?near)
    case (Some pos)
    then have f: "?found = Some pos" "pos \<le> ?md" by (auto split: option.splits if_splits)
    have m: "pos mod 2 ^ 8 = pos" using f(2) cfg by (simp add: config_u8_def)
    from run Some obtain stack where s: "ts_dup (pos mod 2 ^ 8) (gp_stack p) = Some stack"
      "gp_grow_head (p\<lparr>gp_stack := stack\<rparr>) = Some p'"
      by (auto simp: gp_try_push_def Let_def bind_eq_Some_conv)
    from s(1) m have dup: "ts_dup pos (gp_stack p) = Some stack" by simp
    show ?thesis
      by (rule gp_dup_pushed [OF refl _ f(2) dup _ s(2)]) (use find_first_fifo [OF f(1)] in simp_all)
  next
    case None
    note near = None
    from run None obtain sp where sp: "ts_get_spilled (gp_stack p) v = Some sp"
      by (auto simp: gp_try_push_def Let_def bind_eq_Some_conv)
    show ?thesis
    proof (cases sp)
      case (Some alloc)
      with run near sp obtain stack where s: "ts_load alloc (gp_stack p) = Some stack"
        "gp_grow_head (p\<lparr>gp_stack := stack\<rparr>) = Some p'"
        by (auto simp: gp_try_push_def Let_def bind_eq_Some_conv)
      have "ts_inv (gp_stack p)" using clean by (simp add: ts_clean_def)
      from ts_load_moves [OF this sp [unfolded Some] s(1)] s(2) show ?thesis
        by (intro gp_pushedI [OF refl, where t = stack]) (auto simp: gp_grow_head_Some)
    next
      case None
      with run near sp obtain depth n q stack where s: "?found = Some depth" "checked_sub depth ?md = Some n"
        "gp_spill_tops k n p = Some q" "ts_dup ?md (gp_stack q) = Some stack" "gp_grow_head (q\<lparr>gp_stack := stack\<rparr>) = Some p'"
        by (auto simp: gp_try_push_def Let_def bind_eq_Some_conv)
      from gp_spill_tops_keeps [OF s(3) clean] have q: "gp_keeps k p q" "gp_sum q = gp_sum p" "gp_fifo q = drop n (gp_fifo p)"
        "n \<le> length (gp_fifo p)" by blast+
      have "depth = n + ?md" using s(2) by (auto simp: checked_sub_Some)
      with q(3,4) find_first_fifo [OF s(1)] have "gp_fifo q ! ?md = v" by simp
      from gp_dup_pushed [OF q(1,2) le_refl s(4) this s(5)] show ?thesis .
    qed
  qed
qed

lemma max_by_key_less: "max_by_key key xs = Some i \<Longrightarrow> i < length xs"
proof (cases xs)
  case (Cons y ys)
  have "max_key_from key j zs best = Some r \<Longrightarrow> fst best < j + length zs \<Longrightarrow> fst r < j + length zs" for j zs best r
  proof (induction zs arbitrary: j best)
    case (Cons z zs)
    then obtain n where n: "max_key_from key (j + 1) zs (if snd best \<le> n then (j, n) else best) = Some r"
      by (auto simp: bind_eq_Some_conv)
    from Cons.IH [OF n] Cons.prems(2) show ?case by (auto split: if_splits)
  qed simp
  from this [of 1 ys] Cons show "max_by_key key xs = Some i \<Longrightarrow> i < length xs"
    by (fastforce simp: max_by_key_def bind_eq_Some_conv)
qed (simp add: max_by_key_def)

lemma gp_push_keeps:
  assumes run: "gp_push_next_single_best k p = Some (ok, p')" and clean: "ts_clean (gp_stack p)"
    and cfg: "config_u8 (pt_config k)"
  shows "gp_keeps k p p' \<and> gp_sum p' = gp_sum p"
proof -
  from run obtain i where i: "max_by_key (push_key k p) (gp_to_push p) = Some i"
    and push: "gp_try_push k (gp_to_push p ! i) (p\<lparr>gp_to_push := swap_remove i (gp_to_push p)\<rparr>) = Some (ok, p')"
    by (auto simp: gp_push_next_single_best_def bind_eq_Some_conv slice_get_Some)
  let ?q = "p\<lparr>gp_to_push := swap_remove i (gp_to_push p)\<rparr>" and ?v = "gp_to_push p ! i"
  have il: "i < length (gp_to_push p)" by (rule max_by_key_less [OF i])
  from gp_try_push_keeps [OF push _ cfg] clean have P: "gp_pushed k ?v ?q p'" by simp
  have "mset (gp_to_push p) = add_mset ?v (mset (gp_to_push ?q))" using swap_remove_mset [OF il] by simp
  then have av: "gp_avail p w = gp_avail ?q w + (if w = ?v then 1 else 0)" for w by (simp add: gp_avail_def)
  have "gp_sum p = gp_sum ?q + 1" using swap_remove_length [OF il] by (simp add: gp_sum_def)
  moreover have "w \<in> set (ts_spilled (gp_stack p')) \<or> gp_avail p w \<le> gp_avail p' w" for w
    using P av [of w] by (cases "w = ?v") (auto simp: gp_pushed_def gp_keeps_def)
  ultimately show ?thesis using P by (simp add: gp_pushed_def gp_keeps_def)
qed

lemma gp_swap_next_keeps:
  assumes "gp_swap_next_best k p = Some (r, p')" "ts_clean (gp_stack p)"
  shows "gp_keeps k p p' \<and> gp_sum p' = gp_sum p"
  using assms gp_swap_all_keeps gp_keeps_refl [OF assms(2), of k]
  by (auto simp: gp_swap_next_best_def bind_eq_Some_conv split: if_splits)

lemma gp_permute_until_keeps:
  assumes "gp_permute_until_complete k p = Some (st, p')" "ts_clean (gp_stack p)"
  shows "gp_keeps k p p' \<and> gp_sum p' = gp_sum p \<and> (st = PrepComplete \<longrightarrow> gp_head p' = length (pt_target k))"
  using assms gp_swap_all_keeps
  by (fastforce simp: gp_permute_until_complete_def bind_eq_Some_conv rust_assert_Some split: if_splits)

lemma gp_progress_keeps:
  assumes run: "gp_progress k p = Some (st, p')" and clean: "ts_clean (gp_stack p)" and cfg: "config_u8 (pt_config k)"
  shows "gp_keeps k p p' \<and> gp_sum p' = gp_sum p \<and> (st = PrepComplete \<longrightarrow> gp_head p' = length (pt_target k))"
proof (cases "gp_is_complete k p")
  case True
  with run have "st = PrepComplete" "p' = p" by (auto simp: gp_progress_def bind_eq_Some_conv)
  with True gp_keeps_refl [OF clean] show ?thesis by (simp add: gp_is_complete_def)
next
  case False
  from run False obtain w permuted q where
    q: "(if w then gp_swap_next_best k p else Some (Some False, p)) = Some (permuted, q)"
    and rest: "(case permuted of None \<Rightarrow> Some (PrepGoBack, q) | Some True \<Rightarrow> Some (PrepNotDone, q)
      | Some False \<Rightarrow> do { left \<leftarrow> checked_sub (length (pt_target k)) (gp_head q);
            if left = 0 then gp_permute_until_complete k q
            else do { (ok, p) \<leftarrow> gp_push_next_single_best k q; Some (if ok then PrepNotDone else PrepGoBack, p) } })
      = Some (st, p')"
    unfolding gp_progress_def by (auto simp: bind_eq_Some_conv)
  have K: "gp_keeps k p q \<and> gp_sum q = gp_sum p"
  proof (cases w)
    case True
    with q gp_swap_next_keeps [OF _ clean] show ?thesis by simp
  qed (use q gp_keeps_refl [OF clean] in simp)
  then have cq: "ts_clean (gp_stack q)" by (simp add: gp_keeps_def)
  note trans = gp_keeps_trans [OF conjunct1 [OF K]]
  consider "permuted = None" | "permuted = Some True" | "permuted = Some False" by (cases permuted) auto
  then show ?thesis
  proof cases
    case 3
    with rest obtain left where left: "checked_sub (length (pt_target k)) (gp_head q) = Some left"
      "(if left = 0 then gp_permute_until_complete k q
        else do { (ok, p) \<leftarrow> gp_push_next_single_best k q; Some (if ok then PrepNotDone else PrepGoBack, p) }) = Some (st, p')"
      by (auto simp: bind_eq_Some_conv)
    show ?thesis
    proof (cases "left = 0")
      case True
      with left(2) gp_permute_until_keeps [OF _ cq] trans K show ?thesis by auto
    next
      case False
      with left(2) obtain ok where ok: "gp_push_next_single_best k q = Some (ok, p')" "st = (if ok then PrepNotDone else PrepGoBack)"
        by (auto simp: bind_eq_Some_conv)
      from gp_push_keeps [OF ok(1) cq cfg] trans K ok(2) show ?thesis by auto
    qed
  qed (use rest K in auto)
qed

lemma prepare_loop_keeps:
  "prepare_loop n k p = Some p' \<Longrightarrow> ts_clean (gp_stack p) \<Longrightarrow> config_u8 (pt_config k) \<Longrightarrow>
     gp_keeps k p p' \<and> gp_sum p' = gp_sum p \<and> gp_head p' = length (pt_target k)"
proof (induction n arbitrary: p)
  case (Suc n)
  then obtain st q where q: "gp_progress k p = Some (st, q)" "(if st = PrepComplete then Some q else prepare_loop n k q) = Some p'"
    by (auto simp: bind_eq_Some_conv)
  note K = gp_progress_keeps [OF q(1) Suc.prems(2,3)]
  show ?case
  proof (cases "st = PrepComplete")
    case False
    from K have "ts_clean (gp_stack q)" by (simp add: gp_keeps_def)
    from Suc.IH [OF _ this Suc.prems(3)] q(2) False K gp_keeps_trans [of k p q p'] show ?thesis by simp
  qed (use q(2) K in simp)
qed simp

lemma drop_last_uses_mset:
  "drop_last_uses us xs = Some ys \<Longrightarrow> mset xs = mset us + mset ys"
  unfolding drop_last_uses_def
proof (induction us arbitrary: xs)
  case (Cons u us)
  then obtain i where i: "position (\<lambda>w. w = u) xs = Some i"
    and rest: "fold_opt (\<lambda>v vs. do { i \<leftarrow> position (\<lambda>w. w = v) vs; Some (remove_at i vs) }) us (remove_at i xs) = Some ys"
    by (auto simp: bind_eq_Some_conv)
  from position_SomeD [OF i] have x: "i < length xs" "xs ! i = u" by auto
  have "mset xs = mset (take i xs @ xs ! i # drop (Suc i) xs)"
    by (rule arg_cong [where f = mset, OF id_take_nth_drop [OF x(1)]])
  also have "\<dots> = add_mset u (mset (remove_at i xs))" using x(2) by (simp add: remove_at_def)
  finally show ?case using Cons.IH [OF rest] by simp
qed simp

lemma only_unique_distinct: "only_contains_unique vs \<longleftrightarrow> distinct vs"
proof
  assume u: "only_contains_unique vs"
  have "vs ! i \<noteq> vs ! j" if "i < j" "j < length vs" for i j
  proof
    assume eq: "vs ! i = vs ! j"
    have "drop (i + 1) vs ! (j - (i + 1)) = vs ! j" "j - (i + 1) < length (drop (i + 1) vs)" using that by auto
    then have "vs ! i \<in> set (drop (i + 1) vs)" using eq by (metis nth_mem)
    with u that show False by (auto simp: only_contains_unique_def list_all_iff)
  qed
  then show "distinct vs" by (metis distinct_conv_nth linorder_neqE_nat)
next
  assume d: "distinct vs"
  have "vs ! i \<notin> set (drop (i + 1) vs)" if "i < length vs" for i
  proof -
    have "vs = take i vs @ vs ! i # drop (Suc i) vs" using that by (rule id_take_nth_drop)
    with d have "distinct (vs ! i # drop (Suc i) vs)" by (metis distinct_append)
    then show ?thesis by simp
  qed
  then show "only_contains_unique vs" by (simp add: only_contains_unique_def list_all_iff)
qed

lemma last_uses_spec:
  assumes "last_uses_on_stack G completed inputs vs = Some us" "distinct vs"
  shows "distinct us \<and> set us \<subseteq> set vs \<inter> set inputs \<and> (\<forall>v\<in>set us. og_is_last_use G completed v = Some True)"
  using assms unfolding last_uses_on_stack_def
proof (induction vs arbitrary: us)
  case (Cons v vs)
  from Cons.prems(1) obtain keep rest where k: "do { is_last \<leftarrow> og_is_last_use G completed v; Some (is_last \<and> v \<in> set inputs) } = Some keep"
    and rest: "filter_opt (\<lambda>v. do { is_last \<leftarrow> og_is_last_use G completed v; Some (is_last \<and> v \<in> set inputs) }) vs = Some rest"
    and us: "us = (if keep then v # rest else rest)"
    unfolding filter_opt.simps bind_eq_Some_conv option.inject by blast
  from k obtain l where l: "og_is_last_use G completed v = Some l" "keep = (l \<and> v \<in> set inputs)"
    by (cases "og_is_last_use G completed v") simp_all
  have d: "distinct vs" "v \<notin> set vs" using Cons.prems(2) by simp_all
  note IH = Cons.IH [OF rest d(1)]
  show ?case
  proof (cases keep)
    case True
    with l have "og_is_last_use G completed v = Some True" "v \<in> set inputs" by simp_all
    with IH True us d(2) show ?thesis by auto
  next
    case False
    with us have "us = rest" by simp
    with IH show ?thesis by auto
  qed
qed simp

text \<open>
  Scheduling one operation: the stack moves, the operation is emitted on top of its operands, and
  every value that was on the stack or spilled still is, unless this was its last use.
\<close>

lemma greedy_schedule_op_spec:
  assumes run: "greedy_schedule_op config G i completed t = Some t'" and clean: "ts_clean t" and cfg: "config_u8 config"
    and v: "og_get_op G i = Some v"
  obtains u where "ts_moves (sc_max_swap_depth config) (sc_max_dup_depth config) t u" "ts_op G i False u = Some t'"
    "ts_clean t'" "set (ts_spilled t') = set (ts_spilled u)"
    "set (ts_fifo t') \<union> set (ts_spilled t') \<subseteq> set (ov_outputs v) \<union> set (ts_fifo t) \<union> set (ts_spilled t)"
    "\<And>x. x \<in> set (ts_fifo t) \<union> set (ts_spilled t) \<Longrightarrow>
       x \<in> set (ts_fifo t') \<union> set (ts_spilled t') \<or> x \<in> set (ov_inputs v) \<and> og_is_last_use G completed x = Some True"
    "set (ov_outputs v) \<subseteq> set (ts_fifo t')"
proof -
  from run v obtain last_uses p0 p where uniq: "only_contains_unique (ts_fifo t)"
    and lu: "last_uses_on_stack G completed (ov_inputs v) (ts_fifo t) = Some last_uses"
    and p0: "gp_new (length last_uses) \<lparr>pt_config = config, pt_target = ov_inputs v, pt_last_uses = last_uses\<rparr> t = Some p0"
    and p: "prepare_loop schedule_max_steps \<lparr>pt_config = config, pt_target = ov_inputs v, pt_last_uses = last_uses\<rparr> p0 = Some p"
    and op: "ts_op G i False (gp_stack p) = Some t'"
    by (auto simp: greedy_schedule_op_def bind_eq_Some_conv rust_assert_Some Let_def)
  let ?k = "\<lparr>pt_config = config, pt_target = ov_inputs v, pt_last_uses = last_uses\<rparr>"
  from uniq have dist: "distinct (ts_fifo t)" by (simp add: only_unique_distinct)
  note L = last_uses_spec [OF lu dist]
  from p0 obtain to_push where tp: "drop_last_uses last_uses (ov_inputs v) = Some to_push"
    and P0: "gp_stack p0 = t" "gp_head p0 = length last_uses" "gp_to_push p0 = rev to_push"
    by (auto simp: gp_new_def bind_eq_Some_conv Let_def)
  note M = drop_last_uses_mset [OF tp]
  have lenM: "length (ov_inputs v) = length last_uses + length to_push"
    using arg_cong [OF M, of size] by simp
  from prepare_loop_keeps [OF p] clean cfg P0 have K: "gp_keeps ?k p0 p" "gp_sum p = gp_sum p0" "gp_head p = length (ov_inputs v)"
    by simp_all
  then have empty: "gp_to_push p = []" using P0 lenM by (simp add: gp_sum_def)
  note K1 = K(1) [unfolded gp_keeps_def P0(1)]
  have moves: "ts_moves (sc_max_swap_depth config) (sc_max_dup_depth config) t (gp_stack p)" and cp: "ts_clean (gp_stack p)"
    using K1 by simp_all
  have inv: "ts_inv (gp_stack p)" using cp by (simp add: ts_clean_def)
  obtain rest where top: "gp_fifo p = ov_inputs v @ rest" and next': "ts_inv t'" "ts_fifo t' = ov_outputs v @ rest"
    "ts_spilled t' = ts_spilled (gp_stack p)"
  proof (rule ts_op_SomeD [OF inv op])
    fix w oper rest
    assume "og_get_op G i = Some w" "gp_fifo p = (if False then flip_args (ov_inputs w) else ov_inputs w) @ rest"
      "ts_next (gp_stack p) t' oper (ov_outputs w @ rest)" "ts_spilled t' = ts_spilled (gp_stack p)"
    with v that show thesis by (simp add: ts_next_def)
  qed
  have "x \<in> set (ts_fifo t') \<union> set (ts_spilled t') \<or> x \<in> set (ov_inputs v) \<and> og_is_last_use G completed x = Some True"
    if x: "x \<in> set (ts_fifo t) \<union> set (ts_spilled t)" for x
  proof (cases "x \<in> set last_uses \<or> x \<in> set (ts_spilled (gp_stack p))")
    case True
    with L next'(3) show ?thesis by auto
  next
    case False
    with K1 x have xf: "x \<in> set (ts_fifo t)" and le: "gp_avail p0 x \<le> gp_avail p x" by auto
    have "1 \<le> count (mset (ts_fifo t)) x" using xf by (simp add: Suc_le_eq)
    moreover have "count (mset (ov_inputs v)) x = count (mset to_push) x" using M False by (simp add: count_eq_zero_iff)
    ultimately have "1 + count (mset (ov_inputs v)) x \<le> gp_avail p0 x" using P0 by (simp add: gp_avail_def)
    with le have "1 + count (mset (ov_inputs v)) x \<le> count (mset (gp_fifo p)) x" by (simp add: gp_avail_def empty)
    then have "0 < count (mset rest) x" by (simp add: top)
    then have "x \<in> set rest" by (simp add: count_greater_zero_iff)
    with next'(2) show ?thesis by simp
  qed
  moreover have "ts_clean t'" using next' cp by (simp add: ts_clean_def)
  moreover have "set (ts_fifo t') \<union> set (ts_spilled t') \<subseteq> set (ov_outputs v) \<union> set (ts_fifo t) \<union> set (ts_spilled t)"
    using K1 top next' by auto
  ultimately show thesis using that [OF moves op] next' by auto
qed

end
