(* ===== verification/Block_Scheduler.thy ===== *)
theory Block_Scheduler
  imports Sir_Program Greedy_Scheduler
begin

text \<open>
  Scheduling a block (\<open>dumb_schedule\<close> of \<open>plankc/sir/crates/stack-scheduling/src/scheduler.rs\<close> and
  \<open>collect_next_completable_into\<close> of \<open>state.rs\<close>): the first operation whose predecessors are complete
  is scheduled until none is left, then the stack is shuffled into the layout the successors expect.
  A panic is the value \<open>None\<close>; the loop has fuel for one round per operation and the last one,
  which \<open>schedule_fuel_enough\<close> shows it never uses up.
\<close>

subsection \<open>The scheduler\<close>

definition collect_next_completable_into :: "op_graph \<Rightarrow> op_set \<Rightarrow> op_set \<Rightarrow> op_set option" where
  "collect_next_completable_into graph completed out =
     fold_opt (\<lambda>op out. do {
         is_done \<leftarrow> os_contains completed op;
         if is_done then Some out
         else do {
           preds \<leftarrow> og_get_predecessors graph op;
           if os_is_super completed preds then os_add out op else Some out
         }
       }) (og_op_ids graph) out"

text \<open>The state: what is completed, the scratch set, and the stack.\<close>

primrec schedule_loop ::
    "nat \<Rightarrow> schedule_config \<Rightarrow> op_graph \<Rightarrow> op_set \<Rightarrow> op_set \<Rightarrow> tracked_stack \<Rightarrow> tracked_stack option" where
  "schedule_loop 0 config graph completable completed stack = None"
| "schedule_loop (Suc fuel) config graph completable completed stack = do {
     completable \<leftarrow> collect_next_completable_into graph completed (os_clear completable);
     ops \<leftarrow> os_iter completable;
     (case ops of
        [] \<Rightarrow> Some stack
      | op # _ \<Rightarrow> do {
          stack \<leftarrow> greedy_schedule_op config graph op completed stack;
          completed \<leftarrow> os_add completed op;
          schedule_loop fuel config graph completable completed stack
        })
   }"

definition dumb_schedule ::
    "control_view \<Rightarrow> nat \<Rightarrow> schedule_config \<Rightarrow> op_graph \<Rightarrow> (stack_op list \<times> nat) option" where
  "dumb_schedule control next_alloc_id config graph = do {
     completable \<leftarrow> os_new (replicate (og_words_per_set graph) 0) (og_total_ops graph);
     completed \<leftarrow> os_new (replicate (og_words_per_set graph) 0) (og_total_ops graph);
     inner \<leftarrow> fold_opt es_push (rev (og_input_values graph)) es_new;
     let stack = ts_new_from_evm next_alloc_id inner;
     stack \<leftarrow> schedule_loop (Suc (og_total_ops graph)) config graph completable completed stack;
     stack \<leftarrow> (if control \<noteq> LastOpTerminatesView then shuffle config stack graph else Some stack);
     next_alloc_id \<leftarrow> ts_into_next_alloc_id stack;
     Some (ts_ops stack, next_alloc_id)
   }"

subsection \<open>What can be scheduled next\<close>

lemma os_new_empty: "os_new (replicate (words_for n) 0) n = Some (os_empty n)"
  by (simp add: os_new_def os_empty_def)

lemma collect_spec:
  assumes holds: "og_holds G n ops ends" and c: "os_inv completed" "os_total completed = length ops"
    and o: "os_inv out" "os_total out = length ops"
  shows "\<exists>out'. collect_next_completable_into G completed out = Some out' \<and> os_inv out' \<and> os_total out' = length ops \<and>
    os_elems out' = os_elems out \<union> {i. i < length ops \<and> i \<notin> os_elems completed \<and> ao_preds (ops ! i) \<subseteq> os_elems completed}"
proof -
  let ?f = "\<lambda>op out. do {
         is_done \<leftarrow> os_contains completed op;
         if is_done then Some out
         else do { preds \<leftarrow> og_get_predecessors G op; if os_is_super completed preds then os_add out op else Some out } }"
  let ?new = "\<lambda>i. i \<notin> os_elems completed \<and> ao_preds (ops ! i) \<subseteq> os_elems completed"
  have ids: "og_op_ids G = [0..<length ops]" using holds by (simp add: og_holds_def)
  have preds: "\<exists>p. og_get_predecessors G i = Some p \<and> os_elems p = ao_preds (ops ! i) \<and> os_inv p \<and> os_total p = length ops"
    if "i < length ops" for i
  proof -
    from holds that obtain v where v: "og_get_op G i = Some v" "os_elems (ov_predecessors v) = ao_preds (ops ! i)"
      "os_inv (ov_predecessors v)" "os_total (ov_predecessors v) = length ops" by (auto simp: og_holds_def)
    from v(1) have "og_get_predecessors G i = Some (ov_predecessors v)" by (auto simp: og_get_op_def bind_eq_Some_conv Let_def)
    with v show ?thesis by blast
  qed
  have step: "\<exists>out'. fold_opt ?f xs out = Some out' \<and> os_inv out' \<and> os_total out' = length ops \<and>
      os_elems out' = os_elems out \<union> {i \<in> set xs. ?new i}"
    if "set xs \<subseteq> {..<length ops}" "os_inv out" "os_total out = length ops" for xs out
    using that
  proof (induction xs arbitrary: out)
    case (Cons x xs)
    then have x: "x < length ops" "set xs \<subseteq> {..<length ops}" by auto
    from preds [OF x(1)] obtain p where p: "og_get_predecessors G x = Some p" "os_elems p = ao_preds (ops ! x)"
      "os_inv p" "os_total p = length ops" by blast
    have sup: "os_is_super completed p = (ao_preds (ops ! x) \<subseteq> os_elems completed)"
      using os_is_super_spec [of completed p] c p by (simp add: os_inv_def)
    have con: "os_contains completed x = Some (x \<in> os_elems completed)" using os_contains_spec c x(1) by simp
    show ?case
    proof (cases "?new x")
      case True
      from os_add_spec [OF Cons.prems(2), of x] x(1) Cons.prems(3) obtain o1 where
        o1: "os_add out x = Some o1" "os_elems o1 = insert x (os_elems out)" "os_inv o1" "os_total o1 = length ops" by auto
      from Cons.IH [OF x(2) o1(3,4)] obtain o2 where o2: "fold_opt ?f xs o1 = Some o2" "os_inv o2" "os_total o2 = length ops"
        "os_elems o2 = os_elems o1 \<union> {i \<in> set xs. ?new i}" by blast
      have "fold_opt ?f (x # xs) out = Some o2" using True con p(1) sup o1(1) o2(1) by simp
      with o2 o1(2) True show ?thesis by auto
    next
      case False
      from Cons.IH [OF x(2) Cons.prems(2,3)] obtain o2 where o2: "fold_opt ?f xs out = Some o2" "os_inv o2" "os_total o2 = length ops"
        "os_elems o2 = os_elems out \<union> {i \<in> set xs. ?new i}" by blast
      have "fold_opt ?f (x # xs) out = Some o2" using False con p(1) sup o2(1) by auto
      with o2 False show ?thesis by auto
    qed
  qed simp
  have "set [0..<length ops] \<subseteq> {..<length ops}" by auto
  from step [OF this o] obtain out' where
    "fold_opt ?f [0..<length ops] out = Some out'" "os_inv out'" "os_total out' = length ops"
    "os_elems out' = os_elems out \<union> {i \<in> set [0..<length ops]. ?new i}" by blast
  then show ?thesis unfolding collect_next_completable_into_def ids by (intro exI [of _ out']) auto
qed

subsection \<open>What is emitted\<close>

definition is_program_op :: "stack_op \<Rightarrow> bool" where
  "is_program_op oper = (case oper of Op _ \<Rightarrow> True | Flipped _ \<Rightarrow> True | CallRetPush _ \<Rightarrow> True | _ \<Rightarrow> False)"

primrec program_op :: "op_node_kind \<Rightarrow> stack_op" where
  "program_op (Flippable k) = Op k"
| "program_op (RetDestPush k) = CallRetPush k"
| "program_op (Normal k) = Op k"

lemma program_op_straight:
  "ts_stack_op kind False = Some oper \<Longrightarrow> oper = program_op kind \<and> is_program_op oper \<and> so_is_valid config oper"
  by (cases kind) (auto simp: ts_stack_op_def is_program_op_def)

lemma ts_move_plain:
  assumes "ts_inv t" "ts_move ms md t t'"
  shows "ts_inv t' \<and> ts_start t' = ts_start t \<and> (\<exists>oper. ts_ops t' = ts_ops t @ [oper] \<and> \<not> is_program_op oper)"
  using assms(2)
proof cases
  case move_pop
  from ts_pop_SomeD [OF assms(1) this] show ?thesis by (auto simp: ts_next_def is_program_op_def)
next
  case (move_swap d)
  from ts_swap_SomeD [OF assms(1) move_swap(2)] show ?thesis by (auto simp: ts_next_def is_program_op_def)
next
  case (move_dup d)
  from ts_dup_SomeD [OF assms(1) move_dup(2)] show ?thesis by (auto simp: ts_next_def is_program_op_def)
next
  case (move_spill a)
  from ts_spill_top_SomeD [OF assms(1) this] show ?thesis by (auto simp: ts_next_def is_program_op_def)
next
  case (move_unspill v)
  from ts_unspill_SomeD [OF assms(1) this] show ?thesis by (auto simp: ts_next_def is_program_op_def)
qed

lemma ts_moves_plain:
  "ts_moves ms md t t' \<Longrightarrow> ts_inv t \<Longrightarrow> ts_inv t' \<and> ts_start t' = ts_start t \<and>
     (\<exists>new. ts_ops t' = ts_ops t @ new \<and> filter is_program_op new = [])"
  unfolding ts_moves_def
proof (induction rule: rtranclp_induct)
  case (step t u)
  note i = step.IH [OF step.prems]
  from ts_move_plain [OF conjunct1 [OF i] step.hyps(2)] i show ?case by fastforce
qed simp

subsection \<open>The schedule of a graph\<close>

definition graph_ok :: "op_graph \<Rightarrow> nat \<Rightarrow> abs_op list \<Rightarrow> nat list \<Rightarrow> bool" where
  "graph_ok G n ops ends \<longleftrightarrow> og_holds G n ops ends \<and> n \<le> og_total_values G \<and> set ends \<subseteq> {..<og_total_values G} \<and>
     (\<forall>v<og_total_values G. v < n \<or> producers ops v \<noteq> {}) \<and>
     (\<forall>i<length ops. ao_preds (ops ! i) \<subseteq> {..<i} \<and> set (ao_outs (ops ! i)) \<subseteq> {..<og_total_values G})"

text \<open>The operations \<open>order\<close> are scheduled: each after its predecessors.\<close>

definition good_order :: "abs_op list \<Rightarrow> nat list \<Rightarrow> bool" where
  "good_order ops order \<longleftrightarrow> distinct order \<and> set order \<subseteq> {..<length ops} \<and>
     (\<forall>k<length order. ao_preds (ops ! (order ! k)) \<subseteq> set (take k order))"

definition emitted :: "schedule_config \<Rightarrow> abs_op list \<Rightarrow> nat list \<Rightarrow> tracked_stack \<Rightarrow> bool" where
  "emitted config ops order t \<longleftrightarrow> list_all (so_is_valid config) (ts_ops t) \<and>
     filter is_program_op (ts_ops t) = map (\<lambda>i. program_op (ao_kind (ops ! i))) order"

text \<open>Values that exist and are still wanted are on the stack or spilled.\<close>

definition wanted_kept :: "nat \<Rightarrow> abs_op list \<Rightarrow> nat list \<Rightarrow> nat list \<Rightarrow> tracked_stack \<Rightarrow> bool" where
  "wanted_kept n ops ends order t \<longleftrightarrow>
     (\<forall>v. v < n \<or> (\<exists>i\<in>set order. v \<in> set (ao_outs (ops ! i))) \<longrightarrow>
        v \<in> set ends \<or> consumers_of ops v - set order \<noteq> {} \<longrightarrow> v \<in> set (ts_fifo t) \<union> set (ts_spilled t))"

definition sched_inv ::
    "schedule_config \<Rightarrow> op_graph \<Rightarrow> nat \<Rightarrow> abs_op list \<Rightarrow> nat list \<Rightarrow> 'v op_meaning \<Rightarrow> (nat \<Rightarrow> 'v) \<Rightarrow> 'v machine \<Rightarrow>
     nat \<Rightarrow> nat list \<Rightarrow> op_set \<Rightarrow> tracked_stack \<Rightarrow> bool" where
  "sched_inv config G n ops ends M val st0 start order completed t \<longleftrightarrow>
     os_inv completed \<and> os_total completed = length ops \<and> os_elems completed = set order \<and>
     good_order ops order \<and> emitted config ops order t \<and> ts_sim M val st0 t \<and> ts_clean t \<and> ts_start t = start \<and>
     set (ts_fifo t) \<union> set (ts_spilled t) \<subseteq> {..<og_total_values G} \<and> wanted_kept n ops ends order t"

lemma good_order_snoc:
  assumes "good_order ops order" "i < length ops" "i \<notin> set order" "ao_preds (ops ! i) \<subseteq> set order"
  shows "good_order ops (order @ [i])"
  using assms by (auto simp: good_order_def nth_append less_Suc_eq)

lemma emitted_moves:
  assumes "emitted config ops order t" "ts_inv t"
    "ts_moves (sc_max_swap_depth config) (sc_max_dup_depth config) t u"
  shows "emitted config ops order u"
proof -
  from ts_moves_valid [OF assms(3,2)] obtain new where new: "ts_ops u = ts_ops t @ new" "list_all (so_is_valid config) new" by blast
  from ts_moves_plain [OF assms(3,2)] new(1) have "filter is_program_op new = []" by auto
  with new assms(1) show ?thesis by (simp add: emitted_def)
qed

lemma sched_step:
  assumes ok: "graph_ok G n ops ends" and cons: "graph_consistent M val G" and cfg: "config_u8 config"
    and inv: "sched_inv config G n ops ends M val st0 start order completed t"
    and i: "i < length ops" "i \<notin> set order" "ao_preds (ops ! i) \<subseteq> set order"
    and run: "greedy_schedule_op config G i completed t = Some t'" and add: "os_add completed i = Some completed'"
  shows "sched_inv config G n ops ends M val st0 start (order @ [i]) completed' t'"
proof -
  note I = inv [unfolded sched_inv_def] and O = ok [unfolded graph_ok_def]
  have holds: "og_holds G n ops ends" using O by blast
  then obtain v where v: "og_get_op G i = Some v" "ov_inputs v = ao_ins (ops ! i)" "ov_outputs v = ao_outs (ops ! i)"
    "ov_kind v = ao_kind (ops ! i)" using i(1) by (auto simp: og_holds_def)
  have clean: "ts_clean t" and sim: "ts_sim M val st0 t" and em: "emitted config ops order t" using I by blast+
  obtain u where u: "ts_moves (sc_max_swap_depth config) (sc_max_dup_depth config) t u" "ts_op G i False u = Some t'"
    and clean': "ts_clean t'" and sub: "set (ts_fifo t') \<union> set (ts_spilled t') \<subseteq> set (ov_outputs v) \<union> set (ts_fifo t) \<union> set (ts_spilled t)"
    and keep: "\<And>x. x \<in> set (ts_fifo t) \<union> set (ts_spilled t) \<Longrightarrow>
       x \<in> set (ts_fifo t') \<union> set (ts_spilled t') \<or> x \<in> set (ov_inputs v) \<and> og_is_last_use G completed x = Some True"
    and outs: "set (ov_outputs v) \<subseteq> set (ts_fifo t')"
    using greedy_schedule_op_spec [OF run clean cfg v(1)] by metis
  have ti: "ts_inv t" using clean by (simp add: ts_clean_def)
  have su: "ts_sim M val st0 u" by (rule ts_moves_sim [OF u(1) sim])
  have st': "ts_sim M val st0 t'" by (rule ts_sim_op [OF su cons u(2)])
  have eu: "emitted config ops order u" by (rule emitted_moves [OF em ti u(1)])
  note pu = ts_moves_plain [OF u(1) ti]
  have et: "emitted config ops (order @ [i]) t' \<and> ts_start t' = ts_start u"
  proof (rule ts_op_SomeD [OF conjunct1 [OF pu] u(2)])
    fix w oper rest
    assume w: "og_get_op G i = Some w" "ts_stack_op (ov_kind w) False = Some oper" "ts_next u t' oper (ov_outputs w @ rest)"
    then have "oper = program_op (ao_kind (ops ! i))" "is_program_op oper" "so_is_valid config oper"
      using program_op_straight [OF w(2)] v by auto
    with w(3) eu show ?thesis by (simp add: emitted_def ts_next_def)
  qed
  obtain c where c: "os_add completed i = Some c" "os_elems c = insert i (os_elems completed)" "os_inv c" "os_total c = length ops"
    using os_add_spec [of completed i] I i(1) by auto
  have range: "set (ts_fifo t') \<union> set (ts_spilled t') \<subseteq> {..<og_total_values G}"
  proof -
    have "set (op_view.ov_outputs v) \<subseteq> {..<og_total_values G}" using O v(3) i(1) by simp
    moreover have "set (ts_fifo t) \<union> set (ts_spilled t) \<subseteq> {..<og_total_values G}" using I by blast
    ultimately show ?thesis using sub by (meson Un_least le_sup_iff order_trans)
  qed
  have "wanted_kept n ops ends (order @ [i]) t'" unfolding wanted_kept_def
  proof (intro allI impI)
    fix x assume def: "x < n \<or> (\<exists>j\<in>set (order @ [i]). x \<in> set (ao_outs (ops ! j)))"
      and want: "x \<in> set ends \<or> consumers_of ops x - set (order @ [i]) \<noteq> {}"
    show "x \<in> set (ts_fifo t') \<union> set (ts_spilled t')"
    proof (cases "x \<in> set (ao_outs (ops ! i))")
      case True
      with outs v(3) show ?thesis by (simp add: subset_iff)
    next
      case False
      with def have "x < n \<or> (\<exists>j\<in>set order. x \<in> set (ao_outs (ops ! j)))" by auto
      moreover have "x \<in> set ends \<or> consumers_of ops x - set order \<noteq> {}" using want by auto
      ultimately have xt: "x \<in> set (ts_fifo t) \<union> set (ts_spilled t)" using I unfolding wanted_kept_def by blast
      show ?thesis
      proof (rule ccontr)
        assume "\<not> ?thesis"
        with keep [OF xt] have last: "x \<in> set (ov_inputs v)" "og_is_last_use G completed x = Some True" by blast+
        have "x < og_total_values G" using xt I by blast
        from og_uses_remaining_spec [OF holds this] I last(2)
        have one: "card (consumers_of ops x - set order) + (if x \<in> set ends then 1 else 0) = 1"
          by (simp add: og_is_last_use_def)
        have mem: "i \<in> consumers_of ops x - set order" using last(1) v(2) i(1,2) by (simp add: consumers_of_def)
        have fin: "finite (consumers_of ops x - set order)" by (simp add: consumers_of_def)
        with mem have "0 < card (consumers_of ops x - set order)" by (auto simp: card_gt_0_iff)
        with one have "x \<notin> set ends" "card (consumers_of ops x - set order) = 1" by (auto split: if_splits)
        with mem have "consumers_of ops x - set order = {i}" by (metis card_1_singletonE singletonD)
        then have "consumers_of ops x - set (order @ [i]) = {}" by auto
        with want \<open>x \<notin> set ends\<close> show False by blast
      qed
    qed
  qed
  moreover have "good_order ops (order @ [i])" using I i by (intro good_order_snoc) auto
  ultimately show ?thesis
    using c add et st' clean' range I pu unfolding sched_inv_def by auto
qed

lemma good_order_complete:
  assumes g: "good_order ops order" and e: "\<forall>i<length ops. ao_preds (ops ! i) \<subseteq> {..<i}"
    and none: "\<And>i. i < length ops \<Longrightarrow> i \<notin> set order \<Longrightarrow> \<not> ao_preds (ops ! i) \<subseteq> set order"
  shows "set order = {..<length ops}"
proof -
  have "i \<in> set order" if "i < length ops" for i
    using that
  proof (induction i rule: less_induct)
    case (less i)
    then have "{..<i} \<subseteq> set order" by auto
    with e less.prems none show ?case by blast
  qed
  with g show ?thesis by (auto simp: good_order_def)
qed

lemma distinct_bounded: "distinct xs \<Longrightarrow> set xs \<subseteq> {..<N} \<Longrightarrow> length xs \<le> N"
  using card_mono [of "{..<N}" "set xs"] by (simp add: distinct_card)

text \<open>One round: what is completable, and that it is nothing only when everything is complete.\<close>

lemma schedule_round:
  assumes ok: "graph_ok G n ops ends" and inv: "sched_inv config G n ops ends M val st0 start order completed t"
    and co: "os_inv completable" "os_total completable = length ops"
  obtains cs xs where "collect_next_completable_into G completed (os_clear completable) = Some cs" "os_inv cs"
    "os_total cs = length ops" "os_iter cs = Some xs" "xs = [] \<longrightarrow> set order = {..<length ops}"
    "\<forall>i ys. xs = i # ys \<longrightarrow> i < length ops \<and> i \<notin> set order \<and> ao_preds (ops ! i) \<subseteq> set order"
proof -
  have holds: "og_holds G n ops ends" and e: "\<forall>i<length ops. ao_preds (ops ! i) \<subseteq> {..<i}"
    using ok unfolding graph_ok_def by blast+
  note I = inv [unfolded sched_inv_def]
  from collect_spec [OF holds, of completed "os_clear completable"] I co obtain cs where
    cs: "collect_next_completable_into G completed (os_clear completable) = Some cs" "os_inv cs" "os_total cs = length ops"
    "os_elems cs = {i. i < length ops \<and> i \<notin> set order \<and> ao_preds (ops ! i) \<subseteq> set order}" by auto
  obtain xs where xs: "os_iter cs = Some xs" "set xs = os_elems cs"
    using os_iter_spec [OF cs(2)] os_iter_set [OF cs(2)] by blast
  have last: "set order = {..<length ops}" if "xs = []"
  proof (rule good_order_complete [OF _ e])
    fix i assume "i < length ops" "i \<notin> set order"
    with that xs(2) cs(4) show "\<not> ao_preds (ops ! i) \<subseteq> set order" by auto
  qed (use I in blast)
  have next_op: "i < length ops \<and> i \<notin> set order \<and> ao_preds (ops ! i) \<subseteq> set order" if "xs = i # ys" for i ys
    using xs(2) cs(4) that by auto
  then show thesis using that [OF cs(1-3) xs(1)] last by blast
qed

lemma schedule_loop_spec:
  assumes ok: "graph_ok G n ops ends" and cons: "graph_consistent M val G" and cfg: "config_u8 config"
  shows "schedule_loop fuel config G completable completed t = Some t' \<Longrightarrow> os_inv completable \<Longrightarrow> os_total completable = length ops \<Longrightarrow>
    sched_inv config G n ops ends M val st0 start order completed t \<Longrightarrow>
    \<exists>order' completed'. sched_inv config G n ops ends M val st0 start order' completed' t' \<and> set order' = {..<length ops}"
proof (induction fuel arbitrary: completable completed t order)
  case (Suc fuel)
  note inv = Suc.prems(4)
  obtain cs xs where
    cs: "collect_next_completable_into G completed (os_clear completable) = Some cs" "os_inv cs" "os_total cs = length ops"
    and xs: "os_iter cs = Some xs" "xs = [] \<longrightarrow> set order = {..<length ops}"
      "\<forall>i ys. xs = i # ys \<longrightarrow> i < length ops \<and> i \<notin> set order \<and> ao_preds (ops ! i) \<subseteq> set order"
    by (rule schedule_round [OF ok inv Suc.prems(2,3)])
  note body = Suc.prems(1) [unfolded schedule_loop.simps cs(1) bind.simps xs(1)]
  show ?case
  proof (cases xs)
    case Nil
    with body xs(2) inv show ?thesis by auto
  next
    case (Cons i ys)
    with body obtain t1 c1 where t1: "greedy_schedule_op config G i completed t = Some t1"
      and c1: "os_add completed i = Some c1" and rest: "schedule_loop fuel config G cs c1 t1 = Some t'"
      by (auto simp: bind_eq_Some_conv)
    have i: "i < length ops" "i \<notin> set order" "ao_preds (ops ! i) \<subseteq> set order" using xs(3) Cons by blast+
    from Suc.IH [OF rest cs(2,3) sched_step [OF ok cons cfg inv i t1 c1]] show ?thesis .
  qed
qed simp

lemma schedule_fuel_enough:
  assumes ok: "graph_ok G n ops ends" and cons: "graph_consistent M val G" and cfg: "config_u8 config"
  shows "os_inv completable \<Longrightarrow> os_total completable = length ops \<Longrightarrow>
    sched_inv config G n ops ends M val st0 start order completed t \<Longrightarrow> length ops < length order + fuel \<Longrightarrow>
    schedule_loop (fuel + extra) config G completable completed t = schedule_loop fuel config G completable completed t"
proof (induction fuel arbitrary: completable completed t order)
  case 0
  then have "distinct order" "set order \<subseteq> {..<length ops}" by (auto simp: sched_inv_def good_order_def)
  then have "length order \<le> length ops" by (rule distinct_bounded)
  with 0 show ?case by simp
next
  case (Suc fuel)
  note inv = Suc.prems(3)
  obtain cs xs where
    cs: "collect_next_completable_into G completed (os_clear completable) = Some cs" "os_inv cs" "os_total cs = length ops"
    and xs: "os_iter cs = Some xs" "xs = [] \<longrightarrow> set order = {..<length ops}"
      "\<forall>i ys. xs = i # ys \<longrightarrow> i < length ops \<and> i \<notin> set order \<and> ao_preds (ops ! i) \<subseteq> set order"
    by (rule schedule_round [OF ok inv Suc.prems(1,2)])
  show ?case
  proof (cases xs)
    case Nil
    with cs(1) xs(1) show ?thesis by simp
  next
    case (Cons i ys)
    have i: "i < length ops" "i \<notin> set order" "ao_preds (ops ! i) \<subseteq> set order" using xs(3) Cons by blast+
    have "schedule_loop (fuel + extra) config G cs c1 t1 = schedule_loop fuel config G cs c1 t1"
      if "greedy_schedule_op config G i completed t = Some t1" "os_add completed i = Some c1" for t1 c1
      using Suc.IH [OF cs(2,3) sched_step [OF ok cons cfg inv i that]] Suc.prems(4) by simp
    with Cons cs(1) xs(1) show ?thesis
      by (cases "greedy_schedule_op config G i completed t"; cases "os_add completed i") simp_all
  qed
qed

lemma graph_ok_built:
  assumes graph: "gb_graph n specs ends = Some G" and earlier: "preds_earlier 0 specs"
    and ends: "set ends \<subseteq> {..<og_total_values G}"
  shows "graph_ok G n (spec_ops [] n specs) ends"
proof -
  let ?ops = "spec_ops [] n specs"
  from graph obtain g0 m g1 e g2 where g0: "gb_inputs n gs_empty = Some g0"
    and g1: "fold_opt gb_op_of specs g0 = Some g1" and g2: "fold_opt gb_push_end_stack_value ends g1 = Some g2"
    and G: "gb_finish m e g2 = Some G"
    by (auto simp: gb_graph_def monad_elims)
  have r0: "gs_rep g0 [] n \<and> length (gs_values g0) = n"
    using gb_inputs_rep [OF g0 gs_rep_empty] by (simp add: gs_empty_def)
  have rep: "gs_rep g1 ?ops n" using gb_ops_rep [OF g1 conjunct1 [OF r0] conjunct2 [OF r0]] earlier by simp
  have "og_total_values G = length (gs_values g2)" using G by (auto simp: gb_finish_def monad_elims)
  then have tot: "og_total_values G = length (gs_values g1)" using fold_push_end_stack [OF g2] by simp
  have vals: "values_ok ?ops n (gs_values g1)" using rep by (simp add: gs_rep_def)
  have "v < n \<or> producers ?ops v \<noteq> {}" if "v < og_total_values G" for v
  proof -
    have "value_ok ?ops n v (gs_values g1 ! v)" using vals that tot by (simp add: values_ok_def)
    then show ?thesis by (cases "fst (gs_values g1 ! v)") (auto simp: value_ok_def)
  qed
  moreover have "set (ao_outs (?ops ! i)) \<subseteq> {..<og_total_values G}" if "i < length ?ops" for i
    using vals tot that by (fastforce simp: values_ok_def ao_vals_def)
  moreover have "n \<le> og_total_values G" using vals tot by (simp add: values_ok_def)
  moreover have "ao_preds (?ops ! i) \<subseteq> {..<i}" if "i < length ?ops" for i
    using spec_ops_preds_earlier [of "[]" specs i n] earlier that by simp
  ultimately show ?thesis using gb_graph_holds [OF graph earlier] ends by (simp add: graph_ok_def)
qed

lemma sched_inv_start:
  assumes ok: "graph_ok G n ops ends" and inner: "es_inv inner" "es_fifo inner = [0..<n]"
  shows "sched_inv config G n ops ends M val (map val [0..<n], mem) start [] (os_empty (length ops)) (ts_new_from_evm start inner)"
proof -
  let ?t = "ts_new_from_evm start inner"
  have f: "ts_fifo ?t = [0..<n]" "ts_spilled ?t = []" "ts_ops ?t = []" "ts_start ?t = start"
    using inner(2) by (simp_all add: ts_fifo_def ts_new_from_evm_def)
  have sim: "ts_sim M val (map val [0..<n], mem) ?t" using inner by (intro ts_sim_start) simp_all
  show ?thesis using f sim ts_sim_inv [OF sim] ok
    by (auto simp: sched_inv_def good_order_def emitted_def ts_clean_def wanted_kept_def graph_ok_def)
qed

lemma dumb_schedule_spec:
  assumes ok: "graph_ok G n ops ends" and cons: "graph_consistent M val G" and cfg: "config_u8 config"
    and room: "start + og_total_values G + max_stack_length \<le> idx_limit"
    and run: "dumb_schedule control start config G = Some (opers, next_alloc)"
  shows "\<exists>order t. good_order ops order \<and> set order = {..<length ops} \<and> emitted config ops order t \<and>
    ts_sim M val (map val [0..<n], mem) t \<and> (control \<noteq> LastOpTerminatesView \<longrightarrow> ts_fifo t = ends) \<and>
    opers = ts_ops t \<and> ts_start t = start \<and> next_alloc = start + length (ts_spilled t)"
proof -
  have holds: "og_holds G n ops ends" using ok by (simp add: graph_ok_def)
  then have w: "og_words_per_set G = words_for (length ops)" "og_total_ops G = length ops" "og_input_values G = [0..<n]"
    "og_output_values G = Some ends" by (simp_all add: og_holds_def og_words_per_set_def)
  let ?st = "(map val [0..<n], mem)"
  from run w obtain inner t0 t where inner: "fold_opt es_push (rev [0..<n]) es_new = Some inner"
    and loop: "schedule_loop (Suc (length ops)) config G (os_empty (length ops)) (os_empty (length ops)) (ts_new_from_evm start inner) = Some t0"
    and fin: "(if control \<noteq> LastOpTerminatesView then shuffle config t0 G else Some t0) = Some t"
    and out: "opers = ts_ops t" "ts_into_next_alloc_id t = Some next_alloc"
    by (auto simp: dumb_schedule_def bind_eq_Some_conv os_new_empty Let_def)
  have i: "es_inv inner" "es_fifo inner = [0..<n]" using fold_es_push [OF _ inner] by simp_all
  note sched_inv_start [OF ok i, of config M val mem start]
  from schedule_loop_spec [OF ok cons cfg loop _ _ this] obtain order completed where
    inv: "sched_inv config G n ops ends M val ?st start order completed t0" and all: "set order = {..<length ops}" by auto
  note I = inv [unfolded sched_inv_def]
  have t0: "ts_clean t0" "ts_sim M val ?st t0" "emitted config ops order t0" "ts_start t0 = start" using I by blast+
  have inv0: "ts_inv t0" using t0(1) by (simp add: ts_clean_def)
  have "ts_moves (sc_max_swap_depth config) (sc_max_dup_depth config) t0 t \<and>
      (control \<noteq> LastOpTerminatesView \<longrightarrow> ts_fifo t = ends)"
  proof (cases "control = LastOpTerminatesView")
    case False
    with fin w(4) have sh: "sh_run config t0 ends = Some t" by (simp add: shuffle_def)
    have "v \<in> set (ts_fifo t0) \<union> set (ts_spilled t0)" if v: "v \<in> set ends" for v
    proof -
      have "v < og_total_values G" using ok v by (auto simp: graph_ok_def)
      then have "v < n \<or> producers ops v \<noteq> {}" using ok by (simp add: graph_ok_def)
      then have "v < n \<or> (\<exists>i\<in>set order. v \<in> set (ao_outs (ops ! i)))" using all by (auto simp: producers_def)
      with v I show ?thesis unfolding wanted_kept_def by blast
    qed
    moreover have "length (ts_spilled t0) \<le> og_total_values G"
      using I by (intro distinct_bounded) (auto simp: ts_clean_def)
    moreover have "length (ts_fifo t0) \<le> max_stack_length" by (rule ts_fifo_bound [OF inv0])
    ultimately have "sh_ready config t0 ends" using inv0 cfg room t0(4) by (auto simp: sh_ready_def)
    from sh_run_result [OF this sh] show ?thesis by blast
  qed (use fin in simp)
  then have mv: "ts_moves (sc_max_swap_depth config) (sc_max_dup_depth config) t0 t"
    and ends: "control \<noteq> LastOpTerminatesView \<longrightarrow> ts_fifo t = ends" by blast+
  have "ts_start t = start" using ts_moves_plain [OF mv inv0] t0(4) by simp
  moreover from this out(2) have "next_alloc = start + length (ts_spilled t)"
    by (simp add: ts_into_next_alloc_id_def ts_alloc_id_Some)
  moreover have "good_order ops order" using I by blast
  ultimately show ?thesis
    using all emitted_moves [OF t0(3) inv0 mv] ts_moves_sim [OF mv t0(2)] ends out(1) by blast
qed

subsection \<open>The block is scheduled\<close>

text \<open>
  C2: When the scheduler returns, every operation of the graph is emitted
  exactly once and after its predecessors, only pops, swaps, dups, stores and loads are added, all
  within the configured depths, and replaying them from the input values of the block leaves the
  values of its end stack, writing memory only in the slots the scheduler allocated.
\<close>

theorem block_schedule_correct:
  assumes graph: "gb_graph n specs ends = Some G" and earlier: "preds_earlier 0 specs"
    and ends: "set ends \<subseteq> {..<og_total_values G}" and cons: "graph_consistent M val G"
    and cfg: "config_u8 config" and room: "start + og_total_values G + max_stack_length \<le> idx_limit"
    and run: "dumb_schedule control start config G = Some (opers, next_alloc)"
  shows "\<exists>order stack m. let ops = spec_ops [] n specs in
    distinct order \<and> set order = {..<length specs} \<and>
    (\<forall>k<length order. ao_preds (ops ! (order ! k)) \<subseteq> set (take k order)) \<and>
    filter is_program_op opers = map (\<lambda>i. program_op (ao_kind (ops ! i))) order \<and>
    list_all (so_is_valid config) opers \<and>
    m_exec M opers (map val [0..<n], mem) = Some (stack, m) \<and>
    (control = LastOpTerminatesView \<or> stack = map val ends) \<and>
    start \<le> next_alloc \<and> (\<forall>a. a \<notin> {start..<next_alloc} \<longrightarrow> m a = mem a)"
proof -
  let ?ops = "spec_ops [] n specs"
  from dumb_schedule_spec [OF graph_ok_built [OF graph earlier ends] cons cfg room run, of mem] obtain order t where
    order: "good_order ?ops order" "set order = {..<length ?ops}" and em: "emitted config ?ops order t"
    and sim: "ts_sim M val (map val [0..<n], mem) t" and fifo: "control \<noteq> LastOpTerminatesView \<longrightarrow> ts_fifo t = ends"
    and out: "opers = ts_ops t" "ts_start t = start" "next_alloc = start + length (ts_spilled t)" by blast
  from sim obtain m where m: "m_exec M opers (map val [0..<n], mem) = Some (map val (ts_fifo t), m)"
    "\<forall>a. a \<notin> {start..<next_alloc} \<longrightarrow> m a = mem a" unfolding ts_sim_def slots_of_def out by auto
  have "length ?ops = length specs" by simp
  then show ?thesis unfolding Let_def
    using order em m fifo out by (intro exI [of _ order] exI [of _ "map val (ts_fifo t)"] exI [of _ m])
      (auto simp: good_order_def emitted_def)
qed

text \<open>Operands that already lie on top and are used for the last time need no preparation.\<close>

lemma greedy_schedule_op_direct:
  assumes "og_get_op G i = Some v" "ts_fifo t = ov_inputs v" "distinct (ts_fifo t)" "length (ts_fifo t) < 2 ^ 16"
    and lu: "last_uses_on_stack G completed (ov_inputs v) (ts_fifo t) = Some (ov_inputs v)"
  shows "greedy_schedule_op config G i completed t = ts_op G i False t"
proof -
  have uniq: "only_contains_unique vs" if "distinct vs" for vs :: "nat list"
    using that by (auto simp: only_contains_unique_def list_all_iff in_set_conv_nth nth_eq_iff_index_eq)
  have drops: "drop_last_uses vs vs = Some []" for vs
    unfolding drop_last_uses_def by (induction vs) (simp_all add: remove_at_def)
  let ?k = "\<lparr>pt_config = config, pt_target = ov_inputs v, pt_last_uses = ov_inputs v\<rparr>"
  let ?p = "\<lparr>gp_head = length (ts_fifo t), gp_stack = t, gp_to_preserve = [], gp_to_push = []\<rparr>"
  have new: "gp_new (length (ts_fifo t)) ?k t = Some ?p"
    using assms(2) by (simp add: gp_new_def drops slice_range_def)
  have "gp_progress ?k ?p = Some (PrepComplete, ?p)"
    using assms(2) by (auto simp: gp_progress_def gp_is_complete_def list_all_iff zip_same_conv_map)
  then have "prepare_loop (Suc m) ?k ?p = Some ?p" for m by simp
  moreover have "\<exists>m. schedule_max_steps = Suc m" by (rule not0_implies_Suc) (simp add: schedule_max_steps_def)
  ultimately have "prepare_loop schedule_max_steps ?k ?p = Some ?p" by metis
  with new assms uniq [OF assms(3)] show ?thesis by (simp add: greedy_schedule_op_def Let_def)
qed

lemma shuffle_single:
  assumes "ts_inv t" "ts_fifo t = [v]"
  shows "sh_run evm_config t [v] = Some t"
proof -
  let ?s = "\<lparr>sh_complete = Suc 0, sh_current = t, sh_target = [v], sh_max_swap = 16, sh_max_dup = 15\<rparr>"
  have len: "es_len (ts_inner t) = 1"
    using es_len_fifo [of "ts_inner t"] assms unfolding ts_inv_def ts_fifo_def by (simp del: es_len_fifo)
  have "sh_shrink_loop (ll_with_max sh_limit) ?s = Some ?s" using assms(2)
    by (simp add: sh_shrink_loop.simps sh_shrink_needed_def checked_sub_def sh_fifo_def del: length_sh_cur)
  with assms(2) len show ?thesis
    by (simp add: sh_run_def sh_update_complete_def sh_iter_pairwise_def pairwise_part_def bottom_to_depth_def
        down_to_bottom_def above_bottom_def sh_grow_loop.simps sh_cleanup.simps sh_len_def evm_config_def
        checked_sub_def slice_range_def sh_fifo_def del: length_sh_cur)
qed

lemma schedule_loop_one:
  assumes ok: "graph_ok G n ops ends" and cons: "graph_consistent M val G" and cfg: "config_u8 config"
    and one: "length ops = 1" "ao_preds (ops ! 0) = {}"
    and inv: "sched_inv config G n ops ends M val st0 start [] (os_empty 1) t"
    and sched: "greedy_schedule_op config G 0 (os_empty 1) t = Some t1"
  shows "schedule_loop (Suc 1) config G (os_empty 1) (os_empty 1) t = Some t1"
proof -
  obtain c1 where c1: "os_add (os_empty 1) 0 = Some c1" using os_add_spec [of "os_empty 1" 0] by auto
  have new: "0 < length ops" "0 \<notin> set []" "ao_preds (ops ! 0) \<subseteq> set []" using one by simp_all
  note inv1 = sched_step [OF ok cons cfg inv new sched c1, unfolded append_Nil]
  have co: "os_inv (os_empty 1)" "os_total (os_empty 1) = length ops" using one by simp_all
  obtain cs xs where cs: "collect_next_completable_into G (os_empty 1) (os_clear (os_empty 1)) = Some cs" "os_inv cs"
    "os_total cs = length ops" "os_iter cs = Some xs" "xs = [] \<longrightarrow> set [] = {..<length ops}"
    "\<forall>i ys. xs = i # ys \<longrightarrow> i < length ops \<and> i \<notin> set [] \<and> ao_preds (ops ! i) \<subseteq> set []"
    by (rule schedule_round [OF ok inv co])
  obtain ys where xs: "xs = 0 # ys" using cs(5,6) one by (cases xs) auto
  obtain cs' xs' where cs': "collect_next_completable_into G c1 (os_clear cs) = Some cs'" "os_inv cs'"
    "os_total cs' = length ops" "os_iter cs' = Some xs'" "xs' = [] \<longrightarrow> set [0] = {..<length ops}"
    "\<forall>i ys. xs' = i # ys \<longrightarrow> i < length ops \<and> i \<notin> set [0] \<and> ao_preds (ops ! i) \<subseteq> set [0]"
    by (rule schedule_round [OF ok inv1 cs(2,3)])
  have xs': "xs' = []" using cs'(6) one by (cases xs') auto
  show ?thesis using cs(1,4) cs'(1,4) xs xs' sched c1 by simp
qed

lemma sub_schedule:
  assumes G1: "gb_graph 2 sub_specs [2] = Some G"
  shows "og_total_values G = 3 \<and> (\<exists>opers a. dumb_schedule InternalReturnView 0 evm_config G = Some (opers, a))"
proof (rule sub_graph)
  fix G' v
  let ?val = "(!) [10, 4, 6 :: int]" and ?ops = "spec_ops [] 2 sub_specs"
  assume G': "gb_graph 2 sub_specs [2] = Some G'" "og_get_op G' 0 = Some v" "ov_inputs v = [0, 1]"
    "ov_outputs v = [2]" "ov_kind v = Flippable 0" "\<And>i u. og_get_op G' i = Some u \<Longrightarrow> i = 0 \<and> u = v"
  have same: "G' = G" using G1 G'(1) by (simp only: option.inject)
  note G = G' [unfolded same]
  have earlier: "preds_earlier 0 sub_specs" by (simp add: sub_specs_def)
  have holds: "og_holds G 2 ?ops [2]" by (rule gb_graph_holds [OF G1 earlier])
  have tot: "og_total_values G = 3" using gb_graph_values [OF G1] by (simp add: sub_specs_def)
  have ok: "graph_ok G 2 ?ops [2]" using graph_ok_built [OF G1 earlier] tot by simp
  have one: "length ?ops = 1" by (simp add: sub_specs_def)
  have w: "og_words_per_set G = words_for 1" "og_total_ops G = 1" "og_input_values G = [0..<2]"
    "og_output_values G = Some [2]" using holds one by (simp_all add: og_holds_def og_words_per_set_def)
  have "op_consistent sub_meaning ?val v" using G(3-5) by (simp add: op_consistent_def sub_meaning_def)
  with G(6) have cons: "graph_consistent sub_meaning ?val G" unfolding graph_consistent_def by blast
  have cfg: "config_u8 evm_config" by (simp add: config_u8_def evm_config_def)
  obtain inner where inner: "fold_opt es_push (rev [0..<2]) es_new = Some inner"
    using evm.push_all_vals [of es_new "rev [0..<2]"] by (auto simp: push_all_fold max_stack_length_def)
  have i: "es_inv inner" "es_fifo inner = [0..<2]" using fold_es_push [OF _ inner] by simp_all
  let ?t = "ts_new_from_evm 0 inner"
  note inv = sched_inv_start [OF ok i, of evm_config sub_meaning ?val "\<lambda>_. 0" 0, unfolded one]
  have ti: "ts_inv ?t" "ts_fifo ?t = [0, 1]" using inv i
    by (auto simp: sched_inv_def ts_clean_def ts_fifo_def ts_new_from_evm_def upt_rec)
  have uses: "og_is_last_use G (os_empty 1) x = Some True" if "x < 2" for x
  proof -
    have "consumers_of ?ops x = {0}" using that by (auto simp: consumers_of_def sub_specs_def less_Suc_eq numeral_2_eq_2)
    with og_uses_remaining_spec [OF holds, of x "os_empty 1"] that tot one show ?thesis by (simp add: og_is_last_use_def)
  qed
  have lu: "last_uses_on_stack G (os_empty 1) (ov_inputs v) (ts_fifo ?t) = Some (ov_inputs v)"
    using uses [of 0] uses [of 1] G(3) ti(2) by (simp add: last_uses_on_stack_def)
  obtain t1 where t1: "ts_op G 0 False ?t = Some t1"
    using ts_op_returns [OF ti(1) G(2), of False "Op 0" "[]"] G(3-5) ti(2) by (auto simp: ts_stack_op_def max_stack_length_def)
  with greedy_schedule_op_direct [OF G(2), of ?t] lu ti G(3)
  have sched: "greedy_schedule_op evm_config G 0 (os_empty 1) ?t = Some t1" by simp
  have f1: "ts_fifo t1 = [2] \<and> ts_inv t1 \<and> ts_spilled t1 = [] \<and> ts_start t1 = 0"
  proof (rule ts_op_SomeD [OF ti(1) t1])
    fix w oper rest
    assume "og_get_op G 0 = Some w" "ts_fifo ?t = (if False then flip_args (ov_inputs w) else ov_inputs w) @ rest"
      and next': "ts_next ?t t1 oper (ov_outputs w @ rest)" "ts_spilled t1 = ts_spilled ?t"
    with G(2-4) ti(2) have "ov_outputs w @ rest = [2]" by simp
    with next' show ?thesis by (simp add: ts_next_def ts_new_from_evm_def)
  qed
  have "ao_preds (?ops ! 0) = {}" by (simp add: sub_specs_def data_preds_def producers_def)
  note loop = schedule_loop_one [OF ok cons cfg one this inv sched]
  have "shuffle evm_config t1 G = Some t1" using shuffle_single [of t1 2] f1 w(4) by (simp add: shuffle_def)
  then have "dumb_schedule InternalReturnView 0 evm_config G = Some (ts_ops t1, 0)"
    using w loop inner os_new_empty [of 1] f1 ts_alloc_id_Some [of t1 0 0]
    by (simp add: dumb_schedule_def ts_into_next_alloc_id_def idx_limit_def Let_def del: schedule_loop.simps)
  with tot show "og_total_values G = 3 \<and> (\<exists>opers a. dumb_schedule InternalReturnView 0 evm_config G = Some (opers, a))"
    by blast
qed

theorem block_schedule_correct_witness:
  "\<exists>G opers next_alloc m. gb_graph 2 sub_specs [2] = Some G \<and>
     dumb_schedule InternalReturnView 0 evm_config G = Some (opers, next_alloc) \<and>
     m_exec sub_meaning opers ([10, 4], \<lambda>_. 0) = Some ([6], m)"
proof (rule sub_graph)
  fix G v
  let ?val = "(!) [10, 4, 6]"
  assume G: "gb_graph 2 sub_specs [2] = Some G" "og_get_op G 0 = Some v" "ov_inputs v = [0, 1]"
    "ov_outputs v = [2]" "ov_kind v = Flippable 0" "\<And>i u. og_get_op G i = Some u \<Longrightarrow> i = 0 \<and> u = v"
  have earlier: "preds_earlier 0 sub_specs" by (simp add: sub_specs_def)
  from sub_schedule [OF G(1)] obtain opers a where run: "dumb_schedule InternalReturnView 0 evm_config G = Some (opers, a)"
    and tot: "og_total_values G = 3" by blast
  have "op_consistent sub_meaning ?val v" using G(3-5) by (simp add: op_consistent_def sub_meaning_def)
  with G(6) have cons: "graph_consistent sub_meaning ?val G" unfolding graph_consistent_def by blast
  have "config_u8 evm_config" "0 + og_total_values G + max_stack_length \<le> idx_limit" "set [2] \<subseteq> {..<og_total_values G}"
    using tot by (simp_all add: config_u8_def evm_config_def max_stack_length_def idx_limit_def)
  from block_schedule_correct [OF G(1) earlier this(3) cons this(1,2) run, of "\<lambda>_. 0"] G(1) run
  show ?thesis by (auto simp: Let_def numeral_2_eq_2)
qed

end
