(* ===== verification/Cfg_Order.thy ===== *)
theory Cfg_Order
  imports Sir_Program
begin

text \<open>
  The orders of the control flow graph (\<open>plankc/sir/crates/passes/src/analyses\<close>):
  \<open>reverse_post_order.rs\<close>, \<open>reachability.rs\<close>, \<open>predecessors.rs\<close> and
  \<open>basic_block_ownership.rs\<close>. The dense index sets and maps of these analyses are used through their
  interfaces, finite sets and finite maps (which \<open>Dense_Sets\<close> and \<open>Index_Tables\<close> justify).

  The depth-first search is a mutual recursion of functions and blocks; its first argument bounds the
  depth of the recursion and \<open>None\<close> is a panic or a recursion deeper than that. The number of functions
  and blocks of the program is always enough.
\<close>

subsection \<open>Reverse post order\<close>

record rpo_state =
  rp_visited :: "nat set"
  rp_blocks :: "nat \<Rightarrow> nat list option"
  rp_functions :: "nat list"

definition rp_empty :: rpo_state where
  "rp_empty = \<lparr>rp_visited = {}, rp_blocks = (\<lambda>_. None), rp_functions = []\<rparr>"

definition op_callee :: "operation \<Rightarrow> nat option" where
  "op_callee op = (case opn_data op of
       InternalCallData f _ _ \<Rightarrow> Some f
     | InternalCallNeverData f _ \<Rightarrow> Some f
     | _ \<Rightarrow> None)"

fun visit_function :: "nat \<Rightarrow> ir_program \<Rightarrow> nat \<Rightarrow> rpo_state \<Rightarrow> rpo_state option"
and visit_block :: "nat \<Rightarrow> ir_program \<Rightarrow> nat \<Rightarrow> nat \<Rightarrow> rpo_state \<Rightarrow> rpo_state option"
where
  "visit_function 0 ir f s = None"
| "visit_function (Suc n) ir f s =
     (if rp_blocks s f \<noteq> None then Some s
      else do {
        let s = s\<lparr>rp_blocks := (rp_blocks s)(f \<mapsto> [])\<rparr>;
        fn \<leftarrow> slice_get (ir_functions ir) f;
        s \<leftarrow> visit_block n ir f (fn_entry fn) s;
        bs \<leftarrow> rp_blocks s f;
        Some (s\<lparr>rp_blocks := (rp_blocks s)(f \<mapsto> rev bs), rp_functions := rp_functions s @ [f]\<rparr>)
      })"
| "visit_block 0 ir f b s = None"
| "visit_block (Suc n) ir f b s =
     (if b \<in> rp_visited s then Some s
      else do {
        let s = s\<lparr>rp_visited := insert b (rp_visited s)\<rparr>;
        bb \<leftarrow> slice_get (ir_blocks ir) b;
        s \<leftarrow> fold_opt (\<lambda>i s. do {
            op \<leftarrow> slice_get (ir_operations ir) i;
            (case op_callee op of None \<Rightarrow> Some s | Some callee \<Rightarrow> visit_function n ir callee s)
          }) (span_indices (bb_operations bb)) s;
        succs \<leftarrow> bv_successors ir b;
        s \<leftarrow> fold_opt (\<lambda>t s. visit_block n ir f t s) succs s;
        bs \<leftarrow> rp_blocks s f;
        Some (s\<lparr>rp_blocks := (rp_blocks s)(f \<mapsto> bs @ [b])\<rparr>)
      })"

definition rpo_fuel :: "ir_program \<Rightarrow> nat" where
  "rpo_fuel ir = length (ir_functions ir) + length (ir_blocks ir) + 1"

definition rpo_compute :: "ir_program \<Rightarrow> rpo_state option" where
  "rpo_compute ir = do {
     s \<leftarrow> visit_function (rpo_fuel ir) ir (ir_init_entry ir) rp_empty;
     s \<leftarrow> (case ir_main_entry ir of
             None \<Rightarrow> Some s
           | Some main_entry \<Rightarrow> visit_function (rpo_fuel ir) ir main_entry s);
     Some (s\<lparr>rp_functions := rev (rp_functions s)\<rparr>)
   }"

text \<open>The accessors; indexing the map with a function it does not hold is a panic.\<close>

fun concat_opt :: "'a list option list \<Rightarrow> 'a list option" where
  "concat_opt [] = Some []"
| "concat_opt (x # xs) = do { ys \<leftarrow> x; zs \<leftarrow> concat_opt xs; Some (ys @ zs) }"

definition rp_blocks_rpo :: "rpo_state \<Rightarrow> nat list option" where
  "rp_blocks_rpo s = concat_opt (map (rp_blocks s) (rp_functions s))"

definition rp_blocks_postorder :: "rpo_state \<Rightarrow> nat list option" where
  "rp_blocks_postorder s =
     concat_opt (map (\<lambda>f. map_option rev (rp_blocks s f)) (rev (rp_functions s)))"

definition rp_functions_postorder :: "rpo_state \<Rightarrow> nat list" where
  "rp_functions_postorder s = rev (rp_functions s)"

subsection \<open>Reachable blocks, predecessors and owners\<close>

definition reachable_compute :: "rpo_state \<Rightarrow> nat set option" where
  "reachable_compute rpo = do {
     bs \<leftarrow> rp_blocks_rpo rpo;
     Some (fold insert bs {})
   }"

text \<open>\<open>Vec::resize\<close>.\<close>

definition vec_resize :: "nat \<Rightarrow> 'a \<Rightarrow> 'a list \<Rightarrow> 'a list" where
  "vec_resize n x xs = take n xs @ replicate (n - length xs) x"

definition preds_push :: "nat \<Rightarrow> nat \<Rightarrow> nat list list \<Rightarrow> nat list list option" where
  "preds_push b t inner = do {
     ps \<leftarrow> slice_get inner t;
     slice_set inner t (ps @ [b])
   }"

definition preds_compute :: "ir_program \<Rightarrow> nat set \<Rightarrow> nat list list \<Rightarrow> nat list list option" where
  "preds_compute ir reachable inner =
     (let inner = map (\<lambda>_. []) inner;
          inner = vec_resize (length (ir_blocks ir)) [] inner
      in fold_opt (\<lambda>b inner.
           if b \<notin> reachable then Some inner
           else do {
             succs \<leftarrow> bv_successors ir b;
             fold_opt (preds_push b) succs inner
           }) [0..<length (ir_blocks ir)] inner)"

definition preds_of :: "nat list list \<Rightarrow> nat \<Rightarrow> nat list option" where
  "preds_of inner b = slice_get inner b"

definition replace_predecessor_edge ::
    "nat \<Rightarrow> nat \<Rightarrow> nat \<Rightarrow> nat list list \<Rightarrow> nat list list option" where
  "replace_predecessor_edge bb old new inner = do {
     ps \<leftarrow> slice_get inner bb;
     i \<leftarrow> position (\<lambda>p. p = old) ps;
     slice_set inner bb (ps[i := new])
   }"

definition clear_predecessors :: "nat \<Rightarrow> nat list list \<Rightarrow> nat list list option" where
  "clear_predecessors bb inner = slice_set inner bb []"

definition ownership_compute :: "ir_program \<Rightarrow> rpo_state \<Rightarrow> nat option list option" where
  "ownership_compute ir rpo =
     fold_opt (\<lambda>f ownership. do {
         bs \<leftarrow> rp_blocks rpo f;
         fold_opt (\<lambda>b ownership. slice_set ownership b (Some f)) bs ownership
       }) (rp_functions rpo) (replicate (length (ir_blocks ir)) None)"

definition get_owner :: "nat option list \<Rightarrow> nat \<Rightarrow> nat option option" where
  "get_owner ownership b = slice_get ownership b"

definition own_is_reachable :: "nat option list \<Rightarrow> nat \<Rightarrow> bool option" where
  "own_is_reachable ownership b = map_option (\<lambda>owner. owner \<noteq> None) (slice_get ownership b)"

definition blocks_owned_by :: "nat option list \<Rightarrow> nat \<Rightarrow> nat list" where
  "blocks_owned_by ownership f =
     [b. (b, owner) \<leftarrow> zip [0..<length ownership] ownership, owner = Some f]"

definition unreachable_blocks :: "nat option list \<Rightarrow> nat list" where
  "unreachable_blocks ownership =
     [b. (b, owner) \<leftarrow> zip [0..<length ownership] ownership, owner = None]"

subsection \<open>Edges and reachability\<close>

text \<open>The specification: edges inside a function, calls, and what the entry points reach.\<close>

definition succs_of :: "ir_program \<Rightarrow> nat \<Rightarrow> nat list" where
  "succs_of ir b = (case bv_successors ir b of None \<Rightarrow> [] | Some ts \<Rightarrow> ts)"

definition callees_of :: "ir_program \<Rightarrow> nat \<Rightarrow> nat list" where
  "callees_of ir b =
     (if b < length (ir_blocks ir)
      then List.map_filter (\<lambda>i. if i < length (ir_operations ir) then op_callee (ir_operations ir ! i) else None)
             (span_indices (bb_operations (ir_blocks ir ! b)))
      else [])"

definition entry_of :: "ir_program \<Rightarrow> nat \<Rightarrow> nat" where
  "entry_of ir f = fn_entry (ir_functions ir ! f)"

inductive block_reach :: "ir_program \<Rightarrow> nat \<Rightarrow> nat \<Rightarrow> bool" for ir where
  reach_refl: "block_reach ir b b"
| reach_step: "block_reach ir a b \<Longrightarrow> c \<in> set (succs_of ir b) \<Longrightarrow> block_reach ir a c"

definition root_functions :: "ir_program \<Rightarrow> nat set" where
  "root_functions ir = insert (ir_init_entry ir) (set_option (ir_main_entry ir))"

inductive live_function :: "ir_program \<Rightarrow> nat \<Rightarrow> bool" for ir where
  live_root: "f \<in> root_functions ir \<Longrightarrow> live_function ir f"
| live_call: "live_function ir f \<Longrightarrow> block_reach ir (entry_of ir f) b \<Longrightarrow> g \<in> set (callees_of ir b) \<Longrightarrow>
    live_function ir g"

definition live_block :: "ir_program \<Rightarrow> nat \<Rightarrow> bool" where
  "live_block ir b \<longleftrightarrow> (\<exists>f. live_function ir f \<and> block_reach ir (entry_of ir f) b)"

text \<open>All indices the search follows are in range.\<close>

definition ir_indexed :: "ir_program \<Rightarrow> bool" where
  "ir_indexed ir \<longleftrightarrow>
     root_functions ir \<subseteq> {..<length (ir_functions ir)} \<and>
     (\<forall>fn\<in>set (ir_functions ir). fn_entry fn < length (ir_blocks ir)) \<and>
     (\<forall>bb\<in>set (ir_blocks ir).
        (\<forall>i\<in>set (span_indices (bb_operations bb)). i < length (ir_operations ir) \<and>
           (\<forall>f. op_callee (ir_operations ir ! i) = Some f \<longrightarrow> f < length (ir_functions ir))) \<and>
        (\<exists>ts. ctl_outgoing (bb_control bb) ir = Some ts \<and> (\<forall>t\<in>set ts. t < length (ir_blocks ir))))"

lemma ir_indexed_succs:
  assumes "ir_indexed ir" "b < length (ir_blocks ir)"
  shows "bv_successors ir b = Some (succs_of ir b)" and "set (succs_of ir b) \<subseteq> {..<length (ir_blocks ir)}"
proof -
  have "ir_blocks ir ! b \<in> set (ir_blocks ir)" using assms(2) by simp
  then obtain ts where "ctl_outgoing (bb_control (ir_blocks ir ! b)) ir = Some ts" "\<forall>t\<in>set ts. t < length (ir_blocks ir)"
    using assms(1) unfolding ir_indexed_def by blast
  with assms(2) show "bv_successors ir b = Some (succs_of ir b)" "set (succs_of ir b) \<subseteq> {..<length (ir_blocks ir)}"
    by (auto simp: bv_successors_def succs_of_def)
qed

lemma map_filter_fold_opt:
  assumes "\<forall>i\<in>set is. i < length xs"
  shows "fold_opt (\<lambda>i s. do {
       x \<leftarrow> slice_get xs i;
       (case g x of None \<Rightarrow> Some s | Some y \<Rightarrow> h y s)
     }) is s = fold_opt h (List.map_filter (\<lambda>i. if i < length xs then g (xs ! i) else None) is) s"
  using assms
proof (induction "is" arbitrary: s)
  case (Cons i "is")
  then show ?case
    by (cases "g (xs ! i)"; cases "h (the (g (xs ! i))) s") (simp_all add: List.map_filter_simps)
qed (simp add: List.map_filter_simps)

lemma visit_block_Suc:
  assumes "ir_indexed ir" "b < length (ir_blocks ir)"
  shows "visit_block (Suc n) ir f b s =
    (if b \<in> rp_visited s then Some s
     else do {
       s \<leftarrow> fold_opt (visit_function n ir) (callees_of ir b) (s\<lparr>rp_visited := insert b (rp_visited s)\<rparr>);
       s \<leftarrow> fold_opt (visit_block n ir f) (succs_of ir b) s;
       bs \<leftarrow> rp_blocks s f;
       Some (s\<lparr>rp_blocks := (rp_blocks s)(f \<mapsto> bs @ [b])\<rparr>)
     })"
proof -
  have "\<forall>i\<in>set (span_indices (bb_operations (ir_blocks ir ! b))). i < length (ir_operations ir)"
    using assms unfolding ir_indexed_def by (meson nth_mem)
  from map_filter_fold_opt [OF this, of "visit_function n ir" op_callee] ir_indexed_succs(1) [OF assms] assms(2) show ?thesis
    by (simp add: callees_of_def Let_def)
qed

declare visit_block.simps(2) [simp del]

lemma callees_in_range:
  assumes "ir_indexed ir"
  shows "set (callees_of ir b) \<subseteq> {..<length (ir_functions ir)}"
proof
  fix f assume f: "f \<in> set (callees_of ir b)"
  then have b: "b < length (ir_blocks ir)" by (auto simp: callees_of_def split: if_splits)
  with f obtain i where "i \<in> set (span_indices (bb_operations (ir_blocks ir ! b)))"
    "op_callee (ir_operations ir ! i) = Some f"
    by (auto simp: callees_of_def List.map_filter_def split: if_splits)
  with assms nth_mem [OF b] show "f \<in> {..<length (ir_functions ir)}" unfolding ir_indexed_def by blast
qed


subsection \<open>The search returns\<close>

definition rp_grows :: "rpo_state \<Rightarrow> rpo_state \<Rightarrow> bool" where
  "rp_grows s s' \<longleftrightarrow> rp_visited s \<subseteq> rp_visited s' \<and> dom (rp_blocks s) \<subseteq> dom (rp_blocks s')"

lemma rp_grows_refl [simp]: "rp_grows s s"
  by (simp add: rp_grows_def)

lemma rp_grows_trans [trans]: "rp_grows a b \<Longrightarrow> rp_grows b c \<Longrightarrow> rp_grows a c"
  unfolding rp_grows_def by (meson order_trans)

lemma rp_grows_steps:
  "rp_grows s (s\<lparr>rp_visited := insert b (rp_visited s)\<rparr>)"
  "rp_grows s (s\<lparr>rp_blocks := (rp_blocks s)(f \<mapsto> xs)\<rparr>)"
  by (auto simp: rp_grows_def)

definition rp_left :: "ir_program \<Rightarrow> rpo_state \<Rightarrow> nat" where
  "rp_left ir s = card ({..<length (ir_blocks ir)} - rp_visited s) +
     card ({..<length (ir_functions ir)} - dom (rp_blocks s))"

lemma rp_left_mono: "rp_grows s s' \<Longrightarrow> rp_left ir s' \<le> rp_left ir s"
  unfolding rp_left_def rp_grows_def by (intro add_mono card_mono) auto

lemma rp_left_block:
  assumes "b < length (ir_blocks ir)" "b \<notin> rp_visited s"
  shows "rp_left ir (s\<lparr>rp_visited := insert b (rp_visited s)\<rparr>) < rp_left ir s"
proof -
  have "card ({..<length (ir_blocks ir)} - insert b (rp_visited s)) <
      card ({..<length (ir_blocks ir)} - rp_visited s)"
    by (rule psubset_card_mono) (use assms in auto)
  then show ?thesis by (simp add: rp_left_def)
qed

lemma rp_left_function:
  assumes "f < length (ir_functions ir)" "f \<notin> dom (rp_blocks s)"
  shows "rp_left ir (s\<lparr>rp_blocks := (rp_blocks s)(f \<mapsto> xs)\<rparr>) < rp_left ir s"
proof -
  have "card ({..<length (ir_functions ir)} - insert f (dom (rp_blocks s))) <
      card ({..<length (ir_functions ir)} - dom (rp_blocks s))"
    by (rule psubset_card_mono) (use assms in auto)
  then show ?thesis by (simp add: rp_left_def)
qed

lemma fold_opt_total:
  assumes "\<And>x s. x \<in> set xs \<Longrightarrow> P s \<Longrightarrow> \<exists>s'. h x s = Some s' \<and> P s' \<and> R s s'"
    and "\<And>s. R s s" and "\<And>a b c. R a b \<Longrightarrow> R b c \<Longrightarrow> R a c" and "P s"
  shows "\<exists>s'. fold_opt h xs s = Some s' \<and> P s' \<and> R s s'"
  using assms(1,4)
proof (induction xs arbitrary: s)
  case Nil
  with assms(2) show ?case by simp
next
  case (Cons x xs)
  from Cons.prems obtain s1 where 1: "h x s = Some s1" "P s1" "R s s1" by force
  from Cons.IH [OF _ 1(2)] Cons.prems(1) obtain s2 where "fold_opt h xs s1 = Some s2" "P s2" "R s1 s2"
    by force
  with 1 assms(3) show ?case by auto
qed

lemma visits_return:
  assumes ix: "ir_indexed ir"
  shows "(\<forall>f s. f < length (ir_functions ir) \<longrightarrow> rp_left ir s < n \<longrightarrow>
            (\<exists>s'. visit_function n ir f s = Some s' \<and> rp_grows s s')) \<and>
         (\<forall>f b s. b < length (ir_blocks ir) \<longrightarrow> f \<in> dom (rp_blocks s) \<longrightarrow> rp_left ir s < n \<longrightarrow>
            (\<exists>s'. visit_block n ir f b s = Some s' \<and> rp_grows s s'))"
proof (induction n)
  case (Suc n)
  then have IHf: "\<And>f s. f < length (ir_functions ir) \<Longrightarrow> rp_left ir s < n \<Longrightarrow>
      \<exists>s'. visit_function n ir f s = Some s' \<and> rp_grows s s'"
    and IHb: "\<And>f b s. b < length (ir_blocks ir) \<Longrightarrow> f \<in> dom (rp_blocks s) \<Longrightarrow> rp_left ir s < n \<Longrightarrow>
      \<exists>s'. visit_block n ir f b s = Some s' \<and> rp_grows s s'"
    by blast+
  have "\<exists>s'. visit_function (Suc n) ir f s = Some s' \<and> rp_grows s s'"
    if f: "f < length (ir_functions ir)" and left: "rp_left ir s < Suc n" for f s
  proof (cases "rp_blocks s f")
    case None
    let ?s = "s\<lparr>rp_blocks := (rp_blocks s)(f \<mapsto> [])\<rparr>"
    have "rp_left ir ?s < n" using rp_left_function [OF f, of s "[]"] None left by (simp add: dom_def)
    moreover have "entry_of ir f < length (ir_blocks ir)"
      using ix f by (auto simp: ir_indexed_def entry_of_def)
    ultimately obtain s' where s': "visit_block n ir f (entry_of ir f) ?s = Some s'" "rp_grows ?s s'"
      using IHb [of "entry_of ir f" f ?s] by auto
    then obtain bs where "rp_blocks s' f = Some bs" by (auto simp: rp_grows_def)
    with s' None f show ?thesis
      by (auto simp: entry_of_def rp_grows_def Let_def)
  qed simp
  moreover have "\<exists>s'. visit_block (Suc n) ir f b s = Some s' \<and> rp_grows s s'"
    if b: "b < length (ir_blocks ir)" and f: "f \<in> dom (rp_blocks s)" and left: "rp_left ir s < Suc n" for f b s
  proof (cases "b \<in> rp_visited s")
    case True
    then show ?thesis by (simp add: visit_block_Suc [OF ix b])
  next
    case False
    let ?s = "s\<lparr>rp_visited := insert b (rp_visited s)\<rparr>"
    let ?P = "\<lambda>s. rp_left ir s < n \<and> f \<in> dom (rp_blocks s)"
    have P: "?P ?s" using rp_left_block [OF b False] left f by (auto simp: dom_def)
    have keep: "?P s' " if "?P s" "rp_grows s s'" for s s'
      using that rp_left_mono [of s s' ir] by (auto simp: rp_grows_def)
    have "\<exists>s'. fold_opt (visit_function n ir) (callees_of ir b) ?s = Some s' \<and> ?P s' \<and> rp_grows ?s s'"
      by (rule fold_opt_total [where P = ?P and R = rp_grows, OF _ rp_grows_refl rp_grows_trans P])
        (use IHf keep callees_in_range [OF ix, of b] in blast)+
    then obtain s1 where s1: "fold_opt (visit_function n ir) (callees_of ir b) ?s = Some s1" "?P s1" "rp_grows ?s s1"
      by blast
    have "\<exists>s'. fold_opt (visit_block n ir f) (succs_of ir b) s1 = Some s' \<and> ?P s' \<and> rp_grows s1 s'"
      by (rule fold_opt_total [where P = ?P and R = rp_grows, OF _ rp_grows_refl rp_grows_trans s1(2)])
        (use IHb keep ir_indexed_succs(2) [OF ix b] in blast)+
    then obtain s2 where s2: "fold_opt (visit_block n ir f) (succs_of ir b) s1 = Some s2" "?P s2" "rp_grows s1 s2"
      by blast
    then obtain bs where "rp_blocks s2 f = Some bs" by blast
    moreover have "rp_grows s (s2\<lparr>rp_blocks := (rp_blocks s2)(f \<mapsto> xs)\<rparr>)" for xs
      by (rule rp_grows_trans [OF rp_grows_trans [OF rp_grows_trans [OF rp_grows_steps(1) s1(3)] s2(3)]
          rp_grows_steps(2)])
    ultimately show ?thesis
      using False s1 s2 by (simp add: visit_block_Suc [OF ix b])
  qed
  ultimately show ?case by blast
qed simp

lemma rp_left_bound: "rp_left ir s < rpo_fuel ir"
proof -
  have "card ({..<length (ir_blocks ir)} - rp_visited s) \<le> card {..<length (ir_blocks ir)}"
    "card ({..<length (ir_functions ir)} - dom (rp_blocks s)) \<le> card {..<length (ir_functions ir)}"
    by (intro card_mono; auto)+
  then show ?thesis by (simp add: rp_left_def rpo_fuel_def)
qed

lemma visit_function_returns:
  assumes "ir_indexed ir" "f < length (ir_functions ir)"
  shows "\<exists>s'. visit_function (rpo_fuel ir) ir f s = Some s' \<and> rp_grows s s'"
  using visits_return [OF assms(1), of "rpo_fuel ir"] assms(2) rp_left_bound by blast

lemma rpo_compute_returns:
  assumes "ir_indexed ir"
  shows "\<exists>s. rpo_compute ir = Some s"
proof -
  have "ir_init_entry ir < length (ir_functions ir)"
    "\<And>m. ir_main_entry ir = Some m \<Longrightarrow> m < length (ir_functions ir)"
    using assms by (auto simp: ir_indexed_def root_functions_def)
  moreover obtain s where "visit_function (rpo_fuel ir) ir (ir_init_entry ir) rp_empty = Some s"
    using visit_function_returns [OF assms calculation(1)] by blast
  moreover from this obtain t where "ir_main_entry ir = Some m \<Longrightarrow> visit_function (rpo_fuel ir) ir m s = Some t" for m
    using visit_function_returns [OF assms calculation(2)] by (cases "ir_main_entry ir") auto
  ultimately show ?thesis
    by (auto simp: rpo_compute_def split: option.splits)
qed

end
