(* ===== verification/Cfg_Proofs.thy ===== *)
theory Cfg_Proofs
  imports Cfg_Order
begin

subsection \<open>What the search guarantees\<close>

text \<open>
  \<open>N\<close> is the part of a post order added by visiting the blocks of \<open>roots\<close>: an edge between two of its
  blocks goes to an earlier position unless its target reaches its source, and every block is a root
  or has a later block as predecessor.
\<close>

definition post_segment :: "ir_program \<Rightarrow> nat set \<Rightarrow> nat list \<Rightarrow> bool" where
  "post_segment ir roots N \<longleftrightarrow> distinct N \<and>
     (\<forall>i<length N. \<forall>v\<in>set (succs_of ir (N ! i)) \<inter> set N.
        v \<in> set (take i N) \<or> block_reach ir v (N ! i)) \<and>
     (\<forall>i<length N. N ! i \<in> roots \<or> (\<exists>j. i < j \<and> j < length N \<and> N ! i \<in> set (succs_of ir (N ! j)))) \<and>
     (\<forall>u\<in>set N. \<exists>r\<in>roots. block_reach ir r u)"

lemma block_reach_trans:
  assumes "block_reach ir b c" "block_reach ir a b"
  shows "block_reach ir a c"
  using assms by (induction rule: block_reach.induct) (auto intro: reach_step)

lemma post_segment_Nil: "post_segment ir R []"
  by (simp add: post_segment_def)

lemma post_segment_append:
  assumes "post_segment ir R1 N1" "post_segment ir R2 N2" "set N1 \<inter> set N2 = {}"
    and closed: "\<And>u. u \<in> set N1 \<Longrightarrow> set (succs_of ir u) \<inter> set N2 = {}"
  shows "post_segment ir (R1 \<union> R2) (N1 @ N2)"
proof -
  have "v \<in> set (take i (N1 @ N2)) \<or> block_reach ir v ((N1 @ N2) ! i)"
    if i: "i < length (N1 @ N2)" and v: "v \<in> set (succs_of ir ((N1 @ N2) ! i))" "v \<in> set (N1 @ N2)" for i v
  proof (cases "i < length N1")
    case True
    with v closed [of "N1 ! i"] have "v \<in> set N1" by (auto simp: nth_append)
    with True v assms(1) show ?thesis by (auto simp: post_segment_def nth_append)
  next
    case False
    with i v assms(2) show ?thesis
      by (cases "v \<in> set N1") (auto simp: post_segment_def nth_append)
  qed
  moreover have "(N1 @ N2) ! i \<in> R1 \<union> R2 \<or>
      (\<exists>j. i < j \<and> j < length (N1 @ N2) \<and> (N1 @ N2) ! i \<in> set (succs_of ir ((N1 @ N2) ! j)))"
    if i: "i < length (N1 @ N2)" for i
  proof (cases "i < length N1")
    case True
    with assms(1) consider "N1 ! i \<in> R1" | j where "i < j" "j < length N1" "N1 ! i \<in> set (succs_of ir (N1 ! j))"
      unfolding post_segment_def by blast
    then show ?thesis
    proof cases
      case 2
      with True show ?thesis by (intro disjI2 exI [of _ j]) (auto simp: nth_append)
    qed (use True in \<open>simp add: nth_append\<close>)
  next
    case False
    with i have "i - length N1 < length N2" by auto
    with assms(2) consider "N2 ! (i - length N1) \<in> R2"
      | j where "i - length N1 < j" "j < length N2" "N2 ! (i - length N1) \<in> set (succs_of ir (N2 ! j))"
      unfolding post_segment_def by blast
    then show ?thesis
    proof cases
      case 2
      with False show ?thesis by (intro disjI2 exI [of _ "length N1 + j"]) (auto simp: nth_append)
    qed (use False in \<open>simp add: nth_append\<close>)
  qed
  moreover have "\<forall>u\<in>set (N1 @ N2). \<exists>r\<in>R1 \<union> R2. block_reach ir r u"
    using assms(1,2) unfolding post_segment_def by auto
  moreover have "distinct (N1 @ N2)" using assms(1-3) by (simp add: post_segment_def)
  ultimately show ?thesis unfolding post_segment_def by blast
qed

lemma post_segment_close:
  assumes N: "post_segment ir (set (succs_of ir b)) N" and b: "b \<notin> set N"
  shows "post_segment ir {b} (N @ [b])"
proof -
  have reach: "block_reach ir b u" if "u \<in> set N" for u
  proof -
    from N that obtain r where "r \<in> set (succs_of ir b)" "block_reach ir r u"
      unfolding post_segment_def by blast
    then show ?thesis by (meson block_reach_trans reach_refl reach_step)
  qed
  have "v \<in> set (take i (N @ [b])) \<or> block_reach ir v ((N @ [b]) ! i)"
    if i: "i < length (N @ [b])" and v: "v \<in> set (succs_of ir ((N @ [b]) ! i))" "v \<in> set (N @ [b])" for i v
  proof (cases "i < length N")
    case True
    with v N reach [of "N ! i"] show ?thesis
      by (cases "v = b") (auto simp: post_segment_def nth_append)
  next
    case False
    with i v show ?thesis by (cases "v = b") (auto simp: nth_append intro: reach_refl)
  qed
  moreover have "(N @ [b]) ! i \<in> {b} \<or>
      (\<exists>j. i < j \<and> j < length (N @ [b]) \<and> (N @ [b]) ! i \<in> set (succs_of ir ((N @ [b]) ! j)))"
    if i: "i < length (N @ [b])" for i
  proof (cases "i < length N")
    case True
    with N consider "N ! i \<in> set (succs_of ir b)"
      | j where "i < j" "j < length N" "N ! i \<in> set (succs_of ir (N ! j))"
      unfolding post_segment_def by blast
    then show ?thesis
    proof cases
      case 1
      with True show ?thesis by (intro disjI2 exI [of _ "length N"]) (auto simp: nth_append)
    next
      case 2
      with True show ?thesis by (intro disjI2 exI [of _ j]) (auto simp: nth_append)
    qed
  qed (use i in \<open>simp add: nth_append less_Suc_eq\<close>)
  moreover have "\<forall>u\<in>set (N @ [b]). \<exists>r\<in>{b}. block_reach ir r u"
    using reach by (auto intro: reach_refl)
  moreover have "distinct (N @ [b])" using N b by (simp add: post_segment_def)
  ultimately show ?thesis unfolding post_segment_def by blast
qed

text \<open>The same for the reversed list of a finished function.\<close>

definition rpo_list :: "ir_program \<Rightarrow> nat \<Rightarrow> nat list \<Rightarrow> bool" where
  "rpo_list ir e L \<longleftrightarrow> post_segment ir {e} (rev L) \<and> (L \<noteq> [] \<longrightarrow> hd L = e)"

definition finished :: "rpo_state \<Rightarrow> nat set" where
  "finished s = \<Union> (set ` ran (rp_blocks s))"

definition rp_inv :: "ir_program \<Rightarrow> rpo_state \<Rightarrow> bool" where
  "rp_inv ir s \<longleftrightarrow>
     distinct (rp_functions s) \<and> set (rp_functions s) \<subseteq> dom (rp_blocks s) \<and>
     finished s \<subseteq> rp_visited s \<and>
     (\<forall>g L. rp_blocks s g = Some L \<longrightarrow> distinct L \<and> live_function ir g \<and>
        (\<forall>u\<in>set L. block_reach ir (entry_of ir g) u)) \<and>
     (\<forall>g h L M. g \<noteq> h \<longrightarrow> rp_blocks s g = Some L \<longrightarrow> rp_blocks s h = Some M \<longrightarrow> set L \<inter> set M = {}) \<and>
     (\<forall>u\<in>finished s. set (succs_of ir u) \<subseteq> rp_visited s \<and> set (callees_of ir u) \<subseteq> dom (rp_blocks s)) \<and>
     (\<forall>g\<in>set (rp_functions s). entry_of ir g \<in> rp_visited s \<and>
        rpo_list ir (entry_of ir g) (the (rp_blocks s g)))"

text \<open>A visit changes no list but that of the functions it may extend and of the functions it starts,
  finishes what it starts, and leaves the open blocks open.\<close>

definition rp_frame :: "nat set \<Rightarrow> rpo_state \<Rightarrow> rpo_state \<Rightarrow> bool" where
  "rp_frame A s s' \<longleftrightarrow> rp_visited s \<subseteq> rp_visited s' \<and>
     (\<forall>g\<in>dom (rp_blocks s) - A. rp_blocks s' g = rp_blocks s g) \<and> A \<inter> dom (rp_blocks s) \<subseteq> dom (rp_blocks s') \<and>
     (\<exists>F. rp_functions s' = rp_functions s @ F \<and> set F = dom (rp_blocks s') - dom (rp_blocks s)) \<and>
     rp_visited s' - finished s' = rp_visited s - finished s"

lemma rp_frame_refl [simp]: "rp_frame A s s"
  by (auto simp: rp_frame_def)

lemma rp_frame_dom:
  assumes "rp_frame A s s'"
  shows "dom (rp_blocks s) \<subseteq> dom (rp_blocks s')"
proof
  fix g assume g: "g \<in> dom (rp_blocks s)"
  show "g \<in> dom (rp_blocks s')"
  proof (cases "g \<in> A")
    case False
    with assms g have "rp_blocks s' g = rp_blocks s g" by (simp add: rp_frame_def)
    with g show ?thesis by auto
  qed (use assms g in \<open>auto simp: rp_frame_def\<close>)
qed

lemma rp_frame_trans:
  assumes "rp_frame A s t" "rp_frame A t u" "A \<subseteq> dom (rp_blocks s)"
  shows "rp_frame A s u"
proof -
  from assms(1) obtain F where F: "rp_functions t = rp_functions s @ F"
    "set F = dom (rp_blocks t) - dom (rp_blocks s)" by (auto simp: rp_frame_def)
  from assms(2) obtain G where G: "rp_functions u = rp_functions t @ G"
    "set G = dom (rp_blocks u) - dom (rp_blocks t)" by (auto simp: rp_frame_def)
  note doms = rp_frame_dom [OF assms(1)] rp_frame_dom [OF assms(2)]
  have "rp_functions u = rp_functions s @ (F @ G)" "set (F @ G) = dom (rp_blocks u) - dom (rp_blocks s)"
    using F G doms by auto
  moreover have "rp_blocks u g = rp_blocks s g" if "g \<in> dom (rp_blocks s) - A" for g
    using assms(1,2) doms that unfolding rp_frame_def by (metis Diff_iff subsetD)
  moreover have "rp_visited s \<subseteq> rp_visited u" "rp_visited u - finished u = rp_visited s - finished s"
    using assms(1,2) unfolding rp_frame_def by (blast, simp)
  ultimately show ?thesis
    using doms assms(3) unfolding rp_frame_def by blast
qed

lemma rp_frame_mono: "rp_frame {} s s' \<Longrightarrow> rp_frame A s s'"
  using rp_frame_dom [of "{}" s s'] by (auto simp: rp_frame_def)


definition function_outcome :: "ir_program \<Rightarrow> nat \<Rightarrow> rpo_state \<Rightarrow> rpo_state \<Rightarrow> bool" where
  "function_outcome ir g s s' \<longleftrightarrow> rp_inv ir s' \<and> rp_frame {} s s' \<and> g \<in> dom (rp_blocks s')"

definition block_ready :: "ir_program \<Rightarrow> nat \<Rightarrow> nat set \<Rightarrow> rpo_state \<Rightarrow> bool" where
  "block_ready ir f R s \<longleftrightarrow> rp_inv ir s \<and> f \<in> dom (rp_blocks s) \<and> f \<notin> set (rp_functions s) \<and>
     (\<forall>b\<in>R. b < length (ir_blocks ir) \<and> block_reach ir (entry_of ir f) b)"

definition block_outcome :: "ir_program \<Rightarrow> nat \<Rightarrow> nat set \<Rightarrow> rpo_state \<Rightarrow> rpo_state \<Rightarrow> bool" where
  "block_outcome ir f R s s' \<longleftrightarrow> rp_inv ir s' \<and> rp_frame {f} s s' \<and> R \<subseteq> rp_visited s' \<and>
     (\<exists>N. rp_blocks s' f = Some (the (rp_blocks s f) @ N) \<and> post_segment ir R N \<and>
        set N \<inter> rp_visited s = {} \<and> 
        (\<forall>b. R = {b} \<longrightarrow> (if b \<in> rp_visited s then N = [] else N \<noteq> [] \<and> last N = b)))"

lemma rp_frame_functions:
  "rp_frame A s s' \<Longrightarrow> f \<in> dom (rp_blocks s) \<Longrightarrow> f \<notin> set (rp_functions s) \<Longrightarrow> f \<notin> set (rp_functions s')"
  by (auto simp: rp_frame_def)

lemma finished_iff: "u \<in> finished s \<longleftrightarrow> (\<exists>f L. rp_blocks s f = Some L \<and> u \<in> set L)"
  by (auto simp: finished_def ran_def)

lemma finishedI: "rp_blocks s f = Some L \<Longrightarrow> u \<in> set L \<Longrightarrow> u \<in> finished s"
  by (auto simp: finished_def ran_def)

lemma rp_inv_closed:
  "rp_inv ir s \<Longrightarrow> u \<in> finished s \<Longrightarrow>
     u \<in> rp_visited s \<and> set (succs_of ir u) \<subseteq> rp_visited s \<and> set (callees_of ir u) \<subseteq> dom (rp_blocks s)"
  by (auto simp: rp_inv_def)

lemma visit_callees:
  assumes VF: "\<And>g s s'. g \<in> set gs \<Longrightarrow> rp_inv ir s \<Longrightarrow> visit_function n ir g s = Some s' \<Longrightarrow>
      function_outcome ir g s s'"
    and "rp_inv ir s" "fold_opt (visit_function n ir) gs s = Some s'"
  shows "rp_inv ir s' \<and> rp_frame {} s s' \<and> set gs \<subseteq> dom (rp_blocks s')"
  using assms
proof (induction gs arbitrary: s)
  case (Cons g gs)
  from Cons.prems(3) obtain s1 where 1: "visit_function n ir g s = Some s1"
    "fold_opt (visit_function n ir) gs s1 = Some s'"
    by (auto simp: bind_eq_Some_conv)
  from Cons.prems(1) [OF _ Cons.prems(2) 1(1)] have o: "function_outcome ir g s s1" by simp
  from Cons.IH [OF _ _ 1(2)] Cons.prems(1) o
  have "rp_inv ir s'" "rp_frame {} s1 s'" "set gs \<subseteq> dom (rp_blocks s')"
    by (auto simp: function_outcome_def)
  with o rp_frame_trans [of "{}" s s1 s'] rp_frame_dom [of "{}" s1 s'] show ?case
    by (auto simp: function_outcome_def)
qed simp

lemma visit_succs:
  assumes VB: "\<And>t s s'. t \<in> set ts \<Longrightarrow> block_ready ir f {t} s \<Longrightarrow> visit_block n ir f t s = Some s' \<Longrightarrow>
      block_outcome ir f {t} s s'"
    and "block_ready ir f (set ts) s" "fold_opt (visit_block n ir f) ts s = Some s'"
  shows "rp_inv ir s' \<and> rp_frame {f} s s' \<and> set ts \<subseteq> rp_visited s' \<and>
     (\<exists>N. rp_blocks s' f = Some (the (rp_blocks s f) @ N) \<and> post_segment ir (set ts) N \<and>
        set N \<inter> rp_visited s = {})"
  using assms
proof (induction ts arbitrary: s)
  case Nil
  then show ?case by (auto simp: block_ready_def intro: post_segment_Nil)
next
  case (Cons t ts)
  from Cons.prems(3) obtain s1 where 1: "visit_block n ir f t s = Some s1"
    "fold_opt (visit_block n ir f) ts s1 = Some s'"
    by (auto simp: bind_eq_Some_conv)
  from Cons.prems(2) have "block_ready ir f {t} s" by (simp add: block_ready_def)
  from Cons.prems(1) [OF _ this 1(1)] obtain N1 where o: "rp_inv ir s1" "rp_frame {f} s s1" "t \<in> rp_visited s1"
    and N1: "rp_blocks s1 f = Some (the (rp_blocks s f) @ N1)" "post_segment ir {t} N1"
      "set N1 \<inter> rp_visited s = {}"
    by (auto simp: block_outcome_def)
  from Cons.prems(2) o N1 rp_frame_functions [OF o(2)] have "block_ready ir f (set ts) s1"
    by (auto simp: block_ready_def)
  from Cons.IH [OF _ this 1(2)] Cons.prems(1) obtain N2 where o2: "rp_inv ir s'" "rp_frame {f} s1 s'"
      "set ts \<subseteq> rp_visited s'"
    and N2: "rp_blocks s' f = Some (the (rp_blocks s1 f) @ N2)" "post_segment ir (set ts) N2"
      "set N2 \<inter> rp_visited s1 = {}"
    by auto
  have "u \<in> finished s1" if "u \<in> set N1" for u
    using N1(1) that by (auto intro: finishedI)
  then have "u \<in> rp_visited s1 \<and> set (succs_of ir u) \<subseteq> rp_visited s1" if "u \<in> set N1" for u
    using rp_inv_closed [OF o(1)] that by blast
  with N2(3) have "set N1 \<inter> set N2 = {}" "\<And>u. u \<in> set N1 \<Longrightarrow> set (succs_of ir u) \<inter> set N2 = {}"
    by blast+
  from post_segment_append [OF N1(2) N2(2) this]
  have seg: "post_segment ir (set (t # ts)) (N1 @ N2)" by simp
  have vis: "rp_visited s \<subseteq> rp_visited s1" "rp_visited s1 \<subseteq> rp_visited s'"
    using o(2) o2(2) by (auto simp: rp_frame_def)
  have "rp_frame {f} s s'"
    using rp_frame_trans [OF o(2) o2(2)] Cons.prems(2) by (auto simp: block_ready_def)
  moreover have "set (N1 @ N2) \<inter> rp_visited s = {}" using N1(3) N2(3) vis by auto
  moreover have "rp_blocks s' f = Some (the (rp_blocks s f) @ (N1 @ N2))" using N1(1) N2(1) by simp
  ultimately show ?case
    using o2 seg o(3) vis by (auto intro!: exI [of _ "N1 @ N2"])
qed


definition list_of :: "rpo_state \<Rightarrow> nat \<Rightarrow> nat list" where
  "list_of s g = (case rp_blocks s g of None \<Rightarrow> [] | Some L \<Rightarrow> L)"

lemma in_list_of: "u \<in> set (list_of s g) \<longleftrightarrow> (\<exists>L. rp_blocks s g = Some L \<and> u \<in> set L)"
  by (cases "rp_blocks s g") (simp_all add: list_of_def)

lemma finished_split: "finished s = set (list_of s f) \<union> (\<Union>g\<in>- {f}. set (list_of s g))"
proof -
  have "finished s = (\<Union>g. set (list_of s g))"
    by (rule set_eqI) (simp add: finished_iff in_list_of)
  also have "UNIV = insert f (- {f})" by auto
  finally show ?thesis by simp
qed

lemma finished_upd:
  "finished (s\<lparr>rp_blocks := (rp_blocks s)(f \<mapsto> L)\<rparr>) = set L \<union> (\<Union>g\<in>- {f}. set (list_of s g))"
  by (simp add: finished_split [of _ f] list_of_def)

lemma finished_extend:
  "rp_blocks s f = Some M \<Longrightarrow>
     finished (s\<lparr>rp_blocks := (rp_blocks s)(f \<mapsto> M @ xs)\<rparr>) = finished s \<union> set xs"
  unfolding finished_upd finished_split [of s f] by (auto simp: list_of_def)

lemma finished_same:
  "set L = set (list_of s f) \<Longrightarrow> finished (s\<lparr>rp_blocks := (rp_blocks s)(f \<mapsto> L)\<rparr>) = finished s"
  unfolding finished_upd finished_split [of s f] by simp

lemma rp_inv_visited:
  assumes "rp_inv ir s"
  shows "rp_inv ir (s\<lparr>rp_visited := insert b (rp_visited s)\<rparr>)"
proof -
  have "finished (s\<lparr>rp_visited := insert b (rp_visited s)\<rparr>) = finished s" by (simp add: finished_def)
  with assms show ?thesis unfolding rp_inv_def by auto
qed

lemma rp_inv_block_done:
  assumes inv: "rp_inv ir s" and f: "rp_blocks s f = Some M" "f \<notin> set (rp_functions s)"
    and b: "b \<in> rp_visited s" "b \<notin> finished s" "block_reach ir (entry_of ir f) b"
    and closed: "set (succs_of ir b) \<subseteq> rp_visited s" "set (callees_of ir b) \<subseteq> dom (rp_blocks s)"
  shows "rp_inv ir (s\<lparr>rp_blocks := (rp_blocks s)(f \<mapsto> M @ [b])\<rparr>)"
proof -
  let ?s = "s\<lparr>rp_blocks := (rp_blocks s)(f \<mapsto> M @ [b])\<rparr>"
  have fin: "finished ?s = insert b (finished s)"
    using finished_extend [OF f(1), of "[b]"] by simp
  have dom: "dom (rp_blocks ?s) = dom (rp_blocks s)" using f(1) by auto
  have new: "b \<notin> set L" if "rp_blocks s g = Some L" for g L
    using b(2) that by (auto intro: finishedI)
  have "distinct L \<and> live_function ir g \<and> (\<forall>u\<in>set L. block_reach ir (entry_of ir g) u)"
    if "rp_blocks ?s g = Some L" for g L
  proof (cases "g = f")
    case True
    with that f(1) inv new [OF f(1)] b(3) show ?thesis by (auto simp: rp_inv_def)
  next
    case False
    with that have "rp_blocks s g = Some L" by simp
    with inv show ?thesis unfolding rp_inv_def by blast
  qed
  moreover have "set L \<inter> set K = {}"
    if "g \<noteq> h" "rp_blocks ?s g = Some L" "rp_blocks ?s h = Some K" for g h L K
  proof -
    have old: "set L' \<inter> set K' = {}" if "g' \<noteq> h'" "rp_blocks s g' = Some L'" "rp_blocks s h' = Some K'" for g' h' L' K'
      using inv that unfolding rp_inv_def by blast
    show ?thesis
      using that f(1) new old [of g h] by (cases "g = f"; cases "h = f") (auto simp: disjoint_iff)
  qed
  moreover have "rpo_list ir (entry_of ir g) (the (rp_blocks ?s g))" if "g \<in> set (rp_functions s)" for g
    using that f(2) inv by (cases "g = f") (auto simp: rp_inv_def)
  moreover have "set (succs_of ir u) \<subseteq> rp_visited s \<and> set (callees_of ir u) \<subseteq> dom (rp_blocks s)"
    if "u \<in> finished ?s" for u
    using that rp_inv_closed [OF inv] closed unfolding fin by blast
  ultimately show ?thesis
    using inv b(1) unfolding rp_inv_def dom fin by simp
qed

lemma visit_block_outcome:
  assumes ix: "ir_indexed ir" and ready: "block_ready ir f {b} s"
    and VF: "\<And>g s s'. g < length (ir_functions ir) \<Longrightarrow> live_function ir g \<Longrightarrow> rp_inv ir s \<Longrightarrow>
      visit_function n ir g s = Some s' \<Longrightarrow> function_outcome ir g s s'"
    and VB: "\<And>t s s'. block_ready ir f {t} s \<Longrightarrow> visit_block n ir f t s = Some s' \<Longrightarrow>
      block_outcome ir f {t} s s'"
    and run: "visit_block (Suc n) ir f b s = Some s'"
  shows "block_outcome ir f {b} s s'"
proof (cases "b \<in> rp_visited s")
  case True
  with ready run show ?thesis
    by (auto simp: block_ready_def block_outcome_def visit_block_Suc [OF ix] intro: post_segment_Nil)
next
  case False
  from ready have inv: "rp_inv ir s" and fd: "f \<in> dom (rp_blocks s)" "f \<notin> set (rp_functions s)"
    and b: "b < length (ir_blocks ir)" "block_reach ir (entry_of ir f) b"
    by (auto simp: block_ready_def)
  let ?s1 = "s\<lparr>rp_visited := insert b (rp_visited s)\<rparr>"
  from run False obtain s2 s3 M where s2: "fold_opt (visit_function n ir) (callees_of ir b) ?s1 = Some s2"
    and s3: "fold_opt (visit_block n ir f) (succs_of ir b) s2 = Some s3"
    and M: "rp_blocks s3 f = Some M" and s': "s' = s3\<lparr>rp_blocks := (rp_blocks s3)(f \<mapsto> M @ [b])\<rparr>"
    by (auto simp: visit_block_Suc [OF ix b(1)] bind_eq_Some_conv)
  from fd inv have live: "live_function ir f" unfolding rp_inv_def by blast
  have "rp_inv ir s2 \<and> rp_frame {} ?s1 s2 \<and> set (callees_of ir b) \<subseteq> dom (rp_blocks s2)"
  proof (rule visit_callees [OF _ rp_inv_visited [OF inv] s2])
    fix g t t'
    assume g: "g \<in> set (callees_of ir b)" and t: "rp_inv ir t" "visit_function n ir g t = Some t'"
    from g have "g < length (ir_functions ir)" using callees_in_range [OF ix] by auto
    from VF [OF this live_call [OF live b(2) g] t] show "function_outcome ir g t t'" .
  qed
  then have 2: "rp_inv ir s2" "rp_frame {} ?s1 s2" "set (callees_of ir b) \<subseteq> dom (rp_blocks s2)"
    by blast+
  have f2: "rp_blocks s2 f = rp_blocks s f" using 2(2) fd by (auto simp: rp_frame_def)
  have "block_reach ir (entry_of ir f) t" "t < length (ir_blocks ir)" if "t \<in> set (succs_of ir b)" for t
    using b(2) that ir_indexed_succs(2) [OF ix b(1)] by (auto intro: reach_step)
  moreover have "f \<notin> set (rp_functions s2)" using rp_frame_functions [OF 2(2)] fd by simp
  moreover have "f \<in> dom (rp_blocks s2)" using fd f2 by auto
  ultimately have "block_ready ir f (set (succs_of ir b)) s2" using 2(1) by (simp add: block_ready_def)
  from visit_succs [OF VB this s3] obtain N where 3: "rp_inv ir s3" "rp_frame {f} s2 s3"
      "set (succs_of ir b) \<subseteq> rp_visited s3"
    and N: "rp_blocks s3 f = Some (the (rp_blocks s f) @ N)" "post_segment ir (set (succs_of ir b)) N"
      "set N \<inter> rp_visited s2 = {}"
    unfolding f2 by blast
  have fr: "rp_frame {f} ?s1 s3"
    using rp_frame_trans [OF rp_frame_mono [OF 2(2)] 3(2)] fd by auto
  have fin1: "finished ?s1 = finished s" by (simp add: finished_def)
  have bs: "b \<notin> finished s" using False inv by (auto simp: rp_inv_def)
  from fr have gray: "rp_visited s3 - finished s3 = insert b (rp_visited s) - finished s"
    and vis: "insert b (rp_visited s) \<subseteq> rp_visited s3" by (auto simp: rp_frame_def fin1)
  with bs have b3: "b \<in> rp_visited s3" "b \<notin> finished s3" by blast+
  have f3: "f \<notin> set (rp_functions s3)" using rp_frame_functions [OF fr] fd by simp
  have cal: "set (callees_of ir b) \<subseteq> dom (rp_blocks s3)" using 2(3) rp_frame_dom [OF 3(2)] by blast
  have inv': "rp_inv ir s'"
    unfolding s' by (rule rp_inv_block_done [OF 3(1) M f3 b3 b(2) 3(3) cal])
  have bN: "b \<notin> set N" using b3(2) N(1) by (auto intro: finishedI)
  have fin': "finished s' = insert b (finished s3)"
    using finished_extend [OF M, of "[b]"] by (simp add: s')
  have dom': "dom (rp_blocks s') = dom (rp_blocks s3)" using M by (auto simp: s')
  have same: "rp_blocks s' g = rp_blocks s g" if "g \<in> dom (rp_blocks s) - {f}" for g
    using fr that unfolding rp_frame_def s' by simp
  have "\<exists>F. rp_functions s' = rp_functions s @ F \<and> set F = dom (rp_blocks s') - dom (rp_blocks s)"
    unfolding dom' using fr by (simp add: rp_frame_def s')
  moreover have "rp_visited s' - finished s' = rp_visited s - finished s"
  proof -
    have "rp_visited s' = rp_visited s3" by (simp add: s')
    then have "rp_visited s' - finished s' = rp_visited s3 - finished s3 - {b}"
      unfolding fin' by blast
    also have "\<dots> = rp_visited s - finished s" unfolding gray using False by blast
    finally show ?thesis .
  qed
  ultimately have frame: "rp_frame {f} s s'"
    using same vis rp_frame_dom [OF fr] unfolding rp_frame_def dom' by (auto simp: s')
  have new: "set (N @ [b]) \<inter> rp_visited s = {}"
    using N(3) False 2(2) by (auto simp: rp_frame_def)
  have list: "rp_blocks s' f = Some (the (rp_blocks s f) @ (N @ [b]))"
    using N(1) M by (simp add: s')
  have "{b} \<subseteq> rp_visited s'" using vis by (simp add: s')
  moreover have "\<forall>c. {b} = {c} \<longrightarrow>
      (if c \<in> rp_visited s then N @ [b] = [] else N @ [b] \<noteq> [] \<and> last (N @ [b]) = c)"
    using False by simp
  ultimately show ?thesis
    unfolding block_outcome_def
    using inv' frame list post_segment_close [OF N(2) bN] new by blast
qed


lemma visit_function_outcome:
  assumes ix: "ir_indexed ir" and g: "g < length (ir_functions ir)" "live_function ir g"
    and inv: "rp_inv ir s"
    and VB: "\<And>f b s s'. block_ready ir f {b} s \<Longrightarrow> visit_block n ir f b s = Some s' \<Longrightarrow>
      block_outcome ir f {b} s s'"
    and run: "visit_function (Suc n) ir g s = Some s'"
  shows "function_outcome ir g s s'"
proof (cases "rp_blocks s g")
  case (Some L)
  with run inv show ?thesis by (auto simp: function_outcome_def)
next
  case None
  let ?e = "entry_of ir g"
  let ?s1 = "s\<lparr>rp_blocks := (rp_blocks s)(g \<mapsto> [])\<rparr>"
  from run None g(1) obtain s2 N where s2: "visit_block n ir g ?e ?s1 = Some s2"
    and N: "rp_blocks s2 g = Some N"
    and s': "s' = s2\<lparr>rp_blocks := (rp_blocks s2)(g \<mapsto> rev N), rp_functions := rp_functions s2 @ [g]\<rparr>"
    by (auto simp: entry_of_def bind_eq_Some_conv)
  have gs: "g \<notin> set (rp_functions s)" using inv None by (auto simp: rp_inv_def)
  have fin1: "finished ?s1 = finished s"
    using None by (intro finished_same) (simp add: list_of_def)
  have inv1: "rp_inv ir ?s1"
  proof -
    have "distinct L \<and> live_function ir h \<and> (\<forall>u\<in>set L. block_reach ir (entry_of ir h) u)"
      if "rp_blocks ?s1 h = Some L" for h L
    proof (cases "h = g")
      case False
      with that have "rp_blocks s h = Some L" by simp
      with inv show ?thesis unfolding rp_inv_def by blast
    qed (use that g in auto)
    moreover have "set L \<inter> set K = {}" if "h \<noteq> k" "rp_blocks ?s1 h = Some L" "rp_blocks ?s1 k = Some K" for h k L K
    proof (cases "h = g \<or> k = g")
      case False
      with that have "rp_blocks s h = Some L" "rp_blocks s k = Some K" by auto
      with inv that(1) show ?thesis unfolding rp_inv_def by blast
    qed (use that in auto)
    moreover have "rpo_list ir (entry_of ir h) (the (rp_blocks ?s1 h))" if "h \<in> set (rp_functions s)" for h
      using that gs inv by (cases "h = g") (auto simp: rp_inv_def)
    moreover have "set (succs_of ir u) \<subseteq> rp_visited s \<and> set (callees_of ir u) \<subseteq> dom (rp_blocks ?s1)"
      if "u \<in> finished s" for u
      using rp_inv_closed [OF inv that] by auto
    ultimately show ?thesis
      using inv unfolding rp_inv_def fin1 by auto
  qed
  moreover have "?e < length (ir_blocks ir)" using ix g(1) by (auto simp: ir_indexed_def entry_of_def)
  ultimately have "block_ready ir g {?e} ?s1" using gs by (auto simp: block_ready_def intro: reach_refl)
  from VB [OF this s2] N have inv2: "rp_inv ir s2" and fr: "rp_frame {g} ?s1 s2"
    and e: "?e \<in> rp_visited s2" and seg: "post_segment ir {?e} N" and last: "N \<noteq> [] \<longrightarrow> last N = ?e"
    by (auto simp: block_outcome_def split: if_splits)
  have list: "rpo_list ir ?e (rev N)"
    using seg last by (auto simp: rpo_list_def hd_rev)
  have gs2: "g \<notin> set (rp_functions s2)" using rp_frame_functions [OF fr] gs by simp
  have dom': "dom (rp_blocks s') = dom (rp_blocks s2)" using N by (auto simp: s')
  have fin': "finished s' = finished s2"
    using finished_same [of "rev N" s2 g] N by (simp add: s' list_of_def finished_def)
  have inv': "rp_inv ir s'"
  proof -
    have "distinct L \<and> live_function ir h \<and> (\<forall>u\<in>set L. block_reach ir (entry_of ir h) u)"
      if "rp_blocks s' h = Some L" for h L
    proof -
      from that N obtain L' where L': "rp_blocks s2 h = Some L'" "L = L' \<or> L = rev L'"
        by (auto simp: s' split: if_splits)
      with inv2 have "distinct L' \<and> live_function ir h \<and> (\<forall>u\<in>set L'. block_reach ir (entry_of ir h) u)"
        unfolding rp_inv_def by blast
      with L'(2) show ?thesis by auto
    qed
    moreover have "set L \<inter> set K = {}" if "h \<noteq> k" "rp_blocks s' h = Some L" "rp_blocks s' k = Some K" for h k L K
    proof -
      from that(2,3) N obtain L' K' where LK: "rp_blocks s2 h = Some L'" "set L = set L'"
        "rp_blocks s2 k = Some K'" "set K = set K'"
        by (auto simp: s' split: if_splits)
      with inv2 that(1) have "set L' \<inter> set K' = {}" unfolding rp_inv_def by blast
      with LK show ?thesis by simp
    qed
    moreover have "entry_of ir h \<in> rp_visited s' \<and> rpo_list ir (entry_of ir h) (the (rp_blocks s' h))"
      if "h \<in> set (rp_functions s')" for h
      using that e list inv2 gs2 by (cases "h = g") (auto simp: s' rp_inv_def)
    ultimately show ?thesis
      using inv2 gs2 N unfolding rp_inv_def fin' dom' by (auto simp: s')
  qed
  have "rp_frame {} s s'"
  proof -
    have same: "rp_blocks s' h = rp_blocks s h" if "h \<in> dom (rp_blocks s)" for h
      using fr that None unfolding rp_frame_def s' by (cases "h = g") auto
    from fr obtain F where F: "rp_functions s2 = rp_functions s @ F"
      "set F = dom (rp_blocks s2) - insert g (dom (rp_blocks s))" by (auto simp: rp_frame_def)
    then have "rp_functions s' = rp_functions s @ (F @ [g])"
      "set (F @ [g]) = dom (rp_blocks s') - dom (rp_blocks s)"
      using N None by (auto simp: s' dom_def)
    then have "\<exists>F. rp_functions s' = rp_functions s @ F \<and> set F = dom (rp_blocks s') - dom (rp_blocks s)" by blast
    moreover have "rp_visited s \<subseteq> rp_visited s'" "rp_visited s' - finished s' = rp_visited s - finished s"
      using fr unfolding rp_frame_def fin' fin1 by (auto simp: s')
    ultimately show ?thesis using same unfolding rp_frame_def by auto
  qed
  with inv' N show ?thesis by (auto simp: function_outcome_def s')
qed

lemma visits_outcome:
  assumes ix: "ir_indexed ir"
  shows "(\<forall>g s s'. g < length (ir_functions ir) \<longrightarrow> live_function ir g \<longrightarrow> rp_inv ir s \<longrightarrow>
            visit_function n ir g s = Some s' \<longrightarrow> function_outcome ir g s s') \<and>
         (\<forall>f b s s'. block_ready ir f {b} s \<longrightarrow> visit_block n ir f b s = Some s' \<longrightarrow>
            block_outcome ir f {b} s s')"
proof (induction n)
  case (Suc n)
  then have IHf: "\<And>g s s'. g < length (ir_functions ir) \<Longrightarrow> live_function ir g \<Longrightarrow> rp_inv ir s \<Longrightarrow>
      visit_function n ir g s = Some s' \<Longrightarrow> function_outcome ir g s s'"
    and IHb: "\<And>f b s s'. block_ready ir f {b} s \<Longrightarrow> visit_block n ir f b s = Some s' \<Longrightarrow>
      block_outcome ir f {b} s s'"
    by blast+
  show ?case
    using visit_function_outcome [OF ix _ _ _ IHb] visit_block_outcome [OF ix _ IHf IHb] by blast
qed simp


subsection \<open>The whole order\<close>

lemma rp_inv_empty: "rp_inv ir rp_empty"
  by (simp add: rp_inv_def rp_empty_def finished_def)

lemma visit_root:
  assumes ix: "ir_indexed ir" and g: "g \<in> root_functions ir" and "rp_inv ir s"
    and "visit_function n ir g s = Some s'"
  shows "rp_inv ir s'" "rp_frame {} s s'" "g \<in> dom (rp_blocks s')"
proof -
  have "g < length (ir_functions ir)" using ix g by (auto simp: ir_indexed_def)
  with visits_outcome [OF ix, of n] live_root [OF g] assms(3,4) have "function_outcome ir g s s'" by blast
  then show "rp_inv ir s'" "rp_frame {} s s'" "g \<in> dom (rp_blocks s')"
    by (simp_all add: function_outcome_def)
qed

definition rp_total :: "ir_program \<Rightarrow> rpo_state \<Rightarrow> bool" where
  "rp_total ir s \<longleftrightarrow> rp_inv ir s \<and> root_functions ir \<subseteq> dom (rp_blocks s) \<and>
     set (rp_functions s) = dom (rp_blocks s) \<and> rp_visited s = finished s"

lemma rpo_compute_total:
  assumes ix: "ir_indexed ir" and run: "rpo_compute ir = Some s"
  obtains t where "rp_total ir t" "s = t\<lparr>rp_functions := rev (rp_functions t)\<rparr>"
proof -
  have init: "ir_init_entry ir \<in> root_functions ir" by (simp add: root_functions_def)
  from run obtain s1 where s1: "visit_function (rpo_fuel ir) ir (ir_init_entry ir) rp_empty = Some s1"
    by (auto simp: rpo_compute_def bind_eq_Some_conv)
  note 1 = visit_root [OF ix init rp_inv_empty s1]
  obtain t where t: "rp_inv ir t" "rp_frame {} s1 t" "set_option (ir_main_entry ir) \<subseteq> dom (rp_blocks t)"
    and s: "s = t\<lparr>rp_functions := rev (rp_functions t)\<rparr>"
  proof (cases "ir_main_entry ir")
    case None
    show ?thesis
      by (rule that [of s1]) (use run s1 None 1 in \<open>simp_all add: rpo_compute_def\<close>)
  next
    case (Some m)
    then have m: "m \<in> root_functions ir" by (simp add: root_functions_def)
    from run s1 Some obtain t where t: "visit_function (rpo_fuel ir) ir m s1 = Some t"
      "s = t\<lparr>rp_functions := rev (rp_functions t)\<rparr>"
      by (auto simp: rpo_compute_def bind_eq_Some_conv)
    show ?thesis
      by (rule that [of t]) (use visit_root [OF ix m 1(1) t(1)] t(2) Some in simp_all)
  qed
  have fr: "rp_frame {} rp_empty t" by (rule rp_frame_trans [OF 1(2) t(2)]) simp
  have e: "finished rp_empty = {}" by (simp add: finished_def rp_empty_def)
  from fr have "set (rp_functions t) = dom (rp_blocks t)" "rp_visited t - finished t = {}"
    by (auto simp: rp_frame_def e rp_empty_def)
  moreover have "root_functions ir \<subseteq> dom (rp_blocks t)"
    using 1(3) t(3) rp_frame_dom [OF t(2)] by (auto simp: root_functions_def)
  ultimately have "rp_total ir t" using t(1) by (auto simp: rp_total_def rp_inv_def)
  from that [OF this s] show ?thesis .
qed

lemma rp_total_reach:
  assumes tot: "rp_total ir s" and "u \<in> finished s" "block_reach ir u v"
  shows "v \<in> finished s"
  using assms(3,2)
proof (induction rule: block_reach.induct)
  case (reach_step a b c)
  then have "c \<in> rp_visited s" using rp_inv_closed [of ir s b] tot by (auto simp: rp_total_def)
  with tot show ?case by (simp add: rp_total_def)
qed

lemma rp_total_list:
  assumes "rp_total ir s" "rp_blocks s g = Some L"
  shows "live_function ir g" "distinct L" "u \<in> set L \<Longrightarrow> block_reach ir (entry_of ir g) u"
  using assms unfolding rp_total_def rp_inv_def by blast+

lemma rp_total_entry: "rp_total ir s \<Longrightarrow> f \<in> dom (rp_blocks s) \<Longrightarrow> entry_of ir f \<in> finished s"
  unfolding rp_total_def rp_inv_def by blast

lemma rp_total_live:
  assumes tot: "rp_total ir s"
  shows "live_function ir f \<longleftrightarrow> f \<in> dom (rp_blocks s)" and "live_block ir b \<longleftrightarrow> b \<in> finished s"
proof -
  have "f \<in> dom (rp_blocks s)" if "live_function ir f" for f
    using that
  proof (induction rule: live_function.induct)
    case (live_call f b g)
    have "b \<in> finished s" by (rule rp_total_reach [OF tot rp_total_entry [OF tot live_call.IH] live_call.hyps(2)])
    with tot live_call.hyps(3) show ?case using rp_inv_closed [of ir s b] by (auto simp: rp_total_def)
  qed (use tot in \<open>auto simp: rp_total_def\<close>)
  moreover have "live_function ir f" if "f \<in> dom (rp_blocks s)" for f
    using that rp_total_list(1) [OF tot] by blast
  ultimately show live: "live_function ir f \<longleftrightarrow> f \<in> dom (rp_blocks s)" for f by blast
  have "live_block ir b" if "b \<in> finished s"
  proof -
    from that obtain g L where "rp_blocks s g = Some L" "b \<in> set L" by (auto simp: finished_iff)
    with rp_total_list [OF tot] show ?thesis unfolding live_block_def by blast
  qed
  moreover have "b \<in> finished s" if "live_block ir b"
  proof -
    from that obtain f where f: "live_function ir f" "block_reach ir (entry_of ir f) b"
      by (auto simp: live_block_def)
    from f(1) live have "f \<in> dom (rp_blocks s)" by blast
    from rp_total_reach [OF tot rp_total_entry [OF tot this] f(2)] show ?thesis .
  qed
  ultimately show "live_block ir b \<longleftrightarrow> b \<in> finished s" by blast
qed

lemma concat_opt_total:
  assumes "\<forall>x\<in>set xs. g x \<noteq> None"
  shows "concat_opt (map g xs) = Some (concat (map (\<lambda>x. the (g x)) xs))"
  using assms by (induction xs) auto

lemma rp_total_blocks:
  assumes tot: "rp_total ir s" and fs: "distinct fs" "set fs = dom (rp_blocks s)"
  shows "concat_opt (map (rp_blocks s) fs) = Some (concat (map (\<lambda>f. the (rp_blocks s f)) fs))"
    and "distinct (concat (map (\<lambda>f. the (rp_blocks s f)) fs))"
    and "set (concat (map (\<lambda>f. the (rp_blocks s f)) fs)) = finished s"
proof -
  show "concat_opt (map (rp_blocks s) fs) = Some (concat (map (\<lambda>f. the (rp_blocks s f)) fs))"
    by (rule concat_opt_total) (use fs in auto)
  have "distinct (concat (map (\<lambda>f. the (rp_blocks s f)) gs))"
    if "distinct gs" "set gs \<subseteq> dom (rp_blocks s)" for gs
    using that
  proof (induction gs)
    case (Cons g gs)
    then obtain L where L: "rp_blocks s g = Some L" by auto
    have "set L \<inter> set (the (rp_blocks s h)) = {}" if h: "h \<in> set gs" for h
    proof -
      from h Cons.prems obtain M where "rp_blocks s h = Some M" "g \<noteq> h" by auto
      with L tot show ?thesis unfolding rp_total_def rp_inv_def by (metis option.sel)
    qed
    moreover have "distinct L" using L tot unfolding rp_total_def rp_inv_def by blast
    ultimately show ?case using Cons L by auto
  qed simp
  with fs show "distinct (concat (map (\<lambda>f. the (rp_blocks s f)) fs))" by simp
  show "set (concat (map (\<lambda>f. the (rp_blocks s f)) fs)) = finished s"
    using fs(2) by (force simp: finished_iff dom_def)
qed

lemma rpo_order:
  assumes "ir_indexed ir" "rpo_compute ir = Some s"
  obtains bs where "distinct (rp_functions s)" "set (rp_functions s) = {f. live_function ir f}"
    "dom (rp_blocks s) = {f. live_function ir f}"
    "rp_blocks_rpo s = Some bs" "distinct bs" "set bs = {b. live_block ir b}"
    "bs = concat (map (\<lambda>f. the (rp_blocks s f)) (rp_functions s))"
proof -
  obtain t where t: "rp_total ir t" and s: "s = t\<lparr>rp_functions := rev (rp_functions t)\<rparr>"
    using rpo_compute_total [OF assms] .
  have fs: "distinct (rev (rp_functions t))" "set (rev (rp_functions t)) = dom (rp_blocks t)"
    using t by (auto simp: rp_total_def rp_inv_def)
  note b = rp_total_blocks [OF t fs]
  show ?thesis
    by (rule that [of "concat (map (\<lambda>f. the (rp_blocks s f)) (rp_functions s))"])
      (use b fs rp_total_live [OF t] in \<open>auto simp: s rp_blocks_rpo_def simp del: map_eq_conv concat_map_singleton\<close>)
qed


lemma rpo_lists:
  assumes "ir_indexed ir" "rpo_compute ir = Some s" "rp_blocks s f = Some L"
  shows "rpo_list ir (entry_of ir f) L" "live_function ir f"
proof -
  obtain t where t: "rp_total ir t" and s: "s = t\<lparr>rp_functions := rev (rp_functions t)\<rparr>"
    using rpo_compute_total [OF assms(1,2)] .
  have L: "rp_blocks t f = Some L" using assms(3) by (simp add: s)
  show "live_function ir f" by (rule rp_total_list(1) [OF t L])
  from L t have f: "f \<in> set (rp_functions t)" by (auto simp: rp_total_def)
  from t have "\<forall>g\<in>set (rp_functions t). rpo_list ir (entry_of ir g) (the (rp_blocks t g))"
    unfolding rp_total_def rp_inv_def by blast
  with f L show "rpo_list ir (entry_of ir f) L" by force
qed

lemma rpo_live_blocks:
  assumes "ir_indexed ir"
  shows "\<exists>s bs. rpo_compute ir = Some s \<and> rp_blocks_rpo s = Some bs \<and>
    distinct (rp_functions s) \<and> set (rp_functions s) = {f. live_function ir f} \<and>
    distinct bs \<and> set bs = {b. live_block ir b} \<and> reachable_compute s = Some {b. live_block ir b}"
proof -
  obtain s where s: "rpo_compute ir = Some s" using rpo_compute_returns [OF assms] by blast
  obtain bs where bs: "distinct (rp_functions s)" "set (rp_functions s) = {f. live_function ir f}"
    "rp_blocks_rpo s = Some bs" "distinct bs" "set bs = {b. live_block ir b}"
    by (rule rpo_order [OF assms s])
  have "fold insert xs A = set xs \<union> A" for xs and A :: "nat set"
    by (induction xs arbitrary: A) auto
  with s bs show ?thesis by (auto simp: reachable_compute_def)
qed

text \<open>C18: On a program whose indices are in range the search returns; the functions
  of its order are, each once, those the entry points reach through calls, and its blocks are, each
  once, those such a function reaches from its entry.\<close>

theorem rpo_covers_live_blocks:
  assumes "ir_indexed ir"
  shows "\<exists>s bs. rpo_compute ir = Some s \<and> rp_blocks_rpo s = Some bs \<and>
    distinct (rp_functions s) \<and> set (rp_functions s) = {f. live_function ir f} \<and>
    distinct bs \<and> set bs = {b. live_block ir b} \<and> reachable_compute s = Some {b. live_block ir b}"
  by (rule rpo_live_blocks [OF assms])

lemma rpo_forward:
  assumes "ir_indexed ir" "rpo_compute ir = Some s" "rp_blocks s f = Some L"
  shows "(L \<noteq> [] \<longrightarrow> hd L = fn_entry (ir_functions ir ! f)) \<and>
    (\<forall>i<length L. 0 < i \<longrightarrow> (\<exists>j<i. L ! i \<in> set (succs_of ir (L ! j)))) \<and>
    (\<forall>i<length L. \<forall>j<length L. L ! j \<in> set (succs_of ir (L ! i)) \<longrightarrow>
       i < j \<or> block_reach ir (L ! j) (L ! i))"
proof -
  note L = rpo_lists(1) [OF assms, unfolded rpo_list_def]
  then have seg: "post_segment ir {entry_of ir f} (rev L)" by simp
  then have d: "distinct L" by (simp add: post_segment_def)
  have nth: "rev L ! (length L - Suc i) = L ! i" if "i < length L" for i
    using that by (simp add: rev_nth)
  have "\<exists>j<i. L ! i \<in> set (succs_of ir (L ! j))" if i: "i < length L" "0 < i" for i
  proof -
    from i have "L \<noteq> []" by auto
    with d i have "L ! i \<noteq> hd L" by (simp add: hd_conv_nth nth_eq_iff_index_eq)
    then have "rev L ! (length L - Suc i) \<notin> {entry_of ir f}" using L nth i by auto
    moreover have "length L - Suc i < length (rev L)" using i by simp
    ultimately obtain k where "length L - Suc i < k" "k < length (rev L)"
      "rev L ! (length L - Suc i) \<in> set (succs_of ir (rev L ! k))"
      using seg unfolding post_segment_def by blast
    then have "length L - Suc i < k" "k < length L" "L ! i \<in> set (succs_of ir (rev L ! k))"
      using nth [OF i(1)] by simp_all
    then show ?thesis using i by (intro exI [of _ "length L - Suc k"]) (auto simp: rev_nth)
  qed
  moreover have "i < j \<or> block_reach ir (L ! j) (L ! i)"
    if "i < length L" "j < length L" "L ! j \<in> set (succs_of ir (L ! i))" for i j
  proof -
    let ?k = "length L - Suc i"
    have "?k < length (rev L)" using that(1) by auto
    moreover have "L ! j \<in> set (succs_of ir (rev L ! ?k)) \<inter> set (rev L)" using that nth by simp
    ultimately have "L ! j \<in> set (take ?k (rev L)) \<or> block_reach ir (L ! j) (rev L ! ?k)"
      using seg unfolding post_segment_def by blast
    then show ?thesis
    proof
      assume "L ! j \<in> set (take ?k (rev L))"
      then have "L ! j \<in> set (drop (Suc i) L)" using that(1) by (simp add: take_rev)
      then obtain k where "k < length L - Suc i" "L ! j = L ! (Suc i + k)" by (auto simp: in_set_conv_nth)
      with d that(2) have "j = Suc i + k" by (simp add: nth_eq_iff_index_eq)
      then show ?thesis by simp
    qed (use nth that(1) in simp)
  qed
  ultimately show ?thesis using L by (auto simp: entry_of_def)
qed

text \<open>C19: The list of a function starts with its entry block; every other block comes
  after one of its predecessors; and an edge between two blocks of the list goes forward unless it
  closes a cycle. So on an acyclic function every block comes after all its predecessors.\<close>

theorem rpo_edges_forward:
  assumes "ir_indexed ir" "rpo_compute ir = Some s" "rp_blocks s f = Some L"
  shows "(L \<noteq> [] \<longrightarrow> hd L = fn_entry (ir_functions ir ! f)) \<and>
    (\<forall>i<length L. 0 < i \<longrightarrow> (\<exists>j<i. L ! i \<in> set (succs_of ir (L ! j)))) \<and>
    (\<forall>i<length L. \<forall>j<length L. L ! j \<in> set (succs_of ir (L ! i)) \<longrightarrow>
       i < j \<or> block_reach ir (L ! j) (L ! i))"
  by (rule rpo_forward [OF assms])

subsection \<open>Predecessors and owners\<close>

lemma preds_push_fold:
  assumes "set ts \<subseteq> {..<length inner}"
  shows "\<exists>inner'. fold_opt (preds_push b) ts inner = Some inner' \<and> length inner' = length inner \<and>
    (\<forall>t<length inner. inner' ! t = inner ! t @ replicate (count_list ts t) b)"
  using assms
proof (induction ts arbitrary: inner)
  case (Cons t ts)
  then have t: "t < length inner" by simp
  from Cons.IH [of "inner[t := inner ! t @ [b]]"] Cons.prems obtain inner' where
    "fold_opt (preds_push b) ts (inner[t := inner ! t @ [b]]) = Some inner'" "length inner' = length inner"
    "\<forall>u<length inner. inner' ! u = inner[t := inner ! t @ [b]] ! u @ replicate (count_list ts u) b"
    by auto
  moreover have "preds_push b t inner = Some (inner[t := inner ! t @ [b]])"
    using t by (simp add: preds_push_def)
  ultimately show ?case by auto
qed simp

definition pred_list :: "ir_program \<Rightarrow> nat set \<Rightarrow> nat list \<Rightarrow> nat \<Rightarrow> nat list" where
  "pred_list ir R bs t = concat (map (\<lambda>b. if b \<in> R then replicate (count_list (succs_of ir b) t) b else []) bs)"

lemma preds_fold:
  assumes ix: "ir_indexed ir" and "set bs \<subseteq> {..<length (ir_blocks ir)}" "length inner = length (ir_blocks ir)"
  shows "\<exists>inner'. fold_opt (\<lambda>b inner. if b \<notin> R then Some inner
        else do { succs \<leftarrow> bv_successors ir b; fold_opt (preds_push b) succs inner }) bs inner = Some inner' \<and>
      length inner' = length inner \<and> (\<forall>t<length inner. inner' ! t = inner ! t @ pred_list ir R bs t)"
  using assms(2,3)
proof (induction bs arbitrary: inner)
  case (Cons b bs)
  show ?case
  proof (cases "b \<in> R")
    case False
    with Cons show ?thesis by (simp add: pred_list_def)
  next
    case True
    from Cons.prems ir_indexed_succs [OF ix, of b] have b: "bv_successors ir b = Some (succs_of ir b)"
      "set (succs_of ir b) \<subseteq> {..<length inner}" by auto
    from preds_push_fold [OF b(2), of b] obtain inner1 where 1:
      "fold_opt (preds_push b) (succs_of ir b) inner = Some inner1" "length inner1 = length inner"
      "\<forall>t<length inner. inner1 ! t = inner ! t @ replicate (count_list (succs_of ir b) t) b" by blast
    with Cons.IH [of inner1] Cons.prems show ?thesis
      using True b(1) by (auto simp: pred_list_def)
  qed
qed (simp add: pred_list_def)

lemma pred_list_count:
  "distinct bs \<Longrightarrow>
     count_list (pred_list ir R bs t) b = (if b \<in> R \<inter> set bs then count_list (succs_of ir b) t else 0)"
proof -
  have c: "count_list (replicate n a) b = (if a = b then n else 0)" for n :: nat and a
    by (induction n) auto
  show "distinct bs \<Longrightarrow> ?thesis" by (induction bs) (auto simp: pred_list_def c)
qed

text \<open>Recomputing the predecessors clears what the lists held, returns, and lists for
  every block each reachable predecessor as often as it has an edge to the block, and no other block.\<close>

theorem predecessors_exact:
  assumes "ir_indexed ir"
  shows "\<exists>inner. preds_compute ir R old = Some inner \<and> length inner = length (ir_blocks ir) \<and>
    (\<forall>t<length (ir_blocks ir). \<forall>b. count_list (inner ! t) b =
       (if b \<in> R \<and> b < length (ir_blocks ir) then count_list (succs_of ir b) t else 0))"
proof -
  let ?n = "length (ir_blocks ir)"
  let ?i = "vec_resize ?n [] (map (\<lambda>_. []) old) :: nat list list"
  have i: "length ?i = ?n" "\<And>t. t < ?n \<Longrightarrow> ?i ! t = []"
    by (auto simp: vec_resize_def nth_append)
  have "set [0..<?n] \<subseteq> {..<?n}" by auto
  from preds_fold [OF assms this i(1), of R] i obtain inner where
    "preds_compute ir R old = Some inner" "length inner = ?n"
    "\<forall>t<?n. inner ! t = pred_list ir R [0..<?n] t"
    by (auto simp: preds_compute_def Let_def)
  then show ?thesis by (auto simp: pred_list_count)
qed


lemma live_block_in_range:
  assumes ix: "ir_indexed ir" and "live_block ir b"
  shows "b < length (ir_blocks ir)"
proof -
  have f: "f < length (ir_functions ir)" if "live_function ir f" for f
    using that
    by (induction rule: live_function.induct) (use ix callees_in_range [OF ix] in \<open>auto simp: ir_indexed_def\<close>)
  have "v < length (ir_blocks ir)" if "block_reach ir u v" "u < length (ir_blocks ir)" for u v
    using that by (induction rule: block_reach.induct) (use ir_indexed_succs(2) [OF ix] in auto)
  moreover have "entry_of ir f < length (ir_blocks ir)" if "live_function ir f" for f
    using f [OF that] ix by (auto simp: ir_indexed_def entry_of_def)
  ultimately show ?thesis using assms(2) by (auto simp: live_block_def)
qed

lemma own_block_fold:
  assumes "set bs \<subseteq> {..<length own}"
  shows "fold_opt (\<lambda>b own. slice_set own b (Some f)) bs own =
    Some (map (\<lambda>(b, c). if b \<in> set bs then Some f else c) (zip [0..<length own] own))"
  using assms
proof (induction bs arbitrary: own)
  case Nil
  show ?case by (simp add: nth_equalityI)
next
  case (Cons b bs)
  then have b: "b < length own" by simp
  from Cons.IH [of "own[b := Some f]"] Cons.prems b show ?case
    by (auto intro!: nth_equalityI simp: nth_list_update)
qed

lemma own_functions_fold:
  assumes "\<And>f. f \<in> set fs \<Longrightarrow> \<exists>L. m f = Some L \<and> set L \<subseteq> {..<length own}"
  shows "\<exists>own'. fold_opt (\<lambda>f own. do { bs \<leftarrow> m f; fold_opt (\<lambda>b own. slice_set own b (Some f)) bs own }) fs own
      = Some own' \<and> length own' = length own \<and>
     (\<forall>b<length own. own' ! b = own ! b \<and> (\<forall>f\<in>set fs. b \<notin> set (the (m f))) \<or>
        (\<exists>f\<in>set fs. own' ! b = Some f \<and> b \<in> set (the (m f))))"
  using assms
proof (induction fs arbitrary: own)
  case (Cons f fs)
  have "f \<in> set (f # fs)" by simp
  from Cons.prems [OF this] obtain L where L: "m f = Some L" "set L \<subseteq> {..<length own}" by blast
  let ?own = "map (\<lambda>(b, c). if b \<in> set L then Some f else c) (zip [0..<length own] own)"
  from Cons.IH [of ?own] Cons.prems obtain own' where own':
    "fold_opt (\<lambda>f own. do { bs \<leftarrow> m f; fold_opt (\<lambda>b own. slice_set own b (Some f)) bs own }) fs ?own = Some own'"
    "length own' = length own"
    "\<forall>b<length own. own' ! b = ?own ! b \<and> (\<forall>f\<in>set fs. b \<notin> set (the (m f))) \<or>
        (\<exists>f\<in>set fs. own' ! b = Some f \<and> b \<in> set (the (m f)))"
    by auto
  have "own' ! b = own ! b \<and> (\<forall>f\<in>set (f # fs). b \<notin> set (the (m f))) \<or>
        (\<exists>f\<in>set (f # fs). own' ! b = Some f \<and> b \<in> set (the (m f)))" if "b < length own" for b
    using own'(3) that L(1) by (cases "b \<in> set L") fastforce+
  with own' L own_block_fold [OF L(2), of f] show ?case by auto
qed simp

text \<open>C21: The ownership analysis returns. The owner of a block is a function the entry
  points reach and whose entry reaches the block; a block without owner is one that no such function
  reaches, and \<open>unreachable_blocks\<close> lists exactly these.\<close>

theorem ownership_exact:
  assumes "ir_indexed ir" "rpo_compute ir = Some s"
  shows "\<exists>own. ownership_compute ir s = Some own \<and> length own = length (ir_blocks ir) \<and>
    (\<forall>b f. get_owner own b = Some (Some f) \<longrightarrow> live_function ir f \<and> block_reach ir (fn_entry (ir_functions ir ! f)) b) \<and>
    (\<forall>b<length (ir_blocks ir). own_is_reachable own b = Some (live_block ir b)) \<and>
    set (unreachable_blocks own) = {b. b < length (ir_blocks ir) \<and> \<not> live_block ir b} \<and>
    (\<forall>f. set (blocks_owned_by own f) = {b. get_owner own b = Some (Some f)})"
proof -
  let ?n = "length (ir_blocks ir)"
  obtain t where t: "rp_total ir t" and s: "s = t\<lparr>rp_functions := rev (rp_functions t)\<rparr>"
    using rpo_compute_total [OF assms] .
  note live = rp_total_live [OF t]
  have reach: "live_function ir g" "u \<in> set L \<Longrightarrow> block_reach ir (entry_of ir g) u"
    if "rp_blocks s g = Some L" for g L u
    using rp_total_list [OF t, of g L] that by (simp_all add: s)
  have fs: "set (rp_functions s) = dom (rp_blocks s)" "distinct (rp_functions s)"
    using t by (auto simp: rp_total_def rp_inv_def s)
  have fin: "live_block ir b \<longleftrightarrow> (\<exists>g L. rp_blocks s g = Some L \<and> b \<in> set L)" for b
    using live(2) by (simp add: finished_iff s)
  have "\<exists>L. rp_blocks s g = Some L \<and> set L \<subseteq> {..<length (replicate ?n (None :: nat option))}"
    if "g \<in> set (rp_functions s)" for g
    using that fs(1) fin live_block_in_range [OF assms(1)] by force
  then obtain own where own: "ownership_compute ir s = Some own" "length own = ?n"
    "\<forall>b<?n. own ! b = None \<and> (\<forall>f\<in>set (rp_functions s). b \<notin> set (the (rp_blocks s f))) \<or>
        (\<exists>f\<in>set (rp_functions s). own ! b = Some f \<and> b \<in> set (the (rp_blocks s f)))"
    unfolding ownership_compute_def
    using own_functions_fold [of "rp_functions s" "rp_blocks s" "replicate ?n None"] by auto
  have some: "live_function ir f \<and> block_reach ir (fn_entry (ir_functions ir ! f)) b \<and> live_block ir b"
    if b: "b < ?n" "own ! b = Some f" for b f
  proof -
    from own(3) b have f: "f \<in> set (rp_functions s)" "b \<in> set (the (rp_blocks s f))" by auto
    with fs(1) obtain L where "rp_blocks s f = Some L" "b \<in> set L" by auto
    with reach(1) [of f L] reach(2) [of f L b] fin show ?thesis by (auto simp: entry_of_def)
  qed
  have none: "\<not> live_block ir b" if b: "b < ?n" "own ! b = None" for b
  proof -
    from own(3) b have "\<forall>f\<in>set (rp_functions s). b \<notin> set (the (rp_blocks s f))" by auto
    with fs(1) have "b \<notin> set L" if "rp_blocks s g = Some L" for g L
      using that by (metis domI option.sel)
    then show ?thesis unfolding fin by blast
  qed
  have iff: "own ! b \<noteq> None \<longleftrightarrow> live_block ir b" if "b < ?n" for b
    using some [OF that] none [OF that] by auto
  have "own_is_reachable own b = Some (live_block ir b)" if "b < ?n" for b
    using iff [OF that] own(2) that by (simp add: own_is_reachable_def)
  moreover have "set (unreachable_blocks own) = {b. b < ?n \<and> \<not> live_block ir b}"
  proof -
    have "set (unreachable_blocks own) = {b. b < ?n \<and> own ! b = None}"
      using own(2) by (auto simp: unreachable_blocks_def set_zip)
    also have "\<dots> = {b. b < ?n \<and> \<not> live_block ir b}"
      by (rule Collect_cong) (metis iff)
    finally show ?thesis .
  qed
  moreover have "live_function ir f \<and> block_reach ir (fn_entry (ir_functions ir ! f)) b"
    if "get_owner own b = Some (Some f)" for b f
    using that some [of b f] own(2) by (auto simp: get_owner_def slice_get_Some)
  moreover have "set (blocks_owned_by own f) = {b. get_owner own b = Some (Some f)}" for f
    by (auto simp: blocks_owned_by_def set_zip get_owner_def slice_get_Some)
  ultimately show ?thesis using own(1,2) by blast
qed



subsection \<open>A program with a loop, a call and a dead block\<close>

definition sample_cfg :: ir_program where
  "sample_cfg = ir_default\<lparr>
     ir_functions := [\<lparr>fn_entry = 0, fn_return_kind = rk_never, fn_source = None\<rparr>,
                      \<lparr>fn_entry = 3, fn_return_kind = rk_never, fn_source = None\<rparr>],
     ir_operations := [Operation OpInternalCall (InternalCallData 1 0 0), Operation OpStop UnitData],
     ir_blocks :=
       [\<lparr>bb_inputs = (0, 0), bb_outputs = (0, 0), bb_operations = (0, 0), bb_control =
           Branches \<lparr>br_condition = 0, br_non_zero_target = 1, br_zero_target = 2\<rparr>\<rparr>,
        \<lparr>bb_inputs = (0, 0), bb_outputs = (0, 0), bb_operations = (0, 0), bb_control = ContinuesTo 0\<rparr>,
        \<lparr>bb_inputs = (0, 0), bb_outputs = (0, 0), bb_operations = (0, 2), bb_control = LastOpTerminates\<rparr>,
        \<lparr>bb_inputs = (0, 0), bb_outputs = (0, 0), bb_operations = (2, 2), bb_control = InternalReturn\<rparr>,
        \<lparr>bb_inputs = (0, 0), bb_outputs = (0, 0), bb_operations = (2, 2), bb_control = ContinuesTo 4\<rparr>]\<rparr>"

lemmas sample_cfg_defs = sample_cfg_def ir_default_def root_functions_def op_callee_def

lemma sample_cfg_indexed: "ir_indexed sample_cfg"
proof -
  have two: "{0..<2} = {0, Suc 0}" by auto
  have "root_functions sample_cfg \<subseteq> {..<length (ir_functions sample_cfg)}"
    "\<forall>fn\<in>set (ir_functions sample_cfg). fn_entry fn < length (ir_blocks sample_cfg)"
    "\<forall>bb\<in>set (ir_blocks sample_cfg).
       (\<forall>i\<in>set (span_indices (bb_operations bb)). i < length (ir_operations sample_cfg) \<and>
          (\<forall>f. op_callee (ir_operations sample_cfg ! i) = Some f \<longrightarrow> f < length (ir_functions sample_cfg))) \<and>
       (\<exists>ts. ctl_outgoing (bb_control bb) sample_cfg = Some ts \<and> (\<forall>t\<in>set ts. t < length (ir_blocks sample_cfg)))"
    by (simp_all add: sample_cfg_defs span_indices_def two)
  then show ?thesis by (simp add: ir_indexed_def)
qed

lemma sample_cfg_rpo:
  "\<exists>s. rpo_compute sample_cfg = Some s \<and> rp_blocks s 0 = Some [0, 1, 2] \<and> rp_blocks s 1 = Some [3] \<and>
     rp_functions s = [0, 1]"
  by (simp add: sample_cfg_defs rpo_compute_def rpo_fuel_def rp_empty_def eval_nat_numeral bv_successors_def
      visit_block.simps span_indices_def)

theorem rpo_covers_live_blocks_witness:
  "\<exists>s bs. rpo_compute sample_cfg = Some s \<and> rp_blocks_rpo s = Some bs \<and> distinct bs \<and>
     set bs = {b. live_block sample_cfg b} \<and> 0 < length (rp_functions s)"
  using rpo_covers_live_blocks [OF sample_cfg_indexed] sample_cfg_rpo by auto

theorem rpo_edges_forward_witness:
  "\<exists>j<2. 2 \<in> set (succs_of sample_cfg ([0, 1, 2] ! j))"
proof -
  obtain s where "rpo_compute sample_cfg = Some s" "rp_blocks s 0 = Some [0, 1, 2]"
    using sample_cfg_rpo by blast
  from rpo_edges_forward [OF sample_cfg_indexed this] have
    "\<forall>i<length [0, 1, 2::nat]. 0 < i \<longrightarrow>
      (\<exists>j<i. [0, 1, 2] ! i \<in> set (succs_of sample_cfg ([0, 1, 2] ! j)))" by blast
  from spec [OF this, of 2] show ?thesis by simp
qed

theorem predecessors_exact_witness:
  "\<exists>inner. preds_compute sample_cfg {0, 1, 2, 3} [[7], []] = Some inner \<and> length inner = 5 \<and>
     (\<forall>b. count_list (inner ! 4) b = 0)"
proof -
  have "length (ir_blocks sample_cfg) = 5" "succs_of sample_cfg 3 = []"
    "succs_of sample_cfg 0 = [2, 1]" "succs_of sample_cfg 1 = [0]" "succs_of sample_cfg 2 = []"
    by (simp_all add: sample_cfg_defs succs_of_def bv_successors_def)
  with predecessors_exact [OF sample_cfg_indexed, of "{0, 1, 2, 3}" "[[7], []]"] show ?thesis
    by (auto simp: less_Suc_eq)
qed

theorem ownership_exact_witness:
  "\<exists>s own. rpo_compute sample_cfg = Some s \<and> ownership_compute sample_cfg s = Some own \<and>
     (\<forall>b<5. own_is_reachable own b = Some (live_block sample_cfg b))"
proof -
  obtain s where s: "rpo_compute sample_cfg = Some s" using sample_cfg_rpo by blast
  have "length (ir_blocks sample_cfg) = 5" by (simp add: sample_cfg_defs)
  with ownership_exact [OF sample_cfg_indexed s] s show ?thesis by auto
qed

end
