(* ===== verification/Dense_Sets.thy ===== *)
theory Dense_Sets
  imports Bit_Sets
begin

text \<open>
  \<open>DenseIndexSet\<close> of \<open>plankc/crates/plank-core/src/dense_index_set.rs\<close>: a set of typed indices kept
  as bits of a \<open>Vec<usize>\<close> (64-bit words) that grows to its capacity on insertion. The accesses
  through \<open>get_unchecked_mut\<close> are modelled as checked ones whose failure is \<open>None\<close>, so that the
  totality of the operations is the safety of the \<open>unsafe\<close> blocks.
\<close>

record dense_index_set =
  dis_words :: "u64 list"
  dis_cap :: nat

definition usize_bits :: nat where
  "usize_bits = 64"

definition div_ceil :: "nat \<Rightarrow> nat \<Rightarrow> nat" where
  "div_ceil a b = (a + b - 1) div b"

definition dis_with_capacity :: "nat \<Rightarrow> dense_index_set" where
  "dis_with_capacity c = \<lparr>dis_words = [], dis_cap = c\<rparr>"

definition dis_with_capacity_in_bits :: "nat \<Rightarrow> dense_index_set" where
  "dis_with_capacity_in_bits bits = dis_with_capacity (div_ceil bits usize_bits)"

definition dis_new :: dense_index_set where
  "dis_new = dis_with_capacity 0"

definition dis_clear :: "dense_index_set \<Rightarrow> dense_index_set" where
  "dis_clear s = s\<lparr>dis_words := replicate (length (dis_words s)) 0\<rparr>"

definition dis_len :: "dense_index_set \<Rightarrow> nat" where
  "dis_len s = sum_list (map count_ones (dis_words s))"

definition dis_is_empty :: "dense_index_set \<Rightarrow> bool" where
  "dis_is_empty s = list_all (\<lambda>w. w = 0) (dis_words s)"

definition dis_contains :: "dense_index_set \<Rightarrow> nat \<Rightarrow> bool" where
  "dis_contains s i =
     (let bit = i mod usize_bits; word = i div usize_bits
      in case slice_get (dis_words s) word of
           None \<Rightarrow> False
         | Some w \<Rightarrow> w AND bit_mask bit \<noteq> 0)"

definition dis_add :: "(nat \<Rightarrow> nat \<Rightarrow> nat) \<Rightarrow> dense_index_set \<Rightarrow> nat \<Rightarrow> (bool \<times> dense_index_set) option" where
  "dis_add grow s i =
     (let bit = i mod usize_bits; word = i div usize_bits; len = length (dis_words s);
          s = (if len \<le> word then
                 let length_to_fit_word = word + 1;
                     additional = length_to_fit_word - len;
                     cap = vec_reserve grow (dis_cap s) len additional
                 in s\<lparr>dis_words := dis_words s @ replicate (cap - len) 0, dis_cap := cap\<rparr>
               else s)
      in do {
           w \<leftarrow> slice_get (dis_words s) word;
           let added = (w AND bit_mask bit = 0);
           ws \<leftarrow> slice_set (dis_words s) word (w OR bit_mask bit);
           Some (added, s\<lparr>dis_words := ws\<rparr>)
         })"

definition dis_remove :: "dense_index_set \<Rightarrow> nat \<Rightarrow> (bool \<times> dense_index_set) option" where
  "dis_remove s i =
     (let bit = i mod usize_bits; word = i div usize_bits
      in if length (dis_words s) \<le> word then Some (False, s)
         else do {
           w \<leftarrow> slice_get (dis_words s) word;
           let removing = (w AND bit_mask bit \<noteq> 0);
           ws \<leftarrow> slice_set (dis_words s) word (w AND NOT (bit_mask bit));
           Some (removing, s\<lparr>dis_words := ws\<rparr>)
         })"

text \<open>The loop of \<open>union_with\<close> over the words of the other set.\<close>

fun union_words :: "u64 list \<Rightarrow> u64 list \<Rightarrow> bool \<times> u64 list" where
  "union_words ws [] = (False, ws)"
| "union_words [] (v # vs) = (False, [])"
| "union_words (w # ws) (v # vs) =
     (let (changed, rest) = union_words ws vs in (changed \<or> w OR v \<noteq> w, (w OR v) # rest))"

definition dis_union_with ::
    "(nat \<Rightarrow> nat \<Rightarrow> nat) \<Rightarrow> dense_index_set \<Rightarrow> dense_index_set \<Rightarrow> bool \<times> dense_index_set" where
  "dis_union_with grow s other =
     (let len = length (dis_words s); n = length (dis_words other);
          s = (if len < n then s\<lparr>dis_words := dis_words s @ replicate (n - len) 0,
                                 dis_cap := vec_reserve grow (dis_cap s) len (n - len)\<rparr>
               else s);
          (changed, ws) = union_words (dis_words s) (dis_words other)
      in (changed, s\<lparr>dis_words := ws\<rparr>))"

subsection \<open>Refinement to sets of naturals\<close>

definition dis_elems :: "dense_index_set \<Rightarrow> nat set" where
  "dis_elems s = bits_of (dis_words s)"

lemma dis_contains_elems: "dis_contains s i \<longleftrightarrow> i \<in> dis_elems s"
  by (auto simp: dis_contains_def dis_elems_def bit_at_def usize_bits_def Let_def slice_get_def
      and_bit_mask_eq_0)

lemma dis_elems_empty [simp]:
  "dis_elems (dis_with_capacity c) = {}" "dis_elems dis_new = {}"
  "dis_elems (dis_with_capacity_in_bits c) = {}" "dis_elems (dis_clear s) = {}"
  by (simp_all add: dis_elems_def dis_with_capacity_def dis_new_def dis_clear_def
      dis_with_capacity_in_bits_def)

lemma dis_len_card: "dis_len s = card (dis_elems s)"
  by (simp add: dis_len_def dis_elems_def sum_count_ones)

lemma dis_is_empty_iff: "dis_is_empty s \<longleftrightarrow> dis_elems s = {}"
proof
  assume "dis_is_empty s"
  then have "dis_words s = replicate (length (dis_words s)) 0"
    by (simp add: dis_is_empty_def list_all_iff replicate_length_same)
  then show "dis_elems s = {}"
    unfolding dis_elems_def by (metis bits_of_zeros)
next
  assume *: "dis_elems s = {}"
  show "dis_is_empty s"
    unfolding dis_is_empty_def list_all_length
  proof (intro allI impI)
    fix k assume k: "k < length (dis_words s)"
    show "dis_words s ! k = 0"
    proof (rule bit_word_eqI)
      fix n assume n: "n < LENGTH(64)"
      have "k * 64 + n \<notin> dis_elems s" using * by simp
      with k n show "bit (dis_words s ! k) n \<longleftrightarrow> bit (0 :: u64) n"
        by (auto simp: dis_elems_def bit_at_def)
    qed
  qed
qed

lemma words_set_64: "ws[i div 64 := ws ! (i div 64) OR bit_mask (i mod 64)] = words_set (ws :: u64 list) i"
  by (simp add: words_set_def)

lemma words_clear_64:
  "ws[i div 64 := ws ! (i div 64) AND NOT (bit_mask (i mod 64))] = words_clear (ws :: u64 list) i"
  by (simp add: words_clear_def)

text \<open>The vector that \<open>add\<close> works on once it has made room for the word of index \<open>i\<close>.\<close>

definition dis_grown :: "(nat \<Rightarrow> nat \<Rightarrow> nat) \<Rightarrow> dense_index_set \<Rightarrow> nat \<Rightarrow> u64 list" where
  "dis_grown grow s i =
     (let len = length (dis_words s)
      in if len \<le> i div 64
         then dis_words s @ replicate (vec_reserve grow (dis_cap s) len (i div 64 + 1 - len) - len) 0
         else dis_words s)"

lemma bits_of_dis_grown: "bits_of (dis_grown grow s i) = dis_elems s"
  by (simp add: dis_grown_def dis_elems_def Let_def)

lemma dis_add_eq:
  "dis_add grow s i =
     (if i div 64 < length (dis_grown grow s i) then
        Some (i \<notin> dis_elems s,
              \<lparr>dis_words = words_set (dis_grown grow s i) i,
               dis_cap = (if length (dis_words s) \<le> i div 64
                          then vec_reserve grow (dis_cap s) (length (dis_words s))
                                 (i div 64 + 1 - length (dis_words s))
                          else dis_cap s)\<rparr>)
      else None)"
proof -
  let ?w = "dis_grown grow s i"
  have "(?w ! (i div 64) AND bit_mask (i mod 64) = 0) \<longleftrightarrow> i \<notin> dis_elems s"
    if "i div 64 < length ?w"
    using that words_contains_iff [of i ?w] bits_of_dis_grown [of grow s i]
    by (auto simp: words_contains_def set_eq_iff)
  then show ?thesis
    by (cases s) (auto simp: dis_add_def usize_bits_def Let_def slice_get_def slice_set_def
        dis_grown_def words_set_64)
qed

lemma dis_remove_eq:
  "dis_remove s i =
     Some (i \<in> dis_elems s,
           if length (dis_words s) \<le> i div 64 then s
           else s\<lparr>dis_words := words_clear (dis_words s) i\<rparr>)"
proof (cases "length (dis_words s) \<le> i div 64")
  case True
  then show ?thesis
    by (simp add: dis_remove_def usize_bits_def dis_elems_def bit_at_def Let_def)
next
  case False
  then show ?thesis
    using words_contains_iff [of i "dis_words s"]
    by (simp add: dis_remove_def usize_bits_def slice_get_def slice_set_def Let_def words_clear_64
        dis_elems_def words_contains_def)
qed

context vec_growth begin

lemma dis_grown_fits: "i div 64 < length (dis_grown grow s i)"
  using vec_reserve_enough [of "length (dis_words s)" "i div 64 + 1 - length (dis_words s)" "dis_cap s"]
  by (auto simp: dis_grown_def Let_def)

lemma dis_add_spec:
  "\<exists>s'. dis_add grow s i = Some (i \<notin> dis_elems s, s') \<and> dis_elems s' = insert i (dis_elems s)"
  using dis_grown_fits [of i s] bits_of_words_set [of i "dis_grown grow s i"]
  by (simp add: dis_add_eq dis_elems_def [of "dense_index_set.make _ _"] bits_of_dis_grown
      dense_index_set.defs) (simp add: dis_elems_def)

end

lemma dis_remove_spec:
  "\<exists>s'. dis_remove s i = Some (i \<in> dis_elems s, s') \<and> dis_elems s' = dis_elems s - {i}"
proof (cases "length (dis_words s) \<le> i div 64")
  case True
  then have "i \<notin> dis_elems s" by (simp add: dis_elems_def bit_at_def)
  with True show ?thesis by (simp add: dis_remove_eq)
next
  case False
  then show ?thesis
    using bits_of_words_clear [of i "dis_words s"]
    by (simp add: dis_remove_eq dis_elems_def)
qed

lemma length_union_words:
  "length vs \<le> length ws \<Longrightarrow> length (snd (union_words ws vs)) = length ws"
  by (induction ws vs rule: union_words.induct) (auto simp: Let_def split: prod.splits)

lemma nth_union_words:
  "length vs \<le> length ws \<Longrightarrow> k < length ws \<Longrightarrow>
     snd (union_words ws vs) ! k = (if k < length vs then ws ! k OR vs ! k else ws ! k)"
proof (induction ws vs arbitrary: k rule: union_words.induct)
  case (3 w ws v vs)
  then show ?case by (cases k) (auto simp: Let_def split: prod.splits)
qed auto

lemma fst_union_words:
  "length vs \<le> length ws \<Longrightarrow> fst (union_words ws vs) \<longleftrightarrow> snd (union_words ws vs) \<noteq> ws"
  by (induction ws vs rule: union_words.induct) (auto simp: Let_def split: prod.splits)

lemma bits_of_union_words:
  assumes "length vs \<le> length (ws :: u64 list)"
  shows "bits_of (snd (union_words ws vs)) = bits_of ws \<union> bits_of vs"
  using assms
  by (auto simp: bit_at_def length_union_words nth_union_words bit_or_iff split: if_splits)

lemma bits_of_inject:
  assumes "length ws = length vs" "bits_of ws = bits_of (vs :: 'a::len word list)"
  shows "ws = vs"
proof (rule nth_equalityI)
  fix k assume k: "k < length ws"
  show "ws ! k = vs ! k"
  proof (rule bit_word_eqI)
    fix n assume n: "n < LENGTH('a)"
    have "bit_at ws (k * LENGTH('a) + n) \<longleftrightarrow> bit_at vs (k * LENGTH('a) + n)"
      using assms(2) by (auto simp: set_eq_iff)
    with k n assms(1) show "bit (ws ! k) n \<longleftrightarrow> bit (vs ! k) n"
      by (simp add: bit_at_def div_add1_eq)
  qed
qed (rule assms(1))

context vec_growth begin

lemma dis_union_with_spec:
  "case dis_union_with grow s other of (changed, s') \<Rightarrow>
     dis_elems s' = dis_elems s \<union> dis_elems other \<and>
     (changed \<longleftrightarrow> \<not> dis_elems other \<subseteq> dis_elems s)"
proof -
  let ?n = "length (dis_words other)" and ?len = "length (dis_words s)"
  define ws where "ws = (if ?len < ?n then dis_words s @ replicate (?n - ?len) 0 else dis_words s)"
  have le: "?n \<le> length ws" and bits: "bits_of ws = dis_elems s"
    by (auto simp: ws_def dis_elems_def)
  let ?u = "union_words ws (dis_words other)"
  have "dis_words (snd (dis_union_with grow s other)) = snd ?u"
    and fst: "fst (dis_union_with grow s other) = fst ?u"
    by (auto simp: dis_union_with_def ws_def Let_def split: prod.splits)
  then have elems: "dis_elems (snd (dis_union_with grow s other)) = dis_elems s \<union> dis_elems other"
    using bits_of_union_words [OF le] bits by (simp add: dis_elems_def)
  have "fst ?u \<longleftrightarrow> bits_of (snd ?u) \<noteq> bits_of ws"
    using fst_union_words [OF le] length_union_words [OF le] bits_of_inject by metis
  also have "\<dots> \<longleftrightarrow> \<not> dis_elems other \<subseteq> dis_elems s"
    using bits_of_union_words [OF le] bits by (auto simp: dis_elems_def)
  finally show ?thesis using elems fst by (simp add: split_beta)
qed

end

subsection \<open>The iterator\<close>

text \<open>
  The iterator keeps the index of the current word and the bits of it not yet returned; it clears
  the lowest set bit with \<open>w & (w - 1)\<close>.
\<close>

definition trailing_zeros :: "'a::len word \<Rightarrow> nat" where
  "trailing_zeros w = length (takeWhile (\<lambda>i. \<not> bit w i) [0..<LENGTH('a)])"

function dis_next :: "u64 list \<Rightarrow> nat \<times> u64 \<Rightarrow> (nat \<times> nat \<times> u64) option" where
  "dis_next ws (word_idx, cur) =
     (if cur \<noteq> 0 then
        let bit = trailing_zeros cur
        in Some (word_idx * usize_bits + bit, (word_idx, cur AND (cur - 1)))
      else
        (case slice_get ws (word_idx + 1) of
           None \<Rightarrow> None
         | Some w \<Rightarrow> dis_next ws (word_idx + 1, w)))"
  by pat_completeness auto
termination
  by (relation "measure (\<lambda>(ws, i, w). length ws - i)") (auto simp: monad_elims)

declare dis_next.simps [simp del]

definition dis_iter :: "dense_index_set \<Rightarrow> nat \<times> u64" where
  "dis_iter s = (0, case dis_words s of [] \<Rightarrow> 0 | w # _ \<Rightarrow> w)"

lemma trailing_zeros_bit:
  assumes "w \<noteq> (0 :: 'a::len word)"
  shows "bit w (trailing_zeros w)" "n < trailing_zeros w \<Longrightarrow> \<not> bit w n" "trailing_zeros w < LENGTH('a)"
proof -
  obtain k where k: "bit w k" using assms by (auto simp: bit_eq_iff)
  then have kl: "k < LENGTH('a)" by (rule bit_imp_le_length)
  let ?xs = "takeWhile (\<lambda>i. \<not> bit w i) [0..<LENGTH('a)]"
  have lt: "length ?xs < LENGTH('a)"
  proof (rule ccontr)
    assume "\<not> ?thesis"
    then have "length ?xs = length [0..<LENGTH('a)]"
      using length_takeWhile_le [of "\<lambda>i. \<not> bit w i" "[0..<LENGTH('a)]"] by simp
    then have "?xs = [0..<LENGTH('a)]"
      by (metis takeWhile_eq_take take_all order_refl)
    then have "\<forall>i\<in>set [0..<LENGTH('a)]. \<not> bit w i" by (metis set_takeWhileD)
    with k kl show False by simp
  qed
  then show "trailing_zeros w < LENGTH('a)" by (simp add: trailing_zeros_def)
  from nth_length_takeWhile [of "\<lambda>i. \<not> bit w i" "[0..<LENGTH('a)]"] lt
  show "bit w (trailing_zeros w)" by (simp add: trailing_zeros_def)
  assume n: "n < trailing_zeros w"
  then have "?xs ! n \<in> set ?xs" by (simp add: trailing_zeros_def)
  then have "\<not> bit w (?xs ! n)" by (metis set_takeWhileD)
  moreover have "?xs ! n = n"
    using n lt by (simp add: trailing_zeros_def takeWhile_nth)
  ultimately show "\<not> bit w n" by simp
qed

lemma clear_lowest_bit:
  assumes "w \<noteq> (0 :: 'a::len word)"
  shows "bit (w AND (w - 1)) n \<longleftrightarrow> bit w n \<and> n \<noteq> trailing_zeros w"
proof -
  define t where "t = trailing_zeros w"
  define u where "u = unset_bit t w"
  have t: "bit w t" "\<And>n. n < t \<Longrightarrow> \<not> bit w n" "t < LENGTH('a)"
    unfolding t_def by (simp_all add: trailing_zeros_bit [OF assms])
  have u: "bit u n \<longleftrightarrow> bit w n \<and> n \<noteq> t" for n
    by (auto simp: u_def bit_unset_bit_iff)
  have "w = u OR push_bit t 1"
    by (rule bit_word_eqI) (use t in \<open>auto simp: u bit_or_iff bit_exp_iff\<close>)
  also have "\<dots> = u + push_bit t 1"
    by (rule disjunctive_add_eq_or [symmetric], rule bit_word_eqI)
       (auto simp: u bit_and_iff bit_exp_iff)
  finally have "w - 1 = u + mask t"
    by (simp add: mask_eq_exp_minus_1 push_bit_of_1)
  also have "\<dots> = u OR mask t"
    by (rule disjunctive_add_eq_or, rule bit_word_eqI)
       (use t in \<open>auto simp: u bit_and_iff bit_mask_iff\<close>)
  finally show ?thesis
    using t by (auto simp: bit_and_iff bit_or_iff u bit_mask_iff t_def [symmetric])
qed

definition dis_rest :: "u64 list \<Rightarrow> nat \<times> u64 \<Rightarrow> nat set" where
  "dis_rest ws st =
     (\<lambda>n. fst st * 64 + n) ` {n. bit (snd st) n} \<union> {k. bit_at ws k \<and> Suc (fst st) * 64 \<le> k}"

lemma finite_dis_rest [simp]: "finite (dis_rest ws st)"
proof -
  have "finite {n. bit (snd st) n}"
    by (rule finite_subset [of _ "{..<64}"]) (auto dest: bit_imp_le_length)
  moreover have "finite {k. bit_at ws k \<and> Suc (fst st) * 64 \<le> k}"
    by (rule finite_subset [OF _ finite_bits_of [of ws]]) auto
  ultimately show ?thesis by (simp add: dis_rest_def)
qed

lemma dis_rest_next_word:
  assumes "slice_get ws (Suc i) = Some w"
  shows "dis_rest ws (i, 0) = dis_rest ws (Suc i, w)"
proof -
  from assms have w: "Suc i < length ws" "w = ws ! Suc i" by (simp_all add: monad_elims)
  have "bit_at ws k \<and> Suc i * 64 \<le> k \<longleftrightarrow>
        (\<exists>n. bit w n \<and> k = Suc i * 64 + n) \<or> bit_at ws k \<and> Suc (Suc i) * 64 \<le> k" for k
  proof (cases "Suc i * 64 \<le> k \<and> k < Suc (Suc i) * 64")
    case True
    then obtain n where n: "k = Suc i * 64 + n" "n < 64"
      by (metis add_less_cancel_left le_Suc_ex mult_Suc add.commute)
    have "k div 64 = Suc i" "k mod 64 = n"
      unfolding n(1) using n(2) by (simp, metis mod_less mod_mult_self3)
    with w n show ?thesis by (auto simp: bit_at_def)
  next
    case False
    have "\<not> (\<exists>n. bit w n \<and> k = Suc i * 64 + n)"
      using False by (auto dest: bit_imp_le_length)
    with False show ?thesis by auto
  qed
  then show ?thesis by (auto simp: dis_rest_def)
qed

lemma dis_next_zero:
  "dis_next ws (i, 0) =
     (case slice_get ws (Suc i) of None \<Rightarrow> None | Some w \<Rightarrow> dis_next ws (Suc i, w))"
  by (subst dis_next.simps) (simp cong: option.case_cong)

lemma dis_next_nonzero:
  "cur \<noteq> 0 \<Longrightarrow>
     dis_next ws (i, cur) = Some (i * 64 + trailing_zeros cur, (i, cur AND (cur - 1)))"
  by (simp add: dis_next.simps [of ws i cur] usize_bits_def Let_def)

lemma dis_next_None: "dis_next ws st = None \<Longrightarrow> dis_rest ws st = {}"
proof (induction ws st rule: dis_next.induct)
  case (1 ws i cur)
  from "1.prems" have cur: "cur = 0"
    using dis_next_nonzero [of cur ws i] by auto
  show ?case
  proof (cases "slice_get ws (Suc i)")
    case None
    then have "length ws \<le> Suc i" by (simp add: slice_get_def split: if_splits)
    then have "\<not> (bit_at ws k \<and> Suc i * 64 \<le> k)" for k
      using bit_at_less [of ws k] by auto
    with cur show ?thesis by (auto simp: dis_rest_def)
  next
    case (Some w)
    have "dis_next ws (Suc i, w) = None"
      using "1.prems" unfolding cur dis_next_zero Some by simp
    with "1.IH" Some cur have "dis_rest ws (Suc i, w) = {}" by simp
    with cur dis_rest_next_word [OF Some] show ?thesis by simp
  qed
qed

lemma dis_next_Some:
  "dis_next ws st = Some (x, st') \<Longrightarrow>
     x \<in> dis_rest ws st \<and> (\<forall>y\<in>dis_rest ws st. x \<le> y) \<and> dis_rest ws st' = dis_rest ws st - {x}"
proof (induction ws st rule: dis_next.induct)
  case (1 ws i cur)
  show ?case
  proof (cases "cur = 0")
    case True
    obtain w where w: "slice_get ws (Suc i) = Some w"
      and "dis_next ws (Suc i, w) = Some (x, st')"
      using "1.prems" unfolding True dis_next_zero by (cases "slice_get ws (Suc i)") auto
    with True "1.IH" dis_rest_next_word [OF w] show ?thesis by simp
  next
    case False
    let ?t = "trailing_zeros cur"
    from "1.prems" False have x: "x = i * 64 + ?t" and st': "st' = (i, cur AND (cur - 1))"
      by (auto simp: dis_next_nonzero)
    note tz = trailing_zeros_bit [OF False]
    have "?t \<le> n" if "bit cur n" for n
      using tz(2) that by (meson not_le)
    moreover have "?t < 64" using tz(3) by simp
    ultimately show ?thesis
      using tz(1) by (auto simp: x st' dis_rest_def clear_lowest_bit [OF False])
  qed
qed

text \<open>All the indices an iterator returns, in the order it returns them.\<close>

function dis_collect :: "u64 list \<Rightarrow> nat \<times> u64 \<Rightarrow> nat list" where
  "dis_collect ws st =
     (case dis_next ws st of None \<Rightarrow> [] | Some (x, st') \<Rightarrow> x # dis_collect ws st')"
  by pat_completeness auto
termination
proof (relation "measure (\<lambda>(ws, st). card (dis_rest ws st))")
  fix ws st p x st'
  assume "dis_next ws st = Some p" and "(x, st') = p"
  then have "x \<in> dis_rest ws st" "dis_rest ws st' = dis_rest ws st - {x}"
    using dis_next_Some [of ws st x st'] by auto
  then show "((ws, st'), ws, st) \<in> measure (\<lambda>(ws, st). card (dis_rest ws st))"
    by (simp add: card_Diff1_less del: card_Diff_insert)
qed simp

declare dis_collect.simps [simp del]

definition dis_indices :: "dense_index_set \<Rightarrow> nat list" where
  "dis_indices s = dis_collect (dis_words s) (dis_iter s)"

lemma dis_collect_spec:
  "set (dis_collect ws st) = dis_rest ws st \<and> sorted_wrt (<) (dis_collect ws st)"
proof (induction ws st rule: dis_collect.induct)
  case (1 ws st)
  show ?case
  proof (cases "dis_next ws st")
    case None
    then show ?thesis
      using dis_next_None [OF None] by (simp add: dis_collect.simps [of ws st])
  next
    case (Some p)
    obtain x st' where p: "p = (x, st')" by (cases p)
    with Some have nx: "dis_next ws st = Some (x, st')" by simp
    note spec = dis_next_Some [OF nx]
    from "1.IH" [OF Some p [symmetric]] have IH: "set (dis_collect ws st') = dis_rest ws st'"
      "sorted_wrt (<) (dis_collect ws st')" by simp_all
    then have "\<forall>y\<in>set (dis_collect ws st'). x < y"
      using spec by (auto simp: less_le)
    with IH spec nx show ?thesis
      by (auto simp: dis_collect.simps [of ws st])
  qed
qed

lemma dis_rest_start: "dis_rest (dis_words s) (dis_iter s) = dis_elems s"
proof (cases "dis_words s")
  case Nil
  then show ?thesis by (simp add: dis_rest_def dis_iter_def dis_elems_def bit_at_def)
next
  case (Cons w ws)
  have "bit_at (w # ws) k \<longleftrightarrow> bit w k \<or> bit_at (w # ws) k \<and> 64 \<le> k" for k
    using bits_of_Cons [of w ws] by (auto simp: set_eq_iff image_iff)
  then have "{k. bit_at (w # ws) k} = {k. bit w k} \<union> {k. bit_at (w # ws) k \<and> 64 \<le> k}" by blast
  then show ?thesis by (simp add: Cons dis_rest_def dis_iter_def dis_elems_def bits_of_def)
qed

lemma dis_indices_spec: "set (dis_indices s) = dis_elems s" "sorted_wrt (<) (dis_indices s)"
  using dis_collect_spec [of "dis_words s" "dis_iter s"] dis_rest_start
  by (simp_all add: dis_indices_def)

subsection \<open>The set as a provider of the index-set interface\<close>

sublocale vec_growth \<subseteq> dense: index_set dis_new dis_contains "\<lambda>s i. map_option snd (dis_add grow s i)"
  dis_elems "\<lambda>_. UNIV" "\<lambda>_. True"
proof unfold_locales
  fix s i s'
  obtain t where t: "dis_add grow s i = Some (i \<notin> dis_elems s, t)" "dis_elems t = insert i (dis_elems s)"
    using dis_add_spec [of s i] by blast
  then show "\<exists>s'. map_option snd (dis_add grow s i) = Some s'" by simp
  assume "map_option snd (dis_add grow s i) = Some s'"
  with t show "dis_elems s' = insert i (dis_elems s)" by simp
qed (simp_all add: dis_contains_elems)

subsection \<open>Properties\<close>

text \<open>
  C38: \<open>DenseIndexSet\<close> refines a set of indices. With any growth of the vector that
  honours \<open>Vec::reserve\<close>, \<open>add\<close> and \<open>remove\<close> never fail (no unchecked access is out of range), they
  report whether the index was new or present and change exactly that index, whatever index is
  tested afterwards \<open>contains\<close> answers membership, and \<open>len\<close> counts the members.
\<close>

theorem dense_set_refines:
  assumes "\<forall>c n. n \<le> grow c n"
  shows "(\<exists>s'. dis_add grow s i = Some (i \<notin> dis_elems s, s') \<and>
              (\<forall>j. dis_contains s' j \<longleftrightarrow> j = i \<or> j \<in> dis_elems s) \<and>
              dis_len s' = card (insert i (dis_elems s))) \<and>
         (\<exists>s'. dis_remove s i = Some (i \<in> dis_elems s, s') \<and>
              (\<forall>j. dis_contains s' j \<longleftrightarrow> j \<noteq> i \<and> j \<in> dis_elems s) \<and>
              dis_len s' = card (dis_elems s - {i}))"
proof -
  have "vec_growth grow" by unfold_locales (use assms in blast)
  then obtain a where "dis_add grow s i = Some (i \<notin> dis_elems s, a)" "dis_elems a = insert i (dis_elems s)"
    using vec_growth.dis_add_spec [of grow s i] by blast
  moreover obtain r where "dis_remove s i = Some (i \<in> dis_elems s, r)" "dis_elems r = dis_elems s - {i}"
    using dis_remove_spec [of s i] by blast
  ultimately show ?thesis
    by (simp add: dis_contains_elems dis_len_card conj_commute)
qed

theorem dense_set_refines_witness:
  "\<exists>s. dis_add doubling dis_new 70 = Some (True, s) \<and> dis_contains s 70 \<and> \<not> dis_contains s 6"
proof -
  have "\<forall>c n. n \<le> doubling c n" by (simp add: doubling_growth.grow_enough)
  from conjunct1 [OF dense_set_refines [OF this, of dis_new 70]] show ?thesis by auto
qed

text \<open>
  The iterator of a \<open>DenseIndexSet\<close>, driven until it stops, yields every
  member once and in increasing order.
\<close>

theorem dense_set_iteration: "set (dis_indices s) = dis_elems s \<and> sorted_wrt (<) (dis_indices s)"
  using dis_indices_spec by blast

text \<open>
  C27: \<open>union_with\<close> gives the union of the two sets, and its result says whether the
  receiver grew, whatever the lengths of the two vectors.
\<close>

theorem dense_set_union:
  assumes "\<forall>c n. n \<le> grow c n"
  shows "case dis_union_with grow s other of (changed, s') \<Rightarrow>
     (\<forall>i. dis_contains s' i \<longleftrightarrow> dis_contains s i \<or> dis_contains other i) \<and>
     (changed \<longleftrightarrow> (\<exists>i. dis_contains other i \<and> \<not> dis_contains s i))"
proof -
  have "vec_growth grow" by unfold_locales (use assms in blast)
  from vec_growth.dis_union_with_spec [OF this, of s other] show ?thesis
    unfolding dis_contains_elems by (cases "dis_union_with grow s other") (simp, blast)
qed

theorem dense_set_union_witness:
  "\<exists>a. dis_add doubling dis_new 70 = Some (True, a) \<and>
     (case dis_union_with doubling dis_new a of (changed, s') \<Rightarrow> changed \<and> dis_contains s' 70)"
proof -
  have g: "\<forall>c n. n \<le> doubling c n" by (simp add: doubling_growth.grow_enough)
  obtain a where a: "dis_add doubling dis_new 70 = Some (True, a)" "dis_elems a = {70}"
    using doubling_growth.dis_add_spec [of dis_new 70] by (simp, blast)
  with dense_set_union [OF g, of dis_new a] show ?thesis by (auto simp: dis_contains_elems)
qed

end
