(* ===== verification/Dominators.thy ===== *)
theory Dominators
  imports Cfg_Proofs
begin

text \<open>
  Dominators and dominance frontiers (\<open>plankc/sir/crates/passes/src/analyses/dominators.rs\<close>): the
  iterative algorithm that keeps, for every block processed so far, a candidate for its immediate
  dominator, and finds the common ancestor of two blocks by walking two fingers up the candidates.
  The map of candidates is a dense index map, used here as a finite map; indexing it with a block it
  does not hold is a panic, \<open>None\<close>, and so is a tick of an exhausted loop limiter.
\<close>

type_synonym dom_map = "nat \<Rightarrow> nat option"

subsection \<open>The algorithm\<close>

definition ll_new :: loop_limit where
  "ll_new = ll_with_max 100000000"

text \<open>One of the two inner loops: the first finger walks up until it is not below the second.\<close>

function finger_up :: "loop_limit \<Rightarrow> dom_map \<Rightarrow> nat list \<Rightarrow> nat \<Rightarrow> nat \<Rightarrow> (loop_limit \<times> nat) option" where
  "finger_up limit d pos f g = do {
     pf \<leftarrow> slice_get pos f;
     pg \<leftarrow> slice_get pos g;
     if pg < pf then do {
       limit \<leftarrow> ll_tick limit;
       f \<leftarrow> d f;
       finger_up limit d pos f g
     } else Some (limit, f)
   }"
  by auto
termination by (relation "measure (\<lambda>(l, _). ll_left l)") (auto dest: ll_tick_Some)

declare finger_up.simps [simp del]

lemma finger_up_left:
  "finger_up limit d pos f g = Some (limit', f') \<Longrightarrow> ll_left limit' \<le> ll_left limit \<and> ll_max limit' = ll_max limit"
proof (induction limit d pos f g rule: finger_up.induct)
  case (1 limit d pos f g)
  from 1(2) obtain pf pg where p: "slice_get pos f = Some pf" "slice_get pos g = Some pg"
    by (subst (asm) finger_up.simps) (auto simp: bind_eq_Some_conv)
  show ?case
  proof (cases "pg < pf")
    case True
    with 1(2) p obtain l n where l: "ll_tick limit = Some l" "d f = Some n"
      "finger_up l d pos n g = Some (limit', f')"
      by (subst (asm) finger_up.simps) (auto simp: bind_eq_Some_conv)
    from 1(1) [OF p True l] ll_tick_Some [OF l(1)] show ?thesis by simp
  next
    case False
    with 1(2) p show ?thesis by (subst (asm) finger_up.simps) simp
  qed
qed

function intersect_loop :: "loop_limit \<Rightarrow> dom_map \<Rightarrow> nat list \<Rightarrow> nat \<Rightarrow> nat \<Rightarrow> nat option" where
  "intersect_loop limit d pos f g =
     (if f = g then Some f
      else do {
        limit \<leftarrow> ll_tick limit;
        (limit, f) \<leftarrow> finger_up limit d pos f g;
        (limit, g) \<leftarrow> finger_up limit d pos g f;
        intersect_loop limit d pos f g
      })"
  by auto
termination
  by (relation "measure (\<lambda>(l, _). ll_left l)")
    (auto dest!: ll_tick_Some finger_up_left)

declare intersect_loop.simps [simp del]

definition intersect :: "nat \<Rightarrow> nat \<Rightarrow> dom_map \<Rightarrow> nat list \<Rightarrow> nat option" where
  "intersect bb1 bb2 d pos = intersect_loop ll_new d pos bb1 bb2"

text \<open>One step of the sweep over the blocks: recompute the candidate of \<open>bb\<close>.\<close>

definition dom_block :: "nat list list \<Rightarrow> nat list \<Rightarrow> nat \<Rightarrow> dom_map \<times> bool \<Rightarrow> (dom_map \<times> bool) option" where
  "dom_block ps pos bb = (\<lambda>(d, changed). do {
     all \<leftarrow> preds_of ps bb;
     (case filter (\<lambda>p. d p \<noteq> None) all of
        [] \<Rightarrow> None
      | p # rest \<Rightarrow> do {
          new_idom \<leftarrow> fold_opt (\<lambda>pred new_idom.
              if d pred \<noteq> None then intersect pred new_idom d pos else Some new_idom) rest p;
          Some (d(bb \<mapsto> new_idom),
                changed \<or> (case d bb of None \<Rightarrow> True | Some prev_idom \<Rightarrow> prev_idom \<noteq> new_idom))
        })
   })"

definition dom_pass :: "nat list list \<Rightarrow> nat list \<Rightarrow> nat list \<Rightarrow> dom_map \<Rightarrow> (dom_map \<times> bool) option" where
  "dom_pass ps pos L d = do {
     bs \<leftarrow> slice_range L 1 (length L);
     fold_opt (dom_block ps pos) bs (d, False)
   }"

function dom_loop :: "loop_limit \<Rightarrow> nat list list \<Rightarrow> nat list \<Rightarrow> nat list \<Rightarrow> dom_map \<Rightarrow> dom_map option" where
  "dom_loop limit ps pos L d = do {
     limit \<leftarrow> ll_tick limit;
     (d, changed) \<leftarrow> dom_pass ps pos L d;
     if changed then dom_loop limit ps pos L d else Some d
   }"
  by auto
termination by (relation "measure (\<lambda>(l, _). ll_left l)") (auto dest: ll_tick_Some)

declare dom_loop.simps [simp del]

definition rpo_positions :: "nat list \<Rightarrow> nat list \<Rightarrow> nat list option" where
  "rpo_positions L pos = fold_opt (\<lambda>(i, b) pos. slice_set pos b i) (zip [0..<length L] L) pos"

definition compute_function_dominators ::
    "ir_program \<Rightarrow> nat \<Rightarrow> nat list list \<Rightarrow> nat list \<Rightarrow> dom_map \<Rightarrow> dom_map option" where
  "compute_function_dominators ir f ps L d = do {
     entry \<leftarrow> fv_entry ir f;
     rust_assert (d entry = None);
     let d = d(entry \<mapsto> entry);
     pos \<leftarrow> rpo_positions L (replicate (length (ir_blocks ir)) 0);
     dom_loop ll_new ps pos L d
   }"

definition dominators_compute :: "ir_program \<Rightarrow> nat list list \<Rightarrow> rpo_state \<Rightarrow> dom_map option" where
  "dominators_compute ir ps rpo =
     fold_opt (\<lambda>f d. do {
         L \<leftarrow> rp_blocks rpo f;
         compute_function_dominators ir f ps L d
       }) (rp_functions rpo) Map.empty"

function frontier_walk ::
    "loop_limit \<Rightarrow> dom_map \<Rightarrow> nat \<Rightarrow> nat \<Rightarrow> nat \<Rightarrow> nat set list \<Rightarrow> nat set list option" where
  "frontier_walk limit d idom b runner df =
     (if runner = idom then Some df
      else do {
        limit \<leftarrow> ll_tick limit;
        s \<leftarrow> slice_get df runner;
        df \<leftarrow> slice_set df runner (insert b s);
        runner \<leftarrow> d runner;
        frontier_walk limit d idom b runner df
      })"
  by auto
termination by (relation "measure (\<lambda>(l, _). ll_left l)") (auto dest: ll_tick_Some)

declare frontier_walk.simps [simp del]

definition frontier_block :: "dom_map \<Rightarrow> nat \<times> nat list \<Rightarrow> nat set list \<Rightarrow> nat set list option" where
  "frontier_block d = (\<lambda>(b, preds) df.
     if length preds < 2 then Some df
     else (case d b of
         None \<Rightarrow> Some df
       | Some idom \<Rightarrow>
           fold_opt (\<lambda>p df. if d p = None then Some df else frontier_walk ll_new d idom b p df) preds df))"

definition frontiers_compute :: "ir_program \<Rightarrow> dom_map \<Rightarrow> nat list list \<Rightarrow> nat set list \<Rightarrow> nat set list option" where
  "frontiers_compute ir d ps old =
     (let df = map (\<lambda>_. {}) old;
          df = vec_resize (length (ir_blocks ir)) {} df
      in fold_opt (frontier_block d) (zip [0..<length ps] ps) df)"

subsection \<open>The tree of candidates\<close>

text \<open>
  The correctness argument is about one function: \<open>e\<close> is its entry, \<open>L\<close> its reverse post order, \<open>ps\<close>
  the predecessor lists and \<open>pos\<close> the positions in \<open>L\<close>.
\<close>

definition dom_graph :: "nat \<Rightarrow> nat list \<Rightarrow> nat list list \<Rightarrow> nat list \<Rightarrow> bool" where
  "dom_graph e L ps pos \<longleftrightarrow> L \<noteq> [] \<and> hd L = e \<and> distinct L \<and>
     (\<forall>b\<in>set L. b < length ps \<and> b < length pos \<and> set (ps ! b) \<subseteq> set L) \<and>
     (\<forall>i<length L. pos ! (L ! i) = i) \<and>
     (\<forall>b\<in>set L. b \<noteq> e \<longrightarrow> (\<exists>p\<in>set (ps ! b). pos ! p < pos ! b))"

inductive chain :: "dom_map \<Rightarrow> nat \<Rightarrow> nat \<Rightarrow> nat \<Rightarrow> bool" for d e where
  chain_self: "chain d e b b"
| chain_up: "b \<noteq> e \<Longrightarrow> d b = Some p \<Longrightarrow> chain d e p x \<Longrightarrow> chain d e b x"

definition dom_tree :: "nat \<Rightarrow> nat list \<Rightarrow> nat list \<Rightarrow> dom_map \<Rightarrow> bool" where
  "dom_tree e L pos d \<longleftrightarrow> d e = Some e \<and>
     (\<forall>b\<in>set L \<inter> dom d. b \<noteq> e \<longrightarrow>
        (\<exists>p. d b = Some p \<and> p \<in> set L \<inter> dom d \<and> pos ! p < pos ! b))"

text \<open>Paths from the entry, last block first, with their number of edges that do not go forward.\<close>

inductive dpath :: "nat \<Rightarrow> nat list \<Rightarrow> nat list list \<Rightarrow> nat list \<Rightarrow> nat \<Rightarrow> nat list \<Rightarrow> nat \<Rightarrow> bool"
  for e L ps pos where
  dpath_start: "dpath e L ps pos 0 [e] e"
| dpath_step: "dpath e L ps pos k bs p \<Longrightarrow> c \<in> set L \<Longrightarrow> p \<in> set (ps ! c) \<Longrightarrow>
    dpath e L ps pos (if pos ! p < pos ! c then k else Suc k) (c # bs) c"

definition true_doms :: "nat \<Rightarrow> nat list \<Rightarrow> nat list list \<Rightarrow> nat list \<Rightarrow> nat \<Rightarrow> nat set" where
  "true_doms e L ps pos b = {x. \<forall>k bs. dpath e L ps pos k bs b \<longrightarrow> x \<in> set bs}"

lemma dom_graph_entry: "dom_graph e L ps pos \<Longrightarrow> e \<in> set L \<and> pos ! e = 0"
  unfolding dom_graph_def by (metis hd_conv_nth length_greater_0_conv list.set_sel(1))

lemma dom_graph_pos_inj:
  assumes "dom_graph e L ps pos" "a \<in> set L" "b \<in> set L" "pos ! a = pos ! b"
  shows "a = b"
  using assms unfolding dom_graph_def by (metis in_set_conv_nth)

lemma dom_graph_pos_less: "dom_graph e L ps pos \<Longrightarrow> b \<in> set L \<Longrightarrow> pos ! b < length L"
  unfolding dom_graph_def by (metis in_set_conv_nth)

lemma chain_trans: "chain d e b x \<Longrightarrow> chain d e x y \<Longrightarrow> chain d e b y"
  by (induction rule: chain.induct) (auto intro: chain.intros)

lemma chain_in:
  assumes "chain d e b x" "dom_tree e L pos d" "b \<in> set L \<inter> dom d"
  shows "x \<in> set L \<inter> dom d \<and> pos ! x \<le> pos ! b"
  using assms
proof (induction rule: chain.induct)
  case (chain_up b p x)
  then have "p \<in> set L \<inter> dom d" "pos ! p < pos ! b" unfolding dom_tree_def by force+
  with chain_up.IH chain_up.prems(1) show ?case by auto
qed simp

subsection \<open>Walking the fingers\<close>

lemma finger_up_spec:
  assumes g: "dom_graph e L ps pos" and t: "dom_tree e L pos d"
    and "f \<in> set L \<inter> dom d" "h \<in> set L" and "ll_max limit < 2 ^ 32" "pos ! f \<le> ll_left limit"
    and D: "\<And>b x. b \<in> set L \<inter> dom d \<Longrightarrow> b \<noteq> e \<Longrightarrow> x \<in> D b \<Longrightarrow> x \<noteq> b \<Longrightarrow> x \<in> D (the (d b))"
      "\<And>b x. b \<in> set L \<Longrightarrow> x \<in> D b \<Longrightarrow> x \<in> set L \<Longrightarrow> pos ! x \<le> pos ! b"
  shows "\<exists>limit' f'. finger_up limit d pos f h = Some (limit', f') \<and> f' \<in> set L \<inter> dom d \<and>
     chain d e f f' \<and> pos ! f' \<le> pos ! h \<and> (pos ! h < pos ! f \<longrightarrow> pos ! f' < pos ! f) \<and>
     (pos ! f \<le> pos ! h \<longrightarrow> f' = f) \<and>
     D f \<inter> D h \<inter> set L \<subseteq> D f' \<and> ll_max limit' = ll_max limit \<and> ll_left limit + pos ! f' \<le> ll_left limit' + pos ! f"
  using assms(3-6)
proof (induction "pos ! f" arbitrary: f limit rule: less_induct)
  case less
  have lens: "f < length pos" "h < length pos" using g less.prems unfolding dom_graph_def by auto
  show ?case
  proof (cases "pos ! h < pos ! f")
    case False
    then have "finger_up limit d pos f h = Some (limit, f)"
      by (subst finger_up.simps) (simp add: lens)
    with False less.prems show ?thesis by (auto intro: chain_self)
  next
    case True
    then have fe: "f \<noteq> e" using dom_graph_entry [OF g] by auto
    with t less.prems obtain p where p: "d f = Some p" "p \<in> set L \<inter> dom d" "pos ! p < pos ! f"
      unfolding dom_tree_def by blast
    from True less.prems obtain limit1 where l: "ll_tick limit = Some limit1" "Suc (ll_left limit1) = ll_left limit"
      "ll_max limit1 = ll_max limit"
      using ll_tick_left [of limit] by auto
    have run: "finger_up limit d pos f h = finger_up limit1 d pos p h"
      by (subst finger_up.simps) (simp add: lens True l p)
    have "h \<in> set L" "ll_max limit1 < 2 ^ 32" "pos ! p \<le> ll_left limit1"
      using less.prems l p(3) by auto
    from less.hyps [OF p(3) p(2) this] obtain limit' f' where IH:
      "finger_up limit1 d pos p h = Some (limit', f')" "f' \<in> set L \<inter> dom d" "chain d e p f'"
      "pos ! f' \<le> pos ! h" "D p \<inter> D h \<inter> set L \<subseteq> D f'" "ll_max limit' = ll_max limit"
      "ll_left limit1 + pos ! f' \<le> ll_left limit' + pos ! p"
      unfolding l(3) by blast
    have "pos ! f' \<le> pos ! p" using chain_in [OF IH(3) t p(2)] by simp
    have "D f \<inter> D h \<inter> set L \<subseteq> D p"
    proof
      fix x assume x: "x \<in> D f \<inter> D h \<inter> set L"
      with D(2) [of h x] less.prems True have "x \<noteq> f" by auto
      with D(1) [of f x] x less.prems fe p(1) show "x \<in> D p" by auto
    qed
    with IH(5) have DD: "D f \<inter> D h \<inter> set L \<subseteq> D f'" by blast
    have "chain d e f f'" by (rule chain_up [OF fe p(1) IH(3)])
    moreover have "ll_left limit + pos ! f' \<le> ll_left limit' + pos ! f" using IH(7) p(3) l(2) by linarith
    ultimately show ?thesis
      unfolding run using IH(1,2,4,6) DD True p(3) l(3) \<open>pos ! f' \<le> pos ! p\<close> by auto
  qed
qed

lemma tick_count:
  fixes a b c f h f' h' l :: nat
  assumes "Suc a = l" "2 * (f + h) \<le> l" "a + f' \<le> b + f" "b + h' \<le> c + h" "f' + h' < f + h"
  shows "2 * (f' + h') \<le> c"
proof -
  have "a + f' + h' \<le> c + f + h" using assms(3,4) by linarith
  moreover have "f + h + f + h \<le> a + 1" using assms(1,2) by (simp add: mult_2)
  ultimately have "f + h + f' + h' \<le> c + 1" by linarith
  with assms(5) show ?thesis unfolding mult_2 by linarith
qed

lemma intersect_loop_spec:
  assumes g: "dom_graph e L ps pos" and t: "dom_tree e L pos d"
    and "f \<in> set L \<inter> dom d" "h \<in> set L \<inter> dom d" and "ll_max limit < 2 ^ 32"
    and "2 * (pos ! f + pos ! h) \<le> ll_left limit"
    and D: "\<And>b x. b \<in> set L \<inter> dom d \<Longrightarrow> b \<noteq> e \<Longrightarrow> x \<in> D b \<Longrightarrow> x \<noteq> b \<Longrightarrow> x \<in> D (the (d b))"
      "\<And>b x. b \<in> set L \<Longrightarrow> x \<in> D b \<Longrightarrow> x \<in> set L \<Longrightarrow> pos ! x \<le> pos ! b"
  shows "\<exists>y. intersect_loop limit d pos f h = Some y \<and> y \<in> set L \<inter> dom d \<and> chain d e f y \<and> chain d e h y \<and>
     D f \<inter> D h \<inter> set L \<subseteq> D y"
  using assms(3-6)
proof (induction "pos ! f + pos ! h" arbitrary: f h limit rule: less_induct)
  case less
  show ?case
  proof (cases "f = h")
    case True
    with less.prems show ?thesis by (subst intersect_loop.simps) (auto intro: chain_self)
  next
    case False
    then have ne: "pos ! f \<noteq> pos ! h" using dom_graph_pos_inj [OF g] less.prems by auto
    with less.prems obtain l1 where l1: "ll_tick limit = Some l1" "Suc (ll_left l1) = ll_left limit"
      "ll_max l1 = ll_max limit"
      using ll_tick_left [of limit] by fastforce
    have h: "h \<in> set L" "ll_max l1 < 2 ^ 32" "pos ! f \<le> ll_left l1" using less.prems l1 ne by auto
    obtain l2 f' where f': "finger_up l1 d pos f h = Some (l2, f')" "f' \<in> set L \<inter> dom d" "chain d e f f'"
      "pos ! f' \<le> pos ! h" "pos ! h < pos ! f \<longrightarrow> pos ! f' < pos ! f" "pos ! f \<le> pos ! h \<longrightarrow> f' = f"
      "D f \<inter> D h \<inter> set L \<subseteq> D f'" "ll_max l2 = ll_max l1" "ll_left l1 + pos ! f' \<le> ll_left l2 + pos ! f"
      using finger_up_spec [where D = D, OF g t less.prems(1) h D] by blast
    have f'L: "f' \<in> set L" "ll_max l2 < 2 ^ 32" "pos ! h \<le> ll_left l2"
      using f' h less.prems l1 ne by auto
    obtain l3 h' where h': "finger_up l2 d pos h f' = Some (l3, h')" "h' \<in> set L \<inter> dom d" "chain d e h h'"
      "pos ! f' < pos ! h \<longrightarrow> pos ! h' < pos ! h" "pos ! h \<le> pos ! f' \<longrightarrow> h' = h"
      "D h \<inter> D f' \<inter> set L \<subseteq> D h'" "ll_max l3 = ll_max l2" "ll_left l2 + pos ! h' \<le> ll_left l3 + pos ! h"
      using finger_up_spec [where D = D, OF g t less.prems(2) f'L D] by blast
    have le: "pos ! f' \<le> pos ! f" "pos ! h' \<le> pos ! h"
      using chain_in [OF f'(3) t less.prems(1)] chain_in [OF h'(3) t less.prems(2)] by auto
    have lt: "pos ! f' + pos ! h' < pos ! f + pos ! h"
    proof (cases "pos ! h < pos ! f")
      case True
      with f'(5) le show ?thesis by simp
    next
      case False
      with ne f'(6) h'(4) le show ?thesis by auto
    qed
    have m: "ll_max l3 < 2 ^ 32" using f'(8) h'(7) l1(3) less.prems(3) by simp
    have "2 * (pos ! f' + pos ! h') \<le> ll_left l3"
      by (rule tick_count [OF l1(2) less.prems(4) f'(9) h'(8) lt])
    from less.hyps [OF lt f'(2) h'(2) m this] obtain y where y: "intersect_loop l3 d pos f' h' = Some y"
      "y \<in> set L \<inter> dom d" "chain d e f' y" "chain d e h' y" "D f' \<inter> D h' \<inter> set L \<subseteq> D y" by blast
    have "intersect_loop limit d pos f h = Some y"
      by (subst intersect_loop.simps) (simp add: False l1 f'(1) h'(1) y(1))
    moreover have "D f \<inter> D h \<inter> set L \<subseteq> D y" using f'(7) h'(6) y(5) by blast
    ultimately show ?thesis
      using y chain_trans [OF f'(3) y(3)] chain_trans [OF h'(3) y(4)] by auto
  qed
qed


subsection \<open>The true dominators\<close>

lemma dpath_head: "dpath e L ps pos k bs b \<Longrightarrow> \<exists>cs. bs = b # cs"
  by (erule dpath.cases) auto

lemma dpath_length: "dpath e L ps pos k bs b \<Longrightarrow> k < length bs"
  by (induction rule: dpath.induct) auto

lemma dpath_in: "dpath e L ps pos k bs b \<Longrightarrow> e \<in> set L \<Longrightarrow> set bs \<subseteq> set L"
  by (induction rule: dpath.induct) auto

lemma dpath_prefix:
  assumes "dpath e L ps pos k bs c" "b \<in> set bs"
  shows "\<exists>j cs ds. dpath e L ps pos j cs b \<and> j \<le> k \<and> bs = ds @ cs"
  using assms
proof (induction rule: dpath.induct)
  case dpath_start
  then show ?case by (auto intro: dpath.dpath_start)
next
  case (dpath_step k bs p c)
  show ?case
  proof (cases "b = c")
    case True
    with dpath.dpath_step [OF dpath_step.hyps] show ?thesis by fastforce
  next
    case False
    with dpath_step obtain j cs ds where "dpath e L ps pos j cs b" "j \<le> k" "bs = ds @ cs" by auto
    then show ?thesis by (intro exI [of _ j] exI [of _ cs] exI [of _ "c # ds"]) auto
  qed
qed

lemma dpath_simple:
  assumes "dpath e L ps pos k bs b"
  shows "\<exists>j cs. dpath e L ps pos j cs b \<and> distinct cs \<and> set cs \<subseteq> set bs"
  using assms
proof (induction rule: dpath.induct)
  case dpath_start
  show ?case by (intro exI [of _ 0] exI [of _ "[e]"]) (auto intro: dpath.dpath_start)
next
  case (dpath_step k bs p c)
  then obtain j cs where cs: "dpath e L ps pos j cs p" "distinct cs" "set cs \<subseteq> set bs" by blast
  show ?case
  proof (cases "c \<in> set cs")
    case True
    from dpath_prefix [OF cs(1) this] obtain i ds gs where "dpath e L ps pos i ds c" "cs = gs @ ds" by blast
    with cs show ?thesis by (intro exI [of _ i] exI [of _ ds]) auto
  next
    case False
    with dpath.dpath_step [OF cs(1) dpath_step.hyps(2,3)] cs show ?thesis by fastforce
  qed
qed

lemma true_doms_pred:
  assumes "x \<in> true_doms e L ps pos b" "x \<noteq> b" "b \<in> set L" "p \<in> set (ps ! b)"
  shows "x \<in> true_doms e L ps pos p"
  using assms unfolding true_doms_def by (fastforce dest: dpath_step)

lemma true_doms_step:
  assumes "\<And>p. p \<in> set (ps ! b) \<Longrightarrow> x \<in> true_doms e L ps pos p" "b \<noteq> e"
  shows "x \<in> true_doms e L ps pos b"
proof -
  have "x \<in> set bs" if "dpath e L ps pos k bs b" for k bs
    using that assms by (cases rule: dpath.cases) (auto simp: true_doms_def)
  then show ?thesis by (auto simp: true_doms_def)
qed

lemma true_doms_self: "b \<in> true_doms e L ps pos b"
  by (auto simp: true_doms_def dest: dpath_head)

lemma true_doms_entry: "x \<in> true_doms e L ps pos e \<longleftrightarrow> x = e"
proof
  assume "x \<in> true_doms e L ps pos e"
  with dpath_start [of e L ps pos] have "x \<in> set [e]" unfolding true_doms_def by blast
  then show "x = e" by simp
qed (simp add: true_doms_self)

text \<open>Every block has a path through earlier blocks only, so its dominators come no later.\<close>

lemma dpath_forward:
  assumes g: "dom_graph e L ps pos" and "b \<in> set L"
  shows "\<exists>k bs. dpath e L ps pos k bs b \<and> (\<forall>x\<in>set bs. pos ! x \<le> pos ! b)"
  using assms(2)
proof (induction "pos ! b" arbitrary: b rule: less_induct)
  case less
  show ?case
  proof (cases "b = e")
    case True
    then show ?thesis by (intro exI [of _ 0] exI [of _ "[e]"]) (auto intro: dpath_start)
  next
    case False
    with g less.prems obtain p where p: "p \<in> set (ps ! b)" "pos ! p < pos ! b" "p \<in> set L"
      unfolding dom_graph_def by blast
    from less.hyps [OF p(2,3)] obtain k bs where "dpath e L ps pos k bs p" "\<forall>x\<in>set bs. pos ! x \<le> pos ! p"
      by blast
    with dpath_step [OF this(1) less.prems p(1)] p(2) show ?thesis by fastforce
  qed
qed

lemma true_doms_pos:
  "dom_graph e L ps pos \<Longrightarrow> b \<in> set L \<Longrightarrow> x \<in> true_doms e L ps pos b \<Longrightarrow> x \<in> set L \<and> pos ! x \<le> pos ! b"
  using dpath_forward [of e L ps pos b] dpath_in [of e L ps pos _ _ b] dom_graph_entry [of e L ps pos]
  by (force simp: true_doms_def)

subsection \<open>The invariants of the sweep\<close>

text \<open>No dominator is ever lost, and after \<open>k\<close> sweeps the candidates are dominators along every path
  with fewer than \<open>k\<close> edges that do not go forward.\<close>

definition keeps_doms :: "nat \<Rightarrow> nat list \<Rightarrow> nat list list \<Rightarrow> nat list \<Rightarrow> dom_map \<Rightarrow> bool" where
  "keeps_doms e L ps pos d \<longleftrightarrow>
     (\<forall>b\<in>set L \<inter> dom d. b \<noteq> e \<longrightarrow> true_doms e L ps pos b - {b} \<subseteq> true_doms e L ps pos (the (d b)))"

definition path_bound :: "nat \<Rightarrow> nat list \<Rightarrow> nat list list \<Rightarrow> nat list \<Rightarrow> dom_map \<Rightarrow> nat \<Rightarrow> nat \<Rightarrow> bool" where
  "path_bound e L ps pos d k b \<longleftrightarrow>
     (\<forall>j<k. \<forall>bs x. dpath e L ps pos j bs b \<longrightarrow> chain d e b x \<longrightarrow> x \<in> set bs)"

definition sweep_inv :: "nat \<Rightarrow> nat list \<Rightarrow> nat list list \<Rightarrow> nat list \<Rightarrow> nat \<Rightarrow> nat list \<Rightarrow> dom_map \<Rightarrow> bool" where
  "sweep_inv e L ps pos k done d \<longleftrightarrow> dom_tree e L pos d \<and> keeps_doms e L ps pos d \<and>
     set done \<subseteq> dom d \<and> (0 < k \<longrightarrow> set L \<subseteq> dom d) \<and>
     (\<forall>b\<in>set L \<inter> dom d. path_bound e L ps pos d (if b \<in> set done then Suc k else k) b)"

lemma path_bound_mono: "path_bound e L ps pos d k b \<Longrightarrow> j \<le> k \<Longrightarrow> path_bound e L ps pos d j b"
  unfolding path_bound_def by (meson less_le_trans)

lemma path_bound_entry: "path_bound e L ps pos d k e"
proof -
  have "x = e" if "chain d e e x" for x using that by (cases rule: chain.cases) auto
  then show ?thesis by (fastforce simp: path_bound_def dest: dpath_head)
qed

lemma sweep_inv_bound:
  "sweep_inv e L ps pos k xs d \<Longrightarrow> b \<in> set L \<inter> dom d \<Longrightarrow>
     path_bound e L ps pos d (if b \<in> set xs then Suc k else k) b"
  unfolding sweep_inv_def by blast

lemma keeps_doms_chain:
  assumes g: "dom_graph e L ps pos" and t: "dom_tree e L pos d" and k: "keeps_doms e L ps pos d"
    and "b \<in> set L \<inter> dom d" "x \<in> true_doms e L ps pos b"
  shows "chain d e b x"
  using assms(4,5)
proof (induction "pos ! b" arbitrary: b rule: less_induct)
  case less
  show ?case
  proof (cases "x = b")
    case False
    with less.prems have e: "b \<noteq> e" by (auto simp: true_doms_entry)
    with t less.prems obtain p where p: "d b = Some p" "p \<in> set L \<inter> dom d" "pos ! p < pos ! b"
      unfolding dom_tree_def by blast
    have "x \<in> true_doms e L ps pos p" using k less.prems e False p(1) unfolding keeps_doms_def by force
    from less.hyps [OF p(3,2) this] show ?thesis using e p(1) by (blast intro: chain_up)
  qed (auto intro: chain_self)
qed

lemma chain_update:
  assumes "chain (d(b \<mapsto> y)) e c x"
  shows "chain d e c x \<or> chain d e c b \<and> chain (d(b \<mapsto> y)) e b x"
  using assms
proof (induction rule: chain.induct)
  case (chain_up c p x)
  show ?case
  proof (cases "c = b")
    case True
    have "chain (d(b \<mapsto> y)) e c x" by (rule chain.chain_up [where p = p]) (rule chain_up.hyps)+
    with True show ?thesis by (metis chain_self)
  next
    case False
    with chain_up show ?thesis by (auto intro: chain.chain_up)
  qed
qed (auto intro: chain_self)

lemma chain_update_below:
  assumes "chain (d(b \<mapsto> y)) e c x" "dom_tree e L pos d" "c \<in> set L \<inter> dom d" "pos ! c < pos ! b"
  shows "chain d e c x"
  using assms(1,3,4)
proof (induction rule: chain.induct)
  case (chain_up c p x)
  then have c: "d c = Some p" by (auto split: if_splits)
  with chain_up assms(2) have "p \<in> set L \<inter> dom d" "pos ! p < pos ! c" unfolding dom_tree_def by fastforce+
  with chain_up c show ?case by (auto intro: chain.chain_up)
qed (auto intro: chain_self)


lemma ll_new_left [simp]: "ll_left ll_new = 100000000" "ll_max ll_new = 100000000"
  by (simp_all add: ll_new_def ll_left_def ll_with_max_def)

lemma intersect_spec:
  assumes g: "dom_graph e L ps pos" and t: "dom_tree e L pos d" and k: "keeps_doms e L ps pos d"
    and f: "f \<in> set L \<inter> dom d" and h: "h \<in> set L \<inter> dom d" and size: "length L \<le> 25000000"
  shows "\<exists>y. intersect f h d pos = Some y \<and> y \<in> set L \<inter> dom d \<and> chain d e f y \<and> chain d e h y \<and>
     true_doms e L ps pos f \<inter> true_doms e L ps pos h \<subseteq> true_doms e L ps pos y"
proof -
  let ?D = "true_doms e L ps pos"
  have "pos ! f < length L" "pos ! h < length L" using dom_graph_pos_less [OF g] f h by auto
  with size have "2 * (pos ! f + pos ! h) \<le> ll_left ll_new" "ll_max ll_new < 2 ^ 32" by simp_all
  moreover have "x \<in> ?D (the (d b))" if "b \<in> set L \<inter> dom d" "b \<noteq> e" "x \<in> ?D b" "x \<noteq> b" for b x
    using k that unfolding keeps_doms_def by blast
  moreover have "pos ! x \<le> pos ! b" "x \<in> set L" if "b \<in> set L" "x \<in> ?D b" for b x
    using true_doms_pos [OF g that] by blast+
  ultimately obtain y where "intersect_loop ll_new d pos f h = Some y" "y \<in> set L \<inter> dom d" "chain d e f y"
    "chain d e h y" "?D f \<inter> ?D h \<inter> set L \<subseteq> ?D y"
    using intersect_loop_spec [where D = ?D and limit = ll_new, OF g t f h] by blast
  moreover have "?D f \<subseteq> set L" using true_doms_pos [OF g] f by blast
  ultimately show ?thesis unfolding intersect_def by blast
qed

lemma fold_intersect:
  assumes "dom_graph e L ps pos" "dom_tree e L pos d" "keeps_doms e L ps pos d" "length L \<le> 25000000"
    and "set rest \<subseteq> set L \<inter> dom d" "cur \<in> set L \<inter> dom d"
  shows "\<exists>y. fold_opt (\<lambda>pred new_idom. if d pred \<noteq> None then intersect pred new_idom d pos else Some new_idom) rest cur
        = Some y \<and> y \<in> set L \<inter> dom d \<and> (\<forall>p\<in>insert cur (set rest). chain d e p y) \<and>
     (\<Inter>p\<in>insert cur (set rest). true_doms e L ps pos p) \<subseteq> true_doms e L ps pos y"
  using assms(5,6)
proof (induction rest arbitrary: cur)
  case (Cons p rest)
  then have p: "p \<in> set L \<inter> dom d" "set rest \<subseteq> set L \<inter> dom d" by auto
  obtain c where c: "intersect p cur d pos = Some c" "c \<in> set L \<inter> dom d" "chain d e p c" "chain d e cur c"
    "true_doms e L ps pos p \<inter> true_doms e L ps pos cur \<subseteq> true_doms e L ps pos c"
    using intersect_spec [OF assms(1-3) p(1) Cons.prems(2) assms(4)] by blast
  from Cons.IH [OF p(2) c(2)] obtain y where
    "fold_opt (\<lambda>pred new_idom. if d pred \<noteq> None then intersect pred new_idom d pos else Some new_idom) rest c = Some y"
    "y \<in> set L \<inter> dom d" "\<forall>p\<in>insert c (set rest). chain d e p y"
    "(\<Inter>p\<in>insert c (set rest). true_doms e L ps pos p) \<subseteq> true_doms e L ps pos y" by blast
  moreover from this(3) have "chain d e p y" "chain d e cur y"
    using chain_trans [OF c(3)] chain_trans [OF c(4)] by auto
  moreover have "(\<Inter>q\<in>insert cur (set (p # rest)). true_doms e L ps pos q) \<subseteq>
      (\<Inter>q\<in>insert c (set rest). true_doms e L ps pos q)"
    using c(5) by auto
  ultimately show ?case using p(1) c(1) by (auto simp: dom_def)
qed (auto intro: chain_self)

text \<open>What the recomputation of \<open>b\<close> finds.\<close>

definition new_candidate :: "nat \<Rightarrow> nat list \<Rightarrow> nat list list \<Rightarrow> nat list \<Rightarrow> dom_map \<Rightarrow> nat \<Rightarrow> nat \<Rightarrow> bool" where
  "new_candidate e L ps pos d b y \<longleftrightarrow> y \<in> set L \<inter> dom d \<and> pos ! y < pos ! b \<and>
     (\<forall>p\<in>set (ps ! b) \<inter> dom d. chain d e p y) \<and> true_doms e L ps pos b - {b} \<subseteq> true_doms e L ps pos y"

lemma done_before:
  assumes g: "dom_graph e L ps pos" and L: "L = done @ b # todo" and p: "p \<in> set L" "pos ! p < pos ! b"
  shows "p \<in> set done"
proof -
  have nth: "pos ! (L ! i) = i" if "i < length L" for i using g that by (simp add: dom_graph_def)
  from nth [of "length done"] L have "pos ! b = length done" by simp
  moreover obtain i where "i < length L" "L ! i = p" using p(1) by (auto simp: in_set_conv_nth)
  ultimately have "i < length done" using nth p(2) by auto
  with \<open>L ! i = p\<close> L show ?thesis by (auto simp: nth_append)
qed

lemma dom_block_spec:
  assumes g: "dom_graph e L ps pos" and size: "length L \<le> 25000000"
    and inv: "sweep_inv e L ps pos k done d" and L: "L = done @ b # todo" "done \<noteq> []"
  shows "\<exists>y. dom_block ps pos b (d, ch) = Some (d(b \<mapsto> y), ch \<or> d b \<noteq> Some y) \<and> new_candidate e L ps pos d b y"
proof -
  let ?ps = "filter (\<lambda>p. d p \<noteq> None) (ps ! b)"
  have b: "b \<in> set L" "b < length ps" "set (ps ! b) \<subseteq> set L" using g L unfolding dom_graph_def by auto
  have be: "b \<noteq> e" using g L unfolding dom_graph_def by (cases "done") auto
  with g b obtain q where q: "q \<in> set (ps ! b)" "pos ! q < pos ! b" "q \<in> set L"
    unfolding dom_graph_def by blast
  have "q \<in> dom d" using done_before [OF g L(1) q(3,2)] inv by (auto simp: sweep_inv_def)
  with q have qin: "q \<in> set ?ps" by auto
  have inps: "set ?ps = set (ps ! b) \<inter> dom d" by auto
  obtain p rest where pr: "?ps = p # rest" using qin by (metis empty_iff list.exhaust list.set(1))
  then have "set ?ps = insert p (set rest)" by simp
  then have pset: "insert p (set rest) = set (ps ! b) \<inter> dom d" unfolding inps by simp
  have t: "dom_tree e L pos d" "keeps_doms e L ps pos d" using inv by (auto simp: sweep_inv_def)
  have "set rest \<subseteq> set L \<inter> dom d" "p \<in> set L \<inter> dom d" using pset b(3) by blast+
  from fold_intersect [OF g t size this] obtain y where y:
    "fold_opt (\<lambda>pred new_idom. if d pred \<noteq> None then intersect pred new_idom d pos else Some new_idom) rest p = Some y"
    "y \<in> set L \<inter> dom d" "\<forall>p\<in>set (ps ! b) \<inter> dom d. chain d e p y"
    "(\<Inter>p\<in>set (ps ! b) \<inter> dom d. true_doms e L ps pos p) \<subseteq> true_doms e L ps pos y"
    unfolding pset by blast
  have "pos ! y \<le> pos ! q"
    using y(3) q(1) \<open>q \<in> dom d\<close> chain_in [OF _ t(1), of q y] q(3) by blast
  moreover have "true_doms e L ps pos b - {b} \<subseteq> true_doms e L ps pos y"
    using y(4) true_doms_pred [OF _ _ b(1)] by blast
  ultimately have "new_candidate e L ps pos d b y" using y(2,3) q(2) by (simp add: new_candidate_def)
  moreover have "dom_block ps pos b (d, ch) = Some (d(b \<mapsto> y), ch \<or> d b \<noteq> Some y)"
    using y(1) pr b(2) by (auto simp: dom_block_def preds_of_def split: option.splits)
  ultimately show ?thesis by blast
qed

lemma dom_update_inv:
  assumes g: "dom_graph e L ps pos" and inv: "sweep_inv e L ps pos k done d"
    and L: "L = done @ b # todo" "done \<noteq> []" and y: "new_candidate e L ps pos d b y"
  shows "sweep_inv e L ps pos k (done @ [b]) (d(b \<mapsto> y))"
proof -
  let ?d = "d(b \<mapsto> y)"
  note inv' = inv [unfolded sweep_inv_def] and y' = y [unfolded new_candidate_def]
  have t: "dom_tree e L pos d" "keeps_doms e L ps pos d" using inv' by auto
  have b: "b \<in> set L" "b \<noteq> e" "b \<notin> set done" "set (ps ! b) \<subseteq> set L"
    using g L unfolding dom_graph_def by (auto simp: hd_append)
  have bnd: "path_bound e L ps pos d (if c \<in> set done then Suc k else k) c" if "c \<in> set L \<inter> dom d" for c
    by (rule sweep_inv_bound [OF inv that])
  have tree: "dom_tree e L pos ?d"
    unfolding dom_tree_def
  proof (intro conjI ballI impI)
    show "?d e = Some e" using t(1) b(2) by (simp add: dom_tree_def)
    fix c assume c: "c \<in> set L \<inter> dom ?d" "c \<noteq> e"
    show "\<exists>p. ?d c = Some p \<and> p \<in> set L \<inter> dom ?d \<and> pos ! p < pos ! c"
    proof (cases "c = b")
      case False
      with t(1) c obtain p where "d c = Some p" "p \<in> set L \<inter> dom d" "pos ! p < pos ! c"
        unfolding dom_tree_def by force
      with False show ?thesis by auto
    qed (use y' in auto)
  qed
  have keeps: "keeps_doms e L ps pos ?d"
    using t(2) y' by (auto simp: keeps_doms_def)
  have bound_b: "path_bound e L ps pos ?d (Suc k) b"
    unfolding path_bound_def
  proof (intro allI impI)
    fix j bs x
    assume j: "j < Suc k" and path: "dpath e L ps pos j bs b" and x: "chain ?d e b x"
    show "x \<in> set bs"
    proof (cases "x = b")
      case True
      then show ?thesis using dpath_head [OF path] by auto
    next
      case False
      with x have "chain ?d e y x" by (cases rule: chain.cases) auto
      from chain_update_below [OF this t(1)] y' have yx: "chain d e y x" by blast
      from path b(2) obtain i cs p where p: "dpath e L ps pos i cs p" "p \<in> set (ps ! b)" "bs = b # cs"
        and ij: "j = (if pos ! p < pos ! b then i else Suc i)"
        by (cases rule: dpath.cases) auto
      have pL: "p \<in> set L" using p(2) b(4) by auto
      have "path_bound e L ps pos d (Suc i) p \<and> p \<in> dom d"
      proof (cases "pos ! p < pos ! b")
        case True
        then have dn: "p \<in> set done" using done_before [OF g L(1) pL] by simp
        with inv' have pd: "p \<in> dom d" by blast
        with bnd [of p] pL dn have "path_bound e L ps pos d (Suc k) p" by simp
        moreover have "Suc i \<le> Suc k" using ij j True by simp
        ultimately show ?thesis using path_bound_mono pd by blast
      next
        case False
        with ij j have "Suc i \<le> k" by simp
        moreover from this inv' pL have "p \<in> dom d" by auto
        moreover have "path_bound e L ps pos d k p"
          by (rule path_bound_mono [OF bnd]) (use pL \<open>p \<in> dom d\<close> in auto)
        ultimately show ?thesis using path_bound_mono by blast
      qed
      then have "path_bound e L ps pos d (Suc i) p" "chain d e p x"
        using y' p(2) chain_trans [OF _ yx] by auto
      with p(1) have "x \<in> set cs" by (auto simp: path_bound_def)
      with p(3) show ?thesis by simp
    qed
  qed
  have "path_bound e L ps pos ?d (if c \<in> set (done @ [b]) then Suc k else k) c"
    if c: "c \<in> set L \<inter> dom ?d" for c
  proof (cases "c = b")
    case True
    with bound_b show ?thesis by simp
  next
    case False
    let ?m = "if c \<in> set done then Suc k else k"
    have old: "path_bound e L ps pos d ?m c" using bnd [of c] c False by auto
    have "x \<in> set bs" if jm: "j < ?m" and path: "dpath e L ps pos j bs c" and x: "chain ?d e c x" for j bs x
      using chain_update [OF x]
    proof
      assume "chain d e c x"
      from old [unfolded path_bound_def, rule_format, OF jm path this] show ?thesis .
    next
      assume *: "chain d e c b \<and> chain ?d e b x"
      from old [unfolded path_bound_def, rule_format, OF jm path conjunct1 [OF this]] have "b \<in> set bs" .
      from dpath_prefix [OF path this] obtain i cs ds where cs: "dpath e L ps pos i cs b" "i \<le> j" "bs = ds @ cs"
        by blast
      have "i < Suc k" using cs(2) jm by (simp split: if_splits)
      from bound_b [unfolded path_bound_def, rule_format, OF this cs(1) conjunct2 [OF *]] cs(3)
      show ?thesis by simp
    qed
    then have "path_bound e L ps pos ?d ?m c" unfolding path_bound_def by blast
    with False show ?thesis by simp
  qed
  moreover have "set (done @ [b]) \<subseteq> dom ?d" "0 < k \<longrightarrow> set L \<subseteq> dom ?d" using inv' by auto
  ultimately show ?thesis unfolding sweep_inv_def using tree keeps by blast
qed


subsection \<open>A sweep and the loop\<close>

text \<open>A block is settled when its candidate is above all its predecessors; a map is exact when the
  candidates above a block are its dominators.\<close>

definition settled :: "nat \<Rightarrow> nat list list \<Rightarrow> dom_map \<Rightarrow> nat \<Rightarrow> bool" where
  "settled e ps d b \<longleftrightarrow> (\<exists>y. d b = Some y \<and> (\<forall>p\<in>set (ps ! b) \<inter> dom d. chain d e p y))"

definition dom_exact :: "nat \<Rightarrow> nat list \<Rightarrow> nat list list \<Rightarrow> nat list \<Rightarrow> dom_map \<Rightarrow> bool" where
  "dom_exact e L ps pos d \<longleftrightarrow> dom_tree e L pos d \<and> set L \<subseteq> dom d \<and>
     (\<forall>b\<in>set L. \<forall>x. chain d e b x \<longleftrightarrow> x \<in> true_doms e L ps pos b)"

lemma sweep_spec:
  assumes g: "dom_graph e L ps pos" and size: "length L \<le> 25000000"
    and "sweep_inv e L ps pos k done d" "L = done @ todo" "done \<noteq> []"
  shows "\<exists>d' ch'. fold_opt (dom_block ps pos) todo (d, ch) = Some (d', ch') \<and> sweep_inv e L ps pos k L d' \<and>
     (\<forall>b. b \<notin> set L \<longrightarrow> d' b = d b) \<and>
     (\<not> ch' \<longrightarrow> \<not> ch \<and> d' = d \<and> (\<forall>b\<in>set todo. settled e ps d b)) \<and>
     (dom_exact e L ps pos d \<longrightarrow> d' = d \<and> ch' = ch)"
  using assms(3-5)
proof (induction todo arbitrary: "done" d ch)
  case Nil
  then show ?case by auto
next
  case (Cons b todo)
  obtain y where y: "dom_block ps pos b (d, ch) = Some (d(b \<mapsto> y), ch \<or> d b \<noteq> Some y)"
    "new_candidate e L ps pos d b y"
    using dom_block_spec [OF g size Cons.prems] by blast
  have inv: "sweep_inv e L ps pos k (done @ [b]) (d(b \<mapsto> y))"
    by (rule dom_update_inv [OF g Cons.prems y(2)])
  have bL: "b \<in> set L" "b \<noteq> e" using g Cons.prems unfolding dom_graph_def by (auto simp: hd_append)
  have exact: "d b = Some y" if ex: "dom_exact e L ps pos d"
  proof -
    note ex' = ex [unfolded dom_exact_def] and y' = y(2) [unfolded new_candidate_def]
    have ch: "chain d e c x \<longleftrightarrow> x \<in> true_doms e L ps pos c" if "c \<in> set L" for c x using ex' that by blast
    obtain q where q: "d b = Some q" "q \<in> set L \<inter> dom d" "pos ! q < pos ! b"
      using ex' bL unfolding dom_tree_def by blast
    have "true_doms e L ps pos y = true_doms e L ps pos b - {b}"
    proof
      show "true_doms e L ps pos y \<subseteq> true_doms e L ps pos b - {b}"
      proof
        fix x assume x: "x \<in> true_doms e L ps pos y"
        with ch y' have yx: "chain d e y x" by blast
        have "x \<in> true_doms e L ps pos p" if p: "p \<in> set (ps ! b)" for p
        proof -
          have "p \<in> set L" using p g bL unfolding dom_graph_def by blast
          with p y' ex' have "chain d e p y" by blast
          from chain_trans [OF this yx] ch [OF \<open>p \<in> set L\<close>] show ?thesis by simp
        qed
        then have "x \<in> true_doms e L ps pos b" using true_doms_step bL(2) by metis
        moreover have "x \<noteq> b" using true_doms_pos [OF g _ x] y' by auto
        ultimately show "x \<in> true_doms e L ps pos b - {b}" by simp
      qed
    qed (use y' in simp)
    moreover have "true_doms e L ps pos q = true_doms e L ps pos b - {b}"
    proof -
      have "x \<in> true_doms e L ps pos q \<longleftrightarrow> x \<in> true_doms e L ps pos b \<and> x \<noteq> b" for x
      proof -
        have "chain d e b x \<and> x \<noteq> b \<longleftrightarrow> chain d e q x"
          using q bL(2) true_doms_pos [OF g, of q x] ch [of q x]
          by (auto elim: chain.cases intro: chain_up)
        with ch [of q x] ch [of b x] q(2) bL(1) show ?thesis by blast
      qed
      then show ?thesis by blast
    qed
    ultimately have "y \<in> true_doms e L ps pos q" "q \<in> true_doms e L ps pos y"
      using true_doms_self by auto
    with true_doms_pos [OF g, of q y] true_doms_pos [OF g, of y q] q(2) y' have "pos ! y = pos ! q" by force
    with dom_graph_pos_inj [OF g] q y' show ?thesis by auto
  qed
  have L: "L = (done @ [b]) @ todo" "done @ [b] \<noteq> []" using Cons.prems(2) by auto
  from Cons.IH [OF inv L, of "ch \<or> d b \<noteq> Some y"] obtain d' ch' where IH:
    "fold_opt (dom_block ps pos) todo (d(b \<mapsto> y), ch \<or> d b \<noteq> Some y) = Some (d', ch')"
    "sweep_inv e L ps pos k L d'" "\<forall>c. c \<notin> set L \<longrightarrow> d' c = (d(b \<mapsto> y)) c"
    "\<not> ch' \<longrightarrow> \<not> (ch \<or> d b \<noteq> Some y) \<and> d' = d(b \<mapsto> y) \<and> (\<forall>c\<in>set todo. settled e ps (d(b \<mapsto> y)) c)"
    "dom_exact e L ps pos (d(b \<mapsto> y)) \<longrightarrow> d' = d(b \<mapsto> y) \<and> ch' = (ch \<or> d b \<noteq> Some y)"
    by blast
  have same: "d(b \<mapsto> y) = d" if "d b = Some y" using that by (simp add: fun_upd_idem)
  have "settled e ps d b" if "d b = Some y" using that y(2) by (auto simp: settled_def new_candidate_def)
  with IH(4) same have "\<not> ch' \<longrightarrow> \<not> ch \<and> d' = d \<and> (\<forall>c\<in>set (b # todo). settled e ps d c)" by auto
  moreover have "dom_exact e L ps pos d \<longrightarrow> d' = d \<and> ch' = ch" using IH(5) exact same by auto
  moreover have "\<forall>c. c \<notin> set L \<longrightarrow> d' c = d c" using IH(3) bL(1) by auto
  ultimately show ?case using IH(1,2) y(1) by auto
qed

lemma settled_exact:
  assumes g: "dom_graph e L ps pos" and inv: "sweep_inv e L ps pos k L d"
    and s: "\<forall>b\<in>set (tl L). settled e ps d b"
  shows "dom_exact e L ps pos d"
proof -
  have t: "dom_tree e L pos d" "keeps_doms e L ps pos d" and dom: "set L \<subseteq> dom d"
    using inv by (auto simp: sweep_inv_def)
  have tl: "b \<in> set (tl L)" if "b \<in> set L" "b \<noteq> e" for b
    using g that unfolding dom_graph_def by (cases L) auto
  have "x \<in> set bs" if "dpath e L ps pos j bs b" "chain d e b x" for j bs b x
    using that
  proof (induction arbitrary: x rule: dpath.induct)
    case dpath_start
    then show ?case by (auto elim: chain.cases)
  next
    case (dpath_step j bs p c)
    have pL: "p \<in> set L" using g dpath_step.hyps unfolding dom_graph_def by blast
    show ?case
    proof (cases "c = e \<or> x = c")
      case True
      with dpath_step.prems show ?thesis by (auto elim: chain.cases)
    next
      case False
      with dpath_step.prems obtain y where y: "d c = Some y" "chain d e y x" by (auto elim: chain.cases)
      from s tl [OF dpath_step.hyps(2)] False y(1) dpath_step.hyps(3) pL dom have "chain d e p y"
        by (force simp: settled_def)
      from dpath_step.IH [OF chain_trans [OF this y(2)]] show ?thesis by simp
    qed
  qed
  then have "x \<in> true_doms e L ps pos b" if "chain d e b x" for b x
    using that by (auto simp: true_doms_def)
  moreover have "chain d e b x" if "b \<in> set L" "x \<in> true_doms e L ps pos b" for b x
    by (rule keeps_doms_chain [OF g t _ that(2)]) (use that(1) dom in blast)
  ultimately show ?thesis using dom t(1) by (auto simp: dom_exact_def)
qed

text \<open>As many sweeps as there are blocks are enough, since every path contains a path without repetition.\<close>

lemma bounded_exact:
  assumes g: "dom_graph e L ps pos" and inv: "sweep_inv e L ps pos k done d" and k: "length L \<le> k"
  shows "dom_exact e L ps pos d"
proof -
  have t: "dom_tree e L pos d" "keeps_doms e L ps pos d" using inv by (auto simp: sweep_inv_def)
  have L: "L \<noteq> []" "e \<in> set L" using g dom_graph_entry [OF g] by (auto simp: dom_graph_def)
  with k have "0 < k" by (cases L) auto
  with inv have dom: "set L \<subseteq> dom d" by (auto simp: sweep_inv_def)
  have "x \<in> set bs" if b: "b \<in> set L" and path: "dpath e L ps pos j bs b" and x: "chain d e b x" for j bs b x
  proof -
    obtain i cs where cs: "dpath e L ps pos i cs b" "distinct cs" "set cs \<subseteq> set bs"
      using dpath_simple [OF path] by blast
    have "length cs \<le> length L"
      using distinct_card [OF cs(2)] card_mono [OF _ dpath_in [OF cs(1) L(2)]] card_length [of L] by simp
    with dpath_length [OF cs(1)] k have "i < k" by simp
    moreover have "path_bound e L ps pos d (if b \<in> set done then Suc k else k) b"
      by (rule sweep_inv_bound [OF inv]) (use b dom in blast)
    then have "path_bound e L ps pos d k b" by (rule path_bound_mono) simp
    ultimately have "x \<in> set cs" using cs(1) x unfolding path_bound_def by blast
    with cs(3) show ?thesis by blast
  qed
  then have "x \<in> true_doms e L ps pos b" if "b \<in> set L" "chain d e b x" for b x
    using that by (auto simp: true_doms_def)
  moreover have "chain d e b x" if "b \<in> set L" "x \<in> true_doms e L ps pos b" for b x
    by (rule keeps_doms_chain [OF g t _ that(2)]) (use that(1) dom in blast)
  ultimately show ?thesis using dom t(1) by (auto simp: dom_exact_def)
qed

lemma sweep_next:
  assumes "sweep_inv e L ps pos k L d" "L \<noteq> []" "hd L = e"
  shows "sweep_inv e L ps pos (Suc k) [e] d"
proof -
  have "path_bound e L ps pos d (if b \<in> set [e] then Suc (Suc k) else Suc k) b" if "b \<in> set L \<inter> dom d" for b
    using sweep_inv_bound [OF assms(1) that] that path_bound_entry by simp
  moreover have "e \<in> dom d" using assms(1) by (auto simp: sweep_inv_def dom_tree_def)
  moreover have "set L \<subseteq> dom d" using assms by (simp add: sweep_inv_def)
  ultimately show ?thesis using assms(1) by (simp add: sweep_inv_def)
qed

lemma dom_loop_spec:
  assumes g: "dom_graph e L ps pos" and size: "length L \<le> 25000000"
    and "sweep_inv e L ps pos k [e] d" "length L < k + ll_left limit" "0 < ll_left limit" "ll_max limit < 2 ^ 32"
  shows "\<exists>d'. dom_loop limit ps pos L d = Some d' \<and> dom_exact e L ps pos d' \<and> (\<forall>b. b \<notin> set L \<longrightarrow> d' b = d b)"
  using assms(3-6)
proof (induction "length L - k" arbitrary: k d limit rule: less_induct)
  case less
  have hd: "L \<noteq> []" "hd L = e" using g by (auto simp: dom_graph_def)
  then have L: "L = [e] @ tl L" by (cases L) auto
  obtain l where l: "ll_tick limit = Some l" "Suc (ll_left l) = ll_left limit" "ll_max l = ll_max limit"
    using ll_tick_left [OF less.prems(3,4)] less.prems(3) by auto
  from sweep_spec [OF g size less.prems(1) L, of False] obtain d' ch where s:
    "fold_opt (dom_block ps pos) (tl L) (d, False) = Some (d', ch)" "sweep_inv e L ps pos k L d'"
    "\<forall>b. b \<notin> set L \<longrightarrow> d' b = d b" "\<not> ch \<longrightarrow> d' = d \<and> (\<forall>b\<in>set (tl L). settled e ps d b)"
    "dom_exact e L ps pos d \<longrightarrow> d' = d \<and> \<not> ch" by auto
  have "slice_range L 1 (length L) = Some (tl L)"
    using hd by (cases L) (simp_all add: slice_range_def)
  then have run: "dom_loop limit ps pos L d = (if ch then dom_loop l ps pos L d' else Some d')"
    by (subst dom_loop.simps) (simp add: l dom_pass_def s(1))
  show ?case
  proof (cases ch)
    case False
    with s have "dom_exact e L ps pos d'" using settled_exact [OF g s(2)] by simp
    with False run s(3) show ?thesis by auto
  next
    case True
    then have k: "k < length L" using s(5) bounded_exact [OF g less.prems(1)] by (metis not_le)
    then have "length L - Suc k < length L - k" by simp
    moreover have "length L < Suc k + ll_left l" "0 < ll_left l" "ll_max l < 2 ^ 32"
      using l less.prems k by linarith+
    ultimately obtain d'' where "dom_loop l ps pos L d' = Some d''" "dom_exact e L ps pos d''"
      "\<forall>b. b \<notin> set L \<longrightarrow> d'' b = d' b"
      using less.hyps [of "Suc k" d' l] sweep_next [OF s(2) hd] by blast
    with True run s(3) show ?thesis by auto
  qed
qed

lemma dom_loop_first:
  assumes g: "dom_graph e L ps pos" and size: "length L \<le> 25000000" and d: "set L \<inter> dom d = {}"
  shows "\<exists>d'. dom_loop ll_new ps pos L (d(e \<mapsto> e)) = Some d' \<and> dom_exact e L ps pos d' \<and>
     (\<forall>b. b \<notin> set L \<longrightarrow> d' b = d b)"
proof -
  let ?d = "d(e \<mapsto> e)"
  have e: "e \<in> set L" using dom_graph_entry [OF g] by simp
  have only: "b = e" if "b \<in> set L \<inter> dom ?d" for b using that d by (auto split: if_splits)
  then have "path_bound e L ps pos ?d (if b \<in> set [e] then Suc 0 else 0) b" if "b \<in> set L \<inter> dom ?d" for b
    using that path_bound_entry by metis
  with only have "sweep_inv e L ps pos 0 [e] ?d"
    by (auto simp: sweep_inv_def dom_tree_def keeps_doms_def)
  from dom_loop_spec [OF g size this, of ll_new] size e show ?thesis by auto
qed


subsection \<open>The analysis of a program\<close>

inductive cfg_path :: "ir_program \<Rightarrow> nat \<Rightarrow> nat list \<Rightarrow> nat \<Rightarrow> bool" for ir e where
  cfg_path_start: "cfg_path ir e [e] e"
| cfg_path_step: "cfg_path ir e bs p \<Longrightarrow> c \<in> set (succs_of ir p) \<Longrightarrow> cfg_path ir e (c # bs) c"

definition dominates :: "ir_program \<Rightarrow> nat \<Rightarrow> nat \<Rightarrow> nat \<Rightarrow> bool" where
  "dominates ir e x b \<longleftrightarrow> (\<forall>bs. cfg_path ir e bs b \<longrightarrow> x \<in> set bs)"

text \<open>No block belongs to two live functions.\<close>

definition ir_unshared :: "ir_program \<Rightarrow> bool" where
  "ir_unshared ir \<longleftrightarrow> (\<forall>f g b. live_function ir f \<longrightarrow> live_function ir g \<longrightarrow>
     block_reach ir (entry_of ir f) b \<longrightarrow> block_reach ir (entry_of ir g) b \<longrightarrow> f = g)"

definition fn_blocks :: "ir_program \<Rightarrow> nat \<Rightarrow> nat set" where
  "fn_blocks ir f = {b. block_reach ir (entry_of ir f) b}"

lemma function_list:
  assumes ix: "ir_indexed ir" and un: "ir_unshared ir" and s: "rpo_compute ir = Some s"
    and L: "rp_blocks s f = Some L"
  shows "set L = fn_blocks ir f" "distinct L" "L \<noteq> []" "hd L = entry_of ir f" "live_function ir f"
    "set L \<subseteq> {..<length (ir_blocks ir)}"
proof -
  note rl = rpo_lists [OF ix s]
  show live: "live_function ir f" by (rule rl(2) [OF L])
  obtain t where t: "rp_total ir t" and st: "s = t\<lparr>rp_functions := rev (rp_functions t)\<rparr>"
    using rpo_compute_total [OF ix s] .
  have own: "b \<in> set L" if b: "b \<in> fn_blocks ir f" for b
  proof -
    from b live have "live_block ir b" by (auto simp: live_block_def fn_blocks_def)
    then obtain g M where g: "rp_blocks t g = Some M" "b \<in> set M"
      using rp_total_live(2) [OF t] by (auto simp: finished_iff)
    from rp_total_list [OF t g(1)] g(2) b live un have "f = g"
      unfolding ir_unshared_def fn_blocks_def by blast
    with g L show ?thesis by (simp add: st)
  qed
  have "rp_blocks t f = Some L" using L by (simp add: st)
  from rp_total_list [OF t this] own show "set L = fn_blocks ir f" by (auto simp: fn_blocks_def)
  show "distinct L" by (rule rp_total_list(2) [OF t \<open>rp_blocks t f = Some L\<close>])
  from own have "entry_of ir f \<in> set L" by (auto simp: fn_blocks_def intro: reach_refl)
  then show "L \<noteq> []" by auto
  with rl(1) [OF L] show "hd L = entry_of ir f" by (auto simp: rpo_list_def)
  show "set L \<subseteq> {..<length (ir_blocks ir)}"
    using \<open>set L = fn_blocks ir f\<close> live live_block_in_range [OF ix] by (auto simp: live_block_def fn_blocks_def)
qed

lemma rpo_positions_spec:
  assumes "distinct L" "set L \<subseteq> {..<length pos}"
  shows "\<exists>pos'. rpo_positions L pos = Some pos' \<and> length pos' = length pos \<and> (\<forall>i<length L. pos' ! (L ! i) = i)"
proof -
  have "\<exists>pos'. fold_opt (\<lambda>(i, b) pos. slice_set pos b i) (zip [k..<k + length L] L) pos = Some pos' \<and>
      length pos' = length pos \<and> (\<forall>i<length L. pos' ! (L ! i) = k + i) \<and> (\<forall>b. b \<notin> set L \<longrightarrow> pos' ! b = pos ! b)"
    for k
    using assms
  proof (induction L arbitrary: pos k)
    case (Cons b L)
    from Cons.IH [of "pos[b := k]" "Suc k"] Cons.prems obtain pos' where p:
      "fold_opt (\<lambda>(i, b) pos. slice_set pos b i) (zip [Suc k..<Suc k + length L] L) (pos[b := k]) = Some pos'"
      "length pos' = length pos" "\<forall>i<length L. pos' ! (L ! i) = Suc k + i"
      "\<forall>c. c \<notin> set L \<longrightarrow> pos' ! c = pos[b := k] ! c" by auto
    have "zip [k..<k + length (b # L)] (b # L) = (k, b) # zip [Suc k..<Suc k + length L] L"
      by (simp add: upt_conv_Cons del: upt_Suc)
    with p Cons.prems have "fold_opt (\<lambda>(i, b) pos. slice_set pos b i) (zip [k..<k + length (b # L)] (b # L)) pos
        = Some pos'" by simp
    moreover have "\<forall>i<length (b # L). pos' ! ((b # L) ! i) = k + i"
      using p(3,4) Cons.prems by (auto simp: nth_Cons split: nat.splits)
    moreover have "\<forall>c. c \<notin> set (b # L) \<longrightarrow> pos' ! c = pos ! c" using p(4) by auto
    ultimately show ?case using p(2) by blast
  qed simp
  from this [of 0] show ?thesis by (auto simp: rpo_positions_def)
qed

lemma function_graph:
  assumes ix: "ir_indexed ir" and un: "ir_unshared ir" and s: "rpo_compute ir = Some s"
    and L: "rp_blocks s f = Some L" and ps: "preds_compute ir {b. live_block ir b} old = Some ps"
    and pos: "\<forall>i<length L. pos ! (L ! i) = i" "length pos = length (ir_blocks ir)"
  shows "dom_graph (entry_of ir f) L ps pos"
    and "\<And>b p. b \<in> set L \<Longrightarrow> p \<in> set (ps ! b) \<longleftrightarrow> p \<in> set L \<and> b \<in> set (succs_of ir p)"
    and "length ps = length (ir_blocks ir)"
proof -
  note fl = function_list [OF ix un s L]
  from predecessors_exact [OF ix, of "{b. live_block ir b}" old] ps
  have len: "length ps = length (ir_blocks ir)" and cnt: "\<And>t b. t < length (ir_blocks ir) \<Longrightarrow>
     count_list (ps ! t) b = (if live_block ir b \<and> b < length (ir_blocks ir) then count_list (succs_of ir b) t else 0)"
    by auto
  show "length ps = length (ir_blocks ir)" by (rule len)
  show pred: "p \<in> set (ps ! b) \<longleftrightarrow> p \<in> set L \<and> b \<in> set (succs_of ir p)" if b: "b \<in> set L" for b p
  proof -
    have "p \<in> set (ps ! b) \<longleftrightarrow> count_list (ps ! b) p \<noteq> 0" by (simp add: count_list_0_iff)
    also have "\<dots> \<longleftrightarrow> live_block ir p \<and> b \<in> set (succs_of ir p)"
    proof -
      have "b < length (ir_blocks ir)" using b fl(6) by auto
      from cnt [OF this, of p] show ?thesis
        using live_block_in_range [OF ix, of p]
        by (cases "live_block ir p") (simp_all add: count_list_0_iff del: neq0_conv)
    qed
    also have "\<dots> \<longleftrightarrow> p \<in> set L \<and> b \<in> set (succs_of ir p)"
    proof -
      have "p \<in> set L" if e: "b \<in> set (succs_of ir p)" and "live_block ir p"
      proof -
      from that obtain g where g: "live_function ir g" "block_reach ir (entry_of ir g) p" by (auto simp: live_block_def)
      from reach_step [OF g(2) e] g(1) b fl(1,5) un have "f = g"
        unfolding ir_unshared_def fn_blocks_def by blast
      with g(2) fl(1) show ?thesis by (simp add: fn_blocks_def)
      qed
      moreover have "live_block ir p" if "p \<in> set L"
        using that fl(1,5) by (auto simp: live_block_def fn_blocks_def)
      ultimately show ?thesis by blast
    qed
    finally show ?thesis .
  qed
  have "\<exists>p\<in>set (ps ! b). pos ! p < pos ! b" if b: "b \<in> set L" "b \<noteq> entry_of ir f" for b
  proof -
    obtain i where i: "i < length L" "L ! i = b" using b(1) by (auto simp: in_set_conv_nth)
    with b(2) fl(3,4) have "0 < i" by (cases i) (auto simp: hd_conv_nth)
    with rpo_forward [OF ix s L] i obtain j where j: "j < i" "b \<in> set (succs_of ir (L ! j))" by blast
    with i pred [OF b(1), of "L ! j"] have "L ! j \<in> set (ps ! b)" by auto
    moreover have "pos ! (L ! j) < pos ! b" using j(1) i pos(1) by auto
    ultimately show ?thesis by blast
  qed
  with fl pred len pos show "dom_graph (entry_of ir f) L ps pos"
    by (auto simp: dom_graph_def)
qed

lemma dpath_cfg:
  assumes g: "dom_graph e L ps pos" and cl: "set L = {b. block_reach ir e b}"
    and pred: "\<And>b p. b \<in> set L \<Longrightarrow> p \<in> set (ps ! b) \<longleftrightarrow> p \<in> set L \<and> b \<in> set (succs_of ir p)"
  shows "(\<exists>k. dpath e L ps pos k bs b) \<longleftrightarrow> cfg_path ir e bs b"
proof
  assume "\<exists>k. dpath e L ps pos k bs b"
  then obtain k where "dpath e L ps pos k bs b" ..
  then show "cfg_path ir e bs b"
    by (induction rule: dpath.induct) (use pred in \<open>auto intro: cfg_path.intros\<close>)
next
  assume "cfg_path ir e bs b"
  then have "b \<in> set L \<and> (\<exists>k. dpath e L ps pos k bs b)"
  proof (induction rule: cfg_path.induct)
    case cfg_path_start
    then show ?case using dom_graph_entry [OF g] by (blast intro: dpath_start)
  next
    case (cfg_path_step bs p c)
    then have c: "c \<in> set L" unfolding cl by (auto intro: reach_step)
    with cfg_path_step pred [OF c, of p] show ?case by (blast intro: dpath_step)
  qed
  then show "\<exists>k. dpath e L ps pos k bs b" by simp
qed


text \<open>What the map says of the blocks of one function.\<close>

definition function_idoms :: "ir_program \<Rightarrow> nat \<Rightarrow> dom_map \<Rightarrow> bool" where
  "function_idoms ir f d \<longleftrightarrow> d (entry_of ir f) = Some (entry_of ir f) \<and>
     (\<forall>b\<in>fn_blocks ir f - {entry_of ir f}. \<exists>i\<in>fn_blocks ir f. d b = Some i \<and> i \<noteq> b \<and>
        dominates ir (entry_of ir f) i b \<and>
        (\<forall>x. dominates ir (entry_of ir f) x b \<longrightarrow> x \<noteq> b \<longrightarrow> dominates ir (entry_of ir f) x i))"

lemma dom_treeE:
  assumes "dom_tree e L pos d" "b \<in> set L \<inter> dom d" "b \<noteq> e"
  obtains p where "d b = Some p" "p \<in> set L \<inter> dom d" "pos ! p < pos ! b"
  using assms unfolding dom_tree_def by auto

lemma function_idomsE:
  assumes "function_idoms ir f d" "b \<in> fn_blocks ir f" "b \<noteq> entry_of ir f"
  obtains i where "i \<in> fn_blocks ir f" "d b = Some i" "i \<noteq> b" "dominates ir (entry_of ir f) i b"
    "\<And>x. dominates ir (entry_of ir f) x b \<Longrightarrow> x \<noteq> b \<Longrightarrow> dominates ir (entry_of ir f) x i"
  using assms unfolding function_idoms_def by auto

lemma exact_idoms:
  assumes g: "dom_graph (entry_of ir f) L ps pos" and L: "set L = fn_blocks ir f"
    and doms: "\<And>b. true_doms (entry_of ir f) L ps pos b = {x. dominates ir (entry_of ir f) x b}"
    and ex: "dom_exact (entry_of ir f) L ps pos d"
  shows "function_idoms ir f d"
proof -
  let ?e = "entry_of ir f"
  have t: "dom_tree ?e L pos d" "set L \<subseteq> dom d" using ex by (auto simp: dom_exact_def)
  have ch: "chain d ?e b x \<longleftrightarrow> dominates ir ?e x b" if "b \<in> set L" for b x
    using ex that unfolding dom_exact_def doms by simp
  have "\<exists>i\<in>fn_blocks ir f. d b = Some i \<and> i \<noteq> b \<and> dominates ir ?e i b \<and>
      (\<forall>x. dominates ir ?e x b \<longrightarrow> x \<noteq> b \<longrightarrow> dominates ir ?e x i)"
    if b: "b \<in> set L" "b \<noteq> ?e" for b
  proof -
    from t(2) b(1) have "b \<in> set L \<inter> dom d" by blast
    from dom_treeE [OF t(1) this b(2)] obtain i where i: "d b = Some i" "i \<in> set L" "pos ! i < pos ! b"
      by auto
    have "chain d ?e b i" by (rule chain_up [where p = i]) (simp_all add: b(2) i(1) chain_self)
    with ch [OF b(1)] have "dominates ir ?e i b" by simp
    moreover have "dominates ir ?e x i" if "dominates ir ?e x b" "x \<noteq> b" for x
    proof -
      from that ch [OF b(1)] have "chain d ?e b x" by simp
      then have "chain d ?e i x" by (cases rule: chain.cases) (use that(2) i(1) in auto)
      with ch [OF i(2)] show ?thesis by simp
    qed
    ultimately show ?thesis using i L by auto
  qed
  with t(1) L show ?thesis by (auto simp: function_idoms_def dom_tree_def)
qed

lemma function_idoms_cong:
  assumes "function_idoms ir f d" "\<And>b. b \<in> fn_blocks ir f \<Longrightarrow> d' b = d b"
  shows "function_idoms ir f d'"
  using assms by (simp add: function_idoms_def fn_blocks_def reach_refl)

lemma function_dominators:
  assumes ix: "ir_indexed ir" and un: "ir_unshared ir" and size: "length (ir_blocks ir) \<le> 25000000"
    and s: "rpo_compute ir = Some s" and L: "rp_blocks s f = Some L"
    and ps: "preds_compute ir {b. live_block ir b} old = Some ps" and d: "fn_blocks ir f \<inter> dom d = {}"
  shows "\<exists>d'. compute_function_dominators ir f ps L d = Some d' \<and> function_idoms ir f d' \<and>
     (\<forall>b. b \<notin> fn_blocks ir f \<longrightarrow> d' b = d b)"
proof -
  note fl = function_list [OF ix un s L]
  let ?e = "entry_of ir f" and ?pos = "replicate (length (ir_blocks ir)) (0::nat)"
  have "set L \<subseteq> {..<length ?pos}" using fl(6) by simp
  from rpo_positions_spec [OF fl(2) this] obtain pos where pos: "rpo_positions L ?pos = Some pos"
    "length pos = length (ir_blocks ir)" "\<forall>i<length L. pos ! (L ! i) = i" by auto
  note g = function_graph [OF ix un s L ps pos(3,2)]
  have "length L \<le> length (ir_blocks ir)"
    using distinct_card [OF fl(2)] card_mono [OF _ fl(6)] by simp
  with size have "length L \<le> 25000000" by simp
  from dom_loop_first [OF g(1) this, of d] d fl(1) obtain d' where d':
    "dom_loop ll_new ps pos L (d(?e \<mapsto> ?e)) = Some d'" "dom_exact ?e L ps pos d'"
    "\<forall>b. b \<notin> set L \<longrightarrow> d' b = d b" by auto
  have "true_doms ?e L ps pos b = {x. dominates ir ?e x b}" for b
    using dpath_cfg [OF g(1) _ g(2)] fl(1) unfolding true_doms_def dominates_def fn_blocks_def by blast
  then have "function_idoms ir f d'" by (rule exact_idoms [OF g(1) fl(1) _ d'(2)])
  moreover have "f < length (ir_functions ir)"
  proof -
    have "h < length (ir_functions ir)" if "live_function ir h" for h
      using that
      by (induction rule: live_function.induct) (use ix callees_in_range [OF ix] in \<open>auto simp: ir_indexed_def\<close>)
    with fl(5) show ?thesis by simp
  qed
  moreover have "d ?e = None" using d by (force simp: fn_blocks_def intro: reach_refl)
  ultimately show ?thesis
    using d' pos(1) fl(1)
    by (auto simp: compute_function_dominators_def fv_entry_def entry_of_def)
qed

lemma dominators_fold:
  assumes ix: "ir_indexed ir" and un: "ir_unshared ir" and size: "length (ir_blocks ir) \<le> 25000000"
    and s: "rpo_compute ir = Some s" and ps: "preds_compute ir {b. live_block ir b} old = Some ps"
    and "\<And>f. f \<in> set fs \<Longrightarrow> live_function ir f" "distinct fs"
    and "\<And>f. f \<in> set fs \<Longrightarrow> fn_blocks ir f \<inter> dom d = {}"
  shows "\<exists>d'. fold_opt (\<lambda>f d. do { L \<leftarrow> rp_blocks s f; compute_function_dominators ir f ps L d }) fs d = Some d' \<and>
     (\<forall>f\<in>set fs. function_idoms ir f d') \<and> (\<forall>b. b \<notin> \<Union> (fn_blocks ir ` set fs) \<longrightarrow> d' b = d b)"
  using assms(6-)
proof (induction fs arbitrary: d)
  case (Cons f fs)
  obtain bs where "dom (rp_blocks s) = {f. live_function ir f}" by (rule rpo_order [OF ix s])
  with Cons.prems(1) [of f] obtain L where L: "rp_blocks s f = Some L" by fastforce
  have "fn_blocks ir f \<inter> dom d = {}" using Cons.prems(3) [of f] by simp
  from function_dominators [OF ix un size s L ps this] obtain d1 where d1:
    "compute_function_dominators ir f ps L d = Some d1" "function_idoms ir f d1"
    "\<forall>b. b \<notin> fn_blocks ir f \<longrightarrow> d1 b = d b" by blast
  have disj: "fn_blocks ir f \<inter> fn_blocks ir g = {}" if "g \<in> set fs" for g
    using un Cons.prems(1) [of f] Cons.prems(1) [of g] Cons.prems(2) that
    unfolding ir_unshared_def fn_blocks_def by fastforce
  have "fn_blocks ir g \<inter> dom d1 = {}" if g: "g \<in> set fs" for g
  proof -
    have "d1 b = None" if b: "b \<in> fn_blocks ir g" for b
    proof -
      have "d b = None" using Cons.prems(3) [of g] g b by auto
      moreover have "b \<notin> fn_blocks ir f" using disj [OF g] b by blast
      ultimately show ?thesis using d1(3) by simp
    qed
    then show ?thesis by auto
  qed
  with Cons.IH [of d1] Cons.prems obtain d' where d':
    "fold_opt (\<lambda>f d. do { L \<leftarrow> rp_blocks s f; compute_function_dominators ir f ps L d }) fs d1 = Some d'"
    "\<forall>f\<in>set fs. function_idoms ir f d'" "\<forall>b. b \<notin> \<Union> (fn_blocks ir ` set fs) \<longrightarrow> d' b = d1 b" by auto
  have "function_idoms ir f d'"
    by (rule function_idoms_cong [OF d1(2)]) (use disj d'(3) in blast)
  with d' d1 L show ?case by auto
qed simp

lemma dominators_are_idoms:
  assumes "ir_indexed ir" "ir_unshared ir" "length (ir_blocks ir) \<le> 25000000"
  shows "\<exists>rpo ps d. rpo_compute ir = Some rpo \<and> preds_compute ir {b. live_block ir b} old = Some ps \<and>
    dominators_compute ir ps rpo = Some d \<and> dom d = {b. live_block ir b} \<and>
    (\<forall>f. live_function ir f \<longrightarrow> function_idoms ir f d)"
proof -
  obtain s where s: "rpo_compute ir = Some s" using rpo_compute_returns [OF assms(1)] by blast
  obtain ps where ps: "preds_compute ir {b. live_block ir b} old = Some ps"
    using predecessors_exact [OF assms(1)] by blast
  obtain bs where fs: "distinct (rp_functions s)" "set (rp_functions s) = {f. live_function ir f}"
    by (rule rpo_order [OF assms(1) s])
  then obtain d where d: "dominators_compute ir ps s = Some d" "\<forall>f. live_function ir f \<longrightarrow> function_idoms ir f d"
    "\<forall>b. b \<notin> \<Union> (fn_blocks ir ` {f. live_function ir f}) \<longrightarrow> d b = None"
    using dominators_fold [OF assms s ps, of "rp_functions s" Map.empty]
    unfolding dominators_compute_def by auto
  have some: "d b \<noteq> None" if "live_function ir f" "b \<in> fn_blocks ir f" for f b
  proof -
    from d(2) that(1) have idoms: "function_idoms ir f d" by blast
    show ?thesis
    proof (cases "b = entry_of ir f")
      case True
      with idoms show ?thesis by (simp add: function_idoms_def)
    next
      case False
      from function_idomsE [OF idoms that(2) this] obtain i where "d b = Some i" by metis
      then show ?thesis by simp
    qed
  qed
  have "dom d = {b. live_block ir b}"
  proof (rule set_eqI, rule iffI)
    fix b assume "b \<in> dom d"
    with d(3) have "b \<in> \<Union> (fn_blocks ir ` {f. live_function ir f})" by (metis domIff)
    then show "b \<in> {b. live_block ir b}" by (auto simp: live_block_def fn_blocks_def)
  next
    fix b assume "b \<in> {b. live_block ir b}"
    then obtain f where "live_function ir f" "b \<in> fn_blocks ir f"
      by (auto simp: live_block_def fn_blocks_def)
    from some [OF this] show "b \<in> dom d" by (simp add: domIff)
  qed
  with s ps d show ?thesis by blast
qed

text \<open>C9: On a program whose functions share no block, the dominator analysis returns: the
  loop converges, within the limits the code sets, for up to 25 million blocks. It knows exactly the
  live blocks, an entry block is its own candidate, and every other block is mapped to its immediate
  dominator: the block that every path from the entry passes before it and that all its other
  dominators dominate in turn.\<close>

theorem dominators_exact:
  assumes "ir_indexed ir" "ir_unshared ir" "length (ir_blocks ir) \<le> 25000000"
  shows "\<exists>rpo ps d. rpo_compute ir = Some rpo \<and> preds_compute ir {b. live_block ir b} old = Some ps \<and>
    dominators_compute ir ps rpo = Some d \<and> dom d = {b. live_block ir b} \<and>
    (\<forall>f. live_function ir f \<longrightarrow> function_idoms ir f d)"
  by (rule dominators_are_idoms [OF assms])

subsection \<open>Dominance frontiers\<close>

lemma dominates_self: "dominates ir e b b"
  unfolding dominates_def by (auto elim: cfg_path.cases)

lemma cfg_path_suffix:
  "cfg_path ir e bs c \<Longrightarrow> b \<in> set bs \<Longrightarrow> \<exists>cs. cfg_path ir e cs b \<and> set cs \<subseteq> set bs"
proof (induction rule: cfg_path.induct)
  case cfg_path_start
  then show ?case using cfg_path.cfg_path_start [of ir e] by force
next
  case (cfg_path_step bs p c)
  then show ?case using cfg_path.cfg_path_step [of ir e bs p c] by force
qed

lemma dominates_trans: "dominates ir e x y \<Longrightarrow> dominates ir e y z \<Longrightarrow> dominates ir e x z"
  unfolding dominates_def by (meson cfg_path_suffix subsetD)

lemma dominates_entry: "dominates ir e x e \<longleftrightarrow> x = e"
proof
  assume "dominates ir e x e"
  with cfg_path_start [of ir e] have "x \<in> set [e]" unfolding dominates_def by blast
  then show "x = e" by simp
qed (simp add: dominates_self)

lemma entry_dominates: "dominates ir e e b"
proof -
  have "e \<in> set bs" if "cfg_path ir e bs b" for bs using that by (induction rule: cfg_path.induct) auto
  then show ?thesis by (simp add: dominates_def)
qed

lemma dominates_pred:
  assumes "dominates ir e x b" "x \<noteq> b" "b \<in> set (succs_of ir p)"
  shows "dominates ir e x p"
  using assms unfolding dominates_def by (fastforce dest: cfg_path_step)

text \<open>A rank on the blocks of a function that falls along the candidates.\<close>

definition dom_rank :: "ir_program \<Rightarrow> nat \<Rightarrow> (nat \<Rightarrow> nat) \<Rightarrow> bool" where
  "dom_rank ir f r \<longleftrightarrow> inj_on r (fn_blocks ir f) \<and> (\<forall>b\<in>fn_blocks ir f. r b < length (ir_blocks ir) \<and>
     (\<forall>x. dominates ir (entry_of ir f) x b \<longrightarrow> x \<in> fn_blocks ir f \<and> r x \<le> r b) \<and>
     (b \<noteq> entry_of ir f \<longrightarrow> (\<exists>p\<in>fn_blocks ir f. b \<in> set (succs_of ir p) \<and> r p < r b)))"

lemma dom_rank_exists:
  assumes ix: "ir_indexed ir" and un: "ir_unshared ir" and "live_function ir f"
  shows "\<exists>r. dom_rank ir f r"
proof -
  obtain s where s: "rpo_compute ir = Some s" using rpo_compute_returns [OF ix] by blast
  obtain bs where "dom (rp_blocks s) = {f. live_function ir f}" by (rule rpo_order [OF ix s])
  with assms(3) obtain L where L: "rp_blocks s f = Some L" by fastforce
  note fl = function_list [OF ix un s L]
  let ?e = "entry_of ir f"
  obtain ps where ps: "preds_compute ir {b. live_block ir b} [] = Some ps"
    using predecessors_exact [OF ix] by blast
  have "set L \<subseteq> {..<length (replicate (length (ir_blocks ir)) (0::nat))}" using fl(6) by simp
  from rpo_positions_spec [OF fl(2) this] obtain pos where
    pos: "length pos = length (ir_blocks ir)" "\<forall>i<length L. pos ! (L ! i) = i" by auto
  note g = function_graph [OF ix un s L ps pos(2,1)]
  have doms: "true_doms ?e L ps pos b = {x. dominates ir ?e x b}" for b
    using dpath_cfg [OF g(1) _ g(2)] fl(1) unfolding true_doms_def dominates_def fn_blocks_def by blast
  have size: "length L \<le> length (ir_blocks ir)"
    using distinct_card [OF fl(2)] card_mono [OF _ fl(6)] by simp
  have "dom_rank ir f ((!) pos)"
    unfolding dom_rank_def fl(1) [symmetric]
  proof (intro conjI ballI allI impI)
    show "inj_on ((!) pos) (set L)" using dom_graph_pos_inj [OF g(1)] by (auto simp: inj_on_def)
    fix b assume b: "b \<in> set L"
    show "pos ! b < length (ir_blocks ir)" using dom_graph_pos_less [OF g(1) b] size by simp
    show "x \<in> set L" "pos ! x \<le> pos ! b" if "dominates ir ?e x b" for x
      using true_doms_pos [OF g(1) b, of x] doms that by auto
    assume "b \<noteq> ?e"
    with g(1) b obtain p where "p \<in> set (ps ! b)" "pos ! p < pos ! b" unfolding dom_graph_def by blast
    with g(2) [OF b, of p] show "\<exists>p\<in>set L. b \<in> set (succs_of ir p) \<and> pos ! p < pos ! b" by auto
  qed
  then show ?thesis by blast
qed

lemma idom_doms:
  assumes r: "dom_rank ir f r" and d: "function_idoms ir f d" and b: "b \<in> fn_blocks ir f" "b \<noteq> entry_of ir f"
  obtains i where "d b = Some i" "i \<in> fn_blocks ir f" "r i < r b"
    "\<And>x. dominates ir (entry_of ir f) x b \<longleftrightarrow> x = b \<or> dominates ir (entry_of ir f) x i"
proof -
  obtain i where i: "i \<in> fn_blocks ir f" "d b = Some i" "i \<noteq> b" "dominates ir (entry_of ir f) i b"
    "\<And>x. dominates ir (entry_of ir f) x b \<Longrightarrow> x \<noteq> b \<Longrightarrow> dominates ir (entry_of ir f) x i"
    using function_idomsE [OF d b] by metis
  have "r i \<le> r b" "r i \<noteq> r b" using r i(1,3,4) b(1) unfolding dom_rank_def inj_on_def by blast+
  then have "r i < r b" by simp
  moreover have "dominates ir (entry_of ir f) x b \<longleftrightarrow> x = b \<or> dominates ir (entry_of ir f) x i" for x
    using i(4,5) dominates_self dominates_trans by metis
  ultimately show thesis using that i(1,2) by blast
qed

lemma frontier_walk_spec:
  assumes r: "dom_rank ir f r" and d: "function_idoms ir f d" and len: "fn_blocks ir f \<subseteq> {..<n}"
    and "runner \<in> fn_blocks ir f" "dominates ir (entry_of ir f) i runner" "r runner \<le> ll_left limit"
    and "ll_max limit < 2 ^ 32" "length df = n"
  shows "\<exists>df'. frontier_walk limit d i b runner df = Some df' \<and> length df' = n \<and>
     (\<forall>x<n. df' ! x = (if dominates ir (entry_of ir f) x runner \<and> \<not> dominates ir (entry_of ir f) x i
        then insert b (df ! x) else df ! x))"
  using assms(4-8)
proof (induction "r runner" arbitrary: runner limit df rule: less_induct)
  case less
  let ?dom = "dominates ir (entry_of ir f)"
  show ?case
  proof (cases "runner = i")
    case True
    then show ?thesis using less.prems(5) by (subst frontier_walk.simps) auto
  next
    case False
    with less.prems(2) have ne: "runner \<noteq> entry_of ir f" by (auto simp: dominates_entry)
    obtain j where j: "d runner = Some j" "j \<in> fn_blocks ir f" "r j < r runner"
      "\<And>x. ?dom x runner \<longleftrightarrow> x = runner \<or> ?dom x j"
      using idom_doms [OF r d less.prems(1) ne] by metis
    have ij: "?dom i j" using j(4) [of i] less.prems(2) False by auto
    have "i \<in> fn_blocks ir f" "r i \<le> r j" using r j(2) ij unfolding dom_rank_def by blast+
    with r j(3) have notr: "\<not> ?dom runner i" unfolding dom_rank_def by (metis leD le_less_trans)
    obtain l where l: "ll_tick limit = Some l" "Suc (ll_left l) = ll_left limit" "ll_max l = ll_max limit"
      using ll_tick_left [of limit] less.prems(3,4) j(3) by fastforce
    have run: "runner < n" using less.prems(1) len by auto
    let ?df = "df[runner := insert b (df ! runner)]"
    have "r j \<le> ll_left l" "ll_max l < 2 ^ 32" "length ?df = n" using l less.prems j(3) by auto
    from less.hyps [OF j(3,2) ij this] obtain df' where df': "frontier_walk l d i b j ?df = Some df'"
      "length df' = n" "\<forall>x<n. df' ! x = (if ?dom x j \<and> \<not> ?dom x i then insert b (?df ! x) else ?df ! x)"
      by blast
    have "frontier_walk limit d i b runner df = Some df'"
      by (subst frontier_walk.simps) (simp add: False l(1) run less.prems(5) j(1) df'(1))
    moreover have "df' ! x = (if ?dom x runner \<and> \<not> ?dom x i then insert b (df ! x) else df ! x)" if "x < n" for x
      using df'(3) that j(4) [of x] notr run less.prems(5) by (auto simp: nth_list_update)
    ultimately show ?thesis using df'(2) by blast
  qed
qed


definition frontier_hit :: "ir_program \<Rightarrow> nat \<Rightarrow> dom_map \<Rightarrow> nat list list \<Rightarrow> nat \<Rightarrow> nat \<Rightarrow> bool" where
  "frontier_hit ir f d ps b x \<longleftrightarrow> b \<in> fn_blocks ir f \<and> 2 \<le> length (ps ! b) \<and>
     (\<exists>p\<in>set (ps ! b). dominates ir (entry_of ir f) x p \<and> \<not> dominates ir (entry_of ir f) x (the (d b)))"

lemma frontier_preds:
  assumes r: "dom_rank ir f r" and d: "function_idoms ir f d" and len: "fn_blocks ir f \<subseteq> {..<n}"
    and size: "length (ir_blocks ir) \<le> 25000000"
    and "set preds \<subseteq> fn_blocks ir f" "\<forall>p\<in>set preds. dominates ir (entry_of ir f) i p" "length df = n"
  shows "\<exists>df'. fold_opt (\<lambda>p df. if d p = None then Some df else frontier_walk ll_new d i b p df) preds df = Some df' \<and>
     length df' = n \<and> (\<forall>x<n. df' ! x = df ! x \<union>
        (if \<exists>p\<in>set preds. dominates ir (entry_of ir f) x p \<and> \<not> dominates ir (entry_of ir f) x i then {b} else {}))"
  using assms(5-7)
proof (induction preds arbitrary: df)
  case (Cons p preds)
  let ?dom = "dominates ir (entry_of ir f)"
  have p: "p \<in> fn_blocks ir f" "?dom i p" using Cons.prems by auto
  then have dp: "d p \<noteq> None"
    using d function_idomsE [OF d p(1)] by (cases "p = entry_of ir f") (auto simp: function_idoms_def)
  have "r p < length (ir_blocks ir)" using r p(1) unfolding dom_rank_def by blast
  with size have "r p \<le> ll_left ll_new" "ll_max ll_new < 2 ^ 32" by simp_all
  from frontier_walk_spec [OF r d len p this Cons.prems(3), of b] obtain df1 where df1:
    "frontier_walk ll_new d i b p df = Some df1" "length df1 = n"
    "\<forall>x<n. df1 ! x = (if ?dom x p \<and> \<not> ?dom x i then insert b (df ! x) else df ! x)" by blast
  with Cons.IH [of df1] Cons.prems obtain df2 where
    "fold_opt (\<lambda>p df. if d p = None then Some df else frontier_walk ll_new d i b p df) preds df1 = Some df2"
    "length df2 = n"
    "\<forall>x<n. df2 ! x = df1 ! x \<union> (if \<exists>p\<in>set preds. ?dom x p \<and> \<not> ?dom x i then {b} else {})" by auto
  with df1 dp show ?case by auto
qed simp

lemma function_preds:
  assumes ix: "ir_indexed ir" and un: "ir_unshared ir" and f: "live_function ir f"
    and ps: "preds_compute ir {b. live_block ir b} old = Some ps"
  shows "fn_blocks ir f \<subseteq> {..<length (ir_blocks ir)}" "length ps = length (ir_blocks ir)"
    "b \<in> fn_blocks ir f \<Longrightarrow> set (ps ! b) = {p \<in> fn_blocks ir f. b \<in> set (succs_of ir p)}"
proof -
  obtain s where s: "rpo_compute ir = Some s" using rpo_compute_returns [OF ix] by blast
  obtain bs where "dom (rp_blocks s) = {f. live_function ir f}" by (rule rpo_order [OF ix s])
  with f obtain L where L: "rp_blocks s f = Some L" by fastforce
  note fl = function_list [OF ix un s L]
  have "set L \<subseteq> {..<length (replicate (length (ir_blocks ir)) (0::nat))}" using fl(6) by simp
  from rpo_positions_spec [OF fl(2) this] obtain pos where
    pos: "length pos = length (ir_blocks ir)" "\<forall>i<length L. pos ! (L ! i) = i" by auto
  note g = function_graph [OF ix un s L ps pos(2,1)]
  show "fn_blocks ir f \<subseteq> {..<length (ir_blocks ir)}" using fl(1,6) by simp
  show "length ps = length (ir_blocks ir)" by (rule g(3))
  show "set (ps ! b) = {p \<in> fn_blocks ir f. b \<in> set (succs_of ir p)}" if "b \<in> fn_blocks ir f"
    using g(2) [of b] that fl(1) by blast
qed

lemma frontier_block_spec:
  assumes ix: "ir_indexed ir" and un: "ir_unshared ir" and size: "length (ir_blocks ir) \<le> 25000000"
    and ps: "preds_compute ir {b. live_block ir b} old = Some ps"
    and dom: "dom d = {b. live_block ir b}" and idoms: "\<And>f. live_function ir f \<Longrightarrow> function_idoms ir f d"
    and len: "length df = length (ir_blocks ir)"
  shows "\<exists>df'. frontier_block d (b, ps ! b) df = Some df' \<and> length df' = length (ir_blocks ir) \<and>
     (\<forall>x<length (ir_blocks ir). df' ! x = df ! x \<union>
        (if \<exists>f. live_function ir f \<and> frontier_hit ir f d ps b x then {b} else {}))"
proof (cases "length (ps ! b) < 2 \<or> d b = None")
  case True
  have "\<not> frontier_hit ir f d ps b x" if "live_function ir f" for f x
  proof
    assume h: "frontier_hit ir f d ps b x"
    then have "live_block ir b" using that by (auto simp: frontier_hit_def live_block_def fn_blocks_def)
    with dom have "d b \<noteq> None" by blast
    with True h show False by (simp add: frontier_hit_def)
  qed
  moreover have "frontier_block d (b, ps ! b) df = Some df" using True by (auto simp: frontier_block_def)
  ultimately show ?thesis using len by auto
next
  case False
  then have "live_block ir b" using dom by blast
  then obtain f where f: "live_function ir f" "b \<in> fn_blocks ir f" by (auto simp: live_block_def fn_blocks_def)
  have only: "g = f" if "live_function ir g" "b \<in> fn_blocks ir g" for g
    using un f that unfolding ir_unshared_def fn_blocks_def by blast
  obtain r where r: "dom_rank ir f r" using dom_rank_exists [OF ix un f(1)] by blast
  note fp = function_preds [OF ix un f(1) ps]
  obtain i where i: "d b = Some i" using False by auto
  have "\<forall>p\<in>set (ps ! b). dominates ir (entry_of ir f) i p"
  proof (cases "b = entry_of ir f")
    case True
    with idoms [OF f(1)] i entry_dominates show ?thesis by (simp add: function_idoms_def)
  next
    case b: False
    from function_idomsE [OF idoms [OF f(1)] f(2) b] i have "dominates ir (entry_of ir f) i b" "i \<noteq> b"
      by (metis option.inject)+
    with dominates_pred fp(3) [OF f(2)] show ?thesis by auto
  qed
  with frontier_preds [OF r idoms [OF f(1)] fp(1) size, of "ps ! b" i df b] fp(3) [OF f(2)] len obtain df' where df':
    "fold_opt (\<lambda>p df. if d p = None then Some df else frontier_walk ll_new d i b p df) (ps ! b) df = Some df'"
    "length df' = length (ir_blocks ir)"
    "\<forall>x<length (ir_blocks ir). df' ! x = df ! x \<union> (if \<exists>p\<in>set (ps ! b).
        dominates ir (entry_of ir f) x p \<and> \<not> dominates ir (entry_of ir f) x i then {b} else {})"
    by auto
  have hit: "(\<exists>g. live_function ir g \<and> frontier_hit ir g d ps b x) \<longleftrightarrow>
      (\<exists>p\<in>set (ps ! b). dominates ir (entry_of ir f) x p \<and> \<not> dominates ir (entry_of ir f) x i)" for x
  proof
    assume "\<exists>g. live_function ir g \<and> frontier_hit ir g d ps b x"
    then obtain g where g: "live_function ir g" "frontier_hit ir g d ps b x" by blast
    with only [of g] have "g = f" by (simp add: frontier_hit_def)
    with g(2) i show "\<exists>p\<in>set (ps ! b). dominates ir (entry_of ir f) x p \<and> \<not> dominates ir (entry_of ir f) x i"
      by (simp add: frontier_hit_def)
  next
    assume "\<exists>p\<in>set (ps ! b). dominates ir (entry_of ir f) x p \<and> \<not> dominates ir (entry_of ir f) x i"
    with f i False have "frontier_hit ir f d ps b x" by (simp add: frontier_hit_def)
    with f(1) show "\<exists>g. live_function ir g \<and> frontier_hit ir g d ps b x" by blast
  qed
  have "frontier_block d (b, ps ! b) df = Some df'" using False i df'(1) by (simp add: frontier_block_def)
  with df'(2,3) show ?thesis unfolding hit by blast
qed

lemma frontier_fold:
  assumes one: "\<And>b df. length df = n \<Longrightarrow> \<exists>df'. frontier_block d (b, ps ! b) df = Some df' \<and> length df' = n \<and>
      (\<forall>x<n. df' ! x = df ! x \<union> (if H b x then {b} else {}))"
    and "length df = n"
  shows "\<exists>df'. fold_opt (frontier_block d) (map (\<lambda>b. (b, ps ! b)) bs) df = Some df' \<and> length df' = n \<and>
     (\<forall>x<n. df' ! x = df ! x \<union> {b \<in> set bs. H b x})"
  using assms(2)
proof (induction bs arbitrary: df)
  case (Cons b bs)
  obtain df1 where 1: "frontier_block d (b, ps ! b) df = Some df1" "length df1 = n"
    "\<forall>x<n. df1 ! x = df ! x \<union> (if H b x then {b} else {})" using one [OF Cons.prems] by blast
  from Cons.IH [OF 1(2)] obtain df2 where 2: "fold_opt (frontier_block d) (map (\<lambda>b. (b, ps ! b)) bs) df1 = Some df2"
    "length df2 = n" "\<forall>x<n. df2 ! x = df1 ! x \<union> {b \<in> set bs. H b x}" by blast
  have "df2 ! x = df ! x \<union> {c \<in> set (b # bs). H c x}" if "x < n" for x
    using 1(3) 2(3) that by auto
  with 1 2 show ?case by auto
qed simp

text \<open>C16: With the dominators and predecessors of such a program the frontiers are computed
  without a panic or an exhausted loop limit, and for blocks of a live function they are the dominance
  frontiers: \<open>b\<close> is in the frontier of \<open>x\<close> when \<open>x\<close> dominates a predecessor of \<open>b\<close> and not strictly
  \<open>b\<close> itself. That a block with fewer than two predecessors is skipped loses nothing, except for an
  entry block, which the statement leaves out.\<close>

theorem frontiers_exact:
  assumes ix: "ir_indexed ir" and un: "ir_unshared ir" and size: "length (ir_blocks ir) \<le> 25000000"
    and rpo: "rpo_compute ir = Some rpo" and ps: "preds_compute ir {b. live_block ir b} old = Some ps"
    and d: "dominators_compute ir ps rpo = Some d"
  shows "\<exists>df. frontiers_compute ir d ps old_df = Some df \<and> length df = length (ir_blocks ir) \<and>
    (\<forall>f x b. live_function ir f \<longrightarrow> x \<in> fn_blocks ir f \<longrightarrow> b \<in> fn_blocks ir f \<longrightarrow> b \<noteq> entry_of ir f \<longrightarrow>
       (b \<in> df ! x \<longleftrightarrow> (\<exists>p\<in>fn_blocks ir f. b \<in> set (succs_of ir p) \<and> dominates ir (entry_of ir f) x p \<and>
          \<not> (dominates ir (entry_of ir f) x b \<and> x \<noteq> b))))"
proof -
  let ?n = "length (ir_blocks ir)"
  obtain rpo' ps' d' where "rpo_compute ir = Some rpo'" "preds_compute ir {b. live_block ir b} old = Some ps'"
    "dominators_compute ir ps' rpo' = Some d'" "dom d' = {b. live_block ir b}"
    "\<forall>f. live_function ir f \<longrightarrow> function_idoms ir f d'"
    using dominators_are_idoms [OF ix un size] by blast
  with rpo ps d have dom: "dom d = {b. live_block ir b}"
    and idoms: "\<And>f. live_function ir f \<Longrightarrow> function_idoms ir f d" by auto
  note block = frontier_block_spec [OF ix un size ps dom idoms]
  let ?H = "\<lambda>b x. \<exists>f. live_function ir f \<and> frontier_hit ir f d ps b x"
  have len: "length ps = ?n" using predecessors_exact [OF ix, of "{b. live_block ir b}" old] ps by auto
  then have z: "zip [0..<length ps] ps = map (\<lambda>b. (b, ps ! b)) [0..<?n]"
    by (intro nth_equalityI) simp_all
  let ?df = "vec_resize ?n {} (map (\<lambda>_. {}) old_df) :: nat set list"
  have start: "length ?df = ?n" "\<And>x. x < ?n \<Longrightarrow> ?df ! x = {}" by (auto simp: vec_resize_def nth_append)
  have "\<exists>df. fold_opt (frontier_block d) (map (\<lambda>b. (b, ps ! b)) [0..<?n]) ?df = Some df \<and> length df = ?n \<and>
      (\<forall>x<?n. df ! x = ?df ! x \<union> {b \<in> set [0..<?n]. ?H b x})"
    by (rule frontier_fold [OF block start(1)])
  then obtain df where run: "fold_opt (frontier_block d) (map (\<lambda>b. (b, ps ! b)) [0..<?n]) ?df = Some df"
    "length df = ?n" and mem: "\<forall>x<?n. df ! x = ?df ! x \<union> {b \<in> set [0..<?n]. ?H b x}"
    by (elim exE conjE)
  have df: "frontiers_compute ir d ps old_df = Some df" "length df = ?n"
    "\<forall>x<?n. df ! x = ?df ! x \<union> {b \<in> set [0..<?n]. ?H b x}"
    unfolding frontiers_compute_def Let_def z by (rule run(1), rule run(2), rule mem)
  have "b \<in> df ! x \<longleftrightarrow> (\<exists>p\<in>fn_blocks ir f. b \<in> set (succs_of ir p) \<and> dominates ir (entry_of ir f) x p \<and>
          \<not> (dominates ir (entry_of ir f) x b \<and> x \<noteq> b))"
    if f: "live_function ir f" and x: "x \<in> fn_blocks ir f" and b: "b \<in> fn_blocks ir f" "b \<noteq> entry_of ir f" for f x b
  proof -
    let ?dom = "dominates ir (entry_of ir f)"
    obtain r where r: "dom_rank ir f r" using dom_rank_exists [OF ix un f] by blast
    note fp = function_preds [OF ix un f ps]
    obtain i where i: "d b = Some i" "i \<in> fn_blocks ir f" "r i < r b" "\<And>x. ?dom x b \<longleftrightarrow> x = b \<or> ?dom x i"
      using idom_doms [OF r idoms [OF f] b] by metis
    have notb: "\<not> ?dom b i" using r i(2,3) unfolding dom_rank_def by (metis leD)
    have sdom: "?dom x b \<and> x \<noteq> b \<longleftrightarrow> ?dom x i" using i(4) [of x] notb by auto
    have n: "x < ?n" "b < ?n" using x b(1) fp(1) by auto
    have "df ! x = {b \<in> set [0..<?n]. ?H b x}" using df(3) start(2) [OF n(1)] n(1) by simp
    then have "b \<in> df ! x \<longleftrightarrow> ?H b x" using n(2) by (simp only: mem_Collect_eq) simp
    also have "\<dots> \<longleftrightarrow> frontier_hit ir f d ps b x"
      using un f b(1) unfolding ir_unshared_def frontier_hit_def fn_blocks_def by blast
    also have "\<dots> \<longleftrightarrow> 2 \<le> length (ps ! b) \<and> (\<exists>p\<in>set (ps ! b). ?dom x p \<and> \<not> ?dom x i)"
      using b(1) i(1) by (simp add: frontier_hit_def)
    also have "\<dots> \<longleftrightarrow> (\<exists>p\<in>set (ps ! b). ?dom x p \<and> \<not> ?dom x i)"
    proof -
      have "2 \<le> length (ps ! b)" if p: "p \<in> set (ps ! b)" "?dom x p" "\<not> ?dom x i" for p
      proof (rule ccontr)
        assume "\<not> 2 \<le> length (ps ! b)"
        moreover obtain y ys where ys: "ps ! b = y # ys" using p(1) by (cases "ps ! b") auto
        ultimately have "ys = []" by (cases ys) simp_all
        with p(1) ys have single: "set (ps ! b) = {p}" by auto
        obtain q where q: "q \<in> fn_blocks ir f" "b \<in> set (succs_of ir q)" "r q < r b"
          using r b unfolding dom_rank_def by blast
        with fp(3) [OF b(1)] single have "q = p" by blast
        have "?dom x b"
          unfolding dominates_def
        proof (intro allI impI)
          fix bs assume path: "cfg_path ir (entry_of ir f) bs b"
          then obtain cs q' where c: "cfg_path ir (entry_of ir f) cs q'" "b \<in> set (succs_of ir q')" "bs = b # cs"
            using b(2) by (cases rule: cfg_path.cases) auto
          have "cfg_path ir e cs q' \<Longrightarrow> block_reach ir e q'" for e cs q'
            by (induction rule: cfg_path.induct) (auto intro: reach_refl reach_step)
          with c(1) have "q' \<in> fn_blocks ir f" by (simp add: fn_blocks_def)
          with c(2) fp(3) [OF b(1)] single have "q' = p" by blast
          with c p(2) show "x \<in> set bs" by (auto simp: dominates_def)
        qed
        with p(3) sdom have "x = b" by blast
        with p(2) q \<open>q = p\<close> r show False unfolding dom_rank_def by (metis leD)
      qed
      then show ?thesis by blast
    qed
    finally show ?thesis using fp(3) [OF b(1)] sdom by auto
  qed
  with df(1,2) show ?thesis by blast
qed


subsection \<open>A program with a loop and a join\<close>

definition sample_dom_cfg :: ir_program where
  "sample_dom_cfg = ir_default\<lparr>
     ir_functions := [\<lparr>fn_entry = 0, fn_return_kind = rk_never, fn_source = None\<rparr>],
     ir_operations := [Operation OpStop UnitData],
     ir_blocks :=
       [\<lparr>bb_inputs = (0, 0), bb_outputs = (0, 0), bb_operations = (0, 0), bb_control =
           Branches \<lparr>br_condition = 0, br_non_zero_target = 1, br_zero_target = 2\<rparr>\<rparr>,
        \<lparr>bb_inputs = (0, 0), bb_outputs = (0, 0), bb_operations = (0, 0), bb_control = ContinuesTo 2\<rparr>,
        \<lparr>bb_inputs = (0, 0), bb_outputs = (0, 0), bb_operations = (0, 0), bb_control = ContinuesTo 1\<rparr>]\<rparr>"

lemma sample_dom_succs:
  "succs_of sample_dom_cfg 0 = [2, 1]" "succs_of sample_dom_cfg 1 = [2]" "succs_of sample_dom_cfg 2 = [1]"
  by (simp_all add: sample_dom_cfg_def ir_default_def succs_of_def bv_successors_def)

lemma sample_dom_indexed: "ir_indexed sample_dom_cfg"
proof -
  have "root_functions sample_dom_cfg \<subseteq> {..<length (ir_functions sample_dom_cfg)}"
    "\<forall>fn\<in>set (ir_functions sample_dom_cfg). fn_entry fn < length (ir_blocks sample_dom_cfg)"
    "\<forall>bb\<in>set (ir_blocks sample_dom_cfg).
       (\<forall>i\<in>set (span_indices (bb_operations bb)). i < length (ir_operations sample_dom_cfg) \<and>
          (\<forall>f. op_callee (ir_operations sample_dom_cfg ! i) = Some f \<longrightarrow> f < length (ir_functions sample_dom_cfg))) \<and>
       (\<exists>ts. ctl_outgoing (bb_control bb) sample_dom_cfg = Some ts \<and>
          (\<forall>t\<in>set ts. t < length (ir_blocks sample_dom_cfg)))"
    by (simp_all add: sample_dom_cfg_def ir_default_def root_functions_def span_indices_def)
  then show ?thesis by (simp add: ir_indexed_def)
qed

lemma sample_dom_unshared: "ir_unshared sample_dom_cfg"
proof -
  have "f = 0" if "live_function sample_dom_cfg f" for f
    using that
  proof (cases rule: live_function.cases)
    case live_root
    then show ?thesis by (simp add: root_functions_def sample_dom_cfg_def ir_default_def)
  next
    case (live_call g b)
    from callees_in_range [OF sample_dom_indexed, of b] live_call(3) show ?thesis
      by (auto simp: sample_dom_cfg_def)
  qed
  then show ?thesis unfolding ir_unshared_def by blast
qed

lemma sample_dom_size: "length (ir_blocks sample_dom_cfg) \<le> 25000000"
  by (simp add: sample_dom_cfg_def)

theorem dominators_exact_witness:
  "\<exists>rpo ps d. dominators_compute sample_dom_cfg ps rpo = Some d \<and> dom d = {b. live_block sample_dom_cfg b} \<and>
     function_idoms sample_dom_cfg 0 d"
proof -
  have "live_function sample_dom_cfg 0"
    by (rule live_root) (simp add: root_functions_def sample_dom_cfg_def ir_default_def)
  with dominators_exact [OF sample_dom_indexed sample_dom_unshared sample_dom_size] show ?thesis by meson
qed

lemma sample_dom_run:
  "\<exists>rpo ps d. rpo_compute sample_dom_cfg = Some rpo \<and>
     preds_compute sample_dom_cfg {b. live_block sample_dom_cfg b} [] = Some ps \<and>
     dominators_compute sample_dom_cfg ps rpo = Some d"
  using dominators_are_idoms [OF sample_dom_indexed sample_dom_unshared sample_dom_size] by blast

theorem frontiers_exact_witness:
  "\<exists>ps d df. frontiers_compute sample_dom_cfg d ps [] = Some df \<and> 1 \<in> df ! 2"
proof -
  let ?ir = sample_dom_cfg
  obtain rpo ps d where run: "rpo_compute ?ir = Some rpo"
    "preds_compute ?ir {b. live_block ?ir b} [] = Some ps" "dominators_compute ?ir ps rpo = Some d"
    using sample_dom_run by blast
  have e: "entry_of ?ir 0 = 0" by (simp add: entry_of_def sample_dom_cfg_def)
  have live: "live_function ?ir 0"
    by (rule live_root) (simp add: root_functions_def sample_dom_cfg_def ir_default_def)
  have r: "block_reach ?ir 0 1" "block_reach ?ir 0 2"
    by (rule reach_step [OF reach_refl], simp add: sample_dom_succs)+
  then have b: "1 \<in> fn_blocks ?ir 0" "2 \<in> fn_blocks ?ir 0" by (simp_all add: fn_blocks_def e)
  have "cfg_path ?ir 0 [1, 0] 1"
    by (rule cfg_path_step [OF cfg_path_start]) (simp add: sample_dom_succs)
  then have "\<not> dominates ?ir 0 2 1" by (auto simp: dominates_def)
  moreover have "1 \<in> set (succs_of ?ir 2)" "dominates ?ir 0 2 2"
    by (simp_all add: sample_dom_succs dominates_self)
  ultimately have hit: "\<exists>p\<in>fn_blocks ?ir 0. 1 \<in> set (succs_of ?ir p) \<and> dominates ?ir (entry_of ?ir 0) 2 p \<and>
      \<not> (dominates ?ir (entry_of ?ir 0) 2 1 \<and> 2 \<noteq> (1::nat))"
    using b(2) e by auto
  have ne: "(1::nat) \<noteq> entry_of ?ir 0" by (simp add: e)
  from frontiers_exact [OF sample_dom_indexed sample_dom_unshared sample_dom_size run, of "[]"] obtain df where
    "frontiers_compute ?ir d ps [] = Some df"
    "1 \<in> df ! 2 \<longleftrightarrow> (\<exists>p\<in>fn_blocks ?ir 0. 1 \<in> set (succs_of ?ir p) \<and> dominates ?ir (entry_of ?ir 0) 2 p \<and>
      \<not> (dominates ?ir (entry_of ?ir 0) 2 1 \<and> 2 \<noteq> (1::nat)))"
    using live b ne by blast
  with hit show ?thesis by blast
qed

end
