(* ===== verification/Effects.thy ===== *)
theory Effects
  imports Op_Kinds
begin

unbundle bit_operations_syntax

text \<open>
  The side effects of operations (\<open>plankc/sir/crates/data/src/operation/effects.rs\<close>), a set of flags
  in 16 bits: every channel of the machine state has a minor flag, an access that commutes with
  its like, and directly above it a major flag, an access that does not.
\<close>

named_theorems effect_defs \<open>definitions of the effect flags\<close>

definition EFF_pure :: u16 where [effect_defs]:
  "EFF_pure = 0"

definition EFF_memory_read :: u16 where [effect_defs]:
  "EFF_memory_read = push_bit 0 1"

definition EFF_memory_write :: u16 where [effect_defs]:
  "EFF_memory_write = push_bit 1 1"

definition EFF_returndata_read :: u16 where [effect_defs]:
  "EFF_returndata_read = push_bit 2 1"

definition EFF_returndata_write :: u16 where [effect_defs]:
  "EFF_returndata_write = push_bit 3 1"

definition EFF_accounts_read :: u16 where [effect_defs]:
  "EFF_accounts_read = push_bit 4 1"

definition EFF_accounts_write :: u16 where [effect_defs]:
  "EFF_accounts_write = push_bit 5 1"

definition EFF_persistent_read :: u16 where [effect_defs]:
  "EFF_persistent_read = push_bit 6 1"

definition EFF_persistent_write :: u16 where [effect_defs]:
  "EFF_persistent_write = push_bit 7 1"

definition EFF_transient_read :: u16 where [effect_defs]:
  "EFF_transient_read = push_bit 8 1"

definition EFF_transient_write :: u16 where [effect_defs]:
  "EFF_transient_write = push_bit 9 1"

definition EFF_revert :: u16 where [effect_defs]:
  "EFF_revert = push_bit 10 1"

definition EFF_terminate :: u16 where [effect_defs]:
  "EFF_terminate = push_bit 11 1"

definition EFF_alloc_advance :: u16 where [effect_defs]:
  "EFF_alloc_advance = push_bit 12 1"

definition EFF_alloc_use_free :: u16 where [effect_defs]:
  "EFF_alloc_use_free = push_bit 13 1"

definition EFF_logs :: u16 where [effect_defs]:
  "EFF_logs = push_bit 14 1"

definition EFF_extcall :: u16 where [effect_defs]:
  "EFF_extcall = EFF_accounts_write OR EFF_persistent_write OR EFF_transient_write OR EFF_logs OR EFF_returndata_write"

definition EFF_minor :: u16 where [effect_defs]:
  "EFF_minor = EFF_memory_read OR EFF_returndata_read OR EFF_accounts_read OR EFF_persistent_read OR
     EFF_transient_read OR EFF_revert OR EFF_alloc_advance"

definition EFF_major :: u16 where [effect_defs]:
  "EFF_major = EFF_memory_write OR EFF_returndata_write OR EFF_accounts_write OR EFF_persistent_write OR
     EFF_transient_write OR EFF_terminate OR EFF_alloc_use_free"

text \<open>The operations of the flag type.\<close>

definition eff_contains :: "u16 \<Rightarrow> u16 \<Rightarrow> bool" where
  "eff_contains e f = (e AND f = f)"

definition eff_intersects :: "u16 \<Rightarrow> u16 \<Rightarrow> bool" where
  "eff_intersects e f = (e AND f \<noteq> 0)"

definition eff_remove :: "u16 \<Rightarrow> u16 \<Rightarrow> u16" where
  "eff_remove e f = e AND NOT f"

definition eff_simplify :: "u16 \<Rightarrow> u16" where
  "eff_simplify e =
     (let reads_and_writes = (e AND EFF_minor) AND drop_bit 1 e in eff_remove e reads_and_writes)"

definition eff_is_simple :: "u16 \<Rightarrow> bool" where
  "eff_is_simple e = (eff_simplify e = e)"

text \<open>The effect of a kind; the internal calls are unreachable here.\<close>

primrec effect_of_kind :: "operation_kind \<Rightarrow> u16 option" where
  "effect_of_kind OpAdd = Some EFF_pure"
| "effect_of_kind OpMul = Some EFF_pure"
| "effect_of_kind OpSub = Some EFF_pure"
| "effect_of_kind OpDiv = Some EFF_pure"
| "effect_of_kind OpSDiv = Some EFF_pure"
| "effect_of_kind OpMod = Some EFF_pure"
| "effect_of_kind OpSMod = Some EFF_pure"
| "effect_of_kind OpAddMod = Some EFF_pure"
| "effect_of_kind OpMulMod = Some EFF_pure"
| "effect_of_kind OpExp = Some EFF_pure"
| "effect_of_kind OpSignExtend = Some EFF_pure"
| "effect_of_kind OpLt = Some EFF_pure"
| "effect_of_kind OpGt = Some EFF_pure"
| "effect_of_kind OpSLt = Some EFF_pure"
| "effect_of_kind OpSGt = Some EFF_pure"
| "effect_of_kind OpEq = Some EFF_pure"
| "effect_of_kind OpIsZero = Some EFF_pure"
| "effect_of_kind OpAnd = Some EFF_pure"
| "effect_of_kind OpOr = Some EFF_pure"
| "effect_of_kind OpXor = Some EFF_pure"
| "effect_of_kind OpNot = Some EFF_pure"
| "effect_of_kind OpByte = Some EFF_pure"
| "effect_of_kind OpShl = Some EFF_pure"
| "effect_of_kind OpShr = Some EFF_pure"
| "effect_of_kind OpSar = Some EFF_pure"
| "effect_of_kind OpClz = Some EFF_pure"
| "effect_of_kind OpKeccak256 = Some EFF_memory_read"
| "effect_of_kind OpAddress = Some EFF_pure"
| "effect_of_kind OpBalance = Some EFF_accounts_read"
| "effect_of_kind OpOrigin = Some EFF_pure"
| "effect_of_kind OpCaller = Some EFF_pure"
| "effect_of_kind OpCallValue = Some EFF_pure"
| "effect_of_kind OpCallDataLoad = Some EFF_pure"
| "effect_of_kind OpCallDataSize = Some EFF_pure"
| "effect_of_kind OpCallDataCopy = Some EFF_memory_write"
| "effect_of_kind OpCodeSize = Some EFF_pure"
| "effect_of_kind OpCodeCopy = Some EFF_memory_write"
| "effect_of_kind OpGasPrice = Some EFF_pure"
| "effect_of_kind OpExtCodeSize = Some EFF_accounts_read"
| "effect_of_kind OpExtCodeCopy = Some (EFF_accounts_read OR EFF_memory_write)"
| "effect_of_kind OpReturnDataSize = Some EFF_returndata_read"
| "effect_of_kind OpReturnDataCopy = Some (EFF_returndata_read OR EFF_memory_write OR EFF_revert)"
| "effect_of_kind OpExtCodeHash = Some EFF_accounts_read"
| "effect_of_kind OpGas = Some (EFF_accounts_write OR EFF_persistent_write OR EFF_logs)"
| "effect_of_kind OpBlockHash = Some EFF_pure"
| "effect_of_kind OpCoinbase = Some EFF_pure"
| "effect_of_kind OpTimestamp = Some EFF_pure"
| "effect_of_kind OpNumber = Some EFF_pure"
| "effect_of_kind OpDifficulty = Some EFF_pure"
| "effect_of_kind OpGasLimit = Some EFF_pure"
| "effect_of_kind OpChainId = Some EFF_pure"
| "effect_of_kind OpSelfBalance = Some EFF_accounts_read"
| "effect_of_kind OpBaseFee = Some EFF_pure"
| "effect_of_kind OpBlobHash = Some EFF_pure"
| "effect_of_kind OpBlobBaseFee = Some EFF_pure"
| "effect_of_kind OpSLoad = Some EFF_persistent_read"
| "effect_of_kind OpSStore = Some EFF_persistent_write"
| "effect_of_kind OpTLoad = Some EFF_transient_read"
| "effect_of_kind OpTStore = Some EFF_transient_write"
| "effect_of_kind OpLog0 = Some (EFF_memory_read OR EFF_logs)"
| "effect_of_kind OpLog1 = Some (EFF_memory_read OR EFF_logs)"
| "effect_of_kind OpLog2 = Some (EFF_memory_read OR EFF_logs)"
| "effect_of_kind OpLog3 = Some (EFF_memory_read OR EFF_logs)"
| "effect_of_kind OpLog4 = Some (EFF_memory_read OR EFF_logs)"
| "effect_of_kind OpCreate = Some (EFF_extcall OR EFF_memory_read)"
| "effect_of_kind OpCreate2 = Some (EFF_extcall OR EFF_memory_read)"
| "effect_of_kind OpCall = Some (EFF_extcall OR EFF_memory_write)"
| "effect_of_kind OpCallCode = Some (EFF_extcall OR EFF_memory_write)"
| "effect_of_kind OpDelegateCall = Some (EFF_extcall OR EFF_memory_write)"
| "effect_of_kind OpStaticCall = Some (EFF_accounts_read OR EFF_persistent_read OR EFF_transient_read OR EFF_memory_write OR EFF_returndata_write)"
| "effect_of_kind OpReturn = Some (EFF_terminate OR EFF_memory_read)"
| "effect_of_kind OpStop = Some EFF_terminate"
| "effect_of_kind OpSelfDestruct = Some EFF_terminate"
| "effect_of_kind OpRevert = Some (EFF_memory_read OR EFF_revert)"
| "effect_of_kind OpInvalid = Some EFF_revert"
| "effect_of_kind OpAcquireFreePointer = Some EFF_alloc_use_free"
| "effect_of_kind OpDynamicAllocZeroed = Some EFF_alloc_advance"
| "effect_of_kind OpDynamicAllocAnyBytes = Some EFF_alloc_advance"
| "effect_of_kind OpStaticAllocZeroed = Some EFF_pure"
| "effect_of_kind OpStaticAllocAnyBytes = Some EFF_pure"
| "effect_of_kind OpMemoryCopy = Some EFF_memory_write"
| "effect_of_kind OpMemoryLoad = Some EFF_memory_read"
| "effect_of_kind OpMemoryStore = Some EFF_memory_write"
| "effect_of_kind OpSetCopy = Some EFF_pure"
| "effect_of_kind OpSetSmallConst = Some EFF_pure"
| "effect_of_kind OpSetLargeConst = Some EFF_pure"
| "effect_of_kind OpSetDataOffset = Some EFF_pure"
| "effect_of_kind OpNoop = Some EFF_pure"
| "effect_of_kind OpRuntimeStartOffset = Some EFF_pure"
| "effect_of_kind OpInitEndOffset = Some EFF_pure"
| "effect_of_kind OpRuntimeLength = Some EFF_pure"
| "effect_of_kind OpInternalCall = None"
| "effect_of_kind OpInternalCallNever = None"

text \<open>
  The effect of an operation, given by its kind and by the callee its data names when it is an
  internal call, whose effect is that of the callee.
\<close>

definition effect_of :: "operation_kind \<Rightarrow> nat \<Rightarrow> (nat + u16) option" where
  "effect_of k callee =
     (if k = OpInternalCall \<or> k = OpInternalCallNever then Some (Inl callee)
      else map_option Inr (effect_of_kind k))"

text \<open>The pairs of a minor and a major flag, and the definition of simplification the tests use.\<close>

definition effect_channels :: "(u16 \<times> u16) list" where
  "effect_channels =
     [(EFF_memory_read, EFF_memory_write), (EFF_returndata_read, EFF_returndata_write),
      (EFF_accounts_read, EFF_accounts_write), (EFF_persistent_read, EFF_persistent_write),
      (EFF_transient_read, EFF_transient_write), (EFF_revert, EFF_terminate),
      (EFF_alloc_advance, EFF_alloc_use_free)]"

definition naive_simplify :: "u16 \<Rightarrow> u16" where
  "naive_simplify effect =
     fold (\<lambda>(minor, major) e. if eff_contains e (minor OR major) then eff_remove e minor else e)
       effect_channels effect"

subsection \<open>Simplification\<close>

definition flag_bit :: "nat \<Rightarrow> u16" where
  "flag_bit i = push_bit i 1"

lemma bit_flag: "bit (flag_bit i) n \<longleftrightarrow> n = i \<and> i < 16"
  by (auto simp: flag_bit_def bit_simps)

lemma eff_contains_two:
  "i < 16 \<Longrightarrow> j < 16 \<Longrightarrow> eff_contains e (flag_bit i OR flag_bit j) \<longleftrightarrow> bit e i \<and> bit e j"
  unfolding eff_contains_def bit_eq_iff [where 'a = "16 word"] bit_and_iff bit_or_iff bit_flag by auto

lemma naive_step_bit:
  assumes "i < 15"
  shows "bit (if eff_contains e (flag_bit i OR flag_bit (Suc i)) then eff_remove e (flag_bit i) else e) n
         \<longleftrightarrow> bit e n \<and> \<not> (n = i \<and> bit e (Suc i))"
  using assms by (auto simp: eff_contains_two eff_remove_def bit_simps bit_flag dest: bit_imp_le_length)

lemma effect_channels_eq:
  "effect_channels = map (\<lambda>i. (flag_bit i, flag_bit (Suc i))) [0, 2, 4, 6, 8, 10, 12]"
  by (simp add: effect_channels_def effect_defs flag_bit_def)

lemma naive_fold_bit:
  "\<forall>i\<in>set ks. i < 15 \<and> even i \<Longrightarrow>
     bit (fold (\<lambda>(minor, major) e. if eff_contains e (minor OR major) then eff_remove e minor else e)
            (map (\<lambda>i. (flag_bit i, flag_bit (Suc i))) ks) e) n
     \<longleftrightarrow> bit e n \<and> \<not> (n \<in> set ks \<and> bit e (Suc n))"
proof (induction ks arbitrary: e)
  case (Cons k ks)
  let ?e = "if eff_contains e (flag_bit k OR flag_bit (Suc k)) then eff_remove e (flag_bit k) else e"
  have step: "\<And>m. bit ?e m \<longleftrightarrow> bit e m \<and> \<not> (m = k \<and> bit e (Suc k))"
    using Cons.prems by (intro naive_step_bit) simp
  have "bit (fold (\<lambda>(minor, major) e. if eff_contains e (minor OR major) then eff_remove e minor else e)
            (map (\<lambda>i. (flag_bit i, flag_bit (Suc i))) ks) ?e) n
     \<longleftrightarrow> bit ?e n \<and> \<not> (n \<in> set ks \<and> bit ?e (Suc n))"
    using Cons.prems by (intro Cons.IH) simp
  then show ?case
    using Cons.prems by (auto simp: step)
qed simp

lemma EFF_minor_bits:
  "EFF_minor = flag_bit 0 OR flag_bit 2 OR flag_bit 4 OR flag_bit 6 OR flag_bit 8 OR flag_bit 10 OR flag_bit 12"
  by (simp add: effect_defs flag_bit_def)

lemma bit_minor: "bit EFF_minor n \<longleftrightarrow> n \<in> {0, 2, 4, 6, 8, 10, 12}"
  by (auto simp: EFF_minor_bits bit_or_iff bit_flag)

lemma simplify_bit: "bit (eff_simplify e) n \<longleftrightarrow> bit e n \<and> \<not> (n \<in> {0, 2, 4, 6, 8, 10, 12} \<and> bit e (Suc n))"
  by (auto simp: eff_simplify_def eff_remove_def bit_simps bit_minor dest: bit_imp_le_length)

lemma simplify_eq_naive: "eff_simplify e = naive_simplify e"
  unfolding naive_simplify_def effect_channels_eq by (rule bit_eqI, subst naive_fold_bit) (simp_all add: simplify_bit)

lemma simplify_idem: "eff_is_simple (eff_simplify e)"
  by (simp add: eff_is_simple_def) (rule bit_eqI, auto simp: simplify_bit)

lemma effects_simple: "effect_of_kind k = Some e \<Longrightarrow> eff_is_simple e"
  by (cases k) (auto simp: eff_is_simple_def eff_simplify_def eff_remove_def effect_defs)

lemma effect_of_total: "effect_of k callee \<noteq> None"
  by (cases k) (simp_all add: effect_of_def)

subsection \<open>Effects and the classes of kinds\<close>

definition EFF_discardable :: u16 where
  "EFF_discardable = EFF_memory_read OR EFF_returndata_read OR EFF_accounts_read OR EFF_persistent_read OR
     EFF_transient_read OR EFF_alloc_advance OR EFF_alloc_use_free"

lemma removable_iff_discardable:
  "effect_of_kind k = Some e \<Longrightarrow> is_removable_when_unused k \<longleftrightarrow> eff_contains EFF_discardable e"
  by (cases k) (auto simp: eff_contains_def EFF_discardable_def effect_defs)

lemma terminating_iff_effect:
  "effect_of_kind k = Some e \<Longrightarrow> k \<noteq> OpReturnDataCopy \<Longrightarrow>
     is_terminating k \<longleftrightarrow> eff_intersects e (EFF_revert OR EFF_terminate)"
  by (cases k) (auto simp: eff_intersects_def is_terminating_def effect_defs)

subsection \<open>Properties\<close>

text \<open>
  \<open>simplify\<close>, which clears redundant minor flags with one shift and two masks,
  equals the loop over the channels that drops a minor flag whenever its major flag is set, and it
  is idempotent; the effects in the table are already simplified and every kind has one.
\<close>

theorem simplify_is_naive:
  "eff_simplify e = naive_simplify e \<and> eff_simplify (eff_simplify e) = eff_simplify e \<and>
   effect_of k callee \<noteq> None \<and>
   (case effect_of_kind k of None \<Rightarrow> True | Some f \<Rightarrow> eff_simplify f = f)"
proof -
  have "eff_simplify f = f" if "eff_is_simple f" for f using that by (simp add: eff_is_simple_def)
  with simplify_eq_naive simplify_idem effect_of_total effects_simple [of k] show ?thesis
    by (cases "effect_of_kind k") simp_all
qed

text \<open>
  The two hand-written tables of the operation kinds agree. A kind may
  be removed when its result is unused exactly when its effect only reads or advances the free
  memory pointer, and (\<open>returndatacopy\<close>, which may revert on its own, apart) a kind ends the
  block exactly when its effect reverts or terminates.
\<close>

theorem effects_agree_with_flags:
  "case effect_of_kind k of None \<Rightarrow> True | Some e \<Rightarrow>
     is_removable_when_unused k = eff_contains EFF_discardable e \<and>
     (k = OpReturnDataCopy \<or> is_terminating k = eff_intersects e (EFF_revert OR EFF_terminate))"
  using removable_iff_discardable [of k] terminating_iff_effect [of k] by (cases "effect_of_kind k") auto

end
