(* ===== verification/Effect_Order.thy ===== *)
theory Effect_Order
  imports Effects Op_Graph
begin

unbundle bit_operations_syntax

text \<open>
  The effect order of the operation graph
  (\<open>plankc/sir/crates/stack-scheduling/src/op_graph/build_effectful.rs\<close>): the tracker that turns the
  effects of the operations of a block, taken in program order, into the predecessors that keep
  conflicting operations in that order and leave the others free.
\<close>

record channel_state =
  ch_last_major :: "nat option"
  ch_minors_since_major :: "nat list"

record effect_order_tracker =
  eo_channels :: "channel_state list"
  eo_last_logs :: "nat option"

definition channel_empty :: channel_state where
  "channel_empty = \<lparr>ch_last_major = None, ch_minors_since_major = []\<rparr>"

definition eo_empty :: effect_order_tracker where
  "eo_empty = \<lparr>eo_channels = replicate (length effect_channels) channel_empty, eo_last_logs = None\<rparr>"

definition eo_widen :: "u16 \<Rightarrow> u16" where
  "eo_widen effect =
     (if eff_contains effect EFF_terminate then effect OR EFF_major OR EFF_logs else effect)"

definition opt_to_list :: "'a option \<Rightarrow> 'a list" where
  "opt_to_list o' = (case o' of None \<Rightarrow> [] | Some x \<Rightarrow> [x])"

text \<open>One round of the loop over the channels: the predecessors added and the new channel.\<close>

definition channel_step ::
    "nat \<Rightarrow> u16 \<Rightarrow> u16 \<times> u16 \<Rightarrow> channel_state \<Rightarrow> nat list \<times> channel_state" where
  "channel_step i effect ch c = (case ch of (minor, major) \<Rightarrow>
     if eff_intersects effect major then
       (opt_to_list (ch_last_major c) @ ch_minors_since_major c,
        c\<lparr>ch_minors_since_major := [], ch_last_major := Some i\<rparr>)
     else if eff_intersects effect minor then
       (opt_to_list (ch_last_major c), c\<lparr>ch_minors_since_major := ch_minors_since_major c @ [i]\<rparr>)
     else ([], c))"

text \<open>
  \<open>add_effect_predecessors\<close>: the predecessors in the order the code adds them, and the tracker
  afterwards; \<open>eo_add_effect_predecessors\<close> adds them to the operation under construction.
\<close>

definition eo_step :: "nat \<Rightarrow> u16 \<Rightarrow> effect_order_tracker \<Rightarrow> nat list \<times> effect_order_tracker" where
  "eo_step i effect t =
     (let effect = eo_widen effect;
          rounds = map2 (channel_step i effect) effect_channels (eo_channels t);
          preds = concat (map fst rounds);
          channels = map snd rounds
      in if eff_contains effect EFF_logs
         then (preds @ opt_to_list (eo_last_logs t), \<lparr>eo_channels = channels, eo_last_logs = Some i\<rparr>)
         else (preds, t\<lparr>eo_channels := channels\<rparr>))"

definition eo_add_effect_predecessors ::
    "nat \<Rightarrow> u16 \<Rightarrow> effect_order_tracker \<times> graph_storage \<Rightarrow> (effect_order_tracker \<times> graph_storage) option" where
  "eo_add_effect_predecessors i effect tg = (case tg of (t, g) \<Rightarrow>
     (case eo_step i effect t of (preds, t') \<Rightarrow>
        map_option (\<lambda>g. (t', g)) (fold_opt (gb_add_predecessor i) preds g)))"

text \<open>
  The loop of \<open>build_graph_effectful\<close> over the operations of a block. An operation is given by its
  node kind, its effect (none for the push of a return destination, which the tracker never sees),
  its input values and the number of its outputs.
\<close>

type_synonym effect_spec = "op_node_kind \<times> u16 option \<times> nat list \<times> nat"

definition eo_op ::
    "effect_spec \<Rightarrow> effect_order_tracker \<times> graph_storage \<Rightarrow> (effect_order_tracker \<times> graph_storage) option" where
  "eo_op s tg = (case (s, tg) of ((kind, effect, ins, n_outs), (t, g)) \<Rightarrow> do {
     (i, g) \<leftarrow> gb_begin_op kind g;
     (t, g) \<leftarrow> (case effect of None \<Rightarrow> Some (t, g) | Some e \<Rightarrow> eo_add_effect_predecessors i e (t, g));
     g \<leftarrow> fold_opt (gb_add_input i) ins g;
     (_, g) \<leftarrow> gb_outputs i n_outs g;
     Some (t, g)
   })"

definition build_graph_effectful :: "nat \<Rightarrow> effect_spec list \<Rightarrow> nat list \<Rightarrow> op_graph option" where
  "build_graph_effectful n_inputs ops ends = do {
     g \<leftarrow> gb_inputs n_inputs gs_empty;
     inputs_end \<leftarrow> iv_len_idx (gs_values g);
     (_, g) \<leftarrow> fold_opt eo_op ops (eo_empty, g);
     end_stack_start \<leftarrow> iv_len_idx (gs_values_arena g);
     g \<leftarrow> fold_opt gb_push_end_stack_value ends g;
     gb_finish inputs_end end_stack_start g
   }"

text \<open>The predecessors the tracker gives to every operation of a block.\<close>

fun eo_preds :: "nat \<Rightarrow> effect_order_tracker \<Rightarrow> u16 option list \<Rightarrow> nat list list" where
  "eo_preds i t [] = []"
| "eo_preds i t (None # es) = [] # eo_preds (Suc i) t es"
| "eo_preds i t (Some e # es) = (case eo_step i e t of (ps, t') \<Rightarrow> ps # eo_preds (Suc i) t' es)"

definition block_preds :: "u16 option list \<Rightarrow> nat list list" where
  "block_preds es = eo_preds 0 eo_empty es"

subsection \<open>When two effects conflict\<close>

definition chan_conflict :: "u16 \<times> u16 \<Rightarrow> u16 \<Rightarrow> u16 \<Rightarrow> bool" where
  "chan_conflict ch e f = (case ch of (minor, major) \<Rightarrow>
     eff_intersects e major \<and> (eff_intersects f major \<or> eff_intersects f minor) \<or>
     eff_intersects e minor \<and> eff_intersects f major)"

text \<open>Two operations conflict on a channel, by both logging, or because one of them ends the run.\<close>

definition eff_ends_against :: "u16 \<Rightarrow> u16 \<Rightarrow> bool" where
  "eff_ends_against e f =
     (eff_contains e EFF_terminate \<and> eff_intersects f (EFF_minor OR EFF_major OR EFF_logs))"

definition eff_conflict :: "u16 \<Rightarrow> u16 \<Rightarrow> bool" where
  "eff_conflict e f =
     ((\<exists>ch\<in>set effect_channels. chan_conflict ch e f) \<or>
      eff_contains e EFF_logs \<and> eff_contains f EFF_logs \<or>
      eff_ends_against e f \<or> eff_ends_against f e)"

definition opt_conflict :: "u16 option \<Rightarrow> u16 option \<Rightarrow> bool" where
  "opt_conflict e f = (case (e, f) of (Some e, Some f) \<Rightarrow> eff_conflict e f | _ \<Rightarrow> False)"

subsection \<open>What a channel remembers\<close>

text \<open>
  \<open>h\<close> lists the operations seen so far with their widened effects, \<open>R\<close> the predecessor edges so
  far. A channel is complete when everything that touched it is either a minor access since the
  last major one, or that major access itself, or ordered before it.
\<close>

definition before :: "(nat \<times> nat) set \<Rightarrow> nat \<Rightarrow> nat option \<Rightarrow> bool" where
  "before R x l = (\<exists>m. l = Some m \<and> (x, m) \<in> R\<^sup>*)"

definition chan_complete :: "(nat \<times> nat) set \<Rightarrow> (nat \<times> u16) set \<Rightarrow> u16 \<times> u16 \<Rightarrow> channel_state \<Rightarrow> bool" where
  "chan_complete R h ch c = (\<forall>(x, e)\<in>h.
     (eff_intersects e (snd ch) \<longrightarrow> before R x (ch_last_major c)) \<and>
     (eff_intersects e (fst ch) \<longrightarrow> x \<in> set (ch_minors_since_major c) \<or> before R x (ch_last_major c)))"

definition chan_sound :: "(nat \<times> u16) set \<Rightarrow> u16 \<times> u16 \<Rightarrow> channel_state \<Rightarrow> bool" where
  "chan_sound h ch c \<longleftrightarrow>
     (\<forall>m. ch_last_major c = Some m \<longrightarrow> (\<exists>e. (m, e) \<in> h \<and> eff_intersects e (snd ch))) \<and>
     (\<forall>x\<in>set (ch_minors_since_major c). \<exists>e. (x, e) \<in> h \<and> eff_intersects e (fst ch))"

lemma opt_to_list_mem [simp]: "x \<in> set (opt_to_list l) \<longleftrightarrow> l = Some x"
  by (auto simp: opt_to_list_def split: option.split)

lemma before_mono: "before R x l \<Longrightarrow> R \<subseteq> S \<Longrightarrow> before S x l"
  using rtrancl_mono [of R S] by (auto simp: before_def)

lemma before_trancl:
  assumes "before R x l" and "\<And>m. l = Some m \<Longrightarrow> (m, i) \<in> R"
  shows "(x, i) \<in> R\<^sup>+"
  using assms by (auto simp: before_def intro: rtrancl_into_trancl1)

lemma channel_step_complete:
  assumes comp: "chan_complete R h ch c" and step: "channel_step i e ch c = (ps, c')"
    and edges: "\<And>p. p \<in> set ps \<Longrightarrow> (p, i) \<in> R"
  shows "chan_complete R (insert (i, e) h) ch c'"
    and "(x, f) \<in> h \<Longrightarrow> chan_conflict ch f e \<Longrightarrow> (x, i) \<in> R\<^sup>+"
proof -
  obtain minor major where ch: "ch = (minor, major)" by (cases ch)
  have ord: "(x, i) \<in> R\<^sup>+" if x: "(x, f) \<in> h" "chan_conflict ch f e" for x f
  proof (cases "eff_intersects e major")
    case True
    then have "\<And>m. ch_last_major c = Some m \<Longrightarrow> (m, i) \<in> R"
      "\<And>m. m \<in> set (ch_minors_since_major c) \<Longrightarrow> (m, i) \<in> R"
      using step edges by (auto simp: channel_step_def ch)
    then show ?thesis
      using comp x before_trancl [of R x "ch_last_major c" i]
      by (auto simp: chan_complete_def chan_conflict_def ch dest!: bspec)
  next
    case False
    with x have ef: "eff_intersects f major" "eff_intersects e minor" by (auto simp: chan_conflict_def ch)
    with False have "\<And>m. ch_last_major c = Some m \<Longrightarrow> (m, i) \<in> R"
      using step edges by (auto simp: channel_step_def ch)
    then show ?thesis
      using comp x(1) ef before_trancl [of R x "ch_last_major c" i]
      by (auto simp: chan_complete_def ch)
  qed
  then show "(x, f) \<in> h \<Longrightarrow> chan_conflict ch f e \<Longrightarrow> (x, i) \<in> R\<^sup>+" .
  have refl: "before R i (Some i)" by (simp add: before_def)
  have ord': "before R x (Some i)"
    if "(x, f) \<in> h" "eff_intersects e major" "eff_intersects f major \<or> eff_intersects f minor" for x f
    using ord [of x f] that by (auto simp: before_def chan_conflict_def ch intro: trancl_into_rtrancl)
  show "chan_complete R (insert (i, e) h) ch c'"
  proof (cases "eff_intersects e major")
    case True
    then have "ch_last_major c' = Some i" using step by (auto simp: channel_step_def ch)
    with True refl ord' show ?thesis by (auto simp: chan_complete_def ch)
  next
    case False
    then have "ch_last_major c' = ch_last_major c"
      "set (ch_minors_since_major c') \<supseteq> set (ch_minors_since_major c)"
      "eff_intersects e minor \<Longrightarrow> i \<in> set (ch_minors_since_major c')"
      using step by (auto simp: channel_step_def ch split: if_splits)
    with False comp show ?thesis by (fastforce simp: chan_complete_def ch)
  qed
qed

lemma channel_step_sound:
  assumes sound: "chan_sound h ch c" and step: "channel_step i e ch c = (ps, c')"
  shows "chan_sound (insert (i, e) h) ch c'"
    and "p \<in> set ps \<Longrightarrow> \<exists>f. (p, f) \<in> h \<and> chan_conflict ch f e"
proof -
  obtain minor major where ch: "ch = (minor, major)" by (cases ch)
  show "chan_sound (insert (i, e) h) ch c'"
    using assms by (auto simp: chan_sound_def channel_step_def ch split: if_splits) blast+
  show "p \<in> set ps \<Longrightarrow> \<exists>f. (p, f) \<in> h \<and> chan_conflict ch f e"
    using assms by (fastforce simp: chan_sound_def channel_step_def chan_conflict_def ch split: if_splits)
qed

subsection \<open>The whole tracker\<close>

definition wide_conflict :: "u16 \<Rightarrow> u16 \<Rightarrow> bool" where
  "wide_conflict e f \<longleftrightarrow>
     (\<exists>ch\<in>set effect_channels. chan_conflict ch e f) \<or> eff_contains e EFF_logs \<and> eff_contains f EFF_logs"

definition eo_complete :: "(nat \<times> nat) set \<Rightarrow> (nat \<times> u16) set \<Rightarrow> effect_order_tracker \<Rightarrow> bool" where
  "eo_complete R h t \<longleftrightarrow>
     length (eo_channels t) = length effect_channels \<and>
     (\<forall>k<length effect_channels. chan_complete R h (effect_channels ! k) (eo_channels t ! k)) \<and>
     (\<forall>(x, e)\<in>h. eff_contains e EFF_logs \<longrightarrow> before R x (eo_last_logs t))"

definition eo_sound :: "(nat \<times> u16) set \<Rightarrow> effect_order_tracker \<Rightarrow> bool" where
  "eo_sound h t \<longleftrightarrow>
     length (eo_channels t) = length effect_channels \<and>
     (\<forall>k<length effect_channels. chan_sound h (effect_channels ! k) (eo_channels t ! k)) \<and>
     (\<forall>m. eo_last_logs t = Some m \<longrightarrow> (\<exists>e. (m, e) \<in> h \<and> eff_contains e EFF_logs))"

lemma eo_complete_empty: "eo_complete R {} eo_empty"
  by (simp add: eo_complete_def eo_empty_def chan_complete_def)

lemma eo_sound_empty: "eo_sound {} eo_empty"
  by (simp add: eo_sound_def eo_empty_def chan_sound_def channel_empty_def)

lemma concat_map2_mem:
  assumes "length ys = length xs"
  shows "p \<in> set (concat (map fst (map2 f xs ys))) \<longleftrightarrow> (\<exists>k<length xs. p \<in> set (fst (f (xs ! k) (ys ! k))))"
proof -
  have "p \<in> set (concat (map fst (map2 f xs ys))) \<longleftrightarrow> (\<exists>r\<in>set (map2 f xs ys). p \<in> set (fst r))"
    by force
  also have "\<dots> \<longleftrightarrow> (\<exists>k<length xs. p \<in> set (fst (map2 f xs ys ! k)))"
    using assms by (metis (no_types, lifting) in_set_conv_nth length_map length_zip min.idem)
  finally show ?thesis using assms by auto
qed

text \<open>A step of the tracker is a step of every channel and of the log chain.\<close>

lemma eo_step_parts:
  assumes step: "eo_step i e t = (ps, t')" and len: "length (eo_channels t) = length effect_channels"
  shows "length (eo_channels t') = length effect_channels"
    and "k < length effect_channels \<Longrightarrow>
      eo_channels t' ! k = snd (channel_step i (eo_widen e) (effect_channels ! k) (eo_channels t ! k))"
    and "p \<in> set ps \<longleftrightarrow>
      (\<exists>k<length effect_channels. p \<in> set (fst (channel_step i (eo_widen e) (effect_channels ! k) (eo_channels t ! k)))) \<or>
      eff_contains (eo_widen e) EFF_logs \<and> eo_last_logs t = Some p"
    and "eo_last_logs t' = (if eff_contains (eo_widen e) EFF_logs then Some i else eo_last_logs t)"
proof -
  let ?rounds = "map2 (channel_step i (eo_widen e)) effect_channels (eo_channels t)"
  have "t' = \<lparr>eo_channels = map snd ?rounds,
              eo_last_logs = (if eff_contains (eo_widen e) EFF_logs then Some i else eo_last_logs t)\<rparr>"
    and ps': "ps = concat (map fst ?rounds) @
               (if eff_contains (eo_widen e) EFF_logs then opt_to_list (eo_last_logs t) else [])"
    using step by (auto simp: eo_step_def Let_def split: if_splits simp del: map_map set_concat)
  with len show "length (eo_channels t') = length effect_channels"
    "k < length effect_channels \<Longrightarrow>
      eo_channels t' ! k = snd (channel_step i (eo_widen e) (effect_channels ! k) (eo_channels t ! k))"
    "eo_last_logs t' = (if eff_contains (eo_widen e) EFF_logs then Some i else eo_last_logs t)"
    by simp_all
  show "p \<in> set ps \<longleftrightarrow>
      (\<exists>k<length effect_channels. p \<in> set (fst (channel_step i (eo_widen e) (effect_channels ! k) (eo_channels t ! k)))) \<or>
      eff_contains (eo_widen e) EFF_logs \<and> eo_last_logs t = Some p"
    unfolding ps' set_append Un_iff concat_map2_mem [OF len] by simp
qed

lemma eo_step_complete:
  assumes comp: "eo_complete R h t" and step: "eo_step i e t = (ps, t')"
    and edges: "\<And>p. p \<in> set ps \<Longrightarrow> (p, i) \<in> R"
  shows "eo_complete R (insert (i, eo_widen e) h) t'"
    and "(x, f) \<in> h \<Longrightarrow> wide_conflict f (eo_widen e) \<Longrightarrow> (x, i) \<in> R\<^sup>+"
proof -
  from comp have len: "length (eo_channels t) = length effect_channels" by (simp add: eo_complete_def)
  note parts = eo_step_parts [OF step len]
  let ?c = "\<lambda>k. channel_step i (eo_widen e) (effect_channels ! k) (eo_channels t ! k)"
  have chan: "chan_complete R (insert (i, eo_widen e) h) (effect_channels ! k) (eo_channels t' ! k)"
    "\<And>x f. (x, f) \<in> h \<Longrightarrow> chan_conflict (effect_channels ! k) f (eo_widen e) \<Longrightarrow> (x, i) \<in> R\<^sup>+"
    if k: "k < length effect_channels" for k
  proof -
    have c: "chan_complete R h (effect_channels ! k) (eo_channels t ! k)"
      using comp k by (simp add: eo_complete_def)
    have s: "channel_step i (eo_widen e) (effect_channels ! k) (eo_channels t ! k) =
             (fst (?c k), eo_channels t' ! k)"
      by (simp add: parts(2) [OF k])
    have "\<And>p. p \<in> set (fst (?c k)) \<Longrightarrow> (p, i) \<in> R" using edges parts(3) k by blast
    from channel_step_complete [OF c s this]
    show "chan_complete R (insert (i, eo_widen e) h) (effect_channels ! k) (eo_channels t' ! k)"
      "\<And>x f. (x, f) \<in> h \<Longrightarrow> chan_conflict (effect_channels ! k) f (eo_widen e) \<Longrightarrow> (x, i) \<in> R\<^sup>+"
      by blast+
  qed
  have logs: "(x, i) \<in> R\<^sup>+"
    if "(x, f) \<in> h" "eff_contains f EFF_logs" "eff_contains (eo_widen e) EFF_logs" for x f
  proof (rule before_trancl)
    show "before R x (eo_last_logs t)" using comp that by (auto simp: eo_complete_def)
    show "(m, i) \<in> R" if "eo_last_logs t = Some m" for m
      using edges parts(3) that \<open>eff_contains (eo_widen e) EFF_logs\<close> by blast
  qed
  show "(x, f) \<in> h \<Longrightarrow> wide_conflict f (eo_widen e) \<Longrightarrow> (x, i) \<in> R\<^sup>+"
    using chan(2) logs by (auto simp: wide_conflict_def in_set_conv_nth)
  have "\<forall>(x, f)\<in>insert (i, eo_widen e) h. eff_contains f EFF_logs \<longrightarrow> before R x (eo_last_logs t')"
    using comp logs by (auto simp: parts(4) before_def eo_complete_def intro: trancl_into_rtrancl)
  with chan(1) parts(1) show "eo_complete R (insert (i, eo_widen e) h) t'"
    by (simp add: eo_complete_def)
qed

lemma eo_step_sound:
  assumes sound: "eo_sound h t" and step: "eo_step i e t = (ps, t')"
  shows "eo_sound (insert (i, eo_widen e) h) t'"
    and "p \<in> set ps \<Longrightarrow> \<exists>f. (p, f) \<in> h \<and> wide_conflict f (eo_widen e)"
proof -
  from sound have len: "length (eo_channels t) = length effect_channels" by (simp add: eo_sound_def)
  note parts = eo_step_parts [OF step len]
  let ?c = "\<lambda>k. channel_step i (eo_widen e) (effect_channels ! k) (eo_channels t ! k)"
  have chan: "chan_sound (insert (i, eo_widen e) h) (effect_channels ! k) (eo_channels t' ! k)"
    "\<And>p. p \<in> set (fst (?c k)) \<Longrightarrow> \<exists>f. (p, f) \<in> h \<and> chan_conflict (effect_channels ! k) f (eo_widen e)"
    if k: "k < length effect_channels" for k
  proof -
    have c: "chan_sound h (effect_channels ! k) (eo_channels t ! k)"
      using sound k by (simp add: eo_sound_def)
    have s: "channel_step i (eo_widen e) (effect_channels ! k) (eo_channels t ! k) =
             (fst (?c k), eo_channels t' ! k)"
      by (simp add: parts(2) [OF k])
    from channel_step_sound [OF c s]
    show "chan_sound (insert (i, eo_widen e) h) (effect_channels ! k) (eo_channels t' ! k)"
      "\<And>p. p \<in> set (fst (?c k)) \<Longrightarrow> \<exists>f. (p, f) \<in> h \<and> chan_conflict (effect_channels ! k) f (eo_widen e)"
      by blast+
  qed
  show "p \<in> set ps \<Longrightarrow> \<exists>f. (p, f) \<in> h \<and> wide_conflict f (eo_widen e)"
    using chan(2) sound unfolding parts(3) wide_conflict_def eo_sound_def by (meson nth_mem)
  show "eo_sound (insert (i, eo_widen e) h) t'"
    using chan(1) sound parts(1,4) by (auto simp: eo_sound_def)
qed

text \<open>Widening a terminator makes its conflicts those of the channels.\<close>

lemma eff_intersects_flag: "i < 16 \<Longrightarrow> eff_intersects e (flag_bit i) \<longleftrightarrow> bit e i"
  unfolding eff_intersects_def bit_eq_iff [where 'a = "16 word"] bit_and_iff bit_flag by auto

lemma eff_contains_flag: "i < 16 \<Longrightarrow> eff_contains e (flag_bit i) \<longleftrightarrow> bit e i"
  unfolding eff_contains_def bit_eq_iff [where 'a = "16 word"] bit_and_iff bit_flag by auto

lemma eff_intersects_or: "eff_intersects e (a OR b) \<longleftrightarrow> eff_intersects e a \<or> eff_intersects e b"
  by (auto simp: eff_intersects_def bit_eq_iff [where 'a = "16 word"] bit_simps)

lemma EFF_flags:
  "EFF_terminate = flag_bit 11" "EFF_logs = flag_bit 14"
  "EFF_minor = flag_bit 0 OR flag_bit 2 OR flag_bit 4 OR flag_bit 6 OR flag_bit 8 OR flag_bit 10 OR flag_bit 12"
  "EFF_major = flag_bit 1 OR flag_bit 3 OR flag_bit 5 OR flag_bit 7 OR flag_bit 9 OR flag_bit 11 OR flag_bit 13"
  by (simp_all add: effect_defs flag_bit_def)

lemma bit_widen: "bit (eo_widen e) n \<longleftrightarrow> bit e n \<or> bit e 11 \<and> n \<in> {1, 3, 5, 7, 9, 11, 13, 14}"
  by (auto simp: eo_widen_def EFF_flags eff_contains_flag bit_or_iff bit_flag)

definition eff_touches :: "u16 \<Rightarrow> bool" where
  "eff_touches f = eff_intersects f (EFF_minor OR EFF_major OR EFF_logs)"

lemma eff_touches_bits: "eff_touches f \<longleftrightarrow>
    bit f 0 \<or> bit f 1 \<or> bit f 2 \<or> bit f 3 \<or> bit f 4 \<or> bit f 5 \<or> bit f 6 \<or> bit f 7 \<or> bit f 8 \<or> bit f 9 \<or>
    bit f 10 \<or> bit f 11 \<or> bit f 12 \<or> bit f 13 \<or> bit f 14"
  unfolding eff_touches_def EFF_flags by (simp add: eff_intersects_or eff_intersects_flag) argo

lemma wide_conflict_bits: "wide_conflict e f \<longleftrightarrow>
    (\<exists>k\<in>{0, 2, 4, 6, 8, 10, 12}. bit e (Suc k) \<and> (bit f (Suc k) \<or> bit f k) \<or> bit e k \<and> bit f (Suc k)) \<or>
    bit e 14 \<and> bit f 14"
  unfolding wide_conflict_def effect_channels_eq EFF_flags
  by (simp add: chan_conflict_def eff_intersects_flag eff_contains_flag)

lemma wide_conflict_commute: "wide_conflict e f \<longleftrightarrow> wide_conflict f e"
  unfolding wide_conflict_bits by blast

lemma wide_conflict_touches: "wide_conflict e f \<Longrightarrow> eff_touches f"
  unfolding wide_conflict_bits eff_touches_bits by auto

lemma wide_conflict_end: "bit e 11 \<Longrightarrow> wide_conflict (eo_widen e) g \<longleftrightarrow> eff_touches g"
  unfolding wide_conflict_bits eff_touches_bits bit_widen by auto

lemma eo_widen_plain: "\<not> bit e 11 \<Longrightarrow> eo_widen e = e"
  by (simp add: eo_widen_def EFF_flags eff_contains_flag)

lemma eff_touches_widen: "eff_touches (eo_widen f) \<longleftrightarrow> eff_touches f"
  unfolding eff_touches_bits bit_widen by auto

lemma eff_conflict_wide: "eff_conflict e f \<longleftrightarrow> wide_conflict (eo_widen e) (eo_widen f)"
proof -
  have split: "eff_conflict e f \<longleftrightarrow> wide_conflict e f \<or> bit e 11 \<and> eff_touches f \<or> bit f 11 \<and> eff_touches e"
    unfolding eff_conflict_def wide_conflict_def eff_ends_against_def eff_touches_def EFF_flags(1)
    by (simp add: eff_contains_flag disj_assoc)
  have ends: "eff_touches x" if "bit x 11" for x using that by (simp add: eff_touches_bits)
  show ?thesis
  proof (cases "bit e 11")
    case True
    with split ends [of f] wide_conflict_touches [of e f] wide_conflict_end [OF True] show ?thesis
      by (auto simp: eff_touches_widen)
  next
    case e: False
    show ?thesis
    proof (cases "bit f 11")
      case True
      with split e wide_conflict_touches [of f e] wide_conflict_commute [of e f]
        wide_conflict_end [OF True, of e] wide_conflict_commute [of e "eo_widen f"]
      show ?thesis by (auto simp: eo_widen_plain)
    qed (use split e in \<open>simp add: eo_widen_plain\<close>)
  qed
qed

lemma eo_preds_length [simp]: "length (eo_preds i t es) = length es"
  by (induction i t es rule: eo_preds.induct) (auto split: prod.split)

lemma eo_preds_complete:
  assumes "eo_complete R h t"
    and "\<And>k p. k < length es \<Longrightarrow> p \<in> set (eo_preds i t es ! k) \<Longrightarrow> (p, i + k) \<in> R"
    and "k < length es" "es ! k = Some e"
    and "(x, f) \<in> h \<or> (\<exists>j<k. \<exists>f'. es ! j = Some f' \<and> x = i + j \<and> f = eo_widen f')"
    and "wide_conflict f (eo_widen e)"
  shows "(x, i + k) \<in> R\<^sup>+"
  using assms
proof (induction i t es arbitrary: h k rule: eo_preds.induct)
  case (2 i t es)
  from 2(5,6) obtain k' where k': "k = Suc k'" by (cases k) auto
  have "(x, Suc i + k') \<in> R\<^sup>+"
  proof (rule 2(1) [OF 2(2)])
    show "(p, Suc i + j) \<in> R" if "j < length es" "p \<in> set (eo_preds (Suc i) t es ! j)" for j p
      using 2(3) [of "Suc j" p] that by simp
    show "(x, f) \<in> h \<or> (\<exists>j<k'. \<exists>f'. es ! j = Some f' \<and> x = Suc i + j \<and> f = eo_widen f')"
      using 2(6) unfolding k' by (auto simp: less_Suc_eq_0_disj)
  qed (use 2 k' in auto)
  then show ?case by (simp add: k')
next
  case (3 i t e0 es)
  obtain ps t' where s: "eo_step i e0 t = (ps, t')" by (cases "eo_step i e0 t")
  have edges: "(p, i) \<in> R" if "p \<in> set ps" for p using 3(3) [of 0 p] that s by simp
  note st = eo_step_complete [OF 3(2) s edges]
  show ?case
  proof (cases k)
    case 0
    with 3 st(2) show ?thesis by auto
  next
    case (Suc k')
    have "(x, Suc i + k') \<in> R\<^sup>+"
    proof (rule 3(1) [OF s [symmetric] st(1)])
      show "(p, Suc i + j) \<in> R" if "j < length es" "p \<in> set (eo_preds (Suc i) t' es ! j)" for j p
        using 3(3) [of "Suc j" p] that s by simp
      show "(x, f) \<in> insert (i, eo_widen e0) h \<or> (\<exists>j<k'. \<exists>f'. es ! j = Some f' \<and> x = Suc i + j \<and> f = eo_widen f')"
        using 3(6) unfolding Suc by (auto simp: less_Suc_eq_0_disj)
    qed (use 3 Suc in auto)
    then show ?thesis by (simp add: Suc)
  qed
qed simp

lemma eo_preds_sound:
  assumes "eo_sound h t" "k < length es" "p \<in> set (eo_preds i t es ! k)"
  shows "\<exists>e f. es ! k = Some e \<and> wide_conflict f (eo_widen e) \<and>
         ((p, f) \<in> h \<or> (\<exists>j<k. \<exists>f'. es ! j = Some f' \<and> p = i + j \<and> f = eo_widen f'))"
  using assms
proof (induction i t es arbitrary: h k rule: eo_preds.induct)
  case (2 i t es)
  then obtain k' where k': "k = Suc k'" by (cases k) auto
  from 2(1) [OF 2(2), of k'] 2(3,4) k' show ?case
    by (fastforce simp: k')
next
  case (3 i t e0 es)
  obtain ps t' where s: "eo_step i e0 t = (ps, t')" by (cases "eo_step i e0 t")
  note st = eo_step_sound [OF 3(2) s]
  show ?case
  proof (cases k)
    case 0
    with 3(4) s have "p \<in> set ps" by simp
    from st(2) [OF this] 0 show ?thesis by auto
  next
    case (Suc k')
    with 3(3,4) s have "k' < length es" "p \<in> set (eo_preds (Suc i) t' es ! k')" by simp_all
    from 3(1) [OF s [symmetric] st(1) this] obtain e f where e: "es ! k' = Some e"
      "wide_conflict f (eo_widen e)" "(p, f) = (i, eo_widen e0) \<or> (p, f) \<in> h \<or>
        (\<exists>j<k'. \<exists>f'. es ! j = Some f' \<and> p = Suc i + j \<and> f = eo_widen f')"
      by auto
    then have "(p, f) \<in> h \<or> (\<exists>j<Suc k'. \<exists>f'. (Some e0 # es) ! j = Some f' \<and> p = i + j \<and> f = eo_widen f')"
      by (auto simp: less_Suc_eq_0_disj)
    with e(1,2) show ?thesis unfolding Suc by auto
  qed
qed simp

lemma block_preds_complete:
  assumes "i < j" "j < length es" "opt_conflict (es ! i) (es ! j)"
    and "\<And>k p. k < length es \<Longrightarrow> p \<in> set (block_preds es ! k) \<Longrightarrow> (p, k) \<in> R"
  shows "(i, j) \<in> R\<^sup>+"
proof -
  from assms(3) obtain e f where ef: "es ! i = Some f" "es ! j = Some e" "eff_conflict f e"
    by (auto simp: opt_conflict_def split: option.splits)
  have "(i, 0 + j) \<in> R\<^sup>+"
    by (rule eo_preds_complete [OF eo_complete_empty, of es 0])
      (use assms ef in \<open>auto simp: block_preds_def eff_conflict_wide\<close>)
  then show ?thesis by simp
qed

lemma block_preds_sound:
  assumes "k < length es" "p \<in> set (block_preds es ! k)"
  shows "p < k \<and> opt_conflict (es ! p) (es ! k)"
  using eo_preds_sound [OF eo_sound_empty assms(1), of p 0] assms(2)
  by (auto simp: block_preds_def opt_conflict_def eff_conflict_wide)

subsection \<open>The graph that is built\<close>

text \<open>
  The operations as the plain builder of \<open>Op_Graph\<close> would take them: the tracker's predecessors
  are written next to each.
\<close>

definition with_preds :: "effect_spec list \<Rightarrow> nat list list \<Rightarrow> op_spec list" where
  "with_preds ops pss = map2 (\<lambda>(kind, effect, ins, n) ps. (kind, ps, ins, n)) ops pss"

definition spec_effects :: "effect_spec list \<Rightarrow> u16 option list" where
  "spec_effects ops = map (\<lambda>(kind, effect, ins, n). effect) ops"

definition effect_specs :: "effect_spec list \<Rightarrow> op_spec list" where
  "effect_specs ops = with_preds ops (block_preds (spec_effects ops))"

lemma add_predecessor_ops: "gb_add_predecessor i p g = Some g' \<Longrightarrow> gs_operations g' = gs_operations g"
  by (auto simp: gb_add_predecessor_def monad_elims)

lemma add_predecessors_ops:
  "fold_opt (gb_add_predecessor i) ps g = Some g' \<Longrightarrow> gs_operations g' = gs_operations g"
  by (induction ps arbitrary: g) (auto simp: monad_elims add_predecessor_ops)

lemma add_input_ops:
  "gb_add_input i v g = Some g' \<Longrightarrow> length (gs_operations g') = length (gs_operations g)"
  by (cases "gs_values g ! v"; cases "fst (gs_values g ! v)")
    (auto simp: gb_add_input_def monad_elims add_predecessor_ops)

lemma add_inputs_ops:
  "fold_opt (gb_add_input i) vs g = Some g' \<Longrightarrow> length (gs_operations g') = length (gs_operations g)"
  by (induction vs arbitrary: g) (auto simp: monad_elims dest: add_input_ops)

lemma add_outputs_ops:
  "gb_outputs i n g = Some (vs, g') \<Longrightarrow> length (gs_operations g') = length (gs_operations g)"
  by (induction n arbitrary: g vs) (auto simp: monad_elims gb_add_output_def)

lemma begin_op_ops:
  "gb_begin_op kind g = Some (i, g') \<Longrightarrow>
     i = length (gs_operations g) \<and> length (gs_operations g') = Suc (length (gs_operations g))"
  by (auto simp: gb_begin_op_def iv_push_def monad_elims)

lemma eo_op_refines:
  assumes "eo_op (kind, e, ins, k) (t, g) = Some (t', g')"
  defines "i \<equiv> length (gs_operations g)"
  shows "gb_op_of (kind, case e of None \<Rightarrow> [] | Some f \<Rightarrow> fst (eo_step i f t), ins, k) g = Some g' \<and>
         t' = (case e of None \<Rightarrow> t | Some f \<Rightarrow> snd (eo_step i f t)) \<and>
         length (gs_operations g') = Suc i"
proof -
  from assms(1) obtain j g1 g2 g3 vs where b: "gb_begin_op kind g = Some (j, g1)"
    and p: "(case e of None \<Rightarrow> Some (t, g1) | Some f \<Rightarrow> eo_add_effect_predecessors j f (t, g1)) = Some (t', g2)"
    and rest: "fold_opt (gb_add_input j) ins g2 = Some g3" "gb_outputs j k g3 = Some (vs, g')"
    unfolding eo_op_def by (auto simp: bind_eq_Some_conv)
  have j: "j = i" "length (gs_operations g1) = Suc i" using begin_op_ops [OF b] by (simp_all add: i_def)
  have fold: "fold_opt (gb_add_predecessor i) (case e of None \<Rightarrow> [] | Some f \<Rightarrow> fst (eo_step i f t)) g1 = Some g2"
    and t': "t' = (case e of None \<Rightarrow> t | Some f \<Rightarrow> snd (eo_step i f t))"
    using p by (auto simp: j eo_add_effect_predecessors_def split: option.splits prod.splits)
  have "length (gs_operations g') = Suc i"
    using j add_predecessors_ops [OF fold] rest(1) [THEN add_inputs_ops] rest(2) [THEN add_outputs_ops]
    by simp
  with b fold t' rest show ?thesis
    by (simp add: gb_op_of_def gb_op_def j)
qed

lemma eo_fold_refines:
  "fold_opt eo_op ops (t, g) = Some (t', g') \<Longrightarrow>
     fold_opt gb_op_of (with_preds ops (eo_preds (length (gs_operations g)) t (spec_effects ops))) g = Some g'"
proof (induction ops arbitrary: t g)
  case (Cons s ops)
  obtain kind e ins k where s: "s = (kind, e, ins, k)" by (cases s)
  from Cons.prems obtain t1 g1 where h: "eo_op s (t, g) = Some (t1, g1)" "fold_opt eo_op ops (t1, g1) = Some (t', g')"
    by (auto simp: bind_eq_Some_conv)
  from eo_op_refines [OF h(1) [unfolded s]] Cons.IH [OF h(2)] show ?case
    by (cases e) (auto simp: s with_preds_def spec_effects_def split: prod.splits)
qed (simp add: with_preds_def spec_effects_def)

lemma inputs_no_ops: "gb_inputs n g = Some g' \<Longrightarrow> gs_operations g' = gs_operations g"
  by (induction n arbitrary: g) (auto simp: monad_elims gb_push_input_value_def)

lemma build_graph_effectful_refines:
  assumes "build_graph_effectful n ops ends = Some G"
  shows "gb_graph n (effect_specs ops) ends = Some G"
proof -
  from assms obtain g0 m t g1 e g2 where g0: "gb_inputs n gs_empty = Some g0"
    and m: "iv_len_idx (gs_values g0) = Some m" and g1: "fold_opt eo_op ops (eo_empty, g0) = Some (t, g1)"
    and e: "iv_len_idx (gs_values_arena g1) = Some e"
    and g2: "fold_opt gb_push_end_stack_value ends g1 = Some g2"
    and G: "gb_finish m e g2 = Some G"
    by (auto simp: build_graph_effectful_def bind_eq_Some_conv)
  have "gs_operations g0 = []" using inputs_no_ops [OF g0] by (simp add: gs_empty_def)
  with eo_fold_refines [OF g1] have "fold_opt gb_op_of (effect_specs ops) g0 = Some g1"
    by (simp add: effect_specs_def block_preds_def)
  with g0 m e g2 G show ?thesis by (simp add: gb_graph_def)
qed

lemma effect_specs_length [simp]: "length (effect_specs ops) = length ops"
  by (simp add: effect_specs_def with_preds_def block_preds_def spec_effects_def)

lemma effect_specs_nth:
  assumes "k < length ops" "ops ! k = (kind, e, ins, n)"
  shows "effect_specs ops ! k = (kind, block_preds (spec_effects ops) ! k, ins, n)"
  using assms by (simp add: effect_specs_def with_preds_def block_preds_def spec_effects_def)

lemma preds_earlier_nth:
  "preds_earlier i specs \<longleftrightarrow> (\<forall>k<length specs. \<forall>p\<in>set (fst (snd (specs ! k))). p < i + k)"
proof (induction i specs rule: preds_earlier.induct)
  case (2 i kind preds ins n specs)
  have "(\<forall>k<length ((kind, preds, ins, n) # specs). \<forall>p\<in>set (fst (snd (((kind, preds, ins, n) # specs) ! k))). p < i + k)
    \<longleftrightarrow> (\<forall>p\<in>set preds. p < i) \<and> (\<forall>k<length specs. \<forall>p\<in>set (fst (snd (specs ! k))). p < Suc i + k)"
    by (simp add: All_less_Suc2)
  with 2 show ?case by simp
qed simp

lemma effect_specs_earlier: "preds_earlier 0 (effect_specs ops)"
  unfolding preds_earlier_nth
proof (intro allI impI ballI)
  fix k p assume k: "k < length (effect_specs ops)" and p: "p \<in> set (fst (snd (effect_specs ops ! k)))"
  obtain kind e ins n where "ops ! k = (kind, e, ins, n)" by (cases "ops ! k")
  with effect_specs_nth [of k ops] k p have "p \<in> set (block_preds (spec_effects ops) ! k)" by simp
  with block_preds_sound [of k "spec_effects ops" p] k show "p < 0 + k" by (simp add: spec_effects_def)
qed

lemma spec_ops_prefix: "j < length ops \<Longrightarrow> spec_ops ops m specs ! j = ops ! j"
  by (induction ops m specs rule: spec_ops.induct) (simp_all add: nth_append)

lemma spec_ops_nth:
  assumes "k < length specs" "specs ! k = (kind, preds, ins, n)"
  shows "ao_ins (spec_ops ops m specs ! (length ops + k)) = ins"
    and "ao_preds (spec_ops ops m specs ! (length ops + k)) =
      set preds \<union> {p. p < length ops + k \<and> (\<exists>v\<in>set ins. v \<in> set (ao_outs (spec_ops ops m specs ! p)))}"
  using assms
proof (induction ops m specs arbitrary: k rule: spec_ops.induct)
  case (2 ops m kind' preds' ins' n' specs)
  let ?ops = "ops @ [\<lparr>ao_kind = kind', ao_ins = ins', ao_outs = [m..<m + n'],
                       ao_preds = data_preds ops ins' \<union> set preds'\<rparr>]"
  {
    case 1 show ?case
    proof (cases k)
      case 0 with 1 show ?thesis using spec_ops_prefix [of "length ops" ?ops "m + n'" specs] by simp
    next
      case (Suc k') with 1 "2.IH"(1) [of k'] show ?thesis by simp
    qed
  next
    case 2 show ?case
    proof (cases k)
      case 0
      have "spec_ops ?ops (m + n') specs ! p = ops ! p" if "p < length ops" for p
        using spec_ops_prefix [of p ?ops "m + n'" specs] that by (simp add: nth_append)
      then have "data_preds ops ins' = {p. p < length ops \<and> (\<exists>v\<in>set ins'. v \<in> set (ao_outs (spec_ops ?ops (m + n') specs ! p)))}"
        by (auto simp: data_preds_def producers_def)
      with 0 2 show ?thesis using spec_ops_prefix [of "length ops" ?ops "m + n'" specs] by auto
    next
      case (Suc k') with 2 "2.IH"(2) [of k'] show ?thesis by simp
    qed
  }
qed simp_all

text \<open>The predecessor edges of a finished graph.\<close>

definition og_edges :: "op_graph \<Rightarrow> (nat \<times> nat) set" where
  "og_edges G = {(p, q). \<exists>v. og_get_op G q = Some v \<and> p \<in> os_elems (ov_predecessors v)}"

lemma built_edges:
  assumes "build_graph_effectful n ops ends = Some G" and q: "q < length ops"
  shows "(p, q) \<in> og_edges G \<longleftrightarrow>
    p \<in> set (block_preds (spec_effects ops) ! q) \<or>
    p < q \<and> (\<exists>u v w. og_get_op G p = Some u \<and> og_get_op G q = Some v \<and>
                      w \<in> set (ov_outputs u) \<and> w \<in> set (ov_inputs v))"
proof -
  let ?specs = "effect_specs ops"
  let ?aops = "spec_ops [] n ?specs"
  have holds: "og_holds G n ?aops ends"
    by (rule gb_graph_holds [OF build_graph_effectful_refines [OF assms(1)] effect_specs_earlier])
  obtain kind e ins k where s: "ops ! q = (kind, e, ins, k)" by (cases "ops ! q")
  note sq = spec_ops_nth [of q ?specs kind "block_preds (spec_effects ops) ! q" ins k "[]" n,
      simplified effect_specs_length, OF q effect_specs_nth [OF q s]]
  have get: "\<exists>v. og_get_op G i = Some v \<and> ov_inputs v = ao_ins (?aops ! i) \<and>
      ov_outputs v = ao_outs (?aops ! i) \<and> os_elems (ov_predecessors v) = ao_preds (?aops ! i)"
    if "i < length ops" for i
    using holds that by (auto simp: og_holds_def)
  from get [OF q] obtain v where v: "og_get_op G q = Some v" "ov_inputs v = ins"
    "os_elems (ov_predecessors v) = set (block_preds (spec_effects ops) ! q) \<union>
       {p. p < q \<and> (\<exists>v\<in>set ins. v \<in> set (ao_outs (?aops ! p)))}"
    using sq by auto
  show ?thesis
  proof (cases "p < q")
    case True
    with get [of p] q obtain u where "og_get_op G p = Some u" "ov_outputs u = ao_outs (?aops ! p)" by auto
    with v True show ?thesis by (auto simp: og_edges_def)
  qed (use v in \<open>auto simp: og_edges_def\<close>)
qed

subsection \<open>The tracker runs along with the plain builder\<close>

lemma eo_op_follows:
  assumes "gb_op_of (kind, case e of None \<Rightarrow> [] | Some f \<Rightarrow> fst (eo_step (length (gs_operations g)) f t), ins, k) g = Some g'"
  shows "\<exists>t'. eo_op (kind, e, ins, k) (t, g) = Some (t', g')"
proof -
  from assms obtain j g1 g2 g3 vs where b: "gb_begin_op kind g = Some (j, g1)"
    and p: "fold_opt (gb_add_predecessor j)
        (case e of None \<Rightarrow> [] | Some f \<Rightarrow> fst (eo_step (length (gs_operations g)) f t)) g1 = Some g2"
    and rest: "fold_opt (gb_add_input j) ins g2 = Some g3" "gb_outputs j k g3 = Some (vs, g')"
    by (auto simp: gb_op_of_def gb_op_def bind_eq_Some_conv)
  have "j = length (gs_operations g)" using begin_op_ops [OF b] by simp
  with b p rest show ?thesis
    by (cases e) (auto simp: eo_op_def eo_add_effect_predecessors_def split: prod.split)
qed

lemma eo_fold_follows:
  "fold_opt gb_op_of (with_preds ops (eo_preds (length (gs_operations g)) t (spec_effects ops))) g = Some g' \<Longrightarrow>
     \<exists>t'. fold_opt eo_op ops (t, g) = Some (t', g')"
proof (induction ops arbitrary: t g)
  case (Cons s ops)
  obtain kind e ins k where s: "s = (kind, e, ins, k)" by (cases s)
  let ?ps = "case e of None \<Rightarrow> [] | Some f \<Rightarrow> fst (eo_step (length (gs_operations g)) f t)"
  let ?u = "case e of None \<Rightarrow> t | Some f \<Rightarrow> snd (eo_step (length (gs_operations g)) f t)"
  have split: "with_preds (s # ops) (eo_preds (length (gs_operations g)) t (spec_effects (s # ops))) =
      (kind, ?ps, ins, k) # with_preds ops (eo_preds (Suc (length (gs_operations g))) ?u (spec_effects ops))"
    by (cases e) (auto simp: s with_preds_def spec_effects_def split: prod.splits)
  from Cons.prems obtain h where h: "gb_op_of (kind, ?ps, ins, k) g = Some h"
    and rest: "fold_opt gb_op_of (with_preds ops (eo_preds (Suc (length (gs_operations g))) ?u (spec_effects ops))) h = Some g'"
    unfolding split by (auto simp: bind_eq_Some_conv)
  from eo_op_follows [OF h] obtain t1 where t1: "eo_op (kind, e, ins, k) (t, g) = Some (t1, h)" by blast
  from eo_op_refines [OF this] have "t1 = ?u" "length (gs_operations h) = Suc (length (gs_operations g))" by auto
  with Cons.IH [of h ?u] rest t1 show ?case by (simp add: s)
qed (simp add: with_preds_def spec_effects_def)

lemma build_graph_effectful_eq: "build_graph_effectful n ops ends = gb_graph n (effect_specs ops) ends"
proof (cases "gb_graph n (effect_specs ops) ends")
  case None
  with build_graph_effectful_refines [of n ops ends] show ?thesis by (cases "build_graph_effectful n ops ends") auto
next
  case (Some G)
  then obtain g0 m g1 e g2 where g0: "gb_inputs n gs_empty = Some g0"
    and m: "iv_len_idx (gs_values g0) = Some m" and g1: "fold_opt gb_op_of (effect_specs ops) g0 = Some g1"
    and e: "iv_len_idx (gs_values_arena g1) = Some e"
    and g2: "fold_opt gb_push_end_stack_value ends g1 = Some g2" and G: "gb_finish m e g2 = Some G"
    by (auto simp: gb_graph_def bind_eq_Some_conv)
  have "gs_operations g0 = []" using inputs_no_ops [OF g0] by (simp add: gs_empty_def)
  with g1 have "\<exists>t'. fold_opt eo_op ops (eo_empty, g0) = Some (t', g1)"
    by (intro eo_fold_follows) (simp add: effect_specs_def block_preds_def)
  with g0 m e g2 G Some show ?thesis by (auto simp: build_graph_effectful_def)
qed

subsection \<open>Properties\<close>

text \<open>
  C3: the operation graph keeps conflicting operations in program order. When
  \<open>build_graph_effectful\<close> returns a graph, any two operations of the block whose effects conflict
  (a write of a channel against an access of it, two logs, a terminator against anything) are
  joined by a path of predecessor edges from the earlier to the later.
\<close>

theorem effect_order_complete:
  assumes build: "build_graph_effectful n ops ends = Some G" and ij: "i < j" "j < length ops"
    and conflict: "opt_conflict (spec_effects ops ! i) (spec_effects ops ! j)"
  shows "(i, j) \<in> (og_edges G)\<^sup>+"
proof (rule block_preds_complete [OF ij(1) _ conflict])
  show "j < length (spec_effects ops)" using ij by (simp add: spec_effects_def)
  show "(p, k) \<in> og_edges G" if "k < length (spec_effects ops)" "p \<in> set (block_preds (spec_effects ops) ! k)" for k p
    using built_edges [OF build, of k p] that by (simp add: spec_effects_def)
qed

text \<open>
  C7: the graph orders nothing else. Every predecessor edge goes from an
  earlier operation to a later one, and either their effects conflict or the later one takes an
  output of the earlier one as an input, so the scheduler is free to reorder the rest.
\<close>

theorem effect_order_minimal:
  assumes build: "build_graph_effectful n ops ends = Some G" and edge: "(p, q) \<in> og_edges G"
    and q: "q < length ops"
  shows "p < q \<and> (opt_conflict (spec_effects ops ! p) (spec_effects ops ! q) \<or>
    (\<exists>u v w. og_get_op G p = Some u \<and> og_get_op G q = Some v \<and>
             w \<in> set (ov_outputs u) \<and> w \<in> set (ov_inputs v)))"
  using built_edges [OF build q, of p] edge block_preds_sound [of q "spec_effects ops" p] q
  by (auto simp: spec_effects_def)

text \<open>A block with a storage write, an independent read of the balance, and another storage write.\<close>

definition sample_block :: "effect_spec list" where
  "sample_block = [(Normal 0, Some EFF_persistent_write, [0], 0), (Normal 1, Some EFF_accounts_read, [], 1),
     (Normal 2, Some EFF_persistent_write, [1], 0)]"

lemma sample_block_built: "\<exists>G. build_graph_effectful 2 sample_block [] = Some G"
  unfolding build_graph_effectful_eq
  by (rule gb_graph_returns [OF _ effect_specs_earlier])
    (simp_all add: sample_block_def effect_specs_def with_preds_def spec_effects_def
      block_preds_def idx_limit_def split: prod.split)

lemma sample_conflicts:
  "opt_conflict (spec_effects sample_block ! 0) (spec_effects sample_block ! 2)"
  "\<not> opt_conflict (spec_effects sample_block ! 0) (spec_effects sample_block ! 1)"
  by (simp_all add: sample_block_def spec_effects_def opt_conflict_def eff_conflict_def chan_conflict_def
      eff_ends_against_def effect_channels_def eff_contains_def eff_intersects_def effect_defs)

theorem effect_order_complete_witness:
  "\<exists>G. build_graph_effectful 2 sample_block [] = Some G \<and> (0, 2) \<in> (og_edges G)\<^sup>+"
proof -
  obtain G where "build_graph_effectful 2 sample_block [] = Some G" using sample_block_built by blast
  with effect_order_complete [OF this, of 0 2] sample_conflicts(1) show ?thesis
    by (auto simp: sample_block_def)
qed

theorem effect_order_minimal_witness:
  "\<exists>G. build_graph_effectful 2 sample_block [] = Some G \<and> (0, 1) \<notin> og_edges G"
proof -
  obtain G where G: "build_graph_effectful 2 sample_block [] = Some G" using sample_block_built by blast
  have "og_holds G 2 (spec_ops [] 2 (effect_specs sample_block)) []"
    by (rule gb_graph_holds [OF G [unfolded build_graph_effectful_eq] effect_specs_earlier])
  then obtain u where "og_get_op G 0 = Some u"
    "ov_outputs u = ao_outs (spec_ops [] 2 (effect_specs sample_block) ! 0)"
    unfolding og_holds_def by (force simp: sample_block_def)
  moreover have "ao_outs (spec_ops [] 2 (effect_specs sample_block) ! 0) = []"
    by (simp add: sample_block_def effect_specs_def with_preds_def spec_effects_def block_preds_def split: prod.split)
  ultimately show ?thesis
    using effect_order_minimal [OF G, of 0 1] sample_conflicts(2) G by (auto simp: sample_block_def)
qed

end
