(* ===== verification/Io_Groups.thy ===== *)
theory Io_Groups
  imports Cfg_Proofs
begin

text \<open>
  The groups of block boundaries (\<open>plankc/sir/crates/passes/src/analyses/cfg_in_out_bundling.rs\<close>):
  blocks with an edge between them have to agree on the layout of the stack at that edge, so the exit
  of a block and the entries of its successors get the same group. A group that is found to join
  another is propagated backwards by a work list. A work list that never gets empty is the value
  \<open>None\<close>, as a panic is.
\<close>

subsection \<open>The analysis\<close>

record io_groups =
  io_out :: "nat \<Rightarrow> nat option"
  io_in :: "nat \<Rightarrow> nat option"
  io_next :: nat

definition io_empty :: io_groups where
  "io_empty = \<lparr>io_out = (\<lambda>_. None), io_in = (\<lambda>_. None), io_next = 0\<rparr>"

text \<open>\<open>get_and_inc\<close>.\<close>

definition io_fresh :: "io_groups \<Rightarrow> (nat \<times> io_groups) option" where
  "io_fresh s = do { n \<leftarrow> idx_add (io_next s) 1; Some (io_next s, s\<lparr>io_next := n\<rparr>) }"

text \<open>The group of a successor; the work list has its top first.\<close>

definition io_set_in ::
    "nat list list \<Rightarrow> nat \<Rightarrow> nat \<Rightarrow> nat \<Rightarrow> nat list \<times> io_groups \<Rightarrow> (nat list \<times> io_groups) option" where
  "io_set_in preds bb grp succ = (\<lambda>(worklist, s).
     let prev = io_in s succ; s = s\<lparr>io_in := (io_in s)(succ \<mapsto> grp)\<rparr> in
     if prev = None \<or> prev = Some grp then Some (worklist, s)
     else do {
       ps \<leftarrow> preds_of preds succ;
       Some (rev (filter (\<lambda>p. p \<noteq> bb) ps) @ worklist, s)
     })"

definition io_visit ::
    "ir_program \<Rightarrow> nat list list \<Rightarrow> nat \<Rightarrow> nat list \<times> io_groups \<Rightarrow> (nat list \<times> io_groups) option" where
  "io_visit ir preds bb = (\<lambda>(worklist, s). do {
     succs \<leftarrow> bv_successors ir bb;
     (grp, s) \<leftarrow> (case find_map (io_in s) succs of Some g \<Rightarrow> Some (g, s) | None \<Rightarrow> io_fresh s);
     fold_opt (io_set_in preds bb grp) succs (worklist, s\<lparr>io_out := (io_out s)(bb \<mapsto> grp)\<rparr>)
   })"

partial_function (option) io_loop ::
    "ir_program \<Rightarrow> nat list list \<Rightarrow> nat list \<Rightarrow> io_groups \<Rightarrow> io_groups option" where
  "io_loop ir preds worklist s =
     (case worklist of
        [] \<Rightarrow> Some s
      | bb # worklist \<Rightarrow> do {
          (worklist, s) \<leftarrow> io_visit ir preds bb (worklist, s);
          io_loop ir preds worklist s
        })"

definition io_set_entry :: "ir_program \<Rightarrow> nat \<Rightarrow> io_groups \<Rightarrow> io_groups option" where
  "io_set_entry ir f s = do {
     fn \<leftarrow> slice_get (ir_functions ir) f;
     (case io_in s (fn_entry fn) of
        Some _ \<Rightarrow> Some s
      | None \<Rightarrow> do {
          (grp, s) \<leftarrow> io_fresh s;
          Some (s\<lparr>io_in := (io_in s)(fn_entry fn \<mapsto> grp)\<rparr>)
        })
   }"

definition io_groups_new :: "ir_program \<Rightarrow> io_groups option" where
  "io_groups_new ir = do {
     rpo \<leftarrow> rpo_compute ir;
     reachable \<leftarrow> reachable_compute rpo;
     preds \<leftarrow> preds_compute ir reachable [];
     bs \<leftarrow> rp_blocks_rpo rpo;
     s \<leftarrow> fold_opt (\<lambda>bb. io_loop ir preds [bb]) bs io_empty;
     fold_opt (io_set_entry ir) (rp_functions rpo) s
   }"

definition get_out_group :: "io_groups \<Rightarrow> nat \<Rightarrow> nat option" where
  "get_out_group s bb = io_out s bb"

definition get_in_group :: "io_groups \<Rightarrow> nat \<Rightarrow> nat option" where
  "get_in_group s bb = io_in s bb"

definition total_groups :: "io_groups \<Rightarrow> nat" where
  "total_groups s = io_next s"

definition iter_groups :: "io_groups \<Rightarrow> nat list" where
  "iter_groups s = [0..<io_next s]"

subsection \<open>Blocks that have to agree\<close>

definition shares_target :: "ir_program \<Rightarrow> nat \<Rightarrow> nat \<Rightarrow> bool" where
  "shares_target ir a b \<longleftrightarrow> live_block ir a \<and> live_block ir b \<and> set (succs_of ir a) \<inter> set (succs_of ir b) \<noteq> {}"

definition linked :: "ir_program \<Rightarrow> nat \<Rightarrow> nat \<Rightarrow> bool" where
  "linked ir = (shares_target ir)\<^sup>*\<^sup>*"

text \<open>
  Of the different blocks that go to the same block, at most one goes elsewhere too. With the
  critical edges split, all of them go nowhere else.
\<close>

definition one_brancher :: "ir_program \<Rightarrow> bool" where
  "one_brancher ir \<longleftrightarrow> (\<forall>a b t. live_block ir a \<longrightarrow> live_block ir b \<longrightarrow> a \<noteq> b \<longrightarrow>
     t \<in> set (succs_of ir a) \<longrightarrow> t \<in> set (succs_of ir b) \<longrightarrow> set (succs_of ir a) = {t} \<or> set (succs_of ir b) = {t})"

lemma linked_sym: "linked ir a b \<Longrightarrow> linked ir b a"
proof -
  have "symp (shares_target ir)" by (auto simp: symp_def shares_target_def)
  then show "linked ir a b \<Longrightarrow> linked ir b a" unfolding linked_def by (metis symp_rtranclp sympD)
qed

lemma linked_trans: "linked ir a b \<Longrightarrow> linked ir b c \<Longrightarrow> linked ir a c"
  unfolding linked_def by (rule rtranclp_trans)

lemma linked_step:
  "live_block ir a \<Longrightarrow> live_block ir b \<Longrightarrow> t \<in> set (succs_of ir a) \<Longrightarrow> t \<in> set (succs_of ir b) \<Longrightarrow> linked ir a b"
  unfolding linked_def by (rule r_into_rtranclp) (auto simp: shares_target_def)

text \<open>The predecessor lists hold exactly the live predecessors.\<close>

definition preds_right :: "ir_program \<Rightarrow> nat list list \<Rightarrow> bool" where
  "preds_right ir preds \<longleftrightarrow> length preds = length (ir_blocks ir) \<and>
     (\<forall>t<length preds. set (preds ! t) = {b. live_block ir b \<and> t \<in> set (succs_of ir b)})"

lemma preds_computed:
  assumes ix: "ir_indexed ir"
  shows "\<exists>preds. preds_compute ir {b. live_block ir b} old = Some preds \<and> preds_right ir preds"
proof -
  obtain preds where p: "preds_compute ir {b. live_block ir b} old = Some preds" "length preds = length (ir_blocks ir)"
    "\<forall>t<length (ir_blocks ir). \<forall>b. count_list (preds ! t) b =
       (if b \<in> {b. live_block ir b} \<and> b < length (ir_blocks ir) then count_list (succs_of ir b) t else 0)"
    using predecessors_exact [OF ix] by blast
  have "set (preds ! t) = {b. live_block ir b \<and> t \<in> set (succs_of ir b)}" if "t < length preds" for t
  proof (rule set_eqI)
    fix b
    have c: "x \<in> set xs \<longleftrightarrow> count_list xs x \<noteq> 0" for x and xs :: "nat list" by (simp add: count_list_0_iff)
    have "b \<in> set (preds ! t) \<longleftrightarrow> count_list (preds ! t) b \<noteq> 0" by (rule c)
    also have "\<dots> \<longleftrightarrow> live_block ir b \<and> t \<in> set (succs_of ir b)"
      unfolding c [of t] using p(2,3) that live_block_in_range [OF ix, of b] by auto
    finally show "b \<in> set (preds ! t) \<longleftrightarrow> b \<in> {b. live_block ir b \<and> t \<in> set (succs_of ir b)}" by simp
  qed
  with p show ?thesis by (auto simp: preds_right_def)
qed

subsection \<open>One block\<close>

text \<open>The blocks to visit again: other predecessors of a successor whose group changes.\<close>

definition io_again :: "ir_program \<Rightarrow> (nat \<Rightarrow> nat option) \<Rightarrow> nat \<Rightarrow> nat \<Rightarrow> nat set" where
  "io_again ir old bb grp = {p. live_block ir p \<and> p \<noteq> bb \<and>
     (\<exists>t\<in>set (succs_of ir bb). t \<in> set (succs_of ir p) \<and> (\<exists>h. old t = Some h \<and> h \<noteq> grp))}"

lemma io_set_in_fold:
  assumes pr: "preds_right ir preds"
  shows "set ts \<subseteq> {..<length (ir_blocks ir)} \<Longrightarrow>
    \<exists>again. fold_opt (io_set_in preds bb grp) ts (worklist, s) =
        Some (again @ worklist, s\<lparr>io_in := (\<lambda>t. if t \<in> set ts then Some grp else io_in s t)\<rparr>) \<and>
      set again = {p. live_block ir p \<and> p \<noteq> bb \<and>
        (\<exists>t\<in>set ts. t \<in> set (succs_of ir p) \<and> (\<exists>h. io_in s t = Some h \<and> h \<noteq> grp))}"
proof (induction ts arbitrary: worklist s)
  case Nil
  have "s\<lparr>io_in := io_in s\<rparr> = s" by simp
  then show ?case by simp
next
  case (Cons t ts)
  let ?s = "s\<lparr>io_in := (io_in s)(t \<mapsto> grp)\<rparr>"
  from Cons.prems have t: "t < length (ir_blocks ir)" and ts: "set ts \<subseteq> {..<length (ir_blocks ir)}" by auto
  have eq: "?s\<lparr>io_in := (\<lambda>u. if u \<in> set ts then Some grp else io_in ?s u)\<rparr> =
      s\<lparr>io_in := (\<lambda>u. if u \<in> set (t # ts) then Some grp else io_in s u)\<rparr>"
    by (simp add: fun_eq_iff cong: if_cong)
  show ?case
  proof (cases "io_in s t = None \<or> io_in s t = Some grp")
    case True
    then have "io_set_in preds bb grp t (worklist, s) = Some (worklist, ?s)" by (simp add: io_set_in_def Let_def)
    moreover obtain again where a: "fold_opt (io_set_in preds bb grp) ts (worklist, ?s) =
        Some (again @ worklist, ?s\<lparr>io_in := (\<lambda>u. if u \<in> set ts then Some grp else io_in ?s u)\<rparr>)"
      "set again = {p. live_block ir p \<and> p \<noteq> bb \<and>
        (\<exists>u\<in>set ts. u \<in> set (succs_of ir p) \<and> (\<exists>h. io_in ?s u = Some h \<and> h \<noteq> grp))}"
      using Cons.IH [OF ts] by blast
    moreover have "set again = {p. live_block ir p \<and> p \<noteq> bb \<and>
        (\<exists>u\<in>set (t # ts). u \<in> set (succs_of ir p) \<and> (\<exists>h. io_in s u = Some h \<and> h \<noteq> grp))}"
    proof -
      have "(\<exists>h. io_in ?s u = Some h \<and> h \<noteq> grp) = (\<exists>h. io_in s u = Some h \<and> h \<noteq> grp)" for u using True by auto
      then show ?thesis unfolding a(2) using True by auto
    qed
    ultimately show ?thesis unfolding eq by (intro exI [of _ again]) simp
  next
    case False
    then obtain h where h: "io_in s t = Some h" "h \<noteq> grp" by auto
    let ?now = "rev (filter (\<lambda>p. p \<noteq> bb) (preds ! t))"
    have "io_set_in preds bb grp t (worklist, s) = Some (?now @ worklist, ?s)"
      using h t pr by (simp add: io_set_in_def Let_def preds_of_def preds_right_def)
    moreover obtain again where a: "fold_opt (io_set_in preds bb grp) ts (?now @ worklist, ?s) =
        Some (again @ ?now @ worklist, ?s\<lparr>io_in := (\<lambda>u. if u \<in> set ts then Some grp else io_in ?s u)\<rparr>)"
      "set again = {p. live_block ir p \<and> p \<noteq> bb \<and>
        (\<exists>u\<in>set ts. u \<in> set (succs_of ir p) \<and> (\<exists>h. io_in ?s u = Some h \<and> h \<noteq> grp))}"
      using Cons.IH [OF ts] by blast
    moreover have "set (again @ ?now) = {p. live_block ir p \<and> p \<noteq> bb \<and>
        (\<exists>u\<in>set (t # ts). u \<in> set (succs_of ir p) \<and> (\<exists>h. io_in s u = Some h \<and> h \<noteq> grp))}"
    proof -
      have "set ?now = {p. live_block ir p \<and> p \<noteq> bb \<and> t \<in> set (succs_of ir p)}"
        using pr t by (auto simp: preds_right_def)
      with a(2) h show ?thesis by (auto split: if_splits)
    qed
    ultimately show ?thesis unfolding eq by (intro exI [of _ "again @ ?now"]) simp
  qed
qed

lemma io_visit_result:
  assumes ix: "ir_indexed ir" and pr: "preds_right ir preds" and bb: "bb < length (ir_blocks ir)"
    and grp: "(case find_map (io_in s) (succs_of ir bb) of Some g \<Rightarrow> Some (g, s) | None \<Rightarrow> io_fresh s) = Some (grp, s1)"
    and same: "io_in s1 = io_in s"
  shows "\<exists>again. io_visit ir preds bb (worklist, s) = Some (again @ worklist,
      s1\<lparr>io_out := (io_out s1)(bb \<mapsto> grp), io_in := (\<lambda>t. if t \<in> set (succs_of ir bb) then Some grp else io_in s t)\<rparr>) \<and>
    set again = io_again ir (io_in s) bb grp"
proof -
  from io_set_in_fold [OF pr ir_indexed_succs(2) [OF ix bb], of bb grp worklist "s1\<lparr>io_out := (io_out s1)(bb \<mapsto> grp)\<rparr>"]
  show ?thesis using ir_indexed_succs(1) [OF ix bb] grp same by (simp add: io_visit_def io_again_def cong: if_cong)
qed

lemma find_map_same: "xs \<noteq> [] \<Longrightarrow> \<forall>x\<in>set xs. f x = Some y \<Longrightarrow> find_map f xs = Some y"
  by (cases xs) simp_all

text \<open>Blocks with one successor, whose group is known, only get that group.\<close>

lemma io_loop_settled:
  assumes ix: "ir_indexed ir" and pr: "preds_right ir preds"
  shows "\<forall>p\<in>set wl. live_block ir p \<and> (\<exists>t. set (succs_of ir p) = {t} \<and> io_in s t = Some grp) \<Longrightarrow>
    io_loop ir preds wl s = Some (s\<lparr>io_out := (\<lambda>x. if x \<in> set wl then Some grp else io_out s x)\<rparr>)"
proof (induction wl arbitrary: s)
  case Nil
  then show ?case by (subst io_loop.simps) simp
next
  case (Cons p wl)
  let ?s = "s\<lparr>io_out := (io_out s)(p \<mapsto> grp)\<rparr>"
  from Cons.prems obtain t where p: "live_block ir p" "set (succs_of ir p) = {t}" "io_in s t = Some grp" by auto
  then have "find_map (io_in s) (succs_of ir p) = Some grp" by (intro find_map_same) auto
  then have g: "(case find_map (io_in s) (succs_of ir p) of Some g \<Rightarrow> Some (g, s) | None \<Rightarrow> io_fresh s) = Some (grp, s)"
    by simp
  have none: "io_again ir (io_in s) p grp = {}" using p by (auto simp: io_again_def)
  have "(\<lambda>u. if u \<in> set (succs_of ir p) then Some grp else io_in s u) = io_in s" using p by auto
  with io_visit_result [OF ix pr live_block_in_range [OF ix p(1)] g refl, of wl] none
  have v: "io_visit ir preds p (wl, s) = Some (wl, ?s)" by auto
  have "io_loop ir preds (p # wl) s = io_loop ir preds wl ?s" by (subst io_loop.simps) (simp add: v)
  also have "\<dots> = Some (?s\<lparr>io_out := (\<lambda>x. if x \<in> set wl then Some grp else io_out ?s x)\<rparr>)"
    using Cons.prems by (intro Cons.IH) simp
  also have "?s\<lparr>io_out := (\<lambda>x. if x \<in> set wl then Some grp else io_out ?s x)\<rparr> =
      s\<lparr>io_out := (\<lambda>x. if x \<in> set (p # wl) then Some grp else io_out s x)\<rparr>" by (simp add: fun_eq_iff)
  finally show ?case .
qed

definition io_inv :: "ir_program \<Rightarrow> nat set \<Rightarrow> io_groups \<Rightarrow> bool" where
  "io_inv ir D s \<longleftrightarrow> D \<subseteq> dom (io_out s) \<and> io_next s \<le> card D \<and>
     (\<forall>x g. io_out s x = Some g \<longrightarrow> live_block ir x \<and> g < io_next s \<and> (\<forall>t\<in>set (succs_of ir x). io_in s t = Some g)) \<and>
     (\<forall>t g. io_in s t = Some g \<longrightarrow> (\<exists>x. io_out s x = Some g \<and> t \<in> set (succs_of ir x))) \<and>
     (\<forall>x y g. io_out s x = Some g \<longrightarrow> io_out s y = Some g \<longrightarrow> linked ir x y)"

lemma io_choose:
  assumes inv: "io_inv ir D s" and bb: "live_block ir bb" "bb \<notin> D" and fin: "finite D" and room: "card D + 1 < idx_limit"
  obtains grp s1 where
    "(case find_map (io_in s) (succs_of ir bb) of Some g \<Rightarrow> Some (g, s) | None \<Rightarrow> io_fresh s) = Some (grp, s1)"
    "io_in s1 = io_in s" "io_out s1 = io_out s" "io_next s \<le> io_next s1" "io_next s1 \<le> card (insert bb D)" "grp < io_next s1"
    "\<forall>x. io_out s x = Some grp \<longrightarrow> linked ir bb x"
    "\<forall>t h. set (succs_of ir bb) = {t} \<longrightarrow> io_in s t = Some h \<longrightarrow> h = grp"
proof (cases "find_map (io_in s) (succs_of ir bb)")
  case None
  note I = inv [unfolded io_inv_def]
  have fresh: "io_fresh s = Some (io_next s, s\<lparr>io_next := io_next s + 1\<rparr>)" using I room by (simp add: io_fresh_def)
  show thesis
  proof (rule that)
    show "(case find_map (io_in s) (succs_of ir bb) of Some g \<Rightarrow> Some (g, s) | None \<Rightarrow> io_fresh s) =
      Some (io_next s, s\<lparr>io_next := io_next s + 1\<rparr>)" by (simp only: None option.case fresh)
    show "\<forall>x. io_out s x = Some (io_next s) \<longrightarrow> linked ir bb x" using I by blast
    show "\<forall>t h. set (succs_of ir bb) = {t} \<longrightarrow> io_in s t = Some h \<longrightarrow> h = io_next s"
      using None by (auto simp: find_map_None)
  qed (use I bb(2) fin in simp_all)
next
  case (Some g)
  note I = inv [unfolded io_inv_def]
  from find_map_SomeD [OF Some] obtain t0 where t0: "t0 \<in> set (succs_of ir bb)" "io_in s t0 = Some g" by blast
  with I obtain y where y: "io_out s y = Some g" "t0 \<in> set (succs_of ir y)" by blast
  then have ly: "live_block ir y" "g < io_next s" using I by blast+
  have link: "linked ir bb y" by (rule linked_step [OF bb(1) ly(1) t0(1) y(2)])
  show thesis
  proof (rule that)
    show "(case find_map (io_in s) (succs_of ir bb) of Some g \<Rightarrow> Some (g, s) | None \<Rightarrow> io_fresh s) = Some (g, s)"
      using Some by simp
    show "\<forall>x. io_out s x = Some g \<longrightarrow> linked ir bb x" using linked_trans [OF link] I y(1) by blast
    show "\<forall>t h. set (succs_of ir bb) = {t} \<longrightarrow> io_in s t = Some h \<longrightarrow> h = g" using t0 by auto
    show "io_next s \<le> card (insert bb D)" using I bb(2) fin by simp
  qed (use ly in simp_all)
qed

lemma io_loop_block:
  assumes ix: "ir_indexed ir" and pr: "preds_right ir preds" and one: "one_brancher ir"
    and inv: "io_inv ir D s" and bb: "live_block ir bb" "bb \<notin> D" and fin: "finite D" and room: "card D + 1 < idx_limit"
  shows "\<exists>s'. io_loop ir preds [bb] s = Some s' \<and> io_inv ir (insert bb D) s'"
proof -
  note I = inv [unfolded io_inv_def]
  let ?succs = "set (succs_of ir bb)"
  obtain grp s1 where g: "(case find_map (io_in s) (succs_of ir bb) of Some g \<Rightarrow> Some (g, s) | None \<Rightarrow> io_fresh s) = Some (grp, s1)"
    and s1: "io_in s1 = io_in s" "io_out s1 = io_out s" "io_next s \<le> io_next s1" "io_next s1 \<le> card (insert bb D)" "grp < io_next s1"
    and found: "\<forall>x. io_out s x = Some grp \<longrightarrow> linked ir bb x"
    and single: "\<forall>t h. ?succs = {t} \<longrightarrow> io_in s t = Some h \<longrightarrow> h = grp"
    by (rule io_choose [OF inv bb fin room])
  let ?again = "io_again ir (io_in s) bb grp"
  let ?s = "s1\<lparr>io_out := (io_out s1)(bb \<mapsto> grp), io_in := (\<lambda>t. if t \<in> ?succs then Some grp else io_in s t)\<rparr>"
  obtain again where v: "io_visit ir preds bb ([], s) = Some (again, ?s)" "set again = ?again"
    using io_visit_result [OF ix pr live_block_in_range [OF ix bb(1)] g s1(1), of "[]"] by auto
  have again: "live_block ir p \<and> (\<exists>t. set (succs_of ir p) = {t} \<and> t \<in> ?succs)" if "p \<in> ?again" for p
  proof -
    from that obtain t h where p: "live_block ir p" "p \<noteq> bb" "t \<in> ?succs" "t \<in> set (succs_of ir p)" "io_in s t = Some h" "h \<noteq> grp"
      by (auto simp: io_again_def)
    from one p bb(1) have "set (succs_of ir p) = {t} \<or> ?succs = {t}" unfolding one_brancher_def by blast
    with single p show ?thesis by blast
  qed
  have settled: "\<forall>p\<in>set again. live_block ir p \<and> (\<exists>t. set (succs_of ir p) = {t} \<and> io_in ?s t = Some grp)"
    using again unfolding v(2) by fastforce
  let ?t = "?s\<lparr>io_out := (\<lambda>x. if x \<in> set again then Some grp else io_out ?s x)\<rparr>"
  have run: "io_loop ir preds [bb] s = Some ?t"
    using io_loop_settled [OF ix pr settled] by (subst io_loop.simps) (simp add: v(1))
  have out: "io_out ?t x = (if x = bb \<or> x \<in> ?again then Some grp else io_out s x)" for x
    using v(2) s1(2) by simp
  have inn: "io_in ?t t = (if t \<in> ?succs then Some grp else io_in s t)" for t by simp
  have next': "io_next ?t = io_next s1" by simp
  have edges: "live_block ir x \<and> g < io_next s1 \<and> (\<forall>t\<in>set (succs_of ir x). io_in ?t t = Some g)"
    if x: "io_out ?t x = Some g" for x g
  proof (cases "x = bb \<or> x \<in> ?again")
    case True
    with x out have "g = grp" by simp
    moreover have "set (succs_of ir x) \<subseteq> ?succs \<and> live_block ir x" using True
    proof
      assume "x \<in> ?again"
      with again show ?thesis by fastforce
    qed (use bb(1) in simp)
    ultimately show ?thesis using s1(5) by auto
  next
    case False
    with x out have old: "io_out s x = Some g" by simp
    then have o: "live_block ir x" "g < io_next s" "\<forall>t\<in>set (succs_of ir x). io_in s t = Some g" using I by blast+
    have "g = grp" if "t \<in> set (succs_of ir x)" "t \<in> ?succs" for t
      using that o False unfolding io_again_def by blast
    with o s1(3) show ?thesis by auto
  qed
  have from_edge: "\<exists>x. io_out ?t x = Some g \<and> t \<in> set (succs_of ir x)" if t: "io_in ?t t = Some g" for t g
  proof (cases "t \<in> ?succs")
    case True
    with t out [of bb] show ?thesis by auto
  next
    case False
    with t have "io_in s t = Some g" by simp
    with I obtain x where x: "io_out s x = Some g" "t \<in> set (succs_of ir x)" by blast
    have "x \<noteq> bb" using False x(2) by blast
    moreover have "x \<notin> ?again"
    proof
      assume "x \<in> ?again"
      from again [OF this] obtain u where "set (succs_of ir x) = {u}" "u \<in> ?succs" by blast
      with False x(2) show False by simp
    qed
    ultimately have "io_out ?t x = Some g" using x(1) out [of x] by simp
    with x(2) show ?thesis by blast
  qed
  have to_bb: "linked ir bb x" if "io_out ?t x = Some grp" for x
  proof (cases "x = bb \<or> x \<in> ?again")
    case True
    then show ?thesis
    proof
      assume "x \<in> ?again"
      then obtain t where "live_block ir x" "t \<in> ?succs" "t \<in> set (succs_of ir x)" unfolding io_again_def by blast
      then show ?thesis using linked_step [OF bb(1)] by blast
    qed (simp add: linked_def)
  next
    case False
    with that out [of x] have "io_out s x = Some grp" by simp
    with found show ?thesis by blast
  qed
  have links: "linked ir x y" if "io_out ?t x = Some g" "io_out ?t y = Some g" for x y g
  proof (cases "g = grp")
    case True
    with that have "linked ir bb x" "linked ir bb y" by (simp_all only: to_bb)
    then show ?thesis using linked_trans [OF linked_sym] by blast
  next
    case False
    with that out have "io_out s x = Some g" "io_out s y = Some g" by (auto split: if_splits)
    then show ?thesis using I by blast
  qed
  have dom: "insert bb D \<subseteq> dom (io_out ?t)" using I out by (auto simp: dom_def)
  have "\<forall>x g. io_out ?t x = Some g \<longrightarrow> live_block ir x \<and> g < io_next ?t \<and> (\<forall>t\<in>set (succs_of ir x). io_in ?t t = Some g)"
    unfolding next' by (intro allI impI) (rule edges)
  moreover have "\<forall>t g. io_in ?t t = Some g \<longrightarrow> (\<exists>x. io_out ?t x = Some g \<and> t \<in> set (succs_of ir x))"
    by (intro allI impI) (rule from_edge)
  moreover have "\<forall>x y g. io_out ?t x = Some g \<longrightarrow> io_out ?t y = Some g \<longrightarrow> linked ir x y"
    by (intro allI impI) (rule links)
  moreover have "io_next ?t \<le> card (insert bb D)" using s1(4) by simp
  ultimately have "io_inv ir (insert bb D) ?t" unfolding io_inv_def by (intro conjI dom)
  with run show ?thesis by blast
qed

subsection \<open>The whole program\<close>

lemma io_blocks:
  assumes ix: "ir_indexed ir" and pr: "preds_right ir preds" and one: "one_brancher ir"
  shows "io_inv ir D s \<Longrightarrow> finite D \<Longrightarrow> distinct bs \<Longrightarrow> set bs \<inter> D = {} \<Longrightarrow> set bs \<subseteq> {b. live_block ir b} \<Longrightarrow>
    card D + length bs < idx_limit \<Longrightarrow>
    \<exists>s'. fold_opt (\<lambda>bb. io_loop ir preds [bb]) bs s = Some s' \<and> io_inv ir (D \<union> set bs) s'"
proof (induction bs arbitrary: D s)
  case (Cons b bs)
  then have b: "live_block ir b" "b \<notin> D" "card D + 1 < idx_limit" "card (insert b D) = Suc (card D)" by auto
  from io_loop_block [OF ix pr one Cons.prems(1) b(1,2) Cons.prems(2) b(3)] obtain s1 where
    s1: "io_loop ir preds [b] s = Some s1" "io_inv ir (insert b D) s1" by blast
  from Cons.IH [OF s1(2)] Cons.prems b(4) obtain s2 where
    "fold_opt (\<lambda>bb. io_loop ir preds [bb]) bs s1 = Some s2" "io_inv ir (insert b D \<union> set bs) s2" by auto
  with s1(1) show ?case by auto
qed simp

text \<open>The entries get new groups where they have none.\<close>

definition io_extends :: "io_groups \<Rightarrow> io_groups \<Rightarrow> bool" where
  "io_extends s s' \<longleftrightarrow> io_out s' = io_out s \<and> io_next s \<le> io_next s' \<and> io_in s \<subseteq>\<^sub>m io_in s' \<and>
     (\<forall>t g. io_in s' t = Some g \<longrightarrow> io_in s t = Some g \<or> io_next s \<le> g)"

lemma io_extends_trans: "io_extends s t \<Longrightarrow> io_extends t u \<Longrightarrow> io_extends s u"
  unfolding io_extends_def by (metis map_le_trans order_trans)

lemma io_set_entry_extends:
  assumes "f < length (ir_functions ir)" "io_next s + 1 < idx_limit"
  shows "\<exists>s'. io_set_entry ir f s = Some s' \<and> io_extends s s' \<and> io_in s' (entry_of ir f) \<noteq> None \<and> io_next s' \<le> io_next s + 1"
proof (cases "io_in s (entry_of ir f)")
  case (Some g)
  with assms show ?thesis by (simp add: io_set_entry_def entry_of_def io_extends_def)
next
  case None
  with assms show ?thesis
    by (auto simp: io_set_entry_def entry_of_def io_extends_def io_fresh_def map_le_def split: if_splits)
qed

lemma io_entries:
  "set fs \<subseteq> {..<length (ir_functions ir)} \<Longrightarrow> io_next s + length fs < idx_limit \<Longrightarrow>
    \<exists>s'. fold_opt (io_set_entry ir) fs s = Some s' \<and> io_extends s s' \<and> (\<forall>f\<in>set fs. io_in s' (entry_of ir f) \<noteq> None)"
proof (induction fs arbitrary: s)
  case Nil
  show ?case by (simp add: io_extends_def)
next
  case (Cons f fs)
  then obtain s1 where s1: "io_set_entry ir f s = Some s1" "io_extends s s1" "io_in s1 (entry_of ir f) \<noteq> None"
    "io_next s1 \<le> io_next s + 1" using io_set_entry_extends [of f ir s] by auto
  with Cons.IH [of s1] Cons.prems obtain s2 where s2: "fold_opt (io_set_entry ir) fs s1 = Some s2" "io_extends s1 s2"
    "\<forall>f\<in>set fs. io_in s2 (entry_of ir f) \<noteq> None" by auto
  have "io_in s2 (entry_of ir f) \<noteq> None" using s1(3) s2(2) unfolding io_extends_def map_le_def by (metis domIff)
  with s1(1) s2 io_extends_trans [OF s1(2) s2(2)] show ?case by auto
qed

lemma live_function_in_range:
  assumes ix: "ir_indexed ir" shows "live_function ir f \<Longrightarrow> f < length (ir_functions ir)"
  by (induction rule: live_function.induct) (use ix callees_in_range [OF ix] in \<open>auto simp: ir_indexed_def\<close>)

text \<open>
  C17: When no two blocks that go to the same block both go elsewhere too, the analysis
  ends and returns: exactly the live blocks have an exit group, every successor of a block has it as
  the group of its entry, two blocks have the same exit group only if a chain of common successors
  links them, every entry of a live function has a group, and a block whose entry is in the group
  of an exit is a successor of a block linked to it.
\<close>

theorem io_groups_exact:
  assumes ix: "ir_indexed ir" and one: "one_brancher ir"
    and room: "length (ir_blocks ir) + length (ir_functions ir) < idx_limit"
  shows "\<exists>s. io_groups_new ir = Some s \<and>
    (\<forall>b. get_out_group s b \<noteq> None \<longleftrightarrow> live_block ir b) \<and>
    (\<forall>b t. live_block ir b \<longrightarrow> t \<in> set (succs_of ir b) \<longrightarrow> get_in_group s t = get_out_group s b) \<and>
    (\<forall>a b. live_block ir a \<longrightarrow> live_block ir b \<longrightarrow> (get_out_group s a = get_out_group s b) = linked ir a b) \<and>
    (\<forall>f. live_function ir f \<longrightarrow> get_in_group s (entry_of ir f) \<noteq> None) \<and>
    (\<forall>t b. live_block ir b \<longrightarrow> get_in_group s t = get_out_group s b \<longrightarrow> (\<exists>a. linked ir a b \<and> t \<in> set (succs_of ir a)))"
proof -
  obtain rpo bs where rpo: "rpo_compute ir = Some rpo" "rp_blocks_rpo rpo = Some bs" "distinct (rp_functions rpo)"
    "set (rp_functions rpo) = {f. live_function ir f}" "distinct bs" "set bs = {b. live_block ir b}"
    "reachable_compute rpo = Some {b. live_block ir b}" using rpo_live_blocks [OF ix] by blast
  obtain preds where preds: "preds_compute ir {b. live_block ir b} [] = Some preds" "preds_right ir preds"
    using preds_computed [OF ix] by blast
  have nb: "length bs \<le> length (ir_blocks ir)"
    using distinct_card [OF rpo(5)] rpo(6) live_block_in_range [OF ix] card_mono [of "{..<length (ir_blocks ir)}" "set bs"] by auto
  have fr: "set (rp_functions rpo) \<subseteq> {..<length (ir_functions ir)}" using rpo(4) live_function_in_range [OF ix] by auto
  then have nf: "length (rp_functions rpo) \<le> length (ir_functions ir)"
    using distinct_card [OF rpo(3)] card_mono [of "{..<length (ir_functions ir)}" "set (rp_functions rpo)"] by auto
  have "io_inv ir {} io_empty" by (simp add: io_inv_def io_empty_def)
  from io_blocks [OF ix preds(2) one this, of bs] rpo(5,6) room nb obtain s1 where
    s1: "fold_opt (\<lambda>bb. io_loop ir preds [bb]) bs io_empty = Some s1" "io_inv ir {b. live_block ir b} s1" by auto
  note I = s1(2) [unfolded io_inv_def]
  have "card {b. live_block ir b} \<le> length (ir_blocks ir)" using distinct_card [OF rpo(5)] rpo(6) nb by simp
  with I nf room have "io_next s1 + length (rp_functions rpo) < idx_limit" by linarith
  from io_entries [OF fr this] obtain s where s: "fold_opt (io_set_entry ir) (rp_functions rpo) s1 = Some s"
    "io_extends s1 s" "\<forall>f\<in>set (rp_functions rpo). io_in s (entry_of ir f) \<noteq> None" by blast
  have new: "io_groups_new ir = Some s" using rpo preds(1) s1(1) s(1) by (simp add: io_groups_new_def)
  have out: "io_out s = io_out s1" using s(2) by (simp add: io_extends_def)
  have lower: "io_in s1 t = Some g" if "io_in s t = Some g" "io_out s1 b = Some g" for t b g
    using that s(2) I unfolding io_extends_def by (metis not_le)
  have upper: "io_in s t = Some g" if "io_in s1 t = Some g" for t g
    using that s(2) unfolding io_extends_def map_le_def by (metis domI)
  have dom: "io_out s1 b \<noteq> None \<longleftrightarrow> live_block ir b" for b using I by blast
  have edge: "io_in s t = io_out s1 b" if "live_block ir b" "t \<in> set (succs_of ir b)" for b t
    using that dom [of b] I upper by fastforce
  have group_eq: "(io_out s1 a = io_out s1 b) = linked ir a b" if l: "live_block ir a" "live_block ir b" for a b
  proof
    assume "io_out s1 a = io_out s1 b"
    with dom l I show "linked ir a b" by (metis not_None_eq)
  next
    assume "linked ir a b"
    then show "io_out s1 a = io_out s1 b" unfolding linked_def
    proof (induction rule: rtranclp_induct)
      case (step y z)
      then obtain t where "live_block ir y" "live_block ir z" "t \<in> set (succs_of ir y)" "t \<in> set (succs_of ir z)"
        by (auto simp: shares_target_def)
      with step.IH edge show ?case by metis
    qed simp
  qed
  have "\<exists>a. linked ir a b \<and> t \<in> set (succs_of ir a)" if l: "live_block ir b" and e: "io_in s t = io_out s1 b" for t b
  proof -
    from dom [of b] l obtain g where g: "io_out s1 b = Some g" by blast
    with e lower have "io_in s1 t = Some g" by simp
    with I obtain x where "io_out s1 x = Some g" "t \<in> set (succs_of ir x)" by blast
    with I g show ?thesis by blast
  qed
  with new out dom edge group_eq s(3) rpo(4) show ?thesis
    unfolding get_out_group_def get_in_group_def by (intro exI [of _ s]) simp
qed

text \<open>A branch whose two arms meet again: the arms share an exit group.\<close>

definition diamond_cfg :: ir_program where
  "diamond_cfg = ir_default\<lparr>
     ir_functions := [\<lparr>fn_entry = 0, fn_return_kind = rk_never, fn_source = None\<rparr>],
     ir_operations := [Operation OpStop UnitData],
     ir_blocks :=
       [\<lparr>bb_inputs = (0, 0), bb_outputs = (0, 0), bb_operations = (0, 0), bb_control =
           Branches \<lparr>br_condition = 0, br_non_zero_target = 1, br_zero_target = 2\<rparr>\<rparr>,
        \<lparr>bb_inputs = (0, 0), bb_outputs = (0, 0), bb_operations = (0, 0), bb_control = ContinuesTo 3\<rparr>,
        \<lparr>bb_inputs = (0, 0), bb_outputs = (0, 0), bb_operations = (0, 0), bb_control = ContinuesTo 3\<rparr>,
        \<lparr>bb_inputs = (0, 0), bb_outputs = (0, 0), bb_operations = (0, 1), bb_control = LastOpTerminates\<rparr>]\<rparr>"

lemmas diamond_defs = diamond_cfg_def ir_default_def root_functions_def op_callee_def

lemma diamond_succs:
  "succs_of diamond_cfg 0 = [2, 1]" "succs_of diamond_cfg 1 = [3]" "succs_of diamond_cfg 2 = [3]" "succs_of diamond_cfg 3 = []"
  by (simp_all add: succs_of_def bv_successors_def diamond_defs)

lemma diamond_indexed: "ir_indexed diamond_cfg"
proof -
  have "root_functions diamond_cfg \<subseteq> {..<length (ir_functions diamond_cfg)}"
    "\<forall>fn\<in>set (ir_functions diamond_cfg). fn_entry fn < length (ir_blocks diamond_cfg)"
    "\<forall>bb\<in>set (ir_blocks diamond_cfg).
       (\<forall>i\<in>set (span_indices (bb_operations bb)). i < length (ir_operations diamond_cfg) \<and>
          (\<forall>f. op_callee (ir_operations diamond_cfg ! i) = Some f \<longrightarrow> f < length (ir_functions diamond_cfg))) \<and>
       (\<exists>ts. ctl_outgoing (bb_control bb) diamond_cfg = Some ts \<and> (\<forall>t\<in>set ts. t < length (ir_blocks diamond_cfg)))"
    by (simp_all add: diamond_defs span_indices_def)
  then show ?thesis by (simp add: ir_indexed_def)
qed

theorem io_groups_exact_witness:
  "\<exists>s. io_groups_new diamond_cfg = Some s \<and> get_out_group s 1 = get_out_group s 2 \<and>
     get_in_group s 1 = get_in_group s 2 \<and> get_out_group s 1 \<noteq> None"
proof -
  have n: "length (ir_blocks diamond_cfg) = 4" "length (ir_functions diamond_cfg) = 1" by (simp_all add: diamond_defs)
  note succs = diamond_succs
  have b: "b \<in> {0, 1, 2, 3}" if "live_block diamond_cfg b" for b
    using live_block_in_range [OF diamond_indexed that] n by auto
  have "one_brancher diamond_cfg" unfolding one_brancher_def
  proof (intro allI impI)
    fix x y t assume "live_block diamond_cfg x" "live_block diamond_cfg y" "x \<noteq> y"
      "t \<in> set (succs_of diamond_cfg x)" "t \<in> set (succs_of diamond_cfg y)"
    with b [of x] b [of y] succs show "set (succs_of diamond_cfg x) = {t} \<or> set (succs_of diamond_cfg y) = {t}" by auto
  qed
  from io_groups_exact [OF diamond_indexed this] n obtain s where s: "io_groups_new diamond_cfg = Some s"
    "\<And>b. get_out_group s b \<noteq> None \<longleftrightarrow> live_block diamond_cfg b"
    "\<And>b t. live_block diamond_cfg b \<Longrightarrow> t \<in> set (succs_of diamond_cfg b) \<Longrightarrow> get_in_group s t = get_out_group s b"
    by (auto simp: idx_limit_def)
  have f: "live_function diamond_cfg 0" by (rule live_root) (simp add: diamond_defs)
  have "block_reach diamond_cfg 0 1" "block_reach diamond_cfg 0 2"
    using reach_step [OF reach_refl [of diamond_cfg 0]] succs(1) by simp_all
  with f reach_refl [of diamond_cfg 0] have l0: "live_block diamond_cfg 0" and l1: "live_block diamond_cfg 1" and l2: "live_block diamond_cfg 2"
    unfolding live_block_def entry_of_def by (auto simp: diamond_cfg_def)
  have "get_in_group s 1 = get_out_group s 0" "get_in_group s 2 = get_out_group s 0"
    "get_in_group s 3 = get_out_group s 1" "get_in_group s 3 = get_out_group s 2"
    using s(3) [OF l0, of 1] s(3) [OF l0, of 2] s(3) [OF l1, of 3] s(3) [OF l2, of 3] succs by simp_all
  with s(1) s(2) [of 1] l1 show ?thesis by auto
qed

end
