(* ===== verification/Legalizer.thy ===== *)
theory Legalizer
  imports Dominators "HOL-Library.Product_Lexorder"
begin

text \<open>
  The legalizer (\<open>plankc/sir/crates/passes/src/analyses/legalizer.rs\<close>), the check that decides whether
  a program of the intermediate representation may be compiled. A check returns
  \<open>Result\<open>&lt;\<close>(), LegalizerError\<open>&gt;\<close>\<close>: \<open>Some (Inl e)\<close> is an error value, \<open>Some (Inr x)\<close> success and \<open>None\<close> a panic
  (or a recursion deeper than the fuel, which bounds its depth).
\<close>

subsection \<open>Errors\<close>

datatype span_source =
    SrcInputs nat
  | SrcOutputs nat
  | SrcOperations nat
  | SrcOpInputs nat nat
  | SrcOpOutputs nat nat

datatype use_kind = UseOperation nat | UseControl | UseBlockOutput nat

datatype legalizer_error =
    InitHasInputs nat
  | RuntimeHasInputs nat
  | InitMayReturn
  | RuntimeMayReturn
  | TerminatorNotLast nat nat
  | TerminatorControlMismatch nat nat
  | MissingTerminator nat
  | InvalidLargeConstId nat
  | InvalidSegmentId nat
  | InvalidStaticAllocId nat
  | OverlappingSpans span_source span_source
  | SpanOutOfBounds span_source
  | SharedBasicBlock nat nat nat
  | IncompatibleEdge nat nat
  | WrongOutputCount nat nat nat
  | InternalReturnInNeverFunction nat nat
  | InternalCallToNever nat nat
  | NeverCallReturns nat nat
  | WrongCallInputCount nat nat nat
  | RecursiveCall nat nat
  | InvalidLocalId nat
  | DoubleDefinition nat
  | InvalidFunctionId nat
  | InvalidBasicBlockId nat
  | LocalNotInScope nat nat use_kind

type_synonym 'a checked = "(legalizer_error + 'a) option"

definition and_then :: "('e + 'a) option \<Rightarrow> ('a \<Rightarrow> ('e + 'b) option) \<Rightarrow> ('e + 'b) option" where
  "and_then m k = do {
     r \<leftarrow> m;
     (case r of Inl e \<Rightarrow> Some (Inl e) | Inr x \<Rightarrow> k x)
   }"

fun each_ok :: "('a \<Rightarrow> 's \<Rightarrow> ('e + 's) option) \<Rightarrow> 'a list \<Rightarrow> 's \<Rightarrow> ('e + 's) option" where
  "each_ok f [] s = Some (Inr s)"
| "each_ok f (x # xs) s = and_then (f x s) (each_ok f xs)"

abbreviation checked_ok :: "'a \<Rightarrow> ('e + 'a) option" where
  "checked_ok x \<equiv> Some (Inr x)"

abbreviation checked_err :: "'e \<Rightarrow> ('e + 'a) option" where
  "checked_err e \<equiv> Some (Inl e)"

subsection \<open>State\<close>

record tracked_span =
  tk_start :: nat
  tk_end :: nat
  tk_source :: span_source

record legalizer =
  lg_locals_spans :: "tracked_span list"
  lg_operations_spans :: "tracked_span list"
  lg_block_owner :: "nat option list"
  lg_call_edges :: "(nat \<times> nat) list"

definition track :: "span \<Rightarrow> span_source \<Rightarrow> tracked_span" where
  "track s src = \<lparr>tk_start = fst s, tk_end = snd s, tk_source = src\<rparr>"

definition track_locals :: "span \<Rightarrow> span_source \<Rightarrow> legalizer \<Rightarrow> legalizer" where
  "track_locals s src lg = lg\<lparr>lg_locals_spans := lg_locals_spans lg @ [track s src]\<rparr>"

definition track_operations :: "span \<Rightarrow> span_source \<Rightarrow> legalizer \<Rightarrow> legalizer" where
  "track_operations s src lg = lg\<lparr>lg_operations_spans := lg_operations_spans lg @ [track s src]\<rparr>"

subsection \<open>Entry points\<close>

text \<open>The same checks for the two entry points, with the errors of each.\<close>

definition validate_entry ::
    "ir_program \<Rightarrow> nat \<Rightarrow> legalizer_error \<Rightarrow> (nat \<Rightarrow> legalizer_error) \<Rightarrow> unit checked" where
  "validate_entry ir f may_return has_inputs =
     (if f \<ge> length (ir_functions ir) then checked_err (InvalidFunctionId f)
      else do {
        fn \<leftarrow> slice_get (ir_functions ir) f;
        if \<not> rk_is_never (fn_return_kind fn) then checked_err may_return
        else do {
          entry_bb \<leftarrow> slice_get (ir_blocks ir) (fn_entry fn);
          if \<not> span_is_empty (bb_inputs entry_bb) then do {
            n \<leftarrow> span_len (bb_inputs entry_bb);
            checked_err (has_inputs n)
          }
          else checked_ok ()
        }
      })"

definition validate_entry_points :: "ir_program \<Rightarrow> unit checked" where
  "validate_entry_points ir =
     and_then (validate_entry ir (ir_init_entry ir) InitMayReturn InitHasInputs) (\<lambda>_.
     (case ir_main_entry ir of
        None \<Rightarrow> checked_ok ()
      | Some main_entry \<Rightarrow> validate_entry ir main_entry RuntimeMayReturn RuntimeHasInputs))"

subsection \<open>Blocks\<close>

definition validate_basic_block_id :: "ir_program \<Rightarrow> nat \<Rightarrow> unit checked" where
  "validate_basic_block_id ir b =
     (if b \<ge> length (ir_blocks ir) then checked_err (InvalidBasicBlockId b) else checked_ok ())"

definition validate_block_terminators :: "ir_program \<Rightarrow> nat \<Rightarrow> basic_block \<Rightarrow> unit checked" where
  "validate_block_terminators ir b bb = do {
     missing \<leftarrow> (case bb_control bb of
         LastOpTerminates \<Rightarrow> do {
           ops \<leftarrow> read_span (ir_operations ir) (bb_operations bb);
           Some (ops = [] \<or> \<not> is_terminating (opn_kind (last ops)))
         }
       | _ \<Rightarrow> Some False);
     if missing then checked_err (MissingTerminator b)
     else each_ok (\<lambda>i _. do {
         op \<leftarrow> slice_get (ir_operations ir) i;
         if is_terminating (opn_kind op) then do {
           last_op \<leftarrow> idx_sub (snd (bb_operations bb)) 1;
           if i \<noteq> last_op then checked_err (TerminatorNotLast b i)
           else if bb_control bb \<noteq> LastOpTerminates then checked_err (TerminatorControlMismatch b i)
           else checked_ok ()
         }
         else checked_ok ()
       }) (span_indices (bb_operations bb)) ()
   }"

definition validate_control :: "ir_program \<Rightarrow> control \<Rightarrow> unit checked" where
  "validate_control ir ctl =
     (case ctl of
        Branches br \<Rightarrow>
          if br_condition br \<ge> ir_next_free_local ir then checked_err (InvalidLocalId (br_condition br))
          else and_then (validate_basic_block_id ir (br_non_zero_target br)) (\<lambda>_.
            validate_basic_block_id ir (br_zero_target br))
      | Switches sw \<Rightarrow>
          if sw_condition sw \<ge> ir_next_free_local ir then checked_err (InvalidLocalId (sw_condition sw))
          else and_then (case sw_fallback sw of
              None \<Rightarrow> checked_ok ()
            | Some fallback \<Rightarrow> validate_basic_block_id ir fallback) (\<lambda>_. do {
            cases \<leftarrow> slice_get (ir_cases ir) (sw_cases sw);
            targets \<leftarrow> cs_get_bb_ids cases ir;
            each_ok (\<lambda>target _. validate_basic_block_id ir target) targets ()
          })
      | ContinuesTo target \<Rightarrow> validate_basic_block_id ir target
      | LastOpTerminates \<Rightarrow> checked_ok ()
      | InternalReturn \<Rightarrow> checked_ok ())"

definition validate_op_data :: "ir_program \<Rightarrow> nat \<Rightarrow> op_data \<Rightarrow> unit checked" where
  "validate_op_data ir i data =
     (case data of
        SetLargeConstData _ c \<Rightarrow>
          if c \<ge> length (ir_large_consts ir) then checked_err (InvalidLargeConstId c) else checked_ok ()
      | SetDataOffsetData _ seg \<Rightarrow> do {
          found \<leftarrow> lol_get (ir_data_segments ir) seg;
          if found = None then checked_err (InvalidSegmentId seg) else checked_ok ()
        }
      | StaticAllocData _ _ a \<Rightarrow>
          if a \<ge> ir_next_static_alloc ir then checked_err (InvalidStaticAllocId a) else checked_ok ()
      | InternalCallData f _ _ \<Rightarrow>
          if f \<ge> length (ir_functions ir) then checked_err (InvalidFunctionId f)
          else if rk_is_never (fn_return_kind (ir_functions ir ! f)) then checked_err (InternalCallToNever i f)
          else checked_ok ()
      | InternalCallNeverData f _ \<Rightarrow>
          if f \<ge> length (ir_functions ir) then checked_err (InvalidFunctionId f)
          else if \<not> rk_is_never (fn_return_kind (ir_functions ir ! f)) then checked_err (NeverCallReturns i f)
          else checked_ok ()
      | _ \<Rightarrow> checked_ok ())"

definition validate_local_list :: "ir_program \<Rightarrow> nat list \<Rightarrow> unit checked" where
  "validate_local_list ir ls =
     each_ok (\<lambda>l _. if l \<ge> ir_next_free_local ir then checked_err (InvalidLocalId l) else checked_ok ()) ls ()"

definition validate_op_indices :: "ir_program \<Rightarrow> nat \<Rightarrow> nat \<Rightarrow> legalizer \<Rightarrow> legalizer checked" where
  "validate_op_indices ir b i lg = do {
     op \<leftarrow> slice_get (ir_operations ir) i;
     and_then (validate_op_data ir i (opn_data op)) (\<lambda>_. do {
       ins \<leftarrow> op_inputs op ir;
       outs \<leftarrow> op_outputs op ir;
       and_then (validate_local_list ir (ins @ outs)) (\<lambda>_. do {
         (input, output) \<leftarrow> op_allocated_spans op ir;
         let lg = (case input of None \<Rightarrow> lg | Some s \<Rightarrow> track_locals s (SrcOpInputs b i) lg);
         let lg = (case output of None \<Rightarrow> lg | Some s \<Rightarrow> track_locals s (SrcOpOutputs b i) lg);
         checked_ok lg
       })
     })
   }"

definition validate_block_indices :: "ir_program \<Rightarrow> nat \<Rightarrow> basic_block \<Rightarrow> legalizer \<Rightarrow> legalizer checked" where
  "validate_block_indices ir b bb lg =
     (let lg = (if span_is_empty (bb_inputs bb) then lg else track_locals (bb_inputs bb) (SrcInputs b) lg);
          lg = (if span_is_empty (bb_outputs bb) then lg else track_locals (bb_outputs bb) (SrcOutputs b) lg);
          lg = (if span_is_empty (bb_operations bb) then lg
                else track_operations (bb_operations bb) (SrcOperations b) lg)
      in and_then (validate_control ir (bb_control bb)) (\<lambda>_.
           each_ok (validate_op_indices ir b) (span_indices (bb_operations bb)) lg))"

fun adjacent_overlap :: "tracked_span list \<Rightarrow> (span_source \<times> span_source) option" where
  "adjacent_overlap (lhs # rhs # rest) =
     (if tk_start rhs < tk_end lhs then Some (tk_source lhs, tk_source rhs)
      else adjacent_overlap (rhs # rest))"
| "adjacent_overlap _ = None"

definition validate_spans :: "tracked_span list \<Rightarrow> nat \<Rightarrow> unit checked" where
  "validate_spans spans max_bound =
     (let spans = sort_key (\<lambda>s. (tk_start s, tk_end s)) spans
      in (case adjacent_overlap spans of
            Some (l, r) \<Rightarrow> checked_err (OverlappingSpans l r)
          | None \<Rightarrow>
              if spans \<noteq> [] \<and> max_bound < tk_end (last spans)
              then checked_err (SpanOutOfBounds (tk_source (last spans)))
              else checked_ok ()))"

definition validate_blocks :: "ir_program \<Rightarrow> legalizer \<Rightarrow> legalizer checked" where
  "validate_blocks ir lg =
     and_then (each_ok (\<lambda>(b, bb) lg.
         and_then (validate_block_terminators ir b bb) (\<lambda>_. validate_block_indices ir b bb lg))
       (zip [0..<length (ir_blocks ir)] (ir_blocks ir)) lg) (\<lambda>lg.
     and_then (validate_spans (lg_locals_spans lg) (length (ir_locals ir))) (\<lambda>_.
     and_then (validate_spans (lg_operations_spans lg) (length (ir_operations ir))) (\<lambda>_. checked_ok lg)))"

subsection \<open>Control flow and calls\<close>

definition validate_return :: "ir_program \<Rightarrow> nat \<Rightarrow> nat \<Rightarrow> basic_block \<Rightarrow> unit checked" where
  "validate_return ir f b bb =
     (if bb_control bb = InternalReturn then do {
        fn \<leftarrow> slice_get (ir_functions ir) f;
        (case rk_count (fn_return_kind fn) of
           None \<Rightarrow> checked_err (InternalReturnInNeverFunction f b)
         | Some expected \<Rightarrow> do {
             actual \<leftarrow> span_len (bb_outputs bb);
             if actual \<noteq> expected then checked_err (WrongOutputCount b expected actual) else checked_ok ()
           })
      }
      else checked_ok ())"

definition validate_call :: "ir_program \<Rightarrow> nat \<Rightarrow> nat \<Rightarrow> legalizer \<Rightarrow> legalizer checked" where
  "validate_call ir f i lg = do {
     op \<leftarrow> slice_get (ir_operations ir) i;
     call \<leftarrow> (case opn_data op of
         InternalCallData g a b \<Rightarrow> map_option (\<lambda>n. Some (g, n)) (span_len (icall_inputs_span a b))
       | InternalCallNeverData g s \<Rightarrow> map_option (\<lambda>n. Some (g, n)) (span_len s)
       | _ \<Rightarrow> Some None);
     (case call of
        None \<Rightarrow> checked_ok lg
      | Some (callee, actual_ins) \<Rightarrow> do {
          fn \<leftarrow> slice_get (ir_functions ir) callee;
          expected_ins \<leftarrow> fn_get_inputs fn (ir_blocks ir);
          if actual_ins \<noteq> expected_ins then checked_err (WrongCallInputCount i expected_ins actual_ins)
          else checked_ok (lg\<lparr>lg_call_edges := lg_call_edges lg @ [(f, callee)]\<rparr>)
        })
   }"

primrec validate_cfg_visit_block ::
    "nat \<Rightarrow> ir_program \<Rightarrow> nat \<Rightarrow> nat \<Rightarrow> nat set \<times> legalizer \<Rightarrow> (nat set \<times> legalizer) checked" where
  "validate_cfg_visit_block 0 ir f b s = None"
| "validate_cfg_visit_block (Suc n) ir f b s = (case s of (visited, lg) \<Rightarrow>
     if b \<in> visited then checked_ok (visited, lg)
     else do {
       let visited = insert b visited;
       bb \<leftarrow> slice_get (ir_blocks ir) b;
       and_then (validate_return ir f b bb) (\<lambda>_. do {
         owner \<leftarrow> slice_get (lg_block_owner lg) b;
         (case owner of
            Some g \<Rightarrow> checked_err (SharedBasicBlock b g f)
          | None \<Rightarrow> do {
              owners \<leftarrow> slice_set (lg_block_owner lg) b (Some f);
              let lg = lg\<lparr>lg_block_owner := owners\<rparr>;
              and_then (each_ok (validate_call ir f) (span_indices (bb_operations bb)) lg) (\<lambda>lg. do {
                succs \<leftarrow> ctl_outgoing (bb_control bb) ir;
                each_ok (\<lambda>succ s. do {
                  outs \<leftarrow> span_len (bb_outputs bb);
                  succ_bb \<leftarrow> slice_get (ir_blocks ir) succ;
                  ins \<leftarrow> span_len (bb_inputs succ_bb);
                  if outs \<noteq> ins then checked_err (IncompatibleEdge b succ)
                  else validate_cfg_visit_block n ir f succ s
                }) succs (visited, lg)
              })
            })
       })
     })"

datatype visit_state = Unvisited | InProgress | VisitDone

primrec detect_cycle ::
    "nat \<Rightarrow> nat list list \<Rightarrow> nat \<Rightarrow> visit_state list \<Rightarrow> visit_state list checked" where
  "detect_cycle 0 callees f state = None"
| "detect_cycle (Suc n) callees f state = do {
     state \<leftarrow> slice_set state f InProgress;
     gs \<leftarrow> slice_get callees f;
     and_then (each_ok (\<lambda>callee state. do {
         st \<leftarrow> slice_get state callee;
         if st = InProgress then checked_err (RecursiveCall f callee)
         else if st = Unvisited then detect_cycle n callees callee state
         else checked_ok state
       }) gs state) (\<lambda>state. do {
         state \<leftarrow> slice_set state f VisitDone;
         checked_ok state
       })
   }"

definition call_lists :: "ir_program \<Rightarrow> (nat \<times> nat) list \<Rightarrow> nat list list option" where
  "call_lists ir edges =
     fold_opt (\<lambda>(caller, callee) callees. do {
         cs \<leftarrow> slice_get callees caller;
         slice_set callees caller (cs @ [callee])
       }) edges (replicate (length (ir_functions ir)) [])"

definition validate_call_graph :: "ir_program \<Rightarrow> (nat \<times> nat) list \<Rightarrow> nat list \<Rightarrow> unit checked" where
  "validate_call_graph ir edges functions_rpo = do {
     callees \<leftarrow> call_lists ir edges;
     and_then (each_ok (\<lambda>f state. do {
         st \<leftarrow> slice_get state f;
         if st = Unvisited then detect_cycle (length (ir_functions ir) + 1) callees f state
         else checked_ok state
       }) functions_rpo (replicate (length (ir_functions ir)) Unvisited)) (\<lambda>_. checked_ok ())
   }"

definition validate_cfg :: "ir_program \<Rightarrow> rpo_state \<Rightarrow> legalizer \<Rightarrow> unit checked" where
  "validate_cfg ir rpo lg =
     and_then (each_ok (\<lambda>f lg. do {
         entry \<leftarrow> fv_entry ir f;
         and_then (validate_cfg_visit_block (length (ir_blocks ir) + 1) ir f entry ({}, lg)) (\<lambda>(_, lg).
           checked_ok lg)
       }) (rp_functions rpo) lg) (\<lambda>lg.
     validate_call_graph ir (lg_call_edges lg) (rp_functions rpo))"

subsection \<open>Definitions and scope of locals\<close>

definition add_definition :: "nat \<Rightarrow> nat set \<Rightarrow> nat set checked" where
  "add_definition l defs = (if l \<in> defs then checked_err (DoubleDefinition l) else checked_ok (insert l defs))"

definition validate_single_assignment :: "ir_program \<Rightarrow> rpo_state \<Rightarrow> unit checked" where
  "validate_single_assignment ir rpo = do {
     bs \<leftarrow> rp_blocks_rpo rpo;
     and_then (each_ok (\<lambda>b defs. do {
         bb \<leftarrow> slice_get (ir_blocks ir) b;
         ins \<leftarrow> read_span (ir_locals ir) (bb_inputs bb);
         and_then (each_ok add_definition ins defs) (\<lambda>defs.
           each_ok (\<lambda>i defs. do {
             outs \<leftarrow> ov_outputs ir i;
             each_ok add_definition outs defs
           }) (span_indices (bb_operations bb)) defs)
       }) bs {}) (\<lambda>_. checked_ok ())
   }"

definition dom_children_of :: "ir_program \<Rightarrow> rpo_state \<Rightarrow> dom_map \<Rightarrow> nat list list option" where
  "dom_children_of ir rpo d = do {
     bs \<leftarrow> rp_blocks_rpo rpo;
     fold_opt (\<lambda>b children.
       (case d b of
          Some parent \<Rightarrow>
            if parent \<noteq> b then do {
              cs \<leftarrow> slice_get children parent;
              slice_set children parent (cs @ [b])
            } else Some children
        | None \<Rightarrow> Some children)) bs (replicate (length (ir_blocks ir)) [])
   }"

type_synonym scope = "nat set \<times> nat list"

definition scope_add :: "nat list \<Rightarrow> scope \<Rightarrow> scope" where
  "scope_add ls = (\<lambda>(in_scope, added). (in_scope \<union> set ls, added @ ls))"

definition check_use :: "nat \<Rightarrow> use_kind \<Rightarrow> nat \<Rightarrow> scope \<Rightarrow> unit checked" where
  "check_use b kind l s = (if l \<in> fst s then checked_ok () else checked_err (LocalNotInScope b l kind))"

definition scope_op :: "ir_program \<Rightarrow> nat \<Rightarrow> nat \<Rightarrow> scope \<Rightarrow> scope checked" where
  "scope_op ir b i s = do {
     ins \<leftarrow> ov_inputs ir i;
     and_then (each_ok (\<lambda>l _. check_use b (UseOperation i) l s) ins ()) (\<lambda>_. do {
       outs \<leftarrow> ov_outputs ir i;
       checked_ok (scope_add outs s)
     })
   }"

definition scope_control :: "nat \<Rightarrow> control \<Rightarrow> scope \<Rightarrow> unit checked" where
  "scope_control b ctl s =
     (case ctl of
        Branches br \<Rightarrow> check_use b UseControl (br_condition br) s
      | Switches sw \<Rightarrow> check_use b UseControl (sw_condition sw) s
      | _ \<Rightarrow> checked_ok ())"

text \<open>The part of a block's check before its children: inputs, operations, outputs and control.\<close>

definition scope_block :: "ir_program \<Rightarrow> nat \<Rightarrow> basic_block \<Rightarrow> scope \<Rightarrow> scope checked" where
  "scope_block ir b bb s = do {
     ins \<leftarrow> read_span (ir_locals ir) (bb_inputs bb);
     and_then (each_ok (scope_op ir b) (span_indices (bb_operations bb)) (scope_add ins s)) (\<lambda>s. do {
       outs \<leftarrow> read_span (ir_locals ir) (bb_outputs bb);
       and_then (each_ok (\<lambda>(idx, l) _. check_use b (UseBlockOutput idx) l s)
           (zip [0..<length outs] outs) ()) (\<lambda>_.
       and_then (scope_control b (bb_control bb) s) (\<lambda>_. checked_ok s))
     })
   }"

primrec validate_block_scope ::
    "nat \<Rightarrow> ir_program \<Rightarrow> nat list list \<Rightarrow> nat \<Rightarrow> scope \<Rightarrow> scope checked" where
  "validate_block_scope 0 ir children b s = None"
| "validate_block_scope (Suc n) ir children b s = do {
     bb \<leftarrow> slice_get (ir_blocks ir) b;
     let prev_len = length (snd s);
     and_then (scope_block ir b bb s) (\<lambda>s. do {
       cs \<leftarrow> slice_get children b;
       and_then (each_ok (validate_block_scope n ir children) cs s) (\<lambda>(in_scope, added). do {
         removed \<leftarrow> slice_range added prev_len (length added);
         checked_ok (in_scope - set removed, take prev_len added)
       })
     })
   }"

definition validate_scope :: "ir_program \<Rightarrow> rpo_state \<Rightarrow> dom_map \<Rightarrow> unit checked" where
  "validate_scope ir rpo d = do {
     children \<leftarrow> dom_children_of ir rpo d;
     and_then (each_ok (\<lambda>f added. do {
         entry \<leftarrow> fv_entry ir f;
         and_then (validate_block_scope (length (ir_blocks ir) + 1) ir children entry ({}, added)) (\<lambda>(_, added).
           checked_ok added)
       }) (rp_functions rpo) []) (\<lambda>_. checked_ok ())
   }"

definition validate_local_ids :: "ir_program \<Rightarrow> rpo_state \<Rightarrow> dom_map \<Rightarrow> unit checked" where
  "validate_local_ids ir rpo d =
     and_then (validate_single_assignment ir rpo) (\<lambda>_. validate_scope ir rpo d)"

subsection \<open>The whole check\<close>

text \<open>The analyses come from the store, which computes them from the program when they are asked for.\<close>

definition stored_dominators :: "ir_program \<Rightarrow> rpo_state \<Rightarrow> dom_map option" where
  "stored_dominators ir rpo = do {
     reachable \<leftarrow> reachable_compute rpo;
     ps \<leftarrow> preds_compute ir reachable [];
     dominators_compute ir ps rpo
   }"

definition legalizer_run :: "ir_program \<Rightarrow> unit checked" where
  "legalizer_run ir =
     (let lg = \<lparr>lg_locals_spans = [], lg_operations_spans = [],
                lg_block_owner = replicate (length (ir_blocks ir)) None, lg_call_edges = []\<rparr>
      in and_then (validate_entry_points ir) (\<lambda>_.
         and_then (validate_blocks ir lg) (\<lambda>lg. do {
           rpo \<leftarrow> rpo_compute ir;
           and_then (validate_cfg ir rpo lg) (\<lambda>_. do {
             d \<leftarrow> stored_dominators ir rpo;
             validate_local_ids ir rpo d
           })
         })))"

end
