(* ===== verification/Legalizer_Proofs.thy ===== *)
theory Legalizer_Proofs
  imports Legalizer
begin

subsection \<open>Sequences of checks\<close>

lemma and_then_ok [simp]:
  "and_then m k = Some (Inr y) \<longleftrightarrow> (\<exists>x. m = Some (Inr x) \<and> k x = Some (Inr y))"
proof (cases m)
  case (Some r)
  then show ?thesis by (cases r) (auto simp: and_then_def)
qed (simp add: and_then_def)

lemma and_then_simps [simp]:
  "and_then (Some (Inr x)) k = k x" "and_then (Some (Inl e)) k = Some (Inl e)" "and_then None k = None"
  by (simp_all add: and_then_def)

lemma each_ok_unit: "each_ok f xs () = Some (Inr u) \<longleftrightarrow> (\<forall>x\<in>set xs. f x () = Some (Inr ()))"
  by (induction xs) auto

text \<open>The states a successful sequence goes through, related by a preorder.\<close>

lemma each_ok_steps:
  assumes "each_ok f xs s = Some (Inr t)" "I s"
    and "\<And>x s t. x \<in> set xs \<Longrightarrow> I s \<Longrightarrow> f x s = Some (Inr t) \<Longrightarrow> I t \<and> R s t"
    and "\<And>s. R s s" and trans: "\<And>a b c. R a b \<Longrightarrow> R b c \<Longrightarrow> R a c"
  shows "I t \<and> R s t \<and> (\<forall>x\<in>set xs. \<exists>u v. I u \<and> R s u \<and> f x u = Some (Inr v) \<and> R v t)"
  using assms(1-3)
proof (induction xs arbitrary: s)
  case Nil
  with assms(4) show ?case by simp
next
  case (Cons x xs)
  from Cons.prems(1) obtain v where v: "f x s = Some (Inr v)" "each_ok f xs v = Some (Inr t)" by auto
  with Cons.prems(2,3) have Iv: "I v" "R s v" by (metis list.set_intros(1))+
  have IH: "I t \<and> R v t \<and> (\<forall>x\<in>set xs. \<exists>u w. I u \<and> R v u \<and> f x u = Some (Inr w) \<and> R w t)"
    by (rule Cons.IH [OF v(2) Iv(1)]) (use Cons.prems(3) in auto)
  have "\<exists>u w. I u \<and> R s u \<and> f y u = Some (Inr w) \<and> R w t" if y: "y \<in> set (x # xs)" for y
  proof (cases "y = x")
    case True
    then show ?thesis using v(1) IH Cons.prems(2) assms(4) by blast
  next
    case False
    with y IH obtain u w where "I u" "R v u" "f y u = Some (Inr w)" "R w t" by auto
    then show ?thesis using trans [OF Iv(2)] by blast
  qed
  with IH trans [OF Iv(2)] show ?case by blast
qed

subsection \<open>Blocks\<close>

lemma validate_control_ok:
  assumes "validate_control ir ctl = Some (Inr ())"
  shows "\<exists>ts. ctl_outgoing ctl ir = Some ts \<and> (\<forall>t\<in>set ts. t < length (ir_blocks ir))"
  using assms
  by (cases ctl)
    (auto simp: validate_control_def validate_basic_block_id_def each_ok_unit bind_eq_Some_conv
      split: if_splits option.splits)

lemma validate_op_callee:
  assumes "validate_op_data ir i data = Some (Inr ())" "op_callee (Operation k data) = Some f"
  shows "f < length (ir_functions ir)"
  using assms by (auto simp: validate_op_data_def op_callee_def split: op_data.splits if_splits)

lemma validate_op_indices_ok:
  assumes "validate_op_indices ir b i lg = Some (Inr lg')"
  shows "i < length (ir_operations ir) \<and> validate_op_data ir i (opn_data (ir_operations ir ! i)) = Some (Inr ()) \<and>
    op_inputs (ir_operations ir ! i) ir \<noteq> None \<and> op_outputs (ir_operations ir ! i) ir \<noteq> None"
  using assms by (auto simp: validate_op_indices_def bind_eq_Some_conv slice_get_Some)

lemma validate_block_ok:
  assumes "validate_block_indices ir b bb lg = Some (Inr lg')"
  shows "\<exists>ts. ctl_outgoing (bb_control bb) ir = Some ts \<and> (\<forall>t\<in>set ts. t < length (ir_blocks ir))"
    and "\<forall>i\<in>set (span_indices (bb_operations bb)). \<exists>lg lg'. validate_op_indices ir b i lg = Some (Inr lg')"
proof -
  from assms obtain l where c: "validate_control ir (bb_control bb) = Some (Inr ())"
    and e: "each_ok (validate_op_indices ir b) (span_indices (bb_operations bb)) l = Some (Inr lg')"
    by (auto simp: validate_block_indices_def Let_def)
  from validate_control_ok [OF c]
  show "\<exists>ts. ctl_outgoing (bb_control bb) ir = Some ts \<and> (\<forall>t\<in>set ts. t < length (ir_blocks ir))" .
  from each_ok_steps [OF e, where I = "\<lambda>_. True" and R = "\<lambda>_ _. True"]
  show "\<forall>i\<in>set (span_indices (bb_operations bb)). \<exists>lg lg'. validate_op_indices ir b i lg = Some (Inr lg')"
    by blast
qed

lemma validate_blocks_ok:
  assumes "validate_blocks ir lg = Some (Inr lg')" "b < length (ir_blocks ir)"
  shows "validate_block_terminators ir b (ir_blocks ir ! b) = Some (Inr ())"
    and "\<exists>lg lg'. validate_block_indices ir b (ir_blocks ir ! b) lg = Some (Inr lg')"
proof -
  let ?f = "\<lambda>(b, bb) lg. and_then (validate_block_terminators ir b bb) (\<lambda>_. validate_block_indices ir b bb lg)"
  from assms(1) obtain t where
    "each_ok ?f (zip [0..<length (ir_blocks ir)] (ir_blocks ir)) lg = Some (Inr t)"
    by (auto simp: validate_blocks_def)
  from each_ok_steps [OF this, where I = "\<lambda>_. True" and R = "\<lambda>_ _. True"]
  have "\<forall>x\<in>set (zip [0..<length (ir_blocks ir)] (ir_blocks ir)). \<exists>u v. ?f x u = Some (Inr v)" by blast
  moreover have "(b, ir_blocks ir ! b) \<in> set (zip [0..<length (ir_blocks ir)] (ir_blocks ir))"
    using assms(2) by (force simp: set_zip)
  ultimately obtain u v where "?f (b, ir_blocks ir ! b) u = Some (Inr v)" by blast
  then show "validate_block_terminators ir b (ir_blocks ir ! b) = Some (Inr ())"
    "\<exists>lg lg'. validate_block_indices ir b (ir_blocks ir ! b) lg = Some (Inr lg')"
    by auto
qed

definition entries_in_range :: "ir_program \<Rightarrow> bool" where
  "entries_in_range ir \<longleftrightarrow> (\<forall>fn\<in>set (ir_functions ir). fn_entry fn < length (ir_blocks ir))"

lemma validated_indexed:
  assumes "entries_in_range ir" "validate_entry_points ir = Some (Inr ())" "validate_blocks ir lg = Some (Inr lg')"
  shows "ir_indexed ir"
proof -
  have "root_functions ir \<subseteq> {..<length (ir_functions ir)}"
    using assms(2) by (auto simp: validate_entry_points_def validate_entry_def root_functions_def not_le
        split: if_splits option.splits)
  moreover have "(\<forall>i\<in>set (span_indices (bb_operations bb)). i < length (ir_operations ir) \<and>
        (\<forall>f. op_callee (ir_operations ir ! i) = Some f \<longrightarrow> f < length (ir_functions ir))) \<and>
      (\<exists>ts. ctl_outgoing (bb_control bb) ir = Some ts \<and> (\<forall>t\<in>set ts. t < length (ir_blocks ir)))"
    if "bb \<in> set (ir_blocks ir)" for bb
  proof -
    from that obtain b where b: "b < length (ir_blocks ir)" "bb = ir_blocks ir ! b" by (auto simp: in_set_conv_nth)
    from validate_blocks_ok(2) [OF assms(3) b(1)] obtain l l' where v: "validate_block_indices ir b bb l = Some (Inr l')"
      unfolding b(2) by blast
    have "i < length (ir_operations ir) \<and> (\<forall>f. op_callee (ir_operations ir ! i) = Some f \<longrightarrow> f < length (ir_functions ir))"
      if i: "i \<in> set (span_indices (bb_operations bb))" for i
    proof -
      from validate_block_ok(2) [OF v] i obtain u u' where "validate_op_indices ir b i u = Some (Inr u')" by blast
      note o = validate_op_indices_ok [OF this]
      have "ir_operations ir ! i = Operation (opn_kind (ir_operations ir ! i)) (opn_data (ir_operations ir ! i))" by simp
      with o validate_op_callee show ?thesis by metis
    qed
    with validate_block_ok(1) [OF v] show ?thesis by blast
  qed
  ultimately show ?thesis using assms(1) by (simp add: ir_indexed_def entries_in_range_def)
qed


subsection \<open>The control flow check\<close>

text \<open>What the check establishes of one block of a function.\<close>

definition block_checked :: "ir_program \<Rightarrow> nat \<Rightarrow> (nat \<times> nat) list \<Rightarrow> nat \<Rightarrow> bool" where
  "block_checked ir f edges b \<longleftrightarrow>
     validate_return ir f b (ir_blocks ir ! b) = Some (Inr ()) \<and>
     (\<forall>i\<in>set (span_indices (bb_operations (ir_blocks ir ! b))).
        \<exists>lg lg'. validate_call ir f i lg = Some (Inr lg')) \<and>
     (\<forall>g\<in>set (callees_of ir b). (f, g) \<in> set edges) \<and>
     (\<forall>t\<in>set (succs_of ir b). t < length (ir_blocks ir) \<and>
        span_len (bb_outputs (ir_blocks ir ! b)) = span_len (bb_inputs (ir_blocks ir ! t)))"

definition cfg_steps :: "ir_program \<Rightarrow> nat \<Rightarrow> nat set \<times> legalizer \<Rightarrow> nat set \<times> legalizer \<Rightarrow> bool" where
  "cfg_steps ir f = (\<lambda>(V, lg) (V', lg').
     V \<subseteq> V' \<and> set (lg_call_edges lg) \<subseteq> set (lg_call_edges lg') \<and>
     length (lg_block_owner lg') = length (lg_block_owner lg) \<and>
     (\<forall>u\<in>V' - V. u < length (ir_blocks ir) \<and> u < length (lg_block_owner lg) \<and> lg_block_owner lg ! u = None \<and>
        lg_block_owner lg' ! u = Some f \<and>
        block_checked ir f (lg_call_edges lg') u \<and> set (succs_of ir u) \<subseteq> V') \<and>
     (\<forall>u<length (lg_block_owner lg). u \<notin> V' - V \<longrightarrow> lg_block_owner lg' ! u = lg_block_owner lg ! u))"

lemma block_checked_mono: "block_checked ir f es b \<Longrightarrow> set es \<subseteq> set es' \<Longrightarrow> block_checked ir f es' b"
  unfolding block_checked_def by blast

lemma cfg_steps_refl: "cfg_steps ir f s s"
  by (auto simp: cfg_steps_def)

lemma cfg_steps_trans:
  assumes "cfg_steps ir f a b" "cfg_steps ir f b c"
  shows "cfg_steps ir f a c"
proof -
  obtain V lg where a: "a = (V, lg)" by (cases a)
  obtain V' lg' where b: "b = (V', lg')" by (cases b)
  obtain V'' lg'' where c: "c = (V'', lg'')" by (cases c)
  note 1 = assms(1) [unfolded a b cfg_steps_def prod.case] and 2 = assms(2) [unfolded b c cfg_steps_def prod.case]
  have "u < length (ir_blocks ir) \<and> u < length (lg_block_owner lg) \<and> lg_block_owner lg ! u = None \<and>
      lg_block_owner lg'' ! u = Some f \<and> block_checked ir f (lg_call_edges lg'') u \<and> set (succs_of ir u) \<subseteq> V''"
    if u: "u \<in> V'' - V" for u
  proof (cases "u \<in> V'")
    case True
    with u 1 have f: "u < length (ir_blocks ir)" "u < length (lg_block_owner lg)" "lg_block_owner lg ! u = None"
      "lg_block_owner lg' ! u = Some f" "block_checked ir f (lg_call_edges lg') u" "set (succs_of ir u) \<subseteq> V'"
      by blast+
    have "lg_block_owner lg'' ! u = lg_block_owner lg' ! u" using True f(2) 1 2 by auto
    with f block_checked_mono [OF f(5)] 2 show ?thesis by auto
  next
    case False
    with u 2 have "u < length (ir_blocks ir)" "u < length (lg_block_owner lg')" "lg_block_owner lg' ! u = None"
      "lg_block_owner lg'' ! u = Some f" "block_checked ir f (lg_call_edges lg'') u" "set (succs_of ir u) \<subseteq> V''"
      by blast+
    moreover have "lg_block_owner lg' ! u = lg_block_owner lg ! u"
      using False 1 calculation(2) by auto
    ultimately show ?thesis using 1 by auto
  qed
  moreover have "lg_block_owner lg'' ! u = lg_block_owner lg ! u"
    if "u < length (lg_block_owner lg)" "u \<notin> V'' - V" for u
  proof -
    have "u \<notin> V' - V" "u \<notin> V'' - V'" using that(2) 1 2 by blast+
    with that(1) 1 2 show ?thesis by auto
  qed
  ultimately show ?thesis using 1 2 unfolding a c cfg_steps_def prod.case by auto
qed

definition call_steps :: "legalizer \<Rightarrow> legalizer \<Rightarrow> bool" where
  "call_steps lg lg' \<longleftrightarrow> set (lg_call_edges lg) \<subseteq> set (lg_call_edges lg') \<and> lg_block_owner lg' = lg_block_owner lg"

lemma call_steps_trans: "call_steps a b \<Longrightarrow> call_steps b c \<Longrightarrow> call_steps a c"
  by (auto simp: call_steps_def)

lemma validate_call_step:
  assumes "validate_call ir f i lg = Some (Inr lg')"
  shows "call_steps lg lg'" "i < length (ir_operations ir)"
    "op_callee (ir_operations ir ! i) = Some g \<Longrightarrow> (f, g) \<in> set (lg_call_edges lg')"
  using assms
  by (auto simp: validate_call_def bind_eq_Some_conv slice_get_Some call_steps_def op_callee_def
      split: op_data.splits option.splits if_splits)

lemma validate_calls:
  assumes "each_ok (validate_call ir f) is lg = Some (Inr lg')"
  shows "call_steps lg lg'"
    "\<forall>i\<in>set is. i < length (ir_operations ir) \<and> (\<exists>u v. validate_call ir f i u = Some (Inr v)) \<and>
       (\<forall>g. op_callee (ir_operations ir ! i) = Some g \<longrightarrow> (f, g) \<in> set (lg_call_edges lg'))"
proof -
  have refl: "call_steps s s" for s by (simp add: call_steps_def)
  have "True \<and> call_steps lg lg' \<and> (\<forall>i\<in>set is. \<exists>u v. True \<and> call_steps lg u \<and> validate_call ir f i u = Some (Inr v)
      \<and> call_steps v lg')"
    by (rule each_ok_steps [OF assms TrueI]) (use validate_call_step(1) refl call_steps_trans in blast)+
  then have *: "call_steps lg lg'"
    "\<And>i. i \<in> set is \<Longrightarrow> \<exists>u v. validate_call ir f i u = Some (Inr v) \<and> call_steps v lg'" by blast+
  show "call_steps lg lg'" by (rule *(1))
  show "\<forall>i\<in>set is. i < length (ir_operations ir) \<and> (\<exists>u v. validate_call ir f i u = Some (Inr v)) \<and>
       (\<forall>g. op_callee (ir_operations ir ! i) = Some g \<longrightarrow> (f, g) \<in> set (lg_call_edges lg'))"
  proof
    fix i assume "i \<in> set is"
    from *(2) [OF this] obtain u v where v: "validate_call ir f i u = Some (Inr v)" "call_steps v lg'" by blast
    have "(f, g) \<in> set (lg_call_edges lg')" if "op_callee (ir_operations ir ! i) = Some g" for g
      using validate_call_step(3) [OF v(1) that] v(2) by (auto simp: call_steps_def)
    with v validate_call_step(2) [OF v(1)] show "i < length (ir_operations ir) \<and>
       (\<exists>u v. validate_call ir f i u = Some (Inr v)) \<and>
       (\<forall>g. op_callee (ir_operations ir ! i) = Some g \<longrightarrow> (f, g) \<in> set (lg_call_edges lg'))" by blast
  qed
qed


definition edge_check :: "nat \<Rightarrow> ir_program \<Rightarrow> nat \<Rightarrow> nat \<Rightarrow> nat \<Rightarrow> nat set \<times> legalizer \<Rightarrow>
    (nat set \<times> legalizer) checked" where
  "edge_check n ir f b succ s = do {
     outs \<leftarrow> span_len (bb_outputs (ir_blocks ir ! b));
     succ_bb \<leftarrow> slice_get (ir_blocks ir) succ;
     ins \<leftarrow> span_len (bb_inputs succ_bb);
     if outs \<noteq> ins then checked_err (IncompatibleEdge b succ)
     else validate_cfg_visit_block n ir f succ s
   }"

lemma edge_check_ok:
  "edge_check n ir f b t s = Some (Inr s') \<Longrightarrow>
     validate_cfg_visit_block n ir f t s = Some (Inr s') \<and> t < length (ir_blocks ir) \<and>
     span_len (bb_outputs (ir_blocks ir ! b)) = span_len (bb_inputs (ir_blocks ir ! t))"
  by (auto simp: edge_check_def bind_eq_Some_conv slice_get_Some split: if_splits)

lemma visit_block_ok:
  assumes "validate_cfg_visit_block (Suc n) ir f b (V, lg) = Some (Inr (V', lg'))" "b \<notin> V"
  obtains lg1 where "b < length (ir_blocks ir)" "validate_return ir f b (ir_blocks ir ! b) = Some (Inr ())"
    "b < length (lg_block_owner lg)" "lg_block_owner lg ! b = None"
    "each_ok (validate_call ir f) (span_indices (bb_operations (ir_blocks ir ! b)))
       (lg\<lparr>lg_block_owner := (lg_block_owner lg)[b := Some f]\<rparr>) = Some (Inr lg1)"
    "each_ok (edge_check n ir f b) (succs_of ir b) (insert b V, lg1) = Some (Inr (V', lg'))"
proof -
  from assms obtain bb where bb: "slice_get (ir_blocks ir) b = Some bb"
    by (auto simp: bind_eq_Some_conv)
  with assms obtain owner where ret: "validate_return ir f b bb = Some (Inr ())"
    and own: "slice_get (lg_block_owner lg) b = Some owner"
    by (auto simp: bind_eq_Some_conv Let_def)
  from assms bb ret own have none: "owner = None" by (cases owner) simp_all
  with assms bb ret own obtain lg1 ts where
    calls: "each_ok (validate_call ir f) (span_indices (bb_operations bb))
       (lg\<lparr>lg_block_owner := (lg_block_owner lg)[b := Some f]\<rparr>) = Some (Inr lg1)"
    and ts: "ctl_outgoing (bb_control bb) ir = Some ts"
    and run: "each_ok (\<lambda>succ s. do {
         outs \<leftarrow> span_len (bb_outputs bb);
         succ_bb \<leftarrow> slice_get (ir_blocks ir) succ;
         ins \<leftarrow> span_len (bb_inputs succ_bb);
         if outs \<noteq> ins then checked_err (IncompatibleEdge b succ)
         else validate_cfg_visit_block n ir f succ s
       }) ts (insert b V, lg1) = Some (Inr (V', lg'))"
    by (auto simp: bind_eq_Some_conv Let_def slice_set_def split: if_splits)
  from bb have b: "b < length (ir_blocks ir)" "bb = ir_blocks ir ! b" by (auto simp: slice_get_Some)
  have "succs_of ir b = ts" using b ts by (simp add: succs_of_def bv_successors_def)
  with run have run': "each_ok (edge_check n ir f b) (succs_of ir b) (insert b V, lg1) = Some (Inr (V', lg'))"
    unfolding edge_check_def [abs_def] b(2) by simp
  show thesis
    by (rule that [of lg1]) (use b ret own none calls run' in \<open>auto simp: slice_get_Some\<close>)
qed

definition reach_steps :: "ir_program \<Rightarrow> nat \<Rightarrow> nat \<Rightarrow> nat set \<times> legalizer \<Rightarrow> nat set \<times> legalizer \<Rightarrow> bool" where
  "reach_steps ir f e s t \<longleftrightarrow> cfg_steps ir f s t \<and> fst t - fst s \<subseteq> {u. block_reach ir e u}"

lemma reach_steps_refl: "reach_steps ir f e s s"
  by (simp add: reach_steps_def cfg_steps_refl)

lemma reach_steps_trans: "reach_steps ir f e a b \<Longrightarrow> reach_steps ir f e b c \<Longrightarrow> reach_steps ir f e a c"
  unfolding reach_steps_def using cfg_steps_trans by blast

lemma cfg_visit:
  assumes "validate_cfg_visit_block n ir f b s = Some (Inr t)" "block_reach ir e b"
  shows "reach_steps ir f e s t \<and> b \<in> fst t"
  using assms
proof (induction n arbitrary: b s t)
  case (Suc n)
  obtain V lg where s: "s = (V, lg)" by (cases s)
  obtain V' lg' where t: "t = (V', lg')" by (cases t)
  show ?case
  proof (cases "b \<in> V")
    case True
    with Suc.prems(1) show ?thesis by (auto simp: s t reach_steps_refl)
  next
    case False
    obtain lg1 where b: "b < length (ir_blocks ir)" "validate_return ir f b (ir_blocks ir ! b) = Some (Inr ())"
      "b < length (lg_block_owner lg)" "lg_block_owner lg ! b = None"
      and calls: "each_ok (validate_call ir f) (span_indices (bb_operations (ir_blocks ir ! b)))
         (lg\<lparr>lg_block_owner := (lg_block_owner lg)[b := Some f]\<rparr>) = Some (Inr lg1)"
      and run: "each_ok (edge_check n ir f b) (succs_of ir b) (insert b V, lg1) = Some (Inr (V', lg'))"
      using visit_block_ok [OF Suc.prems(1) [unfolded s t] False] by metis
    have edges: "True \<and> reach_steps ir f e (insert b V, lg1) (V', lg') \<and> (\<forall>x\<in>set (succs_of ir b).
        \<exists>u v. True \<and> reach_steps ir f e (insert b V, lg1) u \<and> edge_check n ir f b x u = Some (Inr v) \<and>
          reach_steps ir f e v (V', lg'))"
    proof (rule each_ok_steps [OF run TrueI _ reach_steps_refl reach_steps_trans])
      fix x u v
      assume x: "x \<in> set (succs_of ir b)" and "edge_check n ir f b x u = Some (Inr v)"
      from edge_check_ok [OF this(2)] Suc.IH [of x u v] reach_step [OF Suc.prems(2) x]
      show "True \<and> reach_steps ir f e u v" by blast
    qed
    have succ: "x \<in> V' \<and> x < length (ir_blocks ir) \<and>
        span_len (bb_outputs (ir_blocks ir ! b)) = span_len (bb_inputs (ir_blocks ir ! x))"
      if x: "x \<in> set (succs_of ir b)" for x
    proof -
      from edges x obtain u v where uv: "edge_check n ir f b x u = Some (Inr v)" "reach_steps ir f e v (V', lg')"
        by blast
      note ok = edge_check_ok [OF uv(1)]
      with Suc.IH [of x u v] reach_step [OF Suc.prems(2) x] have "x \<in> fst v" by blast
      with uv(2) have "x \<in> V'" by (cases v) (auto simp: reach_steps_def cfg_steps_def)
      with ok show ?thesis by blast
    qed
    note c = validate_calls [OF calls]
    from edges have st: "cfg_steps ir f (insert b V, lg1) (V', lg')" "V' - insert b V \<subseteq> {u. block_reach ir e u}"
      by (auto simp: reach_steps_def)
    note st' = st(1) [unfolded cfg_steps_def prod.case]
    have es: "set (lg_call_edges lg) \<subseteq> set (lg_call_edges lg1)" "set (lg_call_edges lg1) \<subseteq> set (lg_call_edges lg')"
      and own1: "lg_block_owner lg1 = (lg_block_owner lg)[b := Some f]"
      using c(1) st' by (auto simp: call_steps_def)
    have "block_checked ir f (lg_call_edges lg') b"
      unfolding block_checked_def
    proof (intro conjI ballI)
      show "(f, g) \<in> set (lg_call_edges lg')" if "g \<in> set (callees_of ir b)" for g
        using that c(2) es(2) by (auto simp: callees_of_def List.map_filter_def split: if_splits)
      show "t < length (ir_blocks ir)"
        "span_len (bb_outputs (ir_blocks ir ! b)) = span_len (bb_inputs (ir_blocks ir ! t))"
        if "t \<in> set (succs_of ir b)" for t
        using succ [OF that] by blast+
    qed (use b(2) c(2) in blast)+
    moreover have "lg_block_owner lg' ! b = Some f"
      using st' own1 b(3) by simp
    moreover have "b \<in> V'" using st' by blast
    ultimately have bb: "b < length (ir_blocks ir) \<and> b < length (lg_block_owner lg) \<and> lg_block_owner lg ! b = None \<and>
        lg_block_owner lg' ! b = Some f \<and> block_checked ir f (lg_call_edges lg') b \<and> set (succs_of ir b) \<subseteq> V'"
      using b succ by blast
    have rest: "u < length (ir_blocks ir) \<and> u < length (lg_block_owner lg) \<and> lg_block_owner lg ! u = None \<and>
        lg_block_owner lg' ! u = Some f \<and> block_checked ir f (lg_call_edges lg') u \<and> set (succs_of ir u) \<subseteq> V'"
      if u: "u \<in> V' - insert b V" for u
    proof -
      from st' u have "u < length (ir_blocks ir) \<and> u < length (lg_block_owner lg1) \<and> lg_block_owner lg1 ! u = None \<and>
        lg_block_owner lg' ! u = Some f \<and> block_checked ir f (lg_call_edges lg') u \<and> set (succs_of ir u) \<subseteq> V'" by blast
      moreover have "u \<noteq> b" using u by blast
      ultimately show ?thesis using own1 by simp
    qed
    have "cfg_steps ir f (V, lg) (V', lg')"
      unfolding cfg_steps_def prod.case
    proof (intro conjI)
      show "V \<subseteq> V'" "set (lg_call_edges lg) \<subseteq> set (lg_call_edges lg')"
        "length (lg_block_owner lg') = length (lg_block_owner lg)"
        using st' es own1 by auto
      show "\<forall>u\<in>V' - V. u < length (ir_blocks ir) \<and> u < length (lg_block_owner lg) \<and> lg_block_owner lg ! u = None \<and>
        lg_block_owner lg' ! u = Some f \<and> block_checked ir f (lg_call_edges lg') u \<and> set (succs_of ir u) \<subseteq> V'"
      proof
        fix u assume u: "u \<in> V' - V"
        show "u < length (ir_blocks ir) \<and> u < length (lg_block_owner lg) \<and> lg_block_owner lg ! u = None \<and>
          lg_block_owner lg' ! u = Some f \<and> block_checked ir f (lg_call_edges lg') u \<and> set (succs_of ir u) \<subseteq> V'"
        proof (cases "u = b")
          case True
          show ?thesis unfolding True by (rule bb)
        qed (use u in \<open>intro rest, simp\<close>)
      qed
      show "\<forall>u<length (lg_block_owner lg). u \<notin> V' - V \<longrightarrow> lg_block_owner lg' ! u = lg_block_owner lg ! u"
      proof (intro allI impI)
        fix u assume u: "u < length (lg_block_owner lg)" "u \<notin> V' - V"
        then have "u \<noteq> b" "u \<notin> V' - insert b V" using False \<open>b \<in> V'\<close> by auto
        then show "lg_block_owner lg' ! u = lg_block_owner lg ! u" using st' u(1) own1 by simp
      qed
    qed
    moreover have "V' - V \<subseteq> {u. block_reach ir e u}" using st(2) Suc.prems(2) by blast
    ultimately show ?thesis using \<open>b \<in> V'\<close> by (simp add: s t reach_steps_def)
  qed
qed simp


definition check_function :: "ir_program \<Rightarrow> nat \<Rightarrow> legalizer \<Rightarrow> legalizer checked" where
  "check_function ir f lg = do {
     entry \<leftarrow> fv_entry ir f;
     and_then (validate_cfg_visit_block (length (ir_blocks ir) + 1) ir f entry ({}, lg)) (\<lambda>(_, lg). checked_ok lg)
   }"

definition owner_steps :: "legalizer \<Rightarrow> legalizer \<Rightarrow> bool" where
  "owner_steps lg lg' \<longleftrightarrow> set (lg_call_edges lg) \<subseteq> set (lg_call_edges lg') \<and>
     (\<forall>b f. slice_get (lg_block_owner lg) b = Some (Some f) \<longrightarrow> slice_get (lg_block_owner lg') b = Some (Some f))"

lemma check_function_ok:
  assumes "check_function ir f lg = Some (Inr lg')"
  shows "owner_steps lg lg'"
    and "\<forall>b\<in>fn_blocks ir f. slice_get (lg_block_owner lg') b = Some (Some f) \<and>
       block_checked ir f (lg_call_edges lg') b"
proof -
  from assms obtain V' where run: "validate_cfg_visit_block (length (ir_blocks ir) + 1) ir f (entry_of ir f) ({}, lg)
      = Some (Inr (V', lg'))"
    by (auto simp: check_function_def fv_entry_def bind_eq_Some_conv slice_get_Some entry_of_def)
  from cfg_visit [OF run reach_refl] have st: "cfg_steps ir f ({}, lg) (V', lg')" and e: "entry_of ir f \<in> V'"
    by (simp_all add: reach_steps_def)
  note st' = st [unfolded cfg_steps_def prod.case]
  have "u \<in> V'" if "block_reach ir (entry_of ir f) u" for u
    using that e
  proof (induction rule: block_reach.induct)
    case (reach_step a b c)
    then show ?case using st' by blast
  qed
  then have B: "fn_blocks ir f \<subseteq> V'" by (auto simp: fn_blocks_def)
  have "slice_get (lg_block_owner lg') b = Some (Some f) \<and> block_checked ir f (lg_call_edges lg') b"
    if b: "b \<in> fn_blocks ir f" for b
  proof -
    from b B st' have "b < length (lg_block_owner lg)" "lg_block_owner lg' ! b = Some f"
      "block_checked ir f (lg_call_edges lg') b" by blast+
    with st' show ?thesis by simp
  qed
  then show "\<forall>b\<in>fn_blocks ir f. slice_get (lg_block_owner lg') b = Some (Some f) \<and>
       block_checked ir f (lg_call_edges lg') b" by blast
  have "slice_get (lg_block_owner lg') b = Some (Some g)" if "slice_get (lg_block_owner lg) b = Some (Some g)" for b g
  proof -
    from that have b: "b < length (lg_block_owner lg)" "lg_block_owner lg ! b = Some g" by (auto simp: slice_get_Some)
    have "b \<notin> V'"
    proof
      assume "b \<in> V'"
      with st' have "lg_block_owner lg ! b = None" by blast
      with b(2) show False by simp
    qed
    with st' b show ?thesis by simp
  qed
  with st' show "owner_steps lg lg'" by (simp add: owner_steps_def)
qed

lemma validate_cfg_ok:
  assumes ix: "ir_indexed ir" and s: "rpo_compute ir = Some s" and ok: "validate_cfg ir s lg = Some (Inr ())"
  obtains edges where "ir_unshared ir"
    "\<And>f b. live_function ir f \<Longrightarrow> b \<in> fn_blocks ir f \<Longrightarrow> block_checked ir f edges b"
    "validate_call_graph ir edges (rp_functions s) = Some (Inr ())"
proof -
  from ok obtain lg' where run: "each_ok (check_function ir) (rp_functions s) lg = Some (Inr lg')"
    and graph: "validate_call_graph ir (lg_call_edges lg') (rp_functions s) = Some (Inr ())"
    by (auto simp: validate_cfg_def check_function_def [abs_def])
  obtain bs where fs: "set (rp_functions s) = {f. live_function ir f}" by (rule rpo_order [OF ix s])
  have "True \<and> owner_steps lg lg' \<and> (\<forall>f\<in>set (rp_functions s). \<exists>u v. True \<and> owner_steps lg u \<and>
      check_function ir f u = Some (Inr v) \<and> owner_steps v lg')"
    by (rule each_ok_steps [OF run TrueI]) (use check_function_ok(1) in \<open>auto simp: owner_steps_def\<close>)
  then have each: "\<exists>v. owner_steps v lg' \<and> (\<forall>b\<in>fn_blocks ir f. slice_get (lg_block_owner v) b = Some (Some f) \<and>
       block_checked ir f (lg_call_edges v) b)" if "live_function ir f" for f
    using that fs check_function_ok(2) by blast
  have own: "slice_get (lg_block_owner lg') b = Some (Some f)" "block_checked ir f (lg_call_edges lg') b"
    if f: "live_function ir f" "b \<in> fn_blocks ir f" for f b
  proof -
    obtain v where v: "owner_steps v lg'" "\<forall>b\<in>fn_blocks ir f. slice_get (lg_block_owner v) b = Some (Some f) \<and>
       block_checked ir f (lg_call_edges v) b" using each [OF f(1)] by blast
    with f(2) have "slice_get (lg_block_owner v) b = Some (Some f)" "block_checked ir f (lg_call_edges v) b" by blast+
    with v(1) block_checked_mono show "slice_get (lg_block_owner lg') b = Some (Some f)"
      "block_checked ir f (lg_call_edges lg') b" unfolding owner_steps_def by blast+
  qed
  have "f = g" if "live_function ir f" "live_function ir g" "b \<in> fn_blocks ir f" "b \<in> fn_blocks ir g" for f g b
    using own(1) [OF that(1,3)] own(1) [OF that(2,4)] by simp
  then have "ir_unshared ir" unfolding ir_unshared_def fn_blocks_def by blast
  with own(2) graph that show thesis by blast
qed

subsection \<open>The call graph\<close>

lemma call_lists_spec:
  assumes "call_lists ir edges = Some cs"
  shows "length cs = length (ir_functions ir) \<and> (\<forall>f<length (ir_functions ir). set (cs ! f) = {g. (f, g) \<in> set edges})"
proof -
  have "length cs = length cs0 \<and> (\<forall>f<length cs0. set (cs ! f) = set (cs0 ! f) \<union> {g. (f, g) \<in> set es})"
    if "fold_opt (\<lambda>(caller, callee) callees. do {
         cs \<leftarrow> slice_get callees caller;
         slice_set callees caller (cs @ [callee])
       }) es cs0 = Some cs" for es cs0
    using that
  proof (induction es arbitrary: cs0)
    case (Cons e es)
    obtain a b where e: "e = (a, b)" by (cases e)
    with Cons.prems have a: "a < length cs0"
      and run: "fold_opt (\<lambda>(caller, callee) callees. do {
         cs \<leftarrow> slice_get callees caller;
         slice_set callees caller (cs @ [callee])
       }) es (cs0[a := cs0 ! a @ [b]]) = Some cs"
      by (auto simp: bind_eq_Some_conv slice_get_Some slice_set_def split: if_splits)
    from Cons.IH [OF run] a e show ?case by (auto simp: nth_list_update)
  qed simp
  from this [OF assms [unfolded call_lists_def]] show ?thesis by simp
qed

definition done_set :: "visit_state list \<Rightarrow> nat set" where
  "done_set st = {f. f < length st \<and> st ! f = VisitDone}"

text \<open>A rank that falls along every call of a finished function.\<close>

definition call_ranked :: "nat list list \<Rightarrow> nat set \<Rightarrow> bool" where
  "call_ranked cs D \<longleftrightarrow> (\<exists>r :: nat \<Rightarrow> nat. \<forall>f\<in>D. \<forall>g\<in>set (cs ! f). g \<in> D \<and> r g < r f)"

definition visit_steps :: "nat list list \<Rightarrow> visit_state list \<Rightarrow> visit_state list \<Rightarrow> bool" where
  "visit_steps cs st st' \<longleftrightarrow> length st' = length st \<and> done_set st \<subseteq> done_set st' \<and>
     (\<forall>f<length st. st ! f = InProgress \<longleftrightarrow> st' ! f = InProgress) \<and>
     (call_ranked cs (done_set st) \<longrightarrow> call_ranked cs (done_set st'))"

lemma visit_steps_refl: "visit_steps cs st st"
  by (simp add: visit_steps_def)

lemma visit_steps_trans: "visit_steps cs a b \<Longrightarrow> visit_steps cs b c \<Longrightarrow> visit_steps cs a c"
  unfolding visit_steps_def by auto

lemma call_ranked_insert:
  assumes "call_ranked cs D" "set (cs ! f) \<subseteq> D" "f \<notin> D"
  shows "call_ranked cs (insert f D)"
proof -
  obtain r :: "nat \<Rightarrow> nat" where r: "\<forall>f\<in>D. \<forall>g\<in>set (cs ! f). g \<in> D \<and> r g < r f"
    using assms(1) unfolding call_ranked_def by blast
  let ?r = "r(f := Suc (sum_list (map r (cs ! f))))"
  have "g \<in> insert f D \<and> ?r g < ?r h" if h: "h \<in> insert f D" "g \<in> set (cs ! h)" for h g
  proof (cases "h = f")
    case True
    have "r g \<le> sum_list (map r (cs ! f))" using h(2) True by (simp add: member_le_sum_list)
    moreover have "g \<noteq> f" "g \<in> D" using h(2) True assms(2,3) by auto
    ultimately show ?thesis using True by simp
  next
    case False
    with h r have "g \<in> D" "r g < r h" by auto
    with assms(3) False show ?thesis by auto
  qed
  then show ?thesis unfolding call_ranked_def by blast
qed

definition visit_callee :: "nat \<Rightarrow> nat list list \<Rightarrow> nat \<Rightarrow> nat \<Rightarrow> visit_state list \<Rightarrow> visit_state list checked" where
  "visit_callee n cs f callee state = do {
     st \<leftarrow> slice_get state callee;
     if st = InProgress then checked_err (RecursiveCall f callee)
     else if st = Unvisited then detect_cycle n cs callee state
     else checked_ok state
   }"

lemma detect_cycle_ok:
  assumes "detect_cycle n cs f st = Some (Inr st')" "f < length st" "st ! f = Unvisited"
  shows "visit_steps cs st st' \<and> f \<in> done_set st'"
  using assms
proof (induction n arbitrary: f st st')
  case (Suc n)
  from Suc.prems obtain st2 where f: "f < length cs"
    and run: "each_ok (visit_callee n cs f) (cs ! f) (st[f := InProgress]) = Some (Inr st2)"
    and st': "f < length st2" "st' = st2[f := VisitDone]"
    by (auto simp: visit_callee_def [abs_def] bind_eq_Some_conv slice_get_Some slice_set_def split: if_splits)
  let ?st = "st[f := InProgress]"
  have step: "visit_steps cs u v \<and> g \<in> done_set v" if "visit_callee n cs f g u = Some (Inr v)" for g u v
  proof (cases "u ! g")
    case Unvisited
    with that have "g < length u" "detect_cycle n cs g u = Some (Inr v)"
      by (auto simp: visit_callee_def bind_eq_Some_conv slice_get_Some)
    with Suc.IH Unvisited show ?thesis by blast
  next
    case InProgress
    with that show ?thesis by (auto simp: visit_callee_def bind_eq_Some_conv slice_get_Some)
  next
    case VisitDone
    with that show ?thesis
      by (auto simp: visit_callee_def bind_eq_Some_conv slice_get_Some done_set_def visit_steps_refl)
  qed
  have "True \<and> visit_steps cs ?st st2 \<and> (\<forall>g\<in>set (cs ! f). \<exists>u v. True \<and> visit_steps cs ?st u \<and>
      visit_callee n cs f g u = Some (Inr v) \<and> visit_steps cs v st2)"
    by (rule each_ok_steps [OF run TrueI _ visit_steps_refl visit_steps_trans]) (use step in blast)
  then have st: "visit_steps cs ?st st2" and callees: "set (cs ! f) \<subseteq> done_set st2"
    using step unfolding visit_steps_def by blast+
  note st_def = st [unfolded visit_steps_def]
  have notdone: "f \<notin> done_set st2"
    using st_def Suc.prems(2) by (auto simp: done_set_def)
  have done1: "done_set ?st = done_set st"
    using Suc.prems by (auto simp: done_set_def nth_list_update split: if_splits)
  have done2: "done_set st' = insert f (done_set st2)"
    using st' by (auto simp: done_set_def nth_list_update split: if_splits)
  have "call_ranked cs (done_set st')" if "call_ranked cs (done_set st)"
    unfolding done2 by (rule call_ranked_insert [OF _ callees notdone]) (use st_def that done1 in simp)
  moreover have "\<forall>g<length st. st ! g = InProgress \<longleftrightarrow> st' ! g = InProgress"
    using st_def Suc.prems st' by (auto simp: nth_list_update)
  ultimately show ?case
    using st_def done1 done2 st' by (auto simp: visit_steps_def)
qed simp

definition visit_root_function :: "nat \<Rightarrow> nat list list \<Rightarrow> nat \<Rightarrow> visit_state list \<Rightarrow> visit_state list checked" where
  "visit_root_function n cs f state = do {
     st \<leftarrow> slice_get state f;
     if st = Unvisited then detect_cycle n cs f state else checked_ok state
   }"

definition visit_idle :: "nat \<Rightarrow> visit_state list \<Rightarrow> bool" where
  "visit_idle n st \<longleftrightarrow> length st = n \<and> InProgress \<notin> set st"

lemma visit_root_function_ok:
  assumes u: "visit_idle k u" and r: "visit_root_function n cs f u = Some (Inr v)"
  shows "visit_idle k v \<and> visit_steps cs u v" "f \<in> done_set v"
proof -
  from r have f: "f < length u" by (auto simp: visit_root_function_def bind_eq_Some_conv slice_get_Some)
  have "(visit_idle k v \<and> visit_steps cs u v) \<and> f \<in> done_set v"
  proof (cases "u ! f")
    case Unvisited
    with r f have "detect_cycle n cs f u = Some (Inr v)" by (simp add: visit_root_function_def)
    from detect_cycle_ok [OF this f Unvisited] have v: "visit_steps cs u v" "f \<in> done_set v" by auto
    moreover have "InProgress \<notin> set v"
      using u v(1) unfolding visit_steps_def visit_idle_def by (metis in_set_conv_nth)
    ultimately show ?thesis using u by (simp add: visit_steps_def visit_idle_def)
  next
    case InProgress
    with u f show ?thesis unfolding visit_idle_def by (metis nth_mem)
  next
    case VisitDone
    with r f u show ?thesis by (auto simp: visit_root_function_def done_set_def visit_steps_refl)
  qed
  then show "visit_idle k v \<and> visit_steps cs u v" "f \<in> done_set v" by simp_all
qed

lemma validate_call_graph_ok:
  assumes "validate_call_graph ir edges fs = Some (Inr ())"
  shows "\<exists>r :: nat \<Rightarrow> nat. \<forall>f\<in>set fs. \<forall>g. (f, g) \<in> set edges \<longrightarrow> r g < r f"
proof -
  let ?n = "length (ir_functions ir)"
  let ?start = "replicate ?n Unvisited"
  have "validate_call_graph ir edges fs = do {
      cs \<leftarrow> call_lists ir edges;
      and_then (each_ok (visit_root_function (?n + 1) cs) fs ?start) (\<lambda>_. checked_ok ())
    }" by (simp only: validate_call_graph_def visit_root_function_def [abs_def])
  with assms obtain cs st where cs: "call_lists ir edges = Some cs"
    and run: "each_ok (visit_root_function (?n + 1) cs) fs ?start = Some (Inr st)"
    by (auto simp: bind_eq_Some_conv)
  have "visit_idle ?n ?start" by (auto simp: visit_idle_def)
  have "visit_idle ?n st \<and> visit_steps cs ?start st \<and> (\<forall>f\<in>set fs. \<exists>u v. visit_idle ?n u \<and>
      visit_steps cs ?start u \<and> visit_root_function (?n + 1) cs f u = Some (Inr v) \<and> visit_steps cs v st)"
    by (rule each_ok_steps [where I = "visit_idle ?n" and R = "visit_steps cs", OF run])
      (use \<open>visit_idle ?n ?start\<close> visit_root_function_ok(1) visit_steps_refl visit_steps_trans in blast)+
  then have steps: "visit_steps cs ?start st" and each: "\<forall>f\<in>set fs. \<exists>u v. visit_idle ?n u \<and>
      visit_root_function (?n + 1) cs f u = Some (Inr v) \<and> visit_steps cs v st" by blast+
  have all: "visit_steps cs ?start st" "set fs \<subseteq> done_set st"
    using steps each visit_root_function_ok(2) unfolding visit_steps_def by blast+
  have "done_set ?start = {}" by (auto simp: done_set_def)
  then have "call_ranked cs (done_set st)" using all(1) by (simp add: visit_steps_def call_ranked_def)
  then obtain r :: "nat \<Rightarrow> nat" where r: "\<forall>f\<in>done_set st. \<forall>g\<in>set (cs ! f). g \<in> done_set st \<and> r g < r f"
    unfolding call_ranked_def by blast
  have "r g < r f" if "f \<in> set fs" "(f, g) \<in> set edges" for f g
  proof -
    have f: "f \<in> done_set st" using that(1) all(2) by blast
    then have "f < length (ir_functions ir)" using all(1) by (auto simp: done_set_def visit_steps_def)
    with call_lists_spec [OF cs] that(2) have "g \<in> set (cs ! f)" by auto
    with r f show ?thesis by blast
  qed
  then show ?thesis by blast
qed


subsection \<open>Definitions and uses of a block\<close>

definition ins_of :: "ir_program \<Rightarrow> nat \<Rightarrow> nat list" where
  "ins_of ir i = (case ov_inputs ir i of None \<Rightarrow> [] | Some ls \<Rightarrow> ls)"

definition outs_of :: "ir_program \<Rightarrow> nat \<Rightarrow> nat list" where
  "outs_of ir i = (case ov_outputs ir i of None \<Rightarrow> [] | Some ls \<Rightarrow> ls)"

definition block_ins :: "ir_program \<Rightarrow> nat \<Rightarrow> nat list" where
  "block_ins ir b = (case bv_inputs ir b of None \<Rightarrow> [] | Some ls \<Rightarrow> ls)"

definition block_outs :: "ir_program \<Rightarrow> nat \<Rightarrow> nat list" where
  "block_outs ir b = (case bv_outputs ir b of None \<Rightarrow> [] | Some ls \<Rightarrow> ls)"

definition block_ops :: "ir_program \<Rightarrow> nat \<Rightarrow> nat list" where
  "block_ops ir b = (case bv_operations ir b of None \<Rightarrow> [] | Some is \<Rightarrow> is)"

text \<open>The locals a block defines before its operation number \<open>k\<close>, and all it defines.\<close>

definition defs_before :: "ir_program \<Rightarrow> nat \<Rightarrow> nat \<Rightarrow> nat list" where
  "defs_before ir b k = block_ins ir b @ concat (map (outs_of ir) (take k (block_ops ir b)))"

definition block_defs :: "ir_program \<Rightarrow> nat \<Rightarrow> nat list" where
  "block_defs ir b = defs_before ir b (length (block_ops ir b))"

definition control_uses :: "control \<Rightarrow> nat set" where
  "control_uses ctl = (case ctl of Branches br \<Rightarrow> {br_condition br} | Switches sw \<Rightarrow> {sw_condition sw} | _ \<Rightarrow> {})"

text \<open>When the locals of \<open>S\<close> are defined on entry to \<open>b\<close>, everything \<open>b\<close> uses is defined before its use.\<close>

definition scoped_block :: "ir_program \<Rightarrow> nat set \<Rightarrow> nat \<Rightarrow> bool" where
  "scoped_block ir S b \<longleftrightarrow>
     (\<forall>k<length (block_ops ir b). set (ins_of ir (block_ops ir b ! k)) \<subseteq> S \<union> set (defs_before ir b k)) \<and>
     set (block_outs ir b) \<subseteq> S \<union> set (block_defs ir b) \<and>
     control_uses (bb_control (ir_blocks ir ! b)) \<subseteq> S \<union> set (block_defs ir b)"

lemma block_ops_in: "b < length (ir_blocks ir) \<Longrightarrow> block_ops ir b = span_indices (bb_operations (ir_blocks ir ! b))"
  by (simp add: block_ops_def bv_operations_def)

lemma add_definitions:
  "each_ok add_definition ls S = Some (Inr T) \<longleftrightarrow> distinct ls \<and> set ls \<inter> S = {} \<and> T = S \<union> set ls"
proof (induction ls arbitrary: S)
  case (Cons l ls)
  show ?case
  proof (cases "l \<in> S")
    case True
    then show ?thesis by (auto simp: add_definition_def)
  next
    case False
    then show ?thesis using Cons.IH [of "insert l S"] by (auto simp: add_definition_def)
  qed
qed auto

lemma op_definitions:
  assumes "each_ok (\<lambda>i defs. do {
       outs \<leftarrow> ov_outputs ir i;
       each_ok add_definition outs defs
     }) is S = Some (Inr T)"
  shows "distinct (concat (map (outs_of ir) is)) \<and> set (concat (map (outs_of ir) is)) \<inter> S = {} \<and>
     T = S \<union> set (concat (map (outs_of ir) is))"
  using assms
proof (induction "is" arbitrary: S)
  case (Cons i "is")
  then obtain outs where outs: "ov_outputs ir i = Some outs" by (auto simp: bind_eq_Some_conv)
  with Cons.prems obtain U where U: "distinct outs" "set outs \<inter> S = {}" "U = S \<union> set outs"
    and rest: "each_ok (\<lambda>i defs. do {
       outs \<leftarrow> ov_outputs ir i;
       each_ok add_definition outs defs
     }) is U = Some (Inr T)" by (auto simp: add_definitions)
  from Cons.IH [OF rest] U outs show ?case by (auto simp: outs_of_def)
qed simp

lemma single_assignment_ok:
  assumes bs: "rp_blocks_rpo rpo = Some bs" and ok: "validate_single_assignment ir rpo = Some (Inr ())"
  shows "distinct (concat (map (block_defs ir) bs))"
proof -
  let ?f = "\<lambda>b defs. do {
     bb \<leftarrow> slice_get (ir_blocks ir) b;
     ins \<leftarrow> read_span (ir_locals ir) (bb_inputs bb);
     and_then (each_ok add_definition ins defs) (\<lambda>defs.
       each_ok (\<lambda>i defs. do {
         outs \<leftarrow> ov_outputs ir i;
         each_ok add_definition outs defs
       }) (span_indices (bb_operations bb)) defs)
   }"
  have step: "distinct (block_defs ir b) \<and> set (block_defs ir b) \<inter> S = {} \<and> T = S \<union> set (block_defs ir b)"
    if run: "?f b S = Some (Inr T)" for b S T
  proof -
    from run obtain ins U where b: "b < length (ir_blocks ir)"
      and ins: "read_span (ir_locals ir) (bb_inputs (ir_blocks ir ! b)) = Some ins"
      and U: "each_ok add_definition ins S = Some (Inr U)"
      and ops: "each_ok (\<lambda>i defs. do {
         outs \<leftarrow> ov_outputs ir i;
         each_ok add_definition outs defs
       }) (span_indices (bb_operations (ir_blocks ir ! b))) U = Some (Inr T)"
      by (auto simp: bind_eq_Some_conv slice_get_Some)
    have "block_ins ir b = ins" using b ins by (simp add: block_ins_def bv_inputs_def)
    with U op_definitions [OF ops] show ?thesis
      by (auto simp: block_defs_def defs_before_def block_ops_in [OF b] add_definitions)
  qed
  have "distinct (concat (map (block_defs ir) bs)) \<and> set (concat (map (block_defs ir) bs)) \<inter> S = {}"
    if "each_ok ?f bs S = Some (Inr T)" for bs S T
    using that
  proof (induction bs arbitrary: S)
    case (Cons b bs)
    then obtain U where U: "?f b S = Some (Inr U)" "each_ok ?f bs U = Some (Inr T)"
      unfolding each_ok.simps(2) and_then_ok by blast
    from step [OF U(1)] Cons.IH [OF U(2)] show ?case by auto
  qed simp
  moreover from ok bs obtain T where "each_ok ?f bs {} = Some (Inr T)"
    unfolding validate_single_assignment_def by auto
  ultimately show ?thesis by blast
qed

subsection \<open>Scopes along the dominator tree\<close>

lemma check_use_ok [simp]: "check_use b kind l s = Some (Inr u) \<longleftrightarrow> l \<in> fst s"
  by (simp add: check_use_def)

lemma scope_ops:
  assumes "each_ok (scope_op ir b) is (S, A) = Some (Inr s')"
  shows "s' = (S \<union> set (concat (map (outs_of ir) is)), A @ concat (map (outs_of ir) is)) \<and>
     (\<forall>k<length is. set (ins_of ir (is ! k)) \<subseteq> S \<union> set (concat (map (outs_of ir) (take k is))))"
  using assms
proof (induction "is" arbitrary: S A)
  case (Cons i "is")
  from Cons.prems obtain u where u: "scope_op ir b i (S, A) = Some (Inr u)"
    and rest: "each_ok (scope_op ir b) is u = Some (Inr s')" by auto
  then obtain ins outs where io: "ov_inputs ir i = Some ins" "ov_outputs ir i = Some outs" "set ins \<subseteq> S"
    "u = (S \<union> set outs, A @ outs)"
    by (auto simp: scope_op_def bind_eq_Some_conv each_ok_unit scope_add_def)
  have ins: "ins_of ir i = ins" "outs_of ir i = outs" using io by (simp_all add: ins_of_def outs_of_def)
  from Cons.IH [OF rest [unfolded io(4)]]
  have IH: "s' = (S \<union> set outs \<union> set (concat (map (outs_of ir) is)), (A @ outs) @ concat (map (outs_of ir) is))"
    "\<forall>k<length is. set (ins_of ir (is ! k)) \<subseteq> S \<union> set outs \<union> set (concat (map (outs_of ir) (take k is)))"
    by simp_all
  have "set (ins_of ir ((i # is) ! k)) \<subseteq> S \<union> set (concat (map (outs_of ir) (take k (i # is))))"
    if "k < length (i # is)" for k
  proof (cases k)
    case 0
    then show ?thesis using io(3) ins by simp
  next
    case (Suc m)
    with that IH(2) have "set (ins_of ir (is ! m)) \<subseteq> S \<union> set outs \<union> set (concat (map (outs_of ir) (take m is)))"
      by auto
    with Suc ins show ?thesis by auto
  qed
  with IH(1) ins show ?case by (auto simp: Un_assoc)
qed simp

lemma scope_block_ok:
  assumes b: "b < length (ir_blocks ir)" and "S \<subseteq> set A"
    and run: "scope_block ir b (ir_blocks ir ! b) (S, A) = Some (Inr s')"
  shows "s' = (S \<union> set (block_defs ir b), A @ block_defs ir b)" "scoped_block ir (set A) b"
proof -
  let ?bb = "ir_blocks ir ! b"
  from run obtain ins outs where ins: "read_span (ir_locals ir) (bb_inputs ?bb) = Some ins"
    and ops: "each_ok (scope_op ir b) (span_indices (bb_operations ?bb)) (S \<union> set ins, A @ ins) = Some (Inr s')"
    and outs: "read_span (ir_locals ir) (bb_outputs ?bb) = Some outs"
    and uses: "each_ok (\<lambda>(idx, l) _. check_use b (UseBlockOutput idx) l s') (zip [0..<length outs] outs) ()
        = Some (Inr ())"
    and ctl: "scope_control b (bb_control ?bb) s' = Some (Inr ())"
    by (auto simp: scope_block_def scope_add_def bind_eq_Some_conv)
  have io: "block_ins ir b = ins" "block_outs ir b = outs"
    using b ins outs by (simp_all add: block_ins_def bv_inputs_def block_outs_def bv_outputs_def)
  note o = scope_ops [OF ops, folded block_ops_in [OF b]]
  from o show s': "s' = (S \<union> set (block_defs ir b), A @ block_defs ir b)"
    by (simp add: block_defs_def defs_before_def io Un_assoc)
  have "set outs \<subseteq> fst s'"
  proof
    fix l assume "l \<in> set outs"
    then obtain k where "k < length outs" "l = outs ! k" by (auto simp: in_set_conv_nth)
    then have "(k, l) \<in> set (zip [0..<length outs] outs)" by (force simp: set_zip)
    with uses show "l \<in> fst s'" unfolding each_ok_unit by fastforce
  qed
  moreover have "control_uses (bb_control ?bb) \<subseteq> fst s'"
    using ctl by (auto simp: scope_control_def control_uses_def split: control.splits)
  moreover have "set (ins_of ir (block_ops ir b ! k)) \<subseteq> set A \<union> set (defs_before ir b k)"
    if "k < length (block_ops ir b)" for k
    using o that assms(2) by (auto simp: defs_before_def io)
  ultimately show "scoped_block ir (set A) b"
    using assms(2) by (auto simp: scoped_block_def s' io)
qed

inductive tree_path :: "nat list list \<Rightarrow> nat \<Rightarrow> nat list \<Rightarrow> nat \<Rightarrow> bool" for ch where
  tree_here: "tree_path ch b [] b"
| tree_down: "c \<in> set (ch ! b) \<Longrightarrow> tree_path ch c ts x \<Longrightarrow> tree_path ch b (b # ts) x"

lemma tree_path_snoc: "tree_path ch b ts x \<Longrightarrow> y \<in> set (ch ! x) \<Longrightarrow> tree_path ch b (ts @ [x]) y"
  by (induction rule: tree_path.induct) (auto intro: tree_path.intros)

lemma validate_block_scope_ok:
  assumes "validate_block_scope n ir ch b (S, A) = Some (Inr s')" "S \<subseteq> set A"
  shows "snd s' = A \<and> fst s' \<subseteq> set A \<and>
     (\<forall>ts x. tree_path ch b ts x \<longrightarrow> scoped_block ir (set A \<union> \<Union> ((\<lambda>t. set (block_defs ir t)) ` set ts)) x)"
  using assms
proof (induction n arbitrary: b S A s')
  case (Suc n)
  from Suc.prems(1) obtain u cs in_scope added where b: "b < length (ir_blocks ir)"
    and u: "scope_block ir b (ir_blocks ir ! b) (S, A) = Some (Inr u)"
    and cs: "slice_get ch b = Some cs"
    and each: "each_ok (validate_block_scope n ir ch) cs u = Some (Inr (in_scope, added))"
    and s': "length A \<le> length added" "s' = (in_scope - set (drop (length A) added), take (length A) added)"
    by (auto simp: bind_eq_Some_conv slice_get_Some Let_def slice_range_def split: if_splits)
  from scope_block_ok [OF b Suc.prems(2) u]
  have u': "u = (S \<union> set (block_defs ir b), A @ block_defs ir b)" and scoped: "scoped_block ir (set A) b" .
  let ?A = "A @ block_defs ir b"
  let ?I = "\<lambda>s. snd s = ?A \<and> fst s \<subseteq> set ?A"
  have step: "?I t \<and> True" if "?I s" "validate_block_scope n ir ch c s = Some (Inr t)" for c s t
    using Suc.IH [of c "fst s" "snd s" t] that by (cases s) simp
  have "?I (in_scope, added) \<and> True \<and> (\<forall>c\<in>set cs. \<exists>s t. ?I s \<and> True \<and>
      validate_block_scope n ir ch c s = Some (Inr t) \<and> True)"
  proof (rule each_ok_steps [where I = ?I and R = "\<lambda>_ _. True", OF each])
    show "?I u" using u' Suc.prems(2) by auto
    show "?I t \<and> True" if "?I s" "validate_block_scope n ir ch c s = Some (Inr t)" for c s t
      by (rule step [OF that])
  qed simp_all
  then have I: "added = ?A" "in_scope \<subseteq> set ?A"
    and kids: "\<And>c. c \<in> set cs \<Longrightarrow> \<exists>s t. snd s = ?A \<and> fst s \<subseteq> set ?A \<and> validate_block_scope n ir ch c s = Some (Inr t)"
    by auto
  have "scoped_block ir (set A \<union> \<Union> ((\<lambda>t. set (block_defs ir t)) ` set ts)) x" if "tree_path ch b ts x" for ts x
    using that
  proof (cases rule: tree_path.cases)
    case tree_here
    with scoped show ?thesis by simp
  next
    case (tree_down c ts')
    with cs have "c \<in> set cs" by (simp add: slice_get_Some)
    from kids [OF this] obtain s t where st: "snd s = ?A" "fst s \<subseteq> set ?A"
      "validate_block_scope n ir ch c (fst s, snd s) = Some (Inr t)" by auto
    from Suc.IH [OF st(3)] st(1,2) tree_down(3)
    have "scoped_block ir (set ?A \<union> \<Union> ((\<lambda>t. set (block_defs ir t)) ` set ts')) x" by simp
    with tree_down(1) show ?thesis by (simp add: Un_assoc)
  qed
  with I s' show ?case by auto
qed simp


lemma dom_children_spec:
  assumes "dom_children_of ir rpo d = Some ch" "rp_blocks_rpo rpo = Some bs"
  shows "p < length (ir_blocks ir) \<Longrightarrow> set (ch ! p) = {b \<in> set bs. d b = Some p \<and> p \<noteq> b}"
proof -
  let ?f = "\<lambda>b children. (case d b of
       Some parent \<Rightarrow>
         if parent \<noteq> b then do {
           cs \<leftarrow> slice_get children parent;
           slice_set children parent (cs @ [b])
         } else Some children
     | None \<Rightarrow> Some children)"
  have "length ch = length ch0 \<and> (\<forall>p<length ch0. set (ch ! p) = set (ch0 ! p) \<union> {b \<in> set bs. d b = Some p \<and> p \<noteq> b})"
    if "fold_opt ?f bs ch0 = Some ch" for bs ch0
    using that
  proof (induction bs arbitrary: ch0)
    case (Cons b bs)
    then obtain ch1 where 1: "?f b ch0 = Some ch1" and run: "fold_opt ?f bs ch1 = Some ch"
      by (auto simp: bind_eq_Some_conv)
    from 1 have "length ch1 = length ch0 \<and>
        (\<forall>p<length ch0. set (ch1 ! p) = set (ch0 ! p) \<union> (if d b = Some p \<and> p \<noteq> b then {b} else {}))"
      by (auto simp: bind_eq_Some_conv slice_get_Some slice_set_def nth_list_update split: option.splits if_splits)
    with Cons.IH [OF run] show ?case by auto
  qed simp
  from this [of bs "replicate (length (ir_blocks ir)) []"] assms
  show "p < length (ir_blocks ir) \<Longrightarrow> set (ch ! p) = {b \<in> set bs. d b = Some p \<and> p \<noteq> b}"
    by (auto simp: dom_children_of_def)
qed

lemma tree_path_exists:
  assumes r: "dom_rank ir f r" and d: "function_idoms ir f d"
    and ch: "\<And>b p. b \<in> fn_blocks ir f \<Longrightarrow> d b = Some p \<Longrightarrow> p \<noteq> b \<Longrightarrow> b \<in> set (ch ! p)"
    and b: "b \<in> fn_blocks ir f"
  shows "\<exists>ts. tree_path ch (entry_of ir f) ts b \<and> (\<forall>t\<in>set ts. dominates ir (entry_of ir f) t b \<and> t \<noteq> b)"
  using b
proof (induction "r b" arbitrary: b rule: less_induct)
  case less
  show ?case
  proof (cases "b = entry_of ir f")
    case True
    then show ?thesis by (intro exI [of _ "[]"]) (auto intro: tree_here)
  next
    case False
    obtain i where i: "d b = Some i" "i \<in> fn_blocks ir f" "r i < r b"
      "\<And>x. dominates ir (entry_of ir f) x b \<longleftrightarrow> x = b \<or> dominates ir (entry_of ir f) x i"
      using idom_doms [OF r d less.prems False] by metis
    from less.hyps [OF i(3,2)] obtain ts where ts: "tree_path ch (entry_of ir f) ts i"
      "\<forall>t\<in>set ts. dominates ir (entry_of ir f) t i \<and> t \<noteq> i" by blast
    have "i \<noteq> b" using i(3) by auto
    with ch less.prems i(1) tree_path_snoc [OF ts(1)] have "tree_path ch (entry_of ir f) (ts @ [i]) b" by blast
    moreover have "dominates ir (entry_of ir f) t b \<and> t \<noteq> b" if t: "t \<in> set (ts @ [i])" for t
    proof -
      have ti: "dominates ir (entry_of ir f) t i" using t ts(2) dominates_self by auto
      have "\<not> dominates ir (entry_of ir f) b i" using r i(2,3) unfolding dom_rank_def by (metis leD)
      with ti i(4) show ?thesis by blast
    qed
    ultimately show ?thesis by blast
  qed
qed

lemma validate_scope_ok:
  assumes ix: "ir_indexed ir" and un: "ir_unshared ir" and s: "rpo_compute ir = Some s"
    and d: "\<And>f. live_function ir f \<Longrightarrow> function_idoms ir f d"
    and ok: "validate_scope ir s d = Some (Inr ())"
    and f: "live_function ir f" "cfg_path ir (entry_of ir f) (b # bs) b"
  shows "scoped_block ir (\<Union> ((\<lambda>c. set (block_defs ir c)) ` set bs)) b"
proof -
  let ?e = "entry_of ir f"
  obtain rb where fs: "set (rp_functions s) = {f. live_function ir f}" and rb: "rp_blocks_rpo s = Some rb"
    "set rb = {b. live_block ir b}" by (rule rpo_order [OF ix s])
  let ?go = "\<lambda>ch f added. do {
         entry \<leftarrow> fv_entry ir f;
         and_then (validate_block_scope (length (ir_blocks ir) + 1) ir ch entry ({}, added)) (\<lambda>(_, added).
           checked_ok added)
       }"
  from ok obtain ch t where ch: "dom_children_of ir s d = Some ch"
    and run: "each_ok (?go ch) (rp_functions s) [] = Some (Inr t)"
    by (auto simp: validate_scope_def bind_eq_Some_conv)
  have step: "v = []" if "u = []" "?go ch g u = Some (Inr v)" for g u v
  proof -
    from that obtain e w where "validate_block_scope (length (ir_blocks ir) + 1) ir ch e ({}, []) = Some (Inr w)"
      "snd w = v" by (auto simp: bind_eq_Some_conv simp del: validate_block_scope.simps)
    with validate_block_scope_ok [OF this(1)] show ?thesis by simp
  qed
  have "t = [] \<and> True \<and> (\<forall>g\<in>set (rp_functions s). \<exists>u v. u = [] \<and> True \<and> ?go ch g u = Some (Inr v) \<and> True)"
    by (rule each_ok_steps [where I = "\<lambda>u. u = []" and R = "\<lambda>_ _. True", OF run]) (use step in blast)+
  with fs f(1) obtain v where "?go ch f [] = Some (Inr v)" by blast
  then obtain w where w: "validate_block_scope (length (ir_blocks ir) + 1) ir ch ?e ({}, []) = Some (Inr w)"
    by (auto simp: bind_eq_Some_conv fv_entry_def entry_of_def slice_get_Some simp del: validate_block_scope.simps)
  have "cfg_path ir e bs b \<Longrightarrow> block_reach ir e b" for e bs b
    by (induction rule: cfg_path.induct) (auto intro: reach_refl reach_step)
  with f(2) have b: "b \<in> fn_blocks ir f" by (simp add: fn_blocks_def)
  obtain r where r: "dom_rank ir f r" using dom_rank_exists [OF ix un f(1)] by blast
  have "c \<in> set (ch ! p)" if c: "c \<in> fn_blocks ir f" "d c = Some p" "p \<noteq> c" for c p
  proof -
    have live: "live_block ir x" if "x \<in> fn_blocks ir f" for x
      using that f(1) by (auto simp: live_block_def fn_blocks_def)
    have "p \<in> fn_blocks ir f"
      using d [OF f(1)] c function_idomsE [OF d [OF f(1)] c(1)]
      by (cases "c = ?e") (auto simp: function_idoms_def)
    from live_block_in_range [OF ix live [OF this]] dom_children_spec [OF ch rb(1)] live [OF c(1)] c(2,3) rb(2)
    show ?thesis by blast
  qed
  from tree_path_exists [OF r d [OF f(1)] this b] obtain ts where ts: "tree_path ch ?e ts b"
    "\<forall>t\<in>set ts. dominates ir ?e t b \<and> t \<noteq> b" by blast
  from validate_block_scope_ok [OF w] ts(1)
  have sc: "scoped_block ir (\<Union> ((\<lambda>t. set (block_defs ir t)) ` set ts)) b" by simp
  have "set ts \<subseteq> set bs"
  proof
    fix t assume "t \<in> set ts"
    with ts(2) have "dominates ir ?e t b" "t \<noteq> b" by blast+
    with f(2) have "t \<in> set (b # bs)" unfolding dominates_def by blast
    with \<open>t \<noteq> b\<close> show "t \<in> set bs" by simp
  qed
  then have "\<Union> ((\<lambda>t. set (block_defs ir t)) ` set ts) \<subseteq> \<Union> ((\<lambda>c. set (block_defs ir c)) ` set bs)" by blast
  with sc show ?thesis unfolding scoped_block_def by blast
qed

subsection \<open>Spans\<close>

text \<open>The spans of a program that the check tracks.\<close>

definition op_spans :: "ir_program \<Rightarrow> nat \<Rightarrow> nat \<Rightarrow> tracked_span list" where
  "op_spans ir b i = (case op_allocated_spans (ir_operations ir ! i) ir of
       None \<Rightarrow> []
     | Some (input, output) \<Rightarrow>
         (case input of None \<Rightarrow> [] | Some s \<Rightarrow> [track s (SrcOpInputs b i)]) @
         (case output of None \<Rightarrow> [] | Some s \<Rightarrow> [track s (SrcOpOutputs b i)]))"

definition filled_span :: "span \<Rightarrow> span_source \<Rightarrow> tracked_span list" where
  "filled_span s src = (if span_is_empty s then [] else [track s src])"

definition block_spans :: "ir_program \<Rightarrow> nat \<Rightarrow> tracked_span list" where
  "block_spans ir b = (let bb = ir_blocks ir ! b in
     filled_span (bb_inputs bb) (SrcInputs b) @ filled_span (bb_outputs bb) (SrcOutputs b) @
     concat (map (op_spans ir b) (span_indices (bb_operations bb))))"

definition locals_spans :: "ir_program \<Rightarrow> tracked_span list" where
  "locals_spans ir = concat (map (block_spans ir) [0..<length (ir_blocks ir)])"

definition operations_spans :: "ir_program \<Rightarrow> tracked_span list" where
  "operations_spans ir =
     concat (map (\<lambda>b. filled_span (bb_operations (ir_blocks ir ! b)) (SrcOperations b)) [0..<length (ir_blocks ir)])"

definition spans_grow :: "tracked_span list \<Rightarrow> tracked_span list \<Rightarrow> legalizer \<Rightarrow> legalizer \<Rightarrow> bool" where
  "spans_grow ls os lg lg' \<longleftrightarrow> lg_locals_spans lg' = lg_locals_spans lg @ ls \<and>
     lg_operations_spans lg' = lg_operations_spans lg @ os"

lemma spans_grow_trans:
  "spans_grow ls os a b \<Longrightarrow> spans_grow ms ps b c \<Longrightarrow> spans_grow (ls @ ms) (os @ ps) a c"
  by (simp add: spans_grow_def)

lemma op_indices_grow:
  assumes "validate_op_indices ir b i lg = Some (Inr lg')"
  shows "spans_grow (op_spans ir b i) [] lg lg'"
proof -
  from assms obtain inp outp where sp: "op_allocated_spans (ir_operations ir ! i) ir = Some (inp, outp)"
    and lg': "(case outp of None \<Rightarrow> (case inp of None \<Rightarrow> lg | Some s \<Rightarrow> track_locals s (SrcOpInputs b i) lg)
       | Some s \<Rightarrow> track_locals s (SrcOpOutputs b i)
           (case inp of None \<Rightarrow> lg | Some s \<Rightarrow> track_locals s (SrcOpInputs b i) lg)) = lg'"
    by (auto simp: validate_op_indices_def bind_eq_Some_conv slice_get_Some Let_def)
  show ?thesis
    unfolding lg' [symmetric]
    by (cases inp; cases outp) (simp_all add: op_spans_def sp spans_grow_def track_locals_def)
qed

lemma ops_indices_grow:
  assumes "each_ok (validate_op_indices ir b) is lg = Some (Inr lg')"
  shows "spans_grow (concat (map (op_spans ir b) is)) [] lg lg'"
  using assms
proof (induction "is" arbitrary: lg)
  case (Cons i "is")
  then obtain u where u: "validate_op_indices ir b i lg = Some (Inr u)"
    "each_ok (validate_op_indices ir b) is u = Some (Inr lg')" by auto
  from spans_grow_trans [OF op_indices_grow [OF u(1)] Cons.IH [OF u(2)]] show ?case by simp
qed (simp add: spans_grow_def)

lemma block_indices_grow:
  assumes "validate_block_indices ir b (ir_blocks ir ! b) lg = Some (Inr lg')"
  shows "spans_grow (block_spans ir b) (filled_span (bb_operations (ir_blocks ir ! b)) (SrcOperations b)) lg lg'"
proof -
  let ?bb = "ir_blocks ir ! b"
  define l1 where "l1 = (if span_is_empty (bb_inputs ?bb) then lg else track_locals (bb_inputs ?bb) (SrcInputs b) lg)"
  define l2 where "l2 = (if span_is_empty (bb_outputs ?bb) then l1 else track_locals (bb_outputs ?bb) (SrcOutputs b) l1)"
  define l3 where "l3 = (if span_is_empty (bb_operations ?bb) then l2
      else track_operations (bb_operations ?bb) (SrcOperations b) l2)"
  note defs = track_locals_def track_operations_def filled_span_def spans_grow_def
  from assms have "each_ok (validate_op_indices ir b) (span_indices (bb_operations ?bb)) l3 = Some (Inr lg')"
    by (auto simp: validate_block_indices_def Let_def l1_def l2_def l3_def)
  from ops_indices_grow [OF this] have o: "spans_grow (concat (map (op_spans ir b) (span_indices (bb_operations ?bb)))) [] l3 lg'" .
  have 1: "spans_grow (filled_span (bb_inputs ?bb) (SrcInputs b)) [] lg l1"
    by (simp add: l1_def defs)
  have 2: "spans_grow (filled_span (bb_outputs ?bb) (SrcOutputs b)) [] l1 l2"
    by (simp add: l2_def defs)
  have 3: "spans_grow [] (filled_span (bb_operations ?bb) (SrcOperations b)) l2 l3"
    by (simp add: l3_def defs)
  from spans_grow_trans [OF spans_grow_trans [OF spans_grow_trans [OF 1 2] 3] o] show ?thesis
    by (simp add: block_spans_def Let_def)
qed

lemma validate_blocks_spans:
  assumes ok: "validate_blocks ir lg = Some (Inr lg')" and "lg_locals_spans lg = []" "lg_operations_spans lg = []"
  shows "validate_spans (locals_spans ir) (length (ir_locals ir)) = Some (Inr ())"
    and "validate_spans (operations_spans ir) (length (ir_operations ir)) = Some (Inr ())"
proof -
  let ?f = "\<lambda>(b, bb) lg. and_then (validate_block_terminators ir b bb) (\<lambda>_. validate_block_indices ir b bb lg)"
  let ?op = "\<lambda>b. filled_span (bb_operations (ir_blocks ir ! b)) (SrcOperations b)"
  have zip: "zip [0..<length (ir_blocks ir)] (ir_blocks ir) = map (\<lambda>b. (b, ir_blocks ir ! b)) [0..<length (ir_blocks ir)]"
    by (intro nth_equalityI) simp_all
  have grow: "spans_grow (concat (map (block_spans ir) bs)) (concat (map ?op bs)) u v"
    if "each_ok ?f (map (\<lambda>b. (b, ir_blocks ir ! b)) bs) u = Some (Inr v)" for bs u v
    using that
  proof (induction bs arbitrary: u)
    case (Cons b bs)
    then obtain w where w: "validate_block_indices ir b (ir_blocks ir ! b) u = Some (Inr w)"
      "each_ok ?f (map (\<lambda>b. (b, ir_blocks ir ! b)) bs) w = Some (Inr v)" by auto
    from spans_grow_trans [OF block_indices_grow [OF w(1)] Cons.IH [OF w(2)]] show ?case by simp
  qed (simp add: spans_grow_def)
  from ok have run: "each_ok ?f (map (\<lambda>b. (b, ir_blocks ir ! b)) [0..<length (ir_blocks ir)]) lg = Some (Inr lg')"
    and v: "validate_spans (lg_locals_spans lg') (length (ir_locals ir)) = Some (Inr ())"
      "validate_spans (lg_operations_spans lg') (length (ir_operations ir)) = Some (Inr ())"
    unfolding validate_blocks_def zip by auto
  from grow [OF run] assms(2,3) v show "validate_spans (locals_spans ir) (length (ir_locals ir)) = Some (Inr ())"
    "validate_spans (operations_spans ir) (length (ir_operations ir)) = Some (Inr ())"
    by (simp_all add: spans_grow_def locals_spans_def operations_spans_def)
qed

lemma no_adjacent_overlap:
  assumes "adjacent_overlap xs = None" "sorted (map (\<lambda>s. (tk_start s, tk_end s)) xs)"
  shows "sorted_wrt (\<lambda>s t. tk_end s \<le> tk_start t) xs"
  using assms
proof (induction xs rule: adjacent_overlap.induct)
  case (1 l r rest)
  then have lr: "tk_end l \<le> tk_start r" and IH: "sorted_wrt (\<lambda>s t. tk_end s \<le> tk_start t) (r # rest)"
    by (auto split: if_splits)
  have "tk_start r \<le> tk_start t" if "t \<in> set (r # rest)" for t
    using 1(3) that by (auto simp: less_eq_prod_def)
  with lr IH show ?case by (auto intro: order_trans)
qed auto

lemma validate_spans_ok:
  assumes "validate_spans spans bound = Some (Inr ())"
  shows "s \<in> set spans \<Longrightarrow> t \<in> set spans \<Longrightarrow> s \<noteq> t \<Longrightarrow> tk_end s \<le> tk_start t \<or> tk_end t \<le> tk_start s"
    and "\<forall>s\<in>set spans. tk_start s \<le> tk_end s \<Longrightarrow> s \<in> set spans \<Longrightarrow> tk_end s \<le> bound"
proof -
  let ?xs = "sort_key (\<lambda>s. (tk_start s, tk_end s)) spans"
  have none: "adjacent_overlap ?xs = None"
  proof (rule ccontr)
    assume "adjacent_overlap ?xs \<noteq> None"
    then obtain l r where "adjacent_overlap ?xs = Some (l, r)" by auto
    with assms show False by (simp add: validate_spans_def)
  qed
  with assms have last: "?xs \<noteq> [] \<longrightarrow> tk_end (last ?xs) \<le> bound"
    by (auto simp: validate_spans_def Let_def not_less split: if_splits)
  have sw: "sorted_wrt (\<lambda>s t. tk_end s \<le> tk_start t) ?xs"
    by (rule no_adjacent_overlap [OF none]) simp
  show "tk_end s \<le> tk_start t \<or> tk_end t \<le> tk_start s" if st: "s \<in> set spans" "t \<in> set spans" "s \<noteq> t"
  proof -
    from st have "s \<in> set ?xs" "t \<in> set ?xs" by simp_all
    then obtain i j where ij: "i < length ?xs" "?xs ! i = s" "j < length ?xs" "?xs ! j = t"
      unfolding in_set_conv_nth by blast
    with st(3) consider "i < j" | "j < i" by (cases i j rule: linorder_cases) auto
    then show ?thesis
      by cases (use sorted_wrt_nth_less [OF sw, of i j] sorted_wrt_nth_less [OF sw, of j i] ij in auto)
  qed
  show "tk_end s \<le> bound" if wf: "\<forall>s\<in>set spans. tk_start s \<le> tk_end s" and s: "s \<in> set spans"
  proof -
    from s have s': "s \<in> set ?xs" by simp
    then have ne: "?xs \<noteq> []" by force
    then obtain ys where ys: "?xs = ys @ [last ?xs]" using append_butlast_last_id by metis
    have "set ?xs = insert (last ?xs) (set ys)" by (subst ys) simp
    with s' consider "s = last ?xs" | "s \<in> set ys" by blast
    then show ?thesis
    proof cases
      case 2
      from sw have "sorted_wrt (\<lambda>s t. tk_end s \<le> tk_start t) (ys @ [last ?xs])" using ys by simp
      with 2 have "tk_end s \<le> tk_start (last ?xs)" by (simp add: sorted_wrt_append)
      moreover have "tk_start (last ?xs) \<le> tk_end (last ?xs)"
        using wf last_in_set [OF ne] by simp
      ultimately show ?thesis using last ne by simp
    qed (use last ne in simp)
  qed
qed

subsection \<open>Properties\<close>

lemma legalizer_run_ok:
  assumes er: "entries_in_range ir" and size: "length (ir_blocks ir) \<le> 25000000"
    and ok: "legalizer_run ir = Some (Inr ())"
  obtains lg lg' rpo edges bs where "ir_indexed ir" "ir_unshared ir" "rpo_compute ir = Some rpo"
    "validate_entry_points ir = Some (Inr ())" "validate_blocks ir lg = Some (Inr lg')"
    "\<And>f b. live_function ir f \<Longrightarrow> b \<in> fn_blocks ir f \<Longrightarrow> block_checked ir f edges b"
    "validate_call_graph ir edges (rp_functions rpo) = Some (Inr ())"
    "rp_blocks_rpo rpo = Some bs" "distinct (concat (map (block_defs ir) bs))"
    "\<And>f b bs. live_function ir f \<Longrightarrow> cfg_path ir (entry_of ir f) (b # bs) b \<Longrightarrow>
       scoped_block ir (\<Union> ((\<lambda>c. set (block_defs ir c)) ` set bs)) b"
    "lg_locals_spans lg = []" "lg_operations_spans lg = []"
proof -
  let ?lg = "\<lparr>lg_locals_spans = [], lg_operations_spans = [],
      lg_block_owner = replicate (length (ir_blocks ir)) None, lg_call_edges = []\<rparr>"
  from ok obtain lg' rpo d where e: "validate_entry_points ir = Some (Inr ())"
    and v: "validate_blocks ir ?lg = Some (Inr lg')"
    and rpo: "rpo_compute ir = Some rpo" and cfg: "validate_cfg ir rpo lg' = Some (Inr ())"
    and d: "stored_dominators ir rpo = Some d" and ids: "validate_local_ids ir rpo d = Some (Inr ())"
    by (auto simp: legalizer_run_def Let_def bind_eq_Some_conv)
  have ix: "ir_indexed ir" by (rule validated_indexed [OF er e v])
  obtain edges where un: "ir_unshared ir"
    and chk: "\<And>f b. live_function ir f \<Longrightarrow> b \<in> fn_blocks ir f \<Longrightarrow> block_checked ir f edges b"
    and graph: "validate_call_graph ir edges (rp_functions rpo) = Some (Inr ())"
    using validate_cfg_ok [OF ix rpo cfg] by metis
  obtain bs where bs: "rp_blocks_rpo rpo = Some bs" "reachable_compute rpo = Some {b. live_block ir b}"
    using rpo_live_blocks [OF ix] rpo by auto
  from dominators_are_idoms [OF ix un size, of "[]"] d rpo bs(2) have idoms: "\<And>f. live_function ir f \<Longrightarrow> function_idoms ir f d"
    by (auto simp: stored_dominators_def)
  from ids have sa: "validate_single_assignment ir rpo = Some (Inr ())" and sc: "validate_scope ir rpo d = Some (Inr ())"
    by (auto simp: validate_local_ids_def)
  show thesis
    by (rule that [of rpo ?lg lg' edges bs])
      (use ix un rpo e v chk graph bs(1) single_assignment_ok [OF bs(1) sa]
        validate_scope_ok [OF ix un rpo idoms sc] in simp_all)
qed


lemma distinct_concat_disjoint:
  "distinct (concat (map g bs)) \<Longrightarrow> b \<in> set bs \<Longrightarrow> c \<in> set bs \<Longrightarrow> b \<noteq> c \<Longrightarrow> set (g b) \<inter> set (g c) = {}"
  by (induction bs) auto

text \<open>C8: In a program the legalizer accepts, along every path from the entry of a
  live function, everything a block uses (the operands of each of its operations, its outputs and the
  condition of its control) is defined earlier on the path or earlier in the block, and no local is
  defined twice in the live part of the program.\<close>

theorem legal_uses_are_defined:
  assumes "entries_in_range ir" "length (ir_blocks ir) \<le> 25000000" "legalizer_run ir = Some (Inr ())"
  shows "(\<forall>f b bs. live_function ir f \<longrightarrow> cfg_path ir (entry_of ir f) (b # bs) b \<longrightarrow>
      scoped_block ir (\<Union> ((\<lambda>c. set (block_defs ir c)) ` set bs)) b) \<and>
    (\<forall>b. live_block ir b \<longrightarrow> distinct (block_defs ir b)) \<and>
    (\<forall>b c. live_block ir b \<longrightarrow> live_block ir c \<longrightarrow> b \<noteq> c \<longrightarrow> set (block_defs ir b) \<inter> set (block_defs ir c) = {})"
proof -
  obtain rpo bs where ix: "ir_indexed ir" and rpo: "rpo_compute ir = Some rpo" and bs: "rp_blocks_rpo rpo = Some bs"
    and d: "distinct (concat (map (block_defs ir) bs))"
    and scope: "\<And>f b bs. live_function ir f \<Longrightarrow> cfg_path ir (entry_of ir f) (b # bs) b \<Longrightarrow>
       scoped_block ir (\<Union> ((\<lambda>c. set (block_defs ir c)) ` set bs)) b"
    by (rule legalizer_run_ok [OF assms]) blast
  have live: "distinct bs" "set bs = {b. live_block ir b}"
    using rpo_live_blocks [OF ix] rpo bs by auto
  have "distinct (block_defs ir b)" if "live_block ir b" for b
    using that live(2) d by (auto simp: distinct_concat_iff)
  moreover have "set (block_defs ir b) \<inter> set (block_defs ir c) = {}"
    if "live_block ir b" "live_block ir c" "b \<noteq> c" for b c
    by (rule distinct_concat_disjoint [OF d]) (use that live(2) in auto)
  ultimately show ?thesis using scope by blast
qed


text \<open>C14: In an accepted program calls cannot nest forever: there is a rank of the
  functions that falls with every call a live function makes.\<close>

theorem legal_calls_terminate:
  assumes "entries_in_range ir" "length (ir_blocks ir) \<le> 25000000" "legalizer_run ir = Some (Inr ())"
  shows "\<exists>r :: nat \<Rightarrow> nat. \<forall>f b g. live_function ir f \<longrightarrow> b \<in> fn_blocks ir f \<longrightarrow> g \<in> set (callees_of ir b) \<longrightarrow>
    live_function ir g \<and> r g < r f"
proof -
  obtain rpo edges where ix: "ir_indexed ir" and rpo: "rpo_compute ir = Some rpo"
    and chk: "\<And>f b. live_function ir f \<Longrightarrow> b \<in> fn_blocks ir f \<Longrightarrow> block_checked ir f edges b"
    and graph: "validate_call_graph ir edges (rp_functions rpo) = Some (Inr ())"
    by (rule legalizer_run_ok [OF assms]) blast
  obtain bs where fs: "set (rp_functions rpo) = {f. live_function ir f}" by (rule rpo_order [OF ix rpo])
  obtain r :: "nat \<Rightarrow> nat" where r: "\<forall>f\<in>set (rp_functions rpo). \<forall>g. (f, g) \<in> set edges \<longrightarrow> r g < r f"
    using validate_call_graph_ok [OF graph] by blast
  have "live_function ir g \<and> r g < r f"
    if "live_function ir f" "b \<in> fn_blocks ir f" "g \<in> set (callees_of ir b)" for f b g
  proof -
    from chk [OF that(1,2)] that(3) have "(f, g) \<in> set edges" by (simp add: block_checked_def)
    moreover have "live_function ir g"
      using live_call [OF that(1) _ that(3)] that(2) by (simp add: fn_blocks_def)
    ultimately show ?thesis using r fs that(1) by blast
  qed
  then show ?thesis by blast
qed

text \<open>The number of inputs a call passes, with the function called.\<close>

definition call_of :: "ir_program \<Rightarrow> nat \<Rightarrow> (nat \<times> nat option) option" where
  "call_of ir i = (case opn_data (ir_operations ir ! i) of
       InternalCallData g a b \<Rightarrow> Some (g, span_len (icall_inputs_span a b))
     | InternalCallNeverData g s \<Rightarrow> Some (g, span_len s)
     | _ \<Rightarrow> None)"

lemma validate_call_arity:
  assumes "validate_call ir f i lg = Some (Inr lg')" "call_of ir i = Some (g, n)"
  shows "g < length (ir_functions ir) \<and> n \<noteq> None \<and> fn_get_inputs (ir_functions ir ! g) (ir_blocks ir) = n"
  using assms
  by (auto simp: validate_call_def call_of_def bind_eq_Some_conv slice_get_Some split: op_data.splits if_splits)

lemma validate_return_ok:
  assumes "validate_return ir f b (ir_blocks ir ! b) = Some (Inr ())" "bb_control (ir_blocks ir ! b) = InternalReturn"
  shows "span_len (bb_outputs (ir_blocks ir ! b)) = rk_count (fn_return_kind (ir_functions ir ! f)) \<and>
    \<not> rk_is_never (fn_return_kind (ir_functions ir ! f))"
  using assms
  by (auto simp: validate_return_def bind_eq_Some_conv slice_get_Some rk_count_def split: option.splits if_splits)

text \<open>C15: In an accepted program no two live functions share a block; along every edge the
  source passes as many outputs as the target takes inputs; an internal return yields what the function
  declares; every call passes as many inputs as the callee's entry block takes; and the entry points
  never return and take no inputs.\<close>

theorem legal_interfaces:
  assumes "entries_in_range ir" "length (ir_blocks ir) \<le> 25000000" "legalizer_run ir = Some (Inr ())"
  shows "ir_unshared ir \<and>
    (\<forall>f b. live_function ir f \<longrightarrow> b \<in> fn_blocks ir f \<longrightarrow>
       (\<forall>t\<in>set (succs_of ir b). span_len (bb_outputs (ir_blocks ir ! b)) = span_len (bb_inputs (ir_blocks ir ! t))) \<and>
       (bb_control (ir_blocks ir ! b) = InternalReturn \<longrightarrow>
          span_len (bb_outputs (ir_blocks ir ! b)) = rk_count (fn_return_kind (ir_functions ir ! f)) \<and>
          \<not> rk_is_never (fn_return_kind (ir_functions ir ! f))) \<and>
       (\<forall>i\<in>set (block_ops ir b). \<forall>g n. call_of ir i = Some (g, n) \<longrightarrow>
          g < length (ir_functions ir) \<and> n \<noteq> None \<and> fn_get_inputs (ir_functions ir ! g) (ir_blocks ir) = n)) \<and>
    (\<forall>f\<in>root_functions ir. rk_is_never (fn_return_kind (ir_functions ir ! f)) \<and>
       span_is_empty (bb_inputs (ir_blocks ir ! entry_of ir f)))"
proof -
  obtain edges where ix: "ir_indexed ir" and un: "ir_unshared ir"
    and e: "validate_entry_points ir = Some (Inr ())"
    and chk: "\<And>f b. live_function ir f \<Longrightarrow> b \<in> fn_blocks ir f \<Longrightarrow> block_checked ir f edges b"
    by (rule legalizer_run_ok [OF assms]) blast
  have "rk_is_never (fn_return_kind (ir_functions ir ! f)) \<and> span_is_empty (bb_inputs (ir_blocks ir ! entry_of ir f))"
    if "f \<in> root_functions ir" for f
    using e that
    by (auto simp: validate_entry_points_def validate_entry_def root_functions_def entry_of_def bind_eq_Some_conv
        slice_get_Some split: if_splits option.splits)
  moreover have "(\<forall>t\<in>set (succs_of ir b). span_len (bb_outputs (ir_blocks ir ! b)) = span_len (bb_inputs (ir_blocks ir ! t))) \<and>
       (bb_control (ir_blocks ir ! b) = InternalReturn \<longrightarrow>
          span_len (bb_outputs (ir_blocks ir ! b)) = rk_count (fn_return_kind (ir_functions ir ! f)) \<and>
          \<not> rk_is_never (fn_return_kind (ir_functions ir ! f))) \<and>
       (\<forall>i\<in>set (block_ops ir b). \<forall>g n. call_of ir i = Some (g, n) \<longrightarrow>
          g < length (ir_functions ir) \<and> n \<noteq> None \<and> fn_get_inputs (ir_functions ir ! g) (ir_blocks ir) = n)"
    if f: "live_function ir f" "b \<in> fn_blocks ir f" for f b
  proof -
    have "b < length (ir_blocks ir)"
      using live_block_in_range [OF ix, of b] f by (auto simp: live_block_def fn_blocks_def)
    note ops = block_ops_in [OF this]
    from chk [OF f] have c: "validate_return ir f b (ir_blocks ir ! b) = Some (Inr ())"
      "\<forall>i\<in>set (block_ops ir b). \<exists>lg lg'. validate_call ir f i lg = Some (Inr lg')"
      "\<forall>t\<in>set (succs_of ir b). span_len (bb_outputs (ir_blocks ir ! b)) = span_len (bb_inputs (ir_blocks ir ! t))"
      by (auto simp: block_checked_def ops)
    have "g < length (ir_functions ir) \<and> n \<noteq> None \<and> fn_get_inputs (ir_functions ir ! g) (ir_blocks ir) = n"
      if "i \<in> set (block_ops ir b)" "call_of ir i = Some (g, n)" for i g n
    proof -
      from c(2) that(1) obtain u v where "validate_call ir f i u = Some (Inr v)" by blast
      from validate_call_arity [OF this that(2)] show ?thesis .
    qed
    with c(3) validate_return_ok [OF c(1)] show ?thesis by blast
  qed
  ultimately show ?thesis using un by blast
qed

text \<open>C20: In an accepted program no two tracked spans overlap, neither in the vector of
  locals (inputs and outputs of blocks, operands of operations) nor in the vector of operations; and
  when no span is reversed they all lie inside their vector.\<close>

theorem legal_spans_disjoint:
  assumes "entries_in_range ir" "length (ir_blocks ir) \<le> 25000000" "legalizer_run ir = Some (Inr ())"
  shows "(\<forall>s\<in>set (locals_spans ir). \<forall>t\<in>set (locals_spans ir). s \<noteq> t \<longrightarrow>
      tk_end s \<le> tk_start t \<or> tk_end t \<le> tk_start s) \<and>
    (\<forall>s\<in>set (operations_spans ir). \<forall>t\<in>set (operations_spans ir). s \<noteq> t \<longrightarrow>
      tk_end s \<le> tk_start t \<or> tk_end t \<le> tk_start s) \<and>
    ((\<forall>s\<in>set (locals_spans ir). tk_start s \<le> tk_end s) \<longrightarrow>
      (\<forall>s\<in>set (locals_spans ir). tk_end s \<le> length (ir_locals ir))) \<and>
    ((\<forall>s\<in>set (operations_spans ir). tk_start s \<le> tk_end s) \<longrightarrow>
      (\<forall>s\<in>set (operations_spans ir). tk_end s \<le> length (ir_operations ir)))"
proof -
  obtain lg lg' where v: "validate_blocks ir lg = Some (Inr lg')" "lg_locals_spans lg = []" "lg_operations_spans lg = []"
    by (rule legalizer_run_ok [OF assms]) blast
  note s = validate_blocks_spans [OF v]
  show ?thesis
    using validate_spans_ok [OF s(1)] validate_spans_ok [OF s(2)] by meson
qed


subsection \<open>An accepted program\<close>

definition legal_sample :: ir_program where
  "legal_sample = ir_default\<lparr>
     ir_functions := [\<lparr>fn_entry = 0, fn_return_kind = rk_never, fn_source = None\<rparr>,
                      \<lparr>fn_entry = 3, fn_return_kind = rk_never, fn_source = None\<rparr>],
     ir_locals := [0, 1],
     ir_next_free_local := 2,
     ir_operations := [Operation OpSetSmallConst (SetSmallConstData 0 7), Operation OpStop UnitData,
       Operation OpInternalCallNever (InternalCallNeverData 1 (0, 1)), Operation OpStop UnitData],
     ir_blocks :=
       [\<lparr>bb_inputs = (0, 0), bb_outputs = (0, 0), bb_operations = (0, 1), bb_control =
           Branches \<lparr>br_condition = 0, br_non_zero_target = 1, br_zero_target = 2\<rparr>\<rparr>,
        \<lparr>bb_inputs = (0, 0), bb_outputs = (0, 0), bb_operations = (1, 2), bb_control = LastOpTerminates\<rparr>,
        \<lparr>bb_inputs = (0, 0), bb_outputs = (0, 0), bb_operations = (2, 3), bb_control = LastOpTerminates\<rparr>,
        \<lparr>bb_inputs = (1, 2), bb_outputs = (0, 0), bb_operations = (3, 4), bb_control = LastOpTerminates\<rparr>]\<rparr>"

lemmas legal_sample_simps = legal_sample_def ir_default_def

lemma legal_sample_entries: "validate_entry_points legal_sample = Some (Inr ())"
  by (simp add: legal_sample_simps validate_entry_points_def validate_entry_def rk_is_never_def span_is_empty_def)

lemma legal_sample_blocks: "\<exists>lg'. validate_blocks legal_sample
   \<lparr>lg_locals_spans = [], lg_operations_spans = [], lg_block_owner = replicate 4 None, lg_call_edges = []\<rparr>
   = Some (Inr lg') \<and> lg_block_owner lg' = replicate 4 None \<and> lg_call_edges lg' = []"
  by (simp add: legal_sample_simps validate_blocks_def validate_block_terminators_def validate_block_indices_def
     span_is_empty_def span_indices_def read_span_def is_terminating_def validate_control_def validate_basic_block_id_def
     validate_op_indices_def validate_op_data_def op_inputs_def op_outputs_def validate_local_list_def
     op_allocated_spans_def icall_never_allocated_spans_def icall_never_inputs_def track_locals_def track_operations_def track_def
     validate_spans_def eval_nat_numeral upt_rec sort_key_def rk_is_never_def idx_sub_def)

lemma legal_sample_rpo: "\<exists>s. rpo_compute legal_sample = Some s \<and> rp_functions s = [0, 1] \<and>
   rp_blocks s 0 = Some [0, 1, 2] \<and> rp_blocks s 1 = Some [3]"
  by (simp add: legal_sample_simps rpo_compute_def rpo_fuel_def rp_empty_def eval_nat_numeral bv_successors_def op_callee_def
      visit_block.simps span_indices_def upt_rec)

lemma legal_sample_cfg:
  assumes "rp_functions s = [0, 1]" "lg_block_owner lg = replicate 4 None" "lg_call_edges lg = []"
  shows "validate_cfg legal_sample s lg = Some (Inr ())"
  by (simp add: assms legal_sample_simps validate_cfg_def fv_entry_def eval_nat_numeral bv_successors_def
      validate_return_def validate_call_def span_indices_def upt_rec span_len_def idx_sub_def fn_get_inputs_def
      validate_call_graph_def call_lists_def)


lemma legal_sample_preds:
  "preds_compute legal_sample {0, 1, 2, 3} [] = Some [[], [0], [0], []]"
  by (simp add: legal_sample_simps preds_compute_def vec_resize_def eval_nat_numeral upt_rec bv_successors_def preds_push_def)

lemma one_sweep:
  assumes "fold_opt (dom_block ps pos) L (d, False) = Some (d', ch)" "ll_tick l = Some l'"
    "ch \<Longrightarrow> dom_loop l' ps pos (b # L) d' = Some d''" "\<not> ch \<Longrightarrow> d'' = d'"
  shows "dom_loop l ps pos (b # L) d = Some d''"
  using assms by (subst dom_loop.simps) (auto simp: dom_pass_def slice_range_def)

lemma legal_sample_loop:
  "dom_loop ll_new [[], [0], [0], []] [0, 1, 2, 0] [0, 1, 2] [0 \<mapsto> 0] = Some [0 \<mapsto> 0, 1 \<mapsto> 0, 2 \<mapsto> 0]"
  "dom_loop ll_new [[], [0], [0], []] [0, 0, 0, 0] [3] [0 \<mapsto> 0, 1 \<mapsto> 0, 2 \<mapsto> 0, 3 \<mapsto> 3] =
     Some [0 \<mapsto> 0, 1 \<mapsto> 0, 2 \<mapsto> 0, 3 \<mapsto> 3]"
proof -
  note simps = dom_block_def preds_of_def ll_new_def ll_with_max_def ll_tick_def fun_upd_idem_iff fun_eq_iff
  let ?ps = "[[], [0], [0], []] :: nat list list" and ?pos = "[0, 1, 2, 0] :: nat list"
  let ?d = "[0 \<mapsto> 0, 1 \<mapsto> 0, 2 \<mapsto> 0] :: dom_map"
  have 1: "fold_opt (dom_block ?ps ?pos) [1, 2] ([0 \<mapsto> 0], False) = Some (?d, True)"
    by (simp add: simps)
  have 2: "fold_opt (dom_block ?ps ?pos) [1, 2] (?d, False) = Some (?d, False)"
    by (simp add: simps)
  obtain l1 where l1: "ll_tick ll_new = Some l1" "ll_left l1 = 99999999" "ll_max l1 = 100000000"
    using ll_tick_left [of ll_new] by auto
  obtain l2 where l2: "ll_tick l1 = Some l2" using ll_tick_left [of l1] l1 by auto
  have "dom_loop l1 ?ps ?pos [0, 1, 2] ?d = Some ?d" by (rule one_sweep [OF 2 l2]) simp_all
  then show "dom_loop ll_new ?ps ?pos [0, 1, 2] [0 \<mapsto> 0] = Some ?d"
    by (intro one_sweep [OF 1 l1(1)]) simp_all
  show "dom_loop ll_new ?ps [0, 0, 0, 0] [3] (?d(3 \<mapsto> 3)) = Some (?d(3 \<mapsto> 3))"
    by (rule one_sweep [where ch = False and d' = "?d(3 \<mapsto> 3)", OF _ l1(1)]) simp_all
qed

lemma legal_sample_dominators:
  assumes "rp_functions s = [0, 1]" "rp_blocks s 0 = Some [0, 1, 2]" "rp_blocks s 1 = Some [3]"
  shows "stored_dominators legal_sample s = Some [0 \<mapsto> 0, 1 \<mapsto> 0, 2 \<mapsto> 0, 3 \<mapsto> 3]"
proof -
  have "reachable_compute s = Some {0, 1, 2, 3}"
    using assms by (auto simp: reachable_compute_def rp_blocks_rpo_def)
  moreover have "length (ir_blocks legal_sample) = 4" by (simp add: legal_sample_simps)
  moreover have "fv_entry legal_sample 0 = Some 0" "fv_entry legal_sample 1 = Some 3"
    by (simp_all add: legal_sample_simps fv_entry_def)
  moreover have "rpo_positions [0, 1, 2] [0, 0, 0, 0] = Some [0, 1, 2, 0]" "rpo_positions [3] [0, 0, 0, 0] = Some [0, 0, 0, 0]"
    by (simp_all add: rpo_positions_def eval_nat_numeral)
  ultimately show ?thesis
    using legal_sample_loop assms legal_sample_preds
    by (simp add: stored_dominators_def dominators_compute_def compute_function_dominators_def eval_nat_numeral)
qed

lemma legal_sample_scope:
  assumes "rp_functions s = [0, 1]" "rp_blocks s 0 = Some [0, 1, 2]" "rp_blocks s 1 = Some [3]"
  shows "validate_local_ids legal_sample s [0 \<mapsto> 0, 1 \<mapsto> 0, 2 \<mapsto> 0, 3 \<mapsto> 3] = Some (Inr ())"
  by (simp add: assms [simplified] legal_sample_simps validate_local_ids_def validate_single_assignment_def rp_blocks_rpo_def
      read_span_def span_indices_def upt_rec eval_nat_numeral add_definition_def ov_outputs_def ov_inputs_def op_outputs_def op_inputs_def
      validate_scope_def dom_children_of_def fv_entry_def scope_block_def scope_add_def scope_op_def icall_never_inputs_def
      check_use_def scope_control_def)

lemma legal_sample_accepted: "legalizer_run legal_sample = Some (Inr ())"
proof -
  obtain s where s: "rpo_compute legal_sample = Some s" "rp_functions s = [0, 1]"
    "rp_blocks s 0 = Some [0, 1, 2]" "rp_blocks s 1 = Some [3]" using legal_sample_rpo by blast
  obtain lg where lg: "validate_blocks legal_sample
   \<lparr>lg_locals_spans = [], lg_operations_spans = [], lg_block_owner = replicate 4 None, lg_call_edges = []\<rparr>
     = Some (Inr lg)" "lg_block_owner lg = replicate 4 None" "lg_call_edges lg = []"
    using legal_sample_blocks by blast
  have "length (ir_blocks legal_sample) = 4" by (simp add: legal_sample_simps)
  then show ?thesis
    using legal_sample_entries lg(1) s(1) legal_sample_cfg [OF s(2) lg(2,3)] legal_sample_dominators [OF s(2-4)]
      legal_sample_scope [OF s(2-4)]
    by (simp add: legalizer_run_def)
qed


lemma legal_sample_ranges: "entries_in_range legal_sample" "length (ir_blocks legal_sample) \<le> 25000000"
  by (simp_all add: entries_in_range_def legal_sample_simps)

lemma legal_sample_live:
  "live_function legal_sample 0" "entry_of legal_sample 0 = 0" "2 \<in> fn_blocks legal_sample 0"
  "succs_of legal_sample 0 = [2, 1]"
proof -
  show "live_function legal_sample 0"
    by (rule live_root) (simp add: root_functions_def legal_sample_simps)
  show e: "entry_of legal_sample 0 = 0" by (simp add: entry_of_def legal_sample_simps)
  show s: "succs_of legal_sample 0 = [2, 1]" by (simp add: succs_of_def bv_successors_def legal_sample_simps)
  show "2 \<in> fn_blocks legal_sample 0"
    unfolding fn_blocks_def e by (simp add: reach_step [OF reach_refl] s)
qed

theorem legal_uses_are_defined_witness:
  "scoped_block legal_sample {0} 2 \<and> ins_of legal_sample (block_ops legal_sample 2 ! 0) = [0]"
proof -
  have "cfg_path legal_sample (entry_of legal_sample 0) [2, 0] 2"
    by (simp add: legal_sample_live cfg_path_step [OF cfg_path_start])
  with legal_uses_are_defined [OF legal_sample_ranges legal_sample_accepted] legal_sample_live(1)
  have "scoped_block legal_sample (\<Union> ((\<lambda>c. set (block_defs legal_sample c)) ` set [0])) 2" by blast
  moreover have "block_defs legal_sample 0 = [0]"
    by (simp add: block_defs_def defs_before_def block_ins_def bv_inputs_def read_span_def block_ops_def bv_operations_def
        span_indices_def outs_of_def ov_outputs_def op_outputs_def legal_sample_simps)
  ultimately show ?thesis
    by (simp add: block_ops_def bv_operations_def span_indices_def upt_rec ins_of_def ov_inputs_def op_inputs_def
        icall_never_inputs_def read_span_def legal_sample_simps)
qed

theorem legal_calls_terminate_witness:
  "\<exists>r :: nat \<Rightarrow> nat. r 1 < r 0 \<and> callees_of legal_sample 2 = [1]"
proof -
  have c: "callees_of legal_sample 2 = [1]"
    by (simp add: callees_of_def List.map_filter_def span_indices_def upt_rec op_callee_def legal_sample_simps)
  from legal_calls_terminate [OF legal_sample_ranges legal_sample_accepted] obtain r :: "nat \<Rightarrow> nat" where
    "\<forall>f b g. live_function legal_sample f \<longrightarrow> b \<in> fn_blocks legal_sample f \<longrightarrow> g \<in> set (callees_of legal_sample b) \<longrightarrow>
      live_function legal_sample g \<and> r g < r f" by blast
  with legal_sample_live c show ?thesis by (intro exI [of _ r]) auto
qed

theorem legal_interfaces_witness:
  "span_len (bb_outputs (ir_blocks legal_sample ! 0)) = span_len (bb_inputs (ir_blocks legal_sample ! 2)) \<and>
     ir_unshared legal_sample"
proof -
  have "0 \<in> fn_blocks legal_sample 0" by (simp add: fn_blocks_def legal_sample_live reach_refl)
  with legal_interfaces [OF legal_sample_ranges legal_sample_accepted] legal_sample_live show ?thesis by auto
qed

theorem legal_spans_disjoint_witness:
  "track (0, 1) (SrcOpInputs 2 2) \<in> set (locals_spans legal_sample) \<and>
     track (1, 2) (SrcInputs 3) \<in> set (locals_spans legal_sample) \<and>
     (tk_end (track (0, 1) (SrcOpInputs 2 2)) \<le> tk_start (track (1, 2) (SrcInputs 3)) \<or>
      tk_end (track (1, 2) (SrcInputs 3)) \<le> tk_start (track (0, 1) (SrcOpInputs 2 2)))"
proof -
  have "track (0, 1) (SrcOpInputs 2 2) \<in> set (locals_spans legal_sample)"
    "track (1, 2) (SrcInputs 3) \<in> set (locals_spans legal_sample)"
    by (simp_all add: locals_spans_def block_spans_def op_spans_def filled_span_def span_is_empty_def span_indices_def upt_rec
        op_allocated_spans_def icall_never_allocated_spans_def legal_sample_simps eval_nat_numeral)
  moreover have "track (0, 1) (SrcOpInputs 2 2) \<noteq> track (1, 2) (SrcInputs 3)" by (simp add: track_def)
  ultimately show ?thesis
    using legal_spans_disjoint [OF legal_sample_ranges legal_sample_accepted] by blast
qed


text \<open>A block whose operations lie outside the vector of operations is not reported as
  \<open>SpanOutOfBounds\<close>: the operations are read, which panics, before the spans are compared with the
  bounds.\<close>

theorem operations_out_of_bounds_panic:
  assumes "bb_control bb \<noteq> LastOpTerminates" "fst (bb_operations bb) < snd (bb_operations bb)"
    "length (ir_operations ir) \<le> fst (bb_operations bb)"
  shows "validate_block_terminators ir b bb = None"
proof -
  have "span_indices (bb_operations bb) = fst (bb_operations bb) # [Suc (fst (bb_operations bb))..<snd (bb_operations bb)]"
    using assms(2) by (simp add: span_indices_def upt_conv_Cons)
  with assms show ?thesis
    by (cases "bb_control bb") (simp_all add: validate_block_terminators_def slice_get_def)
qed

end
