(* ===== verification/Plank_Evm.thy ===== *)
theory Plank_Evm
  imports U256 Op_Kinds
begin

unbundle bit_operations_syntax

text \<open>
  The EVM's arithmetic (\<open>plankc/crates/plank-evm/src/lib.rs\<close>, \<open>version.rs\<close>) over the 256-bit
  integer library of \<open>U256\<close>, and the evaluation of operations on constants in constant propagation
  (\<open>plankc/sir/crates/passes/src/optimizations/constant_propagation.rs\<close>) that uses it.
\<close>

type_synonym u512 = "512 word"

definition evm_add :: "u256 \<Rightarrow> u256 \<Rightarrow> u256" where "evm_add a b = a + b"
definition evm_mul :: "u256 \<Rightarrow> u256 \<Rightarrow> u256" where "evm_mul a b = a * b"
definition evm_sub :: "u256 \<Rightarrow> u256 \<Rightarrow> u256" where "evm_sub a b = a - b"

definition evm_div :: "u256 \<Rightarrow> u256 \<Rightarrow> u256" where
  "evm_div a b = (case if b = 0 then None else Some (a div b) of None \<Rightarrow> 0 | Some q \<Rightarrow> q)"

definition evm_sdiv :: "u256_lib \<Rightarrow> u256 \<Rightarrow> u256 \<Rightarrow> u256" where
  "evm_sdiv L a b = (if b = 0 then 0 else i_wrapping_div L a b)"

definition evm_mod :: "u256 \<Rightarrow> u256 \<Rightarrow> u256" where
  "evm_mod a b = (case if b = 0 then None else Some (a mod b) of None \<Rightarrow> 0 | Some r \<Rightarrow> r)"

definition evm_smod :: "u256_lib \<Rightarrow> u256 \<Rightarrow> u256 \<Rightarrow> u256" where
  "evm_smod L a b = (case i_checked_rem L a b of None \<Rightarrow> 0 | Some r \<Rightarrow> r)"

text \<open>\<open>U256::from(U512)\<close> panics on a value that does not fit.\<close>

definition u256_from_u512 :: "u512 \<Rightarrow> u256 option" where
  "u256_from_u512 v = (if unat v < 2 ^ 256 then Some (ucast v) else None)"

definition evm_addmod :: "u256 \<Rightarrow> u256 \<Rightarrow> u256 \<Rightarrow> u256 option" where
  "evm_addmod a b n =
     (if n = 0 then Some 0 else u256_from_u512 ((ucast a + ucast b) mod ucast n))"

definition evm_mulmod :: "u256 \<Rightarrow> u256 \<Rightarrow> u256 \<Rightarrow> u256 option" where
  "evm_mulmod a b n =
     (if n = 0 then Some 0 else u256_from_u512 (ucast a * ucast b mod ucast n))"

definition evm_exp :: "u256_lib \<Rightarrow> u256 \<Rightarrow> u256 \<Rightarrow> u256" where
  "evm_exp L base exponent = u_wrapping_pow L base exponent"

definition usize_try_from :: "u256 \<Rightarrow> nat option" where
  "usize_try_from v = (if unat v < 2 ^ 64 then Some (unat v) else None)"

definition evm_signextend :: "u256 \<Rightarrow> u256 \<Rightarrow> u256" where
  "evm_signextend b x =
     (case Option.bind (usize_try_from b) (\<lambda>b. if b < 32 then Some b else None) of
        None \<Rightarrow> x
      | Some b \<Rightarrow>
          (let sign_bit_pos = (b + 1) * 8 - 1
           in if bit x sign_bit_pos then x OR push_bit (sign_bit_pos + 1) (- 1)
              else x AND (push_bit (sign_bit_pos + 1) 1 - 1)))"

definition evm_lt :: "u256 \<Rightarrow> u256 \<Rightarrow> bool" where "evm_lt a b = (a < b)"
definition evm_gt :: "u256 \<Rightarrow> u256 \<Rightarrow> bool" where "evm_gt a b = (b < a)"
definition evm_slt :: "u256 \<Rightarrow> u256 \<Rightarrow> bool" where "evm_slt a b = (sint a < sint b)"
definition evm_sgt :: "u256 \<Rightarrow> u256 \<Rightarrow> bool" where "evm_sgt a b = (sint b < sint a)"
definition evm_eq :: "u256 \<Rightarrow> u256 \<Rightarrow> bool" where "evm_eq a b = (a = b)"
definition evm_iszero :: "u256 \<Rightarrow> bool" where "evm_iszero a = (a = 0)"
definition evm_and :: "u256 \<Rightarrow> u256 \<Rightarrow> u256" where "evm_and a b = a AND b"
definition evm_or :: "u256 \<Rightarrow> u256 \<Rightarrow> u256" where "evm_or a b = a OR b"
definition evm_xor :: "u256 \<Rightarrow> u256 \<Rightarrow> u256" where "evm_xor a b = a XOR b"
definition evm_not :: "u256 \<Rightarrow> u256" where "evm_not a = NOT a"

definition evm_clz :: "u256_lib \<Rightarrow> u256 \<Rightarrow> u256" where
  "evm_clz L a = of_nat (u_leading_zeros L a)"

text \<open>\<open>to_be_bytes\<close> is the documented reversal of \<open>to_le_bytes\<close>.\<close>

definition evm_byte :: "u256_lib \<Rightarrow> u256 \<Rightarrow> u256 \<Rightarrow> u256" where
  "evm_byte L i x =
     (case usize_try_from i of
        None \<Rightarrow> 0
      | Some i \<Rightarrow> ucast (case slice_get (rev (u_to_le_bytes L x)) i of None \<Rightarrow> 0 | Some b \<Rightarrow> b))"

text \<open>A shift by 256 or more leaves nothing.\<close>

definition evm_shl :: "u256 \<Rightarrow> u256 \<Rightarrow> u256" where
  "evm_shl shift v = (if unat shift < 256 then push_bit (unat shift) v else 0)"

definition evm_shr :: "u256 \<Rightarrow> u256 \<Rightarrow> u256" where
  "evm_shr shift v = (if unat shift < 256 then drop_bit (unat shift) v else 0)"

definition evm_sar :: "u256_lib \<Rightarrow> u256 \<Rightarrow> u256 \<Rightarrow> u256" where
  "evm_sar L shift v =
     (case usize_try_from shift of
        Some shift \<Rightarrow> i_asr L v shift
      | None \<Rightarrow> if sint v < 0 then - 1 else 0)"

datatype evm_version =
  Homestead | TangerineWhistle | SpuriousDragon | Byzantium | Constantinople | Petersburg | Istanbul |
  Berlin | London | Paris | Shanghai | Cancun | Prague | Osaka

fun evm_version_index :: "evm_version \<Rightarrow> nat" where
  "evm_version_index Homestead = 0"
| "evm_version_index TangerineWhistle = 1"
| "evm_version_index SpuriousDragon = 2"
| "evm_version_index Byzantium = 3"
| "evm_version_index Constantinople = 4"
| "evm_version_index Petersburg = 5"
| "evm_version_index Istanbul = 6"
| "evm_version_index Berlin = 7"
| "evm_version_index London = 8"
| "evm_version_index Paris = 9"
| "evm_version_index Shanghai = 10"
| "evm_version_index Cancun = 11"
| "evm_version_index Prague = 12"
| "evm_version_index Osaka = 13"

fun evm_version_name :: "evm_version \<Rightarrow> string" where
  "evm_version_name Homestead = ''homestead''"
| "evm_version_name TangerineWhistle = ''tangerineWhistle''"
| "evm_version_name SpuriousDragon = ''spuriousDragon''"
| "evm_version_name Byzantium = ''byzantium''"
| "evm_version_name Constantinople = ''constantinople''"
| "evm_version_name Petersburg = ''petersburg''"
| "evm_version_name Istanbul = ''istanbul''"
| "evm_version_name Berlin = ''berlin''"
| "evm_version_name London = ''london''"
| "evm_version_name Paris = ''paris''"
| "evm_version_name Shanghai = ''shanghai''"
| "evm_version_name Cancun = ''cancun''"
| "evm_version_name Prague = ''prague''"
| "evm_version_name Osaka = ''osaka''"

definition u256_from_evm_version :: "evm_version \<Rightarrow> u256" where
  "u256_from_evm_version v = of_nat (evm_version_index v)"

text \<open>The derived order of the versions is that of their discriminants.\<close>

instantiation evm_version :: linorder
begin

definition less_eq_evm_version :: "evm_version \<Rightarrow> evm_version \<Rightarrow> bool" where
  "less_eq_evm_version a b = (evm_version_index a \<le> evm_version_index b)"

definition less_evm_version :: "evm_version \<Rightarrow> evm_version \<Rightarrow> bool" where
  "less_evm_version a b = (evm_version_index a < evm_version_index b)"

instance
proof
  fix a b :: evm_version
  show "a \<le> b \<Longrightarrow> b \<le> a \<Longrightarrow> a = b"
    by (cases a; cases b) (simp_all add: less_eq_evm_version_def)
qed (auto simp: less_eq_evm_version_def less_evm_version_def)

end

subsection \<open>Evaluation on constants\<close>

definition u256_from_bool :: "bool \<Rightarrow> u256" where
  "u256_from_bool b = (if b then 1 else 0)"

text \<open>
  \<open>evaluate\<close>: the arms with two operands name the function applied to them; the three-operand and
  one-operand arms are spelled out. An operand is the constant the lattice holds for it, if any.
  The inner option is the code's result, the outer one a panic.
\<close>

definition cp_binary :: "u256_lib \<Rightarrow> operation_kind \<Rightarrow> (u256 \<Rightarrow> u256 \<Rightarrow> u256) option" where
  "cp_binary L k = map_of
     [(OpAdd, evm_add), (OpMul, evm_mul), (OpSub, evm_sub), (OpDiv, evm_div), (OpSDiv, evm_sdiv L),
      (OpMod, evm_mod), (OpSMod, evm_smod L), (OpExp, evm_exp L), (OpSignExtend, evm_signextend),
      (OpLt, \<lambda>a b. u256_from_bool (evm_lt a b)), (OpGt, \<lambda>a b. u256_from_bool (evm_gt a b)),
      (OpSLt, \<lambda>a b. u256_from_bool (evm_slt a b)), (OpSGt, \<lambda>a b. u256_from_bool (evm_sgt a b)),
      (OpEq, \<lambda>a b. u256_from_bool (evm_eq a b)), (OpAnd, evm_and), (OpOr, evm_or), (OpXor, evm_xor),
      (OpByte, evm_byte L), (OpShl, evm_shl), (OpShr, evm_shr), (OpSar, evm_sar L)] k"

definition cp_evaluate :: "u256_lib \<Rightarrow> operation_kind \<Rightarrow> u256 option list \<Rightarrow> u256 option option" where
  "cp_evaluate L k ins =
     (case cp_binary L k of
        Some f \<Rightarrow> (case ins of [Some a, Some b] \<Rightarrow> Some (Some (f a b)) | _ \<Rightarrow> Some None)
      | None \<Rightarrow>
          if k = OpAddMod then
            (case ins of [Some a, Some b, Some n] \<Rightarrow> map_option Some (evm_addmod a b n) | _ \<Rightarrow> Some None)
          else if k = OpMulMod then
            (case ins of [Some a, Some b, Some n] \<Rightarrow> map_option Some (evm_mulmod a b n) | _ \<Rightarrow> Some None)
          else if k = OpNot then
            (case ins of [Some a] \<Rightarrow> Some (Some (evm_not a)) | _ \<Rightarrow> Some None)
          else if k = OpIsZero then
            (case ins of [Some a] \<Rightarrow> Some (Some (u256_from_bool (evm_iszero a))) | _ \<Rightarrow> Some None)
          else Some None)"

subsection \<open>The arithmetic is that of the EVM\<close>

lemma unat_evm_div: "unat (evm_div a b) = unat a div unat b"
  by (simp add: evm_div_def unat_div)

lemma unat_evm_mod: "unat (evm_mod a b) = (if b = 0 then 0 else unat a mod unat b)"
  by (simp add: evm_mod_def unat_mod)

lemma unat_less_256: "unat (a :: u256) < 2 ^ 256"
  using unsigned_less [of a, where 'a = nat] by simp

lemma unat_ucast_512: "unat (ucast (a :: u256) :: u512) = unat a"
  using unsigned_less [of a, where 'a = nat]
  by (simp add: unsigned_ucast_eq take_bit_nat_eq_self_iff)

lemma u256_from_u512_unat:
  "unat v < 2 ^ 256 \<Longrightarrow> \<exists>r. u256_from_u512 v = Some r \<and> unat r = unat v"
  by (simp add: u256_from_u512_def unsigned_ucast_eq take_bit_nat_eq_self_iff)

lemma unat_add_512: "unat (ucast (a :: u256) + ucast (b :: u256) :: u512) = unat a + unat b"
proof -
  have "unat a + unat b < 2 ^ 256 + 2 ^ 256" by (intro add_strict_mono unat_less_256)
  also have "\<dots> < 2 ^ 512" by simp
  finally show ?thesis by (simp add: unat_word_ariths unat_ucast_512 del: power_numeral)
qed

lemma unat_mult_512: "unat (ucast (a :: u256) * ucast (b :: u256) :: u512) = unat a * unat b"
proof -
  have "unat a * unat b < 2 ^ 256 * 2 ^ 256"
    using unat_less_256 [of a] unat_less_256 [of b] by (intro mult_strict_mono) simp_all
  also have "\<dots> = 2 ^ 512" by simp
  finally show ?thesis by (simp add: unat_word_ariths unat_ucast_512 del: power_numeral)
qed

lemma u256_from_mod:
  assumes "(n :: u256) \<noteq> 0"
  shows "\<exists>r. u256_from_u512 (v mod ucast n) = Some r \<and> unat r = unat v mod unat n"
proof -
  have "unat (v mod ucast n) = unat v mod unat n" by (simp add: unat_mod unat_ucast_512)
  moreover have "unat v mod unat n < unat n" using assms by (simp add: unat_gt_0)
  then have "unat v mod unat n < 2 ^ 256" using unat_less_256 by (rule order.strict_trans)
  ultimately show ?thesis using u256_from_u512_unat [of "v mod ucast n"] by simp
qed

lemma evm_addmod_spec:
  "\<exists>r. evm_addmod a b n = Some r \<and>
       unat r = (if n = 0 then 0 else (unat a + unat b) mod unat n)"
  using u256_from_mod [of n "ucast a + ucast b"] by (auto simp: evm_addmod_def unat_add_512)

lemma evm_mulmod_spec:
  "\<exists>r. evm_mulmod a b n = Some r \<and>
       unat r = (if n = 0 then 0 else (unat a * unat b) mod unat n)"
  using u256_from_mod [of n "ucast a * ucast b"] by (auto simp: evm_mulmod_def unat_mult_512)

lemma bit_evm_signextend:
  "bit (evm_signextend b x) n \<longleftrightarrow>
     n < 256 \<and> bit x (if unat b < 32 then min n (8 * unat b + 7) else n)"
proof (cases "unat b < 32")
  case True
  let ?k = "8 * unat b + 8"
  have k: "?k \<le> 256" using True by simp
  have "evm_signextend b x =
      (if bit x (8 * unat b + 7) then x OR push_bit ?k (- 1) else x AND mask ?k)"
    using True by (simp add: evm_signextend_def usize_try_from_def Let_def mask_eq_exp_minus_1 algebra_simps)
  then show ?thesis
    using True by (auto simp: bit_simps min_def dest: bit_imp_le_length)
next
  case False
  then have "evm_signextend b x = x" by (simp add: evm_signextend_def usize_try_from_def)
  with False show ?thesis by (auto dest: bit_imp_le_length)
qed

lemma sint_256_bounds: "- (2 ^ 255) \<le> sint (a :: u256)" "sint a < 2 ^ 255"
  using sint_greater_eq [of a] sint_lt [of a] by simp_all

lemma sint_word_of_int_256:
  "- (2 ^ 255) \<le> k \<Longrightarrow> k < 2 ^ 255 \<Longrightarrow> sint (word_of_int k :: u256) = k"
  by (simp add: sint_sbintrunc' signed_take_bit_int_eq_self)

lemma evm_sdiv_spec:
  assumes "u256_law L" and "\<not> (a = i256_min \<and> b = - 1)"
  shows "sint (evm_sdiv L a b) = (if b = 0 then 0 else sint a sdiv sint b)"
proof (cases "b = 0")
  case False
  have r: "- \<bar>sint a\<bar> \<le> sint a sdiv sint b" "sint a sdiv sint b \<le> \<bar>sint a\<bar>"
    using sdiv_int_range [of "sint a" "sint b"] by auto
  have "sint a sdiv sint b \<noteq> 2 ^ 255"
  proof
    assume eq: "sint a sdiv sint b = 2 ^ 255"
    with r sint_256_bounds [of a] have a: "sint a = - (2 ^ 255)" by linarith
    then have "sint b = - 1"
      using eq int_sdiv_negated_is_minus1 [of "sint a" "sint b"] by simp
    then have "sint b = sint (- 1 :: u256)" by simp
    then have "b = - 1" by (simp only: signed_word_eqI)
    moreover have "sint a = sint i256_min" using a by (simp add: i256_min_def)
    then have "a = i256_min" by (simp only: signed_word_eqI)
    ultimately show False using assms(2) by simp
  qed
  with r sint_256_bounds [of a] have "- (2 ^ 255) \<le> sint a sdiv sint b" "sint a sdiv sint b < 2 ^ 255"
    by linarith+
  with False assms(1) show ?thesis
    by (simp add: evm_sdiv_def u256_law_def sint_word_of_int_256)
qed (simp add: evm_sdiv_def)

lemma evm_smod_spec:
  assumes "u256_law L"
  shows "sint (evm_smod L a b) = (if b = 0 then 0 else sint a smod sint b)"
proof (cases "b = 0 \<or> a = i256_min \<and> b = - 1")
  case True
  then show ?thesis
    using assms by (auto simp: evm_smod_def u256_law_def signed_modulo_int_def signed_divide_int_def)
next
  case False
  then have "sint b \<noteq> 0" by (simp add: signed_eq_0_iff)
  with smod_int_range [of "sint b" "sint a"] sint_256_bounds [of b]
  have "- (2 ^ 255) \<le> sint a smod sint b" "sint a smod sint b < 2 ^ 255" by auto
  moreover have "i_checked_rem L a b = Some (word_of_int (sint a smod sint b))"
    using assms False by (auto simp: u256_law_def)
  ultimately show ?thesis using False by (simp add: evm_smod_def sint_word_of_int_256)
qed

lemma int_div_pow_large:
  assumes "- (2 ^ m) \<le> (x :: int)" "x < 2 ^ m" "m \<le> n"
  shows "x div 2 ^ n = (if x < 0 then - 1 else 0)"
proof -
  have le: "(2 :: int) ^ m \<le> 2 ^ n" using assms(3) by (simp add: power_increasing)
  show ?thesis
  proof (cases "x < 0")
    case True
    have "0 \<le> x + 2 ^ n" using assms(1) le by linarith
    then have "x div 2 ^ n = - 1"
      using True by (intro int_div_pos_eq [of _ _ _ "x + 2 ^ n"]) simp_all
    with True show ?thesis by simp
  next
    case False
    from le assms(2) have "x < 2 ^ n" by linarith
    with False show ?thesis by (simp add: div_pos_pos_trivial)
  qed
qed

lemma div_bounds:
  assumes "- m \<le> (x :: int)" "x < m" "0 < d" "0 < m"
  shows "- m \<le> x div d" "x div d < m"
proof -
  show "- m \<le> x div d"
  proof (cases "x < 0")
    case True
    have "- m * d \<le> - m * 1" using assms by (intro mult_left_mono_neg) auto
    with assms(1) have "- m * d \<le> x" by simp
    then show ?thesis using assms(3) by (metis nonzero_mult_div_cancel_right less_irrefl zdiv_mono1)
  qed (use assms pos_imp_zdiv_nonneg_iff [of d x] in linarith)
  show "x div d < m"
  proof (cases "x < 0")
    case True
    then have "x div d < 0" using assms(3) by (simp add: neg_imp_zdiv_neg_iff pos_imp_zdiv_neg_iff)
    with assms(4) show ?thesis by linarith
  qed (use assms zdiv_mono2 [of x 1 d] in simp)
qed

lemma evm_sar_spec:
  assumes "u256_law L"
  shows "sint (evm_sar L shift v) = sint v div 2 ^ unat shift"
proof (cases "unat shift < 2 ^ 64")
  case True
  let ?d = "(2 :: int) ^ unat shift"
  have "- (2 ^ 255) \<le> sint v div ?d" "sint v div ?d < 2 ^ 255"
    using div_bounds [of "2 ^ 255" "sint v" ?d] sint_256_bounds [of v] by simp_all
  moreover have "evm_sar L shift v = word_of_int (sint v div ?d)"
    using True assms by (simp add: evm_sar_def usize_try_from_def u256_law_def)
  ultimately show ?thesis by (simp add: sint_word_of_int_256)
next
  case False
  then have "sint v div 2 ^ unat shift = (if sint v < 0 then - 1 else 0)"
    using sint_256_bounds [of v] by (intro int_div_pow_large [of 255]) simp_all
  with False show ?thesis by (simp add: evm_sar_def usize_try_from_def)
qed

lemma evm_shift_spec:
  "unat (evm_shl shift v) = unat v * 2 ^ unat shift mod 2 ^ 256"
  "unat (evm_shr shift v) = unat v div 2 ^ unat shift"
proof -
  have big: "unat shift \<ge> 256 \<Longrightarrow> (2 :: nat) ^ 256 dvd 2 ^ unat shift" by (rule le_imp_power_dvd)
  then have "unat shift \<ge> 256 \<Longrightarrow> unat v * 2 ^ unat shift mod 2 ^ 256 = 0"
    by (simp only: dvd_imp_mod_0 dvd_mult)
  then show "unat (evm_shl shift v) = unat v * 2 ^ unat shift mod 2 ^ 256"
    using unsigned_push_bit_eq [of "unat shift" v, where 'a = nat]
    by (simp add: evm_shl_def take_bit_eq_mod push_bit_eq_mult)
  have "unat shift \<ge> 256 \<Longrightarrow> unat v < 2 ^ unat shift"
    using unat_less_256 [of v] power_increasing [of 256 "unat shift" "2 :: nat"] by linarith
  then show "unat (evm_shr shift v) = unat v div 2 ^ unat shift"
    using unat_less_256 [of v] unsigned_drop_bit_eq [of "unat shift" v, where 'a = nat]
    by (simp add: evm_shr_def take_bit_nat_eq_self drop_bit_eq_div)
qed

lemma evm_byte_spec:
  assumes "u256_law L"
  shows "unat (evm_byte L i x) = (if unat i < 32 then unat x div 256 ^ (31 - unat i) mod 256 else 0)"
proof (cases "unat i < 32")
  case True
  have len: "length (u_to_le_bytes L x) = 32" and le: "u_to_le_bytes L x = le_bytes_of 32 x"
    using assms by (simp_all add: u256_law_def le_bytes_of_def)
  with True have "rev (u_to_le_bytes L x) ! unat i = of_nat (unat x div 256 ^ (31 - unat i))"
    by (simp add: rev_nth le_bytes_of_def)
  with True len show ?thesis
    by (simp add: evm_byte_def usize_try_from_def unsigned_ucast_eq unat_of_nat take_bit_nat_eq_self)
next
  case False
  then show ?thesis
    using assms by (simp add: evm_byte_def usize_try_from_def u256_law_def le_bytes_of_def slice_get_def split: if_split)
qed

subsection \<open>Swapping the operands of a flippable operation\<close>

lemma cp_evaluate_flip:
  assumes "flip k = Some k'"
  shows "cp_evaluate L k' (y # x # zs) = cp_evaluate L k (x # y # zs)"
  using assms
  by (cases k)
    (auto simp: cp_evaluate_def cp_binary_def evm_add_def evm_mul_def evm_and_def evm_or_def evm_xor_def
      evm_eq_def evm_lt_def evm_gt_def evm_slt_def evm_sgt_def evm_addmod_def evm_mulmod_def ac_simps
      eq_commute split: list.splits option.splits)

subsection \<open>Properties\<close>

text \<open>
  C29: \<open>addmod\<close> and \<open>mulmod\<close> are computed exactly. They go through 512 bits, so
  neither the sum nor the product wraps, the conversion back to 256 bits never panics, and a zero
  modulus gives zero.
\<close>

theorem evm_modular_exact:
  "(\<exists>r. evm_addmod a b n = Some r \<and> unat r = (if n = 0 then 0 else (unat a + unat b) mod unat n)) \<and>
   (\<exists>r. evm_mulmod a b n = Some r \<and> unat r = (if n = 0 then 0 else (unat a * unat b) mod unat n))"
  using evm_addmod_spec evm_mulmod_spec by blast

text \<open>
  C30: for a 256-bit library that behaves as documented, the signed operations are
  those of the two's complement integers: division and remainder truncate towards zero and give
  zero for a zero divisor, the division wraps only for the least number over minus one, and an
  arithmetic shift by any amount rounds towards minus infinity.
\<close>

theorem evm_signed_exact:
  assumes "u256_law L"
  shows "sint (evm_sdiv L a b) =
           (if b = 0 then 0 else if a = i256_min \<and> b = - 1 then sint i256_min else sint a sdiv sint b) \<and>
         sint (evm_smod L a b) = (if b = 0 then 0 else sint a smod sint b) \<and>
         sint (evm_sar L shift v) = sint v div 2 ^ unat shift"
proof -
  have "evm_sdiv L i256_min (- 1) = i256_min"
    using assms by (simp add: evm_sdiv_def u256_law_def i256_min_def signed_divide_int_def)
  then show ?thesis
    using evm_sdiv_spec [OF assms, of a b] evm_smod_spec [OF assms, of a b] evm_sar_spec [OF assms, of shift v]
    by auto
qed

theorem evm_signed_exact_witness:
  "sint (evm_sdiv u256_ref (- 7) 2) = - 3 \<and> sint (evm_smod u256_ref (- 7) 2) = - 1 \<and>
   sint (evm_sar u256_ref 1 (- 7)) = - 4"
  using evm_signed_exact [OF u256_ref_law, of "- 7" 2 1 "- 7"]
  by (simp add: i256_min_def signed_divide_int_def signed_modulo_int_def)





text \<open>
  C33: exchanging the operands of a flippable operation and replacing the
  operation by its flipped form computes the same value, so the scheduler may choose either.
\<close>

theorem flip_preserves_value:
  assumes "flip k = Some k'"
  shows "cp_evaluate L k' (y # x # zs) = cp_evaluate L k (x # y # zs)"
  using assms by (rule cp_evaluate_flip)

theorem flip_preserves_value_witness:
  "cp_evaluate u256_ref OpGt [Some 5, Some 3] = cp_evaluate u256_ref OpLt [Some 3, Some 5]"
  by (rule flip_preserves_value) simp

end
