(* ===== verification/Sir_Builder.thy ===== *)
theory Sir_Builder
  imports Sir_Program
begin

text \<open>
  Construction of a program (\<open>plankc/sir/crates/data/src/builder.rs\<close> and \<open>FromOpData\<close> in
  \<open>operation/op_data.rs\<close>). The builders borrow each other: a block builder holds its function builder,
  which holds the program builder; here the records are nested the same way. A method that returns a
  \<open>Result\<close> and keeps the builder gives both, as an error leaves the changes made before it.
\<close>

record ir_builder =
  ib_next_local :: nat
  ib_next_alloc :: nat
  ib_functions :: "fn_def list"
  ib_blocks :: "basic_block list"
  ib_operations :: "operation list"
  ib_data_segments :: "u8 list_of_lists"
  ib_locals :: "nat list"
  ib_large_consts :: "u256 list"
  ib_cases :: "cases_table list"
  ib_cases_bb_ids :: "nat list"
  ib_placeholders :: "nat list"

definition ib_new :: ir_builder where
  "ib_new = \<lparr>ib_next_local = 0, ib_next_alloc = 0, ib_functions = [], ib_blocks = [],
     ib_operations = [], ib_data_segments = lol_new, ib_locals = [], ib_large_consts = [],
     ib_cases = [], ib_cases_bb_ids = [], ib_placeholders = []\<rparr>"

definition ib_build :: "ir_builder \<Rightarrow> nat \<Rightarrow> nat option \<Rightarrow> ir_program" where
  "ib_build b init_entry main_entry =
     \<lparr>ir_init_entry = init_entry, ir_main_entry = main_entry, ir_functions = ib_functions b,
      ir_blocks = ib_blocks b, ir_operations = ib_operations b,
      ir_data_segments = ib_data_segments b, ir_locals = ib_locals b,
      ir_large_consts = ib_large_consts b, ir_cases = ib_cases b,
      ir_cases_bb_ids = ib_cases_bb_ids b, ir_next_free_local = ib_next_local b,
      ir_next_static_alloc = ib_next_alloc b\<rparr>"

text \<open>\<open>get_and_inc\<close>: the current index, and the next one, which must still be an index.\<close>

definition idx_get_and_inc :: "nat \<Rightarrow> (nat \<times> nat) option" where
  "idx_get_and_inc i = do {
     i' \<leftarrow> idx_add i 1;
     Some (i, i')
   }"

definition ib_new_local :: "ir_builder \<Rightarrow> (nat \<times> ir_builder) option" where
  "ib_new_local b = do {
     (i, n) \<leftarrow> idx_get_and_inc (ib_next_local b);
     Some (i, b\<lparr>ib_next_local := n\<rparr>)
   }"

definition ib_new_static_alloc :: "ir_builder \<Rightarrow> (nat \<times> ir_builder) option" where
  "ib_new_static_alloc b = do {
     (i, n) \<leftarrow> idx_get_and_inc (ib_next_alloc b);
     Some (i, b\<lparr>ib_next_alloc := n\<rparr>)
   }"

definition ib_alloc_locals :: "nat list \<Rightarrow> ir_builder \<Rightarrow> (span \<times> ir_builder) option" where
  "ib_alloc_locals locals b = do {
     start \<leftarrow> iv_len_idx (ib_locals b);
     let extended = ib_locals b @ locals;
     stop \<leftarrow> iv_len_idx extended;
     Some ((start, stop), b\<lparr>ib_locals := extended\<rparr>)
   }"

definition ib_get_func :: "ir_builder \<Rightarrow> nat \<Rightarrow> fn_def option" where
  "ib_get_func b f = slice_get (ib_functions b) f"

definition ib_next_basic_block_id :: "ir_builder \<Rightarrow> nat option" where
  "ib_next_basic_block_id b = iv_len_idx (ib_blocks b)"

definition ib_alloc_u256 :: "u256 \<Rightarrow> ir_builder \<Rightarrow> (nat \<times> ir_builder) option" where
  "ib_alloc_u256 v b = do {
     (i, consts) \<leftarrow> iv_push (ib_large_consts b) v;
     Some (i, b\<lparr>ib_large_consts := consts\<rparr>)
   }"

definition ib_push_data_bytes :: "u8 list \<Rightarrow> ir_builder \<Rightarrow> (nat \<times> ir_builder) option" where
  "ib_push_data_bytes bytes b = do {
     (i, segments) \<leftarrow> lol_push_copy_slice (ib_data_segments b) bytes;
     Some (i, b\<lparr>ib_data_segments := segments\<rparr>)
   }"

subsection \<open>Building an operation from its parts\<close>

datatype op_extra_data = DataIdExtra nat | FuncIdExtra nat | NumExtra u256 | EmptyExtra

datatype op_build_error =
    WrongInputCount nat nat
  | WrongOutputCount nat nat
  | UnexpectedExtraData op_extra_data string
  | UndefinedFunction nat
  | InternalCallToNeverError nat
  | NeverCallReturnsError nat
  | NumTooLarge u256 nat nat

text \<open>The operator \<open>?\<close> in a method that also carries the builder.\<close>

definition question :: "'e + 'a \<Rightarrow> 's \<Rightarrow> ('a \<Rightarrow> (('e + 'b) \<times> 's) option) \<Rightarrow> (('e + 'b) \<times> 's) option" where
  "question r s k = (case r of Inl e \<Rightarrow> Some (Inl e, s) | Inr x \<Rightarrow> k x)"

lemma question_simps [simp]:
  "question (Inl e) s k = Some (Inl e, s)"
  "question (Inr x) s k = k x"
  by (simp_all add: question_def)

definition check_ins_count :: "nat list \<Rightarrow> nat \<Rightarrow> op_build_error + unit" where
  "check_ins_count ins expected =
     (if length ins \<noteq> expected then Inl (WrongInputCount expected (length ins)) else Inr ())"

definition check_outs_count :: "nat list \<Rightarrow> nat \<Rightarrow> op_build_error + unit" where
  "check_outs_count outs expected =
     (if length outs \<noteq> expected then Inl (WrongOutputCount expected (length outs)) else Inr ())"

definition check_empty :: "op_extra_data \<Rightarrow> op_build_error + unit" where
  "check_empty extra =
     (if extra \<noteq> EmptyExtra then Inl (UnexpectedExtraData extra ''Empty'') else Inr ())"

definition extra_num :: "op_extra_data \<Rightarrow> string \<Rightarrow> op_build_error + u256" where
  "extra_num extra expected =
     (case extra of NumExtra n \<Rightarrow> Inr n | _ \<Rightarrow> Inl (UnexpectedExtraData extra expected))"

definition extra_func :: "op_extra_data \<Rightarrow> op_build_error + nat" where
  "extra_func extra =
     (case extra of FuncIdExtra f \<Rightarrow> Inr f | _ \<Rightarrow> Inl (UnexpectedExtraData extra ''FunctionId''))"

definition extra_data_id :: "op_extra_data \<Rightarrow> op_build_error + nat" where
  "extra_data_id extra =
     (case extra of DataIdExtra i \<Rightarrow> Inr i | _ \<Rightarrow> Inl (UnexpectedExtraData extra ''DataId''))"

definition uint256_to_u32 :: "u256 \<Rightarrow> op_build_error + nat" where
  "uint256_to_u32 x =
     (if unat x < 2 ^ 32 then Inr (unat x) else Inl (NumTooLarge x 0 (2 ^ 32 - 1)))"

definition uint256_to_io_size :: "u256 \<Rightarrow> op_build_error + memory_io_size" where
  "uint256_to_io_size x =
     (case (if unat x < 2 ^ 8 then memory_io_size_try_from (unat x) else None) of
        Some sz \<Rightarrow> Inr sz
      | None \<Rightarrow> Inl (NumTooLarge x 1 32))"

type_synonym op_result = "((op_build_error + op_data) \<times> ir_builder) option"

definition build_unit :: "nat list \<Rightarrow> nat list \<Rightarrow> op_extra_data \<Rightarrow> ir_builder \<Rightarrow> op_result" where
  "build_unit ins outs extra b =
     question (check_empty extra) b (\<lambda>_.
     question (check_ins_count ins 0) b (\<lambda>_.
     question (check_outs_count outs 0) b (\<lambda>_.
     Some (Inr UnitData, b))))"

definition build_inline ::
    "nat \<Rightarrow> nat \<Rightarrow> nat list \<Rightarrow> nat list \<Rightarrow> op_extra_data \<Rightarrow> ir_builder \<Rightarrow> op_result" where
  "build_inline n_ins n_outs ins outs extra b =
     question (check_outs_count outs n_outs) b (\<lambda>_.
     question (check_ins_count ins n_ins) b (\<lambda>_.
     question (check_empty extra) b (\<lambda>_.
     Some (Inr (InlineOperands ins outs), b))))"

definition build_allocated ::
    "nat \<Rightarrow> nat \<Rightarrow> nat list \<Rightarrow> nat list \<Rightarrow> op_extra_data \<Rightarrow> ir_builder \<Rightarrow> op_result" where
  "build_allocated n_ins n_outs ins outs extra b =
     question (check_outs_count outs n_outs) b (\<lambda>_.
     question (check_ins_count ins n_ins) b (\<lambda>_. do {
       (ins_span, b) \<leftarrow> ib_alloc_locals ins b;
       len \<leftarrow> span_len ins_span;
       rust_assert (len = n_ins);
       question (check_empty extra) b (\<lambda>_.
       Some (Inr (AllocatedIns n_ins (fst ins_span) outs), b))
     }))"

definition build_call :: "nat list \<Rightarrow> nat list \<Rightarrow> op_extra_data \<Rightarrow> ir_builder \<Rightarrow> op_result" where
  "build_call ins outs extra b =
     question (extra_func extra) b (\<lambda>func_id.
       case ib_get_func b func_id of
         None \<Rightarrow> Some (Inl (UndefinedFunction func_id), b)
       | Some func \<Rightarrow> do {
           inputs \<leftarrow> fn_get_inputs func (ib_blocks b);
           (case rk_count (fn_return_kind func) of
              None \<Rightarrow> Some (Inl (InternalCallToNeverError func_id), b)
            | Some outputs \<Rightarrow>
                question (check_ins_count ins inputs) b (\<lambda>_.
                question (check_outs_count outs outputs) b (\<lambda>_. do {
                  (ins_span, b) \<leftarrow> ib_alloc_locals ins b;
                  (outs_span, b) \<leftarrow> ib_alloc_locals outs b;
                  rust_assert (snd ins_span = fst outs_span);
                  Some (Inr (InternalCallData func_id (fst ins_span) (fst outs_span)), b)
                })))
         })"

definition build_call_never :: "nat list \<Rightarrow> nat list \<Rightarrow> op_extra_data \<Rightarrow> ir_builder \<Rightarrow> op_result" where
  "build_call_never ins outs extra b =
     question (extra_func extra) b (\<lambda>func_id.
       case ib_get_func b func_id of
         None \<Rightarrow> Some (Inl (UndefinedFunction func_id), b)
       | Some target \<Rightarrow>
           if \<not> rk_is_never (fn_return_kind target) then Some (Inl (NeverCallReturnsError func_id), b)
           else do {
             inputs \<leftarrow> fn_get_inputs target (ib_blocks b);
             question (check_ins_count ins inputs) b (\<lambda>_.
             question (check_outs_count outs 0) b (\<lambda>_. do {
               (ins_span, b) \<leftarrow> ib_alloc_locals ins b;
               Some (Inr (InternalCallNeverData func_id ins_span), b)
             }))
           })"

definition build_large_const :: "nat list \<Rightarrow> nat list \<Rightarrow> op_extra_data \<Rightarrow> ir_builder \<Rightarrow> op_result" where
  "build_large_const ins outs extra b =
     question (extra_num extra ''Num(u256)'') b (\<lambda>num.
     question (check_ins_count ins 0) b (\<lambda>_.
     question (check_outs_count outs 1) b (\<lambda>_. do {
       (cid, b) \<leftarrow> ib_alloc_u256 num b;
       sets \<leftarrow> slice_get outs 0;
       Some (Inr (SetLargeConstData sets cid), b)
     })))"

definition build_small_const :: "nat list \<Rightarrow> nat list \<Rightarrow> op_extra_data \<Rightarrow> ir_builder \<Rightarrow> op_result" where
  "build_small_const ins outs extra b =
     question (extra_num extra ''Num(u32)'') b (\<lambda>num.
     question (uint256_to_u32 num) b (\<lambda>value.
     question (check_ins_count ins 0) b (\<lambda>_.
     question (check_outs_count outs 1) b (\<lambda>_. do {
       sets \<leftarrow> slice_get outs 0;
       Some (Inr (SetSmallConstData sets value), b)
     }))))"

definition build_static_alloc :: "nat list \<Rightarrow> nat list \<Rightarrow> op_extra_data \<Rightarrow> ir_builder \<Rightarrow> op_result" where
  "build_static_alloc ins outs extra b =
     question (extra_num extra ''Num(u32)'') b (\<lambda>num.
     question (uint256_to_u32 num) b (\<lambda>sz.
     question (check_ins_count ins 0) b (\<lambda>_.
     question (check_outs_count outs 1) b (\<lambda>_. do {
       (alloc_id, b) \<leftarrow> ib_new_static_alloc b;
       ptr_out \<leftarrow> slice_get outs 0;
       Some (Inr (StaticAllocData sz ptr_out alloc_id), b)
     }))))"

definition build_memory_load :: "nat list \<Rightarrow> nat list \<Rightarrow> op_extra_data \<Rightarrow> ir_builder \<Rightarrow> op_result" where
  "build_memory_load ins outs extra b =
     question (extra_num extra ''Num(u32)'') b (\<lambda>num.
     question (uint256_to_io_size num) b (\<lambda>sz.
     question (check_ins_count ins 1) b (\<lambda>_.
     question (check_outs_count outs 1) b (\<lambda>_. do {
       out \<leftarrow> slice_get outs 0;
       ptr \<leftarrow> slice_get ins 0;
       Some (Inr (MemoryLoadData out ptr sz), b)
     }))))"

definition build_memory_store :: "nat list \<Rightarrow> nat list \<Rightarrow> op_extra_data \<Rightarrow> ir_builder \<Rightarrow> op_result" where
  "build_memory_store ins outs extra b =
     question (extra_num extra ''Num(1..=32)'') b (\<lambda>num.
     question (uint256_to_io_size num) b (\<lambda>sz.
     question (check_ins_count ins 2) b (\<lambda>_.
     question (check_outs_count outs 0) b (\<lambda>_. do {
       ptr \<leftarrow> slice_get ins 0;
       value \<leftarrow> slice_get ins 1;
       Some (Inr (MemoryStoreData [ptr, value] sz), b)
     }))))"

definition build_data_offset :: "nat list \<Rightarrow> nat list \<Rightarrow> op_extra_data \<Rightarrow> ir_builder \<Rightarrow> op_result" where
  "build_data_offset ins outs extra b =
     question (extra_data_id extra) b (\<lambda>segment_id.
     question (check_ins_count ins 0) b (\<lambda>_.
     question (check_outs_count outs 1) b (\<lambda>_. do {
       sets \<leftarrow> slice_get outs 0;
       Some (Inr (SetDataOffsetData sets segment_id), b)
     })))"

primrec build_data ::
    "data_shape \<Rightarrow> nat list \<Rightarrow> nat list \<Rightarrow> op_extra_data \<Rightarrow> ir_builder \<Rightarrow> op_result" where
  "build_data UnitShape = build_unit"
| "build_data (InlineShape n_ins n_outs) = build_inline n_ins n_outs"
| "build_data (AllocatedShape n_ins n_outs) = build_allocated n_ins n_outs"
| "build_data StaticAllocShape = build_static_alloc"
| "build_data MemoryLoadShape = build_memory_load"
| "build_data MemoryStoreShape = build_memory_store"
| "build_data SmallConstShape = build_small_const"
| "build_data LargeConstShape = build_large_const"
| "build_data DataOffsetShape = build_data_offset"
| "build_data CallShape = build_call"
| "build_data CallNeverShape = build_call_never"

definition op_try_build :: "operation_kind \<Rightarrow> nat list \<Rightarrow> nat list \<Rightarrow> op_extra_data \<Rightarrow> ir_builder \<Rightarrow>
    ((op_build_error + operation) \<times> ir_builder) option" where
  "op_try_build kind ins outs extra b = do {
     (r, b) \<leftarrow> build_data (op_shape kind) ins outs extra b;
     question r b (\<lambda>d. Some (Inr (Operation kind d), b))
   }"


lemma question_Some_Inr [monad_elims]:
  "question r s k = Some (Inr y, t) \<longleftrightarrow> (\<exists>x. r = Inr x \<and> k x = Some (Inr y, t))"
  by (cases r) auto

lemma check_counts_Inr [simp]:
  "check_ins_count ins n = Inr u \<longleftrightarrow> length ins = n"
  "check_outs_count outs n = Inr u \<longleftrightarrow> length outs = n"
  "check_empty extra = Inr u \<longleftrightarrow> extra = EmptyExtra"
  by (simp_all add: check_ins_count_def check_outs_count_def check_empty_def)

lemma extra_Inr [simp]:
  "extra_num extra e = Inr n \<longleftrightarrow> extra = NumExtra n"
  "extra_func extra = Inr f \<longleftrightarrow> extra = FuncIdExtra f"
  "extra_data_id extra = Inr i \<longleftrightarrow> extra = DataIdExtra i"
  by (cases extra; simp add: extra_num_def extra_func_def extra_data_id_def)+

lemma uint256_Inr [simp]:
  "uint256_to_u32 x = Inr v \<longleftrightarrow> unat x < 2 ^ 32 \<and> v = unat x"
  "uint256_to_io_size x = Inr sz \<longleftrightarrow> unat x \<in> {1..32} \<and> sz = unat x"
  by (auto simp: uint256_to_u32_def uint256_to_io_size_def memory_io_size_try_from_def
      split: option.splits if_splits)

lemma ib_alloc_locals_Some [monad_elims]:
  "ib_alloc_locals xs b = Some (s, b') \<longleftrightarrow>
     length (ib_locals b @ xs) < idx_limit \<and>
     s = (length (ib_locals b), length (ib_locals b @ xs)) \<and> b' = b\<lparr>ib_locals := ib_locals b @ xs\<rparr>"
  by (auto simp: ib_alloc_locals_def iv_len_idx_def monad_elims)

lemma ib_alloc_u256_Some [monad_elims]:
  "ib_alloc_u256 v b = Some (i, b') \<longleftrightarrow>
     length (ib_large_consts b) < idx_limit \<and> i = length (ib_large_consts b) \<and>
     b' = b\<lparr>ib_large_consts := ib_large_consts b @ [v]\<rparr>"
  by (auto simp: ib_alloc_u256_def iv_push_def monad_elims)

lemma ib_new_static_alloc_Some [monad_elims]:
  "ib_new_static_alloc b = Some (i, b') \<longleftrightarrow>
     ib_next_alloc b + 1 < idx_limit \<and> i = ib_next_alloc b \<and>
     b' = b\<lparr>ib_next_alloc := ib_next_alloc b + 1\<rparr>"
  by (auto simp: ib_new_static_alloc_def idx_get_and_inc_def monad_elims)

lemma read_span_appended:
  "read_span (xs @ ys) (length xs, length xs + length ys) = Some ys"
  "read_span (xs @ ys @ zs) (length xs, length xs + length ys) = Some ys"
  by (simp_all add: read_span_def slice_range_def)

text \<open>What building an operation may change, and what the result reads back as.\<close>

definition op_built :: "op_data \<Rightarrow> data_shape \<Rightarrow> nat list \<Rightarrow> nat list \<Rightarrow> ir_builder \<Rightarrow> ir_builder \<Rightarrow> bool" where
  "op_built d sh ins outs b b' \<longleftrightarrow>
     shape_ok d sh \<and> data_inputs d (ib_locals b') = Some ins \<and>
     data_outputs d (ib_locals b') (ib_functions b') = Some outs \<and>
     (\<exists>ws. ib_locals b' = ib_locals b @ ws) \<and>
     (\<exists>cs. ib_large_consts b' = ib_large_consts b @ cs) \<and>
     ib_functions b' = ib_functions b \<and> ib_blocks b' = ib_blocks b \<and>
     ib_operations b' = ib_operations b \<and> ib_next_local b' = ib_next_local b \<and>
     ib_placeholders b' = ib_placeholders b \<and> ib_next_alloc b \<le> ib_next_alloc b'"

lemmas build_defs = build_unit_def build_inline_def build_allocated_def build_static_alloc_def
  build_memory_load_def build_memory_store_def build_small_const_def build_large_const_def
  build_data_offset_def build_call_never_def

lemma length_one_nth: "length xs = Suc 0 \<Longrightarrow> [xs ! 0] = xs"
  by (cases xs) auto

lemma length_two_nth: "length xs = 2 \<Longrightarrow> [xs ! 0, xs ! Suc 0] = xs"
  by (cases xs; cases "tl xs") auto

lemma build_call_built:
  assumes "build_call ins outs extra b = Some (Inr d, b')"
  shows "op_built d CallShape ins outs b b'"
proof -
  from assms obtain f func where "ib_get_func b f = Some func" "rk_count (fn_return_kind func) = Some (length outs)"
    and lim: "length (ib_locals b @ ins @ outs) < idx_limit"
    and d: "d = InternalCallData f (length (ib_locals b)) (length (ib_locals b) + length ins)"
    and b': "b' = b\<lparr>ib_locals := ib_locals b @ ins @ outs\<rparr>"
    by (auto simp: build_call_def monad_elims split: option.splits)
  then have "icall_outputs_span f (length (ib_locals b) + length ins) (ib_functions b) =
      Some (length (ib_locals b) + length ins, length (ib_locals b) + length ins + length outs)"
    by (simp add: icall_outputs_span_def ib_get_func_def)
  with read_span_appended(1) [of "ib_locals b @ ins" outs] read_span_appended(2) [of "ib_locals b" ins outs]
  show ?thesis
    by (simp add: op_built_def d b' icall_inputs_span_def)
qed

lemma build_data_built:
  assumes "build_data sh ins outs extra b = Some (Inr d, b')"
  shows "op_built d sh ins outs b b'"
proof (cases "sh = CallShape")
  case True
  with assms build_call_built show ?thesis by simp
next
  case False
  with assms show ?thesis
    by (cases sh) (auto simp: build_defs op_built_def monad_elims length_one_nth length_two_nth
        slice_range_def read_span_def split: option.splits if_splits)
qed

text \<open>
  The operand counts an operation must have, given its extra data and the functions built so far;
  \<open>None\<close> when the extra data does not fit.
\<close>

definition call_signature :: "nat \<Rightarrow> ir_builder \<Rightarrow> (nat \<times> nat option) option" where
  "call_signature f b = do {
     func \<leftarrow> ib_get_func b f;
     inputs \<leftarrow> fn_get_inputs func (ib_blocks b);
     Some (inputs, rk_count (fn_return_kind func))
   }"

primrec op_expected :: "data_shape \<Rightarrow> op_extra_data \<Rightarrow> ir_builder \<Rightarrow> (nat \<times> nat) option" where
  "op_expected UnitShape extra b = (if extra = EmptyExtra then Some (0, 0) else None)"
| "op_expected (InlineShape i k) extra b = (if extra = EmptyExtra then Some (i, k) else None)"
| "op_expected (AllocatedShape i k) extra b = (if extra = EmptyExtra then Some (i, k) else None)"
| "op_expected StaticAllocShape extra b =
     (case extra of NumExtra n \<Rightarrow> if unat n < 2 ^ 32 then Some (0, 1) else None | _ \<Rightarrow> None)"
| "op_expected MemoryLoadShape extra b =
     (case extra of NumExtra n \<Rightarrow> if unat n \<in> {1..32} then Some (1, 1) else None | _ \<Rightarrow> None)"
| "op_expected MemoryStoreShape extra b =
     (case extra of NumExtra n \<Rightarrow> if unat n \<in> {1..32} then Some (2, 0) else None | _ \<Rightarrow> None)"
| "op_expected SmallConstShape extra b =
     (case extra of NumExtra n \<Rightarrow> if unat n < 2 ^ 32 then Some (0, 1) else None | _ \<Rightarrow> None)"
| "op_expected LargeConstShape extra b = (case extra of NumExtra n \<Rightarrow> Some (0, 1) | _ \<Rightarrow> None)"
| "op_expected DataOffsetShape extra b = (case extra of DataIdExtra i \<Rightarrow> Some (0, 1) | _ \<Rightarrow> None)"
| "op_expected CallShape extra b =
     (case extra of
        FuncIdExtra f \<Rightarrow> (case call_signature f b of
            Some (inputs, Some outputs) \<Rightarrow> Some (inputs, outputs) | _ \<Rightarrow> None)
      | _ \<Rightarrow> None)"
| "op_expected CallNeverShape extra b =
     (case extra of
        FuncIdExtra f \<Rightarrow> (case call_signature f b of
            Some (inputs, None) \<Rightarrow> Some (inputs, 0) | _ \<Rightarrow> None)
      | _ \<Rightarrow> None)"

text \<open>Room in the index spaces, and functions whose entry blocks exist.\<close>

definition ib_room :: "ir_builder \<Rightarrow> nat \<Rightarrow> bool" where
  "ib_room b n \<longleftrightarrow> length (ib_locals b) + n < idx_limit \<and> length (ib_large_consts b) < idx_limit \<and>
     ib_next_alloc b + 1 < idx_limit \<and>
     (\<forall>func\<in>set (ib_functions b). fn_get_inputs func (ib_blocks b) \<noteq> None)"

lemma isl_cases: "(case r of Inl e \<Rightarrow> a e | Inr x \<Rightarrow> c x) = (if isl r then a (projl r) else c (projr r))"
  by (cases r) auto

lemmas check_defs = check_ins_count_def check_outs_count_def check_empty_def extra_num_def
  extra_func_def extra_data_id_def uint256_to_u32_def uint256_to_io_size_def
  memory_io_size_try_from_def

definition only_locals_grow :: "ir_builder \<Rightarrow> ir_builder \<Rightarrow> bool" where
  "only_locals_grow b b' \<longleftrightarrow> (\<exists>ws. b' = b\<lparr>ib_locals := ib_locals b @ ws\<rparr>)"

lemma only_locals_grow_refl [simp]: "only_locals_grow b b"
  unfolding only_locals_grow_def by (rule exI [of _ "[]"]) simp

lemma only_locals_grow_set [simp]: "only_locals_grow b (b\<lparr>ib_locals := ib_locals b @ ws\<rparr>)"
  by (auto simp: only_locals_grow_def)

definition build_outcome :: "data_shape \<Rightarrow> nat list \<Rightarrow> nat list \<Rightarrow> op_extra_data \<Rightarrow> ir_builder \<Rightarrow> bool" where
  "build_outcome sh ins outs extra b \<longleftrightarrow>
     (\<exists>r b'. build_data sh ins outs extra b = Some (r, b') \<and>
        (if op_expected sh extra b = Some (length ins, length outs) then \<exists>d. r = Inr d
         else (\<exists>e. r = Inl e) \<and> only_locals_grow b b'))"

lemma ib_room_call:
  assumes "ib_room b n" "ib_get_func b f = Some func"
  obtains inputs where "fn_get_inputs func (ib_blocks b) = Some inputs"
  using assms by (metis ib_room_def ib_get_func_def slice_get_Some nth_mem option.exhaust)

lemma ib_alloc_locals_room:
  "length (ib_locals b) + length xs < idx_limit \<Longrightarrow> ib_alloc_locals xs b =
     Some ((length (ib_locals b), length (ib_locals b) + length xs), b\<lparr>ib_locals := ib_locals b @ xs\<rparr>)"
  by (simp add: ib_alloc_locals_def iv_len_idx_def)

lemma build_outcome_call:
  assumes "ib_room b (length ins + length outs)"
  shows "build_outcome CallShape ins outs (FuncIdExtra f) b"
proof (cases "ib_get_func b f")
  case None
  then show ?thesis
    by (simp add: build_outcome_def build_call_def extra_func_def call_signature_def)
next
  case (Some func)
  with assms obtain inputs where inputs: "fn_get_inputs func (ib_blocks b) = Some inputs"
    by (rule ib_room_call)
  from assms have "length (ib_locals b) + length ins + length outs < idx_limit" "length (ib_locals b) + length ins < idx_limit"
    by (simp_all add: ib_room_def)
  with Some inputs show ?thesis
    by (cases "rk_count (fn_return_kind func)")
      (auto simp: build_outcome_def build_call_def extra_func_def call_signature_def check_defs
        ib_alloc_locals_room)
qed

lemma build_outcome_call_never:
  assumes "ib_room b (length ins + length outs)"
  shows "build_outcome CallNeverShape ins outs (FuncIdExtra f) b"
proof (cases "ib_get_func b f")
  case None
  then show ?thesis
    by (simp add: build_outcome_def build_call_never_def extra_func_def call_signature_def)
next
  case (Some func)
  with assms obtain inputs where inputs: "fn_get_inputs func (ib_blocks b) = Some inputs"
    by (rule ib_room_call)
  from assms have "length (ib_locals b) + length ins < idx_limit"
    by (simp add: ib_room_def)
  with Some inputs show ?thesis
    by (auto simp: build_outcome_def build_call_never_def extra_func_def call_signature_def check_defs
        ib_alloc_locals_room rk_count_def)
qed

lemma build_outcome_extra:
  "\<forall>f. extra \<noteq> FuncIdExtra f \<Longrightarrow> sh = CallShape \<or> sh = CallNeverShape \<Longrightarrow>
     build_outcome sh ins outs extra b"
  by (cases extra) (auto simp: build_outcome_def build_call_def build_call_never_def extra_func_def)

lemma build_outcome_holds:
  assumes "ib_room b (length ins + length outs)"
  shows "build_outcome sh ins outs extra b"
proof (cases sh)
  case UnitShape
  then show ?thesis by (auto simp: build_outcome_def build_unit_def check_defs)
next
  case (InlineShape i k)
  then show ?thesis by (auto simp: build_outcome_def build_inline_def check_defs)
next
  case (AllocatedShape i k)
  with assms show ?thesis
    by (auto simp: build_outcome_def build_allocated_def check_defs ib_room_def ib_alloc_locals_def
        iv_len_idx_def span_len_def idx_sub_def)
next
  case StaticAllocShape
  with assms show ?thesis
    by (cases extra) (auto simp: build_outcome_def build_static_alloc_def check_defs ib_room_def
        ib_new_static_alloc_def idx_get_and_inc_def)
next
  case MemoryLoadShape
  then show ?thesis
    by (cases extra) (auto simp: build_outcome_def build_memory_load_def check_defs)
next
  case MemoryStoreShape
  then show ?thesis
    by (cases extra) (auto simp: build_outcome_def build_memory_store_def check_defs)
next
  case SmallConstShape
  then show ?thesis
    by (cases extra) (auto simp: build_outcome_def build_small_const_def check_defs)
next
  case LargeConstShape
  with assms show ?thesis
    by (cases extra) (auto simp: build_outcome_def build_large_const_def check_defs ib_room_def
        ib_alloc_u256_def iv_push_def)
next
  case DataOffsetShape
  then show ?thesis
    by (cases extra) (auto simp: build_outcome_def build_data_offset_def check_defs)
next
  case CallShape
  with assms show ?thesis
    by (cases "\<forall>f. extra \<noteq> FuncIdExtra f") (auto intro: build_outcome_call build_outcome_extra)
next
  case CallNeverShape
  with assms show ?thesis
    by (cases "\<forall>f. extra \<noteq> FuncIdExtra f") (auto intro: build_outcome_call_never build_outcome_extra)
qed

subsection \<open>Function builder\<close>

datatype build_error =
    ConflictingFunctionOutputs nat nat
  | TerminatingBlockWithoutOp
  | SettingControlForNonPlaceholder

record fn_builder =
  fb_ir :: ir_builder
  fb_first_bb :: nat
  fb_last_bb :: nat
  fb_iret_outputs :: "nat option"

definition ib_begin_function :: "ir_builder \<Rightarrow> fn_builder option" where
  "ib_begin_function b = do {
     next_bb \<leftarrow> iv_len_idx (ib_blocks b);
     Some \<lparr>fb_ir = b, fb_first_bb = next_bb, fb_last_bb = next_bb, fb_iret_outputs = None\<rparr>
   }"

text \<open>\<open>Vec::swap_remove\<close>: the last element takes the place of the removed one.\<close>

definition swap_remove :: "'a list \<Rightarrow> nat \<Rightarrow> 'a list" where
  "swap_remove xs i = (if i = length xs - 1 then butlast xs else butlast (xs[i := last xs]))"

definition fb_validate_terminating :: "basic_block \<Rightarrow> fn_builder \<Rightarrow> (build_error + unit) option" where
  "fb_validate_terminating bb fb =
     (if bb_control bb \<noteq> LastOpTerminates then Some (Inr ())
      else do {
        ops \<leftarrow> read_span (ib_operations (fb_ir fb)) (bb_operations bb);
        Some (if ops = [] \<or> \<not> is_terminating (opn_kind (last ops)) then Inl TerminatingBlockWithoutOp
              else Inr ())
      })"

definition fb_track_bb_internal_return ::
    "basic_block \<Rightarrow> fn_builder \<Rightarrow> ((build_error + unit) \<times> fn_builder) option" where
  "fb_track_bb_internal_return bb fb = do {
     implied \<leftarrow> bb_implied_fn_out bb;
     (case implied of
        None \<Rightarrow> Some (Inr (), fb)
      | Some implied_out \<Rightarrow>
          (case fb_iret_outputs fb of
             Some set_outputs \<Rightarrow>
               if set_outputs \<noteq> implied_out
               then Some (Inl (ConflictingFunctionOutputs set_outputs implied_out), fb)
               else Some (Inr (), fb\<lparr>fb_iret_outputs := Some implied_out\<rparr>)
           | None \<Rightarrow> Some (Inr (), fb\<lparr>fb_iret_outputs := Some implied_out\<rparr>)))
   }"

definition fb_set_control ::
    "nat \<Rightarrow> control \<Rightarrow> fn_builder \<Rightarrow> ((build_error + unit) \<times> fn_builder) option" where
  "fb_set_control bb_id control fb =
     (case position (\<lambda>id. id = bb_id) (ib_placeholders (fb_ir fb)) of
        None \<Rightarrow> Some (Inl SettingControlForNonPlaceholder, fb)
      | Some pos \<Rightarrow> do {
          let b = (fb_ir fb)\<lparr>ib_placeholders := swap_remove (ib_placeholders (fb_ir fb)) pos\<rparr>;
          bb \<leftarrow> slice_get (ib_blocks b) bb_id;
          let bb = bb\<lparr>bb_control := control\<rparr>;
          blocks \<leftarrow> slice_set (ib_blocks b) bb_id bb;
          let fb = fb\<lparr>fb_ir := b\<lparr>ib_blocks := blocks\<rparr>\<rparr>;
          r \<leftarrow> fb_validate_terminating bb fb;
          question r fb (\<lambda>_. do {
            (r, fb) \<leftarrow> fb_track_bb_internal_return bb fb;
            question r fb (\<lambda>_. Some (Inr (), fb))
          })
        })"

definition fb_push_block :: "basic_block \<Rightarrow> fn_builder \<Rightarrow> (nat \<times> fn_builder) option" where
  "fb_push_block bb fb = do {
     (bb_id, blocks) \<leftarrow> iv_push (ib_blocks (fb_ir fb)) bb;
     rust_assert (bb_id = fb_last_bb fb);
     last_bb \<leftarrow> iv_len_idx blocks;
     Some (bb_id, fb\<lparr>fb_ir := (fb_ir fb)\<lparr>ib_blocks := blocks\<rparr>, fb_last_bb := last_bb\<rparr>)
   }"

definition fb_finish_with_source :: "nat \<Rightarrow> nat option \<Rightarrow> fn_builder \<Rightarrow> (nat \<times> ir_builder) option" where
  "fb_finish_with_source entry_bb_id source fb = do {
     end_bb \<leftarrow> iv_len_idx (ib_blocks (fb_ir fb));
     rust_assert (fb_first_bb fb \<le> entry_bb_id \<and> entry_bb_id < end_bb);
     rust_assert (ib_placeholders (fb_ir fb) = []);
     return_kind \<leftarrow> (case fb_iret_outputs fb of
         None \<Rightarrow> Some rk_never
       | Some outputs \<Rightarrow> rk_values outputs);
     (f, functions) \<leftarrow> iv_push (ib_functions (fb_ir fb))
        \<lparr>fn_entry = entry_bb_id, fn_return_kind = return_kind, fn_source = source\<rparr>;
     Some (f, (fb_ir fb)\<lparr>ib_functions := functions\<rparr>)
   }"

definition fb_finish :: "nat \<Rightarrow> fn_builder \<Rightarrow> (nat \<times> ir_builder) option" where
  "fb_finish entry_bb_id fb = fb_finish_with_source entry_bb_id None fb"

subsection \<open>Block builder\<close>

record block_builder =
  bk_fn :: fn_builder
  bk_operations :: span
  bk_inputs :: span
  bk_outputs :: span

definition fb_begin_basic_block :: "fn_builder \<Rightarrow> block_builder option" where
  "fb_begin_basic_block fb = do {
     next_op \<leftarrow> iv_len_idx (ib_operations (fb_ir fb));
     next_local \<leftarrow> iv_len_idx (ib_locals (fb_ir fb));
     Some \<lparr>bk_fn = fb, bk_operations = (next_op, next_op), bk_inputs = (next_local, next_local),
           bk_outputs = (next_local, next_local)\<rparr>
   }"

abbreviation bk_ir :: "block_builder \<Rightarrow> ir_builder" where
  "bk_ir k \<equiv> fb_ir (bk_fn k)"

definition bk_set_ir :: "ir_builder \<Rightarrow> block_builder \<Rightarrow> block_builder" where
  "bk_set_ir b k = k\<lparr>bk_fn := (bk_fn k)\<lparr>fb_ir := b\<rparr>\<rparr>"

definition bk_add_operation :: "operation \<Rightarrow> block_builder \<Rightarrow> (nat \<times> block_builder) option" where
  "bk_add_operation op k = do {
     (idx, operations) \<leftarrow> iv_push (ib_operations (bk_ir k)) op;
     rust_assert (idx = snd (bk_operations k));
     stop \<leftarrow> iv_len_idx operations;
     Some (idx, (bk_set_ir ((bk_ir k)\<lparr>ib_operations := operations\<rparr>) k)
                  \<lparr>bk_operations := (fst (bk_operations k), stop)\<rparr>)
   }"

definition bk_try_add_op :: "operation_kind \<Rightarrow> nat list \<Rightarrow> nat list \<Rightarrow> op_extra_data \<Rightarrow> block_builder \<Rightarrow>
    ((op_build_error + unit) \<times> block_builder) option" where
  "bk_try_add_op kind inputs outputs extra k = do {
     (r, b) \<leftarrow> op_try_build kind inputs outputs extra (bk_ir k);
     question r (bk_set_ir b k) (\<lambda>op. do {
       (_, k) \<leftarrow> bk_add_operation op (bk_set_ir b k);
       Some (Inr (), k)
     })
   }"

definition bk_set_fn_control ::
    "nat \<Rightarrow> control \<Rightarrow> block_builder \<Rightarrow> ((build_error + unit) \<times> block_builder) option" where
  "bk_set_fn_control bb_id control k = do {
     (r, fb) \<leftarrow> fb_set_control bb_id control (bk_fn k);
     Some (r, k\<lparr>bk_fn := fb\<rparr>)
   }"

definition bk_new_local :: "block_builder \<Rightarrow> (nat \<times> block_builder) option" where
  "bk_new_local k = do {
     (l, b) \<leftarrow> ib_new_local (bk_ir k);
     Some (l, bk_set_ir b k)
   }"

definition bk_add_set_const_op :: "nat \<Rightarrow> u256 \<Rightarrow> block_builder \<Rightarrow> (nat \<times> block_builder) option" where
  "bk_add_set_const_op sets value k =
     (if unat value < 2 ^ 32
      then bk_add_operation (Operation OpSetSmallConst (SetSmallConstData sets (unat value))) k
      else do {
        (cid, b) \<leftarrow> ib_alloc_u256 value (bk_ir k);
        bk_add_operation (Operation OpSetLargeConst (SetLargeConstData sets cid)) (bk_set_ir b k)
      })"

definition overwrite_span_via_copy :: "span \<Rightarrow> 'a list \<Rightarrow> 'a list \<Rightarrow> (span \<times> 'a list) option" where
  "overwrite_span_via_copy s backing new_values = do {
     len \<leftarrow> checked_sub (snd s) (fst s);
     (if len \<ge> length new_values then do {
        _ \<leftarrow> read_span backing s;
        let backing = take (fst s) backing @ new_values @ drop (fst s + length new_values) backing;
        stop \<leftarrow> idx_add (fst s) (length new_values);
        Some ((fst s, stop), backing)
      } else do {
        backing_end \<leftarrow> iv_len_idx backing;
        (if snd s = backing_end then do {
           _ \<leftarrow> read_span backing s;
           let backing = take (fst s) backing @ take len new_values @ drop (snd s) backing
                         @ drop len new_values;
           stop \<leftarrow> iv_len_idx backing;
           Some ((fst s, stop), backing)
         } else do {
           let backing = backing @ new_values;
           stop \<leftarrow> iv_len_idx backing;
           Some ((backing_end, stop), backing)
         })
      })
   }"

definition bk_set_inputs :: "nat list \<Rightarrow> block_builder \<Rightarrow> block_builder option" where
  "bk_set_inputs new_inputs k = do {
     (s, locals) \<leftarrow> overwrite_span_via_copy (bk_inputs k) (ib_locals (bk_ir k)) new_inputs;
     Some ((bk_set_ir ((bk_ir k)\<lparr>ib_locals := locals\<rparr>) k)\<lparr>bk_inputs := s\<rparr>)
   }"

definition bk_set_outputs :: "nat list \<Rightarrow> block_builder \<Rightarrow> block_builder option" where
  "bk_set_outputs new_outputs k = do {
     (s, locals) \<leftarrow> overwrite_span_via_copy (bk_outputs k) (ib_locals (bk_ir k)) new_outputs;
     Some ((bk_set_ir ((bk_ir k)\<lparr>ib_locals := locals\<rparr>) k)\<lparr>bk_outputs := s\<rparr>)
   }"

definition bk_block :: "block_builder \<Rightarrow> control \<Rightarrow> basic_block" where
  "bk_block k control =
     \<lparr>bb_inputs = bk_inputs k, bb_outputs = bk_outputs k, bb_operations = bk_operations k,
      bb_control = control\<rparr>"

definition bk_finish :: "control \<Rightarrow> block_builder \<Rightarrow> ((nat \<times> basic_block) \<times> fn_builder) option" where
  "bk_finish control k = do {
     let bb = bk_block k control;
     (id, fb) \<leftarrow> fb_push_block bb (bk_fn k);
     Some ((id, bb), fb)
   }"

definition bk_finish_with_continues_to :: "nat \<Rightarrow> block_builder \<Rightarrow> (nat \<times> fn_builder) option" where
  "bk_finish_with_continues_to target k = do {
     ((id, _), fb) \<leftarrow> bk_finish (ContinuesTo target) k;
     Some (id, fb)
   }"

definition bk_finish_with_branch :: "branch \<Rightarrow> block_builder \<Rightarrow> (nat \<times> fn_builder) option" where
  "bk_finish_with_branch br k = do {
     ((id, _), fb) \<leftarrow> bk_finish (Branches br) k;
     Some (id, fb)
   }"

definition bk_finish_with_switch :: "switch \<Rightarrow> block_builder \<Rightarrow> (nat \<times> fn_builder) option" where
  "bk_finish_with_switch sw k = do {
     ((id, _), fb) \<leftarrow> bk_finish (Switches sw) k;
     Some (id, fb)
   }"

definition bk_finish_with_internal_return ::
    "block_builder \<Rightarrow> ((build_error + nat) \<times> fn_builder) option" where
  "bk_finish_with_internal_return k = do {
     ((id, bb), fb) \<leftarrow> bk_finish InternalReturn k;
     (r, fb) \<leftarrow> fb_track_bb_internal_return bb fb;
     question r fb (\<lambda>_. Some (Inr id, fb))
   }"

definition bk_finish_terminating :: "block_builder \<Rightarrow> ((build_error + nat) \<times> fn_builder) option" where
  "bk_finish_terminating k = do {
     ((id, bb), fb) \<leftarrow> bk_finish LastOpTerminates k;
     r \<leftarrow> fb_validate_terminating bb fb;
     question r fb (\<lambda>_. Some (Inr id, fb))
   }"

definition bk_finish_with_placeholder_control :: "block_builder \<Rightarrow> (nat \<times> fn_builder) option" where
  "bk_finish_with_placeholder_control k = do {
     ((id, _), fb) \<leftarrow> bk_finish LastOpTerminates k;
     Some (id, fb\<lparr>fb_ir := (fb_ir fb)\<lparr>ib_placeholders := ib_placeholders (fb_ir fb) @ [id]\<rparr>\<rparr>)
   }"

subsection \<open>Switch builder\<close>

record switch_builder =
  sb_values_start :: nat
  sb_targets_start :: nat
  sb_cases_count :: nat

text \<open>The builder the switch builder borrows is passed along with it.\<close>

definition begin_switch :: "ir_builder \<Rightarrow> switch_builder option" where
  "begin_switch b = do {
     values_start \<leftarrow> iv_len_idx (ib_large_consts b);
     targets_start \<leftarrow> iv_len_idx (ib_cases_bb_ids b);
     Some \<lparr>sb_values_start = values_start, sb_targets_start = targets_start, sb_cases_count = 0\<rparr>
   }"

definition sb_push_case ::
    "u256 \<Rightarrow> nat \<Rightarrow> switch_builder \<times> ir_builder \<Rightarrow> (switch_builder \<times> ir_builder) option" where
  "sb_push_case value target = (\<lambda>(sb, b). do {
     (value_idx, b) \<leftarrow> ib_alloc_u256 value b;
     value_end \<leftarrow> idx_add (sb_values_start sb) (sb_cases_count sb);
     rust_assert (value_idx = value_end);
     (target_idx, bb_ids) \<leftarrow> iv_push (ib_cases_bb_ids b) target;
     target_end \<leftarrow> idx_add (sb_targets_start sb) (sb_cases_count sb);
     rust_assert (target_idx = target_end);
     count \<leftarrow> checked_add_u32 (sb_cases_count sb) 1;
     Some (sb\<lparr>sb_cases_count := count\<rparr>, b\<lparr>ib_cases_bb_ids := bb_ids\<rparr>)
   })"

definition sb_finish ::
    "nat \<Rightarrow> nat option \<Rightarrow> switch_builder \<times> ir_builder \<Rightarrow> (switch \<times> ir_builder) option" where
  "sb_finish condition fallback = (\<lambda>(sb, b). do {
     (cases_id, cs) \<leftarrow> iv_push (ib_cases b)
        \<lparr>cs_values_start = sb_values_start sb, cs_targets_start = sb_targets_start sb,
         cs_count = sb_cases_count sb\<rparr>;
     Some (\<lparr>sw_condition = condition, sw_fallback = fallback, sw_cases = cases_id\<rparr>,
           b\<lparr>ib_cases := cs\<rparr>)
   })"

subsection \<open>Overwriting a span\<close>

lemma overwrite_span_reads:
  assumes "overwrite_span_via_copy s backing xs = Some (s', backing')"
  shows "read_span backing' s' = Some xs"
  using assms
  by (auto simp: overwrite_span_via_copy_def iv_len_idx_def read_span_def slice_range_def
      monad_elims split: if_splits)

lemma read_span_agree:
  assumes "read_span xs t = Some ys" "length xs \<le> length zs"
    and "\<And>i. fst t \<le> i \<Longrightarrow> i < snd t \<Longrightarrow> zs ! i = xs ! i"
  shows "read_span zs t = Some ys"
proof -
  from assms(1) have t: "fst t \<le> snd t" "snd t \<le> length xs" "ys = take (snd t - fst t) (drop (fst t) xs)"
    by (auto simp: read_span_def slice_range_def split: if_splits)
  with assms(2,3) have "take (snd t - fst t) (drop (fst t) zs) = ys"
    by (intro nth_equalityI) auto
  with t assms(2) show ?thesis by (simp add: read_span_def)
qed

lemma overwrite_span_others:
  assumes "overwrite_span_via_copy s backing xs = Some (s', backing')"
    and "read_span backing t = Some ys"
    and "snd t \<le> fst s \<or> snd s \<le> fst t \<or> fst t = snd t"
  shows "read_span backing' t = Some ys"
proof (rule read_span_agree [OF assms(2)])
  from assms(1) show "length backing \<le> length backing'"
    by (auto simp: overwrite_span_via_copy_def read_span_def slice_range_def iv_len_idx_def
        monad_elims split: if_splits)
  fix i assume "fst t \<le> i" "i < snd t"
  moreover from assms(2) have "snd t \<le> length backing"
    by (auto simp: read_span_def slice_range_def split: if_splits)
  ultimately show "backing' ! i = backing ! i"
    using assms(1,3)
    by (auto simp: overwrite_span_via_copy_def read_span_def slice_range_def iv_len_idx_def
        nth_append min_def monad_elims split: if_splits)
qed

subsection \<open>What a finished function promises\<close>

text \<open>
  The states of a function under construction: no block is open, or one is. The steps are the public
  methods of the builders; those that return a \<open>Result\<close> are taken with \<open>Ok\<close>, since callers stop at an
  error, except for \<open>try_add_op\<close>, whose errors leave a usable builder.
\<close>

datatype fn_state = Idle fn_builder | Open block_builder

inductive fn_step :: "fn_state \<Rightarrow> fn_state \<Rightarrow> bool" where
  step_begin: "fb_begin_basic_block fb = Some k \<Longrightarrow> fn_step (Idle fb) (Open k)"
| step_local: "ib_new_local (fb_ir fb) = Some (l, b) \<Longrightarrow> fn_step (Idle fb) (Idle (fb\<lparr>fb_ir := b\<rparr>))"
| step_control: "fb_set_control i c fb = Some (Inr u, fb') \<Longrightarrow> fn_step (Idle fb) (Idle fb')"
| step_case: "sb_push_case v t (sb, fb_ir fb) = Some (sb', b) \<Longrightarrow>
    fn_step (Idle fb) (Idle (fb\<lparr>fb_ir := b\<rparr>))"
| step_switch: "sb_finish c fallback (sb, fb_ir fb) = Some (sw, b) \<Longrightarrow>
    fn_step (Idle fb) (Idle (fb\<lparr>fb_ir := b\<rparr>))"
| block_op: "bk_add_operation op k = Some (i, k') \<Longrightarrow> fn_step (Open k) (Open k')"
| block_try_op: "bk_try_add_op kind ins outs extra k = Some (r, k') \<Longrightarrow> fn_step (Open k) (Open k')"
| block_const: "bk_add_set_const_op sets v k = Some (i, k') \<Longrightarrow> fn_step (Open k) (Open k')"
| block_local: "bk_new_local k = Some (l, k') \<Longrightarrow> fn_step (Open k) (Open k')"
| block_inputs: "bk_set_inputs xs k = Some k' \<Longrightarrow> fn_step (Open k) (Open k')"
| block_outputs: "bk_set_outputs xs k = Some k' \<Longrightarrow> fn_step (Open k) (Open k')"
| block_case: "sb_push_case v t (sb, bk_ir k) = Some (sb', b) \<Longrightarrow>
    fn_step (Open k) (Open (bk_set_ir b k))"
| block_switch: "sb_finish c fallback (sb, bk_ir k) = Some (sw, b) \<Longrightarrow>
    fn_step (Open k) (Open (bk_set_ir b k))"
| block_control: "bk_set_fn_control i c k = Some (Inr u, k') \<Longrightarrow> fn_step (Open k) (Open k')"
| end_continues: "bk_finish_with_continues_to t k = Some (i, fb) \<Longrightarrow> fn_step (Open k) (Idle fb)"
| end_branch: "bk_finish_with_branch br k = Some (i, fb) \<Longrightarrow> fn_step (Open k) (Idle fb)"
| end_switch: "bk_finish_with_switch sw k = Some (i, fb) \<Longrightarrow> fn_step (Open k) (Idle fb)"
| end_return: "bk_finish_with_internal_return k = Some (Inr i, fb) \<Longrightarrow> fn_step (Open k) (Idle fb)"
| end_terminating: "bk_finish_terminating k = Some (Inr i, fb) \<Longrightarrow> fn_step (Open k) (Idle fb)"
| end_placeholder: "bk_finish_with_placeholder_control k = Some (i, fb) \<Longrightarrow> fn_step (Open k) (Idle fb)"

definition block_closed :: "operation list \<Rightarrow> nat option \<Rightarrow> basic_block \<Rightarrow> bool" where
  "block_closed ops iret bb \<longleftrightarrow>
     (bb_control bb = LastOpTerminates \<longrightarrow>
        (\<exists>xs. read_span ops (bb_operations bb) = Some xs \<and> xs \<noteq> [] \<and>
           is_terminating (opn_kind (last xs)))) \<and>
     (bb_control bb = InternalReturn \<longrightarrow> (\<exists>n. iret = Some n \<and> span_len (bb_outputs bb) = Some n))"

definition fb_inv :: "fn_builder \<Rightarrow> bool" where
  "fb_inv fb \<longleftrightarrow>
     fb_first_bb fb \<le> fb_last_bb fb \<and> fb_last_bb fb = length (ib_blocks (fb_ir fb)) \<and>
     distinct (ib_placeholders (fb_ir fb)) \<and>
     set (ib_placeholders (fb_ir fb)) \<subseteq> {fb_first_bb fb..<fb_last_bb fb} \<and>
     (\<forall>i\<in>{fb_first_bb fb..<fb_last_bb fb} - set (ib_placeholders (fb_ir fb)).
        block_closed (ib_operations (fb_ir fb)) (fb_iret_outputs fb) (ib_blocks (fb_ir fb) ! i)) \<and>
     (fb_iret_outputs fb \<noteq> None \<longrightarrow>
        (\<exists>i\<in>{fb_first_bb fb..<fb_last_bb fb} - set (ib_placeholders (fb_ir fb)).
           bb_control (ib_blocks (fb_ir fb) ! i) = InternalReturn))"

fun state_fn :: "fn_state \<Rightarrow> fn_builder" where
  "state_fn (Idle fb) = fb"
| "state_fn (Open k) = bk_fn k"

text \<open>Steps that leave the blocks and the placeholders alone and only append operations.\<close>

definition ib_extends :: "ir_builder \<Rightarrow> ir_builder \<Rightarrow> bool" where
  "ib_extends b b' \<longleftrightarrow> ib_blocks b' = ib_blocks b \<and> ib_placeholders b' = ib_placeholders b \<and>
     (\<exists>ops. ib_operations b' = ib_operations b @ ops)"

lemma block_closed_append:
  "block_closed ops iret bb \<Longrightarrow> block_closed (ops @ ops') iret bb"
  unfolding block_closed_def by (blast intro: read_span_append)

lemma fb_inv_extends:
  assumes "fb_inv fb" "ib_extends (fb_ir fb) b"
  shows "fb_inv (fb\<lparr>fb_ir := b\<rparr>)"
proof -
  from assms(2) obtain ops where ops: "ib_blocks b = ib_blocks (fb_ir fb)"
    "ib_placeholders b = ib_placeholders (fb_ir fb)" "ib_operations b = ib_operations (fb_ir fb) @ ops"
    by (auto simp: ib_extends_def)
  from assms(1) have "\<forall>i\<in>{fb_first_bb fb..<fb_last_bb fb} - set (ib_placeholders (fb_ir fb)).
        block_closed (ib_operations (fb_ir fb) @ ops) (fb_iret_outputs fb) (ib_blocks (fb_ir fb) ! i)"
    unfolding fb_inv_def by (blast intro: block_closed_append)
  with assms(1) ops show ?thesis by (auto simp: fb_inv_def)
qed

lemma ib_extends_refl [simp]: "ib_extends b b"
  by (simp add: ib_extends_def)

lemma ib_extends_trans: "ib_extends a b \<Longrightarrow> ib_extends b c \<Longrightarrow> ib_extends a c"
  by (auto simp: ib_extends_def)

lemma question_SomeE:
  assumes "question r s k = Some (y, t)"
  obtains e where "r = Inl e" "y = Inl e" "t = s" | x where "r = Inr x" "k x = Some (y, t)"
  using assms by (cases r) auto

lemma ib_alloc_locals_extends: "ib_alloc_locals xs b = Some (s, b') \<Longrightarrow> ib_extends b b'"
  by (auto simp: monad_elims ib_extends_def)

lemma ib_alloc_u256_extends: "ib_alloc_u256 v b = Some (i, b') \<Longrightarrow> ib_extends b b'"
  by (auto simp: monad_elims ib_extends_def)

lemma ib_new_static_alloc_extends: "ib_new_static_alloc b = Some (i, b') \<Longrightarrow> ib_extends b b'"
  by (auto simp: monad_elims ib_extends_def)

lemma ib_new_local_extends: "ib_new_local b = Some (i, b') \<Longrightarrow> ib_extends b b'"
  by (auto simp: ib_new_local_def monad_elims ib_extends_def)

lemma sb_push_case_extends: "sb_push_case v t (sb, b) = Some (sb', b') \<Longrightarrow> ib_extends b b'"
  by (auto simp: sb_push_case_def monad_elims ib_extends_def)

lemma sb_finish_extends: "sb_finish c f (sb, b) = Some (sw, b') \<Longrightarrow> ib_extends b b'"
  by (auto simp: sb_finish_def monad_elims ib_extends_def)

lemma build_call_extends: "build_call ins outs extra b = Some (r, b') \<Longrightarrow> ib_extends b b'"
  unfolding build_call_def
  by (auto elim!: question_SomeE simp: bind_eq_Some_conv dest!: ib_alloc_locals_extends
      split: option.splits) (erule (1) ib_extends_trans)

lemma build_data_extends: "build_data sh ins outs extra b = Some (r, b') \<Longrightarrow> ib_extends b b'"
  by (cases sh)
    (auto simp: build_defs bind_eq_Some_conv elim!: question_SomeE dest!: build_call_extends
      ib_alloc_locals_extends ib_alloc_u256_extends ib_new_static_alloc_extends
      split: option.splits if_splits)

lemma op_try_build_extends: "op_try_build kind ins outs extra b = Some (r, b') \<Longrightarrow> ib_extends b b'"
  by (auto simp: op_try_build_def bind_eq_Some_conv elim!: question_SomeE dest: build_data_extends)

text \<open>Steps of an open block that leave the function builder's own fields alone.\<close>

definition bk_extends :: "block_builder \<Rightarrow> block_builder \<Rightarrow> bool" where
  "bk_extends k k' \<longleftrightarrow> (\<exists>b. ib_extends (bk_ir k) b \<and> bk_fn k' = (bk_fn k)\<lparr>fb_ir := b\<rparr>)"

lemma bk_extendsI: "ib_extends (bk_ir k) b \<Longrightarrow> bk_fn k' = (bk_fn k)\<lparr>fb_ir := b\<rparr> \<Longrightarrow> bk_extends k k'"
  by (auto simp: bk_extends_def)

lemma bk_extends_trans:
  assumes "bk_extends k l" "bk_extends l m"
  shows "bk_extends k m"
proof -
  from assms obtain b c where "ib_extends (bk_ir k) b" "bk_fn l = (bk_fn k)\<lparr>fb_ir := b\<rparr>"
    "ib_extends (bk_ir l) c" "bk_fn m = (bk_fn l)\<lparr>fb_ir := c\<rparr>"
    by (auto simp: bk_extends_def)
  then show ?thesis by (intro bk_extendsI [of k c]) (auto elim: ib_extends_trans)
qed

lemma bk_set_ir_extends: "ib_extends (bk_ir k) b \<Longrightarrow> bk_extends k (bk_set_ir b k)"
  by (auto simp: bk_extends_def bk_set_ir_def)

lemma bk_add_operation_extends: "bk_add_operation op k = Some (i, k') \<Longrightarrow> bk_extends k k'"
  by (auto simp: bk_add_operation_def bk_set_ir_def iv_push_def monad_elims bk_extends_def ib_extends_def
      intro!: exI [of _ "(bk_ir k)\<lparr>ib_operations := ib_operations (bk_ir k) @ [op]\<rparr>"])

lemma bk_try_add_op_extends: "bk_try_add_op kind ins outs extra k = Some (r, k') \<Longrightarrow> bk_extends k k'"
  unfolding bk_try_add_op_def
  by (auto simp: bind_eq_Some_conv elim!: question_SomeE
      dest!: op_try_build_extends bk_add_operation_extends
      intro: bk_set_ir_extends bk_extends_trans)

lemma bk_add_set_const_op_extends: "bk_add_set_const_op sets v k = Some (i, k') \<Longrightarrow> bk_extends k k'"
  unfolding bk_add_set_const_op_def
  by (auto simp: bind_eq_Some_conv split: if_splits
      dest!: ib_alloc_u256_extends bk_add_operation_extends
      intro: bk_set_ir_extends bk_extends_trans)

lemma bk_new_local_extends: "bk_new_local k = Some (l, k') \<Longrightarrow> bk_extends k k'"
  by (auto simp: bk_new_local_def bind_eq_Some_conv intro: bk_set_ir_extends ib_new_local_extends)

lemma bk_set_inputs_extends: "bk_set_inputs xs k = Some k' \<Longrightarrow> bk_extends k k'"
  by (auto simp: bk_set_inputs_def bind_eq_Some_conv bk_set_ir_def ib_extends_def
      intro!: bk_extendsI [of k "(bk_ir k)\<lparr>ib_locals := ls\<rparr>" for ls])

lemma bk_set_outputs_extends: "bk_set_outputs xs k = Some k' \<Longrightarrow> bk_extends k k'"
  by (auto simp: bk_set_outputs_def bind_eq_Some_conv bk_set_ir_def ib_extends_def
      intro!: bk_extendsI [of k "(bk_ir k)\<lparr>ib_locals := ls\<rparr>" for ls])


lemma set_swap_remove:
  assumes "distinct xs" "i < length xs"
  shows "set (swap_remove xs i) = set xs - {xs ! i} \<and> distinct (swap_remove xs i)"
proof -
  from assms(2) obtain ys z where xs: "xs = ys @ [z]" by (cases xs rule: rev_cases) auto
  have eq: "swap_remove xs i = (if i = length ys then ys else ys[i := z])"
    using assms(2) by (simp add: xs swap_remove_def list_update_append)
  show ?thesis
  proof (cases "i = length ys")
    case True
    from eq True have "swap_remove xs i = ys" by simp
    moreover from True have "xs ! i = z" by (simp add: xs)
    ultimately
    show ?thesis using assms(1) by (simp add: xs)
  next
    case False
    with eq have "swap_remove xs i = ys[i := z]" by simp
    moreover from False assms(2) have "i < length ys" "xs ! i = ys ! i"
      by (simp_all add: xs nth_append)
    ultimately show ?thesis
      using assms(1) by (auto simp: xs set_update_distinct intro!: distinct_list_update)
  qed
qed

lemma block_closed_iret:
  "block_closed ops iret bb \<Longrightarrow> iret = None \<or> iret' = iret \<Longrightarrow> block_closed ops iret' bb"
  by (auto simp: block_closed_def)

text \<open>The new block is the last one, and either it is closed or its control is still to be set.\<close>

lemma fb_inv_push:
  assumes inv: "fb_inv fb" and push: "fb_push_block bb fb = Some (i, fb')"
  shows "i = length (ib_blocks (fb_ir fb)) \<and>
    fb' = fb\<lparr>fb_ir := (fb_ir fb)\<lparr>ib_blocks := ib_blocks (fb_ir fb) @ [bb]\<rparr>, fb_last_bb := Suc i\<rparr>"
  using assms by (auto simp: fb_inv_def fb_push_block_def iv_push_def iv_len_idx_def monad_elims)

lemma fb_inv_block:
  assumes inv: "fb_inv fb"
    and closed: "block_closed (ib_operations (fb_ir fb)) iret bb"
    and iret: "fb_iret_outputs fb = None \<or> iret = fb_iret_outputs fb"
    and new: "iret = fb_iret_outputs fb \<or> bb_control bb = InternalReturn"
  shows "fb_inv (fb\<lparr>fb_ir := (fb_ir fb)\<lparr>ib_blocks := ib_blocks (fb_ir fb) @ [bb]\<rparr>,
    fb_last_bb := Suc (length (ib_blocks (fb_ir fb))), fb_iret_outputs := iret\<rparr>)"
proof -
  let ?n = "length (ib_blocks (fb_ir fb))"
  have P: "?n \<notin> set (ib_placeholders (fb_ir fb))" "fb_first_bb fb \<le> ?n" "fb_last_bb fb = ?n"
    using inv by (auto simp: fb_inv_def)
  have "block_closed (ib_operations (fb_ir fb)) iret ((ib_blocks (fb_ir fb) @ [bb]) ! i)"
    if "i \<in> {fb_first_bb fb..<Suc ?n} - set (ib_placeholders (fb_ir fb))" for i
    using inv closed iret that
    by (cases "i = ?n") (auto simp: fb_inv_def nth_append intro: block_closed_iret)
  moreover have "\<exists>i\<in>{fb_first_bb fb..<Suc ?n} - set (ib_placeholders (fb_ir fb)).
      bb_control ((ib_blocks (fb_ir fb) @ [bb]) ! i) = InternalReturn" if "iret \<noteq> None"
  proof (cases "bb_control bb = InternalReturn")
    case True
    with P show ?thesis by (intro bexI [of _ ?n]) auto
  next
    case False
    with new that inv obtain i where
      "i \<in> {fb_first_bb fb..<?n} - set (ib_placeholders (fb_ir fb))"
      "bb_control (ib_blocks (fb_ir fb) ! i) = InternalReturn"
      by (auto simp: fb_inv_def)
    then show ?thesis by (intro bexI [of _ i]) (auto simp: nth_append)
  qed
  ultimately show ?thesis
    using inv by (auto simp: fb_inv_def)
qed


lemma fb_inv_placeholder:
  assumes inv: "fb_inv fb"
  shows "fb_inv (fb\<lparr>fb_ir := (fb_ir fb)\<lparr>ib_blocks := ib_blocks (fb_ir fb) @ [bb],
      ib_placeholders := ib_placeholders (fb_ir fb) @ [length (ib_blocks (fb_ir fb))]\<rparr>,
    fb_last_bb := Suc (length (ib_blocks (fb_ir fb)))\<rparr>)"
proof -
  let ?n = "length (ib_blocks (fb_ir fb))"
  have P: "?n \<notin> set (ib_placeholders (fb_ir fb))" "fb_first_bb fb \<le> ?n" "fb_last_bb fb = ?n"
    using inv by (auto simp: fb_inv_def)
  have range: "{fb_first_bb fb..<Suc ?n} - insert ?n (set (ib_placeholders (fb_ir fb))) =
      {fb_first_bb fb..<?n} - set (ib_placeholders (fb_ir fb))"
    by auto
  have "(ib_blocks (fb_ir fb) @ [bb]) ! i = ib_blocks (fb_ir fb) ! i"
    if "i \<in> {fb_first_bb fb..<?n} - set (ib_placeholders (fb_ir fb))" for i
    using that by (simp add: nth_append)
  with inv P show ?thesis
    unfolding fb_inv_def by (simp add: range cong: ball_cong bex_cong) auto
qed

text \<open>\<open>set_control\<close> settles one placeholder.\<close>

lemma fb_inv_settle:
  assumes inv: "fb_inv fb" and j: "j \<in> set (ib_placeholders (fb_ir fb))"
    and Q: "set Q = set (ib_placeholders (fb_ir fb)) - {j}" "distinct Q"
    and closed: "block_closed (ib_operations (fb_ir fb)) iret bb"
    and iret: "fb_iret_outputs fb = None \<or> iret = fb_iret_outputs fb"
    and new: "iret = fb_iret_outputs fb \<or> bb_control bb = InternalReturn"
  shows "fb_inv (fb\<lparr>fb_ir := (fb_ir fb)\<lparr>ib_placeholders := Q,
      ib_blocks := (ib_blocks (fb_ir fb))[j := bb]\<rparr>, fb_iret_outputs := iret\<rparr>)"
proof -
  have range: "{fb_first_bb fb..<fb_last_bb fb} - set Q =
      insert j ({fb_first_bb fb..<fb_last_bb fb} - set (ib_placeholders (fb_ir fb)))"
    and j': "j < length (ib_blocks (fb_ir fb))"
    using inv j Q(1) by (auto simp: fb_inv_def)
  have other: "(ib_blocks (fb_ir fb))[j := bb] ! i = ib_blocks (fb_ir fb) ! i"
    if "i \<in> {fb_first_bb fb..<fb_last_bb fb} - set (ib_placeholders (fb_ir fb))" for i
    using that j by (cases "i = j") auto
  have "block_closed (ib_operations (fb_ir fb)) iret ((ib_blocks (fb_ir fb))[j := bb] ! i)"
    if "i \<in> {fb_first_bb fb..<fb_last_bb fb} - set Q" for i
  proof (cases "i = j")
    case True
    with closed j' show ?thesis by simp
  next
    case False
    with that have i: "i \<in> {fb_first_bb fb..<fb_last_bb fb} - set (ib_placeholders (fb_ir fb))"
      unfolding range by simp
    with inv have "block_closed (ib_operations (fb_ir fb)) (fb_iret_outputs fb) (ib_blocks (fb_ir fb) ! i)"
      unfolding fb_inv_def by blast
    from block_closed_iret [OF this iret] other [OF i] show ?thesis by simp
  qed
  moreover have "\<exists>i\<in>{fb_first_bb fb..<fb_last_bb fb} - set Q.
      bb_control ((ib_blocks (fb_ir fb))[j := bb] ! i) = InternalReturn" if "iret \<noteq> None"
  proof (cases "bb_control bb = InternalReturn")
    case True
    with j' show ?thesis unfolding range by simp
  next
    case False
    with new that inv obtain i where
      "i \<in> {fb_first_bb fb..<fb_last_bb fb} - set (ib_placeholders (fb_ir fb))"
      "bb_control (ib_blocks (fb_ir fb) ! i) = InternalReturn"
      by (auto simp: fb_inv_def)
    with other show ?thesis unfolding range by auto
  qed
  ultimately show ?thesis
    using inv Q by (auto simp: fb_inv_def)
qed

lemma fb_track_outcome:
  assumes "fb_track_bb_internal_return bb fb = Some (Inr u, fb')"
  obtains iret where "fb' = fb\<lparr>fb_iret_outputs := iret\<rparr>"
    "fb_iret_outputs fb = None \<or> iret = fb_iret_outputs fb"
    "iret = fb_iret_outputs fb \<or> bb_control bb = InternalReturn"
    "bb_control bb = InternalReturn \<Longrightarrow> \<exists>n. iret = Some n \<and> span_len (bb_outputs bb) = Some n"
proof (cases "bb_control bb = InternalReturn")
  case True
  with assms obtain n where s: "span_len (bb_outputs bb) = Some n"
    by (auto simp: fb_track_bb_internal_return_def bb_implied_fn_out_def bind_eq_Some_conv)
  with assms True have n: "fb' = fb\<lparr>fb_iret_outputs := Some n\<rparr>"
    "fb_iret_outputs fb = None \<or> Some n = fb_iret_outputs fb"
    by (cases "fb_iret_outputs fb"; auto simp: fb_track_bb_internal_return_def bb_implied_fn_out_def
        split: if_splits)+
  show ?thesis by (rule that [of "Some n"]) (use s n True in auto)
next
  case False
  with assms have "fb' = fb"
    by (auto simp: fb_track_bb_internal_return_def bb_implied_fn_out_def bind_eq_Some_conv
        split: control.splits option.splits if_splits)
  then show ?thesis using False by (intro that [of "fb_iret_outputs fb"]) auto
qed

lemma fb_validate_outcome:
  "fb_validate_terminating bb fb = Some (Inr u) \<Longrightarrow> bb_control bb = LastOpTerminates \<Longrightarrow>
     \<exists>xs. read_span (ib_operations (fb_ir fb)) (bb_operations bb) = Some xs \<and> xs \<noteq> [] \<and>
       is_terminating (opn_kind (last xs))"
  by (auto simp: fb_validate_terminating_def bind_eq_Some_conv split: if_splits)

lemma fb_inv_set_control:
  assumes inv: "fb_inv fb" and set: "fb_set_control j c fb = Some (Inr u, fb')"
  shows "fb_inv fb'"
proof -
  let ?P = "ib_placeholders (fb_ir fb)"
  from set obtain pos where pos: "position (\<lambda>id. id = j) ?P = Some pos"
    by (auto simp: fb_set_control_def split: option.splits)
  then have p: "pos < length ?P" "?P ! pos = j" by (auto dest: position_SomeD)
  then have j: "j \<in> set ?P" by auto
  let ?Q = "swap_remove ?P pos"
  let ?bb = "(ib_blocks (fb_ir fb) ! j)\<lparr>bb_control := c\<rparr>"
  let ?fb = "fb\<lparr>fb_ir := (fb_ir fb)\<lparr>ib_placeholders := ?Q, ib_blocks := (ib_blocks (fb_ir fb))[j := ?bb]\<rparr>\<rparr>"
  from inv have "distinct ?P" by (simp add: fb_inv_def)
  with set_swap_remove [OF this p(1)] p(2) have Q: "set ?Q = set ?P - {j}" "distinct ?Q" by auto
  from set pos have val: "\<exists>v. fb_validate_terminating ?bb ?fb = Some (Inr v)"
    and tr: "\<exists>v. fb_track_bb_internal_return ?bb ?fb = Some (Inr v, fb')"
    by (auto simp: fb_set_control_def monad_elims Let_def elim!: question_SomeE)
  from tr obtain v where "fb_track_bb_internal_return ?bb ?fb = Some (Inr v, fb')" ..
  then obtain iret where fb': "fb' = ?fb\<lparr>fb_iret_outputs := iret\<rparr>"
    and iret: "fb_iret_outputs ?fb = None \<or> iret = fb_iret_outputs ?fb"
    "iret = fb_iret_outputs ?fb \<or> bb_control ?bb = InternalReturn"
    and ret: "bb_control ?bb = InternalReturn \<Longrightarrow> \<exists>n. iret = Some n \<and> span_len (bb_outputs ?bb) = Some n"
    by (rule fb_track_outcome) (rule that)
  from val fb_validate_outcome [of ?bb ?fb] ret
  have "block_closed (ib_operations (fb_ir fb)) iret ?bb" by (auto simp: block_closed_def)
  from fb_inv_settle [OF inv j Q this] iret show ?thesis by (simp add: fb')
qed


lemma fb_inv_bk_extends:
  assumes "fb_inv (bk_fn k)" "bk_extends k k'"
  shows "fb_inv (bk_fn k')"
  using assms fb_inv_extends by (auto simp: bk_extends_def)

lemma bk_finish_parts:
  assumes "fb_inv (bk_fn k)" "bk_finish c k = Some ((i, bb), fb)"
  shows "bb = bk_block k c" "fb = (bk_fn k)\<lparr>fb_ir := (bk_ir k)\<lparr>ib_blocks := ib_blocks (bk_ir k) @ [bb]\<rparr>,
      fb_last_bb := Suc (length (ib_blocks (bk_ir k)))\<rparr>"
  using assms fb_inv_push [OF assms(1)] by (auto simp: bk_finish_def bind_eq_Some_conv Let_def)

lemma bk_block_control [simp]: "bb_control (bk_block k c) = c"
  by (simp add: bk_block_def)

lemma fb_inv_finish_plain:
  assumes "fb_inv (bk_fn k)" "bk_finish c k = Some ((i, bb), fb)"
    and "c \<noteq> LastOpTerminates" "c \<noteq> InternalReturn"
  shows "fb_inv fb"
  using fb_inv_block [OF assms(1), of "fb_iret_outputs (bk_fn k)" bb]
    bk_finish_parts [OF assms(1,2)] assms(3,4) by (simp add: block_closed_def)

lemma fb_inv_finish_return:
  assumes inv: "fb_inv (bk_fn k)" and fin: "bk_finish_with_internal_return k = Some (Inr i, fb)"
  shows "fb_inv fb"
proof -
  from fin obtain j bb fb1 where 1: "bk_finish InternalReturn k = Some ((j, bb), fb1)"
    and tr: "\<exists>u. fb_track_bb_internal_return bb fb1 = Some (Inr u, fb)"
    by (auto simp: bk_finish_with_internal_return_def monad_elims elim!: question_SomeE)
  note parts = bk_finish_parts [OF inv 1]
  from tr obtain u where "fb_track_bb_internal_return bb fb1 = Some (Inr u, fb)" ..
  then obtain iret where fb: "fb = fb1\<lparr>fb_iret_outputs := iret\<rparr>"
    and iret: "fb_iret_outputs fb1 = None \<or> iret = fb_iret_outputs fb1"
    "iret = fb_iret_outputs fb1 \<or> bb_control bb = InternalReturn"
    and ret: "bb_control bb = InternalReturn \<Longrightarrow> \<exists>n. iret = Some n \<and> span_len (bb_outputs bb) = Some n"
    by (rule fb_track_outcome) (rule that)
  from ret parts(1) have "block_closed (ib_operations (bk_ir k)) iret bb"
    by (simp add: block_closed_def)
  from fb_inv_block [OF inv this] iret parts fb show ?thesis by simp
qed

lemma fb_inv_finish_terminating:
  assumes inv: "fb_inv (bk_fn k)" and fin: "bk_finish_terminating k = Some (Inr i, fb)"
  shows "fb_inv fb"
proof -
  from fin obtain j bb where 1: "bk_finish LastOpTerminates k = Some ((j, bb), fb)"
    and val: "\<exists>u. fb_validate_terminating bb fb = Some (Inr u)"
    by (auto simp: bk_finish_terminating_def monad_elims elim!: question_SomeE)
  note parts = bk_finish_parts [OF inv 1]
  from val fb_validate_outcome [of bb fb] parts
  have "block_closed (ib_operations (bk_ir k)) (fb_iret_outputs (bk_fn k)) bb"
    by (auto simp: block_closed_def)
  from fb_inv_block [OF inv this] parts(2) show ?thesis by simp
qed

lemma fb_inv_finish_placeholder:
  assumes inv: "fb_inv (bk_fn k)" and fin: "bk_finish_with_placeholder_control k = Some (i, fb)"
  shows "fb_inv fb"
proof -
  from fin obtain bb fb1 where 1: "bk_finish LastOpTerminates k = Some ((i, bb), fb1)"
    and fb: "fb = fb1\<lparr>fb_ir := (fb_ir fb1)\<lparr>ib_placeholders := ib_placeholders (fb_ir fb1) @ [i]\<rparr>\<rparr>"
    by (auto simp: bk_finish_with_placeholder_control_def monad_elims)
  from 1 fb_inv_push [OF inv] have i: "i = length (ib_blocks (bk_ir k))"
    by (auto simp: bk_finish_def monad_elims)
  from fb_inv_placeholder [OF inv, of bb] bk_finish_parts [OF inv 1] fb i show ?thesis
    by (cases "bk_fn k") simp
qed

lemmas finish_defs = bk_finish_with_continues_to_def bk_finish_with_branch_def
  bk_finish_with_switch_def

lemma fn_step_inv:
  assumes "fn_step s t" "fb_inv (state_fn s)"
  shows "fb_inv (state_fn t)"
  using assms
proof (induction rule: fn_step.induct)
  case (step_begin fb k)
  then show ?case by (auto simp: fb_begin_basic_block_def monad_elims)
next
  case (step_local fb l b)
  then show ?case by (simp add: fb_inv_extends ib_new_local_extends)
next
  case (step_control i c fb u fb')
  then show ?case by (simp add: fb_inv_set_control)
next
  case (step_case v t sb fb sb' b)
  then show ?case by (simp add: fb_inv_extends sb_push_case_extends)
next
  case (step_switch c fallback sb fb sw b)
  then show ?case by (simp add: fb_inv_extends sb_finish_extends)
next
  case (block_case v t sb k sb' b)
  then show ?case by (simp add: fb_inv_bk_extends bk_set_ir_extends sb_push_case_extends)
next
  case (block_switch c fallback sb k sw b)
  then show ?case by (simp add: fb_inv_bk_extends bk_set_ir_extends sb_finish_extends)
next
  case (block_control i c k u k')
  then show ?case by (auto simp: bk_set_fn_control_def monad_elims fb_inv_set_control)
next
  case (end_continues t k i fb)
  then show ?case by (auto simp: finish_defs monad_elims intro: fb_inv_finish_plain)
next
  case (end_branch br k i fb)
  then show ?case by (auto simp: finish_defs monad_elims intro: fb_inv_finish_plain)
next
  case (end_switch sw k i fb)
  then show ?case by (auto simp: finish_defs monad_elims intro: fb_inv_finish_plain)
qed (auto intro: fb_inv_bk_extends bk_add_operation_extends bk_try_add_op_extends
  bk_add_set_const_op_extends bk_new_local_extends bk_set_inputs_extends bk_set_outputs_extends
  fb_inv_finish_return fb_inv_finish_terminating fb_inv_finish_placeholder)

lemma fn_steps_inv:
  "fn_step\<^sup>*\<^sup>* s t \<Longrightarrow> fb_inv (state_fn s) \<Longrightarrow> fb_inv (state_fn t)"
  by (induction rule: rtranclp_induct) (auto intro: fn_step_inv)

lemma fb_inv_begin:
  "ib_begin_function b = Some fb \<Longrightarrow> ib_placeholders b = [] \<Longrightarrow> fb_inv fb"
  by (auto simp: ib_begin_function_def iv_len_idx_def monad_elims fb_inv_def)


lemma bk_extends_first: "bk_extends k k' \<Longrightarrow> fb_first_bb (bk_fn k') = fb_first_bb (bk_fn k)"
  by (auto simp: bk_extends_def)

lemma fb_push_block_first: "fb_push_block bb fb = Some (i, fb') \<Longrightarrow> fb_first_bb fb' = fb_first_bb fb"
  by (auto simp: fb_push_block_def monad_elims)

lemma bk_finish_first: "bk_finish c k = Some (r, fb) \<Longrightarrow> fb_first_bb fb = fb_first_bb (bk_fn k)"
  by (auto simp: bk_finish_def monad_elims dest: fb_push_block_first)

lemma fb_track_first:
  "fb_track_bb_internal_return bb fb = Some (Inr u, fb') \<Longrightarrow> fb_first_bb fb' = fb_first_bb fb"
  by (erule fb_track_outcome) simp

lemma fb_set_control_first:
  "fb_set_control i c fb = Some (Inr u, fb') \<Longrightarrow> fb_first_bb fb' = fb_first_bb fb"
  by (auto simp: fb_set_control_def monad_elims Let_def dest!: fb_track_first
      elim!: question_SomeE split: option.splits)

lemma fn_step_first:
  "fn_step s t \<Longrightarrow> fb_first_bb (state_fn t) = fb_first_bb (state_fn s)"
proof (induction rule: fn_step.induct)
  case (block_control i c k u k')
  then show ?case by (auto simp: bk_set_fn_control_def monad_elims dest: fb_set_control_first)
qed (auto simp: fb_begin_basic_block_def finish_defs bk_finish_with_internal_return_def
  bk_finish_terminating_def bk_finish_with_placeholder_control_def bk_set_ir_def monad_elims
  elim!: question_SomeE
  dest!: bk_finish_first fb_set_control_first bk_extends_first fb_track_first
    bk_add_operation_extends bk_try_add_op_extends bk_add_set_const_op_extends bk_new_local_extends
    bk_set_inputs_extends bk_set_outputs_extends)

lemma fn_steps_first:
  "fn_step\<^sup>*\<^sup>* s t \<Longrightarrow> fb_first_bb (state_fn t) = fb_first_bb (state_fn s)"
  by (induction rule: rtranclp_induct) (auto dest: fn_step_first)

lemma ball_set_drop:
  assumes "n \<le> length xs"
  shows "(\<forall>x\<in>set (drop n xs). P x) \<longleftrightarrow> (\<forall>i\<in>{n..<length xs}. P (xs ! i))"
proof (intro iffI ballI)
  fix i assume "\<forall>x\<in>set (drop n xs). P x" "i \<in> {n..<length xs}"
  moreover from this have "xs ! i = drop n xs ! (i - n)" "i - n < length (drop n xs)" by auto
  ultimately show "P (xs ! i)" by (metis nth_mem)
next
  fix x assume "\<forall>i\<in>{n..<length xs}. P (xs ! i)" "x \<in> set (drop n xs)"
  then show "P x" by (auto simp: in_set_conv_nth)
qed

definition sample_caller :: ir_builder where
  "sample_caller = ib_new\<lparr>
     ib_blocks := [\<lparr>bb_inputs = (0, 1), bb_outputs = (0, 1), bb_operations = (0, 0),
       bb_control = InternalReturn\<rparr>],
     ib_locals := [0],
     ib_functions := [\<lparr>fn_entry = 0, fn_return_kind = 1, fn_source = None\<rparr>]\<rparr>"

subsection \<open>Properties\<close>

text \<open>
  C25: \<open>Operation::try_build\<close> accepts exactly the operand lists and extra data that fit the
  operation kind (for calls: the signature of a function that exists and returns or not as the kind
  says). What it accepts becomes a well-typed operation of that kind whose inputs and outputs read back
  as the given lists; what it refuses is an error value and changes nothing but unused locals. It does
  not panic while the index spaces have room.
\<close>

theorem op_build_exact:
  assumes "ib_room b (length ins + length outs)"
  shows "\<exists>r b'. op_try_build kind ins outs extra b = Some (r, b') \<and>
    (if op_expected (op_shape kind) extra b = Some (length ins, length outs)
     then \<exists>op. r = Inr op \<and> opn_kind op = kind \<and> op_typed op \<and>
            data_inputs (opn_data op) (ib_locals b') = Some ins \<and>
            data_outputs (opn_data op) (ib_locals b') (ib_functions b') = Some outs
     else (\<exists>e. r = Inl e) \<and> only_locals_grow b b')"
proof -
  from build_outcome_holds [OF assms, of "op_shape kind" extra] obtain r b'
    where r: "build_data (op_shape kind) ins outs extra b = Some (r, b')"
    and out: "if op_expected (op_shape kind) extra b = Some (length ins, length outs) then \<exists>d. r = Inr d
        else (\<exists>e. r = Inl e) \<and> only_locals_grow b b'"
    unfolding build_outcome_def by (elim exE conjE)
  show ?thesis
  proof (cases r)
    case (Inl e)
    with r out show ?thesis by (auto simp: op_try_build_def split: if_splits)
  next
    case (Inr d)
    with build_data_built [OF r [unfolded Inr]] r out show ?thesis
      by (auto simp: op_try_build_def op_built_def op_typed_def split: if_splits)
  qed
qed

theorem op_build_exact_witness:
  "\<exists>op b'. op_try_build OpInternalCall [4] [5] (FuncIdExtra 0) sample_caller = Some (Inr op, b') \<and>
     data_inputs (opn_data op) (ib_locals b') = Some [4] \<and>
     data_outputs (opn_data op) (ib_locals b') (ib_functions b') = Some [5]"
proof -
  have "ib_room sample_caller (length [4::nat] + length [5::nat])"
    by (simp add: ib_room_def sample_caller_def ib_new_def idx_limit_def fn_get_inputs_def
        span_len_def idx_sub_def)
  moreover have "op_expected (op_shape OpInternalCall) (FuncIdExtra 0) sample_caller =
      Some (length [4::nat], length [5::nat])"
    by (simp add: call_signature_def sample_caller_def ib_new_def ib_get_func_def fn_get_inputs_def
        span_len_def idx_sub_def rk_count_def rk_is_never_def rk_never_def)
  ultimately show ?thesis
    using op_build_exact [of sample_caller "[4]" "[5]" OpInternalCall "FuncIdExtra 0"] by auto
qed

text \<open>
  C24: a function finished after any sequence of builder calls that reported no
  error is well formed: its entry is one of the blocks pushed since it was begun, each of these blocks
  that claims to end in a terminating operation does, every internal return hands back as many values
  as the function's return kind says, and the return kind is "never" exactly when there is no internal
  return.
\<close>

theorem built_function_valid:
  assumes "ib_begin_function b = Some fb" "ib_placeholders b = []"
    and "fn_step\<^sup>*\<^sup>* (Idle fb) (Idle fb')"
    and "fb_finish_with_source entry src fb' = Some (f, b')"
  shows "\<exists>fn. slice_get (ib_functions b') f = Some fn \<and>
    fn_entry fn \<in> {length (ib_blocks b)..<length (ib_blocks b')} \<and>
    (\<forall>bb\<in>set (drop (length (ib_blocks b)) (ib_blocks b')).
       block_closed (ib_operations b') (rk_count (fn_return_kind fn)) bb) \<and>
    (rk_is_never (fn_return_kind fn) \<longleftrightarrow>
       (\<forall>bb\<in>set (drop (length (ib_blocks b)) (ib_blocks b')). bb_control bb \<noteq> InternalReturn))"
proof -
  from assms(1) have first: "fb_first_bb fb = length (ib_blocks b)"
    by (auto simp: ib_begin_function_def iv_len_idx_def monad_elims)
  have inv: "fb_inv fb'"
    using fn_steps_inv [OF assms(3)] fb_inv_begin [OF assms(1,2)] by simp
  have first': "fb_first_bb fb' = length (ib_blocks b)"
    using fn_steps_first [OF assms(3)] first by simp
  from assms(4) obtain rk where rk: "rk_count rk = fb_iret_outputs fb'"
    and fn: "slice_get (ib_functions b') f = Some \<lparr>fn_entry = entry, fn_return_kind = rk, fn_source = src\<rparr>"
    and e: "fb_first_bb fb' \<le> entry" "entry < length (ib_blocks (fb_ir fb'))"
    and b': "ib_blocks b' = ib_blocks (fb_ir fb')" "ib_operations b' = ib_operations (fb_ir fb')"
    and ph: "ib_placeholders (fb_ir fb') = []"
    by (auto simp: fb_finish_with_source_def iv_push_def iv_len_idx_def rk_count_def rk_is_never_def
        rk_values_def monad_elims split: option.splits)
  have blk: "(\<forall>bb\<in>set (drop (length (ib_blocks b)) (ib_blocks b')). P bb) \<longleftrightarrow>
      (\<forall>i\<in>{fb_first_bb fb'..<fb_last_bb fb'}. P (ib_blocks (fb_ir fb') ! i))" for P
    using inv by (simp add: fb_inv_def b' first' ball_set_drop)
  have never: "rk_is_never rk \<longleftrightarrow> fb_iret_outputs fb' = None"
    using rk by (cases "fb_iret_outputs fb'") (auto simp: rk_count_def split: if_splits)
  show ?thesis
    using inv e rk unfolding fb_inv_def ph blk
    by (intro exI [of _ "\<lparr>fn_entry = entry, fn_return_kind = rk, fn_source = src\<rparr>"] conjI)
      (auto simp: fn b' first' never block_closed_def)
qed


definition sample_done :: "(nat \<times> ir_builder) option" where
  "sample_done = do {
     fb \<leftarrow> ib_begin_function ib_new;
     k \<leftarrow> fb_begin_basic_block fb;
     (_, k) \<leftarrow> bk_add_operation (Operation OpStop UnitData) k;
     (r, fb) \<leftarrow> bk_finish_terminating k;
     (case r of Inl _ \<Rightarrow> None | Inr entry \<Rightarrow> fb_finish_with_source entry None fb)
   }"

theorem built_function_valid_witness:
  "\<exists>f b' fn. sample_done = Some (f, b') \<and> slice_get (ib_functions b') f = Some fn \<and>
     rk_is_never (fn_return_kind fn)"
proof -
  note defs = ib_begin_function_def fb_begin_basic_block_def bk_add_operation_def
    bk_finish_terminating_def bk_finish_def fb_push_block_def fb_validate_terminating_def
    fb_finish_with_source_def ib_new_def iv_len_idx_def iv_push_def idx_limit_def bk_set_ir_def
    bk_block_def read_span_def is_terminating_def Let_def
  define fb where "fb = the (ib_begin_function ib_new)"
  define k where "k = the (fb_begin_basic_block fb)"
  define k' where "k' = snd (the (bk_add_operation (Operation OpStop UnitData) k))"
  define fb' where "fb' = snd (the (bk_finish_terminating k'))"
  define f where "f = fst (the (fb_finish_with_source 0 None fb'))"
  define b' where "b' = snd (the (fb_finish_with_source 0 None fb'))"
  note vars = fb_def k_def k'_def fb'_def f_def b'_def
  have steps: "ib_begin_function ib_new = Some fb"
      "fb_begin_basic_block fb = Some k" "bk_add_operation (Operation OpStop UnitData) k = Some (0, k')"
      "bk_finish_terminating k' = Some (Inr 0, fb')"
      "fb_finish_with_source 0 None fb' = Some (f, b')"
    and blocks: "map bb_control (ib_blocks b') = [LastOpTerminates]"
    by (simp_all add: vars defs)
  have "fn_step (Idle fb) (Open k)" "fn_step (Open k) (Open k')" "fn_step (Open k') (Idle fb')"
    using steps(2-4) by (auto intro: fn_step.intros)
  then have run: "fn_step\<^sup>*\<^sup>* (Idle fb) (Idle fb')"
    by (meson converse_rtranclp_into_rtranclp rtranclp.rtrancl_refl)
  have "ib_placeholders ib_new = []" by (simp add: ib_new_def)
  from built_function_valid [OF steps(1) this run steps(5)] obtain fn where
    fn: "slice_get (ib_functions b') f = Some fn"
    and never: "rk_is_never (fn_return_kind fn) \<longleftrightarrow>
       (\<forall>bb\<in>set (drop (length (ib_blocks ib_new)) (ib_blocks b')). bb_control bb \<noteq> InternalReturn)"
    by blast
  have "\<forall>bb\<in>set (ib_blocks b'). bb_control bb = LastOpTerminates"
    using blocks by (cases "ib_blocks b'") auto
  then have "rk_is_never (fn_return_kind fn)"
    unfolding never by (auto dest: in_set_dropD)
  moreover have "sample_done = Some (f, b')"
    by (simp add: sample_done_def steps)
  ultimately show ?thesis using fn by blast
qed

end
