(* ===== verification/Sir_Semantics.thy ===== *)
theory Sir_Semantics
  imports Legalizer_Proofs
begin

text \<open>
  What a program of the intermediate representation computes: the specification the optimization
  passes are held to. A block is first \<^emph>\<open>resolved\<close>, i.e. its spans, constants and switch tables are
  read out of the program store; resolved blocks are then executed on an environment of locals and a
  world. The built-in operations that are not constants, copies or calls are a parameter \<open>sem\<close> from
  the kind, the immediate data, the input values and the world to the output values (or \<open>None\<close> when
  execution ends) and the new world.
\<close>

subsection \<open>Resolved blocks\<close>

datatype action =
    ActConst u256
  | ActCopy
  | ActSkip
  | ActCall nat
  | ActPlain operation_kind "nat list"

datatype rop = ROp (rop_action: action) (rop_ins: "nat list") (rop_outs: "nat list")

datatype rcontrol =
    CtlStop
  | CtlReturn
  | CtlJump nat
  | CtlBranch nat nat nat
  | CtlSwitch nat "(u256 \<times> nat) list" "nat option"

record rblock =
  rb_ins :: "nat list"
  rb_ops :: "rop list"
  rb_outs :: "nat list"
  rb_ctl :: rcontrol

text \<open>The immediate data of an operation: what is left when the operands are taken away.\<close>

primrec op_immediates :: "op_data \<Rightarrow> nat list" where
  "op_immediates UnitData = []"
| "op_immediates (InlineOperands ins outs) = []"
| "op_immediates (AllocatedIns count s outs) = []"
| "op_immediates (StaticAllocData sz p a) = [sz, a]"
| "op_immediates (MemoryLoadData out p sz) = [sz]"
| "op_immediates (MemoryStoreData ins sz) = [sz]"
| "op_immediates (SetSmallConstData out v) = [v]"
| "op_immediates (SetLargeConstData out c) = [c]"
| "op_immediates (SetDataOffsetData out seg) = [seg]"
| "op_immediates (InternalCallData g a b) = [g]"
| "op_immediates (InternalCallNeverData g s) = [g]"

definition resolve_action :: "u256 list \<Rightarrow> operation \<Rightarrow> action option" where
  "resolve_action consts op =
     (case opn_data op of
        SetSmallConstData _ v \<Rightarrow> Some (ActConst (of_nat v))
      | SetLargeConstData _ c \<Rightarrow> map_option ActConst (slice_get consts c)
      | InternalCallData g _ _ \<Rightarrow> Some (ActCall g)
      | InternalCallNeverData g _ \<Rightarrow> Some (ActCall g)
      | UnitData \<Rightarrow> Some (if opn_kind op = OpNoop then ActSkip else ActPlain (opn_kind op) [])
      | InlineOperands _ _ \<Rightarrow> Some (if opn_kind op = OpSetCopy then ActCopy else ActPlain (opn_kind op) [])
      | data \<Rightarrow> Some (ActPlain (opn_kind op) (op_immediates data)))"

definition resolve_op :: "ir_program \<Rightarrow> nat \<Rightarrow> rop option" where
  "resolve_op ir i = do {
     op \<leftarrow> slice_get (ir_operations ir) i;
     a \<leftarrow> resolve_action (ir_large_consts ir) op;
     ins \<leftarrow> op_inputs op ir;
     outs \<leftarrow> op_outputs op ir;
     Some (ROp a ins outs)
   }"

fun map_opt :: "('a \<Rightarrow> 'b option) \<Rightarrow> 'a list \<Rightarrow> 'b list option" where
  "map_opt f [] = Some []"
| "map_opt f (x # xs) = do { y \<leftarrow> f x; ys \<leftarrow> map_opt f xs; Some (y # ys) }"

definition resolve_control :: "ir_program \<Rightarrow> control \<Rightarrow> rcontrol option" where
  "resolve_control ir ctl =
     (case ctl of
        LastOpTerminates \<Rightarrow> Some CtlStop
      | InternalReturn \<Rightarrow> Some CtlReturn
      | ContinuesTo t \<Rightarrow> Some (CtlJump t)
      | Branches br \<Rightarrow> Some (CtlBranch (br_condition br) (br_non_zero_target br) (br_zero_target br))
      | Switches sw \<Rightarrow> do {
          c \<leftarrow> slice_get (ir_cases ir) (sw_cases sw);
          cases \<leftarrow> cs_iter c ir;
          Some (CtlSwitch (sw_condition sw) cases (sw_fallback sw))
        })"

definition resolve :: "ir_program \<Rightarrow> nat \<Rightarrow> rblock option" where
  "resolve ir b = do {
     bb \<leftarrow> slice_get (ir_blocks ir) b;
     ins \<leftarrow> read_span (ir_locals ir) (bb_inputs bb);
     ops \<leftarrow> map_opt (resolve_op ir) (span_indices (bb_operations bb));
     outs \<leftarrow> read_span (ir_locals ir) (bb_outputs bb);
     ctl \<leftarrow> resolve_control ir (bb_control bb);
     Some \<lparr>rb_ins = ins, rb_ops = ops, rb_outs = outs, rb_ctl = ctl\<rparr>
   }"

subsection \<open>Execution\<close>

type_synonym env = "nat \<Rightarrow> u256"
type_synonym 'w op_sem = "operation_kind \<Rightarrow> nat list \<Rightarrow> u256 list \<Rightarrow> 'w \<Rightarrow> u256 list option \<times> 'w"
type_synonym code = "nat \<Rightarrow> rblock option"

datatype 'w outcome = Returned "u256 list" 'w | Halted 'w
type_synonym 'w calls = "nat \<Rightarrow> u256 list \<Rightarrow> 'w \<Rightarrow> 'w outcome option"

datatype 'w flow = Fall env 'w | Ended 'w
datatype 'w exit = Leave "'w outcome" | Goto nat "u256 list" env 'w

fun assign :: "nat list \<Rightarrow> u256 list \<Rightarrow> env \<Rightarrow> env" where
  "assign (l # ls) (v # vs) e = assign ls vs (e(l := v))"
| "assign _ _ e = e"

lemma assign_other: "l \<notin> set ls \<Longrightarrow> assign ls vs e l = e l"
  by (induction ls vs e rule: assign.induct) auto

definition exec_rop :: "'w calls \<Rightarrow> 'w op_sem \<Rightarrow> rop \<Rightarrow> env \<Rightarrow> 'w \<Rightarrow> 'w flow option" where
  "exec_rop callf sem r e w =
     (let vals = map e (rop_ins r);
          next = (\<lambda>vs w. Fall (assign (rop_outs r) vs e) w)
      in (case rop_action r of
            ActConst v \<Rightarrow> Some (next [v] w)
          | ActCopy \<Rightarrow> Some (next vals w)
          | ActSkip \<Rightarrow> Some (Fall e w)
          | ActCall g \<Rightarrow>
              map_option (\<lambda>out. (case out of Returned vs w' \<Rightarrow> next vs w' | Halted w' \<Rightarrow> Ended w')) (callf g vals w)
          | ActPlain k imm \<Rightarrow>
              (case sem k imm vals w of
                 (Some vs, w') \<Rightarrow> Some (next vs w')
               | (None, w') \<Rightarrow> Some (Ended w'))))"

fun exec_rops :: "'w calls \<Rightarrow> 'w op_sem \<Rightarrow> rop list \<Rightarrow> env \<Rightarrow> 'w \<Rightarrow> 'w flow option" where
  "exec_rops callf sem [] e w = Some (Fall e w)"
| "exec_rops callf sem (r # rs) e w = do {
     out \<leftarrow> exec_rop callf sem r e w;
     (case out of Fall e' w' \<Rightarrow> exec_rops callf sem rs e' w' | Ended w' \<Rightarrow> Some (Ended w'))
   }"

text \<open>The block control transfers to; \<open>None\<close> for a switch that covers no case.\<close>

definition control_target :: "rcontrol \<Rightarrow> env \<Rightarrow> nat option" where
  "control_target ctl e =
     (case ctl of
        CtlJump t \<Rightarrow> Some t
      | CtlBranch c nz z \<Rightarrow> Some (if e c \<noteq> 0 then nz else z)
      | CtlSwitch c cases fallback \<Rightarrow>
          (case find (\<lambda>(v, _). v = e c) cases of Some (_, t) \<Rightarrow> Some t | None \<Rightarrow> fallback)
      | _ \<Rightarrow> None)"

definition exec_control :: "rblock \<Rightarrow> env \<Rightarrow> 'w \<Rightarrow> 'w exit option" where
  "exec_control rb e w =
     (if rb_ctl rb = CtlReturn then Some (Leave (Returned (map e (rb_outs rb)) w))
      else map_option (\<lambda>t. Goto t (map e (rb_outs rb)) e w) (control_target (rb_ctl rb) e))"

definition exec_block :: "'w calls \<Rightarrow> 'w op_sem \<Rightarrow> rblock \<Rightarrow> u256 list \<Rightarrow> env \<Rightarrow> 'w \<Rightarrow> 'w exit option" where
  "exec_block callf sem rb args e w = do {
     out \<leftarrow> exec_rops callf sem (rb_ops rb) (assign (rb_ins rb) args e) w;
     (case out of Fall e' w' \<Rightarrow> exec_control rb e' w' | Ended w' \<Rightarrow> Some (Leave (Halted w')))
   }"

text \<open>
  The execution of at most \<open>n\<close> nested or successive blocks, from block \<open>b\<close>; \<open>None\<close> when it takes more.
  Locals that were never assigned hold what \<open>junk\<close> says.
\<close>

primrec run :: "nat \<Rightarrow> code \<Rightarrow> (nat \<Rightarrow> nat option) \<Rightarrow> 'w op_sem \<Rightarrow> env \<Rightarrow>
    nat \<Rightarrow> u256 list \<Rightarrow> env \<Rightarrow> 'w \<Rightarrow> 'w outcome option" where
  "run 0 code entry sem junk b args e w = None"
| "run (Suc n) code entry sem junk b args e w = do {
     rb \<leftarrow> code b;
     out \<leftarrow> exec_block (\<lambda>g vals w. do { eb \<leftarrow> entry g; run n code entry sem junk eb vals junk w }) sem rb args e w;
     (case out of
        Leave r \<Rightarrow> Some r
      | Goto t vals e' w' \<Rightarrow> run n code entry sem junk t vals e' w')
   }"

definition run_function ::
    "nat \<Rightarrow> ir_program \<Rightarrow> 'w op_sem \<Rightarrow> env \<Rightarrow> nat \<Rightarrow> u256 list \<Rightarrow> 'w \<Rightarrow> 'w outcome option" where
  "run_function n ir sem junk f args w = do {
     eb \<leftarrow> fv_entry ir f;
     run n (resolve ir) (fv_entry ir) sem junk eb args junk w
   }"

subsection \<open>Blocks that agree\<close>

primrec rctl_targets :: "rcontrol \<Rightarrow> nat list" where
  "rctl_targets CtlStop = []"
| "rctl_targets CtlReturn = []"
| "rctl_targets (CtlJump t) = [t]"
| "rctl_targets (CtlBranch c nz z) = [z, nz]"
| "rctl_targets (CtlSwitch c cases fallback) =
     map snd cases @ (case fallback of None \<Rightarrow> [] | Some t \<Rightarrow> [t])"

primrec rctl_uses :: "rcontrol \<Rightarrow> nat set" where
  "rctl_uses CtlStop = {}"
| "rctl_uses CtlReturn = {}"
| "rctl_uses (CtlJump t) = {}"
| "rctl_uses (CtlBranch c nz z) = {c}"
| "rctl_uses (CtlSwitch c cases fallback) = {c}"

definition rop_callees :: "rop \<Rightarrow> nat set" where
  "rop_callees r = (case rop_action r of ActCall g \<Rightarrow> {g} | _ \<Rightarrow> {})"

definition rb_callees :: "rblock \<Rightarrow> nat set" where
  "rb_callees rb = \<Union> (rop_callees ` set (rb_ops rb))"

lemma control_target_in: "control_target ctl e = Some t \<Longrightarrow> t \<in> set (rctl_targets ctl)"
proof (cases ctl)
  case (CtlSwitch c cases fallback)
  assume t: "control_target ctl e = Some t"
  show ?thesis
  proof (cases "find (\<lambda>(v, _). v = e c) cases")
    case None
    with t CtlSwitch show ?thesis by (simp add: control_target_def)
  next
    case (Some p)
    then have "p \<in> set cases" unfolding find_Some_iff by (metis nth_mem)
    with t CtlSwitch Some show ?thesis by (force simp: control_target_def split: prod.splits)
  qed
qed (auto simp: control_target_def split: if_splits)

lemma control_target_cong:
  "(\<And>l. l \<in> rctl_uses ctl \<Longrightarrow> e l = e' l) \<Longrightarrow> control_target ctl e = control_target ctl e'"
  by (cases ctl) (simp_all add: control_target_def)

lemma exec_rop_calls:
  "(\<And>g. g \<in> rop_callees r \<Longrightarrow> callf g = callf' g) \<Longrightarrow> exec_rop callf sem r e w = exec_rop callf' sem r e w"
  by (cases "rop_action r") (simp_all add: exec_rop_def rop_callees_def)

lemma exec_rops_calls:
  "(\<And>g. g \<in> \<Union> (rop_callees ` set rs) \<Longrightarrow> callf g = callf' g) \<Longrightarrow>
     exec_rops callf sem rs e w = exec_rops callf' sem rs e w"
proof (induction rs arbitrary: e w)
  case (Cons r rs)
  from Cons.prems have "exec_rop callf sem r e w = exec_rop callf' sem r e w" by (intro exec_rop_calls) simp
  with Cons show ?case by (cases "exec_rop callf' sem r e w") (simp_all split: flow.split)
qed simp

lemma exec_block_calls:
  "(\<And>g. g \<in> rb_callees rb \<Longrightarrow> callf g = callf' g) \<Longrightarrow>
     exec_block callf sem rb args e w = exec_block callf' sem rb args e w"
  using exec_rops_calls [of "rb_ops rb" callf callf'] by (simp add: exec_block_def rb_callees_def)

lemma exec_block_target:
  "exec_block callf sem rb args e w = Some (Goto t vs e' w') \<Longrightarrow> t \<in> set (rctl_targets (rb_ctl rb))"
  by (cases "exec_rops callf sem (rb_ops rb) (assign (rb_ins rb) args e) w")
    (auto simp: exec_block_def exec_control_def control_target_in split: flow.splits if_splits)

fun exit_agrees :: "(env \<Rightarrow> env \<Rightarrow> bool) \<Rightarrow> 'w exit option \<Rightarrow> 'w exit option \<Rightarrow> bool" where
  "exit_agrees R None None = True"
| "exit_agrees R (Some (Leave a)) (Some (Leave b)) = (a = b)"
| "exit_agrees R (Some (Goto t vs e w)) (Some (Goto t' vs' e' w')) = (t' = t \<and> vs' = vs \<and> w' = w \<and> R e e')"
| "exit_agrees R _ _ = False"

definition block_agrees :: "'w op_sem \<Rightarrow> (env \<Rightarrow> env \<Rightarrow> bool) \<Rightarrow> rblock \<Rightarrow> rblock \<Rightarrow> bool" where
  "block_agrees sem R rb rb' \<longleftrightarrow> (\<forall>callf args e e' w. R e e' \<longrightarrow>
     exit_agrees R (exec_block callf sem rb args e w) (exec_block callf sem rb' args e' w))"

text \<open>
  When corresponding blocks of two programs agree, and calls and transfers stay inside the blocks
  considered, the programs compute the same in the same number of steps.
\<close>

definition code_agrees :: "nat set \<Rightarrow> (nat \<Rightarrow> nat option) \<Rightarrow> 'w op_sem \<Rightarrow> (env \<Rightarrow> env \<Rightarrow> bool) \<Rightarrow>
    code \<Rightarrow> code \<Rightarrow> bool" where
  "code_agrees B entry sem R code code' \<longleftrightarrow> (\<forall>b\<in>B. code b = None \<and> code' b = None \<or>
     (\<exists>rb rb'. code b = Some rb \<and> code' b = Some rb' \<and>
       block_agrees sem R rb rb' \<and> set (rctl_targets (rb_ctl rb)) \<subseteq> B \<and> rb_callees rb' \<subseteq> rb_callees rb \<and>
       (\<forall>g\<in>rb_callees rb. \<forall>eb. entry g = Some eb \<longrightarrow> eb \<in> B)))"

lemma run_agrees:
  assumes ag: "code_agrees B entry sem R code code'" and junk: "R junk junk"
  shows "b \<in> B \<Longrightarrow> R e e' \<Longrightarrow> run n code' entry sem junk b args e' w = run n code entry sem junk b args e w"
proof (induction n arbitrary: b args e e' w)
  case (Suc n)
  consider "code b = None" "code' b = None" | "code b \<noteq> None"
    using ag Suc.prems(1) unfolding code_agrees_def by (cases "code b") fastforce+
  then show ?case
  proof cases
  case 2
  with ag Suc.prems(1) obtain rb rb' where rb: "code b = Some rb" "code' b = Some rb'"
    and blk: "block_agrees sem R rb rb'" and tgt: "set (rctl_targets (rb_ctl rb)) \<subseteq> B"
    and sub: "rb_callees rb' \<subseteq> rb_callees rb" and cal: "\<And>g eb. g \<in> rb_callees rb \<Longrightarrow> entry g = Some eb \<Longrightarrow> eb \<in> B"
    unfolding code_agrees_def by (metis (no_types, lifting))
  let ?f = "\<lambda>g vals w. do { eb \<leftarrow> entry g; run n code entry sem junk eb vals junk w }"
  let ?f' = "\<lambda>g vals w. do { eb \<leftarrow> entry g; run n code' entry sem junk eb vals junk w }"
  have "?f g = ?f' g" if "g \<in> rb_callees rb'" for g
  proof (cases "entry g")
    case (Some eb)
    with cal that sub have "eb \<in> B" by blast
    with Some show ?thesis by (auto simp: fun_eq_iff Suc.IH [OF _ junk])
  qed simp
  then have x': "exec_block ?f' sem rb' args e' w = exec_block ?f sem rb' args e' w"
    by (intro exec_block_calls) simp
  have ex: "exit_agrees R (exec_block ?f sem rb args e w) (exec_block ?f sem rb' args e' w)"
    using blk Suc.prems(2) unfolding block_agrees_def by blast
  consider "exec_block ?f sem rb args e w = None" "exec_block ?f sem rb' args e' w = None"
    | r where "exec_block ?f sem rb args e w = Some (Leave r)" "exec_block ?f sem rb' args e' w = Some (Leave r)"
    | t vs e1 w1 e2 where "exec_block ?f sem rb args e w = Some (Goto t vs e1 w1)"
        "exec_block ?f sem rb' args e' w = Some (Goto t vs e2 w1)" "R e1 e2"
    using ex by (cases rule: exit_agrees.cases [of "(R, exec_block ?f sem rb args e w, exec_block ?f sem rb' args e' w)"])
      auto
  then show ?thesis
  proof cases
    case 3
    from exec_block_target [OF 3(1)] tgt have "t \<in> B" by blast
    with Suc.IH [OF this 3(3)] 3 rb x' show ?thesis by simp
  qed (simp_all add: rb x')
  qed simp
qed simp

lemma exit_agrees_eq: "exit_agrees (=) x x"
proof (cases x)
  case (Some y)
  then show ?thesis by (cases y) simp_all
qed simp

text \<open>Single steps, for blocks whose execution does not depend on calls.\<close>

lemma run_goto:
  assumes "code b = Some rb" "\<And>callf. exec_block callf sem rb args e w = Some (Goto t vals e' w')"
  shows "run (Suc n) code entry sem junk b args e w = run n code entry sem junk t vals e' w'"
  using assms by simp

lemma run_leave:
  assumes "code b = Some rb" "\<And>callf. exec_block callf sem rb args e w = Some (Leave r)"
  shows "run (Suc n) code entry sem junk b args e w = Some r"
  using assms by simp

lemma run_function_entry:
  "fv_entry ir f = Some b \<Longrightarrow>
     run_function n ir sem junk f args w = run n (resolve ir) (fv_entry ir) sem junk b args junk w"
  by (simp add: run_function_def)

end
