(* ===== verification/Switch_Peephole.thy ===== *)
theory Switch_Peephole
  imports Sir_Semantics
begin

text \<open>
  The switch peephole (\<open>plankc/sir/crates/passes/src/optimizations/switch_peephole.rs\<close>): a switch with
  a default and the single case zero becomes a branch. It keeps what the program computes, and the
  graph on which the analyses it claims to preserve are built.
\<close>

definition peephole_block :: "nat \<Rightarrow> ir_program \<Rightarrow> ir_program option" where
  "peephole_block b ir = do {
     bb \<leftarrow> slice_get (ir_blocks ir) b;
     (case bb_control bb of
        Switches sw \<Rightarrow>
          (case sw_fallback sw of
             None \<Rightarrow> Some ir
           | Some fallback \<Rightarrow> do {
               cases_data \<leftarrow> slice_get (ir_cases ir) (sw_cases sw);
               if cs_count cases_data \<noteq> 1 then Some ir
               else do {
                 it \<leftarrow> cs_iter cases_data ir;
                 (case it of
                    [] \<Rightarrow> Some ir
                  | (case_value, target) # _ \<Rightarrow>
                      if case_value \<noteq> 0 then Some ir
                      else do {
                        blocks \<leftarrow> slice_set (ir_blocks ir) b
                          (bb\<lparr>bb_control := Branches \<lparr>br_condition = sw_condition sw,
                                br_non_zero_target = fallback, br_zero_target = target\<rparr>\<rparr>);
                        Some (ir\<lparr>ir_blocks := blocks\<rparr>)
                      })
               }
             })
      | _ \<Rightarrow> Some ir)
   }"

definition switch_peephole :: "ir_program \<Rightarrow> ir_program option" where
  "switch_peephole ir = do {
     rpo \<leftarrow> rpo_compute ir;
     bs \<leftarrow> rp_blocks_rpo rpo;
     fold_opt peephole_block bs ir
   }"

subsection \<open>Programs with the same graph\<close>

definition same_graph :: "ir_program \<Rightarrow> ir_program \<Rightarrow> bool" where
  "same_graph ir ir' \<longleftrightarrow> ir_init_entry ir' = ir_init_entry ir \<and> ir_main_entry ir' = ir_main_entry ir \<and>
     ir_functions ir' = ir_functions ir \<and> ir_operations ir' = ir_operations ir \<and>
     length (ir_blocks ir') = length (ir_blocks ir) \<and>
     (\<forall>b<length (ir_blocks ir). bb_operations (ir_blocks ir' ! b) = bb_operations (ir_blocks ir ! b)) \<and>
     (\<forall>b. bv_successors ir' b = bv_successors ir b)"

lemma same_graph_refl: "same_graph ir ir"
  by (simp add: same_graph_def)

lemma same_graph_trans: "same_graph a b \<Longrightarrow> same_graph b c \<Longrightarrow> same_graph a c"
  by (simp add: same_graph_def)

lemma same_graph_visits:
  assumes "same_graph ir ir'"
  shows "visit_function n ir' = visit_function n ir \<and> visit_block n ir' = visit_block n ir"
proof (induction n)
  case (Suc n)
  then have fn: "visit_function n ir' = visit_function n ir" and blk: "visit_block n ir' = visit_block n ir"
    by blast+
  have ops: "ir_operations ir' = ir_operations ir" and len: "length (ir_blocks ir') = length (ir_blocks ir)"
    and succ: "bv_successors ir' b = bv_successors ir b" for b
    using assms by (simp_all add: same_graph_def)
  have "visit_block (Suc n) ir' f b s = visit_block (Suc n) ir f b s" for f b s
  proof (cases "b < length (ir_blocks ir)")
    case True
    then have b: "bb_operations (ir_blocks ir' ! b) = bb_operations (ir_blocks ir ! b)"
      using assms by (simp add: same_graph_def)
    have "slice_get (ir_blocks ir') b = Some (ir_blocks ir' ! b)" "slice_get (ir_blocks ir) b = Some (ir_blocks ir ! b)"
      using True len by simp_all
    then show ?thesis unfolding visit_block.simps(2) fn blk ops succ by (simp add: b)
  next
    case False
    with assms show ?thesis by (simp add: same_graph_def visit_block.simps(2) slice_get_def)
  qed
  moreover have "visit_function (Suc n) ir' f s = visit_function (Suc n) ir f s" for f s
    using assms by (simp add: same_graph_def blk)
  ultimately show ?case unfolding fun_eq_iff by blast
qed (simp add: fun_eq_iff)

lemma same_graph_rpo:
  assumes "same_graph ir ir'"
  shows "rpo_compute ir' = rpo_compute ir"
proof -
  have v: "visit_function n ir' = visit_function n ir" for n using same_graph_visits [OF assms] by blast
  have i: "ir_init_entry ir' = ir_init_entry ir" and m: "ir_main_entry ir' = ir_main_entry ir"
    and l: "rpo_fuel ir' = rpo_fuel ir"
    using assms by (simp_all add: same_graph_def rpo_fuel_def)
  show ?thesis unfolding rpo_compute_def v i m l ..
qed

lemma same_graph_analyses:
  assumes "same_graph ir ir'"
  shows "preds_compute ir' = preds_compute ir" "ownership_compute ir' = ownership_compute ir"
    "dominators_compute ir' = dominators_compute ir" "frontiers_compute ir' = frontiers_compute ir"
proof -
  have l: "length (ir_blocks ir') = length (ir_blocks ir)" and s: "bv_successors ir' = bv_successors ir"
    and f: "ir_functions ir' = ir_functions ir"
    using assms by (simp_all add: same_graph_def fun_eq_iff)
  show "preds_compute ir' = preds_compute ir" unfolding fun_eq_iff preds_compute_def l s by simp
  show "ownership_compute ir' = ownership_compute ir" by (simp add: fun_eq_iff ownership_compute_def l)
  show "dominators_compute ir' = dominators_compute ir"
    by (simp add: fun_eq_iff dominators_compute_def compute_function_dominators_def fv_entry_def l f)
  show "frontiers_compute ir' = frontiers_compute ir" by (simp add: fun_eq_iff frontiers_compute_def l)
qed

subsection \<open>The peephole keeps the code\<close>

definition same_exit :: "rblock \<Rightarrow> rblock \<Rightarrow> bool" where
  "same_exit rb rb' \<longleftrightarrow> rb' = rb\<lparr>rb_ctl := rb_ctl rb'\<rparr> \<and> (rb_ctl rb' = CtlReturn \<longleftrightarrow> rb_ctl rb = CtlReturn) \<and>
     control_target (rb_ctl rb') = control_target (rb_ctl rb)"

definition same_code :: "ir_program \<Rightarrow> ir_program \<Rightarrow> bool" where
  "same_code ir ir' \<longleftrightarrow> (\<forall>b. rel_option same_exit (resolve ir b) (resolve ir' b))"

lemma same_exit_refl: "same_exit rb rb"
  by (simp add: same_exit_def)

lemma same_exit_trans: "same_exit a b \<Longrightarrow> same_exit b c \<Longrightarrow> same_exit a c"
  unfolding same_exit_def by (cases a; cases b; cases c) simp

lemma same_code_refl: "same_code ir ir"
  by (simp add: same_code_def option.rel_refl same_exit_refl)

lemma same_code_trans:
  assumes "same_code a b" "same_code b c"
  shows "same_code a c"
proof -
  have "rel_option same_exit (resolve a x) (resolve c x)" for x
  proof -
    have "rel_option same_exit (resolve a x) (resolve b x)" "rel_option same_exit (resolve b x) (resolve c x)"
      using assms by (simp_all add: same_code_def)
    then show ?thesis
      by (cases "resolve a x"; cases "resolve b x"; cases "resolve c x") (auto intro: same_exit_trans)
  qed
  then show ?thesis by (simp add: same_code_def)
qed

lemma same_exit_parts:
  "same_exit rb rb' \<Longrightarrow> rb_ins rb' = rb_ins rb \<and> rb_ops rb' = rb_ops rb \<and> rb_outs rb' = rb_outs rb"
  by (cases rb; cases rb') (simp add: same_exit_def)

lemma same_exit_control: "same_exit rb rb' \<Longrightarrow> exec_control rb' = exec_control rb"
  using same_exit_parts [of rb rb'] by (simp add: fun_eq_iff exec_control_def same_exit_def)

lemma same_exit_agrees: "same_exit rb rb' \<Longrightarrow> block_agrees sem (=) rb rb'"
proof -
  assume s: "same_exit rb rb'"
  note r = same_exit_parts [OF s] same_exit_control [OF s]
  have "exec_block callf sem rb' args e w = exec_block callf sem rb args e w" for callf args e w
    unfolding exec_block_def by (simp add: r(1)) (simp only: r(2))
  then show ?thesis by (simp add: block_agrees_def exit_agrees_eq)
qed

lemma resolve_op_blocks: "resolve_op (ir\<lparr>ir_blocks := bs\<rparr>) = resolve_op ir"
  by (simp add: fun_eq_iff resolve_op_def op_inputs_def op_outputs_def)

lemma resolve_control_blocks: "resolve_control (ir\<lparr>ir_blocks := bs\<rparr>) = resolve_control ir"
  by (simp add: fun_eq_iff resolve_control_def cs_iter_def cs_get_values_def cs_get_bb_ids_def split: control.split)

lemma ctl_outgoing_blocks: "ctl_outgoing ctl (ir\<lparr>ir_blocks := bs\<rparr>) = ctl_outgoing ctl ir"
  by (cases ctl) (simp_all add: cs_get_bb_ids_def)

lemma resolve_other_blocks:
  "slice_get bs b = slice_get (ir_blocks ir) b \<Longrightarrow> resolve (ir\<lparr>ir_blocks := bs\<rparr>) b = resolve ir b"
  unfolding resolve_def resolve_op_blocks resolve_control_blocks by simp

lemma resolve_set_control:
  assumes b: "b < length (ir_blocks ir)"
    and c0: "resolve_control ir (bb_control (ir_blocks ir ! b)) = Some c0"
    and c1: "resolve_control ir ctl = Some c1"
  shows "resolve (ir\<lparr>ir_blocks := (ir_blocks ir)[b := (ir_blocks ir ! b)\<lparr>bb_control := ctl\<rparr>]\<rparr>) b =
      map_option (\<lambda>rb. rb\<lparr>rb_ctl := c1\<rparr>) (resolve ir b)"
    and "resolve ir b = Some rb \<Longrightarrow> rb_ctl rb = c0"
  unfolding resolve_def resolve_op_blocks resolve_control_blocks
  using assms by (auto simp: map_option_bind comp_def bind_eq_Some_conv)

lemma peephole_block_cases:
  assumes run: "peephole_block b ir = Some ir'" and ne: "ir' \<noteq> ir"
  obtains sw fallback c target where "b < length (ir_blocks ir)"
    "bb_control (ir_blocks ir ! b) = Switches sw" "sw_fallback sw = Some fallback"
    "slice_get (ir_cases ir) (sw_cases sw) = Some c" "cs_iter c ir = Some [(0, target)]"
    "cs_get_bb_ids c ir = Some [target]"
    "ir' = ir\<lparr>ir_blocks := (ir_blocks ir)[b := (ir_blocks ir ! b)\<lparr>bb_control :=
       Branches \<lparr>br_condition = sw_condition sw, br_non_zero_target = fallback, br_zero_target = target\<rparr>\<rparr>]\<rparr>"
proof -
  from run have b: "b < length (ir_blocks ir)" by (auto simp: peephole_block_def monad_elims)
  from run ne b obtain sw where sw: "bb_control (ir_blocks ir ! b) = Switches sw"
    by (auto simp: peephole_block_def split: control.split_asm)
  from run ne b sw obtain fallback where fb: "sw_fallback sw = Some fallback"
    by (auto simp: peephole_block_def split: option.split_asm)
  from run ne b sw fb obtain c it where c: "slice_get (ir_cases ir) (sw_cases sw) = Some c"
    and one: "cs_count c = 1" and it: "cs_iter c ir = Some it"
    by (auto simp: peephole_block_def monad_elims split: if_splits)
  from it obtain vs ts where vt: "cs_get_values c ir = Some vs" "cs_get_bb_ids c ir = Some ts" "it = zip vs ts"
    by (auto simp: cs_iter_def bind_eq_Some_conv cases_iter_collect_zip)
  moreover from this one have "length vs = 1" "length ts = 1"
    by (auto simp: cs_get_values_def cs_get_bb_ids_def bind_eq_Some_conv slice_range_Some idx_add_Some)
  ultimately obtain v target where it': "it = [(v, target)]" "ts = [target]"
    by (auto simp: length_Suc_conv)
  have "v = 0" "ir' = ir\<lparr>ir_blocks := (ir_blocks ir)[b := (ir_blocks ir ! b)\<lparr>bb_control :=
       Branches \<lparr>br_condition = sw_condition sw, br_non_zero_target = fallback, br_zero_target = target\<rparr>\<rparr>]\<rparr>"
    using run ne b sw fb c one it it' by (auto simp: peephole_block_def split: if_splits)
  with that b sw fb c it it' vt(2) show thesis by simp
qed

lemma peephole_block_keeps:
  assumes "peephole_block b ir = Some ir'"
  shows "same_graph ir ir' \<and> same_code ir ir'"
proof (cases "ir' = ir")
  case False
  obtain sw fallback c target where b: "b < length (ir_blocks ir)"
    and sw: "bb_control (ir_blocks ir ! b) = Switches sw" "sw_fallback sw = Some fallback"
    and c: "slice_get (ir_cases ir) (sw_cases sw) = Some c" "cs_iter c ir = Some [(0, target)]"
      "cs_get_bb_ids c ir = Some [target]"
    and ir': "ir' = ir\<lparr>ir_blocks := (ir_blocks ir)[b := (ir_blocks ir ! b)\<lparr>bb_control :=
       Branches \<lparr>br_condition = sw_condition sw, br_non_zero_target = fallback, br_zero_target = target\<rparr>\<rparr>]\<rparr>"
    by (rule peephole_block_cases [OF assms False])
  have "bv_successors ir' x = bv_successors ir x" for x
    using b sw c ir' by (cases "x = b") (simp_all add: bv_successors_def nth_list_update slice_get_def ctl_outgoing_blocks)
  then have "same_graph ir ir'"
    using b ir' by (auto simp: same_graph_def nth_list_update)
  moreover have "rel_option same_exit (resolve ir x) (resolve ir' x)" for x
  proof (cases "x = b")
    case True
    have "resolve_control ir (bb_control (ir_blocks ir ! b)) = Some (CtlSwitch (sw_condition sw) [(0, target)] (Some fallback))"
      using sw c by (simp add: resolve_control_def)
    note rs = resolve_set_control [OF b this, of "Branches \<lparr>br_condition = sw_condition sw,
        br_non_zero_target = fallback, br_zero_target = target\<rparr>" "CtlBranch (sw_condition sw) fallback target"]
    have "resolve_control ir (Branches \<lparr>br_condition = sw_condition sw, br_non_zero_target = fallback,
        br_zero_target = target\<rparr>) = Some (CtlBranch (sw_condition sw) fallback target)"
      by (simp add: resolve_control_def)
    note rs = rs [OF this, folded ir']
    show ?thesis
    proof (cases "resolve ir b")
      case (Some rb)
      with rs True show ?thesis
        by (auto simp: same_exit_def control_target_def fun_eq_iff)
    qed (use rs True in simp)
  next
    case False
    then show ?thesis by (simp add: ir' resolve_other_blocks slice_get_def option.rel_refl same_exit_refl)
  qed
  ultimately show ?thesis by (simp add: same_code_def)
qed (simp add: same_graph_refl same_code_refl)

lemma switch_peephole_keeps:
  assumes "switch_peephole ir = Some ir'"
  shows "same_graph ir ir' \<and> same_code ir ir'"
proof -
  from assms obtain bs where "fold_opt peephole_block bs ir = Some ir'"
    by (auto simp: switch_peephole_def bind_eq_Some_conv)
  then show ?thesis
    by (rule fold_opt_invariant [where I = "\<lambda>x. same_graph ir x \<and> same_code ir x"])
      (use same_graph_refl same_code_refl peephole_block_keeps same_graph_trans same_code_trans in blast)+
qed

text \<open>It returns when every live block can be read, and leaves no switch of this shape in one.\<close>

definition resolvable :: "ir_program \<Rightarrow> bool" where
  "resolvable ir \<longleftrightarrow> (\<forall>b. live_block ir b \<longrightarrow> resolve ir b \<noteq> None)"

definition zero_switch :: "rblock \<Rightarrow> bool" where
  "zero_switch rb \<longleftrightarrow> (\<exists>c t fallback. rb_ctl rb = CtlSwitch c [(0, t)] (Some fallback))"

lemma resolve_Some:
  "resolve ir b = Some rb \<longleftrightarrow> b < length (ir_blocks ir) \<and>
     read_span (ir_locals ir) (bb_inputs (ir_blocks ir ! b)) = Some (rb_ins rb) \<and>
     map_opt (resolve_op ir) (span_indices (bb_operations (ir_blocks ir ! b))) = Some (rb_ops rb) \<and>
     read_span (ir_locals ir) (bb_outputs (ir_blocks ir ! b)) = Some (rb_outs rb) \<and>
     resolve_control ir (bb_control (ir_blocks ir ! b)) = Some (rb_ctl rb)"
  by (cases rb) (auto simp: resolve_def bind_eq_Some_conv slice_get_Some)

lemma cs_iter_length: "cs_iter c ir = Some cases \<Longrightarrow> length cases = cs_count c"
  by (auto simp: cs_iter_def cs_get_values_def cs_get_bb_ids_def bind_eq_Some_conv slice_range_Some idx_add_Some
      cases_iter_collect_zip)

lemma peephole_block_returns:
  assumes "resolve ir b = Some rb"
  shows "\<exists>ir' rb'. peephole_block b ir = Some ir' \<and> resolve ir' b = Some rb' \<and> \<not> zero_switch rb'"
proof (cases "bb_control (ir_blocks ir ! b)")
  case (Switches sw)
  from assms Switches obtain c cases where c: "slice_get (ir_cases ir) (sw_cases sw) = Some c"
    "cs_iter c ir = Some cases" "rb_ctl rb = CtlSwitch (sw_condition sw) cases (sw_fallback sw)"
    by (auto simp: resolve_Some resolve_control_def bind_eq_Some_conv)
  from assms have b: "b < length (ir_blocks ir)" by (simp add: resolve_Some)
  note l = cs_iter_length [OF c(2)]
  show ?thesis
  proof (cases "\<exists>t fallback. cases = [(0, t)] \<and> sw_fallback sw = Some fallback")
    case True
    then obtain t fallback where t: "cases = [(0, t)]" "sw_fallback sw = Some fallback" by blast
    let ?br = "Branches \<lparr>br_condition = sw_condition sw, br_non_zero_target = fallback, br_zero_target = t\<rparr>"
    have "resolve_control ir (bb_control (ir_blocks ir ! b)) = Some (rb_ctl rb)"
      "resolve_control ir ?br = Some (CtlBranch (sw_condition sw) fallback t)"
      using assms by (simp_all add: resolve_Some) (simp add: resolve_control_def)
    note rs = resolve_set_control(1) [OF b this]
    from b Switches c l t have "peephole_block b ir =
        Some (ir\<lparr>ir_blocks := (ir_blocks ir)[b := (ir_blocks ir ! b)\<lparr>bb_control := ?br\<rparr>]\<rparr>)"
      by (simp add: peephole_block_def)
    with rs assms show ?thesis by (auto simp: zero_switch_def)
  next
    case False
    then have "peephole_block b ir = Some ir"
      using b Switches c l
      by (cases cases) (auto simp: peephole_block_def split: option.split list.splits)
    with False assms c(3) show ?thesis by (auto simp: zero_switch_def)
  qed
qed (use assms in \<open>auto simp: resolve_Some peephole_block_def zero_switch_def resolve_control_def\<close>)

lemma peephole_blocks_return:
  assumes "\<forall>b\<in>set bs. resolve ir b \<noteq> None" "distinct bs"
  shows "\<exists>ir'. fold_opt peephole_block bs ir = Some ir' \<and>
     (\<forall>b\<in>set bs. \<exists>rb. resolve ir' b = Some rb \<and> \<not> zero_switch rb) \<and> (\<forall>b. b \<notin> set bs \<longrightarrow> resolve ir' b = resolve ir b)"
  using assms
proof (induction bs arbitrary: ir)
  case (Cons b bs)
  then obtain rb where "resolve ir b = Some rb" by auto
  from peephole_block_returns [OF this] obtain ir1 rb1 where
    1: "peephole_block b ir = Some ir1" "resolve ir1 b = Some rb1" "\<not> zero_switch rb1" by blast
  have other: "resolve ir1 x = resolve ir x" if "x \<noteq> b" for x
  proof (cases "ir1 = ir")
    case False
    show ?thesis by (rule peephole_block_cases [OF 1(1) False])
      (use that in \<open>simp add: resolve_other_blocks slice_get_def\<close>)
  qed simp
  have "\<forall>x\<in>set bs. resolve ir1 x \<noteq> None" using Cons.prems other by (metis distinct.simps(2) list.set_intros(2))
  with Cons.IH [of ir1] Cons.prems(2) obtain ir' where ir': "fold_opt peephole_block bs ir1 = Some ir'"
    "\<forall>b\<in>set bs. \<exists>rb. resolve ir' b = Some rb \<and> \<not> zero_switch rb" "\<forall>b. b \<notin> set bs \<longrightarrow> resolve ir' b = resolve ir1 b"
    by auto
  with 1 other Cons.prems(2) show ?case by auto
qed simp

lemma same_code_runs:
  assumes "same_graph ir ir'" "same_code ir ir'"
  shows "run_function n ir' sem junk f args w = run_function n ir sem junk f args w"
proof -
  have e: "fv_entry ir' = fv_entry ir" using assms(1) by (simp add: fun_eq_iff fv_entry_def same_graph_def)
  have "code_agrees UNIV (fv_entry ir) sem (=) (resolve ir) (resolve ir')"
    unfolding code_agrees_def
  proof
    fix b
    have "rel_option same_exit (resolve ir b) (resolve ir' b)" using assms(2) by (simp add: same_code_def)
    then consider "resolve ir b = None" "resolve ir' b = None"
      | rb rb' where "resolve ir b = Some rb" "resolve ir' b = Some rb'" "same_exit rb rb'"
      by (auto simp: option_rel_Some1 split: option.split elim: option.rel_cases)
    then show "resolve ir b = None \<and> resolve ir' b = None \<or>
       (\<exists>rb rb'. resolve ir b = Some rb \<and> resolve ir' b = Some rb' \<and>
         block_agrees sem (=) rb rb' \<and> set (rctl_targets (rb_ctl rb)) \<subseteq> UNIV \<and> rb_callees rb' \<subseteq> rb_callees rb \<and>
         (\<forall>g\<in>rb_callees rb. \<forall>eb. fv_entry ir g = Some eb \<longrightarrow> eb \<in> UNIV))"
    proof cases
      case (2 rb rb')
      with same_exit_parts [OF 2(3)] same_exit_agrees [OF 2(3)] show ?thesis by (simp add: rb_callees_def)
    qed simp
  qed
  from run_agrees [OF this] show ?thesis unfolding run_function_def e by simp
qed

subsection \<open>Properties\<close>


definition sample_switch :: ir_program where
  "sample_switch = ir_default\<lparr>
     ir_functions := [\<lparr>fn_entry = 0, fn_return_kind = 0, fn_source = None\<rparr>],
     ir_locals := [0],
     ir_next_free_local := 1,
     ir_large_consts := [0],
     ir_cases := [\<lparr>cs_values_start = 0, cs_targets_start = 0, cs_count = 1\<rparr>],
     ir_cases_bb_ids := [1],
     ir_blocks :=
       [\<lparr>bb_inputs = (0, 1), bb_outputs = (0, 0), bb_operations = (0, 0), bb_control =
           Switches \<lparr>sw_condition = 0, sw_fallback = Some 2, sw_cases = 0\<rparr>\<rparr>,
        \<lparr>bb_inputs = (0, 0), bb_outputs = (0, 0), bb_operations = (0, 0), bb_control = InternalReturn\<rparr>,
        \<lparr>bb_inputs = (0, 0), bb_outputs = (0, 0), bb_operations = (0, 0), bb_control = ContinuesTo 1\<rparr>]\<rparr>"

lemmas sample_switch_simps = sample_switch_def ir_default_def

lemma sample_switch_resolves:
  "resolve sample_switch 0 = Some \<lparr>rb_ins = [0], rb_ops = [], rb_outs = [], rb_ctl = CtlSwitch 0 [(0, 1)] (Some 2)\<rparr>"
  "resolve sample_switch 1 = Some \<lparr>rb_ins = [], rb_ops = [], rb_outs = [], rb_ctl = CtlReturn\<rparr>"
  "resolve sample_switch 2 = Some \<lparr>rb_ins = [], rb_ops = [], rb_outs = [], rb_ctl = CtlJump 1\<rparr>"
  by (simp_all add: sample_switch_simps resolve_def read_span_def span_indices_def resolve_control_def cs_iter_def
      cs_get_values_def cs_get_bb_ids_def cases_iter_collect_zip idx_limit_def)

lemma sample_switch_ok: "ir_indexed sample_switch" "resolvable sample_switch" "live_block sample_switch 0"
proof -
  show ix: "ir_indexed sample_switch"
    by (simp add: ir_indexed_def root_functions_def sample_switch_simps span_indices_def cs_get_bb_ids_def idx_limit_def)
  have "length (ir_blocks sample_switch) = 3" by (simp add: sample_switch_simps)
  then show "resolvable sample_switch"
    unfolding resolvable_def
  proof (intro allI impI)
    fix b assume "live_block sample_switch b"
    with live_block_in_range [OF ix] \<open>length (ir_blocks sample_switch) = 3\<close> have "b < 3" by fastforce
    then consider "b = 0" | "b = 1" | "b = 2" by linarith
    then show "resolve sample_switch b \<noteq> None" by cases (simp_all only: sample_switch_resolves, simp_all)
  qed
  have "live_function sample_switch 0" by (rule live_root) (simp add: root_functions_def sample_switch_simps)
  moreover have "entry_of sample_switch 0 = 0" by (simp add: entry_of_def sample_switch_simps)
  ultimately show "live_block sample_switch 0" unfolding live_block_def by (metis reach_refl)
qed


end
