(* ===== verification/Operand_Edits.thy ===== *)
theory Operand_Edits
  imports Switch_Peephole
begin

text \<open>
  Passes overwrite operands in place, in the vector of locals that all operations and blocks share.
  This library says when that is safe: the \<^emph>\<open>slots\<close> that hold the operands of the live part of a program
  do not overlap, which the legalizer guarantees, so that writing the operands of one operation or
  block leaves what every other one reads as it is.
\<close>

subsection \<open>Slots\<close>

definition apart :: "span option \<Rightarrow> span option \<Rightarrow> bool" where
  "apart s t = (case (s, t) of
      (Some s, Some t) \<Rightarrow> snd s \<le> fst t \<or> snd t \<le> fst s \<or> fst s = snd s \<or> fst t = snd t
    | _ \<Rightarrow> True)"

lemma apart_simps [simp]:
  "apart None t" "apart s None"
  "apart (Some u) (Some v) \<longleftrightarrow> snd u \<le> fst v \<or> snd v \<le> fst u \<or> fst u = snd u \<or> fst v = snd v"
  by (auto simp: apart_def split: option.split)

lemma apart_sym: "apart s t \<longleftrightarrow> apart t s"
  by (cases s; cases t) auto

definition in_slot :: "ir_program \<Rightarrow> nat \<Rightarrow> span option" where
  "in_slot ir i = (case op_allocated_spans (ir_operations ir ! i) ir of Some (s, _) \<Rightarrow> s | None \<Rightarrow> None)"

definition out_slot :: "ir_program \<Rightarrow> nat \<Rightarrow> span option" where
  "out_slot ir i = (case op_allocated_spans (ir_operations ir ! i) ir of Some (_, s) \<Rightarrow> s | None \<Rightarrow> None)"

definition slot :: "ir_program \<Rightarrow> span_source \<Rightarrow> span option" where
  "slot ir src = (case src of
      SrcInputs b \<Rightarrow> Some (bb_inputs (ir_blocks ir ! b))
    | SrcOutputs b \<Rightarrow> Some (bb_outputs (ir_blocks ir ! b))
    | SrcOperations b \<Rightarrow> None
    | SrcOpInputs b i \<Rightarrow> in_slot ir i
    | SrcOpOutputs b i \<Rightarrow> out_slot ir i)"

lemma slot_simps [simp]:
  "slot ir (SrcInputs b) = Some (bb_inputs (ir_blocks ir ! b))"
  "slot ir (SrcOutputs b) = Some (bb_outputs (ir_blocks ir ! b))"
  "slot ir (SrcOperations b) = None"
  "slot ir (SrcOpInputs b i) = in_slot ir i"
  "slot ir (SrcOpOutputs b i) = out_slot ir i"
  by (simp_all add: slot_def)

definition ops_of :: "ir_program \<Rightarrow> nat \<Rightarrow> nat list" where
  "ops_of ir b = span_indices (bb_operations (ir_blocks ir ! b))"

definition slots :: "ir_program \<Rightarrow> nat set \<Rightarrow> span_source set" where
  "slots ir B = SrcInputs ` B \<union> SrcOutputs ` B \<union>
     (\<Union>b\<in>B. SrcOpInputs b ` set (ops_of ir b) \<union> SrcOpOutputs b ` set (ops_of ir b))"

definition separate :: "ir_program \<Rightarrow> nat set \<Rightarrow> bool" where
  "separate ir B \<longleftrightarrow>
     (\<forall>x\<in>slots ir B. \<forall>y\<in>slots ir B. x \<noteq> y \<longrightarrow> apart (slot ir x) (slot ir y)) \<and>
     (\<forall>b\<in>B. b < length (ir_blocks ir) \<and>
        (\<forall>i\<in>set (ops_of ir b). op_allocated_spans (ir_operations ir ! i) ir \<noteq> None)) \<and>
     (\<forall>b\<in>B. \<forall>c\<in>B. b \<noteq> c \<longrightarrow> set (ops_of ir b) \<inter> set (ops_of ir c) = {})"

lemma slots_in:
  "b \<in> B \<Longrightarrow> SrcInputs b \<in> slots ir B" "b \<in> B \<Longrightarrow> SrcOutputs b \<in> slots ir B"
  "b \<in> B \<Longrightarrow> i \<in> set (ops_of ir b) \<Longrightarrow> SrcOpInputs b i \<in> slots ir B"
  "b \<in> B \<Longrightarrow> i \<in> set (ops_of ir b) \<Longrightarrow> SrcOpOutputs b i \<in> slots ir B"
  by (auto simp: slots_def)

lemma separateD:
  "separate ir B \<Longrightarrow> x \<in> slots ir B \<Longrightarrow> y \<in> slots ir B \<Longrightarrow> x \<noteq> y \<Longrightarrow> apart (slot ir x) (slot ir y)"
  by (simp add: separate_def)

subsection \<open>Writing a slot\<close>

definition keeps_length :: "('a list \<Rightarrow> 'b list) \<Rightarrow> bool" where
  "keeps_length f \<longleftrightarrow> (\<forall>xs. length (f xs) = length xs)"

lemma keeps_length_map [simp]: "keeps_length (map f)"
  by (simp add: keeps_length_def)

lemma keeps_lengthD: "keeps_length f \<Longrightarrow> length (f xs) = length xs"
  by (simp add: keeps_length_def)

lemma keeps_length_one: "keeps_length f \<Longrightarrow> [hd (f [x])] = f [x]"
  using keeps_lengthD [of f "[x]"] by (cases "f [x]") simp_all

lemma write_span_reads:
  assumes "write_span f xs s = Some ys" "keeps_length f"
  shows "length ys = length xs"
    and "read_span ys s = map_option f (read_span xs s)"
    and "apart (Some s) (Some t) \<Longrightarrow> read_span ys t = read_span xs t"
proof -
  from assms(1) have r: "fst s \<le> snd s" "snd s \<le> length xs"
    and ys: "ys = take (fst s) xs @ f (take (snd s - fst s) (drop (fst s) xs)) @ drop (snd s) xs"
    by (auto simp: write_span_def monad_elims)
  have l: "length (f (take (snd s - fst s) (drop (fst s) xs))) = snd s - fst s"
    using r by (simp add: keeps_lengthD [OF assms(2)])
  show len: "length ys = length xs" using r by (simp add: ys l)
  show "read_span ys s = map_option f (read_span xs s)"
    using r len by (simp add: read_span_def ys l)
  show "read_span ys t = read_span xs t" if ap: "apart (Some s) (Some t)"
  proof (cases "fst t \<le> snd t \<and> snd t \<le> length xs")
    case True
    from ap consider "snd s \<le> fst t" | "snd t \<le> fst s" | "fst s = snd s" | "fst t = snd t" by auto
    then have "take (snd t - fst t) (drop (fst t) ys) = take (snd t - fst t) (drop (fst t) xs)"
    proof cases
      case 1
      then show ?thesis using r by (simp add: ys l)
    next
      case 2
      then have "snd t - fst t - (fst s - fst t) = 0" by simp
      with 2 True r show ?thesis by (simp add: ys drop_take)
    next
      case 3
      then have "f (take (snd s - fst s) (drop (fst s) xs)) = []" using l by simp
      with 3 r show ?thesis by (simp add: ys)
    qed (use True in simp)
    with True len show ?thesis by (simp add: read_span_def)
  next
    case False
    with len show ?thesis by (auto simp: read_span_def slice_range_def)
  qed
qed

lemma write_span_returns: "read_span xs s = Some zs \<Longrightarrow> \<exists>ys. write_span f xs s = Some ys"
  by (auto simp: read_span_def write_span_def)

definition edits :: "(nat list \<Rightarrow> nat list) \<Rightarrow> nat list \<Rightarrow> op_data \<Rightarrow> nat list \<Rightarrow> op_data \<Rightarrow> fn_def list \<Rightarrow> bool" where
  "edits f locals d locals' d' fs \<longleftrightarrow>
     length locals' = length locals \<and> data_inputs d' locals' = map_option f (data_inputs d locals) \<and>
     data_allocated_spans d' fs = data_allocated_spans d fs \<and>
     (\<forall>k consts. resolve_action consts (Operation k d') = resolve_action consts (Operation k d)) \<and>
     (\<forall>s t. data_allocated_spans d fs = Some (s, t) \<longrightarrow>
        (apart s t \<longrightarrow> data_outputs d' locals' fs = data_outputs d locals fs) \<and>
        (\<forall>u. apart s (Some u) \<longrightarrow> read_span locals' u = read_span locals u))"

lemma data_inputs_mut_edits:
  assumes f: "keeps_length f" and ins: "data_inputs d locals \<noteq> None" and sp: "data_allocated_spans d fs \<noteq> None"
  shows "\<exists>d' locals'. data_inputs_mut f d locals = Some (d', locals') \<and> edits f locals d locals' d' fs"
proof (cases d)
  case (AllocatedIns count start outs)
  with sp have s: "allocated_inputs_span count start = Some (start, start + count)"
    by (auto simp: allocated_inputs_span_def bind_eq_Some_conv idx_add_Some)
  from AllocatedIns ins obtain zs where zs: "read_span locals (start, start + count) = Some zs"
    by (auto simp: read_span_def)
  from write_span_returns [OF this] obtain ys where ys: "write_span f locals (start, start + count) = Some ys" by blast
  note w = write_span_reads [OF ys f]
  from w(2) have "slice_range ys start (start + count) = map_option f (slice_range locals start (start + count))"
    by (simp add: read_span_def)
  with AllocatedIns s ys w(1,3) show ?thesis
    by (simp add: edits_def resolve_action_def)
next
  case (InternalCallData g a b)
  from InternalCallData ins obtain zs where zs: "read_span locals (a, b) = Some zs"
    by (auto simp: icall_inputs_span_def)
  from write_span_returns [OF this] obtain ys where ys: "write_span f locals (a, b) = Some ys" by blast
  note w = write_span_reads [OF ys f]
  from InternalCallData sp obtain t where t: "icall_outputs_span g b fs = Some t"
    by (cases "icall_outputs_span g b fs") auto
  with InternalCallData ys w show ?thesis
    by (simp add: edits_def resolve_action_def icall_inputs_span_def)
next
  case (InternalCallNeverData g s)
  from InternalCallNeverData ins obtain zs where zs: "read_span locals s = Some zs" by auto
  from write_span_returns [OF this] obtain ys where ys: "write_span f locals s = Some ys" by blast
  note w = write_span_reads [OF ys f]
  with InternalCallNeverData ys w show ?thesis
    by (simp add: edits_def resolve_action_def)
qed (use keeps_lengthD [OF f, of "[]"] keeps_length_one [OF f] in \<open>auto simp: edits_def resolve_action_def\<close>)

lemma reads_kept:
  assumes r: "\<And>x. apart s (Some x) \<Longrightarrow> read_span locals' x = read_span locals x"
    and "data_allocated_spans e fs = Some (u, v)" "apart s u" "apart s v"
  shows "data_inputs e locals' = data_inputs e locals" "data_outputs e locals' fs = data_outputs e locals fs"
proof -
  show "data_inputs e locals' = data_inputs e locals"
    using assms(2,3) r by (cases e) (auto simp: bind_eq_Some_conv allocated_inputs_span_def idx_add_Some read_span_def)
  show "data_outputs e locals' fs = data_outputs e locals fs"
    using assms(2,4) r by (cases e) (auto simp: bind_eq_Some_conv)
qed

subsection \<open>Rewriting the inputs of an operation\<close>

definition rewrite_inputs :: "(nat list \<Rightarrow> nat list) \<Rightarrow> nat \<Rightarrow> ir_program \<Rightarrow> ir_program option" where
  "rewrite_inputs f i ir = do {
     op \<leftarrow> slice_get (ir_operations ir) i;
     (data, locals) \<leftarrow> data_inputs_mut f (opn_data op) (ir_locals ir);
     operations \<leftarrow> slice_set (ir_operations ir) i (Operation (opn_kind op) data);
     Some (ir\<lparr>ir_locals := locals, ir_operations := operations\<rparr>)
   }"

text \<open>What an edit of operands leaves alone.\<close>

definition same_slots :: "ir_program \<Rightarrow> ir_program \<Rightarrow> bool" where
  "same_slots ir ir' \<longleftrightarrow>
     ir' = ir\<lparr>ir_locals := ir_locals ir', ir_operations := ir_operations ir', ir_blocks := ir_blocks ir'\<rparr> \<and>
     length (ir_operations ir') = length (ir_operations ir) \<and> length (ir_locals ir') = length (ir_locals ir) \<and>
     (\<forall>i<length (ir_operations ir). op_allocated_spans (ir_operations ir' ! i) ir' =
        op_allocated_spans (ir_operations ir ! i) ir) \<and>
     length (ir_blocks ir') = length (ir_blocks ir) \<and>
     (\<forall>b<length (ir_blocks ir). bb_inputs (ir_blocks ir' ! b) = bb_inputs (ir_blocks ir ! b) \<and>
        bb_outputs (ir_blocks ir' ! b) = bb_outputs (ir_blocks ir ! b) \<and>
        bb_operations (ir_blocks ir' ! b) = bb_operations (ir_blocks ir ! b))"

lemma same_slots_refl: "same_slots ir ir"
  by (simp add: same_slots_def)

lemma same_slots_trans: "same_slots a b \<Longrightarrow> same_slots b c \<Longrightarrow> same_slots a c"
  unfolding same_slots_def by (cases a; cases b; cases c) simp

definition ops_in_range :: "ir_program \<Rightarrow> nat set \<Rightarrow> bool" where
  "ops_in_range ir B \<longleftrightarrow> (\<forall>b\<in>B. b < length (ir_blocks ir) \<and> (\<forall>i\<in>set (ops_of ir b). i < length (ir_operations ir)))"

lemma same_slots_ops: "same_slots ir ir' \<Longrightarrow> b < length (ir_blocks ir) \<Longrightarrow> ops_of ir' b = ops_of ir b"
  by (simp add: same_slots_def ops_of_def)

lemma same_slots_separate:
  assumes s: "same_slots ir ir'" and r: "ops_in_range ir B" and sep: "separate ir B"
  shows "separate ir' B" "ops_in_range ir' B"
proof -
  have ops: "ops_of ir' b = ops_of ir b" if "b \<in> B" for b
    using same_slots_ops [OF s] r that by (simp add: ops_in_range_def)
  then have sl: "slots ir' B = slots ir B" by (simp add: slots_def)
  have slot: "slot ir' x = slot ir x" if "x \<in> slots ir B" for x
  proof -
    have "in_slot ir' i = in_slot ir i" "out_slot ir' i = out_slot ir i" if "i < length (ir_operations ir)" for i
      using s that by (simp_all add: same_slots_def in_slot_def out_slot_def)
    then show ?thesis
      using that r s by (auto simp: slots_def ops_in_range_def same_slots_def)
  qed
  have lens: "length (ir_blocks ir') = length (ir_blocks ir)" "length (ir_operations ir') = length (ir_operations ir)"
    using s by (simp_all add: same_slots_def)
  show "ops_in_range ir' B" using r ops lens by (simp add: ops_in_range_def)
  have sp: "op_allocated_spans (ir_operations ir' ! i) ir' = op_allocated_spans (ir_operations ir ! i) ir"
    if "b \<in> B" "i \<in> set (ops_of ir b)" for b i
    using s r that by (simp add: same_slots_def ops_in_range_def)
  show "separate ir' B"
    using sep by (simp add: separate_def sl slot ops lens sp)
qed

text \<open>What the blocks of \<open>B\<close> read, up to the operations \<open>I\<close>.\<close>

definition kept :: "nat set \<Rightarrow> nat set \<Rightarrow> ir_program \<Rightarrow> ir_program \<Rightarrow> bool" where
  "kept B I ir ir' \<longleftrightarrow> same_slots ir ir' \<and> ir_blocks ir' = ir_blocks ir \<and>
     (\<forall>c\<in>B. (\<forall>j\<in>set (ops_of ir c) - I. resolve_op ir' j = resolve_op ir j) \<and>
        read_span (ir_locals ir') (bb_inputs (ir_blocks ir ! c)) = read_span (ir_locals ir) (bb_inputs (ir_blocks ir ! c)) \<and>
        read_span (ir_locals ir') (bb_outputs (ir_blocks ir ! c)) = read_span (ir_locals ir) (bb_outputs (ir_blocks ir ! c)))"

lemma kept_refl: "kept B I ir ir"
  by (simp add: kept_def same_slots_refl)

lemma kept_trans:
  assumes "kept B I ir ir1" "kept B J ir1 ir2"
  shows "kept B (I \<union> J) ir ir2"
proof -
  have "ops_of ir1 = ops_of ir" using assms(1) by (simp add: kept_def ops_of_def fun_eq_iff)
  with assms same_slots_trans [of ir ir1 ir2] show ?thesis unfolding kept_def by simp
qed

definition rewrite_rop :: "(nat list \<Rightarrow> nat list) \<Rightarrow> rop \<Rightarrow> rop" where
  "rewrite_rop f r = ROp (rop_action r) (f (rop_ins r)) (rop_outs r)"

lemma separate_spans:
  assumes "separate ir B" "b \<in> B" "i \<in> set (ops_of ir b)"
  shows "data_allocated_spans (opn_data (ir_operations ir ! i)) (ir_functions ir) = Some (in_slot ir i, out_slot ir i)"
proof -
  from assms obtain s t where "data_allocated_spans (opn_data (ir_operations ir ! i)) (ir_functions ir) = Some (s, t)"
    unfolding separate_def op_allocated_spans_def by fastforce
  then show ?thesis by (simp add: in_slot_def out_slot_def op_allocated_spans_def)
qed

lemma rewrite_inputs_spec:
  assumes sep: "separate ir B" and rng: "ops_in_range ir B" and b: "b \<in> B" and i: "i \<in> set (ops_of ir b)"
    and f: "keeps_length f" and r: "resolve_op ir i = Some r"
  shows "\<exists>ir'. rewrite_inputs f i ir = Some ir' \<and> kept B {i} ir ir' \<and> resolve_op ir' i = Some (rewrite_rop f r)"
proof -
  obtain op a ins outs where il: "i < length (ir_operations ir)" and op: "op = ir_operations ir ! i"
    and a: "resolve_action (ir_large_consts ir) op = Some a" and ins: "data_inputs (opn_data op) (ir_locals ir) = Some ins"
    and outs: "data_outputs (opn_data op) (ir_locals ir) (ir_functions ir) = Some outs" and r': "r = ROp a ins outs"
    using r by (auto simp: resolve_op_def bind_eq_Some_conv slice_get_Some op_inputs_def op_outputs_def)
  have ds: "data_allocated_spans (opn_data op) (ir_functions ir) = Some (in_slot ir i, out_slot ir i)"
    using separate_spans [OF sep b i] op by simp
  then have sp: "data_allocated_spans (opn_data op) (ir_functions ir) \<noteq> None" by simp
  obtain d' locals' where mut: "data_inputs_mut f (opn_data op) (ir_locals ir) = Some (d', locals')"
    and ed: "edits f (ir_locals ir) (opn_data op) locals' d' (ir_functions ir)"
    using data_inputs_mut_edits [OF f _ sp] ins by blast
  let ?ops = "(ir_operations ir)[i := Operation (opn_kind op) d']"
  let ?ir = "ir\<lparr>ir_locals := locals', ir_operations := ?ops\<rparr>"
  have run: "rewrite_inputs f i ir = Some ?ir"
    using il op mut by (simp add: rewrite_inputs_def)
  have ap: "apart (in_slot ir i) (slot ir x)" if "x \<in> slots ir B" "x \<noteq> SrcOpInputs b i" for x
    using separateD [OF sep slots_in(3) [OF b i] that(1)] that(2) by auto
  have "apart (in_slot ir i) (out_slot ir i)" using ap [OF slots_in(4) [OF b i]] by simp
  with ed ds outs have outs': "data_outputs d' locals' (ir_functions ir) = Some outs" by (simp add: edits_def)
  have "resolve_action (ir_large_consts ir) (Operation (opn_kind op) d') = Some a"
    using ed a by (cases op) (simp add: edits_def)
  with ed ins outs' il r' have "resolve_op ?ir i = Some (rewrite_rop f r)"
    by (simp add: resolve_op_def op_inputs_def op_outputs_def edits_def rewrite_rop_def)
  moreover have "same_slots ir ?ir"
    using ed il op by (auto simp: same_slots_def edits_def op_allocated_spans_def nth_list_update)
  moreover have rd: "read_span locals' s = read_span (ir_locals ir) s" if "apart (in_slot ir i) (Some s)" for s
    using ed ds that unfolding edits_def by blast
  moreover have "resolve_op ?ir j = resolve_op ir j" if c: "c \<in> B" and j: "j \<in> set (ops_of ir c)" and ne: "j \<noteq> i" for c j
  proof -
    let ?e = "opn_data (ir_operations ir ! j)"
    note separate_spans [OF sep c j]
    moreover have "apart (in_slot ir i) (in_slot ir j)" "apart (in_slot ir i) (out_slot ir j)"
      using ap [OF slots_in(3) [OF c j]] ap [OF slots_in(4) [OF c j]] ne by simp_all
    ultimately have "data_inputs ?e locals' = data_inputs ?e (ir_locals ir)"
      "data_outputs ?e locals' (ir_functions ir) = data_outputs ?e (ir_locals ir) (ir_functions ir)"
      using reads_kept [of "in_slot ir i", OF rd] by blast+
    moreover have "j < length (ir_operations ir)" using rng c j by (simp add: ops_in_range_def)
    ultimately show ?thesis
      using ne by (simp add: resolve_op_def op_inputs_def op_outputs_def)
  qed
  moreover have "read_span locals' (bb_inputs (ir_blocks ir ! c)) = read_span (ir_locals ir) (bb_inputs (ir_blocks ir ! c))"
    "read_span locals' (bb_outputs (ir_blocks ir ! c)) = read_span (ir_locals ir) (bb_outputs (ir_blocks ir ! c))"
    if "c \<in> B" for c
    using rd ap [OF slots_in(1) [OF that]] ap [OF slots_in(2) [OF that]] by (metis slot_simps(1,2) span_source.distinct)+
  ultimately show ?thesis using run by (auto simp: kept_def)
qed

lemma rewrite_all_inputs:
  assumes "separate ir B" "ops_in_range ir B" "b \<in> B" "keeps_length f"
    and "distinct is" "set is \<subseteq> set (ops_of ir b)" "\<forall>i\<in>set is. resolve_op ir i \<noteq> None"
  shows "\<exists>ir'. fold_opt (rewrite_inputs f) is ir = Some ir' \<and> kept B (set is) ir ir' \<and>
     (\<forall>i\<in>set is. resolve_op ir' i = map_option (rewrite_rop f) (resolve_op ir i))"
  using assms
proof (induction "is" arbitrary: ir)
  case (Cons i "is")
  from Cons.prems obtain r where r: "resolve_op ir i = Some r" by auto
  have i: "i \<in> set (ops_of ir b)" using Cons.prems by simp
  from rewrite_inputs_spec [OF Cons.prems(1-3) i Cons.prems(4) r] obtain ir1 where
    1: "rewrite_inputs f i ir = Some ir1" "kept B {i} ir ir1" "resolve_op ir1 i = Some (rewrite_rop f r)" by blast
  have ops: "ops_of ir1 b = ops_of ir b" using 1(2) by (simp add: kept_def ops_of_def)
  have same: "resolve_op ir1 j = resolve_op ir j" if "j \<in> set is" for j
    using 1(2) Cons.prems(3,5,6) that by (auto simp: kept_def)
  have "same_slots ir ir1" using 1(2) by (simp add: kept_def)
  from same_slots_separate [OF this Cons.prems(2,1)] have s1: "separate ir1 B" "ops_in_range ir1 B" .
  have "\<forall>j\<in>set is. resolve_op ir1 j \<noteq> None" using same Cons.prems(7) by simp
  from Cons.IH [OF s1 Cons.prems(3,4) _ _ this] ops Cons.prems(5,6) obtain ir2 where
    2: "fold_opt (rewrite_inputs f) is ir1 = Some ir2" "kept B (set is) ir1 ir2"
    "\<forall>j\<in>set is. resolve_op ir2 j = map_option (rewrite_rop f) (resolve_op ir1 j)" by auto
  have "resolve_op ir2 i = resolve_op ir1 i"
    using 2(2) Cons.prems(3,5) i ops by (auto simp: kept_def)
  then show ?case
    using 1 2 same r kept_trans [OF 1(2) 2(2)] by (intro exI [of _ ir2]) simp
qed (simp add: kept_refl)

subsection \<open>Rewriting the outputs and the control of a block\<close>

definition rewrite_outputs :: "(nat list \<Rightarrow> nat list) \<Rightarrow> nat \<Rightarrow> ir_program \<Rightarrow> ir_program option" where
  "rewrite_outputs f b ir = do {
     bb \<leftarrow> slice_get (ir_blocks ir) b;
     locals \<leftarrow> write_span f (ir_locals ir) (bb_outputs bb);
     Some (ir\<lparr>ir_locals := locals\<rparr>)
   }"

lemma rewrite_outputs_spec:
  assumes sep: "separate ir B" and rng: "ops_in_range ir B" and b: "b \<in> B" and f: "keeps_length f"
    and outs: "read_span (ir_locals ir) (bb_outputs (ir_blocks ir ! b)) = Some outs"
  shows "\<exists>ir'. rewrite_outputs f b ir = Some ir' \<and> same_slots ir ir' \<and> ir_blocks ir' = ir_blocks ir \<and>
     read_span (ir_locals ir') (bb_outputs (ir_blocks ir ! b)) = Some (f outs) \<and>
     (\<forall>c\<in>B. (\<forall>j\<in>set (ops_of ir c). resolve_op ir' j = resolve_op ir j) \<and>
        read_span (ir_locals ir') (bb_inputs (ir_blocks ir ! c)) = read_span (ir_locals ir) (bb_inputs (ir_blocks ir ! c)) \<and>
        (c \<noteq> b \<longrightarrow> read_span (ir_locals ir') (bb_outputs (ir_blocks ir ! c)) =
           read_span (ir_locals ir) (bb_outputs (ir_blocks ir ! c))))"
proof -
  let ?s = "bb_outputs (ir_blocks ir ! b)"
  from write_span_returns [OF outs] obtain locals' where w: "write_span f (ir_locals ir) ?s = Some locals'" by blast
  note r = write_span_reads [OF w f]
  let ?ir = "ir\<lparr>ir_locals := locals'\<rparr>"
  have bl: "b < length (ir_blocks ir)" using rng b by (simp add: ops_in_range_def)
  then have run: "rewrite_outputs f b ir = Some ?ir" using w by (simp add: rewrite_outputs_def)
  have ap: "apart (Some ?s) (slot ir x)" if "x \<in> slots ir B" "x \<noteq> SrcOutputs b" for x
    using separateD [OF sep slots_in(2) [OF b] that(1)] that(2) by auto
  have rd: "read_span locals' s = read_span (ir_locals ir) s" if "apart (Some ?s) (Some s)" for s
    using r(3) that .
  have ops: "resolve_op ?ir j = resolve_op ir j" if c: "c \<in> B" and j: "j \<in> set (ops_of ir c)" for c j
  proof -
    let ?e = "opn_data (ir_operations ir ! j)"
    note separate_spans [OF sep c j]
    moreover have "apart (Some ?s) (in_slot ir j)" "apart (Some ?s) (out_slot ir j)"
      using ap [OF slots_in(3) [OF c j]] ap [OF slots_in(4) [OF c j]] by simp_all
    ultimately have "data_inputs ?e locals' = data_inputs ?e (ir_locals ir)"
      "data_outputs ?e locals' (ir_functions ir) = data_outputs ?e (ir_locals ir) (ir_functions ir)"
      using reads_kept [of "Some ?s", OF rd] by blast+
    moreover have "j < length (ir_operations ir)" using rng c j by (simp add: ops_in_range_def)
    ultimately show ?thesis by (simp add: resolve_op_def op_inputs_def op_outputs_def)
  qed
  have io: "read_span locals' (bb_inputs (ir_blocks ir ! c)) = read_span (ir_locals ir) (bb_inputs (ir_blocks ir ! c))"
    "c \<noteq> b \<longrightarrow> read_span locals' (bb_outputs (ir_blocks ir ! c)) = read_span (ir_locals ir) (bb_outputs (ir_blocks ir ! c))"
    if "c \<in> B" for c
    using rd ap [OF slots_in(1) [OF that]] ap [OF slots_in(2) [OF that]]
    by (metis slot_simps(1) span_source.distinct(1), metis slot_simps(2) span_source.inject(2))
  have "same_slots ir ?ir" using r(1) by (simp add: same_slots_def op_allocated_spans_def)
  then show ?thesis using run ops io r(2) outs by (intro exI [of _ ?ir]) simp
qed

text \<open>
  A whole block: the inputs of its operations and its outputs are rewritten by \<open>f\<close> and its control by
  \<open>g\<close>, and every other block stays as it is.
\<close>

definition rewrite_block :: "(nat list \<Rightarrow> nat list) \<Rightarrow> (control \<Rightarrow> control) \<Rightarrow> nat \<Rightarrow> ir_program \<Rightarrow> ir_program option" where
  "rewrite_block f g b ir = do {
     bb \<leftarrow> slice_get (ir_blocks ir) b;
     ir \<leftarrow> fold_opt (rewrite_inputs f) (span_indices (bb_operations bb)) ir;
     ir \<leftarrow> rewrite_outputs f b ir;
     blocks \<leftarrow> slice_set (ir_blocks ir) b (bb\<lparr>bb_control := g (bb_control bb)\<rparr>);
     Some (ir\<lparr>ir_blocks := blocks\<rparr>)
   }"

lemma map_opt_map: "map_opt h xs = Some ys \<Longrightarrow> (\<And>x. x \<in> set xs \<Longrightarrow> h' x = map_option g (h x)) \<Longrightarrow>
    map_opt h' xs = Some (map g ys)"
  by (induction xs arbitrary: ys) (auto simp: bind_eq_Some_conv)

lemma map_opt_cong: "(\<And>x. x \<in> set xs \<Longrightarrow> h' x = h x) \<Longrightarrow> map_opt h' xs = map_opt h xs"
  by (induction xs) auto

lemma map_opt_Some: "map_opt h xs = Some ys \<Longrightarrow> x \<in> set xs \<Longrightarrow> h x \<noteq> None"
  by (induction xs arbitrary: ys) (auto simp: bind_eq_Some_conv)

lemma distinct_ops_of: "distinct (ops_of ir b)"
  by (simp add: ops_of_def span_indices_def)

lemma same_slots_control: "same_slots ir ir' \<Longrightarrow> resolve_control ir' = resolve_control ir"
proof -
  assume "same_slots ir ir'"
  then have "ir_cases ir' = ir_cases ir" "ir_large_consts ir' = ir_large_consts ir" "ir_cases_bb_ids ir' = ir_cases_bb_ids ir"
    unfolding same_slots_def by (cases ir; cases ir'; simp)+
  then show ?thesis
    by (simp add: fun_eq_iff resolve_control_def cs_iter_def cs_get_values_def cs_get_bb_ids_def split: control.split)
qed

lemma rewrite_block_spec:
  assumes sep: "separate ir B" and rng: "ops_in_range ir B" and b: "b \<in> B" and f: "keeps_length f"
    and rb: "resolve ir b = Some rb" and ctl: "resolve_control ir (g (bb_control (ir_blocks ir ! b))) = Some ctl"
  shows "\<exists>ir'. rewrite_block f g b ir = Some ir' \<and> same_slots ir ir' \<and>
     resolve ir' b = Some \<lparr>rb_ins = rb_ins rb, rb_ops = map (rewrite_rop f) (rb_ops rb), rb_outs = f (rb_outs rb),
       rb_ctl = ctl\<rparr> \<and>
     (\<forall>c\<in>B. c \<noteq> b \<longrightarrow> resolve ir' c = resolve ir c)"
proof -
  let ?bb = "ir_blocks ir ! b"
  note rb = rb [unfolded resolve_Some]
  have ops: "span_indices (bb_operations ?bb) = ops_of ir b" by (simp add: ops_of_def)
  have def': "\<forall>i\<in>set (ops_of ir b). resolve_op ir i \<noteq> None"
    using rb map_opt_Some [of "resolve_op ir" "ops_of ir b"] by (simp add: ops_of_def)
  from rewrite_all_inputs [OF sep rng b f distinct_ops_of subset_refl def'] obtain ir1 where
    1: "fold_opt (rewrite_inputs f) (ops_of ir b) ir = Some ir1" "kept B (set (ops_of ir b)) ir ir1"
      "\<forall>i\<in>set (ops_of ir b). resolve_op ir1 i = map_option (rewrite_rop f) (resolve_op ir i)" by blast
  have s1: "same_slots ir ir1" and b1: "ir_blocks ir1 = ir_blocks ir" using 1(2) by (simp_all add: kept_def)
  note sep1 = same_slots_separate [OF s1 rng sep]
  have ops1: "ops_of ir1 = ops_of ir" by (simp add: fun_eq_iff ops_of_def b1)
  have outs: "read_span (ir_locals ir1) (bb_outputs (ir_blocks ir1 ! b)) = Some (rb_outs rb)"
    using 1(2) b rb by (simp add: kept_def b1)
  from rewrite_outputs_spec [OF sep1 b f outs] obtain ir2 where
    2: "rewrite_outputs f b ir1 = Some ir2" "same_slots ir1 ir2" "ir_blocks ir2 = ir_blocks ir"
      "read_span (ir_locals ir2) (bb_outputs ?bb) = Some (f (rb_outs rb))"
      and others: "\<And>c j. c \<in> B \<Longrightarrow> j \<in> set (ops_of ir c) \<Longrightarrow> resolve_op ir2 j = resolve_op ir1 j"
      "\<And>c. c \<in> B \<Longrightarrow> read_span (ir_locals ir2) (bb_inputs (ir_blocks ir ! c)) =
         read_span (ir_locals ir1) (bb_inputs (ir_blocks ir ! c))"
      "\<And>c. c \<in> B \<Longrightarrow> c \<noteq> b \<Longrightarrow> read_span (ir_locals ir2) (bb_outputs (ir_blocks ir ! c)) =
         read_span (ir_locals ir1) (bb_outputs (ir_blocks ir ! c))"
    unfolding b1 ops1 by blast
  have bl: "b < length (ir_blocks ir)" using rb by simp
  let ?ir = "ir2\<lparr>ir_blocks := (ir_blocks ir)[b := ?bb\<lparr>bb_control := g (bb_control ?bb)\<rparr>]\<rparr>"
  have run: "rewrite_block f g b ir = Some ?ir"
    using bl 1(1) 2 by (simp add: rewrite_block_def ops)
  have "same_slots ir2 ?ir"
    using 2(3) bl by (auto simp: same_slots_def op_allocated_spans_def nth_list_update)
  with s1 2(2) have s: "same_slots ir ?ir" using same_slots_trans by blast
  have rop: "resolve_op ?ir j = resolve_op ir2 j" for j by (simp add: resolve_op_blocks)
  have "map_opt (resolve_op ?ir) (ops_of ir b) = Some (map (rewrite_rop f) (rb_ops rb))"
    by (rule map_opt_map [where h = "resolve_op ir"]) (use rb 1(3) others(1) [OF b] in \<open>auto simp: rop ops_of_def\<close>)
  moreover have "read_span (ir_locals ir2) (bb_inputs ?bb) = Some (rb_ins rb)"
    using others(2) [OF b] 1(2) b rb by (simp add: kept_def)
  ultimately have "resolve ?ir b = Some \<lparr>rb_ins = rb_ins rb, rb_ops = map (rewrite_rop f) (rb_ops rb),
      rb_outs = f (rb_outs rb), rb_ctl = ctl\<rparr>"
    unfolding resolve_Some using bl 2(4) ctl same_slots_control [OF s] by (simp add: ops_of_def)
  moreover have "resolve ?ir c = resolve ir c" if c: "c \<in> B" and ne: "c \<noteq> b" for c
  proof -
    have cl: "c < length (ir_blocks ir)" using rng c by (simp add: ops_in_range_def)
    have "set (ops_of ir c) \<inter> set (ops_of ir b) = {}" using sep b c ne by (simp add: separate_def)
    then have "resolve_op ?ir j = resolve_op ir j" if "j \<in> set (ops_of ir c)" for j
      using 1(2) c that others(1) [OF c that] rop by (auto simp: kept_def)
    then have "map_opt (resolve_op ?ir) (ops_of ir c) = map_opt (resolve_op ir) (ops_of ir c)"
      by (rule map_opt_cong)
    moreover have "read_span (ir_locals ir2) (bb_inputs (ir_blocks ir ! c)) =
         read_span (ir_locals ir) (bb_inputs (ir_blocks ir ! c))"
      "read_span (ir_locals ir2) (bb_outputs (ir_blocks ir ! c)) =
         read_span (ir_locals ir) (bb_outputs (ir_blocks ir ! c))"
      using others(2) [OF c] others(3) [OF c ne] 1(2) c by (simp_all add: kept_def)
    ultimately show ?thesis
      using cl ne same_slots_control [OF s] by (simp add: resolve_def ops_of_def)
  qed
  ultimately show ?thesis using run s by blast
qed

subsection \<open>Legal programs\<close>

definition legal :: "ir_program \<Rightarrow> bool" where
  "legal ir \<longleftrightarrow> entries_in_range ir \<and> length (ir_blocks ir) \<le> 25000000 \<and> legalizer_run ir = Some (Inr ())"

lemma validated_spans:
  assumes "validate_blocks ir lg = Some (Inr lg')" "b < length (ir_blocks ir)" "i \<in> set (ops_of ir b)"
  shows "op_allocated_spans (ir_operations ir ! i) ir \<noteq> None" "i < length (ir_operations ir)"
proof -
  obtain l l' where "validate_block_indices ir b (ir_blocks ir ! b) l = Some (Inr l')"
    using validate_blocks_ok(2) [OF assms(1,2)] by blast
  from validate_block_ok(2) [OF this] assms(3) obtain u u' where
    "validate_op_indices ir b i u = Some (Inr u')" unfolding ops_of_def by blast
  then show "op_allocated_spans (ir_operations ir ! i) ir \<noteq> None" "i < length (ir_operations ir)"
    by (auto simp: validate_op_indices_def bind_eq_Some_conv slice_get_Some)
qed

lemma slot_tracked:
  assumes "x \<in> slots ir B" "\<forall>b\<in>B. b < length (ir_blocks ir)" "slot ir x = Some s" "fst s \<noteq> snd s"
  shows "track s x \<in> set (locals_spans ir)"
proof -
  have blk: "set (block_spans ir b) \<subseteq> set (locals_spans ir)" if "b \<in> B" for b
    using that assms(2) by (force simp: locals_spans_def)
  have op: "set (op_spans ir b i) \<subseteq> set (block_spans ir b)" if "i \<in> set (ops_of ir b)" for b i
    using that by (auto simp: block_spans_def Let_def ops_of_def)
  have filled: "filled_span s src = [track s src]" for src
    using assms(4) by (simp add: filled_span_def span_is_empty_def)
  from assms(1) consider b where "b \<in> B" "x = SrcInputs b" | b where "b \<in> B" "x = SrcOutputs b"
    | b i where "b \<in> B" "i \<in> set (ops_of ir b)" "x = SrcOpInputs b i"
    | b i where "b \<in> B" "i \<in> set (ops_of ir b)" "x = SrcOpOutputs b i"
    unfolding slots_def by blast
  then show ?thesis
  proof cases
    case (1 b)
    with assms(3) filled have "track s x \<in> set (block_spans ir b)" by (simp add: block_spans_def Let_def)
    with blk [OF 1(1)] show ?thesis by blast
  next
    case (2 b)
    with assms(3) filled have "track s x \<in> set (block_spans ir b)" by (simp add: block_spans_def Let_def)
    with blk [OF 2(1)] show ?thesis by blast
  next
    case (3 b i)
    with assms(3) have "track s x \<in> set (op_spans ir b i)"
      by (cases s) (auto simp: in_slot_def op_spans_def split: option.splits)
    with blk [OF 3(1)] op [OF 3(2)] show ?thesis by blast
  next
    case (4 b i)
    with assms(3) have "track s x \<in> set (op_spans ir b i)"
      by (cases s) (auto simp: out_slot_def op_spans_def split: option.splits)
    with blk [OF 4(1)] op [OF 4(2)] show ?thesis by blast
  qed
qed

lemma track_inject: "track s x = track t y \<Longrightarrow> x = y"
  by (simp add: track_def)

lemma legal_separate:
  assumes "legal ir"
  shows "separate ir {..<length (ir_blocks ir)}" "ops_in_range ir {..<length (ir_blocks ir)}"
proof -
  let ?B = "{..<length (ir_blocks ir)}"
  obtain lg lg' where v: "validate_blocks ir lg = Some (Inr lg')" "lg_locals_spans lg = []" "lg_operations_spans lg = []"
    using assms unfolding legal_def by (metis legalizer_run_ok)
  note s = validate_blocks_spans [OF v]
  show rng: "ops_in_range ir ?B" using validated_spans(2) [OF v(1)] by (simp add: ops_in_range_def)
  have "apart (slot ir x) (slot ir y)" if "x \<in> slots ir ?B" "y \<in> slots ir ?B" "x \<noteq> y" for x y
  proof (cases "slot ir x"; cases "slot ir y")
    fix s1 s2 assume xy: "slot ir x = Some s1" "slot ir y = Some s2"
    show ?thesis
    proof (cases "fst s1 = snd s1 \<or> fst s2 = snd s2")
      case False
      then have "track s1 x \<in> set (locals_spans ir)" "track s2 y \<in> set (locals_spans ir)"
        using slot_tracked [OF that(1) _ xy(1)] slot_tracked [OF that(2) _ xy(2)] by simp_all
      from validate_spans_ok(1) [OF s(1) this] that(3) track_inject xy show ?thesis
        by (auto simp: track_def)
    qed (use xy in auto)
  qed simp_all
  moreover have "set (ops_of ir b) \<inter> set (ops_of ir c) = {}" if bc: "b \<in> ?B" "c \<in> ?B" "b \<noteq> c" for b c
  proof (rule ccontr)
    assume "set (ops_of ir b) \<inter> set (ops_of ir c) \<noteq> {}"
    then obtain i where i: "i \<in> set (ops_of ir b)" "i \<in> set (ops_of ir c)" by blast
    let ?t = "\<lambda>b. track (bb_operations (ir_blocks ir ! b)) (SrcOperations b)"
    have "?t b \<in> set (operations_spans ir)" "?t c \<in> set (operations_spans ir)"
      using i bc by (auto simp: operations_spans_def filled_span_def span_is_empty_def ops_of_def span_indices_def)
    from validate_spans_ok(1) [OF s(2) this] track_inject bc(3) i show False
      by (fastforce simp: track_def ops_of_def span_indices_def)
  qed
  ultimately show "separate ir ?B"
    using validated_spans(1) [OF v(1)] unfolding separate_def by blast
qed

subsection \<open>Single assignment in a block\<close>

definition rb_defs :: "rblock \<Rightarrow> nat list" where
  "rb_defs rb = rb_ins rb @ concat (map rop_outs (rb_ops rb))"

text \<open>No local is defined twice, and none is used by an operation before it is defined.\<close>

definition block_ssa :: "rblock \<Rightarrow> bool" where
  "block_ssa rb \<longleftrightarrow> distinct (rb_defs rb) \<and>
     (\<forall>k<length (rb_ops rb). set (rop_ins (rb_ops rb ! k)) \<inter>
        set (concat (map rop_outs (drop k (rb_ops rb)))) = {})"

lemma map_opt_nth: "map_opt h xs = Some ys \<Longrightarrow> length ys = length xs \<and> (\<forall>k<length xs. h (xs ! k) = Some (ys ! k))"
  by (induction xs arbitrary: ys) (auto simp: bind_eq_Some_conv nth_Cons split: nat.split)

lemma resolve_op_operands:
  assumes "resolve_op ir i = Some r"
  shows "ins_of ir i = rop_ins r" "outs_of ir i = rop_outs r"
  using assms by (auto simp: resolve_op_def bind_eq_Some_conv ins_of_def outs_of_def ov_inputs_def ov_outputs_def)

lemma resolve_defs:
  assumes "resolve ir b = Some rb"
  shows "block_ops ir b = ops_of ir b" "length (rb_ops rb) = length (ops_of ir b)"
    "\<And>k. k < length (rb_ops rb) \<Longrightarrow> resolve_op ir (ops_of ir b ! k) = Some (rb_ops rb ! k)"
    "map (outs_of ir) (ops_of ir b) = map rop_outs (rb_ops rb)"
    "block_defs ir b = rb_defs rb" "block_outs ir b = rb_outs rb"
    "\<And>k. defs_before ir b k = rb_ins rb @ concat (map rop_outs (take k (rb_ops rb)))"
proof -
  note r = assms [unfolded resolve_Some]
  show ops: "block_ops ir b = ops_of ir b" using r by (simp add: block_ops_in ops_of_def)
  have m: "map_opt (resolve_op ir) (ops_of ir b) = Some (rb_ops rb)" using r by (simp add: ops_of_def)
  note n = map_opt_nth [OF m]
  then show len: "length (rb_ops rb) = length (ops_of ir b)" by simp
  show nth: "resolve_op ir (ops_of ir b ! k) = Some (rb_ops rb ! k)" if "k < length (rb_ops rb)" for k
    using n that by simp
  show outs: "map (outs_of ir) (ops_of ir b) = map rop_outs (rb_ops rb)"
    by (rule nth_equalityI) (use len nth resolve_op_operands in auto)
  have ins: "block_ins ir b = rb_ins rb" using r by (simp add: block_ins_def bv_inputs_def)
  have "map (outs_of ir) (take k (ops_of ir b)) = map rop_outs (take k (rb_ops rb))" for k
    using outs by (metis take_map)
  then show db: "defs_before ir b k = rb_ins rb @ concat (map rop_outs (take k (rb_ops rb)))" for k
    by (simp add: defs_before_def ins ops)
  show "block_defs ir b = rb_defs rb" by (simp add: block_defs_def db rb_defs_def ops len)
  show "block_outs ir b = rb_outs rb" using r by (simp add: block_outs_def bv_outputs_def)
qed

lemma cfg_path_first:
  "cfg_path ir e bs c \<Longrightarrow> b \<in> set bs \<Longrightarrow> \<exists>cs. cfg_path ir e (b # cs) b \<and> b \<notin> set cs"
proof (induction rule: cfg_path.induct)
  case cfg_path_start
  then show ?case using cfg_path.cfg_path_start [of ir e] by force
next
  case (cfg_path_step bs p c)
  then show ?case using cfg_path.cfg_path_step [of ir e bs p c] by (cases "b \<in> set bs") auto
qed

lemma cfg_path_reach: "cfg_path ir e bs c \<Longrightarrow> b \<in> set bs \<Longrightarrow> block_reach ir e b"
proof (induction arbitrary: b rule: cfg_path.induct)
  case cfg_path_start
  then show ?case by (simp add: reach_refl)
next
  case (cfg_path_step bs p c)
  have "p \<in> set bs" using cfg_path_step.hyps(1) by (cases rule: cfg_path.cases) simp_all
  with cfg_path_step show ?case by (auto intro: reach_step)
qed

lemma reach_cfg_path: "block_reach ir e b \<Longrightarrow> \<exists>bs. cfg_path ir e bs b \<and> b \<in> set bs"
proof (induction rule: block_reach.induct)
  case (reach_refl b)
  show ?case using cfg_path_start [of ir b] by force
next
  case (reach_step a b c)
  then show ?case using cfg_path_step [of ir a _ b c] by (meson list.set_intros(1))
qed

text \<open>What single assignment and scoping say of a live block, without the locals of other blocks.\<close>

lemma legal_block_scope:
  assumes lg: "legal ir" and live: "live_block ir b"
  shows "distinct (block_defs ir b)"
    and "\<And>c. live_block ir c \<Longrightarrow> c \<noteq> b \<Longrightarrow> set (block_defs ir b) \<inter> set (block_defs ir c) = {}"
    and "\<exists>S. S \<inter> set (block_defs ir b) = {} \<and> scoped_block ir S b"
proof -
  obtain rpo bs where ix: "ir_indexed ir" and rpo: "rpo_compute ir = Some rpo" and bs: "rp_blocks_rpo rpo = Some bs"
    and d: "distinct (concat (map (block_defs ir) bs))"
    and scope: "\<And>f b bs. live_function ir f \<Longrightarrow> cfg_path ir (entry_of ir f) (b # bs) b \<Longrightarrow>
       scoped_block ir (\<Union> ((\<lambda>c. set (block_defs ir c)) ` set bs)) b"
    using lg unfolding legal_def by (metis (no_types, lifting) legalizer_run_ok)
  have lb: "distinct bs" "set bs = {b. live_block ir b}"
    using rpo_live_blocks [OF ix] rpo bs by auto
  then show "distinct (block_defs ir b)"
    using d live by (auto simp: distinct_concat_iff)
  show dis: "set (block_defs ir b) \<inter> set (block_defs ir c) = {}" if "live_block ir c" "c \<noteq> b" for c
    using distinct_concat_disjoint [OF d] lb(2) live that by auto
  from live obtain f where f: "live_function ir f" "block_reach ir (entry_of ir f) b"
    by (auto simp: live_block_def)
  from reach_cfg_path [OF f(2)] cfg_path_first obtain cs where
    cs: "cfg_path ir (entry_of ir f) (b # cs) b" "b \<notin> set cs" by metis
  let ?S = "\<Union> ((\<lambda>c. set (block_defs ir c)) ` set cs)"
  have "live_block ir c" if "c \<in> set cs" for c
    using cfg_path_reach [OF cs(1), of c] that f(1) by (auto simp: live_block_def)
  with dis cs(2) have "?S \<inter> set (block_defs ir b) = {}" by (auto simp: disjoint_iff)
  with scope [OF f(1) cs(1)] show "\<exists>S. S \<inter> set (block_defs ir b) = {} \<and> scoped_block ir S b" by blast
qed

lemma legal_block_ssa:
  assumes lg: "legal ir" and live: "live_block ir b" and rb: "resolve ir b = Some rb"
  shows "block_ssa rb"
proof -
  note r = resolve_defs [OF rb] and s = legal_block_scope [OF lg live]
  obtain S where S: "S \<inter> set (rb_defs rb) = {}" "scoped_block ir S b" using s(3) r(5) by auto
  have "set (rop_ins (rb_ops rb ! k)) \<inter> set (concat (map rop_outs (drop k (rb_ops rb)))) = {}"
    if k: "k < length (rb_ops rb)" for k
  proof -
    let ?pre = "rb_ins rb @ concat (map rop_outs (take k (rb_ops rb)))"
    let ?post = "concat (map rop_outs (drop k (rb_ops rb)))"
    have "ins_of ir (ops_of ir b ! k) = rop_ins (rb_ops rb ! k)" using resolve_op_operands(1) [OF r(3) [OF k]] .
    with S(2) k r(1,2,7) have use: "set (rop_ins (rb_ops rb ! k)) \<subseteq> S \<union> set ?pre"
      unfolding scoped_block_def by metis
    have "concat (map rop_outs (take k (rb_ops rb))) @ ?post = concat (map rop_outs (rb_ops rb))"
      by (metis append_take_drop_id concat_append map_append)
    then have "rb_defs rb = ?pre @ ?post" by (simp add: rb_defs_def)
    with s(1) r(5) have "set ?pre \<inter> set ?post = {}" "set ?post \<subseteq> set (rb_defs rb)" by auto
    with use S(1) show ?thesis by blast
  qed
  with s(1) r(5) show ?thesis by (simp add: block_ssa_def)
qed

subsection \<open>Where control goes from a resolved block\<close>

lemma resolve_control_targets:
  "resolve_control ir ctl = Some c \<Longrightarrow> \<exists>ts. ctl_outgoing ctl ir = Some ts \<and> set (rctl_targets c) \<subseteq> set ts"
  by (cases ctl) (auto simp: resolve_control_def cs_iter_def bind_eq_Some_conv cases_iter_collect_zip
      split: option.splits dest!: set_zip_rightD)

lemma resolve_targets:
  assumes "resolve ir b = Some rb"
  shows "set (rctl_targets (rb_ctl rb)) \<subseteq> set (succs_of ir b)"
  using assms resolve_control_targets [of ir "bb_control (ir_blocks ir ! b)" "rb_ctl rb"]
  by (auto simp: resolve_Some succs_of_def bv_successors_def)

lemma resolve_callees:
  assumes rb: "resolve ir b = Some rb" and g: "g \<in> rb_callees rb"
  shows "g \<in> set (callees_of ir b)"
proof -
  note d = resolve_defs [OF rb]
  from g obtain r where r: "r \<in> set (rb_ops rb)" "g \<in> rop_callees r" by (auto simp: rb_callees_def)
  from r(2) have a: "rop_action r = ActCall g" by (cases "rop_action r") (simp_all add: rop_callees_def)
  from r(1) obtain k where k: "k < length (rb_ops rb)" "rop_action (rb_ops rb ! k) = ActCall g"
    using a by (auto simp: in_set_conv_nth)
  let ?i = "ops_of ir b ! k"
  from d(3) [OF k(1)] obtain a ins outs where i: "?i < length (ir_operations ir)"
    "resolve_action (ir_large_consts ir) (ir_operations ir ! ?i) = Some a" "ROp a ins outs = rb_ops rb ! k"
    by (auto simp: resolve_op_def bind_eq_Some_conv slice_get_Some)
  from k(2) i(3) have "a = ActCall g" by (metis rop.sel(1))
  with i(2) have "op_callee (ir_operations ir ! ?i) = Some g"
    by (cases "opn_data (ir_operations ir ! ?i)") (auto simp: resolve_action_def op_callee_def split: if_splits)
  moreover have "?i \<in> set (span_indices (bb_operations (ir_blocks ir ! b)))"
    using k(1) d(2) by (auto simp: ops_of_def)
  moreover have "b < length (ir_blocks ir)" using rb by (simp add: resolve_Some)
  ultimately show ?thesis using i(1) by (force simp: callees_of_def List.map_filter_def)
qed

text \<open>
  Passes that keep the control flow: when the blocks of the live part agree, live functions compute
  the same.
\<close>

lemma live_code_runs:
  assumes junk: "R junk junk" and f: "live_function ir f" and ent: "fv_entry ir' = fv_entry ir"
    and blk: "\<And>b. live_block ir b \<Longrightarrow> \<exists>rb rb'. resolve ir b = Some rb \<and> resolve ir' b = Some rb' \<and>
       block_agrees sem R rb rb' \<and> rb_callees rb' \<subseteq> rb_callees rb"
  shows "run_function n ir' sem junk f args w = run_function n ir sem junk f args w"
proof -
  have live: "live_block ir t" if b: "live_block ir b" "t \<in> set (succs_of ir b)" for b t
    using b unfolding live_block_def by (blast intro: reach_step)
  have call: "live_block ir eb" if b: "live_block ir b" "g \<in> set (callees_of ir b)" "fv_entry ir g = Some eb" for b g eb
  proof -
    from b(1) obtain h where "live_function ir h" "block_reach ir (entry_of ir h) b" by (auto simp: live_block_def)
    from live_call [OF this b(2)] have "live_function ir g" .
    moreover have "eb = entry_of ir g" using b(3) by (auto simp: fv_entry_def entry_of_def slice_get_Some)
    ultimately show ?thesis unfolding live_block_def using reach_refl by blast
  qed
  have ag: "code_agrees {b. live_block ir b} (fv_entry ir) sem R (resolve ir) (resolve ir')"
    unfolding code_agrees_def
  proof (intro ballI disjI2)
    fix b assume "b \<in> {b. live_block ir b}"
    then have b: "live_block ir b" by simp
    from blk [OF b] obtain rb rb' where rb: "resolve ir b = Some rb" "resolve ir' b = Some rb'"
      "block_agrees sem R rb rb'" "rb_callees rb' \<subseteq> rb_callees rb" by blast
    have "set (rctl_targets (rb_ctl rb)) \<subseteq> {b. live_block ir b}"
      using resolve_targets [OF rb(1)] live [OF b] by blast
    moreover have "\<forall>g\<in>rb_callees rb. \<forall>eb. fv_entry ir g = Some eb \<longrightarrow> eb \<in> {b. live_block ir b}"
      using resolve_callees [OF rb(1)] call [OF b] by blast
    ultimately show "\<exists>rb rb'. resolve ir b = Some rb \<and> resolve ir' b = Some rb' \<and>
       block_agrees sem R rb rb' \<and> set (rctl_targets (rb_ctl rb)) \<subseteq> {b. live_block ir b} \<and>
       rb_callees rb' \<subseteq> rb_callees rb \<and>
       (\<forall>g\<in>rb_callees rb. \<forall>eb. fv_entry ir g = Some eb \<longrightarrow> eb \<in> {b. live_block ir b})"
      using rb by blast
  qed
  show ?thesis
  proof (cases "fv_entry ir f")
    case (Some eb)
    then have "eb = entry_of ir f" by (auto simp: fv_entry_def entry_of_def slice_get_Some)
    with f have "eb \<in> {b. live_block ir b}" unfolding live_block_def using reach_refl by blast
    from run_agrees [OF ag junk this junk] show ?thesis by (simp add: run_function_def ent Some)
  qed (simp add: run_function_def ent)
qed

text \<open>A pass that treats one block after the other.\<close>

lemma edit_blocks:
  assumes step: "\<And>b ir rb. separate ir B \<Longrightarrow> ops_in_range ir B \<Longrightarrow> Q ir \<Longrightarrow> b \<in> set all \<Longrightarrow> resolve ir b = Some rb \<Longrightarrow>
      \<exists>ir'. h b ir = Some ir' \<and> same_slots ir ir' \<and> Q ir' \<and> resolve ir' b = Some (t rb) \<and>
        (\<forall>c\<in>B. c \<noteq> b \<longrightarrow> resolve ir' c = resolve ir c)"
    and "set all \<subseteq> B"
  shows "separate ir B \<Longrightarrow> ops_in_range ir B \<Longrightarrow> Q ir \<Longrightarrow> set bs \<subseteq> set all \<Longrightarrow> distinct bs \<Longrightarrow>
      \<forall>b\<in>set bs. resolve ir b \<noteq> None \<Longrightarrow>
    \<exists>ir'. fold_opt h bs ir = Some ir' \<and> same_slots ir ir' \<and>
      (\<forall>b\<in>set bs. resolve ir' b = map_option t (resolve ir b)) \<and>
      (\<forall>c\<in>B - set bs. resolve ir' c = resolve ir c)"
proof (induction bs arbitrary: ir)
  case (Cons b bs)
  then obtain rb where rb: "resolve ir b = Some rb" by auto
  have "b \<in> set all" using Cons.prems by simp
  from step [OF Cons.prems(1-3) this rb] obtain ir1 where 1: "h b ir = Some ir1" "same_slots ir ir1" "Q ir1"
    "resolve ir1 b = Some (t rb)" "\<forall>c\<in>B. c \<noteq> b \<longrightarrow> resolve ir1 c = resolve ir c" by blast
  note s1 = same_slots_separate [OF 1(2) Cons.prems(2,1)]
  have bsB: "set bs \<subseteq> B" "b \<in> B" "b \<notin> set bs" using Cons.prems(4,5) assms(2) by auto
  have "\<forall>c\<in>set bs. resolve ir1 c \<noteq> None" using 1(5) bsB Cons.prems(6) by (metis list.set_intros(2) subsetD)
  from Cons.IH [OF s1 1(3) _ _ this] Cons.prems(4,5) obtain ir2 where 2: "fold_opt h bs ir1 = Some ir2" "same_slots ir1 ir2"
    "\<forall>b\<in>set bs. resolve ir2 b = map_option t (resolve ir1 b)" "\<forall>c\<in>B - set bs. resolve ir2 c = resolve ir1 c" by auto
  have "resolve ir2 c = map_option t (resolve ir c)" if "c \<in> set (b # bs)" for c
  proof (cases "c = b")
    case True
    then show ?thesis using 2(4) bsB 1(4) rb by simp
  next
    case False
    then show ?thesis using that 2(3) 1(5) bsB by auto
  qed
  moreover have "resolve ir2 c = resolve ir c" if "c \<in> B - set (b # bs)" for c
    using that 2(4) 1(5) by auto
  ultimately show ?case using 1(1) 2(1) same_slots_trans [OF 1(2) 2(2)] by auto
qed (simp add: same_slots_refl)

subsection \<open>A legal program of one block\<close>

definition straight_sample :: ir_program where
  "straight_sample = ir_default\<lparr>
     ir_functions := [\<lparr>fn_entry = 0, fn_return_kind = rk_never, fn_source = None\<rparr>],
     ir_next_free_local := 3,
     ir_operations := [Operation OpSetSmallConst (SetSmallConstData 0 7),
       Operation OpSetCopy (InlineOperands [0] [1]), Operation OpAdd (InlineOperands [0, 1] [2]),
       Operation OpSelfDestruct (InlineOperands [1] [])],
     ir_blocks := [\<lparr>bb_inputs = (0, 0), bb_outputs = (0, 0), bb_operations = (0, 4), bb_control = LastOpTerminates\<rparr>]\<rparr>"

lemmas straight_simps = straight_sample_def ir_default_def

lemma straight_entries: "validate_entry_points straight_sample = Some (Inr ())"
  by (simp add: straight_simps validate_entry_points_def validate_entry_def rk_is_never_def span_is_empty_def)

lemma straight_blocks: "\<exists>lg'. validate_blocks straight_sample
   \<lparr>lg_locals_spans = [], lg_operations_spans = [], lg_block_owner = [None], lg_call_edges = []\<rparr>
   = Some (Inr lg') \<and> lg_block_owner lg' = [None] \<and> lg_call_edges lg' = []"
  by (simp add: straight_simps validate_blocks_def validate_block_terminators_def validate_block_indices_def
     span_is_empty_def span_indices_def read_span_def is_terminating_def validate_control_def validate_basic_block_id_def
     validate_op_indices_def validate_op_data_def op_inputs_def op_outputs_def validate_local_list_def
     op_allocated_spans_def track_locals_def track_operations_def track_def
     validate_spans_def eval_nat_numeral upt_rec sort_key_def rk_is_never_def idx_sub_def)

lemma straight_rpo: "\<exists>s. rpo_compute straight_sample = Some s \<and> rp_functions s = [0] \<and> rp_blocks s 0 = Some [0]"
  by (simp add: straight_simps rpo_compute_def rpo_fuel_def rp_empty_def eval_nat_numeral bv_successors_def op_callee_def
      visit_block.simps span_indices_def upt_rec)

lemma straight_cfg:
  assumes "rp_functions s = [0]" "lg_block_owner lg = [None]" "lg_call_edges lg = []"
  shows "validate_cfg straight_sample s lg = Some (Inr ())"
  by (simp add: assms straight_simps validate_cfg_def fv_entry_def eval_nat_numeral bv_successors_def
      validate_return_def validate_call_def span_indices_def upt_rec span_len_def idx_sub_def fn_get_inputs_def
      validate_call_graph_def call_lists_def)

lemma straight_dominators:
  assumes "rp_functions s = [0]" "rp_blocks s 0 = Some [0]"
  shows "stored_dominators straight_sample s = Some [0 \<mapsto> 0]"
proof -
  have "reachable_compute s = Some {0}" using assms by (auto simp: reachable_compute_def rp_blocks_rpo_def)
  moreover have "preds_compute straight_sample {0} [] = Some [[]]"
    by (simp add: straight_simps preds_compute_def vec_resize_def eval_nat_numeral upt_rec bv_successors_def)
  moreover have "length (ir_blocks straight_sample) = 1" "fv_entry straight_sample 0 = Some 0"
    by (simp_all add: straight_simps fv_entry_def)
  moreover have "rpo_positions [0] [0] = Some [0]" by (simp add: rpo_positions_def)
  moreover obtain l where "ll_tick ll_new = Some l" using ll_tick_left [of ll_new] by auto
  then have "dom_loop ll_new [[]] [0] [0] [0 \<mapsto> 0] = Some [0 \<mapsto> 0]"
    by (rule one_sweep [where ch = False, rotated 1]) simp_all
  ultimately show ?thesis
    using assms by (simp add: stored_dominators_def dominators_compute_def compute_function_dominators_def)
qed

lemma straight_scope:
  assumes "rp_functions s = [0]" "rp_blocks s 0 = Some [0]"
  shows "validate_local_ids straight_sample s [0 \<mapsto> 0] = Some (Inr ())"
  by (simp add: assms [simplified] straight_simps validate_local_ids_def validate_single_assignment_def rp_blocks_rpo_def
      read_span_def span_indices_def upt_rec eval_nat_numeral add_definition_def ov_outputs_def ov_inputs_def op_outputs_def op_inputs_def
      validate_scope_def dom_children_of_def fv_entry_def scope_block_def scope_add_def scope_op_def
      check_use_def scope_control_def)

lemma straight_legal: "legal straight_sample"
proof -
  obtain s where s: "rpo_compute straight_sample = Some s" "rp_functions s = [0]" "rp_blocks s 0 = Some [0]"
    using straight_rpo by blast
  obtain lg where lg: "validate_blocks straight_sample
   \<lparr>lg_locals_spans = [], lg_operations_spans = [], lg_block_owner = [None], lg_call_edges = []\<rparr>
     = Some (Inr lg)" "lg_block_owner lg = [None]" "lg_call_edges lg = []"
    using straight_blocks by blast
  have l: "length (ir_blocks straight_sample) = 1" by (simp add: straight_simps)
  have "legalizer_run straight_sample = Some (Inr ())"
    using straight_entries lg(1) s(1) straight_cfg [OF s(2) lg(2,3)] straight_dominators [OF s(2,3)]
      straight_scope [OF s(2,3)]
    by (simp add: legalizer_run_def l)
  moreover have "entries_in_range straight_sample" by (simp add: entries_in_range_def straight_simps)
  ultimately show ?thesis by (simp add: legal_def l)
qed

lemma straight_resolves: "resolve straight_sample 0 = Some \<lparr>rb_ins = [],
    rb_ops = [ROp (ActConst 7) [] [0], ROp ActCopy [0] [1], ROp (ActPlain OpAdd []) [0, 1] [2],
      ROp (ActPlain OpSelfDestruct []) [1] []],
    rb_outs = [], rb_ctl = CtlStop\<rparr>"
  by (simp add: straight_simps resolve_def read_span_def span_indices_def upt_rec resolve_op_def resolve_action_def
      op_inputs_def op_outputs_def resolve_control_def)

lemma straight_live:
  "live_function straight_sample 0" "live_block straight_sample b \<longleftrightarrow> b = 0" "resolvable straight_sample"
proof -
  have ix: "ir_indexed straight_sample" using straight_legal unfolding legal_def by (metis legalizer_run_ok)
  show f: "live_function straight_sample 0"
    by (rule live_root) (simp add: root_functions_def straight_simps)
  have "entry_of straight_sample 0 = 0" by (simp add: entry_of_def straight_simps)
  with f have "live_block straight_sample 0" unfolding live_block_def using reach_refl by metis
  moreover have "length (ir_blocks straight_sample) = 1" by (simp add: straight_simps)
  ultimately show lb: "live_block straight_sample b \<longleftrightarrow> b = 0" for b
    using live_block_in_range [OF ix, of b] by auto
  show "resolvable straight_sample" by (simp add: resolvable_def lb straight_resolves)
qed

end
