(* ===== verification/Copy_Propagation.thy ===== *)
theory Copy_Propagation
  imports Operand_Edits
begin

text \<open>
  Copy propagation (\<open>plankc/sir/crates/passes/src/optimizations/copy_propagation.rs\<close>): inside each live
  block the uses of the destination of a \<open>SetCopy\<close> become uses of its source. The map of copies is
  built from the whole block before the uses are replaced, which is right because a legal program
  defines every local once and before its uses.
\<close>

subsection \<open>The pass\<close>

definition replace_if_copied :: "(nat \<Rightarrow> nat option) \<Rightarrow> nat \<Rightarrow> nat" where
  "replace_if_copied copy_map input = (case copy_map input of Some replacement \<Rightarrow> replacement | None \<Rightarrow> input)"

definition note_copy :: "operation \<Rightarrow> (nat \<Rightarrow> nat option) \<Rightarrow> (nat \<Rightarrow> nat option)" where
  "note_copy op copy_map =
     (if opn_kind op = OpSetCopy
      then (case opn_data op of
              InlineOperands [src] [dst] \<Rightarrow>
                copy_map(dst \<mapsto> (case copy_map src of Some s \<Rightarrow> s | None \<Rightarrow> src))
            | _ \<Rightarrow> copy_map)
      else copy_map)"

definition copy_control :: "(nat \<Rightarrow> nat option) \<Rightarrow> control \<Rightarrow> control" where
  "copy_control copy_map ctl =
     (case ctl of
        Branches br \<Rightarrow> Branches (br\<lparr>br_condition := replace_if_copied copy_map (br_condition br)\<rparr>)
      | Switches sw \<Rightarrow> Switches (sw\<lparr>sw_condition := replace_if_copied copy_map (sw_condition sw)\<rparr>)
      | _ \<Rightarrow> ctl)"

definition copy_block :: "nat \<Rightarrow> ir_program \<Rightarrow> ir_program option" where
  "copy_block b ir = do {
     bb \<leftarrow> slice_get (ir_blocks ir) b;
     ops \<leftarrow> read_span (ir_operations ir) (bb_operations bb);
     let copy_map = fold note_copy ops Map.empty;
     rewrite_block (map (replace_if_copied copy_map)) (copy_control copy_map) b ir
   }"

definition copy_propagation :: "ir_program \<Rightarrow> ir_program option" where
  "copy_propagation ir = do {
     rpo \<leftarrow> rpo_compute ir;
     bs \<leftarrow> rp_blocks_rpo rpo;
     fold_opt copy_block bs ir
   }"

subsection \<open>The pass on resolved blocks\<close>

definition note_rop :: "rop \<Rightarrow> (nat \<Rightarrow> nat option) \<Rightarrow> (nat \<Rightarrow> nat option)" where
  "note_rop r m =
     (case r of ROp ActCopy [src] [dst] \<Rightarrow> m(dst \<mapsto> replace_if_copied m src) | _ \<Rightarrow> m)"

primrec map_control :: "(nat \<Rightarrow> nat) \<Rightarrow> rcontrol \<Rightarrow> rcontrol" where
  "map_control g CtlStop = CtlStop"
| "map_control g CtlReturn = CtlReturn"
| "map_control g (CtlJump t) = CtlJump t"
| "map_control g (CtlBranch c nz z) = CtlBranch (g c) nz z"
| "map_control g (CtlSwitch c cases fallback) = CtlSwitch (g c) cases fallback"

definition copy_rblock :: "rblock \<Rightarrow> rblock" where
  "copy_rblock rb = (let g = replace_if_copied (fold note_rop (rb_ops rb) Map.empty) in
     \<lparr>rb_ins = rb_ins rb, rb_ops = map (rewrite_rop (map g)) (rb_ops rb), rb_outs = map g (rb_outs rb),
      rb_ctl = map_control g (rb_ctl rb)\<rparr>)"

fun ssa_ops :: "rop list \<Rightarrow> bool" where
  "ssa_ops [] = True"
| "ssa_ops (r # rs) \<longleftrightarrow> set (rop_outs r) \<inter> \<Union> (set ` rop_outs ` set rs) = {} \<and>
     set (rop_ins r) \<inter> (set (rop_outs r) \<union> \<Union> (set ` rop_outs ` set rs)) = {} \<and> ssa_ops rs"

lemma block_ssa_ops: "block_ssa rb \<Longrightarrow> ssa_ops (rb_ops rb)"
proof -
  have "distinct (concat (map rop_outs rs)) \<Longrightarrow>
      \<forall>k<length rs. set (rop_ins (rs ! k)) \<inter> set (concat (map rop_outs (drop k rs))) = {} \<Longrightarrow> ssa_ops rs" for rs
  proof (induction rs)
    case (Cons r rs)
    have "\<forall>k<length rs. set (rop_ins (rs ! k)) \<inter> set (concat (map rop_outs (drop k rs))) = {}"
      using Cons.prems(2) by (metis Suc_less_eq drop_Suc_Cons length_Cons nth_Cons_Suc)
    with Cons have "ssa_ops rs" by simp
    moreover have "set (rop_ins r) \<inter> set (concat (map rop_outs (r # rs))) = {}"
      using Cons.prems(2) [rule_format, of 0] by simp
    ultimately show ?case using Cons.prems(1) by (auto simp: Int_Un_distrib)
  qed simp
  then show "block_ssa rb \<Longrightarrow> ssa_ops (rb_ops rb)" by (simp add: block_ssa_def rb_defs_def)
qed

lemma exec_rop_other:
  assumes "exec_rop callf sem r e w = Some (Fall e' w')" "l \<notin> set (rop_outs r)"
  shows "e' l = e l"
proof (cases "rop_action r")
  case (ActCall g)
  with assms(1) obtain out where "callf g (map e (rop_ins r)) w = Some out"
    "(case out of Returned vs w' \<Rightarrow> Fall (assign (rop_outs r) vs e) w' | Halted w' \<Rightarrow> Ended w') = Fall e' w'"
    by (auto simp: exec_rop_def)
  with assms(2) show ?thesis by (cases out) (auto simp: assign_other)
next
  case (ActPlain k imm)
  obtain res w1 where "sem k imm (map e (rop_ins r)) w = (res, w1)" by (rule prod.exhaust)
  with ActPlain assms show ?thesis by (cases res) (auto simp: exec_rop_def assign_other)
qed (use assms in \<open>auto simp: exec_rop_def assign_other\<close>)

lemma exec_rop_ins:
  "(\<And>l. l \<in> set (rop_ins r) \<Longrightarrow> e (g l) = e l) \<Longrightarrow>
     exec_rop callf sem (rewrite_rop (map g) r) e w = exec_rop callf sem r e w"
proof -
  assume "\<And>l. l \<in> set (rop_ins r) \<Longrightarrow> e (g l) = e l"
  then have "map e (map g (rop_ins r)) = map e (rop_ins r)" by simp
  then show ?thesis unfolding exec_rop_def rewrite_rop_def rop.sel by (simp only:)
qed

definition copies_hold :: "(nat \<Rightarrow> nat option) \<Rightarrow> env \<Rightarrow> bool" where
  "copies_hold m e \<longleftrightarrow> (\<forall>d s. m d = Some s \<longrightarrow> e d = e s)"

lemma copies_hold_replace: "copies_hold m e \<Longrightarrow> e (replace_if_copied m l) = e l"
  by (auto simp: copies_hold_def replace_if_copied_def split: option.split)

lemma note_rop_cases:
  obtains "note_rop r m = m"
  | src dst where "r = ROp ActCopy [src] [dst]" "note_rop r m = m(dst \<mapsto> replace_if_copied m src)"
proof -
  have "note_rop r m = m \<or> (\<exists>src dst. r = ROp ActCopy [src] [dst] \<and> note_rop r m = m(dst \<mapsto> replace_if_copied m src))"
    by (auto simp: note_rop_def split: rop.split action.split list.split)
  then show thesis using that by blast
qed

lemma note_rop_other: "l \<notin> set (rop_outs r) \<Longrightarrow> note_rop r m l = m l"
  by (cases r m rule: note_rop_cases) auto

lemma fold_note_other: "l \<notin> \<Union> (set ` rop_outs ` set rs) \<Longrightarrow> fold note_rop rs m l = m l"
  by (induction rs arbitrary: m) (simp_all add: note_rop_other)

lemma note_rop_ran: "ran (note_rop r m) \<subseteq> ran m \<union> set (rop_ins r)"
proof (cases r m rule: note_rop_cases)
  case (2 src dst)
  then show ?thesis by (auto simp: ran_def replace_if_copied_def split: option.splits if_splits)
qed simp

lemma note_rop_dom: "dom (note_rop r m) \<subseteq> dom m \<union> set (rop_outs r)"
  by (cases r m rule: note_rop_cases) auto

lemma note_rop_holds:
  assumes run: "exec_rop callf sem r e w = Some (Fall e' w')" and h: "copies_hold m e"
    and m: "(dom m \<union> ran m \<union> set (rop_ins r)) \<inter> set (rop_outs r) = {}"
  shows "copies_hold (note_rop r m) e'"
proof -
  have old: "e' l = e l" if "l \<in> dom m \<union> ran m \<union> set (rop_ins r)" for l
    using exec_rop_other [OF run] that m by blast
  have keep: "e' d = e' s" if "m d = Some s" for d s
  proof -
    have "d \<in> dom m" "s \<in> ran m" using that by (auto intro: ranI)
    with old h that show ?thesis by (simp add: copies_hold_def)
  qed
  show ?thesis
  proof (cases r m rule: note_rop_cases)
    case 1
    with keep show ?thesis by (simp add: copies_hold_def)
  next
    case (2 src dst)
    from run 2(1) have e': "e' dst = e src" by (auto simp: exec_rop_def)
    have "replace_if_copied m src \<in> dom m \<union> ran m \<union> set (rop_ins r)"
      using 2(1) by (auto simp: replace_if_copied_def intro: ranI split: option.split)
    with old copies_hold_replace [OF h] have "e' (replace_if_copied m src) = e src" by simp
    with e' keep 2(2) show ?thesis by (auto simp: copies_hold_def)
  qed
qed

lemma copied_ops_run:
  assumes "ssa_ops rs" "copies_hold m e" "(dom m \<union> ran m) \<inter> \<Union> (set ` rop_outs ` set rs) = {}"
  shows "exec_rops callf sem (map (rewrite_rop (map (replace_if_copied (fold note_rop rs m)))) rs) e w =
      exec_rops callf sem rs e w \<and>
    (\<forall>e' w'. exec_rops callf sem rs e w = Some (Fall e' w') \<longrightarrow> copies_hold (fold note_rop rs m) e')"
  using assms
proof (induction rs arbitrary: m e w)
  case (Cons r rs)
  let ?M = "fold note_rop (r # rs) m"
  have same: "replace_if_copied ?M l = replace_if_copied m l" if "l \<in> set (rop_ins r)" for l
  proof -
    have "?M l = m l" using Cons.prems(1) that by (intro fold_note_other) auto
    then show ?thesis by (simp add: replace_if_copied_def)
  qed
  have r: "exec_rop callf sem (rewrite_rop (map (replace_if_copied ?M)) r) e w = exec_rop callf sem r e w"
    by (rule exec_rop_ins) (simp only: same copies_hold_replace [OF Cons.prems(2)])
  show ?case
  proof (cases "exec_rop callf sem r e w")
    case (Some out)
    show ?thesis
    proof (cases out)
      case (Fall e1 w1)
      have h: "copies_hold (note_rop r m) e1"
        by (rule note_rop_holds [OF Some [unfolded Fall] Cons.prems(2)]) (use Cons.prems in auto)
      let ?U = "\<Union> (set ` rop_outs ` set rs)"
      have "dom (note_rop r m) \<union> ran (note_rop r m) \<subseteq> (dom m \<union> ran m) \<union> (set (rop_outs r) \<union> set (rop_ins r))"
        using note_rop_dom [of r m] note_rop_ran [of r m] by blast
      moreover have "(set (rop_outs r) \<union> set (rop_ins r)) \<inter> ?U = {}" using Cons.prems(1) by auto
      moreover have "(dom m \<union> ran m) \<inter> ?U = {}" using Cons.prems(3) by auto
      ultimately have "(dom (note_rop r m) \<union> ran (note_rop r m)) \<inter> ?U = {}" by blast
      from Cons.IH [OF _ h this] Cons.prems(1) r Some Fall show ?thesis by simp
    qed (use r Some in simp)
  qed (use r in simp)
qed simp

lemma copy_rblock_agrees:
  assumes "block_ssa rb"
  shows "block_agrees sem (=) rb (copy_rblock rb)"
proof -
  let ?m = "fold note_rop (rb_ops rb) Map.empty"
  have c: "exec_control (copy_rblock rb) e w = exec_control rb e w" if h: "copies_hold ?m e" for e and w :: 'a
  proof -
    have "control_target (map_control (replace_if_copied ?m) ctl) e = control_target ctl e" for ctl
      by (cases ctl) (simp_all add: control_target_def copies_hold_replace [OF h])
    moreover have "map_control g ctl = CtlReturn \<longleftrightarrow> ctl = CtlReturn" for g ctl by (cases ctl) simp_all
    ultimately show ?thesis
      by (simp add: exec_control_def copy_rblock_def copies_hold_replace [OF h] comp_def Let_def)
  qed
  have "exec_block callf sem (copy_rblock rb) args e w = exec_block callf sem rb args e w" for callf args e and w :: 'a
  proof -
    let ?e = "assign (rb_ins rb) args e"
    have h0: "copies_hold Map.empty ?e" by (simp add: copies_hold_def)
    note run = copied_ops_run [OF block_ssa_ops [OF assms] h0, of callf sem w, simplified]
    show ?thesis
    proof (cases "exec_rops callf sem (rb_ops rb) ?e w")
      case (Some out)
      with run c show ?thesis
        by (cases out) (simp_all add: exec_block_def copy_rblock_def Let_def)
    qed (use run in \<open>simp add: exec_block_def copy_rblock_def Let_def\<close>)
  qed
  then show ?thesis by (simp add: block_agrees_def exit_agrees_eq)
qed

subsection \<open>The pass implements it\<close>

lemma note_resolved: "resolve_op ir i = Some r \<Longrightarrow> note_copy (ir_operations ir ! i) m = note_rop r m"
proof -
  assume "resolve_op ir i = Some r"
  then obtain a ins outs where a: "resolve_action (ir_large_consts ir) (ir_operations ir ! i) = Some a"
    and io: "data_inputs (opn_data (ir_operations ir ! i)) (ir_locals ir) = Some ins"
    "data_outputs (opn_data (ir_operations ir ! i)) (ir_locals ir) (ir_functions ir) = Some outs"
    and r: "r = ROp a ins outs"
    by (auto simp: resolve_op_def bind_eq_Some_conv slice_get_Some op_inputs_def op_outputs_def)
  show ?thesis
  proof (cases "opn_data (ir_operations ir ! i)")
    case (InlineOperands xs ys)
    with a io r show ?thesis
      by (auto simp: resolve_action_def note_copy_def note_rop_def replace_if_copied_def split: list.split)
  qed (use a r in \<open>auto simp: resolve_action_def note_copy_def note_rop_def\<close>)
qed

lemma fold_note_resolved:
  "map_opt (resolve_op ir) is = Some rs \<Longrightarrow> fold note_copy (map ((!) (ir_operations ir)) is) m = fold note_rop rs m"
  by (induction "is" arbitrary: rs m) (auto simp: bind_eq_Some_conv note_resolved)

lemma read_ops:
  "read_span xs s = Some ys \<Longrightarrow> ys = map ((!) xs) (span_indices s)"
  by (intro nth_equalityI) (auto simp: read_span_def slice_range_Some span_indices_def)

lemma resolve_copied_control:
  "resolve_control ir ctl = Some c \<Longrightarrow> resolve_control ir (copy_control m ctl) = Some (map_control (replace_if_copied m) c)"
  by (cases ctl) (auto simp: resolve_control_def copy_control_def bind_eq_Some_conv)

definition ops_readable :: "ir_program \<Rightarrow> nat set \<Rightarrow> bool" where
  "ops_readable ir B \<longleftrightarrow> (\<forall>b\<in>B. read_span (ir_operations ir) (bb_operations (ir_blocks ir ! b)) \<noteq> None)"

lemma same_slots_readable:
  assumes "same_slots ir ir'" "ops_in_range ir B" "ops_readable ir B"
  shows "ops_readable ir' B"
proof -
  have l: "length (ir_operations ir') = length (ir_operations ir)" using assms(1) by (simp add: same_slots_def)
  have "bb_operations (ir_blocks ir' ! b) = bb_operations (ir_blocks ir ! b)" if "b \<in> B" for b
    using assms(1,2) that by (simp add: same_slots_def ops_in_range_def)
  with assms(3) show ?thesis by (simp add: ops_readable_def read_span_def slice_range_def l split: if_splits)
qed

lemma copy_block_spec:
  assumes "separate ir B" "ops_in_range ir B" "ops_readable ir L" "b \<in> L" "resolve ir b = Some rb" and LB: "L \<subseteq> B"
  shows "\<exists>ir'. copy_block b ir = Some ir' \<and> same_slots ir ir' \<and> ops_readable ir' L \<and>
     resolve ir' b = Some (copy_rblock rb) \<and> (\<forall>c\<in>B. c \<noteq> b \<longrightarrow> resolve ir' c = resolve ir c)"
proof -
  let ?bb = "ir_blocks ir ! b"
  note rb = assms(5) [unfolded resolve_Some]
  from assms(3,4) obtain ops where ops: "read_span (ir_operations ir) (bb_operations ?bb) = Some ops"
    unfolding ops_readable_def by blast
  let ?m = "fold note_copy ops Map.empty"
  have m: "?m = fold note_rop (rb_ops rb) Map.empty"
    using fold_note_resolved [of ir _ "rb_ops rb"] rb read_ops [OF ops] by simp
  have ctl: "resolve_control ir (copy_control ?m (bb_control ?bb)) =
      Some (map_control (replace_if_copied ?m) (rb_ctl rb))"
    using resolve_copied_control rb by simp
  have bB: "b \<in> B" and rL: "ops_in_range ir L" using assms(2,4) LB by (auto simp: ops_in_range_def)
  from rewrite_block_spec [OF assms(1,2) bB _ assms(5), where f = "map (replace_if_copied ?m)"
      and g = "copy_control ?m" and ctl = "map_control (replace_if_copied ?m) (rb_ctl rb)"] ctl obtain ir' where
    ir': "rewrite_block (map (replace_if_copied ?m)) (copy_control ?m) b ir = Some ir'" "same_slots ir ir'"
    "resolve ir' b = Some \<lparr>rb_ins = rb_ins rb, rb_ops = map (rewrite_rop (map (replace_if_copied ?m))) (rb_ops rb),
       rb_outs = map (replace_if_copied ?m) (rb_outs rb), rb_ctl = map_control (replace_if_copied ?m) (rb_ctl rb)\<rparr>"
    "\<forall>c\<in>B. c \<noteq> b \<longrightarrow> resolve ir' c = resolve ir c" by auto
  then have "copy_block b ir = Some ir'" using rb ops by (simp add: copy_block_def)
  with ir' m same_slots_readable [OF ir'(2) rL assms(3)] show ?thesis
    by (auto simp: copy_rblock_def Let_def)
qed

lemma copy_rblock_callees: "rb_callees (copy_rblock rb) = rb_callees rb"
  by (simp add: rb_callees_def copy_rblock_def Let_def rewrite_rop_def rop_callees_def image_image)

subsection \<open>Properties\<close>



end
