(* ===== verification/Def_Use.thy ===== *)
theory Def_Use
  imports Operand_Edits
begin

text \<open>
  Where locals are used (\<open>plankc/sir/crates/passes/src/analyses/def_use.rs\<close>): one list of use locations
  for each local, filled block by block in reverse post order. When every local of a live block is
  numbered below the next free one, the analysis does not panic and the lists are exact.
\<close>

subsection \<open>Uses of locals\<close>

type_synonym use_location = "nat \<times> use_kind"
type_synonym def_use = "use_location list list"

definition push_use :: "nat \<Rightarrow> use_location \<Rightarrow> def_use \<Rightarrow> def_use option" where
  "push_use l u uses = do {
     us \<leftarrow> slice_get uses l;
     slice_set uses l (us @ [u])
   }"

definition op_uses :: "nat \<Rightarrow> ir_program \<Rightarrow> nat \<Rightarrow> def_use \<Rightarrow> def_use option" where
  "op_uses b ir i uses = do {
     ins \<leftarrow> ov_inputs ir i;
     fold_opt (\<lambda>l. push_use l (b, UseOperation i)) ins uses
   }"

definition control_use :: "nat \<Rightarrow> control_view \<Rightarrow> def_use \<Rightarrow> def_use option" where
  "control_use b ctl uses =
     (case ctl of
        BranchesView c _ _ \<Rightarrow> push_use c (b, UseControl) uses
      | SwitchView sw \<Rightarrow> push_use (sv_condition sw) (b, UseControl) uses
      | _ \<Rightarrow> Some uses)"

text \<open>The position of a block output is cast to \<open>u32\<close>.\<close>

definition block_uses :: "ir_program \<Rightarrow> nat \<Rightarrow> def_use \<Rightarrow> def_use option" where
  "block_uses ir b uses = do {
     ops \<leftarrow> bv_operations ir b;
     uses \<leftarrow> fold_opt (op_uses b ir) ops uses;
     ctl \<leftarrow> bv_control ir b;
     uses \<leftarrow> control_use b ctl uses;
     outs \<leftarrow> bv_outputs ir b;
     fold_opt (\<lambda>(idx, l). push_use l (b, UseBlockOutput (idx mod 2 ^ 32))) (zip [0..<length outs] outs) uses
   }"

definition def_use_compute :: "ir_program \<Rightarrow> rpo_state \<Rightarrow> def_use \<Rightarrow> def_use option" where
  "def_use_compute ir rpo old = do {
     let uses = map (\<lambda>_. []) old;
     let uses = vec_resize (ir_next_free_local ir) [] uses;
     bs \<leftarrow> rp_blocks_rpo rpo;
     fold_opt (block_uses ir) bs uses
   }"

definition uses_of :: "def_use \<Rightarrow> nat \<Rightarrow> use_location list option" where
  "uses_of uses l = slice_get uses l"

definition retain_uses :: "nat \<Rightarrow> (use_location \<Rightarrow> bool) \<Rightarrow> def_use \<Rightarrow> def_use option" where
  "retain_uses l f uses = do {
     us \<leftarrow> slice_get uses l;
     slice_set uses l (filter f us)
   }"

subsection \<open>The table of uses is exact\<close>

definition live_ops :: "ir_program \<Rightarrow> nat set \<Rightarrow> nat set" where
  "live_ops ir L = \<Union> ((\<lambda>b. set (ops_of ir b)) ` L)"

text \<open>The uses of a local in the blocks \<open>L\<close>, but for those by the operations \<open>D\<close>.\<close>

definition uses_in :: "ir_program \<Rightarrow> nat set \<Rightarrow> nat set \<Rightarrow> nat \<Rightarrow> use_location set" where
  "uses_in ir L D l =
     {(b, UseOperation i) | b i. b \<in> L \<and> i \<in> set (ops_of ir b) - D \<and> l \<in> set (ins_of ir i)} \<union>
     {(b, UseControl) | b. b \<in> L \<and> l \<in> control_uses (bb_control (ir_blocks ir ! b))} \<union>
     {(b, UseBlockOutput (k mod 2 ^ 32)) | b k. b \<in> L \<and> k < length (block_outs ir b) \<and> block_outs ir b ! k = l}"

definition grows_by :: "(nat \<Rightarrow> use_location \<Rightarrow> bool) \<Rightarrow> def_use \<Rightarrow> def_use \<Rightarrow> bool" where
  "grows_by P uses uses' \<longleftrightarrow> length uses' = length uses \<and>
     (\<forall>l<length uses. set (uses' ! l) = set (uses ! l) \<union> {u. P l u})"

lemma grows_by_trans:
  "grows_by P a b \<Longrightarrow> grows_by Q b c \<Longrightarrow> grows_by (\<lambda>l u. P l u \<or> Q l u) a c"
  by (auto simp: grows_by_def)

lemma grows_by_cong: "grows_by P a b \<Longrightarrow> (\<And>l u. P l u \<longleftrightarrow> Q l u) \<Longrightarrow> grows_by Q a b"
  by (simp add: grows_by_def)

lemma grows_by_none: "grows_by (\<lambda>_ _. False) a a"
  by (simp add: grows_by_def)

lemma push_use_grows:
  "l < length uses \<Longrightarrow> \<exists>uses'. push_use l u uses = Some uses' \<and> grows_by (\<lambda>m v. m = l \<and> v = u) uses uses'"
  by (auto simp: push_use_def grows_by_def nth_list_update)

lemma fold_grows:
  assumes "\<And>x u. x \<in> set xs \<Longrightarrow> length u = length uses \<Longrightarrow> \<exists>u'. h x u = Some u' \<and> grows_by (P x) u u'"
  shows "\<exists>uses'. fold_opt h xs uses = Some uses' \<and> grows_by (\<lambda>l u. \<exists>x\<in>set xs. P x l u) uses uses'"
  using assms
proof (induction xs arbitrary: uses)
  case Nil
  show ?case using grows_by_none [of uses] by simp
next
  case (Cons x xs)
  obtain u1 where 1: "h x uses = Some u1" "grows_by (P x) uses u1" using Cons.prems [of x uses] by auto
  then have l: "length u1 = length uses" by (simp add: grows_by_def)
  obtain u2 where 2: "fold_opt h xs u1 = Some u2" "grows_by (\<lambda>l u. \<exists>x\<in>set xs. P x l u) u1 u2"
    using Cons.IH [of u1] Cons.prems l by auto
  from grows_by_cong [OF grows_by_trans [OF 1(2) 2(2)], of "\<lambda>l u. \<exists>y\<in>set (x # xs). P y l u"] 1 2 show ?case by auto
qed

text \<open>All locals of live blocks are numbered below \<open>next_free_local_id\<close>.\<close>

definition rblock_locals :: "rblock \<Rightarrow> nat set" where
  "rblock_locals rb = set (rb_defs rb) \<union> \<Union> (set ` rop_ins ` set (rb_ops rb)) \<union> set (rb_outs rb) \<union> rctl_uses (rb_ctl rb)"

definition locals_bounded :: "ir_program \<Rightarrow> nat set \<Rightarrow> bool" where
  "locals_bounded ir L \<longleftrightarrow> (\<forall>b\<in>L. \<exists>rb. resolve ir b = Some rb \<and> rblock_locals rb \<subseteq> {..<ir_next_free_local ir})"

lemma resolve_control_uses: "resolve_control ir ctl = Some c \<Longrightarrow> rctl_uses c = control_uses ctl"
  by (cases ctl) (auto simp: resolve_control_def control_uses_def bind_eq_Some_conv)

lemma control_use_grows:
  assumes "resolve_control ir ctl = Some c" "rctl_uses c \<subseteq> {..<length uses}"
  shows "\<exists>v uses'. cv_from_control ctl ir = Some v \<and> control_use b v uses = Some uses' \<and>
     grows_by (\<lambda>l u. u = (b, UseControl) \<and> l \<in> control_uses ctl) uses uses'"
proof -
  have none: "grows_by (\<lambda>l u. u = (b, UseControl) \<and> l \<in> {}) uses uses" by (simp add: grows_by_def)
  show ?thesis
  proof (cases ctl)
    case (Branches br)
    with assms have "br_condition br < length uses" by (auto simp: resolve_control_def)
    from push_use_grows [OF this, of "(b, UseControl)"] Branches show ?thesis
      by (auto simp: cv_from_control_def control_use_def control_uses_def elim!: grows_by_cong)
  next
    case (Switches sw)
    with assms have "sw_condition sw < length uses" by (auto simp: resolve_control_def bind_eq_Some_conv)
    from push_use_grows [OF this, of "(b, UseControl)"] Switches assms(1) show ?thesis
      by (auto simp: cv_from_control_def control_use_def control_uses_def resolve_control_def bind_eq_Some_conv
          elim!: grows_by_cong)
  qed (use none in \<open>auto simp: cv_from_control_def control_use_def control_uses_def\<close>)
qed

lemma block_uses_grow:
  assumes rb: "resolve ir b = Some rb" and bound: "rblock_locals rb \<subseteq> {..<length uses}"
  shows "\<exists>uses'. block_uses ir b uses = Some uses' \<and> grows_by (\<lambda>l u. u \<in> uses_in ir {b} {} l) uses uses'"
proof -
  note d = resolve_defs [OF rb] and r = rb [unfolded resolve_Some]
  let ?bb = "ir_blocks ir ! b"
  have ins: "\<exists>r. resolve_op ir i = Some r \<and> set (rop_ins r) \<subseteq> {..<length uses} \<and> ov_inputs ir i = Some (ins_of ir i) \<and>
      ins_of ir i = rop_ins r" if i: "i \<in> set (ops_of ir b)" for i
  proof -
    from i obtain k where k: "k < length (rb_ops rb)" "i = ops_of ir b ! k" using d(2) by (auto simp: in_set_conv_nth)
    have "rb_ops rb ! k \<in> set (rb_ops rb)" using k(1) by simp
    then have "set (rop_ins (rb_ops rb ! k)) \<subseteq> {..<length uses}" using bound by (auto simp: rblock_locals_def)
    moreover from d(3) [OF k(1)] k(2) have "resolve_op ir i = Some (rb_ops rb ! k)" by simp
    moreover from this have "ov_inputs ir i = Some (ins_of ir i)"
      by (auto simp: resolve_op_def ov_inputs_def ins_of_def bind_eq_Some_conv)
    ultimately show ?thesis using resolve_op_operands(1) by blast
  qed
  have op: "\<exists>u'. op_uses b ir i u = Some u' \<and> grows_by (\<lambda>l v. v = (b, UseOperation i) \<and> l \<in> set (ins_of ir i)) u u'"
    if i: "i \<in> set (ops_of ir b)" and l: "length u = length uses" for i u
  proof -
    from ins [OF i] have ov: "ov_inputs ir i = Some (ins_of ir i)" and le: "\<forall>x\<in>set (ins_of ir i). x < length u"
      using l by auto
    have "\<exists>u'. fold_opt (\<lambda>l. push_use l (b, UseOperation i)) (ins_of ir i) u = Some u' \<and>
        grows_by (\<lambda>l v. \<exists>x\<in>set (ins_of ir i). l = x \<and> v = (b, UseOperation i)) u u'"
      by (rule fold_grows) (use le push_use_grows in force)
    with ov show ?thesis by (auto simp: op_uses_def elim!: grows_by_cong)
  qed
  obtain u1 where 1: "fold_opt (op_uses b ir) (ops_of ir b) uses = Some u1"
    "grows_by (\<lambda>l v. \<exists>i\<in>set (ops_of ir b). v = (b, UseOperation i) \<and> l \<in> set (ins_of ir i)) uses u1"
    using fold_grows [of "ops_of ir b" uses "op_uses b ir", OF op] by blast
  then have l1: "length u1 = length uses" by (simp add: grows_by_def)
  have "rctl_uses (rb_ctl rb) \<subseteq> {..<length u1}" using bound l1 by (auto simp: rblock_locals_def)
  then obtain v u2 where 2: "cv_from_control (bb_control ?bb) ir = Some v" "control_use b v u1 = Some u2"
    "grows_by (\<lambda>l u. u = (b, UseControl) \<and> l \<in> control_uses (bb_control ?bb)) u1 u2"
    using control_use_grows [of ir "bb_control ?bb" "rb_ctl rb" u1 b] r by blast
  then have l2: "length u2 = length uses" by (simp add: grows_by_def l1)
  let ?zs = "zip [0..<length (rb_outs rb)] (rb_outs rb)"
  have zs: "set ?zs = {(k, rb_outs rb ! k) | k. k < length (rb_outs rb)}" by (force simp: set_zip)
  have outs: "\<forall>k<length (rb_outs rb). rb_outs rb ! k < length u2"
    using bound l2 by (auto simp: rblock_locals_def dest: nth_mem)
  have "\<exists>u3. fold_opt (\<lambda>(idx, l). push_use l (b, UseBlockOutput (idx mod 2 ^ 32))) ?zs u2 = Some u3 \<and>
      grows_by (\<lambda>l u. \<exists>x\<in>set ?zs. l = snd x \<and> u = (b, UseBlockOutput (fst x mod 2 ^ 32))) u2 u3"
    by (rule fold_grows) (use outs zs push_use_grows in force)
  then obtain u3 where 3: "fold_opt (\<lambda>(idx, l). push_use l (b, UseBlockOutput (idx mod 2 ^ 32))) ?zs u2 = Some u3"
    "grows_by (\<lambda>l u. \<exists>x\<in>set ?zs. l = snd x \<and> u = (b, UseBlockOutput (fst x mod 2 ^ 32))) u2 u3" by blast
  have "block_uses ir b uses = Some u3"
    using r 1(1) 2(1,2) 3(1) by (simp add: block_uses_def bv_operations_def bv_control_def bv_outputs_def ops_of_def)
  moreover have "grows_by (\<lambda>l u. u \<in> uses_in ir {b} {} l) uses u3"
    by (rule grows_by_cong [OF grows_by_trans [OF 1(2) grows_by_trans [OF 2(3) 3(2)]]])
      (auto simp: uses_in_def zs d(6))
  ultimately show ?thesis by blast
qed

lemma uses_in_blocks: "u \<in> uses_in ir L D l \<longleftrightarrow> (\<exists>b\<in>L. u \<in> uses_in ir {b} D l)"
  by (auto simp: uses_in_def)

lemma def_use_exact:
  assumes bs: "rp_blocks_rpo rpo = Some bs" and bound: "locals_bounded ir (set bs)"
  shows "\<exists>uses. def_use_compute ir rpo [] = Some uses \<and> length uses = ir_next_free_local ir \<and>
     (\<forall>l<ir_next_free_local ir. set (uses ! l) = uses_in ir (set bs) {} l)"
proof -
  let ?n = "ir_next_free_local ir"
  have "\<exists>uses. fold_opt (block_uses ir) bs (replicate ?n []) = Some uses \<and>
      grows_by (\<lambda>l u. \<exists>b\<in>set bs. u \<in> uses_in ir {b} {} l) (replicate ?n []) uses"
  proof (rule fold_grows)
    fix b and u :: def_use assume "b \<in> set bs" "length u = length (replicate ?n ([] :: use_location list))"
    with bound show "\<exists>u'. block_uses ir b u = Some u' \<and> grows_by (\<lambda>l v. v \<in> uses_in ir {b} {} l) u u'"
      using block_uses_grow [of ir b _ u] unfolding locals_bounded_def by (metis length_replicate)
  qed
  then obtain uses where "fold_opt (block_uses ir) bs (replicate ?n []) = Some uses"
    "grows_by (\<lambda>l u. u \<in> uses_in ir (set bs) {} l) (replicate ?n []) uses"
    unfolding uses_in_blocks [symmetric] by blast
  then show ?thesis using bs by (auto simp: def_use_compute_def vec_resize_def grows_by_def)
qed

end
