(* ===== verification/Unused_Ops.thy ===== *)
theory Unused_Ops
  imports Def_Use
begin

text \<open>
  The elimination of operations whose results are not used
  (\<open>plankc/sir/crates/passes/src/optimizations/unused_operation_elimination.rs\<close>): a work list of
  operations to remove; removing one drops the uses it makes, which may free the operations that
  define its inputs.
\<close>

subsection \<open>The pass\<close>

text \<open>\<open>Iterator::all\<close> with a closure that may panic.\<close>

fun all_opt :: "('a \<Rightarrow> bool option) \<Rightarrow> 'a list \<Rightarrow> bool option" where
  "all_opt f [] = Some True"
| "all_opt f (x # xs) = do { ok \<leftarrow> f x; if ok then all_opt f xs else Some False }"

definition is_removable :: "operation \<Rightarrow> ir_program \<Rightarrow> def_use \<Rightarrow> bool option" where
  "is_removable op ir uses =
     (if is_removable_when_unused (opn_kind op) then do {
        outs \<leftarrow> op_outputs op ir;
        all_opt (\<lambda>out. map_option (\<lambda>us. us = []) (uses_of uses out)) outs
      } else Some False)"

definition is_noop :: "operation \<Rightarrow> bool" where
  "is_noop op \<longleftrightarrow> opn_kind op = OpNoop"

text \<open>The first sweep notes where locals are defined and what can be removed at once.\<close>

type_synonym def_sites = "nat option list"

definition scan_op :: "ir_program \<Rightarrow> def_use \<Rightarrow> nat \<Rightarrow> def_sites \<times> nat list \<Rightarrow> (def_sites \<times> nat list) option" where
  "scan_op ir uses i = (\<lambda>(sites, pending). do {
     op \<leftarrow> slice_get (ir_operations ir) i;
     outs \<leftarrow> op_outputs op ir;
     sites \<leftarrow> fold_opt (\<lambda>out sites. slice_set sites out (Some i)) outs sites;
     removable \<leftarrow> is_removable op ir uses;
     Some (sites, if removable then pending @ [i] else pending)
   })"

definition scan_blocks :: "ir_program \<Rightarrow> def_use \<Rightarrow> nat list \<Rightarrow> (def_sites \<times> nat list) option" where
  "scan_blocks ir uses bs =
     fold_opt (\<lambda>b s. do {
         ops \<leftarrow> bv_operations ir b;
         fold_opt (scan_op ir uses) ops s
       }) bs (replicate (ir_next_free_local ir) None, [])"

text \<open>Removing operation \<open>i\<close>: its uses are dropped, and definitions that became unused are queued.\<close>

definition release_input ::
    "ir_program \<Rightarrow> nat \<Rightarrow> def_sites \<Rightarrow> nat \<Rightarrow> def_use \<times> nat list \<Rightarrow> (def_use \<times> nat list) option" where
  "release_input ir i sites input = (\<lambda>(uses, pending). do {
     uses \<leftarrow> retain_uses input (\<lambda>u. snd u \<noteq> UseOperation i) uses;
     site \<leftarrow> slice_get sites input;
     (case site of
        None \<Rightarrow> Some (uses, pending)
      | Some def_idx \<Rightarrow> do {
          defining_op \<leftarrow> slice_get (ir_operations ir) def_idx;
          if is_noop defining_op then Some (uses, pending)
          else do {
            removable \<leftarrow> is_removable defining_op ir uses;
            Some (uses, if removable then pending @ [def_idx] else pending)
          }
        })
   })"

record removal_state =
  rm_ir :: ir_program
  rm_uses :: def_use
  rm_sites :: def_sites
  rm_pending :: "nat list"

definition remove_op :: "nat \<Rightarrow> removal_state \<Rightarrow> removal_state option" where
  "remove_op i s = do {
     op \<leftarrow> slice_get (ir_operations (rm_ir s)) i;
     if is_noop op then Some s
     else do {
       ins \<leftarrow> op_inputs op (rm_ir s);
       (uses, pending) \<leftarrow> fold_opt (release_input (rm_ir s) i (rm_sites s)) ins (rm_uses s, rm_pending s);
       outs \<leftarrow> op_outputs op (rm_ir s);
       sites \<leftarrow> fold_opt (\<lambda>out sites. slice_set sites out None) outs (rm_sites s);
       operations \<leftarrow> slice_set (ir_operations (rm_ir s)) i (Operation OpNoop UnitData);
       Some \<lparr>rm_ir = (rm_ir s)\<lparr>ir_operations := operations\<rparr>, rm_uses = uses, rm_sites = sites, rm_pending = pending\<rparr>
     }
   }"

lemma remove_op_progress:
  assumes "remove_op i s = Some s'"
  shows "s' = s \<or> length (filter (\<lambda>op. \<not> is_noop op) (ir_operations (rm_ir s'))) <
     length (filter (\<lambda>op. \<not> is_noop op) (ir_operations (rm_ir s)))"
proof -
  have "length (filter (\<lambda>op. \<not> is_noop op) (xs[i := Operation OpNoop UnitData])) < length (filter (\<lambda>op. \<not> is_noop op) xs)"
    if "i < length xs" "\<not> is_noop (xs ! i)" for xs
    using that
  proof (induction xs arbitrary: i)
    case (Cons x xs)
    then show ?case by (cases i) (auto simp: is_noop_def)
  qed simp
  then show ?thesis
    using assms by (auto simp: remove_op_def bind_eq_Some_conv slice_get_Some slice_set_Some split: if_splits)
qed

text \<open>The loop pops from the end; every round removes an operation or shortens the list.\<close>

function removal_loop :: "removal_state \<Rightarrow> removal_state option" where
  "removal_loop s =
     (if rm_pending s = [] then Some s
      else do {
        s' \<leftarrow> remove_op (last (rm_pending s)) (s\<lparr>rm_pending := butlast (rm_pending s)\<rparr>);
        removal_loop s'
      })"
  by auto
termination
proof (relation "measures [\<lambda>s. length (filter (\<lambda>op. \<not> is_noop op) (ir_operations (rm_ir s))), \<lambda>s. length (rm_pending s)]",
    goal_cases)
  case (2 s s')
  from remove_op_progress [OF 2(2)] 2(1) show ?case by auto
qed simp

declare removal_loop.simps [simp del]

definition unused_operation_elimination :: "ir_program \<Rightarrow> ir_program option" where
  "unused_operation_elimination ir = do {
     rpo \<leftarrow> rpo_compute ir;
     uses \<leftarrow> def_use_compute ir rpo [];
     bs \<leftarrow> rp_blocks_rpo rpo;
     (sites, pending) \<leftarrow> scan_blocks ir uses bs;
     s \<leftarrow> removal_loop \<lparr>rm_ir = ir, rm_uses = uses, rm_sites = sites, rm_pending = pending\<rparr>;
     Some (rm_ir s)
   }"

subsection \<open>The removals\<close>

text \<open>The program with the operations \<open>D\<close> removed.\<close>

definition removed :: "ir_program \<Rightarrow> nat set \<Rightarrow> ir_program" where
  "removed ir D = ir\<lparr>ir_operations := map (\<lambda>j. if j \<in> D then Operation OpNoop UnitData else ir_operations ir ! j)
     [0..<length (ir_operations ir)]\<rparr>"

lemma removed_empty: "removed ir {} = ir"
  by (simp add: removed_def map_nth)

lemma removed_ops:
  "j < length (ir_operations ir) \<Longrightarrow> slice_get (ir_operations (removed ir D)) j =
     Some (if j \<in> D then Operation OpNoop UnitData else ir_operations ir ! j)"
  by (simp add: removed_def)

lemma removed_operands [simp]:
  "op_inputs op (removed ir D) = op_inputs op ir" "op_outputs op (removed ir D) = op_outputs op ir"
  by (simp_all add: removed_def op_inputs_def op_outputs_def)

lemma removed_insert:
  assumes "i < length (ir_operations ir)"
  shows "(removed ir D)\<lparr>ir_operations := (ir_operations (removed ir D))[i := Operation OpNoop UnitData]\<rparr> =
    removed ir (insert i D)"
proof -
  have "(ir_operations (removed ir D))[i := Operation OpNoop UnitData] = ir_operations (removed ir (insert i D))"
    using assms by (intro nth_equalityI) (auto simp: removed_def nth_list_update)
  then show ?thesis by (simp add: removed_def)
qed

definition removal_setting :: "ir_program \<Rightarrow> nat set \<Rightarrow> bool" where
  "removal_setting ir L \<longleftrightarrow> (\<forall>j\<in>live_ops ir L. j < length (ir_operations ir) \<and>
     op_inputs (ir_operations ir ! j) ir = Some (ins_of ir j) \<and> op_outputs (ir_operations ir ! j) ir = Some (outs_of ir j) \<and>
     set (ins_of ir j) \<subseteq> {..<ir_next_free_local ir} \<and> set (outs_of ir j) \<subseteq> {..<ir_next_free_local ir} \<and>
     (\<forall>k\<in>live_ops ir L. j \<noteq> k \<longrightarrow> set (outs_of ir j) \<inter> set (outs_of ir k) = {}))"

definition op_free :: "ir_program \<Rightarrow> def_use \<Rightarrow> nat \<Rightarrow> bool" where
  "op_free ir uses j \<longleftrightarrow> is_removable_when_unused (opn_kind (ir_operations ir ! j)) \<and>
     (\<forall>l\<in>set (outs_of ir j). uses ! l = [])"

lemma all_opt_Some: "(\<And>x. x \<in> set xs \<Longrightarrow> f x = Some (P x)) \<Longrightarrow> all_opt f xs = Some (\<forall>x\<in>set xs. P x)"
  by (induction xs) auto

lemma is_removable_free:
  assumes "removal_setting ir L" "j \<in> live_ops ir L" "length uses = ir_next_free_local ir"
  shows "is_removable (ir_operations ir ! j) (removed ir D) uses = Some (op_free ir uses j)"
proof -
  from assms have o: "op_outputs (ir_operations ir ! j) ir = Some (outs_of ir j)"
    "set (outs_of ir j) \<subseteq> {..<length uses}" by (auto simp: removal_setting_def)
  have "all_opt (\<lambda>out. map_option (\<lambda>us. us = []) (uses_of uses out)) (outs_of ir j) =
      Some (\<forall>l\<in>set (outs_of ir j). uses ! l = [])"
    by (rule all_opt_Some) (use o(2) in \<open>auto simp: uses_of_def\<close>)
  with o(1) show ?thesis by (simp add: is_removable_def op_free_def)
qed

definition released :: "def_use \<Rightarrow> nat \<Rightarrow> nat set \<Rightarrow> def_use" where
  "released uses i P = map (\<lambda>l. if l \<in> P then filter (\<lambda>u. snd u \<noteq> UseOperation i) (uses ! l) else uses ! l)
     [0..<length uses]"

lemma released_length [simp]: "length (released uses i P) = length uses"
  by (simp add: released_def)

lemma released_nth: "l < length uses \<Longrightarrow> released uses i P ! l =
    (if l \<in> P then filter (\<lambda>u. snd u \<noteq> UseOperation i) (uses ! l) else uses ! l)"
  by (simp add: released_def)

lemma released_empty: "released uses i {} = uses"
  by (simp add: released_def map_nth)

lemma retain_released:
  assumes "l < length uses"
  shows "retain_uses l (\<lambda>u. snd u \<noteq> UseOperation i) (released uses i P) = Some (released uses i (insert l P))"
proof -
  have "(released uses i P)[l := filter (\<lambda>u. snd u \<noteq> UseOperation i) (released uses i P ! l)] = released uses i (insert l P)"
    using assms by (intro nth_equalityI) (auto simp: nth_list_update released_nth)
  then show ?thesis using assms by (simp add: retain_uses_def)
qed

text \<open>What the work list holds: free operations, and all that are not yet removed but for \<open>i\<close>.\<close>

definition worklist_ok :: "ir_program \<Rightarrow> nat set \<Rightarrow> nat set \<Rightarrow> nat set \<Rightarrow> def_use \<Rightarrow> nat list \<Rightarrow> bool" where
  "worklist_ok ir L D E uses pending \<longleftrightarrow>
     (\<forall>j\<in>set pending. j \<in> live_ops ir L \<and> op_free ir uses j) \<and>
     (\<forall>j\<in>live_ops ir L - D - E. \<not> is_noop (ir_operations ir ! j) \<longrightarrow> op_free ir uses j \<longrightarrow> j \<in> set pending)"

definition sites_ok :: "ir_program \<Rightarrow> nat set \<Rightarrow> nat set \<Rightarrow> def_sites \<Rightarrow> bool" where
  "sites_ok ir L D sites \<longleftrightarrow> length sites = ir_next_free_local ir \<and>
     (\<forall>l<ir_next_free_local ir. \<forall>j. sites ! l = Some j \<longrightarrow> j \<in> live_ops ir L) \<and>
     (\<forall>j\<in>live_ops ir L - D. \<forall>l\<in>set (outs_of ir j). sites ! l = Some j)"

lemma release_one:
  assumes set': "removal_setting ir L" and sites: "sites_ok ir L D sites" and len: "length uses = ir_next_free_local ir"
    and l: "l < ir_next_free_local ir" and w: "worklist_ok ir L D {i} (released uses i P) pending"
  shows "\<exists>pending'. release_input (removed ir D) i sites l (released uses i P, pending) =
      Some (released uses i (insert l P), pending') \<and>
    worklist_ok ir L D {i} (released uses i (insert l P)) pending'"
proof -
  let ?u = "released uses i P" and ?v = "released uses i (insert l P)"
  have ret: "retain_uses l (\<lambda>u. snd u \<noteq> UseOperation i) ?u = Some ?v"
    using retain_released l len by simp
  have bnd: "m < length uses" if "j \<in> live_ops ir L" "m \<in> set (outs_of ir j)" for j m
    using set' that len by (auto simp: removal_setting_def)
  have mono: "op_free ir ?v j" if "op_free ir ?u j" "j \<in> live_ops ir L" for j
    using that bnd by (auto simp: op_free_def released_nth split: if_splits)
  have new: "l \<in> set (outs_of ir j)" if "op_free ir ?v j" "\<not> op_free ir ?u j" "j \<in> live_ops ir L" for j
    using that bnd by (auto simp: op_free_def released_nth split: if_splits)
  have site: "sites ! l = Some j" if "j \<in> live_ops ir L - D" "l \<in> set (outs_of ir j)" for j
    using sites that unfolding sites_ok_def by blast
  have old: "\<forall>j\<in>set pending. j \<in> live_ops ir L \<and> op_free ir ?u j"
    and todo: "\<forall>j\<in>live_ops ir L - D - {i}. \<not> is_noop (ir_operations ir ! j) \<longrightarrow> op_free ir ?u j \<longrightarrow> j \<in> set pending"
    by (rule w [unfolded worklist_ok_def, THEN conjunct1], rule w [unfolded worklist_ok_def, THEN conjunct2])
  have kept: "worklist_ok ir L D {i} ?v (pending @ js)"
    if js: "\<forall>j\<in>set js. j \<in> live_ops ir L \<and> op_free ir ?v j"
      and all: "\<And>j. j \<in> live_ops ir L - D \<Longrightarrow> \<not> is_noop (ir_operations ir ! j) \<Longrightarrow> op_free ir ?v j \<Longrightarrow>
         sites ! l = Some j \<Longrightarrow> j \<in> set js" for js
    unfolding worklist_ok_def
  proof (intro conjI ballI impI)
    fix j assume "j \<in> set (pending @ js)"
    then consider "j \<in> set pending" | "j \<in> set js" by auto
    then have "j \<in> live_ops ir L \<and> op_free ir ?v j"
    proof cases
      case 1
      with old mono show ?thesis by blast
    next
      case 2
      with js show ?thesis by blast
    qed
    then show "j \<in> live_ops ir L" "op_free ir ?v j" by simp_all
  next
    fix j assume j: "j \<in> live_ops ir L - D - {i}" "\<not> is_noop (ir_operations ir ! j)" "op_free ir ?v j"
    show "j \<in> set (pending @ js)"
    proof (cases "op_free ir ?u j")
      case True
      with todo j(1,2) show ?thesis by simp
    next
      case False
      from j(1) have jl: "j \<in> live_ops ir L" "j \<in> live_ops ir L - D" by simp_all
      from all [OF jl(2) j(2,3) site [OF jl(2) new [OF j(3) False jl(1)]]] show ?thesis by simp
    qed
  qed
  have sl: "l < length sites" using sites l unfolding sites_ok_def by simp
  have sites_live: "\<forall>l<ir_next_free_local ir. \<forall>j. sites ! l = Some j \<longrightarrow> j \<in> live_ops ir L"
    using sites unfolding sites_ok_def by blast
  show ?thesis
  proof (cases "sites ! l")
    case None
    have "worklist_ok ir L D {i} ?v (pending @ [])" by (rule kept) (use None in auto)
    moreover have "release_input (removed ir D) i sites l (?u, pending) = Some (?v, pending)"
      using ret sl None by (simp add: release_input_def)
    ultimately show ?thesis by auto
  next
    case (Some d)
    have d: "d \<in> live_ops ir L" by (rule sites_live [rule_format, OF l Some])
    then have dl: "d < length (ir_operations ir)" using set' unfolding removal_setting_def by blast
    show ?thesis
    proof (cases "d \<in> D \<or> is_noop (ir_operations ir ! d)")
      case True
      have "worklist_ok ir L D {i} ?v (pending @ [])" by (rule kept) (use True Some in auto)
      moreover have "is_noop (if d \<in> D then Operation OpNoop UnitData else ir_operations ir ! d)"
        using True by (auto simp: is_noop_def)
      then have "release_input (removed ir D) i sites l (?u, pending) = Some (?v, pending)"
        using ret sl Some by (simp add: release_input_def removed_ops [OF dl])
      ultimately show ?thesis by auto
    next
      case False
      let ?js = "if op_free ir ?v d then [d] else []"
      have w': "worklist_ok ir L D {i} ?v (pending @ ?js)"
        by (rule kept) (use d Some in auto)
      have rm: "is_removable (ir_operations ir ! d) (removed ir D) ?v = Some (op_free ir ?v d)"
        using is_removable_free [OF set' d, of ?v D] len by simp
      have "release_input (removed ir D) i sites l (?u, pending) = Some (?v, pending @ ?js)"
        using ret sl Some False by (simp add: release_input_def removed_ops [OF dl] rm)
      with w' show ?thesis by blast
    qed
  qed
qed

lemma release_all:
  assumes "removal_setting ir L" "sites_ok ir L D sites" "length uses = ir_next_free_local ir"
  shows "set xs \<subseteq> {..<ir_next_free_local ir} \<Longrightarrow> worklist_ok ir L D {i} (released uses i P) pending \<Longrightarrow>
    \<exists>pending'. fold_opt (release_input (removed ir D) i sites) xs (released uses i P, pending) =
      Some (released uses i (P \<union> set xs), pending') \<and>
    worklist_ok ir L D {i} (released uses i (P \<union> set xs)) pending'"
proof (induction xs arbitrary: P pending)
  case (Cons l xs)
  from Cons.prems(1) have "l < ir_next_free_local ir" by simp
  from release_one [OF assms this Cons.prems(2)] obtain p1 where
    1: "release_input (removed ir D) i sites l (released uses i P, pending) = Some (released uses i (insert l P), p1)"
    "worklist_ok ir L D {i} (released uses i (insert l P)) p1" by blast
  from Cons.IH [OF _ 1(2)] Cons.prems(1) 1(1) show ?case by auto
qed simp

definition removal_inv :: "ir_program \<Rightarrow> nat set \<Rightarrow> nat set \<Rightarrow> removal_state \<Rightarrow> bool" where
  "removal_inv ir L D s \<longleftrightarrow> rm_ir s = removed ir D \<and> D \<subseteq> live_ops ir L \<and>
     (\<forall>j\<in>D. \<not> is_noop (ir_operations ir ! j) \<and> op_free ir (rm_uses s) j) \<and>
     length (rm_uses s) = ir_next_free_local ir \<and>
     (\<forall>l<ir_next_free_local ir. set (rm_uses s ! l) = uses_in ir L D l) \<and>
     sites_ok ir L D (rm_sites s) \<and> worklist_ok ir L D {} (rm_uses s) (rm_pending s)"

lemma removed_op_at: "j < length (ir_operations ir) \<Longrightarrow>
    slice_get (ir_operations (removed ir D)) j = Some op \<Longrightarrow> is_noop op \<longleftrightarrow> j \<in> D \<or> is_noop (ir_operations ir ! j)"
  by (auto simp: removed_ops is_noop_def split: if_splits)

lemma forget_sites:
  "set outs \<subseteq> {..<length sites} \<Longrightarrow> \<exists>sites'. fold_opt (\<lambda>out sites. slice_set sites out None) outs sites = Some sites' \<and>
     length sites' = length sites \<and> (\<forall>l<length sites. sites' ! l = (if l \<in> set outs then None else sites ! l))"
proof (induction outs arbitrary: sites)
  case (Cons x xs)
  then have x: "x < length sites" "set xs \<subseteq> {..<length (sites[x := None])}" by auto
  from Cons.IH [OF x(2)] obtain s' where s': "fold_opt (\<lambda>out sites. slice_set sites out None) xs (sites[x := None]) = Some s'"
    "length s' = length sites" "\<forall>l<length sites. s' ! l = (if l \<in> set xs then None else sites[x := None] ! l)" by auto
  have "\<forall>l<length sites. s' ! l = (if l \<in> set (x # xs) then None else sites ! l)"
    using s'(3) by (auto simp: nth_list_update)
  with s'(1,2) x(1) show ?case by simp
qed simp

lemma uses_in_without:
  "uses_in ir L (insert i D) l =
     (if l \<in> set (ins_of ir i) then {u \<in> uses_in ir L D l. snd u \<noteq> UseOperation i} else uses_in ir L D l)"
proof (cases "l \<in> set (ins_of ir i)")
  case True
  then show ?thesis by (auto simp: uses_in_def)
next
  case False
  then have "{(b, UseOperation k) | b k. b \<in> L \<and> k \<in> set (ops_of ir b) - insert i D \<and> l \<in> set (ins_of ir k)} =
      {(b, UseOperation k) | b k. b \<in> L \<and> k \<in> set (ops_of ir b) - D \<and> l \<in> set (ins_of ir k)}" by blast
  with False show ?thesis by (simp add: uses_in_def)
qed

lemma op_free_released:
  assumes "removal_setting ir L" "j \<in> live_ops ir L" "length uses = ir_next_free_local ir" "op_free ir uses j"
  shows "op_free ir (released uses i P) j"
proof -
  have "l < length uses" if "l \<in> set (outs_of ir j)" for l
    using assms(1-3) that unfolding removal_setting_def by auto
  with assms(4) show ?thesis by (simp add: op_free_def released_nth)
qed

lemma remove_op_step:
  assumes set': "removal_setting ir L" and inv: "removal_inv ir L D s" and p: "rm_pending s = rest @ [i]"
  shows "\<exists>s' D'. remove_op i (s\<lparr>rm_pending := rest\<rparr>) = Some s' \<and> removal_inv ir L D' s'"
proof -
  let ?n = "ir_next_free_local ir" and ?uses = "rm_uses s" and ?u = "released (rm_uses s) i (set (ins_of ir i))"
  note I = inv [unfolded removal_inv_def]
  from I have w: "worklist_ok ir L D {} ?uses (rest @ [i])" and len: "length ?uses = ?n"
    and so: "sites_ok ir L D (rm_sites s)" and ir: "rm_ir s = removed ir D" unfolding p by blast+
  from w have i: "i \<in> live_ops ir L" "op_free ir ?uses i" unfolding worklist_ok_def by auto
  from set' i(1) have si: "i < length (ir_operations ir)" "op_inputs (ir_operations ir ! i) ir = Some (ins_of ir i)"
    "op_outputs (ir_operations ir ! i) ir = Some (outs_of ir i)" "set (ins_of ir i) \<subseteq> {..<?n}" "set (outs_of ir i) \<subseteq> {..<?n}"
    and dis: "\<forall>k\<in>live_ops ir L. i \<noteq> k \<longrightarrow> set (outs_of ir i) \<inter> set (outs_of ir k) = {}"
    unfolding removal_setting_def by blast+
  show ?thesis
  proof (cases "i \<in> D \<or> is_noop (ir_operations ir ! i)")
    case True
    have "is_noop (if i \<in> D then Operation OpNoop UnitData else ir_operations ir ! i)"
      using True by (auto simp: is_noop_def)
    then have r: "remove_op i (s\<lparr>rm_pending := rest\<rparr>) = Some (s\<lparr>rm_pending := rest\<rparr>)"
      by (simp add: remove_op_def ir removed_ops [OF si(1)])
    have "worklist_ok ir L D {} ?uses rest"
      using w True unfolding worklist_ok_def by auto
    with I have "removal_inv ir L D (s\<lparr>rm_pending := rest\<rparr>)" by (simp add: removal_inv_def)
    with r show ?thesis by blast
  next
    case False
    have "worklist_ok ir L D {i} (released ?uses i {}) rest"
      using w unfolding released_empty worklist_ok_def by auto
    from release_all [OF set' so len si(4) this] obtain pending' where
      rel: "fold_opt (release_input (removed ir D) i (rm_sites s)) (ins_of ir i) (?uses, rest) = Some (?u, pending')"
      and w': "worklist_ok ir L D {i} ?u pending'" by (auto simp: released_empty)
    have "set (outs_of ir i) \<subseteq> {..<length (rm_sites s)}" using so si(5) unfolding sites_ok_def by simp
    from forget_sites [OF this] obtain sites' where
      f: "fold_opt (\<lambda>out sites. slice_set sites out None) (outs_of ir i) (rm_sites s) = Some sites'"
      "length sites' = ?n" "\<forall>l<?n. sites' ! l = (if l \<in> set (outs_of ir i) then None else rm_sites s ! l)"
      using so unfolding sites_ok_def by auto
    let ?s = "\<lparr>rm_ir = removed ir (insert i D), rm_uses = ?u, rm_sites = sites', rm_pending = pending'\<rparr>"
    have st: "slice_set (ir_operations (removed ir D)) i (Operation OpNoop UnitData) =
        Some ((ir_operations (removed ir D))[i := Operation OpNoop UnitData])"
      using si(1) by (simp add: removed_def slice_set_def)
    have r: "remove_op i (s\<lparr>rm_pending := rest\<rparr>) = Some ?s"
      using False by (simp add: remove_op_def ir removed_ops [OF si(1)] si(2,3) rel f(1) st removed_insert [OF si(1)])
    have so': "sites_ok ir L (insert i D) sites'"
      unfolding sites_ok_def
    proof (intro conjI allI impI ballI)
      fix l j assume "l < ?n" "sites' ! l = Some j"
      with f(3) so show "j \<in> live_ops ir L" unfolding sites_ok_def by (metis option.distinct(1))
    next
      fix j l assume j: "j \<in> live_ops ir L - insert i D" "l \<in> set (outs_of ir j)"
      then have "l < ?n" using set' unfolding removal_setting_def by blast
      moreover have "l \<notin> set (outs_of ir i)" using dis [rule_format, of j] j by auto
      moreover have "rm_sites s ! l = Some j" using so j unfolding sites_ok_def by blast
      ultimately show "sites' ! l = Some j" using f(3) by simp
    qed (rule f(2))
    have D: "\<forall>j\<in>insert i D. \<not> is_noop (ir_operations ir ! j) \<and> op_free ir ?u j"
    proof
      fix j assume "j \<in> insert i D"
      with I i False have "j \<in> live_ops ir L" "op_free ir ?uses j" "\<not> is_noop (ir_operations ir ! j)" by blast+
      with op_free_released [OF set' _ len] show "\<not> is_noop (ir_operations ir ! j) \<and> op_free ir ?u j" by blast
    qed
    have u: "\<forall>l<?n. set (?u ! l) = uses_in ir L (insert i D) l"
      using I by (simp add: uses_in_without released_nth len)
    have "worklist_ok ir L (insert i D) {} ?u pending'"
      using w' unfolding worklist_ok_def by blast
    with D u so' len I i(1) have "removal_inv ir L (insert i D) ?s" by (simp add: removal_inv_def)
    with r show ?thesis by blast
  qed
qed

lemma removal_loop_inv:
  assumes "removal_setting ir L"
  shows "removal_inv ir L D s \<Longrightarrow>
    \<exists>s' D'. removal_loop s = Some s' \<and> removal_inv ir L D' s' \<and> rm_pending s' = []"
proof (induction s arbitrary: D rule: removal_loop.induct)
  case (1 s)
  show ?case
  proof (cases "rm_pending s = []")
    case True
    with 1(2) show ?thesis by (subst removal_loop.simps) auto
  next
    case False
    then have "rm_pending s = butlast (rm_pending s) @ [last (rm_pending s)]" by simp
    from remove_op_step [OF assms 1(2) this] obtain s1 D1 where
      s1: "remove_op (last (rm_pending s)) (s\<lparr>rm_pending := butlast (rm_pending s)\<rparr>) = Some s1" "removal_inv ir L D1 s1" by blast
    from 1(1) [OF False s1] s1(1) False show ?thesis by (subst removal_loop.simps) simp
  qed
qed

subsection \<open>The first sweep\<close>

definition scan_inv :: "ir_program \<Rightarrow> nat set \<Rightarrow> def_use \<Rightarrow> nat set \<Rightarrow> def_sites \<times> nat list \<Rightarrow> bool" where
  "scan_inv ir L uses S s \<longleftrightarrow> length (fst s) = ir_next_free_local ir \<and>
     (\<forall>l<ir_next_free_local ir. \<forall>j. fst s ! l = Some j \<longrightarrow> j \<in> live_ops ir L) \<and>
     (\<forall>j\<in>S. \<forall>l\<in>set (outs_of ir j). fst s ! l = Some j) \<and> set (snd s) = {j \<in> S. op_free ir uses j}"

lemma note_sites:
  "set outs \<subseteq> {..<length sites} \<Longrightarrow> \<exists>sites'. fold_opt (\<lambda>out sites. slice_set sites out (Some i)) outs sites = Some sites' \<and>
     length sites' = length sites \<and> (\<forall>l<length sites. sites' ! l = (if l \<in> set outs then Some i else sites ! l))"
proof (induction outs arbitrary: sites)
  case (Cons x xs)
  then have x: "x < length sites" "set xs \<subseteq> {..<length (sites[x := Some i])}" by auto
  from Cons.IH [OF x(2)] obtain s' where s': "fold_opt (\<lambda>out sites. slice_set sites out (Some i)) xs (sites[x := Some i]) = Some s'"
    "length s' = length sites" "\<forall>l<length sites. s' ! l = (if l \<in> set xs then Some i else sites[x := Some i] ! l)" by auto
  have "\<forall>l<length sites. s' ! l = (if l \<in> set (x # xs) then Some i else sites ! l)"
    using s'(3) by (auto simp: nth_list_update)
  with s'(1,2) x(1) show ?case by simp
qed simp

lemma scan_op_step:
  assumes set': "removal_setting ir L" and i: "i \<in> live_ops ir L" and S: "S \<subseteq> live_ops ir L"
    and len: "length uses = ir_next_free_local ir" and inv: "scan_inv ir L uses S s"
  shows "\<exists>s'. scan_op ir uses i s = Some s' \<and> scan_inv ir L uses (insert i S) s'"
proof -
  let ?n = "ir_next_free_local ir"
  obtain sites pending where s: "s = (sites, pending)" by (rule prod.exhaust)
  note I = inv [unfolded scan_inv_def s fst_conv snd_conv]
  from set' i have si: "i < length (ir_operations ir)" "op_outputs (ir_operations ir ! i) ir = Some (outs_of ir i)"
    "set (outs_of ir i) \<subseteq> {..<?n}"
    and dis: "\<forall>k\<in>live_ops ir L. i \<noteq> k \<longrightarrow> set (outs_of ir i) \<inter> set (outs_of ir k) = {}"
    unfolding removal_setting_def by blast+
  have "set (outs_of ir i) \<subseteq> {..<length sites}" using I si(3) by simp
  from note_sites [OF this, of i] obtain sites' where
    f: "fold_opt (\<lambda>out sites. slice_set sites out (Some i)) (outs_of ir i) sites = Some sites'" "length sites' = ?n"
    "\<forall>l<?n. sites' ! l = (if l \<in> set (outs_of ir i) then Some i else sites ! l)" using I by auto
  let ?s = "(sites', if op_free ir uses i then pending @ [i] else pending)"
  have "is_removable (ir_operations ir ! i) ir uses = Some (op_free ir uses i)"
    using is_removable_free [OF set' i len, of "{}"] by (simp add: removed_empty)
  then have r: "scan_op ir uses i s = Some ?s" using si(1,2) f(1) by (simp add: scan_op_def s)
  have live: "\<forall>l<?n. \<forall>j. sites' ! l = Some j \<longrightarrow> j \<in> live_ops ir L"
  proof (intro allI impI)
    fix l j assume "l < ?n" "sites' ! l = Some j"
    with f(3) I i show "j \<in> live_ops ir L" by (cases "l \<in> set (outs_of ir i)") auto
  qed
  have site: "sites' ! l = Some j" if j: "j \<in> insert i S" "l \<in> set (outs_of ir j)" for j l
  proof (cases "j = i")
    case True
    with f(3) j si(3) show ?thesis by auto
  next
    case False
    with j(1) S have jl: "j \<in> S" "j \<in> live_ops ir L" by auto
    then have "l < ?n" using set' j(2) unfolding removal_setting_def by blast
    moreover have "l \<notin> set (outs_of ir i)" using dis [rule_format, OF jl(2)] False j(2) by auto
    moreover have "sites ! l = Some j" using I jl(1) j(2) by blast
    ultimately show ?thesis using f(3) by simp
  qed
  have "set (snd ?s) = {j \<in> insert i S. op_free ir uses j}" using I by auto
  with live site f(2) have "scan_inv ir L uses (insert i S) ?s" by (simp add: scan_inv_def)
  with r show ?thesis by blast
qed

lemma scan_ops_run:
  assumes "removal_setting ir L" "length uses = ir_next_free_local ir"
  shows "set is \<subseteq> live_ops ir L \<Longrightarrow> S \<subseteq> live_ops ir L \<Longrightarrow> scan_inv ir L uses S s \<Longrightarrow>
    \<exists>s'. fold_opt (scan_op ir uses) is s = Some s' \<and> scan_inv ir L uses (S \<union> set is) s'"
proof (induction "is" arbitrary: S s)
  case (Cons i "is")
  then have i: "i \<in> live_ops ir L" "insert i S \<subseteq> live_ops ir L" "set is \<subseteq> live_ops ir L" by auto
  from scan_op_step [OF assms(1) i(1) Cons.prems(2) assms(2) Cons.prems(3)] obtain s1 where
    1: "scan_op ir uses i s = Some s1" "scan_inv ir L uses (insert i S) s1" by blast
  from Cons.IH [OF i(3,2) 1(2)] 1(1) show ?case by simp
qed simp

lemma scan_blocks_run:
  assumes set': "removal_setting ir (set bs)" and len: "length uses = ir_next_free_local ir"
    and ops: "\<And>b. b \<in> set bs \<Longrightarrow> bv_operations ir b = Some (ops_of ir b)"
  shows "\<exists>s. scan_blocks ir uses bs = Some s \<and> scan_inv ir (set bs) uses (live_ops ir (set bs)) s"
proof -
  let ?f = "\<lambda>b s. do { ops \<leftarrow> bv_operations ir b; fold_opt (scan_op ir uses) ops s }"
  have "\<exists>s'. fold_opt ?f cs s = Some s' \<and> scan_inv ir (set bs) uses (S \<union> live_ops ir (set cs)) s'"
    if "set cs \<subseteq> set bs" "S \<subseteq> live_ops ir (set bs)" "scan_inv ir (set bs) uses S s" for cs S s
    using that
  proof (induction cs arbitrary: S s)
    case (Cons b cs)
    have b: "bv_operations ir b = Some (ops_of ir b)" "set (ops_of ir b) \<subseteq> live_ops ir (set bs)"
      using ops Cons.prems(1) by (auto simp: live_ops_def)
    from scan_ops_run [OF set' len b(2) Cons.prems(2,3)] obtain s1 where
      1: "fold_opt (scan_op ir uses) (ops_of ir b) s = Some s1" "scan_inv ir (set bs) uses (S \<union> set (ops_of ir b)) s1" by blast
    have "S \<union> set (ops_of ir b) \<union> live_ops ir (set cs) = S \<union> live_ops ir (set (b # cs))"
      by (auto simp: live_ops_def)
    with Cons.IH [OF _ _ 1(2)] Cons.prems(1,2) b 1(1) show ?case by simp
  qed (simp add: live_ops_def)
  moreover have "scan_inv ir (set bs) uses {} (replicate (ir_next_free_local ir) None, [])"
    by (simp add: scan_inv_def)
  ultimately have "\<exists>s. fold_opt ?f bs (replicate (ir_next_free_local ir) None, []) = Some s \<and>
      scan_inv ir (set bs) uses ({} \<union> live_ops ir (set bs)) s" by blast
  then show ?thesis by (simp add: scan_blocks_def)
qed

lemma scan_starts:
  assumes "length uses = ir_next_free_local ir" "\<forall>l<ir_next_free_local ir. set (uses ! l) = uses_in ir L {} l"
    and s: "scan_inv ir L uses (live_ops ir L) (sites, pending)"
  shows "removal_inv ir L {} \<lparr>rm_ir = ir, rm_uses = uses, rm_sites = sites, rm_pending = pending\<rparr>"
proof -
  note S = s [unfolded scan_inv_def fst_conv snd_conv]
  have "sites_ok ir L {} sites" using S unfolding sites_ok_def Diff_empty by blast
  moreover have "worklist_ok ir L {} {} uses pending" using S unfolding worklist_ok_def by blast
  ultimately show ?thesis using assms(1,2) by (simp add: removal_inv_def removed_empty)
qed

text \<open>A legal program with readable blocks is a setting for the removals.\<close>

lemma distinct_concat_nth:
  "distinct (concat (map g xs)) \<Longrightarrow> i < length xs \<Longrightarrow> j < length xs \<Longrightarrow> i \<noteq> j \<Longrightarrow> set (g (xs ! i)) \<inter> set (g (xs ! j)) = {}"
proof (induction xs arbitrary: i j)
  case (Cons x xs)
  have d: "set (g x) \<inter> set (g (xs ! k)) = {}" if "k < length xs" for k
    using Cons.prems(1) nth_mem [OF that] by auto
  show ?case
  proof (cases i; cases j)
    fix i' j' assume "i = Suc i'" "j = Suc j'"
    with Cons show ?thesis by simp
  qed (use Cons.prems d in auto)
qed simp

lemma legal_setting:
  assumes lg: "legal ir" and bound: "locals_bounded ir {b. live_block ir b}"
  shows "removal_setting ir {b. live_block ir b}"
proof -
  let ?L = "{b. live_block ir b}"
  have op: "\<exists>b rb k. live_block ir b \<and> resolve ir b = Some rb \<and> rblock_locals rb \<subseteq> {..<ir_next_free_local ir} \<and>
      k < length (rb_ops rb) \<and> i = ops_of ir b ! k" if i: "i \<in> live_ops ir ?L" for i
  proof -
    from i obtain b where b: "live_block ir b" "i \<in> set (ops_of ir b)" by (auto simp: live_ops_def)
    with bound obtain rb where "resolve ir b = Some rb" "rblock_locals rb \<subseteq> {..<ir_next_free_local ir}"
      unfolding locals_bounded_def by blast
    with b resolve_defs(2) show ?thesis by (metis in_set_conv_nth)
  qed
  have defs: "set (outs_of ir i) \<subseteq> set (block_defs ir b)" if "i \<in> set (ops_of ir b)" "resolve ir b = Some rb" for i b rb
    using resolve_defs(1) [OF that(2)] that(1) by (auto simp: block_defs_def defs_before_def)
  have dis: "set (outs_of ir j) \<inter> set (outs_of ir k) = {}" if "j \<in> live_ops ir ?L" "k \<in> live_ops ir ?L" "j \<noteq> k" for j k
  proof -
    from op [OF that(1)] obtain b rb x where
      b: "live_block ir b" "resolve ir b = Some rb" "x < length (rb_ops rb)" "j = ops_of ir b ! x" by blast
    from op [OF that(2)] obtain c rc y where
      c: "live_block ir c" "resolve ir c = Some rc" "y < length (rb_ops rc)" "k = ops_of ir c ! y" by blast
    have x: "x < length (ops_of ir b)" and y: "y < length (ops_of ir c)"
      using resolve_defs(2) [OF b(2)] resolve_defs(2) [OF c(2)] b(3) c(3) by simp_all
    show ?thesis
    proof (cases "b = c")
      case True
      have "distinct (concat (map (outs_of ir) (ops_of ir b)))"
        using legal_block_scope(1) [OF lg b(1)] resolve_defs(1) [OF b(2)]
        by (simp add: block_defs_def defs_before_def)
      moreover have "x \<noteq> y" using that(3) b(4) c(4) True by auto
      ultimately show ?thesis using distinct_concat_nth x y b(4) c(4) True by metis
    next
      case False
      have "set (outs_of ir j) \<subseteq> set (block_defs ir b)" "set (outs_of ir k) \<subseteq> set (block_defs ir c)"
        using defs b(2,4) c(2,4) x y by simp_all
      with legal_block_scope(2) [OF lg b(1) c(1)] False show ?thesis by blast
    qed
  qed
  have each: "j < length (ir_operations ir) \<and> op_inputs (ir_operations ir ! j) ir = Some (ins_of ir j) \<and>
      op_outputs (ir_operations ir ! j) ir = Some (outs_of ir j) \<and> set (ins_of ir j) \<subseteq> {..<ir_next_free_local ir} \<and>
      set (outs_of ir j) \<subseteq> {..<ir_next_free_local ir}" if j: "j \<in> live_ops ir ?L" for j
  proof -
    obtain b rb x where b: "resolve ir b = Some rb" "rblock_locals rb \<subseteq> {..<ir_next_free_local ir}" "x < length (rb_ops rb)"
      "j = ops_of ir b ! x" using op [OF j] by blast
    from resolve_defs(3) [OF b(1,3)] b(4) have r: "resolve_op ir j = Some (rb_ops rb ! x)" by simp
    note o = resolve_op_operands [OF r]
    have m: "rb_ops rb ! x \<in> set (rb_ops rb)" using b(3) by simp
    have "set (rop_ins (rb_ops rb ! x)) \<subseteq> rblock_locals rb" "set (rop_outs (rb_ops rb ! x)) \<subseteq> rblock_locals rb"
      using m by (auto simp: rblock_locals_def rb_defs_def)
    moreover have "j < length (ir_operations ir)" "op_inputs (ir_operations ir ! j) ir = Some (rop_ins (rb_ops rb ! x))"
      "op_outputs (ir_operations ir ! j) ir = Some (rop_outs (rb_ops rb ! x))"
      using r by (cases "rb_ops rb ! x"; auto simp: resolve_op_def bind_eq_Some_conv slice_get_Some)+
    ultimately show ?thesis using o b(2) by auto
  qed
  show ?thesis unfolding removal_setting_def using each dis by blast
qed

subsection \<open>Removing operations keeps the meaning of a block\<close>

definition same_but :: "nat set \<Rightarrow> env \<Rightarrow> env \<Rightarrow> bool" where
  "same_but U e e' \<longleftrightarrow> (\<forall>l. l \<notin> U \<longrightarrow> e l = e' l)"

lemma same_but_map: "same_but U e e' \<Longrightarrow> set ls \<inter> U = {} \<Longrightarrow> map e ls = map e' ls"
  by (auto simp: same_but_def)

lemma same_but_assign: "same_but U e e' \<Longrightarrow> same_but U (assign ls vs e) (assign ls vs e')"
proof (induction ls vs e arbitrary: e' rule: assign.induct)
  case (1 l ls v vs e)
  then have "same_but U (e(l := v)) (e'(l := v))" by (simp add: same_but_def)
  from 1(1) [OF this] show ?case by (simp only: assign.simps)
qed auto

lemma same_but_assign_dead: "same_but U e e' \<Longrightarrow> set ls \<subseteq> U \<Longrightarrow> same_but U (assign ls vs e) e'"
  unfolding same_but_def by (metis assign_other subsetD)

fun flow_agrees :: "nat set \<Rightarrow> 'w flow option \<Rightarrow> 'w flow option \<Rightarrow> bool" where
  "flow_agrees U None None = True"
| "flow_agrees U (Some (Ended w)) (Some (Ended w')) = (w' = w)"
| "flow_agrees U (Some (Fall e w)) (Some (Fall e' w')) = (w' = w \<and> same_but U e e')"
| "flow_agrees U _ _ = False"

lemma flow_agrees_cases:
  assumes "flow_agrees U x y"
  obtains "x = None" "y = None" | w where "x = Some (Ended w)" "y = Some (Ended w)"
  | e e' w where "x = Some (Fall e w)" "y = Some (Fall e' w)" "same_but U e e'"
  using assms by (cases "(U, x, y)" rule: flow_agrees.cases) auto

lemma exec_rop_same_but:
  assumes "same_but U e e'" "set (rop_ins r) \<inter> U = {}"
  shows "flow_agrees U (exec_rop callf sem r e w) (exec_rop callf sem r e' w)"
proof (cases "rop_action r")
  case (ActCall g)
  show ?thesis
  proof (cases "callf g (map e' (rop_ins r)) w")
    case (Some out)
    with ActCall assms show ?thesis
      by (cases out) (simp_all add: exec_rop_def same_but_map [OF assms] same_but_assign)
  qed (simp add: ActCall exec_rop_def same_but_map [OF assms])
next
  case (ActPlain k imm)
  obtain res w1 where "sem k imm (map e' (rop_ins r)) w = (res, w1)" by (rule prod.exhaust)
  with ActPlain assms show ?thesis
    by (cases res) (simp_all add: exec_rop_def same_but_map [OF assms] same_but_assign)
qed (use assms in \<open>simp_all add: exec_rop_def same_but_map [OF assms] same_but_assign Let_def\<close>)

text \<open>An operation that leaves the world as it is and never ends the execution.\<close>

definition quiet_action :: "'w op_sem \<Rightarrow> action \<Rightarrow> bool" where
  "quiet_action sem a = (case a of
      ActCall g \<Rightarrow> False
    | ActPlain k imm \<Rightarrow> (\<forall>vals w. \<exists>vs. sem k imm vals w = (Some vs, w))
    | _ \<Rightarrow> True)"

lemma exec_quiet:
  assumes "quiet_action sem (rop_action r)" "same_but U e e'" "set (rop_outs r) \<subseteq> U"
  shows "flow_agrees U (exec_rop callf sem r e w) (exec_rop callf sem (ROp ActSkip [] []) e' w)"
proof (cases "rop_action r")
  case (ActPlain k imm)
  with assms(1) obtain vs where "sem k imm (map e (rop_ins r)) w = (Some vs, w)"
    by (auto simp: quiet_action_def)
  with ActPlain assms show ?thesis by (simp add: exec_rop_def same_but_assign_dead)
qed (use assms in \<open>simp_all add: exec_rop_def quiet_action_def same_but_assign_dead\<close>)

definition thinned :: "'w op_sem \<Rightarrow> nat set \<Rightarrow> rop \<Rightarrow> rop \<Rightarrow> bool" where
  "thinned sem U r r' \<longleftrightarrow> (r' = r \<and> set (rop_ins r) \<inter> U = {}) \<or>
     (r' = ROp ActSkip [] [] \<and> quiet_action sem (rop_action r) \<and> set (rop_outs r) \<subseteq> U)"

lemma thinned_run:
  "list_all2 (thinned sem U) rs rs' \<Longrightarrow> same_but U e e' \<Longrightarrow>
     flow_agrees U (exec_rops callf sem rs e w) (exec_rops callf sem rs' e' w)"
proof (induction rs arbitrary: rs' e e' w)
  case (Cons r rs)
  then obtain r' rs1 where rs': "rs' = r' # rs1" "thinned sem U r r'" "list_all2 (thinned sem U) rs rs1"
    by (auto simp: list_all2_Cons1)
  have "flow_agrees U (exec_rop callf sem r e w) (exec_rop callf sem r' e' w)"
    using rs'(2) exec_rop_same_but exec_quiet Cons.prems(2) unfolding thinned_def by metis
  then show ?case
  proof (cases rule: flow_agrees_cases)
    case (3 e1 e1' w1)
    with Cons.IH [OF rs'(3) 3(3)] rs'(1) show ?thesis by simp
  qed (simp_all add: rs'(1))
qed simp

definition thinned_block :: "'w op_sem \<Rightarrow> nat set \<Rightarrow> rblock \<Rightarrow> rblock \<Rightarrow> bool" where
  "thinned_block sem U rb rb' \<longleftrightarrow> list_all2 (thinned sem U) (rb_ops rb) (rb_ops rb') \<and>
     rb_ins rb' = rb_ins rb \<and> rb_outs rb' = rb_outs rb \<and> rb_ctl rb' = rb_ctl rb \<and>
     set (rb_outs rb) \<inter> U = {} \<and> rctl_uses (rb_ctl rb) \<inter> U = {}"

lemma thinned_block_agrees:
  assumes "thinned_block sem U rb rb'"
  shows "block_agrees sem (same_but U) rb rb'"
  unfolding block_agrees_def
proof (intro allI impI)
  note T = assms [unfolded thinned_block_def]
  fix callf args e e' and w :: 'a assume R: "same_but U e e'"
  have c: "exit_agrees (same_but U) (exec_control rb x w) (exec_control rb' x' w)" if x: "same_but U x x'" for x x' and w :: 'a
  proof -
    have "control_target (rb_ctl rb) x = control_target (rb_ctl rb) x'"
      using T x by (intro control_target_cong) (auto simp: same_but_def)
    moreover have "map x (rb_outs rb) = map x' (rb_outs rb)" using same_but_map [OF x] T by blast
    ultimately show ?thesis using T x
      by (cases "control_target (rb_ctl rb) x'") (simp_all add: exec_control_def)
  qed
  have "flow_agrees U (exec_rops callf sem (rb_ops rb) (assign (rb_ins rb) args e) w)
      (exec_rops callf sem (rb_ops rb') (assign (rb_ins rb') args e') w)"
    using T thinned_run same_but_assign [OF R] by metis
  then show "exit_agrees (same_but U) (exec_block callf sem rb args e w) (exec_block callf sem rb' args e' w)"
    by (cases rule: flow_agrees_cases) (simp_all add: exec_block_def c)
qed

subsection \<open>The program after the removals\<close>

abbreviation live_blocks :: "ir_program \<Rightarrow> nat set" where
  "live_blocks ir \<equiv> {b. live_block ir b}"

text \<open>What makes an operation removable when it is unused: it does not touch the world and always goes on.\<close>

definition removable_quiet :: "ir_program \<Rightarrow> nat set \<Rightarrow> 'w op_sem \<Rightarrow> bool" where
  "removable_quiet ir I sem \<longleftrightarrow> (\<forall>i\<in>I. is_removable_when_unused (opn_kind (ir_operations ir ! i)) \<longrightarrow>
     (\<forall>imm vals w. \<exists>vs. sem (opn_kind (ir_operations ir ! i)) imm vals w = (Some vs, w)))"

definition ops_typed :: "ir_program \<Rightarrow> nat set \<Rightarrow> bool" where
  "ops_typed ir I \<longleftrightarrow> (\<forall>i\<in>I. op_typed (ir_operations ir ! i))"

lemma removable_no_call: "is_removable_when_unused k \<Longrightarrow> op_shape k \<noteq> CallShape \<and> op_shape k \<noteq> CallNeverShape"
  by (cases k) simp_all

lemma removable_action_quiet:
  assumes "op_typed op" "is_removable_when_unused (opn_kind op)" "resolve_action consts op = Some a"
    "\<forall>imm vals w. \<exists>vs. sem (opn_kind op) imm vals w = (Some vs, w)"
  shows "quiet_action sem a"
proof (cases "opn_data op")
  case (InternalCallData g x y)
  with assms(1) removable_no_call [OF assms(2)] show ?thesis by (simp add: op_typed_def)
next
  case (InternalCallNeverData g x)
  with assms(1) removable_no_call [OF assms(2)] show ?thesis by (simp add: op_typed_def)
qed (use assms(3,4) in \<open>auto simp: resolve_action_def quiet_action_def\<close>)

lemma resolve_removed_op:
  assumes "i < length (ir_operations ir)"
  shows "resolve_op (removed ir D) i = (if i \<in> D then Some (ROp ActSkip [] []) else resolve_op ir i)"
proof (cases "i \<in> D")
  case True
  then show ?thesis
    by (simp add: resolve_op_def removed_ops [OF assms]) (simp add: resolve_action_def op_inputs_def op_outputs_def)
next
  case False
  then have "slice_get (ir_operations (removed ir D)) i = slice_get (ir_operations ir) i"
    using assms by (simp add: removed_ops)
  with False show ?thesis by (simp add: resolve_op_def removed_def op_inputs_def op_outputs_def)
qed

definition thin :: "nat set \<Rightarrow> nat list \<Rightarrow> rblock \<Rightarrow> rblock" where
  "thin D is rb = rb\<lparr>rb_ops := map (\<lambda>(i, r). if i \<in> D then ROp ActSkip [] [] else r) (zip is (rb_ops rb))\<rparr>"

lemma map_opt_eq:
  "length ys = length xs \<Longrightarrow> (\<And>k. k < length xs \<Longrightarrow> h (xs ! k) = Some (ys ! k)) \<Longrightarrow> map_opt h xs = Some ys"
proof (induction xs arbitrary: ys)
  case (Cons x xs)
  then obtain y zs where ys: "ys = y # zs" by (cases ys) auto
  have "map_opt h xs = Some zs" by (rule Cons.IH) (use Cons.prems ys in \<open>force+\<close>)
  with Cons.prems(2) [of 0] ys show ?case by simp
qed simp

lemma resolve_removed:
  assumes rb: "resolve ir b = Some rb"
  shows "resolve (removed ir D) b = Some (thin D (ops_of ir b) rb)"
proof -
  note r = rb [unfolded resolve_Some] and d = resolve_defs(2,3) [OF rb]
  have "resolve_op (removed ir D) (ops_of ir b ! k) = Some (rb_ops (thin D (ops_of ir b) rb) ! k)"
    if k: "k < length (ops_of ir b)" for k
  proof -
    have "resolve_op ir (ops_of ir b ! k) = Some (rb_ops rb ! k)" using d k by simp
    moreover from this have "ops_of ir b ! k < length (ir_operations ir)"
      by (auto simp: resolve_op_def bind_eq_Some_conv slice_get_Some)
    ultimately show ?thesis using k d(1) by (simp add: resolve_removed_op thin_def)
  qed
  then have "map_opt (resolve_op (removed ir D)) (ops_of ir b) = Some (rb_ops (thin D (ops_of ir b) rb))"
    by (intro map_opt_eq) (simp_all add: thin_def d(1))
  moreover have "resolve_control (removed ir D) ctl = resolve_control ir ctl" for ctl
    by (cases ctl) (simp_all add: resolve_control_def removed_def cs_iter_def cs_get_values_def cs_get_bb_ids_def)
  ultimately show ?thesis
    using r by (simp add: resolve_Some ops_of_def thin_def) (simp add: removed_def)
qed

lemma thin_callees: "length is = length (rb_ops rb) \<Longrightarrow> rb_callees (thin D is rb) \<subseteq> rb_callees rb"
  by (auto simp: rb_callees_def thin_def rop_callees_def dest!: set_zip_rightD split: if_splits)

text \<open>What the loop leaves: everything removed was unused, and nothing that could go is left.\<close>

lemma removal_result:
  assumes inv: "removal_inv ir L D s" and empty: "rm_pending s = []" and set': "removal_setting ir L"
  shows "\<And>j l. j \<in> D \<Longrightarrow> l \<in> set (outs_of ir j) \<Longrightarrow> uses_in ir L D l = {}"
    and "\<And>j. j \<in> live_ops ir L \<Longrightarrow> j \<notin> D \<Longrightarrow> \<not> is_noop (ir_operations ir ! j) \<Longrightarrow>
      is_removable_when_unused (opn_kind (ir_operations ir ! j)) \<Longrightarrow>
      \<exists>l\<in>set (outs_of ir j). uses_in ir L D l \<noteq> {}"
proof -
  note I = inv [unfolded removal_inv_def]
  have n: "l < ir_next_free_local ir" if "j \<in> live_ops ir L" "l \<in> set (outs_of ir j)" for j l
    using set' that unfolding removal_setting_def by blast
  have u: "set (rm_uses s ! l) = uses_in ir L D l" if "l < ir_next_free_local ir" for l using I that by blast
  show "uses_in ir L D l = {}" if "j \<in> D" "l \<in> set (outs_of ir j)" for j l
  proof -
    have "j \<in> live_ops ir L" "rm_uses s ! l = []" using I that unfolding op_free_def by blast+
    with u [OF n] that(2) show ?thesis by fastforce
  qed
  show "\<exists>l\<in>set (outs_of ir j). uses_in ir L D l \<noteq> {}"
    if j: "j \<in> live_ops ir L" "j \<notin> D" "\<not> is_noop (ir_operations ir ! j)"
      "is_removable_when_unused (opn_kind (ir_operations ir ! j))" for j
  proof -
    from I have "worklist_ok ir L D {} (rm_uses s) []" unfolding empty by blast
    with j(1-3) have "\<not> op_free ir (rm_uses s) j" unfolding worklist_ok_def by auto
    with j(4) obtain l where "l \<in> set (outs_of ir j)" "rm_uses s ! l \<noteq> []" unfolding op_free_def by blast
    moreover from this have "set (rm_uses s ! l) = uses_in ir L D l" using u n j(1) by blast
    moreover have "set (rm_uses s ! l) \<noteq> {}" using calculation(2) by simp
    ultimately show ?thesis by metis
  qed
qed

lemma thin_block:
  fixes sem :: "'w op_sem"
  assumes rb: "resolve ir b = Some rb" and b: "b \<in> L" and D: "D \<subseteq> live_ops ir L"
    and rm: "\<And>j. j \<in> D \<Longrightarrow> is_removable_when_unused (opn_kind (ir_operations ir ! j))"
    and unused: "\<And>j l. j \<in> D \<Longrightarrow> l \<in> set (outs_of ir j) \<Longrightarrow> uses_in ir L D l = {}"
    and typed: "ops_typed ir (live_ops ir L)" and quiet: "removable_quiet ir (live_ops ir L) sem"
  shows "thinned_block sem (\<Union> ((\<lambda>j. set (outs_of ir j)) ` D)) rb (thin D (ops_of ir b) rb)"
proof -
  let ?U = "\<Union> ((\<lambda>j. set (outs_of ir j)) ` D)"
  note d = resolve_defs [OF rb] and r = rb [unfolded resolve_Some]
  have dead: "uses_in ir L D l = {}" if "l \<in> ?U" for l using unused that by blast
  have op: "thinned sem ?U (rb_ops rb ! k) (rb_ops (thin D (ops_of ir b) rb) ! k)" if k: "k < length (rb_ops rb)" for k
  proof -
    let ?i = "ops_of ir b ! k"
    have ro: "resolve_op ir ?i = Some (rb_ops rb ! k)" by (rule d(3) [OF k])
    have ib: "?i \<in> set (ops_of ir b)" using k d(2) by simp
    show ?thesis
    proof (cases "?i \<in> D")
      case True
      from True D have il: "?i \<in> live_ops ir L" by blast
      obtain a where a: "resolve_action (ir_large_consts ir) (ir_operations ir ! ?i) = Some a" "rop_action (rb_ops rb ! k) = a"
        using ro by (cases "rb_ops rb ! k") (auto simp: resolve_op_def bind_eq_Some_conv slice_get_Some)
      have "quiet_action sem a"
        by (rule removable_action_quiet [OF _ rm [OF True] a(1)])
          (use typed quiet il rm [OF True] in \<open>simp_all add: ops_typed_def removable_quiet_def\<close>)
      moreover have "set (rop_outs (rb_ops rb ! k)) \<subseteq> ?U"
        using True resolve_op_operands(2) [OF ro] by (metis UN_upper)
      ultimately show ?thesis using True k d(2) a(2) by (simp add: thinned_def thin_def)
    next
      case False
      have "l \<notin> ?U" if l: "l \<in> set (rop_ins (rb_ops rb ! k))" for l
      proof
        assume "l \<in> ?U"
        moreover have "(b, UseOperation ?i) \<in> uses_in ir L D l"
          using l False ib b resolve_op_operands(1) [OF ro] by (auto simp: uses_in_def)
        ultimately show False using dead by blast
      qed
      then have "set (rop_ins (rb_ops rb ! k)) \<inter> ?U = {}" by blast
      then show ?thesis using False k d(2) by (simp add: thinned_def thin_def)
    qed
  qed
  have "list_all2 (thinned sem ?U) (rb_ops rb) (rb_ops (thin D (ops_of ir b) rb))"
    by (rule list_all2_all_nthI) (use op d(2) in \<open>simp_all add: thin_def\<close>)
  moreover have "l \<notin> ?U" if l: "l \<in> set (rb_outs rb)" for l
  proof
    assume "l \<in> ?U"
    moreover obtain k where "k < length (block_outs ir b)" "block_outs ir b ! k = l"
      using l d(6) by (auto simp: in_set_conv_nth)
    then have "(b, UseBlockOutput (k mod 2 ^ 32)) \<in> uses_in ir L D l" using b by (auto simp: uses_in_def)
    ultimately show False using dead by blast
  qed
  moreover have "l \<notin> ?U" if l: "l \<in> rctl_uses (rb_ctl rb)" for l
  proof
    assume "l \<in> ?U"
    moreover have "l \<in> control_uses (bb_control (ir_blocks ir ! b))" using l resolve_control_uses r by blast
    then have "(b, UseControl) \<in> uses_in ir L D l" using b by (auto simp: uses_in_def)
    ultimately show False using dead by blast
  qed
  ultimately show ?thesis unfolding thinned_block_def by (auto simp: thin_def)
qed

subsection \<open>Properties\<close>



end
