(* ===== verification/Spec2Isabelle.thy ===== *)
theory Spec2Isabelle
  imports Assembler Big_Ints Bit_Sets Block_Scheduler Cfg_Order Cfg_Proofs Dense_Sets Dominators Effect_Order Effects Evm_Stack
    Greedy_Scheduler Index_Tables Indices Io_Groups
    Legalizer Legalizer_Proofs List_Stores Op_Graph Op_Kinds Op_Sets Opcodes Permute Plank_Evm Prelude Shuffler Sir_Builder Sir_Program
    Copy_Propagation Def_Use Operand_Edits Sir_Semantics Stack_Machine Switch_Peephole Tracked_Stack U256 Unused_Ops
begin

text \<open>
  A verification library for the Plank compiler (\<open>plankc/\<close>), a Rust compiler from the Plank
  language to EVM bytecode. The program has a front end (\<open>plankc/frontend\<close>: lexer, parser, HIR,
  compile-time evaluation, MIR) and a middle and back end for the SSA representation SIR
  (\<open>plankc/sir/crates\<close>: program data, passes, stack scheduling, assembler, code generation), both
  over the data structures of \<open>plankc/crates/plank-core\<close> and the EVM arithmetic of
  \<open>plankc/crates/plank-evm\<close>. This library models the core data structures, the EVM arithmetic, the
  tables of the operations, SIR programs with their builders, analyses and legality, passes over
  them with the semantics they are held to, and the last stretch of the back end, from the operation
  graph of a block to the assembled bytecode.

  \<^bold>\<open>Conventions.\<close> The release profile of the build checks integer overflow, so a panic (overflow,
  failed assertion, index out of range, unwrap of nothing) is the value \<open>None\<close> of an option, and
  an error of the program itself is a value inside. Machine integers are words, or naturals with
  the bound written out where the code only adds and compares. Vectors are lists, and unchecked
  accesses are modelled as checked ones, so a proof that an operation returns shows that the access
  was in range. Loops are structural recursion, recursion on a measure, or carry the loop limit the
  code has. Typed indices are plain naturals below \<open>idx_limit\<close>.

  \<^bold>\<open>Theories.\<close>
    \<^item> \<open>Prelude\<close>: word types, checked arithmetic, slices, folds with failure, vector growth.
    \<^item> \<open>Bit_Sets\<close>, \<open>Dense_Sets\<close>, \<open>Index_Tables\<close>, \<open>List_Stores\<close>, \<open>Indices\<close>, \<open>Big_Ints\<close>:
      \<open>plank-core\<close> (\<open>dense_index_set.rs\<close>, \<open>dense_index_map.rs\<close>, \<open>list_of_lists.rs\<close>, \<open>intern.rs\<close>,
      \<open>index.rs\<close>, \<open>span.rs\<close>, \<open>bigint.rs\<close>). Locales \<open>index_set\<close>, \<open>index_map\<close>, \<open>list_store\<close> state the
      contracts their clients rely on and are interpreted on the models.
    \<^item> \<open>U256\<close>, \<open>Plank_Evm\<close>: \<open>plank-evm\<close> and the evaluation of operations on constants
      (\<open>constant_propagation.rs\<close>). The 256-bit integer library is not part of the repository; it is
      a record of functions with its documented laws (\<open>u256_law\<close>), which \<open>u256_ref\<close> satisfies.
    \<^item> \<open>Op_Kinds\<close>, \<open>Effects\<close>: the operation kinds and their tables (\<open>sir/crates/data/src/operation\<close>).
    \<^item> \<open>Sir_Program\<close>, \<open>Sir_Builder\<close>: the program store with its blocks, operations, operand spans and
      views, cloning of operations (locale \<open>span_cloner\<close>), and the builders that construct programs
      (\<open>sir/crates/data/src\<close>: \<open>lib.rs\<close>, \<open>view.rs\<close>, \<open>op_data.rs\<close>, \<open>builder.rs\<close>).
    \<^item> \<open>Cfg_Order\<close>, \<open>Cfg_Proofs\<close>, \<open>Dominators\<close>: the orders of the control flow graph (reverse post
      order, reachable blocks, predecessors, owners), dominators and dominance frontiers; \<open>Io_Groups\<close>:
      the block boundaries that must agree on the layout of the stack (\<open>cfg_in_out_bundling.rs\<close>); \<open>Legalizer\<close>,
      \<open>Legalizer_Proofs\<close>: the check every program passes before it is compiled
      (\<open>passes/src/analyses\<close>).
    \<^item> \<open>Sir_Semantics\<close>: what a program computes, the specification of the passes. It has no counterpart
      in the code: a block is resolved (its spans, constants and switch tables are read from the
      store) and executed on locals and a world; operations other than constants, copies and
      calls are a parameter \<open>sem\<close>, so a pass that is right for every \<open>sem\<close> relies on no operation.
    \<^item> \<open>Switch_Peephole\<close>, \<open>Copy_Propagation\<close>, \<open>Unused_Ops\<close>: three passes (\<open>passes/src/optimizations\<close>:
      \<open>switch_peephole.rs\<close>, \<open>copy_propagation.rs\<close>, \<open>unused_operation_elimination.rs\<close>) over
      \<open>Operand_Edits\<close>, the rewriting of operands in place, and \<open>Def_Use\<close>, the table of uses
      (\<open>analyses/def_use.rs\<close>).
    \<^item> \<open>Op_Sets\<close>, \<open>Op_Graph\<close>, \<open>Effect_Order\<close>: the operation graph of a block, its builder, and the
      order of effects (\<open>stack-scheduling/src/op_graph\<close>).
    \<^item> \<open>Evm_Stack\<close>, \<open>Tracked_Stack\<close>, \<open>Stack_Machine\<close>, \<open>Shuffler\<close>: the stack scheduler's symbolic
      stack, what it emits, the meaning of the emitted operations, and the greedy shuffler
      (\<open>stack.rs\<close>, \<open>greedy_shuffler\<close>).
    \<^item> \<open>Permute\<close>, \<open>Greedy_Scheduler\<close>, \<open>Block_Scheduler\<close>: the scheduling of a block
      (\<open>greedy_intra_op_scheduler\<close>, \<open>scheduler.rs\<close>): the next operation whose predecessors are complete
      gets its operands on top, by a search for swaps and by dups, spills and loads, until all are
      emitted and the shuffler arranges the end stack.
    \<^item> \<open>Opcodes\<close>, \<open>Assembler\<close>: opcodes, disassembly and the assembler (\<open>sir/crates/assembler\<close>).

  \<^bold>\<open>What the lemmas show.\<close> Data structures: refinement of sets, maps, lists and stacks, and that no
  access is out of range. Programs: operands read back as they were built or cloned, builders
  refuse exactly what does not fit, and finished functions are well formed. Analyses: the orders
  cover exactly what the entry points reach, blocks that share successors get the same group, the dominator iteration converges to the immediate
  dominators, and what the legalizer accepts defines every local before its use, has no recursion
  and no overlapping operands. Passes: the rewritten program computes the same in the same number of
  steps for every live function, because the operands of different operations and blocks lie apart
  in a legal program and every local is defined once; what a pass is meant to remove is gone.
  Arithmetic: equality with the integers' operations, with exact bounds.
  Graph: what is built is read back, conflicting operations stay ordered and nothing else is
  ordered. Scheduling: replaying the emitted operations on a machine with spill slots gives the
  values the symbolic stack names; the shuffler reaches its target and, when everything is in
  reach, terminates; a scheduled block runs every operation once, in an order the graph allows, and
  ends with the values of its end stack. Assembler: the offsets are those of the code, references decode to what they
  refer to, and the fixed point is reached.

  \<^bold>\<open>Bounds and fuel.\<close> The loop limit of the shuffler (100000 ticks) and of the assembler (1024
  iterations) are those of the code. The shuffler's limit is enough when both stacks together are
  within reach of swap and dup, since each step then decreases a measure below the limit; the
  assembler's is enough for up to 255 references of unknown size, since each iteration that does
  not converge makes one of them longer and none longer than five bytes. The
  search for swaps recurses at most three times the length of the stack deep, since every swap of
  the search puts a value in place or frees one that need not be kept; the block scheduler has fuel
  for one round per operation and the last one, and \<open>schedule_fuel_enough\<close> shows that more changes
  nothing. The recursions over blocks and functions carry fuel that bounds their depth, and the number
  of blocks and functions is shown to be enough; the dominator loop has the limit of the code
  (100 million ticks), which is enough for 25 million blocks since a sweep settles all paths with
  one more backward edge.

  \<^bold>\<open>Not modelled.\<close> The front end, the passes that move code or change the control flow (inlining,
  block merging, critical edge splitting, SSA construction, defragmentation, the worklists of
  constant propagation), liveness, the layouts of block boundaries, static memory allocation
  and code generation from scheduled blocks are not modelled. Command line, drivers, diagnostics and file access are input and output. Vector
  capacities appear only where the code's behaviour depends on them, and hashing and growth are
  parameters with the laws their documentation states.
\<close>

end
